(* ===== verification/Prelude.thy ===== *)
theory Prelude
  imports Main "HOL-Library.Word" "HOL-Library.Monad_Syntax" "HOL-Library.Product_Lexorder"
begin

section \<open>Shared vocabulary\<close>

text \<open>
  What every component theory uses: the assertion of the option monad (an operation of the
  model is \<open>None\<close> exactly where the code hits a failing \<open>assert\<close>, \<open>GGML_ASSERT\<close> or
  \<open>GGML_ABORT\<close>, or throws), the two loop combinators for C++ range loops, and the facts about
  them, about list update and about sets of machine indices that the components share.
\<close>

subsection \<open>Assertions\<close>

definition assert_that :: "bool \<Rightarrow> unit option" where
  "assert_that b = (if b then Some () else None)"

lemma bind_assert [simp]: "(assert_that b \<bind> f) = (if b then f () else None)"
  by (simp add: assert_that_def)

lemma assert_then [simp]: "Option.bind (assert_that b) f = (if b then f () else None)"
  by (simp add: assert_that_def)

lemma assert_eq_Some [simp]: "assert_that b = Some u \<longleftrightarrow> b"
  by (simp add: assert_that_def)

lemma if_None_eq_Some [simp]: "(if b then x else None) = Some y \<longleftrightarrow> b \<and> x = Some y"
  by simp

subsection \<open>Loops over a state that may abort\<close>

text \<open>\<open>for_each f xs s\<close> runs the loop body on the elements in order and stops at the first
  failing assertion.\<close>

fun for_each :: "('a \<Rightarrow> 's \<Rightarrow> 's option) \<Rightarrow> 'a list \<Rightarrow> 's \<Rightarrow> 's option" where
  "for_each f [] s = Some s"
| "for_each f (x # xs) s = (case f x s of None \<Rightarrow> None | Some s' \<Rightarrow> for_each f xs s')"

lemma for_each_append:
  "for_each f (xs @ ys) s = (case for_each f xs s of None \<Rightarrow> None | Some s' \<Rightarrow> for_each f ys s')"
  by (induction xs arbitrary: s) (auto split: option.splits)

lemma for_each_cong [fundef_cong]:
  "xs = ys \<Longrightarrow> s = t \<Longrightarrow> (\<And>x s. x \<in> set ys \<Longrightarrow> f x s = g x s) \<Longrightarrow> for_each f xs s = for_each g ys t"
  by (induction ys arbitrary: s t xs) (auto split: option.splits)

lemma for_each_inv:
  assumes "for_each f xs s = Some s'" and "P s"
    and "\<And>x s s'. x \<in> set xs \<Longrightarrow> P s \<Longrightarrow> f x s = Some s' \<Longrightarrow> P s'"
  shows "P s'"
  using assms
proof (induction xs arbitrary: s)
  case (Cons x xs)
  from Cons.prems(1) obtain t where t: "f x s = Some t" "for_each f xs t = Some s'"
    by (auto split: option.splits)
  have "P t" using Cons.prems(2) t(1) Cons.prems(3) by auto
  with t(2) show ?case using Cons.IH Cons.prems(3) by auto
qed simp

lemma for_each_id: "(\<And>x. x \<in> set xs \<Longrightarrow> f x s = Some s) \<Longrightarrow> for_each f xs s = Some s"
  by (induction xs) auto

lemma for_each_commute:
  assumes "\<And>x s. f x (g s) = map_option g (f x s)"
  shows "for_each f xs (g s) = map_option g (for_each f xs s)"
  by (induction xs arbitrary: s) (auto simp: assms split: option.splits)

text \<open>Total form: an invariant indexed by the part of the list already done.\<close>

lemma for_each_total:
  assumes "P [] s"
    and "\<And>done x rest s. xs = done @ x # rest \<Longrightarrow> P done s \<Longrightarrow> \<exists>s'. f x s = Some s' \<and> P (done @ [x]) s'"
  shows "\<exists>s'. for_each f xs s = Some s' \<and> P xs s'"
  using assms
proof (induction xs rule: rev_induct)
  case (snoc x xs)
  have "\<exists>s'. for_each f xs s = Some s' \<and> P xs s'"
    using snoc.prems by (intro snoc.IH) auto
  then obtain t where t: "for_each f xs s = Some t" "P xs t" by blast
  from snoc.prems(2) [of xs x "[]"] t(2) obtain u where "f x t = Some u" "P (xs @ [x]) u" by auto
  with t(1) show ?case by (auto simp: for_each_append)
qed simp

subsection \<open>Lists updated by index\<close>

lemma nth_list_update_if:
  "i < length xs \<Longrightarrow> xs[i := v] ! j = (if j = i then v else xs ! j)"
  by (auto simp: nth_list_update)

lemma upt_split: "i < n \<Longrightarrow> [0..<n] = [0..<i] @ i # [Suc i..<n]"
  using upt_add_eq_append [of 0 i "n - i"] upt_conv_Cons [of i n] by simp

lemma upt_eq_splitD:
  assumes "[0..<b] = done @ i # rest"
  shows "length done = i" "i < b" "done = [0..<i]"
proof -
  have len: "length done < length [0..<b]" by (simp add: assms)
  then have "i = [0..<b] ! length done" by (simp add: assms)
  with len show i: "length done = i" "i < b" by auto
  have "done = take (length done) [0..<b]" by (simp add: assms)
  then show "done = [0..<i]" using i by (simp add: take_upt)
qed

end
