(* ===== verification/Kv_Cells.thy ===== *)
theory Kv_Cells
  imports Prelude
begin

section \<open>KV cell metadata (src/llama-kv-cells.h)\<close>

text \<open>
  \<open>class llama_kv_cells\<close>: for each cell of the KV cache its position, its 2D/token extension, the
  shift accumulated since the last \<open>reset_shift\<close>, and the set of sequences it belongs to, together
  with two derived indices: \<open>used\<close>, the occupied cells, and \<open>seq_pos[s]\<close>, the (position, cell)
  pairs of sequence \<open>s\<close> in order. The theory defines every operation of the class, states the
  invariant that ties the indices to the cells, and shows that each operation keeps it and never
  trips an internal assertion when its "call only if" precondition holds.

  Positions, tokens and sequence ids are \<open>int\<close> (\<open>llama_pos\<close>, \<open>llama_token\<close> and \<open>llama_seq_id\<close> are
  \<open>int32_t\<close>; signed overflow is undefined in C++ and is not modelled), cell indices are \<open>nat\<close>.
  \<open>std::bitset\<close> and \<open>std::set\<close> are sets; \<open>begin\<close>/\<open>rbegin\<close> of an ordered set are \<open>Min\<close>/\<open>Max\<close>. An
  operation returns \<open>None\<close> where an \<open>assert\<close> of the code fails, or where it would index a vector
  out of range.
\<close>

subsection \<open>Data\<close>

definition LLAMA_MAX_SEQ :: int where
  "LLAMA_MAX_SEQ = 256"

definition LLAMA_TOKEN_NULL :: int where
  "LLAMA_TOKEN_NULL = -1"

record kv_cell_ext =
  ext_x :: int
  ext_y :: int
  ext_tok :: int

definition kv_cell_ext_default :: kv_cell_ext where
  "kv_cell_ext_default = \<lparr>ext_x = 0, ext_y = 0, ext_tok = LLAMA_TOKEN_NULL\<rparr>"

definition is_2d_gt :: "kv_cell_ext \<Rightarrow> int \<Rightarrow> int \<Rightarrow> bool" where
  "is_2d_gt e ox oy = (ext_y e > oy \<or> (ext_y e = oy \<and> ext_x e > ox))"

record kv_cells =
  kc_has_shift :: bool
  kc_used :: "nat set"
  kc_pos :: "int list"
  kc_ext :: "kv_cell_ext list"
  kc_shift :: "int list"
  kc_seq :: "int set list"
  kc_seq_pos :: "int \<Rightarrow> (int \<times> nat) set"

definition seq_ids :: "int list" where
  "seq_ids = [0..LLAMA_MAX_SEQ - 1]"

lemma set_seq_ids [simp]: "s \<in> set seq_ids \<longleftrightarrow> 0 \<le> s \<and> s < LLAMA_MAX_SEQ"
  by (auto simp: seq_ids_def)

definition cells_new :: kv_cells where
  "cells_new = \<lparr>kc_has_shift = False, kc_used = {}, kc_pos = [], kc_ext = [], kc_shift = [],
     kc_seq = [], kc_seq_pos = (\<lambda>_. {})\<rparr>"

definition cells_size :: "kv_cells \<Rightarrow> nat" where
  "cells_size c = length (kc_pos c)"

subsection \<open>The position index\<close>

definition seq_pos_dec :: "int \<Rightarrow> nat \<Rightarrow> kv_cells \<Rightarrow> kv_cells option" where
  "seq_pos_dec s i c = do {
     assert_that ((kc_pos c ! i, i) \<in> kc_seq_pos c s);
     Some (c\<lparr>kc_seq_pos := (kc_seq_pos c)(s := kc_seq_pos c s - {(kc_pos c ! i, i)})\<rparr>) }"

definition seq_pos_inc :: "int \<Rightarrow> nat \<Rightarrow> kv_cells \<Rightarrow> kv_cells" where
  "seq_pos_inc s i c = c\<lparr>kc_seq_pos := (kc_seq_pos c)(s := insert (kc_pos c ! i, i) (kc_seq_pos c s))\<rparr>"

definition seq_pos_rm :: "nat \<Rightarrow> kv_cells \<Rightarrow> kv_cells option" where
  "seq_pos_rm i c = for_each (\<lambda>s c. if s \<in> kc_seq c ! i then seq_pos_dec s i c else Some c) seq_ids c"

definition seq_pos_add :: "nat \<Rightarrow> kv_cells \<Rightarrow> kv_cells" where
  "seq_pos_add i c = fold (\<lambda>s c. if s \<in> kc_seq c ! i then seq_pos_inc s i c else c) seq_ids c"

subsection \<open>Whole-store operations\<close>

definition cells_reset :: "kv_cells \<Rightarrow> kv_cells" where
  "cells_reset c = (let n = cells_size c in
     c\<lparr>kc_pos := replicate n (-1), kc_ext := replicate n kv_cell_ext_default,
       kc_shift := replicate n 0, kc_seq := replicate n {},
       kc_has_shift := False, kc_used := {},
       kc_seq_pos := (\<lambda>s. if s \<in> set seq_ids then {} else kc_seq_pos c s)\<rparr>)"

definition cells_reset_shift :: "kv_cells \<Rightarrow> kv_cells" where
  "cells_reset_shift c = c\<lparr>kc_has_shift := False, kc_shift := replicate (length (kc_shift c)) 0\<rparr>"

definition vec_resize :: "nat \<Rightarrow> 'a \<Rightarrow> 'a list \<Rightarrow> 'a list" where
  "vec_resize n d xs = take n xs @ replicate (n - length xs) d"

definition cells_resize :: "nat \<Rightarrow> kv_cells \<Rightarrow> kv_cells" where
  "cells_resize n c = cells_reset (c\<lparr>kc_pos := vec_resize n 0 (kc_pos c),
     kc_ext := vec_resize n kv_cell_ext_default (kc_ext c),
     kc_shift := vec_resize n 0 (kc_shift c), kc_seq := vec_resize n {} (kc_seq c)\<rparr>)"

subsection \<open>Queries\<close>

definition cells_is_empty :: "nat \<Rightarrow> kv_cells \<Rightarrow> bool option" where
  "cells_is_empty i c = do {
     assert_that (i < cells_size c);
     assert_that ((kc_pos c ! i < 0 \<and> kc_pos c ! i = -1) \<or> kc_pos c ! i \<ge> 0);
     Some (kc_pos c ! i = -1) }"

definition cells_get_used :: "kv_cells \<Rightarrow> nat" where
  "cells_get_used c = card (kc_used c)"

definition cells_used_min :: "kv_cells \<Rightarrow> nat" where
  "cells_used_min c = (if kc_used c = {} then 0 else Min (kc_used c))"

definition cells_used_max_p1 :: "kv_cells \<Rightarrow> nat" where
  "cells_used_max_p1 c = (if kc_used c = {} then 0 else Max (kc_used c) + 1)"

definition cells_seq_count :: "nat \<Rightarrow> kv_cells \<Rightarrow> nat option" where
  "cells_seq_count i c = do {
     assert_that (i < cells_size c);
     assert_that (kc_pos c ! i \<noteq> -1);
     Some (card (kc_seq c ! i)) }"

definition cells_seq_has :: "nat \<Rightarrow> int \<Rightarrow> kv_cells \<Rightarrow> bool option" where
  "cells_seq_has i s c = do {
     assert_that (i < cells_size c);
     assert_that (s \<ge> 0);
     assert_that (s < LLAMA_MAX_SEQ);
     Some (s \<in> kc_seq c ! i) }"

definition cells_seq_pos_tok_le :: "int \<Rightarrow> int \<Rightarrow> kv_cells \<Rightarrow> int option" where
  "cells_seq_pos_tok_le s p c = do {
     assert_that (s \<ge> 0 \<and> s < LLAMA_MAX_SEQ);
     let below = {e \<in> kc_seq_pos c s. e \<le> (p, 2 ^ 32 - 1)};
     Some (if below = {} then LLAMA_TOKEN_NULL else ext_tok (kc_ext c ! snd (Max below))) }"

definition cells_seq_get :: "nat \<Rightarrow> kv_cells \<Rightarrow> int option" where
  "cells_seq_get i c = do {
     assert_that (i < cells_size c);
     assert_that (card (kc_seq c ! i) = 1);
     Some (case find (\<lambda>s. s \<in> kc_seq c ! i) seq_ids of Some s \<Rightarrow> s | None \<Rightarrow> -1) }"

definition cells_seq_pos_min :: "int \<Rightarrow> kv_cells \<Rightarrow> int option" where
  "cells_seq_pos_min s c = do {
     assert_that (s \<ge> 0 \<and> s < LLAMA_MAX_SEQ);
     Some (if kc_seq_pos c s = {} then -1 else fst (Min (kc_seq_pos c s))) }"

definition cells_seq_pos_max :: "int \<Rightarrow> kv_cells \<Rightarrow> int option" where
  "cells_seq_pos_max s c = do {
     assert_that (s \<ge> 0 \<and> s < LLAMA_MAX_SEQ);
     Some (if kc_seq_pos c s = {} then -1 else fst (Max (kc_seq_pos c s))) }"

definition cells_seq_covers_used :: "int \<Rightarrow> kv_cells \<Rightarrow> bool option" where
  "cells_seq_covers_used s c = do {
     assert_that (s \<ge> 0 \<and> s < LLAMA_MAX_SEQ);
     Some (card (kc_seq_pos c s) = card (kc_used c)) }"

definition cells_pos_get :: "nat \<Rightarrow> kv_cells \<Rightarrow> int option" where
  "cells_pos_get i c = do {
     assert_that (i < cells_size c); assert_that (kc_pos c ! i \<noteq> -1); Some (kc_pos c ! i) }"

definition cells_ext_get :: "nat \<Rightarrow> kv_cells \<Rightarrow> kv_cell_ext option" where
  "cells_ext_get i c = do {
     assert_that (i < cells_size c); assert_that (kc_pos c ! i \<noteq> -1); Some (kc_ext c ! i) }"

definition cells_get_shift :: "nat \<Rightarrow> kv_cells \<Rightarrow> int option" where
  "cells_get_shift i c = do {
     assert_that (i < cells_size c); assert_that (kc_pos c ! i \<noteq> -1); Some (kc_shift c ! i) }"

definition cells_pos_in :: "nat \<Rightarrow> int \<Rightarrow> int \<Rightarrow> kv_cells \<Rightarrow> bool option" where
  "cells_pos_in i p0 p1 c = do {
     assert_that (i < cells_size c);
     Some (kc_pos c ! i \<ge> p0 \<and> kc_pos c ! i < p1) }"

subsection \<open>Updates of one cell\<close>

definition cell_clear :: "nat \<Rightarrow> kv_cells \<Rightarrow> kv_cells" where
  "cell_clear i c = c\<lparr>kc_pos := (kc_pos c)[i := -1], kc_ext := (kc_ext c)[i := kv_cell_ext_default],
     kc_shift := (kc_shift c)[i := 0], kc_used := kc_used c - {i}\<rparr>"

definition cells_rm :: "nat \<Rightarrow> kv_cells \<Rightarrow> kv_cells option" where
  "cells_rm i c = do {
     assert_that (i < cells_size c);
     assert_that (kc_pos c ! i \<noteq> -1);
     c \<leftarrow> seq_pos_rm i c;
     Some (cell_clear i (c\<lparr>kc_seq := (kc_seq c)[i := {}]\<rparr>)) }"

definition cells_seq_rm :: "nat \<Rightarrow> int \<Rightarrow> kv_cells \<Rightarrow> (kv_cells \<times> bool) option" where
  "cells_seq_rm i s c = do {
     assert_that (i < cells_size c);
     assert_that (s < LLAMA_MAX_SEQ);
     assert_that (s \<in> kc_seq c ! i);
     assert_that (kc_pos c ! i \<noteq> -1);
     assert_that (s \<ge> 0);
     let c = c\<lparr>kc_seq := (kc_seq c)[i := kc_seq c ! i - {s}]\<rparr>;
     c \<leftarrow> seq_pos_dec s i c;
     Some (if kc_seq c ! i = {} then (cell_clear i c, True) else (c, False)) }"

definition cells_seq_keep :: "nat \<Rightarrow> int \<Rightarrow> kv_cells \<Rightarrow> (kv_cells \<times> bool) option" where
  "cells_seq_keep i s c = do {
     assert_that (i < cells_size c);
     assert_that (s \<ge> 0 \<and> s < LLAMA_MAX_SEQ);
     if s \<in> kc_seq c ! i then do {
       c \<leftarrow> seq_pos_rm i c;
       let c = c\<lparr>kc_seq := (kc_seq c)[i := {}]\<rparr>;
       let c = c\<lparr>kc_seq := (kc_seq c)[i := {s}]\<rparr>;
       Some (seq_pos_inc s i c, False) }
     else if kc_seq c ! i \<noteq> {} then do {
       c \<leftarrow> seq_pos_rm i c;
       Some (cell_clear i (c\<lparr>kc_seq := (kc_seq c)[i := {}]\<rparr>), True) }
     else do {
       assert_that (kc_pos c ! i = -1);
       Some (c, False) } }"

definition cells_seq_add :: "nat \<Rightarrow> int \<Rightarrow> kv_cells \<Rightarrow> kv_cells option" where
  "cells_seq_add i s c = do {
     assert_that (i < cells_size c);
     assert_that (kc_pos c ! i \<noteq> -1);
     assert_that (s \<ge> 0 \<and> s < LLAMA_MAX_SEQ);
     assert_that (s \<notin> kc_seq c ! i);
     let c = c\<lparr>kc_seq := (kc_seq c)[i := insert s (kc_seq c ! i)]\<rparr>;
     Some (seq_pos_inc s i c) }"

definition cells_pos_set :: "nat \<Rightarrow> int \<Rightarrow> kv_cells \<Rightarrow> kv_cells option" where
  "cells_pos_set i p c = do {
     assert_that (i < cells_size c);
     assert_that (kc_pos c ! i = -1);
     assert_that (kc_seq c ! i = {});
     Some (c\<lparr>kc_pos := (kc_pos c)[i := p], kc_used := insert i (kc_used c)\<rparr>) }"

definition cells_ext_set :: "nat \<Rightarrow> kv_cell_ext \<Rightarrow> kv_cells \<Rightarrow> kv_cells option" where
  "cells_ext_set i e c = do {
     assert_that (i < length (kc_ext c));
     Some (c\<lparr>kc_ext := (kc_ext c)[i := e]\<rparr>) }"

definition cells_pos_add :: "nat \<Rightarrow> int \<Rightarrow> kv_cells \<Rightarrow> (kv_cells \<times> bool) option" where
  "cells_pos_add i d c = do {
     assert_that (i < cells_size c);
     assert_that (kc_pos c ! i \<noteq> -1);
     c \<leftarrow> seq_pos_rm i c;
     let c = c\<lparr>kc_pos := (kc_pos c)[i := kc_pos c ! i + d],
               kc_shift := (kc_shift c)[i := kc_shift c ! i + d], kc_has_shift := True\<rparr>;
     Some (if kc_pos c ! i < 0
           then (c\<lparr>kc_seq := (kc_seq c)[i := {}], kc_pos := (kc_pos c)[i := -1],
                   kc_shift := (kc_shift c)[i := 0], kc_used := kc_used c - {i}\<rparr>, True)
           else (seq_pos_add i c, False)) }"

text \<open>C++ division truncates towards zero.\<close>

definition tdiv :: "int \<Rightarrow> int \<Rightarrow> int" where
  "tdiv a b = sgn a * sgn b * (\<bar>a\<bar> div \<bar>b\<bar>)"

definition cells_pos_div :: "nat \<Rightarrow> int \<Rightarrow> kv_cells \<Rightarrow> kv_cells option" where
  "cells_pos_div i d c = do {
     assert_that (i < cells_size c);
     assert_that (kc_pos c ! i \<noteq> -1);
     assert_that (d \<noteq> 0);
     let p_old = kc_pos c ! i;
     c \<leftarrow> seq_pos_rm i c;
     let c = c\<lparr>kc_pos := (kc_pos c)[i := tdiv (kc_pos c ! i) d]\<rparr>;
     let c = c\<lparr>kc_shift := (kc_shift c)[i := kc_shift c ! i + (p_old - kc_pos c ! i)]\<rparr>;
     Some ((seq_pos_add i c)\<lparr>kc_has_shift := True\<rparr>) }"

subsection \<open>Saving and restoring cells\<close>

definition cells_cp_idxs :: "nat list \<Rightarrow> kv_cells \<Rightarrow> kv_cells option" where
  "cells_cp_idxs idxs c = for_each (\<lambda>j r. let idx = idxs ! j in do {
     assert_that (idx < cells_size c);
     assert_that (kc_shift c ! idx = 0);
     Some (r\<lparr>kc_pos := (kc_pos r)[j := kc_pos c ! idx], kc_ext := (kc_ext r)[j := kc_ext c ! idx],
             kc_seq := (kc_seq r)[j := kc_seq c ! idx]\<rparr>) })
     [0..<length idxs] (cells_resize (length idxs) cells_new)"

definition cells_cp :: "nat \<Rightarrow> nat \<Rightarrow> kv_cells \<Rightarrow> kv_cells option" where
  "cells_cp i n c = do {
     assert_that (i + n \<le> cells_size c);
     for_each (\<lambda>j r. let idx = i + j in do {
       assert_that (kc_shift c ! idx = 0);
       Some (r\<lparr>kc_pos := (kc_pos r)[j := kc_pos c ! idx], kc_ext := (kc_ext r)[j := kc_ext c ! idx],
               kc_seq := (kc_seq r)[j := kc_seq c ! idx]\<rparr>) })
     [0..<n] (cells_resize n cells_new) }"

definition cells_set_one :: "kv_cells \<Rightarrow> nat \<Rightarrow> nat \<Rightarrow> kv_cells \<Rightarrow> kv_cells option" where
  "cells_set_one other idx j c = do {
     assert_that (idx < cells_size c);
     let c = (if kc_pos c ! idx = -1 \<and> kc_pos other ! j \<noteq> -1
              then c\<lparr>kc_used := insert idx (kc_used c)\<rparr> else c);
     let c = (if kc_pos c ! idx \<noteq> -1 \<and> kc_pos other ! j = -1
              then c\<lparr>kc_used := kc_used c - {idx}\<rparr> else c);
     c \<leftarrow> (if kc_pos c ! idx \<noteq> -1 then seq_pos_rm idx c else Some c);
     let c = c\<lparr>kc_pos := (kc_pos c)[idx := kc_pos other ! j], kc_ext := (kc_ext c)[idx := kc_ext other ! j],
               kc_seq := (kc_seq c)[idx := kc_seq other ! j]\<rparr>;
     let c = (if kc_pos c ! idx \<noteq> -1 then seq_pos_add idx c else c);
     assert_that (kc_shift c ! idx = 0);
     Some c }"

definition cells_set :: "nat \<Rightarrow> kv_cells \<Rightarrow> kv_cells \<Rightarrow> kv_cells option" where
  "cells_set i other c = do {
     assert_that (i + cells_size other \<le> cells_size c);
     for_each (\<lambda>j. cells_set_one other (i + j) j) [0..<cells_size other] c }"

definition cells_set_idxs :: "nat list \<Rightarrow> kv_cells \<Rightarrow> kv_cells \<Rightarrow> kv_cells option" where
  "cells_set_idxs idxs other c = do {
     assert_that (length idxs = cells_size other);
     for_each (\<lambda>j. cells_set_one other (idxs ! j) j) [0..<cells_size other] c }"

subsection \<open>The invariant\<close>

text \<open>The four vectors have one length, an empty cell carries no sequence and no shift, and the two
  indices list exactly the occupied cells and the (position, cell) pairs of each sequence.\<close>

definition cells_inv :: "kv_cells \<Rightarrow> bool" where
  "cells_inv c \<longleftrightarrow>
     length (kc_ext c) = cells_size c \<and> length (kc_shift c) = cells_size c \<and>
     length (kc_seq c) = cells_size c \<and>
     (\<forall>i < cells_size c. kc_pos c ! i \<ge> -1) \<and>
     (\<forall>i < cells_size c. kc_pos c ! i = -1 \<longrightarrow> kc_seq c ! i = {} \<and> kc_shift c ! i = 0) \<and>
     (\<forall>i < cells_size c. kc_seq c ! i \<subseteq> set seq_ids) \<and>
     kc_used c = {i. i < cells_size c \<and> kc_pos c ! i \<noteq> -1} \<and>
     (\<forall>s. kc_seq_pos c s = {(kc_pos c ! i, i) | i. i < cells_size c \<and> s \<in> kc_seq c ! i})"

lemma cells_invD:
  assumes "cells_inv c"
  shows "length (kc_ext c) = cells_size c" "length (kc_shift c) = cells_size c"
    "length (kc_seq c) = cells_size c" "length (kc_pos c) = cells_size c"
    "i < cells_size c \<Longrightarrow> kc_pos c ! i \<ge> -1"
    "i < cells_size c \<Longrightarrow> kc_pos c ! i = -1 \<Longrightarrow> kc_seq c ! i = {}"
    "i < cells_size c \<Longrightarrow> kc_pos c ! i = -1 \<Longrightarrow> kc_shift c ! i = 0"
    "i < cells_size c \<Longrightarrow> kc_seq c ! i \<subseteq> set seq_ids"
    "i \<in> kc_used c \<longleftrightarrow> i < cells_size c \<and> kc_pos c ! i \<noteq> -1"
    "(p, i) \<in> kc_seq_pos c s \<longleftrightarrow> i < cells_size c \<and> p = kc_pos c ! i \<and> s \<in> kc_seq c ! i"
  using assms unfolding cells_inv_def cells_size_def by (simp_all, auto)

text \<open>The effect every single-cell update has on the store: cell \<open>i\<close> gets new contents and the two
  indices follow.\<close>

definition cells_put :: "nat \<Rightarrow> int \<Rightarrow> kv_cell_ext \<Rightarrow> int \<Rightarrow> int set \<Rightarrow> kv_cells \<Rightarrow> kv_cells" where
  "cells_put i p e sh S c = c\<lparr>kc_pos := (kc_pos c)[i := p], kc_ext := (kc_ext c)[i := e],
     kc_shift := (kc_shift c)[i := sh], kc_seq := (kc_seq c)[i := S],
     kc_used := (if p = -1 then kc_used c - {i} else insert i (kc_used c)),
     kc_seq_pos := (\<lambda>s. (if s \<in> S then insert (p, i) else id) (kc_seq_pos c s - {(kc_pos c ! i, i)}))\<rparr>"

lemma size_cells_put [simp]: "cells_size (cells_put i p e sh S c) = cells_size c"
  by (simp add: cells_put_def cells_size_def)

lemma size_has_shift [simp]: "cells_size (c\<lparr>kc_has_shift := b\<rparr>) = cells_size c"
  by (simp add: cells_size_def)

lemma inv_has_shift [simp]: "cells_inv (c\<lparr>kc_has_shift := b\<rparr>) \<longleftrightarrow> cells_inv c"
  by (simp add: cells_inv_def)

lemma cells_put_nth:
  assumes "cells_inv c" "i < cells_size c" "j < cells_size c"
  shows "kc_pos (cells_put i p e sh S c) ! j = (if j = i then p else kc_pos c ! j)"
    "kc_ext (cells_put i p e sh S c) ! j = (if j = i then e else kc_ext c ! j)"
    "kc_shift (cells_put i p e sh S c) ! j = (if j = i then sh else kc_shift c ! j)"
    "kc_seq (cells_put i p e sh S c) ! j = (if j = i then S else kc_seq c ! j)"
  using assms(2,3) cells_invD(1-4) [OF assms(1)]
  by (simp_all add: cells_put_def nth_list_update_if)

lemma cells_put_index:
  assumes "cells_inv c" "i < cells_size c"
  shows "j \<in> kc_used (cells_put i p e sh S c) \<longleftrightarrow>
      (if j = i then p \<noteq> -1 else j < cells_size c \<and> kc_pos c ! j \<noteq> -1)"
    "(q, j) \<in> kc_seq_pos (cells_put i p e sh S c) s \<longleftrightarrow>
      (if j = i then q = p \<and> s \<in> S else j < cells_size c \<and> q = kc_pos c ! j \<and> s \<in> kc_seq c ! j)"
  using assms(2) cells_invD(9,10) [OF assms(1)] by (auto simp: cells_put_def)

lemma cells_put_len:
  assumes "cells_inv c"
  shows "length (kc_ext (cells_put i p e sh S c)) = cells_size c"
    "length (kc_shift (cells_put i p e sh S c)) = cells_size c"
    "length (kc_seq (cells_put i p e sh S c)) = cells_size c"
  using cells_invD(1-4) [OF assms] by (simp_all add: cells_put_def)

lemma cells_put_inv:
  assumes "cells_inv c" "i < cells_size c" "p \<ge> -1" "p = -1 \<Longrightarrow> S = {} \<and> sh = 0"
    "S \<subseteq> set seq_ids"
  shows "cells_inv (cells_put i p e sh S c)"
proof -
  let ?c = "cells_put i p e sh S c"
  note D = cells_invD [OF assms(1)] and N = cells_put_nth [OF assms(1,2)]
    and I = cells_put_index [OF assms(1,2)]
  show ?thesis
    unfolding cells_inv_def size_cells_put
  proof (intro conjI allI impI cells_put_len [OF assms(1)])
    fix j assume j: "j < cells_size c"
    show "-1 \<le> kc_pos ?c ! j" using assms(3) D(5) [OF j] N(1) [OF j] by simp
    show "kc_seq ?c ! j \<subseteq> set seq_ids" using assms(5) D(8) [OF j] N(4) [OF j] by simp
    assume "kc_pos ?c ! j = -1"
    then show "kc_seq ?c ! j = {}" "kc_shift ?c ! j = 0"
      using assms(4) D(6,7) [OF j] N [OF j] by (auto split: if_splits)
  next
    show "kc_used ?c = {j. j < cells_size c \<and> kc_pos ?c ! j \<noteq> -1}"
      using assms(2) I(1) N(1) by (auto split: if_splits)
  next
    fix s
    show "kc_seq_pos ?c s = {(kc_pos ?c ! j, j) |j. j < cells_size c \<and> s \<in> kc_seq ?c ! j}"
    proof (intro set_eqI, clarify)
      fix q j
      show "(q, j) \<in> kc_seq_pos ?c s \<longleftrightarrow>
          (q, j) \<in> {(kc_pos ?c ! j, j) |j. j < cells_size c \<and> s \<in> kc_seq ?c ! j}"
        using assms(2) I(2) [of q j] N(1,4) [of j] by auto
    qed
  qed
qed

lemma seq_pos_upd_cong:
  "(\<And>s. g s = h s) \<Longrightarrow> c\<lparr>kc_seq_pos := g\<rparr> = c\<lparr>kc_seq_pos := h\<rparr>"
  by (metis ext)

lemma seq_pos_dec_loop:
  assumes "distinct xs" and "\<forall>s \<in> set xs. s \<in> kc_seq c ! i \<longrightarrow> (kc_pos c ! i, i) \<in> kc_seq_pos c s"
  shows "for_each (\<lambda>s c. if s \<in> kc_seq c ! i then seq_pos_dec s i c else Some c) xs c =
    Some (c\<lparr>kc_seq_pos := (\<lambda>s. if s \<in> set xs \<and> s \<in> kc_seq c ! i
       then kc_seq_pos c s - {(kc_pos c ! i, i)} else kc_seq_pos c s)\<rparr>)"
  using assms
proof (induction xs arbitrary: c)
  case (Cons x xs)
  show ?case
  proof (cases "x \<in> kc_seq c ! i")
    case True
    let ?d = "c\<lparr>kc_seq_pos := (kc_seq_pos c)(x := kc_seq_pos c x - {(kc_pos c ! i, i)})\<rparr>"
    have "\<forall>s \<in> set xs. s \<in> kc_seq ?d ! i \<longrightarrow> (kc_pos ?d ! i, i) \<in> kc_seq_pos ?d s"
      using Cons.prems by auto
    with Cons.prems True show ?thesis
      by (simp add: seq_pos_dec_def Cons.IH) (rule seq_pos_upd_cong, auto)
  next
    case False
    with Cons.prems show ?thesis
      by (simp add: Cons.IH) (rule seq_pos_upd_cong, auto)
  qed
qed simp

lemma seq_pos_inc_loop:
  "fold (\<lambda>s c. if s \<in> kc_seq c ! i then seq_pos_inc s i c else c) xs c =
    c\<lparr>kc_seq_pos := (\<lambda>s. if s \<in> set xs \<and> s \<in> kc_seq c ! i
       then insert (kc_pos c ! i, i) (kc_seq_pos c s) else kc_seq_pos c s)\<rparr>"
  by (induction xs arbitrary: c) (auto simp: seq_pos_inc_def fun_eq_iff)

text \<open>Under the invariant the assertion \<open>n == 1\<close> of \<open>seq_pos_dec\<close> never fails.\<close>

lemma seq_pos_rm_eq:
  assumes "cells_inv c" "i < cells_size c"
  shows "seq_pos_rm i c = Some (c\<lparr>kc_seq_pos := (\<lambda>s. kc_seq_pos c s - {(kc_pos c ! i, i)})\<rparr>)"
proof -
  note D = cells_invD [OF assms(1)]
  have "distinct seq_ids" by (simp add: seq_ids_def)
  moreover have "\<forall>s \<in> set seq_ids. s \<in> kc_seq c ! i \<longrightarrow> (kc_pos c ! i, i) \<in> kc_seq_pos c s"
    using assms(2) by (simp add: D(10))
  ultimately show ?thesis
    unfolding seq_pos_rm_def using D(8) [OF assms(2)] D(10) [of "kc_pos c ! i" i]
    by (simp add: seq_pos_dec_loop) (rule seq_pos_upd_cong, auto)
qed

lemma seq_pos_add_eq:
  assumes "kc_seq c ! i \<subseteq> set seq_ids"
  shows "seq_pos_add i c = c\<lparr>kc_seq_pos := (\<lambda>s. if s \<in> kc_seq c ! i
       then insert (kc_pos c ! i, i) (kc_seq_pos c s) else kc_seq_pos c s)\<rparr>"
  unfolding seq_pos_add_def seq_pos_inc_loop using assms by (intro seq_pos_upd_cong) auto

subsection \<open>Each update is one put\<close>

text \<open>Under its precondition every update of the class succeeds, and its effect is a
  \<open>cells_put\<close>. These equations carry all later proofs.\<close>

lemma cells_rm_eq:
  assumes "cells_inv c" "i < cells_size c" "kc_pos c ! i \<noteq> -1"
  shows "cells_rm i c = Some (cells_put i (-1) kv_cell_ext_default 0 {} c)"
  using assms by (simp add: cells_rm_def seq_pos_rm_eq cell_clear_def cells_put_def)

lemma cells_seq_rm_eq:
  assumes "cells_inv c" "i < cells_size c" "s \<in> kc_seq c ! i"
  shows "cells_seq_rm i s c = Some
    (if kc_seq c ! i = {s} then (cells_put i (-1) kv_cell_ext_default 0 {} c, True)
     else (cells_put i (kc_pos c ! i) (kc_ext c ! i) (kc_shift c ! i) (kc_seq c ! i - {s}) c, False))"
proof -
  note D = cells_invD [OF assms(1)]
  have p: "kc_pos c ! i \<noteq> -1" and s: "0 \<le> s" "s < LLAMA_MAX_SEQ"
    using D(6,8) [OF assms(2)] assms(3) by auto
  have u: "insert i (kc_used c) = kc_used c" using D(9) [of i] assms(2) p by auto
  let ?g = "(kc_seq_pos c)(s := kc_seq_pos c s - {(kc_pos c ! i, i)})"
  have dec: "seq_pos_dec s i (c\<lparr>kc_seq := (kc_seq c)[i := kc_seq c ! i - {s}]\<rparr>) =
      Some (c\<lparr>kc_seq := (kc_seq c)[i := kc_seq c ! i - {s}], kc_seq_pos := ?g\<rparr>)"
    using D(10) [of "kc_pos c ! i" i s] assms(2,3) by (simp add: seq_pos_dec_def)
  show ?thesis
  proof (cases "kc_seq c ! i = {s}")
    case True
    have "?g = (\<lambda>t. kc_seq_pos c t - {(kc_pos c ! i, i)})"
      using D(10) [of "kc_pos c ! i" i] True by (intro ext) auto
    with True assms p s dec show ?thesis
      by (simp add: cells_seq_rm_def cell_clear_def cells_put_def D(3))
  next
    case False
    then have ne: "kc_seq c ! i - {s} \<noteq> {}" using assms(3) by auto
    have "?g = (\<lambda>t. (if t \<in> kc_seq c ! i - {s} then insert (kc_pos c ! i, i) else id)
        (kc_seq_pos c t - {(kc_pos c ! i, i)}))"
      using D(10) [of "kc_pos c ! i" i] assms(2) by (intro ext) auto
    then have "c\<lparr>kc_seq := (kc_seq c)[i := kc_seq c ! i - {s}], kc_seq_pos := ?g\<rparr> =
        cells_put i (kc_pos c ! i) (kc_ext c ! i) (kc_shift c ! i) (kc_seq c ! i - {s}) c"
      using p u by (simp add: cells_put_def)
    with False ne assms p s dec cells_put_nth(4) [OF assms(1,2,2)] show ?thesis
      by (simp add: cells_seq_rm_def D(3))
  qed
qed

lemma cells_seq_keep_eq:
  assumes "cells_inv c" "i < cells_size c" "0 \<le> s" "s < LLAMA_MAX_SEQ" "kc_pos c ! i \<noteq> -1 \<Longrightarrow> kc_seq c ! i \<noteq> {}"
  shows "cells_seq_keep i s c = Some
    (if s \<in> kc_seq c ! i then (cells_put i (kc_pos c ! i) (kc_ext c ! i) (kc_shift c ! i) {s} c, False)
     else if kc_pos c ! i \<noteq> -1 then (cells_put i (-1) kv_cell_ext_default 0 {} c, True)
     else (c, False))"
proof -
  note D = cells_invD [OF assms(1)]
  have e: "kc_seq c ! i = {}" if "kc_pos c ! i = -1" using D(6) [OF assms(2) that] .
  show ?thesis
  proof (cases "s \<in> kc_seq c ! i")
    case True
    then have p: "kc_pos c ! i \<noteq> -1" using e by auto
    then have u: "insert i (kc_used c) = kc_used c" using D(9) [of i] assms(2) by auto
    let ?h = "\<lambda>t. kc_seq_pos c t - {(kc_pos c ! i, i)}"
    have "?h(s := insert (kc_pos c ! i, i) (?h s)) = (\<lambda>t. (if t \<in> {s} then insert (kc_pos c ! i, i) else id)
        (kc_seq_pos c t - {(kc_pos c ! i, i)}))" by (intro ext) auto
    with True p u assms show ?thesis
      by (simp add: cells_seq_keep_def seq_pos_rm_eq seq_pos_inc_def cells_put_def)
  next
    case False
    with e assms show ?thesis
      by (cases "kc_pos c ! i = -1")
        (simp_all add: cells_seq_keep_def seq_pos_rm_eq cell_clear_def cells_put_def)
  qed
qed

lemma cells_seq_add_eq:
  assumes "cells_inv c" "i < cells_size c" "kc_pos c ! i \<noteq> -1" "0 \<le> s" "s < LLAMA_MAX_SEQ" "s \<notin> kc_seq c ! i"
  shows "cells_seq_add i s c =
    Some (cells_put i (kc_pos c ! i) (kc_ext c ! i) (kc_shift c ! i) (insert s (kc_seq c ! i)) c)"
proof -
  note D = cells_invD [OF assms(1)]
  have u: "insert i (kc_used c) = kc_used c" using D(9) [of i] assms(2,3) by auto
  have "(kc_seq_pos c)(s := insert (kc_pos c ! i, i) (kc_seq_pos c s)) =
      (\<lambda>t. (if t \<in> insert s (kc_seq c ! i) then insert (kc_pos c ! i, i) else id)
        (kc_seq_pos c t - {(kc_pos c ! i, i)}))"
    using D(10) [of "kc_pos c ! i" i] assms(2) by (intro ext) auto
  with u assms show ?thesis
    by (simp add: cells_seq_add_def seq_pos_inc_def cells_put_def)
qed

lemma cells_pos_set_eq:
  assumes "cells_inv c" "i < cells_size c" "kc_pos c ! i = -1" "p \<ge> 0"
  shows "cells_pos_set i p c = Some (cells_put i p (kc_ext c ! i) 0 {} c)"
proof -
  note D = cells_invD [OF assms(1)]
  have "(\<lambda>t. kc_seq_pos c t - {(-1, i)}) = kc_seq_pos c"
    using D(10) [of "kc_pos c ! i" i] D(6) [OF assms(2,3)] assms(3) by (intro ext) auto
  moreover have "(kc_seq c)[i := {}] = kc_seq c" "(kc_shift c)[i := 0] = kc_shift c"
    using D(6,7) [OF assms(2,3)] by (metis list_update_id)+
  ultimately show ?thesis using assms D(6) [OF assms(2,3)]
    by (simp add: cells_pos_set_def cells_put_def)
qed

lemma cells_pos_add_eq:
  assumes "cells_inv c" "i < cells_size c" "kc_pos c ! i \<noteq> -1"
  shows "cells_pos_add i d c = Some
    (if kc_pos c ! i + d < 0 then ((cells_put i (-1) (kc_ext c ! i) 0 {} c)\<lparr>kc_has_shift := True\<rparr>, True)
     else ((cells_put i (kc_pos c ! i + d) (kc_ext c ! i) (kc_shift c ! i + d) (kc_seq c ! i) c)
       \<lparr>kc_has_shift := True\<rparr>, False))"
proof -
  note D = cells_invD [OF assms(1)]
  have u: "insert i (kc_used c) = kc_used c" using D(9) [of i] assms(2,3) by auto
  show ?thesis using assms u D(8) [OF assms(2)] D(1-4)
    by (simp add: cells_pos_add_def seq_pos_rm_eq seq_pos_add_eq cells_put_def
        if_distrib [where f = "\<lambda>f. f _"] cong: if_cong)
qed

lemma cells_pos_div_tdiv:
  assumes "cells_inv c" "i < cells_size c" "kc_pos c ! i \<noteq> -1" "d \<noteq> 0" "tdiv (kc_pos c ! i) d \<noteq> -1"
  shows "cells_pos_div i d c =
    Some ((cells_put i (tdiv (kc_pos c ! i) d) (kc_ext c ! i) (kc_shift c ! i + (kc_pos c ! i - tdiv (kc_pos c ! i) d))
       (kc_seq c ! i) c)\<lparr>kc_has_shift := True\<rparr>)"
proof -
  note D = cells_invD [OF assms(1)]
  have u: "insert i (kc_used c) = kc_used c" using D(9) [of i] assms(2,3) by auto
  show ?thesis using assms u D(8) [OF assms(2)] D(1-4)
    by (simp add: cells_pos_div_def seq_pos_rm_eq seq_pos_add_eq cells_put_def
        if_distrib [where f = "\<lambda>f. f _"] cong: if_cong)
qed

lemma tdiv_pos: "p \<ge> 0 \<Longrightarrow> d > 0 \<Longrightarrow> tdiv p d = p div d" "p \<ge> 0 \<Longrightarrow> d > 0 \<Longrightarrow> 0 \<le> tdiv p d"
  by (auto simp: tdiv_def sgn_if pos_imp_zdiv_nonneg_iff)

lemma cells_pos_div_eq:
  assumes "cells_inv c" "i < cells_size c" "kc_pos c ! i \<noteq> -1" "d > 0"
  shows "cells_pos_div i d c =
    Some ((cells_put i (kc_pos c ! i div d) (kc_ext c ! i) (kc_shift c ! i + (kc_pos c ! i - kc_pos c ! i div d))
       (kc_seq c ! i) c)\<lparr>kc_has_shift := True\<rparr>)"
proof -
  have "kc_pos c ! i \<ge> 0" using cells_invD(5) [OF assms(1,2)] assms(3) by linarith
  note t = tdiv_pos [OF this assms(4)]
  then show ?thesis using cells_pos_div_tdiv [OF assms(1-3), of d] assms(4) by simp
qed

lemma cells_inv_ext_upd:
  "cells_inv c \<Longrightarrow> length es = cells_size c \<Longrightarrow> cells_inv (c\<lparr>kc_ext := es\<rparr>)"
  by (simp add: cells_inv_def cells_size_def)

lemma cells_inv_no_ids:
  assumes "cells_inv c" "s \<notin> set seq_ids"
  shows "kc_seq_pos c s = {}"
proof (rule ccontr)
  assume "kc_seq_pos c s \<noteq> {}"
  then obtain p i where "(p, i) \<in> kc_seq_pos c s" by auto
  then show False using cells_invD(10) [OF assms(1)] cells_invD(8) [OF assms(1)] assms(2) by blast
qed

lemma cells_reset_inv:
  assumes "cells_inv c"
  shows "cells_inv (cells_reset c)"
proof -
  show ?thesis using cells_inv_no_ids [OF assms]
    by (auto simp: cells_reset_def cells_inv_def cells_size_def Let_def simp del: set_seq_ids)
qed

lemma cells_new_inv: "cells_inv cells_new"
  by (simp add: cells_new_def cells_inv_def cells_size_def)

lemma length_vec_resize [simp]: "length (vec_resize n d xs) = n"
  by (simp add: vec_resize_def)

lemma cells_resize_inv:
  assumes "cells_inv c"
  shows "cells_inv (cells_resize n c)" "cells_size (cells_resize n c) = n"
proof -
  show "cells_inv (cells_resize n c)" using cells_inv_no_ids [OF assms]
    by (auto simp: cells_resize_def cells_reset_def cells_inv_def cells_size_def Let_def simp del: set_seq_ids)
  show "cells_size (cells_resize n c) = n"
    by (simp add: cells_resize_def cells_reset_def cells_size_def Let_def)
qed

lemma cells_reset_shift_inv: "cells_inv c \<Longrightarrow> cells_inv (cells_reset_shift c)"
  by (auto simp: cells_reset_shift_def cells_inv_def cells_size_def)

subsection \<open>The abstract store\<close>

text \<open>What the class promises its clients: a finite map from occupied cells to the position and the
  sequences of the cell.\<close>

definition cells_abs :: "kv_cells \<Rightarrow> nat \<Rightarrow> (int \<times> int set) option" where
  "cells_abs c i = (if i < cells_size c \<and> kc_pos c ! i \<noteq> -1 then Some (kc_pos c ! i, kc_seq c ! i) else None)"

lemma cells_abs_has_shift [simp]: "cells_abs (c\<lparr>kc_has_shift := b\<rparr>) = cells_abs c"
  by (simp add: cells_abs_def fun_eq_iff)

lemma cells_abs_put:
  assumes "cells_inv c" "i < cells_size c"
  shows "cells_abs (cells_put i p e sh S c) = (cells_abs c)(i := if p = -1 then None else Some (p, S))"
  using assms(2) cells_put_nth(1,4) [OF assms] by (auto simp: cells_abs_def fun_eq_iff split: if_splits)

datatype cell_op =
    Op_rm nat
  | Op_seq_rm nat int
  | Op_seq_keep nat int
  | Op_seq_add nat int
  | Op_pos_set nat int
  | Op_ext_set nat kv_cell_ext
  | Op_pos_add nat int
  | Op_pos_div nat int
  | Op_reset
  | Op_reset_shift

fun cell_step :: "cell_op \<Rightarrow> kv_cells \<Rightarrow> kv_cells option" where
  "cell_step (Op_rm i) c = cells_rm i c"
| "cell_step (Op_seq_rm i s) c = map_option fst (cells_seq_rm i s c)"
| "cell_step (Op_seq_keep i s) c = map_option fst (cells_seq_keep i s c)"
| "cell_step (Op_seq_add i s) c = cells_seq_add i s c"
| "cell_step (Op_pos_set i p) c = cells_pos_set i p c"
| "cell_step (Op_ext_set i e) c = cells_ext_set i e c"
| "cell_step (Op_pos_add i d) c = map_option fst (cells_pos_add i d c)"
| "cell_step (Op_pos_div i d) c = cells_pos_div i d c"
| "cell_step Op_reset c = Some (cells_reset c)"
| "cell_step Op_reset_shift c = Some (cells_reset_shift c)"

text \<open>When an update may be called, over the abstract store of \<open>n\<close> cells: the "call only if" notes and
  assertions of the header, and three conditions it does not state: \<open>pos_set\<close> gets no negative position,
  \<open>pos_div\<close> no divisor that is zero or makes the position negative, and \<open>seq_keep\<close> no occupied cell
  without a sequence. C34 shows that the conditions are exact.\<close>

fun cell_pre :: "nat \<Rightarrow> (nat \<Rightarrow> (int \<times> int set) option) \<Rightarrow> cell_op \<Rightarrow> bool" where
  "cell_pre n m (Op_rm i) = (m i \<noteq> None)"
| "cell_pre n m (Op_seq_rm i s) = (case m i of None \<Rightarrow> False | Some (p, S) \<Rightarrow> s \<in> S)"
| "cell_pre n m (Op_seq_keep i s) = (i < n \<and> 0 \<le> s \<and> s < LLAMA_MAX_SEQ \<and>
     (case m i of None \<Rightarrow> True | Some (p, S) \<Rightarrow> S \<noteq> {}))"
| "cell_pre n m (Op_seq_add i s) = (0 \<le> s \<and> s < LLAMA_MAX_SEQ \<and>
     (case m i of None \<Rightarrow> False | Some (p, S) \<Rightarrow> s \<notin> S))"
| "cell_pre n m (Op_pos_set i p) = (i < n \<and> m i = None \<and> p \<ge> 0)"
| "cell_pre n m (Op_ext_set i e) = (i < n)"
| "cell_pre n m (Op_pos_add i d) = (m i \<noteq> None)"
| "cell_pre n m (Op_pos_div i d) = (case m i of None \<Rightarrow> False | Some (p, S) \<Rightarrow> d \<noteq> 0 \<and> 0 \<le> tdiv p d)"
| "cell_pre n m Op_reset = True"
| "cell_pre n m Op_reset_shift = True"

fun cell_spec :: "cell_op \<Rightarrow> (nat \<Rightarrow> (int \<times> int set) option) \<Rightarrow> (nat \<Rightarrow> (int \<times> int set) option)" where
  "cell_spec (Op_rm i) m = m(i := None)"
| "cell_spec (Op_seq_rm i s) m = m(i := (case m i of None \<Rightarrow> None
     | Some (p, S) \<Rightarrow> if S = {s} then None else Some (p, S - {s})))"
| "cell_spec (Op_seq_keep i s) m = m(i := (case m i of None \<Rightarrow> None
     | Some (p, S) \<Rightarrow> if s \<in> S then Some (p, {s}) else None))"
| "cell_spec (Op_seq_add i s) m = m(i := map_option (\<lambda>(p, S). (p, insert s S)) (m i))"
| "cell_spec (Op_pos_set i p) m = m(i := Some (p, {}))"
| "cell_spec (Op_ext_set i e) m = m"
| "cell_spec (Op_pos_add i d) m = m(i := (case m i of None \<Rightarrow> None
     | Some (p, S) \<Rightarrow> if p + d < 0 then None else Some (p + d, S)))"
| "cell_spec (Op_pos_div i d) m = m(i := map_option (\<lambda>(p, S). (tdiv p d, S)) (m i))"
| "cell_spec Op_reset m = (\<lambda>_. None)"
| "cell_spec Op_reset_shift m = m"

lemma cells_abs_Some:
  "cells_abs c i = Some (p, S) \<longleftrightarrow> i < cells_size c \<and> kc_pos c ! i \<noteq> -1 \<and> p = kc_pos c ! i \<and> S = kc_seq c ! i"
  by (auto simp: cells_abs_def)

lemma cells_abs_None: "cells_abs c i = None \<longleftrightarrow> (i < cells_size c \<longrightarrow> kc_pos c ! i = -1)"
  by (auto simp: cells_abs_def)

lemma cells_abs_cases:
  obtains (None) "cells_abs c i = None"
  | (Some) "i < cells_size c" "kc_pos c ! i \<noteq> -1" "cells_abs c i = Some (kc_pos c ! i, kc_seq c ! i)"
  by (cases "cells_abs c i") (auto simp: cells_abs_Some)

lemma pos_nonneg: "cells_inv c \<Longrightarrow> i < cells_size c \<Longrightarrow> kc_pos c ! i \<noteq> -1 \<Longrightarrow> kc_pos c ! i \<ge> 0"
  using cells_invD(5) by fastforce

lemma cell_put_ok:
  assumes "cells_inv c" "i < cells_size c" "p \<ge> -1" "p = -1 \<Longrightarrow> S = {} \<and> sh = 0" "S \<subseteq> set seq_ids"
    "m' = (cells_abs c)(i := if p = -1 then None else Some (p, S))"
  shows "cells_inv (cells_put i p e sh S c) \<and> cells_size (cells_put i p e sh S c) = cells_size c \<and>
    cells_abs (cells_put i p e sh S c) = m'"
  using cells_put_inv [OF assms(1-5)] cells_abs_put [OF assms(1,2)] assms(6) by simp

lemma cell_clear_ok:
  assumes "cells_inv c" "i < cells_size c"
  shows "cells_inv (cells_put i (-1) e 0 {} c)" "cells_abs (cells_put i (-1) e 0 {} c) = (cells_abs c)(i := None)"
  using cell_put_ok [OF assms, of "-1" "{}" 0 _ e] by simp_all

lemma cell_fill_ok:
  assumes "cells_inv c" "i < cells_size c" "p \<ge> 0" "S \<subseteq> set seq_ids"
  shows "cells_inv (cells_put i p e sh S c)" "cells_abs (cells_put i p e sh S c) = (cells_abs c)(i \<mapsto> (p, S))"
  using cell_put_ok [OF assms(1,2), of p S sh _ e] assms(3,4) by simp_all

lemma fun_upd_None_id: "m i = None \<Longrightarrow> m(i := None) = m"
  by (simp add: fun_upd_idem)

lemma cell_step_refines:
  assumes "cells_inv c" "cell_pre (cells_size c) (cells_abs c) op"
  shows "\<exists>c'. cell_step op c = Some c' \<and> cells_inv c' \<and> cells_size c' = cells_size c \<and>
    cells_abs c' = cell_spec op (cells_abs c)"
proof (cases op)
  case (Op_rm i)
  with assms have i: "i < cells_size c" "kc_pos c ! i \<noteq> -1" by (auto simp: cells_abs_def split: if_splits)
  with Op_rm show ?thesis by (simp add: cells_rm_eq [OF assms(1)] cell_put_ok [OF assms(1)])
next
  case (Op_seq_rm i s)
  with assms have i: "i < cells_size c" "kc_pos c ! i \<noteq> -1" "s \<in> kc_seq c ! i"
    by (auto simp: cells_abs_def split: if_splits)
  note S = cells_invD(8) [OF assms(1) i(1)] and p = pos_nonneg [OF assms(1) i(1,2)]
  have "kc_seq c ! i - {s} \<subseteq> set seq_ids" using S by blast
  note ok = cell_clear_ok [OF assms(1) i(1)] cell_fill_ok [OF assms(1) i(1) p this]
  from Op_seq_rm i ok show ?thesis
    by (simp add: cells_seq_rm_eq [OF assms(1)] cells_abs_def [of c i])
next
  case (Op_seq_keep i s)
  with assms have i: "i < cells_size c" "0 \<le> s" "s < LLAMA_MAX_SEQ" "kc_pos c ! i \<noteq> -1 \<Longrightarrow> kc_seq c ! i \<noteq> {}"
    by (auto simp: cells_abs_def split: if_splits)
  have e: "kc_seq c ! i = {}" if "kc_pos c ! i = -1" using cells_invD(6) [OF assms(1) i(1) that] .
  have "{s} \<subseteq> set seq_ids" using i(2,3) by simp
  note ok = cell_clear_ok [OF assms(1) i(1)] cell_fill_ok [OF assms(1) i(1) _ this]
  from assms(1) Op_seq_keep i e ok pos_nonneg [OF assms(1) i(1)] show ?thesis
    by (auto simp: cells_seq_keep_eq [OF assms(1)] cells_abs_def [of c i] fun_upd_None_id)
next
  case (Op_seq_add i s)
  with assms have i: "i < cells_size c" "kc_pos c ! i \<noteq> -1" "0 \<le> s" "s < LLAMA_MAX_SEQ" "s \<notin> kc_seq c ! i"
    by (auto simp: cells_abs_def split: if_splits)
  have "insert s (kc_seq c ! i) \<subseteq> set seq_ids" using cells_invD(8) [OF assms(1) i(1)] i(3,4) by simp
  note ok = cell_fill_ok [OF assms(1) i(1) pos_nonneg [OF assms(1) i(1,2)] this]
  from Op_seq_add i ok show ?thesis
    by (simp add: cells_seq_add_eq [OF assms(1)] cells_abs_def [of c i])
next
  case (Op_pos_set i p)
  with assms have i: "i < cells_size c" "kc_pos c ! i = -1" "p \<ge> 0"
    by (auto simp: cells_abs_def split: if_splits)
  with Op_pos_set cell_fill_ok [OF assms(1) i(1,3), of "{}"] show ?thesis
    by (simp add: cells_pos_set_eq [OF assms(1)])
next
  case (Op_ext_set i e)
  with assms have "i < length (kc_ext c)" using cells_invD(1) [OF assms(1)] by simp
  with Op_ext_set cells_invD(1) [OF assms(1)] show ?thesis
    by (simp add: cells_ext_set_def cells_inv_ext_upd [OF assms(1)] cells_size_def cells_abs_def fun_eq_iff)
next
  case (Op_pos_add i d)
  with assms have i: "i < cells_size c" "kc_pos c ! i \<noteq> -1" by (auto simp: cells_abs_def split: if_splits)
  note S = cells_invD(8) [OF assms(1) i(1)]
  have a: "cells_abs c i = Some (kc_pos c ! i, kc_seq c ! i)" using i by (simp add: cells_abs_def)
  show ?thesis
  proof (cases "kc_pos c ! i + d < 0")
    case True
    with cell_put_ok [OF assms(1) i(1), of "-1" "{}" 0 _ "kc_ext c ! i"] Op_pos_add i a show ?thesis
      by (simp add: cells_pos_add_eq [OF assms(1)])
  next
    case False
    with cell_put_ok [OF assms(1) i(1), of "kc_pos c ! i + d" "kc_seq c ! i" _ _ "kc_ext c ! i"] Op_pos_add i a S
    show ?thesis by (simp add: cells_pos_add_eq [OF assms(1)])
  qed
next
  case (Op_pos_div i d)
  with assms have i: "i < cells_size c" "kc_pos c ! i \<noteq> -1" "d \<noteq> 0" "0 \<le> tdiv (kc_pos c ! i) d"
    by (auto simp: cells_abs_def split: if_splits)
  note S = cells_invD(8) [OF assms(1) i(1)]
  have a: "cells_abs c i = Some (kc_pos c ! i, kc_seq c ! i)" using i by (simp add: cells_abs_def)
  from cell_put_ok [OF assms(1) i(1), of "tdiv (kc_pos c ! i) d" "kc_seq c ! i" _ _ "kc_ext c ! i"] Op_pos_div i a S
  show ?thesis by (simp add: cells_pos_div_tdiv [OF assms(1)])
next
  case Op_reset
  then show ?thesis by (auto simp: cells_reset_inv [OF assms(1)]) 
      (auto simp: cells_reset_def cells_size_def cells_abs_def fun_eq_iff Let_def)
next
  case Op_reset_shift
  then show ?thesis
    by (auto simp: cells_reset_shift_inv [OF assms(1)])
      (auto simp: cells_reset_shift_def cells_size_def cells_abs_def fun_eq_iff)
qed

text \<open>Conversely, an update outside its condition trips an assertion or breaks the invariant.\<close>

lemma negative_pos_breaks:
  assumes "i < cells_size c" "kc_pos c ! i < 0" "i \<in> kc_used c"
  shows "\<not> cells_inv c"
  using assms cells_invD(5,9) [of c i] by fastforce

lemma cell_step_clean:
  assumes inv: "cells_inv c" and s: "cell_step op c = Some d" "cells_inv d"
  shows "cell_pre (cells_size c) (cells_abs c) op"
proof (cases op)
  case (Op_seq_keep i t)
  have "kc_pos c ! i = -1" if "kc_seq c ! i = {}" using Op_seq_keep s(1) that by (auto simp: cells_seq_keep_def split: if_splits)
  then show ?thesis using Op_seq_keep s(1)
    by (auto simp: cells_seq_keep_def cells_abs_def split: if_splits)
next
  case (Op_pos_set i p)
  then have i: "i < cells_size c" "kc_pos c ! i = -1" using s(1) by (auto simp: cells_pos_set_def split: if_splits)
  have "d = c\<lparr>kc_pos := (kc_pos c)[i := p], kc_used := insert i (kc_used c)\<rparr>"
    using Op_pos_set s(1) by (auto simp: cells_pos_set_def split: if_splits)
  then have "p \<ge> 0" using negative_pos_breaks [of i d] s(2) i(1) by (auto simp: cells_size_def not_less [symmetric])
  with Op_pos_set i show ?thesis by (simp add: cells_abs_def)
next
  case (Op_pos_div i k)
  then have i: "i < cells_size c" "kc_pos c ! i \<noteq> -1" "k \<noteq> 0" using s(1) by (auto simp: cells_pos_div_def split: if_splits)
  have u: "i \<in> kc_used c" using cells_invD(9) [OF inv, of i] i by simp
  have "kc_pos d = (kc_pos c)[i := tdiv (kc_pos c ! i) k] \<and> kc_used d = kc_used c"
    using Op_pos_div s(1) i cells_invD(8) [OF inv i(1)]
    by (auto simp: cells_pos_div_def seq_pos_rm_eq [OF inv] seq_pos_add_eq Let_def)
  then have "0 \<le> tdiv (kc_pos c ! i) k" using negative_pos_breaks [of i d] s(2) i(1) u
    by (auto simp: cells_size_def not_less [symmetric])
  with Op_pos_div i show ?thesis by (simp add: cells_abs_def)
qed (use s(1) cells_invD(1) [OF inv] in \<open>auto simp: cells_rm_def cells_seq_rm_def cells_seq_add_def cells_ext_set_def
    cells_pos_add_def cells_abs_def split: if_splits\<close>)

subsection \<open>The queries against a scan of the cells\<close>

text \<open>\<open>seq_pos_min\<close>, \<open>seq_pos_max\<close> and \<open>seq_pos_tok_le\<close> answer from the ordered index; the lemmas
  state their answers over the cells themselves.\<close>

definition seq_cells :: "int \<Rightarrow> kv_cells \<Rightarrow> nat set" where
  "seq_cells s c = {i. i < cells_size c \<and> s \<in> kc_seq c ! i}"

lemma finite_seq_cells [simp]: "finite (seq_cells s c)"
  by (simp add: seq_cells_def)

lemma seq_pos_image:
  "cells_inv c \<Longrightarrow> kc_seq_pos c s = (\<lambda>i. (kc_pos c ! i, i)) ` seq_cells s c"
  by (auto simp: cells_inv_def seq_cells_def)

lemma mono_fst_lex: "mono (fst :: 'a::linorder \<times> 'b::linorder \<Rightarrow> 'a)"
  by (auto simp: mono_def less_eq_prod_def)

lemma seq_pos_min_scan:
  assumes "cells_inv c" "0 \<le> s" "s < LLAMA_MAX_SEQ"
  shows "cells_seq_pos_min s c =
    Some (if seq_cells s c = {} then -1 else Min ((\<lambda>i. kc_pos c ! i) ` seq_cells s c))"
  using assms mono_Min_commute [OF mono_fst_lex, of "kc_seq_pos c s"]
  by (auto simp: cells_seq_pos_min_def seq_pos_image image_image)

lemma seq_pos_max_scan:
  assumes "cells_inv c" "0 \<le> s" "s < LLAMA_MAX_SEQ"
  shows "cells_seq_pos_max s c =
    Some (if seq_cells s c = {} then -1 else Max ((\<lambda>i. kc_pos c ! i) ` seq_cells s c))"
  using assms mono_Max_commute [OF mono_fst_lex, of "kc_seq_pos c s"]
  by (auto simp: cells_seq_pos_max_def seq_pos_image image_image)

lemma seq_pos_tok_le_scan:
  assumes "cells_inv c" "cells_size c \<le> 2 ^ 32" "0 \<le> s" "s < LLAMA_MAX_SEQ"
  shows "(\<forall>i \<in> seq_cells s c. kc_pos c ! i > p) \<and> cells_seq_pos_tok_le s p c = Some LLAMA_TOKEN_NULL \<or>
    (\<exists>i \<in> seq_cells s c. kc_pos c ! i \<le> p \<and> cells_seq_pos_tok_le s p c = Some (ext_tok (kc_ext c ! i)) \<and>
      (\<forall>j \<in> seq_cells s c. kc_pos c ! j \<le> p \<longrightarrow>
         kc_pos c ! j < kc_pos c ! i \<or> kc_pos c ! j = kc_pos c ! i \<and> j \<le> i))"
proof -
  let ?B = "{e \<in> kc_seq_pos c s. e \<le> (p, 2 ^ 32 - 1)}"
  have B: "(q, i) \<in> ?B \<longleftrightarrow> i \<in> seq_cells s c \<and> q = kc_pos c ! i \<and> q \<le> p" for q i
    using assms(2) by (auto simp: seq_pos_image [OF assms(1)] less_eq_prod_def seq_cells_def)
  have fin: "finite ?B" by (simp add: seq_pos_image [OF assms(1)])
  have v: "cells_seq_pos_tok_le s p c =
      Some (if ?B = {} then LLAMA_TOKEN_NULL else ext_tok (kc_ext c ! snd (Max ?B)))"
    by (simp only: cells_seq_pos_tok_le_def Let_def bind_assert assms(3,4) simp_thms if_True)
  show ?thesis
  proof (cases "?B = {}")
    case True
    then have "\<forall>i \<in> seq_cells s c. kc_pos c ! i > p" using B by (metis empty_iff not_le)
    then show ?thesis using v True by simp
  next
    case False
    obtain q i where m: "Max ?B = (q, i)" by fastforce
    have "(q, i) \<in> ?B" using Max_in [OF fin False] by (simp only: m)
    then have i: "i \<in> seq_cells s c" "q = kc_pos c ! i" "q \<le> p" using B by auto
    have "kc_pos c ! j < kc_pos c ! i \<or> kc_pos c ! j = kc_pos c ! i \<and> j \<le> i"
      if "j \<in> seq_cells s c" "kc_pos c ! j \<le> p" for j
    proof -
      have "(kc_pos c ! j, j) \<in> ?B" using B that by blast
      then have "(kc_pos c ! j, j) \<le> (q, i)" using Max_ge [OF fin] m by metis
      then show ?thesis using i by (auto simp: less_eq_prod_def)
    qed
    with i m v False show ?thesis by (intro disjI2 bexI [of _ i]) auto
  qed
qed

subsection \<open>Saving and restoring\<close>

lemma cells_inv_unique:
  assumes "cells_inv c" "cells_inv d" "kc_pos c = kc_pos d" "kc_ext c = kc_ext d"
    "kc_shift c = kc_shift d" "kc_seq c = kc_seq d" "kc_has_shift c = kc_has_shift d"
  shows "c = d"
proof -
  have "kc_used c = kc_used d" using assms by (auto simp: cells_inv_def cells_size_def)
  moreover have "kc_seq_pos c = kc_seq_pos d"
    using assms by (auto simp: cells_inv_def cells_size_def fun_eq_iff)
  ultimately show ?thesis using assms by simp
qed

lemma seq_pos_rm_used:
  "seq_pos_rm i (c\<lparr>kc_used := U\<rparr>) = map_option (kc_used_update (\<lambda>_. U)) (seq_pos_rm i c)"
  unfolding seq_pos_rm_def by (rule for_each_commute) (simp add: seq_pos_dec_def)

lemma cells_put_used:
  assumes "cells_inv c" "i < cells_size c"
  shows "kc_pos c ! i = -1 \<Longrightarrow> p \<noteq> -1 \<Longrightarrow> kc_used (cells_put i p e sh S c) = insert i (kc_used c)"
    and "kc_pos c ! i \<noteq> -1 \<Longrightarrow> p \<noteq> -1 \<Longrightarrow> kc_used (cells_put i p e sh S c) = kc_used c"
    and "kc_pos c ! i = -1 \<Longrightarrow> p = -1 \<Longrightarrow> kc_used (cells_put i p e sh S c) = kc_used c"
    and "kc_pos c ! i \<noteq> -1 \<Longrightarrow> p = -1 \<Longrightarrow> kc_used (cells_put i p e sh S c) = kc_used c - {i}"
  using assms(2) cells_invD(9) [OF assms(1), of i] by (auto simp: cells_put_def)

lemma if_insert_id: "(if b then insert x else id) A = (if b then insert x A else A)"
  by simp

lemma cells_set_one_empty:
  assumes "cells_inv c" "idx < cells_size c" "kc_shift c ! idx = 0" "kc_pos c ! idx = -1"
    "kc_pos other ! j = -1 \<Longrightarrow> kc_seq other ! j = {}" "kc_seq other ! j \<subseteq> set seq_ids"
  shows "cells_set_one other idx j c =
    Some (cells_put idx (kc_pos other ! j) (kc_ext other ! j) 0 (kc_seq other ! j) c)"
proof -
  note D = cells_invD [OF assms(1)]
  have sh: "(kc_shift c)[idx := 0] = kc_shift c" using assms(3) by (metis list_update_id)
  have g: "kc_seq_pos c s - {(-1, idx)} = kc_seq_pos c s" for s
    using D(10) [of "-1" idx s] D(6) [OF assms(2,4)] by auto
  have u: "kc_used c - {idx} = kc_used c" using D(9) [of idx] assms(4) by auto
  show ?thesis
  proof (cases "kc_pos other ! j = -1")
    case True
    then show ?thesis using assms D(4) sh g u
      by (simp add: cells_set_one_def Let_def cells_put_def)
  next
    case False
    then show ?thesis using assms D(3,4) sh g u
      by (simp add: cells_set_one_def Let_def cells_put_def seq_pos_add_eq if_insert_id
        cong: if_cong)
  qed
qed

lemma cells_set_one_occupied:
  assumes "cells_inv c" "idx < cells_size c" "kc_shift c ! idx = 0" "kc_pos c ! idx \<noteq> -1"
    "kc_pos other ! j = -1 \<Longrightarrow> kc_seq other ! j = {}" "kc_seq other ! j \<subseteq> set seq_ids"
  shows "cells_set_one other idx j c =
    Some (cells_put idx (kc_pos other ! j) (kc_ext other ! j) 0 (kc_seq other ! j) c)"
proof -
  note D = cells_invD [OF assms(1)]
  have sh: "(kc_shift c)[idx := 0] = kc_shift c" using assms(3) by (metis list_update_id)
  have u: "insert idx (kc_used c) = kc_used c" using D(9) [of idx] assms(2,4) by auto
  show ?thesis
  proof (cases "kc_pos other ! j = -1")
    case True
    then show ?thesis using assms D(4) sh
      by (simp add: cells_set_one_def Let_def cells_put_def seq_pos_rm_used seq_pos_rm_eq)
  next
    case False
    then show ?thesis using assms D(3,4) sh u
      by (simp add: cells_set_one_def Let_def cells_put_def seq_pos_rm_eq seq_pos_add_eq if_insert_id
        cong: if_cong)
  qed
qed

lemmas cells_set_one_eq = cells_set_one_empty cells_set_one_occupied

text \<open>What \<open>cp\<close> saves.\<close>

definition saves_cells :: "nat list \<Rightarrow> kv_cells \<Rightarrow> kv_cells \<Rightarrow> bool" where
  "saves_cells idxs c r \<longleftrightarrow> kc_pos r = map ((!) (kc_pos c)) idxs \<and>
     kc_ext r = map ((!) (kc_ext c)) idxs \<and> kc_seq r = map ((!) (kc_seq c)) idxs"

definition store_cell :: "kv_cells \<Rightarrow> nat \<Rightarrow> nat \<Rightarrow> kv_cells \<Rightarrow> kv_cells" where
  "store_cell c idx j r = r\<lparr>kc_pos := (kc_pos r)[j := kc_pos c ! idx], kc_ext := (kc_ext r)[j := kc_ext c ! idx],
     kc_seq := (kc_seq r)[j := kc_seq c ! idx]\<rparr>"

lemma store_cell_simps [simp]:
  "kc_pos (store_cell c idx j r) = (kc_pos r)[j := kc_pos c ! idx]"
  "kc_ext (store_cell c idx j r) = (kc_ext r)[j := kc_ext c ! idx]"
  "kc_seq (store_cell c idx j r) = (kc_seq r)[j := kc_seq c ! idx]"
  by (simp_all add: store_cell_def)

definition filled :: "nat list \<Rightarrow> (nat \<Rightarrow> 'a) \<Rightarrow> 'a list \<Rightarrow> nat \<Rightarrow> bool" where
  "filled idxs g xs k \<longleftrightarrow> length xs = length idxs \<and> take k xs = map g (take k idxs)"

lemma filled_step:
  "filled idxs g xs k \<Longrightarrow> k < length idxs \<Longrightarrow> filled idxs g (xs[k := g (idxs ! k)]) (Suc k)"
  by (simp add: filled_def take_Suc_conv_app_nth)

lemma filled_start: "length xs = length idxs \<Longrightarrow> filled idxs g xs 0"
  by (simp add: filled_def)

lemma filled_done: "filled idxs g xs (length idxs) \<Longrightarrow> xs = map g idxs"
  by (clarsimp simp: filled_def)

lemma fill_loop:
  assumes "\<forall>idx \<in> set idxs. ok idx" "length (kc_pos r0) = length idxs" "length (kc_ext r0) = length idxs"
    "length (kc_seq r0) = length idxs"
    and f: "\<And>j r. j < length idxs \<Longrightarrow> ok (idxs ! j) \<Longrightarrow> f j r = Some (store_cell c (idxs ! j) j r)"
  shows "\<exists>r. for_each f [0..<length idxs] r0 = Some r \<and> saves_cells idxs c r"
proof -
  let ?P = "\<lambda>dn (r :: kv_cells). filled idxs ((!) (kc_pos c)) (kc_pos r) (length dn) \<and>
     filled idxs ((!) (kc_ext c)) (kc_ext r) (length dn) \<and> filled idxs ((!) (kc_seq c)) (kc_seq r) (length dn)"
  have "\<exists>r. for_each f [0..<length idxs] r0 = Some r \<and> ?P [0..<length idxs] r"
  proof (rule for_each_total [where P = ?P])
    show "?P [] r0" using filled_start [OF assms(2)] filled_start [OF assms(3)] filled_start [OF assms(4)]
      unfolding list.size by blast
  next
    fix dn j rest and r :: kv_cells
    assume e: "[0..<length idxs] = dn @ j # rest" and P: "?P dn r"
    note j = upt_eq_splitD(1,2) [OF e]
    have "?P (dn @ [j]) (store_cell c (idxs ! j) j r)"
      unfolding store_cell_simps length_append_singleton j(1)
      using P [unfolded j(1)] j(2) by (intro conjI filled_step) blast+
    then show "\<exists>r'. f j r = Some r' \<and> ?P (dn @ [j]) r'"
      using f [of j r] assms(1) j(2) by simp
  qed
  then show ?thesis by (auto simp: saves_cells_def dest: filled_done)
qed

lemma fresh_cells_len:
  "length (kc_pos (cells_resize n cells_new)) = n" "length (kc_ext (cells_resize n cells_new)) = n"
  "length (kc_seq (cells_resize n cells_new)) = n"
  by (simp_all add: cells_resize_def cells_reset_def cells_size_def)

lemma cells_cp_idxs_ok:
  assumes "\<forall>idx \<in> set idxs. idx < cells_size c \<and> kc_shift c ! idx = 0"
  shows "\<exists>r. cells_cp_idxs idxs c = Some r \<and> saves_cells idxs c r"
  unfolding cells_cp_idxs_def Let_def
  by (rule fill_loop [OF assms fresh_cells_len]) (simp add: store_cell_def)

lemma cells_cp_ok:
  assumes "i + n \<le> cells_size c" "\<forall>idx. i \<le> idx \<and> idx < i + n \<longrightarrow> kc_shift c ! idx = 0"
  shows "\<exists>r. cells_cp i n c = Some r \<and> saves_cells [i..<i + n] c r"
proof -
  have "\<exists>r. for_each (\<lambda>j r. if kc_shift c ! (i + j) = 0 then Some (store_cell c (i + j) j r) else None)
      [0..<length [i..<i + n]] (cells_resize n cells_new) = Some r \<and> saves_cells [i..<i + n] c r"
    using assms(2) by (intro fill_loop [where ok = "\<lambda>idx. kc_shift c ! idx = 0"])
      (simp_all add: fresh_cells_len)
  then show ?thesis using assms(1) by (simp add: cells_cp_def Let_def store_cell_def cong: if_cong)
qed

definition cell_at :: "kv_cells \<Rightarrow> nat \<Rightarrow> int \<times> kv_cell_ext \<times> int \<times> int set" where
  "cell_at c i = (kc_pos c ! i, kc_ext c ! i, kc_shift c ! i, kc_seq c ! i)"

lemma cell_at_put:
  "cells_inv c \<Longrightarrow> i < cells_size c \<Longrightarrow> j < cells_size c \<Longrightarrow>
    cell_at (cells_put i p e sh S c) j = (if j = i then (p, e, sh, S) else cell_at c j)"
  by (simp add: cell_at_def cells_put_nth)

lemma has_shift_put [simp]: "kc_has_shift (cells_put i p e sh S c) = kc_has_shift c"
  by (simp add: cells_put_def)

lemma cells_inv_cell_at_unique:
  assumes "cells_inv c" "cells_inv d" "cells_size c = cells_size d"
    "\<forall>i < cells_size c. cell_at c i = cell_at d i"
  shows "d = c\<lparr>kc_has_shift := kc_has_shift d\<rparr>"
proof (rule cells_inv_unique)
  note C = cells_invD(1-4) [OF assms(1)] and D = cells_invD(1-4) [OF assms(2)]
  show "kc_pos d = kc_pos (c\<lparr>kc_has_shift := kc_has_shift d\<rparr>)" "kc_ext d = kc_ext (c\<lparr>kc_has_shift := kc_has_shift d\<rparr>)"
    "kc_shift d = kc_shift (c\<lparr>kc_has_shift := kc_has_shift d\<rparr>)" "kc_seq d = kc_seq (c\<lparr>kc_has_shift := kc_has_shift d\<rparr>)"
    using assms(3,4) C D by (auto simp: cell_at_def intro!: nth_equalityI)
qed (use assms(1,2) in simp_all)

text \<open>One restored cell: the store keeps the invariant, and the cell holds what was saved.\<close>

lemma set_one_restores:
  assumes "cells_inv c" "cells_inv d" "cells_size d = cells_size c" "i < cells_size c"
    "kc_shift c ! i = 0" "kc_shift d ! i = 0" "kc_pos sv ! j = kc_pos c ! i" "kc_ext sv ! j = kc_ext c ! i"
    "kc_seq sv ! j = kc_seq c ! i"
  shows "\<exists>e. cells_set_one sv i j d = Some e \<and> cells_inv e \<and> cells_size e = cells_size c \<and>
    kc_has_shift e = kc_has_shift d \<and> cell_at e i = cell_at c i \<and>
    (\<forall>k < cells_size c. k \<noteq> i \<longrightarrow> cell_at e k = cell_at d k)"
proof -
  note C = cells_invD(5-8) [OF assms(1,4)]
  let ?e = "cells_put i (kc_pos sv ! j) (kc_ext sv ! j) 0 (kc_seq sv ! j) d"
  have "cells_set_one sv i j d = Some ?e"
    using assms C by (cases "kc_pos d ! i = -1") (simp_all add: cells_set_one_eq)
  moreover have "cells_inv ?e"
    using assms C(1,2,4) by (intro cells_put_inv) auto
  ultimately show ?thesis
    using assms by (simp add: cell_at_put) (simp add: cell_at_def)
qed

lemma cells_restore:
  assumes "cells_inv c" "cells_inv d" "cells_size d = cells_size c"
    "\<forall>i \<in> set idxs. i < cells_size c \<and> kc_shift c ! i = 0 \<and> kc_shift d ! i = 0"
    "\<forall>i < cells_size c. i \<notin> set idxs \<longrightarrow> cell_at d i = cell_at c i" "saves_cells idxs c r"
  shows "cells_set_idxs idxs r d = Some (c\<lparr>kc_has_shift := kc_has_shift d\<rparr>)"
proof -
  let ?P = "\<lambda>dn (e :: kv_cells). cells_inv e \<and> cells_size e = cells_size c \<and> kc_has_shift e = kc_has_shift d \<and>
     (\<forall>i < cells_size c. cell_at e i = (if i \<in> (!) idxs ` set dn then cell_at c i else cell_at d i))"
  have r: "cells_size r = length idxs" using assms(6) by (simp add: saves_cells_def cells_size_def)
  have "\<exists>e. for_each (\<lambda>j. cells_set_one r (idxs ! j) j) [0..<length idxs] d = Some e \<and> ?P [0..<length idxs] e"
  proof (rule for_each_total [where P = ?P])
    show "?P [] d" using assms(2,3) by simp
  next
    fix dn j rest and e :: kv_cells
    assume s: "[0..<length idxs] = dn @ j # rest" and P: "?P dn e"
    note j = upt_eq_splitD(2) [OF s]
    have i: "idxs ! j < cells_size c" "kc_shift c ! (idxs ! j) = 0" "kc_shift d ! (idxs ! j) = 0"
      using assms(4) j by auto
    have sh: "kc_shift e ! (idxs ! j) = 0" using P i by (auto simp: cell_at_def split: if_splits)
    have "kc_pos r ! j = kc_pos c ! (idxs ! j)" "kc_ext r ! j = kc_ext c ! (idxs ! j)"
      "kc_seq r ! j = kc_seq c ! (idxs ! j)" using assms(6) j by (simp_all add: saves_cells_def)
    from set_one_restores [OF assms(1) _ _ i(1,2) sh this] P
    show "\<exists>e'. cells_set_one r (idxs ! j) j e = Some e' \<and> ?P (dn @ [j]) e'" by fastforce
  qed
  then obtain e where e: "for_each (\<lambda>j. cells_set_one r (idxs ! j) j) [0..<length idxs] d = Some e"
    "?P [0..<length idxs] e" by blast
  have "(!) idxs ` set [0..<length idxs] = set idxs" by (force simp: in_set_conv_nth image_iff)
  with e(2) assms(5) have "e = c\<lparr>kc_has_shift := kc_has_shift e\<rparr>"
    by (intro cells_inv_cell_at_unique assms(1)) auto
  with e show ?thesis by (simp add: cells_set_idxs_def r)
qed

lemma card_seq_pos: "cells_inv c \<Longrightarrow> card (kc_seq_pos c s) = card (seq_cells s c)"
  by (simp add: seq_pos_image card_image inj_on_def)

lemma seq_covers_used_scan:
  assumes "cells_inv c" "0 \<le> s" "s < LLAMA_MAX_SEQ"
  shows "cells_seq_covers_used s c = Some (\<forall>i < cells_size c. kc_pos c ! i \<noteq> -1 \<longrightarrow> s \<in> kc_seq c ! i)"
proof -
  note D = cells_invD(6,9) [OF assms(1)]
  have sub: "seq_cells s c \<subseteq> kc_used c" using D by (fastforce simp: seq_cells_def)
  have fin: "finite (kc_used c)" using D(2) finite_nat_set_iff_bounded by auto
  have "card (seq_cells s c) = card (kc_used c) \<longleftrightarrow> kc_used c \<subseteq> seq_cells s c"
    using sub fin by (metis card_subset_eq order_refl subset_antisym)
  with assms D(2) show ?thesis
    by (auto simp: cells_seq_covers_used_def card_seq_pos seq_cells_def)
qed

subsection \<open>Properties\<close>

text \<open>A history of updates, each under its condition; and a history in which no assertion fires and every
  state keeps the invariant.\<close>

fun cell_history_ok :: "nat \<Rightarrow> cell_op list \<Rightarrow> (nat \<Rightarrow> (int \<times> int set) option) \<Rightarrow> bool" where
  "cell_history_ok n [] m = True"
| "cell_history_ok n (op # ops) m = (cell_pre n m op \<and> cell_history_ok n ops (cell_spec op m))"

fun runs_clean :: "cell_op list \<Rightarrow> kv_cells \<Rightarrow> bool" where
  "runs_clean [] c = cells_inv c"
| "runs_clean (op # ops) c = (cells_inv c \<and> (case cell_step op c of None \<Rightarrow> False | Some d \<Rightarrow> runs_clean ops d))"

lemma runs_clean_inv: "runs_clean ops c \<Longrightarrow> cells_inv c"
  by (cases ops) simp_all

text \<open>C34. The class keeps its promise exactly as far as its calls are sound. From a store that satisfies
  the invariant tying \<open>used\<close> and \<open>seq_pos\<close> to the cells, a sequence of updates runs without a failing
  assertion and keeps the invariant throughout if, and only if, every update is called under its
  condition; and then the contents are those of the abstract map from cells to (position, sequences) after
  the same updates. The conditions are those of the "call only if" notes and assertions, and the three of
  \<open>cell_pre\<close> that the header leaves out.\<close>

theorem kv_cells_history_refines:
  "cells_inv c \<Longrightarrow> (runs_clean ops c \<longleftrightarrow> cell_history_ok (cells_size c) ops (cells_abs c)) \<and>
    (runs_clean ops c \<longrightarrow> (\<exists>c'. for_each cell_step ops c = Some c' \<and> cells_inv c' \<and> cells_size c' = cells_size c \<and>
      cells_abs c' = fold cell_spec ops (cells_abs c)))"
proof (induction ops arbitrary: c)
  case (Cons op ops)
  show ?case
  proof (cases "cell_pre (cells_size c) (cells_abs c) op")
    case True
    then obtain d where d: "cell_step op c = Some d" "cells_inv d" "cells_size d = cells_size c"
      "cells_abs d = cell_spec op (cells_abs c)" using cell_step_refines [OF Cons.prems] by blast
    with Cons.IH [OF d(2)] Cons.prems True show ?thesis by simp
  next
    case False
    then have "\<not> runs_clean (op # ops) c"
      using cell_step_clean [OF Cons.prems, of op] runs_clean_inv by (auto split: option.splits)
    with False show ?thesis unfolding cell_history_ok.simps by blast
  qed
qed simp

lemma cells_abs_resize: "cells_abs (cells_resize n cells_new) = (\<lambda>_. None)"
  by (simp add: cells_abs_def cells_resize_def cells_reset_def cells_size_def Let_def fun_eq_iff)

theorem kv_cells_history_refines_witness:
  "\<exists>c'. for_each cell_step [Op_pos_set 1 7, Op_seq_add 1 3, Op_seq_add 1 4, Op_seq_rm 1 3, Op_pos_add 1 (-2)]
      (cells_resize 2 cells_new) = Some c' \<and> cells_inv c' \<and> cells_abs c' 1 = Some (5, {4})"
  using kv_cells_history_refines [OF cells_resize_inv(1) [OF cells_new_inv],
      of "[Op_pos_set 1 7, Op_seq_add 1 3, Op_seq_add 1 4, Op_seq_rm 1 3, Op_pos_add 1 (-2)]" 2]
    cells_resize_inv [OF cells_new_inv, of 2]
  by (auto simp: cells_abs_resize LLAMA_MAX_SEQ_def insert_Diff_if simp del: runs_clean.simps)

text \<open>\<open>seq_pos_min\<close>, \<open>seq_pos_max\<close> and \<open>seq_covers_used\<close>, which the code answers from the ordered
  index in constant time, give the answers of a scan over all cells: the least and the greatest
  position of a cell of the sequence (-1 if there is none), and whether every occupied cell belongs
  to the sequence.\<close>

theorem kv_cells_seq_queries:
  assumes "cells_inv c" "0 \<le> s" "s < LLAMA_MAX_SEQ"
  shows "cells_seq_pos_min s c =
      Some (if seq_cells s c = {} then -1 else Min ((\<lambda>i. kc_pos c ! i) ` seq_cells s c)) \<and>
    cells_seq_pos_max s c =
      Some (if seq_cells s c = {} then -1 else Max ((\<lambda>i. kc_pos c ! i) ` seq_cells s c)) \<and>
    cells_seq_covers_used s c = Some (\<forall>i < cells_size c. kc_pos c ! i \<noteq> -1 \<longrightarrow> s \<in> kc_seq c ! i)"
  using seq_pos_min_scan [OF assms] seq_pos_max_scan [OF assms] seq_covers_used_scan [OF assms] by simp

theorem kv_cells_seq_queries_witness:
  "cells_seq_pos_min 3 (cells_put 1 7 kv_cell_ext_default 0 {3} (cells_resize 2 cells_new)) = Some 7"
proof -
  let ?c = "cells_put 1 7 kv_cell_ext_default 0 {3} (cells_resize 2 cells_new)"
  have inv: "cells_inv ?c"
    using cells_resize_inv [OF cells_new_inv, of 2] by (intro cells_put_inv) (auto simp: LLAMA_MAX_SEQ_def)
  have "seq_cells 3 ?c = {1}"
    by (auto simp: seq_cells_def cells_put_def cells_resize_def cells_reset_def cells_size_def Let_def
        nth_list_update_if split: if_splits)
  moreover have "kc_pos ?c ! 1 = 7"
    by (simp add: cells_put_def cells_resize_def cells_reset_def cells_size_def Let_def)
  ultimately show ?thesis
    using kv_cells_seq_queries [OF inv, of 3] by (simp add: LLAMA_MAX_SEQ_def)
qed

text \<open>\<open>seq_pos_tok_le\<close>, which recovers the token preceding a position for n-gram embeddings,
  returns the token of a cell of the sequence at the greatest position not above \<open>p\<close>, of the
  highest cell index among several at that position, and the null token exactly when every cell of
  the sequence lies above \<open>p\<close>.\<close>

theorem kv_cells_tok_le:
  assumes "cells_inv c" "cells_size c \<le> 2 ^ 32" "0 \<le> s" "s < LLAMA_MAX_SEQ"
  shows "(\<forall>i \<in> seq_cells s c. kc_pos c ! i > p) \<and> cells_seq_pos_tok_le s p c = Some LLAMA_TOKEN_NULL \<or>
    (\<exists>i \<in> seq_cells s c. kc_pos c ! i \<le> p \<and> cells_seq_pos_tok_le s p c = Some (ext_tok (kc_ext c ! i)) \<and>
      (\<forall>j \<in> seq_cells s c. kc_pos c ! j \<le> p \<longrightarrow>
         kc_pos c ! j < kc_pos c ! i \<or> kc_pos c ! j = kc_pos c ! i \<and> j \<le> i))"
  using seq_pos_tok_le_scan [OF assms] .

theorem kv_cells_tok_le_witness:
  "cells_seq_pos_tok_le 3 9 (cells_put 1 7 \<lparr>ext_x = 0, ext_y = 0, ext_tok = 42\<rparr> 0 {3} (cells_resize 2 cells_new)) = Some 42"
proof -
  let ?c = "cells_put 1 7 \<lparr>ext_x = 0, ext_y = 0, ext_tok = 42\<rparr> 0 {3} (cells_resize 2 cells_new)"
  have inv: "cells_inv ?c" "cells_size ?c = 2"
    using cells_resize_inv [OF cells_new_inv, of 2] by (auto intro!: cells_put_inv simp: LLAMA_MAX_SEQ_def)
  have "seq_cells 3 ?c = {1}"
    by (auto simp: seq_cells_def cells_put_def cells_resize_def cells_reset_def cells_size_def Let_def
        nth_list_update_if split: if_splits)
  moreover have "kc_pos ?c ! 1 = 7" "ext_tok (kc_ext ?c ! 1) = 42"
    by (simp_all add: cells_put_def cells_resize_def cells_reset_def cells_size_def Let_def)
  ultimately show ?thesis
    using kv_cells_tok_le [OF inv(1), of 3 9] inv(2) by (simp add: LLAMA_MAX_SEQ_def)
qed

text \<open>Saving a list of cells with \<open>cp\<close> and writing them back with \<open>set\<close> restores the store: from any
  later state with the same cells elsewhere (and no pending shift on the saved ones), \<open>set\<close> gives the
  very state \<open>cp\<close> was called on, derived indices included, up to the \<open>has_shift\<close> flag, which neither
  call touches.\<close>

theorem kv_cells_save_restore:
  assumes "cells_inv c" "cells_inv d" "cells_size d = cells_size c"
    "\<forall>i \<in> set idxs. i < cells_size c \<and> kc_shift c ! i = 0 \<and> kc_shift d ! i = 0"
    "\<forall>i < cells_size c. i \<notin> set idxs \<longrightarrow> cell_at d i = cell_at c i"
  shows "\<exists>r. cells_cp_idxs idxs c = Some r \<and>
    cells_set_idxs idxs r d = Some (c\<lparr>kc_has_shift := kc_has_shift d\<rparr>)"
proof -
  from cells_cp_idxs_ok [of idxs c] assms(4) obtain r where "cells_cp_idxs idxs c = Some r" "saves_cells idxs c r"
    by blast
  with cells_restore [OF assms] show ?thesis by blast
qed

theorem kv_cells_save_restore_witness:
  "\<exists>r. cells_cp_idxs [1] (cells_resize 2 cells_new) = Some r \<and>
    cells_set_idxs [1] r (cells_put 1 7 kv_cell_ext_default 0 {3} (cells_resize 2 cells_new)) = Some (cells_resize 2 cells_new)"
proof -
  let ?c = "cells_resize 2 cells_new" and ?d = "cells_put 1 7 kv_cell_ext_default 0 {3} (cells_resize 2 cells_new)"
  have c: "cells_inv ?c" "cells_size ?c = 2" using cells_resize_inv [OF cells_new_inv, of 2] by auto
  have d: "cells_inv ?d" "cells_size ?d = 2"
    using c by (auto intro!: cells_put_inv simp: LLAMA_MAX_SEQ_def)
  have sh: "kc_shift ?c ! 1 = 0" by (simp add: cells_resize_def cells_reset_def Let_def cells_size_def)
  have "?c\<lparr>kc_has_shift := kc_has_shift ?d\<rparr> = ?c" by simp
  moreover have "cell_at ?d i = cell_at ?c i" if "i < 2" "i \<noteq> 1" for i
    using that c by (simp add: cell_at_put)
  ultimately show ?thesis
    using kv_cells_save_restore [OF c(1) d(1), of "[1]"] c(2) d(2) sh cells_put_nth(3) [OF c(1), of 1 1] by auto
qed

end
