(* ===== verification/Sj_Kvarn.thy ===== *)
theory Sj_Kvarn
  imports Kv_Cells
begin

section \<open>SJ-KVaRN seal schedule and staging ring (src/llama-kv-cache.cpp)\<close>

text \<open>
  The SJ-KVaRN cache keeps, for each stream, the positions \<open>[0, sink)\<close> exact, the positions
  \<open>[sink, B)\<close> as sealed records of \<open>group\<close> positions, and the positions \<open>[B, N)\<close> exact in a ring of
  \<open>cap\<close> rows. This theory holds the per-stream bookkeeping: the schedule that advances the sealed end
  in \<open>apply_ubatch\<close>, its publication by the maintenance, the truncation that reopens or drops sealed
  groups in \<open>seq_rm\<close>, the replay of the schedule for a re-prefill, and the idle compression. The main
  result is that along every sequence of these steps the ring never overflows, and that every row the
  kernels read still holds the position it stands for: the value stored, or what the record of its
  group reads back. What a record reads back is a parameter: the seal may lose precision. In the full
  grid mode the second part needs that no removal moves the sealed end upwards.

  Cell counts are \<open>nat\<close>: the code's \<open>uint32_t\<close> subtractions are guarded so that none is negative, and
  the sums stay below \<open>2^32\<close> for every cache that fits in memory.
\<close>

subsection \<open>Configuration\<close>

record sj_params =
  sj_sink :: nat
  sj_group :: nat
  sj_tail :: nat
  sj_n_ubatch :: nat
  sj_tail_max :: nat
  sj_flush_chunk :: nat
  sj_cap :: nat
  sj_grid :: nat
  sj_split_grid :: nat
  sj_n_groups_seq :: nat
  sj_n_groups_seal :: nat
  sj_n_groups :: nat
  sj_paged :: bool

definition GGML_PAD :: "nat \<Rightarrow> nat \<Rightarrow> nat" where
  "GGML_PAD x n = (x + n - 1) div n * n"

text \<open>The ring: \<open>tail + group + 2*n_ubatch\<close> rows, one more group on the full grid.\<close>

definition sj_ring_rows :: "nat \<Rightarrow> nat \<Rightarrow> nat \<Rightarrow> nat \<Rightarrow> nat \<Rightarrow> nat" where
  "sj_ring_rows grp tail tail_max n_ubatch split_grid =
     GGML_PAD (max tail tail_max + grp + 2 * n_ubatch + (if split_grid \<noteq> 0 then grp else 0)) 128"

text \<open>The part of the constructor that sizes the ring and the record pool. \<open>mode\<close> is
  \<open>LLAMA_SJKVARN_SEAL_GRID\<close>, \<open>noseal\<close> the \<open>LLAMA_SJKVARN_NOSEAL\<close> switch.\<close>

definition sj_setup ::
  "nat \<Rightarrow> nat \<Rightarrow> nat \<Rightarrow> nat \<Rightarrow> nat \<Rightarrow> nat \<Rightarrow> int \<Rightarrow> bool \<Rightarrow> nat \<Rightarrow> nat \<Rightarrow> bool \<Rightarrow> bool \<Rightarrow> sj_params option" where
  "sj_setup sink grp tail n_ubatch tail_max flush_chunk mode noseal kv_size n_stream unified shared_pool = do {
     assert_that (grp = 128 \<and> sink mod 64 = 0 \<and> tail mod grp = 0);
     assert_that (kv_size mod 256 = 0);
     let grid = (if mode = 0 then 0 else n_ubatch);
     let split_grid = (if mode = 1 then n_ubatch else 0);
     let cap = sj_ring_rows grp tail tail_max n_ubatch split_grid;
     let cap = (if noseal then GGML_PAD (max cap kv_size) 128 else cap);
     let n_groups = (if kv_size \<ge> sink + tail + grp then (kv_size - sink - tail) div grp else 1);
     let n_groups_seal = (n_ubatch + grp - 1) div grp + 1;
     let n_groups_seal = (if tail_max > tail then n_groups_seal + (tail_max - tail) div grp else n_groups_seal);
     let n_groups_seq = n_groups;
     let paged = (n_stream > 1);
     let shared = (paged \<and> (unified \<or> shared_pool));
     let n_groups = (if paged \<and> \<not> shared then n_stream * n_groups_seq else n_groups);
     Some \<lparr>sj_sink = sink, sj_group = grp, sj_tail = tail, sj_n_ubatch = n_ubatch, sj_tail_max = tail_max,
       sj_flush_chunk = flush_chunk, sj_cap = cap, sj_grid = grid, sj_split_grid = split_grid,
       sj_n_groups_seq = n_groups_seq, sj_n_groups_seal = n_groups_seal, sj_n_groups = n_groups,
       sj_paged = paged\<rparr> }"

record sj_kvarn_stream =
  st_B :: nat
  st_B_pending :: nat
  st_draining :: bool
  st_B_prev :: nat
  st_N :: nat
  st_ring_lo :: nat
  st_exact_at :: int
  st_table :: "int list"

text \<open>\<open>sj_kvarn_reset_stream\<close> without the pool (theory Sj_Pool adds it).\<close>

definition sj_reset_st :: "sj_params \<Rightarrow> sj_kvarn_stream \<Rightarrow> sj_kvarn_stream" where
  "sj_reset_st P st = st\<lparr>st_B := sj_sink P, st_B_prev := sj_sink P, st_B_pending := sj_sink P,
     st_draining := False, st_N := 0, st_ring_lo := 0, st_exact_at := -1\<rparr>"

definition sj_ring_row :: "sj_params \<Rightarrow> nat \<Rightarrow> nat" where
  "sj_ring_row P pos = (if pos < sj_sink P then pos else sj_sink P + (pos - sj_sink P) mod sj_cap P)"

subsection \<open>The seal schedule\<close>

definition sj_floor_g :: "sj_params \<Rightarrow> nat \<Rightarrow> nat" where
  "sj_floor_g P pos = (if pos \<le> sj_sink P then sj_sink P
     else sj_sink P + sj_group P * ((pos - sj_sink P) div sj_group P))"

definition sj_next_B :: "sj_params \<Rightarrow> nat \<Rightarrow> nat \<Rightarrow> nat" where
  "sj_next_B P B G = (let due = (sj_tail_max P = 0 \<or> (G > B \<and> G - B \<ge> sj_tail_max P)) in
     if due \<and> G > sj_sink P + sj_tail P
     then max B (sj_sink P + sj_group P * ((G - sj_tail P - sj_sink P) div sj_group P)) else B)"

function sj_replay_from :: "sj_params \<Rightarrow> nat \<Rightarrow> nat \<Rightarrow> nat \<Rightarrow> nat" where
  "sj_replay_from P fin G B = (if G < fin \<and> sj_grid P > 0
     then sj_replay_from P fin (G + sj_grid P) (sj_next_B P B G) else B)"
  by auto
termination by (relation "measure (\<lambda>(P, fin, G, B). fin - G)") auto

declare sj_replay_from.simps [simp del]

definition sj_replay_B :: "sj_params \<Rightarrow> nat \<Rightarrow> nat option" where
  "sj_replay_B P fin = do { assert_that (sj_grid P > 0); Some (sj_replay_from P fin 0 (sj_sink P)) }"

definition sj_reopen_lo :: "sj_params \<Rightarrow> sj_kvarn_stream \<Rightarrow> nat" where
  "sj_reopen_lo P st = (let lo = max (st_ring_lo st) (sj_sink P) in
     sj_sink P + sj_group P * ((lo - sj_sink P + sj_group P - 1) div sj_group P))"

text \<open>The sealed-end update of \<open>apply_ubatch\<close>, for one stream: \<open>pos0\<close> cells are present before the
  ubatch, which adds \<open>nt\<close>.\<close>

definition sj_propose :: "sj_params \<Rightarrow> nat \<Rightarrow> nat \<Rightarrow> sj_kvarn_stream \<Rightarrow> sj_kvarn_stream" where
  "sj_propose P pos0 nt st = (
     let st = st\<lparr>st_B_prev := st_B st, st_B_pending := st_B st\<rparr>;
         G = (if sj_split_grid P \<noteq> 0 then pos0 - pos0 mod sj_split_grid P else pos0);
         due = (sj_tail_max P = 0 \<or> st_draining st \<or> (G > st_B st \<and> G - st_B st \<ge> sj_tail_max P));
         st = st\<lparr>st_draining := False\<rparr>
     in if due \<and> G > sj_sink P + sj_tail P then
          let target = max (st_B st) (sj_sink P + sj_group P * ((G - sj_tail P - sj_sink P) div sj_group P));
              limit = st_B st + sj_group P * sj_flush_chunk P
          in if sj_tail_max P > 0 \<and> sj_flush_chunk P > 0 \<and> nt < sj_group P \<and> target > limit
             then st\<lparr>st_draining := True, st_B_pending := limit\<rparr>
             else st\<lparr>st_B_pending := target\<rparr>
        else st)"

text \<open>The whole SJ-KVaRN part of \<open>apply_ubatch\<close>, with its three assertions: \<open>idxs\<close> are the cells of the
  slot, \<open>N\<close> the cells present afterwards.\<close>

definition sj_apply :: "sj_params \<Rightarrow> nat list \<Rightarrow> nat \<Rightarrow> sj_kvarn_stream \<Rightarrow> sj_kvarn_stream option" where
  "sj_apply P idxs N st = do {
     let nt = length idxs;
     let pos0 = idxs ! 0;
     assert_that (\<forall>ii < nt. idxs ! ii = idxs ! 0 + ii);
     assert_that (N = pos0 + nt);
     let st = sj_propose P pos0 nt st;
     assert_that (N \<le> st_B_prev st + sj_cap P);
     assert_that (st_B_pending st \<le> pos0 \<or> st_B_pending st = sj_sink P);
     assert_that ((st_B_pending st - sj_sink P) div sj_group P \<le> sj_n_groups_seq P);
     let st = st\<lparr>st_N := N, st_exact_at := -1\<rparr>;
     Some (if N > sj_cap P then st\<lparr>st_ring_lo := max (st_ring_lo st) (N - sj_cap P)\<rparr> else st) }"

text \<open>\<open>maintain_sj_kvarn_stream\<close> publishes the proposed end once every layer has sealed, and withdraws
  the proposal when a seal fails. \<open>ok\<close> is the outcome of the graph computation.\<close>

definition sj_publish :: "bool \<Rightarrow> sj_kvarn_stream \<Rightarrow> sj_kvarn_stream" where
  "sj_publish ok st = (if st_B_pending st \<le> st_B st then st
     else if ok then st\<lparr>st_B_prev := st_B st, st_B := st_B_pending st\<rparr>
     else st\<lparr>st_B_pending := st_B st\<rparr>)"

subsection \<open>Truncation\<close>

definition sj_truncate_target :: "sj_params \<Rightarrow> sj_kvarn_stream \<Rightarrow> nat \<Rightarrow> nat option option" where
  "sj_truncate_target P st p0 = do {
     assert_that (p0 < st_B st \<or> sj_grid P \<noteq> 0);
     if st_B_pending st \<noteq> st_B st then Some None
     else if p0 \<le> sj_sink P then Some (Some (sj_sink P))
     else if p0 \<ge> sj_reopen_lo P st then do {
       want \<leftarrow> (if sj_grid P \<noteq> 0 then sj_replay_B P p0
               else if p0 > sj_sink P + sj_tail P then Some (sj_floor_g P (p0 - sj_tail P)) else Some (sj_sink P));
       Some (Some (min (st_B st) (max (sj_reopen_lo P st) want))) }
     else if (p0 - sj_sink P) mod sj_group P = 0 then Some (Some p0)
     else Some None }"

text \<open>The bookkeeping half of \<open>sj_kvarn_truncate_body\<close>; the records go back to the pool in theory
  Sj_Pool.\<close>

definition sj_truncate_st :: "nat \<Rightarrow> nat \<Rightarrow> sj_kvarn_stream \<Rightarrow> sj_kvarn_stream" where
  "sj_truncate_st B_new p0 st = st\<lparr>st_B := B_new, st_B_prev := B_new, st_B_pending := B_new,
     st_draining := False, st_N := min (st_N st) p0\<rparr>"

text \<open>What \<open>seq_rm\<close> does with one stream, decided before any stream is changed: the removal of the
  cells \<open>[c0, c1)\<close> of \<open>n\<close> present.\<close>

datatype sj_rm_action = Rm_reset | Rm_refuse | Rm_trunc nat | Rm_keep

definition sj_rm_decide :: "sj_params \<Rightarrow> sj_kvarn_stream \<Rightarrow> nat \<Rightarrow> nat \<Rightarrow> nat \<Rightarrow> sj_rm_action option" where
  "sj_rm_decide P st n c0 c1 =
     (if c0 = 0 \<and> c1 \<ge> n then Some Rm_reset
      else if c0 < n \<and> c1 < n then Some Rm_refuse
      else if st_B st > sj_sink P \<and> c0 < n then do {
        below \<leftarrow> (if c0 < st_B st then Some True
          else if sj_split_grid P \<noteq> 0 then map_option (\<lambda>r. r < st_B st) (sj_replay_B P c0)
          else Some False);
        if below then do {
          tgt \<leftarrow> sj_truncate_target P st c0;
          Some (case tgt of Some B_new \<Rightarrow> Rm_trunc B_new
            | None \<Rightarrow> if c0 \<ge> st_B st then Rm_keep else Rm_refuse) }
        else Some Rm_keep }
      else Some Rm_keep)"

text \<open>The nearest cut at or below cell \<open>c\<close> that \<open>seq_rm\<close> accepts (\<open>sj_kvarn_rm_floor_cell\<close>).\<close>

definition sj_rm_floor_cell :: "sj_params \<Rightarrow> sj_kvarn_stream \<Rightarrow> nat \<Rightarrow> nat" where
  "sj_rm_floor_cell P st c =
     (if c \<ge> st_B st \<or> c \<le> sj_sink P \<or> c \<ge> sj_reopen_lo P st then c else sj_floor_g P c)"

text \<open>The bookkeeping of \<open>sj_kvarn_prefill_cut\<close> and of \<open>sj_kvarn_cut_in_reach\<close>, over cell counts; the
  second component says whether the stream changed.\<close>

definition sj_prefill_cut :: "sj_params \<Rightarrow> nat \<Rightarrow> nat \<Rightarrow> bool \<Rightarrow> sj_kvarn_stream \<Rightarrow> (sj_kvarn_stream \<times> bool) option" where
  "sj_prefill_cut P n c0 p0_pos st = (
     let exact = (st_exact_at st = int c0); st = st\<lparr>st_exact_at := -1\<rparr>
     in if exact \<or> sj_grid P = 0 \<or> \<not> p0_pos then Some (st, False)
        else if c0 mod sj_grid P \<noteq> 0 \<or> c0 \<ge> n \<or> st_B_pending st \<noteq> st_B st then Some (st, False)
        else do {
          want \<leftarrow> sj_replay_B P c0;
          (st, changed) \<leftarrow> (if st_B st > sj_sink P \<and> want < st_B st then do {
             tgt \<leftarrow> sj_truncate_target P st c0;
             Some (case tgt of Some B_new \<Rightarrow> if B_new < st_B st then (sj_truncate_st B_new c0 st, True) else (st, False)
               | None \<Rightarrow> (st, False)) }
           else Some (st, False));
          Some (if st_draining st then (st\<lparr>st_draining := False\<rparr>, True) else (st, changed)) })"

definition sj_cut_in_reach :: "sj_params \<Rightarrow> nat \<Rightarrow> bool \<Rightarrow> sj_kvarn_stream \<Rightarrow> bool option" where
  "sj_cut_in_reach P c0 p0_pos st = (if sj_grid P = 0 \<or> \<not> p0_pos then Some True else do {
     want \<leftarrow> sj_replay_B P c0;
     Some (if st_B st \<le> want then True
       else let B_got = min (st_B st) (max (sj_reopen_lo P st) want)
            in sj_next_B P B_got c0 = sj_next_B P want c0) })"

text \<open>The idle compression (\<open>compress_sj_kvarn_idle\<close>). \<open>seq_ok\<close> says that the sequence id is in range,
  \<open>accepted_end\<close> is the frontier the caller gives, \<open>end_cell\<close> the cell of that position and \<open>pos_max\<close> the last
  position of the sequence; \<open>fin\<close> cells are present, \<open>keep\<close> is the cell of \<open>keep_from\<close> if that is not
  negative, \<open>free_recs\<close> the free records of a paged pool, \<open>ok\<close> the outcome of the seal graph. The result code
  is the one of the function: -1 refused or failed, 0 nothing to seal, 1 sealed.\<close>

definition sj_idle ::
  "sj_params \<Rightarrow> bool \<Rightarrow> int \<Rightarrow> nat \<Rightarrow> int \<Rightarrow> nat \<Rightarrow> nat option \<Rightarrow> nat \<Rightarrow> bool \<Rightarrow> sj_kvarn_stream
   \<Rightarrow> (sj_kvarn_stream \<times> int) option" where
  "sj_idle P seq_ok accepted_end end_cell pos_max free_recs keep fin ok st =
     (if sj_tail_max P = 0 \<or> \<not> seq_ok \<or> accepted_end < 0 then Some (st, -1)
      else if st_B_pending st \<noteq> st_B st then Some (st, -1)
      else if accepted_end = 0 \<and> fin = 0 then Some (st, 0)
      else if pos_max < 0 \<or> pos_max + 1 \<noteq> accepted_end \<or> end_cell \<noteq> fin then Some (st, -1)
      else if fin \<le> sj_sink P + sj_tail P then Some (st, 0)
      else do {
        let target = sj_sink P + sj_group P * ((fin - sj_tail P - sj_sink P) div sj_group P);
        target \<leftarrow> (case keep of None \<Rightarrow> Some target
          | Some keep_c \<Rightarrow> do {
              k \<leftarrow> (if sj_grid P \<noteq> 0 then sj_replay_B P keep_c
                   else Some (if keep_c \<le> sj_sink P + sj_tail P then sj_sink P else sj_floor_g P (keep_c - sj_tail P)));
              Some (min target k) });
        Some (if target \<le> st_B st then (if keep = None then st\<lparr>st_draining := False\<rparr> else st, 0)
          else let can = (if sj_paged P
                 then st_B st + sj_group P * min free_recs ((target - st_B st) div sj_group P) else target);
               partial = (keep \<noteq> None \<or> can < target)
          in if can \<le> st_B st then (st, 0)
             else let st = sj_publish ok (st\<lparr>st_B_pending := can\<rparr>)
             in if \<not> ok then (st, -1)
                else (if partial then st else st\<lparr>st_draining := False\<rparr>, 1)) })"

subsection \<open>Well-formed configurations\<close>

definition sj_wf :: "sj_params \<Rightarrow> nat \<Rightarrow> bool" where
  "sj_wf P kv_size \<longleftrightarrow> sj_group P > 0 \<and> sj_n_ubatch P > 0 \<and>
     max (sj_tail P) (sj_tail_max P) + sj_group P + 2 * sj_n_ubatch P +
       (if sj_split_grid P \<noteq> 0 then sj_group P else 0) \<le> sj_cap P \<and>
     (sj_grid P = 0 \<or> sj_grid P = sj_n_ubatch P) \<and>
     (sj_split_grid P = 0 \<or> sj_split_grid P = sj_n_ubatch P \<and> sj_grid P = sj_n_ubatch P) \<and>
     (kv_size \<ge> sj_sink P + sj_tail P + sj_group P \<longrightarrow>
        sj_n_groups_seq P = (kv_size - sj_sink P - sj_tail P) div sj_group P)"

lemma GGML_PAD_ge: "n > 0 \<Longrightarrow> x \<le> GGML_PAD x n"
proof -
  assume n: "n > 0"
  have "(x + n - 1) mod n < n" using n by simp
  moreover have "(x + n - 1) div n * n + (x + n - 1) mod n = x + n - 1" by simp
  ultimately show "x \<le> GGML_PAD x n" unfolding GGML_PAD_def using n by linarith
qed

lemma sj_setup_wf:
  assumes "sj_setup sink grp tail U tail_max chunk mode noseal kv_size n_stream uni sh = Some P" "U > 0"
  shows "sj_wf P kv_size"
proof -
  define need where "need = max tail tail_max + grp + 2 * U + (if mode = 1 then grp else 0)"
  define cap where "cap = (if noseal then GGML_PAD (max (GGML_PAD need 128) kv_size) 128 else GGML_PAD need 128)"
  have pad: "x \<le> GGML_PAD x 128" for x by (simp add: GGML_PAD_ge)
  have "need \<le> cap" using pad [of need] pad [of "max (GGML_PAD need 128) kv_size"] by (simp add: cap_def)
  moreover have "sj_cap P = cap" "sj_group P = grp" "sj_tail P = tail" "sj_tail_max P = tail_max" "sj_n_ubatch P = U"
    "sj_sink P = sink" "sj_grid P = (if mode = 0 then 0 else U)" "sj_split_grid P = (if mode = 1 then U else 0)"
    "sj_n_groups_seq P = (if kv_size \<ge> sink + tail + grp then (kv_size - sink - tail) div grp else 1)" "grp = 128"
    using assms by (auto simp: sj_setup_def sj_ring_rows_def Let_def cap_def need_def split del: if_split cong: if_cong)
      (cases "mode = 1"; simp)+
  ultimately show ?thesis using assms(2)
    by (cases "mode = 1") (simp_all add: sj_wf_def need_def)
qed

subsection \<open>Bounds of the schedule\<close>

text \<open>How far the sealed end may lag behind the cells present.\<close>

definition sj_slack :: "sj_params \<Rightarrow> nat" where
  "sj_slack P = max (sj_tail P) (sj_tail_max P) + sj_group P + sj_n_ubatch P +
     (if sj_split_grid P \<noteq> 0 then sj_group P else 0)"

lemma sj_slack_cap: "sj_wf P kv \<Longrightarrow> sj_slack P + sj_n_ubatch P \<le> sj_cap P"
  by (auto simp: sj_wf_def sj_slack_def)

lemma sj_slack_tail: "sj_tail P + sj_group P \<le> sj_slack P"
  unfolding sj_slack_def by linarith

lemma floor_mult:
  fixes g x :: nat assumes "g > 0"
  shows "g * (x div g) \<le> x" "x < g * (x div g) + g"
  using mult_div_mod_eq [of g x] mod_less_divisor [OF assms, of x] by linarith+

definition sj_aligned :: "sj_params \<Rightarrow> nat \<Rightarrow> bool" where
  "sj_aligned P B \<longleftrightarrow> sj_sink P \<le> B \<and> sj_group P dvd B - sj_sink P"

lemma sj_aligned_sink [simp]: "sj_aligned P (sj_sink P)"
  by (simp add: sj_aligned_def)

lemma sj_aligned_mult [simp]: "sj_aligned P (sj_sink P + sj_group P * k)"
  by (simp add: sj_aligned_def)

lemma sj_aligned_max [simp]: "sj_aligned P a \<Longrightarrow> sj_aligned P b \<Longrightarrow> sj_aligned P (max a b)"
  by (simp add: max_def)

lemma sj_aligned_min [simp]: "sj_aligned P a \<Longrightarrow> sj_aligned P b \<Longrightarrow> sj_aligned P (min a b)"
  by (simp add: min_def)

lemma sj_aligned_add:
  assumes "sj_aligned P B"
  shows "sj_aligned P (B + sj_group P * k)"
proof -
  have e: "B + sj_group P * k - sj_sink P = (B - sj_sink P) + sj_group P * k"
    using assms by (simp add: sj_aligned_def)
  show ?thesis unfolding sj_aligned_def e
    using assms by (intro conjI dvd_add) (simp_all add: sj_aligned_def)
qed

text \<open>A sealed end computed from the count \<open>G\<close>: at most \<open>G\<close>, less than \<open>tail + group\<close> behind it.\<close>

lemma seal_target:
  assumes "sj_group P > 0" "G > sj_sink P + sj_tail P"
  defines "t \<equiv> sj_sink P + sj_group P * ((G - sj_tail P - sj_sink P) div sj_group P)"
  shows "t \<le> G" "t + sj_tail P \<le> G" "G < t + sj_tail P + sj_group P" "sj_aligned P t" "sj_sink P \<le> t"
proof -
  define x where "x = G - sj_tail P - sj_sink P"
  have x: "x + sj_tail P + sj_sink P = G" using assms(2) by (simp add: x_def)
  have t: "t = sj_sink P + sj_group P * (x div sj_group P)" by (simp only: t_def x_def)
  show "t \<le> G" "t + sj_tail P \<le> G" "G < t + sj_tail P + sj_group P" "sj_sink P \<le> t"
    using floor_mult [OF assms(1), of x] x t by linarith+
  show "sj_aligned P t" by (simp only: t sj_aligned_mult)
qed

lemma floor_g_bounds:
  assumes "sj_group P > 0"
  shows "sj_floor_g P c \<le> max c (sj_sink P)" "c < sj_floor_g P c + sj_group P" "sj_aligned P (sj_floor_g P c)"
proof -
  have "sj_floor_g P c \<le> max c (sj_sink P) \<and> c < sj_floor_g P c + sj_group P \<and> sj_aligned P (sj_floor_g P c)"
  proof (cases "c \<le> sj_sink P")
    case True
    then show ?thesis using assms by (simp add: sj_floor_g_def)
  next
    case False
    define x where "x = c - sj_sink P"
    have x: "x + sj_sink P = c" using False by (simp add: x_def)
    have t: "sj_floor_g P c = sj_sink P + sj_group P * (x div sj_group P)"
      using False by (simp add: sj_floor_g_def x_def)
    have "sj_sink P + sj_group P * (x div sj_group P) \<le> c" "c < sj_sink P + sj_group P * (x div sj_group P) + sj_group P"
      using floor_mult [OF assms, of x] x by linarith+
    then show ?thesis unfolding t by (intro conjI le_max_iff_disj [THEN iffD2] disjI1) simp_all
  qed
  then show "sj_floor_g P c \<le> max c (sj_sink P)" "c < sj_floor_g P c + sj_group P" "sj_aligned P (sj_floor_g P c)"
    by blast+
qed

lemma reopen_lo_bounds:
  assumes "sj_group P > 0"
  shows "st_ring_lo st \<le> sj_reopen_lo P st" "sj_sink P \<le> sj_reopen_lo P st" "sj_aligned P (sj_reopen_lo P st)"
  using floor_mult [OF assms, of "max (st_ring_lo st) (sj_sink P) - sj_sink P + sj_group P - 1"] assms
  by (auto simp: sj_reopen_lo_def Let_def)

lemma next_B_cases:
  fixes P :: sj_params and B G :: nat
  obtains "sj_next_B P B G = B" "G \<le> sj_sink P + sj_tail P \<or> G < B + sj_tail_max P"
  | "G > sj_sink P + sj_tail P"
    "sj_next_B P B G = max B (sj_sink P + sj_group P * ((G - sj_tail P - sj_sink P) div sj_group P))"
  by (cases "G > sj_sink P + sj_tail P"; cases "sj_tail_max P = 0 \<or> (G > B \<and> G - B \<ge> sj_tail_max P)")
    (auto simp: sj_next_B_def Let_def not_le)

lemma next_B_bounds:
  assumes "sj_group P > 0" "sj_aligned P B" "B \<le> max (sj_sink P) G"
  shows "sj_aligned P (sj_next_B P B G)" "B \<le> sj_next_B P B G" "sj_next_B P B G \<le> max (sj_sink P) G"
    "G < sj_next_B P B G + max (sj_tail P) (sj_tail_max P) + sj_group P"
proof -
  have B: "sj_sink P \<le> B" using assms(2) by (simp add: sj_aligned_def)
  have "sj_aligned P (sj_next_B P B G) \<and> B \<le> sj_next_B P B G \<and> sj_next_B P B G \<le> max (sj_sink P) G \<and>
    G < sj_next_B P B G + max (sj_tail P) (sj_tail_max P) + sj_group P"
  proof (cases rule: next_B_cases [of P B G])
    case 1
    then show ?thesis using assms B by auto
  next
    case 2
    note t = seal_target [OF assms(1) 2(1)]
    show ?thesis unfolding 2(2)
      using assms(2,3) t(1,3,4) by (auto simp del: Nat.diff_diff_left diff_diff_left)
  qed
  then show "sj_aligned P (sj_next_B P B G)" "B \<le> sj_next_B P B G" "sj_next_B P B G \<le> max (sj_sink P) G"
    "G < sj_next_B P B G + max (sj_tail P) (sj_tail_max P) + sj_group P" by blast+
qed

text \<open>The replay visits the grid lines below \<open>fin\<close>.\<close>

lemma replay_from_bounds:
  assumes "sj_group P > 0" "sj_grid P > 0" "sj_aligned P B" "B \<le> max (sj_sink P) fin" "B \<le> max (sj_sink P) G"
    "G \<le> B + max (sj_tail P) (sj_tail_max P) + sj_group P + sj_grid P"
  shows "sj_aligned P (sj_replay_from P fin G B) \<and> sj_replay_from P fin G B \<le> max (sj_sink P) fin \<and>
    fin \<le> sj_replay_from P fin G B + max (sj_tail P) (sj_tail_max P) + sj_group P + sj_grid P"
  using assms
proof (induction P fin G B rule: sj_replay_from.induct)
  case (1 P fin G B)
  show ?case
  proof (cases "G < fin")
    case True
    note b = next_B_bounds [OF "1.prems"(1,3,5)]
    have "sj_next_B P B G \<le> max (sj_sink P) fin" "sj_next_B P B G \<le> max (sj_sink P) (G + sj_grid P)"
      using b(3) True by (simp_all add: max_def split: if_splits)
    moreover have "G + sj_grid P \<le> sj_next_B P B G + max (sj_tail P) (sj_tail_max P) + sj_group P + sj_grid P"
      using b(4) by linarith
    ultimately show ?thesis
      using "1.IH" [OF _ "1.prems"(1,2) b(1)] True "1.prems"(2) by (subst (1 2 3) sj_replay_from.simps) simp
  next
    case False
    then have "sj_replay_from P fin G B = B" by (simp add: sj_replay_from.simps)
    with False "1.prems" show ?thesis by simp
  qed
qed

lemma replay_B_bounds:
  assumes "sj_wf P kv" "sj_grid P \<noteq> 0"
  obtains r where "sj_replay_B P fin = Some r" "sj_aligned P r" "r \<le> max (sj_sink P) fin"
    "fin \<le> r + sj_slack P"
proof -
  have g: "sj_group P > 0" "sj_grid P > 0" "sj_grid P = sj_n_ubatch P" using assms by (auto simp: sj_wf_def)
  have "sj_replay_B P fin = Some (sj_replay_from P fin 0 (sj_sink P))" using g by (simp add: sj_replay_B_def)
  moreover have "sj_aligned P (sj_replay_from P fin 0 (sj_sink P)) \<and> sj_replay_from P fin 0 (sj_sink P) \<le> max (sj_sink P) fin \<and>
    fin \<le> sj_replay_from P fin 0 (sj_sink P) + max (sj_tail P) (sj_tail_max P) + sj_group P + sj_grid P"
    using g by (intro replay_from_bounds) simp_all
  moreover have "fin \<le> r + max (sj_tail P) (sj_tail_max P) + sj_group P + sj_grid P \<Longrightarrow> fin \<le> r + sj_slack P" for r
    using g(3) by (simp add: sj_slack_def)
  ultimately show thesis using that by blast
qed

subsection \<open>The invariant of one stream\<close>

text \<open>\<open>n\<close> is the number of cells the stream holds (\<open>used_max_p1\<close>).\<close>

definition sj_end_ok :: "sj_params \<Rightarrow> nat \<Rightarrow> nat \<Rightarrow> bool" where
  "sj_end_ok P B n \<longleftrightarrow> sj_aligned P B \<and> B \<le> max (sj_sink P) n \<and> n \<le> B + sj_slack P \<and>
     (B - sj_sink P) div sj_group P \<le> sj_n_groups_seq P"

definition sj_st_inv :: "sj_params \<Rightarrow> sj_kvarn_stream \<Rightarrow> nat \<Rightarrow> bool" where
  "sj_st_inv P st n \<longleftrightarrow> sj_end_ok P (st_B st) n \<and> st_B_pending st = st_B st"

text \<open>A ubatch the splitter may build: at most \<open>n_ubatch\<close> tokens, and on the full grid either inside one
  grid cell or a decode-sized one.\<close>

definition sj_ubatch_ok :: "sj_params \<Rightarrow> nat \<Rightarrow> nat \<Rightarrow> nat \<Rightarrow> bool" where
  "sj_ubatch_ok P kv n nt \<longleftrightarrow> 1 \<le> nt \<and> nt \<le> sj_n_ubatch P \<and> n + nt \<le> kv \<and>
     (sj_split_grid P \<noteq> 0 \<longrightarrow> nt \<le> sj_group P \<or> n mod sj_split_grid P + nt \<le> sj_split_grid P)"

lemma groups_seq_bound:
  assumes "sj_wf P kv" "G \<le> kv" "G > sj_sink P + sj_tail P"
  shows "(G - sj_tail P - sj_sink P) div sj_group P \<le> sj_n_groups_seq P"
proof (cases "kv \<ge> sj_sink P + sj_tail P + sj_group P")
  case True
  then have "sj_n_groups_seq P = (kv - sj_sink P - sj_tail P) div sj_group P" using assms(1) by (simp add: sj_wf_def)
  with assms(2) show ?thesis by (simp add: div_le_mono)
next
  case False
  then have "G - sj_tail P - sj_sink P < sj_group P" using assms(2,3) by linarith
  then show ?thesis by simp
qed

lemma propose_cases:
  fixes P :: sj_params and st :: sj_kvarn_stream and pos0 nt G :: nat
  assumes G: "G = (if sj_split_grid P \<noteq> 0 then pos0 - pos0 mod sj_split_grid P else pos0)"
  obtains (idle) "st_B_pending (sj_propose P pos0 nt st) = st_B st"
      "G \<le> st_B st + sj_tail_max P \<or> G \<le> sj_sink P + sj_tail P"
  | (full) "G > sj_sink P + sj_tail P" "st_B_pending (sj_propose P pos0 nt st) =
       max (st_B st) (sj_sink P + sj_group P * ((G - sj_tail P - sj_sink P) div sj_group P))"
  | (chunk) "G > sj_sink P + sj_tail P" "st_B_pending (sj_propose P pos0 nt st) = st_B st + sj_group P * sj_flush_chunk P"
      "nt < sj_group P" "sj_flush_chunk P > 0"
      "st_B st + sj_group P * sj_flush_chunk P <
        max (st_B st) (sj_sink P + sj_group P * ((G - sj_tail P - sj_sink P) div sj_group P))"
proof -
  define due where "due = (sj_tail_max P = 0 \<or> st_draining st \<or> (G > st_B st \<and> G - st_B st \<ge> sj_tail_max P))"
  define target where "target = max (st_B st) (sj_sink P + sj_group P * ((G - sj_tail P - sj_sink P) div sj_group P))"
  define limit where "limit = st_B st + sj_group P * sj_flush_chunk P"
  have v: "st_B_pending (sj_propose P pos0 nt st) =
    (if due \<and> G > sj_sink P + sj_tail P then
       if sj_tail_max P > 0 \<and> sj_flush_chunk P > 0 \<and> nt < sj_group P \<and> target > limit then limit else target
     else st_B st)"
    unfolding sj_propose_def Let_def G [symmetric] due_def target_def limit_def by simp
  show thesis
  proof (cases "due \<and> G > sj_sink P + sj_tail P")
    case False
    then have "G \<le> st_B st + sj_tail_max P \<or> G \<le> sj_sink P + sj_tail P" unfolding due_def by linarith
    moreover have "st_B_pending (sj_propose P pos0 nt st) = st_B st" using v False by simp
    ultimately show thesis by (rule idle [rotated])
  next
    case True
    then show thesis using v full chunk unfolding target_def limit_def by (auto split: if_splits)
  qed
qed

lemma propose_other [simp]:
  "st_B (sj_propose P pos0 nt st) = st_B st" "st_B_prev (sj_propose P pos0 nt st) = st_B st"
  "st_ring_lo (sj_propose P pos0 nt st) = st_ring_lo st" "st_table (sj_propose P pos0 nt st) = st_table st"
  by (simp_all add: sj_propose_def Let_def)

lemma propose_ok:
  assumes wf: "sj_wf P kv" and e: "sj_end_ok P (st_B st) n" and u: "sj_ubatch_ok P kv n nt"
  shows "sj_end_ok P (st_B_pending (sj_propose P n nt st)) (n + nt)"
    "st_B st \<le> st_B_pending (sj_propose P n nt st)" "st_B_pending (sj_propose P n nt st) \<le> max (sj_sink P) n"
proof -
  define G where "G = (if sj_split_grid P \<noteq> 0 then n - n mod sj_split_grid P else n)"
  define D where "D = sj_n_ubatch P + (if sj_split_grid P \<noteq> 0 then sj_group P else 0)"
  have g: "sj_group P > 0" using wf by (simp add: sj_wf_def)
  have GD: "G \<le> n" "n + nt \<le> G + D"
  proof -
    show "G \<le> n" by (simp add: G_def)
    have nt: "nt \<le> sj_n_ubatch P" using u by (simp add: sj_ubatch_ok_def)
    show "n + nt \<le> G + D"
    proof (cases "sj_split_grid P = 0")
      case True
      then show ?thesis using nt by (simp add: G_def D_def)
    next
      case False
      then have U: "sj_split_grid P = sj_n_ubatch P" "sj_n_ubatch P > 0" using wf by (auto simp: sj_wf_def)
      have "n mod sj_n_ubatch P < sj_n_ubatch P" "n mod sj_n_ubatch P \<le> n" using U(2) by simp_all
      moreover have "nt \<le> sj_group P \<or> n mod sj_n_ubatch P + nt \<le> sj_n_ubatch P"
        using u False by (simp add: sj_ubatch_ok_def U(1))
      moreover have "G = n - n mod sj_n_ubatch P" "D = sj_n_ubatch P + sj_group P"
        using False U(2) by (simp_all add: G_def D_def U(1))
      ultimately show ?thesis by linarith
    qed
  qed
  have sl: "sj_slack P = max (sj_tail P) (sj_tail_max P) + sj_group P + D" by (simp add: sj_slack_def D_def)
  have B: "sj_aligned P (st_B st)" "sj_sink P \<le> st_B st" "st_B st \<le> max (sj_sink P) n" "n \<le> st_B st + sj_slack P"
    "(st_B st - sj_sink P) div sj_group P \<le> sj_n_groups_seq P"
    using e by (auto simp: sj_end_ok_def sj_aligned_def)
  have kv: "G \<le> kv" using GD(1) u by (simp add: sj_ubatch_ok_def)
  let ?b = "st_B_pending (sj_propose P n nt st)"
  define t where "t = sj_sink P + sj_group P * ((G - sj_tail P - sj_sink P) div sj_group P)"
  have "sj_aligned P ?b \<and> st_B st \<le> ?b \<and> ?b \<le> max (sj_sink P) n \<and> n + nt \<le> ?b + sj_slack P \<and>
    (?b - sj_sink P) div sj_group P \<le> sj_n_groups_seq P"
  proof (cases rule: propose_cases [OF G_def, of nt st])
    case 1
    then show ?thesis using B GD sl by auto
  next
    case 2
    note t = seal_target [OF g 2(1), folded t_def]
    have "(t - sj_sink P) div sj_group P \<le> sj_n_groups_seq P"
      using groups_seq_bound [OF wf kv 2(1)] g by (simp add: t_def)
    then show ?thesis unfolding 2(2) [folded t_def] using B t GD sl by (auto simp: max_def)
  next
    case 3
    note t = seal_target [OF g 3(1), folded t_def]
    have lt: "st_B st + sj_group P * sj_flush_chunk P < t" using 3(5) [folded t_def] by simp
    have "(t - sj_sink P) div sj_group P \<le> sj_n_groups_seq P"
      using groups_seq_bound [OF wf kv 3(1)] g by (simp add: t_def)
    then have s: "(st_B st + sj_group P * sj_flush_chunk P - sj_sink P) div sj_group P \<le> sj_n_groups_seq P"
      using lt by (meson diff_le_mono div_le_mono le_trans less_imp_le)
    have "sj_group P * 1 \<le> sj_group P * sj_flush_chunk P" using 3(4) by (intro mult_le_mono) auto
    then have "n + nt \<le> st_B st + sj_group P * sj_flush_chunk P + sj_slack P" using B(4) 3(3) by linarith
    then show ?thesis unfolding 3(2) using B t(1) GD(1) lt s sj_aligned_add [OF B(1)] by auto
  qed
  then show "sj_end_ok P ?b (n + nt)" "st_B st \<le> ?b" "?b \<le> max (sj_sink P) n" by (auto simp: sj_end_ok_def)
qed

lemma apply_ok:
  assumes wf: "sj_wf P kv" and e: "sj_end_ok P (st_B st) n" and u: "sj_ubatch_ok P kv n nt"
  obtains st' where "sj_apply P [n..<n + nt] (n + nt) st = Some st'" "st_B st' = st_B st" "st_B_prev st' = st_B st"
    "sj_end_ok P (st_B_pending st') (n + nt)" "st_B st \<le> st_B_pending st'" "st_B_pending st' \<le> max (sj_sink P) n"
    "n + nt \<le> st_B st + sj_cap P" "st_table st' = st_table st" "st_N st' = n + nt"
    "st_ring_lo st' = (if n + nt > sj_cap P then max (st_ring_lo st) (n + nt - sj_cap P) else st_ring_lo st)"
proof -
  define q where "q = sj_propose P n nt st"
  define st' where "st' = (let st = q\<lparr>st_N := n + nt, st_exact_at := -1\<rparr>
    in if n + nt > sj_cap P then st\<lparr>st_ring_lo := max (st_ring_lo st) (n + nt - sj_cap P)\<rparr> else st)"
  note b = propose_ok [OF wf e u, folded q_def]
  have al: "sj_aligned P (st_B_pending q)" and gs: "(st_B_pending q - sj_sink P) div sj_group P \<le> sj_n_groups_seq P"
    using b(1) by (auto simp: sj_end_ok_def)
  have pos: "st_B_pending q \<le> n \<or> st_B_pending q = sj_sink P"
    using b(3) al by (auto simp: sj_aligned_def max_def split: if_splits)
  have nt: "1 \<le> nt" "nt \<le> sj_n_ubatch P" using u by (simp_all add: sj_ubatch_ok_def)
  have cap: "n + nt \<le> st_B st + sj_cap P" using nt(2) e sj_slack_cap [OF wf] by (simp add: sj_end_ok_def)
  have "sj_apply P [n..<n + nt] (n + nt) st = Some st'"
    unfolding sj_apply_def st'_def using nt(1) cap pos gs by (simp add: Let_def q_def [symmetric])
  moreover have "st_B st' = st_B st" "st_B_prev st' = st_B st" "st_B_pending st' = st_B_pending q"
    "st_table st' = st_table st" "st_N st' = n + nt"
    "st_ring_lo st' = (if n + nt > sj_cap P then max (st_ring_lo st) (n + nt - sj_cap P) else st_ring_lo st)"
    by (simp_all add: st'_def q_def Let_def)
  ultimately show thesis using b cap that by simp
qed

subsection \<open>The rows behind the bookkeeping\<close>

text \<open>
  A world is the bookkeeping of one stream together with what it stands for: \<open>w_xs\<close>, the K/V values
  of the cells present (the specification: a list that grows at its end and loses suffixes), the
  staging rows, and the values read back from the sealed records. The kernels are not part of the
  bookkeeping; of them the code relies on two facts: \<open>set_rows\<close> writes the ubatch's values at
  \<open>sj_kvarn_ring_row\<close> of their cells (\<open>ring_store\<close>), and the seal encodes each group of the positions
  \<open>[B_old, B)\<close> from the ring rows of that group alone (\<open>seal_rows\<close>). The encoding quantises, so what the row
  \<open>i\<close> of a record made from the values \<open>vs\<close> reads back is a parameter \<open>rt vs i\<close>. A kernel reads position \<open>p\<close>
  by \<open>row_read\<close>.
\<close>

record 'v sj_world =
  w_st :: sj_kvarn_stream
  w_xs :: "'v list"
  w_ring :: "nat \<Rightarrow> 'v option"
  w_sealed :: "nat \<Rightarrow> 'v option"

definition ring_store :: "sj_params \<Rightarrow> nat \<Rightarrow> 'v list \<Rightarrow> (nat \<Rightarrow> 'v option) \<Rightarrow> (nat \<Rightarrow> 'v option)" where
  "ring_store P n vs ring = fold (\<lambda>i r. r(sj_ring_row P (n + i) \<mapsto> vs ! i)) [0..<length vs] ring"

definition group_rows :: "sj_params \<Rightarrow> nat \<Rightarrow> (nat \<Rightarrow> 'v option) \<Rightarrow> 'v list option" where
  "group_rows P g0 ring = those (map (\<lambda>i. ring (sj_ring_row P (g0 + i))) [0..<sj_group P])"

definition seal_rows ::
  "('v list \<Rightarrow> nat \<Rightarrow> 'v) \<Rightarrow> sj_params \<Rightarrow> nat \<Rightarrow> nat \<Rightarrow> (nat \<Rightarrow> 'v option) \<Rightarrow> (nat \<Rightarrow> 'v option) \<Rightarrow> (nat \<Rightarrow> 'v option)" where
  "seal_rows rt P b0 b1 ring sealed = (\<lambda>p. if b0 \<le> p \<and> p < b1
     then map_option (\<lambda>vs. rt vs (p - sj_floor_g P p)) (group_rows P (sj_floor_g P p) ring) else sealed p)"

definition row_read :: "sj_params \<Rightarrow> 'v sj_world \<Rightarrow> nat \<Rightarrow> 'v option" where
  "row_read P w p = (if sj_sink P \<le> p \<and> p < st_B (w_st w) then w_sealed w p else w_ring w (sj_ring_row P p))"

text \<open>What position \<open>p\<close> should read as, given the cells \<open>xs\<close>: the stored value, or what the record of its
  group reads back.\<close>

definition record_value :: "('v list \<Rightarrow> nat \<Rightarrow> 'v) \<Rightarrow> sj_params \<Rightarrow> 'v list \<Rightarrow> nat \<Rightarrow> 'v" where
  "record_value rt P xs p = rt (take (sj_group P) (drop (sj_floor_g P p) xs)) (p - sj_floor_g P p)"

definition cell_value :: "('v list \<Rightarrow> nat \<Rightarrow> 'v) \<Rightarrow> sj_params \<Rightarrow> 'v sj_world \<Rightarrow> nat \<Rightarrow> 'v" where
  "cell_value rt P w p =
     (if sj_sink P \<le> p \<and> p < st_B (w_st w) then record_value rt P (w_xs w) p else w_xs w ! p)"

text \<open>The staging rows that are still good: the sink, the unsealed positions, and everything from
  \<open>ring_lo\<close> on (what a reopen relies on), as far as the cells below \<open>c\<close> are concerned.\<close>

definition rows_ok ::
  "('v list \<Rightarrow> nat \<Rightarrow> 'v) \<Rightarrow> sj_params \<Rightarrow> nat \<Rightarrow> nat \<Rightarrow> nat \<Rightarrow> 'v list \<Rightarrow> (nat \<Rightarrow> 'v option) \<Rightarrow> (nat \<Rightarrow> 'v option) \<Rightarrow> bool" where
  "rows_ok rt P B lo c xs ring sealed \<longleftrightarrow>
     (\<forall>p < length xs. p < c \<longrightarrow> p < sj_sink P \<or> B \<le> p \<or> lo \<le> p \<longrightarrow> ring (sj_ring_row P p) = Some (xs ! p)) \<and>
     (\<forall>p < length xs. p < c \<longrightarrow> sj_sink P \<le> p \<longrightarrow> p < B \<longrightarrow> sealed p = Some (record_value rt P xs p))"

text \<open>The reach of the ring: every position that was ever written lies below \<open>kv\<close>.\<close>

definition lo_ok :: "sj_params \<Rightarrow> nat \<Rightarrow> sj_kvarn_stream \<Rightarrow> bool" where
  "lo_ok P kv st \<longleftrightarrow> st_ring_lo st = 0 \<or> st_ring_lo st + sj_cap P \<le> kv"

text \<open>The invariant; \<open>exact\<close> says whether it speaks of the rows.\<close>

definition world_ok :: "bool \<Rightarrow> ('v list \<Rightarrow> nat \<Rightarrow> 'v) \<Rightarrow> sj_params \<Rightarrow> nat \<Rightarrow> 'v sj_world \<Rightarrow> bool" where
  "world_ok exact rt P kv w \<longleftrightarrow> length (w_xs w) \<le> kv \<and> sj_st_inv P (w_st w) (length (w_xs w)) \<and> lo_ok P kv (w_st w) \<and>
     (exact \<longrightarrow> rows_ok rt P (st_B (w_st w)) (st_ring_lo (w_st w)) (length (w_xs w)) (w_xs w) (w_ring w) (w_sealed w))"

text \<open>Positions of a sealed group.\<close>

lemma group_of_sealed:
  assumes "sj_group P > 0" and "sj_aligned P B" and "sj_sink P \<le> p" and "p < B"
  shows "sj_sink P \<le> sj_floor_g P p" "sj_floor_g P p \<le> p" "p < sj_floor_g P p + sj_group P" "sj_floor_g P p + sj_group P \<le> B"
proof -
  have f: "sj_floor_g P p = sj_sink P + sj_group P * ((p - sj_sink P) div sj_group P)"
    using assms(3) by (cases "p = sj_sink P") (auto simp: sj_floor_g_def)
  note m = floor_mult [OF assms(1), of "p - sj_sink P"]
  obtain k where k: "B - sj_sink P = sj_group P * k" "sj_sink P \<le> B" using assms(2) by (auto simp: sj_aligned_def dvd_def)
  have "sj_group P * ((p - sj_sink P) div sj_group P) < sj_group P * k" using m(1) assms(3,4) k by linarith
  then have "Suc ((p - sj_sink P) div sj_group P) \<le> k" by simp
  then have "sj_group P * Suc ((p - sj_sink P) div sj_group P) \<le> sj_group P * k" by (rule mult_le_mono2)
  then have "sj_group P * ((p - sj_sink P) div sj_group P) + sj_group P \<le> B - sj_sink P" using k(1) by simp
  then show "sj_sink P \<le> sj_floor_g P p" "sj_floor_g P p \<le> p" "p < sj_floor_g P p + sj_group P" "sj_floor_g P p + sj_group P \<le> B"
    using m assms(3) k(2) unfolding f by linarith+
qed

text \<open>A sealed group reads the same however the cells behind it change.\<close>

lemma record_value_take:
  assumes "sj_group P > 0" and "sj_aligned P B" and "sj_sink P \<le> p" and "p < B" and "B \<le> max (sj_sink P) c"
  shows "record_value rt P (take c xs) p = record_value rt P xs p"
  using group_of_sealed(4) [OF assms(1-4)] assms(3-5) by (simp add: record_value_def drop_take min_def)

lemma record_value_append:
  assumes "sj_group P > 0" and "sj_aligned P B" and "sj_sink P \<le> p" and "p < B" and "B \<le> max (sj_sink P) (length xs)"
  shows "record_value rt P (xs @ vs) p = record_value rt P xs p"
  using record_value_take [OF assms, of rt "xs @ vs"] by simp

lemma those_map_Some: "(\<And>x. x \<in> set xs \<Longrightarrow> f x = Some (g x)) \<Longrightarrow> those (map f xs) = Some (map g xs)"
  by (induction xs) auto

lemma seal_value:
  assumes "sj_group P > 0" and "sj_aligned P B" and "sj_sink P \<le> p" and "p < b" and "B \<le> p" and "sj_aligned P b"
    and "b \<le> length xs" and "\<And>q. q < length xs \<Longrightarrow> B \<le> q \<Longrightarrow> ring (sj_ring_row P q) = Some (xs ! q)"
  shows "seal_rows rt P B b ring sealed p = Some (record_value rt P xs p)"
proof -
  define g0 where "g0 = sj_floor_g P p"
  note g = group_of_sealed [OF assms(1,6,3,4), folded g0_def]
  have "B \<le> g0"
  proof (rule ccontr)
    assume "\<not> B \<le> g0"
    then have "g0 < B" by simp
    moreover have "sj_floor_g P g0 = g0"
      using g(1) assms(3) floor_mult [OF assms(1), of 0] by (auto simp: g0_def sj_floor_g_def assms(1))
    ultimately show False using group_of_sealed(4) [OF assms(1,2) g(1)] g(3) assms(5) by linarith
  qed
  then have "group_rows P g0 ring = Some (map (\<lambda>i. xs ! (g0 + i)) [0..<sj_group P])"
    unfolding group_rows_def using g(4) assms(7,8) by (intro those_map_Some) simp
  also have "map (\<lambda>i. xs ! (g0 + i)) [0..<sj_group P] = take (sj_group P) (drop g0 xs)"
    using g(4) assms(7) by (intro nth_equalityI) simp_all
  finally show ?thesis using assms(4,5) by (simp add: seal_rows_def record_value_def g0_def)
qed

lemma ring_row_clash:
  assumes "p < q" "sj_ring_row P p = sj_ring_row P q"
  shows "sj_sink P \<le> p \<and> p + sj_cap P \<le> q"
proof -
  have s: "sj_sink P \<le> p" using assms by (auto simp: sj_ring_row_def split: if_splits)
  then have "(p - sj_sink P) mod sj_cap P = (q - sj_sink P) mod sj_cap P" using assms by (simp add: sj_ring_row_def)
  then have "sj_cap P dvd (q - sj_sink P) - (p - sj_sink P)" using assms(1) s
    by (metis diff_le_mono less_imp_le mod_eq_dvd_iff_nat)
  moreover have "(q - sj_sink P) - (p - sj_sink P) = q - p" using assms(1) s by simp
  ultimately have "sj_cap P \<le> q - p" using assms(1) by (simp add: dvd_imp_le)
  with s assms(1) show ?thesis by linarith
qed

lemma ring_store_lookup:
  assumes "p < n + length vs" "p < sj_sink P \<or> n + length vs \<le> p + sj_cap P"
  shows "ring_store P n vs ring (sj_ring_row P p) = (if p < n then ring (sj_ring_row P p) else Some (vs ! (p - n)))"
proof -
  have "p < n + k \<Longrightarrow> p < sj_sink P \<or> n + k \<le> p + sj_cap P \<Longrightarrow>
    fold (\<lambda>i r. r(sj_ring_row P (n + i) \<mapsto> vs ! i)) [0..<k] ring (sj_ring_row P p) =
      (if p < n then ring (sj_ring_row P p) else Some (vs ! (p - n)))" for k
  proof (induction k)
    case (Suc k)
    show ?case
    proof (cases "p = n + k")
      case False
      with Suc.prems have p: "p < n + k" by linarith
      with Suc.prems ring_row_clash [OF p, of P] have "sj_ring_row P p \<noteq> sj_ring_row P (n + k)" by auto
      with Suc.IH p Suc.prems(2) show ?thesis by auto
    qed simp
  qed simp
  with assms show ?thesis by (simp add: ring_store_def)
qed

lemma rows_ok_store:
  assumes g: "sj_group P > 0" and al: "sj_aligned P B" "sj_aligned P b"
    and ok: "rows_ok rt P B lo (length xs) xs ring sealed" and cap: "length xs + length vs \<le> B + sj_cap P"
    and le: "B \<le> b" "b \<le> max (sj_sink P) (length xs)" "B \<le> max (sj_sink P) (length xs)"
    and lo: "lo' = (if length xs + length vs > sj_cap P then max lo (length xs + length vs - sj_cap P) else lo)"
  shows "rows_ok rt P b lo' (length xs + length vs) (xs @ vs) (ring_store P (length xs) vs ring) (seal_rows rt P B b ring sealed)"
proof -
  have r: "p < length xs \<Longrightarrow> p < sj_sink P \<or> B \<le> p \<or> lo \<le> p \<Longrightarrow> ring (sj_ring_row P p) = Some (xs ! p)"
    and s: "p < length xs \<Longrightarrow> sj_sink P \<le> p \<Longrightarrow> p < B \<Longrightarrow> sealed p = Some (record_value rt P xs p)" for p
    using ok by (auto simp: rows_ok_def)
  have "ring_store P (length xs) vs ring (sj_ring_row P p) = Some ((xs @ vs) ! p)"
    if p: "p < length (xs @ vs)" "p < sj_sink P \<or> b \<le> p \<or> lo' \<le> p" for p
  proof -
    have "p < sj_sink P \<or> length xs + length vs \<le> p + sj_cap P" "p < sj_sink P \<or> B \<le> p \<or> lo \<le> p"
      using p(2) cap le(1) lo by (auto split: if_splits)
    then show ?thesis using ring_store_lookup [of p "length xs" vs P ring] r [of p] p(1)
      by (simp add: nth_append)
  qed
  moreover have "seal_rows rt P B b ring sealed p = Some (record_value rt P (xs @ vs) p)"
    if p: "sj_sink P \<le> p" "p < b" for p
  proof -
    have len: "b \<le> length xs" using le(2) p by (auto simp: max_def split: if_splits)
    have app: "record_value rt P (xs @ vs) p = record_value rt P xs p"
      by (rule record_value_append [OF g al(2) p le(2)])
    show ?thesis
    proof (cases "B \<le> p")
      case True
      then show ?thesis unfolding app by (intro seal_value [OF g al(1) p _ al(2) len] r) auto
    next
      case False
      then show ?thesis unfolding app using s [of p] p len by (simp add: seal_rows_def)
    qed
  qed
  ultimately show ?thesis by (simp add: rows_ok_def)
qed

lemma truncate_target_some:
  assumes wf: "sj_wf P kv" and "c0 < st_B st \<or> sj_grid P \<noteq> 0"
  obtains t where "sj_truncate_target P st c0 = Some t"
proof -
  have "sj_grid P \<noteq> 0 \<Longrightarrow> sj_replay_B P c0 \<noteq> None"
    by (rule replay_B_bounds [OF wf, of c0]) auto
  then have "sj_truncate_target P st c0 \<noteq> None"
    using assms(2) by (auto simp: sj_truncate_target_def)
  with that show thesis by blast
qed

lemma truncate_target_ok:
  assumes wf: "sj_wf P kv" and t: "sj_truncate_target P st c0 = Some (Some B_new)" and le: "B_new \<le> st_B st"
    and al: "sj_aligned P (st_B st)" and near: "c0 \<le> st_B st + sj_slack P"
  shows "sj_aligned P B_new" "B_new \<le> max (sj_sink P) c0" "c0 \<le> B_new + sj_slack P"
    "B_new \<le> p \<Longrightarrow> p < c0 \<Longrightarrow> p < sj_sink P \<or> st_B st \<le> p \<or> st_ring_lo st \<le> p"
proof -
  have g: "sj_group P > 0" using wf by (simp add: sj_wf_def)
  note lo = reopen_lo_bounds [OF g, of st]
  consider (sink) "c0 \<le> sj_sink P" "B_new = sj_sink P"
    | (reopen) want where "c0 > sj_sink P" "c0 \<ge> sj_reopen_lo P st" "B_new = min (st_B st) (max (sj_reopen_lo P st) want)"
        "sj_aligned P want" "want \<le> max (sj_sink P) c0" "c0 \<le> want + sj_slack P"
    | (cut) "c0 > sj_sink P" "(c0 - sj_sink P) mod sj_group P = 0" "B_new = c0"
  proof (cases "c0 \<le> sj_sink P \<or> c0 < sj_reopen_lo P st")
    case True
    then show thesis using t sink cut by (auto simp: sj_truncate_target_def split: if_splits)
  next
    case False
    then have c: "c0 > sj_sink P" "c0 \<ge> sj_reopen_lo P st" by auto
    obtain w where w: "(if sj_grid P \<noteq> 0 then sj_replay_B P c0
        else if c0 > sj_sink P + sj_tail P then Some (sj_floor_g P (c0 - sj_tail P)) else Some (sj_sink P)) = Some w"
      "B_new = min (st_B st) (max (sj_reopen_lo P st) w)"
      using t c by (auto simp: sj_truncate_target_def split: if_splits bind_splits)
    have "sj_aligned P w \<and> w \<le> max (sj_sink P) c0 \<and> c0 \<le> w + sj_slack P"
    proof (cases "sj_grid P = 0")
      case True
      show ?thesis
      proof (cases "c0 > sj_sink P + sj_tail P")
        case tail: True
        then have "w = sj_floor_g P (c0 - sj_tail P)" using w(1) True by simp
        moreover have "sj_floor_g P (c0 - sj_tail P) \<le> c0"
          using floor_g_bounds(1) [OF g, of "c0 - sj_tail P"] tail by (auto simp: max_def split: if_splits)
        moreover have "c0 < sj_floor_g P (c0 - sj_tail P) + sj_tail P + sj_group P"
          using floor_g_bounds(2) [OF g, of "c0 - sj_tail P"] by linarith
        ultimately show ?thesis using floor_g_bounds(3) [OF g, of "c0 - sj_tail P"] sj_slack_tail [of P]
          by (simp add: max.coboundedI2)
      next
        case False
        then show ?thesis using w(1) True by (auto simp: sj_slack_def max_def)
      qed
    next
      case False
      obtain r where "sj_replay_B P c0 = Some r" "sj_aligned P r" "r \<le> max (sj_sink P) c0" "c0 \<le> r + sj_slack P"
        by (rule replay_B_bounds [OF wf False])
      with w(1) False show ?thesis by simp
    qed
    then show thesis using reopen c w(2) by blast
  qed
  then have "sj_aligned P B_new \<and> B_new \<le> max (sj_sink P) c0 \<and> c0 \<le> B_new + sj_slack P \<and>
    (B_new \<le> p \<longrightarrow> p < c0 \<longrightarrow> p < sj_sink P \<or> st_B st \<le> p \<or> st_ring_lo st \<le> p)"
  proof cases
    case sink
    then show ?thesis by auto
  next
    case reopen
    have "B_new \<le> max (sj_sink P) c0" using reopen(2,3,5) by (auto simp: min_le_iff_disj)
    moreover have "c0 \<le> B_new + sj_slack P" using reopen(3,6) near by (auto simp: min_def max_def)
    moreover have "B_new \<le> p \<Longrightarrow> st_B st \<le> p \<or> st_ring_lo st \<le> p" using reopen(3) lo(1) by (auto simp: min_def max_def split: if_splits)
    ultimately show ?thesis using reopen(3,4) al lo(3) by simp
  next
    case cut
    then show ?thesis by (auto simp: sj_aligned_def)
  qed
  then show "sj_aligned P B_new" "B_new \<le> max (sj_sink P) c0" "c0 \<le> B_new + sj_slack P"
    "B_new \<le> p \<Longrightarrow> p < c0 \<Longrightarrow> p < sj_sink P \<or> st_B st \<le> p \<or> st_ring_lo st \<le> p" by blast+
qed

lemma truncate_target_aligned:
  assumes wf: "sj_wf P kv" and t: "sj_truncate_target P st c0 = Some (Some b)" and al: "sj_aligned P (st_B st)"
  shows "sj_aligned P b"
proof (cases "c0 \<le> sj_sink P \<or> c0 < sj_reopen_lo P st")
  case True
  then show ?thesis using t by (auto simp: sj_truncate_target_def sj_aligned_def split: if_splits)
next
  case False
  have g: "sj_group P > 0" using wf by (simp add: sj_wf_def)
  obtain w where w: "(if sj_grid P \<noteq> 0 then sj_replay_B P c0
      else if c0 > sj_sink P + sj_tail P then Some (sj_floor_g P (c0 - sj_tail P)) else Some (sj_sink P)) = Some w"
    "b = min (st_B st) (max (sj_reopen_lo P st) w)"
    using t False by (auto simp: sj_truncate_target_def split: if_splits bind_splits)
  have "sj_aligned P w"
  proof (cases "sj_grid P = 0")
    case True
    then show ?thesis using w(1) floor_g_bounds(3) [OF g] by (auto split: if_splits)
  next
    case False
    obtain r where "sj_replay_B P c0 = Some r" "sj_aligned P r" by (rule replay_B_bounds [OF wf False])
    with w(1) False show ?thesis by simp
  qed
  then show ?thesis using w(2) al reopen_lo_bounds(3) [OF g] by simp
qed

lemma truncate_target_raise:
  assumes "sj_truncate_target P st c0 = Some (Some b)" "st_B st < b" "sj_aligned P (st_B st)"
  shows "b = c0" "sj_aligned P b" "c0 < sj_reopen_lo P st"
  using assms by (auto simp: sj_truncate_target_def sj_aligned_def split: if_splits bind_splits)

lemma truncate_target_le:
  assumes "sj_truncate_target P st c0 = Some (Some B_new)" "c0 < st_B st" "sj_aligned P (st_B st)"
  shows "B_new \<le> st_B st"
  using assms by (auto simp: sj_truncate_target_def sj_aligned_def split: if_splits bind_splits)

subsection \<open>Steps of one stream\<close>

definition sj_rm_world :: "sj_params \<Rightarrow> nat \<Rightarrow> nat \<Rightarrow> 'v sj_world \<Rightarrow> ('v sj_world \<times> bool) option" where
  "sj_rm_world P c0 c1 w = do {
     a \<leftarrow> sj_rm_decide P (w_st w) (length (w_xs w)) c0 c1;
     Some (case a of
         Rm_reset \<Rightarrow> (w\<lparr>w_st := sj_reset_st P (w_st w), w_xs := []\<rparr>, True)
       | Rm_refuse \<Rightarrow> (w, False)
       | Rm_trunc B_new \<Rightarrow> (w\<lparr>w_st := sj_truncate_st B_new c0 (w_st w), w_xs := take c0 (w_xs w)\<rparr>, True)
       | Rm_keep \<Rightarrow> (w\<lparr>w_xs := take c0 (w_xs w)\<rparr>, True)) }"

definition same_below :: "nat \<Rightarrow> (nat \<Rightarrow> 'v option) \<Rightarrow> (nat \<Rightarrow> 'v option) \<Rightarrow> bool" where
  "same_below B s s' \<longleftrightarrow> (\<forall>p < B. s' p = s p)"

text \<open>The removal moves the sealed end upwards, past cells that were not sealed. \<open>seq_rm\<close> does not check for
  it in the full grid mode; elsewhere it cannot happen.\<close>

definition rm_raises :: "sj_params \<Rightarrow> nat \<Rightarrow> nat \<Rightarrow> 'v sj_world \<Rightarrow> bool" where
  "rm_raises P c0 c1 w =
     (case sj_rm_decide P (w_st w) (length (w_xs w)) c0 c1 of
        Some (Rm_trunc B_new) \<Rightarrow> st_B (w_st w) < B_new
      | _ \<Rightarrow> False)"

text \<open>The rules: a ubatch that decodes; one whose seal or graph fails and whose cells the caller then
  removes again (the records and rows it wrote may hold anything beyond the sealed end); the removal
  of a suffix; the cut before a re-prefill, followed by the removal of the cells it cuts off; and the
  idle compression, which may fail. With \<open>calm\<close> only the histories count in which no removal raises the
  sealed end.\<close>

inductive sj_step ::
  "bool \<Rightarrow> ('v list \<Rightarrow> nat \<Rightarrow> 'v) \<Rightarrow> sj_params \<Rightarrow> nat \<Rightarrow> 'v sj_world \<Rightarrow> 'v sj_world \<Rightarrow> bool" for calm rt P kv where
  Decode: "sj_ubatch_ok P kv (length (w_xs w)) (length vs) \<Longrightarrow>
    sj_apply P [length (w_xs w)..<length (w_xs w) + length vs] (length (w_xs w) + length vs) (w_st w) = Some st' \<Longrightarrow>
    sj_step calm rt P kv w \<lparr>w_st = sj_publish True st', w_xs = w_xs w @ vs,
      w_ring = ring_store P (length (w_xs w)) vs (w_ring w),
      w_sealed = seal_rows rt P (st_B st') (st_B_pending st') (w_ring w) (w_sealed w)\<rparr>"
| Decode_failed: "sj_ubatch_ok P kv (length (w_xs w)) (length vs) \<Longrightarrow>
    sj_apply P [length (w_xs w)..<length (w_xs w) + length vs] (length (w_xs w) + length vs) (w_st w) = Some st' \<Longrightarrow>
    (if sealed_ok then sealed' = seal_rows rt P (st_B st') (st_B_pending st') (w_ring w) (w_sealed w)
     else same_below (st_B st') (w_sealed w) sealed') \<Longrightarrow>
    w1 = \<lparr>w_st = sj_publish sealed_ok st', w_xs = w_xs w @ vs,
      w_ring = ring_store P (length (w_xs w)) vs (w_ring w), w_sealed = sealed'\<rparr> \<Longrightarrow>
    sj_rm_world P (length (w_xs w)) c1 w1 = Some (w', r) \<Longrightarrow> calm \<longrightarrow> \<not> rm_raises P (length (w_xs w)) c1 w1 \<Longrightarrow>
    c1 \<ge> length (w_xs w) + length vs \<Longrightarrow> sj_step calm rt P kv w w'"
| Remove: "c0 \<le> c1 \<Longrightarrow> sj_rm_world P c0 c1 w = Some (w', r) \<Longrightarrow> calm \<longrightarrow> \<not> rm_raises P c0 c1 w \<Longrightarrow>
    sj_step calm rt P kv w w'"
| Recut: "sj_prefill_cut P (length (w_xs w)) c0 pos (w_st w) = Some (st', changed) \<Longrightarrow>
    c0 \<le> c1 \<Longrightarrow> c1 \<ge> length (w_xs w) \<Longrightarrow> sj_rm_world P c0 c1 (w\<lparr>w_st := st'\<rparr>) = Some (w', r) \<Longrightarrow>
    calm \<longrightarrow> \<not> rm_raises P c0 c1 (w\<lparr>w_st := st'\<rparr>) \<Longrightarrow> sj_step calm rt P kv w w'"
| Idle: "sj_idle P seq_ok accepted_end end_cell pos_max free_recs keep (length (w_xs w)) ok (w_st w) = Some (st', ret) \<Longrightarrow>
    (if ok then sealed' = seal_rows rt P (st_B (w_st w)) (st_B st') (w_ring w) (w_sealed w)
     else same_below (st_B (w_st w)) (w_sealed w) sealed') \<Longrightarrow>
    sj_step calm rt P kv w (w\<lparr>w_st := st', w_sealed := sealed'\<rparr>)"

definition sj_init :: "sj_params \<Rightarrow> 'v sj_world" where
  "sj_init P = \<lparr>w_st = sj_reset_st P \<lparr>st_B = 0, st_B_pending = 0, st_draining = False, st_B_prev = 0, st_N = 0,
     st_ring_lo = 0, st_exact_at = -1, st_table = []\<rparr>, w_xs = [], w_ring = (\<lambda>_. None), w_sealed = (\<lambda>_. None)\<rparr>"

lemma reset_ok: "sj_end_ok P (st_B (sj_reset_st P st)) 0" "rows_ok rt P B lo c [] ring sealed" "lo_ok P kv (sj_reset_st P st)"
  by (simp_all add: sj_reset_st_def sj_end_ok_def rows_ok_def lo_ok_def)

lemma init_ok: "world_ok exact rt P kv (sj_init P)"
  by (simp add: world_ok_def sj_init_def sj_st_inv_def sj_reset_st_def sj_end_ok_def rows_ok_def lo_ok_def)

lemma rows_ok_bound: "rows_ok rt P B lo c xs ring sealed \<Longrightarrow> c' \<le> c \<or> length xs \<le> c \<Longrightarrow> rows_ok rt P B lo c' xs ring sealed"
  by (auto simp: rows_ok_def)

lemma rows_ok_take:
  assumes "sj_group P > 0" and "sj_aligned P B" and "B \<le> max (sj_sink P) c" and "rows_ok rt P B lo c xs ring sealed"
  shows "rows_ok rt P B lo (length (take c xs)) (take c xs) ring sealed"
  unfolding rows_ok_def
proof (intro conjI allI impI)
  fix p assume p: "p < length (take c xs)"
  then have p': "p < length xs" "p < c" by simp_all
  show "ring (sj_ring_row P p) = Some (take c xs ! p)" if "p < sj_sink P \<or> B \<le> p \<or> lo \<le> p"
    using assms(4) p' that unfolding rows_ok_def nth_take [OF p'(2)] by blast
  show "sealed p = Some (record_value rt P (take c xs) p)" if "sj_sink P \<le> p" "p < B"
    unfolding record_value_take [OF assms(1,2) that assms(3)] using assms(4) p' that unfolding rows_ok_def by blast
qed

text \<open>What a removal relies on: the sealed end is sound and close enough to the cut, and the rows
  below the cut are good. It holds in every world of the invariant, and also in the two intermediate
  states where it does not (after a failed ubatch, after a cut).\<close>

definition cut_ok :: "bool \<Rightarrow> ('v list \<Rightarrow> nat \<Rightarrow> 'v) \<Rightarrow> sj_params \<Rightarrow> nat \<Rightarrow> nat \<Rightarrow> 'v sj_world \<Rightarrow> bool" where
  "cut_ok exact rt P kv c0 w \<longleftrightarrow> (let st = w_st w; xs = w_xs w in length xs \<le> kv \<and> lo_ok P kv st \<and>
     sj_aligned P (st_B st) \<and> st_B_pending st = st_B st \<and> (st_B st - sj_sink P) div sj_group P \<le> sj_n_groups_seq P \<and>
     st_B st \<le> max (sj_sink P) (length xs) \<and> min c0 (length xs) \<le> st_B st + sj_slack P \<and>
     (exact \<longrightarrow> rows_ok rt P (st_B st) (st_ring_lo st) c0 xs (w_ring w) (w_sealed w)))"

lemma world_cut_ok: "world_ok exact rt P kv w \<Longrightarrow> cut_ok exact rt P kv c0 w"
  by (auto simp: world_ok_def cut_ok_def sj_st_inv_def sj_end_ok_def Let_def intro: rows_ok_bound)

lemma rm_keep_ok:
  assumes g: "sj_group P > 0" and c: "cut_ok exact rt P kv c0 w"
    and B: "st_B (w_st w) \<le> max (sj_sink P) c0 \<or> c0 \<ge> length (w_xs w)"
  shows "world_ok exact rt P kv (w\<lparr>w_xs := take c0 (w_xs w)\<rparr>)"
proof -
  have le: "st_B (w_st w) \<le> max (sj_sink P) c0" and al: "sj_aligned P (st_B (w_st w))"
    using c B by (auto simp: cut_ok_def Let_def)
  have "exact \<longrightarrow> rows_ok rt P (st_B (w_st w)) (st_ring_lo (w_st w)) (length (take c0 (w_xs w))) (take c0 (w_xs w))
      (w_ring w) (w_sealed w)"
    using rows_ok_take [OF g al le] c unfolding cut_ok_def Let_def by blast
  moreover have "sj_end_ok P (st_B (w_st w)) (length (take c0 (w_xs w)))" "st_B_pending (w_st w) = st_B (w_st w)"
    "length (take c0 (w_xs w)) \<le> kv" "lo_ok P kv (w_st w)"
    using c le by (auto simp: cut_ok_def sj_end_ok_def Let_def)
  ultimately show ?thesis by (simp add: world_ok_def sj_st_inv_def del: length_take)
qed

lemma truncate_rows:
  assumes "rows_ok rt P B lo c xs ring sealed" and "b \<le> B"
    and "\<And>p. b \<le> p \<Longrightarrow> p < c \<Longrightarrow> p < sj_sink P \<or> B \<le> p \<or> lo \<le> p"
  shows "rows_ok rt P b lo c xs ring sealed"
  using assms unfolding rows_ok_def by (meson order_less_le_trans)

lemma rm_trunc_ok:
  assumes wf: "sj_wf P kv" and c: "cut_ok exact rt P kv c0 w" and t: "sj_truncate_target P (w_st w) c0 = Some (Some B_new)"
    and le: "B_new \<le> st_B (w_st w)" and c0: "c0 < length (w_xs w)"
  shows "world_ok exact rt P kv (w\<lparr>w_st := sj_truncate_st B_new c0 (w_st w), w_xs := take c0 (w_xs w)\<rparr>)"
proof -
  have al: "sj_aligned P (st_B (w_st w))" and near: "c0 \<le> st_B (w_st w) + sj_slack P" and g: "sj_group P > 0"
    and gs: "(st_B (w_st w) - sj_sink P) div sj_group P \<le> sj_n_groups_seq P"
    and rows: "exact \<Longrightarrow> rows_ok rt P (st_B (w_st w)) (st_ring_lo (w_st w)) c0 (w_xs w) (w_ring w) (w_sealed w)"
    using c c0 wf by (auto simp: cut_ok_def Let_def sj_wf_def)
  note t = truncate_target_ok [OF wf t le al near]
  have "(B_new - sj_sink P) div sj_group P \<le> sj_n_groups_seq P"
    using gs le by (meson diff_le_mono div_le_mono le_trans)
  then have e: "sj_end_ok P B_new c0" using t(1-3) by (simp add: sj_end_ok_def)
  have "rows_ok rt P B_new (st_ring_lo (w_st w)) c0 (w_xs w) (w_ring w) (w_sealed w)" if exact
    by (rule truncate_rows [OF rows [OF that] le t(4)])
  then have "exact \<longrightarrow> rows_ok rt P B_new (st_ring_lo (w_st w)) (length (take c0 (w_xs w))) (take c0 (w_xs w)) (w_ring w) (w_sealed w)"
    using rows_ok_take [OF g t(1,2)] by blast
  moreover have "length (take c0 (w_xs w)) = c0" "c0 \<le> kv" "lo_ok P kv (w_st w)" using c0 c by (simp_all add: cut_ok_def Let_def)
  ultimately show ?thesis using e by (simp add: world_ok_def sj_st_inv_def sj_truncate_st_def lo_ok_def del: length_take)
qed

text \<open>A removal that raises the sealed end keeps the bookkeeping sound.\<close>

lemma rm_raise_ok:
  assumes wf: "sj_wf P kv" and c: "cut_ok False rt P kv c0 w" and t: "sj_truncate_target P (w_st w) c0 = Some (Some B_new)"
    and up: "st_B (w_st w) < B_new" and c0: "c0 < length (w_xs w)"
  shows "world_ok False rt P kv (w\<lparr>w_st := sj_truncate_st B_new c0 (w_st w), w_xs := take c0 (w_xs w)\<rparr>)"
proof -
  have al: "sj_aligned P (st_B (w_st w))" and lo: "lo_ok P kv (w_st w)" and kv: "c0 \<le> kv" and g: "sj_group P > 0"
    and cap: "sj_tail P + sj_group P \<le> sj_cap P"
    using c c0 wf by (auto simp: cut_ok_def Let_def sj_wf_def)
  note t = truncate_target_raise [OF t up al]
  have sink: "sj_sink P < c0" using up al t(1) by (simp add: sj_aligned_def)
  have "c0 < st_ring_lo (w_st w)"
  proof (rule ccontr)
    assume "\<not> c0 < st_ring_lo (w_st w)"
    then have "max (st_ring_lo (w_st w)) (sj_sink P) - sj_sink P \<le> c0 - sj_sink P" by simp
    moreover obtain k where k: "c0 - sj_sink P = sj_group P * k" using t(1,2) by (auto simp: sj_aligned_def dvd_def)
    ultimately have "max (st_ring_lo (w_st w)) (sj_sink P) - sj_sink P + sj_group P - 1 < sj_group P * Suc k" using g by simp
    then have "(max (st_ring_lo (w_st w)) (sj_sink P) - sj_sink P + sj_group P - 1) div sj_group P < Suc k"
      by (metis div_less_iff_less_mult g mult.commute)
    then have "sj_group P * ((max (st_ring_lo (w_st w)) (sj_sink P) - sj_sink P + sj_group P - 1) div sj_group P) \<le> sj_group P * k"
      by (intro mult_le_mono2) (rule less_Suc_eq_le [THEN iffD1])
    then have "sj_reopen_lo P (w_st w) \<le> sj_sink P + sj_group P * k" unfolding sj_reopen_lo_def Let_def by (rule add_left_mono)
    then show False using t(3) k sink by linarith
  qed
  then have room: "c0 + sj_cap P < kv" using lo by (auto simp: lo_ok_def)
  then have "kv \<ge> sj_sink P + sj_tail P + sj_group P" using sink cap by linarith
  then have "sj_n_groups_seq P = (kv - sj_sink P - sj_tail P) div sj_group P" using wf by (simp add: sj_wf_def)
  moreover have "c0 - sj_sink P \<le> kv - sj_sink P - sj_tail P" using room cap by linarith
  ultimately have "sj_end_ok P B_new c0" using t(1,2) by (simp add: sj_end_ok_def div_le_mono)
  then show ?thesis using kv lo c0 by (simp add: world_ok_def sj_st_inv_def sj_truncate_st_def lo_ok_def)
qed

lemma rm_world_ok:
  assumes wf: "sj_wf P kv" and calm: "exact \<Longrightarrow> sj_split_grid P \<noteq> 0 \<Longrightarrow> \<not> rm_raises P c0 c1 w"
    and c: "cut_ok exact rt P kv c0 w" and "c0 \<le> c1"
  obtains w' r where "sj_rm_world P c0 c1 w = Some (w', r)"
    "if r then world_ok exact rt P kv w' \<and> w_xs w' = take c0 (w_xs w) else w' = w"
    "st_B (w_st w) \<le> max (sj_sink P) c0 \<Longrightarrow> c1 \<ge> length (w_xs w) \<Longrightarrow> r"
proof -
  define n where "n = length (w_xs w)"
  define B where "B = st_B (w_st w)"
  have al: "sj_aligned P B" using c by (simp add: cut_ok_def Let_def B_def)
  have g: "sj_group P > 0" using wf by (simp add: sj_wf_def)
  note result = that
  have kept: thesis if "sj_rm_decide P (w_st w) n c0 c1 = Some Rm_keep" "B \<le> max (sj_sink P) c0 \<or> n \<le> c0"
  proof -
    have "sj_rm_world P c0 c1 w = Some (w\<lparr>w_xs := take c0 (w_xs w)\<rparr>, True)" using that(1) by (simp add: sj_rm_world_def n_def)
    moreover have "world_ok exact rt P kv (w\<lparr>w_xs := take c0 (w_xs w)\<rparr>)"
      by (rule rm_keep_ok [OF g c]) (use that(2) n_def B_def in blast)
    ultimately show thesis using result [of "w\<lparr>w_xs := take c0 (w_xs w)\<rparr>" True] by simp
  qed
  have truncated: thesis if d: "sj_rm_decide P (w_st w) n c0 c1 = Some (Rm_trunc B_new)"
    and t: "sj_truncate_target P (w_st w) c0 = Some (Some B_new)" and c0: "c0 < n"
    and up: "B < B_new \<Longrightarrow> sj_split_grid P \<noteq> 0" for B_new
  proof -
    let ?w = "w\<lparr>w_st := sj_truncate_st B_new c0 (w_st w), w_xs := take c0 (w_xs w)\<rparr>"
    have "sj_rm_world P c0 c1 w = Some (?w, True)" using d by (simp add: sj_rm_world_def n_def)
    moreover have "world_ok exact rt P kv ?w"
    proof (cases "B_new \<le> B")
      case True
      then show ?thesis using rm_trunc_ok [OF wf c t] c0 by (simp add: B_def n_def)
    next
      case False
      then have "rm_raises P c0 c1 w" using d by (simp add: rm_raises_def n_def B_def)
      then have ne: "\<not> exact" using calm up False by (cases exact) auto
      then have "cut_ok False rt P kv c0 w" using c by simp
      from rm_raise_ok [OF wf this t] ne False c0 show ?thesis by (simp add: B_def n_def)
    qed
    ultimately show thesis using result [of ?w True] by simp
  qed
  consider (reset) "c0 = 0" "c1 \<ge> n" | (hole) "c1 < n" | (past) "c0 \<ge> n" "c0 \<noteq> 0"
    | (keep) "c0 < n" "c0 \<noteq> 0" "n \<le> c1" "B \<le> sj_sink P"
    | (above) "c0 < n" "c0 \<noteq> 0" "n \<le> c1" "B \<le> c0" "sj_sink P < B"
    | (body) "c0 < n" "c0 \<noteq> 0" "n \<le> c1" "c0 < B" "sj_sink P < B" by linarith
  then show thesis
  proof cases
    case reset
    then have "sj_rm_world P c0 c1 w = Some (w\<lparr>w_st := sj_reset_st P (w_st w), w_xs := []\<rparr>, True)"
      by (simp add: sj_rm_world_def sj_rm_decide_def n_def)
    moreover have "world_ok exact rt P kv (w\<lparr>w_st := sj_reset_st P (w_st w), w_xs := []\<rparr>)"
      using reset_ok(1) [of P "w_st w"] reset_ok(2) [of rt P] reset_ok(3) [of P kv "w_st w"]
      by (simp add: world_ok_def sj_st_inv_def) (simp add: sj_reset_st_def)
    ultimately show thesis using result [of _ True] reset by simp
  next
    case hole
    then have "sj_rm_world P c0 c1 w = Some (w, False)"
      using assms(4) by (auto simp: sj_rm_world_def sj_rm_decide_def n_def)
    then show thesis using result [of w False] hole by (simp add: n_def)
  next
    case past
    then show thesis by (intro kept) (simp_all add: sj_rm_decide_def)
  next
    case keep
    then show thesis by (intro kept) (auto simp: sj_rm_decide_def B_def)
  next
    case above
    show thesis
    proof (cases "sj_split_grid P = 0")
      case True
      then show thesis using above by (intro kept) (simp_all add: sj_rm_decide_def B_def)
    next
      case False
      then have grid: "sj_grid P \<noteq> 0" using wf by (auto simp: sj_wf_def)
      obtain q where q: "sj_replay_B P c0 = Some q" by (rule replay_B_bounds [OF wf grid])
      show thesis
      proof (cases "q < B")
        case below: True
        obtain t where t: "sj_truncate_target P (w_st w) c0 = Some t" using truncate_target_some [OF wf] grid by blast
        show thesis
        proof (cases t)
          case None
          with t below above False q have "sj_rm_decide P (w_st w) n c0 c1 = Some Rm_keep"
            by (simp add: sj_rm_decide_def B_def)
          then show thesis using kept above by simp
        next
          case (Some B_new)
          with t below above False q have "sj_rm_decide P (w_st w) n c0 c1 = Some (Rm_trunc B_new)"
            by (simp add: sj_rm_decide_def B_def)
          then show thesis using truncated t Some above False by simp
        qed
      next
        case no: False
        with above False q show thesis by (intro kept) (simp_all add: sj_rm_decide_def B_def)
      qed
    qed
  next
    case body
    obtain t where t: "sj_truncate_target P (w_st w) c0 = Some t"
      using truncate_target_some [OF wf] body(4) B_def by blast
    show thesis
    proof (cases t)
      case None
      with t body have "sj_rm_world P c0 c1 w = Some (w, False)"
        by (simp add: sj_rm_world_def sj_rm_decide_def n_def B_def)
      then show thesis using result [of w False] body by (simp add: B_def)
    next
      case (Some B_new)
      with t body have d: "sj_rm_decide P (w_st w) n c0 c1 = Some (Rm_trunc B_new)"
        by (simp add: sj_rm_decide_def B_def)
      have "B_new \<le> B" using truncate_target_le t Some body(4) al by (simp add: B_def)
      then show thesis using truncated [OF d] t Some body(1) by simp
    qed
  qed
qed

lemma publish_simps [simp]:
  "st_ring_lo (sj_publish k st) = st_ring_lo st" "st_N (sj_publish k st) = st_N st"
  by (simp_all add: sj_publish_def)

lemma publish_ends:
  "st_B st \<le> st_B_pending st \<Longrightarrow> st_B (sj_publish k st) = (if k then st_B_pending st else st_B st)"
  "st_B st \<le> st_B_pending st \<Longrightarrow> st_B_pending (sj_publish k st) = st_B (sj_publish k st)"
  by (auto simp: sj_publish_def)

text \<open>A ubatch whose seal does or does not succeed, before any cell is removed again.\<close>

lemma decode_ok:
  assumes wf: "sj_wf P kv" and w: "world_ok exact rt P kv w" and u: "sj_ubatch_ok P kv (length (w_xs w)) (length vs)"
    and a: "sj_apply P [length (w_xs w)..<length (w_xs w) + length vs] (length (w_xs w) + length vs) (w_st w) = Some st'"
    and s: "if k then sealed' = seal_rows rt P (st_B st') (st_B_pending st') (w_ring w) (w_sealed w)
       else same_below (st_B st') (w_sealed w) sealed'"
  defines "w' \<equiv> \<lparr>w_st = sj_publish k st', w_xs = w_xs w @ vs,
      w_ring = ring_store P (length (w_xs w)) vs (w_ring w), w_sealed = sealed'\<rparr>"
  shows "k \<Longrightarrow> world_ok exact rt P kv w'" "cut_ok exact rt P kv (length (w_xs w)) w'"
    "st_B (w_st w') \<le> max (sj_sink P) (length (w_xs w))"
proof -
  have e: "sj_end_ok P (st_B (w_st w)) (length (w_xs w))" and g: "sj_group P > 0"
    and lo: "lo_ok P kv (w_st w)"
    and r: "exact \<Longrightarrow> rows_ok rt P (st_B (w_st w)) (st_ring_lo (w_st w)) (length (w_xs w)) (w_xs w) (w_ring w) (w_sealed w)"
    using w wf by (simp_all add: world_ok_def sj_st_inv_def sj_wf_def)
  obtain q where q: "sj_apply P [length (w_xs w)..<length (w_xs w) + length vs] (length (w_xs w) + length vs) (w_st w) = Some q"
    "st_B q = st_B (w_st w)" "st_B_prev q = st_B (w_st w)" "sj_end_ok P (st_B_pending q) (length (w_xs w) + length vs)"
    "st_B (w_st w) \<le> st_B_pending q" "st_B_pending q \<le> max (sj_sink P) (length (w_xs w))"
    "length (w_xs w) + length vs \<le> st_B (w_st w) + sj_cap P"
    "st_ring_lo q = (if length (w_xs w) + length vs > sj_cap P
       then max (st_ring_lo (w_st w)) (length (w_xs w) + length vs - sj_cap P) else st_ring_lo (w_st w))"
    using apply_ok [OF wf e u] by metis
  have eq: "q = st'" using q(1) a by simp
  have kv: "length (w_xs w) + length vs \<le> kv" using u by (simp add: sj_ubatch_ok_def)
  note q = q(2-8) [unfolded eq]
  have B: "st_B st' \<le> st_B_pending st'" using q(1,4) by simp
  note P1 = publish_ends [OF B]
  define b where "b = (if k then st_B_pending st' else st_B st')"
  have b: "st_B (w_st w) \<le> b" "b \<le> max (sj_sink P) (length (w_xs w))" using q(1,4,5) e by (auto simp: b_def sj_end_ok_def)
  have al: "sj_aligned P b" "(b - sj_sink P) div sj_group P \<le> sj_n_groups_seq P" "length (w_xs w) \<le> b + sj_slack P"
    using e q(1,3) b(1) by (auto simp: b_def sj_end_ok_def)
  have B0: "sj_aligned P (st_B (w_st w))" "st_B (w_st w) \<le> max (sj_sink P) (length (w_xs w))" using e by (simp_all add: sj_end_ok_def)
  have rows: "rows_ok rt P b (st_ring_lo st') (length (w_xs w) + length vs) (w_xs w @ vs)
      (ring_store P (length (w_xs w)) vs (w_ring w)) sealed'" if exact
  proof -
    have full: "rows_ok rt P b (st_ring_lo st') (length (w_xs w) + length vs) (w_xs w @ vs)
        (ring_store P (length (w_xs w)) vs (w_ring w)) (seal_rows rt P (st_B (w_st w)) b (w_ring w) (w_sealed w))"
      by (rule rows_ok_store [OF g B0(1) al(1) r [OF that] q(6) b B0(2) q(7)])
    show ?thesis
    proof (cases k)
      case True
      then show ?thesis using full s q(1) by (simp add: b_def)
    next
      case False
      then show ?thesis using full s q(1) by (simp add: b_def rows_ok_def seal_rows_def same_below_def)
    qed
  qed
  have stb: "st_B (sj_publish k st') = b" "st_B_pending (sj_publish k st') = b" using P1 by (simp_all add: b_def)
  have lo': "lo_ok P kv (sj_publish k st')" using lo q(7) kv by (auto simp: lo_ok_def max_def)
  show "k \<Longrightarrow> world_ok exact rt P kv w'"
    using rows q(3) stb kv lo' by (simp add: world_ok_def sj_st_inv_def w'_def b_def)
  show "cut_ok exact rt P kv (length (w_xs w)) w'"
    using rows_ok_bound [OF rows, of "length (w_xs w)"] stb al b(2) kv lo' by (simp add: cut_ok_def Let_def w'_def)
  show "st_B (w_st w') \<le> max (sj_sink P) (length (w_xs w))" using b(2) stb by (simp add: w'_def)
qed

text \<open>The cut before a re-prefill never asserts, and leaves a stream that the removal can work on.\<close>

definition recut_ok :: "bool \<Rightarrow> ('v list \<Rightarrow> nat \<Rightarrow> 'v) \<Rightarrow> sj_params \<Rightarrow> nat \<Rightarrow> nat \<Rightarrow> 'v sj_world \<Rightarrow> bool" where
  "recut_ok exact rt P kv c0 w \<longleftrightarrow> cut_ok exact rt P kv c0 w \<and> (world_ok exact rt P kv w \<or> st_B (w_st w) \<le> max (sj_sink P) c0)"

lemma prefill_cut_ok:
  assumes wf: "sj_wf P kv" and w: "world_ok exact rt P kv w"
  obtains st' ch where "sj_prefill_cut P (length (w_xs w)) c0 pos (w_st w) = Some (st', ch)"
    "recut_ok exact rt P kv c0 (w\<lparr>w_st := st'\<rparr>)"
proof -
  define n where "n = length (w_xs w)"
  define st where "st = (w_st w)\<lparr>st_exact_at := -1\<rparr>"
  have c: "recut_ok exact rt P kv c0 (w\<lparr>w_st := st'\<rparr>)"
    if "st_B st' = st_B (w_st w)" "st_B_pending st' = st_B_pending (w_st w)" "st_ring_lo st' = st_ring_lo (w_st w)" for st'
    using world_cut_ok [OF w, of c0] w that by (simp add: recut_ok_def cut_ok_def world_ok_def sj_st_inv_def lo_ok_def Let_def)
  have same: "st_B st = st_B (w_st w)" "st_B_pending st = st_B_pending (w_st w)" "st_ring_lo st = st_ring_lo (w_st w)"
    by (simp_all add: st_def)
  show thesis
  proof (cases "st_exact_at (w_st w) = int c0 \<or> sj_grid P = 0 \<or> \<not> pos \<or> c0 mod sj_grid P \<noteq> 0 \<or> c0 \<ge> n \<or> st_B_pending st \<noteq> st_B st")
    case True
    then have "sj_prefill_cut P n c0 pos (w_st w) = Some (st, False)"
      by (auto simp: sj_prefill_cut_def st_def [symmetric] Let_def)
    then show thesis using that [of st False] c [of st] same n_def by simp
  next
    case False
    then have g: "sj_grid P \<noteq> 0" and c0: "c0 < n" by auto
    obtain want where want: "sj_replay_B P c0 = Some want" by (rule replay_B_bounds [OF wf g])
    define res where "res = (if st_B st > sj_sink P \<and> want < st_B st then do {
             tgt \<leftarrow> sj_truncate_target P st c0;
             Some (case tgt of Some B_new \<Rightarrow> if B_new < st_B st then (sj_truncate_st B_new c0 st, True) else (st, False)
               | None \<Rightarrow> (st, False)) } else Some (st, False))"
    have "\<exists>st1 ch. res = Some (st1, ch) \<and> recut_ok exact rt P kv c0 (w\<lparr>w_st := st1\<rparr>)"
    proof (cases "st_B st > sj_sink P \<and> want < st_B st")
      case True
      obtain t where t: "sj_truncate_target P st c0 = Some t" using truncate_target_some [OF wf] g by blast
      show ?thesis
      proof (cases "\<exists>B_new. t = Some B_new \<and> B_new < st_B st")
        case True
        then obtain B_new where b: "t = Some B_new" "B_new < st_B st" by blast
        have w1: "world_ok exact rt P kv (w\<lparr>w_st := st\<rparr>)" using w same by (simp add: world_ok_def sj_st_inv_def lo_ok_def)
        have "world_ok exact rt P kv ((w\<lparr>w_st := st\<rparr>)\<lparr>w_st := sj_truncate_st B_new c0 st, w_xs := take c0 (w_xs w)\<rparr>)"
          using rm_trunc_ok [OF wf world_cut_ok [OF w1], of c0 B_new] t b c0 n_def by simp
        moreover have "rows_ok rt P B_new (st_ring_lo st) c0 (w_xs w) (w_ring w) (w_sealed w)" if exact
        proof (rule truncate_rows)
          have e: "sj_end_ok P (st_B st) n" using w1 by (simp add: world_ok_def sj_st_inv_def n_def)
          show "rows_ok rt P (st_B st) (st_ring_lo st) c0 (w_xs w) (w_ring w) (w_sealed w)"
            using w1 that by (auto simp: world_ok_def intro: rows_ok_bound)
          show "B_new \<le> st_B st" using b(2) by simp
          show "p < sj_sink P \<or> st_B st \<le> p \<or> st_ring_lo st \<le> p" if "B_new \<le> p" "p < c0" for p
            using truncate_target_ok(4) [OF wf, of st c0 B_new p] t b c0 e that by (simp add: sj_end_ok_def)
        qed
        ultimately have "recut_ok exact rt P kv c0 (w\<lparr>w_st := sj_truncate_st B_new c0 st\<rparr>)"
          using w c0 by (auto simp: recut_ok_def world_ok_def cut_ok_def sj_st_inv_def sj_end_ok_def sj_truncate_st_def lo_ok_def Let_def n_def)
        then show ?thesis using \<open>st_B st > sj_sink P \<and> want < st_B st\<close> t b by (auto simp: res_def)
      next
        case False
        then have "res = Some (st, False)" using \<open>st_B st > sj_sink P \<and> want < st_B st\<close> t
          by (auto simp: res_def split: option.splits)
        then show ?thesis using c [of st] same by auto
      qed
    next
      case False
      then show ?thesis using c [of st] same by (auto simp: res_def)
    qed
    then obtain st1 ch where r: "res = Some (st1, ch)" "recut_ok exact rt P kv c0 (w\<lparr>w_st := st1\<rparr>)" by blast
    have "sj_prefill_cut P n c0 pos (w_st w) =
        Some (if st_draining st1 then (st1\<lparr>st_draining := False\<rparr>, True) else (st1, ch))"
      using False want r(1) [unfolded res_def] by (simp add: sj_prefill_cut_def st_def [symmetric] Let_def)
    moreover have "recut_ok exact rt P kv c0 (w\<lparr>w_st := st1\<lparr>st_draining := False\<rparr>\<rparr>)"
      using r(2) by (simp add: recut_ok_def cut_ok_def world_ok_def sj_st_inv_def lo_ok_def)
    ultimately show thesis
      using that [of "st1\<lparr>st_draining := False\<rparr>" True] that [of st1 ch] r(2) n_def by (cases "st_draining st1") simp_all
  qed
qed

text \<open>The idle compression never asserts either; what it seals is aligned and behind the frontier.\<close>

lemma idle_target_ok:
  assumes wf: "sj_wf P kv" and w: "world_ok exact rt P kv w"
  obtains st' ret where
    "sj_idle P seq_ok accepted_end end_cell pos_max free_recs keep (length (w_xs w)) k (w_st w) = Some (st', ret)"
    "st_ring_lo st' = st_ring_lo (w_st w)" "st_B (w_st w) \<le> st_B st'" "st_B_pending st' = st_B st'"
    "sj_end_ok P (st_B st') (length (w_xs w))" "st_B st' = st_B (w_st w) \<or> k"
proof -
  define n where "n = length (w_xs w)"
  define st where "st = w_st w"
  have e: "sj_end_ok P (st_B st) n" "st_B_pending st = st_B st" and nkv: "n \<le> kv"
    using w by (simp_all add: world_ok_def sj_st_inv_def n_def st_def)
  have g: "sj_group P > 0" using wf by (simp add: sj_wf_def)
  note result = that
  have done_same: thesis if "sj_idle P seq_ok accepted_end end_cell pos_max free_recs keep n k st = Some (s, r)" "st_B s = st_B st"
    "st_B_pending s = st_B st" "st_ring_lo s = st_ring_lo st" for s r
    using that(1) [unfolded n_def st_def] that(2-4) e by (intro result [of s r]) (simp_all add: n_def st_def)
  show thesis
  proof (cases "sj_tail_max P = 0 \<or> \<not> seq_ok \<or> accepted_end < 0 \<or> accepted_end = 0 \<and> n = 0
      \<or> pos_max < 0 \<or> pos_max + 1 \<noteq> accepted_end \<or> end_cell \<noteq> n \<or> n \<le> sj_sink P + sj_tail P")
    case True
    then have "\<exists>r. sj_idle P seq_ok accepted_end end_cell pos_max free_recs keep n k st = Some (st, r)"
      using e(2) unfolding sj_idle_def by (simp only: if_splits simp_thms) auto
    then show thesis using e(2) done_same by blast
  next
    case False
    then have n: "n > sj_sink P + sj_tail P" "sj_tail_max P \<noteq> 0" "seq_ok" "\<not> accepted_end < 0" "\<not> (accepted_end = 0 \<and> n = 0)"
      "\<not> (pos_max < 0 \<or> pos_max + 1 \<noteq> accepted_end \<or> end_cell \<noteq> n)" by auto
    define t0 where "t0 = sj_sink P + sj_group P * ((n - sj_tail P - sj_sink P) div sj_group P)"
    note t0 = seal_target [OF g n(1), folded t0_def]
    obtain t where t: "(case keep of None \<Rightarrow> Some t0 | Some keep_c \<Rightarrow> do {
              kk \<leftarrow> (if sj_grid P \<noteq> 0 then sj_replay_B P keep_c
                   else Some (if keep_c \<le> sj_sink P + sj_tail P then sj_sink P else sj_floor_g P (keep_c - sj_tail P)));
              Some (min t0 kk) }) = Some t" "t \<le> t0" "sj_aligned P t"
    proof (cases keep)
      case None
      then show thesis using that t0(4) by simp
    next
      case (Some c)
      show thesis
      proof (cases "sj_grid P = 0")
        case True
        show thesis using that [of "min t0 (if c \<le> sj_sink P + sj_tail P then sj_sink P else sj_floor_g P (c - sj_tail P))"]
            Some True t0(4) floor_g_bounds(3) [OF g] by auto
      next
        case False
        obtain r where "sj_replay_B P c = Some r" "sj_aligned P r" by (rule replay_B_bounds [OF wf False])
        then show thesis using that [of "min t0 r"] Some False t0(4) by simp
      qed
    qed
    define can where "can = (if sj_paged P
            then st_B st + sj_group P * min free_recs ((t - st_B st) div sj_group P) else t)"
    define partial where "partial = (keep \<noteq> None \<or> can < t)"
    have idle: "sj_idle P seq_ok accepted_end end_cell pos_max free_recs keep n k st =
      Some (if t \<le> st_B st then (if keep = None then st\<lparr>st_draining := False\<rparr> else st, 0)
        else if can \<le> st_B st then (st, 0)
        else let st = sj_publish k (st\<lparr>st_B_pending := can\<rparr>)
             in if \<not> k then (st, -1) else (if partial then st else st\<lparr>st_draining := False\<rparr>, 1))"
      using n e(2) t(1) unfolding sj_idle_def t0_def [symmetric] can_def partial_def by (simp add: Let_def)
    show thesis
    proof (cases "t \<le> st_B st \<or> can \<le> st_B st \<or> \<not> k")
      case True
      then obtain s r where "sj_idle P seq_ok accepted_end end_cell pos_max free_recs keep n k st = Some (s, r)" "st_B s = st_B st" "st_B_pending s = st_B st"
        "st_ring_lo s = st_ring_lo st"
        using idle e(2) by (auto simp: Let_def sj_publish_def split: if_splits)
      then show thesis by (rule done_same)
    next
      case False
      then have k: "k" "st_B st < t" "st_B st < can" by auto
      define s where "s = (if partial then sj_publish k (st\<lparr>st_B_pending := can\<rparr>)
        else (sj_publish k (st\<lparr>st_B_pending := can\<rparr>))\<lparr>st_draining := False\<rparr>)"
      have s: "sj_idle P seq_ok accepted_end end_cell pos_max free_recs keep n k st = Some (s, 1)" using idle k by (simp add: s_def Let_def)
      have sB: "st_B s = can" "st_B_pending s = can" "st_ring_lo s = st_ring_lo st"
        using k by (simp_all add: s_def sj_publish_def)
      have al: "sj_aligned P (st_B st)" using e(1) by (simp add: sj_end_ok_def)
      have "sj_group P * min free_recs ((t - st_B st) div sj_group P) \<le> t - st_B st"
        using floor_mult(1) [OF g, of "t - st_B st"] by (meson le_trans min.cobounded2 mult_le_mono2)
      then have le: "can \<le> t" using k(2) unfolding can_def by (cases "sj_paged P"; simp; linarith)
      have "sj_aligned P can" using t(3) al sj_aligned_add by (simp add: can_def)
      moreover have "(can - sj_sink P) div sj_group P \<le> sj_n_groups_seq P"
      proof -
        have "(can - sj_sink P) div sj_group P \<le> (t0 - sj_sink P) div sj_group P"
          using le t(2) by (intro div_le_mono) simp
        also have "\<dots> \<le> sj_n_groups_seq P" using groups_seq_bound [OF wf nkv n(1)] g by (simp add: t0_def)
        finally show ?thesis .
      qed
      moreover have "can \<le> max (sj_sink P) n" "n \<le> can + sj_slack P"
        using le t(2) t0(1) k(3) e(1) by (auto simp: sj_end_ok_def)
      ultimately have "sj_end_ok P can n" by (simp add: sj_end_ok_def)
      then show thesis using result [of s 1] s sB k by (simp add: n_def st_def)
    qed
  qed
qed

lemma rows_ok_seal:
  assumes g: "sj_group P > 0" and al: "sj_aligned P B" "sj_aligned P b"
    and ok: "rows_ok rt P B lo (length xs) xs ring sealed" and le: "B \<le> b" "b \<le> max (sj_sink P) (length xs)"
  shows "rows_ok rt P b lo (length xs) xs ring (seal_rows rt P B b ring sealed)"
  unfolding rows_ok_def
proof (intro conjI allI impI)
  fix p assume p: "p < length xs" "p < length xs" "sj_sink P \<le> p" "p < b"
  then have len: "b \<le> length xs" using le(2) by (auto simp: max_def split: if_splits)
  show "seal_rows rt P B b ring sealed p = Some (record_value rt P xs p)"
  proof (cases "B \<le> p")
    case True
    then show ?thesis using ok by (intro seal_value [OF g al(1) p(3,4) _ al(2) len]) (auto simp: rows_ok_def)
  next
    case False
    then show ?thesis using ok p by (simp add: seal_rows_def rows_ok_def)
  qed
qed (use ok le(1) in \<open>auto simp: rows_ok_def\<close>)

lemma step_ok:
  assumes wf: "sj_wf P kv" and calm: "exact \<Longrightarrow> sj_split_grid P \<noteq> 0 \<Longrightarrow> calm"
    and w: "world_ok exact rt P kv w" and s: "sj_step calm rt P kv w w'"
  shows "world_ok exact rt P kv w'"
  using s
proof cases
  case (Decode vs st')
  from decode_ok(1) [OF wf w Decode(2,3), of True] Decode(1) show ?thesis by simp
next
  case (Decode_failed vs st' sealed_ok sealed' w1 c1 r)
  note d = decode_ok [OF wf w Decode_failed(1,2,3), folded Decode_failed(4)]
  have "length (w_xs w) \<le> c1" using Decode_failed(7) by simp
  from rm_world_ok [OF wf _ d(2) this] Decode_failed(6) calm obtain w2 r2 where
    "sj_rm_world P (length (w_xs w)) c1 w1 = Some (w2, r2)"
    "if r2 then world_ok exact rt P kv w2 \<and> w_xs w2 = take (length (w_xs w)) (w_xs w1) else w2 = w1"
    "st_B (w_st w1) \<le> max (sj_sink P) (length (w_xs w)) \<Longrightarrow> c1 \<ge> length (w_xs w1) \<Longrightarrow> r2" by metis
  moreover have "c1 \<ge> length (w_xs w1)" using Decode_failed(4,7) by simp
  ultimately show ?thesis using Decode_failed(5) d(3) by (auto split: if_splits)
next
  case (Remove c0 c1 r)
  obtain w2 r2 where "sj_rm_world P c0 c1 w = Some (w2, r2)"
    "if r2 then world_ok exact rt P kv w2 \<and> w_xs w2 = take c0 (w_xs w) else w2 = w"
    by (rule rm_world_ok [OF wf _ world_cut_ok [OF w] Remove(1)]) (use Remove(3) calm in blast)+
  with Remove(2) w show ?thesis by (auto split: if_splits)
next
  case (Recut c0 pos st' changed c1 r)
  obtain st1 ch where c: "sj_prefill_cut P (length (w_xs w)) c0 pos (w_st w) = Some (st1, ch)"
    "recut_ok exact rt P kv c0 (w\<lparr>w_st := st1\<rparr>)" by (rule prefill_cut_ok [OF wf w])
  then have eq: "st1 = st'" using Recut(1) by simp
  have cut: "cut_ok exact rt P kv c0 (w\<lparr>w_st := st'\<rparr>)" using c(2) eq by (simp add: recut_ok_def)
  obtain w2 r2 where r2: "sj_rm_world P c0 c1 (w\<lparr>w_st := st'\<rparr>) = Some (w2, r2)"
    "if r2 then world_ok exact rt P kv w2 \<and> w_xs w2 = take c0 (w_xs w) else w2 = w\<lparr>w_st := st'\<rparr>"
    "st_B st' \<le> max (sj_sink P) c0 \<Longrightarrow> r2"
    by (rule rm_world_ok [OF wf _ cut Recut(2)]) (use Recut(3,5) calm in auto)
  show ?thesis
  proof (cases r2)
    case True
    then show ?thesis using r2(1,2) Recut(4) by simp
  next
    case False
    then have "world_ok exact rt P kv (w\<lparr>w_st := st'\<rparr>)" using c(2) r2(3) eq by (auto simp: recut_ok_def)
    then show ?thesis using r2(1,2) Recut(4) False by simp
  qed
next
  case (Idle seq_ok accepted_end end_cell pos_max free_recs keep k st' ret sealed')
  obtain s1 r1 where i: "sj_idle P seq_ok accepted_end end_cell pos_max free_recs keep (length (w_xs w)) k (w_st w) = Some (s1, r1)"
    "st_ring_lo s1 = st_ring_lo (w_st w)" "st_B (w_st w) \<le> st_B s1" "st_B_pending s1 = st_B s1"
    "sj_end_ok P (st_B s1) (length (w_xs w))" "st_B s1 = st_B (w_st w) \<or> k"
    by (rule idle_target_ok [OF wf w, of seq_ok accepted_end end_cell pos_max free_recs keep k])
  then have eq: "s1 = st'" using Idle(2) by simp
  have e: "sj_end_ok P (st_B (w_st w)) (length (w_xs w))" and g: "sj_group P > 0" and lo: "lo_ok P kv (w_st w)"
    and r: "exact \<Longrightarrow> rows_ok rt P (st_B (w_st w)) (st_ring_lo (w_st w)) (length (w_xs w)) (w_xs w) (w_ring w) (w_sealed w)"
    using w wf by (simp_all add: world_ok_def sj_st_inv_def sj_wf_def)
  have "rows_ok rt P (st_B s1) (st_ring_lo s1) (length (w_xs w)) (w_xs w) (w_ring w) sealed'" if exact
  proof (cases k)
    case True
    have "rows_ok rt P (st_B s1) (st_ring_lo s1) (length (w_xs w)) (w_xs w) (w_ring w)
        (seal_rows rt P (st_B (w_st w)) (st_B s1) (w_ring w) (w_sealed w))"
      unfolding i(2) by (rule rows_ok_seal [OF g _ _ r [OF that] i(3)]) (use i(5) e in \<open>simp_all add: sj_end_ok_def\<close>)
    then show ?thesis using True Idle(3) eq by simp
  next
    case False
    then show ?thesis using r [OF that] i(2,6) Idle(3) by (auto simp: rows_ok_def same_below_def)
  qed
  then show ?thesis using i(2,4,5) w Idle(1) eq lo by (simp add: world_ok_def sj_st_inv_def lo_ok_def)
qed

subsection \<open>Running the steps\<close>

text \<open>An executable scheduler for concrete runs: decode a ubatch, or remove the cells from \<open>c0\<close> on.\<close>

datatype 'v sj_event = Ev_decode "'v list" | Ev_remove nat

fun sj_event_step :: "('v list \<Rightarrow> nat \<Rightarrow> 'v) \<Rightarrow> sj_params \<Rightarrow> nat \<Rightarrow> 'v sj_event \<Rightarrow> 'v sj_world \<Rightarrow> 'v sj_world option" where
  "sj_event_step rt P kv (Ev_decode vs) w = do {
     let n = length (w_xs w);
     assert_that (sj_ubatch_ok P kv n (length vs));
     st' \<leftarrow> sj_apply P [n..<n + length vs] (n + length vs) (w_st w);
     Some \<lparr>w_st = sj_publish True st', w_xs = w_xs w @ vs, w_ring = ring_store P n vs (w_ring w),
       w_sealed = seal_rows rt P (st_B st') (st_B_pending st') (w_ring w) (w_sealed w)\<rparr> }"
| "sj_event_step rt P kv (Ev_remove c0) w = map_option fst (sj_rm_world P c0 (max c0 (length (w_xs w))) w)"

definition sj_run :: "('v list \<Rightarrow> nat \<Rightarrow> 'v) \<Rightarrow> sj_params \<Rightarrow> nat \<Rightarrow> 'v sj_event list \<Rightarrow> 'v sj_world option" where
  "sj_run rt P kv evs = for_each (sj_event_step rt P kv) evs (sj_init P)"

abbreviation sj_reachable :: "bool \<Rightarrow> ('v list \<Rightarrow> nat \<Rightarrow> 'v) \<Rightarrow> sj_params \<Rightarrow> nat \<Rightarrow> 'v sj_world \<Rightarrow> bool" where
  "sj_reachable calm rt P kv w \<equiv> rtranclp (sj_step calm rt P kv) (sj_init P) w"

lemma event_step: "sj_event_step rt P kv ev w = Some w' \<Longrightarrow> sj_step False rt P kv w w'"
proof (cases ev)
  case (Ev_decode vs)
  assume "sj_event_step rt P kv ev w = Some w'"
  with Ev_decode show ?thesis by (auto simp: Let_def split: bind_splits intro: sj_step.Decode)
next
  case (Ev_remove c0)
  assume "sj_event_step rt P kv ev w = Some w'"
  with Ev_remove show ?thesis by (auto intro: sj_step.Remove [OF max.cobounded1])
qed

lemma run_reachable: "sj_run rt P kv evs = Some w \<Longrightarrow> sj_reachable False rt P kv w"
  unfolding sj_run_def
  by (erule for_each_inv) (auto intro: rtranclp.rtrancl_into_rtrancl event_step)

lemma reachable_ok:
  assumes "sj_wf P kv" and "exact \<Longrightarrow> sj_split_grid P \<noteq> 0 \<Longrightarrow> calm" and "sj_reachable calm rt P kv w"
  shows "world_ok exact rt P kv w"
  using assms(3)
proof induction
  case base
  show ?case by (rule init_ok)
next
  case (step w w')
  show ?case by (rule step_ok [OF assms(1) _ step(3,2)]) (rule assms(2))
qed

lemma setup_mode:
  assumes "sj_setup sink grp tail U tail_max chunk mode noseal kv n_stream uni sh = Some P" and "sj_split_grid P \<noteq> 0"
  shows "mode = 1"
proof (rule ccontr)
  assume "mode \<noteq> 1"
  with assms(1) have "sj_split_grid P = 0" by (auto simp: sj_setup_def sj_ring_rows_def Let_def)
  with assms(2) show False by simp
qed

lemmas setup_ok = sj_setup_wf setup_mode

lemma world_reads:
  assumes "world_ok True rt P kv w" and "p < length (w_xs w)"
  shows "row_read P w p = Some (cell_value rt P w p)"
  using assms by (auto simp: world_ok_def rows_ok_def row_read_def cell_value_def)

subsection \<open>Properties\<close>

text \<open>C1. Every position reads back exactly what it should. In every state the cache can reach by decoding
  ubatches, failing to decode them, removing suffixes, cutting before a re-prefill and compressing when
  idle, each cell present reads as the value that was stored for it if it is in the sink or not sealed, and
  as what the record made from the stored values of its whole group reads back if it is sealed. So no ring
  row is overwritten while it is still needed, no record is sealed from a foreign row, and a reopened group
  finds its rows intact. This holds for every quantisation \<open>rt\<close> of a group, in the seal grid modes 0 and 2 for
  every history, and in mode 1 (\<open>LLAMA_SJKVARN_SEAL_GRID=1\<close>) for the histories in which no removal moves the
  sealed end upwards; without that condition it is false in mode 1, \<open>sj_kvarn_split_grid_stale\<close> below.\<close>

theorem sj_kvarn_reads_exact:
  assumes "sj_setup sink grp tail U tail_max chunk mode noseal kv n_stream uni sh = Some P" and "U > 0"
    and "mode = 1 \<longrightarrow> calm" and "sj_reachable calm rt P kv w" and "p < length (w_xs w)"
  shows "row_read P w p = Some (if sj_sink P \<le> p \<and> p < st_B (w_st w)
    then rt (take (sj_group P) (drop (sj_floor_g P p) (w_xs w))) (p - sj_floor_g P p) else w_xs w ! p)"
proof -
  have "world_ok True rt P kv w"
    by (rule reachable_ok [OF setup_ok(1) [OF assms(1,2)] _ assms(4)]) (use setup_ok(2) [OF assms(1)] assms(3) in blast)
  from world_reads [OF this assms(5)] show ?thesis unfolding cell_value_def record_value_def .
qed

definition sj_demo :: sj_params where
  "sj_demo = the (sj_setup 64 128 256 512 0 0 2 False 4096 1 False False)"

lemma sj_demo_setup: "sj_setup 64 128 256 512 0 0 2 False 4096 1 False False = Some sj_demo"
  by (simp add: sj_demo_def sj_setup_def sj_ring_rows_def Let_def GGML_PAD_def)

text \<open>A quantisation that halves the values of a sealed group.\<close>

definition sj_halve :: "nat list \<Rightarrow> nat \<Rightarrow> nat" where
  "sj_halve vs i = 2 * (vs ! i div 2)"

lemma sj_demo_run: "map_option w_xs (sj_run sj_halve sj_demo 4096 [Ev_decode [10, 20, 30], Ev_remove 2, Ev_decode [40, 50]]) =
    Some [10, 20, 40, 50 :: nat]"
  unfolding sj_demo_def by code_simp

lemma sj_demo_world:
  obtains w where "sj_reachable False sj_halve sj_demo 4096 w" "w_xs w = [10, 20, 40, 50]"
  using iffD1 [OF map_option_eq_Some sj_demo_run] run_reachable that by blast

theorem sj_kvarn_reads_exact_witness: "\<exists>w. sj_reachable False sj_halve sj_demo 4096 w \<and> row_read sj_demo w 3 = Some 50"
proof -
  obtain w where w: "sj_reachable False sj_halve sj_demo 4096 w" "w_xs w = [10, 20, 40, 50]" by (rule sj_demo_world)
  have s: "sj_sink sj_demo = 64" by (simp add: sj_demo_def sj_setup_def sj_ring_rows_def Let_def)
  note sj_kvarn_reads_exact [OF sj_demo_setup _ _ w(1), of 3]
  with w show ?thesis by (auto simp: s)
qed



lemma floor_cell_target:
  assumes wf: "sj_wf P kv" and w: "world_ok exact rt P kv w" and lt: "sj_rm_floor_cell P (w_st w) c < st_B (w_st w)"
  obtains B_new where "sj_truncate_target P (w_st w) (sj_rm_floor_cell P (w_st w) c) = Some (Some B_new)"
proof -
  define c0 where "c0 = sj_rm_floor_cell P (w_st w) c"
  have g: "sj_group P > 0" using wf by (simp add: sj_wf_def)
  have pend: "st_B_pending (w_st w) = st_B (w_st w)" using w by (simp add: world_ok_def sj_st_inv_def)
  obtain t where t: "sj_truncate_target P (w_st w) c0 = Some t" using truncate_target_some [OF wf] lt c0_def by metis
  have "(c0 - sj_sink P) mod sj_group P = 0" if "\<not> c0 \<le> sj_sink P" "\<not> c0 \<ge> sj_reopen_lo P (w_st w)"
  proof -
    have "c0 = sj_floor_g P c" using that lt by (auto simp: c0_def sj_rm_floor_cell_def split: if_splits)
    then show ?thesis using floor_g_bounds(3) [OF g, of c] by (simp add: sj_aligned_def)
  qed
  then have "t \<noteq> None" using t pend by (auto simp: sj_truncate_target_def split: if_splits bind_splits)
  with t that show thesis by (auto simp: c0_def)
qed

lemma rm_accepts:
  assumes "c1 \<ge> length (w_xs w)" "c0 < st_B (w_st w)" "sj_truncate_target P (w_st w) c0 = Some (Some B_new)"
    "sj_rm_world P c0 c1 w = Some (w', r)"
  shows r
  using assms by (auto simp: sj_rm_world_def sj_rm_decide_def split: if_splits)

text \<open>C9. A removal is all or nothing, and the floor is always accepted, in every seal grid mode. \<open>seq_rm\<close> of
  the cells \<open>[c0, c1)\<close> either refuses and leaves the stream as it was, or leaves exactly the cells below \<open>c0\<close>;
  and a suffix cut at \<open>sj_kvarn_rm_floor_cell\<close>, which lies less than one group below the wanted cell, is never
  refused. Each cell left reads back exactly as C1 says, in mode 1 if neither this removal nor an earlier one
  has moved the sealed end upwards.\<close>

theorem sj_kvarn_remove:
  assumes "sj_setup sink grp tail U tail_max chunk mode noseal kv n_stream uni sh = Some P" and "U > 0"
    and "sj_reachable calm rt P kv w" and "c0 \<le> c1"
  shows "\<exists>w' r. sj_rm_world P c0 c1 w = Some (w', r) \<and>
    (if r then w_xs w' = take c0 (w_xs w) \<and> (mode \<noteq> 1 \<or> calm \<and> \<not> rm_raises P c0 c1 w \<longrightarrow>
        (\<forall>p < length (w_xs w'). row_read P w' p = Some (if sj_sink P \<le> p \<and> p < st_B (w_st w')
           then rt (take (sj_group P) (drop (sj_floor_g P p) (w_xs w))) (p - sj_floor_g P p) else w_xs w ! p)))
     else w' = w) \<and>
    (c0 = sj_rm_floor_cell P (w_st w) c \<longrightarrow> c1 \<ge> length (w_xs w) \<longrightarrow> r \<and> c0 \<le> c \<and> c < c0 + sj_group P)"
proof -
  define exact where "exact = (mode \<noteq> 1 \<or> calm \<and> \<not> rm_raises P c0 c1 w)"
  note wf = setup_ok(1) [OF assms(1,2)]
  have w: "world_ok exact rt P kv w"
    by (rule reachable_ok [OF wf _ assms(3)]) (use setup_ok(2) [OF assms(1)] in \<open>auto simp: exact_def\<close>)
  have g: "sj_group P > 0" using wf by (simp add: sj_wf_def)
  obtain w' r where r: "sj_rm_world P c0 c1 w = Some (w', r)"
    "if r then world_ok exact rt P kv w' \<and> w_xs w' = take c0 (w_xs w) else w' = w"
    "st_B (w_st w) \<le> max (sj_sink P) c0 \<Longrightarrow> c1 \<ge> length (w_xs w) \<Longrightarrow> r"
    by (rule rm_world_ok [OF wf _ world_cut_ok [OF w] assms(4)]) (use setup_ok(2) [OF assms(1)] in \<open>auto simp: exact_def\<close>)
  have reads: "row_read P w' p = Some (if sj_sink P \<le> p \<and> p < st_B (w_st w')
       then rt (take (sj_group P) (drop (sj_floor_g P p) (w_xs w))) (p - sj_floor_g P p) else w_xs w ! p)"
    if "r" "exact" "p < length (w_xs w')" for p
  proof -
    have ok: "world_ok True rt P kv w'" and xs: "w_xs w' = take c0 (w_xs w)" using r(2) that by simp_all
    have B: "sj_aligned P (st_B (w_st w'))" "st_B (w_st w') \<le> max (sj_sink P) c0"
      using ok xs by (auto simp: world_ok_def sj_st_inv_def sj_end_ok_def)
    show ?thesis
      using world_reads [OF ok that(3)] record_value_take [OF g B(1) _ _ B(2), of p rt "w_xs w"] that(3) xs
      by (auto simp: cell_value_def record_value_def)
  qed
  have "r \<and> c0 \<le> c \<and> c < c0 + sj_group P" if c: "c0 = sj_rm_floor_cell P (w_st w) c" "c1 \<ge> length (w_xs w)"
  proof
    show "c0 \<le> c \<and> c < c0 + sj_group P"
      using c(1) floor_g_bounds(1,2) [OF g, of c] g by (auto simp: sj_rm_floor_cell_def)
    show r
    proof (cases "c0 < st_B (w_st w)")
      case True
      with c(1) obtain B_new where "sj_truncate_target P (w_st w) c0 = Some (Some B_new)"
        using floor_cell_target [OF wf w, of c] by metis
      from rm_accepts [OF c(2) True this r(1)] show r .
    next
      case False
      then show r using r(3) c(2) by simp
    qed
  qed
  with r reads show ?thesis unfolding exact_def by (intro exI [of _ w'] exI [of _ r]) (auto split: if_splits)
qed

theorem sj_kvarn_remove_witness:
  "\<exists>w w'. sj_reachable False sj_halve sj_demo 4096 w \<and> sj_rm_world sj_demo 3 4 w = Some (w', True) \<and> w_xs w' = [10, 20, 40]"
proof -
  obtain w where w: "sj_reachable False sj_halve sj_demo 4096 w" "w_xs w = [10, 20, 40, 50]" by (rule sj_demo_world)
  have c: "3 = sj_rm_floor_cell sj_demo (w_st w) 3"
    by (simp add: sj_rm_floor_cell_def sj_demo_def sj_setup_def sj_ring_rows_def Let_def)
  from sj_kvarn_remove [OF sj_demo_setup _ w(1), of 3 4 3] c w(2)
  obtain w' where "sj_rm_world sj_demo 3 4 w = Some (w', True)" "w_xs w' = take 3 [10, 20, 40, 50]" by auto
  with w(1) show ?thesis by auto
qed

text \<open>A small configuration that meets every sizing rule, and a run of it.\<close>

definition sj_small :: sj_params where
  "sj_small = \<lparr>sj_sink = 0, sj_group = 2, sj_tail = 2, sj_n_ubatch = 4, sj_tail_max = 0, sj_flush_chunk = 0,
     sj_cap = 16, sj_grid = 4, sj_split_grid = 4, sj_n_groups_seq = 31, sj_n_groups_seal = 3, sj_n_groups = 31,
     sj_paged = False\<rparr>"

definition sj_small_run :: "nat sj_event list" where
  "sj_small_run = [Ev_decode [0, 1, 2, 3], Ev_decode [4, 5, 6, 7], Ev_decode [8, 9, 10, 11], Ev_decode [12, 13, 14, 15],
     Ev_decode [16, 17, 18, 19], Ev_decode [20, 21, 22, 23], Ev_decode [24, 25, 26, 27], Ev_remove 6,
     Ev_decode [100, 101], Ev_decode [102, 103, 104, 105], Ev_remove 8]"

lemma sj_small_outcome: "map_option (\<lambda>w. (w_xs w, row_read sj_small w 6)) (sj_run (!) sj_small 64 sj_small_run) =
    Some ([0, 1, 2, 3, 4, 5, 100, 101], Some 6)"
  unfolding sj_small_run_def by code_simp

text \<open>The full grid mode (\<open>LLAMA_SJKVARN_SEAL_GRID=1\<close>) reads a stale record. Unlike
  \<open>sj_kvarn_prefill_cut\<close>, \<open>seq_rm\<close> does not check that the truncation target lies below the sealed end:
  after a cut on a group boundary below the ring's reach, a second removal above the sealed end moves
  the end up to the cut, past positions that were never sealed again. Here cell 6 holds 100 and reads as
  the 6 of the first run.\<close>

theorem sj_kvarn_split_grid_stale:
  "sj_wf sj_small 64 \<and>
    (\<exists>w. sj_reachable False (!) sj_small 64 w \<and> w_xs w = [0, 1, 2, 3, 4, 5, 100, 101 :: nat] \<and> row_read sj_small w 6 = Some 6)"
proof
  show "sj_wf sj_small 64" by (simp add: sj_wf_def sj_small_def)
  obtain w where "sj_run (!) sj_small 64 sj_small_run = Some w" "w_xs w = [0, 1, 2, 3, 4, 5, 100, 101]" "row_read sj_small w 6 = Some 6"
    using iffD1 [OF map_option_eq_Some sj_small_outcome] by blast
  then show "\<exists>w. sj_reachable False (!) sj_small 64 w \<and> w_xs w = [0, 1, 2, 3, 4, 5, 100, 101 :: nat] \<and> row_read sj_small w 6 = Some 6"
    using run_reachable by blast
qed

end
