(* ===== verification/Sj_Pool.thy ===== *)
theory Sj_Pool
  imports Sj_Kvarn
begin

section \<open>The paged record pool (src/llama-kv-cache.cpp)\<close>

text \<open>
  With more than one stream the sealed records live in one pool: each stream maps its logical groups
  to records through a table, a free list hands records out, and a reference count per record lets
  \<open>seq_cp\<close> share sealed records between streams. This theory adds the pool to the bookkeeping of
  theory Sj_Kvarn: release, allocation, reset, the allocation step of the maintenance, truncation and
  sharing. The layer-major save, seek and rewind (\<open>b1_sj_save\<close> and its siblings) are not modelled.

  The free list is a stack with its top at the end (\<open>push_back\<close>, \<open>pop_back\<close>). \<open>None\<close> is a failed
  assertion.
\<close>

subsection \<open>State and operations\<close>

record sj_cache =
  sc_sts :: "sj_kvarn_stream list"
  sc_free :: "int list"
  sc_ref :: "nat list"

definition sc_st :: "nat \<Rightarrow> sj_cache \<Rightarrow> sj_kvarn_stream" where
  "sc_st s C = sc_sts C ! s"

definition sc_upd :: "nat \<Rightarrow> (sj_kvarn_stream \<Rightarrow> sj_kvarn_stream) \<Rightarrow> sj_cache \<Rightarrow> sj_cache" where
  "sc_upd s f C = C\<lparr>sc_sts := (sc_sts C)[s := f (sc_sts C ! s)]\<rparr>"

definition set_entry :: "nat \<Rightarrow> nat \<Rightarrow> int \<Rightarrow> sj_cache \<Rightarrow> sj_cache" where
  "set_entry s g v = sc_upd s (\<lambda>st. st\<lparr>st_table := (st_table st)[g := v]\<rparr>)"

definition set_ref :: "int \<Rightarrow> nat \<Rightarrow> sj_cache \<Rightarrow> sj_cache" where
  "set_ref r v C = C\<lparr>sc_ref := (sc_ref C)[nat r := v]\<rparr>"

definition release_group :: "nat \<Rightarrow> nat \<Rightarrow> sj_cache \<Rightarrow> sj_cache option" where
  "release_group s g C = (let r = st_table (sc_st s C) ! g in
     if r < 0 then Some C
     else do {
       assert_that (nat r < length (sc_ref C));
       assert_that (sc_ref C ! nat r > 0);
       let C = set_ref r (sc_ref C ! nat r - 1) C;
       let C = (if sc_ref C ! nat r = 0 then C\<lparr>sc_free := sc_free C @ [r]\<rparr> else C);
       Some (set_entry s g (-1) C) })"

definition release_groups :: "nat \<Rightarrow> nat \<Rightarrow> sj_cache \<Rightarrow> sj_cache option" where
  "release_groups s g0 C = for_each (release_group s) [g0..<length (st_table (sc_st s C))] C"

definition alloc_group :: "nat \<Rightarrow> nat \<Rightarrow> sj_cache \<Rightarrow> sj_cache option" where
  "alloc_group s g C = (let e = st_table (sc_st s C) ! g in
     if e \<ge> 0 then do { assert_that (nat e < length (sc_ref C)); assert_that (sc_ref C ! nat e = 1); Some C }
     else do {
       assert_that (sc_free C \<noteq> []);
       let r = last (sc_free C);
       let C = C\<lparr>sc_free := butlast (sc_free C)\<rparr>;
       assert_that (nat r < length (sc_ref C));
       assert_that (sc_ref C ! nat r = 0);
       Some (set_entry s g r (set_ref r 1 C)) })"

definition alloc_groups :: "nat \<Rightarrow> nat \<Rightarrow> nat \<Rightarrow> sj_cache \<Rightarrow> (sj_cache \<times> bool) option" where
  "alloc_groups s g0 g1 C = do {
     assert_that (g1 \<le> length (st_table (sc_st s C)));
     let need = length (filter (\<lambda>g. st_table (sc_st s C) ! g < 0) [g0..<g1]);
     if need > length (sc_free C) then Some (C, False)
     else map_option (\<lambda>C. (C, True)) (for_each (alloc_group s) [g0..<g1] C) }"

definition reset_stream :: "sj_params \<Rightarrow> nat \<Rightarrow> sj_cache \<Rightarrow> sj_cache option" where
  "reset_stream P s C = do {
     C \<leftarrow> (if sj_paged P then
            release_groups s 0 (sc_upd s (\<lambda>st. if st_table st = []
              then st\<lparr>st_table := replicate (sj_n_groups_seq P) (-1)\<rparr> else st) C)
          else Some C);
     Some (sc_upd s (sj_reset_st P) C) }"

text \<open>The group index of a sealed end.\<close>

definition sj_groups_of :: "sj_params \<Rightarrow> nat \<Rightarrow> nat" where
  "sj_groups_of P B = (B - sj_sink P) div sj_group P"

text \<open>\<open>maintain_sj_kvarn_stream\<close>: allocate the records of the proposed groups, seal (\<open>ok\<close> is the outcome of
  the graphs), publish.\<close>

definition maintain_stream :: "sj_params \<Rightarrow> nat \<Rightarrow> bool \<Rightarrow> sj_cache \<Rightarrow> (sj_cache \<times> bool) option" where
  "maintain_stream P s ok C = (let st = sc_st s C in
     if st_B_pending st \<le> st_B st then Some (C, True)
     else do {
       let g0 = sj_groups_of P (st_B st);
       (C, got) \<leftarrow> (if sj_paged P then alloc_groups s g0 (sj_groups_of P (st_B_pending st)) C else Some (C, True));
       if \<not> got then Some (sc_upd s (sj_publish False) C, False)
       else if \<not> ok then do {
         let C = sc_upd s (sj_publish False) C;
         C \<leftarrow> (if sj_paged P then release_groups s g0 C else Some C);
         Some (C, False) }
       else Some (sc_upd s (sj_publish True) C, True) })"

definition maintain_all :: "sj_params \<Rightarrow> (nat \<Rightarrow> bool) \<Rightarrow> sj_cache \<Rightarrow> (sj_cache \<times> bool) option" where
  "maintain_all P oks C = for_each (\<lambda>s (C, ok).
       if st_B_pending (sc_st s C) > st_B (sc_st s C)
       then map_option (\<lambda>(C, r). (C, r \<and> ok)) (maintain_stream P s (oks s) C) else Some (C, ok))
     [0..<length (sc_sts C)] (C, True)"

definition truncate_body :: "sj_params \<Rightarrow> nat \<Rightarrow> nat \<Rightarrow> sj_cache \<Rightarrow> (sj_cache \<times> bool) option" where
  "truncate_body P s p0 C = do {
     tgt \<leftarrow> sj_truncate_target P (sc_st s C) p0;
     case tgt of None \<Rightarrow> Some (C, False)
     | Some B_new \<Rightarrow> do {
         C \<leftarrow> (if sj_paged P then release_groups s (sj_groups_of P B_new) C else Some C);
         Some (sc_upd s (sj_truncate_st B_new p0) C, True) } }"

text \<open>A cut above the sealed end that would raise it.\<close>

definition sj_raises :: "sj_params \<Rightarrow> nat \<Rightarrow> sj_kvarn_stream \<Rightarrow> bool" where
  "sj_raises P p0 st = (case sj_truncate_target P st p0 of Some (Some b) \<Rightarrow> st_B st < b | _ \<Rightarrow> False)"

text \<open>The part of \<open>seq_cp\<close> that shares the sealed records of stream \<open>s0\<close> with stream \<open>s1\<close>.\<close>

definition share_group :: "nat \<Rightarrow> nat \<Rightarrow> nat \<Rightarrow> sj_cache \<Rightarrow> sj_cache option" where
  "share_group s0 s1 g C = (let r = st_table (sc_st s0 C) ! g in do {
     assert_that (r \<ge> 0 \<and> nat r < length (sc_ref C) \<and> sc_ref C ! nat r > 0 \<and> sc_ref C ! nat r < 65535);
     let C = set_entry s1 g r C;
     Some (set_ref r (sc_ref C ! nat r + 1) C) })"

definition share_stream :: "sj_params \<Rightarrow> nat \<Rightarrow> nat \<Rightarrow> sj_cache \<Rightarrow> sj_cache option" where
  "share_stream P s0 s1 C = do {
     assert_that (st_B_pending (sc_st s0 C) = st_B (sc_st s0 C));
     C \<leftarrow> reset_stream P s1 C;
     let src = sc_st s0 C;
     let C = sc_upd s1 (\<lambda>dst. dst\<lparr>st_B := st_B src, st_B_prev := st_B_prev src, st_B_pending := st_B_pending src,
       st_N := st_N src, st_draining := st_draining src, st_ring_lo := st_ring_lo src\<rparr>) C;
     if sj_paged P then for_each (share_group s0 s1) [0..<sj_groups_of P (st_B src)] C else Some C }"

subsection \<open>The pool invariant\<close>

text \<open>The reference count of a record is the number of table entries that name it, and the free list
  holds exactly the records nobody names, once each.\<close>

definition table_of :: "nat \<Rightarrow> sj_cache \<Rightarrow> int list" where
  "table_of s C = st_table (sc_sts C ! s)"

definition users :: "sj_cache \<Rightarrow> int \<Rightarrow> (nat \<times> nat) set" where
  "users C r = {(s, g). s < length (sc_sts C) \<and> g < length (table_of s C) \<and> table_of s C ! g = r}"

definition is_record :: "sj_cache \<Rightarrow> int \<Rightarrow> bool" where
  "is_record C r \<longleftrightarrow> 0 \<le> r \<and> nat r < length (sc_ref C)"

definition pool_inv :: "sj_cache \<Rightarrow> bool" where
  "pool_inv C \<longleftrightarrow> distinct (sc_free C) \<and>
     set (sc_free C) = {r. is_record C r \<and> sc_ref C ! nat r = 0} \<and>
     (\<forall>r. is_record C r \<longrightarrow> sc_ref C ! nat r = card (users C r)) \<and>
     (\<forall>r. users C r \<noteq> {} \<longrightarrow> r = -1 \<or> is_record C r)"

lemma finite_users [simp]: "finite (users C r)"
proof -
  have "users C r \<subseteq> (\<Union>s < length (sc_sts C). Pair s ` {..<length (table_of s C)})" by (auto simp: users_def)
  then show ?thesis by (rule finite_subset) auto
qed

lemma sc_upd_simps [simp]:
  "sc_free (sc_upd s f C) = sc_free C" "sc_ref (sc_upd s f C) = sc_ref C"
  "length (sc_sts (sc_upd s f C)) = length (sc_sts C)"
  "s < length (sc_sts C) \<Longrightarrow> sc_st s (sc_upd s f C) = f (sc_st s C)"
  "t \<noteq> s \<Longrightarrow> sc_st t (sc_upd s f C) = sc_st t C"
  by (simp_all add: sc_upd_def sc_st_def)

lemma table_of_st: "table_of s C = st_table (sc_st s C)"
  by (simp add: table_of_def sc_st_def)

lemma users_cong:
  "length (sc_sts C) = length (sc_sts D) \<Longrightarrow> (\<And>s. s < length (sc_sts D) \<Longrightarrow> table_of s C = table_of s D) \<Longrightarrow>
    users C r = users D r"
  by (auto simp: users_def)

lemma pool_inv_cong:
  assumes "sc_free C = sc_free D" "sc_ref C = sc_ref D" "length (sc_sts C) = length (sc_sts D)"
    "\<And>s. s < length (sc_sts D) \<Longrightarrow> table_of s C = table_of s D"
  shows "pool_inv C = pool_inv D"
  using assms users_cong [OF assms(3,4)] by (simp add: pool_inv_def is_record_def)

text \<open>Replacing one table entry, with the reference counts and the free list adjusted by the caller.\<close>

lemma set_entry_simps [simp]:
  "sc_free (set_entry s g v C) = sc_free C" "sc_ref (set_entry s g v C) = sc_ref C"
  "length (sc_sts (set_entry s g v C)) = length (sc_sts C)"
  by (simp_all add: set_entry_def)

lemma table_set_entry:
  "s < length (sc_sts C) \<Longrightarrow> table_of t (set_entry s g v C) = (if t = s then (table_of s C)[g := v] else table_of t C)"
  by (simp add: table_of_def set_entry_def sc_upd_def nth_list_update)

lemma users_set_entry:
  assumes "s < length (sc_sts C)" "g < length (table_of s C)"
  shows "users (set_entry s g v C) r = (users C r - {(s, g)}) \<union> (if r = v then {(s, g)} else {})"
  using assms by (auto simp: users_def table_set_entry nth_list_update split: if_splits)

lemma is_record_simps [simp]:
  "is_record (set_entry s g v C) r = is_record C r" "is_record (set_ref q n C) r = is_record C r"
  "is_record (sc_upd s f C) r = is_record C r" "is_record (C\<lparr>sc_free := fr\<rparr>) r = is_record C r"
  by (simp_all add: is_record_def set_ref_def)

lemma set_ref_simps [simp]:
  "sc_free (set_ref q n C) = sc_free C" "sc_sts (set_ref q n C) = sc_sts C"
  "table_of s (set_ref q n C) = table_of s C" "users (set_ref q n C) r = users C r"
  "table_of s (C\<lparr>sc_free := fr\<rparr>) = table_of s C" "users (C\<lparr>sc_free := fr\<rparr>) r = users C r"
  by (simp_all add: set_ref_def table_of_def users_def)

lemma ref_set_ref:
  "is_record C r \<Longrightarrow> is_record C q \<Longrightarrow> sc_ref (set_ref q n C) ! nat r = (if r = q then n else sc_ref C ! nat r)"
  by (auto simp: set_ref_def is_record_def nth_list_update)

lemma entry_cases:
  assumes "pool_inv C" "s < length (sc_sts C)" "g < length (table_of s C)"
  shows "table_of s C ! g = -1 \<or> is_record C (table_of s C ! g) \<and> sc_ref C ! nat (table_of s C ! g) > 0"
proof -
  have u: "(s, g) \<in> users C (table_of s C ! g)" using assms(2,3) by (simp add: users_def)
  show ?thesis
  proof (cases "table_of s C ! g = -1")
    case False
    then have r: "is_record C (table_of s C ! g)" using assms(1) u by (auto simp: pool_inv_def)
    then have "sc_ref C ! nat (table_of s C ! g) = card (users C (table_of s C ! g))" using assms(1) by (simp add: pool_inv_def)
    moreover have "card (users C (table_of s C ! g)) > 0" using u by (metis card_gt_0_iff empty_iff finite_users)
    ultimately show ?thesis using r by simp
  qed simp
qed

lemma pool_inv_free: "pool_inv C \<Longrightarrow> q \<in> set (sc_free C) \<longleftrightarrow> is_record C q \<and> sc_ref C ! nat q = 0"
  by (simp add: pool_inv_def)

text \<open>The three ways an entry changes. Each keeps the counts because the set of users of every record
  changes with them.\<close>

lemma release_group_ok:
  assumes inv: "pool_inv C" and s: "s < length (sc_sts C)" and g: "g < length (table_of s C)"
  obtains C' where "release_group s g C = Some C'" "pool_inv C'" "sc_sts C' = sc_sts (set_entry s g (-1) C)"
    "length (sc_ref C') = length (sc_ref C)"
proof -
  define r where "r = table_of s C ! g"
  consider "r = -1" | "is_record C r" "sc_ref C ! nat r > 0" using entry_cases [OF inv s g] by (auto simp: r_def)
  then show thesis
  proof cases
    case 1
    then have "(table_of s C)[g := -1] = table_of s C" by (metis list_update_id r_def)
    then have "sc_sts (set_entry s g (-1) C) = sc_sts C" using s by (simp add: set_entry_def sc_upd_def table_of_def)
    with 1 that [of C] inv show thesis by (simp add: release_group_def r_def table_of_st)
  next
    case 2
    define C1 where "C1 = set_ref r (sc_ref C ! nat r - 1) C"
    define C2 where "C2 = (if sc_ref C1 ! nat r = 0 then C1\<lparr>sc_free := sc_free C1 @ [r]\<rparr> else C1)"
    define C' where "C' = set_entry s g (-1) C2"
    have "release_group s g C = Some C'"
      using 2 by (simp add: release_group_def r_def [symmetric] table_of_st [symmetric] C'_def C2_def C1_def is_record_def)
    moreover have sts: "sc_sts C2 = sc_sts C" by (simp add: C2_def C1_def)
    have len: "length (sc_ref C') = length (sc_ref C)" by (simp add: C'_def C2_def C1_def set_ref_def)
    have ref: "sc_ref C' ! nat q = (if q = r then sc_ref C ! nat r - 1 else sc_ref C ! nat q)" if "is_record C q" for q
    proof -
      have "sc_ref C2 = sc_ref C1" by (simp add: C2_def)
      then show ?thesis using ref_set_ref [OF that 2(1)] ref_set_ref [OF 2(1) 2(1)]
        by (simp add: C'_def) (simp add: C1_def)
    qed
    have rec: "is_record C' q = is_record C q" for q by (simp add: is_record_def len)
    have us: "users C' q = (users C q - {(s, g)}) \<union> (if q = -1 then {(s, g)} else {})" for q
      using users_set_entry [of s C2 g "-1" q] s g sts by (simp add: C'_def table_of_def users_def)
    have free: "set (sc_free C') = (if sc_ref C ! nat r = 1 then insert r (set (sc_free C)) else set (sc_free C))"
        "distinct (sc_free C')"
    proof -
      have r1: "sc_ref C1 ! nat r = sc_ref C ! nat r - 1" using ref_set_ref [OF 2(1) 2(1)] by (simp add: C1_def)
      have "sc_free C' = (if sc_ref C ! nat r = 1 then sc_free C @ [r] else sc_free C)"
        using 2(2) by (simp add: C'_def C2_def r1) (simp add: C1_def)
      then show "set (sc_free C') = (if sc_ref C ! nat r = 1 then insert r (set (sc_free C)) else set (sc_free C))"
        "distinct (sc_free C')" using inv 2(2) by (auto simp: pool_inv_def)
    qed
    have card: "card (users C q - {(s, g)}) = (if q = r then card (users C q) - 1 else card (users C q))" for q
      using s g by (auto simp: r_def users_def card_Diff_singleton_if)
    have neq: "q \<noteq> -1" if "is_record C q" for q using that by (auto simp: is_record_def)
    have cnt: "sc_ref C ! nat q = card (users C q)" if "is_record C q" for q using inv that by (simp add: pool_inv_def)
    have "pool_inv C'"
      unfolding pool_inv_def
    proof (intro conjI allI impI)
      show "distinct (sc_free C')" by (rule free)
      show "set (sc_free C') = {q. is_record C' q \<and> sc_ref C' ! nat q = 0}"
        using inv 2 ref unfolding free(1) rec by (auto simp: pool_inv_def split: if_splits)
      show "sc_ref C' ! nat q = card (users C' q)" if "is_record C' q" for q
        using that ref [of q] us [of q] card [of q] cnt [of q] neq [of q] cnt [OF 2(1)] by (simp add: rec)
      show "q = -1 \<or> is_record C' q" if "users C' q \<noteq> {}" for q
        using that inv us [of q] by (auto simp: rec pool_inv_def split: if_splits)
    qed
    moreover have "sc_sts C' = sc_sts (set_entry s g (-1) C)" using sts by (simp add: C'_def set_entry_def sc_upd_def)
    ultimately show thesis using that len by blast
  qed
qed

lemma record_neq: "is_record C q \<Longrightarrow> q \<noteq> -1" "is_record C q \<Longrightarrow> 0 \<le> q"
  by (auto simp: is_record_def)

text \<open>An entry that names nothing takes the record on top of the free list.\<close>

lemma alloc_group_ok:
  assumes inv: "pool_inv C" and s: "s < length (sc_sts C)" and g: "g < length (table_of s C)"
    and e: "table_of s C ! g < 0" and free: "sc_free C \<noteq> []"
  obtains C' where "alloc_group s g C = Some C'" "pool_inv C'" "sc_sts C' = sc_sts (set_entry s g (last (sc_free C)) C)"
    "length (sc_ref C') = length (sc_ref C)" "sc_free C' = butlast (sc_free C)"
    "is_record C (last (sc_free C))" "users C (last (sc_free C)) = {}"
proof -
  define r where "r = last (sc_free C)"
  have rf: "r \<in> set (sc_free C)" using free by (simp add: r_def)
  have rec: "is_record C r" "sc_ref C ! nat r = 0" using inv rf by (auto simp: pool_inv_def)
  then have none: "users C r = {}" using inv by (simp add: pool_inv_def)
  define C1 where "C1 = set_ref r 1 (C\<lparr>sc_free := butlast (sc_free C)\<rparr>)"
  define C' where "C' = set_entry s g r C1"
  have m: "table_of s C ! g = -1" using entry_cases [OF inv s g] e by (auto simp: is_record_def)
  have step: "alloc_group s g C = Some C'"
    using e free rec by (simp add: alloc_group_def r_def [symmetric] table_of_st [symmetric] C'_def C1_def is_record_def Let_def)
  have sts: "sc_sts C1 = sc_sts C" by (simp add: C1_def)
  have len: "length (sc_ref C') = length (sc_ref C)" by (simp add: C'_def C1_def set_ref_def)
  have ref: "sc_ref C' ! nat q = (if q = r then 1 else sc_ref C ! nat q)" if "is_record C q" for q
    using ref_set_ref [of "C\<lparr>sc_free := butlast (sc_free C)\<rparr>" q r 1] that rec(1) by (simp add: C'_def C1_def)
  have isr: "is_record C' q = is_record C q" for q by (simp add: is_record_def len)
  have us: "users C' q = (users C q - {(s, g)}) \<union> (if q = r then {(s, g)} else {})" for q
    using users_set_entry [of s C1 g r q] s g sts by (simp add: C'_def table_of_def users_def)
  have out: "(s, g) \<notin> users C q" if "is_record C q" for q using m record_neq that by (auto simp: users_def)
  have fr: "sc_free C' = butlast (sc_free C)" by (simp add: C'_def C1_def)
  have dist: "distinct (sc_free C)" "sc_free C = butlast (sc_free C) @ [r]"
    using inv free by (auto simp: pool_inv_def r_def)
  then have frs: "set (butlast (sc_free C)) = set (sc_free C) - {r}" "distinct (butlast (sc_free C))"
    by (metis Diff_insert_absorb distinct.simps(2) distinct1_rotate list.simps(15) rotate1.simps(2) set_rotate1, metis distinct_append)
  have "pool_inv C'"
    unfolding pool_inv_def
  proof (intro conjI allI impI)
    show "distinct (sc_free C')" using frs fr by simp
    show "set (sc_free C') = {q. is_record C' q \<and> sc_ref C' ! nat q = 0}"
      using ref rec unfolding fr frs(1) isr by (auto simp: pool_inv_free [OF inv] split: if_splits)
    show "sc_ref C' ! nat q = card (users C' q)" if "is_record C' q" for q
      using that ref [of q] us [of q] out [of q] none inv by (auto simp: isr pool_inv_def)
    show "q = -1 \<or> is_record C' q" if "users C' q \<noteq> {}" for q
      using that inv us [of q] rec(1) by (auto simp: isr pool_inv_def split: if_splits)
  qed
  moreover have "sc_sts C' = sc_sts (set_entry s g r C)" using sts by (simp add: C'_def set_entry_def sc_upd_def)
  ultimately show thesis using that [of C'] step len fr rec(1) none by (simp add: r_def)
qed

text \<open>An entry that names nothing takes a record another stream uses.\<close>

lemma share_entry_ok:
  assumes inv: "pool_inv C" and s: "s < length (sc_sts C)" and g: "g < length (table_of s C)"
    and e: "table_of s C ! g = -1" and r: "is_record C r" "sc_ref C ! nat r > 0"
  shows "pool_inv (set_ref r (sc_ref C ! nat r + 1) (set_entry s g r C))" (is "pool_inv ?C")
proof -
  have ref: "sc_ref ?C ! nat q = (if q = r then sc_ref C ! nat r + 1 else sc_ref C ! nat q)" if "is_record C q" for q
    using ref_set_ref [of "set_entry s g r C" q r] that r(1) by simp
  have isr: "is_record ?C q = is_record C q" for q by simp
  have us: "users ?C q = (users C q - {(s, g)}) \<union> (if q = r then {(s, g)} else {})" for q
    using users_set_entry [OF s g] by simp
  have out: "(s, g) \<notin> users C q" if "is_record C q" for q using e record_neq that by (auto simp: users_def)
  show ?thesis
    unfolding pool_inv_def
  proof (intro conjI allI impI)
    show "distinct (sc_free ?C)" using inv by (simp add: pool_inv_def)
    show "set (sc_free ?C) = {q. is_record ?C q \<and> sc_ref ?C ! nat q = 0}"
      using ref r unfolding isr set_ref_simps set_entry_simps by (auto simp: pool_inv_free [OF inv] split: if_splits)
    show "sc_ref ?C ! nat q = card (users ?C q)" if "is_record ?C q" for q
      using that ref [of q] us [of q] out [of q] inv by (auto simp: pool_inv_def card_insert_if)
    show "q = -1 \<or> is_record ?C q" if "users ?C q \<noteq> {}" for q
      using that inv us [of q] r(1) by (auto simp: pool_inv_def split: if_splits)
  qed
qed

subsection \<open>The loops over groups\<close>

text \<open>Two caches that differ in the tables only: what the loops below change in the bookkeeping of
  stream \<open>s\<close> is its table, and nothing in the other streams.\<close>

definition retabled :: "nat \<Rightarrow> sj_cache \<Rightarrow> sj_cache \<Rightarrow> bool" where
  "retabled s C C' \<longleftrightarrow> length (sc_sts C') = length (sc_sts C) \<and> length (sc_ref C') = length (sc_ref C) \<and>
     length (table_of s C') = length (table_of s C) \<and>
     (\<forall>t. t \<noteq> s \<longrightarrow> sc_sts C' ! t = sc_sts C ! t) \<and>
     (\<exists>tab. sc_sts C' ! s = (sc_sts C ! s)\<lparr>st_table := tab\<rparr>)"

lemma retabled_refl [simp]: "retabled s C C"
  unfolding retabled_def by (simp add: exI [of _ "st_table (sc_sts C ! s)"])

lemma retabled_entry:
  assumes "retabled s C C'" "s < length (sc_sts C)" "sc_sts C'' = sc_sts (set_entry s g v C')"
    "length (sc_ref C'') = length (sc_ref C')"
  shows "retabled s C C''"
  using assms by (auto simp: retabled_def set_entry_def sc_upd_def table_of_def nth_list_update)

lemma table_entry_upd:
  assumes "s < length (sc_sts C)" "sc_sts C'' = sc_sts (set_entry s g v C)"
  shows "table_of s C'' = (table_of s C)[g := v]"
  using assms by (simp add: set_entry_def sc_upd_def table_of_def)

text \<open>A record stands for one group index, whichever streams share it.\<close>

definition same_group :: "sj_cache \<Rightarrow> bool" where
  "same_group C \<longleftrightarrow> (\<forall>r s g s' g'. 0 \<le> r \<longrightarrow> (s, g) \<in> users C r \<longrightarrow> (s', g') \<in> users C r \<longrightarrow> g = g')"

lemma users_entry:
  assumes "sc_sts C' = sc_sts (set_entry s g v C)" "s < length (sc_sts C)" "g < length (table_of s C)"
  shows "users C' r = (users C r - {(s, g)}) \<union> (if r = v then {(s, g)} else {})"
proof -
  have "users C' r = users (set_entry s g v C) r" using assms(1) by (simp add: users_def table_of_def)
  then show ?thesis by (simp only: users_set_entry [OF assms(2,3)])
qed

lemma same_group_entry:
  assumes "same_group C" "sc_sts C' = sc_sts (set_entry s g v C)" "s < length (sc_sts C)" "g < length (table_of s C)"
    "v < 0 \<or> (\<forall>(t, h) \<in> users C v. h = g)"
  shows "same_group C'"
  unfolding same_group_def users_entry [OF assms(2-4)]
proof (intro allI impI)
  fix r t h t' h'
  assume r: "0 \<le> r" "(t, h) \<in> users C r - {(s, g)} \<union> (if r = v then {(s, g)} else {})"
    "(t', h') \<in> users C r - {(s, g)} \<union> (if r = v then {(s, g)} else {})"
  show "h = h'"
  proof (cases "r = v")
    case True
    then have v: "(a, b) \<in> users C r \<Longrightarrow> b = g" for a b using r(1) assms(5) by (metis case_prodD not_le)
    have "h = g" using r(2) v [of t h] by (auto split: if_splits)
    moreover have "h' = g" using r(3) v [of t' h'] by (auto split: if_splits)
    ultimately show ?thesis by simp
  next
    case False
    then have "(t, h) \<in> users C r" "(t', h') \<in> users C r" using r(2,3) by simp_all
    then show ?thesis using r(1) assms(1) unfolding same_group_def by blast
  qed
qed

lemma release_groups_ok:
  assumes inv: "pool_inv C" "same_group C" and s: "s < length (sc_sts C)"
  obtains C' where "release_groups s g0 C = Some C'" "pool_inv C'" "same_group C'" "retabled s C C'"
    "\<And>g. g < length (table_of s C) \<Longrightarrow> table_of s C' ! g = (if g0 \<le> g then -1 else table_of s C ! g)"
proof -
  let ?n = "length (table_of s C)"
  let ?P = "\<lambda>dn (D :: sj_cache). pool_inv D \<and> same_group D \<and> retabled s C D \<and>
    (\<forall>g < ?n. table_of s D ! g = (if g \<in> set dn then -1 else table_of s C ! g))"
  have "\<exists>D. for_each (release_group s) [g0..<?n] C = Some D \<and> ?P [g0..<?n] D"
  proof (rule for_each_total [where P = ?P])
    show "?P [] C" using inv by simp
  next
    fix dn g rest and D :: sj_cache
    assume e: "[g0..<?n] = dn @ g # rest" and P: "?P dn D"
    have "g \<in> set [g0..<?n]" by (simp only: e) simp
    then have g: "g < ?n" by simp
    have D: "s < length (sc_sts D)" "g < length (table_of s D)" using P s g by (simp_all add: retabled_def)
    obtain E where E: "release_group s g D = Some E" "pool_inv E" "sc_sts E = sc_sts (set_entry s g (-1) D)"
      "length (sc_ref E) = length (sc_ref D)" using release_group_ok [OF _ D] P by blast
    have "table_of s E = (table_of s D)[g := -1]" by (rule table_entry_upd [OF D(1) E(3)])
    then have "\<forall>h < ?n. table_of s E ! h = (if h \<in> set (dn @ [g]) then -1 else table_of s C ! h)"
      using P D(2) by (auto simp: nth_list_update_if)
    then show "\<exists>E. release_group s g D = Some E \<and> ?P (dn @ [g]) E"
      using E retabled_entry [OF _ s E(3,4)] same_group_entry [OF _ E(3) D] P by simp
  qed
  then show thesis using that by (auto simp: release_groups_def table_of_st)
qed

text \<open>Every record handed out was named by no table entry before.\<close>

lemma alloc_groups_ok:
  assumes inv: "pool_inv C" "same_group C" and s: "s < length (sc_sts C)" and le: "g1 \<le> length (table_of s C)"
    and fresh: "\<And>g. g0 \<le> g \<Longrightarrow> g < g1 \<Longrightarrow> table_of s C ! g < 0" and enough: "g1 - g0 \<le> length (sc_free C)"
  obtains C' where "alloc_groups s g0 g1 C = Some (C', True)" "pool_inv C'" "same_group C'" "retabled s C C'"
    "\<And>g. g < length (table_of s C) \<Longrightarrow> if g0 \<le> g \<and> g < g1
       then is_record C (table_of s C' ! g) \<and> users C (table_of s C' ! g) = {}
       else table_of s C' ! g = table_of s C ! g"
proof -
  let ?n = "length (table_of s C)"
  let ?P = "\<lambda>dn (D :: sj_cache). pool_inv D \<and> same_group D \<and> retabled s C D \<and> length (sc_free D) = length (sc_free C) - length dn \<and>
    set (sc_free D) \<subseteq> set (sc_free C) \<and> (\<forall>g < ?n. if g \<in> set dn then table_of s D ! g \<in> set (sc_free C)
       else table_of s D ! g = table_of s C ! g)"
  have "\<exists>D. for_each (alloc_group s) [g0..<g1] C = Some D \<and> ?P [g0..<g1] D"
  proof (rule for_each_total [where P = ?P])
    show "?P [] C" using inv by simp
  next
    fix dn g rest and D :: sj_cache
    assume e: "[g0..<g1] = dn @ g # rest" and P: "?P dn D"
    have "g \<in> set [g0..<g1]" by (simp only: e) simp
    then have g: "g0 \<le> g" "g < g1" "g < ?n" using le by auto
    have D: "s < length (sc_sts D)" "g < length (table_of s D)" using P s g by (simp_all add: retabled_def)
    have "distinct (dn @ g # rest)" unfolding e [symmetric] by simp
    then have "g \<notin> set dn" by simp
    then have "table_of s D ! g = table_of s C ! g" using P g(3) by meson
    then have neg: "table_of s D ! g < 0" using fresh [OF g(1,2)] by simp
    have "length [g0..<g1] = length dn + Suc (length rest)" unfolding e by simp
    then have "length (sc_free D) \<noteq> 0" using P enough by simp
    then have ne: "sc_free D \<noteq> []" by simp
    obtain E where E: "alloc_group s g D = Some E" "pool_inv E" "sc_sts E = sc_sts (set_entry s g (last (sc_free D)) D)"
      "length (sc_ref E) = length (sc_ref D)" "sc_free E = butlast (sc_free D)" "users D (last (sc_free D)) = {}"
      by (rule alloc_group_ok [OF conjunct1 [OF P] D neg ne])
    have t: "table_of s E = (table_of s D)[g := last (sc_free D)]" by (rule table_entry_upd [OF D(1) E(3)])
    have "last (sc_free D) \<in> set (sc_free C)" using P ne last_in_set by blast
    then have "\<forall>h < ?n. if h \<in> set (dn @ [g]) then table_of s E ! h \<in> set (sc_free C) else table_of s E ! h = table_of s C ! h"
      using P D(2) unfolding t by (auto simp: nth_list_update_if)
    moreover have "set (sc_free E) \<subseteq> set (sc_free C)" using P E(5) by (auto dest: in_set_butlastD)
    ultimately show "\<exists>E. alloc_group s g D = Some E \<and> ?P (dn @ [g]) E"
      using E retabled_entry [OF _ s E(3,4)] same_group_entry [OF _ E(3) D] P by (intro exI [of _ E]) simp
  qed
  then obtain D where D: "for_each (alloc_group s) [g0..<g1] C = Some D" "?P [g0..<g1] D" by blast
  have "length (filter (\<lambda>g. st_table (sc_st s C) ! g < 0) [g0..<g1]) \<le> length (sc_free C)"
    using enough length_filter_le [of _ "[g0..<g1]"] by (metis le_trans length_upt)
  then have "alloc_groups s g0 g1 C = Some (D, True)" using D(1) le by (simp add: alloc_groups_def table_of_st)
  moreover have "is_record C r \<and> users C r = {}" if "r \<in> set (sc_free C)" for r
    using inv that by (auto simp: pool_inv_def)
  ultimately show thesis using that D(2) by simp
qed

subsection \<open>The invariant of the whole cache\<close>

text \<open>A stream's table names records for sealed groups only, and with \<open>ex\<close> for each of them. Without
  \<open>ex\<close> the sealed end may lie above the groups that have a record: the full grid mode can raise it there
  (\<open>sj_raises\<close> below).\<close>

definition stream_ok :: "bool \<Rightarrow> sj_params \<Rightarrow> sj_kvarn_stream \<Rightarrow> bool" where
  "stream_ok ex P st \<longleftrightarrow> length (st_table st) = sj_n_groups_seq P \<and>
     (\<forall>g < sj_n_groups_seq P. st_table st ! g \<ge> 0 \<longrightarrow> g < sj_groups_of P (st_B st)) \<and>
     (ex \<longrightarrow> sj_groups_of P (st_B st) \<le> sj_n_groups_seq P \<and>
       (\<forall>g < sj_groups_of P (st_B st). st_table st ! g \<ge> 0)) \<and>
     st_B st \<le> st_B_pending st \<and>
     (st_B st < st_B_pending st \<longrightarrow> sj_groups_of P (st_B_pending st) \<le> sj_n_groups_seq P) \<and>
     sj_aligned P (st_B st) \<and> sj_aligned P (st_B_pending st)"

lemma stream_okI:
  assumes "length (st_table st) = sj_n_groups_seq P"
    "\<And>g. g < sj_n_groups_seq P \<Longrightarrow> st_table st ! g \<ge> 0 \<Longrightarrow> g < sj_groups_of P (st_B st)"
    "\<And>g. ex \<Longrightarrow> g < sj_groups_of P (st_B st) \<Longrightarrow> st_table st ! g \<ge> 0"
    "ex \<Longrightarrow> sj_groups_of P (st_B st) \<le> sj_n_groups_seq P" "st_B st \<le> st_B_pending st"
    "st_B st < st_B_pending st \<Longrightarrow> sj_groups_of P (st_B_pending st) \<le> sj_n_groups_seq P"
    "sj_aligned P (st_B st)" "sj_aligned P (st_B_pending st)"
  shows "stream_ok ex P st"
  using assms by (simp add: stream_ok_def)

definition cache_inv :: "bool \<Rightarrow> sj_params \<Rightarrow> sj_cache \<Rightarrow> bool" where
  "cache_inv ex P C \<longleftrightarrow> pool_inv C \<and> same_group C \<and> length (sc_sts C) \<le> 65535 \<and>
     length (sc_ref C) = sj_n_groups P \<and> (\<forall>s < length (sc_sts C). stream_ok ex P (sc_sts C ! s))"

lemma groups_of_mono: "a \<le> b \<Longrightarrow> sj_groups_of P a \<le> sj_groups_of P b"
  by (simp add: sj_groups_of_def div_le_mono)

lemma groups_of_sink [simp]: "sj_groups_of P (sj_sink P) = 0"
  by (simp add: sj_groups_of_def)

lemma inv_sc_upd:
  assumes "s < length (sc_sts C)" "st_table (f (sc_sts C ! s)) = st_table (sc_sts C ! s)"
  shows "pool_inv (sc_upd s f C) = pool_inv C" "same_group (sc_upd s f C) = same_group C"
proof -
  have t: "table_of t (sc_upd s f C) = table_of t C" for t
    using assms by (auto simp: table_of_def sc_upd_def nth_list_update)
  then show "pool_inv (sc_upd s f C) = pool_inv C" by (intro pool_inv_cong) simp_all
  have "users (sc_upd s f C) r = users C r" for r using t by (simp add: users_def)
  then show "same_group (sc_upd s f C) = same_group C" by (simp add: same_group_def)
qed

text \<open>How an operation on stream \<open>s\<close> is shown to keep the invariant: change the table by one of the
  loops, then the scalar fields.\<close>

lemma cache_invI:
  assumes "cache_inv ex P C" "s < length (sc_sts C)" "pool_inv D" "same_group D" "retabled s C D"
    "st_table (f (sc_sts D ! s)) = st_table (sc_sts D ! s)" "stream_ok ex P (f (sc_sts D ! s))"
  shows "cache_inv ex P (sc_upd s f D)"
  using assms inv_sc_upd [of s D f]
  by (auto simp: cache_inv_def retabled_def) (auto simp: sc_upd_def nth_list_update)

lemma stream_fields:
  assumes "retabled s C D" "s < length (sc_sts C)"
  shows "st_B (sc_sts D ! s) = st_B (sc_sts C ! s)" "st_B_pending (sc_sts D ! s) = st_B_pending (sc_sts C ! s)"
    "length (sc_sts D) = length (sc_sts C)" "length (table_of s D) = length (table_of s C)"
  using assms by (auto simp: retabled_def)

lemma cleared_stream_ok:
  assumes "cache_inv ex P C" "s < length (sc_sts C)" "retabled s C D"
    "\<And>g. g < length (table_of s C) \<Longrightarrow> table_of s D ! g = (if sj_groups_of P b \<le> g then -1 else table_of s C ! g)"
    "st_table (f (sc_sts D ! s)) = st_table (sc_sts D ! s)" "st_B (f (sc_sts D ! s)) = b"
    "st_B_pending (f (sc_sts D ! s)) = b" "sj_aligned P b" "ex \<longrightarrow> b \<le> st_B (sc_sts C ! s)"
  shows "stream_ok ex P (f (sc_sts D ! s))"
proof -
  have st: "stream_ok ex P (sc_sts C ! s)" using assms(1,2) by (simp add: cache_inv_def)
  have le: "ex \<longrightarrow> sj_groups_of P b \<le> sj_groups_of P (st_B (sc_sts C ! s))" using assms(9) groups_of_mono by blast
  have len: "length (st_table (f (sc_sts D ! s))) = sj_n_groups_seq P"
    using st assms(3,5) by (simp add: stream_ok_def retabled_def table_of_def)
  have tab: "st_table (f (sc_sts D ! s)) ! g = (if sj_groups_of P b \<le> g then -1 else st_table (sc_sts C ! s) ! g)"
    if "g < sj_n_groups_seq P" for g
    using st assms(4) [of g] that by (simp add: assms(5) table_of_def stream_ok_def)
  have "ex \<longrightarrow> sj_groups_of P b \<le> sj_n_groups_seq P" using st le by (auto simp: stream_ok_def)
  moreover have "st_table (f (sc_sts D ! s)) ! g \<ge> 0" if "ex" "g < sj_groups_of P b" for g
  proof -
    have g: "g < sj_n_groups_seq P" "g < sj_groups_of P (st_B (sc_sts C ! s))" using calculation le that by auto
    then have "st_table (sc_sts C ! s) ! g \<ge> 0" using st that(1) by (simp add: stream_ok_def)
    then show ?thesis using tab [OF g(1)] that(2) by simp
  qed
  ultimately show ?thesis using len tab assms(8) by (auto simp: stream_ok_def assms(6,7) not_le)
qed

lemma maintain_ok:
  assumes P: "sj_paged P" and inv: "cache_inv ex P C" and s: "s < length (sc_sts C)"
  obtains C' r where "maintain_stream P s ok C = Some (C', r)" "cache_inv ex P C'"
    "r \<Longrightarrow> st_B (sc_sts C' ! s) = st_B_pending (sc_sts C ! s)"
    "\<not> r \<Longrightarrow> st_B (sc_sts C' ! s) = st_B (sc_sts C ! s)"
    "\<forall>t. t \<noteq> s \<longrightarrow> sc_sts C' ! t = sc_sts C ! t"
    "\<forall>g < length (table_of s C). table_of s C' ! g = table_of s C ! g \<or>
       sj_groups_of P (st_B (sc_sts C ! s)) \<le> g \<and> users C (table_of s C' ! g) = {}"
    "r \<longleftrightarrow> st_B_pending (sc_sts C ! s) \<le> st_B (sc_sts C ! s) \<or> ok \<and>
       sj_groups_of P (st_B_pending (sc_sts C ! s)) - sj_groups_of P (st_B (sc_sts C ! s)) \<le> length (sc_free C)"
proof -
  define st where "st = sc_sts C ! s"
  define g0 where "g0 = sj_groups_of P (st_B st)"
  define g1 where "g1 = sj_groups_of P (st_B_pending st)"
  have pi: "pool_inv C" "same_group C" "stream_ok ex P st" using inv s by (simp_all add: cache_inv_def st_def)
  have sc: "sc_st s C = st" by (simp add: sc_st_def st_def)
  have n: "length (table_of s C) = sj_n_groups_seq P" using pi(3) by (simp add: stream_ok_def table_of_def st_def)
  have neg: "table_of s C ! g < 0" if "g0 \<le> g" "g < sj_n_groups_seq P" for g
    using pi(3) that by (auto simp: stream_ok_def table_of_def st_def g0_def not_le [symmetric])
  have neg1: "table_of s C ! g = -1" if "g0 \<le> g" "g < sj_n_groups_seq P" for g
    using entry_cases [OF pi(1) s, of g] neg [OF that] that n by (auto simp: is_record_def)
  have g1: "g1 \<le> sj_n_groups_seq P" if "st_B st < st_B_pending st" using pi(3) that by (simp add: stream_ok_def g1_def)
  have g0: "sj_groups_of P (st_B (sc_sts C ! s)) \<le> sj_n_groups_seq P" if "st_B st < st_B_pending st"
    using g1 [OF that] groups_of_mono [of "st_B st" "st_B_pending st" P] that by (simp add: g1_def st_def)
  have m: "maintain_stream P s ok C = (if st_B_pending st \<le> st_B st then Some (C, True) else do {
       (C, got) \<leftarrow> alloc_groups s g0 g1 C;
       if \<not> got then Some (sc_upd s (sj_publish False) C, False)
       else if \<not> ok then do {
         C \<leftarrow> release_groups s g0 (sc_upd s (sj_publish False) C);
         Some (C, False) }
       else Some (sc_upd s (sj_publish True) C, True) })"
    unfolding maintain_stream_def sc Let_def g0_def g1_def using P by (simp cong: if_cong)
  note facts = st_def g0_def g1_def
  consider (idle) "st_B_pending st \<le> st_B st" | (full) "st_B st < st_B_pending st" "g1 - g0 > length (sc_free C)"
    | (alloc) "st_B st < st_B_pending st" "g1 - g0 \<le> length (sc_free C)" by linarith
  then show thesis
  proof cases
    case idle
    then have "st_B_pending st = st_B st" using pi(3) by (simp add: stream_ok_def)
    with idle m inv show thesis by (intro that [of C True]) (simp_all add: facts)
  next
    case full
    have "filter (\<lambda>g. table_of s C ! g < 0) [g0..<g1] = [g0..<g1]" using neg g1 [OF full(1)] by (simp add: filter_id_conv)
    then have "alloc_groups s g0 g1 C = Some (C, False)"
      using full(2) g1 [OF full(1)] n by (simp add: alloc_groups_def table_of_st [symmetric])
    then have "maintain_stream P s ok C = Some (sc_upd s (sj_publish False) C, False)" using m full(1) by simp
    moreover have "cache_inv ex P (sc_upd s (sj_publish False) C)"
      using pi(3) full(1) g0 by (intro cache_invI [OF inv s pi(1,2) retabled_refl])
        (auto simp: st_def stream_ok_def sj_publish_def)
    ultimately show thesis using full s
      by (intro that [of "sc_upd s (sj_publish False) C" False]) (auto simp: facts sj_publish_def sc_upd_def nth_list_update table_of_def)
  next
    case alloc
    note g1 = g1 [OF alloc(1)] and g0 = g0 [OF alloc(1)]
    obtain D where D: "alloc_groups s g0 g1 C = Some (D, True)" "pool_inv D" "same_group D" "retabled s C D"
      "\<And>g. g < length (table_of s C) \<Longrightarrow> if g0 \<le> g \<and> g < g1
       then is_record C (table_of s D ! g) \<and> users C (table_of s D ! g) = {} else table_of s D ! g = table_of s C ! g"
      by (rule alloc_groups_ok [OF pi(1,2) s, of g1 g0]) (use n g1 neg alloc(2) in auto)
    note F = stream_fields [OF D(4) s]
    show thesis
    proof (cases ok)
      case True
      have "st_B (sc_sts D ! s) = st_B st" "st_B_pending (sc_sts D ! s) = st_B_pending st" using F by (simp_all add: st_def)
      have le: "g0 \<le> g1" using alloc(1) groups_of_mono by (simp add: facts)
      have pub: "st_B (sj_publish True (sc_sts D ! s)) = st_B_pending st" "st_B_pending (sj_publish True (sc_sts D ! s)) = st_B_pending st"
        "st_table (sj_publish True (sc_sts D ! s)) = table_of s D"
        using F alloc(1) by (simp_all add: sj_publish_def st_def table_of_def)
      have up: "g < g1" if "g < sj_n_groups_seq P" "table_of s D ! g \<ge> 0" for g
        using D(5) [of g] neg [of g] that n by (cases "g0 \<le> g") (auto simp: le [THEN [2] less_le_trans] not_le split: if_splits)
      have down: "table_of s D ! g \<ge> 0" if "ex" "g < g1" for g
      proof (cases "g0 \<le> g")
        case True
        then show ?thesis using D(5) [of g] that(2) n g1 by (simp add: is_record_def)
      next
        case False
        then have "st_table st ! g \<ge> 0" using pi(3) that(1) by (simp add: stream_ok_def g0_def)
        then show ?thesis using D(5) [of g] that(2) n g1 False by (simp add: table_of_def st_def)
      qed
      have "stream_ok ex P (sj_publish True (sc_sts D ! s))"
        using pi(3) by (intro stream_okI) (use F n g1 up down in \<open>simp_all add: pub g1_def stream_ok_def\<close>)
      then have "cache_inv ex P (sc_upd s (sj_publish True) D)"
        by (intro cache_invI [OF inv s D(2-4)]) (simp_all add: sj_publish_def)
      moreover have "maintain_stream P s ok C = Some (sc_upd s (sj_publish True) D, True)" using m alloc(1) True D(1) by simp
      moreover have "st_B (sc_sts (sc_upd s (sj_publish True) D) ! s) = st_B_pending st"
        "table_of s (sc_upd s (sj_publish True) D) = table_of s D"
        using F s alloc(1) by (simp_all add: sc_upd_def sj_publish_def table_of_def st_def)
      moreover have "\<forall>t. t \<noteq> s \<longrightarrow> sc_sts (sc_upd s (sj_publish True) D) ! t = sc_sts C ! t"
        using D(4) by (simp add: sc_upd_def retabled_def)
      moreover have "table_of s D ! g = table_of s C ! g \<or> g0 \<le> g \<and> users C (table_of s D ! g) = {}"
        if "g < length (table_of s C)" for g using D(5) [OF that] by (auto split: if_splits)
      ultimately show thesis using alloc True
        by (intro that [of "sc_upd s (sj_publish True) D" True]) (simp_all add: facts)
    next
      case False
      let ?D = "sc_upd s (sj_publish False) D"
      have sD: "s < length (sc_sts ?D)" "pool_inv ?D" "same_group ?D"
        using D(2,3) F s inv_sc_upd [of s D "sj_publish False"] by (simp_all add: sj_publish_def)
      obtain E where E: "release_groups s g0 ?D = Some E" "pool_inv E" "same_group E" "retabled s ?D E"
        "\<And>g. g < length (table_of s ?D) \<Longrightarrow> table_of s E ! g = (if g0 \<le> g then -1 else table_of s ?D ! g)"
        by (rule release_groups_ok [OF sD(2,3,1), where ?g0.0 = g0]) blast
      have Ds: "sc_sts ?D ! s = sj_publish False (sc_sts D ! s)" "\<And>t. t \<noteq> s \<Longrightarrow> sc_sts ?D ! t = sc_sts C ! t"
        "table_of s ?D = table_of s D" "length (sc_sts ?D) = length (sc_sts C)"
        using F s D(4) by (simp_all add: sc_upd_def table_of_def sj_publish_def retabled_def)
      have pub: "st_B (sc_sts E ! s) = st_B st" "st_B_pending (sc_sts E ! s) = st_B st"
        using stream_fields(1,2) [OF E(4) sD(1)] Ds(1) F alloc(1) by (simp_all add: sj_publish_def st_def)
      have tab: "table_of s E ! g = table_of s C ! g" if "g < sj_n_groups_seq P" for g
        using E(5) [of g] D(5) [of g] neg1 [of g] that n F(4) Ds(3) by (auto split: if_splits)
      have len: "length (table_of s E) = sj_n_groups_seq P" using stream_fields(4) [OF E(4) sD(1)] Ds(3) F(4) n by simp
      have "stream_ok ex P (sc_sts E ! s)"
        using pi(3) pub tab len g0 by (auto simp: stream_ok_def table_of_def st_def)
      moreover have others: "sc_sts E ! t = sc_sts C ! t" if "t \<noteq> s" for t using E(4) Ds(2) that by (simp add: retabled_def)
      moreover have "length (sc_sts E) = length (sc_sts C)" "length (sc_ref E) = length (sc_ref C)"
        using E(4) D(4) Ds(4) by (simp_all add: retabled_def)
      ultimately have "cache_inv ex P E" using E(2,3) inv unfolding cache_inv_def by metis
      moreover have "maintain_stream P s ok C = Some (E, False)" using m alloc(1) D(1) E(1) False by simp
      ultimately show thesis using pub others tab n False alloc(1)
        by (intro that [of E False]) (simp_all add: st_def)
    qed
  qed
qed

lemma clear_step_ok:
  assumes inv: "cache_inv ex P C" and s: "s < length (sc_sts C)"
    and f: "\<And>st. st_table (f st) = st_table st" "\<And>st. st_B (f st) = b" "\<And>st. st_B_pending (f st) = b"
    and b: "sj_aligned P b" "ex \<longrightarrow> b \<le> st_B (sc_sts C ! s)"
  obtains C' where "release_groups s (sj_groups_of P b) C = Some C'" "cache_inv ex P (sc_upd s f C')"
    "length (sc_sts C') = length (sc_sts C)" "\<forall>t. t \<noteq> s \<longrightarrow> sc_sts C' ! t = sc_sts C ! t"
proof -
  have pi: "pool_inv C" "same_group C" "stream_ok ex P (sc_sts C ! s)" using inv s by (simp_all add: cache_inv_def)
  obtain D where D: "release_groups s (sj_groups_of P b) C = Some D" "pool_inv D" "same_group D" "retabled s C D"
    "\<And>g. g < length (table_of s C) \<Longrightarrow> table_of s D ! g = (if sj_groups_of P b \<le> g then -1 else table_of s C ! g)"
    by (rule release_groups_ok [OF pi(1,2) s, where ?g0.0 = "sj_groups_of P b"]) blast
  have "stream_ok ex P (f (sc_sts D ! s))"
    by (rule cleared_stream_ok [OF inv s D(4), where b = b]) (simp_all add: D(5) f b)
  then have "cache_inv ex P (sc_upd s f D)" by (intro cache_invI [OF inv s D(2-4)]) (simp_all add: f)
  then show thesis using that D(1,4) by (auto simp: retabled_def)
qed

lemma truncate_body_ok:
  assumes P: "sj_paged P" "sj_wf P kv" and inv: "cache_inv ex P C" and s: "s < length (sc_sts C)"
    and p0: "p0 < st_B (sc_sts C ! s) \<or> sj_grid P \<noteq> 0" "ex \<longrightarrow> \<not> sj_raises P p0 (sc_sts C ! s)"
  obtains C' r where "truncate_body P s p0 C = Some (C', r)" "cache_inv ex P C'" "length (sc_sts C') = length (sc_sts C)"
proof -
  have al: "sj_aligned P (st_B (sc_sts C ! s))" using inv s by (simp add: cache_inv_def stream_ok_def)
  obtain t where t: "sj_truncate_target P (sc_sts C ! s) p0 = Some t" using truncate_target_some [OF P(2)] p0(1) by blast
  show thesis
  proof (cases t)
    case None
    with t that [of C False] inv show thesis by (simp add: truncate_body_def sc_st_def)
  next
    case (Some b)
    have le: "ex \<longrightarrow> b \<le> st_B (sc_sts C ! s)" using t Some p0(2) by (auto simp: sj_raises_def)
    have ab: "sj_aligned P b" using truncate_target_aligned [OF P(2) _ al] t Some by simp
    obtain D where "release_groups s (sj_groups_of P b) C = Some D" "cache_inv ex P (sc_upd s (sj_truncate_st b p0) D)"
      "length (sc_sts D) = length (sc_sts C)"
      by (rule clear_step_ok [OF inv s, of "sj_truncate_st b p0" b]) (use le ab in \<open>simp_all add: sj_truncate_st_def\<close>)
    then show thesis using t Some P(1) that by (simp add: truncate_body_def sc_st_def)
  qed
qed

lemma reset_stream_ok:
  assumes P: "sj_paged P" and inv: "cache_inv ex P C" and s: "s < length (sc_sts C)"
  obtains C' where "reset_stream P s C = Some C'" "cache_inv ex P C'" "length (sc_sts C') = length (sc_sts C)"
    "st_B (sc_sts C' ! s) = sj_sink P" "\<forall>t. t \<noteq> s \<longrightarrow> sc_sts C' ! t = sc_sts C ! t"
proof -
  have st: "stream_ok ex P (sc_sts C ! s)" using inv s by (simp add: cache_inv_def)
  have sink: "sj_sink P \<le> st_B (sc_sts C ! s)" using st by (simp add: stream_ok_def sj_aligned_def)
  have same: "sc_upd s (\<lambda>st. if st_table st = [] then st\<lparr>st_table := replicate (sj_n_groups_seq P) (-1)\<rparr> else st) C = C"
  proof -
    have "st_table (sc_sts C ! s) = [] \<Longrightarrow> (sc_sts C ! s)\<lparr>st_table := replicate (sj_n_groups_seq P) (-1)\<rparr> = sc_sts C ! s"
      using st by (simp add: stream_ok_def)
    then show ?thesis by (simp add: sc_upd_def)
  qed
  obtain D where D: "release_groups s (sj_groups_of P (sj_sink P)) C = Some D" "cache_inv ex P (sc_upd s (sj_reset_st P) D)"
    "length (sc_sts D) = length (sc_sts C)" "\<forall>t. t \<noteq> s \<longrightarrow> sc_sts D ! t = sc_sts C ! t"
    by (rule clear_step_ok [OF inv s, of "sj_reset_st P" "sj_sink P"]) (use sink in \<open>simp_all add: sj_reset_st_def\<close>)
  then have "reset_stream P s C = Some (sc_upd s (sj_reset_st P) D)" using P same by (simp add: reset_stream_def)
  with D s show thesis by (intro that [of "sc_upd s (sj_reset_st P) D"]) (simp_all add: sc_upd_def sj_reset_st_def)
qed

text \<open>Sharing: the destination's table, empty after its reset, takes the source's records one by one.\<close>

lemma share_loop_ok:
  assumes inv: "pool_inv C" "same_group C" and n: "length (sc_sts C) \<le> 65535"
    and s: "s0 < length (sc_sts C)" "s1 < length (sc_sts C)" "s0 \<noteq> s1"
    and src: "\<And>g. g < k \<Longrightarrow> g < length (table_of s0 C) \<and> g < length (table_of s1 C) \<and> table_of s0 C ! g \<ge> 0 \<and> table_of s1 C ! g = -1"
  obtains D where "for_each (share_group s0 s1) [0..<k] C = Some D" "pool_inv D" "same_group D" "retabled s1 C D"
    "\<And>g. g < length (table_of s1 C) \<Longrightarrow> table_of s1 D ! g = (if g < k then table_of s0 C ! g else table_of s1 C ! g)"
proof -
  let ?P = "\<lambda>dn (D :: sj_cache). pool_inv D \<and> same_group D \<and> retabled s1 C D \<and>
    (\<forall>g < length (table_of s1 C). table_of s1 D ! g = (if g < length dn then table_of s0 C ! g else table_of s1 C ! g))"
  have "\<exists>D. for_each (share_group s0 s1) [0..<k] C = Some D \<and> ?P [0..<k] D"
  proof (rule for_each_total [where P = ?P])
    show "?P [] C" using inv by simp
  next
    fix dn g rest and D :: sj_cache
    assume e: "[0..<k] = dn @ g # rest" and P: "?P dn D"
    note gg = upt_eq_splitD(1,2) [OF e]
    have len: "length (sc_sts D) = length (sc_sts C)" using P by (simp add: retabled_def)
    have t0: "table_of s0 D = table_of s0 C" using P s(3) by (simp add: retabled_def table_of_def)
    define r where "r = table_of s0 C ! g"
    have D: "s1 < length (sc_sts D)" "g < length (table_of s1 D)" "s0 < length (sc_sts D)" "g < length (table_of s0 D)"
      using P s src [OF gg(2)] len t0 by (simp_all add: retabled_def)
    have old: "table_of s1 D ! g = -1" using P gg src [OF gg(2)] by simp
    have rec: "is_record D r" "sc_ref D ! nat r > 0"
      using entry_cases [OF conjunct1 [OF P] D(3,4)] src [OF gg(2)] t0 by (auto simp: r_def)
    have u0: "(s0, g) \<in> users D r" using D(3,4) t0 by (simp add: users_def r_def)
    have cnt: "sc_ref D ! nat r < 65535"
    proof -
      have no: "(s1, h) \<notin> users D r" for h
      proof
        assume h: "(s1, h) \<in> users D r"
        then have "h = g" using P u0 rec(1) unfolding same_group_def is_record_def by blast
        then show False using h old rec(1) by (simp add: users_def is_record_def)
      qed
      have "inj_on fst (users D r)" using P rec(1) by (auto simp: same_group_def inj_on_def is_record_def)
      then have "card (users D r) = card (fst ` users D r)" by (simp add: card_image)
      also have "fst ` users D r \<subseteq> {..<length (sc_sts D)} - {s1}"
      proof
        fix x assume "x \<in> fst ` users D r"
        then obtain h where h: "(x, h) \<in> users D r" by auto
        then have "x \<noteq> s1" using no by blast
        with h show "x \<in> {..<length (sc_sts D)} - {s1}" by (simp add: users_def)
      qed
      then have "card (fst ` users D r) \<le> card ({..<length (sc_sts D)} - {s1})" by (intro card_mono) auto
      finally have "card (users D r) \<le> length (sc_sts D) - 1" using D(1) by simp
      then show ?thesis using P rec n len D(1) by (simp add: pool_inv_def)
    qed
    define E where "E = set_ref r (sc_ref D ! nat r + 1) (set_entry s1 g r D)"
    have "share_group s0 s1 g D = Some E"
      using rec cnt t0 by (simp add: share_group_def table_of_st [symmetric] r_def [symmetric] E_def is_record_def)
    moreover have "pool_inv E" unfolding E_def using share_entry_ok [OF _ D(1,2) old rec] P by simp
    moreover have sts: "sc_sts E = sc_sts (set_entry s1 g r D)" by (simp add: E_def)
    moreover have "same_group E"
      by (rule same_group_entry [OF _ sts D(1,2)]) (use P u0 rec(1) in \<open>auto simp: same_group_def is_record_def\<close>)
    moreover have "retabled s1 C E" by (rule retabled_entry [OF _ s(2) sts]) (use P in \<open>auto simp: E_def set_ref_def\<close>)
    moreover have "table_of s1 E = (table_of s1 D)[g := r]" by (rule table_entry_upd [OF D(1) sts])
    then have "\<forall>h < length (table_of s1 C). table_of s1 E ! h =
        (if h < length (dn @ [g]) then table_of s0 C ! h else table_of s1 C ! h)"
      using P D(2) gg(1) by (auto simp: nth_list_update_if r_def less_Suc_eq)
    ultimately show "\<exists>E. share_group s0 s1 g D = Some E \<and> ?P (dn @ [g]) E" by blast
  qed
  then show thesis using that by auto
qed

lemma share_stream_ok:
  assumes P: "sj_paged P" and inv: "cache_inv True P C" and s: "s0 < length (sc_sts C)" "s1 < length (sc_sts C)" "s0 \<noteq> s1"
    and pend: "st_B_pending (sc_sts C ! s0) = st_B (sc_sts C ! s0)"
  obtains C' where "share_stream P s0 s1 C = Some C'" "cache_inv True P C'" "length (sc_sts C') = length (sc_sts C)"
    "st_B (sc_sts C' ! s1) = st_B (sc_sts C ! s0)"
    "\<forall>g < sj_groups_of P (st_B (sc_sts C ! s0)). table_of s1 C' ! g = table_of s0 C ! g"
    "\<forall>t. t \<noteq> s1 \<longrightarrow> sc_sts C' ! t = sc_sts C ! t"
proof -
  define src where "src = sc_sts C ! s0"
  obtain R where R: "reset_stream P s1 C = Some R" "cache_inv True P R" "length (sc_sts R) = length (sc_sts C)"
    "st_B (sc_sts R ! s1) = sj_sink P" "\<forall>t. t \<noteq> s1 \<longrightarrow> sc_sts R ! t = sc_sts C ! t"
    by (rule reset_stream_ok [OF P inv s(2)])
  define f where "f = (\<lambda>dst :: sj_kvarn_stream. dst\<lparr>st_B := st_B src, st_B_prev := st_B_prev src, st_B_pending := st_B_pending src,
       st_N := st_N src, st_draining := st_draining src, st_ring_lo := st_ring_lo src\<rparr>)"
  define U where "U = sc_upd s1 f R"
  have sR: "s0 < length (sc_sts R)" "s1 < length (sc_sts R)" using s R(3) by simp_all
  have src_ok: "stream_ok True P src" "sc_sts R ! s0 = src" using inv s R(5) by (simp_all add: cache_inv_def src_def)
  have dst_ok: "stream_ok True P (sc_sts R ! s1)" "pool_inv R" "same_group R" "length (sc_sts R) \<le> 65535"
    using R(2) sR by (simp_all add: cache_inv_def)
  have U: "pool_inv U" "same_group U" "length (sc_sts U) = length (sc_sts C)" "table_of s0 U = st_table src"
    "table_of s1 U = st_table (sc_sts R ! s1)" "sc_sts U ! s1 = f (sc_sts R ! s1)" "\<And>t. t \<noteq> s1 \<Longrightarrow> sc_sts U ! t = sc_sts C ! t"
    using inv_sc_upd [of s1 R f] sR dst_ok R(3,5) s(3) src_ok(2)
    by (simp_all add: U_def f_def sc_upd_def table_of_def)
  define k where "k = sj_groups_of P (st_B src)"
  have k: "k \<le> sj_n_groups_seq P"
    using src_ok(1) by (simp add: stream_ok_def k_def)
  have lens: "length (st_table src) = sj_n_groups_seq P" "length (st_table (sc_sts R ! s1)) = sj_n_groups_seq P"
    using src_ok(1) dst_ok(1) by (simp_all add: stream_ok_def)
  have empty: "st_table (sc_sts R ! s1) ! g = -1" if "g < sj_n_groups_seq P" for g
  proof -
    have "st_table (sc_sts R ! s1) ! g < 0" using dst_ok(1) R(4) that by (auto simp: stream_ok_def not_le [symmetric])
    then show ?thesis using entry_cases [OF dst_ok(2) sR(2), of g] that lens(2) by (auto simp: table_of_def is_record_def)
  qed
  have sharable: "g < length (table_of s0 U) \<and> g < length (table_of s1 U) \<and> table_of s0 U ! g \<ge> 0 \<and> table_of s1 U ! g = -1"
    if "g < k" for g
    using that k src_ok(1) lens empty U(4,5) by (simp add: stream_ok_def k_def)
  obtain D where D: "for_each (share_group s0 s1) [0..<k] U = Some D" "pool_inv D" "same_group D" "retabled s1 U D"
    "\<And>g. g < length (table_of s1 U) \<Longrightarrow> table_of s1 D ! g = (if g < k then table_of s0 U ! g else table_of s1 U ! g)"
    by (rule share_loop_ok [OF U(1,2) _ _ _ s(3) sharable]) (use s U(3) dst_ok(4) R(3) in auto)
  have "share_stream P s0 s1 C = Some D"
    using pend R(1) D(1) P src_ok(2) unfolding share_stream_def sc_st_def
    by (simp add: Let_def k_def U_def f_def src_def)
  moreover have "stream_ok True P (sc_sts D ! s1)"
  proof -
    obtain tab where tab: "sc_sts D ! s1 = (sc_sts U ! s1)\<lparr>st_table := tab\<rparr>" using D(4) by (auto simp: retabled_def)
    have "length tab = sj_n_groups_seq P" using D(4) tab lens U(5) by (simp add: retabled_def table_of_def)
    moreover have "tab ! g \<ge> 0 \<longleftrightarrow> g < k" if "g < sj_n_groups_seq P" for g
      using D(5) [of g] tab that U(4,5) lens empty sharable [of g] by (auto simp: table_of_def split: if_splits)
    ultimately show ?thesis using src_ok(1) tab U(6) by (auto simp: stream_ok_def f_def k_def)
  qed
  moreover have o: "sc_sts D ! t = sc_sts C ! t" if "t \<noteq> s1" for t using D(4) U(7) that by (simp add: retabled_def)
  moreover have "length (sc_sts D) = length (sc_sts C)" "length (sc_ref D) = length (sc_ref C)"
    using D(4) U(3) R(2) inv by (simp_all add: retabled_def U_def cache_inv_def)
  ultimately have "cache_inv True P D" using D(2,3) inv unfolding cache_inv_def by metis
  moreover have "st_B (sc_sts D ! s1) = st_B src" using D(4) U(6) by (auto simp: retabled_def f_def)
  moreover have "table_of s1 D ! g = table_of s0 C ! g" if "g < k" for g
    using D(5) [of g] that k lens U(4,5) by (simp add: table_of_def src_def)
  ultimately show thesis using that [of D] \<open>share_stream P s0 s1 C = Some D\<close> \<open>length (sc_sts D) = length (sc_sts C)\<close> o
    by (simp add: src_def k_def)
qed

subsection \<open>Histories\<close>

text \<open>The start: the constructor resets every stream, then fills the free list so that record 0 is
  handed out first.\<close>

definition sc_init :: "sj_params \<Rightarrow> nat \<Rightarrow> sj_cache option" where
  "sc_init P n_stream = do {
     let st = \<lparr>st_B = 0, st_B_pending = 0, st_draining = False, st_B_prev = 0, st_N = 0, st_ring_lo = 0,
               st_exact_at = -1, st_table = []\<rparr>;
     C \<leftarrow> for_each (reset_stream P) [0..<n_stream] \<lparr>sc_sts = replicate n_stream st, sc_free = [], sc_ref = []\<rparr>;
     Some (if sj_paged P then C\<lparr>sc_ref := replicate (sj_n_groups P) 0,
       sc_free := map (\<lambda>r. int (sj_n_groups P - 1 - r)) [0..<sj_n_groups P]\<rparr> else C) }"

datatype pool_op =
    Pool_propose nat sj_kvarn_stream
  | Pool_maintain nat bool
  | Pool_truncate nat nat
  | Pool_reset nat
  | Pool_share nat nat

fun pool_step :: "sj_params \<Rightarrow> pool_op \<Rightarrow> sj_cache \<Rightarrow> sj_cache option" where
  "pool_step P (Pool_propose s new) C = Some (sc_upd s (\<lambda>st. new\<lparr>st_B := st_B st, st_table := st_table st\<rparr>) C)"
| "pool_step P (Pool_maintain s ok) C = map_option fst (maintain_stream P s ok C)"
| "pool_step P (Pool_truncate s p0) C = map_option fst (truncate_body P s p0 C)"
| "pool_step P (Pool_reset s) C = reset_stream P s C"
| "pool_step P (Pool_share s0 s1) C = share_stream P s0 s1 C"

text \<open>What \<open>apply_ubatch\<close> does to a stream between two pool operations is a proposal: it may set every field
  but the sealed end and the table (\<open>propose_of_apply\<close>).

  The callers truncate below the sealed end, or with a grid anywhere (\<open>seq_rm\<close> in the full grid mode and
  \<open>prefill_cut\<close>). \<open>prefill_cut\<close> checks that the target lies below the sealed end; \<open>seq_rm\<close> does not, and
  then a group cut above the sealed end raises it to groups without a record (\<open>sj_raises\<close>). With \<open>ex\<close> the
  histories without such a cut count; without it all of them, but \<open>seq_cp\<close> is left out, whose loop asserts
  that every group of the source has a record.\<close>

fun pool_pre :: "bool \<Rightarrow> sj_params \<Rightarrow> sj_cache \<Rightarrow> pool_op \<Rightarrow> bool" where
  "pool_pre ex P C (Pool_propose s new) = (s < length (sc_sts C) \<and> st_B (sc_sts C ! s) \<le> st_B_pending new \<and>
     sj_aligned P (st_B_pending new) \<and>
     (st_B (sc_sts C ! s) < st_B_pending new \<longrightarrow> sj_groups_of P (st_B_pending new) \<le> sj_n_groups_seq P))"
| "pool_pre ex P C (Pool_maintain s ok) = (s < length (sc_sts C))"
| "pool_pre ex P C (Pool_truncate s p0) = (s < length (sc_sts C) \<and>
     (p0 < st_B (sc_sts C ! s) \<or> sj_grid P \<noteq> 0) \<and> (ex \<longrightarrow> \<not> sj_raises P p0 (sc_sts C ! s)))"
| "pool_pre ex P C (Pool_reset s) = (s < length (sc_sts C))"
| "pool_pre ex P C (Pool_share s0 s1) = (ex \<and> s0 < length (sc_sts C) \<and> s1 < length (sc_sts C) \<and> s0 \<noteq> s1 \<and>
     st_B_pending (sc_sts C ! s0) = st_B (sc_sts C ! s0))"

lemma propose_of_apply:
  assumes "sj_apply P idxs N (sc_sts C ! s) = Some st'" "s < length (sc_sts C)" "sj_aligned P (st_B (sc_sts C ! s))"
  shows "pool_pre ex P C (Pool_propose s st')"
    "pool_step P (Pool_propose s st') C = Some (sc_upd s (\<lambda>_. st') C)"
proof -
  define st where "st = sc_sts C ! s"
  define q where "q = sj_propose P (idxs ! 0) (length idxs) st"
  have st': "st_B_pending st' = st_B_pending q" "st_B st' = st_B st" "st_table st' = st_table st"
    "sj_groups_of P (st_B_pending q) \<le> sj_n_groups_seq P"
    using assms(1) by (auto simp: sj_apply_def q_def st_def Let_def sj_groups_of_def split: if_splits bind_splits)
  have al: "sj_aligned P (st_B st)" using assms(3) by (simp add: st_def)
  have chunk: "sj_aligned P (st_B st + sj_group P * k)" for k
  proof -
    have e: "st_B st + sj_group P * k - sj_sink P = (st_B st - sj_sink P) + sj_group P * k" using al by (simp add: sj_aligned_def)
    show ?thesis using al unfolding sj_aligned_def e by (intro conjI dvd_add trans_le_add1) (blast, blast, rule dvd_triv_left)
  qed
  have "st_B st \<le> st_B_pending q \<and> sj_aligned P (st_B_pending q)"
    unfolding q_def by (rule propose_cases [OF refl, of P "idxs ! 0" "length idxs" st])
      (use al chunk in \<open>auto simp: sj_aligned_def max_def\<close>)
  then show "pool_pre ex P C (Pool_propose s st')" using assms(2) st' by (simp add: st_def)
  have "st'\<lparr>st_B := st_B st, st_table := st_table st\<rparr> = st'" using st'(2,3) by (cases st') simp
  then show "pool_step P (Pool_propose s st') C = Some (sc_upd s (\<lambda>_. st') C)" by (simp add: sc_upd_def st_def)
qed

fun pool_history_ok :: "bool \<Rightarrow> sj_params \<Rightarrow> pool_op list \<Rightarrow> sj_cache \<Rightarrow> bool" where
  "pool_history_ok ex P [] C = True"
| "pool_history_ok ex P (op # ops) C = (pool_pre ex P C op \<and>
     (case pool_step P op C of None \<Rightarrow> True | Some C' \<Rightarrow> pool_history_ok ex P ops C'))"

lemma pool_step_ok:
  assumes P: "sj_paged P" "sj_wf P kv" and inv: "cache_inv ex P C" and pre: "pool_pre ex P C op"
  obtains C' where "pool_step P op C = Some C'" "cache_inv ex P C'"
proof (cases op)
  case (Pool_propose s new)
  then have s: "s < length (sc_sts C)" using pre by simp
  have pi: "pool_inv C" "same_group C" "stream_ok ex P (sc_sts C ! s)" using inv s by (simp_all add: cache_inv_def)
  have "cache_inv ex P (sc_upd s (\<lambda>st. new\<lparr>st_B := st_B st, st_table := st_table st\<rparr>) C)"
    using pi(3) pre Pool_propose by (intro cache_invI [OF inv s pi(1,2) retabled_refl]) (auto simp: stream_ok_def)
  with Pool_propose that show thesis by simp
next
  case (Pool_maintain s ok)
  obtain C' r where "maintain_stream P s ok C = Some (C', r)" "cache_inv ex P C'"
    by (rule maintain_ok [OF P(1) inv, of s ok]) (use pre Pool_maintain in auto)
  with Pool_maintain that show thesis by simp
next
  case (Pool_truncate s p0)
  obtain C' r where "truncate_body P s p0 C = Some (C', r)" "cache_inv ex P C'"
    by (rule truncate_body_ok [OF P inv, of s p0]) (use pre Pool_truncate in auto)
  with Pool_truncate that show thesis by simp
next
  case (Pool_reset s)
  obtain C' where "reset_stream P s C = Some C'" "cache_inv ex P C'"
    by (rule reset_stream_ok [OF P(1) inv, of s]) (use pre Pool_reset in auto)
  with Pool_reset that show thesis by simp
next
  case (Pool_share s0 s1)
  have ex: "ex = True" using pre Pool_share by simp
  obtain C' where "share_stream P s0 s1 C = Some C'" "cache_inv True P C'"
    by (rule share_stream_ok [OF P(1) inv [unfolded ex], of s0 s1]) (use pre Pool_share in auto)
  with Pool_share that ex show thesis by simp
qed

lemma pool_history:
  "cache_inv ex P C \<Longrightarrow> sj_paged P \<Longrightarrow> sj_wf P kv \<Longrightarrow> pool_history_ok ex P ops C \<Longrightarrow>
    \<exists>C'. for_each (pool_step P) ops C = Some C' \<and> cache_inv ex P C'"
proof (induction ops arbitrary: C)
  case (Cons op ops)
  obtain D where D: "pool_step P op C = Some D" "cache_inv ex P D"
    by (rule pool_step_ok [OF Cons.prems(2,3,1), of op]) (use Cons.prems(4) in auto)
  then show ?case using Cons.IH [OF D(2)] Cons.prems by auto
qed simp

text \<open>The initial cache.\<close>

definition st_fresh :: "sj_params \<Rightarrow> sj_kvarn_stream" where
  "st_fresh P = \<lparr>st_B = sj_sink P, st_B_pending = sj_sink P, st_draining = False, st_B_prev = sj_sink P, st_N = 0,
     st_ring_lo = 0, st_exact_at = -1, st_table = replicate (sj_n_groups_seq P) (-1)\<rparr>"

lemma reset_is_fresh: "sj_reset_st P (st\<lparr>st_table := replicate (sj_n_groups_seq P) (-1)\<rparr>) = st_fresh P"
  by (cases st) (simp add: sj_reset_st_def st_fresh_def)

lemma reset_fresh:
  assumes P: "sj_paged P" and s: "s < length (sc_sts C)" and e: "st_table (sc_sts C ! s) = []"
  shows "reset_stream P s C = Some (C\<lparr>sc_sts := (sc_sts C)[s := st_fresh P]\<rparr>)"
proof -
  define C1 where "C1 = sc_upd s (\<lambda>st. if st_table st = [] then st\<lparr>st_table := replicate (sj_n_groups_seq P) (-1)\<rparr> else st) C"
  have t: "st_table (sc_st s C1) = replicate (sj_n_groups_seq P) (-1)" using s e by (simp add: C1_def sc_st_def sc_upd_def)
  have "release_groups s 0 C1 = Some C1"
    unfolding release_groups_def by (rule for_each_id) (simp add: release_group_def t)
  then have "reset_stream P s C = Some (sc_upd s (sj_reset_st P) C1)" using P by (simp add: reset_stream_def C1_def)
  moreover have "sc_upd s (sj_reset_st P) C1 = C\<lparr>sc_sts := (sc_sts C)[s := st_fresh P]\<rparr>"
    using s e by (simp add: C1_def sc_upd_def reset_is_fresh)
  ultimately show ?thesis by simp
qed

lemma sc_init_eq:
  assumes "sj_paged P"
  shows "sc_init P n = Some \<lparr>sc_sts = replicate n (st_fresh P),
    sc_free = map (\<lambda>r. int (sj_n_groups P - 1 - r)) [0..<sj_n_groups P], sc_ref = replicate (sj_n_groups P) 0\<rparr>"
proof -
  let ?st = "\<lparr>st_B = 0, st_B_pending = 0, st_draining = False, st_B_prev = 0, st_N = 0, st_ring_lo = 0,
               st_exact_at = -1, st_table = []\<rparr>"
  let ?C = "\<lparr>sc_sts = replicate n ?st, sc_free = [], sc_ref = []\<rparr>"
  let ?P = "\<lambda>dn (D :: sj_cache). D = ?C\<lparr>sc_sts := sc_sts D\<rparr> \<and> length (sc_sts D) = n \<and>
    (\<forall>t < n. sc_sts D ! t = (if t < length dn then st_fresh P else ?st))"
  have "\<exists>D. for_each (reset_stream P) [0..<n] ?C = Some D \<and> ?P [0..<n] D"
  proof (rule for_each_total [where P = ?P])
    show "?P [] ?C" by simp
  next
    fix dn s rest and D :: sj_cache
    assume e: "[0..<n] = dn @ s # rest" and D: "?P dn D"
    note s = upt_eq_splitD(1,2) [OF e]
    have "st_table (sc_sts D ! s) = []" using D s by simp
    then have r: "reset_stream P s D = Some (D\<lparr>sc_sts := (sc_sts D)[s := st_fresh P]\<rparr>)"
      using reset_fresh [OF assms, of s D] D s by simp
    have "D\<lparr>sc_sts := xs\<rparr> = ?C\<lparr>sc_sts := xs\<rparr>" for xs using D by (metis sj_cache.select_convs(2,3) sj_cache.surjective sj_cache.update_convs(1))
    then show "\<exists>E. reset_stream P s D = Some E \<and> ?P (dn @ [s]) E"
      using r D s by (simp add: nth_list_update less_Suc_eq) 
  qed
  then obtain D where D: "for_each (reset_stream P) [0..<n] ?C = Some D" "?P [0..<n] D" by blast
  then have "sc_sts D = replicate n (st_fresh P)" by (auto intro!: nth_equalityI)
  with D assms show ?thesis by (simp add: sc_init_def)
qed

lemma init_cache_inv:
  assumes P: "sj_paged P" and n: "n \<le> 65535"
  obtains C where "sc_init P n = Some C" "cache_inv ex P C" "length (sc_sts C) = n"
proof -
  let ?C = "\<lparr>sc_sts = replicate n (st_fresh P),
    sc_free = map (\<lambda>r. int (sj_n_groups P - 1 - r)) [0..<sj_n_groups P], sc_ref = replicate (sj_n_groups P) 0\<rparr>"
  have u: "users ?C r = {}" if "r \<noteq> -1" for r using that by (auto simp: users_def table_of_def st_fresh_def)
  have "distinct (sc_free ?C)" by (auto simp: distinct_map inj_on_def)
  moreover have "set (sc_free ?C) = {r. is_record ?C r \<and> sc_ref ?C ! nat r = 0}"
  proof -
    have "r \<in> set (sc_free ?C)" if "is_record ?C r" for r
      using that by (auto simp: is_record_def image_iff intro!: bexI [of _ "sj_n_groups P - 1 - nat r"])
    then show ?thesis by (auto simp: is_record_def)
  qed
  ultimately have "pool_inv ?C" using u by (auto simp: pool_inv_def is_record_def)
  moreover have "same_group ?C" using u by (auto simp: same_group_def)
  moreover have "stream_ok ex P (st_fresh P)" by (simp add: stream_ok_def st_fresh_def)
  ultimately have "cache_inv ex P ?C" using n by (simp add: cache_inv_def)
  with sc_init_eq [OF P, of n] that show thesis by simp
qed

subsection \<open>How many records are in use\<close>

lemma records_eq: "{r. is_record C r} = int ` {..<length (sc_ref C)}"
  by (auto simp: is_record_def image_iff intro!: bexI [of _ "nat _"])

lemma used_bound:
  assumes "cache_inv ex P C"
  shows "card {r. is_record C r \<and> users C r \<noteq> {}} \<le> (\<Sum>s < length (sc_sts C). min (sj_groups_of P (st_B (sc_sts C ! s))) (sj_n_groups_seq P))"
proof -
  have st: "stream_ok ex P (sc_sts C ! s)" if "s < length (sc_sts C)" for s using assms that by (simp add: cache_inv_def)
  have "{r. is_record C r \<and> users C r \<noteq> {}} \<subseteq>
      (\<Union>s < length (sc_sts C). (\<lambda>g. table_of s C ! g) ` {..<min (sj_groups_of P (st_B (sc_sts C ! s))) (sj_n_groups_seq P)})"
  proof
    fix r assume "r \<in> {r. is_record C r \<and> users C r \<noteq> {}}"
    then obtain s g where u: "s < length (sc_sts C)" "g < length (table_of s C)" "table_of s C ! g = r" "0 \<le> r"
      by (auto simp: users_def is_record_def)
    then have "g < min (sj_groups_of P (st_B (sc_sts C ! s))) (sj_n_groups_seq P)" using st [OF u(1)] by (auto simp: stream_ok_def table_of_def)
    with u show "r \<in> (\<Union>s < length (sc_sts C). (\<lambda>g. table_of s C ! g) ` {..<min (sj_groups_of P (st_B (sc_sts C ! s))) (sj_n_groups_seq P)})" by blast
  qed
  then have "card {r. is_record C r \<and> users C r \<noteq> {}} \<le>
      card (\<Union>s < length (sc_sts C). (\<lambda>g. table_of s C ! g) ` {..<min (sj_groups_of P (st_B (sc_sts C ! s))) (sj_n_groups_seq P)})"
    by (rule card_mono [rotated]) auto
  also have "\<dots> \<le> (\<Sum>s < length (sc_sts C). card ((\<lambda>g. table_of s C ! g) ` {..<min (sj_groups_of P (st_B (sc_sts C ! s))) (sj_n_groups_seq P)}))"
    by (rule card_UN_le) auto
  also have "\<dots> \<le> (\<Sum>s < length (sc_sts C). min (sj_groups_of P (st_B (sc_sts C ! s))) (sj_n_groups_seq P))"
    by (rule sum_mono) (metis card_image_le card_lessThan finite_lessThan)
  finally show ?thesis .
qed

lemma free_count:
  assumes "pool_inv C"
  shows "length (sc_free C) + card {r. is_record C r \<and> users C r \<noteq> {}} = length (sc_ref C)"
proof -
  have ref: "sc_ref C ! nat r = 0 \<longleftrightarrow> users C r = {}" if "is_record C r" for r using assms that by (simp add: pool_inv_def)
  have fin: "finite {r. is_record C r}" by (simp add: records_eq)
  have "distinct (sc_free C)" using assms by (simp add: pool_inv_def)
  then have "length (sc_free C) = card (set (sc_free C))" by (simp only: distinct_card)
  also have "set (sc_free C) = {r. is_record C r} - {r. is_record C r \<and> users C r \<noteq> {}}"
    using pool_inv_free [OF assms] ref by auto
  also have "card \<dots> = card {r. is_record C r} - card {r. is_record C r \<and> users C r \<noteq> {}}"
    by (rule card_Diff_subset) (auto intro: finite_subset [OF _ fin])
  also have "card {r. is_record C r} = length (sc_ref C)" by (simp add: records_eq card_image)
  moreover have "card {r. is_record C r \<and> users C r \<noteq> {}} \<le> card {r. is_record C r}"
    by (rule card_mono [OF fin]) auto
  ultimately show ?thesis by (simp add: records_eq card_image)
qed

text \<open>Pools sized for every stream at full length have a record for every group a seal can ask for.\<close>

lemma full_pool_enough:
  assumes inv: "cache_inv ex P C" and n: "sj_n_groups P = length (sc_sts C) * sj_n_groups_seq P" and s: "s < length (sc_sts C)"
  shows "sj_groups_of P (st_B_pending (sc_sts C ! s)) - sj_groups_of P (st_B (sc_sts C ! s)) \<le> length (sc_free C)"
proof (cases "st_B (sc_sts C ! s) < st_B_pending (sc_sts C ! s)")
  case False
  have "stream_ok ex P (sc_sts C ! s)" using inv s by (simp add: cache_inv_def)
  then show ?thesis using False groups_of_mono [of "st_B_pending (sc_sts C ! s)" "st_B (sc_sts C ! s)" P] by simp
next
  case True
  let ?u = "\<lambda>t. min (sj_groups_of P (st_B (sc_sts C ! t))) (sj_n_groups_seq P)"
  have st: "stream_ok ex P (sc_sts C ! s)" using inv s by (simp add: cache_inv_def)
  have "(\<Sum>t < length (sc_sts C). ?u t) = ?u s + (\<Sum>t \<in> {..<length (sc_sts C)} - {s}. ?u t)"
    using s by (simp add: sum.remove)
  also have "\<dots> \<le> ?u s + (\<Sum>t \<in> {..<length (sc_sts C)} - {s}. sj_n_groups_seq P)"
    by (intro add_left_mono sum_mono) simp
  also have "\<dots> = ?u s + (length (sc_sts C) - 1) * sj_n_groups_seq P" using s by simp
  finally have "length (sc_ref C) \<le> length (sc_free C) + ?u s + (length (sc_sts C) - 1) * sj_n_groups_seq P"
    using used_bound [OF inv] free_count [of C] inv by (simp add: cache_inv_def)
  moreover have "length (sc_ref C) = sj_n_groups_seq P + (length (sc_sts C) - 1) * sj_n_groups_seq P"
    using inv n s by (cases "length (sc_sts C)") (simp_all add: cache_inv_def)
  ultimately have "sj_n_groups_seq P \<le> length (sc_free C) + ?u s" by simp
  moreover have "?u s \<le> sj_groups_of P (st_B (sc_sts C ! s))" by (rule min.cobounded1)
  moreover have "sj_groups_of P (st_B_pending (sc_sts C ! s)) \<le> sj_n_groups_seq P" using st True by (simp add: stream_ok_def)
  ultimately show ?thesis by linarith
qed

subsection \<open>Properties\<close>

text \<open>C17. The pool keeps its accounts. From the cache the constructor builds, any history of ubatches, seals
  (that succeed or fail), truncations at any cell the callers may pass, resets and stream copies runs
  without a failing assertion and ends in a state where the reference count of every record is the
  number of table entries naming it, the free list holds each unnamed record once, and every stream's
  table names records for sealed groups only, and for each of them. Two things are excluded together:
  with \<open>ex\<close> the truncations that raise the sealed end (possible in the full grid mode only, see
  \<open>sj_kvarn_split_grid_stale\<close>), without it the stream copies and the last words of the claim.\<close>

theorem sj_pool_accounts:
  assumes "sj_paged P" "sj_wf P kv" "n_stream \<le> 65535" "sc_init P n_stream = Some C0" "pool_history_ok ex P ops C0"
  shows "\<exists>C. for_each (pool_step P) ops C0 = Some C \<and>
    (\<forall>r. is_record C r \<longrightarrow> sc_ref C ! nat r = card (users C r)) \<and>
    distinct (sc_free C) \<and> set (sc_free C) = {r. is_record C r \<and> users C r = {}} \<and>
    (\<forall>s < length (sc_sts C). \<forall>g < sj_n_groups_seq P.
       (table_of s C ! g \<ge> 0 \<longrightarrow> g < sj_groups_of P (st_B (sc_sts C ! s))) \<and>
       (ex \<and> g < sj_groups_of P (st_B (sc_sts C ! s)) \<longrightarrow> table_of s C ! g \<ge> 0))"
proof -
  have "cache_inv ex P C0" using init_cache_inv [OF assms(1,3), of ex] assms(4) by auto
  then obtain C where C: "for_each (pool_step P) ops C0 = Some C" "cache_inv ex P C"
    using pool_history [OF _ assms(1,2,5)] by blast
  then have inv: "pool_inv C" and st: "\<And>s. s < length (sc_sts C) \<Longrightarrow> stream_ok ex P (sc_sts C ! s)"
    by (simp_all add: cache_inv_def)
  have "sc_ref C ! nat r = 0 \<longleftrightarrow> users C r = {}" if "is_record C r" for r using inv that by (simp add: pool_inv_def)
  then have "set (sc_free C) = {r. is_record C r \<and> users C r = {}}" using inv by (auto simp: pool_inv_def)
  moreover have "table_of s C ! g \<ge> 0 \<longrightarrow> g < sj_groups_of P (st_B (sc_sts C ! s))"
    "ex \<and> g < sj_groups_of P (st_B (sc_sts C ! s)) \<longrightarrow> table_of s C ! g \<ge> 0"
    if "s < length (sc_sts C)" "g < sj_n_groups_seq P" for s g
    using st [OF that(1)] that(2) by (simp_all add: stream_ok_def table_of_def)
  ultimately show ?thesis using C(1) inv by (simp add: pool_inv_def)
qed

definition sj_demo2 :: sj_params where
  "sj_demo2 = the (sj_setup 64 128 256 512 0 0 2 False 4096 2 True False)"

lemma sj_demo2_eq: "sj_demo2 = \<lparr>sj_sink = 64, sj_group = 128, sj_tail = 256, sj_n_ubatch = 512, sj_tail_max = 0,
    sj_flush_chunk = 0, sj_cap = 1408, sj_grid = 512, sj_split_grid = 0, sj_n_groups_seq = 29, sj_n_groups_seal = 5,
    sj_n_groups = 29, sj_paged = True\<rparr>"
  by (simp add: sj_demo2_def sj_setup_def sj_ring_rows_def Let_def GGML_PAD_def)

lemma sj_demo2_ok: "sj_paged sj_demo2" "sj_wf sj_demo2 4096"
  by (simp_all add: sj_demo2_eq sj_wf_def)

definition sj_prop320 :: sj_kvarn_stream where
  "sj_prop320 = \<lparr>st_B = 0, st_B_pending = 320, st_draining = False, st_B_prev = 64, st_N = 800, st_ring_lo = 0,
     st_exact_at = -1, st_table = []\<rparr>"

theorem sj_pool_accounts_witness:
  "\<exists>C0 C. sc_init sj_demo2 2 = Some C0 \<and>
     for_each (pool_step sj_demo2) [Pool_propose 0 sj_prop320, Pool_maintain 0 True] C0 = Some C \<and> distinct (sc_free C)"
proof -
  obtain C0 where C0: "sc_init sj_demo2 2 = Some C0" "cache_inv True sj_demo2 C0" "length (sc_sts C0) = 2"
    by (rule init_cache_inv [OF sj_demo2_ok(1), of 2]) auto
  have B: "st_B (sc_sts C0 ! 0) = 64"
    using C0(1) by (auto simp: sc_init_eq [OF sj_demo2_ok(1)] st_fresh_def) (simp add: sj_demo2_eq)
  then have "pool_history_ok True sj_demo2 [Pool_propose 0 sj_prop320, Pool_maintain 0 True] C0"
    using C0(3) by (auto simp: sj_aligned_def sj_groups_of_def sj_demo2_eq sj_prop320_def split: option.splits)
  from sj_pool_accounts [OF sj_demo2_ok _ C0(1) this] C0(1) show ?thesis by auto
qed

text \<open>C23. A seal touches no record in use, and with a full-length pool it always finds one. After any
  history, the maintenance of one stream leaves every other stream and every sealed group of its own as
  they were, and writes only records that no table named, so a prompt shared by \<open>seq_cp\<close> cannot be
  corrupted by a sibling; and when the pool is sized per stream it is refused only if a seal graph
  fails.\<close>

theorem sj_pool_seal_isolated:
  assumes "sj_paged P" "sj_wf P kv" "n_stream \<le> 65535" "sc_init P n_stream = Some C0" "pool_history_ok ex P ops C0"
    and "for_each (pool_step P) ops C0 = Some C" "s < length (sc_sts C)"
  shows "\<exists>C' r. maintain_stream P s ok C = Some (C', r) \<and>
    (\<forall>t. t \<noteq> s \<longrightarrow> sc_sts C' ! t = sc_sts C ! t) \<and>
    (\<forall>g < length (table_of s C). table_of s C' ! g = table_of s C ! g \<or>
       sj_groups_of P (st_B (sc_sts C ! s)) \<le> g \<and> users C (table_of s C' ! g) = {}) \<and>
    (sj_n_groups P = length (sc_sts C) * sj_n_groups_seq P \<longrightarrow> ok \<longrightarrow>
       r \<and> st_B (sc_sts C' ! s) = st_B_pending (sc_sts C ! s))"
proof -
  have "cache_inv ex P C0" using init_cache_inv [OF assms(1,3), of ex] assms(4) by auto
  then have inv: "cache_inv ex P C" using pool_history [OF _ assms(1,2,5)] assms(6) by auto
  obtain C' r where m: "maintain_stream P s ok C = Some (C', r)"
    "r \<Longrightarrow> st_B (sc_sts C' ! s) = st_B_pending (sc_sts C ! s)"
    "\<forall>t. t \<noteq> s \<longrightarrow> sc_sts C' ! t = sc_sts C ! t"
    "\<forall>g < length (table_of s C). table_of s C' ! g = table_of s C ! g \<or>
       sj_groups_of P (st_B (sc_sts C ! s)) \<le> g \<and> users C (table_of s C' ! g) = {}"
    "r \<longleftrightarrow> st_B_pending (sc_sts C ! s) \<le> st_B (sc_sts C ! s) \<or> ok \<and>
       sj_groups_of P (st_B_pending (sc_sts C ! s)) - sj_groups_of P (st_B (sc_sts C ! s)) \<le> length (sc_free C)"
    by (rule maintain_ok [OF assms(1) inv assms(7), of ok]) (rule that)
  have "sj_n_groups P = length (sc_sts C) * sj_n_groups_seq P \<longrightarrow> ok \<longrightarrow> r"
    using full_pool_enough [OF inv _ assms(7)] m(5) by blast
  with m show ?thesis by blast
qed

theorem sj_pool_seal_isolated_witness:
  "\<exists>C0 C C' r. sc_init sj_demo2 2 = Some C0 \<and> for_each (pool_step sj_demo2) [Pool_propose 0 sj_prop320] C0 = Some C \<and>
     maintain_stream sj_demo2 0 True C = Some (C', r) \<and> sc_sts C' ! 1 = sc_sts C ! 1"
proof -
  obtain C0 where C0: "sc_init sj_demo2 2 = Some C0" "cache_inv True sj_demo2 C0" "length (sc_sts C0) = 2"
    by (rule init_cache_inv [OF sj_demo2_ok(1), of 2]) auto
  define C where "C = sc_upd 0 (\<lambda>st. sj_prop320\<lparr>st_B := st_B st, st_table := st_table st\<rparr>) C0"
  have B: "st_B (sc_sts C0 ! 0) = 64"
    using C0(1) by (auto simp: sc_init_eq [OF sj_demo2_ok(1)] st_fresh_def) (simp add: sj_demo2_eq)
  then have h: "pool_history_ok True sj_demo2 [Pool_propose 0 sj_prop320] C0"
    using C0(3) by (auto simp: sj_aligned_def sj_groups_of_def sj_demo2_eq sj_prop320_def)
  have C: "for_each (pool_step sj_demo2) [Pool_propose 0 sj_prop320] C0 = Some C" "0 < length (sc_sts C)"
    using C0(3) by (simp_all add: C_def)
  have "(2 :: nat) \<le> 65535" by simp
  from sj_pool_seal_isolated [OF sj_demo2_ok this C0(1) h C, of True]
  obtain C' r where "maintain_stream sj_demo2 0 True C = Some (C', r)" "\<forall>t. t \<noteq> 0 \<longrightarrow> sc_sts C' ! t = sc_sts C ! t"
    by (elim exE conjE) (rule that)
  moreover from this(2) have "sc_sts C' ! 1 = sc_sts C ! 1" by (rule allE [of _ 1]) simp
  ultimately show ?thesis using C0(1) C(1) by blast
qed

end
