(* ===== verification/Batch.thy ===== *)
theory Batch
  imports Prelude
begin

section \<open>Batches and ubatches (src/llama-batch.h, src/llama-batch.cpp)\<close>

text \<open>
  A batch is the input of one decode call; the allocator cuts it into ubatches. An array that may be a
  null pointer is an \<open>option\<close>; the rows of embedding floats carry no control flow and are left out, except
  that whether there are any (\<open>is_mixed\<close>, \<open>type\<close>) is kept. Positions are section-major:
  \<open>pos[j * n_tokens + i]\<close>.
\<close>

subsection \<open>Data\<close>

record llama_ubatch =
  ub_b_equal_seqs :: bool
  ub_n_tokens :: nat
  ub_n_seq_tokens :: nat
  ub_n_seqs :: nat
  ub_n_seqs_unq :: nat
  ub_n_pos :: nat
  ub_token :: "int list option"
  ub_pos :: "int list"
  ub_seq_id :: "int list list"
  ub_seq_id_unq :: "int list"
  ub_seq_idx :: "int list"
  ub_output :: "bool list"
  ub_type :: "bool list option"
  ub_decision_order :: "int list option"
  ub_batch_idxs :: "nat list"

definition is_pos_2d :: "llama_ubatch \<Rightarrow> bool" where
  "is_pos_2d ub = (ub_n_pos ub \<ge> 3)"

definition is_mixed :: "llama_ubatch \<Rightarrow> bool" where
  "is_mixed ub = (ub_type ub \<noteq> None)"

text \<open>Row \<open>i\<close> carries an embedding: \<open>!ubatch.token || (ubatch.is_mixed() && ubatch.type[i])\<close>.\<close>

definition is_embd_row :: "llama_ubatch \<Rightarrow> nat \<Rightarrow> bool" where
  "is_embd_row ub i = (ub_token ub = None \<or> (case ub_type ub of None \<Rightarrow> False | Some ty \<Rightarrow> ty ! i))"

end
