(* ===== verification/Kv_Cache.thy ===== *)
theory Kv_Cache
  imports Kv_Cells Sj_Pool Batch
begin

section \<open>The KV cache (src/llama-kv-cache.cpp)\<close>

text \<open>
  \<open>llama_kv_cache\<close>: the streams of cells, one search head per stream, the SJ-KVaRN bookkeeping, and the
  sequence operations, the slot search, the placement of a ubatch and the dry run over a list of
  ubatches. A configuration record holds what the constructor fixes. \<open>None\<close> is a failing assertion (or
  a thrown exception), or a search that does not return.

  The graph building, the tensor copies and the scratch loan of unused cache bytes are outside the
  model; the limits the loan puts on the slot search are part of the configuration.
\<close>

subsection \<open>Configuration and state\<close>

datatype llama_swa_type =
    LLAMA_SWA_TYPE_NONE
  | LLAMA_SWA_TYPE_STANDARD
  | LLAMA_SWA_TYPE_CHUNKED
  | LLAMA_SWA_TYPE_SYMMETRIC

record kv_cfg =
  cf_seq_to_stream :: "nat list"
  cf_n_stream :: nat
  cf_n_swa :: nat
  cf_swa_type :: llama_swa_type
  cf_n_swa_sink :: nat
  cf_other :: bool
  cf_streaming :: bool
  cf_bookkeep :: bool
  cf_sj :: "sj_params option"
  cf_n_pos_per_embd :: nat
  cf_ple_n_heads :: nat
  cf_ple_image_token_id :: int
  cf_ple_eos_token_id :: int
  cf_limits :: "nat list"

record kv_cache =
  kv_cells :: "kv_cells list"
  kv_heads :: "nat list"
  kv_sj :: sj_cache
  kv_copies :: "(nat \<times> nat) list"

record slot_info =
  si_s0 :: nat
  si_s1 :: nat
  si_strm :: "nat list"
  si_idxs :: "nat list list"

definition si_size :: "slot_info \<Rightarrow> nat" where
  "si_size si = length (si_idxs si ! 0)"

definition si_n_stream :: "slot_info \<Rightarrow> nat" where
  "si_n_stream si = length (si_strm si)"

text \<open>The empty result \<open>{ }\<close> of a failed search.\<close>

definition si_none :: slot_info where
  "si_none = \<lparr>si_s0 = 0, si_s1 = 0, si_strm = [], si_idxs = []\<rparr>"

definition si_empty :: "slot_info \<Rightarrow> bool" where
  "si_empty si = (si_idxs si = [])"

text \<open>\<open>std::numeric_limits<llama_pos>::max()\<close>.\<close>

definition POS_MAX :: int where
  "POS_MAX = 2 ^ 31 - 1"

definition norm_p0 :: "int \<Rightarrow> int" where
  "norm_p0 p0 = (if p0 < 0 then 0 else p0)"

definition norm_p1 :: "int \<Rightarrow> int" where
  "norm_p1 p1 = (if p1 < 0 then POS_MAX else p1)"

definition stream_of :: "kv_cfg \<Rightarrow> int \<Rightarrow> nat option" where
  "stream_of cf s = do {
     assert_that (s \<ge> 0 \<and> nat s < length (cf_seq_to_stream cf));
     Some (cf_seq_to_stream cf ! nat s) }"

definition kv_put :: "nat \<Rightarrow> kv_cells \<Rightarrow> nat \<Rightarrow> kv_cache \<Rightarrow> kv_cache" where
  "kv_put st c head kv = kv\<lparr>kv_cells := (kv_cells kv)[st := c], kv_heads := (kv_heads kv)[st := head]\<rparr>"

subsection \<open>Cells and positions of an SJ-KVaRN stream\<close>

text \<open>The binary search of \<open>sj_kvarn_cell_of\<close>.\<close>

function cell_search :: "kv_cells \<Rightarrow> int \<Rightarrow> nat \<Rightarrow> nat \<Rightarrow> nat option" where
  "cell_search c p lo hi = (if lo < hi then
     let mid = lo + (hi - lo) div 2 in
     (case cells_pos_get mid c of None \<Rightarrow> None
      | Some q \<Rightarrow> if q < p then cell_search c p (mid + 1) hi else cell_search c p lo mid)
     else Some lo)"
  by auto
termination by (relation "measure (\<lambda>(c, p, lo, hi). hi - lo)") auto

declare cell_search.simps [simp del]

definition cell_of :: "kv_cells \<Rightarrow> int \<Rightarrow> nat option" where
  "cell_of c p = (if p \<le> 0 then Some 0 else cell_search c p 0 (cells_used_max_p1 c))"

definition pos_of :: "kv_cells \<Rightarrow> nat \<Rightarrow> int option" where
  "pos_of c i = (let n = cells_used_max_p1 c in
     if i < n then cells_pos_get i c
     else do {
       base \<leftarrow> (if n > 0 then map_option (\<lambda>q. q + 1) (cells_pos_get (n - 1) c) else Some 0);
       Some (base + int (i - n)) })"

subsection \<open>Sweeps over the cells of a stream\<close>

text \<open>The loop all sequence operations share: the body edits cell \<open>i\<close> and says whether the cell was
  freed; the first freed cell becomes the candidate head (\<open>cells.size()\<close> stands for none). The ordered
  walk of \<open>seq_rm\<close> takes the least freed cell instead.\<close>

definition sweep_first ::
  "(nat \<Rightarrow> kv_cells \<Rightarrow> (kv_cells \<times> bool) option) \<Rightarrow> nat list \<Rightarrow> kv_cells \<Rightarrow> (kv_cells \<times> nat) option" where
  "sweep_first f idxs c = for_each (\<lambda>i (c, new_head). do {
     (c, freed) \<leftarrow> f i c;
     Some (c, if freed \<and> new_head = cells_size c then i else new_head) }) idxs (c, cells_size c)"

definition sweep_min ::
  "(nat \<Rightarrow> kv_cells \<Rightarrow> (kv_cells \<times> bool) option) \<Rightarrow> nat list \<Rightarrow> kv_cells \<Rightarrow> (kv_cells \<times> nat) option" where
  "sweep_min f idxs c = for_each (\<lambda>i (c, new_head). do {
     (c, freed) \<leftarrow> f i c;
     Some (c, if freed then min new_head i else new_head) }) idxs (c, cells_size c)"

definition lower_head :: "nat \<Rightarrow> kv_cells \<Rightarrow> nat \<Rightarrow> nat" where
  "lower_head new_head c head = (if new_head \<noteq> cells_size c \<and> new_head < head then new_head else head)"

text \<open>The loop bodies.\<close>

definition rm_in :: "int \<Rightarrow> int \<Rightarrow> nat \<Rightarrow> kv_cells \<Rightarrow> (kv_cells \<times> bool) option" where
  "rm_in p0 p1 i c = do {
     inside \<leftarrow> cells_pos_in i p0 p1 c;
     if \<not> inside then Some (c, False) else map_option (\<lambda>c. (c, True)) (cells_rm i c) }"

definition seq_rm_in :: "int \<Rightarrow> int \<Rightarrow> int \<Rightarrow> nat \<Rightarrow> kv_cells \<Rightarrow> (kv_cells \<times> bool) option" where
  "seq_rm_in s p0 p1 i c = do {
     inside \<leftarrow> cells_pos_in i p0 p1 c;
     if \<not> inside then Some (c, False)
     else do {
       has \<leftarrow> cells_seq_has i s c;
       if has then cells_seq_rm i s c else Some (c, False) } }"

definition seq_cp_in :: "int \<Rightarrow> int \<Rightarrow> int \<Rightarrow> int \<Rightarrow> nat \<Rightarrow> kv_cells \<Rightarrow> kv_cells option" where
  "seq_cp_in src dst p0 p1 i c = do {
     inside \<leftarrow> cells_pos_in i p0 p1 c;
     if \<not> inside then Some c
     else do {
       has \<leftarrow> cells_seq_has i src c;
       if has then cells_seq_add i dst c else Some c } }"

definition seq_add_in :: "int \<Rightarrow> int \<Rightarrow> int \<Rightarrow> int \<Rightarrow> nat \<Rightarrow> kv_cells \<Rightarrow> (kv_cells \<times> bool) option" where
  "seq_add_in s p0 p1 shift i c = do {
     inside \<leftarrow> cells_pos_in i p0 p1 c;
     if \<not> inside then Some (c, False)
     else do {
       has \<leftarrow> cells_seq_has i s c;
       if has then cells_pos_add i shift c else Some (c, False) } }"

definition seq_div_in :: "int \<Rightarrow> int \<Rightarrow> int \<Rightarrow> int \<Rightarrow> nat \<Rightarrow> kv_cells \<Rightarrow> kv_cells option" where
  "seq_div_in s p0 p1 d i c = do {
     inside \<leftarrow> cells_pos_in i p0 p1 c;
     if \<not> inside then Some c
     else do {
       has \<leftarrow> cells_seq_has i s c;
       if has then cells_pos_div i d c else Some c } }"

subsection \<open>Removing a sequence range\<close>

text \<open>The SJ-KVaRN half of \<open>seq_rm\<close>. First every stream concerned decides, without being changed; one
  refusal (\<open>None\<close> in the accumulator) refuses the call.\<close>

definition sj_plan_stream ::
  "sj_params \<Rightarrow> kv_cache \<Rightarrow> int \<Rightarrow> int \<Rightarrow> nat \<Rightarrow> (nat list \<times> nat list) option \<Rightarrow> (nat list \<times> nat list) option option" where
  "sj_plan_stream P kv p0 p1 strm acc = (case acc of None \<Rightarrow> Some None
     | Some (resets, truncs) \<Rightarrow> do {
         let c = kv_cells kv ! strm;
         c0 \<leftarrow> cell_of c p0;
         c1 \<leftarrow> cell_of c p1;
         act \<leftarrow> sj_rm_decide P (sc_st strm (kv_sj kv)) (cells_used_max_p1 c) c0 c1;
         Some (case act of Rm_reset \<Rightarrow> Some (resets @ [strm], truncs)
           | Rm_refuse \<Rightarrow> None
           | Rm_trunc B \<Rightarrow> Some (resets, truncs @ [strm])
           | Rm_keep \<Rightarrow> Some (resets, truncs)) })"

definition sj_seq_rm :: "sj_params \<Rightarrow> nat list \<Rightarrow> int \<Rightarrow> int \<Rightarrow> kv_cache \<Rightarrow> (kv_cache \<times> bool) option" where
  "sj_seq_rm P strms p0 p1 kv = do {
     plan \<leftarrow> for_each (sj_plan_stream P kv p0 p1) strms (Some ([], []));
     case plan of None \<Rightarrow> Some (kv, False)
     | Some (resets, truncs) \<Rightarrow> do {
         C \<leftarrow> for_each (\<lambda>strm C. do {
                c0 \<leftarrow> cell_of (kv_cells kv ! strm) p0;
                (C, ok) \<leftarrow> truncate_body P strm c0 C;
                assert_that ok;
                Some C }) truncs (kv_sj kv);
         C \<leftarrow> for_each (reset_stream P) resets C;
         Some (kv\<lparr>kv_sj := C\<rparr>, True) } }"

text \<open>The cells visited by the ordered walk: the indexed positions from \<open>lower_bound({p0, 0})\<close> up to the
  first one not below \<open>p1\<close>.\<close>

definition indexed_cells :: "int \<Rightarrow> int \<Rightarrow> int \<Rightarrow> kv_cells \<Rightarrow> nat list" where
  "indexed_cells s p0 p1 c =
     map snd (takeWhile (\<lambda>e. fst e < p1) (dropWhile (\<lambda>e. e < (p0, 0)) (sorted_list_of_set (kc_seq_pos c s))))"

text \<open>The cells visited by the scan.\<close>

definition scan_range :: "kv_cfg \<Rightarrow> int \<Rightarrow> int \<Rightarrow> kv_cells \<Rightarrow> nat list option" where
  "scan_range cf p0 p1 c = (case cf_sj cf of None \<Rightarrow> Some [0..<cells_size c]
     | Some P \<Rightarrow> do { i_beg \<leftarrow> cell_of c p0; i_end \<leftarrow> cell_of c p1; Some [i_beg..<i_end] })"

definition seq_rm_cells :: "kv_cfg \<Rightarrow> int \<Rightarrow> int \<Rightarrow> int \<Rightarrow> kv_cells \<Rightarrow> (kv_cells \<times> nat) option" where
  "seq_rm_cells cf s p0 p1 c =
     (if cf_bookkeep cf then sweep_min (\<lambda>i. cells_seq_rm i s) (indexed_cells s p0 p1 c) c
      else do { idxs \<leftarrow> scan_range cf p0 p1 c; sweep_first (seq_rm_in s p0 p1) idxs c })"

definition rm_stream :: "kv_cfg \<Rightarrow> int \<Rightarrow> int \<Rightarrow> nat \<Rightarrow> kv_cache \<Rightarrow> kv_cache option" where
  "rm_stream cf p0 p1 st kv = do {
     let c = kv_cells kv ! st;
     idxs \<leftarrow> scan_range cf p0 p1 c;
     (c, new_head) \<leftarrow> sweep_first (rm_in p0 p1) idxs c;
     Some (kv_put st c (lower_head new_head c (kv_heads kv ! st)) kv) }"

definition kv_seq_rm :: "kv_cfg \<Rightarrow> int \<Rightarrow> int \<Rightarrow> int \<Rightarrow> kv_cache \<Rightarrow> (kv_cache \<times> bool) option" where
  "kv_seq_rm cf s p0 p1 kv = (if cf_other cf then Some (kv, True)
     else do {
       assert_that (s = -1 \<or> (s \<ge> 0 \<and> nat s < length (cf_seq_to_stream cf)));
       let p0 = norm_p0 p0; let p1 = norm_p1 p1;
       (kv, go) \<leftarrow> (case cf_sj cf of None \<Rightarrow> Some (kv, True)
         | Some P \<Rightarrow> if p1 > p0
             then sj_seq_rm P (if s \<ge> 0 then [cf_seq_to_stream cf ! nat s] else [0..<cf_n_stream cf]) p0 p1 kv
             else Some (kv, True));
       if \<not> go then Some (kv, False)
       else if s \<ge> 0 then do {
         let st = cf_seq_to_stream cf ! nat s; let c = kv_cells kv ! st;
         (c, new_head) \<leftarrow> seq_rm_cells cf s p0 p1 c;
         Some (kv_put st c (lower_head new_head c (kv_heads kv ! st)) kv, True) }
       else map_option (\<lambda>kv. (kv, True)) (for_each (rm_stream cf p0 p1) [0..<cf_n_stream cf] kv) })"

subsection \<open>Copying, keeping and shifting sequences\<close>

text \<open>One cell of the copy between streams.\<close>

definition cp_cell :: "kv_cells \<Rightarrow> int \<Rightarrow> int \<Rightarrow> nat \<Rightarrow> kv_cells \<Rightarrow> kv_cells option" where
  "cp_cell src s d i c = do {
     has \<leftarrow> cells_seq_has i s src;
     if \<not> has then Some c
     else do {
       pos \<leftarrow> cells_pos_get i src;
       shift \<leftarrow> cells_get_shift i src;
       ext \<leftarrow> cells_ext_get i src;
       let pos = (if shift \<noteq> 0 then pos - shift else pos);
       assert_that (shift \<noteq> 0 \<longrightarrow> pos \<ge> 0);
       c \<leftarrow> cells_pos_set i pos c;
       c \<leftarrow> cells_seq_add i d c;
       c \<leftarrow> (if shift \<noteq> 0 then map_option fst (cells_pos_add i shift c) else Some c);
       cells_ext_set i ext c } }"

definition kv_seq_cp :: "kv_cfg \<Rightarrow> int \<Rightarrow> int \<Rightarrow> int \<Rightarrow> int \<Rightarrow> kv_cache \<Rightarrow> kv_cache option" where
  "kv_seq_cp cf src dst p0 p1 kv = do {
     assert_that (\<not> cf_streaming cf);
     if cf_other cf then Some kv
     else do {
       s0 \<leftarrow> stream_of cf src;
       s1 \<leftarrow> stream_of cf dst;
       if s0 = s1 then
         (if src = dst then Some kv
          else do {
            let c = kv_cells kv ! s0;
            c \<leftarrow> for_each (seq_cp_in src dst (norm_p0 p0) (norm_p1 p1)) [0..<cells_size c] c;
            Some (kv_put s0 c (kv_heads kv ! s0) kv) })
       else do {
         let size = int (cells_size (kv_cells kv ! (cf_seq_to_stream cf ! 0)));
         assert_that (\<not> (p0 > 0 \<and> p0 + 1 < size) \<and> \<not> (p1 > 0 \<and> p1 + 1 < size));
         let kv = kv\<lparr>kv_copies := kv_copies kv @ [(s0, s1)]\<rparr>;
         let c0 = kv_cells kv ! s0;
         c1 \<leftarrow> for_each (cp_cell c0 src dst) [0..<cells_size c0] (cells_reset (kv_cells kv ! s1));
         let kv = kv_put s1 c1 (kv_heads kv ! s0) kv;
         case cf_sj cf of None \<Rightarrow> Some kv
         | Some P \<Rightarrow> map_option (\<lambda>C. kv\<lparr>kv_sj := C\<rparr>) (share_stream P s0 s1 (kv_sj kv)) } } }"

definition kv_seq_keep :: "kv_cfg \<Rightarrow> int \<Rightarrow> kv_cache \<Rightarrow> kv_cache option" where
  "kv_seq_keep cf s kv = (if cf_other cf then Some kv
     else do {
       st \<leftarrow> stream_of cf s;
       let c = kv_cells kv ! st;
       (c, new_head) \<leftarrow> sweep_first (\<lambda>i. cells_seq_keep i s) [0..<cells_size c] c;
       Some (kv_put st c (lower_head new_head c (kv_heads kv ! st)) kv) })"

definition kv_seq_add :: "kv_cfg \<Rightarrow> int \<Rightarrow> int \<Rightarrow> int \<Rightarrow> int \<Rightarrow> kv_cache \<Rightarrow> kv_cache option" where
  "kv_seq_add cf s p0 p1 shift kv = do {
     assert_that (\<not> cf_streaming cf);
     if cf_other cf then Some kv
     else do {
       st \<leftarrow> stream_of cf s;
       assert_that (cf_n_pos_per_embd cf = 1);
       if shift = 0 then Some kv
       else do {
         let c = kv_cells kv ! st; let p0 = norm_p0 p0; let p1 = norm_p1 p1;
         if p0 = p1 then Some kv
         else do {
           (c, new_head) \<leftarrow> sweep_first (seq_add_in s p0 p1 shift) [0..<cells_size c] c;
           Some (kv_put st c (if new_head \<noteq> cells_size c then new_head else 0) kv) } } } }"

definition kv_seq_div :: "kv_cfg \<Rightarrow> int \<Rightarrow> int \<Rightarrow> int \<Rightarrow> int \<Rightarrow> kv_cache \<Rightarrow> kv_cache option" where
  "kv_seq_div cf s p0 p1 d kv = (if cf_other cf then Some kv
     else do {
       st \<leftarrow> stream_of cf s;
       assert_that (cf_n_pos_per_embd cf = 1);
       let c = kv_cells kv ! st; let p0 = norm_p0 p0; let p1 = norm_p1 p1;
       if d = 1 \<or> p0 = p1 then Some kv
       else do {
         c \<leftarrow> for_each (seq_div_in s p0 p1 d) [0..<cells_size c] c;
         Some (kv_put st c (kv_heads kv ! st) kv) } })"

definition kv_clear :: "kv_cfg \<Rightarrow> kv_cache \<Rightarrow> kv_cache option" where
  "kv_clear cf kv = do {
     let kv = fold (\<lambda>s kv. kv_put s (cells_reset (kv_cells kv ! s)) 0 kv) [0..<cf_n_stream cf] kv;
     case cf_sj cf of None \<Rightarrow> Some kv
     | Some P \<Rightarrow> map_option (\<lambda>C. kv\<lparr>kv_sj := C\<rparr>)
         (for_each (reset_stream P) [0..<length (sc_sts (kv_sj kv))] (kv_sj kv)) }"

definition kv_seq_pos_min :: "kv_cfg \<Rightarrow> int \<Rightarrow> kv_cache \<Rightarrow> int option" where
  "kv_seq_pos_min cf s kv = do { st \<leftarrow> stream_of cf s; cells_seq_pos_min s (kv_cells kv ! st) }"

definition kv_seq_pos_max :: "kv_cfg \<Rightarrow> int \<Rightarrow> kv_cache \<Rightarrow> int option" where
  "kv_seq_pos_max cf s kv = do { st \<leftarrow> stream_of cf s; cells_seq_pos_max s (kv_cells kv ! st) }"

subsection \<open>Every loop body is an edit of one cell\<close>

text \<open>The contents of a cell, as \<open>cell_at\<close> reads them.\<close>

type_synonym kv_cell = "int \<times> kv_cell_ext \<times> int \<times> int set"

definition freed_by :: "kv_cell \<Rightarrow> kv_cell \<Rightarrow> bool" where
  "freed_by x y \<longleftrightarrow> fst x \<noteq> -1 \<and> fst y = -1"

text \<open>\<open>c'\<close> is \<open>c\<close> with the cells of \<open>S\<close> edited by \<open>g\<close>; \<open>marks\<close> says which edits leave a pending shift.\<close>

definition swept :: "(kv_cell \<Rightarrow> kv_cell) \<Rightarrow> (kv_cell \<Rightarrow> bool) \<Rightarrow> nat set \<Rightarrow> kv_cells \<Rightarrow> kv_cells \<Rightarrow> bool" where
  "swept g marks S c c' \<longleftrightarrow> cells_inv c' \<and> cells_size c' = cells_size c \<and>
     (\<forall>j < cells_size c. cell_at c' j = (if j \<in> S then g (cell_at c j) else cell_at c j)) \<and>
     kc_has_shift c' = (kc_has_shift c \<or> (\<exists>j \<in> S. marks (cell_at c j)))"

lemma sweptD:
  assumes "swept g marks S c c'"
  shows "cells_inv c'" "cells_size c' = cells_size c"
    "j < cells_size c \<Longrightarrow> cell_at c' j = (if j \<in> S then g (cell_at c j) else cell_at c j)"
  using assms by (auto simp: swept_def)

text \<open>The cell the next search may start from: the least freed one, \<open>cells.size()\<close> if there is none.\<close>

definition lowest_freed :: "(kv_cell \<Rightarrow> kv_cell) \<Rightarrow> kv_cells \<Rightarrow> nat set \<Rightarrow> nat" where
  "lowest_freed g c S = Min (insert (cells_size c) {i \<in> S. freed_by (cell_at c i) (g (cell_at c i))})"

lemma lowest_freed_empty [simp]: "lowest_freed g c {} = cells_size c"
  by (simp add: lowest_freed_def)

lemma lowest_freed_insert:
  assumes "finite S"
  shows "lowest_freed g c (insert i S) =
    (if freed_by (cell_at c i) (g (cell_at c i)) then min (lowest_freed g c S) i else lowest_freed g c S)"
proof -
  let ?F = "\<lambda>S. {i \<in> S. freed_by (cell_at c i) (g (cell_at c i))}"
  have e: "?F (insert i S) = (if freed_by (cell_at c i) (g (cell_at c i)) then insert i (?F S) else ?F S)" by auto
  have "finite (insert (cells_size c) (?F S))" using assms by simp
  then have "Min (insert i (insert (cells_size c) (?F S))) = min i (Min (insert (cells_size c) (?F S)))"
    by (intro Min_insert) auto
  then show ?thesis unfolding lowest_freed_def e by (simp add: insert_commute min.commute)
qed

lemma lowest_freed_le: "finite S \<Longrightarrow> lowest_freed g c S \<le> cells_size c"
  by (simp add: lowest_freed_def)

lemma lowest_freed_cases:
  assumes "finite S"
  shows "lowest_freed g c S = cells_size c \<or> lowest_freed g c S \<in> S"
proof -
  have "lowest_freed g c S \<in> insert (cells_size c) {i \<in> S. freed_by (cell_at c i) (g (cell_at c i))}"
    unfolding lowest_freed_def by (rule Min_in) (use assms in auto)
  then show ?thesis by auto
qed

text \<open>Editing only the cells that change is editing all of them.\<close>

lemma swept_same:
  assumes "S \<subseteq> T" "\<And>j. j \<in> T - S \<Longrightarrow> g (cell_at c j) = cell_at c j \<and> \<not> marks (cell_at c j)"
  shows "swept g marks S c = swept g marks T c"
proof -
  have "(if j \<in> S then g (cell_at c j) else cell_at c j) = (if j \<in> T then g (cell_at c j) else cell_at c j)" for j
    using assms by auto
  moreover have "(\<exists>j \<in> S. marks (cell_at c j)) = (\<exists>j \<in> T. marks (cell_at c j))" using assms by blast
  ultimately show ?thesis by (simp add: swept_def fun_eq_iff)
qed

lemma lowest_freed_same:
  assumes "S \<subseteq> T" "\<And>j. j \<in> T \<Longrightarrow> j \<notin> S \<Longrightarrow> g (cell_at c j) = cell_at c j"
  shows "lowest_freed g c S = lowest_freed g c T"
proof -
  have "{i \<in> S. freed_by (cell_at c i) (g (cell_at c i))} = {i \<in> T. freed_by (cell_at c i) (g (cell_at c i))}"
  proof (intro set_eqI iffI)
    fix i assume i: "i \<in> {i \<in> T. freed_by (cell_at c i) (g (cell_at c i))}"
    then have "g (cell_at c i) \<noteq> cell_at c i" by (auto simp: freed_by_def)
    with i show "i \<in> {i \<in> S. freed_by (cell_at c i) (g (cell_at c i))}" using assms(2) [of i] by auto
  qed (use assms(1) in auto)
  then show ?thesis by (simp add: lowest_freed_def)
qed

lemma swept_unique:
  assumes "swept g marks S c c1" "swept g marks S c c2"
  shows "c1 = c2"
proof -
  have "c2 = c1\<lparr>kc_has_shift := kc_has_shift c2\<rparr>"
    using assms by (intro cells_inv_cell_at_unique) (auto simp: swept_def)
  moreover have "kc_has_shift c2 = kc_has_shift c1" using assms by (auto simp: swept_def)
  ultimately show ?thesis by simp
qed

text \<open>The contract of a loop body: on a cell that meets \<open>pre\<close> it succeeds, replaces that cell by its
  image under \<open>g\<close>, leaves the other cells and the indices consistent, and reports whether it freed the
  cell. The sweeps are verified once, from this contract.\<close>

locale cell_edit =
  fixes f :: "nat \<Rightarrow> kv_cells \<Rightarrow> (kv_cells \<times> bool) option"
    and pre :: "kv_cell \<Rightarrow> bool" and g :: "kv_cell \<Rightarrow> kv_cell" and marks :: "kv_cell \<Rightarrow> bool"
  assumes edit: "cells_inv c \<Longrightarrow> i < cells_size c \<Longrightarrow> pre (cell_at c i) \<Longrightarrow>
    \<exists>c'. f i c = Some (c', freed_by (cell_at c i) (g (cell_at c i))) \<and> swept g marks {i} c c'"
begin

lemma swept_step:
  assumes "swept g marks S c c'" "i < cells_size c" "i \<notin> S" "pre (cell_at c i)"
  shows "\<exists>d. f i c' = Some (d, freed_by (cell_at c i) (g (cell_at c i))) \<and> swept g marks (insert i S) c d"
proof -
  note D = sweptD [OF assms(1)]
  have i: "cell_at c' i = cell_at c i" using D(3) [OF assms(2)] assms(3) by simp
  obtain d where d: "f i c' = Some (d, freed_by (cell_at c i) (g (cell_at c i)))" "swept g marks {i} c' d"
    using edit [of c' i] D(1,2) i assms(2,4) by auto
  have "swept g marks (insert i S) c d"
    using d(2) assms(1) i D(2) unfolding swept_def by auto
  with d(1) show ?thesis by blast
qed

lemma sweep_min_ok:
  assumes "cells_inv c" "distinct idxs" "\<And>i. i \<in> set idxs \<Longrightarrow> i < cells_size c \<and> pre (cell_at c i)"
  shows "\<exists>c'. sweep_min f idxs c = Some (c', lowest_freed g c (set idxs)) \<and> swept g marks (set idxs) c c'"
proof -
  let ?P = "\<lambda>dn (c', nh). swept g marks (set dn) c c' \<and> nh = lowest_freed g c (set dn)"
  have "\<exists>r. sweep_min f idxs c = Some r \<and> ?P idxs r"
    unfolding sweep_min_def
  proof (rule for_each_total [where P = ?P])
    show "?P [] (c, cells_size c)" using assms(1) by (simp add: swept_def)
  next
    fix dn i rest r assume s: "idxs = dn @ i # rest" and P: "?P dn r"
    obtain c' nh where r: "r = (c', nh)" by (cases r)
    have i: "i < cells_size c" "i \<notin> set dn" "pre (cell_at c i)" using s assms(2,3) by auto
    from swept_step [of "set dn" c c' i] P r i
    obtain d where d: "f i c' = Some (d, freed_by (cell_at c i) (g (cell_at c i)))"
      "swept g marks (insert i (set dn)) c d" by auto
    with P r show "\<exists>r'. (case r of (c, new_head) \<Rightarrow>
        do { (c, freed) \<leftarrow> f i c; Some (c, if freed then min new_head i else new_head) }) = Some r' \<and> ?P (dn @ [i]) r'"
      by (simp add: lowest_freed_insert)
  qed
  then show ?thesis by auto
qed

lemma sweep_first_ok:
  assumes "cells_inv c" "sorted_wrt (<) idxs" "\<And>i. i \<in> set idxs \<Longrightarrow> i < cells_size c \<and> pre (cell_at c i)"
  shows "\<exists>c'. sweep_first f idxs c = Some (c', lowest_freed g c (set idxs)) \<and> swept g marks (set idxs) c c'"
proof -
  let ?P = "\<lambda>dn (c', nh). swept g marks (set dn) c c' \<and> nh = lowest_freed g c (set dn)"
  have "\<exists>r. sweep_first f idxs c = Some r \<and> ?P idxs r"
    unfolding sweep_first_def
  proof (rule for_each_total [where P = ?P])
    show "?P [] (c, cells_size c)" using assms(1) by (simp add: swept_def)
  next
    fix dn i rest r assume s: "idxs = dn @ i # rest" and P: "?P dn r"
    obtain c' nh where r: "r = (c', nh)" by (cases r)
    have below: "\<forall>j \<in> set dn. j < i" using assms(2) s by (simp add: sorted_wrt_append)
    have i: "i < cells_size c" "i \<notin> set dn" "pre (cell_at c i)" using s assms(3) below by auto
    have P': "swept g marks (set dn) c c'" "nh = lowest_freed g c (set dn)" using P r by simp_all
    have "nh = cells_size c \<or> nh < i" using lowest_freed_cases [of "set dn" g c] below P'(2) by auto
    then have nh: "(if nh = cells_size c' then i else nh) = min nh i"
      using i(1) sweptD(2) [OF P'(1)] by auto
    from swept_step [of "set dn" c c' i] P r i
    obtain d where d: "f i c' = Some (d, freed_by (cell_at c i) (g (cell_at c i)))"
      "swept g marks (insert i (set dn)) c d" by auto
    have sz: "cells_size d = cells_size c'" using sweptD(2) [OF d(2)] sweptD(2) [OF P'(1)] by simp
    have upd: "(if b \<and> lowest_freed g c (set dn) = cells_size d then i else lowest_freed g c (set dn)) =
        (if b then min (lowest_freed g c (set dn)) i else lowest_freed g c (set dn))" for b
      using nh unfolding P'(2) sz by metis
    show "\<exists>r'. (case r of (c, new_head) \<Rightarrow>
        do { (c, freed) \<leftarrow> f i c; Some (c, if freed \<and> new_head = cells_size c then i else new_head) }) = Some r' \<and> ?P (dn @ [i]) r'"
      using P r d(2) by (simp add: d(1) upd lowest_freed_insert)
  qed
  then show ?thesis by auto
qed

lemma sweep_plain_ok:
  assumes "cells_inv c" "distinct idxs" "\<And>i. i \<in> set idxs \<Longrightarrow> i < cells_size c \<and> pre (cell_at c i)"
    and "\<And>i c. h i c = map_option fst (f i c)"
  shows "\<exists>c'. for_each h idxs c = Some c' \<and> swept g marks (set idxs) c c'"
proof (rule for_each_total)
  show "swept g marks (set []) c c" using assms(1) by (simp add: swept_def)
next
  fix dn i rest c' assume s: "idxs = dn @ i # rest" and P: "swept g marks (set dn) c c'"
  have "i < cells_size c" "i \<notin> set dn" "pre (cell_at c i)" using s assms(2,3) by auto
  from swept_step [OF P this] obtain d where
    "f i c' = Some (d, freed_by (cell_at c i) (g (cell_at c i)))" "swept g marks (insert i (set dn)) c d" by blast
  then show "\<exists>d. h i c' = Some d \<and> swept g marks (set (dn @ [i])) c d"
    by (intro exI [of _ d]) (simp add: assms(4))
qed

end

subsection \<open>The edits of the sequence operations\<close>

definition empty_cell :: kv_cell where
  "empty_cell = (-1, kv_cell_ext_default, 0, {})"

definition in_range :: "int \<Rightarrow> int \<Rightarrow> kv_cell \<Rightarrow> bool" where
  "in_range p0 p1 x \<longleftrightarrow> p0 \<le> fst x \<and> fst x < p1"

definition has_seq :: "int \<Rightarrow> kv_cell \<Rightarrow> bool" where
  "has_seq s x \<longleftrightarrow> s \<in> snd (snd (snd x))"

fun drop_seq :: "int \<Rightarrow> kv_cell \<Rightarrow> kv_cell" where
  "drop_seq s (p, e, sh, S) = (if S = {s} then empty_cell else (p, e, sh, S - {s}))"

fun keep_seq :: "int \<Rightarrow> kv_cell \<Rightarrow> kv_cell" where
  "keep_seq s (p, e, sh, S) = (if s \<in> S then (p, e, sh, {s}) else if p \<noteq> -1 then empty_cell else (p, e, sh, S))"

fun share_seq :: "int \<Rightarrow> kv_cell \<Rightarrow> kv_cell" where
  "share_seq d (p, e, sh, S) = (p, e, sh, insert d S)"

fun shift_cell :: "int \<Rightarrow> kv_cell \<Rightarrow> kv_cell" where
  "shift_cell d (p, e, sh, S) = (if p + d < 0 then (-1, e, 0, {}) else (p + d, e, sh + d, S))"

fun div_cell :: "int \<Rightarrow> kv_cell \<Rightarrow> kv_cell" where
  "div_cell d (p, e, sh, S) = (tdiv p d, e, sh + (p - tdiv p d), S)"

definition edit_if :: "(kv_cell \<Rightarrow> bool) \<Rightarrow> (kv_cell \<Rightarrow> kv_cell) \<Rightarrow> kv_cell \<Rightarrow> kv_cell" where
  "edit_if hit g x = (if hit x then g x else x)"

definition hits :: "int \<Rightarrow> int \<Rightarrow> int \<Rightarrow> kv_cell \<Rightarrow> bool" where
  "hits s p0 p1 x \<longleftrightarrow> in_range p0 p1 x \<and> has_seq s x"

lemma cell_at_simps [simp]:
  "fst (cell_at c i) = kc_pos c ! i" "in_range p0 p1 (cell_at c i) = (p0 \<le> kc_pos c ! i \<and> kc_pos c ! i < p1)"
  "has_seq s (cell_at c i) = (s \<in> kc_seq c ! i)"
  by (simp_all add: cell_at_def in_range_def has_seq_def)

lemma cell_at_has_shift [simp]: "cell_at (c\<lparr>kc_has_shift := b\<rparr>) i = cell_at c i"
  by (simp add: cell_at_def)

lemma swept_put:
  assumes "cells_inv c" "i < cells_size c" "cells_inv (cells_put i p e sh S c)" "h \<longleftrightarrow> kc_has_shift c \<or> marks (cell_at c i)"
    "g (cell_at c i) = (p, e, sh, S)"
  shows "swept g marks {i} c ((cells_put i p e sh S c)\<lparr>kc_has_shift := h\<rparr>)"
  using assms cell_at_put [OF assms(1,2)] by (auto simp: swept_def)

lemma swept_put':
  assumes "cells_inv c" "i < cells_size c" "cells_inv (cells_put i p e sh S c)" "\<not> marks (cell_at c i)"
    "g (cell_at c i) = (p, e, sh, S)"
  shows "swept g marks {i} c (cells_put i p e sh S c)"
proof -
  have same: "(cells_put i p e sh S c)\<lparr>kc_has_shift := kc_has_shift c\<rparr> = cells_put i p e sh S c"
    by (cases c) (simp add: cells_put_def)
  have "swept g marks {i} c ((cells_put i p e sh S c)\<lparr>kc_has_shift := kc_has_shift c\<rparr>)"
    by (rule swept_put [where marks = marks and g = g, OF assms(1-3) _ assms(5)]) (simp add: assms(4))
  then show ?thesis unfolding same .
qed

lemma swept_none:
  "cells_inv c \<Longrightarrow> g (cell_at c i) = cell_at c i \<Longrightarrow> \<not> marks (cell_at c i) \<Longrightarrow> swept g marks {i} c c"
  by (simp add: swept_def)

lemma freed_same [simp]: "\<not> freed_by x x"
  by (simp add: freed_by_def)

lemma pos_in_eq: "i < cells_size c \<Longrightarrow> cells_pos_in i p0 p1 c = Some (in_range p0 p1 (cell_at c i))"
  by (simp add: cells_pos_in_def)

lemma seq_has_eq: "i < cells_size c \<Longrightarrow> 0 \<le> s \<Longrightarrow> s < LLAMA_MAX_SEQ \<Longrightarrow> cells_seq_has i s c = Some (has_seq s (cell_at c i))"
  by (simp add: cells_seq_has_def)

lemma seq_pos_set: "cells_inv c \<Longrightarrow> i < cells_size c \<Longrightarrow> s \<in> kc_seq c ! i \<Longrightarrow> kc_pos c ! i \<ge> 0 \<and> 0 \<le> s \<and> s < LLAMA_MAX_SEQ"
  using cells_invD(6,8) [of c i] pos_nonneg [of c i] by (metis empty_iff set_seq_ids subsetD)

text \<open>Removing one sequence from a cell that carries it.\<close>

lemma seq_rm_swept:
  assumes "cells_inv c" "i < cells_size c" "s \<in> kc_seq c ! i" "g (cell_at c i) = drop_seq s (cell_at c i)" "\<not> marks (cell_at c i)"
  shows "\<exists>c'. cells_seq_rm i s c = Some (c', freed_by (cell_at c i) (g (cell_at c i))) \<and> swept g marks {i} c c'"
proof -
  note S = cells_invD(8) [OF assms(1,2)] and p = seq_pos_set [OF assms(1-3)]
  have ok: "cells_inv (cells_put i (-1) kv_cell_ext_default 0 {} c)"
    "cells_inv (cells_put i (kc_pos c ! i) (kc_ext c ! i) (kc_shift c ! i) (kc_seq c ! i - {s}) c)"
    using S p by (intro cells_put_inv [OF assms(1,2)]; auto)+
  show ?thesis
  proof (cases "kc_seq c ! i = {s}")
    case True
    then have "g (cell_at c i) = (-1, kv_cell_ext_default, 0, {})"
      by (simp only: assms(4)) (simp add: cell_at_def empty_cell_def)
    with swept_put' [where marks = marks and g = g, OF assms(1,2) ok(1) assms(5) this] True p show ?thesis
      by (simp add: cells_seq_rm_eq [OF assms(1-3)] freed_by_def)
  next
    case False
    then have "g (cell_at c i) = (kc_pos c ! i, kc_ext c ! i, kc_shift c ! i, kc_seq c ! i - {s})"
      by (simp only: assms(4)) (simp add: cell_at_def)
    with swept_put' [where marks = marks and g = g, OF assms(1,2) ok(2) assms(5) this] False p show ?thesis
      by (simp add: cells_seq_rm_eq [OF assms(1-3)] freed_by_def)
  qed
qed

text \<open>The seven loop bodies meet the contract.\<close>

interpretation rm_idx: cell_edit "\<lambda>i. cells_seq_rm i s" "hits s p0 p1" "edit_if (hits s p0 p1) (drop_seq s)" "\<lambda>_. False"
proof
  fix c i assume c: "cells_inv c" "i < cells_size c" "hits s p0 p1 (cell_at c i)"
  then show "\<exists>c'. cells_seq_rm i s c = Some (c', freed_by (cell_at c i) (edit_if (hits s p0 p1) (drop_seq s) (cell_at c i))) \<and>
      swept (edit_if (hits s p0 p1) (drop_seq s)) (\<lambda>_. False) {i} c c'"
    by (intro seq_rm_swept) (simp_all add: edit_if_def, simp add: hits_def)
qed

interpretation rm_scan: cell_edit "seq_rm_in s p0 p1" "\<lambda>_. 0 \<le> s \<and> s < LLAMA_MAX_SEQ" "edit_if (hits s p0 p1) (drop_seq s)" "\<lambda>_. False"
proof
  fix c i assume c: "cells_inv c" "i < cells_size c" "0 \<le> s \<and> s < LLAMA_MAX_SEQ"
  show "\<exists>c'. seq_rm_in s p0 p1 i c = Some (c', freed_by (cell_at c i) (edit_if (hits s p0 p1) (drop_seq s) (cell_at c i))) \<and>
      swept (edit_if (hits s p0 p1) (drop_seq s)) (\<lambda>_. False) {i} c c'"
  proof (cases "hits s p0 p1 (cell_at c i)")
    case True
    with c have "seq_rm_in s p0 p1 i c = cells_seq_rm i s c"
      by (simp add: seq_rm_in_def pos_in_eq seq_has_eq hits_def)
    then show ?thesis using rm_idx.edit [OF c(1,2) True] by simp
  next
    case False
    with c have "seq_rm_in s p0 p1 i c = Some (c, False)"
      by (auto simp: seq_rm_in_def pos_in_eq seq_has_eq hits_def)
    then show ?thesis using False c(1) by (auto simp: edit_if_def intro!: swept_none)
  qed
qed

interpretation rm_all: cell_edit "rm_in p0 p1" "\<lambda>_. 0 \<le> p0" "edit_if (in_range p0 p1) (\<lambda>_. empty_cell)" "\<lambda>_. False"
proof
  fix c i assume c: "cells_inv c" "i < cells_size c" "0 \<le> p0"
  let ?g = "edit_if (in_range p0 p1) (\<lambda>_. empty_cell)"
  show "\<exists>c'. rm_in p0 p1 i c = Some (c', freed_by (cell_at c i) (?g (cell_at c i))) \<and> swept ?g (\<lambda>_. False) {i} c c'"
  proof (cases "in_range p0 p1 (cell_at c i)")
    case True
    then have p: "kc_pos c ! i \<noteq> -1" using c(3) by auto
    have "cells_inv (cells_put i (-1) kv_cell_ext_default 0 {} c)" by (intro cells_put_inv [OF c(1,2)]) auto
    from swept_put' [where marks = "\<lambda>_. False" and g = ?g, OF c(1,2) this] True p show ?thesis
      by (simp add: rm_in_def pos_in_eq [OF c(2)] cells_rm_eq [OF c(1,2)] edit_if_def empty_cell_def freed_by_def)
  next
    case False
    then show ?thesis using c(1) by (auto simp: rm_in_def pos_in_eq [OF c(2)] edit_if_def intro!: swept_none)
  qed
qed

interpretation keep: cell_edit "\<lambda>i. cells_seq_keep i s"
  "\<lambda>(p, e, sh, S). 0 \<le> s \<and> s < LLAMA_MAX_SEQ \<and> (p \<noteq> -1 \<longrightarrow> S \<noteq> {})" "keep_seq s" "\<lambda>_. False"
proof
  fix c i assume c: "cells_inv c" "i < cells_size c"
    "case cell_at c i of (p, e, sh, S) \<Rightarrow> 0 \<le> s \<and> s < LLAMA_MAX_SEQ \<and> (p \<noteq> -1 \<longrightarrow> S \<noteq> {})"
  then have s: "0 \<le> s" "s < LLAMA_MAX_SEQ" "kc_pos c ! i \<noteq> -1 \<Longrightarrow> kc_seq c ! i \<noteq> {}" by (auto simp: cell_at_def)
  note eq = cells_seq_keep_eq [OF c(1,2) s]
  have g: "keep_seq s (cell_at c i) = (if s \<in> kc_seq c ! i then (kc_pos c ! i, kc_ext c ! i, kc_shift c ! i, {s})
      else if kc_pos c ! i \<noteq> -1 then (-1, kv_cell_ext_default, 0, {}) else cell_at c i)"
    by (simp add: cell_at_def empty_cell_def)
  have ok: "cells_inv (cells_put i (-1) kv_cell_ext_default 0 {} c)" by (intro cells_put_inv [OF c(1,2)]) auto
  have ok2: "cells_inv (cells_put i (kc_pos c ! i) (kc_ext c ! i) (kc_shift c ! i) {s} c)" if "s \<in> kc_seq c ! i"
    using s(1,2) seq_pos_set [OF c(1,2) that] by (intro cells_put_inv [OF c(1,2)]) auto
  show "\<exists>c'. cells_seq_keep i s c = Some (c', freed_by (cell_at c i) (keep_seq s (cell_at c i))) \<and>
      swept (keep_seq s) (\<lambda>_. False) {i} c c'"
    using swept_put' [where marks = "\<lambda>_. False" and g = "keep_seq s", OF c(1,2) ok]
      swept_put' [where marks = "\<lambda>_. False" and g = "keep_seq s", OF c(1,2) ok2]
      swept_none [where marks = "\<lambda>_. False" and g = "keep_seq s", OF c(1), of i] seq_pos_set [OF c(1,2)]
    by (auto simp: eq g freed_by_def)
qed

interpretation shift: cell_edit "seq_add_in s p0 p1 d" "\<lambda>_. 0 \<le> s \<and> s < LLAMA_MAX_SEQ"
  "edit_if (hits s p0 p1) (shift_cell d)" "hits s p0 p1"
proof
  fix c i assume c: "cells_inv c" "i < cells_size c" "0 \<le> s \<and> s < LLAMA_MAX_SEQ"
  let ?g = "edit_if (hits s p0 p1) (shift_cell d)"
  show "\<exists>c'. seq_add_in s p0 p1 d i c = Some (c', freed_by (cell_at c i) (?g (cell_at c i))) \<and> swept ?g (hits s p0 p1) {i} c c'"
  proof (cases "hits s p0 p1 (cell_at c i)")
    case True
    then have h: "s \<in> kc_seq c ! i" by (simp add: hits_def)
    note p = seq_pos_set [OF c(1,2) h] and S = cells_invD(8) [OF c(1,2)]
    have "cells_inv (cells_put i (-1) (kc_ext c ! i) 0 {} c)" by (intro cells_put_inv [OF c(1,2)]) auto
    note a = swept_put [where marks = "hits s p0 p1" and g = ?g and h = True, OF c(1,2) this]
    have "cells_inv (cells_put i (kc_pos c ! i + d) (kc_ext c ! i) (kc_shift c ! i + d) (kc_seq c ! i) c)"
      if "\<not> kc_pos c ! i + d < 0" using that S by (intro cells_put_inv [OF c(1,2)]) auto
    note b = swept_put [where marks = "hits s p0 p1" and g = ?g and h = True, OF c(1,2) this]
    have "seq_add_in s p0 p1 d i c = cells_pos_add i d c"
      using True c by (simp add: seq_add_in_def pos_in_eq seq_has_eq hits_def)
    moreover have "?g (cell_at c i) = shift_cell d (kc_pos c ! i, kc_ext c ! i, kc_shift c ! i, kc_seq c ! i)"
      using True by (simp add: edit_if_def cell_at_def)
    ultimately show ?thesis using a b True p cells_pos_add_eq [OF c(1,2), of d]
      by (cases "kc_pos c ! i + d < 0") (simp_all add: freed_by_def)
  next
    case False
    with c have "seq_add_in s p0 p1 d i c = Some (c, False)"
      by (auto simp: seq_add_in_def pos_in_eq seq_has_eq hits_def)
    then show ?thesis using False c(1) by (auto simp: edit_if_def intro!: swept_none)
  qed
qed

interpretation division: cell_edit "\<lambda>i c. map_option (\<lambda>c. (c, False)) (seq_div_in s p0 p1 d i c)"
  "\<lambda>x. 0 \<le> s \<and> s < LLAMA_MAX_SEQ \<and> (hits s p0 p1 x \<longrightarrow> d \<noteq> 0 \<and> 0 \<le> tdiv (fst x) d)"
  "edit_if (hits s p0 p1) (div_cell d)" "hits s p0 p1"
proof
  fix c i assume c: "cells_inv c" "i < cells_size c"
    "0 \<le> s \<and> s < LLAMA_MAX_SEQ \<and> (hits s p0 p1 (cell_at c i) \<longrightarrow> d \<noteq> 0 \<and> 0 \<le> tdiv (fst (cell_at c i)) d)"
  let ?g = "edit_if (hits s p0 p1) (div_cell d)" and ?f = "map_option (\<lambda>c. (c, False)) (seq_div_in s p0 p1 d i c)"
  show "\<exists>c'. ?f = Some (c', freed_by (cell_at c i) (?g (cell_at c i))) \<and> swept ?g (hits s p0 p1) {i} c c'"
  proof (cases "hits s p0 p1 (cell_at c i)")
    case True
    then have h: "s \<in> kc_seq c ! i" by (simp add: hits_def)
    note p = seq_pos_set [OF c(1,2) h] and S = cells_invD(8) [OF c(1,2)]
    have q: "tdiv (kc_pos c ! i) d \<ge> 0" "d \<noteq> 0" using p c(3) True by (auto simp: cell_at_def)
    have "cells_inv (cells_put i (tdiv (kc_pos c ! i) d) (kc_ext c ! i)
        (kc_shift c ! i + (kc_pos c ! i - tdiv (kc_pos c ! i) d)) (kc_seq c ! i) c)"
      using q S by (intro cells_put_inv [OF c(1,2)]) auto
    note b = swept_put [where marks = "hits s p0 p1" and g = ?g and h = True, OF c(1,2) this]
    have "seq_div_in s p0 p1 d i c = cells_pos_div i d c"
      using True c by (simp add: seq_div_in_def pos_in_eq seq_has_eq hits_def)
    moreover have "?g (cell_at c i) = div_cell d (kc_pos c ! i, kc_ext c ! i, kc_shift c ! i, kc_seq c ! i)"
      using True by (simp add: edit_if_def cell_at_def)
    ultimately show ?thesis using b True p q c(3) cells_pos_div_tdiv [OF c(1,2), of d]
      by (simp add: freed_by_def)
  next
    case False
    with c have "seq_div_in s p0 p1 d i c = Some c"
      by (auto simp: seq_div_in_def pos_in_eq seq_has_eq hits_def)
    then show ?thesis using False c(1) by (auto simp: edit_if_def intro!: swept_none)
  qed
qed

interpretation share: cell_edit "\<lambda>i c. map_option (\<lambda>c. (c, False)) (seq_cp_in s t p0 p1 i c)"
  "\<lambda>x. 0 \<le> s \<and> s < LLAMA_MAX_SEQ \<and> 0 \<le> t \<and> t < LLAMA_MAX_SEQ \<and> (hits s p0 p1 x \<longrightarrow> \<not> has_seq t x)"
  "edit_if (hits s p0 p1) (share_seq t)" "\<lambda>_. False"
proof
  fix c i assume c: "cells_inv c" "i < cells_size c"
    "0 \<le> s \<and> s < LLAMA_MAX_SEQ \<and> 0 \<le> t \<and> t < LLAMA_MAX_SEQ \<and> (hits s p0 p1 (cell_at c i) \<longrightarrow> \<not> has_seq t (cell_at c i))"
  let ?g = "edit_if (hits s p0 p1) (share_seq t)" and ?f = "map_option (\<lambda>c. (c, False)) (seq_cp_in s t p0 p1 i c)"
  show "\<exists>c'. ?f = Some (c', freed_by (cell_at c i) (?g (cell_at c i))) \<and> swept ?g (\<lambda>_. False) {i} c c'"
  proof (cases "hits s p0 p1 (cell_at c i)")
    case True
    then have h: "s \<in> kc_seq c ! i" by (simp add: hits_def)
    note p = seq_pos_set [OF c(1,2) h] and S = cells_invD(8) [OF c(1,2)]
    have "cells_inv (cells_put i (kc_pos c ! i) (kc_ext c ! i) (kc_shift c ! i) (insert t (kc_seq c ! i)) c)"
      using p S c(3) by (intro cells_put_inv [OF c(1,2)]) auto
    note b = swept_put' [where marks = "\<lambda>_. False" and g = ?g, OF c(1,2) this]
    have "seq_cp_in s t p0 p1 i c = cells_seq_add i t c"
      using True c by (simp add: seq_cp_in_def pos_in_eq seq_has_eq hits_def)
    moreover have "?g (cell_at c i) = share_seq t (kc_pos c ! i, kc_ext c ! i, kc_shift c ! i, kc_seq c ! i)"
      using True by (simp add: edit_if_def cell_at_def)
    ultimately show ?thesis using b True p c(3) cells_seq_add_eq [OF c(1,2), of t]
      by (simp add: freed_by_def)
  next
    case False
    with c have "seq_cp_in s t p0 p1 i c = Some c"
      by (auto simp: seq_cp_in_def pos_in_eq seq_has_eq hits_def)
    then show ?thesis using False c(1) by (auto simp: edit_if_def intro!: swept_none)
  qed
qed

subsection \<open>The ordered walk and the scan of seq\_rm\<close>

lemma dropWhile_sorted: "sorted xs \<Longrightarrow> dropWhile (\<lambda>e. e < a) xs = filter (\<lambda>e. a \<le> e) xs"
proof (induction xs)
  case (Cons x xs)
  then show ?case by (cases "x < a") (auto intro!: filter_True [symmetric])
qed simp

lemma takeWhile_sorted:
  "sorted xs \<Longrightarrow> takeWhile (\<lambda>e. fst e < b) xs = filter (\<lambda>e. fst e < b) (xs :: (int \<times> nat) list)"
proof (induction xs)
  case (Cons x xs)
  have "filter (\<lambda>e. fst e < b) xs = []" if "\<not> fst x < b"
    using that Cons.prems by (auto simp: filter_empty_conv less_eq_prod_def)
  with Cons show ?case by (cases "fst x < b") auto
qed simp

lemma indexed_cells_set:
  assumes "cells_inv c"
  shows "set (indexed_cells s p0 p1 c) = {i. i < cells_size c \<and> hits s p0 p1 (cell_at c i)}"
    "distinct (indexed_cells s p0 p1 c)"
proof -
  let ?X = "kc_seq_pos c s"
  have X: "?X = (\<lambda>i. (kc_pos c ! i, i)) ` seq_cells s c" by (rule seq_pos_image [OF assms])
  have fin: "finite ?X" by (simp add: X)
  let ?ys = "filter (\<lambda>e. fst e < p1) (filter (\<lambda>e. (p0, 0) \<le> e) (sorted_list_of_set ?X))"
  have "sorted (filter (\<lambda>e. (p0, 0) \<le> e) (sorted_list_of_set ?X))"
    using sorted_filter [of id] by (simp add: sorted_filter [where f = id, simplified])
  then have e: "indexed_cells s p0 p1 c = map snd ?ys"
    by (simp add: indexed_cells_def dropWhile_sorted takeWhile_sorted)
  have ys: "set ?ys = {e \<in> ?X. p0 \<le> fst e \<and> fst e < p1}"
    using fin by (auto simp: less_eq_prod_def)
  show "set (indexed_cells s p0 p1 c) = {i. i < cells_size c \<and> hits s p0 p1 (cell_at c i)}"
    unfolding e set_map ys by (force simp: X seq_cells_def hits_def image_iff)
  have "inj_on snd (set ?ys)" unfolding ys by (auto simp: X inj_on_def)
  then show "distinct (indexed_cells s p0 p1 c)" unfolding e by (simp add: distinct_map)
qed

text \<open>The cells of an SJ-KVaRN stream: the first \<open>n\<close>, at positions that never decrease.\<close>

definition dense_cells :: "kv_cells \<Rightarrow> bool" where
  "dense_cells c \<longleftrightarrow> (\<exists>n \<le> cells_size c. kc_used c = {..<n} \<and>
     (\<forall>j < n. \<forall>i \<le> j. kc_pos c ! i \<le> kc_pos c ! j))"

lemma dense_used:
  assumes "dense_cells c"
  shows "kc_used c = {..<cells_used_max_p1 c}" "cells_used_max_p1 c \<le> cells_size c"
    "i \<le> j \<Longrightarrow> j < cells_used_max_p1 c \<Longrightarrow> kc_pos c ! i \<le> kc_pos c ! j"
proof -
  obtain n where n: "n \<le> cells_size c" "kc_used c = {..<n}" "\<forall>j < n. \<forall>i \<le> j. kc_pos c ! i \<le> kc_pos c ! j"
    using assms by (auto simp: dense_cells_def)
  have "Max {..<n} + 1 = n" if "n > 0"
  proof -
    have "Max {..<n} = n - 1" using that by (intro Max_eqI) auto
    then show ?thesis using that by simp
  qed
  then have e: "cells_used_max_p1 c = n" by (auto simp: cells_used_max_p1_def n(2) lessThan_empty_iff)
  show "kc_used c = {..<cells_used_max_p1 c}" "cells_used_max_p1 c \<le> cells_size c"
    "i \<le> j \<Longrightarrow> j < cells_used_max_p1 c \<Longrightarrow> kc_pos c ! i \<le> kc_pos c ! j"
    using n by (auto simp: e)
qed

lemma cell_search_ok:
  assumes "cells_inv c" "dense_cells c" "lo \<le> hi" "hi \<le> cells_used_max_p1 c"
    "\<forall>i < lo. kc_pos c ! i < p" "\<forall>i. hi \<le> i \<and> i < cells_used_max_p1 c \<longrightarrow> p \<le> kc_pos c ! i"
  shows "\<exists>k \<le> cells_used_max_p1 c. cell_search c p lo hi = Some k \<and>
    (\<forall>i < cells_used_max_p1 c. i < k \<longleftrightarrow> kc_pos c ! i < p)"
  using assms
proof (induction c p lo hi rule: cell_search.induct)
  case (1 c p lo hi)
  note D = dense_used [OF "1.prems"(2)] and U = cells_invD(9) [OF "1.prems"(1)]
  show ?case
  proof (cases "lo < hi")
    case True
    define mid where "mid = lo + (hi - lo) div 2"
    have mid: "lo \<le> mid" "mid < hi" using True by (auto simp: mid_def)
    have u: "mid \<in> kc_used c" using mid(2) "1.prems"(4) by (simp add: D(1))
    then have get: "cells_pos_get mid c = Some (kc_pos c ! mid)"
      using U [of mid] by (simp add: cells_pos_get_def)
    have mono: "kc_pos c ! i \<le> kc_pos c ! j" if "i \<le> j" "j < cells_used_max_p1 c" for i j using D(3) that .
    show ?thesis
    proof (cases "kc_pos c ! mid < p")
      case lt: True
      have "\<forall>i < mid + 1. kc_pos c ! i < p"
        using mono [of _ mid] lt mid "1.prems"(4) by (metis Suc_eq_plus1 le_less_trans less_Suc_eq_le less_le_trans)
      with "1.IH"(1) [OF True mid_def get] lt mid "1.prems" True get show ?thesis
        by (subst cell_search.simps) (simp add: mid_def [symmetric] Let_def)
    next
      case ge: False
      have "\<forall>i. mid \<le> i \<and> i < cells_used_max_p1 c \<longrightarrow> p \<le> kc_pos c ! i"
        using mono [of mid] ge by (meson leI le_less_trans order_trans)
      with "1.IH"(2) [OF True mid_def get] ge mid "1.prems" True get show ?thesis
        by (subst cell_search.simps) (simp add: mid_def [symmetric] Let_def)
    qed
  next
    case False
    with "1.prems" show ?thesis
      by (subst cell_search.simps) (auto simp: not_less)
  qed
qed

lemma cell_of_ok:
  assumes "cells_inv c" "dense_cells c"
  obtains k where "k \<le> cells_used_max_p1 c" "cell_of c p = Some k"
    "\<And>i. i < cells_used_max_p1 c \<Longrightarrow> i < k \<longleftrightarrow> kc_pos c ! i < p"
proof (cases "p \<le> 0")
  case True
  have "\<not> kc_pos c ! i < p" if "i < cells_used_max_p1 c" for i
  proof -
    have "i \<in> kc_used c" using that dense_used(1) [OF assms(2)] by simp
    then have "kc_pos c ! i \<ge> 0" using cells_invD(9) [OF assms(1)] pos_nonneg [OF assms(1)] by blast
    with True show ?thesis by simp
  qed
  with True show ?thesis by (intro that [of 0]) (auto simp: cell_of_def)
next
  case False
  with cell_search_ok [OF assms, of 0 "cells_used_max_p1 c" p] that show ?thesis
    by (auto simp: cell_of_def)
qed

lemma scan_range_ok:
  assumes "cells_inv c" "0 \<le> p0" "cf_sj cf = None \<or> dense_cells c"
  obtains idxs where "scan_range cf p0 p1 c = Some idxs" "sorted_wrt (<) idxs" "set idxs \<subseteq> {..<cells_size c}"
    "\<And>j. j < cells_size c \<Longrightarrow> j \<notin> set idxs \<Longrightarrow> \<not> in_range p0 p1 (cell_at c j)"
proof (cases "cf_sj cf")
  case None
  then show ?thesis by (intro that [of "[0..<cells_size c]"]) (auto simp: scan_range_def)
next
  case (Some P)
  then have d: "dense_cells c" using assms(3) by simp
  note D = dense_used [OF d]
  from cell_of_ok [OF assms(1) d, of p0] obtain k0 where k0: "k0 \<le> cells_used_max_p1 c" "cell_of c p0 = Some k0"
    "\<And>i. i < cells_used_max_p1 c \<Longrightarrow> i < k0 \<longleftrightarrow> kc_pos c ! i < p0" by blast
  from cell_of_ok [OF assms(1) d, of p1] obtain k1 where k1: "k1 \<le> cells_used_max_p1 c" "cell_of c p1 = Some k1"
    "\<And>i. i < cells_used_max_p1 c \<Longrightarrow> i < k1 \<longleftrightarrow> kc_pos c ! i < p1" by blast
  show ?thesis
  proof (rule that [of "[k0..<k1]"])
    show "scan_range cf p0 p1 c = Some [k0..<k1]" using Some k0 k1 by (simp add: scan_range_def)
    show "set [k0..<k1] \<subseteq> {..<cells_size c}" using k1(1) D(2) by auto
    show "\<not> in_range p0 p1 (cell_at c j)" if "j < cells_size c" "j \<notin> set [k0..<k1]" for j
    proof (cases "j \<in> kc_used c")
      case True
      then have "j < cells_used_max_p1 c" using D(1) by simp
      with that(2) k0(3) [of j] k1(3) [of j] show ?thesis by auto
    next
      case False
      then have "kc_pos c ! j = -1" using that(1) cells_invD(9) [OF assms(1)] by blast
      with assms(2) show ?thesis by simp
    qed
  qed simp
qed

lemma seq_rm_cells_ok:
  assumes "cells_inv c" "0 \<le> s" "s < LLAMA_MAX_SEQ" "0 \<le> p0" "cf_sj cf = None \<or> dense_cells c"
  shows "\<exists>c'. seq_rm_cells cf s p0 p1 c =
      Some (c', lowest_freed (edit_if (hits s p0 p1) (drop_seq s)) c {..<cells_size c}) \<and>
    swept (edit_if (hits s p0 p1) (drop_seq s)) (\<lambda>_. False) {..<cells_size c} c c'"
proof -
  let ?g = "edit_if (hits s p0 p1) (drop_seq s)"
  have miss: "?g (cell_at c j) = cell_at c j" if "\<not> hits s p0 p1 (cell_at c j)" for j
    using that by (simp add: edit_if_def)
  have all: "(\<exists>c'. r = Some (c', lowest_freed ?g c S) \<and> swept ?g (\<lambda>_. False) S c c') \<longrightarrow>
      (\<exists>c'. r = Some (c', lowest_freed ?g c {..<cells_size c}) \<and> swept ?g (\<lambda>_. False) {..<cells_size c} c c')"
    if "S \<subseteq> {..<cells_size c}" "\<And>j. j < cells_size c \<Longrightarrow> j \<notin> S \<Longrightarrow> \<not> hits s p0 p1 (cell_at c j)" for S r
  proof -
    have same: "?g (cell_at c j) = cell_at c j" if "j \<in> {..<cells_size c}" "j \<notin> S" for j
      using miss that \<open>\<And>j. j < cells_size c \<Longrightarrow> j \<notin> S \<Longrightarrow> \<not> hits s p0 p1 (cell_at c j)\<close> by simp
    show ?thesis
      using lowest_freed_same [where g = ?g and c = c, OF that(1) same]
        swept_same [where g = ?g and c = c and marks = "\<lambda>_. False", OF that(1)] same by auto
  qed
  show ?thesis
  proof (cases "cf_bookkeep cf")
    case True
    note I = indexed_cells_set [OF assms(1), of s p0 p1]
    have "\<exists>c'. seq_rm_cells cf s p0 p1 c = Some (c', lowest_freed ?g c (set (indexed_cells s p0 p1 c))) \<and>
        swept ?g (\<lambda>_. False) (set (indexed_cells s p0 p1 c)) c c'"
      using rm_idx.sweep_min_ok [OF assms(1) I(2), of s p0 p1] I(1) True by (simp add: seq_rm_cells_def)
    then show ?thesis using all [of "set (indexed_cells s p0 p1 c)"] I(1) by auto
  next
    case False
    obtain idxs where idxs: "scan_range cf p0 p1 c = Some idxs" "sorted_wrt (<) idxs" "set idxs \<subseteq> {..<cells_size c}"
      "\<And>j. j < cells_size c \<Longrightarrow> j \<notin> set idxs \<Longrightarrow> \<not> in_range p0 p1 (cell_at c j)"
      by (rule scan_range_ok [OF assms(1,4,5)]) blast
    have "\<exists>c'. seq_rm_cells cf s p0 p1 c = Some (c', lowest_freed ?g c (set idxs)) \<and> swept ?g (\<lambda>_. False) (set idxs) c c'"
      using rm_scan.sweep_first_ok [OF assms(1) idxs(2), of s p0 p1] idxs(1,3) assms(2,3) False
      by (auto simp: seq_rm_cells_def)
    then show ?thesis using all [OF idxs(3)] idxs(4) by (auto simp: hits_def)
  qed
qed

subsection \<open>Properties\<close>

text \<open>C30. The indexed and the scanning \<open>seq_rm\<close> are the same function. Walking the ordered position index
  (the default) and scanning the cells (\<open>LLAMA_BOOKKEEP_KV=0\<close>; for an SJ-KVaRN stream only the cells the
  binary search selects) succeed together, leave the same cells and report the same candidate for the
  search head, below which no cell was freed.\<close>

theorem kv_seq_rm_paths_agree:
  assumes "cells_inv c" "0 \<le> s" "s < LLAMA_MAX_SEQ" "0 \<le> p0" "cf_sj cf = None \<or> dense_cells c"
  shows "\<exists>c' h. seq_rm_cells (cf\<lparr>cf_bookkeep := True\<rparr>) s p0 p1 c = Some (c', h) \<and>
    seq_rm_cells (cf\<lparr>cf_bookkeep := False\<rparr>) s p0 p1 c = Some (c', h) \<and> h \<le> cells_size c \<and>
    (\<forall>i < h. kc_pos c ! i \<noteq> -1 \<longrightarrow> kc_pos c' ! i \<noteq> -1)"
proof -
  let ?g = "edit_if (hits s p0 p1) (drop_seq s)" and ?n = "{..<cells_size c}"
  obtain c1 where c1: "seq_rm_cells (cf\<lparr>cf_bookkeep := True\<rparr>) s p0 p1 c = Some (c1, lowest_freed ?g c ?n)"
    "swept ?g (\<lambda>_. False) ?n c c1"
    using seq_rm_cells_ok [OF assms(1-4), of "cf\<lparr>cf_bookkeep := True\<rparr>" p1] assms(5) by auto
  obtain c2 where c2: "seq_rm_cells (cf\<lparr>cf_bookkeep := False\<rparr>) s p0 p1 c = Some (c2, lowest_freed ?g c ?n)"
    "swept ?g (\<lambda>_. False) ?n c c2"
    using seq_rm_cells_ok [OF assms(1-4), of "cf\<lparr>cf_bookkeep := False\<rparr>" p1] assms(5) by auto
  have le: "lowest_freed ?g c ?n \<le> cells_size c" by (simp add: lowest_freed_le)
  have "kc_pos c1 ! i \<noteq> -1" if "i < lowest_freed ?g c ?n" "kc_pos c ! i \<noteq> -1" for i
  proof -
    have i: "i < cells_size c" using that(1) le by simp
    have "\<not> freed_by (cell_at c i) (?g (cell_at c i))"
      using that(1) i unfolding lowest_freed_def by (subst (asm) Min_gr_iff) auto
    moreover have "fst (?g (cell_at c i)) = kc_pos c1 ! i"
      using sweptD(3) [OF c1(2) i] i by (metis cell_at_simps(1) lessThan_iff)
    ultimately show ?thesis using that(2) by (simp add: freed_by_def)
  qed
  with c1 c2 swept_unique [OF c1(2) c2(2)] le show ?thesis by blast
qed

lemma resize_dense: "dense_cells (cells_put 0 7 e 0 {3} (cells_resize 2 cells_new))"
proof -
  let ?c = "cells_put 0 7 e 0 {3} (cells_resize 2 cells_new)"
  have "kc_used ?c = {..<1}" by (auto simp: cells_put_def cells_resize_def cells_reset_def Let_def)
  moreover have "cells_size ?c = 2" using cells_resize_inv [OF cells_new_inv] by simp
  ultimately show ?thesis by (auto simp: dense_cells_def)
qed

lemma one_cell_inv: "cells_inv (cells_put 0 7 e 0 {3} (cells_resize 2 cells_new))"
  using cells_resize_inv [OF cells_new_inv, of 2] by (auto intro!: cells_put_inv simp: LLAMA_MAX_SEQ_def)

theorem kv_seq_rm_paths_agree_witness:
  "\<forall>cf. \<exists>c' h. seq_rm_cells (cf\<lparr>cf_bookkeep := True\<rparr>) 3 5 9 (cells_put 0 7 kv_cell_ext_default 0 {3} (cells_resize 2 cells_new)) = Some (c', h) \<and>
    seq_rm_cells (cf\<lparr>cf_bookkeep := False\<rparr>) 3 5 9 (cells_put 0 7 kv_cell_ext_default 0 {3} (cells_resize 2 cells_new)) = Some (c', h)"
proof
  fix cf :: kv_cfg
  have "0 \<le> (3::int)" "3 < LLAMA_MAX_SEQ" "0 \<le> (5::int)" by (simp_all add: LLAMA_MAX_SEQ_def)
  from kv_seq_rm_paths_agree [OF one_cell_inv this disjI2 [OF resize_dense]] show "\<exists>c' h. seq_rm_cells (cf\<lparr>cf_bookkeep := True\<rparr>) 3 5 9 (cells_put 0 7 kv_cell_ext_default 0 {3} (cells_resize 2 cells_new)) = Some (c', h) \<and>
    seq_rm_cells (cf\<lparr>cf_bookkeep := False\<rparr>) 3 5 9 (cells_put 0 7 kv_cell_ext_default 0 {3} (cells_resize 2 cells_new)) = Some (c', h)"
    by blast
qed

text \<open>The binary search of an SJ-KVaRN stream returns and finds the right cell: \<open>sj_kvarn_cell_of(p)\<close> is
  the number of cells of the stream at positions below \<open>p\<close>, without touching an empty cell on the way.\<close>

theorem sj_cell_of_counts:
  assumes "cells_inv c" "dense_cells c"
  shows "cell_of c p = Some (card {i. i < cells_used_max_p1 c \<and> kc_pos c ! i < p})"
proof -
  obtain k where k: "k \<le> cells_used_max_p1 c" "cell_of c p = Some k"
    "\<And>i. i < cells_used_max_p1 c \<Longrightarrow> i < k \<longleftrightarrow> kc_pos c ! i < p" using cell_of_ok [OF assms] by blast
  have "{i. i < cells_used_max_p1 c \<and> kc_pos c ! i < p} = {..<k}"
  proof (intro set_eqI)
    fix i show "i \<in> {i. i < cells_used_max_p1 c \<and> kc_pos c ! i < p} \<longleftrightarrow> i \<in> {..<k}"
      using k(1) k(3) [of i] by (cases "i < cells_used_max_p1 c") auto
  qed
  with k(2) show ?thesis by simp
qed

theorem sj_cell_of_counts_witness:
  "cell_of (cells_put 0 7 kv_cell_ext_default 0 {3} (cells_resize 2 cells_new)) 8 = Some 1"
proof -
  let ?c = "cells_put 0 7 kv_cell_ext_default 0 {3} (cells_resize 2 cells_new)"
  have "kc_used ?c = {0}" "kc_pos ?c ! 0 = 7"
    by (auto simp: cells_put_def cells_resize_def cells_reset_def Let_def cells_size_def)
  then have "cells_used_max_p1 ?c = 1" "kc_pos ?c ! 0 < 8" by (simp_all add: cells_used_max_p1_def)
  then have "{i. i < cells_used_max_p1 ?c \<and> kc_pos ?c ! i < 8} = {0}"
    by (simp only: less_one) (metis (mono_tags, lifting) Collect_cong singleton_conv)
  with sj_cell_of_counts [OF one_cell_inv resize_dense, of kv_cell_ext_default 8] show ?thesis by simp
qed

end
