(* ===== verification/Kv_Ops.thy ===== *)
theory Kv_Ops
  imports Kv_Cache
begin

section \<open>What the sequence operations of the KV cache promise\<close>

text \<open>
  A client of the cache sees sequences: for each sequence id the cells that hold its tokens and their
  positions. This theory states the effect of every sequence operation on that view, shows that the
  operations of theory Kv_Cache implement it on every branch and keep the invariant of the cache, and
  that the search head each leaves behind is never past the cells it freed. The theorems are about a
  cache without SJ-KVaRN; theories Sj_Kvarn and Sj_Pool treat that mode.
\<close>

subsection \<open>Invariant\<close>

definition valid_seq :: "kv_cfg \<Rightarrow> int \<Rightarrow> bool" where
  "valid_seq cf s \<longleftrightarrow> 0 \<le> s \<and> nat s < length (cf_seq_to_stream cf)"

definition stream :: "kv_cfg \<Rightarrow> int \<Rightarrow> nat" where
  "stream cf s = cf_seq_to_stream cf ! nat s"

text \<open>A configuration as the constructor leaves it, of a cache that owns its cells and does not stream
  blocks; \<open>cfg_ok\<close> excludes SJ-KVaRN besides.\<close>

definition cfg_sane :: "kv_cfg \<Rightarrow> bool" where
  "cfg_sane cf \<longleftrightarrow> \<not> cf_other cf \<and> \<not> cf_streaming cf \<and> cf_seq_to_stream cf \<noteq> [] \<and>
     length (cf_seq_to_stream cf) \<le> nat LLAMA_MAX_SEQ \<and> (\<forall>st \<in> set (cf_seq_to_stream cf). st < cf_n_stream cf)"

definition cfg_ok :: "kv_cfg \<Rightarrow> bool" where
  "cfg_ok cf \<longleftrightarrow> cfg_sane cf \<and> cf_sj cf = None"

text \<open>An occupied cell of a stream belongs to at least one sequence, and only to sequences of the stream.\<close>

definition cell_ok :: "kv_cfg \<Rightarrow> nat \<Rightarrow> kv_cell \<Rightarrow> bool" where
  "cell_ok cf st x \<longleftrightarrow> (\<forall>s. has_seq s x \<longrightarrow> valid_seq cf s \<and> stream cf s = st) \<and> (fst x \<noteq> -1 \<longrightarrow> (\<exists>s. has_seq s x))"

definition stream_ok :: "kv_cfg \<Rightarrow> nat \<Rightarrow> kv_cells \<Rightarrow> bool" where
  "stream_ok cf st c \<longleftrightarrow> cells_inv c \<and> (\<forall>i < cells_size c. cell_ok cf st (cell_at c i))"

definition kv_inv :: "kv_cfg \<Rightarrow> nat \<Rightarrow> kv_cache \<Rightarrow> bool" where
  "kv_inv cf n kv \<longleftrightarrow> length (kv_cells kv) = cf_n_stream cf \<and> length (kv_heads kv) = cf_n_stream cf \<and>
     (\<forall>st < cf_n_stream cf. stream_ok cf st (kv_cells kv ! st) \<and> cells_size (kv_cells kv ! st) = n \<and> kv_heads kv ! st \<le> n)"

lemma kv_invD:
  assumes "kv_inv cf n kv" "st < cf_n_stream cf"
  shows "cells_inv (kv_cells kv ! st)" "stream_ok cf st (kv_cells kv ! st)" "cells_size (kv_cells kv ! st) = n"
    "kv_heads kv ! st \<le> n" "st < length (kv_cells kv)" "st < length (kv_heads kv)"
  using assms by (auto simp: kv_inv_def stream_ok_def)

lemma cfg_saneD:
  assumes "cfg_sane cf"
  shows "valid_seq cf s \<Longrightarrow> stream cf s < cf_n_stream cf" "valid_seq cf s \<Longrightarrow> 0 \<le> s \<and> s < LLAMA_MAX_SEQ"
    "valid_seq cf s \<Longrightarrow> stream_of cf s = Some (stream cf s)" "cf_other cf = False" "cf_streaming cf = False"
  using assms by (auto simp: cfg_sane_def valid_seq_def stream_def stream_of_def LLAMA_MAX_SEQ_def)

lemma cfg_okD:
  assumes "cfg_ok cf"
  shows "valid_seq cf s \<Longrightarrow> stream cf s < cf_n_stream cf" "valid_seq cf s \<Longrightarrow> 0 \<le> s \<and> s < LLAMA_MAX_SEQ"
    "valid_seq cf s \<Longrightarrow> stream_of cf s = Some (stream cf s)" "cf_other cf = False" "cf_streaming cf = False" "cf_sj cf = None"
  using assms cfg_saneD [of cf] by (auto simp: cfg_ok_def)

lemma kv_put_inv:
  assumes "kv_inv cf n kv" "st < cf_n_stream cf" "stream_ok cf st c" "cells_size c = n" "h \<le> n"
  shows "kv_inv cf n (kv_put st c h kv)"
  using assms by (auto simp: kv_inv_def kv_put_def nth_list_update)

subsection \<open>The view of a client\<close>

definition sview :: "kv_cells \<Rightarrow> int \<Rightarrow> (nat \<times> int) set" where
  "sview c s = {(i, p). i < cells_size c \<and> has_seq s (cell_at c i) \<and> p = fst (cell_at c i)}"

definition kv_view :: "kv_cfg \<Rightarrow> kv_cache \<Rightarrow> int \<Rightarrow> (nat \<times> int) set" where
  "kv_view cf kv s = (if valid_seq cf s then sview (kv_cells kv ! stream cf s) s else {})"

lemma kv_view_put:
  assumes "st < length (kv_cells kv)"
  shows "kv_view cf (kv_put st c h kv) s = (if valid_seq cf s \<and> stream cf s = st then sview c s else kv_view cf kv s)"
  using assms by (auto simp: kv_view_def kv_put_def nth_list_update)

lemma sview_swept:
  assumes "swept g marks {..<cells_size c} c c'"
  shows "sview c' s = {(i, p). i < cells_size c \<and> has_seq s (g (cell_at c i)) \<and> p = fst (g (cell_at c i))}"
  using sweptD(2) [OF assms] sweptD(3) [OF assms] by (auto simp: sview_def simp del: cell_at_simps)

lemma stream_ok_swept:
  assumes "swept g marks {..<cells_size c} c c'" "\<And>i. i < cells_size c \<Longrightarrow> cell_ok cf st (g (cell_at c i))"
  shows "stream_ok cf st c'"
  using sweptD [OF assms(1)] assms(2) by (auto simp: stream_ok_def)

lemma has_seq_simps [simp]:
  "has_seq s (p, e, sh, S) \<longleftrightarrow> s \<in> S" "\<not> has_seq s empty_cell" "fst empty_cell = -1"
  by (simp_all add: has_seq_def empty_cell_def)

lemma cell_ok_empty [simp]: "cell_ok cf st empty_cell"
  by (simp add: cell_ok_def)

lemma view_pos_nonneg:
  assumes "cells_inv c" "(i, p) \<in> sview c s"
  shows "p \<ge> 0"
  using assms seq_pos_set [of c i s] by (auto simp: sview_def)

subsection \<open>Operations and their effect on the view\<close>

datatype kv_op =
    K_seq_rm int int int
  | K_seq_cp int int int int
  | K_seq_keep int
  | K_seq_add int int int int
  | K_seq_div int int int int
  | K_clear

fun kv_step :: "kv_cfg \<Rightarrow> kv_op \<Rightarrow> kv_cache \<Rightarrow> kv_cache option" where
  "kv_step cf (K_seq_rm s p0 p1) kv = map_option fst (kv_seq_rm cf s p0 p1 kv)"
| "kv_step cf (K_seq_cp s d p0 p1) kv = kv_seq_cp cf s d p0 p1 kv"
| "kv_step cf (K_seq_keep s) kv = kv_seq_keep cf s kv"
| "kv_step cf (K_seq_add s p0 p1 d) kv = kv_seq_add cf s p0 p1 d kv"
| "kv_step cf (K_seq_div s p0 p1 d) kv = kv_seq_div cf s p0 p1 d kv"
| "kv_step cf K_clear kv = kv_clear cf kv"

definition within :: "int \<Rightarrow> int \<Rightarrow> int \<Rightarrow> bool" where
  "within p0 p1 p \<longleftrightarrow> norm_p0 p0 \<le> p \<and> p < norm_p1 p1"

definition same_stream :: "kv_cfg \<Rightarrow> int \<Rightarrow> int \<Rightarrow> bool" where
  "same_stream cf s t \<longleftrightarrow> valid_seq cf t \<and> stream cf t = stream cf s"

text \<open>Moving the positions of a sequence moves the cells it shares with the other sequences of its stream.\<close>

definition remap :: "kv_cfg \<Rightarrow> int \<Rightarrow> (int \<Rightarrow> bool) \<Rightarrow> (int \<Rightarrow> int) \<Rightarrow> (int \<Rightarrow> (nat \<times> int) set) \<Rightarrow> int \<Rightarrow> (nat \<times> int) set" where
  "remap cf s w h V t = (if same_stream cf s t
     then {(i, q). \<exists>p. (i, p) \<in> V t \<and> q = (if (i, p) \<in> V s \<and> w p then h p else p) \<and> q \<ge> 0} else V t)"

fun kv_spec :: "kv_cfg \<Rightarrow> kv_op \<Rightarrow> (int \<Rightarrow> (nat \<times> int) set) \<Rightarrow> (int \<Rightarrow> (nat \<times> int) set)" where
  "kv_spec cf (K_seq_rm s p0 p1) V =
     (\<lambda>t. if s = -1 \<or> t = s then {x \<in> V t. \<not> within p0 p1 (snd x)} else V t)"
| "kv_spec cf (K_seq_cp s d p0 p1) V =
     (if stream cf s = stream cf d then V(d := V d \<union> {x \<in> V s. s \<noteq> d \<and> within p0 p1 (snd x)})
      else (\<lambda>t. if t = d then V s else if same_stream cf d t then {} else V t))"
| "kv_spec cf (K_seq_keep s) V = (\<lambda>t. if t \<noteq> s \<and> same_stream cf s t then {} else V t)"
| "kv_spec cf (K_seq_add s p0 p1 d) V = remap cf s (within p0 p1) (\<lambda>p. p + d) V"
| "kv_spec cf (K_seq_div s p0 p1 d) V = remap cf s (within p0 p1) (\<lambda>p. tdiv p d) V"
| "kv_spec cf K_clear V = (\<lambda>_. {})"

text \<open>What the assertions of each operation ask of its caller: those of the function, those of the cell updates
  it makes, for \<open>seq_cp\<close> between streams \<open>assert(pos >= 0)\<close> after \<open>pos -= shift\<close>; and a divisor that leaves
  no position it divides negative, which no assertion of the code checks.\<close>

fun kv_pre :: "kv_cfg \<Rightarrow> nat \<Rightarrow> kv_op \<Rightarrow> kv_cache \<Rightarrow> bool" where
  "kv_pre cf n (K_seq_rm s p0 p1) kv = (s = -1 \<or> valid_seq cf s)"
| "kv_pre cf n (K_seq_cp s d p0 p1) kv = (valid_seq cf s \<and> valid_seq cf d \<and>
     (if stream cf s = stream cf d
      then s \<noteq> d \<longrightarrow> (\<forall>x \<in> kv_view cf kv s. within p0 p1 (snd x) \<longrightarrow> x \<notin> kv_view cf kv d)
      else \<not> (p0 > 0 \<and> p0 + 1 < int n) \<and> \<not> (p1 > 0 \<and> p1 + 1 < int n) \<and>
        (\<forall>(i, p) \<in> kv_view cf kv s. kc_shift (kv_cells kv ! stream cf s) ! i \<le> p)))"
| "kv_pre cf n (K_seq_keep s) kv = valid_seq cf s"
| "kv_pre cf n (K_seq_add s p0 p1 d) kv = (valid_seq cf s \<and> cf_n_pos_per_embd cf = 1)"
| "kv_pre cf n (K_seq_div s p0 p1 d) kv = (valid_seq cf s \<and> cf_n_pos_per_embd cf = 1 \<and>
     (\<forall>x \<in> kv_view cf kv s. within p0 p1 (snd x) \<longrightarrow> d \<noteq> 0 \<and> 0 \<le> tdiv (snd x) d))"
| "kv_pre cf n K_clear kv = True"

subsection \<open>Each operation refines its effect\<close>

lemma sweep_result:
  assumes "cfg_ok cf" "kv_inv cf n kv" "st < cf_n_stream cf" "swept g marks {..<n} (kv_cells kv ! st) c'" "h \<le> n"
    and "\<And>x. cell_ok cf st x \<Longrightarrow> cell_ok cf st (g x)"
  shows "kv_inv cf n (kv_put st c' h kv)"
    "valid_seq cf t \<Longrightarrow> stream cf t = st \<Longrightarrow> (i, q) \<in> kv_view cf (kv_put st c' h kv) t \<longleftrightarrow>
       i < n \<and> has_seq t (g (cell_at (kv_cells kv ! st) i)) \<and> q = fst (g (cell_at (kv_cells kv ! st) i))"
    "\<not> (valid_seq cf t \<and> stream cf t = st) \<Longrightarrow> kv_view cf (kv_put st c' h kv) t = kv_view cf kv t"
proof -
  note D = kv_invD [OF assms(2,3)]
  note sw = assms(4) [folded D(3)]
  have "stream_ok cf st c'" using D(2) assms(6) by (intro stream_ok_swept [OF sw]) (auto simp: stream_ok_def)
  then show "kv_inv cf n (kv_put st c' h kv)" using sweptD(2) [OF sw] D(3) assms(5)
    by (intro kv_put_inv assms(2,3)) auto
qed (use kv_invD [OF assms(2,3)] assms(4) in
  \<open>auto simp: kv_view_put sview_swept simp del: cell_at_simps\<close>)

lemma kv_view_stream:
  assumes "kv_inv cf n kv" "st < cf_n_stream cf" "valid_seq cf t" "stream cf t = st"
  shows "(i, q) \<in> kv_view cf kv t \<longleftrightarrow>
    i < n \<and> has_seq t (cell_at (kv_cells kv ! st) i) \<and> q = fst (cell_at (kv_cells kv ! st) i)"
  using assms(3,4) kv_invD(3) [OF assms(1,2)] by (simp add: kv_view_def sview_def del: cell_at_simps)

text \<open>The edits, as a client sees them.\<close>

lemma edit_view_1: "has_seq t (edit_if (hits s a b) (drop_seq s) x) \<longleftrightarrow> has_seq t x \<and> \<not> (t = s \<and> in_range a b x)"
  by (cases x) (auto simp: edit_if_def hits_def in_range_def empty_cell_def)

lemma edit_view_2: "has_seq t (edit_if (hits s a b) (drop_seq s) x) \<Longrightarrow> fst (edit_if (hits s a b) (drop_seq s) x) = fst x"
  by (cases x) (auto simp: edit_if_def hits_def in_range_def empty_cell_def)

lemma edit_view_3: "has_seq t (edit_if (in_range a b) (\<lambda>_. empty_cell) x) \<longleftrightarrow> has_seq t x \<and> \<not> in_range a b x"
  by (cases x) (auto simp: edit_if_def hits_def in_range_def empty_cell_def)

lemma edit_view_4: "\<not> in_range a b x \<Longrightarrow> edit_if (in_range a b) (\<lambda>_. empty_cell) x = x"
  by (cases x) (auto simp: edit_if_def hits_def in_range_def empty_cell_def)

lemma edit_view_5: "(fst x = -1 \<Longrightarrow> \<not> has_seq t x) \<Longrightarrow> has_seq t (keep_seq s x) \<longleftrightarrow> t = s \<and> has_seq s x"
  by (cases x) (auto simp: empty_cell_def)

lemma edit_view_6: "has_seq t (keep_seq s x) \<Longrightarrow> fst (keep_seq s x) = fst x"
  by (cases x) (auto split: if_splits)

lemma edit_view_7: "has_seq t (edit_if (hits s a b) (share_seq u) x) \<longleftrightarrow> has_seq t x \<or> t = u \<and> hits s a b x"
  by (cases x) (auto simp: edit_if_def hits_def in_range_def empty_cell_def)

lemma edit_view_8: "fst (edit_if (hits s a b) (share_seq u) x) = fst x"
  by (cases x) (auto simp: edit_if_def hits_def in_range_def empty_cell_def)

lemma edit_view_9: "has_seq t (edit_if (hits s a b) (shift_cell d) x) \<longleftrightarrow> has_seq t x \<and> \<not> (hits s a b x \<and> fst x + d < 0)"
  by (cases x) (auto simp: edit_if_def hits_def in_range_def empty_cell_def)

lemma edit_view_10: "\<not> (hits s a b x \<and> fst x + d < 0) \<Longrightarrow> fst (edit_if (hits s a b) (shift_cell d) x) = (if hits s a b x then fst x + d else fst x)"
  by (cases x) (auto simp: edit_if_def hits_def in_range_def empty_cell_def)

lemma edit_view_11: "has_seq t (edit_if (hits s a b) (div_cell d) x) \<longleftrightarrow> has_seq t x"
  by (cases x) (auto simp: edit_if_def hits_def in_range_def empty_cell_def)

lemma edit_view_12: "fst (edit_if (hits s a b) (div_cell d) x) = (if hits s a b x then tdiv (fst x) d else fst x)"
  by (cases x) (auto simp: edit_if_def hits_def in_range_def empty_cell_def)

lemmas edit_views = edit_view_1 edit_view_2 edit_view_3 edit_view_4 edit_view_5 edit_view_6 edit_view_7 edit_view_8 edit_view_9 edit_view_10 edit_view_11 edit_view_12

lemma lower_head_le: "nh \<le> n \<Longrightarrow> h \<le> n \<Longrightarrow> lower_head nh c h \<le> n"
  by (auto simp: lower_head_def)

lemma cell_ok_edits:
  assumes "cell_ok cf st x"
  shows "cell_ok cf st (edit_if hit (drop_seq s) x)" "cell_ok cf st (edit_if hit (\<lambda>_. empty_cell) x)"
    "cell_ok cf st (keep_seq s x)" "cell_ok cf st (edit_if (hits s p0 p1) (shift_cell d) x)"
    "cell_ok cf st (edit_if (hits s p0 p1) (div_cell d) x)"
    "valid_seq cf t \<Longrightarrow> stream cf t = st \<Longrightarrow> cell_ok cf st (edit_if hit (share_seq t) x)"
  using assms by (cases x; auto simp: cell_ok_def edit_if_def hits_def)+

lemma norm_nonneg: "0 \<le> norm_p0 p0"
  by (simp add: norm_p0_def)

lemma seq_rm_one:
  assumes "cfg_ok cf" "kv_inv cf n kv" "valid_seq cf s"
  shows "\<exists>kv'. kv_seq_rm cf s p0 p1 kv = Some (kv', True) \<and> kv_inv cf n kv' \<and> kv_view cf kv' = kv_spec cf (K_seq_rm s p0 p1) (kv_view cf kv)"
proof -
  define st where "st = stream cf s"
  note C = cfg_okD [OF assms(1)]
  have st: "st < cf_n_stream cf" using C(1) assms(3) by (simp add: st_def)
  have s: "0 \<le> s" "s < LLAMA_MAX_SEQ" using C(2) assms(3) by auto
  note D = kv_invD [OF assms(2) st]
  let ?c = "kv_cells kv ! st" and ?g = "edit_if (hits s (norm_p0 p0) (norm_p1 p1)) (drop_seq s)"
  from seq_rm_cells_ok [OF D(1) s norm_nonneg, of cf p0 "norm_p1 p1"] C(6)
  obtain c' where c': "seq_rm_cells cf s (norm_p0 p0) (norm_p1 p1) ?c = Some (c', lowest_freed ?g ?c {..<n})"
    "swept ?g (\<lambda>_. False) {..<n} ?c c'" by (auto simp: D(3))
  let ?h = "lower_head (lowest_freed ?g ?c {..<n}) c' (kv_heads kv ! st)"
  have h: "?h \<le> n" using lowest_freed_le [of "{..<n}" ?g ?c] D(3,4) by (intro lower_head_le) auto
  have "kv_seq_rm cf s p0 p1 kv = Some (kv_put st c' ?h kv, True)"
    using C(4,6) s assms(3) c'(1) by (simp add: kv_seq_rm_def Let_def st_def stream_def valid_seq_def)
  moreover note R = sweep_result [OF assms(1,2) st c'(2) h cell_ok_edits(1)]
  have "kv_view cf (kv_put st c' ?h kv) t = kv_spec cf (K_seq_rm s p0 p1) (kv_view cf kv) t" for t
  proof (cases "valid_seq cf t \<and> stream cf t = st")
    case True
    have "(i, q) \<in> kv_view cf (kv_put st c' ?h kv) t \<longleftrightarrow> (i, q) \<in> kv_spec cf (K_seq_rm s p0 p1) (kv_view cf kv) t" for i q
      using True s edit_views(2) [of t s "norm_p0 p0" "norm_p1 p1" "cell_at (kv_cells kv ! st) i"]
      by (auto simp: R(2) kv_view_stream [OF assms(2) st] edit_views(1) within_def in_range_def simp del: cell_at_simps)
    then show ?thesis by auto
  next
    case False
    then show ?thesis using R(3) s assms(3) by (auto simp: st_def)
  qed
  ultimately show ?thesis using R(1) by blast
qed

lemma view_pos:
  assumes "kv_inv cf n kv" "st < cf_n_stream cf" "i < n" "has_seq t (cell_at (kv_cells kv ! st) i)"
  shows "0 \<le> fst (cell_at (kv_cells kv ! st) i)"
proof -
  have "i < cells_size (kv_cells kv ! st)" "t \<in> kc_seq (kv_cells kv ! st) ! i"
    using assms(3,4) kv_invD(3) [OF assms(1,2)] by simp_all
  from seq_pos_set [OF kv_invD(1) [OF assms(1,2)] this] show ?thesis by simp
qed

lemma remap_iff:
  "same_stream cf s t \<Longrightarrow> (i, q) \<in> remap cf s w h V t \<longleftrightarrow>
    (\<exists>p. (i, p) \<in> V t \<and> q = (if (i, p) \<in> V s \<and> w p then h p else p) \<and> q \<ge> 0)"
  by (simp add: remap_def)

lemma remap_id:
  assumes "\<And>p. w p \<Longrightarrow> h p = p" "\<And>i p. (i, p) \<in> V t \<Longrightarrow> p \<ge> 0"
  shows "remap cf s w h V t = V t"
proof (cases "same_stream cf s t")
  case True
  have "(i, q) \<in> remap cf s w h V t \<longleftrightarrow> (i, q) \<in> V t" for i q
    unfolding remap_iff [OF True] using assms(1) [of q] assms(2) [of i q] assms(1) by metis
  then show ?thesis by auto
qed (simp add: remap_def)

lemma kv_view_nonneg: "cfg_ok cf \<Longrightarrow> kv_inv cf n kv \<Longrightarrow> (i, p) \<in> kv_view cf kv t \<Longrightarrow> p \<ge> 0"
  unfolding kv_view_def by (metis cfg_okD(1) empty_iff kv_invD(1) view_pos_nonneg)

text \<open>Moving the cells a sequence hits, as the client sees it.\<close>

lemma moved_view:
  assumes "cfg_ok cf" "kv_inv cf n kv" "valid_seq cf s" "valid_seq cf t" "stream cf t = stream cf s"
    "x = cell_at (kv_cells kv ! stream cf s) i"
  shows "(i, q) \<in> remap cf s (within p0 p1) h (kv_view cf kv) t \<longleftrightarrow> i < n \<and> has_seq t x \<and>
    q = (if hits s (norm_p0 p0) (norm_p1 p1) x then h (fst x) else fst x) \<and> q \<ge> 0"
proof -
  have st: "stream cf s < cf_n_stream cf" using cfg_okD(1) assms(1,3) by blast
  have V: "(i, p) \<in> kv_view cf kv u \<longleftrightarrow> i < n \<and> has_seq u x \<and> p = fst x" if "valid_seq cf u" "stream cf u = stream cf s" for u p
    using kv_view_stream [OF assms(2) st that] assms(6) by simp
  have "same_stream cf s t" using assms(4,5) by (simp add: same_stream_def)
  then show ?thesis
    unfolding remap_iff [OF \<open>same_stream cf s t\<close>] V [OF assms(3) refl] V [OF assms(4,5)] hits_def in_range_def within_def
    by auto
qed

lemma seq_add_ok:
  assumes "cfg_ok cf" "kv_inv cf n kv" "valid_seq cf s" "cf_n_pos_per_embd cf = 1"
  shows "\<exists>kv'. kv_seq_add cf s p0 p1 d kv = Some kv' \<and> kv_inv cf n kv' \<and> kv_view cf kv' = kv_spec cf (K_seq_add s p0 p1 d) (kv_view cf kv)"
proof -
  define st where "st = stream cf s"
  note C = cfg_okD [OF assms(1)]
  have st: "st < cf_n_stream cf" using C(1) assms(3) by (simp add: st_def)
  have s: "0 \<le> s" "s < LLAMA_MAX_SEQ" using C(2) assms(3) by auto
  note D = kv_invD [OF assms(2) st]
  let ?c = "kv_cells kv ! st" and ?a = "norm_p0 p0" and ?b = "norm_p1 p1"
  let ?g = "edit_if (hits s ?a ?b) (shift_cell d)"
  have view: "kv_spec cf (K_seq_add s p0 p1 d) (kv_view cf kv) t = kv_view cf kv t" if "d = 0 \<or> ?a = ?b" for t
    using that by (simp only: kv_spec.simps) (intro remap_id, auto simp: within_def dest: kv_view_nonneg [OF assms(1,2)])
  from shift.sweep_first_ok [OF D(1), of "[0..<n]" s ?a ?b d] s
  obtain c' where c': "sweep_first (seq_add_in s ?a ?b d) [0..<n] ?c = Some (c', lowest_freed ?g ?c {..<n})"
    "swept ?g (hits s ?a ?b) {..<n} ?c c'" by (auto simp: D(3) atLeast0LessThan)
  let ?h = "if lowest_freed ?g ?c {..<n} \<noteq> cells_size c' then lowest_freed ?g ?c {..<n} else 0"
  have h: "?h \<le> n" using lowest_freed_le [of "{..<n}" ?g ?c] D(3) by simp
  have eq: "kv_seq_add cf s p0 p1 d kv = Some (if d = 0 \<or> ?a = ?b then kv else kv_put st c' ?h kv)"
    using C(3) [OF assms(3)] C(4,5) assms(4) c'(1) by (simp add: kv_seq_add_def Let_def st_def [symmetric] D(3))
  note R = sweep_result [OF assms(1,2) st c'(2) h cell_ok_edits(4)]
  have "kv_view cf (kv_put st c' ?h kv) t = kv_spec cf (K_seq_add s p0 p1 d) (kv_view cf kv) t" for t
  proof (cases "valid_seq cf t \<and> stream cf t = st")
    case True
    have "(i, q) \<in> kv_view cf (kv_put st c' ?h kv) t \<longleftrightarrow> (i, q) \<in> kv_spec cf (K_seq_add s p0 p1 d) (kv_view cf kv) t" for i q
    proof -
      define x where "x = cell_at ?c i"
      have V: "(i, q) \<in> kv_view cf (kv_put st c' ?h kv) t \<longleftrightarrow> i < n \<and> has_seq t (?g x) \<and> q = fst (?g x)"
        using R(2) True by (simp add: x_def)
      have pos: "i < n \<Longrightarrow> has_seq t x \<Longrightarrow> 0 \<le> fst x" using view_pos [OF assms(2) st, of i t] by (simp add: x_def)
      show ?thesis
        unfolding V kv_spec.simps moved_view [OF assms(1-3) conjunct1 [OF True] conjunct2 [OF True, unfolded st_def] x_def [unfolded st_def]]
        using pos edit_view_9 [of t s ?a ?b d x] edit_view_10 [of s ?a ?b x d] by auto
    qed
    then show ?thesis by auto
  next
    case False
    then show ?thesis using R(3) by (auto simp: st_def remap_def same_stream_def)
  qed
  then show ?thesis using eq R(1) assms(2) view by (cases "d = 0 \<or> ?a = ?b") auto
qed

lemma tdiv_one [simp]: "tdiv p 1 = p"
  by (simp add: tdiv_def sgn_mult_abs)

lemma seq_div_ok:
  assumes "cfg_ok cf" "kv_inv cf n kv" "valid_seq cf s" "cf_n_pos_per_embd cf = 1"
    and d: "\<forall>x \<in> kv_view cf kv s. within p0 p1 (snd x) \<longrightarrow> d \<noteq> 0 \<and> 0 \<le> tdiv (snd x) d"
  shows "\<exists>kv'. kv_seq_div cf s p0 p1 d kv = Some kv' \<and> kv_inv cf n kv' \<and> kv_view cf kv' = kv_spec cf (K_seq_div s p0 p1 d) (kv_view cf kv)"
proof -
  define st where "st = stream cf s"
  note C = cfg_okD [OF assms(1)]
  have st: "st < cf_n_stream cf" using C(1) assms(3) by (simp add: st_def)
  have s: "0 \<le> s" "s < LLAMA_MAX_SEQ" using C(2) assms(3) by auto
  note D = kv_invD [OF assms(2) st]
  let ?c = "kv_cells kv ! st" and ?a = "norm_p0 p0" and ?b = "norm_p1 p1"
  let ?g = "edit_if (hits s ?a ?b) (div_cell d)"
  have view: "kv_spec cf (K_seq_div s p0 p1 d) (kv_view cf kv) t = kv_view cf kv t" if "d = 1 \<or> ?a = ?b" for t
    using that by (simp only: kv_spec.simps)
      (intro remap_id, auto simp: within_def tdiv_pos dest: kv_view_nonneg [OF assms(1,2)])
  have hit: "d \<noteq> 0 \<and> 0 \<le> tdiv (fst (cell_at ?c i)) d" if "i < n" "hits s ?a ?b (cell_at ?c i)" for i
  proof -
    have "(i, fst (cell_at ?c i)) \<in> kv_view cf kv s" "within p0 p1 (fst (cell_at ?c i))"
      using that kv_view_stream [OF assms(2) st assms(3)] by (auto simp: hits_def in_range_def within_def has_seq_def st_def cell_at_def)
    then show ?thesis using d by fastforce
  qed
  have m: "seq_div_in s ?a ?b d i c = map_option fst (map_option (\<lambda>c. (c, False)) (seq_div_in s ?a ?b d i c))" for i c
    by (simp add: option.map_comp comp_def option.map_ident)
  from division.sweep_plain_ok [where h = "seq_div_in s ?a ?b d" and idxs = "[0..<n]", OF D(1) _ _ m] s hit
  obtain c' where c': "for_each (seq_div_in s ?a ?b d) [0..<n] ?c = Some c'"
    "swept ?g (hits s ?a ?b) {..<n} ?c c'" by (auto simp: D(3) atLeast0LessThan)
  have eq: "kv_seq_div cf s p0 p1 d kv = Some (if d = 1 \<or> ?a = ?b then kv else kv_put st c' (kv_heads kv ! st) kv)"
    using C(3) [OF assms(3)] C(4,5) assms(4) c'(1) by (simp add: kv_seq_div_def Let_def st_def [symmetric] D(3))
  note R = sweep_result [OF assms(1,2) st c'(2) D(4) cell_ok_edits(5)]
  have "kv_view cf (kv_put st c' (kv_heads kv ! st) kv) t = kv_spec cf (K_seq_div s p0 p1 d) (kv_view cf kv) t" for t
  proof (cases "valid_seq cf t \<and> stream cf t = st")
    case True
    have "(i, q) \<in> kv_view cf (kv_put st c' (kv_heads kv ! st) kv) t \<longleftrightarrow> (i, q) \<in> kv_spec cf (K_seq_div s p0 p1 d) (kv_view cf kv) t" for i q
    proof -
      define x where "x = cell_at ?c i"
      have V: "(i, q) \<in> kv_view cf (kv_put st c' (kv_heads kv ! st) kv) t \<longleftrightarrow> i < n \<and> has_seq t (?g x) \<and> q = fst (?g x)"
        using R(2) True by (simp add: x_def)
      have pos: "i < n \<Longrightarrow> has_seq t x \<Longrightarrow> 0 \<le> fst x" using view_pos [OF assms(2) st, of i t] by (simp add: x_def)
      show ?thesis
        unfolding V kv_spec.simps moved_view [OF assms(1-3) conjunct1 [OF True] conjunct2 [OF True, unfolded st_def] x_def [unfolded st_def]]
        using pos edit_view_11 [of t s ?a ?b d x] edit_view_12 [of s ?a ?b d x] hit [of i, folded x_def] by auto
    qed
    then show ?thesis by auto
  next
    case False
    then show ?thesis using R(3) by (auto simp: st_def remap_def same_stream_def)
  qed
  then show ?thesis using eq R(1) assms(2) view by (cases "d = 1 \<or> ?a = ?b") auto
qed

lemma seq_keep_ok:
  assumes "cfg_ok cf" "kv_inv cf n kv" "valid_seq cf s"
  shows "\<exists>kv'. kv_seq_keep cf s kv = Some kv' \<and> kv_inv cf n kv' \<and> kv_view cf kv' = kv_spec cf (K_seq_keep s) (kv_view cf kv)"
proof -
  define st where "st = stream cf s"
  note C = cfg_okD [OF assms(1)]
  have st: "st < cf_n_stream cf" using C(1) assms(3) by (simp add: st_def)
  have s: "0 \<le> s" "s < LLAMA_MAX_SEQ" using C(2) assms(3) by auto
  note D = kv_invD [OF assms(2) st]
  let ?c = "kv_cells kv ! st" and ?g = "keep_seq s"
  have "(case cell_at ?c i of (p, e, sh, S) \<Rightarrow> 0 \<le> s \<and> s < LLAMA_MAX_SEQ \<and> (p \<noteq> -1 \<longrightarrow> S \<noteq> {}))" if "i < n" for i
    using D(2,3) that s by (auto simp: stream_ok_def cell_ok_def cell_at_def has_seq_def)
  with keep.sweep_first_ok [OF D(1), of "[0..<n]" s] 
  obtain c' where c': "sweep_first (\<lambda>i. cells_seq_keep i s) [0..<n] ?c = Some (c', lowest_freed ?g ?c {..<n})"
    "swept ?g (\<lambda>_. False) {..<n} ?c c'" by (auto simp: D(3) atLeast0LessThan)
  let ?h = "lower_head (lowest_freed ?g ?c {..<n}) c' (kv_heads kv ! st)"
  have h: "?h \<le> n" using lowest_freed_le [of "{..<n}" ?g ?c] D(3,4) by (intro lower_head_le) auto
  have eq: "kv_seq_keep cf s kv = Some (kv_put st c' ?h kv)"
    using C(3) [OF assms(3)] C(4) c'(1) by (simp add: kv_seq_keep_def Let_def st_def [symmetric] D(3))
  note R = sweep_result [OF assms(1,2) st c'(2) h cell_ok_edits(3)]
  have "kv_view cf (kv_put st c' ?h kv) t = kv_spec cf (K_seq_keep s) (kv_view cf kv) t" for t
  proof (cases "valid_seq cf t \<and> stream cf t = st")
    case True
    have e: "\<not> has_seq t (cell_at ?c i)" if "fst (cell_at ?c i) = -1" "i < n" for i
      using that D(1,3) cells_invD(6) by auto
    have "(i, q) \<in> kv_view cf (kv_put st c' ?h kv) t \<longleftrightarrow> (i, q) \<in> kv_spec cf (K_seq_keep s) (kv_view cf kv) t" for i q
    proof (cases "i < n")
      case i: True
      define x where "x = cell_at ?c i"
      have V: "(i, q) \<in> kv_view cf (kv_put st c' ?h kv) t \<longleftrightarrow> has_seq t (?g x) \<and> q = fst (?g x)"
        "(i, q) \<in> kv_view cf kv t \<longleftrightarrow> has_seq t x \<and> q = fst x"
        using R(2) kv_view_stream [OF assms(2) st] True i by (simp_all add: x_def)
      have "has_seq t (?g x) \<longleftrightarrow> t = s \<and> has_seq s x" using edit_view_5 [of x t s] e [OF _ i] by (auto simp: x_def)
      with V True edit_view_6 [of t s x] show ?thesis by (auto simp: same_stream_def st_def)
    next
      case False
      then show ?thesis using R(2) kv_view_stream [OF assms(2) st] True by simp
    qed
    then show ?thesis by auto
  next
    case False
    then show ?thesis using R(3) by (auto simp: st_def same_stream_def)
  qed
  then show ?thesis using eq R(1) by auto
qed

lemma seq_cp_same:
  assumes "cfg_ok cf" "kv_inv cf n kv" "kv_pre cf n (K_seq_cp s d p0 p1) kv" "stream cf s = stream cf d"
  shows "\<exists>kv'. kv_seq_cp cf s d p0 p1 kv = Some kv' \<and> kv_inv cf n kv' \<and> kv_view cf kv' = kv_spec cf (K_seq_cp s d p0 p1) (kv_view cf kv)"
proof (cases "s = d")
  case True
  then show ?thesis using assms cfg_okD [OF assms(1)] by (auto simp: kv_seq_cp_def)
next
  case False
  define st where "st = stream cf s"
  note C = cfg_okD [OF assms(1)]
  have v: "valid_seq cf s" "valid_seq cf d" using assms(3) by auto
  have st: "st < cf_n_stream cf" using C(1) v by (simp add: st_def)
  have s: "0 \<le> s" "s < LLAMA_MAX_SEQ" "0 \<le> d" "d < LLAMA_MAX_SEQ" using C(2) v by auto
  note D = kv_invD [OF assms(2) st]
  let ?c = "kv_cells kv ! st" and ?a = "norm_p0 p0" and ?b = "norm_p1 p1"
  let ?g = "edit_if (hits s ?a ?b) (share_seq d)"
  have std: "stream cf d = st" and ss: "stream cf s = st" using assms(4) by (simp_all add: st_def)
  have new: "hits s ?a ?b (cell_at ?c i) \<longrightarrow> \<not> has_seq d (cell_at ?c i)" if "i < n" for i
  proof -
    define x where "x = cell_at ?c i"
    have "(i, fst x) \<in> kv_view cf kv s \<longrightarrow> within p0 p1 (fst x) \<longrightarrow> (i, fst x) \<notin> kv_view cf kv d"
      using assms(3,4) False by auto
    moreover have "(i, fst x) \<in> kv_view cf kv s \<longleftrightarrow> has_seq s x" "(i, fst x) \<in> kv_view cf kv d \<longleftrightarrow> has_seq d x"
      using kv_view_stream [OF assms(2) st] v assms(4) that by (simp_all add: st_def x_def del: cell_at_simps)
    ultimately show ?thesis unfolding x_def [symmetric] hits_def in_range_def within_def by blast
  qed
  have m: "seq_cp_in s d ?a ?b i c = map_option fst (map_option (\<lambda>c. (c, False)) (seq_cp_in s d ?a ?b i c))" for i c
    by (simp add: option.map_comp comp_def option.map_ident)
  from share.sweep_plain_ok [where h = "seq_cp_in s d ?a ?b" and idxs = "[0..<n]", OF D(1) _ _ m] s new
  obtain c' where c': "for_each (seq_cp_in s d ?a ?b) [0..<n] ?c = Some c'"
    "swept ?g (\<lambda>_. False) {..<n} ?c c'" by (simp add: D(3) atLeast0LessThan del: cell_at_simps) blast
  have eq: "kv_seq_cp cf s d p0 p1 kv = Some (kv_put st c' (kv_heads kv ! st) kv)"
    using C(3) [OF v(1)] C(3) [OF v(2)] C(4,5) c'(1) False by (simp add: kv_seq_cp_def Let_def ss std D(3))
  have ok: "cell_ok cf st x \<Longrightarrow> cell_ok cf st (?g x)" for x by (rule cell_ok_edits(6) [OF _ v(2) std])
  note R = sweep_result [OF assms(1,2) st c'(2) D(4) ok]
  have "kv_view cf (kv_put st c' (kv_heads kv ! st) kv) t = kv_spec cf (K_seq_cp s d p0 p1) (kv_view cf kv) t" for t
  proof (cases "valid_seq cf t \<and> stream cf t = st")
    case True
    have "(i, q) \<in> kv_view cf (kv_put st c' (kv_heads kv ! st) kv) t \<longleftrightarrow> (i, q) \<in> kv_spec cf (K_seq_cp s d p0 p1) (kv_view cf kv) t" for i q
    proof -
      define x where "x = cell_at ?c i"
      have V: "(i, q) \<in> kv_view cf (kv_put st c' (kv_heads kv ! st) kv) t \<longleftrightarrow> i < n \<and> has_seq t (?g x) \<and> q = fst (?g x)"
        "(i, q) \<in> kv_view cf kv t \<longleftrightarrow> i < n \<and> has_seq t x \<and> q = fst x"
        "(i, q) \<in> kv_view cf kv s \<longleftrightarrow> i < n \<and> has_seq s x \<and> q = fst x"
        using R(2) kv_view_stream [OF assms(2) st] True v by (simp_all add: x_def st_def)
      have Spec: "(i, q) \<in> kv_spec cf (K_seq_cp s d p0 p1) (kv_view cf kv) t \<longleftrightarrow>
          (i, q) \<in> kv_view cf kv t \<or> t = d \<and> (i, q) \<in> kv_view cf kv s \<and> within p0 p1 q"
        using False by (auto simp: assms(4))
      show ?thesis unfolding Spec V edit_view_7 edit_view_8 hits_def in_range_def within_def by blast
    qed
    then show ?thesis by (simp only: set_eq_iff split_paired_All) blast
  next
    case False
    then have "t \<noteq> d" using v(2) std by auto
    then show ?thesis using R(3) False by (simp add: assms(4))
  qed
  then show ?thesis using eq R(1) by auto
qed

text \<open>Removing a range from every sequence, stream by stream.\<close>

lemma rm_stream_ok:
  assumes "cfg_ok cf" "kv_inv cf n kv" "st < cf_n_stream cf"
  shows "\<exists>kv'. rm_stream cf (norm_p0 p0) (norm_p1 p1) st kv = Some kv' \<and> kv_inv cf n kv' \<and>
    (\<forall>t. kv_view cf kv' t = (if stream cf t = st then {x \<in> kv_view cf kv t. \<not> within p0 p1 (snd x)} else kv_view cf kv t))"
proof -
  note D = kv_invD [OF assms(2,3)]
  let ?c = "kv_cells kv ! st" and ?a = "norm_p0 p0" and ?b = "norm_p1 p1"
  let ?g = "edit_if (in_range ?a ?b) (\<lambda>_. empty_cell)"
  from rm_all.sweep_first_ok [OF D(1), of "[0..<n]" ?a ?b] norm_nonneg [of p0]
  obtain c' where c': "sweep_first (rm_in ?a ?b) [0..<n] ?c = Some (c', lowest_freed ?g ?c {..<n})"
    "swept ?g (\<lambda>_. False) {..<n} ?c c'" by (auto simp: D(3) atLeast0LessThan)
  let ?h = "lower_head (lowest_freed ?g ?c {..<n}) c' (kv_heads kv ! st)"
  have h: "?h \<le> n" using lowest_freed_le [of "{..<n}" ?g ?c] D(3,4) by (intro lower_head_le) auto
  have eq: "rm_stream cf ?a ?b st kv = Some (kv_put st c' ?h kv)"
    using cfg_okD(6) [OF assms(1)] c'(1) by (simp add: rm_stream_def scan_range_def Let_def D(3))
  note R = sweep_result [OF assms c'(2) h cell_ok_edits(2)]
  have "kv_view cf (kv_put st c' ?h kv) t =
      (if stream cf t = st then {x \<in> kv_view cf kv t. \<not> within p0 p1 (snd x)} else kv_view cf kv t)" for t
  proof (cases "valid_seq cf t \<and> stream cf t = st")
    case True
    have "(i, q) \<in> kv_view cf (kv_put st c' ?h kv) t \<longleftrightarrow> (i, q) \<in> kv_view cf kv t \<and> \<not> within p0 p1 q" for i q
      using R(2) kv_view_stream [OF assms(2,3)] True edit_view_3 [of t ?a ?b "cell_at ?c i"] edit_view_4 [of ?a ?b "cell_at ?c i"]
      by (auto simp: within_def in_range_def simp del: cell_at_simps)
    then show ?thesis using True by auto
  next
    case False
    then have "kv_view cf kv t = {}" if "stream cf t = st" using that by (simp add: kv_view_def)
    then show ?thesis using R(3) False by auto
  qed
  with eq R(1) show ?thesis by blast
qed

lemma seq_rm_all:
  assumes "cfg_ok cf" "kv_inv cf n kv"
  shows "\<exists>kv'. kv_seq_rm cf (-1) p0 p1 kv = Some (kv', True) \<and> kv_inv cf n kv' \<and>
    kv_view cf kv' = kv_spec cf (K_seq_rm (-1) p0 p1) (kv_view cf kv)"
proof -
  let ?P = "\<lambda>dn kv'. kv_inv cf n kv' \<and> (\<forall>t. kv_view cf kv' t =
    (if stream cf t \<in> set dn then {x \<in> kv_view cf kv t. \<not> within p0 p1 (snd x)} else kv_view cf kv t))"
  have "\<exists>kv'. for_each (rm_stream cf (norm_p0 p0) (norm_p1 p1)) [0..<cf_n_stream cf] kv = Some kv' \<and> ?P [0..<cf_n_stream cf] kv'"
  proof (rule for_each_total [where P = ?P])
    show "?P [] kv" using assms(2) by simp
  next
    fix dn st rest kv' assume s: "[0..<cf_n_stream cf] = dn @ st # rest" and P: "?P dn kv'"
    note st = upt_eq_splitD(2,3) [OF s]
    from P have inv: "kv_inv cf n kv'" and V: "\<And>t. kv_view cf kv' t =
        (if stream cf t \<in> set dn then {x \<in> kv_view cf kv t. \<not> within p0 p1 (snd x)} else kv_view cf kv t)" by auto
    from rm_stream_ok [OF assms(1) inv st(1), of p0 p1] obtain kv2 where
      kv2: "rm_stream cf (norm_p0 p0) (norm_p1 p1) st kv' = Some kv2" "kv_inv cf n kv2"
      "\<And>t. kv_view cf kv2 t = (if stream cf t = st then {x \<in> kv_view cf kv' t. \<not> within p0 p1 (snd x)} else kv_view cf kv' t)" by blast
    have "kv_view cf kv2 t = (if stream cf t \<in> set (dn @ [st]) then {x \<in> kv_view cf kv t. \<not> within p0 p1 (snd x)} else kv_view cf kv t)" for t
      using st(2) unfolding kv2(3) V by auto
    with kv2(1,2) show "\<exists>s'. rm_stream cf (norm_p0 p0) (norm_p1 p1) st kv' = Some s' \<and> ?P (dn @ [st]) s'" by blast
  qed
  then obtain kv' where kv': "for_each (rm_stream cf (norm_p0 p0) (norm_p1 p1)) [0..<cf_n_stream cf] kv = Some kv'" "?P [0..<cf_n_stream cf] kv'" by blast
  have "kv_seq_rm cf (-1) p0 p1 kv = Some (kv', True)"
    using kv'(1) cfg_okD(4,6) [OF assms(1)] by (simp add: kv_seq_rm_def Let_def)
  moreover have "kv_view cf kv' t = kv_spec cf (K_seq_rm (-1) p0 p1) (kv_view cf kv) t" for t
  proof (cases "valid_seq cf t")
    case True
    then show ?thesis using kv'(2) cfg_okD(1) [OF assms(1) True] by simp
  next
    case False
    then show ?thesis by (simp add: kv_view_def)
  qed
  ultimately show ?thesis using kv'(2) by blast
qed

text \<open>Copying a sequence into another stream, cell by cell.\<close>

definition copied_cell :: "int \<Rightarrow> int \<Rightarrow> kv_cell \<Rightarrow> kv_cell" where
  "copied_cell s d x = (case x of (p, e, sh, S) \<Rightarrow> if s \<in> S then (p, e, sh, {d}) else empty_cell)"

lemma cell_at_reset:
  "i < cells_size c \<Longrightarrow> cell_at (cells_reset c) i = empty_cell"
  by (simp add: cells_reset_def cell_at_def empty_cell_def Let_def cells_size_def)

lemma size_reset [simp]: "cells_size (cells_reset c) = cells_size c"
  by (simp add: cells_reset_def Let_def cells_size_def)

lemma cell_at_ext_upd:
  assumes "i < length (kc_ext r)"
  shows "cell_at (r\<lparr>kc_ext := (kc_ext r)[i := e]\<rparr>) j =
    (if j = i then (case cell_at r i of (p, _, sh, S) \<Rightarrow> (p, e, sh, S)) else cell_at r j)"
  using assms by (simp add: cell_at_def nth_list_update_if)

lemma cp_cell_ok:
  assumes "cells_inv src" "cells_inv r" "cells_size r = cells_size src" "i < cells_size src" "cell_at r i = empty_cell"
    "0 \<le> s" "s < LLAMA_MAX_SEQ" "0 \<le> d" "d < LLAMA_MAX_SEQ" "s \<in> kc_seq src ! i \<Longrightarrow> kc_shift src ! i \<le> kc_pos src ! i"
  shows "\<exists>r'. cp_cell src s d i r = Some r' \<and> cells_inv r' \<and> cells_size r' = cells_size src \<and>
    (\<forall>j < cells_size src. cell_at r' j = (if j = i then copied_cell s d (cell_at src i) else cell_at r j))"
proof (cases "s \<in> kc_seq src ! i")
  case False
  then show ?thesis using assms
    by (auto simp: cp_cell_def cells_seq_has_def copied_cell_def cell_at_def)
next
  case True
  let ?p = "kc_pos src ! i" and ?sh = "kc_shift src ! i" and ?e = "kc_ext src ! i"
  have p: "0 \<le> ?p" "?p \<noteq> -1" using seq_pos_set [OF assms(1,4) True] by auto
  have i: "i < cells_size r" "kc_pos r ! i = -1" using assms(3-5) by (auto simp: cell_at_def empty_cell_def)
  have q: "0 \<le> ?p - ?sh" using assms(10) True by simp
  define r1 where "r1 = cells_put i (?p - ?sh) (kc_ext r ! i) 0 {} r"
  define r2 where "r2 = cells_put i (?p - ?sh) (kc_ext r ! i) 0 {d} r1"
  define r3 where "r3 = (if ?sh \<noteq> 0 then (cells_put i ?p (kc_ext r ! i) ?sh {d} r2)\<lparr>kc_has_shift := True\<rparr> else r2)"
  have v1: "cells_inv r1" "cells_size r1 = cells_size r" unfolding r1_def using q i by (auto intro!: cells_put_inv assms(2))
  have a1: "cell_at r1 j = (if j = i then (?p - ?sh, kc_ext r ! i, 0, {}) else cell_at r j)" if "j < cells_size r" for j
    unfolding r1_def using cell_at_put [OF assms(2) i(1) that] by simp
  have v2: "cells_inv r2" "cells_size r2 = cells_size r" unfolding r2_def using q i v1 assms(8,9) by (auto intro!: cells_put_inv)
  have a2: "cell_at r2 j = (if j = i then (?p - ?sh, kc_ext r ! i, 0, {d}) else cell_at r j)" if "j < cells_size r" for j
    unfolding r2_def using cell_at_put [OF v1(1), of i j] a1 [OF that] that i v1(2) by simp
  have v3: "cells_inv r3" "cells_size r3 = cells_size r" unfolding r3_def using p i v2 assms(8,9) by (auto intro!: cells_put_inv)
  have a3: "cell_at r3 j = (if j = i then (?p, kc_ext r ! i, ?sh, {d}) else cell_at r j)" if "j < cells_size r" for j
    unfolding r3_def using cell_at_put [OF v2(1), of i j] a2 [OF that] that i v2(2) by auto
  have s1: "cells_pos_set i (?p - ?sh) r = Some r1"
    unfolding r1_def by (rule cells_pos_set_eq [OF assms(2) i q])
  have c1: "kc_pos r1 ! i = ?p - ?sh" "kc_seq r1 ! i = {}" "kc_ext r1 ! i = kc_ext r ! i" "kc_shift r1 ! i = 0"
    using a1 [OF i(1)] by (simp_all add: cell_at_def)
  have s2: "cells_seq_add i d r1 = Some r2"
    using cells_seq_add_eq [OF v1(1), of i d] i v1(2) q assms(8,9) c1 by (simp add: r2_def)
  have c2: "kc_pos r2 ! i = ?p - ?sh" "kc_seq r2 ! i = {d}" "kc_ext r2 ! i = kc_ext r ! i" "kc_shift r2 ! i = 0"
    using a2 [OF i(1)] by (simp_all add: cell_at_def)
  have s3: "(if ?sh \<noteq> 0 then map_option fst (cells_pos_add i ?sh r2) else Some r2) = Some r3"
    using cells_pos_add_eq [OF v2(1), of i ?sh] i v2(2) q p c2 by (simp add: r3_def)
  have len: "i < length (kc_ext r3)" using cells_invD(1) [OF v3(1)] v3(2) i by simp
  have "cp_cell src s d i r = Some (r3\<lparr>kc_ext := (kc_ext r3)[i := ?e]\<rparr>)"
  proof (cases "?sh = 0")
    case True
    then show ?thesis using s1 s2 s3 len p q assms(4,6,7) \<open>s \<in> kc_seq src ! i\<close>
      by (simp add: cp_cell_def cells_seq_has_def cells_pos_get_def cells_get_shift_def cells_ext_get_def cells_ext_set_def)
  next
    case False
    then have "map_option fst (cells_pos_add i ?sh r2) = Some r3" using s3 by simp
    with False show ?thesis using s1 s2 len p q assms(4,6,7) True
      by (simp del: map_option_eq_Some add: cp_cell_def cells_seq_has_def cells_pos_get_def cells_get_shift_def cells_ext_get_def cells_ext_set_def)
  qed
  moreover have "cells_inv (r3\<lparr>kc_ext := (kc_ext r3)[i := ?e]\<rparr>)" using v3 cells_invD(1) [OF v3(1)]
    by (intro cells_inv_ext_upd) auto
  moreover have "cell_at (r3\<lparr>kc_ext := (kc_ext r3)[i := ?e]\<rparr>) j = (if j = i then copied_cell s d (cell_at src i) else cell_at r j)"
    if "j < cells_size src" for j
    using cell_at_ext_upd [OF len, of ?e j] a3 [of j] a3 [OF i(1)] that assms(3) True by (simp add: copied_cell_def cell_at_def)
  ultimately show ?thesis using v3(2) assms(3) by (auto simp: cells_size_def)
qed

lemma cp_cells_ok:
  assumes "cells_inv src" "cells_inv c" "cells_size c = cells_size src"
    "0 \<le> s" "s < LLAMA_MAX_SEQ" "0 \<le> d" "d < LLAMA_MAX_SEQ"
    "\<And>i. i < cells_size src \<Longrightarrow> s \<in> kc_seq src ! i \<Longrightarrow> kc_shift src ! i \<le> kc_pos src ! i"
  shows "\<exists>r. for_each (cp_cell src s d) [0..<cells_size src] (cells_reset c) = Some r \<and> cells_inv r \<and>
    cells_size r = cells_size src \<and> (\<forall>j < cells_size src. cell_at r j = copied_cell s d (cell_at src j))"
proof -
  let ?P = "\<lambda>dn r. cells_inv r \<and> cells_size r = cells_size src \<and>
    (\<forall>j < cells_size src. cell_at r j = (if j \<in> set dn then copied_cell s d (cell_at src j) else empty_cell))"
  have "\<exists>r. for_each (cp_cell src s d) [0..<cells_size src] (cells_reset c) = Some r \<and> ?P [0..<cells_size src] r"
  proof (rule for_each_total [where P = ?P])
    show "?P [] (cells_reset c)" using cells_reset_inv [OF assms(2)] cell_at_reset [of _ c] assms(3) by simp
  next
    fix dn i rest r assume e: "[0..<cells_size src] = dn @ i # rest" and P: "?P dn r"
    note i = upt_eq_splitD(2,3) [OF e]
    have "cell_at r i = empty_cell" using P i by simp
    with cp_cell_ok [OF assms(1) _ _ i(1) _ assms(4-7), of r] P assms(8) [OF i(1)]
    obtain r' where "cp_cell src s d i r = Some r'" "cells_inv r'" "cells_size r' = cells_size src"
      "\<forall>j < cells_size src. cell_at r' j = (if j = i then copied_cell s d (cell_at src i) else cell_at r j)" by blast
    with P i show "\<exists>r'. cp_cell src s d i r = Some r' \<and> ?P (dn @ [i]) r'" by (intro exI [of _ r']) simp
  qed
  then show ?thesis by auto
qed

lemma seq_cp_cross:
  assumes "cfg_ok cf" "kv_inv cf n kv" "kv_pre cf n (K_seq_cp s d p0 p1) kv" "stream cf s \<noteq> stream cf d"
  shows "\<exists>kv'. kv_seq_cp cf s d p0 p1 kv = Some kv' \<and> kv_inv cf n kv' \<and> kv_view cf kv' = kv_spec cf (K_seq_cp s d p0 p1) (kv_view cf kv)"
proof -
  note C = cfg_okD [OF assms(1)]
  have v: "valid_seq cf s" "valid_seq cf d" using assms(3) by auto
  define s0 s1 where "s0 = stream cf s" and "s1 = stream cf d"
  have st: "s0 < cf_n_stream cf" "s1 < cf_n_stream cf" "s0 \<noteq> s1" using C(1) v assms(4) by (simp_all add: s0_def s1_def)
  have s: "0 \<le> s" "s < LLAMA_MAX_SEQ" "0 \<le> d" "d < LLAMA_MAX_SEQ" using C(2) v by auto
  note D = kv_invD [OF assms(2) st(1)] and E = kv_invD [OF assms(2) st(2)]
  let ?c = "kv_cells kv ! s0"
  have sh: "kc_shift ?c ! i \<le> kc_pos ?c ! i" if "i < cells_size ?c" "s \<in> kc_seq ?c ! i" for i
  proof -
    have "(i, kc_pos ?c ! i) \<in> kv_view cf kv s"
      using that v D(3) kv_view_stream [OF assms(2) st(1), of s] by (simp add: s0_def)
    then show ?thesis using assms(3,4) by (auto simp: s0_def)
  qed
  obtain r where r: "for_each (cp_cell ?c s d) [0..<cells_size ?c] (cells_reset (kv_cells kv ! s1)) = Some r"
    "cells_inv r" "cells_size r = n" "\<And>j. j < n \<Longrightarrow> cell_at r j = copied_cell s d (cell_at ?c j)"
    using cp_cells_ok [OF D(1) E(1) _ s sh] D(3) E(3) by auto
  define kv1 where "kv1 = kv\<lparr>kv_copies := kv_copies kv @ [(s0, s1)]\<rparr>"
  have inv1: "kv_inv cf n kv1" "kv_view cf kv1 = kv_view cf kv" "kv_cells kv1 = kv_cells kv" "kv_heads kv1 = kv_heads kv"
    using assms(2) by (simp_all add: kv1_def kv_inv_def kv_view_def fun_eq_iff)
  have ne: "cf_seq_to_stream cf ! 0 < cf_n_stream cf" using assms(1) by (auto simp: cfg_ok_def cfg_sane_def)
  have eq: "kv_seq_cp cf s d p0 p1 kv = Some (kv_put s1 r (kv_heads kv ! s0) kv1)"
    using C(3) [OF v(1)] C(3) [OF v(2)] C(4-6) assms(3,4) r(1) kv_invD(3) [OF assms(2) ne] D(3)
    by (simp add: kv_seq_cp_def Let_def kv1_def s0_def s1_def)
  have okr: "stream_ok cf s1 r"
    using r v D(2,3) by (auto simp: stream_ok_def cell_ok_def copied_cell_def s1_def valid_seq_def split: prod.splits)
  have inv': "kv_inv cf n (kv_put s1 r (kv_heads kv ! s0) kv1)"
    using kv_put_inv [OF inv1(1) st(2) okr r(3) D(4)] .
  have "kv_view cf (kv_put s1 r (kv_heads kv ! s0) kv1) t = kv_spec cf (K_seq_cp s d p0 p1) (kv_view cf kv) t" for t
  proof (cases "valid_seq cf t \<and> stream cf t = s1")
    case True
    have a: "has_seq t (copied_cell s d x) \<longleftrightarrow> t = d \<and> has_seq s x" "has_seq s x \<Longrightarrow> fst (copied_cell s d x) = fst x" for x :: kv_cell
      by (auto simp: copied_cell_def has_seq_def empty_cell_def split: prod.splits)
    have "(i, q) \<in> kv_view cf (kv_put s1 r (kv_heads kv ! s0) kv1) t \<longleftrightarrow> t = d \<and> (i, q) \<in> kv_view cf kv s" for i q
    proof -
      have "(i, q) \<in> kv_view cf (kv_put s1 r (kv_heads kv ! s0) kv1) t \<longleftrightarrow>
          i < n \<and> has_seq t (cell_at r i) \<and> q = fst (cell_at r i)"
        using True E(5) inv1(3) r(3) by (simp add: kv_view_put sview_def del: cell_at_simps)
      moreover have "(i, q) \<in> kv_view cf kv s \<longleftrightarrow> i < n \<and> has_seq s (cell_at ?c i) \<and> q = fst (cell_at ?c i)"
        using kv_view_stream [OF assms(2) st(1) v(1)] by (simp add: s0_def)
      ultimately show ?thesis using r(4) [of i] a [of "cell_at ?c i"] by metis
    qed
    then have "kv_view cf (kv_put s1 r (kv_heads kv ! s0) kv1) t = (if t = d then kv_view cf kv s else {})"
      by (simp only: set_eq_iff split_paired_All) simp
    with True assms(4) show ?thesis by (simp add: s1_def same_stream_def)
  next
    case False
    then have "t \<noteq> d" using v(2) s1_def by auto
    with False show ?thesis using E(5) inv1 assms(4) by (auto simp add: kv_view_put same_stream_def s1_def)
  qed
  with eq inv' show ?thesis by blast
qed

lemma kv_clear_ok:
  assumes "cfg_ok cf" "kv_inv cf n kv"
  shows "\<exists>kv'. kv_clear cf kv = Some kv' \<and> kv_inv cf n kv' \<and> kv_view cf kv' = kv_spec cf K_clear (kv_view cf kv)"
proof -
  let ?f = "\<lambda>s kv. kv_put s (cells_reset (kv_cells kv ! s)) 0 kv"
  have "m \<le> cf_n_stream cf \<Longrightarrow> kv_inv cf n (fold ?f [0..<m] kv) \<and>
      (\<forall>t. valid_seq cf t \<and> stream cf t < m \<longrightarrow> kv_view cf (fold ?f [0..<m] kv) t = {})" for m
  proof (induction m)
    case (Suc m)
    define k where "k = fold ?f [0..<m] kv"
    have K: "kv_inv cf n k" "\<forall>t. valid_seq cf t \<and> stream cf t < m \<longrightarrow> kv_view cf k t = {}"
      using Suc by (simp_all add: k_def)
    have m: "m < cf_n_stream cf" using Suc by simp
    note D = kv_invD [OF K(1) m]
    have "stream_ok cf m (cells_reset (kv_cells k ! m))"
      using cells_reset_inv [OF D(1)] cell_at_reset [of _ "kv_cells k ! m"] by (simp add: stream_ok_def)
    then have "kv_inv cf n (?f m k)" using D(3) by (intro kv_put_inv K m) auto
    moreover have "kv_view cf (?f m k) t = {}" if "valid_seq cf t" "stream cf t < Suc m" for t
      using that K(2) D(5) cell_at_reset [of _ "kv_cells k ! m"]
      by (auto simp: kv_view_put sview_def less_Suc_eq simp del: cell_at_simps)
    ultimately show ?case by (simp add: k_def)
  qed (use assms in simp)
  from this [of "cf_n_stream cf"] have "kv_inv cf n (fold ?f [0..<cf_n_stream cf] kv)"
    "kv_view cf (fold ?f [0..<cf_n_stream cf] kv) t = {}" for t
    using cfg_okD(1) [OF assms(1)] by (auto simp: kv_view_def)
  then show ?thesis using cfg_okD(6) [OF assms(1)] by (auto simp: kv_clear_def Let_def)
qed

lemma kv_step_refines:
  assumes "cfg_ok cf" "kv_inv cf n kv" "kv_pre cf n op kv"
  shows "\<exists>kv'. kv_step cf op kv = Some kv' \<and> kv_inv cf n kv' \<and> kv_view cf kv' = kv_spec cf op (kv_view cf kv)"
proof (cases op)
  case (K_seq_rm s p0 p1)
  then show ?thesis using assms seq_rm_one [of cf n kv s p0 p1] seq_rm_all [of cf n kv p0 p1] by (cases "s = -1") auto
next
  case (K_seq_cp s d p0 p1)
  then show ?thesis using assms seq_cp_same [of cf n kv s d p0 p1] seq_cp_cross [of cf n kv s d p0 p1]
    by (cases "stream cf s = stream cf d") auto
next
  case (K_seq_keep s)
  then show ?thesis using assms seq_keep_ok by auto
next
  case (K_seq_add s p0 p1 d)
  then show ?thesis using assms seq_add_ok by auto
next
  case (K_seq_div s p0 p1 d)
  then show ?thesis using assms seq_div_ok by auto
next
  case K_clear
  then show ?thesis using assms kv_clear_ok by auto
qed

subsection \<open>Properties\<close>

text \<open>A history of calls, each meeting the assertions of its operation.\<close>

fun kv_history_ok :: "kv_cfg \<Rightarrow> nat \<Rightarrow> kv_op list \<Rightarrow> kv_cache \<Rightarrow> bool" where
  "kv_history_ok cf n [] kv = True"
| "kv_history_ok cf n (op # ops) kv = (kv_pre cf n op kv \<and>
     (case kv_step cf op kv of None \<Rightarrow> True | Some kv' \<Rightarrow> kv_history_ok cf n ops kv'))"

text \<open>C14. The sequence operations implement their effect on the sequences. From a cache without SJ-KVaRN that
  satisfies the invariant, every history of \<open>seq_rm\<close>, \<open>seq_cp\<close> (within a stream and between streams),
  \<open>seq_keep\<close>, \<open>seq_add\<close>, \<open>seq_div\<close> and \<open>clear\<close> whose calls meet their assertions, and whose divisors make no
  position negative, runs without any assertion failing in the cells below, keeps the invariant, and leaves
  exactly the cells and positions of each sequence that the abstract operations give. (With SJ-KVaRN a
  \<open>seq_rm\<close> may refuse; \<open>sj_kvarn_remove\<close> says when.)\<close>

theorem kv_ops_refine:
  "cfg_ok cf \<Longrightarrow> kv_inv cf n kv \<Longrightarrow> kv_history_ok cf n ops kv \<Longrightarrow>
    \<exists>kv'. for_each (kv_step cf) ops kv = Some kv' \<and> kv_inv cf n kv' \<and>
      kv_view cf kv' = fold (kv_spec cf) ops (kv_view cf kv)"
proof (induction ops arbitrary: kv)
  case (Cons op ops)
  then obtain kv1 where kv1: "kv_step cf op kv = Some kv1" "kv_inv cf n kv1" "kv_view cf kv1 = kv_spec cf op (kv_view cf kv)"
    using kv_step_refines [of cf n kv op] by auto
  with Cons.IH [of kv1] Cons.prems show ?case by auto
qed simp

text \<open>Two streams of two cells, one sequence each; sequence 0 has one token, at position 7.\<close>

definition cf2 :: kv_cfg where
  "cf2 = \<lparr>cf_seq_to_stream = [0, 1], cf_n_stream = 2, cf_n_swa = 0, cf_swa_type = LLAMA_SWA_TYPE_NONE, cf_n_swa_sink = 0,
     cf_other = False, cf_streaming = False, cf_bookkeep = True, cf_sj = None, cf_n_pos_per_embd = 1, cf_ple_n_heads = 0,
     cf_ple_image_token_id = 0, cf_ple_eos_token_id = 0, cf_limits = []\<rparr>"

definition kv2 :: kv_cache where
  "kv2 = \<lparr>kv_cells = [cells_put 0 7 kv_cell_ext_default 0 {0} (cells_resize 2 cells_new), cells_resize 2 cells_new],
     kv_heads = [1, 0], kv_sj = \<lparr>sc_sts = [], sc_free = [], sc_ref = []\<rparr>, kv_copies = []\<rparr>"

lemma cf2_ok: "cfg_ok cf2"
  by (simp add: cfg_ok_def cfg_sane_def cf2_def LLAMA_MAX_SEQ_def)

lemma fresh_cell: "i < n \<Longrightarrow> cell_at (cells_resize n cells_new) i = empty_cell"
  by (simp add: cell_at_def empty_cell_def cells_resize_def cells_reset_def Let_def cells_size_def)

lemma kv2_inv: "kv_inv cf2 2 kv2"
proof -
  note f = cells_resize_inv [OF cells_new_inv, of 2]
  let ?c = "cells_put 0 7 kv_cell_ext_default 0 {0} (cells_resize 2 cells_new)"
  have i: "cells_inv ?c" using f by (auto intro!: cells_put_inv simp: LLAMA_MAX_SEQ_def)
  have "stream_ok cf2 0 ?c" using i f
    by (simp add: stream_ok_def cell_at_put fresh_cell del: cell_at_simps) (auto simp: cell_ok_def valid_seq_def stream_def cf2_def)
  moreover have "stream_ok cf2 1 (cells_resize 2 cells_new)" using f by (simp add: stream_ok_def fresh_cell)
  ultimately show ?thesis using f by (auto simp: kv_inv_def cf2_def kv2_def less_2_cases_iff)
qed

lemma kv2_view: "kv_view cf2 kv2 s = (if s = 0 then {(0, 7)} else {})"
proof -
  note f = cells_resize_inv [OF cells_new_inv, of 2]
  have "sview (cells_resize 2 cells_new) s = {}" using f by (auto simp: sview_def fresh_cell simp del: cell_at_simps)
  moreover have "sview (cells_put 0 7 kv_cell_ext_default 0 {0} (cells_resize 2 cells_new)) s = (if s = 0 then {(0, 7)} else {})"
    using f by (auto simp: sview_def cell_at_put fresh_cell simp del: cell_at_simps split: if_splits)
  ultimately show ?thesis by (auto simp: kv_view_def valid_seq_def stream_def cf2_def kv2_def nth_Cons' split: if_splits)
qed

lemma remap_single:
  assumes "same_stream cf s t" "V t = {(i, p)}" "q = (if (i, p) \<in> V s \<and> w p then h p else p)" "q \<ge> 0"
  shows "remap cf s w h V t = {(i, q)}"
  unfolding set_eq_iff split_paired_All remap_iff [OF assms(1)] assms(2) using assms(3,4) by auto

lemma stream2: "same_stream cf2 s t \<longleftrightarrow> valid_seq cf2 t \<and> stream cf2 t = stream cf2 s"
  "valid_seq cf2 0" "valid_seq cf2 1" "stream cf2 0 = 0" "stream cf2 1 = 1"
  by (auto simp: same_stream_def valid_seq_def stream_def cf2_def)

lemma within_end: "within 0 (-1) 7"
  by (simp add: within_def norm_p0_def norm_p1_def POS_MAX_def)

theorem kv_ops_refine_witness:
  "\<exists>kv'. for_each (kv_step cf2) [K_seq_cp 0 1 (-1) (-1), K_seq_add 1 0 (-1) 3, K_seq_rm 0 0 (-1)] kv2 = Some kv' \<and>
    kv_view cf2 kv' 1 = {(0, 10)} \<and> kv_view cf2 kv' 0 = {}"
proof -
  let ?ops = "[K_seq_cp 0 1 (-1) (-1), K_seq_add 1 0 (-1) 3, K_seq_rm 0 0 (-1)]"
  have sh: "kc_shift (kv_cells kv2 ! 0) ! 0 = 0"
    by (simp add: kv2_def cells_put_def cells_resize_def cells_reset_def Let_def cells_size_def)
  have "kv_history_ok cf2 2 ?ops kv2"
    using sh by (auto simp: kv2_view split: option.splits) (auto simp: valid_seq_def stream_def cf2_def)
  from kv_ops_refine [OF cf2_ok kv2_inv this] obtain kv' where kv': "for_each (kv_step cf2) ?ops kv2 = Some kv'"
    "kv_view cf2 kv' = fold (kv_spec cf2) ?ops (kv_view cf2 kv2)" by blast
  define V where "V = kv_spec cf2 (K_seq_cp 0 1 (-1) (-1)) (kv_view cf2 kv2)"
  have V: "V 0 = {(0, 7)}" "V 1 = {(0, 7)}" by (simp_all add: V_def kv2_view stream2)
  have "remap cf2 1 (within 0 (-1)) (\<lambda>p. p + 3) V 1 = {(0, 10)}"
    by (rule remap_single [where p = 7]) (simp_all add: stream2 V within_end)
  moreover have "remap cf2 1 (within 0 (-1)) (\<lambda>p. p + 3) V 0 = {(0, 7)}" by (simp add: remap_def stream2 V)
  ultimately have "fold (kv_spec cf2) ?ops (kv_view cf2 kv2) 1 = {(0, 10)}" "fold (kv_spec cf2) ?ops (kv_view cf2 kv2) 0 = {}"
    by (simp_all add: V_def [symmetric] within_end del: kv_spec.simps(2))
  with kv' show ?thesis by auto
qed

text \<open>Division leaves the wrong pending shift. \<open>pos_add\<close> accumulates the change of a position in
  \<open>shift\<close>, \<open>pos_div\<close> its negative: after dividing position 7 by 2 the cell is at 3 with a pending shift of
  +4, where the K-shift graph, which rotates by the accumulated shift, needs -4. \<open>seq_cp\<close> to another
  stream, which subtracts the shift to recover the position before it, then computes 3 - 4 and fails its
  assertion.\<close>

theorem kv_seq_div_shift_sign:
  "\<exists>kv'. kv_inv cf2 2 kv2 \<and> kv_view cf2 kv2 0 = {(0, 7)} \<and> kv_seq_div cf2 0 0 (-1) 2 kv2 = Some kv' \<and>
    kv_view cf2 kv' 0 = {(0, 3)} \<and> kc_shift (kv_cells kv' ! 0) ! 0 = 4 \<and> kv_seq_cp cf2 0 1 (-1) (-1) kv' = None"
proof -
  have pre: "kv_pre cf2 2 (K_seq_div 0 0 (-1) 2) kv2" by (simp add: kv2_view) (simp add: valid_seq_def cf2_def tdiv_def)
  obtain kv' where kv': "kv_seq_div cf2 0 0 (-1) 2 kv2 = Some kv'" "kv_inv cf2 2 kv'"
    "kv_view cf2 kv' = kv_spec cf2 (K_seq_div 0 0 (-1) 2) (kv_view cf2 kv2)"
    using kv_step_refines [OF cf2_ok kv2_inv pre] by auto
  have v: "kv_view cf2 kv' 0 = {(0, 3)}"
    unfolding kv'(3) kv_spec.simps by (rule remap_single [where p = 7]) (simp_all add: stream2 kv2_view within_end tdiv_def)
  have "map_option (\<lambda>kv. kc_shift (kv_cells kv ! 0) ! 0) (kv_seq_div cf2 0 0 (-1) 2 kv2) = Some 4" by code_simp
  with kv'(1) have sh: "kc_shift (kv_cells kv' ! 0) ! 0 = 4" by simp
  have "map_option (\<lambda>_. ()) (kv_seq_div cf2 0 0 (-1) 2 kv2 \<bind> kv_seq_cp cf2 0 1 (-1) (-1)) = None" by code_simp
  with kv'(1) have "kv_seq_cp cf2 0 1 (-1) (-1) kv' = None" by simp
  with kv' v sh kv2_inv kv2_view show ?thesis by auto
qed

end
