(* ===== verification/Kv_Slot.thy ===== *)
theory Kv_Slot
  imports Kv_Ops
begin

section \<open>Placing a ubatch in the KV cache (src/llama-kv-cache.cpp)\<close>

text \<open>
  \<open>find_slot\<close> searches cells for the tokens of a ubatch, \<open>apply_ubatch\<close> writes them, and \<open>prepare\<close> runs
  both over all ubatches of a batch and then restores the cache. The search loop of the code has no
  bound of its own: it is a partial function, and that it returns is proved.
\<close>

subsection \<open>Finding a slot\<close>

definition is_masked_swa :: "nat \<Rightarrow> llama_swa_type \<Rightarrow> int \<Rightarrow> int \<Rightarrow> bool option" where
  "is_masked_swa n_swa ty p0 p1 = do {
     assert_that (p0 \<ge> 0 \<and> p1 \<ge> 0);
     case ty of LLAMA_SWA_TYPE_NONE \<Rightarrow> Some False
     | LLAMA_SWA_TYPE_STANDARD \<Rightarrow> Some (p1 - p0 \<ge> int n_swa)
     | LLAMA_SWA_TYPE_CHUNKED \<Rightarrow> do { assert_that (n_swa \<noteq> 0); Some (p0 < p1 div int n_swa * int n_swa) }
     | LLAMA_SWA_TYPE_SYMMETRIC \<Rightarrow> (let half = int (n_swa div 2); d = p1 - p0 in Some (d < - half \<or> d > half)) }"

text \<open>Whether a token may be placed in cell \<open>idx\<close> of stream \<open>st\<close>.\<close>

definition can_use :: "kv_cfg \<Rightarrow> nat \<Rightarrow> kv_cells \<Rightarrow> nat \<Rightarrow> bool option" where
  "can_use cf st c idx = do {
     empty \<leftarrow> cells_is_empty idx c;
     use \<leftarrow> (if empty then Some True
       else do {
         cnt \<leftarrow> cells_seq_count idx c;
         if cnt = 1 then do {
           pos_cell \<leftarrow> cells_pos_get idx c;
           seq_id_cell \<leftarrow> cells_seq_get idx c;
           if pos_cell \<ge> int (cf_n_swa_sink cf) then do {
             mx \<leftarrow> cells_seq_pos_max seq_id_cell c;
             is_masked_swa (cf_n_swa cf) (cf_swa_type cf) pos_cell (mx + 1) }
           else Some False }
         else Some False });
     Some (if cf_limits cf \<noteq> [] \<and> idx \<ge> cf_limits cf ! st then False else use) }"

text \<open>One pass of the inner loop: test up to \<open>k\<close> cells from \<open>head\<close>; a contiguous search stops at the first
  cell it cannot use.\<close>

fun test_run ::
  "(nat \<Rightarrow> bool option) \<Rightarrow> bool \<Rightarrow> nat \<Rightarrow> nat \<Rightarrow> nat \<Rightarrow> nat list \<Rightarrow> (nat \<times> nat \<times> nat list) option" where
  "test_run use cont 0 head tested idxs = Some (head, tested, idxs)"
| "test_run use cont (Suc k) head tested idxs = (case use head of None \<Rightarrow> None
   | Some u \<Rightarrow>
       if u then test_run use cont k (head + 1) (tested + 1) (idxs @ [head])
       else if cont then Some (head + 1, tested + 1, idxs)
       else test_run use cont k (head + 1) (tested + 1) idxs)"

partial_function (option) slot_search ::
  "(nat \<Rightarrow> bool option) \<Rightarrow> bool \<Rightarrow> nat \<Rightarrow> nat \<Rightarrow> nat \<Rightarrow> nat \<Rightarrow> nat \<Rightarrow> nat list \<Rightarrow> nat list option option" where
  "slot_search use cont sz n_tokens n_test head tested idxs =
     (if head + n_test > sz then slot_search use cont sz n_tokens n_test 0 (tested + (sz - head)) idxs
      else (case test_run use cont n_test head tested idxs of None \<Rightarrow> None
        | Some (head, tested, idxs) \<Rightarrow>
            if length idxs = n_tokens then Some (Some idxs)
            else if tested \<ge> sz then Some None
            else slot_search use cont sz n_tokens n_test head tested (if cont then [] else idxs)))"

declare slot_search.simps [code]

text \<open>An SJ-KVaRN stream takes the cells after its last one, at positions that continue the sequence.\<close>

fun sj_slot :: "llama_ubatch \<Rightarrow> kv_cells \<Rightarrow> nat \<Rightarrow> nat list \<Rightarrow> int \<Rightarrow> bool \<Rightarrow> nat list option option" where
  "sj_slot ub c idx [] p_prev prev_embd = Some (Some [])"
| "sj_slot ub c idx (i # rows) p_prev prev_embd = (
     let pos = ub_pos ub ! i; embd = is_embd_row ub i in
     if \<not> (pos \<ge> 0 \<and> idx < cells_size c) then Some None
     else do {
       empty \<leftarrow> cells_is_empty idx c;
       if empty \<and> (pos = p_prev + 1 \<or> (prev_embd \<and> (if embd then pos \<ge> p_prev else pos > p_prev)))
       then map_option (map_option ((#) idx)) (sj_slot ub c (idx + 1) rows pos (embd \<and> is_pos_2d ub))
       else Some None })"

definition find_stream_slot :: "kv_cfg \<Rightarrow> kv_cache \<Rightarrow> llama_ubatch \<Rightarrow> bool \<Rightarrow> nat \<Rightarrow> nat \<Rightarrow> nat list option option" where
  "find_stream_slot cf kv ub cont n_tokens s = (
     let seq_id = ub_seq_id_unq ub ! s; st = stream cf seq_id; c = kv_cells kv ! st in do {
       assert_that (cf_n_stream cf > 1 \<longrightarrow> ub_seq_id ub ! (s * n_tokens) = [seq_id]);
       case cf_sj cf of
         Some P \<Rightarrow> do {
           let c_next = cells_used_max_p1 c;
           p_prev \<leftarrow> cells_seq_pos_max seq_id c;
           prev_embd \<leftarrow> (if c_next > 0 \<and> is_pos_2d ub
             then map_option (\<lambda>e. ext_tok e = LLAMA_TOKEN_NULL) (cells_ext_get (c_next - 1) c) else Some False);
           sj_slot ub c c_next [s * n_tokens ..< s * n_tokens + n_tokens] p_prev prev_embd }
       | None \<Rightarrow>
           let head = kv_heads kv ! st;
               head = (if head > cells_get_used c + 2 * n_tokens then 0 else head) in
           if n_tokens > cells_size c then Some None
           else slot_search (can_use cf st c) cont (cells_size c) n_tokens (if cont then n_tokens else 1) head 0 [] })"

definition add_stream_slot ::
  "kv_cfg \<Rightarrow> kv_cache \<Rightarrow> llama_ubatch \<Rightarrow> bool \<Rightarrow> nat \<Rightarrow> nat \<Rightarrow> slot_info option \<Rightarrow> slot_info option option" where
  "add_stream_slot cf kv ub cont n_tokens s acc = (case acc of None \<Rightarrow> Some None
     | Some r \<Rightarrow> do {
         slot \<leftarrow> find_stream_slot cf kv ub cont n_tokens s;
         let st = stream cf (ub_seq_id_unq ub ! s);
         Some (map_option (\<lambda>idxs. r\<lparr>si_s0 := min (si_s0 r) st, si_s1 := max (si_s1 r) st,
           si_strm := si_strm r @ [st], si_idxs := si_idxs r @ [idxs]\<rparr>) slot) })"

definition find_slot :: "kv_cfg \<Rightarrow> kv_cache \<Rightarrow> llama_ubatch \<Rightarrow> bool \<Rightarrow> slot_info option" where
  "find_slot cf kv ub cont = do {
     assert_that (cf_n_stream cf > 1 \<longrightarrow> ub_n_seqs_unq ub \<noteq> 0 \<and> ub_n_tokens ub mod ub_n_seqs_unq ub = 0);
     let n_seqs = (if cf_n_stream cf > 1 then ub_n_seqs_unq ub else 1);
     let n_tokens = (if cf_n_stream cf > 1 then ub_n_tokens ub div n_seqs else ub_n_tokens ub);
     res \<leftarrow> for_each (add_stream_slot cf kv ub cont n_tokens) [0..<n_seqs]
       (Some \<lparr>si_s0 = nat LLAMA_MAX_SEQ, si_s1 = 0, si_strm = [], si_idxs = []\<rparr>);
     case res of None \<Rightarrow> Some si_none | Some r \<Rightarrow> Some r }"

subsection \<open>Writing a ubatch\<close>

text \<open>The cell data of row \<open>i\<close>.\<close>

definition row_ext :: "kv_cfg \<Rightarrow> llama_ubatch \<Rightarrow> nat \<Rightarrow> kv_cell_ext" where
  "row_ext cf ub i = (
     let e = kv_cell_ext_default;
         e = (if is_pos_2d ub then e\<lparr>ext_x := ub_pos ub ! (i + ub_n_tokens ub * 2), ext_y := ub_pos ub ! (i + ub_n_tokens ub)\<rparr> else e)
     in if \<not> is_embd_row ub i then e\<lparr>ext_tok := the (ub_token ub) ! i\<rparr>
        else if cf_ple_n_heads cf > 0
          then e\<lparr>ext_tok := (if cf_ple_image_token_id cf \<noteq> 0 then cf_ple_image_token_id cf else cf_ple_eos_token_id cf)\<rparr>
        else e)"

definition write_row :: "kv_cfg \<Rightarrow> llama_ubatch \<Rightarrow> nat \<Rightarrow> nat \<Rightarrow> kv_cells \<Rightarrow> kv_cells option" where
  "write_row cf ub i idx c = do {
     c \<leftarrow> cells_pos_set idx (ub_pos ub ! i) c;
     c \<leftarrow> (if is_pos_2d ub \<or> ub_token ub \<noteq> None \<or> cf_ple_n_heads cf > 0
           then cells_ext_set idx (row_ext cf ub i) c else Some c);
     for_each (\<lambda>s c. cells_seq_add idx s c) (ub_seq_id ub ! i) c }"

definition place_row ::
  "kv_cfg \<Rightarrow> llama_ubatch \<Rightarrow> nat \<Rightarrow> nat \<Rightarrow> kv_cells \<Rightarrow> (int \<Rightarrow> int) \<Rightarrow> (kv_cells \<times> (int \<Rightarrow> int)) option" where
  "place_row cf ub i idx c mx = do {
     empty \<leftarrow> cells_is_empty idx c;
     (c, mx) \<leftarrow> (if empty then Some (c, mx)
       else do {
         cnt \<leftarrow> cells_seq_count idx c;
         assert_that (cnt = 1);
         seq_id \<leftarrow> cells_seq_get idx c;
         pos \<leftarrow> cells_pos_get idx c;
         c \<leftarrow> cells_rm idx c;
         Some (c, mx(seq_id := max (mx seq_id) pos)) });
     c \<leftarrow> write_row cf ub i idx c;
     Some (c, mx) }"

definition place_rows ::
  "kv_cfg \<Rightarrow> slot_info \<Rightarrow> llama_ubatch \<Rightarrow> nat \<Rightarrow> kv_cache \<times> (int \<Rightarrow> int) \<Rightarrow> (kv_cache \<times> (int \<Rightarrow> int)) option" where
  "place_rows cf si ub s = for_each (\<lambda>ii (kv, mx). do {
       let st = si_strm si ! s;
       (c, mx) \<leftarrow> place_row cf ub (s * si_size si + ii) (si_idxs si ! s ! ii) (kv_cells kv ! st) mx;
       Some (kv\<lparr>kv_cells := (kv_cells kv)[st := c]\<rparr>, mx) }) [0..<si_size si]"

text \<open>The positions of a sequence below an overwritten one go too.\<close>

definition purge_seq :: "kv_cfg \<Rightarrow> (int \<Rightarrow> int) \<Rightarrow> int \<Rightarrow> kv_cache \<Rightarrow> kv_cache option" where
  "purge_seq cf mx s kv = (if mx s = -1 then Some kv
     else do {
       assert_that (nat s < length (cf_seq_to_stream cf));
       lo \<leftarrow> cells_seq_pos_min s (kv_cells kv ! stream cf s);
       let p_purge = max lo (int (cf_n_swa_sink cf));
       if p_purge \<le> mx s then map_option fst (kv_seq_rm cf s p_purge (mx s + 1) kv) else Some kv })"

definition kv_apply_ubatch :: "kv_cfg \<Rightarrow> slot_info \<Rightarrow> llama_ubatch \<Rightarrow> kv_cache \<Rightarrow> kv_cache option" where
  "kv_apply_ubatch cf si ub kv = (if cf_other cf then Some kv
     else do {
       assert_that (ub_n_tokens ub = si_n_stream si * si_size si);
       (kv, mx) \<leftarrow> for_each (place_rows cf si ub) [0..<si_n_stream si] (kv, \<lambda>_. -1);
       kv \<leftarrow> for_each (purge_seq cf mx) seq_ids kv;
       let kv = fold (\<lambda>s kv. kv\<lparr>kv_heads := (kv_heads kv)[si_strm si ! s := last (si_idxs si ! s) + 1]\<rparr>)
         [0..<si_n_stream si] kv;
       case cf_sj cf of None \<Rightarrow> Some kv
       | Some P \<Rightarrow> for_each (\<lambda>s kv. do {
           let strm = si_strm si ! s;
           st \<leftarrow> sj_apply P (si_idxs si ! s) (cells_used_max_p1 (kv_cells kv ! strm)) (sc_st strm (kv_sj kv));
           Some (kv\<lparr>kv_sj := sc_upd strm (\<lambda>_. st) (kv_sj kv)\<rparr>) }) [0..<si_n_stream si] kv })"

subsection \<open>The dry run\<close>

record prep_state =
  ps_sinfo :: slot_info
  ps_heads_old :: "nat list"
  ps_cells :: "kv_cells list"

text \<open>The simulated maintenance between the ubatches of the dry run.\<close>

definition sim_maintain :: "sj_params \<Rightarrow> sj_cache \<times> int \<Rightarrow> sj_cache \<times> int" where
  "sim_maintain P = (\<lambda>(C, free_left).
     (C\<lparr>sc_sts := map (\<lambda>st. st\<lparr>st_B := st_B_pending st\<rparr>) (sc_sts C)\<rparr>,
      if sj_paged P then free_left - (\<Sum>st \<leftarrow> sc_sts C. int ((st_B_pending st - st_B st) div sj_group P)) else free_left))"

fun prep_loop ::
  "kv_cfg \<Rightarrow> llama_ubatch list \<Rightarrow> kv_cache \<Rightarrow> int \<Rightarrow> prep_state list \<Rightarrow> (kv_cache \<times> prep_state list \<times> bool) option" where
  "prep_loop cf [] kv free_left states = Some (kv, states, True)"
| "prep_loop cf (ub # ubs) kv free_left states = do {
     si \<leftarrow> find_slot cf kv ub False;
     if si_empty si then Some (kv, states, False)
     else do {
       saved \<leftarrow> for_each (\<lambda>s acc. map_option (\<lambda>c. acc @ [c])
                  (cells_cp_idxs (si_idxs si ! s) (kv_cells kv ! (si_strm si ! s)))) [0..<si_n_stream si] [];
       let states = states @ [\<lparr>ps_sinfo = si, ps_heads_old = kv_heads kv, ps_cells = saved\<rparr>];
       kv \<leftarrow> kv_apply_ubatch cf si ub kv;
       let (C, free_left) = (case cf_sj cf of None \<Rightarrow> (kv_sj kv, free_left)
         | Some P \<Rightarrow> sim_maintain P (kv_sj kv, free_left));
       let kv = kv\<lparr>kv_sj := C\<rparr>;
       if (case cf_sj cf of None \<Rightarrow> False | Some P \<Rightarrow> sj_paged P \<and> free_left < 0) then Some (kv, states, False)
       else prep_loop cf ubs kv free_left states } }"

definition restore_stream :: "prep_state \<Rightarrow> nat \<Rightarrow> kv_cache \<Rightarrow> kv_cache option" where
  "restore_stream ps s kv = (let st = si_strm (ps_sinfo ps) ! s in do {
     c \<leftarrow> cells_set_idxs (si_idxs (ps_sinfo ps) ! s) (ps_cells ps ! s) (kv_cells kv ! st);
     Some (kv_put st c (ps_heads_old ps ! s) kv) })"

definition restore_state :: "prep_state \<Rightarrow> kv_cache \<Rightarrow> kv_cache option" where
  "restore_state ps kv = for_each (restore_stream ps) [0..<si_n_stream (ps_sinfo ps)] kv"

definition restore_sj :: "sj_kvarn_stream \<Rightarrow> sj_kvarn_stream \<Rightarrow> sj_kvarn_stream" where
  "restore_sj old st = st\<lparr>st_B := st_B old, st_B_prev := st_B_prev old, st_N := st_N old,
     st_B_pending := st_B_pending old, st_ring_lo := st_ring_lo old, st_draining := st_draining old\<rparr>"

definition kv_prepare :: "kv_cfg \<Rightarrow> llama_ubatch list \<Rightarrow> kv_cache \<Rightarrow> (kv_cache \<times> slot_info list) option" where
  "kv_prepare cf ubs kv = do {
     let old = sc_sts (kv_sj kv);
     (kv, states, success) \<leftarrow> prep_loop cf ubs kv (int (length (sc_free (kv_sj kv)))) [];
     assert_that (states \<noteq> [] \<or> \<not> success);
     kv \<leftarrow> for_each restore_state (rev states) kv;
     let kv = kv\<lparr>kv_sj := (kv_sj kv)\<lparr>sc_sts := map2 restore_sj old (sc_sts (kv_sj kv))\<rparr>\<rparr>;
     Some (kv, if success then map ps_sinfo states else []) }"

subsection \<open>The search returns, and what it returns\<close>

text \<open>The order in which the cells are tested.\<close>

definition ring_from :: "nat \<Rightarrow> nat \<Rightarrow> nat list" where
  "ring_from h n = [h..<n] @ [0..<h]"

definition first_n :: "nat \<Rightarrow> nat list \<Rightarrow> nat list option" where
  "first_n n xs = (if n \<le> length xs then Some (take n xs) else None)"

lemma first_n_full: "length xs = n \<Longrightarrow> first_n n (xs @ ys) = Some xs"
  by (simp add: first_n_def)

lemma test_run_one:
  "use h = Some u \<Longrightarrow> test_run use False 1 h t idxs = Some (h + 1, t + 1, if u then idxs @ [h] else idxs)"
  by (simp add: One_nat_def del: One_nat_def [symmetric])

lemma search_second:
  assumes "\<And>i. i < sz \<Longrightarrow> use i = Some (u i)" "h < h0" "h0 \<le> sz" "t = sz - h0 + h" "length idxs < n"
  shows "slot_search use False sz n 1 h t idxs = Some (first_n n (idxs @ filter u [h..<h0]))"
  using assms(2-)
proof (induction "h0 - h" arbitrary: h t idxs)
  case (Suc k)
  let ?idxs = "if u h then idxs @ [h] else idxs"
  have h: "\<not> h + 1 > sz" "use h = Some (u h)" using Suc.prems assms(1) by auto
  have nxt: "idxs @ filter u [h..<h0] = ?idxs @ filter u [h + 1..<h0]" using Suc.prems(1) by (simp add: upt_conv_Cons)
  have unfold: "slot_search use False sz n 1 h t idxs = (if length ?idxs = n then Some (Some ?idxs)
      else if t + 1 \<ge> sz then Some None else slot_search use False sz n 1 (h + 1) (t + 1) ?idxs)"
    by (subst slot_search.simps) (simp only: h(1) test_run_one [of use h "u h", OF h(2)] if_False option.case prod.case)
  have "length ?idxs \<le> n" using Suc.prems(4) by simp
  then consider "length ?idxs = n" | "length ?idxs < n" "h + 1 = h0" | "length ?idxs < n" "h + 1 < h0"
    using Suc.prems(1) by linarith
  then show ?case
  proof cases
    case 1
    then show ?thesis unfolding unfold nxt using first_n_full [OF 1] by simp
  next
    case 2
    have "t + 1 \<ge> sz" using Suc.prems(1-3) 2(2) by linarith
    with 2 show ?thesis unfolding unfold nxt by (simp add: first_n_def)
  next
    case 3
    have "slot_search use False sz n 1 (h + 1) (t + 1) ?idxs = Some (first_n n (?idxs @ filter u [h + 1..<h0]))"
      using 3 Suc by (intro Suc.hyps(1)) auto
    moreover have "\<not> t + 1 \<ge> sz" using Suc.prems(1-3) 3(2) by linarith
    ultimately show ?thesis unfolding unfold nxt using 3(1) by simp
  qed
qed simp

lemma search_first:
  assumes "\<And>i. i < sz \<Longrightarrow> use i = Some (u i)" "0 < sz" "h0 \<le> h" "h \<le> sz" "h < sz \<or> 0 < h0" "t = h - h0" "length idxs < n"
  shows "slot_search use False sz n 1 h t idxs = Some (first_n n (idxs @ filter u ([h..<sz] @ [0..<h0])))"
  using assms(3-)
proof (induction "sz - h" arbitrary: h t idxs)
  case 0
  then have h: "h = sz" "0 < h0" by auto
  have "slot_search use False sz n 1 h t idxs = slot_search use False sz n 1 0 (t + (sz - h)) idxs"
    by (subst slot_search.simps) (simp add: h)
  also have "\<dots> = Some (first_n n (idxs @ filter u [0..<h0]))"
    using 0 h by (intro search_second assms(1)) auto
  finally show ?case by (simp add: h)
next
  case (Suc k)
  let ?idxs = "if u h then idxs @ [h] else idxs"
  have h: "\<not> h + 1 > sz" "use h = Some (u h)" using Suc.hyps(2) assms(1) by auto
  have nxt: "idxs @ filter u ([h..<sz] @ [0..<h0]) = ?idxs @ filter u ([h + 1..<sz] @ [0..<h0])"
    using Suc.hyps(2) by (simp add: upt_conv_Cons)
  have unfold: "slot_search use False sz n 1 h t idxs = (if length ?idxs = n then Some (Some ?idxs)
      else if t + 1 \<ge> sz then Some None else slot_search use False sz n 1 (h + 1) (t + 1) ?idxs)"
    by (subst slot_search.simps) (simp only: h(1) test_run_one [of use h "u h", OF h(2)] if_False option.case prod.case)
  have "length ?idxs \<le> n" using Suc.prems(5) by simp
  then consider "length ?idxs = n" | "length ?idxs < n" "t + 1 \<ge> sz" | "length ?idxs < n" "t + 1 < sz"
    by linarith
  then show ?case
  proof cases
    case 1
    then show ?thesis unfolding unfold nxt using first_n_full [OF 1] by simp
  next
    case 2
    then have "h + 1 = sz" "h0 = 0" using Suc.prems Suc.hyps(2) by auto
    with 2 show ?thesis unfolding unfold nxt by (simp add: first_n_def)
  next
    case 3
    have "slot_search use False sz n 1 (h + 1) (t + 1) ?idxs = Some (first_n n (?idxs @ filter u ([h + 1..<sz] @ [0..<h0])))"
      using 3 Suc by (intro Suc.hyps(1)) auto
    with 3 show ?thesis unfolding unfold nxt by simp
  qed
qed

lemma slot_search_scan:
  assumes "\<And>i. i < sz \<Longrightarrow> use i = Some (u i)" "h \<le> sz" "0 < n" "0 < sz"
  shows "slot_search use False sz n 1 h 0 [] = Some (first_n n (filter u (ring_from h sz)))"
proof -
  have "h < sz \<or> 0 < h" using assms(4) by auto
  then show ?thesis using search_first [of sz use u h h 0 "[]" n] assms by (simp add: ring_from_def)
qed

text \<open>The contiguous search.\<close>

definition window :: "(nat \<Rightarrow> bool) \<Rightarrow> nat \<Rightarrow> nat \<Rightarrow> nat \<Rightarrow> bool" where
  "window u sz n k \<longleftrightarrow> k + n \<le> sz \<and> (\<forall>i < n. u (k + i))"

lemma test_run_cont:
  assumes "\<And>i. i < sz \<Longrightarrow> use i = Some (u i)" "h + k \<le> sz"
  shows "(\<forall>i < k. u (h + i)) \<and> test_run use True k h t idxs = Some (h + k, t + k, idxs @ [h..<h + k]) \<or>
    (\<exists>j < k. \<not> u (h + j) \<and> test_run use True k h t idxs = Some (h + j + 1, t + j + 1, idxs @ [h..<h + j]))"
  using assms(2)
proof (induction k arbitrary: h t idxs)
  case (Suc k)
  have u: "use h = Some (u h)" using Suc.prems assms(1) by simp
  show ?case
  proof (cases "u h")
    case True
    from Suc.IH [of "Suc h" "Suc t" "idxs @ [h]"] Suc.prems
    consider "\<forall>i < k. u (Suc h + i)" "test_run use True k (Suc h) (Suc t) (idxs @ [h]) = Some (Suc h + k, Suc t + k, (idxs @ [h]) @ [Suc h..<Suc h + k])"
      | j where "j < k" "\<not> u (Suc h + j)" "test_run use True k (Suc h) (Suc t) (idxs @ [h]) = Some (Suc h + j + 1, Suc t + j + 1, (idxs @ [h]) @ [Suc h..<Suc h + j])"
      by auto
    then show ?thesis
    proof cases
      case 1
      have "\<forall>i < Suc k. u (h + i)" using 1(1) True by (metis add.right_neutral add_Suc_shift less_Suc_eq_0_disj)
      then show ?thesis using 1(2) True u by (simp add: upt_conv_Cons)
    next
      case 2
      then show ?thesis using True u
        by (intro disjI2 exI [of _ "Suc j"]) (simp add: upt_conv_Cons)
    qed
  next
    case False
    then show ?thesis using u by (intro disjI2 exI [of _ 0]) simp
  qed
qed simp

text \<open>The starts already ruled out.\<close>

definition ruled_out :: "(nat \<Rightarrow> bool) \<Rightarrow> nat \<Rightarrow> nat \<Rightarrow> nat \<Rightarrow> nat \<Rightarrow> bool" where
  "ruled_out w sz h0 h t \<longleftrightarrow> (\<forall>k. \<not> w k) \<or> h0 \<le> h \<and> t = h - h0 \<and> (\<forall>k. h0 \<le> k \<and> k < h \<longrightarrow> \<not> w k) \<or>
     t = sz - h0 + h \<and> (\<forall>k. h0 \<le> k \<or> k < h \<longrightarrow> \<not> w k)"

lemma ruled_out_wrap:
  assumes "ruled_out (window u sz n) sz h0 h t" "h + n > sz" "h \<le> sz" "h0 \<le> sz"
  shows "ruled_out (window u sz n) sz h0 0 (t + (sz - h))"
proof -
  have none: "\<not> window u sz n k" if "h \<le> k" for k using that assms(2) by (simp add: window_def)
  from assms(1) consider "\<forall>k. \<not> window u sz n k"
    | "h0 \<le> h" "t = h - h0" "\<forall>k. h0 \<le> k \<and> k < h \<longrightarrow> \<not> window u sz n k"
    | "\<forall>k. h0 \<le> k \<or> k < h \<longrightarrow> \<not> window u sz n k" unfolding ruled_out_def by blast
  then show ?thesis
  proof cases
    case 2
    then have "t + (sz - h) = sz - h0 + 0" "\<forall>k. h0 \<le> k \<or> k < 0 \<longrightarrow> \<not> window u sz n k"
      using assms(3,4) none by (auto simp: not_le) (metis leI)
    then show ?thesis unfolding ruled_out_def by blast
  next
    case 3
    then have "\<forall>k. \<not> window u sz n k" using none by (metis leI)
    then show ?thesis by (simp add: ruled_out_def)
  qed (simp add: ruled_out_def)
qed

lemma ruled_out_skip:
  assumes "ruled_out (window u sz n) sz h0 h t" "j < n" "\<not> u (h + j)"
  shows "ruled_out (window u sz n) sz h0 (h + j + 1) (t + j + 1)"
proof -
  have none: "\<not> window u sz n k" if "h \<le> k" "k < h + j + 1" for k
  proof
    assume w: "window u sz n k"
    define i where "i = h + j - k"
    have "i < n" "k + i = h + j" using that assms(2) by (simp_all add: i_def)
    with w assms(3) show False unfolding window_def by metis
  qed
  from assms(1) consider "\<forall>k. \<not> window u sz n k"
    | "h0 \<le> h" "t = h - h0" "\<forall>k. h0 \<le> k \<and> k < h \<longrightarrow> \<not> window u sz n k"
    | "t = sz - h0 + h" "\<forall>k. h0 \<le> k \<or> k < h \<longrightarrow> \<not> window u sz n k" unfolding ruled_out_def by blast
  then show ?thesis
  proof cases
    case 2
    then have "\<forall>k. h0 \<le> k \<and> k < h + j + 1 \<longrightarrow> \<not> window u sz n k" using none by (metis leI)
    moreover have "h0 \<le> h + j + 1" "t + j + 1 = h + j + 1 - h0" using 2 by auto
    ultimately show ?thesis unfolding ruled_out_def by blast
  next
    case 3
    then have "\<forall>k. h0 \<le> k \<or> k < h + j + 1 \<longrightarrow> \<not> window u sz n k" using none by (metis leI)
    moreover have "t + j + 1 = sz - h0 + (h + j + 1)" using 3 by simp
    ultimately show ?thesis unfolding ruled_out_def by blast
  qed (simp add: ruled_out_def)
qed

lemma ruled_out_all:
  assumes "ruled_out (window u sz n) sz h0 h t" "t \<ge> sz" "h0 \<le> sz" "h \<le> sz" "0 < n"
  shows "\<not> window u sz n k"
proof (cases "k < sz")
  case True
  from assms(1) consider "\<forall>k. \<not> window u sz n k"
    | "h0 \<le> h" "t = h - h0" "\<forall>k. h0 \<le> k \<and> k < h \<longrightarrow> \<not> window u sz n k"
    | "t = sz - h0 + h" "\<forall>k. h0 \<le> k \<or> k < h \<longrightarrow> \<not> window u sz n k" unfolding ruled_out_def by blast
  then show ?thesis
  proof cases
    case 2
    then have "h0 = 0" "h = sz" using assms(2-4) by auto
    with 2 True show ?thesis by simp
  next
    case 3
    then have "h0 \<le> h" using assms(2,3) by linarith
    with 3 show ?thesis by (metis leI order_trans)
  qed simp
qed (use assms(5) in \<open>simp add: window_def\<close>)

lemma slot_search_cont:
  assumes "\<And>i. i < sz \<Longrightarrow> use i = Some (u i)" "0 < n" "n \<le> sz" "h \<le> sz" "h0 \<le> sz" "ruled_out (window u sz n) sz h0 h t"
  shows "(\<exists>k. slot_search use True sz n n h t [] = Some (Some [k..<k + n]) \<and> window u sz n k) \<or>
    slot_search use True sz n n h t [] = Some None \<and> (\<forall>k. \<not> window u sz n k)"
  using assms(4-)
proof (induction "sz - t" arbitrary: h t rule: less_induct)
  case less
  text \<open>one test from \<open>h\<close>\<close>
  have test: "(\<exists>k. slot_search use True sz n n h t [] = Some (Some [k..<k + n]) \<and> window u sz n k) \<or>
      slot_search use True sz n n h t [] = Some None \<and> (\<forall>k. \<not> window u sz n k)"
    if fit: "h + n \<le> sz" and r: "ruled_out (window u sz n) sz h0 h t"
      and IH: "\<And>h' t'. t < t' \<Longrightarrow> t' < sz \<Longrightarrow> h' \<le> sz \<Longrightarrow> ruled_out (window u sz n) sz h0 h' t' \<Longrightarrow>
        (\<exists>k. slot_search use True sz n n h' t' [] = Some (Some [k..<k + n]) \<and> window u sz n k) \<or>
        slot_search use True sz n n h' t' [] = Some None \<and> (\<forall>k. \<not> window u sz n k)" for h t
  proof -
    from test_run_cont [where use = use and u = u and t = t and idxs = "[]", OF assms(1) fit]
    consider "\<forall>i < n. u (h + i)" "test_run use True n h t [] = Some (h + n, t + n, [h..<h + n])"
      | j where "j < n" "\<not> u (h + j)" "test_run use True n h t [] = Some (h + j + 1, t + j + 1, [h..<h + j])"
      by auto
    then show ?thesis
    proof cases
      case 1
      have "slot_search use True sz n n h t [] = Some (Some [h..<h + n])"
        by (subst slot_search.simps) (use fit in \<open>simp add: 1(2)\<close>)
      then show ?thesis using 1(1) fit by (auto simp: window_def)
    next
      case 2
      have e: "slot_search use True sz n n h t [] = (if t + j + 1 \<ge> sz then Some None
          else slot_search use True sz n n (h + j + 1) (t + j + 1) [])"
        by (subst slot_search.simps) (use fit 2(1) in \<open>simp add: 2(3)\<close>)
      note r' = ruled_out_skip [OF r 2(1,2)]
      have h': "h + j + 1 \<le> sz" using fit 2(1) by simp
      show ?thesis
      proof (cases "t + j + 1 \<ge> sz")
        case True
        then show ?thesis using e ruled_out_all [OF r' True less.prems(2) h' assms(2)] by simp
      next
        case False
        then show ?thesis unfolding e using IH [OF _ _ h' r'] by simp
      qed
    qed
  qed
  have IH: "(\<exists>k. slot_search use True sz n n h' t' [] = Some (Some [k..<k + n]) \<and> window u sz n k) \<or>
      slot_search use True sz n n h' t' [] = Some None \<and> (\<forall>k. \<not> window u sz n k)"
    if "t < t'" "t' < sz" "h' \<le> sz" "ruled_out (window u sz n) sz h0 h' t'" for h' t'
  proof (rule less.hyps)
    show "sz - t' < sz - t" using that(1,2) by linarith
  qed (fact that(3) less.prems(2) that(4))+
  show ?case
  proof (cases "h + n > sz")
    case False
    then have "h + n \<le> sz" by simp
    from this less.prems(3) IH show ?thesis by (rule test)
  next
    case True
    have "slot_search use True sz n n h t [] = slot_search use True sz n n 0 (t + (sz - h)) []"
      by (subst slot_search.simps) (simp add: True)
    moreover have "(\<exists>k. slot_search use True sz n n 0 (t + (sz - h)) [] = Some (Some [k..<k + n]) \<and> window u sz n k) \<or>
      slot_search use True sz n n 0 (t + (sz - h)) [] = Some None \<and> (\<forall>k. \<not> window u sz n k)"
    proof (rule test)
      show "0 + n \<le> sz" using assms(3) by simp
      show "ruled_out (window u sz n) sz h0 0 (t + (sz - h))" by (rule ruled_out_wrap [OF less.prems(3) True less.prems(1,2)])
    qed (rule IH, linarith)
    ultimately show ?thesis by simp
  qed
qed

lemma slot_search_cont_ok:
  assumes "\<And>i. i < sz \<Longrightarrow> use i = Some (u i)" "0 < n" "n \<le> sz" "h \<le> sz"
  shows "(\<exists>k. slot_search use True sz n n h 0 [] = Some (Some [k..<k + n]) \<and> window u sz n k) \<or>
    slot_search use True sz n n h 0 [] = Some None \<and> (\<forall>k. \<not> window u sz n k)"
proof -
  have "ruled_out (window u sz n) sz h h 0" by (auto simp: ruled_out_def)
  from slot_search_cont [where use = use and u = u, OF assms assms(4) this] show ?thesis by blast
qed

subsection \<open>Which cells can be used\<close>

definition swa_ok :: "kv_cfg \<Rightarrow> bool" where
  "swa_ok cf \<longleftrightarrow> (cf_swa_type cf = LLAMA_SWA_TYPE_CHUNKED \<longrightarrow> cf_n_swa cf \<noteq> 0)"

definition usable :: "kv_cfg \<Rightarrow> nat \<Rightarrow> kv_cells \<Rightarrow> nat \<Rightarrow> bool" where
  "usable cf st c i \<longleftrightarrow> can_use cf st c i = Some True"

lemma single_seq:
  assumes "S \<subseteq> set seq_ids" "card S = 1"
  obtains s where "S = {s}" "find (\<lambda>s. s \<in> S) seq_ids = Some s" "0 \<le> s" "s < LLAMA_MAX_SEQ"
proof -
  obtain s where s: "S = {s}" using assms(2) card_1_singletonE by blast
  then have "s \<in> set seq_ids" using assms(1) by simp
  then obtain r where r: "find (\<lambda>t. t \<in> S) seq_ids = Some r"
    using s by (cases "find (\<lambda>t. t \<in> S) seq_ids") (auto simp: find_None_iff)
  then have "r = s" using s by (auto simp: find_Some_iff)
  with that [of s] s r \<open>s \<in> set seq_ids\<close> show thesis by simp
qed

text \<open>A used cell is empty or holds one sequence, and testing a cell never fails an assertion.\<close>

lemma can_use_total:
  assumes "cells_inv c" "i < cells_size c" "swa_ok cf"
  shows "\<exists>u. can_use cf st c i = Some u \<and>
    (u \<longrightarrow> kc_pos c ! i = -1 \<or> card (kc_seq c ! i) = 1 \<and> cf_swa_type cf \<noteq> LLAMA_SWA_TYPE_NONE \<and>
      int (cf_n_swa_sink cf) \<le> kc_pos c ! i)"
proof (cases "kc_pos c ! i = -1")
  case True
  then show ?thesis using assms(2) by (simp add: can_use_def cells_is_empty_def)
next
  case False
  have p: "kc_pos c ! i \<ge> 0" using pos_nonneg [OF assms(1,2) False] .
  show ?thesis
  proof (cases "card (kc_seq c ! i) = 1")
    case one: True
    obtain s where s: "kc_seq c ! i = {s}" "find (\<lambda>s. s \<in> kc_seq c ! i) seq_ids = Some s" "0 \<le> s" "s < LLAMA_MAX_SEQ"
      using single_seq [OF cells_invD(8) [OF assms(1,2)] one] by blast
    have i: "i \<in> seq_cells s c" using assms(2) s(1) by (simp add: seq_cells_def)
    define mx where "mx = Max ((\<lambda>i. kc_pos c ! i) ` seq_cells s c)"
    have mx: "cells_seq_pos_max s c = Some mx" using seq_pos_max_scan [OF assms(1) s(3,4)] i by (auto simp: mx_def)
    have "kc_pos c ! i \<le> mx" unfolding mx_def using i by (intro Max_ge) auto
    with p have mx0: "mx + 1 \<ge> 0" by simp
    obtain m where m: "is_masked_swa (cf_n_swa cf) (cf_swa_type cf) (kc_pos c ! i) (mx + 1) = Some m"
      "m \<longrightarrow> cf_swa_type cf \<noteq> LLAMA_SWA_TYPE_NONE"
      using p mx0 assms(3) by (cases "cf_swa_type cf") (auto simp: is_masked_swa_def swa_ok_def Let_def)
    have "can_use cf st c i = Some (if cf_limits cf \<noteq> [] \<and> i \<ge> cf_limits cf ! st then False
        else if kc_pos c ! i \<ge> int (cf_n_swa_sink cf) then m else False)"
      using assms(2) False p one s mx m(1)
      by (simp add: can_use_def cells_is_empty_def cells_seq_count_def cells_pos_get_def cells_seq_get_def)
    then show ?thesis using one m(2) by auto
  next
    case False
    then have "can_use cf st c i = Some False"
      using assms(2) p by (simp add: can_use_def cells_is_empty_def cells_seq_count_def)
    then show ?thesis by auto
  qed
qed

lemma can_use_eq:
  "cells_inv c \<Longrightarrow> i < cells_size c \<Longrightarrow> swa_ok cf \<Longrightarrow> can_use cf st c i = Some (usable cf st c i)"
  using can_use_total [of c i cf st] by (auto simp: usable_def)

lemma usable_cell:
  assumes "cells_inv c" "i < cells_size c" "swa_ok cf" "usable cf st c i"
  shows "kc_pos c ! i = -1 \<or> card (kc_seq c ! i) = 1 \<and> cf_swa_type cf \<noteq> LLAMA_SWA_TYPE_NONE \<and>
    int (cf_n_swa_sink cf) \<le> kc_pos c ! i"
  using can_use_total [OF assms(1-3), of st] assms(4) by (auto simp: usable_def)

text \<open>What a slot of \<open>n\<close> cells in one stream is.\<close>

definition slot_for :: "kv_cfg \<Rightarrow> nat \<Rightarrow> kv_cells \<Rightarrow> bool \<Rightarrow> nat \<Rightarrow> nat list \<Rightarrow> bool" where
  "slot_for cf st c cont n idxs \<longleftrightarrow> length idxs = n \<and> distinct idxs \<and>
     (\<forall>i \<in> set idxs. i < cells_size c \<and> usable cf st c i) \<and> (cont \<longrightarrow> (\<exists>k. idxs = [k..<k + n]))"

text \<open>With SJ-KVaRN a slot is the run of cells after the last one, and the rows must continue the sequence:
  each at the position after its predecessor, except that in a model with 2D positions an embedding row may
  share the position of an embedding row before it, and a token row may jump ahead of one.\<close>

definition seq_last_pos :: "int \<Rightarrow> kv_cells \<Rightarrow> int" where
  "seq_last_pos s c = (if seq_cells s c = {} then -1 else Max ((\<lambda>i. kc_pos c ! i) ` seq_cells s c))"

definition last_is_embd :: "llama_ubatch \<Rightarrow> kv_cells \<Rightarrow> bool" where
  "last_is_embd ub c \<longleftrightarrow> is_pos_2d ub \<and> cells_used_max_p1 c > 0 \<and>
     ext_tok (kc_ext c ! (cells_used_max_p1 c - 1)) = LLAMA_TOKEN_NULL"

definition row_continues :: "llama_ubatch \<Rightarrow> int \<Rightarrow> bool \<Rightarrow> nat \<Rightarrow> bool" where
  "row_continues ub p_prev prev_embd i \<longleftrightarrow> ub_pos ub ! i \<ge> 0 \<and> (ub_pos ub ! i = p_prev + 1 \<or>
     prev_embd \<and> (if is_embd_row ub i then ub_pos ub ! i \<ge> p_prev else ub_pos ub ! i > p_prev))"

definition rows_continue :: "llama_ubatch \<Rightarrow> int \<Rightarrow> bool \<Rightarrow> nat \<Rightarrow> nat \<Rightarrow> bool" where
  "rows_continue ub p_prev prev_embd a n \<longleftrightarrow> (\<forall>j < n. row_continues ub (if j = 0 then p_prev else ub_pos ub ! (a + j - 1))
     (if j = 0 then prev_embd else is_embd_row ub (a + j - 1) \<and> is_pos_2d ub) (a + j))"

definition sj_slot_for :: "llama_ubatch \<Rightarrow> int \<Rightarrow> kv_cells \<Rightarrow> nat \<Rightarrow> nat \<Rightarrow> nat list \<Rightarrow> bool" where
  "sj_slot_for ub s c a n idxs \<longleftrightarrow> idxs = [cells_used_max_p1 c..<cells_used_max_p1 c + n] \<and>
     cells_used_max_p1 c + n \<le> cells_size c \<and> rows_continue ub (seq_last_pos s c) (last_is_embd ub c) a n"

lemma rows_continue_Suc:
  "rows_continue ub p e a (Suc n) \<longleftrightarrow> row_continues ub p e a \<and>
    rows_continue ub (ub_pos ub ! a) (is_embd_row ub a \<and> is_pos_2d ub) (Suc a) n"
proof -
  have *: "(\<forall>j < Suc n. P j) \<longleftrightarrow> P 0 \<and> (\<forall>j < n. P (Suc j))" for P
    by (metis less_Suc_eq_0_disj)
  have "(if j = 0 then ub_pos ub ! a else ub_pos ub ! (Suc a + j - 1)) = ub_pos ub ! (a + j)"
    "(if j = 0 then is_embd_row ub a \<and> is_pos_2d ub else is_embd_row ub (Suc a + j - 1) \<and> is_pos_2d ub) =
      (is_embd_row ub (a + j) \<and> is_pos_2d ub)" for j by simp_all
  then show ?thesis unfolding rows_continue_def * by simp
qed

lemma sj_slot_eq:
  assumes "\<And>i. idx \<le> i \<Longrightarrow> i < cells_size c \<Longrightarrow> kc_pos c ! i = -1" "idx \<le> cells_size c"
  shows "sj_slot ub c idx [a..<a + n] p e =
    Some (if idx + n \<le> cells_size c \<and> rows_continue ub p e a n then Some [idx..<idx + n] else None)"
  using assms
proof (induction n arbitrary: idx a p e)
  case 0
  then show ?case by (simp add: rows_continue_def)
next
  case (Suc n)
  have u: "[a..<a + Suc n] = a # [Suc a..<Suc a + n]" by (simp add: upt_rec)
  show ?case
  proof (cases "idx < cells_size c")
    case True
    have "cells_is_empty idx c = Some True" using Suc.prems True by (simp add: cells_is_empty_def)
    moreover have "sj_slot ub c (idx + 1) [Suc a..<Suc a + n] (ub_pos ub ! a) (is_embd_row ub a \<and> is_pos_2d ub) =
      Some (if idx + 1 + n \<le> cells_size c \<and> rows_continue ub (ub_pos ub ! a) (is_embd_row ub a \<and> is_pos_2d ub) (Suc a) n
        then Some [idx + 1..<idx + 1 + n] else None)"
      using Suc.prems True by (intro Suc.IH) auto
    moreover have "idx # [idx + 1..<idx + 1 + n] = [idx..<idx + Suc n]" by (simp add: upt_rec)
    ultimately show ?thesis unfolding u sj_slot.simps Let_def rows_continue_Suc
      using True by (auto simp: row_continues_def)
  next
    case False
    then show ?thesis unfolding u sj_slot.simps by (simp add: Let_def)
  qed
qed

lemma used_max_p1:
  assumes "cells_inv c"
  shows "cells_used_max_p1 c \<le> cells_size c" "cells_used_max_p1 c \<le> i \<Longrightarrow> i < cells_size c \<Longrightarrow> kc_pos c ! i = -1"
    "cells_used_max_p1 c > 0 \<Longrightarrow> kc_pos c ! (cells_used_max_p1 c - 1) \<noteq> -1"
proof -
  note U = cells_invD(9) [OF assms]
  have fin: "finite (kc_used c)" by (rule finite_subset [of _ "{..<cells_size c}"]) (use U in auto)
  have mx: "kc_used c \<noteq> {} \<Longrightarrow> Max (kc_used c) \<in> kc_used c" using fin by simp
  show "cells_used_max_p1 c \<le> cells_size c" using mx U by (auto simp: cells_used_max_p1_def Suc_le_eq)
  show "kc_pos c ! i = -1" if "cells_used_max_p1 c \<le> i" "i < cells_size c"
    using that U [of i] Max_ge [OF fin, of i] by (cases "kc_pos c ! i = -1") (auto simp: cells_used_max_p1_def split: if_splits)
  show "kc_pos c ! (cells_used_max_p1 c - 1) \<noteq> -1" if "cells_used_max_p1 c > 0"
    using that mx U by (auto simp: cells_used_max_p1_def split: if_splits)
qed

lemma cfg_okS: "cfg_ok cf \<Longrightarrow> cfg_sane cf"
  by (simp add: cfg_ok_def)

lemma find_stream_slot_sj:
  assumes "cfg_sane cf" "cf_sj cf = Some P" "kv_inv cf n kv" "valid_seq cf (ub_seq_id_unq ub ! s)"
    and "cf_n_stream cf > 1 \<Longrightarrow> ub_seq_id ub ! (s * nt) = [ub_seq_id_unq ub ! s]"
    and "c = kv_cells kv ! stream cf (ub_seq_id_unq ub ! s)"
  shows "(\<exists>idxs. find_stream_slot cf kv ub cont nt s = Some (Some idxs) \<and> sj_slot_for ub (ub_seq_id_unq ub ! s) c (s * nt) nt idxs) \<or>
    find_stream_slot cf kv ub cont nt s = Some None \<and> (\<forall>idxs. \<not> sj_slot_for ub (ub_seq_id_unq ub ! s) c (s * nt) nt idxs)"
proof -
  define q where "q = ub_seq_id_unq ub ! s"
  have st: "stream cf q < cf_n_stream cf" and q: "0 \<le> q" "q < LLAMA_MAX_SEQ"
    using cfg_saneD(1,2) [OF assms(1,4)] by (simp_all add: q_def)
  note D = kv_invD(1) [OF assms(3) st, folded assms(6) [folded q_def]]
  note U = used_max_p1 [OF D]
  have last: "cells_seq_pos_max q c = Some (seq_last_pos q c)"
    using seq_pos_max_scan [OF D q] by (simp add: seq_last_pos_def)
  have embd: "(if cells_used_max_p1 c > 0 \<and> is_pos_2d ub
       then map_option (\<lambda>e. ext_tok e = LLAMA_TOKEN_NULL) (cells_ext_get (cells_used_max_p1 c - 1) c) else Some False) =
      Some (last_is_embd ub c)"
    using U by (auto simp: last_is_embd_def cells_ext_get_def)
  have "find_stream_slot cf kv ub cont nt s =
      Some (if cells_used_max_p1 c + nt \<le> cells_size c \<and> rows_continue ub (seq_last_pos q c) (last_is_embd ub c) (s * nt) nt
        then Some [cells_used_max_p1 c..<cells_used_max_p1 c + nt] else None)"
    unfolding find_stream_slot_def Let_def q_def [symmetric] assms(6) [folded q_def, symmetric] assms(2) option.case last embd
    using assms(5) [folded q_def] sj_slot_eq [OF U(2,1)] by simp
  then show ?thesis by (auto simp: sj_slot_for_def q_def)
qed

lemma find_stream_slot_ok:
  assumes "cfg_ok cf" "swa_ok cf" "kv_inv cf n kv" "valid_seq cf (ub_seq_id_unq ub ! s)" "0 < nt"
    and "cf_n_stream cf > 1 \<Longrightarrow> ub_seq_id ub ! (s * nt) = [ub_seq_id_unq ub ! s]"
    and "st = stream cf (ub_seq_id_unq ub ! s)" "c = kv_cells kv ! st"
  shows "(\<exists>idxs. find_stream_slot cf kv ub cont nt s = Some (Some idxs) \<and> slot_for cf st c cont nt idxs) \<or>
    find_stream_slot cf kv ub cont nt s = Some None \<and> (\<forall>idxs. \<not> slot_for cf st c cont nt idxs)"
proof -
  have st: "st < cf_n_stream cf" using cfg_okD(1) [OF assms(1,4)] assms(7) by simp
  note D = kv_invD [OF assms(3) st, folded assms(8)]
  define h where "h = (if kv_heads kv ! st > cells_get_used c + 2 * nt then 0 else kv_heads kv ! st)"
  have h: "h \<le> n" using D(4) by (simp add: h_def)
  have eq: "find_stream_slot cf kv ub cont nt s = (if nt > n then Some None
      else slot_search (can_use cf st c) cont n nt (if cont then nt else 1) h 0 [])"
    using cfg_okD(6) [OF assms(1)] assms(6) D(3) by (simp add: find_stream_slot_def Let_def assms(7,8) h_def)
  have use: "can_use cf st c i = Some (usable cf st c i)" if "i < n" for i
    using can_use_eq [OF D(1) _ assms(2)] that D(3) by simp
  show ?thesis
  proof (cases "nt > n")
    case True
    have "\<not> slot_for cf st c cont nt idxs" for idxs
    proof
      assume sl: "slot_for cf st c cont nt idxs"
      then have "set idxs \<subseteq> {..<n}" using D(3) by (auto simp: slot_for_def)
      then have "card (set idxs) \<le> n" by (metis card_lessThan card_mono finite_lessThan)
      with sl True show False by (simp add: slot_for_def distinct_card)
    qed
    with True eq show ?thesis by simp
  next
    case False
    then have nt: "nt \<le> n" "0 < n" using assms(5) by auto
    show ?thesis
    proof (cases cont)
      case True
      have "slot_for cf st c cont nt [k..<k + nt]" if "window (usable cf st c) n nt k" for k
        unfolding slot_for_def using that D(3)
        by (auto simp: window_def) (metis add_less_cancel_left le_Suc_ex)
      moreover have "window (usable cf st c) n nt k" if "slot_for cf st c cont nt [k..<k + nt]" for k
      proof -
        have "usable cf st c (k + i)" "k + i < n" if "i < nt" for i
          using \<open>slot_for cf st c cont nt [k..<k + nt]\<close> that D(3) by (auto simp: slot_for_def)
        then show ?thesis using assms(5) unfolding window_def
          by (metis Suc_leI add_Suc_right diff_Suc_1 gr0_implies_Suc lessI)
      qed
      moreover have "find_stream_slot cf kv ub cont nt s = slot_search (can_use cf st c) True n nt nt h 0 []"
        using eq nt(1) True by simp
      moreover have "\<exists>k. idxs = [k..<k + nt]" if "slot_for cf st c cont nt idxs" for idxs
        using that True by (simp add: slot_for_def)
      ultimately show ?thesis
        using slot_search_cont_ok [where use = "can_use cf st c" and u = "usable cf st c", OF use assms(5) nt(1) h] by metis
    next
      case False
      let ?xs = "filter (usable cf st c) (ring_from h n)"
      have set: "set ?xs = {i. i < n \<and> usable cf st c i}" "distinct ?xs"
        using h by (auto simp: ring_from_def)
      have s: "find_stream_slot cf kv ub cont nt s = Some (first_n nt ?xs)"
        using slot_search_scan [where use = "can_use cf st c" and u = "usable cf st c", OF use h assms(5) nt(2)] False nt(1) eq by simp
      show ?thesis
      proof (cases "nt \<le> length ?xs")
        case True
        have "slot_for cf st c cont nt (take nt ?xs)"
          unfolding slot_for_def
        proof (intro conjI ballI impI)
          show "length (take nt ?xs) = nt" using True by simp
          show "distinct (take nt ?xs)" using set(2) by (rule distinct_take)
          show "i < cells_size c" "usable cf st c i" if "i \<in> set (take nt ?xs)" for i
            using in_set_takeD [OF that] D(3) set(1) by auto
        qed (use False in simp)
        with s True show ?thesis by (simp add: first_n_def)
      next
        case few: False
        have "\<not> slot_for cf st c cont nt idxs" for idxs
        proof
          assume sl: "slot_for cf st c cont nt idxs"
          then have "set idxs \<subseteq> set ?xs" unfolding set(1) using D(3) by (auto simp: slot_for_def)
          then have "card (set idxs) \<le> length ?xs" using card_mono [OF finite_set] distinct_card [OF set(2)] by metis
          with sl few show False by (simp add: slot_for_def distinct_card)
        qed
        with s few show ?thesis by (simp add: first_n_def)
      qed
    qed
  qed
qed
text \<open>What the code asks of a ubatch. With one stream the ubatch is placed as a whole.\<close>

definition ub_slots :: "kv_cfg \<Rightarrow> llama_ubatch \<Rightarrow> nat" where
  "ub_slots cf ub = (if cf_n_stream cf > 1 then ub_n_seqs_unq ub else 1)"

definition ub_rows :: "kv_cfg \<Rightarrow> llama_ubatch \<Rightarrow> nat" where
  "ub_rows cf ub = ub_n_tokens ub div ub_slots cf ub"

definition ub_stream :: "kv_cfg \<Rightarrow> llama_ubatch \<Rightarrow> nat \<Rightarrow> nat" where
  "ub_stream cf ub s = stream cf (ub_seq_id_unq ub ! s)"

definition find_pre :: "kv_cfg \<Rightarrow> llama_ubatch \<Rightarrow> bool" where
  "find_pre cf ub \<longleftrightarrow> 0 < ub_slots cf ub \<and> 0 < ub_rows cf ub \<and> ub_n_tokens ub = ub_slots cf ub * ub_rows cf ub \<and>
     (\<forall>s < ub_slots cf ub. valid_seq cf (ub_seq_id_unq ub ! s) \<and>
       (cf_n_stream cf > 1 \<longrightarrow> ub_seq_id ub ! (s * ub_rows cf ub) = [ub_seq_id_unq ub ! s]))"

text \<open>A slot gives every stream of the ubatch as many usable cells as it has tokens, with SJ-KVaRN those after
  its last one.\<close>

definition stream_slot :: "kv_cfg \<Rightarrow> kv_cache \<Rightarrow> llama_ubatch \<Rightarrow> bool \<Rightarrow> nat \<Rightarrow> nat list \<Rightarrow> bool" where
  "stream_slot cf kv ub cont s idxs = (let st = ub_stream cf ub s; c = kv_cells kv ! st; n = ub_rows cf ub in
     case cf_sj cf of None \<Rightarrow> slot_for cf st c cont n idxs
     | Some _ \<Rightarrow> sj_slot_for ub (ub_seq_id_unq ub ! s) c (s * n) n idxs)"

definition slot_ok :: "kv_cfg \<Rightarrow> kv_cache \<Rightarrow> llama_ubatch \<Rightarrow> bool \<Rightarrow> slot_info \<Rightarrow> bool" where
  "slot_ok cf kv ub cont si \<longleftrightarrow> si_strm si = map (ub_stream cf ub) [0..<ub_slots cf ub] \<and>
     length (si_idxs si) = ub_slots cf ub \<and>
     (\<forall>s < ub_slots cf ub. si_s0 si \<le> ub_stream cf ub s \<and> ub_stream cf ub s \<le> si_s1 si \<and>
       stream_slot cf kv ub cont s (si_idxs si ! s))"

lemma slot_ok_plain:
  "cf_sj cf = None \<Longrightarrow> slot_ok cf kv ub cont si \<longleftrightarrow> si_strm si = map (ub_stream cf ub) [0..<ub_slots cf ub] \<and>
     length (si_idxs si) = ub_slots cf ub \<and>
     (\<forall>s < ub_slots cf ub. si_s0 si \<le> ub_stream cf ub s \<and> ub_stream cf ub s \<le> si_s1 si \<and>
       slot_for cf (ub_stream cf ub s) (kv_cells kv ! ub_stream cf ub s) cont (ub_rows cf ub) (si_idxs si ! s))"
  by (simp add: slot_ok_def stream_slot_def Let_def)

lemma add_stream_slots:
  assumes "\<And>s. s < n \<Longrightarrow> (\<exists>idxs. find_stream_slot cf kv ub cont nt s = Some (Some idxs) \<and> Q s idxs) \<or>
    find_stream_slot cf kv ub cont nt s = Some None \<and> (\<forall>idxs. \<not> Q s idxs)"
  shows "\<exists>res. for_each (add_stream_slot cf kv ub cont nt) [0..<n] (Some \<lparr>si_s0 = a, si_s1 = 0, si_strm = [], si_idxs = []\<rparr>) = Some res \<and>
      (case res of None \<Rightarrow> \<exists>s < n. \<forall>idxs. \<not> Q s idxs
       | Some r \<Rightarrow> si_strm r = map (ub_stream cf ub) [0..<n] \<and> length (si_idxs r) = n \<and>
           (\<forall>s < n. si_s0 r \<le> ub_stream cf ub s \<and> ub_stream cf ub s \<le> si_s1 r \<and> Q s (si_idxs r ! s)))"
  using assms
proof (induction n)
  case (Suc n)
  let ?f = "add_stream_slot cf kv ub cont nt" and ?st = "ub_stream cf ub"
  let ?s0 = "Some \<lparr>si_s0 = a, si_s1 = 0, si_strm = [], si_idxs = []\<rparr> :: slot_info option"
  obtain res where res: "for_each ?f [0..<n] ?s0 = Some res"
    "case res of None \<Rightarrow> \<exists>s < n. \<forall>idxs. \<not> Q s idxs
       | Some r \<Rightarrow> si_strm r = map ?st [0..<n] \<and> length (si_idxs r) = n \<and>
           (\<forall>s < n. si_s0 r \<le> ?st s \<and> ?st s \<le> si_s1 r \<and> Q s (si_idxs r ! s))"
    using Suc.IH Suc.prems less_SucI by blast
  have step: "for_each ?f [0..<Suc n] ?s0 = ?f n res"
    using res(1) by (simp add: for_each_append split: option.splits)
  show ?case
  proof (cases res)
    case None
    then have "for_each ?f [0..<Suc n] ?s0 = Some None" using step by (simp add: add_stream_slot_def)
    moreover obtain s where s: "s < n" "\<forall>idxs. \<not> Q s idxs" using res(2) None by auto
    moreover have "\<exists>s < Suc n. \<forall>idxs. \<not> Q s idxs" using s less_SucI [OF s(1)] by (intro exI [of _ s]) simp
    ultimately show ?thesis by simp
  next
    case (Some r)
    from Suc.prems [OF lessI] show ?thesis
    proof (elim disjE exE conjE)
      fix idxs assume i: "find_stream_slot cf kv ub cont nt n = Some (Some idxs)" "Q n idxs"
      let ?r = "r\<lparr>si_s0 := min (si_s0 r) (?st n), si_s1 := max (si_s1 r) (?st n),
              si_strm := si_strm r @ [?st n], si_idxs := si_idxs r @ [idxs]\<rparr>"
      have "for_each ?f [0..<Suc n] ?s0 = Some (Some ?r)"
        using step Some i(1) by (simp add: add_stream_slot_def ub_stream_def Let_def)
      moreover have "si_strm ?r = map ?st [0..<Suc n]" "length (si_idxs ?r) = Suc n" using res(2) Some by simp_all
      moreover have "si_s0 ?r \<le> ?st s \<and> ?st s \<le> si_s1 ?r \<and> Q s (si_idxs ?r ! s)" if "s < Suc n" for s
        using res(2) Some i(2) that by (cases "s = n") (auto simp: nth_append min_le_iff_disj le_max_iff_disj)
      ultimately show ?thesis by (intro exI [of _ "Some ?r"]) simp
    next
      assume i: "find_stream_slot cf kv ub cont nt n = Some None" "\<forall>idxs. \<not> Q n idxs"
      have "for_each ?f [0..<Suc n] ?s0 = Some None" using step Some i(1) by (simp add: add_stream_slot_def)
      then show ?thesis using i(2) by auto
    qed
  qed
qed simp

lemma find_slot_inv:
  assumes "cfg_sane cf" "swa_ok cf" "kv_inv cf n kv" "find_pre cf ub"
  shows "(\<exists>si. find_slot cf kv ub cont = Some si \<and> \<not> si_empty si \<and> slot_ok cf kv ub cont si) \<or>
    find_slot cf kv ub cont = Some si_none \<and> (\<forall>si. \<not> slot_ok cf kv ub cont si)"
proof -
  let ?m = "ub_slots cf ub" and ?nt = "ub_rows cf ub"
  let ?Q = "stream_slot cf kv ub cont"
  let ?s0 = "Some \<lparr>si_s0 = nat LLAMA_MAX_SEQ, si_s1 = 0, si_strm = [], si_idxs = []\<rparr>"
  note P = assms(4) [unfolded find_pre_def]
  have f: "(\<exists>idxs. find_stream_slot cf kv ub cont ?nt s = Some (Some idxs) \<and> ?Q s idxs) \<or>
      find_stream_slot cf kv ub cont ?nt s = Some None \<and> (\<forall>idxs. \<not> ?Q s idxs)" if "s < ?m" for s
  proof (cases "cf_sj cf")
    case None
    have ok: "cfg_ok cf" using assms(1) None by (simp add: cfg_ok_def)
    show ?thesis unfolding stream_slot_def Let_def None option.case
      by (rule find_stream_slot_ok [OF ok assms(2,3)]) (use P that in \<open>auto simp: ub_stream_def\<close>)
  next
    case (Some SP)
    show ?thesis unfolding stream_slot_def Let_def Some option.case
      by (rule find_stream_slot_sj [OF assms(1) Some assms(3)]) (use P that in \<open>auto simp: ub_stream_def\<close>)
  qed
  obtain res where res: "for_each (add_stream_slot cf kv ub cont ?nt) [0..<?m] ?s0 = Some res"
      "case res of None \<Rightarrow> \<exists>s < ?m. \<forall>idxs. \<not> ?Q s idxs
       | Some r \<Rightarrow> si_strm r = map (ub_stream cf ub) [0..<?m] \<and> length (si_idxs r) = ?m \<and>
           (\<forall>s < ?m. si_s0 r \<le> ub_stream cf ub s \<and> ub_stream cf ub s \<le> si_s1 r \<and> ?Q s (si_idxs r ! s))"
    using add_stream_slots [where Q = ?Q and n = ?m and a = "nat LLAMA_MAX_SEQ", OF f] by blast
  have "find_slot cf kv ub cont = Some (case res of None \<Rightarrow> si_none | Some r \<Rightarrow> r)"
  proof (cases "cf_n_stream cf > 1")
    case True
    have m: "ub_n_seqs_unq ub = ?m" "ub_n_tokens ub div ?m = ?nt" using True by (simp_all add: ub_slots_def ub_rows_def)
    have "0 < ?m" "ub_n_tokens ub mod ?m = 0" using P by auto
    then show ?thesis using True res(1) unfolding find_slot_def m
      by (simp add: m split: option.splits)
  next
    case False
    have m: "?m = 1" "?nt = ub_n_tokens ub" using False by (simp_all add: ub_slots_def ub_rows_def)
    then show ?thesis using False res(1) unfolding find_slot_def
      by (simp split: option.splits)
  qed
  moreover have "\<not> si_empty r" if "res = Some r" for r
    using res(2) that P by (auto simp: si_empty_def)
  ultimately show ?thesis using res(2) unfolding slot_ok_def by (cases res) auto
qed
text \<open>C15. The slot search returns. For every cache that satisfies its invariant, with SJ-KVaRN or without, and
  every ubatch laid out as the splitter builds it, \<open>find_slot\<close> terminates without a failing assertion; it
  returns a slot exactly if one exists. Without SJ-KVaRN that is as many distinct usable cells of every
  stream of the ubatch as it has tokens (a run of consecutive cells in the contiguous mode); with SJ-KVaRN
  the cells after the last one of every stream, if they fit and the rows continue the sequence.\<close>

theorem find_slot_complete:
  assumes "cfg_sane cf" "swa_ok cf" "kv_inv cf n kv" "find_pre cf ub"
  shows "\<exists>si. find_slot cf kv ub cont = Some si \<and> (si_empty si \<longleftrightarrow> (\<forall>si. \<not> slot_ok cf kv ub cont si)) \<and>
    (\<not> si_empty si \<longrightarrow> slot_ok cf kv ub cont si)"
  using find_slot_inv [OF assms, of cont] by (auto simp: si_empty_def si_none_def)

text \<open>A cache of two streams with four cells each; two sequences of two tokens.\<close>

definition kv4 :: kv_cache where
  "kv4 = \<lparr>kv_cells = [cells_put 1 7 kv_cell_ext_default 0 {0} (cells_resize 4 cells_new), cells_resize 4 cells_new],
     kv_heads = [0, 3], kv_sj = \<lparr>sc_sts = [], sc_free = [], sc_ref = []\<rparr>, kv_copies = []\<rparr>"

definition ub22 :: llama_ubatch where
  "ub22 = \<lparr>ub_b_equal_seqs = True, ub_n_tokens = 4, ub_n_seq_tokens = 2, ub_n_seqs = 2, ub_n_seqs_unq = 2, ub_n_pos = 1,
     ub_token = Some [5, 6, 5, 6], ub_pos = [8, 9, 0, 1], ub_seq_id = [[0], [0], [1], [1]], ub_seq_id_unq = [0, 1],
     ub_seq_idx = [0, 1], ub_output = [False, True, False, True], ub_type = None, ub_decision_order = None, ub_batch_idxs = [0, 1, 2, 3]\<rparr>"

lemma kv4_inv: "kv_inv cf2 4 kv4"
proof -
  note f = cells_resize_inv [OF cells_new_inv, of 4]
  let ?c = "cells_put 1 7 kv_cell_ext_default 0 {0} (cells_resize 4 cells_new)"
  have i: "cells_inv ?c" using f by (auto intro!: cells_put_inv simp: LLAMA_MAX_SEQ_def)
  have "stream_ok cf2 0 ?c" using i f
    by (simp add: stream_ok_def cell_at_put fresh_cell del: cell_at_simps) (auto simp: cell_ok_def valid_seq_def stream_def cf2_def)
  moreover have "stream_ok cf2 1 (cells_resize 4 cells_new)" using f by (simp add: stream_ok_def fresh_cell)
  ultimately show ?thesis using f by (auto simp: kv_inv_def cf2_def kv4_def less_2_cases_iff)
qed

lemma all_less_2: "(\<forall>s < 2. P s) \<longleftrightarrow> P (0::nat) \<and> P 1"
  by (auto simp: less_2_cases_iff)

theorem find_slot_complete_witness:
  "\<exists>si. find_slot cf2 kv4 ub22 True = Some si \<and> slot_ok cf2 kv4 ub22 True si \<and> si_idxs si = [[2, 3], [0, 1]]"
proof -
  have "swa_ok cf2" "find_pre cf2 ub22"
    by (simp_all add: swa_ok_def cf2_def find_pre_def ub_slots_def ub_rows_def ub22_def valid_seq_def all_less_2)
  moreover have "map_option si_idxs (find_slot cf2 kv4 ub22 True) = Some [[2, 3], [0, 1]]" by code_simp
  ultimately show ?thesis using find_slot_complete [OF cfg_okS [OF cf2_ok] _ kv4_inv, of ub22 True] by (auto simp: si_empty_def)
qed

end
