(* ===== verification/Kv_Place.thy ===== *)
theory Kv_Place
  imports Kv_Slot
begin

section \<open>What placing a ubatch does, and what the dry run restores\<close>

text \<open>
  \<open>apply_ubatch\<close> of theory Kv_Slot on a slot that \<open>find_slot\<close> returned: no assertion fails, the slot's
  cells hold the rows of the ubatch, and the sequences whose cells were overwritten lose their positions
  up to the greatest overwritten one. Then \<open>prepare\<close>: the dry run over all ubatches puts the cells back.
\<close>

subsection \<open>The effect of placing a ubatch\<close>

definition row_ok :: "kv_cfg \<Rightarrow> nat \<Rightarrow> llama_ubatch \<Rightarrow> nat \<Rightarrow> bool" where
  "row_ok cf st ub i \<longleftrightarrow> ub_pos ub ! i \<ge> 0 \<and> ub_seq_id ub ! i \<noteq> [] \<and> distinct (ub_seq_id ub ! i) \<and>
     (\<forall>s \<in> set (ub_seq_id ub ! i). valid_seq cf s \<and> stream cf s = st)"

text \<open>What row \<open>i\<close> leaves in its cell.\<close>

definition placed :: "kv_cfg \<Rightarrow> llama_ubatch \<Rightarrow> nat \<Rightarrow> kv_cell \<Rightarrow> kv_cell" where
  "placed cf ub i x = (ub_pos ub ! i,
     if is_pos_2d ub \<or> ub_token ub \<noteq> None \<or> cf_ple_n_heads cf > 0 then row_ext cf ub i
     else if fst x = -1 then fst (snd x) else kv_cell_ext_default, 0, set (ub_seq_id ub ! i))"

text \<open>A cell that may be overwritten: empty, or of one sequence.\<close>

definition free_for :: "kv_cell \<Rightarrow> bool" where
  "free_for x \<longleftrightarrow> fst x = -1 \<or> card (snd (snd (snd x))) = 1"

lemma seq_adds_ok:
  assumes "cells_inv c" "i < cells_size c" "kc_pos c ! i \<noteq> -1" "distinct ss" "set ss \<inter> kc_seq c ! i = {}"
    "\<forall>s \<in> set ss. 0 \<le> s \<and> s < LLAMA_MAX_SEQ"
  shows "\<exists>c'. for_each (\<lambda>s c. cells_seq_add i s c) ss c = Some c' \<and> cells_inv c' \<and> cells_size c' = cells_size c \<and>
    kc_has_shift c' = kc_has_shift c \<and>
    (\<forall>j < cells_size c. cell_at c' j = (if j = i then (kc_pos c ! i, kc_ext c ! i, kc_shift c ! i, kc_seq c ! i \<union> set ss) else cell_at c j))"
  using assms
proof (induction ss arbitrary: c)
  case Nil
  then show ?case by (auto simp: cell_at_def)
next
  case (Cons s ss)
  let ?d = "cells_put i (kc_pos c ! i) (kc_ext c ! i) (kc_shift c ! i) (insert s (kc_seq c ! i)) c"
  have d: "cells_seq_add i s c = Some ?d" using Cons.prems by (intro cells_seq_add_eq) auto
  have "cells_inv ?d" using Cons.prems cells_invD(5,8) [OF Cons.prems(1,2)] by (intro cells_put_inv) auto
  note N = cells_put_nth [OF Cons.prems(1,2,2)]
  from Cons.IH [OF \<open>cells_inv ?d\<close>] Cons.prems
  obtain c' where c': "for_each (\<lambda>s c. cells_seq_add i s c) ss ?d = Some c'" "cells_inv c'" "cells_size c' = cells_size c"
    "kc_has_shift c' = kc_has_shift c"
    "\<forall>j < cells_size c. cell_at c' j = (if j = i then (kc_pos c ! i, kc_ext c ! i, kc_shift c ! i, insert s (kc_seq c ! i) \<union> set ss) else cell_at ?d j)"
    by (auto simp: N)
  have "\<forall>j < cells_size c. cell_at c' j = (if j = i then (kc_pos c ! i, kc_ext c ! i, kc_shift c ! i, kc_seq c ! i \<union> set (s # ss)) else cell_at c j)"
    using c'(5) cell_at_put [OF Cons.prems(1,2)] by simp
  then show ?case using d c'(1-4) by (intro exI [of _ c']) simp
qed

definition bumped :: "(int \<Rightarrow> int) \<Rightarrow> (int \<Rightarrow> int) \<Rightarrow> kv_cell \<Rightarrow> bool" where
  "bumped mx mx' x \<longleftrightarrow> (\<forall>t q. q \<le> mx' t \<longleftrightarrow> q \<le> mx t \<or> has_seq t x \<and> q \<le> fst x)"

text \<open>The row is written after its cell has been emptied.\<close>

lemma write_row_ok:
  assumes "cells_inv c" "i < cells_size c" "kc_pos c ! i = -1" "row_ok cf st ub r" "cfg_ok cf"
  shows "\<exists>c'. write_row cf ub r i c = Some c' \<and> cells_inv c' \<and>
    cells_size c' = cells_size c \<and> kc_has_shift c' = kc_has_shift c \<and>
    (\<forall>j < cells_size c. cell_at c' j = (if j = i then placed cf ub r (cell_at c i) else cell_at c j))"
proof -
  note R = assms(4) [unfolded row_ok_def]
  let ?p = "ub_pos ub ! r" and ?b = "is_pos_2d ub \<or> ub_token ub \<noteq> None \<or> cf_ple_n_heads cf > 0"
  define c1 where "c1 = cells_put i ?p (kc_ext c ! i) 0 {} c"
  have s1: "cells_pos_set i ?p c = Some c1" using cells_pos_set_eq [OF assms(1-3)] R by (simp add: c1_def)
  have i1: "cells_inv c1" "cells_size c1 = cells_size c" "kc_has_shift c1 = kc_has_shift c"
    using R assms(1,2) by (auto simp: c1_def intro!: cells_put_inv)
  have a1: "cell_at c1 j = (if j = i then (?p, kc_ext c ! i, 0, {}) else cell_at c j)" if "j < cells_size c" for j
    using cell_at_put [OF assms(1,2) that] by (simp add: c1_def)
  define e where "e = (if ?b then row_ext cf ub r else kc_ext c ! i)"
  define c2 where "c2 = (if ?b then c1\<lparr>kc_ext := (kc_ext c1)[i := e]\<rparr> else c1)"
  have len: "i < length (kc_ext c1)" using cells_invD(1) [OF i1(1)] i1(2) assms(2) by simp
  have s2: "(if ?b then cells_ext_set i (row_ext cf ub r) c1 else Some c1) = Some c2"
    using len R assms(2) by (auto simp: c2_def cells_ext_set_def e_def i1(2))
  have i2: "cells_inv c2" "cells_size c2 = cells_size c" "kc_has_shift c2 = kc_has_shift c"
    using i1 cells_invD(1) [OF i1(1)] by (auto simp: c2_def cells_size_def intro!: cells_inv_ext_upd)
  have a2: "cell_at c2 j = (if j = i then (?p, e, 0, {}) else cell_at c j)" if "j < cells_size c" for j
    using a1 [OF that] a1 [OF assms(2)] cell_at_ext_upd [OF len, of e j] by (auto simp: c2_def e_def cell_at_def)
  have c2: "kc_pos c2 ! i = ?p" "kc_ext c2 ! i = e" "kc_shift c2 ! i = 0" "kc_seq c2 ! i = {}"
    using a2 [OF assms(2)] by (simp_all add: cell_at_def)
  have "\<forall>s \<in> set (ub_seq_id ub ! r). 0 \<le> s \<and> s < LLAMA_MAX_SEQ" using R cfg_okD(2) [OF assms(5)] by blast
  with seq_adds_ok [OF i2(1), of i "ub_seq_id ub ! r"] R assms(2) c2
  obtain c3 where c3: "for_each (\<lambda>s c. cells_seq_add i s c) (ub_seq_id ub ! r) c2 = Some c3" "cells_inv c3" "cells_size c3 = cells_size c"
    "kc_has_shift c3 = kc_has_shift c"
    "\<forall>j < cells_size c. cell_at c3 j = (if j = i then (?p, e, 0, set (ub_seq_id ub ! r)) else cell_at c2 j)"
    by (auto simp: i2)
  have "placed cf ub r (cell_at c i) = (?p, e, 0, set (ub_seq_id ub ! r))"
    using assms(3) by (auto simp: placed_def e_def cell_at_def)
  moreover have "write_row cf ub r i c = Some c3" unfolding write_row_def using s1 s2 c3(1) by simp
  ultimately show ?thesis using c3 a2 by (intro exI [of _ c3]) simp
qed

lemma place_row_ok:
  assumes "cells_inv c" "i < cells_size c" "free_for (cell_at c i)" "row_ok cf st ub r" "cfg_ok cf" "\<And>t. mx t \<ge> -1"
  shows "\<exists>c' mx'. place_row cf ub r i c mx = Some (c', mx') \<and> cells_inv c' \<and> cells_size c' = cells_size c \<and>
    kc_has_shift c' = kc_has_shift c \<and> (\<forall>t. mx' t \<ge> -1) \<and> bumped mx mx' (cell_at c i) \<and>
    (\<forall>j < cells_size c. cell_at c' j = (if j = i then placed cf ub r (cell_at c i) else cell_at c j))"
proof (cases "kc_pos c ! i = -1")
  case True
  then have "kc_seq c ! i = {}" using cells_invD(6) [OF assms(1,2)] by simp
  with write_row_ok [OF assms(1,2) True assms(4,5)] True show ?thesis
    using assms(2,6) by (auto simp: place_row_def cells_is_empty_def bumped_def)
next
  case False
  have p: "kc_pos c ! i \<ge> 0" using pos_nonneg [OF assms(1,2) False] .
  have one: "card (kc_seq c ! i) = 1" using assms(3) False by (simp add: free_for_def cell_at_def)
  obtain s where s: "kc_seq c ! i = {s}" "find (\<lambda>s. s \<in> kc_seq c ! i) seq_ids = Some s"
    using single_seq [OF cells_invD(8) [OF assms(1,2)] one] by blast
  define d where "d = cells_put i (-1) kv_cell_ext_default 0 {} c"
  have d: "cells_rm i c = Some d" using cells_rm_eq [OF assms(1,2) False] by (simp add: d_def)
  have di: "cells_inv d" "cells_size d = cells_size c" "kc_has_shift d = kc_has_shift c"
    using assms(1,2) by (auto simp: d_def intro!: cells_put_inv)
  have a: "cell_at d j = (if j = i then (-1, kv_cell_ext_default, 0, {}) else cell_at c j)" if "j < cells_size c" for j
    using cell_at_put [OF assms(1,2) that] by (simp add: d_def)
  have "kc_pos d ! i = -1" using a [OF assms(2)] by (simp add: cell_at_def)
  from write_row_ok [OF di(1) _ this assms(4,5)] assms(2) di
  obtain c' where c': "write_row cf ub r i d = Some c'" "cells_inv c'"
    "cells_size c' = cells_size c" "kc_has_shift c' = kc_has_shift c"
    "\<forall>j < cells_size c. cell_at c' j = (if j = i then placed cf ub r (cell_at d i) else cell_at d j)" by auto
  let ?mx = "mx(s := max (mx s) (kc_pos c ! i))"
  have "place_row cf ub r i c mx = Some (c', ?mx)"
    using assms(2) False p one s d c'(1)
    by (simp add: place_row_def cells_is_empty_def cells_seq_count_def cells_seq_get_def cells_pos_get_def)
  moreover have "placed cf ub r (cell_at d i) = placed cf ub r (cell_at c i)"
    using a [OF assms(2)] False by (simp add: placed_def cell_at_def)
  moreover have "bumped mx ?mx (cell_at c i)" using s(1) by (auto simp: bumped_def le_max_iff_disj)
  ultimately show ?thesis using c' a assms(6) p by (intro exI [of _ c'] exI [of _ ?mx]) (auto simp: le_max_iff_disj)
qed
text \<open>All rows of one stream. The cells of the slot are distinct, so every cell is written once.\<close>

definition rows_placed ::
  "kv_cfg \<Rightarrow> llama_ubatch \<Rightarrow> nat \<Rightarrow> nat list \<Rightarrow> nat \<Rightarrow> kv_cells \<Rightarrow> kv_cells \<Rightarrow> bool" where
  "rows_placed cf ub r0 idxs k c c' \<longleftrightarrow> cells_inv c' \<and> cells_size c' = cells_size c \<and> kc_has_shift c' = kc_has_shift c \<and>
     (\<forall>ii < k. cell_at c' (idxs ! ii) = placed cf ub (r0 + ii) (cell_at c (idxs ! ii))) \<and>
     (\<forall>j < cells_size c. j \<notin> set (take k idxs) \<longrightarrow> cell_at c' j = cell_at c j)"

definition bumped_by :: "(int \<Rightarrow> int) \<Rightarrow> (int \<Rightarrow> int) \<Rightarrow> kv_cell set \<Rightarrow> bool" where
  "bumped_by mx mx' X \<longleftrightarrow> (\<forall>t. mx' t \<ge> -1) \<and> (\<forall>t q. q \<le> mx' t \<longleftrightarrow> q \<le> mx t \<or> (\<exists>x \<in> X. has_seq t x \<and> q \<le> fst x))"

lemma bumped_by_step: "bumped_by mx mx' X \<Longrightarrow> bumped mx' mx'' x \<Longrightarrow> \<forall>t. mx'' t \<ge> -1 \<Longrightarrow> bumped_by mx mx'' (insert x X)"
  unfolding bumped_by_def bumped_def by blast

lemma bumped_by_trans: "bumped_by mx mx' X \<Longrightarrow> bumped_by mx' mx'' Y \<Longrightarrow> bumped_by mx mx'' (X \<union> Y)"
  unfolding bumped_by_def by blast

lemma bumped_by_start: "\<forall>t. mx t \<ge> -1 \<Longrightarrow> bumped_by mx mx {}"
  by (simp add: bumped_by_def)

lemma place_rows_ok:
  fixes kv :: kv_cache
  assumes "st < length (kv_cells kv)" "c = kv_cells kv ! st" "cells_inv c" "cfg_ok cf"
    "si_strm si ! s = st" "idxs = si_idxs si ! s" "length idxs = si_size si" "distinct idxs"
    "\<And>i. i \<in> set idxs \<Longrightarrow> i < cells_size c \<and> free_for (cell_at c i)"
    "\<And>ii. ii < si_size si \<Longrightarrow> row_ok cf st ub (s * si_size si + ii)" "\<forall>t. mx t \<ge> -1"
  shows "\<exists>c' mx'. place_rows cf si ub s (kv, mx) = Some (kv\<lparr>kv_cells := (kv_cells kv)[st := c']\<rparr>, mx') \<and>
    rows_placed cf ub (s * si_size si) idxs (si_size si) c c' \<and> bumped_by mx mx' (cell_at c ` set idxs)"
proof -
  let ?n = "si_size si" and ?r0 = "s * si_size si"
  let ?P = "\<lambda>dn (kv', mx'). \<exists>c'. kv' = kv\<lparr>kv_cells := (kv_cells kv)[st := c']\<rparr> \<and>
    rows_placed cf ub ?r0 idxs (length dn) c c' \<and> bumped_by mx mx' (cell_at c ` set (take (length dn) idxs))"
  have "\<exists>r. place_rows cf si ub s (kv, mx) = Some r \<and> ?P [0..<?n] r"
    unfolding place_rows_def
  proof (rule for_each_total [where P = ?P])
    have "kv = kv\<lparr>kv_cells := (kv_cells kv)[st := c]\<rparr>" using assms(1,2) by simp
    moreover have "rows_placed cf ub ?r0 idxs 0 c c" using assms(3) by (simp add: rows_placed_def)
    ultimately show "?P [] (kv, mx)" using bumped_by_start [OF assms(11)] by auto
  next
    fix dn k rest and r :: "kv_cache \<times> (int \<Rightarrow> int)" assume e: "[0..<?n] = dn @ k # rest" and "?P dn r"
    note k = upt_eq_splitD [OF e]
    obtain kv1 mx1 where r: "r = (kv1, mx1)" by fastforce
    with \<open>?P dn r\<close> obtain c1 where P: "kv1 = kv\<lparr>kv_cells := (kv_cells kv)[st := c1]\<rparr>"
      "rows_placed cf ub ?r0 idxs k c c1" "bumped_by mx mx1 (cell_at c ` set (take k idxs))" using k(1) by auto
    let ?i = "idxs ! k"
    have i: "?i < cells_size c" "free_for (cell_at c ?i)" "?i \<notin> set (take k idxs)" "?i \<in> set idxs"
      using assms(7-9) k(2) by (auto simp: in_set_conv_nth nth_eq_iff_index_eq)
    note Q = P(2) [unfolded rows_placed_def]
    have ci: "cell_at c1 ?i = cell_at c ?i" using Q i by simp
    have "cells_inv c1" "?i < cells_size c1" "free_for (cell_at c1 ?i)" using Q i ci by simp_all
    from place_row_ok [OF this assms(10) [OF k(2)] assms(4), of mx1] P(3)
    obtain c2 mx2 where c2: "place_row cf ub (?r0 + k) ?i c1 mx1 = Some (c2, mx2)" "cells_inv c2" "cells_size c2 = cells_size c1"
      "kc_has_shift c2 = kc_has_shift c1" "\<forall>t. mx2 t \<ge> -1" "bumped mx1 mx2 (cell_at c1 ?i)"
      "\<forall>j < cells_size c1. cell_at c2 j = (if j = ?i then placed cf ub (?r0 + k) (cell_at c1 ?i) else cell_at c1 j)"
      unfolding bumped_by_def by blast
    have "rows_placed cf ub ?r0 idxs (Suc k) c c2" unfolding rows_placed_def
    proof (intro conjI allI impI)
      fix ii assume "ii < Suc k"
      moreover have "idxs ! ii \<noteq> ?i \<and> idxs ! ii < cells_size c" if "ii < k"
        using that k(2) assms(7-9) by (auto simp: nth_eq_iff_index_eq)
      ultimately show "cell_at c2 (idxs ! ii) = placed cf ub (?r0 + ii) (cell_at c (idxs ! ii))"
        using c2(7) Q i ci by (cases "ii = k") auto
    next
      fix j assume "j < cells_size c" "j \<notin> set (take (Suc k) idxs)"
      then show "cell_at c2 j = cell_at c j" using c2(7) Q k(2) assms(7) by (auto simp: take_Suc_conv_app_nth)
    qed (use c2 Q in simp_all)
    moreover have "bumped_by mx mx2 (cell_at c ` set (take (Suc k) idxs))"
      using bumped_by_step [OF P(3) c2(6,5)] ci k(2) assms(7) by (simp add: take_Suc_conv_app_nth insert_commute)
    moreover have "(kv_cells kv1)[st := c2] = (kv_cells kv)[st := c2]" "kv_cells kv1 ! st = c1" using P(1) assms(1) by simp_all
    ultimately show "\<exists>r'. (\<lambda>(kv, mx). do {
       let st = si_strm si ! s;
       (c, mx) \<leftarrow> place_row cf ub (s * si_size si + k) (si_idxs si ! s ! k) (kv_cells kv ! st) mx;
       Some (kv\<lparr>kv_cells := (kv_cells kv)[st := c]\<rparr>, mx) }) r = Some r' \<and> ?P (dn @ [k]) r'"
      using c2(1) P(1) k(1) assms(5,6) by (intro exI [of _ "(kv\<lparr>kv_cells := (kv_cells kv)[st := c2]\<rparr>, mx2)"]) (auto simp: r)
  qed
  then show ?thesis using assms(7) by auto
qed
text \<open>A ubatch as the splitter builds it: one stream per sequence set, every row in the stream of its set.\<close>

definition ubatch_ok :: "kv_cfg \<Rightarrow> llama_ubatch \<Rightarrow> bool" where
  "ubatch_ok cf ub \<longleftrightarrow> find_pre cf ub \<and> distinct (map (ub_stream cf ub) [0..<ub_slots cf ub]) \<and>
     (\<forall>s < ub_slots cf ub. \<forall>ii < ub_rows cf ub. row_ok cf (ub_stream cf ub s) ub (s * ub_rows cf ub + ii))"

lemma ubatch_row:
  "ubatch_ok cf ub \<Longrightarrow> s < ub_slots cf ub \<Longrightarrow> ii < ub_rows cf ub \<Longrightarrow>
    row_ok cf (ub_stream cf ub s) ub (s * ub_rows cf ub + ii)"
  by (simp add: ubatch_ok_def)

lemma ubatch_streams:
  assumes "ubatch_ok cf ub" "s < ub_slots cf ub"
  shows "t < ub_slots cf ub \<Longrightarrow> ub_stream cf ub t = ub_stream cf ub s \<Longrightarrow> t = s"
    "ub_stream cf ub s \<notin> ub_stream cf ub ` {..<s}"
proof -
  show inj: "t = s" if "t < ub_slots cf ub" "ub_stream cf ub t = ub_stream cf ub s" for t
    using assms that by (auto simp: ubatch_ok_def distinct_map inj_on_def)
  show "ub_stream cf ub s \<notin> ub_stream cf ub ` {..<s}"
  proof
    assume "ub_stream cf ub s \<in> ub_stream cf ub ` {..<s}"
    then obtain t where "t < s" "ub_stream cf ub t = ub_stream cf ub s" by auto
    with inj [of t] assms(2) show False by simp
  qed
qed

lemma slot_okD:
  assumes "cfg_ok cf" "swa_ok cf" "kv_inv cf n kv" "ubatch_ok cf ub" "slot_ok cf kv ub cont si" "s < ub_slots cf ub"
  shows "si_n_stream si = ub_slots cf ub" "si_size si = ub_rows cf ub" "si_strm si ! s = ub_stream cf ub s"
    "length (si_idxs si ! s) = ub_rows cf ub" "distinct (si_idxs si ! s)" "ub_stream cf ub s < cf_n_stream cf"
    "i \<in> set (si_idxs si ! s) \<Longrightarrow> i < n \<and> free_for (cell_at (kv_cells kv ! ub_stream cf ub s) i)"
    "cf_swa_type cf = LLAMA_SWA_TYPE_NONE \<Longrightarrow> i \<in> set (si_idxs si ! s) \<Longrightarrow> kc_pos (kv_cells kv ! ub_stream cf ub s) ! i = -1"
    "i \<in> set (si_idxs si ! s) \<Longrightarrow> kc_pos (kv_cells kv ! ub_stream cf ub s) ! i = -1 \<or>
       int (cf_n_swa_sink cf) \<le> kc_pos (kv_cells kv ! ub_stream cf ub s) ! i"
proof -
  note S = assms(5) [unfolded slot_ok_plain [OF cfg_okD(6) [OF assms(1)]] slot_for_def]
  show st: "ub_stream cf ub s < cf_n_stream cf"
    using assms(4,6) cfg_okD(1) [OF assms(1)] by (auto simp: ubatch_ok_def find_pre_def ub_stream_def)
  have "0 < ub_slots cf ub" using assms(6) by simp
  then show "si_n_stream si = ub_slots cf ub" "si_size si = ub_rows cf ub" "si_strm si ! s = ub_stream cf ub s"
    "length (si_idxs si ! s) = ub_rows cf ub" "distinct (si_idxs si ! s)"
    using S assms(6) by (auto simp: si_n_stream_def si_size_def)
  note D = kv_invD [OF assms(3) st]
  show "i < n \<and> free_for (cell_at (kv_cells kv ! ub_stream cf ub s) i)" if "i \<in> set (si_idxs si ! s)"
    using S assms(6) that usable_cell [OF D(1) _ assms(2), of i "ub_stream cf ub s"] D(3)
    by (auto simp: free_for_def cell_at_def)
  show "kc_pos (kv_cells kv ! ub_stream cf ub s) ! i = -1"
    if "cf_swa_type cf = LLAMA_SWA_TYPE_NONE" "i \<in> set (si_idxs si ! s)"
    using S assms(6) that usable_cell [OF D(1) _ assms(2), of i "ub_stream cf ub s"] D(3) by auto
  show "kc_pos (kv_cells kv ! ub_stream cf ub s) ! i = -1 \<or>
      int (cf_n_swa_sink cf) \<le> kc_pos (kv_cells kv ! ub_stream cf ub s) ! i" if "i \<in> set (si_idxs si ! s)"
    using S assms(6) that usable_cell [OF D(1) _ assms(2), of i "ub_stream cf ub s"] D(3) by auto
qed

definition all_placed :: "kv_cfg \<Rightarrow> llama_ubatch \<Rightarrow> slot_info \<Rightarrow> kv_cache \<Rightarrow> kv_cache \<Rightarrow> bool" where
  "all_placed cf ub si kv kv' \<longleftrightarrow> length (kv_cells kv') = length (kv_cells kv) \<and>
     (\<forall>s < ub_slots cf ub. rows_placed cf ub (s * ub_rows cf ub) (si_idxs si ! s) (ub_rows cf ub)
        (kv_cells kv ! ub_stream cf ub s) (kv_cells kv' ! ub_stream cf ub s)) \<and>
     (\<forall>st. st \<notin> ub_stream cf ub ` {..<ub_slots cf ub} \<longrightarrow> kv_cells kv' ! st = kv_cells kv ! st)"

definition taken :: "kv_cfg \<Rightarrow> llama_ubatch \<Rightarrow> slot_info \<Rightarrow> kv_cache \<Rightarrow> nat \<Rightarrow> kv_cell set" where
  "taken cf ub si kv m = (\<Union>s < m. cell_at (kv_cells kv ! ub_stream cf ub s) ` set (si_idxs si ! s))"

lemma place_all_ok:
  assumes "cfg_ok cf" "swa_ok cf" "kv_inv cf n kv" "ubatch_ok cf ub" "slot_ok cf kv ub cont si"
  shows "\<exists>kv' mx. for_each (place_rows cf si ub) [0..<si_n_stream si] (kv, \<lambda>_. -1) = Some (kv', mx) \<and>
    (\<exists>C. kv' = kv\<lparr>kv_cells := C\<rparr>) \<and> all_placed cf ub si kv kv' \<and>
    bumped_by (\<lambda>_. -1) mx (taken cf ub si kv (ub_slots cf ub))"
proof -
  let ?m = "ub_slots cf ub" and ?st = "ub_stream cf ub" and ?n = "ub_rows cf ub"
  have m: "0 < ?m" using assms(4) by (simp add: ubatch_ok_def find_pre_def)
  note O = slot_okD [OF assms]
  let ?P = "\<lambda>dn (kv', mx). \<exists>C. kv' = kv\<lparr>kv_cells := C\<rparr> \<and> length C = length (kv_cells kv) \<and>
     (\<forall>s < length dn. rows_placed cf ub (s * ?n) (si_idxs si ! s) ?n (kv_cells kv ! ?st s) (C ! ?st s)) \<and>
     (\<forall>st. st \<notin> ?st ` {..<length dn} \<longrightarrow> C ! st = kv_cells kv ! st) \<and>
     bumped_by (\<lambda>_. -1) mx (taken cf ub si kv (length dn))"
  have "\<exists>r. for_each (place_rows cf si ub) [0..<?m] (kv, \<lambda>_. -1) = Some r \<and> ?P [0..<?m] r"
  proof (rule for_each_total [where P = ?P])
    show "?P [] (kv, \<lambda>_. -1)" using bumped_by_start by (auto simp: taken_def intro!: exI [of _ "kv_cells kv"])
  next
    fix dn s rest and r :: "kv_cache \<times> (int \<Rightarrow> int)" assume e: "[0..<?m] = dn @ s # rest" and "?P dn r"
    note s = upt_eq_splitD [OF e]
    obtain kv1 mx1 where r: "r = (kv1, mx1)" by fastforce
    with \<open>?P dn r\<close> obtain C where C: "kv1 = kv\<lparr>kv_cells := C\<rparr>" "length C = length (kv_cells kv)"
      "\<forall>t < s. rows_placed cf ub (t * ?n) (si_idxs si ! t) ?n (kv_cells kv ! ?st t) (C ! ?st t)"
      "\<forall>st. st \<notin> ?st ` {..<s} \<longrightarrow> C ! st = kv_cells kv ! st"
      "bumped_by (\<lambda>_. -1) mx1 (taken cf ub si kv s)" using s(1) by auto
    note Os = O [OF s(2)]
    note D = kv_invD [OF assms(3) Os(6)]
    from ubatch_streams(2) [OF assms(4) s(2)] C(4) have cs: "C ! ?st s = kv_cells kv ! ?st s" by blast
    have "\<exists>c' mx'. place_rows cf si ub s (kv1, mx1) = Some (kv1\<lparr>kv_cells := (kv_cells kv1)[?st s := c']\<rparr>, mx') \<and>
        rows_placed cf ub (s * si_size si) (si_idxs si ! s) (si_size si) (C ! ?st s) c' \<and>
        bumped_by mx1 mx' (cell_at (C ! ?st s) ` set (si_idxs si ! s))"
    proof (rule place_rows_ok)
      show "\<And>ii. ii < si_size si \<Longrightarrow> row_ok cf (?st s) ub (s * si_size si + ii)"
        using assms(4) s(2) Os(2) by (auto simp: ubatch_ok_def)
      show "\<And>i. i \<in> set (si_idxs si ! s) \<Longrightarrow> i < cells_size (C ! ?st s) \<and> free_for (cell_at (C ! ?st s) i)"
        using Os(7) D(3) cs by simp
    qed (use assms(1) Os D C cs bumped_by_def in auto)
    then obtain c' mx' where c': "place_rows cf si ub s (kv1, mx1) = Some (kv1\<lparr>kv_cells := (kv_cells kv1)[?st s := c']\<rparr>, mx')"
      "rows_placed cf ub (s * ?n) (si_idxs si ! s) ?n (kv_cells kv ! ?st s) c'"
      "bumped_by mx1 mx' (cell_at (kv_cells kv ! ?st s) ` set (si_idxs si ! s))" using Os(2) cs by auto
    have "?P (dn @ [s]) (kv1\<lparr>kv_cells := (kv_cells kv1)[?st s := c']\<rparr>, mx')"
    proof -
      let ?C = "C[?st s := c']"
      have "\<forall>t < Suc s. rows_placed cf ub (t * ?n) (si_idxs si ! t) ?n (kv_cells kv ! ?st t) (?C ! ?st t)"
      proof (intro allI impI)
        fix t assume t: "t < Suc s"
        show "rows_placed cf ub (t * ?n) (si_idxs si ! t) ?n (kv_cells kv ! ?st t) (?C ! ?st t)"
        proof (cases "t = s")
          case False
          then have "?st t \<noteq> ?st s" "t < s" using ubatch_streams(1) [OF assms(4) s(2), of t] s(2) t by auto
          then show ?thesis using C(3) by simp
        qed (use c'(2) D(5) C(2) in simp)
      qed
      moreover have "\<forall>st. st \<notin> ?st ` {..<Suc s} \<longrightarrow> ?C ! st = kv_cells kv ! st"
        using C(4) by (auto simp: lessThan_Suc)
      moreover have "taken cf ub si kv (Suc s) = taken cf ub si kv s \<union> cell_at (kv_cells kv ! ?st s) ` set (si_idxs si ! s)"
        by (auto simp: taken_def lessThan_Suc)
      ultimately show ?thesis using C(1,2) bumped_by_trans [OF C(5) c'(3)] s(1) by (auto intro!: exI [of _ ?C])
    qed
    with c'(1) show "\<exists>r'. place_rows cf si ub s r = Some r' \<and> ?P (dn @ [s]) r'" unfolding r by blast
  qed
  then show ?thesis using O(1) [OF m] by (auto simp: all_placed_def)
qed
text \<open>The same in the view of the client.\<close>

definition slot_cells :: "kv_cfg \<Rightarrow> llama_ubatch \<Rightarrow> slot_info \<Rightarrow> int \<Rightarrow> nat set" where
  "slot_cells cf ub si t = {i. \<exists>s < ub_slots cf ub. ub_stream cf ub s = stream cf t \<and> i \<in> set (si_idxs si ! s)}"

definition new_rows :: "kv_cfg \<Rightarrow> llama_ubatch \<Rightarrow> slot_info \<Rightarrow> int \<Rightarrow> (nat \<times> int) set" where
  "new_rows cf ub si t = {(i, p). \<exists>s < ub_slots cf ub. \<exists>ii < ub_rows cf ub. i = si_idxs si ! s ! ii \<and>
     p = ub_pos ub ! (s * ub_rows cf ub + ii) \<and> t \<in> set (ub_seq_id ub ! (s * ub_rows cf ub + ii))}"

definition lost_rows :: "kv_cfg \<Rightarrow> llama_ubatch \<Rightarrow> slot_info \<Rightarrow> (int \<Rightarrow> (nat \<times> int) set) \<Rightarrow> int \<Rightarrow> (nat \<times> int) set" where
  "lost_rows cf ub si V t = {x \<in> V t. fst x \<in> slot_cells cf ub si t}"

definition apply_spec :: "kv_cfg \<Rightarrow> llama_ubatch \<Rightarrow> slot_info \<Rightarrow> (int \<Rightarrow> (nat \<times> int) set) \<Rightarrow> int \<Rightarrow> (nat \<times> int) set" where
  "apply_spec cf ub si V t = {x \<in> (V t - lost_rows cf ub si V t) \<union> new_rows cf ub si t.
     \<not> (int (cf_n_swa_sink cf) \<le> snd x \<and> (\<exists>y \<in> lost_rows cf ub si V t. snd x \<le> snd y))}"

lemma new_rows_stream:
  assumes "ubatch_ok cf ub" "(i, p) \<in> new_rows cf ub si t"
  shows "valid_seq cf t" "\<exists>s < ub_slots cf ub. ub_stream cf ub s = stream cf t \<and> p \<ge> 0"
  using assms by (fastforce simp: new_rows_def ubatch_ok_def row_ok_def)+

lemma rows_placed_view:
  assumes "rows_placed cf ub r0 idxs k c c'" "length idxs = k" "set idxs \<subseteq> {..<cells_size c}"
  shows "(i, p) \<in> sview c' t \<longleftrightarrow> (i, p) \<in> sview c t \<and> i \<notin> set idxs \<or>
    (\<exists>ii < k. i = idxs ! ii \<and> p = ub_pos ub ! (r0 + ii) \<and> t \<in> set (ub_seq_id ub ! (r0 + ii)))"
proof -
  note R = assms(1) [unfolded rows_placed_def]
  show ?thesis
  proof (cases "i \<in> set idxs")
    case True
    then obtain ii where ii: "ii < k" "i = idxs ! ii" using assms(2) by (auto simp: in_set_conv_nth)
    have "i < cells_size c" using True assms(3) by auto
    have eq: "cell_at c' (idxs ! jj) = placed cf ub (r0 + jj) (cell_at c (idxs ! jj))" if "jj < k" for jj using R that by simp
    have "has_seq t (cell_at c' i) \<and> p = fst (cell_at c' i) \<longleftrightarrow> p = ub_pos ub ! (r0 + jj) \<and> t \<in> set (ub_seq_id ub ! (r0 + jj))"
      if "jj < k" "i = idxs ! jj" for jj using eq [OF that(1)] that by (auto simp: placed_def simp del: cell_at_simps)
    moreover have "(i, p) \<in> sview c' t \<longleftrightarrow> has_seq t (cell_at c' i) \<and> p = fst (cell_at c' i)"
      using \<open>i < cells_size c\<close> R by (simp add: sview_def del: cell_at_simps)
    ultimately show ?thesis using True ii by metis
  next
    case False
    then have "cell_at c' i = cell_at c i" if "i < cells_size c" using R assms(2) that by simp
    then show ?thesis using False R assms(2) by (auto simp: sview_def simp del: cell_at_simps)
  qed
qed

lemma all_placed_view:
  assumes "cfg_ok cf" "swa_ok cf" "kv_inv cf n kv" "ubatch_ok cf ub" "slot_ok cf kv ub cont si" "all_placed cf ub si kv kv'" "valid_seq cf t"
  shows "kv_view cf kv' t = (kv_view cf kv t - lost_rows cf ub si (kv_view cf kv) t) \<union> new_rows cf ub si t"
proof (cases "\<exists>s < ub_slots cf ub. ub_stream cf ub s = stream cf t")
  case True
  then obtain s where s: "s < ub_slots cf ub" "ub_stream cf ub s = stream cf t" by blast
  note O = slot_okD [OF assms(1-5) s(1)]
  have uniq: "r = s" if "r < ub_slots cf ub" "ub_stream cf ub r = stream cf t" for r
    using that s ubatch_streams(1) [OF assms(4) s(1)] by simp
  have c: "slot_cells cf ub si t = set (si_idxs si ! s)" using s uniq unfolding slot_cells_def by blast
  have nr: "(i, p) \<in> new_rows cf ub si t \<longleftrightarrow> (\<exists>ii < ub_rows cf ub. i = si_idxs si ! s ! ii \<and>
      p = ub_pos ub ! (s * ub_rows cf ub + ii) \<and> t \<in> set (ub_seq_id ub ! (s * ub_rows cf ub + ii)))" for i p
  proof
    assume "(i, p) \<in> new_rows cf ub si t"
    then obtain r ii where r: "r < ub_slots cf ub" "ii < ub_rows cf ub" "i = si_idxs si ! r ! ii"
      "p = ub_pos ub ! (r * ub_rows cf ub + ii)" "t \<in> set (ub_seq_id ub ! (r * ub_rows cf ub + ii))" by (auto simp: new_rows_def)
    from ubatch_row [OF assms(4) r(1,2)] r(5) have "ub_stream cf ub r = stream cf t" by (simp add: row_ok_def)
    with uniq r show "\<exists>ii < ub_rows cf ub. i = si_idxs si ! s ! ii \<and>
      p = ub_pos ub ! (s * ub_rows cf ub + ii) \<and> t \<in> set (ub_seq_id ub ! (s * ub_rows cf ub + ii))" by blast
  qed (use s in \<open>auto simp: new_rows_def\<close>)
  have p: "rows_placed cf ub (s * ub_rows cf ub) (si_idxs si ! s) (ub_rows cf ub)
        (kv_cells kv ! stream cf t) (kv_cells kv' ! stream cf t)" using assms(6) s by (auto simp: all_placed_def)
  have "set (si_idxs si ! s) \<subseteq> {..<cells_size (kv_cells kv ! stream cf t)}"
    using O(6,7) s(2) kv_invD(3) [OF assms(3), of "stream cf t"] by auto
  from rows_placed_view [OF p O(4) this] show ?thesis
    unfolding set_eq_iff split_paired_All using assms(7) by (simp add: kv_view_def lost_rows_def c nr) blast
next
  case False
  then have "stream cf t \<notin> ub_stream cf ub ` {..<ub_slots cf ub}" by (auto simp: image_iff)
  with assms(6) False have "slot_cells cf ub si t = {}" "kv_cells kv' ! stream cf t = kv_cells kv ! stream cf t"
    by (auto simp: slot_cells_def all_placed_def)
  moreover have "new_rows cf ub si t = {}" using new_rows_stream(2) [OF assms(4)] False by fastforce
  ultimately show ?thesis using assms(7) by (auto simp: kv_view_def lost_rows_def)
qed

lemma cell_ok_placed: "row_ok cf st ub r \<Longrightarrow> cell_ok cf st (placed cf ub r x)"
  by (auto simp: cell_ok_def placed_def row_ok_def neq_Nil_conv)

lemma all_placed_inv:
  assumes "cfg_ok cf" "swa_ok cf" "kv_inv cf n kv" "ubatch_ok cf ub" "slot_ok cf kv ub cont si" "all_placed cf ub si kv (kv\<lparr>kv_cells := C\<rparr>)"
  shows "kv_inv cf n (kv\<lparr>kv_cells := C\<rparr>)"
proof -
  have "stream_ok cf st (C ! st) \<and> cells_size (C ! st) = n" if st: "st < cf_n_stream cf" for st
  proof (cases "\<exists>s < ub_slots cf ub. ub_stream cf ub s = st")
    case True
    then obtain s where s: "s < ub_slots cf ub" "ub_stream cf ub s = st" by blast
    note O = slot_okD [OF assms(1-5) s(1)] and D = kv_invD [OF assms(3) st]
    have p: "rows_placed cf ub (s * ub_rows cf ub) (si_idxs si ! s) (ub_rows cf ub) (kv_cells kv ! st) (C ! st)"
      using assms(6) s by (auto simp: all_placed_def)
    have "cell_ok cf st (cell_at (C ! st) j)" if j: "j < n" for j
    proof (cases "j \<in> set (si_idxs si ! s)")
      case True
      then obtain ii where "ii < ub_rows cf ub" "j = si_idxs si ! s ! ii" using O(4) by (auto simp: in_set_conv_nth)
      moreover have "row_ok cf st ub (s * ub_rows cf ub + ii)" if "ii < ub_rows cf ub" for ii
        using assms(4) s that by (auto simp: ubatch_ok_def)
      ultimately show ?thesis using p cell_ok_placed unfolding rows_placed_def by metis
    next
      case False
      then show ?thesis using p D j O(4) by (auto simp: rows_placed_def stream_ok_def simp del: cell_at_simps)
    qed
    then show ?thesis using p D(3) by (auto simp: rows_placed_def stream_ok_def)
  next
    case False
    then have "st \<notin> ub_stream cf ub ` {..<ub_slots cf ub}" by (auto simp: image_iff)
    with assms(6) have "C ! st = kv_cells kv ! st" by (simp add: all_placed_def)
    then show ?thesis using assms(3) st by (auto simp: kv_inv_def)
  qed
  then show ?thesis using assms(3,6) by (auto simp: kv_inv_def all_placed_def)
qed
text \<open>The purge.\<close>

lemma lost_rows_mx:
  assumes "cfg_ok cf" "swa_ok cf" "kv_inv cf n kv" "ubatch_ok cf ub" "slot_ok cf kv ub cont si"
    and "bumped_by (\<lambda>_. -1) mx (taken cf ub si kv (ub_slots cf ub))"
  shows "q \<le> mx t \<longleftrightarrow> q \<le> -1 \<or> (\<exists>y \<in> lost_rows cf ub si (kv_view cf kv) t. q \<le> snd y)"
proof -
  have "(\<exists>x \<in> taken cf ub si kv (ub_slots cf ub). has_seq t x \<and> q \<le> fst x) \<longleftrightarrow>
    (\<exists>y \<in> lost_rows cf ub si (kv_view cf kv) t. q \<le> snd y)"
  proof
    assume "\<exists>x \<in> taken cf ub si kv (ub_slots cf ub). has_seq t x \<and> q \<le> fst x"
    then obtain s i where s: "s < ub_slots cf ub" "i \<in> set (si_idxs si ! s)"
      "has_seq t (cell_at (kv_cells kv ! ub_stream cf ub s) i)" "q \<le> fst (cell_at (kv_cells kv ! ub_stream cf ub s) i)"
      by (auto simp: taken_def simp del: cell_at_simps)
    note O = slot_okD [OF assms(1-5) s(1)] and D = kv_invD [OF assms(3) slot_okD(6) [OF assms(1-5) s(1)]]
    have i: "i < cells_size (kv_cells kv ! ub_stream cf ub s)" using O(7) [OF s(2)] D(3) by simp
    then have "valid_seq cf t" "stream cf t = ub_stream cf ub s" using D(2) s(3) by (auto simp: stream_ok_def cell_ok_def)
    then have "(i, fst (cell_at (kv_cells kv ! ub_stream cf ub s) i)) \<in> lost_rows cf ub si (kv_view cf kv) t"
      using s i by (auto simp: lost_rows_def kv_view_def sview_def slot_cells_def simp del: cell_at_simps)
    with s(4) show "\<exists>y \<in> lost_rows cf ub si (kv_view cf kv) t. q \<le> snd y" by (metis snd_conv)
  next
    assume "\<exists>y \<in> lost_rows cf ub si (kv_view cf kv) t. q \<le> snd y"
    then obtain i p where y: "(i, p) \<in> kv_view cf kv t" "i \<in> slot_cells cf ub si t" "q \<le> p" by (auto simp: lost_rows_def)
    from y(2) obtain s where s: "s < ub_slots cf ub" "ub_stream cf ub s = stream cf t" "i \<in> set (si_idxs si ! s)"
      by (auto simp: slot_cells_def)
    then have "cell_at (kv_cells kv ! stream cf t) i \<in> taken cf ub si kv (ub_slots cf ub)"
      unfolding taken_def by (auto intro!: bexI [of _ s])
    with y show "\<exists>x \<in> taken cf ub si kv (ub_slots cf ub). has_seq t x \<and> q \<le> fst x"
      by (auto simp: kv_view_def sview_def simp del: cell_at_simps split: if_splits)
  qed
  then show ?thesis using assms(6) by (simp add: bumped_by_def)
qed

lemma seq_pos_min_le:
  assumes "cells_inv c" "0 \<le> s" "s < LLAMA_MAX_SEQ"
  shows "\<exists>lo. cells_seq_pos_min s c = Some lo \<and> (\<forall>(i, p) \<in> sview c s. lo \<le> p)"
proof (cases "seq_cells s c = {}")
  case True
  then have "sview c s = {}" by (auto simp: sview_def seq_cells_def)
  then show ?thesis using assms(2,3) by (simp add: cells_seq_pos_min_def)
next
  case False
  have "cells_seq_pos_min s c = Some (Min ((\<lambda>i. kc_pos c ! i) ` seq_cells s c))"
    using seq_pos_min_scan [OF assms] False by simp
  moreover have "Min ((\<lambda>i. kc_pos c ! i) ` seq_cells s c) \<le> p" if "(i, p) \<in> sview c s" for i p
    using that by (intro Min_le) (auto simp: sview_def seq_cells_def)
  ultimately show ?thesis by blast
qed

lemma purge_seq_ok:
  assumes "cfg_ok cf" "kv_inv cf n kv" "mx s \<ge> -1" "mx s \<noteq> -1 \<Longrightarrow> valid_seq cf s"
  shows "\<exists>kv'. purge_seq cf mx s kv = Some kv' \<and> kv_inv cf n kv' \<and>
    kv_view cf kv' = (kv_view cf kv)(s := {x \<in> kv_view cf kv s. \<not> (int (cf_n_swa_sink cf) \<le> snd x \<and> snd x \<le> mx s)})"
proof (cases "mx s = -1")
  case True
  have "snd x \<ge> 0" if "x \<in> kv_view cf kv s" for x using kv_view_nonneg [OF assms(1,2)] that by (cases x) auto
  then have "{x \<in> kv_view cf kv s. \<not> (int (cf_n_swa_sink cf) \<le> snd x \<and> snd x \<le> mx s)} = kv_view cf kv s"
    using True by fastforce
  then show ?thesis using assms(2) True by (simp add: purge_seq_def)
next
  case False
  then have v: "valid_seq cf s" using assms(4) by simp
  note C = cfg_okD [OF assms(1)]
  note D = kv_invD [OF assms(2) C(1) [OF v]]
  obtain lo where lo: "cells_seq_pos_min s (kv_cells kv ! stream cf s) = Some lo" "\<forall>(i, p) \<in> sview (kv_cells kv ! stream cf s) s. lo \<le> p"
    using seq_pos_min_le [OF D(1)] C(2) [OF v] by blast
  define p where "p = max lo (int (cf_n_swa_sink cf))"
  have cut: "{x \<in> kv_view cf kv s. \<not> (int (cf_n_swa_sink cf) \<le> snd x \<and> snd x \<le> mx s)} =
    {x \<in> kv_view cf kv s. \<not> (p \<le> snd x \<and> snd x \<le> mx s)}"
    using lo(2) v by (fastforce simp: p_def kv_view_def)
  have u: "purge_seq cf mx s kv = (if p \<le> mx s then map_option fst (kv_seq_rm cf s p (mx s + 1) kv) else Some kv)"
    using False v lo(1) by (simp add: purge_seq_def valid_seq_def p_def)
  show ?thesis
  proof (cases "p \<le> mx s")
    case True
    obtain kv' where kv': "kv_seq_rm cf s p (mx s + 1) kv = Some (kv', True)" "kv_inv cf n kv'"
      "kv_view cf kv' = kv_spec cf (K_seq_rm s p (mx s + 1)) (kv_view cf kv)" using seq_rm_one [OF assms(1,2) v] by blast
    have p0: "p \<ge> 0" by (simp add: p_def)
    have s: "s \<noteq> -1" using v by (simp add: valid_seq_def)
    have w: "within p (mx s + 1) q \<longleftrightarrow> p \<le> q \<and> q \<le> mx s" for q
      using p0 True by (auto simp: within_def norm_p0_def norm_p1_def)
    have "kv_view cf kv' = (kv_view cf kv)(s := {x \<in> kv_view cf kv s. \<not> (p \<le> snd x \<and> snd x \<le> mx s)})"
      unfolding kv'(3) using s by (simp add: fun_eq_iff w)
    then show ?thesis using True kv'(1,2) u unfolding cut by (intro exI [of _ kv']) simp
  next
    case False
    then have "{x \<in> kv_view cf kv s. \<not> (p \<le> snd x \<and> snd x \<le> mx s)} = kv_view cf kv s" by auto
    then show ?thesis using False assms(2) u unfolding cut by simp
  qed
qed

lemma purge_all_ok:
  assumes "cfg_ok cf" "kv_inv cf n kv" "\<forall>s. mx s \<ge> -1" "\<forall>s. mx s \<noteq> -1 \<longrightarrow> valid_seq cf s"
  shows "\<exists>kv'. for_each (purge_seq cf mx) seq_ids kv = Some kv' \<and> kv_inv cf n kv' \<and>
    (\<forall>s. kv_view cf kv' s = {x \<in> kv_view cf kv s. \<not> (int (cf_n_swa_sink cf) \<le> snd x \<and> snd x \<le> mx s)})"
proof -
  let ?cut = "\<lambda>s. {x \<in> kv_view cf kv s. \<not> (int (cf_n_swa_sink cf) \<le> snd x \<and> snd x \<le> mx s)}"
  let ?P = "\<lambda>dn kv'. kv_inv cf n kv' \<and> (\<forall>s. kv_view cf kv' s = (if s \<in> set dn then ?cut s else kv_view cf kv s))"
  have "\<exists>kv'. for_each (purge_seq cf mx) seq_ids kv = Some kv' \<and> ?P seq_ids kv'"
  proof (rule for_each_total [where P = ?P])
    fix dn s rest and kv1 assume P: "?P dn kv1"
    obtain kv2 where kv2: "purge_seq cf mx s kv1 = Some kv2" "kv_inv cf n kv2"
      "kv_view cf kv2 = (kv_view cf kv1)(s := {x \<in> kv_view cf kv1 s. \<not> (int (cf_n_swa_sink cf) \<le> snd x \<and> snd x \<le> mx s)})"
      using purge_seq_ok [OF assms(1), of n kv1 mx s] P assms(3,4) by blast
    have "\<forall>t. kv_view cf kv2 t = (if t \<in> set (dn @ [s]) then ?cut t else kv_view cf kv t)"
      using P unfolding kv2(3) by auto
    with kv2 show "\<exists>kv'. purge_seq cf mx s kv1 = Some kv' \<and> ?P (dn @ [s]) kv'" by blast
  qed (use assms(2) in simp)
  then obtain kv' where kv': "for_each (purge_seq cf mx) seq_ids kv = Some kv'" "?P seq_ids kv'" by blast
  have out: "?cut s = kv_view cf kv s" if "s \<notin> set seq_ids" for s
  proof -
    have "\<not> valid_seq cf s" using that cfg_okD(2) [OF assms(1)] by auto
    then show ?thesis by (simp add: kv_view_def)
  qed
  have "kv_view cf kv' s = ?cut s" for s
    by (cases "s \<in> set seq_ids") (simp_all only: kv'(2) out if_True if_False not_False_eq_True simp_thms)
  with kv' show ?thesis by blast
qed
text \<open>The heads move behind the slots.\<close>

lemma heads_fold:
  "fold (\<lambda>s kv. kv\<lparr>kv_heads := (kv_heads kv)[f s := g s]\<rparr>) xs (kv :: kv_cache) =
    kv\<lparr>kv_heads := fold (\<lambda>s hs. hs[f s := g s]) xs (kv_heads kv)\<rparr>"
  by (induction xs arbitrary: kv) simp_all

lemma heads_bound:
  "\<forall>s \<in> set xs. g s \<le> n \<Longrightarrow> \<forall>h \<in> set hs. h \<le> (n::nat) \<Longrightarrow>
    length (fold (\<lambda>s hs. hs[f s := g s]) xs hs) = length hs \<and> (\<forall>h \<in> set (fold (\<lambda>s hs. hs[f s := g s]) xs hs). h \<le> n)"
proof (induction xs arbitrary: hs)
  case (Cons x xs)
  have "\<forall>h \<in> set (hs[f x := g x]). h \<le> n" using Cons.prems set_update_subset_insert [of hs "f x" "g x"] by auto
  from Cons.IH [OF _ this] Cons.prems show ?case by simp
qed simp

lemma kv_inv_heads: "kv_inv cf n kv \<Longrightarrow> length hs = cf_n_stream cf \<Longrightarrow> \<forall>h \<in> set hs. h \<le> n \<Longrightarrow> kv_inv cf n (kv\<lparr>kv_heads := hs\<rparr>)"
  by (auto simp: kv_inv_def)

lemma kv_apply_ok:
  assumes "cfg_ok cf" "swa_ok cf" "kv_inv cf n kv" "ubatch_ok cf ub" "slot_ok cf kv ub cont si"
  shows "\<exists>kv'. kv_apply_ubatch cf si ub kv = Some kv' \<and> kv_inv cf n kv' \<and>
    (\<forall>t. kv_view cf kv' t = apply_spec cf ub si (kv_view cf kv) t) \<and>
    (cf_swa_type cf = LLAMA_SWA_TYPE_NONE \<longrightarrow> all_placed cf ub si kv kv' \<and>
      (\<exists>C hs. length hs = length (kv_heads kv) \<and> kv' = kv\<lparr>kv_cells := C, kv_heads := hs\<rparr>))"
proof -
  have m: "0 < ub_slots cf ub" "0 < ub_rows cf ub" "ub_n_tokens ub = ub_slots cf ub * ub_rows cf ub"
    using assms(4) by (simp_all add: ubatch_ok_def find_pre_def)
  note O = slot_okD [OF assms]
  note C = cfg_okD [OF assms(1)]
  obtain kv1 mx C1 where p: "for_each (place_rows cf si ub) [0..<si_n_stream si] (kv, \<lambda>_. -1) = Some (kv1, mx)"
    "kv1 = kv\<lparr>kv_cells := C1\<rparr>" "all_placed cf ub si kv kv1" "bumped_by (\<lambda>_. -1) mx (taken cf ub si kv (ub_slots cf ub))"
    using place_all_ok [OF assms] by blast
  have i1: "kv_inv cf n kv1" using all_placed_inv [OF assms] p(2,3) by simp
  note mx = lost_rows_mx [OF assms p(4)]
  have mx1: "\<forall>s. mx s \<ge> -1" using p(4) by (simp add: bumped_by_def)
  have ex: "\<exists>y \<in> lost_rows cf ub si (kv_view cf kv) s. mx s \<le> snd y" if "mx s \<noteq> -1" for s
    using mx [of "mx s" s] mx1 that by (metis antisym order_refl)
  have "\<forall>s. mx s \<noteq> -1 \<longrightarrow> valid_seq cf s"
    using ex by (auto simp: lost_rows_def kv_view_def split: if_splits) (metis empty_iff)
  from purge_all_ok [OF assms(1) i1 mx1 this]
  obtain kv2 where kv2: "for_each (purge_seq cf mx) seq_ids kv1 = Some kv2" "kv_inv cf n kv2"
    "\<forall>s. kv_view cf kv2 s = {x \<in> kv_view cf kv1 s. \<not> (int (cf_n_swa_sink cf) \<le> snd x \<and> snd x \<le> mx s)}" by blast
  let ?h = "\<lambda>s hs. hs[si_strm si ! s := last (si_idxs si ! s) + 1]"
  let ?hs = "fold ?h [0..<si_n_stream si] (kv_heads kv2)"
  let ?kv = "kv2\<lparr>kv_heads := ?hs\<rparr>"
  have ap: "kv_apply_ubatch cf si ub kv = Some ?kv"
    using C(4,6) p(1) kv2(1) O(1,2) [OF m(1)] m(3) by (simp add: kv_apply_ubatch_def heads_fold)
  have hs: "length ?hs = length (kv_heads kv2) \<and> (\<forall>h \<in> set ?hs. h \<le> n)"
  proof (rule heads_bound)
    show "\<forall>s \<in> set [0..<si_n_stream si]. last (si_idxs si ! s) + 1 \<le> n"
    proof
      fix s assume "s \<in> set [0..<si_n_stream si]"
      then have s: "s < ub_slots cf ub" using O(1) [OF m(1)] by simp
      have "si_idxs si ! s \<noteq> []" using O(4) [OF s] m(2) by auto
      then show "last (si_idxs si ! s) + 1 \<le> n" using O(7) [OF s last_in_set] by simp
    qed
    show "\<forall>h \<in> set (kv_heads kv2). h \<le> n" using kv2(2) by (auto simp: kv_inv_def in_set_conv_nth)
  qed
  then have inv: "kv_inv cf n ?kv" using kv2(2) by (intro kv_inv_heads) (auto simp: kv_inv_def)
  have v1: "kv_view cf kv1 t = (kv_view cf kv t - lost_rows cf ub si (kv_view cf kv) t) \<union> new_rows cf ub si t" for t
  proof (cases "valid_seq cf t")
    case True
    then show ?thesis by (rule all_placed_view [OF assms p(3)])
  next
    case False
    then have "new_rows cf ub si t = {}" using new_rows_stream(1) [OF assms(4)] by fastforce
    with False show ?thesis by (simp add: kv_view_def)
  qed
  have view: "kv_view cf ?kv t = apply_spec cf ub si (kv_view cf kv) t" for t
  proof -
    have "kv_view cf ?kv t = kv_view cf kv2 t" by (simp add: kv_view_def)
    moreover have "snd x \<ge> 0" if "x \<in> kv_view cf kv1 t" for x using kv_view_nonneg [OF assms(1) i1] that by (cases x) auto
    ultimately show ?thesis using kv2(3) mx v1 [of t] unfolding apply_spec_def by fastforce
  qed
  have "all_placed cf ub si kv ?kv \<and> (\<exists>C hs. length hs = length (kv_heads kv) \<and> ?kv = kv\<lparr>kv_cells := C, kv_heads := hs\<rparr>)"
    if none: "cf_swa_type cf = LLAMA_SWA_TYPE_NONE"
  proof -
    have "lost_rows cf ub si (kv_view cf kv) t = {}" for t
    proof -
      have "(i, p) \<notin> lost_rows cf ub si (kv_view cf kv) t" for i p
      proof
        assume "(i, p) \<in> lost_rows cf ub si (kv_view cf kv) t"
        then have "p \<ge> 0" "(i, p) \<in> kv_view cf kv t" and "i \<in> slot_cells cf ub si t"
          using kv_view_nonneg [OF assms(1,3)] by (auto simp: lost_rows_def)
        then obtain s where s: "s < ub_slots cf ub" "ub_stream cf ub s = stream cf t" "i \<in> set (si_idxs si ! s)"
          by (auto simp: slot_cells_def)
        with O(8) [OF s(1) none s(3)] \<open>(i, p) \<in> kv_view cf kv t\<close> \<open>p \<ge> 0\<close> show False
          by (auto simp: kv_view_def sview_def split: if_splits)
      qed
      then show ?thesis by auto
    qed
    then have "mx s = -1" for s using ex by auto
    then have "for_each (purge_seq cf mx) seq_ids kv1 = Some kv1" by (intro for_each_id) (simp add: purge_seq_def)
    then have "kv2 = kv1" using kv2(1) by simp
    then show ?thesis using p(2,3) hs by (auto simp: all_placed_def)
  qed
  with ap inv view show ?thesis by blast
qed
subsection \<open>The dry run restores the cells\<close>

text \<open>Without sliding-window attention only empty cells are used. The saved cells bring back every stream.\<close>

lemma saved_ok:
  assumes "\<And>s. s < m \<Longrightarrow> \<forall>i \<in> set (idxs s). i < cells_size (c s) \<and> kc_shift (c s) ! i = 0"
  shows "\<exists>saved. for_each (\<lambda>s acc. map_option (\<lambda>r. acc @ [r]) (cells_cp_idxs (idxs s) (c s))) [0..<m] [] = Some saved \<and>
    length saved = m \<and> (\<forall>s < m. saves_cells (idxs s) (c s) (saved ! s))"
  using assms
proof (induction m)
  case (Suc m)
  then obtain saved where s: "for_each (\<lambda>s acc. map_option (\<lambda>r. acc @ [r]) (cells_cp_idxs (idxs s) (c s))) [0..<m] [] = Some saved"
    "length saved = m" "\<forall>s < m. saves_cells (idxs s) (c s) (saved ! s)" by auto
  obtain r where r: "cells_cp_idxs (idxs m) (c m) = Some r" "saves_cells (idxs m) (c m) r"
    using cells_cp_idxs_ok [of "idxs m" "c m"] Suc.prems [of m] by auto
  show ?case using s r by (intro exI [of _ "saved @ [r]"]) (auto simp: for_each_append nth_append less_Suc_eq)
qed simp

lemma restore_state_ok:
  assumes "cfg_ok cf" "swa_ok cf" "kv_inv cf n kv" "ubatch_ok cf ub" "slot_ok cf kv ub cont si"
    and none: "cf_swa_type cf = LLAMA_SWA_TYPE_NONE"
    and "all_placed cf ub si kv kv1" "kv_cells kvx = kv_cells kv1" "ps_sinfo ps = si" "ps_heads_old ps = kv_heads kv"
    and "length (ps_cells ps) = ub_slots cf ub"
      "\<forall>s < ub_slots cf ub. saves_cells (si_idxs si ! s) (kv_cells kv ! ub_stream cf ub s) (ps_cells ps ! s)"
    and "length (kv_heads kvx) = length (kv_heads kv)"
  shows "\<exists>hs. restore_state ps kvx = Some (kvx\<lparr>kv_cells := kv_cells kv, kv_heads := hs\<rparr>) \<and> length hs = length (kv_heads kv) \<and>
    (cf_n_stream cf = 1 \<longrightarrow> hs = kv_heads kv)"
proof -
  let ?m = "ub_slots cf ub" and ?st = "ub_stream cf ub"
  have m: "0 < ?m" using assms(4) by (simp add: ubatch_ok_def find_pre_def)
  note O = slot_okD [OF assms(1-5)]
  note A = assms(7) [unfolded all_placed_def]
  let ?P = "\<lambda>dn kv'. \<exists>C hs. kv' = kvx\<lparr>kv_cells := C, kv_heads := hs\<rparr> \<and> length C = length (kv_cells kv) \<and> length hs = length (kv_heads kv) \<and>
     (\<forall>st. C ! st = (if st \<in> ?st ` {..<length dn} then kv_cells kv ! st else kv_cells kv1 ! st)) \<and>
     (cf_n_stream cf = 1 \<and> dn \<noteq> [] \<longrightarrow> hs = kv_heads kv)"
  have "\<exists>kv'. for_each (restore_stream ps) [0..<?m] kvx = Some kv' \<and> ?P [0..<?m] kv'"
  proof (rule for_each_total [where P = ?P])
    show "?P [] kvx" using A assms(8,13) by (auto intro!: exI [of _ "kv_cells kv1"] exI [of _ "kv_heads kvx"])
  next
    fix dn s rest kv' assume e: "[0..<?m] = dn @ s # rest" and "?P dn kv'"
    note s = upt_eq_splitD [OF e]
    note Os = O [OF s(2)]
    from \<open>?P dn kv'\<close> obtain C hs where C: "kv' = kvx\<lparr>kv_cells := C, kv_heads := hs\<rparr>" "length C = length (kv_cells kv)"
      "length hs = length (kv_heads kv)" "\<forall>st. C ! st = (if st \<in> ?st ` {..<s} then kv_cells kv ! st else kv_cells kv1 ! st)"
      using s(1) by blast
    from ubatch_streams(2) [OF assms(4) s(2)] C(4) have cs: "C ! ?st s = kv_cells kv1 ! ?st s" by simp
    note D = kv_invD [OF assms(3) Os(6)]
    let ?c = "kv_cells kv ! ?st s" and ?d = "kv_cells kv1 ! ?st s" and ?idxs = "si_idxs si ! s"
    have p: "rows_placed cf ub (s * ub_rows cf ub) ?idxs (ub_rows cf ub) ?c ?d" using A s(2) by blast
    have "cells_set_idxs ?idxs (ps_cells ps ! s) ?d = Some (?c\<lparr>kc_has_shift := kc_has_shift ?d\<rparr>)"
    proof (rule cells_restore)
      show "\<forall>i \<in> set ?idxs. i < cells_size ?c \<and> kc_shift ?c ! i = 0 \<and> kc_shift ?d ! i = 0"
      proof
        fix i assume i: "i \<in> set ?idxs"
        then obtain ii where "ii < ub_rows cf ub" "i = ?idxs ! ii" using Os(4) by (auto simp: in_set_conv_nth)
        then have "cell_at ?d i = placed cf ub (s * ub_rows cf ub + ii) (cell_at ?c i)" using p by (simp add: rows_placed_def)
        then have "kc_shift ?d ! i = 0" by (simp add: cell_at_def placed_def)
        moreover have "i < cells_size ?c" using Os(7) [OF i] D(3) by simp
        moreover have "kc_shift ?c ! i = 0" using cells_invD(7) [OF D(1) \<open>i < cells_size ?c\<close>] Os(8) [OF none i] by simp
        ultimately show "i < cells_size ?c \<and> kc_shift ?c ! i = 0 \<and> kc_shift ?d ! i = 0" by simp
      qed
    qed (use p D Os(4) assms(12) s(2) in \<open>auto simp: rows_placed_def\<close>)
    moreover have "kc_has_shift ?d = kc_has_shift ?c" using p by (simp add: rows_placed_def)
    ultimately have set: "cells_set_idxs ?idxs (ps_cells ps ! s) ?d = Some ?c" by simp
    let ?C = "C[?st s := ?c]" and ?hs = "hs[?st s := kv_heads kv ! s]"
    have "restore_stream ps s kv' = Some (kvx\<lparr>kv_cells := ?C, kv_heads := ?hs\<rparr>)"
      using set cs Os(3) C(1) assms(9,10) by (simp add: restore_stream_def kv_put_def Let_def)
    moreover have "\<forall>st. ?C ! st = (if st \<in> ?st ` {..<length (dn @ [s])} then kv_cells kv ! st else kv_cells kv1 ! st)"
      using C(2,4) D(5) s(1) by (auto simp: nth_list_update lessThan_Suc)
    moreover have "?hs = kv_heads kv" if "cf_n_stream cf = 1"
    proof -
      have "length (kv_heads kv) = 1" "?st s = 0" "s = 0" using assms(3) Os(6) s(2) that by (auto simp: kv_inv_def ub_slots_def)
      then show ?thesis using C(3) by (auto intro!: nth_equalityI)
    qed
    ultimately show "\<exists>kv2. restore_stream ps s kv' = Some kv2 \<and> ?P (dn @ [s]) kv2"
      using C(2,3) by (intro exI [of _ "kvx\<lparr>kv_cells := ?C, kv_heads := ?hs\<rparr>"] conjI exI [of _ ?C] exI [of _ ?hs]) auto
  qed
  then obtain C hs where C: "for_each (restore_stream ps) [0..<?m] kvx = Some (kvx\<lparr>kv_cells := C, kv_heads := hs\<rparr>)"
    "length C = length (kv_cells kv)" "length hs = length (kv_heads kv)" "cf_n_stream cf = 1 \<longrightarrow> hs = kv_heads kv"
    "\<forall>st. C ! st = (if st \<in> ?st ` {..<?m} then kv_cells kv ! st else kv_cells kv1 ! st)" using m by auto
  have "C ! st = kv_cells kv ! st" for st using C(5) A by auto
  then have "C = kv_cells kv" using C(2) by (intro nth_equalityI) auto
  then show ?thesis using C O(1) [OF m] assms(9) by (auto simp: restore_state_def)
qed
text \<open>The ubatches placed one after the other; \<open>sis\<close> ends before the first one that has no slot.\<close>

fun dry_run :: "kv_cfg \<Rightarrow> llama_ubatch list \<Rightarrow> slot_info list \<Rightarrow> kv_cache \<Rightarrow> bool" where
  "dry_run cf [] sis kv = (sis = [])"
| "dry_run cf (ub # ubs) [] kv = (\<forall>si. \<not> slot_ok cf kv ub False si)"
| "dry_run cf (ub # ubs) (si # sis) kv = (slot_ok cf kv ub False si \<and>
     (\<exists>kv'. kv_apply_ubatch cf si ub kv = Some kv' \<and> dry_run cf ubs sis kv'))"

text \<open>Rolling the recovery stack back, from any cache with the cells of the last step.\<close>

definition rolls_back :: "kv_cfg \<Rightarrow> prep_state list \<Rightarrow> kv_cache \<Rightarrow> kv_cache \<Rightarrow> bool" where
  "rolls_back cf sts kv kv' \<longleftrightarrow> (\<forall>hs. length hs = length (kv_heads kv) \<longrightarrow>
     (\<exists>hs'. for_each restore_state (rev sts) (kv'\<lparr>kv_heads := hs\<rparr>) = Some (kv\<lparr>kv_heads := hs'\<rparr>) \<and>
       length hs' = length hs \<and> (cf_n_stream cf = 1 \<longrightarrow> hs' = (if sts = [] then hs else kv_heads kv))))"

lemma prep_loop_ok:
  assumes "cfg_ok cf" "cf_swa_type cf = LLAMA_SWA_TYPE_NONE" "kv_inv cf n kv" "\<forall>ub \<in> set ubs. ubatch_ok cf ub"
  shows "\<exists>kv' sts. prep_loop cf ubs kv fl states = Some (kv', states @ sts, length sts = length ubs) \<and>
    dry_run cf ubs (map ps_sinfo sts) kv \<and> length (kv_heads kv') = length (kv_heads kv) \<and> kv_sj kv' = kv_sj kv \<and> (sts = [] \<longrightarrow> kv' = kv) \<and> rolls_back cf sts kv kv'"
  using assms(3,4)
proof (induction ubs arbitrary: kv states)
  case Nil
  show ?case by (intro exI [of _ kv] exI [of _ "[]"]) (auto simp: rolls_back_def)
next
  case (Cons ub ubs)
  have swa: "swa_ok cf" using assms(2) by (simp add: swa_ok_def)
  have ub: "ubatch_ok cf ub" "find_pre cf ub" using Cons.prems(2) by (simp_all add: ubatch_ok_def)
  from find_slot_inv [OF cfg_okS [OF assms(1)] swa Cons.prems(1) ub(2), of False]
  consider si where "find_slot cf kv ub False = Some si" "\<not> si_empty si" "slot_ok cf kv ub False si"
    | "find_slot cf kv ub False = Some si_none" "\<forall>si. \<not> slot_ok cf kv ub False si" by blast
  then show ?case
  proof cases
    case 2
    then show ?thesis by (intro exI [of _ kv] exI [of _ "[]"]) (auto simp: si_empty_def si_none_def rolls_back_def)
  next
    case 1
    have m: "0 < ub_slots cf ub" using ub by (simp add: find_pre_def)
    note O = slot_okD [OF assms(1) swa Cons.prems(1) ub(1) 1(3)]
    obtain kv1 C hs where a: "kv_apply_ubatch cf si ub kv = Some kv1" "kv_inv cf n kv1" "all_placed cf ub si kv kv1"
      "length hs = length (kv_heads kv)" "kv1 = kv\<lparr>kv_cells := C, kv_heads := hs\<rparr>"
      using kv_apply_ok [OF assms(1) swa Cons.prems(1) ub(1) 1(3)] assms(2) by blast
    have "\<forall>i \<in> set (si_idxs si ! s). i < cells_size (kv_cells kv ! ub_stream cf ub s) \<and> kc_shift (kv_cells kv ! ub_stream cf ub s) ! i = 0"
      if s: "s < ub_slots cf ub" for s
    proof
      fix i assume i: "i \<in> set (si_idxs si ! s)"
      note D = kv_invD [OF Cons.prems(1) O(6) [OF s]]
      have "i < cells_size (kv_cells kv ! ub_stream cf ub s)" using O(7) [OF s i] D(3) by simp
      then show "i < cells_size (kv_cells kv ! ub_stream cf ub s) \<and> kc_shift (kv_cells kv ! ub_stream cf ub s) ! i = 0"
        using cells_invD(7) [OF D(1)] O(8) [OF s assms(2) i] by simp
    qed
    then have "\<forall>i \<in> set (si_idxs si ! s). i < cells_size (kv_cells kv ! (si_strm si ! s)) \<and> kc_shift (kv_cells kv ! (si_strm si ! s)) ! i = 0"
      if "s < ub_slots cf ub" for s using O(3) that by simp
    from saved_ok [where idxs = "\<lambda>s. si_idxs si ! s" and c = "\<lambda>s. kv_cells kv ! (si_strm si ! s)" and m = "ub_slots cf ub", OF this]
    obtain saved where "for_each (\<lambda>s acc. map_option (\<lambda>r. acc @ [r]) (cells_cp_idxs (si_idxs si ! s) (kv_cells kv ! (si_strm si ! s))))
        [0..<ub_slots cf ub] [] = Some saved"
      and sv: "length saved = ub_slots cf ub" "\<forall>s < ub_slots cf ub. saves_cells (si_idxs si ! s) (kv_cells kv ! ub_stream cf ub s) (saved ! s)"
      using O(3) by auto
    then have saved: "for_each (\<lambda>s acc. map_option (\<lambda>r. acc @ [r]) (cells_cp_idxs (si_idxs si ! s) (kv_cells kv ! (si_strm si ! s))))
        [0..<si_n_stream si] [] = Some saved"
      using O(1) [OF m] by simp
    define ps where "ps = \<lparr>ps_sinfo = si, ps_heads_old = kv_heads kv, ps_cells = saved\<rparr>"
    obtain kv2 sts where I: "prep_loop cf ubs kv1 fl (states @ [ps]) = Some (kv2, (states @ [ps]) @ sts, length sts = length ubs)"
      "dry_run cf ubs (map ps_sinfo sts) kv1" "length (kv_heads kv2) = length (kv_heads kv1)" "kv_sj kv2 = kv_sj kv1" "rolls_back cf sts kv1 kv2"
      using Cons.IH [OF a(2), of "states @ [ps]"] Cons.prems(2) by auto
    have "prep_loop cf (ub # ubs) kv fl states = Some (kv2, states @ (ps # sts), length (ps # sts) = length (ub # ubs))"
      using 1 a(1) saved I(1) cfg_okD(6) [OF assms(1)] by (simp add: ps_def)
    moreover have "rolls_back cf (ps # sts) kv kv2" unfolding rolls_back_def
    proof (intro allI impI)
      fix hs2 :: "nat list" assume h2: "length hs2 = length (kv_heads kv)"
      then obtain hs3 where h3: "for_each restore_state (rev sts) (kv2\<lparr>kv_heads := hs2\<rparr>) = Some (kv1\<lparr>kv_heads := hs3\<rparr>)"
        "length hs3 = length hs2" using I(5) a(4,5) by (auto simp: rolls_back_def)
      have "\<exists>hs. restore_state ps (kv1\<lparr>kv_heads := hs3\<rparr>) = Some (kv1\<lparr>kv_heads := hs3\<rparr>\<lparr>kv_cells := kv_cells kv, kv_heads := hs\<rparr>) \<and>
          length hs = length (kv_heads kv) \<and> (cf_n_stream cf = 1 \<longrightarrow> hs = kv_heads kv)"
        by (rule restore_state_ok [OF assms(1) swa Cons.prems(1) ub(1) 1(3) assms(2) a(3)])
          (use sv h2 h3 in \<open>simp_all add: ps_def\<close>)
      then obtain hs4 where "restore_state ps (kv1\<lparr>kv_heads := hs3\<rparr>) = Some (kv\<lparr>kv_heads := hs4\<rparr>)"
        "length hs4 = length (kv_heads kv)" "cf_n_stream cf = 1 \<longrightarrow> hs4 = kv_heads kv" by (auto simp: a(5))
      with h3 h2 show "\<exists>hs'. for_each restore_state (rev (ps # sts)) (kv2\<lparr>kv_heads := hs2\<rparr>) = Some (kv\<lparr>kv_heads := hs'\<rparr>) \<and>
          length hs' = length hs2 \<and> (cf_n_stream cf = 1 \<longrightarrow> hs' = (if ps # sts = [] then hs2 else kv_heads kv))"
        by (auto simp: for_each_append)
    qed
    ultimately show ?thesis using 1(3) a I
      by (intro exI [of _ kv2] exI [of _ "ps # sts"]) (auto simp: ps_def)
  qed
qed

lemma restore_sj_id: "map2 restore_sj xs xs = xs"
  by (induction xs) (simp_all add: restore_sj_def)

lemma kv_prepare_restores:
  assumes "cfg_ok cf" "cf_swa_type cf = LLAMA_SWA_TYPE_NONE" "kv_inv cf n kv" "\<forall>ub \<in> set ubs. ubatch_ok cf ub" "ubs \<noteq> []"
  shows "\<exists>sis hs. dry_run cf ubs sis kv \<and> length hs = length (kv_heads kv) \<and> (cf_n_stream cf = 1 \<longrightarrow> hs = kv_heads kv) \<and>
    kv_prepare cf ubs kv = Some (kv\<lparr>kv_heads := hs\<rparr>, if length sis = length ubs then sis else [])"
proof -
  obtain kv' sts where p: "prep_loop cf ubs kv (int (length (sc_free (kv_sj kv)))) [] = Some (kv', sts, length sts = length ubs)"
    "dry_run cf ubs (map ps_sinfo sts) kv" "length (kv_heads kv') = length (kv_heads kv)" "kv_sj kv' = kv_sj kv" "rolls_back cf sts kv kv'" "sts = [] \<longrightarrow> kv' = kv"
    using prep_loop_ok [OF assms(1-4), of "int (length (sc_free (kv_sj kv)))" "[]"] by auto
  have "kv'\<lparr>kv_heads := kv_heads kv'\<rparr> = kv'" by simp
  then obtain hs where hs: "for_each restore_state (rev sts) kv' = Some (kv\<lparr>kv_heads := hs\<rparr>)" "length hs = length (kv_heads kv)"
    "cf_n_stream cf = 1 \<longrightarrow> hs = (if sts = [] then kv_heads kv' else kv_heads kv)"
    using p(3,5) unfolding rolls_back_def by metis
  then have h: "cf_n_stream cf = 1 \<longrightarrow> hs = kv_heads kv" using p(6) by auto
  have "(kv\<lparr>kv_heads := hs\<rparr>)\<lparr>kv_sj := (kv_sj (kv\<lparr>kv_heads := hs\<rparr>))\<lparr>sc_sts := map2 restore_sj (sc_sts (kv_sj kv)) (sc_sts (kv_sj (kv\<lparr>kv_heads := hs\<rparr>)))\<rparr>\<rparr>
    = kv\<lparr>kv_heads := hs\<rparr>" by (simp add: restore_sj_id)
  moreover have "sts \<noteq> [] \<or> \<not> length sts = length ubs" using assms(5) by auto
  ultimately have "kv_prepare cf ubs kv = Some (kv\<lparr>kv_heads := hs\<rparr>, if length sts = length ubs then map ps_sinfo sts else [])"
    unfolding kv_prepare_def by (simp add: p(1) hs(1) Let_def)
  with p(2) hs(2) h show ?thesis by (intro exI [of _ "map ps_sinfo sts"] exI [of _ hs]) simp
qed
subsection \<open>Properties\<close>

definition contiguous :: "int set \<Rightarrow> bool" where
  "contiguous S \<longleftrightarrow> (\<forall>a \<in> S. \<forall>c \<in> S. \<forall>b. a \<le> b \<and> b \<le> c \<longrightarrow> b \<in> S)"

definition positions :: "kv_cfg \<Rightarrow> kv_cache \<Rightarrow> int \<Rightarrow> int set" where
  "positions cf kv t = snd ` kv_view cf kv t"

definition ub_positions :: "kv_cfg \<Rightarrow> llama_ubatch \<Rightarrow> int \<Rightarrow> int set" where
  "ub_positions cf ub t = {p. \<exists>s < ub_slots cf ub. \<exists>ii < ub_rows cf ub.
     p = ub_pos ub ! (s * ub_rows cf ub + ii) \<and> t \<in> set (ub_seq_id ub ! (s * ub_rows cf ub + ii))}"

text \<open>The rows of the ubatch continue every sequence.\<close>

definition continues :: "kv_cfg \<Rightarrow> kv_cache \<Rightarrow> llama_ubatch \<Rightarrow> int \<Rightarrow> bool" where
  "continues cf kv ub t \<longleftrightarrow> contiguous (positions cf kv t \<union> ub_positions cf ub t) \<and>
     (\<forall>p \<in> positions cf kv t. \<forall>q \<in> ub_positions cf ub t. p < q)"

lemma apply_positions:
  assumes "contiguous (snd ` V t \<union> snd ` new_rows cf ub si t)" "\<forall>p \<in> snd ` V t. \<forall>q \<in> snd ` new_rows cf ub si t. p < q"
    "\<forall>x \<in> lost_rows cf ub si V t. int (cf_n_swa_sink cf) \<le> snd x"
  defines "R \<equiv> snd ` apply_spec cf ub si V t" and "S \<equiv> snd ` V t \<union> snd ` new_rows cf ub si t"
  shows "contiguous {p \<in> R. int (cf_n_swa_sink cf) \<le> p}" "snd ` new_rows cf ub si t \<subseteq> R" "R \<subseteq> S"
    "p < int (cf_n_swa_sink cf) \<Longrightarrow> p \<in> R \<longleftrightarrow> p \<in> S"
proof -
  let ?L = "lost_rows cf ub si V t" and ?N = "new_rows cf ub si t" and ?k = "int (cf_n_swa_sink cf)"
  have L: "?L \<subseteq> V t" by (auto simp: lost_rows_def)
  have mem: "x \<in> apply_spec cf ub si V t \<longleftrightarrow> x \<in> V t - ?L \<union> ?N \<and> (?k \<le> snd x \<longrightarrow> (\<forall>y \<in> ?L. snd y < snd x))" for x
    by (auto simp: apply_spec_def not_le)
  have "apply_spec cf ub si V t \<subseteq> V t \<union> ?N" using mem by blast
  then show sub: "R \<subseteq> S" unfolding R_def S_def image_Un [symmetric] by (rule image_mono)
  show "contiguous {p \<in> R. ?k \<le> p}" unfolding contiguous_def
  proof (intro ballI allI impI)
    fix a c b assume a: "a \<in> {p \<in> R. ?k \<le> p}" and c: "c \<in> {p \<in> R. ?k \<le> p}" and b: "a \<le> b \<and> b \<le> c"
    have "a \<in> S" "c \<in> S" using a c sub by blast+
    then have "b \<in> S" using assms(1) b unfolding contiguous_def S_def by blast
    then obtain x where x: "snd x = b" "x \<in> V t \<union> ?N" unfolding S_def image_Un [symmetric] by blast
    have "a \<in> R" "?k \<le> a" using a by simp_all
    then obtain z where z: "z \<in> apply_spec cf ub si V t" "snd z = a" "?k \<le> snd z" unfolding R_def by blast
    have above: "snd y < b" if "y \<in> ?L" for y
    proof -
      have "snd y < snd z" using mem [of z] z(1,3) that by blast
      then show ?thesis using z(2) b by linarith
    qed
    have "x \<notin> ?L"
    proof
      assume "x \<in> ?L"
      from above [OF this] x(1) show False by simp
    qed
    moreover have "\<forall>y \<in> ?L. snd y < snd x" using above x(1) by simp
    ultimately have "x \<in> apply_spec cf ub si V t" using x(2) mem [of x] by blast
    moreover have "?k \<le> b" using z(2,3) b by linarith
    ultimately show "b \<in> {p \<in> R. ?k \<le> p}" using x(1) unfolding R_def by blast
  qed
  have "x \<in> apply_spec cf ub si V t" if "x \<in> ?N" for x using that mem assms(2) L by blast
  then show "snd ` ?N \<subseteq> R" unfolding R_def by blast
  show "p \<in> R \<longleftrightarrow> p \<in> S" if p: "p < ?k"
  proof
    assume "p \<in> S"
    then obtain x where x: "snd x = p" "x \<in> V t \<union> ?N" unfolding S_def image_Un [symmetric] by blast
    have "x \<notin> ?L" using assms(3) x(1) p by fastforce
    then have "x \<in> apply_spec cf ub si V t" using x p mem [of x] by auto
    then show "p \<in> R" using x(1) unfolding R_def by blast
  qed (use sub in blast)
qed

lemma new_rows_positions:
  assumes "slot_ok cf kv ub cont si"
  shows "snd ` new_rows cf ub si t = ub_positions cf ub t"
  by (force simp: new_rows_def ub_positions_def)

text \<open>C16. Placing a ubatch keeps the sequences whole. In a cache without SJ-KVaRN, whatever slot
  \<open>find_slot\<close> returns, \<open>apply_ubatch\<close> places the ubatch there without a failing assertion and keeps the
  invariant of the cache. Every sequence whose positions had no gap and are continued by the ubatch gets all
  its new positions and no others, keeps all its positions below the attention sink, and has no gap at or
  above it: cells reused under sliding-window attention cost it only the oldest positions above the sink.
  Without a sink its positions have no gap at all; with one there may be a gap right after the sink, which
  is what the pruning intends.\<close>

theorem kv_apply_contiguous:
  assumes "cfg_ok cf" "swa_ok cf" "kv_inv cf n kv" "ubatch_ok cf ub"
    and "find_slot cf kv ub cont = Some si" "\<not> si_empty si"
  shows "\<exists>kv'. kv_apply_ubatch cf si ub kv = Some kv' \<and> kv_inv cf n kv' \<and>
    (\<forall>t. continues cf kv ub t \<longrightarrow> ub_positions cf ub t \<subseteq> positions cf kv' t \<and>
      positions cf kv' t \<subseteq> positions cf kv t \<union> ub_positions cf ub t \<and>
      (\<forall>p < int (cf_n_swa_sink cf). p \<in> positions cf kv' t \<longleftrightarrow> p \<in> positions cf kv t \<union> ub_positions cf ub t) \<and>
      contiguous {p \<in> positions cf kv' t. int (cf_n_swa_sink cf) \<le> p} \<and>
      (cf_n_swa_sink cf = 0 \<longrightarrow> contiguous (positions cf kv' t)))"
proof -
  have "find_pre cf ub" using assms(4) by (simp add: ubatch_ok_def)
  from find_slot_inv [OF cfg_okS [OF assms(1)] assms(2,3) this, of cont] have sl: "slot_ok cf kv ub cont si"
    using assms(5,6) by (auto simp: si_empty_def si_none_def)
  obtain kv' where kv': "kv_apply_ubatch cf si ub kv = Some kv'" "kv_inv cf n kv'"
    "\<forall>t. kv_view cf kv' t = apply_spec cf ub si (kv_view cf kv) t"
    using kv_apply_ok [OF assms(1-4) sl] by blast
  note O = slot_okD [OF assms(1-4) sl]
  have lost: "\<forall>x \<in> lost_rows cf ub si (kv_view cf kv) t. int (cf_n_swa_sink cf) \<le> snd x" for t
  proof
    fix x assume x: "x \<in> lost_rows cf ub si (kv_view cf kv) t"
    obtain i p where ip: "x = (i, p)" by fastforce
    have v: "(i, p) \<in> kv_view cf kv t" "i \<in> slot_cells cf ub si t" using x ip by (auto simp: lost_rows_def)
    then obtain s where s: "s < ub_slots cf ub" "ub_stream cf ub s = stream cf t" "i \<in> set (si_idxs si ! s)"
      by (auto simp: slot_cells_def)
    have "p = kc_pos (kv_cells kv ! ub_stream cf ub s) ! i" "0 \<le> p"
      using v(1) s(2) kv_view_nonneg [OF assms(1,3) v(1)] by (auto simp: kv_view_def sview_def split: if_splits)
    with O(9) [OF s(1,3)] ip show "int (cf_n_swa_sink cf) \<le> snd x" by simp
  qed
  have "ub_positions cf ub t \<subseteq> positions cf kv' t \<and>
      positions cf kv' t \<subseteq> positions cf kv t \<union> ub_positions cf ub t \<and>
      (\<forall>p < int (cf_n_swa_sink cf). p \<in> positions cf kv' t \<longleftrightarrow> p \<in> positions cf kv t \<union> ub_positions cf ub t) \<and>
      contiguous {p \<in> positions cf kv' t. int (cf_n_swa_sink cf) \<le> p} \<and>
      (cf_n_swa_sink cf = 0 \<longrightarrow> contiguous (positions cf kv' t))" if c: "continues cf kv ub t" for t
  proof -
    have c': "contiguous (snd ` kv_view cf kv t \<union> snd ` new_rows cf ub si t)"
      "\<forall>p \<in> snd ` kv_view cf kv t. \<forall>q \<in> snd ` new_rows cf ub si t. p < q"
      using c unfolding continues_def positions_def new_rows_positions [OF sl] by simp_all
    note A = apply_positions [OF c' lost]
    have p: "positions cf kv' t = snd ` apply_spec cf ub si (kv_view cf kv) t" using kv'(3) by (simp add: positions_def)
    have "\<forall>q \<in> positions cf kv' t. 0 \<le> q" using kv_view_nonneg [OF assms(1) kv'(2)] by (auto simp: positions_def)
    then have "{q \<in> positions cf kv' t. 0 \<le> q} = positions cf kv' t" by blast
    with A show ?thesis unfolding p [symmetric] new_rows_positions [OF sl] positions_def [symmetric, of cf kv]
      by (cases "cf_n_swa_sink cf = 0") simp_all
  qed
  with kv'(1,2) show ?thesis by blast
qed

text \<open>A window of two positions over four cells, all occupied by sequence 0; the next token takes the cell of
  position 1, and with it goes position 0.\<close>

definition cfw :: kv_cfg where
  "cfw = \<lparr>cf_seq_to_stream = [0], cf_n_stream = 1, cf_n_swa = 2, cf_swa_type = LLAMA_SWA_TYPE_STANDARD, cf_n_swa_sink = 0,
     cf_other = False, cf_streaming = False, cf_bookkeep = True, cf_sj = None, cf_n_pos_per_embd = 1, cf_ple_n_heads = 0,
     cf_ple_image_token_id = 0, cf_ple_eos_token_id = 0, cf_limits = []\<rparr>"

definition kvw :: kv_cache where
  "kvw = \<lparr>kv_cells = [cells_put 0 0 kv_cell_ext_default 0 {0} (cells_put 1 1 kv_cell_ext_default 0 {0}
       (cells_put 2 2 kv_cell_ext_default 0 {0} (cells_put 3 3 kv_cell_ext_default 0 {0} (cells_resize 4 cells_new))))],
     kv_heads = [1], kv_sj = \<lparr>sc_sts = [], sc_free = [], sc_ref = []\<rparr>, kv_copies = []\<rparr>"

definition ub1 :: "int \<Rightarrow> int \<Rightarrow> llama_ubatch" where
  "ub1 s p = \<lparr>ub_b_equal_seqs = True, ub_n_tokens = 1, ub_n_seq_tokens = 1, ub_n_seqs = 1, ub_n_seqs_unq = 1, ub_n_pos = 1,
     ub_token = Some [5], ub_pos = [p], ub_seq_id = [[s]], ub_seq_id_unq = [s],
     ub_seq_idx = [0], ub_output = [True], ub_type = None, ub_decision_order = None, ub_batch_idxs = [0]\<rparr>"
lemma cfw_ok: "cfg_ok cfw" "swa_ok cfw" "cf_n_swa_sink cfw = 0"
  by (simp_all add: cfg_ok_def cfg_sane_def cfw_def LLAMA_MAX_SEQ_def swa_ok_def)

lemma cells4_ok:
  assumes "cells_inv c" "cells_size c = 4" "i < 4" "p \<ge> 0"
  shows "cells_inv (cells_put i p kv_cell_ext_default 0 {0} c)" "cells_size (cells_put i p kv_cell_ext_default 0 {0} c) = 4"
    "j < 4 \<Longrightarrow> kc_pos (cells_put i p kv_cell_ext_default 0 {0} c) ! j = (if j = i then p else kc_pos c ! j)"
    "j < 4 \<Longrightarrow> kc_seq (cells_put i p kv_cell_ext_default 0 {0} c) ! j = (if j = i then {0} else kc_seq c ! j)"
  using assms by (auto intro!: cells_put_inv simp: LLAMA_MAX_SEQ_def cells_put_nth)

lemma kvw_cells: "cells_inv (kv_cells kvw ! 0)" "cells_size (kv_cells kvw ! 0) = 4"
  "j < 4 \<Longrightarrow> kc_pos (kv_cells kvw ! 0) ! j = int j" "j < 4 \<Longrightarrow> kc_seq (kv_cells kvw ! 0) ! j = {0}"
proof -
  note f = cells_resize_inv [OF cells_new_inv, of 4]
  note c3 = cells4_ok [OF f, of 3 3]
  note c2 = cells4_ok [OF c3(1,2), of 2 2]
  note c1 = cells4_ok [OF c2(1,2), of 1 1]
  note c0 = cells4_ok [OF c1(1,2), of 0 0]
  show "cells_inv (kv_cells kvw ! 0)" "cells_size (kv_cells kvw ! 0) = 4" using c0(1,2) by (simp_all add: kvw_def)
  show "kc_pos (kv_cells kvw ! 0) ! j = int j" if "j < 4"
    using c0(3) c1(3) c2(3) c3(3) that by (auto simp: kvw_def)
  show "kc_seq (kv_cells kvw ! 0) ! j = {0}" if "j < 4"
    using c0(4) c1(4) c2(4) c3(4) that by (auto simp: kvw_def)
qed

lemma kvw_inv: "kv_inv cfw 4 kvw"
proof -
  have "stream_ok cfw 0 (kv_cells kvw ! 0)" using kvw_cells
    by (auto simp: stream_ok_def cell_ok_def valid_seq_def stream_def cfw_def)
  then show ?thesis using kvw_cells(2) by (simp add: kv_inv_def cfw_def kvw_def)
qed

lemma kvw_positions: "positions cfw kvw t = (if t = 0 then {0..3} else {})"
proof -
  have "kv_view cfw kvw t = (if t = 0 then {(i, p). i < 4 \<and> p = int i} else {})"
    using kvw_cells by (auto simp: kv_view_def sview_def valid_seq_def cfw_def stream_def)
  moreover have "snd ` {(i, p). i < 4 \<and> p = int i} = {0..3}"
  proof (intro set_eqI iffI)
    fix q :: int assume "q \<in> {0..3}"
    then have "(nat q, q) \<in> {(i, p). i < 4 \<and> p = int i}" by auto
    then show "q \<in> snd ` {(i, p). i < 4 \<and> p = int i}" by (metis image_eqI snd_conv)
  qed auto
  ultimately show ?thesis by (simp add: positions_def)
qed

lemma ub1_ok:
  assumes "valid_seq cf s" "0 \<le> p"
  shows "ubatch_ok cf (ub1 s p)" "ub_positions cf (ub1 s p) t = (if t = s then {p} else {})"
  using assms by (auto simp: ubatch_ok_def find_pre_def ub_slots_def ub_rows_def ub1_def row_ok_def ub_stream_def ub_positions_def)

theorem kv_apply_contiguous_witness:
  "\<exists>si kv'. find_slot cfw kvw (ub1 0 4) False = Some si \<and> si_idxs si = [[1]] \<and>
    kv_apply_ubatch cfw si (ub1 0 4) kvw = Some kv' \<and> contiguous (positions cfw kv' 0) \<and> 4 \<in> positions cfw kv' 0"
proof -
  have v: "valid_seq cfw 0" by (simp add: valid_seq_def cfw_def)
  have "map_option si_idxs (find_slot cfw kvw (ub1 0 4) False) = Some [[1]]" by code_simp
  then obtain si where si: "find_slot cfw kvw (ub1 0 4) False = Some si" "si_idxs si = [[1]]" by auto
  then have ne: "\<not> si_empty si" by (simp add: si_empty_def)
  have "continues cfw kvw (ub1 0 4) 0"
  proof -
    have "{0..3} \<union> {4} = {0..4 :: int}" by auto
    moreover have "contiguous {0..4}" by (simp add: contiguous_def)
    ultimately show ?thesis using ub1_ok(2) [OF v, of 4 0] by (simp add: continues_def kvw_positions)
  qed
  moreover have "ubatch_ok cfw (ub1 0 4)" using ub1_ok(1) [OF v] by simp
  ultimately obtain kv' where "kv_apply_ubatch cfw si (ub1 0 4) kvw = Some kv'" "contiguous (positions cfw kv' 0)"
    "ub_positions cfw (ub1 0 4) 0 \<subseteq> positions cfw kv' 0"
    using kv_apply_contiguous [OF cfw_ok(1,2) kvw_inv _ si(1) ne] cfw_ok(3) by blast
  then show ?thesis using si ub1_ok(2) [OF v, of 4 0] by auto
qed

text \<open>C25. The dry run leaves the cells as they were. In a cache without sliding-window attention and without
  SJ-KVaRN, \<open>prepare\<close> on any non-empty list of ubatches as the splitter builds them returns without a failing
  assertion; it returns one slot per ubatch exactly if all of them fit one after the other (each slot found
  in the cache its predecessors leave), and nothing otherwise; every cell of every stream is as before the
  call, and with one stream so is the search head. (With SJ-KVaRN \<open>prepare\<close> also fails when the record pool
  runs out; with a window \<open>kv_prepare_not_restored\<close> shows cells lost.)\<close>

theorem kv_prepare_dry_run:
  assumes "cfg_ok cf" "cf_swa_type cf = LLAMA_SWA_TYPE_NONE" "kv_inv cf n kv" "\<forall>ub \<in> set ubs. ubatch_ok cf ub" "ubs \<noteq> []"
  shows "\<exists>sis hs. dry_run cf ubs sis kv \<and> length hs = length (kv_heads kv) \<and> (cf_n_stream cf = 1 \<longrightarrow> hs = kv_heads kv) \<and>
    kv_prepare cf ubs kv = Some (kv\<lparr>kv_heads := hs\<rparr>, if length sis = length ubs then sis else [])"
  by (rule kv_prepare_restores [OF assms])

theorem kv_prepare_dry_run_witness:
  "\<exists>hs sis. kv_prepare cf2 [ub1 0 8, ub1 1 0, ub1 0 9] kv4 = Some (kv4\<lparr>kv_heads := hs\<rparr>, sis) \<and> map si_idxs sis = [[[0]], [[0]], [[2]]]"
proof -
  have v: "valid_seq cf2 0" "valid_seq cf2 1" by (simp_all add: stream2)
  have ok: "\<forall>ub \<in> set [ub1 0 8, ub1 1 0, ub1 0 9]. ubatch_ok cf2 ub" using ub1_ok(1) [OF v(1)] ub1_ok(1) [OF v(2)] by simp
  have run: "map_option (\<lambda>(kv, sis). map si_idxs sis) (kv_prepare cf2 [ub1 0 8, ub1 1 0, ub1 0 9] kv4) = Some [[[0]], [[0]], [[2]]]" by code_simp
  have "cf_swa_type cf2 = LLAMA_SWA_TYPE_NONE" by (simp add: cf2_def)
  then obtain sis hs where "kv_prepare cf2 [ub1 0 8, ub1 1 0, ub1 0 9] kv4 = Some (kv4\<lparr>kv_heads := hs\<rparr>, sis)"
    using kv_prepare_dry_run [OF cf2_ok _ kv4_inv ok] by blast
  with run show ?thesis by (intro exI [of _ hs] exI [of _ sis]) simp
qed

text \<open>What the dry run does not restore. With several streams the search heads come back wrong: the restoring
  loop reads \<open>v_heads_old[s]\<close> with the number of the sequence set, not of its stream (a ubatch of sequence 1
  alone gives stream 1 the head of stream 0). With sliding-window attention the positions purged by
  \<open>apply_ubatch\<close> outside the slot are not saved: here position 0 of the sequence is gone after a dry run that
  failed.\<close>

theorem kv_prepare_not_restored:
  "map_option (\<lambda>(kv, sis). kv_heads kv) (kv_prepare cf2 [ub1 1 0] kv4) = Some [0, 0] \<and> kv_heads kv4 = [0, 3] \<and>
   map_option (\<lambda>(kv, sis). (sis, kc_pos (kv_cells kv ! 0))) (kv_prepare cfw [ub1 0 4, (ub1 0 5)\<lparr>ub_n_tokens := 5\<rparr>] kvw)
     = Some ([], [-1, 1, 2, 3]) \<and> kc_pos (kv_cells kvw ! 0) = [0, 1, 2, 3]"
proof (intro conjI)
  show "map_option (\<lambda>(kv, sis). kv_heads kv) (kv_prepare cf2 [ub1 1 0] kv4) = Some [0, 0]" by code_simp
  show "map_option (\<lambda>(kv, sis). (sis, kc_pos (kv_cells kv ! 0))) (kv_prepare cfw [ub1 0 4, (ub1 0 5)\<lparr>ub_n_tokens := 5\<rparr>] kvw)
     = Some ([], [-1, 1, 2, 3])" by code_simp
  show "kc_pos (kv_cells kvw ! 0) = [0, 1, 2, 3]" by code_simp
qed (simp add: kv4_def)

end
