(* ===== verification/Batch_Ext.thy ===== *)
theory Batch_Ext
  imports Kv_Cells
begin

section \<open>Batches under construction (src/llama-batch.cpp, llama_batch_ext and llama_batch_compat)\<close>

text \<open>
  \<open>llama_batch_ext\<close> collects the entries of a batch; \<open>llama_batch_compat::init\<close> fills one from the old
  \<open>llama_batch\<close>. The unordered set of sequence ids of an entry is a list without repetition, in iteration
  order. Of the embedding rows only the bookkeeping (row width, offset, size of the array) is kept. An
  array that may be a null pointer is an option.
\<close>

subsection \<open>Data\<close>

record batch_token =
  te_id :: int
  te_has_embd :: bool
  te_embd_off :: nat
  te_output :: bool
  te_decision_order :: int
  te_seq_ids :: "int list"
  te_pos :: "int list"

text \<open>\<open>be_mem\<close>: the \<open>seq_pos_min\<close> and \<open>seq_pos_max\<close> of the memory module, when there is one.\<close>

record batch_ext =
  be_n_tokens_max :: nat
  be_n_embd_inp :: nat
  be_n_embd_inp_enc :: nat
  be_n_seq_max :: int
  be_mem :: "((int \<Rightarrow> int) \<times> (int \<Rightarrow> int)) option"
  be_n_vocab :: int
  be_n_pos :: nat
  be_n_embd :: nat
  be_tokens :: "batch_token list"
  be_embd_len :: nat

record llama_embd =
  em_data :: bool
  em_n_rows :: nat
  em_n_embd :: nat

record llama_batch =
  lb_n_tokens :: nat
  lb_token :: "int list option"
  lb_embd :: bool
  lb_pos :: "int list option"
  lb_seq_id :: "int list list option"
  lb_logits :: "bool list option"

text \<open>\<open>GGML_MROPE_SECTIONS\<close> position sections.\<close>

definition token_new :: batch_token where
  "token_new = \<lparr>te_id = LLAMA_TOKEN_NULL, te_has_embd = False, te_embd_off = 0, te_output = False, te_decision_order = 0,
     te_seq_ids = [], te_pos = [0, 0, 0, 0]\<rparr>"

definition id_insert :: "int \<Rightarrow> int list \<Rightarrow> int list" where
  "id_insert s ss = (if s \<in> set ss then ss else ss @ [s])"

subsection \<open>Operations\<close>

definition ext_clear :: "batch_ext \<Rightarrow> batch_ext" where
  "ext_clear be = be\<lparr>be_tokens := [], be_embd_len := 0, be_n_embd := 0\<rparr>"

definition ext_idx_ok :: "batch_ext \<Rightarrow> int \<Rightarrow> bool" where
  "ext_idx_ok be idx = (\<not> (idx < 0 \<or> idx \<ge> int (length (be_tokens be))))"

definition ext_upd :: "int \<Rightarrow> (batch_token \<Rightarrow> batch_token) \<Rightarrow> batch_ext \<Rightarrow> batch_ext" where
  "ext_upd idx f be = be\<lparr>be_tokens := (be_tokens be)[nat idx := f (be_tokens be ! nat idx)]\<rparr>"

definition ext_add_token :: "int \<Rightarrow> batch_ext \<Rightarrow> batch_ext \<times> int" where
  "ext_add_token s be = (
     if length (be_tokens be) \<ge> be_n_tokens_max be then (be, -1)
     else if s < 0 \<or> s \<ge> be_n_seq_max be then (be, -3)
     else (be\<lparr>be_tokens := be_tokens be @ [token_new\<lparr>te_seq_ids := [s]\<rparr>]\<rparr>, int (length (be_tokens be))))"

definition ext_add_seq :: "int \<Rightarrow> int \<Rightarrow> batch_ext \<Rightarrow> batch_ext \<times> bool" where
  "ext_add_seq idx s be = (
     if \<not> ext_idx_ok be idx \<or> s < 0 \<or> s \<ge> be_n_seq_max be then (be, False)
     else (ext_upd idx (\<lambda>t. t\<lparr>te_seq_ids := id_insert s (te_seq_ids t)\<rparr>) be, True))"

definition ext_set_token_id :: "int \<Rightarrow> int \<Rightarrow> batch_ext \<Rightarrow> batch_ext \<times> bool" where
  "ext_set_token_id idx i be = (
     if \<not> ext_idx_ok be idx \<or> i < 0 \<or> i \<ge> be_n_vocab be then (be, False)
     else (ext_upd idx (\<lambda>t. t\<lparr>te_id := i\<rparr>) be, True))"

text \<open>Sizes of an embedding are far below the range of \<open>size_t\<close>.\<close>

definition ext_set_token_embd :: "int \<Rightarrow> llama_embd \<Rightarrow> batch_ext \<Rightarrow> batch_ext \<times> bool" where
  "ext_set_token_embd idx em be = (
     let n_total = em_n_rows em * em_n_embd em in
     if \<not> ext_idx_ok be idx \<or> \<not> em_data em then (be, False)
     else if be_n_embd be = 0 \<and> n_total \<noteq> be_n_embd_inp be \<and> n_total \<noteq> be_n_embd_inp_enc be then (be, False)
     else if be_n_embd be \<noteq> 0 \<and> n_total \<noteq> be_n_embd be then (be, False)
     else let be = be\<lparr>be_n_embd := n_total\<rparr> in
       if te_has_embd (be_tokens be ! nat idx) then (be, False)
       else ((ext_upd idx (\<lambda>t. t\<lparr>te_has_embd := True, te_embd_off := be_embd_len be\<rparr>) be)
               \<lparr>be_embd_len := be_embd_len be + n_total\<rparr>, True))"

definition ext_set_token_pos :: "int \<Rightarrow> int list option \<Rightarrow> batch_ext \<Rightarrow> batch_ext \<times> bool" where
  "ext_set_token_pos idx pos be = (
     if \<not> ext_idx_ok be idx then (be, False)
     else case pos of None \<Rightarrow> (be, False)
       | Some p \<Rightarrow> (ext_upd idx (\<lambda>t. let n = (if te_id t \<noteq> LLAMA_TOKEN_NULL then 1 else be_n_pos be) in
           t\<lparr>te_pos := map (\<lambda>j. if j < n then p ! j else te_pos t ! j) [0..<length (te_pos t)]\<rparr>) be, True))"

definition ext_set_output :: "int \<Rightarrow> bool \<Rightarrow> batch_ext \<Rightarrow> batch_ext \<times> bool" where
  "ext_set_output idx b be = (
     if \<not> ext_idx_ok be idx then (be, False) else (ext_upd idx (\<lambda>t. t\<lparr>te_output := b\<rparr>) be, True))"

definition ext_set_decision_order :: "int \<Rightarrow> int \<Rightarrow> batch_ext \<Rightarrow> batch_ext \<times> bool" where
  "ext_set_decision_order idx ord be = (
     if \<not> ext_idx_ok be idx then (be, False) else (ext_upd idx (\<lambda>t. t\<lparr>te_decision_order := ord\<rparr>) be, True))"

text \<open>The C interface: a new entry with its token or its embedding.\<close>

definition batch_ext_add_token :: "int \<Rightarrow> int \<Rightarrow> batch_ext \<Rightarrow> batch_ext \<times> int" where
  "batch_ext_add_token s i be = (let (be, idx) = ext_add_token s be in
     if idx < 0 then (be, idx)
     else let (be, b) = ext_set_token_id idx i be in (be, if b then idx else -2))"

definition batch_ext_add_embd :: "int \<Rightarrow> llama_embd \<Rightarrow> batch_ext \<Rightarrow> batch_ext \<times> int" where
  "batch_ext_add_embd s em be = (let (be, idx) = ext_add_token s be in
     if idx < 0 then (be, idx)
     else let (be, b) = ext_set_token_embd idx em be in (be, if b then idx else -2))"

subsection \<open>From the old interface\<close>

definition compat_entry :: "llama_batch \<Rightarrow> nat \<Rightarrow> batch_ext \<Rightarrow> nat \<Rightarrow> (int \<Rightarrow> int) \<Rightarrow> batch_token \<times> (int \<Rightarrow> int)" where
  "compat_entry b width be i pos_next = (
     let sids = (case lb_seq_id b of None \<Rightarrow> [0] | Some ss \<Rightarrow> ss ! i);
       t = token_new\<lparr>te_seq_ids := fold id_insert sids []\<rparr>;
       (t, pos_next) = (case lb_pos b of
           Some p \<Rightarrow> (if lb_token b \<noteq> None then t\<lparr>te_pos := (te_pos t)[0 := p ! i]\<rparr>
             else t\<lparr>te_pos := map (\<lambda>j. if j < be_n_pos be then p ! (j * lb_n_tokens b + i) else te_pos t ! j) [0..<4]\<rparr>, pos_next)
         | None \<Rightarrow> (t\<lparr>te_pos := (te_pos t)[0 := pos_next (sids ! 0)]\<rparr>, pos_next(sids ! 0 := pos_next (sids ! 0) + 1)));
       t = (case lb_token b of None \<Rightarrow> t | Some ts \<Rightarrow> t\<lparr>te_id := ts ! i\<rparr>);
       t = (if lb_embd b then t\<lparr>te_has_embd := True, te_embd_off := be_embd_len be\<rparr> else t);
       t = t\<lparr>te_output := (case lb_logits b of Some l \<Rightarrow> l ! i | None \<Rightarrow> i = lb_n_tokens b - 1)\<rparr>
     in (t, pos_next))"

definition compat_push :: "llama_batch \<Rightarrow> nat \<Rightarrow> nat \<Rightarrow> batch_ext \<times> (int \<Rightarrow> int) \<Rightarrow> batch_ext \<times> (int \<Rightarrow> int)" where
  "compat_push b width i = (\<lambda>(be, pos_next).
     let (t, pos_next) = compat_entry b width be i pos_next;
       be = (if lb_embd b then be\<lparr>be_embd_len := be_embd_len be + width, be_n_embd := width\<rparr> else be)
     in (be\<lparr>be_tokens := be_tokens be @ [t]\<rparr>, pos_next))"

definition compat_init :: "llama_batch \<Rightarrow> nat \<Rightarrow> batch_ext \<Rightarrow> batch_ext" where
  "compat_init b n_embd_row be = (
     let width = (if n_embd_row = 0 then be_n_embd_inp be else n_embd_row);
       pos_next = (\<lambda>s. (case be_mem be of None \<Rightarrow> -1 | Some (_, mx) \<Rightarrow> mx s) + 1)
     in fst (fold (compat_push b width) [0..<lb_n_tokens b] (be, pos_next)))"

definition compat_reset :: "llama_batch \<Rightarrow> nat \<Rightarrow> batch_ext \<Rightarrow> batch_ext" where
  "compat_reset b n_embd_row be = compat_init b n_embd_row (ext_clear be)"

definition can_reuse_mtp :: "llama_batch \<Rightarrow> nat \<Rightarrow> nat \<Rightarrow> bool" where
  "can_reuse_mtp b n_tokens_max n_embd_row = (
     if lb_n_tokens b < 16 \<or> lb_n_tokens b > n_tokens_max \<or> lb_n_tokens b > 8192 \<or>
       lb_token b = None \<or> \<not> lb_embd b \<or> lb_logits b = None \<or> n_embd_row = 0 \<or>
       n_embd_row > 128 * 1024 * 1024 div 4 div lb_n_tokens b then False
     else \<forall>i < lb_n_tokens b. \<not> the (lb_logits b) ! i)"
subsection \<open>The type invariant\<close>

definition token_wf :: "batch_ext \<Rightarrow> batch_token \<Rightarrow> bool" where
  "token_wf be t \<longleftrightarrow> te_seq_ids t \<noteq> [] \<and> distinct (te_seq_ids t) \<and> (\<forall>s \<in> set (te_seq_ids t). 0 \<le> s \<and> s < be_n_seq_max be) \<and>
     (te_id t = LLAMA_TOKEN_NULL \<or> 0 \<le> te_id t \<and> te_id t < be_n_vocab be) \<and> length (te_pos t) = 4 \<and>
     (te_has_embd t \<longrightarrow> (\<exists>k. te_embd_off t = k * be_n_embd be \<and> te_embd_off t + be_n_embd be \<le> be_embd_len be))"

definition embd_rows :: "batch_ext \<Rightarrow> nat list" where
  "embd_rows be = map te_embd_off (filter te_has_embd (be_tokens be))"

text \<open>The embedding rows have one width, lie in the array one after the other, and no two entries share one.\<close>

definition ext_wf :: "batch_ext \<Rightarrow> bool" where
  "ext_wf be \<longleftrightarrow> length (be_tokens be) \<le> be_n_tokens_max be \<and> (\<forall>t \<in> set (be_tokens be). token_wf be t) \<and>
     distinct (embd_rows be) \<and> be_embd_len be = length (embd_rows be) * be_n_embd be \<and>
     be_n_embd be \<in> {0, be_n_embd_inp be, be_n_embd_inp_enc be} \<and> be_n_embd_inp be > 0 \<and> be_n_embd_inp_enc be > 0 \<and>
     (be_n_embd be = 0 \<longrightarrow> embd_rows be = [])"

datatype ext_op =
    X_clear
  | X_add_token int int
  | X_add_embd int llama_embd
  | X_add_seq int int
  | X_set_pos int "int list option"
  | X_set_embd int llama_embd
  | X_set_output int bool
  | X_set_order int int

fun ext_step :: "ext_op \<Rightarrow> batch_ext \<Rightarrow> batch_ext" where
  "ext_step X_clear be = ext_clear be"
| "ext_step (X_add_token s i) be = fst (batch_ext_add_token s i be)"
| "ext_step (X_add_embd s em) be = fst (batch_ext_add_embd s em be)"
| "ext_step (X_add_seq idx s) be = fst (ext_add_seq idx s be)"
| "ext_step (X_set_pos idx p) be = fst (ext_set_token_pos idx p be)"
| "ext_step (X_set_embd idx em) be = fst (ext_set_token_embd idx em be)"
| "ext_step (X_set_output idx b) be = fst (ext_set_output idx b be)"
| "ext_step (X_set_order idx ord) be = fst (ext_set_decision_order idx ord be)"

lemma ext_idx_nat: "ext_idx_ok be idx \<longleftrightarrow> 0 \<le> idx \<and> nat idx < length (be_tokens be)"
  by (auto simp: ext_idx_ok_def)

text \<open>An update that leaves the embedding fields of the entry alone.\<close>

lemma filter_map_upd:
  "f (g (xs ! i)) = f (xs ! i) \<Longrightarrow> P (g (xs ! i)) = P (xs ! i) \<Longrightarrow> i < length xs \<Longrightarrow>
    map f (filter P (xs[i := g (xs ! i)])) = map f (filter P xs)"
proof (induction xs arbitrary: i)
  case (Cons x xs)
  then show ?case by (cases i) auto
qed simp

lemma ext_upd_wf:
  assumes "ext_wf be" "ext_idx_ok be idx"
    and "\<And>t. te_has_embd (f t) = te_has_embd t \<and> te_embd_off (f t) = te_embd_off t"
    and "\<And>t. token_wf be t \<Longrightarrow> token_wf be (f t)"
  shows "ext_wf (ext_upd idx f be)"
proof -
  let ?be = "ext_upd idx f be" and ?t = "be_tokens be ! nat idx"
  have i: "nat idx < length (be_tokens be)" using assms(2) by (simp add: ext_idx_nat)
  have rows: "embd_rows ?be = embd_rows be"
    unfolding embd_rows_def ext_upd_def using assms(3) i by (simp add: filter_map_upd)
  have "token_wf be t" if t: "t \<in> set (be_tokens ?be)" for t
  proof -
    have "t \<in> insert (f ?t) (set (be_tokens be))"
      using t set_update_subset_insert [of "be_tokens be" "nat idx" "f ?t"] by (auto simp: ext_upd_def)
    moreover have "token_wf be ?t" using assms(1) i by (simp add: ext_wf_def)
    ultimately show ?thesis using assms(1,4) by (auto simp: ext_wf_def)
  qed
  then have "\<forall>t \<in> set (be_tokens ?be). token_wf ?be t" by (simp add: token_wf_def ext_upd_def)
  then show ?thesis using assms(1) rows by (simp add: ext_wf_def ext_upd_def)
qed

lemma add_token_wf:
  assumes "ext_wf be"
  shows "ext_wf (fst (ext_add_token s be))"
proof (cases "length (be_tokens be) \<ge> be_n_tokens_max be \<or> s < 0 \<or> s \<ge> be_n_seq_max be")
  case True
  then have "fst (ext_add_token s be) = be" by (auto simp: ext_add_token_def)
  then show ?thesis using assms by simp
next
  case False
  then show ?thesis using assms by (auto simp: ext_add_token_def ext_wf_def token_wf_def token_new_def embd_rows_def)
qed

lemma set_token_id_wf: "ext_wf be \<Longrightarrow> ext_wf (fst (ext_set_token_id idx i be))"
  unfolding ext_set_token_id_def by (auto intro!: ext_upd_wf simp: token_wf_def)

lemma add_seq_wf: "ext_wf be \<Longrightarrow> ext_wf (fst (ext_add_seq idx s be))"
  unfolding ext_add_seq_def by (auto intro!: ext_upd_wf simp: token_wf_def id_insert_def)

lemma set_pos_wf: "ext_wf be \<Longrightarrow> ext_wf (fst (ext_set_token_pos idx p be))"
  unfolding ext_set_token_pos_def by (auto intro!: ext_upd_wf simp: token_wf_def Let_def split: option.splits)

lemma set_output_wf: "ext_wf be \<Longrightarrow> ext_wf (fst (ext_set_output idx b be))"
  unfolding ext_set_output_def by (auto intro!: ext_upd_wf simp: token_wf_def)

lemma set_order_wf: "ext_wf be \<Longrightarrow> ext_wf (fst (ext_set_decision_order idx ord be))"
  unfolding ext_set_decision_order_def by (auto intro!: ext_upd_wf simp: token_wf_def)

definition embd_fits :: "batch_ext \<Rightarrow> nat \<Rightarrow> bool" where
  "embd_fits be n \<longleftrightarrow> (if be_n_embd be = 0 then n \<in> {be_n_embd_inp be, be_n_embd_inp_enc be} else n = be_n_embd be)"

lemma set_token_embd_cases:
  "ext_set_token_embd idx em be = (
     let n = em_n_rows em * em_n_embd em in
     if ext_idx_ok be idx \<and> em_data em \<and> embd_fits be n
     then (if te_has_embd (be_tokens be ! nat idx) then (be\<lparr>be_n_embd := n\<rparr>, False)
       else (be\<lparr>be_n_embd := n, be_tokens := (be_tokens be)[nat idx :=
               (be_tokens be ! nat idx)\<lparr>te_has_embd := True, te_embd_off := be_embd_len be\<rparr>],
               be_embd_len := be_embd_len be + n\<rparr>, True))
     else (be, False))"
  by (simp add: ext_set_token_embd_def embd_fits_def Let_def ext_upd_def)

lemma embd_rows_below:
  assumes "ext_wf be" "r \<in> set (embd_rows be)"
  shows "r < be_embd_len be"
proof -
  obtain t where t: "t \<in> set (be_tokens be)" "te_has_embd t" "r = te_embd_off t" using assms(2) by (auto simp: embd_rows_def)
  have "be_n_embd be \<noteq> 0" using assms by (auto simp: ext_wf_def)
  moreover have "token_wf be t" using assms(1) t(1) by (simp add: ext_wf_def)
  ultimately show ?thesis using t(2,3) by (auto simp: token_wf_def)
qed

lemma embd_rows_insert:
  assumes "i < length ts" "\<not> te_has_embd (ts ! i)" "te_has_embd t"
  shows "\<exists>A B. map te_embd_off (filter te_has_embd ts) = A @ B \<and>
    map te_embd_off (filter te_has_embd (ts[i := t])) = A @ te_embd_off t # B"
proof -
  have "ts = take i ts @ ts ! i # drop (Suc i) ts" using assms(1) by (rule id_take_nth_drop)
  then have "map te_embd_off (filter te_has_embd ts) =
      map te_embd_off (filter te_has_embd (take i ts)) @ map te_embd_off (filter te_has_embd (drop (Suc i) ts))"
    using assms(2) by (metis (no_types, lifting) filter.simps(2) filter_append map_append)
  moreover have "map te_embd_off (filter te_has_embd (ts[i := t])) =
      map te_embd_off (filter te_has_embd (take i ts)) @ te_embd_off t # map te_embd_off (filter te_has_embd (drop (Suc i) ts))"
    using assms(1,3) by (simp add: upd_conv_take_nth_drop)
  ultimately show ?thesis by blast
qed

lemma set_embd_wf:
  assumes "ext_wf be"
  shows "ext_wf (fst (ext_set_token_embd idx em be))"
proof -
  let ?n = "em_n_rows em * em_n_embd em" and ?t = "be_tokens be ! nat idx"
  note W = assms [unfolded ext_wf_def]
  show ?thesis
  proof (cases "ext_idx_ok be idx \<and> em_data em \<and> embd_fits be ?n")
    case False
    then have "ext_set_token_embd idx em be = (be, False)" by (simp only: set_token_embd_cases Let_def if_False)
    then show ?thesis using assms by simp
  next
    case True
    have i: "nat idx < length (be_tokens be)" using True by (simp add: ext_idx_nat)
    show ?thesis
    proof (cases "te_has_embd ?t")
      case has: True
      then have "embd_rows be \<noteq> []" using i by (auto simp: embd_rows_def filter_empty_conv)
      then have "be\<lparr>be_n_embd := ?n\<rparr> = be" using W True by (auto simp: embd_fits_def)
      then show ?thesis using assms True has by (simp add: set_token_embd_cases Let_def)
    next
      case no: False
      let ?be = "be\<lparr>be_n_embd := ?n, be_tokens := (be_tokens be)[nat idx := ?t\<lparr>te_has_embd := True, te_embd_off := be_embd_len be\<rparr>],
        be_embd_len := be_embd_len be + ?n\<rparr>"
      obtain A B where rows: "embd_rows be = A @ B" "embd_rows ?be = A @ be_embd_len be # B"
        using embd_rows_insert [OF i no, of "?t\<lparr>te_has_embd := True, te_embd_off := be_embd_len be\<rparr>"]
        by (auto simp: embd_rows_def)
      have n: "?n \<in> {be_n_embd_inp be, be_n_embd_inp_enc be}"
        using True W by (auto simp: embd_fits_def split: if_splits)
      then have n0: "?n > 0" using W by (metis empty_iff insertE)
      have len: "be_embd_len be = length (embd_rows be) * ?n"
        using True W by (cases "be_n_embd be = 0") (simp_all add: embd_fits_def)
      have same: "be_n_embd be = ?n" if "te_has_embd t" "t \<in> set (be_tokens be)" for t
      proof -
        have "embd_rows be \<noteq> []" using that by (auto simp: embd_rows_def filter_empty_conv)
        then show ?thesis using W True by (auto simp: embd_fits_def)
      qed
      have t: "token_wf ?be t" if t: "t \<in> set (be_tokens ?be)" for t
      proof -
        have "t \<in> insert (?t\<lparr>te_has_embd := True, te_embd_off := be_embd_len be\<rparr>) (set (be_tokens be))"
          using t set_update_subset_insert [of "be_tokens be"] by auto
        then consider "t = ?t\<lparr>te_has_embd := True, te_embd_off := be_embd_len be\<rparr>" | "t \<in> set (be_tokens be)" by blast
        then show ?thesis
        proof cases
          case 1
          have "token_wf be ?t" using W i by simp
          then show ?thesis unfolding 1 using len by (simp add: token_wf_def)
        next
          case 2
          have wf: "token_wf be t" using W 2 by blast
          have "\<exists>k. te_embd_off t = k * ?n" "te_embd_off t + ?n \<le> be_embd_len be + ?n" if "te_has_embd t"
            using wf that same [OF that 2] by (auto simp: token_wf_def)
          with wf show ?thesis by (simp add: token_wf_def)
        qed
      qed
      have "distinct (A @ be_embd_len be # B)" using W rows(1) embd_rows_below [OF assms] by fastforce
      moreover have "be_embd_len ?be = length (A @ be_embd_len be # B) * ?n" using len rows(1) by simp
      ultimately have "ext_wf ?be" unfolding ext_wf_def rows(2) using W n n0 t by simp
      then show ?thesis using True no by (simp add: set_token_embd_cases Let_def)
    qed
  qed
qed

lemma ext_step_wf: "ext_wf be \<Longrightarrow> ext_wf (ext_step op be)"
proof (cases op)
  case X_clear
  then show "ext_wf be \<Longrightarrow> ext_wf (ext_step op be)" by (auto simp: ext_clear_def ext_wf_def embd_rows_def)
next
  case (X_add_token s i)
  then show "ext_wf be \<Longrightarrow> ext_wf (ext_step op be)"
    using add_token_wf set_token_id_wf by (simp add: batch_ext_add_token_def case_prod_beta Let_def)
next
  case (X_add_embd s em)
  then show "ext_wf be \<Longrightarrow> ext_wf (ext_step op be)"
    using add_token_wf set_embd_wf by (simp add: batch_ext_add_embd_def case_prod_beta Let_def)
qed (simp_all add: add_seq_wf set_pos_wf set_embd_wf set_output_wf set_order_wf)

text \<open>A batch built through the interface is well formed. After any sequence of calls, whatever their
  arguments, the batch holds at most its capacity of entries; every entry belongs to at least one valid
  sequence, has a token id of the vocabulary or none, and its embedding row lies in the embedding array,
  shared with no other entry.\<close>

theorem batch_ext_wf:
  assumes "be_n_embd_inp be > 0" "be_n_embd_inp_enc be > 0"
  shows "ext_wf (fold ext_step ops (ext_clear be))"
proof -
  have "ext_wf (ext_clear be)" using assms by (simp add: ext_wf_def ext_clear_def embd_rows_def)
  then show ?thesis by (induction ops rule: rev_induct) (simp_all add: ext_step_wf)
qed

definition be0 :: batch_ext where
  "be0 = \<lparr>be_n_tokens_max = 2, be_n_embd_inp = 8, be_n_embd_inp_enc = 4, be_n_seq_max = 2, be_mem = None, be_n_vocab = 10,
     be_n_pos = 1, be_n_embd = 0, be_tokens = [], be_embd_len = 0\<rparr>"

theorem batch_ext_wf_witness:
  "ext_wf (fold ext_step [X_add_token 0 3, X_add_embd 1 \<lparr>em_data = True, em_n_rows = 2, em_n_embd = 4\<rparr>, X_add_token 1 3] (ext_clear be0)) \<and>
   length (be_tokens (fold ext_step [X_add_token 0 3, X_add_embd 1 \<lparr>em_data = True, em_n_rows = 2, em_n_embd = 4\<rparr>, X_add_token 1 3] (ext_clear be0))) = 2"
proof
  show "ext_wf (fold ext_step [X_add_token 0 3, X_add_embd 1 \<lparr>em_data = True, em_n_rows = 2, em_n_embd = 4\<rparr>, X_add_token 1 3] (ext_clear be0))"
    by (rule batch_ext_wf) (simp_all add: be0_def)
qed code_simp

end
