(* ===== verification/Batch_Alloc.thy ===== *)
theory Batch_Alloc
  imports Batch Batch_Ext
begin

section \<open>The batch allocator (src/llama-batch.cpp)\<close>

text \<open>
  \<open>llama_batch_allocr::init\<close> checks a batch and prepares the arrays the splitters work on; \<open>split_simple\<close>,
  \<open>split_equal\<close> and \<open>split_seq\<close> cut the next ubatch from it. A bitset of sequence ids is a set. Embedding rows and \<open>decision_order\<close> are copied along without being read, and are left out; so is logging.
\<close>

subsection \<open>Errors\<close>

datatype batch_error =
    E_no_tokens | E_n_seq_max | E_empty_entry | E_both_mixed | E_mixed | E_token | E_seq_id
  | E_out_of_range | E_mrope_pos | E_start_pos | E_pos_gap | E_diverged | E_incompatible | E_decreasing

subsection \<open>State\<close>

record batch_allocr =
  ba_n_pos :: nat
  ba_allow_mixed :: bool
  ba_n_seq_max :: int
  ba_n_outputs :: nat
  ba_token :: "int list option"
  ba_is_embd :: "bool list"
  ba_pos :: "int list"
  ba_seq_id :: "int list list"
  ba_output :: "bool list"
  ba_decision_order :: "int list"
  ba_seq_id_unq :: "int list"
  ba_seq_idx :: "int list"
  ba_has_cpl :: bool
  ba_seq_pos :: "int \<Rightarrow> int set"
  ba_seq_cpl :: "(int \<times> int) list"
  ba_seq_set :: "int set list"
  ba_seq_set_map :: "int set \<Rightarrow> nat list"
  ba_out_ids :: "nat list"
  ba_n_used :: nat
  ba_used :: "bool list"
  ba_split_pos_grid :: nat

definition get_n_tokens :: "batch_allocr \<Rightarrow> nat" where
  "get_n_tokens a = length (ba_seq_id a)"

definition batch_clear :: "batch_allocr \<Rightarrow> batch_allocr" where
  "batch_clear a = a\<lparr>ba_n_outputs := 0, ba_token := None, ba_is_embd := [], ba_pos := [], ba_seq_id := [],
     ba_output := [], ba_decision_order := [], ba_seq_id_unq := [], ba_seq_idx := replicate (nat LLAMA_MAX_SEQ) (-1),
     ba_seq_pos := (\<lambda>_. {}), ba_seq_cpl := [], ba_seq_set := [], ba_seq_set_map := (\<lambda>_. []), ba_split_pos_grid := 0\<rparr>"

definition split_reset :: "batch_allocr \<Rightarrow> batch_allocr" where
  "split_reset a = a\<lparr>ba_out_ids := [], ba_n_used := 0, ba_used := replicate (get_n_tokens a) False\<rparr>"

definition set_split_pos_grid :: "nat \<Rightarrow> batch_allocr \<Rightarrow> batch_allocr" where
  "set_split_pos_grid g a = a\<lparr>ba_split_pos_grid := g\<rparr>"

subsection \<open>Checking a batch\<close>

definition is_tok :: "batch_token \<Rightarrow> bool" where
  "is_tok t = (te_id t \<noteq> LLAMA_TOKEN_NULL)"

definition n_tok_only :: "batch_token list \<Rightarrow> nat" where
  "n_tok_only ts = length (filter (\<lambda>t. is_tok t \<and> \<not> te_has_embd t) ts)"

definition n_embd_only :: "batch_token list \<Rightarrow> nat" where
  "n_embd_only ts = length (filter (\<lambda>t. te_has_embd t \<and> \<not> is_tok t) ts)"

definition n_both :: "batch_token list \<Rightarrow> nat" where
  "n_both ts = length (filter (\<lambda>t. is_tok t \<and> te_has_embd t) ts)"

text \<open>Section \<open>j\<close> of the position of an entry: \<open>[p, p, p, 0]\<close> for a token.\<close>

definition entry_pos :: "batch_token \<Rightarrow> nat \<Rightarrow> int" where
  "entry_pos t j = (if te_id t \<noteq> LLAMA_TOKEN_NULL then (if j < 3 then te_pos t ! 0 else 0) else te_pos t ! j)"

definition flat_pos :: "nat \<Rightarrow> batch_token list \<Rightarrow> int list" where
  "flat_pos n_pos ts = concat (map (\<lambda>j. map (\<lambda>t. entry_pos t j) ts) [0..<n_pos])"

definition token_vec :: "bool \<Rightarrow> batch_token list \<Rightarrow> int list" where
  "token_vec mixed ts = map (\<lambda>t. if mixed \<and> te_has_embd t then 0 else te_id t) ts"

definition decision_vec :: "batch_token list \<Rightarrow> int list" where
  "decision_vec ts = (if \<exists>t \<in> set ts. te_decision_order t \<noteq> 0 then map te_decision_order ts else [])"

definition bad_token :: "bool \<Rightarrow> int \<Rightarrow> batch_token \<Rightarrow> bool" where
  "bad_token mixed n_vocab t = (\<not> (mixed \<and> te_has_embd t) \<and> (te_id t < 0 \<or> te_id t \<ge> n_vocab))"

text \<open>The positions of a sequence in the batch, the coupled pairs, and where a sequence set occurs.\<close>

definition seq_positions :: "int list list \<Rightarrow> int list \<Rightarrow> int \<Rightarrow> int set" where
  "seq_positions seqs pos s = set (map ((!) pos) (filter (\<lambda>i. s \<in> set (seqs ! i)) [0..<length seqs]))"

definition seq_couples :: "int list list \<Rightarrow> (int \<times> int) list" where
  "seq_couples seqs = concat (map (\<lambda>ss. map (\<lambda>s. (s, hd ss)) (tl ss)) seqs)"

definition set_map :: "int list list \<Rightarrow> int set \<Rightarrow> nat list" where
  "set_map seqs S = filter (\<lambda>i. set (seqs ! i) = S) [0..<length seqs]"

definition unique_ids :: "int \<Rightarrow> int list list \<Rightarrow> int list" where
  "unique_ids n_seq_max seqs = filter (\<lambda>s. \<exists>ss \<in> set seqs. s \<in> set ss) [0..n_seq_max - 1]"

definition index_ids :: "int list \<Rightarrow> int list" where
  "index_ids unq = map (\<lambda>s. if s \<in> set unq then int (length (takeWhile (\<lambda>t. t \<noteq> s) unq)) else -1) seq_ids"

definition set_min :: "int set \<Rightarrow> int" where
  "set_min S = (if S = {} then -1 else Min S)"

definition set_max :: "int set \<Rightarrow> int" where
  "set_max S = (if S = {} then -1 else Max S)"

definition alloc_seq_pos_min :: "batch_allocr \<Rightarrow> int \<Rightarrow> int" where
  "alloc_seq_pos_min a s = set_min (ba_seq_pos a s)"

definition alloc_seq_pos_max :: "batch_allocr \<Rightarrow> int \<Rightarrow> int" where
  "alloc_seq_pos_max a s = set_max (ba_seq_pos a s)"

definition mem_max :: "((int \<Rightarrow> int) \<times> (int \<Rightarrow> int)) option \<Rightarrow> int \<Rightarrow> int" where
  "mem_max mem s = (case mem of None \<Rightarrow> -1 | Some (_, mx) \<Rightarrow> mx s)"

text \<open>Whether the first entry of a sequence is an embedding (M-RoPE).\<close>

definition first_embd :: "bool \<Rightarrow> bool \<Rightarrow> batch_token list \<Rightarrow> int \<Rightarrow> bool" where
  "first_embd has_token mixed ts s = (if mixed
     then (case find (\<lambda>t. s \<in> set (te_seq_ids t)) ts of None \<Rightarrow> \<not> has_token | Some t \<Rightarrow> te_has_embd t)
     else \<not> has_token)"

definition pos_error_mrope :: "(int \<Rightarrow> bool) \<Rightarrow> ((int \<Rightarrow> int) \<times> (int \<Rightarrow> int)) option \<Rightarrow> (int \<Rightarrow> int set) \<Rightarrow> int \<Rightarrow> batch_error option" where
  "pos_error_mrope first mem sp s = (if sp s = {} then None
     else let p0 = mem_max mem s in
       if p0 \<ge> 0 \<and> (if \<not> first s then p0 \<ge> set_min (sp s) else p0 > set_min (sp s)) then Some E_mrope_pos else None)"

definition pos_error_plain :: "((int \<Rightarrow> int) \<times> (int \<Rightarrow> int)) option \<Rightarrow> (int \<Rightarrow> int set) \<Rightarrow> int \<Rightarrow> batch_error option" where
  "pos_error_plain mem sp s = (if sp s = {} then None
     else let p0 = mem_max mem s in
       if p0 \<ge> 0 \<and> set_min (sp s) \<noteq> p0 + 1 then Some E_start_pos
       else if set_max (sp s) - set_min (sp s) + 1 > int (card (sp s)) then Some E_pos_gap else None)"

definition diverged :: "((int \<Rightarrow> int) \<times> (int \<Rightarrow> int)) option \<Rightarrow> (int \<times> int) list \<Rightarrow> bool" where
  "diverged mem cpl = (case mem of None \<Rightarrow> False
     | Some (mn, mx) \<Rightarrow> \<exists>(s0, s1) \<in> set cpl. mn s0 \<noteq> mn s1 \<or> mx s0 \<noteq> mx s1)"

text \<open>The last loop: per sequence the sets of its tokens must keep a common id, and positions must not
  decrease.\<close>

fun set_errors :: "int list list \<Rightarrow> int list \<Rightarrow> (nat \<times> int) list \<Rightarrow> (int \<Rightarrow> int set) \<times> (int \<Rightarrow> int) \<Rightarrow> batch_error option" where
  "set_errors seqs pos [] st = None"
| "set_errors seqs pos ((i, s) # todo) (cur, cur_pos) = (
     let cur = cur(s := cur s \<inter> set (seqs ! i)) in
     if cur s = {} then Some E_incompatible
     else if pos ! i < cur_pos s then Some E_decreasing
     else set_errors seqs pos todo (cur, cur_pos(s := pos ! i)))"

definition token_seqs :: "int list list \<Rightarrow> (nat \<times> int) list" where
  "token_seqs seqs = concat (map (\<lambda>i. map (\<lambda>s. (i, s)) (seqs ! i)) [0..<length seqs])"

fun first_error :: "batch_error option list \<Rightarrow> batch_error option" where
  "first_error [] = None"
| "first_error (Some e # es) = Some e"
| "first_error (None # es) = first_error es"

definition err_if :: "bool \<Rightarrow> batch_error \<Rightarrow> batch_error option" where
  "err_if b e = (if b then Some e else None)"

text \<open>The checks, in the order of the code. The first one is an assertion there; after any other the call
  returns false and its caller drops the batch. \<open>E_out_of_range\<close> is not a check: for an entry without
  a sequence the loop that determines the coupled sequences reads \<open>seq_id[i][0]\<close> past the ids of the entry.\<close>

definition batch_error_of :: "nat \<Rightarrow> bool \<Rightarrow> batch_ext \<Rightarrow> batch_error option" where
  "batch_error_of n_pos allow_mixed be = (
     let ts = be_tokens be; n = length ts;
       mixed = (n_tok_only ts > 0 \<and> n_embd_only ts > 0);
       has_token = (n_tok_only ts > 0 \<or> n_both ts > 0);
       seqs = map te_seq_ids ts; pos = flat_pos n_pos ts; sp = seq_positions seqs pos;
       ids = [0..be_n_seq_max be - 1]
     in first_error
       ([err_if (n = 0) E_no_tokens,
         err_if (be_n_seq_max be < 0 \<or> be_n_seq_max be > LLAMA_MAX_SEQ) E_n_seq_max,
         err_if (\<exists>t \<in> set ts. \<not> is_tok t \<and> \<not> te_has_embd t) E_empty_entry,
         err_if (n_both ts > 0 \<and> n_both ts \<noteq> n) E_both_mixed,
         err_if (mixed \<and> \<not> allow_mixed) E_mixed,
         err_if (has_token \<and> (\<exists>t \<in> set ts. bad_token mixed (be_n_vocab be) t)) E_token,
         err_if (\<exists>ss \<in> set seqs. \<exists>s \<in> set ss. s < 0 \<or> s \<ge> be_n_seq_max be) E_seq_id,
         err_if ([] \<in> set seqs) E_out_of_range] @
        (if n_pos > 1 then map (pos_error_mrope (first_embd has_token mixed ts) (be_mem be) sp) ids
         else map (pos_error_plain (be_mem be) sp) ids) @
        [err_if (diverged (be_mem be) (seq_couples seqs)) E_diverged,
         set_errors seqs pos (token_seqs seqs) (\<lambda>_. set seq_ids, \<lambda>_. -1)]))"

definition batch_init :: "batch_ext \<Rightarrow> bool \<Rightarrow> batch_allocr \<Rightarrow> batch_error + batch_allocr" where
  "batch_init be output_all a = (case batch_error_of (ba_n_pos a) (ba_allow_mixed a) be of Some e \<Rightarrow> Inl e
     | None \<Rightarrow>
       let a = batch_clear a; ts = be_tokens be;
         mixed = (n_tok_only ts > 0 \<and> n_embd_only ts > 0);
         has_token = (n_tok_only ts > 0 \<or> n_both ts > 0);
         seqs = map te_seq_ids ts; pos = flat_pos (ba_n_pos a) ts; unq = unique_ids (be_n_seq_max be) seqs;
         output = (if output_all \<and> (\<exists>t \<in> set ts. \<not> te_output t) then map (\<lambda>_. True) ts else map te_output ts)
       in Inr (split_reset (a\<lparr>ba_n_seq_max := be_n_seq_max be, ba_n_outputs := length (filter id output),
         ba_token := (if has_token then Some (token_vec mixed ts) else None),
         ba_is_embd := (if mixed then map te_has_embd ts else []), ba_pos := pos, ba_seq_id := seqs, ba_output := output,
         ba_decision_order := decision_vec ts,
         ba_seq_id_unq := unq, ba_seq_idx := index_ids unq, ba_has_cpl := (seq_couples seqs \<noteq> []),
         ba_seq_pos := seq_positions seqs pos, ba_seq_cpl := seq_couples seqs, ba_seq_set := map set seqs,
         ba_seq_set_map := set_map seqs\<rparr>)))"

subsection \<open>Building a ubatch\<close>

text \<open>\<open>None\<close>: the assertion \<open>n_tokens % n_seqs == 0\<close> fails.\<close>

definition ubatch_add :: "nat list \<Rightarrow> nat \<Rightarrow> bool \<Rightarrow> batch_allocr \<Rightarrow> (batch_allocr \<times> llama_ubatch) option" where
  "ubatch_add idxs n_seqs equal_seqs a = do {
     let n = length idxs;
     assert_that (n_seqs \<noteq> 0 \<and> n mod n_seqs = 0);
     let mixed_batch = (ba_is_embd a \<noteq> []);
     let n_embd_rows = (if mixed_batch then length (filter (\<lambda>i. ba_is_embd a ! i) idxs) else 0);
     let mixed = (mixed_batch \<and> n_embd_rows > 0 \<and> n_embd_rows < n);
     let use_token = (ba_token a \<noteq> None \<and> \<not> (mixed_batch \<and> n_embd_rows = n));
     let unq = unique_ids (ba_n_seq_max a) (map ((!) (ba_seq_id a)) idxs);
     Some (a\<lparr>ba_out_ids := ba_out_ids a @ filter (\<lambda>i. ba_output a ! i) idxs\<rparr>,
       \<lparr>ub_b_equal_seqs = equal_seqs, ub_n_tokens = n, ub_n_seq_tokens = n div n_seqs, ub_n_seqs = n_seqs,
        ub_n_seqs_unq = length unq, ub_n_pos = ba_n_pos a,
        ub_token = (if use_token then Some (map ((!) (the (ba_token a))) idxs) else None),
        ub_pos = concat (map (\<lambda>j. map (\<lambda>i. ba_pos a ! (j * get_n_tokens a + i)) idxs) [0..<ba_n_pos a]),
        ub_seq_id = map ((!) (ba_seq_id a)) idxs, ub_seq_id_unq = unq, ub_seq_idx = index_ids unq,
        ub_output = map ((!) (ba_output a)) idxs,
        ub_type = (if mixed then Some (map ((!) (ba_is_embd a)) idxs) else None),
        ub_decision_order = (if ba_decision_order a = [] then None else Some (map ((!) (ba_decision_order a)) idxs)), ub_batch_idxs = idxs\<rparr>) }"

definition take_token :: "nat \<Rightarrow> batch_allocr \<Rightarrow> batch_allocr" where
  "take_token idx a = a\<lparr>ba_used := (ba_used a)[idx := True], ba_n_used := ba_n_used a + 1\<rparr>"

definition put_back :: "nat \<Rightarrow> batch_allocr \<Rightarrow> batch_allocr" where
  "put_back idx a = a\<lparr>ba_used := (ba_used a)[idx := False], ba_n_used := ba_n_used a - 1\<rparr>"

definition split_on_grid :: "batch_allocr \<Rightarrow> nat \<Rightarrow> bool" where
  "split_on_grid a idx = (ba_split_pos_grid a > 0 \<and> ba_pos a ! idx > 0 \<and> ba_pos a ! idx mod int (ba_split_pos_grid a) = 0)"

definition first_unused :: "batch_allocr \<Rightarrow> nat" where
  "first_unused a = length (takeWhile id (ba_used a))"

text \<open>A split returns the ubatch, or \<open>None\<close> for the empty ubatch \<open>{}\<close>.\<close>

definition add_some :: "nat list \<Rightarrow> nat \<Rightarrow> bool \<Rightarrow> batch_allocr \<Rightarrow> (batch_allocr \<times> llama_ubatch option) option" where
  "add_some idxs n_seqs equal_seqs a = map_option (\<lambda>(a, ub). (a, Some ub)) (ubatch_add idxs n_seqs equal_seqs a)"

subsection \<open>The splits\<close>

function simple_loop :: "nat \<Rightarrow> nat \<Rightarrow> nat list \<Rightarrow> batch_allocr \<Rightarrow> batch_allocr \<times> nat list" where
  "simple_loop n_ubatch cur idxs a = (let idxs = idxs @ [cur]; a = take_token cur a; cur = cur + 1 in
     if cur \<ge> length (ba_used a) \<or> length idxs \<ge> n_ubatch \<or> split_on_grid a cur then (a, idxs)
     else simple_loop n_ubatch cur idxs a)"
  by auto
termination by (relation "measure (\<lambda>(_, cur, _, a). length (ba_used a) - cur)") (auto simp: take_token_def)

declare simple_loop.simps [simp del]

definition split_simple :: "nat \<Rightarrow> batch_allocr \<Rightarrow> (batch_allocr \<times> llama_ubatch option) option" where
  "split_simple n_ubatch a = (let cur = first_unused a in
     if cur \<ge> length (ba_used a) then Some (a, None)
     else let (a, idxs) = simple_loop n_ubatch cur [] a in add_some idxs (length idxs) False a)"

text \<open>The next token whose sequence set lies in the current one.\<close>

definition next_in_set :: "int set \<Rightarrow> nat \<Rightarrow> batch_allocr \<Rightarrow> nat option" where
  "next_in_set S cur a = find (\<lambda>j. \<not> ba_used a ! j \<and> S \<inter> ba_seq_set a ! j = ba_seq_set a ! j) [cur + 1..<get_n_tokens a]"

lemma find_SomeD: "find P xs = Some x \<Longrightarrow> P x \<and> x \<in> set xs"
  by (auto simp: find_Some_iff)

function seq_loop :: "nat \<Rightarrow> int set \<Rightarrow> nat \<Rightarrow> nat list \<Rightarrow> batch_allocr \<Rightarrow> batch_allocr \<times> nat list" where
  "seq_loop n_ubatch S cur idxs a = (let idxs = idxs @ [cur]; a = take_token cur a in
     if length idxs \<ge> n_ubatch then (a, idxs)
     else case next_in_set S cur a of None \<Rightarrow> (a, idxs)
       | Some cur' \<Rightarrow> seq_loop n_ubatch (ba_seq_set a ! cur') cur' idxs a)"
  by auto
termination
  by (relation "measure (\<lambda>(_, _, cur, _, a). get_n_tokens a - cur)")
     (auto simp: take_token_def get_n_tokens_def next_in_set_def dest!: find_SomeD)

declare seq_loop.simps [simp del]

definition split_seq :: "nat \<Rightarrow> batch_allocr \<Rightarrow> (batch_allocr \<times> llama_ubatch option) option" where
  "split_seq n_ubatch a = (let cur = first_unused a in
     if cur \<ge> length (ba_used a) then Some (a, None)
     else let (a, idxs) = seq_loop n_ubatch (ba_seq_set a ! cur) cur [] a in add_some idxs 1 True a)"
text \<open>The sequence sets of the next equal-length ubatch: pairwise disjoint, with consecutive first ids in the
  sequential mode, compatible with the first one when the caller gives a filter.\<close>

fun pick_sets ::
  "batch_allocr \<Rightarrow> bool \<Rightarrow> (int \<Rightarrow> int \<Rightarrow> bool) option \<Rightarrow> nat \<Rightarrow> nat list \<Rightarrow> int set list \<Rightarrow> int \<Rightarrow> int \<Rightarrow> int set list" where
  "pick_sets a sequential filt n_ubatch [] sets last_id first_id = sets"
| "pick_sets a sequential filt n_ubatch (i # todo) sets last_id first_id = (
     if ba_used a ! i then pick_sets a sequential filt n_ubatch todo sets last_id first_id
     else
       let id0 = ba_seq_id a ! i ! 0;
         add = ((\<forall>S \<in> set sets. S \<inter> ba_seq_set a ! i = {}) \<and> (sequential \<longrightarrow> sets = [] \<or> id0 = last_id + 1) \<and>
           (case filt of None \<Rightarrow> True | Some f \<Rightarrow> sets = [] \<or> (\<forall>s \<in> set (ba_seq_id a ! i). f first_id s)))
       in if add then
            let first_id = (if sets = [] then id0 else first_id); sets = sets @ [ba_seq_set a ! i] in
            if length sets > n_ubatch then sets else pick_sets a sequential filt n_ubatch todo sets id0 first_id
          else pick_sets a sequential filt n_ubatch todo sets last_id first_id)"

text \<open>One token of every set at a time; \<open>ms\<close> are the index lists of the sets, \<open>cur\<close> the next entry of each,
  \<open>idxs\<close> what has been taken. (\<open>ms = []\<close> has returned before.)\<close>

function expand ::
  "nat \<Rightarrow> nat list list \<Rightarrow> nat list \<Rightarrow> nat list list \<Rightarrow> batch_allocr \<Rightarrow> batch_allocr \<times> nat list \<times> nat list list" where
  "expand n_ubatch ms cur idxs a = (
     if ms = [] \<or> \<not> (\<forall>s < length ms. cur ! s < length (ms ! s)) then (a, cur, idxs)
     else
       let now = map (\<lambda>s. ms ! s ! (cur ! s)) [0..<length ms];
         idxs = map (\<lambda>s. idxs ! s @ [now ! s]) [0..<length ms];
         a = fold take_token now a;
         cur = map (\<lambda>s. cur ! s + 1) [0..<length ms]
       in if (length (idxs ! 0) + 1) * length ms > n_ubatch then (a, cur, idxs)
          else if ba_split_pos_grid a > 0 \<and> (\<exists>s < length ms. cur ! s < length (ms ! s) \<and> split_on_grid a (ms ! s ! (cur ! s)))
          then (a, cur, idxs)
          else expand n_ubatch ms cur idxs a)"
  by auto
termination by (relation "measure (\<lambda>(_, ms, cur, _, _). length (ms ! 0) - cur ! 0)") (auto simp: Let_def)

declare expand.simps [simp del]

text \<open>The first set alone is completed, or cut back so that \<open>n_keep_tail\<close> tokens stay.\<close>

fun cut_back :: "nat \<Rightarrow> nat list \<Rightarrow> batch_allocr \<Rightarrow> batch_allocr \<times> nat list" where
  "cut_back 0 idxs a = (a, idxs)"
| "cut_back (Suc k) idxs a = cut_back k (butlast idxs) (put_back (last idxs) a)"

definition resolve_first :: "nat \<Rightarrow> nat \<Rightarrow> nat list \<Rightarrow> nat \<Rightarrow> nat list \<Rightarrow> batch_allocr \<Rightarrow> batch_allocr \<times> nat list" where
  "resolve_first n_ubatch n_keep_tail m cur idxs a = (
     if length idxs + (length m - cur) \<le> n_ubatch
     then (fold take_token (drop cur m) a, idxs @ drop cur m)
     else cut_back (n_keep_tail - (length m - cur)) idxs a)"

text \<open>How many of the leading sets finish in this ubatch or leave at least \<open>n_keep_tail\<close> tokens.\<close>

definition n_kept :: "nat \<Rightarrow> nat list list \<Rightarrow> nat list \<Rightarrow> nat" where
  "n_kept n_keep_tail ms cur = length (takeWhile (\<lambda>s. length (ms ! s) - cur ! s = 0 \<or> length (ms ! s) - cur ! s \<ge> n_keep_tail) [0..<length ms])"

definition keep_tail ::
  "nat \<Rightarrow> nat \<Rightarrow> nat list list \<Rightarrow> nat list \<Rightarrow> nat list list \<Rightarrow> batch_allocr \<Rightarrow> (batch_allocr \<times> nat list list) option" where
  "keep_tail n_ubatch n_keep_tail ms cur idxs a = (if n_keep_tail = 0 then Some (a, idxs)
     else do {
       assert_that (n_ubatch > n_keep_tail);
       let k = n_kept n_keep_tail ms cur;
       let (a, idxs) = (if k = 0
         then let (a, l) = resolve_first n_ubatch n_keep_tail (ms ! 0) (cur ! 0) (idxs ! 0) a in (a, idxs[0 := l])
         else (a, idxs));
       let k = (if k = 0 then 1 else k);
       Some (fold put_back (concat (drop k idxs)) a, take k idxs) })"

definition split_equal ::
  "nat \<Rightarrow> bool \<Rightarrow> nat \<Rightarrow> (int \<Rightarrow> int \<Rightarrow> bool) option \<Rightarrow> batch_allocr \<Rightarrow> (batch_allocr \<times> llama_ubatch option) option" where
  "split_equal n_ubatch sequential n_keep_tail filt a = (
     if sequential \<and> ba_has_cpl a then Some (a, None)
     else
       let sets = pick_sets a sequential filt n_ubatch [0..<get_n_tokens a] [] (-1) (-1) in
       if sets = [] then Some (a, None)
       else do {
         let ms = map (ba_seq_set_map a) sets;
         let cur = map (\<lambda>m. length (takeWhile (\<lambda>i. ba_used a ! i) m)) ms;
         let (a, cur, idxs) = expand n_ubatch ms cur (map (\<lambda>_. []) ms) a;
         (a, idxs) \<leftarrow> keep_tail n_ubatch n_keep_tail ms cur idxs a;
         add_some (concat idxs) (length idxs) True a })"

subsection \<open>The caller: cutting a whole batch for the KV cache\<close>

text \<open>The loop of \<open>llama_kv_cache::init_batch\<close> has no bound of its own.\<close>

partial_function (option) split_all ::
  "(batch_allocr \<Rightarrow> (batch_allocr \<times> llama_ubatch option) option) \<Rightarrow> batch_allocr \<Rightarrow> llama_ubatch list \<Rightarrow> (batch_allocr \<times> llama_ubatch list) option" where
  "split_all split a ubs = (case split a of None \<Rightarrow> None
     | Some (a, None) \<Rightarrow> Some (a, ubs)
     | Some (a, Some ub) \<Rightarrow> split_all split a (ubs @ [ub]))"

declare split_all.simps [code]

end
