(* ===== verification/Batch_Check.thy ===== *)
theory Batch_Check
  imports Batch_Alloc
begin

section \<open>What the checks of the batch allocator accept\<close>

text \<open>
  The loops of \<open>llama_batch_allocr::init\<close> against a declarative statement of what a well-formed batch is,
  and inputs the loops let through although the comments beside them, or the code after them, say
  otherwise.
\<close>

lemma first_error_None: "first_error es = None \<longleftrightarrow> (\<forall>e \<in> set es. e = None)"
  by (induction es rule: first_error.induct) auto

lemma err_if_None [simp]: "err_if b e = None \<longleftrightarrow> \<not> b"
  by (simp add: err_if_def)

text \<open>The positions of a sequence, in the order of its tokens.\<close>

definition seq_track :: "int list list \<Rightarrow> int list \<Rightarrow> int \<Rightarrow> int list" where
  "seq_track seqs pos s = map ((!) pos) (filter (\<lambda>i. s \<in> set (seqs ! i)) [0..<length seqs])"

lemma set_errors_None:
  assumes "\<forall>(i, s) \<in> set todo. s \<in> set (seqs ! i) \<and> s \<in> cur s"
  shows "set_errors seqs pos todo (cur, cp) = None \<longleftrightarrow>
    (\<forall>s. sorted (cp s # map (\<lambda>e. pos ! fst e) (filter (\<lambda>e. snd e = s) todo)))"
  using assms
proof (induction todo arbitrary: cur cp)
  case (Cons e todo)
  obtain i s where e: "e = (i, s)" by fastforce
  have s: "s \<in> set (seqs ! i)" "s \<in> cur s" using Cons.prems by (auto simp: e)
  let ?cur = "cur(s := cur s \<inter> set (seqs ! i))"
  have "\<forall>(j, t) \<in> set todo. t \<in> set (seqs ! j) \<and> t \<in> ?cur t" using Cons.prems s by auto
  note IH = Cons.IH [OF this, of "cp(s := pos ! i)"]
  have ne: "?cur s \<noteq> {}" using s by auto
  let ?l = "\<lambda>t todo. map (\<lambda>e. pos ! fst e) (filter (\<lambda>e. snd e = t) todo)"
  have "(\<forall>t. sorted (cp t # ?l t (e # todo))) \<longleftrightarrow> cp s \<le> pos ! i \<and> (\<forall>t. sorted ((cp(s := pos ! i)) t # ?l t todo))"
  proof
    assume L: "\<forall>t. sorted (cp t # ?l t (e # todo))"
    have "sorted (cp s # pos ! i # ?l s todo)" using L [rule_format, of s] by (simp add: e)
    moreover have "sorted (cp t # ?l t todo)" if "t \<noteq> s" for t using L [rule_format, of t] that by (simp add: e)
    ultimately show "cp s \<le> pos ! i \<and> (\<forall>t. sorted ((cp(s := pos ! i)) t # ?l t todo))" by auto
  next
    assume R: "cp s \<le> pos ! i \<and> (\<forall>t. sorted ((cp(s := pos ! i)) t # ?l t todo))"
    show "\<forall>t. sorted (cp t # ?l t (e # todo))"
    proof
      fix t
      have "sorted ((cp(s := pos ! i)) t # ?l t todo)" using R by blast
      then show "sorted (cp t # ?l t (e # todo))" using R by (cases "t = s") (auto simp: e)
    qed
  qed
  moreover have "set_errors seqs pos (e # todo) (cur, cp) = None \<longleftrightarrow>
      cp s \<le> pos ! i \<and> set_errors seqs pos todo (?cur, cp(s := pos ! i)) = None"
    using ne by (simp add: e Let_def not_less)
  ultimately show ?case using IH by (simp only:)
qed simp

lemma token_seqs_mem: "(i, s) \<in> set (token_seqs seqs) \<longleftrightarrow> i < length seqs \<and> s \<in> set (seqs ! i)"
  by (auto simp: token_seqs_def)

lemma sorted_replicates:
  fixes f :: "'a \<Rightarrow> int"
  shows "sorted (x # concat (map (\<lambda>i. replicate (c i) (f i)) is)) \<longleftrightarrow> sorted (x # map f (filter (\<lambda>i. 0 < c i) is))"
proof (induction "is" arbitrary: x)
  case (Cons i "is")
  have r: "sorted (y # replicate m y @ ys) \<longleftrightarrow> sorted (y # ys)" for y :: int and m ys by (induction m) auto
  show ?case
  proof (cases "c i")
    case (Suc m)
    have "sorted (x # concat (map (\<lambda>i. replicate (c i) (f i)) (i # is))) \<longleftrightarrow>
        x \<le> f i \<and> sorted (f i # replicate m (f i) @ concat (map (\<lambda>i. replicate (c i) (f i)) is))"
      by (simp add: Suc) (metis (no_types, lifting) append.assoc order_trans)
    also have "\<dots> \<longleftrightarrow> x \<le> f i \<and> sorted (f i # map f (filter (\<lambda>i. 0 < c i) is))" by (simp only: r Cons.IH)
    finally show ?thesis using Suc by auto
  qed (use Cons.IH in simp)
qed simp

lemma token_seqs_track:
  "map (\<lambda>e. pos ! fst e) (filter (\<lambda>e. snd e = s) (token_seqs seqs)) =
    concat (map (\<lambda>i. replicate (length (filter (\<lambda>t. t = s) (seqs ! i))) (pos ! i)) [0..<length seqs])"
proof -
  have one: "map (\<lambda>e. pos ! fst e) (filter (\<lambda>e. snd e = s) (map (\<lambda>t. (i, t)) ss)) =
      replicate (length (filter (\<lambda>t. t = s) ss)) (pos ! i)" for i ss
    by (induction ss) auto
  have "map (\<lambda>e. pos ! fst e) (filter (\<lambda>e. snd e = s) (concat (map (\<lambda>i. map (\<lambda>t. (i, t)) (seqs ! i)) is))) =
      concat (map (\<lambda>i. replicate (length (filter (\<lambda>t. t = s) (seqs ! i))) (pos ! i)) is)" for "is"
    by (induction "is") (simp_all add: one)
  then show ?thesis by (simp add: token_seqs_def)
qed

lemma set_errors_sorted:
  assumes "\<forall>ss \<in> set seqs. set ss \<subseteq> set seq_ids"
  shows "set_errors seqs pos (token_seqs seqs) (\<lambda>_. set seq_ids, \<lambda>_. -1) = None \<longleftrightarrow> (\<forall>s. sorted (-1 # seq_track seqs pos s))"
proof -
  have "\<forall>(i, s) \<in> set (token_seqs seqs). s \<in> set (seqs ! i) \<and> s \<in> set seq_ids"
    using assms by (fastforce simp: token_seqs_mem)
  moreover have "sorted (-1 # map (\<lambda>e. pos ! fst e) (filter (\<lambda>e. snd e = s) (token_seqs seqs))) \<longleftrightarrow> sorted (-1 # seq_track seqs pos s)" for s
  proof -
    have "0 < length (filter (\<lambda>t. t = s) ss) \<longleftrightarrow> s \<in> set ss" for ss :: "int list" by (simp add: filter_empty_conv)
    then show ?thesis unfolding token_seqs_track sorted_replicates seq_track_def by simp
  qed
  ultimately show ?thesis by (simp add: set_errors_None)
qed

lemma interval_card:
  fixes S :: "int set"
  assumes "finite S" "S \<noteq> {}"
  shows "\<not> Max S - Min S + 1 > int (card S) \<longleftrightarrow> S = {Min S..Max S}"
proof
  have sub: "S \<subseteq> {Min S..Max S}" using assms by auto
  assume "\<not> Max S - Min S + 1 > int (card S)"
  then have "card {Min S..Max S} \<le> card S" by simp
  with sub show "S = {Min S..Max S}" by (rule card_seteq [OF finite_atLeastAtMost_int])
next
  assume S: "S = {Min S..Max S}"
  have "Min S \<le> Max S" using assms by auto
  then have "int (card {Min S..Max S}) = Max S - Min S + 1" by simp
  with S show "\<not> Max S - Min S + 1 > int (card S)" by simp
qed

text \<open>A well-formed batch.\<close>

definition mem_last :: "batch_ext \<Rightarrow> int \<Rightarrow> int" where
  "mem_last be s = (case be_mem be of None \<Rightarrow> -1 | Some (_, mx) \<Rightarrow> mx s)"

definition positions_ok :: "nat \<Rightarrow> batch_ext \<Rightarrow> int \<Rightarrow> bool" where
  "positions_ok n_pos be s \<longleftrightarrow> (let ts = be_tokens be; track = seq_track (map te_seq_ids ts) (flat_pos n_pos ts) s in
     sorted (-1 # track) \<and>
     (track \<noteq> [] \<longrightarrow>
       (if n_pos > 1 then mem_last be s \<ge> 0 \<longrightarrow>
          (if first_embd (\<exists>t \<in> set ts. is_tok t) ((\<exists>t \<in> set ts. is_tok t) \<and> (\<exists>t \<in> set ts. \<not> is_tok t)) ts s
           then mem_last be s \<le> hd track else mem_last be s < hd track)
        else (mem_last be s \<ge> 0 \<longrightarrow> hd track = mem_last be s + 1) \<and> set track = {hd track..last track})))"

definition kinds_ok :: "bool \<Rightarrow> batch_ext \<Rightarrow> bool" where
  "kinds_ok allow_mixed be \<longleftrightarrow> (let ts = be_tokens be in
     (\<forall>t \<in> set ts. is_tok t \<and> te_has_embd t) \<or>
     (\<forall>t \<in> set ts. is_tok t \<noteq> te_has_embd t) \<and>
       (allow_mixed \<or> (\<forall>t \<in> set ts. is_tok t) \<or> (\<forall>t \<in> set ts. \<not> is_tok t)))"

definition batch_ok :: "nat \<Rightarrow> bool \<Rightarrow> batch_ext \<Rightarrow> bool" where
  "batch_ok n_pos allow_mixed be \<longleftrightarrow> be_tokens be \<noteq> [] \<and> 0 \<le> be_n_seq_max be \<and> be_n_seq_max be \<le> LLAMA_MAX_SEQ \<and>
     kinds_ok allow_mixed be \<and>
     (\<forall>t \<in> set (be_tokens be). (is_tok t \<longrightarrow> 0 \<le> te_id t \<and> te_id t < be_n_vocab be) \<and>
        te_seq_ids t \<noteq> [] \<and> (\<forall>s \<in> set (te_seq_ids t). 0 \<le> s \<and> s < be_n_seq_max be)) \<and>
     (\<forall>s. positions_ok n_pos be s) \<and>
     (\<forall>mn mx. be_mem be = Some (mn, mx) \<longrightarrow>
        (\<forall>t \<in> set (be_tokens be). \<forall>s \<in> set (te_seq_ids t). mn s = mn (hd (te_seq_ids t)) \<and> mx s = mx (hd (te_seq_ids t))))"
subsection \<open>The checks one by one\<close>

lemma length_filter_pos: "0 < length (filter P xs) \<longleftrightarrow> (\<exists>x \<in> set xs. P x)"
  by (simp add: filter_empty_conv)

lemma length_filter_all: "length (filter P xs) = length xs \<longleftrightarrow> (\<forall>x \<in> set xs. P x)"
  using length_filter_less [of _ xs P] by (auto simp: filter_id_conv) (metis less_irrefl)

lemmas kind_counts = n_tok_only_def n_embd_only_def n_both_def length_filter_pos length_filter_all

lemma kinds_checked:
  assumes "ts = be_tokens be" "ts \<noteq> []"
  shows "\<not> (\<exists>t \<in> set ts. \<not> is_tok t \<and> \<not> te_has_embd t) \<and> \<not> (n_both ts > 0 \<and> n_both ts \<noteq> length ts) \<and>
      \<not> ((n_tok_only ts > 0 \<and> n_embd_only ts > 0) \<and> \<not> allow) \<longleftrightarrow> kinds_ok allow be"
proof -
  obtain t0 where t0: "t0 \<in> set ts" using assms(2) by (cases ts) auto
  show ?thesis unfolding kinds_ok_def Let_def kind_counts assms(1) [symmetric] using t0 by blast
qed

lemma has_token_iff: "n_tok_only ts > 0 \<or> n_both ts > 0 \<longleftrightarrow> (\<exists>t \<in> set ts. is_tok t)"
  unfolding kind_counts by blast

lemma mixed_iff:
  assumes "ts = be_tokens be" "kinds_ok allow be"
  shows "n_tok_only ts > 0 \<and> n_embd_only ts > 0 \<longleftrightarrow> (\<exists>t \<in> set ts. is_tok t) \<and> (\<exists>t \<in> set ts. \<not> is_tok t)"
  using assms(2) unfolding kinds_ok_def Let_def kind_counts assms(1) [symmetric] by blast

lemma tokens_checked:
  assumes "ts = be_tokens be" "kinds_ok allow be"
  shows "\<not> ((n_tok_only ts > 0 \<or> n_both ts > 0) \<and> (\<exists>t \<in> set ts. bad_token (n_tok_only ts > 0 \<and> n_embd_only ts > 0) v t)) \<longleftrightarrow>
    (\<forall>t \<in> set ts. is_tok t \<longrightarrow> 0 \<le> te_id t \<and> te_id t < v)"
proof -
  have bad: "bad_token mixed v t \<longleftrightarrow> \<not> (mixed \<and> te_has_embd t) \<and> \<not> (0 \<le> te_id t \<and> te_id t < v)" for mixed t
    by (auto simp: bad_token_def)
  show ?thesis unfolding has_token_iff mixed_iff [OF assms] bad
    using assms(2) unfolding kinds_ok_def Let_def assms(1) [symmetric] by blast
qed

lemma sorted_ends:
  assumes "sorted xs" "xs \<noteq> []"
  shows "set_min (set xs) = hd xs" "set_max (set xs) = last xs"
proof -
  have "Min (set xs) = hd xs" using assms by (cases xs) (auto intro!: Min_eqI)
  then show "set_min (set xs) = hd xs" using assms(2) by (simp add: set_min_def)
  have "x \<le> last xs" if "x \<in> set xs" for x
    using assms that by (induction xs) auto
  then have "Max (set xs) = last xs" using assms(2) by (intro Max_eqI) auto
  then show "set_max (set xs) = last xs" using assms(2) by (simp add: set_max_def)
qed

lemma seq_positions_track: "seq_positions seqs pos s = set (seq_track seqs pos s)"
  by (simp add: seq_positions_def seq_track_def)

lemma plain_checked:
  assumes "sorted track" "sp s = set track"
  shows "pos_error_plain mem sp s = None \<longleftrightarrow>
    (track \<noteq> [] \<longrightarrow> (mem_max mem s \<ge> 0 \<longrightarrow> hd track = mem_max mem s + 1) \<and> set track = {hd track..last track})"
proof (cases "track = []")
  case True
  then show ?thesis using assms(2) by (simp add: pos_error_plain_def)
next
  case False
  note E = sorted_ends [OF assms(1) False]
  have "Max (set track) - Min (set track) + 1 > int (card (set track)) \<longleftrightarrow> set track \<noteq> {Min (set track)..Max (set track)}"
    using interval_card [of "set track"] False by auto
  then show ?thesis using False assms(2) E by (simp add: pos_error_plain_def Let_def set_min_def set_max_def)
qed

lemma mrope_checked:
  assumes "sorted track" "sp s = set track"
  shows "pos_error_mrope first mem sp s = None \<longleftrightarrow>
    (track \<noteq> [] \<longrightarrow> mem_max mem s \<ge> 0 \<longrightarrow> (if first s then mem_max mem s \<le> hd track else mem_max mem s < hd track))"
proof (cases "track = []")
  case True
  then show ?thesis using assms(2) by (simp add: pos_error_mrope_def)
next
  case False
  note E = sorted_ends [OF assms(1) False]
  show ?thesis using False assms(2) E by (auto simp: pos_error_mrope_def Let_def not_le not_less)
qed

lemma couples_checked:
  "\<not> diverged mem (seq_couples seqs) \<longleftrightarrow> (\<forall>mn mx. mem = Some (mn, mx) \<longrightarrow>
     (\<forall>ss \<in> set seqs. \<forall>s \<in> set ss. mn s = mn (hd ss) \<and> mx s = mx (hd ss)))"
proof -
  have ex: "(\<exists>(s0, s1) \<in> set (seq_couples seqs). P s0 s1) \<longleftrightarrow> (\<exists>ss \<in> set seqs. \<exists>s \<in> set (tl ss). P s (hd ss))" for P
    by (auto simp: seq_couples_def)
  have tl: "(\<exists>s \<in> set (tl ss). P s (hd ss)) \<longleftrightarrow> (\<exists>s \<in> set ss. P s (hd ss))" if "\<And>s. \<not> P s s" for P :: "int \<Rightarrow> int \<Rightarrow> bool" and ss
    using that by (cases ss) auto
  show ?thesis
  proof (cases mem)
    case (Some m)
    obtain mn mx where m: "m = (mn, mx)" by fastforce
    let ?P = "\<lambda>s t. mn s \<noteq> mn t \<or> mx s \<noteq> mx t"
    have "diverged mem (seq_couples seqs) \<longleftrightarrow> (\<exists>ss \<in> set seqs. \<exists>s \<in> set ss. ?P s (hd ss))"
      using ex [of ?P] tl [of ?P] by (simp add: diverged_def Some m)
    then show ?thesis by (auto simp: Some m)
  qed (simp add: diverged_def)
qed

lemma set_errors_compatible:
  "\<forall>(i, s) \<in> set todo. s \<in> set (seqs ! i) \<inter> cur s \<Longrightarrow> set_errors seqs pos todo (cur, cp) \<noteq> Some E_incompatible"
proof (induction todo arbitrary: cur cp)
  case (Cons e todo)
  obtain i s where e: "e = (i, s)" by fastforce
  have s: "s \<in> set (seqs ! i)" "s \<in> cur s" using Cons.prems by (auto simp: e)
  have "set_errors seqs pos todo (cur(s := cur s \<inter> set (seqs ! i)), cp(s := pos ! i)) \<noteq> Some E_incompatible"
    by (rule Cons.IH) (use Cons.prems s in auto)
  then show ?case using s by (auto simp: e Let_def)
qed simp

lemma first_error_last:
  "first_error xs = Some e \<Longrightarrow> Some e \<notin> set (butlast xs) \<Longrightarrow> last xs = Some e \<and> (\<forall>x \<in> set (butlast xs). x = None)"
  by (induction xs rule: first_error.induct) (auto split: if_splits)

lemma first_error_parts:
  assumes "first_error ([a, b, c, d, e, f, g, g2] @ ms @ [h, i]) = Some x" "Some x \<notin> set ([a, b, c, d, e, f, g, g2] @ ms @ [h])"
  shows "i = Some x" "b = None" "g = None"
  using first_error_last [OF assms(1)] assms(2) by (simp_all add: butlast_append)

lemma err_if_eqs: "err_if b e = Some x \<longleftrightarrow> b \<and> e = x" "Some x = err_if b e \<longleftrightarrow> b \<and> e = x" "err_if b e = None \<longleftrightarrow> \<not> b"
  by (auto simp: err_if_def)

lemma pos_error_not:
  "Some E_incompatible \<notin> set (if b then map (pos_error_mrope f m sp) ids else map (pos_error_plain m' sp') ids')"
  by (auto simp: pos_error_mrope_def pos_error_plain_def Let_def split: if_splits)

lemma never_incompatible: "batch_error_of n_pos allow_mixed be \<noteq> Some E_incompatible"
proof
  define seqs where "seqs = map te_seq_ids (be_tokens be)"
  define pos where "pos = flat_pos n_pos (be_tokens be)"
  define e where "e = set_errors seqs pos (token_seqs seqs) (\<lambda>_. set seq_ids, \<lambda>_. -1)"
  assume inc: "batch_error_of n_pos allow_mixed be = Some E_incompatible"
  note parts = first_error_parts [OF inc [unfolded batch_error_of_def Let_def, folded seqs_def pos_def, folded e_def]]
  have e: "e = Some E_incompatible" by (rule parts(1)) (simp add: err_if_eqs pos_error_not)
  have m: "be_n_seq_max be \<le> LLAMA_MAX_SEQ"
    using parts(2) by (simp add: err_if_eqs pos_error_not not_less)
  have ids: "0 \<le> s \<and> s < be_n_seq_max be" if "ss \<in> set seqs" "s \<in> set ss" for ss s
    using parts(3) that by (force simp: err_if_eqs pos_error_not not_le not_less)
  have "\<forall>(i, s) \<in> set (token_seqs seqs). s \<in> set (seqs ! i) \<inter> set seq_ids"
  proof (rule ballI, clarify)
    fix i s assume "(i, s) \<in> set (token_seqs seqs)"
    then have "i < length seqs" "s \<in> set (seqs ! i)" by (auto simp: token_seqs_def)
    then show "s \<in> set (seqs ! i) \<inter> set seq_ids" using ids [of "seqs ! i" s] m by simp
  qed
  with set_errors_compatible [of "token_seqs seqs" seqs "\<lambda>_. set seq_ids" pos "\<lambda>_. -1"] e show False by (simp add: e_def)
qed

text \<open>C18. What \<open>init\<close> accepts. The loops of \<open>llama_batch_allocr::init\<close> accept a batch exactly if it is not empty,
  its entries are all tokens, all embeddings, all both, or (where allowed) a mix of the first two, token
  and sequence ids are in range, every entry names a sequence, coupled sequences stand at the same positions
  in memory, and the positions of every sequence are at least -1, do not decrease, and continue the memory:
  without a gap for one position per token, ahead of it (or, from an embedding on, not behind it) for M-RoPE.
  What is not among the conditions is the comment's "disallow partial sequence sub-sets": that check never
  rejects a batch, so the batches its comment calls invalid are accepted when the rest holds
  (\<open>batch_init_gaps\<close>).\<close>

theorem batch_init_accepts:
  "((\<exists>a'. batch_init be output_all a = Inr a') \<longleftrightarrow> batch_ok (ba_n_pos a) (ba_allow_mixed a) be) \<and>
    batch_init be output_all a \<noteq> Inl E_incompatible"
proof -
  define ts where "ts = be_tokens be"
  define seqs where "seqs = map te_seq_ids ts"
  define pos where "pos = flat_pos (ba_n_pos a) ts"
  define mixed where "mixed = (n_tok_only ts > 0 \<and> n_embd_only ts > 0)"
  define has_token where "has_token = (n_tok_only ts > 0 \<or> n_both ts > 0)"
  let ?m = "be_n_seq_max be" and ?sp = "seq_positions seqs pos"
  let ?track = "seq_track seqs pos"
  define perr where "perr = (if ba_n_pos a > 1 then pos_error_mrope (first_embd has_token mixed ts) (be_mem be) ?sp else pos_error_plain (be_mem be) ?sp)"
  have acc: "(\<exists>a'. batch_init be output_all a = Inr a') \<longleftrightarrow> batch_error_of (ba_n_pos a) (ba_allow_mixed a) be = None"
    by (simp add: batch_init_def Let_def split: option.splits)
  define ids_ok where "ids_ok \<longleftrightarrow> (\<forall>ss \<in> set seqs. \<forall>s \<in> set ss. 0 \<le> s \<and> s < ?m)"
  have ids: "\<not> (\<exists>ss \<in> set seqs. \<exists>s \<in> set ss. s < 0 \<or> s \<ge> ?m) \<longleftrightarrow> ids_ok" unfolding ids_ok_def by (meson linorder_not_le)
  define some_ids where "some_ids \<longleftrightarrow> [] \<notin> set seqs"
  have err: "batch_error_of (ba_n_pos a) (ba_allow_mixed a) be = None \<longleftrightarrow>
      ts \<noteq> [] \<and> (0 \<le> ?m \<and> ?m \<le> LLAMA_MAX_SEQ) \<and>
      (\<not> (\<exists>t \<in> set ts. \<not> is_tok t \<and> \<not> te_has_embd t) \<and> \<not> (n_both ts > 0 \<and> n_both ts \<noteq> length ts) \<and> \<not> (mixed \<and> \<not> ba_allow_mixed a)) \<and>
      \<not> (has_token \<and> (\<exists>t \<in> set ts. bad_token mixed (be_n_vocab be) t)) \<and> ids_ok \<and> some_ids \<and>
      (\<forall>s \<in> set [0..?m - 1]. perr s = None) \<and> \<not> diverged (be_mem be) (seq_couples seqs) \<and>
      set_errors seqs pos (token_seqs seqs) (\<lambda>_. set seq_ids, \<lambda>_. -1) = None"
    unfolding batch_error_of_def Let_def ts_def [symmetric] seqs_def [symmetric] pos_def [symmetric] mixed_def [symmetric]
      has_token_def [symmetric] first_error_None ids [symmetric] some_ids_def perr_def
    by (cases "ba_n_pos a > 1") (auto simp: not_less)
  have P: "(\<forall>s \<in> set [0..?m - 1]. perr s = None) \<and> set_errors seqs pos (token_seqs seqs) (\<lambda>_. set seq_ids, \<lambda>_. -1) = None \<longleftrightarrow>
      (\<forall>s. positions_ok (ba_n_pos a) be s)"
    if "ts \<noteq> []" "0 \<le> ?m \<and> ?m \<le> LLAMA_MAX_SEQ" "kinds_ok (ba_allow_mixed a) be" ids_ok
  proof -
    have "\<forall>ss \<in> set seqs. set ss \<subseteq> set seq_ids"
      using that(2,4) by (fastforce simp: seqs_def ts_def ids_ok_def)
    note sorted = set_errors_sorted [OF this, of pos]
    have out: "?track s = []" if "s \<notin> set [0..?m - 1]" for s
    proof -
      have "\<not> s \<in> set (seqs ! i)" if "i < length seqs" for i
        using \<open>ids_ok\<close> \<open>s \<notin> set [0..?m - 1]\<close> nth_mem [OF that] by (fastforce simp: ids_ok_def)
      then show ?thesis by (auto simp: seq_track_def filter_empty_conv)
    qed
    have one: "perr s = None \<and> sorted (-1 # ?track s) \<longleftrightarrow> positions_ok (ba_n_pos a) be s" for s
    proof (cases "sorted (?track s)")
      case True
      have m: "mem_max (be_mem be) s = mem_last be s" by (simp add: mem_max_def mem_last_def)
      have ht: "has_token = (\<exists>t \<in> set ts. is_tok t)" unfolding has_token_def by (rule has_token_iff)
      have mx: "mixed = ((\<exists>t \<in> set ts. is_tok t) \<and> (\<exists>t \<in> set ts. \<not> is_tok t))"
        unfolding mixed_def by (rule mixed_iff [OF ts_def that(3)])
      have pe: "perr s = None \<longleftrightarrow> (?track s \<noteq> [] \<longrightarrow>
        (if ba_n_pos a > 1 then mem_last be s \<ge> 0 \<longrightarrow>
          (if first_embd has_token mixed ts s then mem_last be s \<le> hd (?track s) else mem_last be s < hd (?track s))
         else (mem_last be s \<ge> 0 \<longrightarrow> hd (?track s) = mem_last be s + 1) \<and> set (?track s) = {hd (?track s)..last (?track s)}))"
        unfolding perr_def using plain_checked [OF True, of ?sp s] mrope_checked [OF True, of ?sp s] m
        by (cases "ba_n_pos a > 1") (simp_all add: seq_positions_track)
      show ?thesis unfolding positions_ok_def Let_def pe ht mx ts_def [symmetric] seqs_def [symmetric] pos_def [symmetric] by blast
    next
      case False
      then show ?thesis unfolding positions_ok_def Let_def ts_def [symmetric] seqs_def [symmetric] pos_def [symmetric] by simp
    qed
    have "perr s = None" if "s \<notin> set [0..?m - 1]" for s
      using out [OF that] by (simp add: perr_def pos_error_plain_def pos_error_mrope_def seq_positions_track)
    then show ?thesis unfolding sorted using one by blast
  qed
  have C: "\<not> diverged (be_mem be) (seq_couples seqs) \<longleftrightarrow> (\<forall>mn mx. be_mem be = Some (mn, mx) \<longrightarrow>
        (\<forall>t \<in> set ts. \<forall>s \<in> set (te_seq_ids t). mn s = mn (hd (te_seq_ids t)) \<and> mx s = mx (hd (te_seq_ids t))))"
    unfolding couples_checked by (simp add: seqs_def)
  have I: "ids_ok \<longleftrightarrow> (\<forall>t \<in> set ts. \<forall>s \<in> set (te_seq_ids t). 0 \<le> s \<and> s < ?m)" by (auto simp: ids_ok_def seqs_def)
  have K: "ts \<noteq> [] \<Longrightarrow> (\<not> (\<exists>t \<in> set ts. \<not> is_tok t \<and> \<not> te_has_embd t) \<and> \<not> (n_both ts > 0 \<and> n_both ts \<noteq> length ts) \<and>
      \<not> (mixed \<and> \<not> ba_allow_mixed a)) \<longleftrightarrow> kinds_ok (ba_allow_mixed a) be"
    unfolding mixed_def by (rule kinds_checked [OF ts_def])
  have T: "kinds_ok (ba_allow_mixed a) be \<Longrightarrow> \<not> (has_token \<and> (\<exists>t \<in> set ts. bad_token mixed (be_n_vocab be) t)) \<longleftrightarrow>
      (\<forall>t \<in> set ts. is_tok t \<longrightarrow> 0 \<le> te_id t \<and> te_id t < be_n_vocab be)"
    unfolding mixed_def has_token_def by (rule tokens_checked [OF ts_def])
  have N: "some_ids \<longleftrightarrow> (\<forall>t \<in> set ts. te_seq_ids t \<noteq> [])" by (force simp: some_ids_def seqs_def)
  have "(\<exists>a'. batch_init be output_all a = Inr a') \<longleftrightarrow> batch_ok (ba_n_pos a) (ba_allow_mixed a) be"
    unfolding acc err batch_ok_def ts_def [symmetric] using K T P C I N by blast
  moreover have "batch_init be output_all a \<noteq> Inl E_incompatible"
    using never_incompatible [of "ba_n_pos a" "ba_allow_mixed a" be] by (auto simp: batch_init_def Let_def split: option.splits)
  ultimately show ?thesis by blast
qed
definition alloc0 :: batch_allocr where
  "alloc0 = \<lparr>ba_n_pos = 1, ba_allow_mixed = False, ba_n_seq_max = 0, ba_n_outputs = 0, ba_token = None, ba_is_embd = [],
     ba_pos = [], ba_seq_id = [], ba_output = [], ba_decision_order = [], ba_seq_id_unq = [], ba_seq_idx = [], ba_has_cpl = False,
     ba_seq_pos = (\<lambda>_. {}), ba_seq_cpl = [], ba_seq_set = [], ba_seq_set_map = (\<lambda>_. []), ba_out_ids = [], ba_n_used = 0,
     ba_used = [], ba_split_pos_grid = 0\<rparr>"

definition tok :: "int list \<Rightarrow> int \<Rightarrow> batch_token" where
  "tok ss p = \<lparr>te_id = 5, te_has_embd = False, te_embd_off = 0, te_output = False, te_decision_order = 0, te_seq_ids = ss, te_pos = [p, 0, 0, 0]\<rparr>"

definition bext :: "batch_token list \<Rightarrow> batch_ext" where
  "bext ts = \<lparr>be_n_tokens_max = 8, be_n_embd_inp = 8, be_n_embd_inp_enc = 8, be_n_seq_max = 3, be_mem = None, be_n_vocab = 10,
     be_n_pos = 1, be_n_embd = 0, be_tokens = ts, be_embd_len = 0\<rparr>"

theorem batch_init_accepts_witness:
  "(\<exists>a'. batch_init (bext [tok [0] 4, tok [0, 1] 5, tok [1] 6]) False alloc0 = Inr a') \<and>
   batch_ok 1 False (bext [tok [0] 4, tok [0, 1] 5, tok [1] 6])"
proof -
  have "isl (batch_init (bext [tok [0] 4, tok [0, 1] 5, tok [1] 6]) False alloc0) = False" by code_simp
  then have a: "\<exists>a'. batch_init (bext [tok [0] 4, tok [0, 1] 5, tok [1] 6]) False alloc0 = Inr a'"
    by (cases "batch_init (bext [tok [0] 4, tok [0, 1] 5, tok [1] 6]) False alloc0") auto
  then have "batch_ok (ba_n_pos alloc0) (ba_allow_mixed alloc0) (bext [tok [0] 4, tok [0, 1] 5, tok [1] 6])"
    using batch_init_accepts [of "bext [tok [0] 4, tok [0, 1] 5, tok [1] 6]" False alloc0] by blast
  with a show ?thesis by (simp add: alloc0_def)
qed

text \<open>Inputs that slip through. The check against partial sequence sub-sets never fires, for any
  batch, since the running intersection for a sequence only meets sets that contain it: the batch given as its
  example of an invalid one is accepted. So is a position of -1 (the running position starts at -1 and the
  comparison is strict). An entry without a sequence passes every check and makes the coupling loop read out
  of range.\<close>

theorem batch_init_gaps:
  "batch_error_of n_pos allow_mixed be \<noteq> Some E_incompatible \<and>
   isl (batch_init (bext [tok [0, 1, 2] 4, tok [0, 1] 5, tok [1, 2] 5]) False alloc0) = False \<and>
   isl (batch_init (bext [tok [0] (-1)]) False alloc0) = False \<and>
   map_sum id (\<lambda>_. ()) (batch_init (bext [tok [] 0]) False alloc0) = Inl E_out_of_range"
proof (intro conjI)
  show "batch_error_of n_pos allow_mixed be \<noteq> Some E_incompatible" by (rule never_incompatible)
qed code_simp+

end
