(* ===== verification/Batch_Split.thy ===== *)
theory Batch_Split
  imports Batch_Check "HOL-Library.Multiset"
begin

section \<open>Cutting a batch into ubatches\<close>

text \<open>
  What the three splitters of theory Batch_Alloc promise their callers is one contract, the locale
  \<open>splitter\<close>: a call either finds nothing left, or takes some of the remaining tokens, those of each
  class in batch order. Repeated calls then cut up the whole batch. Every splitter is an instance; the
  classes are trivial for \<open>split_simple\<close> and the sequence sets for the other two.
\<close>

subsection \<open>Marking tokens as used\<close>

definition static_part :: "batch_allocr \<Rightarrow> batch_allocr" where
  "static_part a = a\<lparr>ba_out_ids := [], ba_n_used := 0, ba_used := []\<rparr>"

lemma static_part_simps [simp]:
  "static_part (a\<lparr>ba_out_ids := x\<rparr>) = static_part a" "static_part (a\<lparr>ba_n_used := n\<rparr>) = static_part a"
  "static_part (a\<lparr>ba_used := u\<rparr>) = static_part a"
  by (simp_all add: static_part_def)

lemma static_part_eq:
  assumes "static_part a = static_part b"
  shows "get_n_tokens a = get_n_tokens b" "ba_seq_set a = ba_seq_set b" "ba_seq_set_map a = ba_seq_set_map b"
    "ba_seq_id a = ba_seq_id b" "ba_has_cpl a = ba_has_cpl b" "ba_pos a = ba_pos b" "ba_split_pos_grid a = ba_split_pos_grid b"
    "ba_n_seq_max a = ba_n_seq_max b" "ba_token a = ba_token b" "ba_is_embd a = ba_is_embd b" "ba_n_pos a = ba_n_pos b" "ba_output a = ba_output b"
    "ba_decision_order a = ba_decision_order b"
proof -
  have "f (static_part a) = f (static_part b)" for f :: "batch_allocr \<Rightarrow> 'z" by (simp add: assms)
  from this [of ba_seq_id] this [of ba_seq_set] show "get_n_tokens a = get_n_tokens b" by (simp add: static_part_def get_n_tokens_def)
qed (use assms in \<open>auto simp: static_part_def dest: arg_cong [where f = ba_seq_set] arg_cong [where f = ba_seq_set_map]
  arg_cong [where f = ba_seq_id] arg_cong [where f = ba_has_cpl] arg_cong [where f = ba_pos] arg_cong [where f = ba_split_pos_grid]
  arg_cong [where f = ba_n_seq_max] arg_cong [where f = ba_token] arg_cong [where f = ba_is_embd] arg_cong [where f = ba_n_pos]
  arg_cong [where f = ba_output] arg_cong [where f = ba_decision_order]\<close>)

definition todo_list :: "batch_allocr \<Rightarrow> nat list" where
  "todo_list a = filter (\<lambda>i. \<not> ba_used a ! i) [0..<get_n_tokens a]"

definition counted :: "batch_allocr \<Rightarrow> bool" where
  "counted a \<longleftrightarrow> length (ba_used a) = get_n_tokens a \<and> ba_n_used a + length (todo_list a) = get_n_tokens a"

text \<open>The tokens \<open>xs\<close> become used.\<close>

definition marks :: "nat list \<Rightarrow> batch_allocr \<Rightarrow> batch_allocr \<Rightarrow> bool" where
  "marks xs a b \<longleftrightarrow> static_part b = static_part a \<and> length (ba_used b) = length (ba_used a) \<and>
     (\<forall>i < length (ba_used a). ba_used b ! i \<longleftrightarrow> ba_used a ! i \<or> i \<in> set xs) \<and> ba_n_used b = ba_n_used a + length xs"

lemma marks_nil: "marks [] a a"
  by (simp add: marks_def)

lemma marks_trans: "marks xs a b \<Longrightarrow> marks ys b c \<Longrightarrow> marks (xs @ ys) a c"
  by (auto simp: marks_def)

lemma marks_take: "i < length (ba_used a) \<Longrightarrow> marks [i] a (take_token i a)"
  by (auto simp: marks_def take_token_def nth_list_update)

lemma marks_perm: "marks xs a b \<Longrightarrow> set ys = set xs \<Longrightarrow> length ys = length xs \<Longrightarrow> marks ys a b"
  by (simp add: marks_def)

lemma marks_fold:
  "\<forall>i \<in> set xs. i < length (ba_used a) \<Longrightarrow> marks xs a (fold take_token xs a)"
proof (induction xs arbitrary: a)
  case (Cons x xs)
  have m: "marks [x] a (take_token x a)" using Cons.prems by (intro marks_take) simp
  have "marks xs (take_token x a) (fold take_token xs (take_token x a))"
    using Cons.prems m by (intro Cons.IH) (simp add: marks_def)
  from marks_trans [OF m this] show ?case by simp
qed (simp add: marks_nil)

text \<open>Putting tokens back undoes it.\<close>

lemma marks_put_back:
  assumes "marks (xs @ [i]) a b" "i < length (ba_used a)" "\<not> ba_used a ! i" "i \<notin> set xs"
  shows "marks xs a (put_back i b)"
  using assms by (auto simp: marks_def put_back_def nth_list_update)

lemma marks_put_backs:
  assumes "marks (xs @ ys) a b" "distinct (xs @ ys)" "\<forall>i \<in> set ys. i < length (ba_used a) \<and> \<not> ba_used a ! i"
  shows "marks xs a (fold put_back ys b)"
  using assms
proof (induction ys arbitrary: b)
  case (Cons y ys)
  have "marks ((xs @ ys) @ [y]) a b" using Cons.prems(1) by (rule marks_perm) auto
  then have "marks (xs @ ys) a (put_back y b)" using Cons.prems(2,3) by (intro marks_put_back) auto
  then show ?case using Cons by simp
qed simp

text \<open>Tokens taken in order within their classes.\<close>

definition takes :: "(nat \<Rightarrow> 'k) \<Rightarrow> nat list \<Rightarrow> batch_allocr \<Rightarrow> batch_allocr \<Rightarrow> bool" where
  "takes key xs a b \<longleftrightarrow> (\<forall>k. filter (\<lambda>i. key i = k) (todo_list a) =
     filter (\<lambda>i. key i = k) xs @ filter (\<lambda>i. key i = k) (todo_list b))"

lemma mset_by_key:
  assumes "\<And>k. filter (\<lambda>i. key i = k) xs = filter (\<lambda>i. key i = k) ys"
  shows "mset xs = mset ys"
proof (rule multiset_eqI)
  fix x
  have "count (mset xs) x = count (mset (filter (\<lambda>i. key i = key x) xs)) x" by simp
  also have "\<dots> = count (mset (filter (\<lambda>i. key i = key x) ys)) x" by (simp only: assms)
  finally show "count (mset xs) x = count (mset ys) x" by simp
qed

lemma takes_mset:
  assumes "takes key xs a b"
  shows "mset (todo_list a) = mset xs + mset (todo_list b)"
proof -
  have "mset (todo_list a) = mset (xs @ todo_list b)"
    by (rule mset_by_key [where key = key]) (use assms in \<open>simp add: takes_def\<close>)
  then show ?thesis by simp
qed

lemma counted_takes:
  assumes "counted a" "marks xs a b" "takes key xs a b"
  shows "counted b"
proof -
  have "length (todo_list a) = length xs + length (todo_list b)"
    using takes_mset [OF assms(3)] by (metis size_mset size_union)
  then show ?thesis using assms(1,2) static_part_eq(1) [of b a] by (auto simp: counted_def marks_def)
qed

lemma todo_marked:
  assumes "marks xs a b" "length (ba_used a) = get_n_tokens a"
  shows "todo_list b = filter (\<lambda>i. i \<notin> set xs) (todo_list a)"
proof -
  have "get_n_tokens b = get_n_tokens a" using assms(1) static_part_eq(1) [of b a] by (simp add: marks_def)
  then show ?thesis using assms unfolding todo_list_def filter_filter
    by (intro filter_cong) (auto simp: marks_def)
qed

lemma filter_not_taken:
  assumes "distinct T"
  shows "filter (\<lambda>i. i \<notin> set (take m T)) T = drop m T"
proof -
  define P where "P i \<longleftrightarrow> i \<notin> set (take m T)" for i
  have "filter P T = filter P (take m T) @ filter P (drop m T)" by (metis append_take_drop_id filter_append)
  moreover have "filter P (take m T) = []" by (simp add: P_def filter_empty_conv)
  moreover have "set (take m T) \<inter> set (drop m T) = {}" using assms by (metis append_take_drop_id distinct_append)
  then have "filter P (drop m T) = drop m T" by (auto simp: filter_id_conv P_def)
  ultimately show ?thesis by (simp add: P_def [abs_def])
qed

text \<open>It is enough that the taken tokens of a class are the first ones left of it.\<close>

lemma takes_prefix:
  assumes "marks xs a b" "length (ba_used a) = get_n_tokens a"
    and "\<And>k. \<exists>m. filter (\<lambda>i. key i = k) xs = take m (filter (\<lambda>i. key i = k) (todo_list a))"
  shows "takes key xs a b"
  unfolding takes_def
proof
  fix k
  obtain m where m: "filter (\<lambda>i. key i = k) xs = take m (filter (\<lambda>i. key i = k) (todo_list a))" using assms(3) by blast
  let ?T = "filter (\<lambda>i. key i = k) (todo_list a)"
  have d: "distinct ?T" by (simp add: todo_list_def)
  have "filter (\<lambda>i. key i = k) (todo_list b) = filter (\<lambda>i. i \<notin> set (take m ?T)) ?T"
    unfolding todo_marked [OF assms(1,2)] filter_filter m [symmetric] by (intro filter_cong) auto
  also have "\<dots> = drop m ?T" by (rule filter_not_taken [OF d])
  finally show "?T = filter (\<lambda>i. key i = k) xs @ filter (\<lambda>i. key i = k) (todo_list b)" by (simp add: m)
qed

subsection \<open>The contract of a splitter\<close>

locale splitter =
  fixes split :: "batch_allocr \<Rightarrow> (batch_allocr \<times> llama_ubatch option) option"
    and inv :: "batch_allocr \<Rightarrow> bool"
    and key :: "nat \<Rightarrow> 'k"
    and good :: "llama_ubatch \<Rightarrow> bool"
  assumes done_or_step: "inv a \<Longrightarrow> (split a = Some (a, None) \<and> todo_list a = []) \<or>
    (\<exists>b ub. split a = Some (b, Some ub) \<and> inv b \<and> good ub \<and> ub_batch_idxs ub \<noteq> [] \<and> takes key (ub_batch_idxs ub) a b)"
begin

lemma split_all_ok:
  assumes "inv a"
  shows "\<exists>b ubs. split_all split a acc = Some (b, acc @ ubs) \<and> inv b \<and> todo_list b = [] \<and> (\<forall>ub \<in> set ubs. good ub \<and> ub_batch_idxs ub \<noteq> []) \<and>
    (\<forall>k. filter (\<lambda>i. key i = k) (concat (map ub_batch_idxs ubs)) = filter (\<lambda>i. key i = k) (todo_list a))"
  using assms
proof (induction "length (todo_list a)" arbitrary: a acc rule: less_induct)
  case less
  from done_or_step [OF less.prems] show ?case
  proof (elim disjE exE conjE)
    assume "split a = Some (a, None)" "todo_list a = []"
    moreover from this have "split_all split a acc = Some (a, acc)" by (subst split_all.simps) simp
    ultimately show ?thesis using less.prems by (intro exI [of _ a] exI [of _ "[]"]) simp
  next
    fix b ub assume s: "split a = Some (b, Some ub)" "inv b" "good ub" "ub_batch_idxs ub \<noteq> []" "takes key (ub_batch_idxs ub) a b"
    have "length (todo_list a) = length (ub_batch_idxs ub) + length (todo_list b)"
      using takes_mset [OF s(5)] by (metis size_mset size_union)
    then have "length (todo_list b) < length (todo_list a)" using s(4) by simp
    from less.hyps [OF this s(2), of "acc @ [ub]"] obtain c ubs where
      c: "split_all split b (acc @ [ub]) = Some (c, (acc @ [ub]) @ ubs)" "inv c" "todo_list c = []" "\<forall>ub \<in> set ubs. good ub \<and> ub_batch_idxs ub \<noteq> []"
        "\<forall>k. filter (\<lambda>i. key i = k) (concat (map ub_batch_idxs ubs)) = filter (\<lambda>i. key i = k) (todo_list b)" by blast
    have "split_all split a acc = Some (c, acc @ (ub # ubs))"
      by (subst split_all.simps) (simp add: s(1) c(1))
    then show ?thesis using c(2-) s(3-5) unfolding takes_def
      by (intro exI [of _ c] exI [of _ "ub # ubs"]) simp
  qed
qed

lemma split_all_partition:
  assumes "inv a"
  shows "\<exists>b ubs. split_all split a [] = Some (b, ubs) \<and> inv b \<and> todo_list b = [] \<and> (\<forall>ub \<in> set ubs. good ub \<and> ub_batch_idxs ub \<noteq> []) \<and>
    mset (concat (map ub_batch_idxs ubs)) = mset (todo_list a) \<and>
    (\<forall>k. filter (\<lambda>i. key i = k) (concat (map ub_batch_idxs ubs)) = filter (\<lambda>i. key i = k) (todo_list a))"
  using split_all_ok [OF assms, of "[]"] mset_by_key [of key] by fastforce

end
subsection \<open>The arrays of a batch\<close>

definition alloc_ok :: "batch_allocr \<Rightarrow> bool" where
  "alloc_ok a \<longleftrightarrow> ba_seq_set a = map set (ba_seq_id a) \<and> ba_seq_set_map a = set_map (ba_seq_id a) \<and>
     (ba_has_cpl a \<longleftrightarrow> (\<exists>ss \<in> set (ba_seq_id a). length ss > 1)) \<and> ba_n_seq_max a \<le> LLAMA_MAX_SEQ \<and>
     (\<forall>ss \<in> set (ba_seq_id a). ss \<noteq> [] \<and> distinct ss \<and> (\<forall>s \<in> set ss. 0 \<le> s \<and> s < ba_n_seq_max a))"

lemma alloc_okD:
  assumes "alloc_ok a" "i < get_n_tokens a"
  shows "ba_seq_set a ! i = set (ba_seq_id a ! i)" "ba_seq_id a ! i \<noteq> []" "distinct (ba_seq_id a ! i)"
    "ba_seq_set a ! i \<noteq> {}" "s \<in> set (ba_seq_id a ! i) \<Longrightarrow> 0 \<le> s \<and> s < ba_n_seq_max a"
    "\<not> ba_has_cpl a \<Longrightarrow> ba_seq_id a ! i = [hd (ba_seq_id a ! i)]"
proof -
  have m: "ba_seq_id a ! i \<in> set (ba_seq_id a)" using assms(2) by (simp add: get_n_tokens_def)
  have ne: "ba_seq_id a ! i \<noteq> []" using assms(1) m by (auto simp: alloc_ok_def)
  show "ba_seq_set a ! i = set (ba_seq_id a ! i)" "ba_seq_set a ! i \<noteq> {}"
    using assms ne by (simp_all add: alloc_ok_def get_n_tokens_def)
  show "ba_seq_id a ! i \<noteq> []" by (rule ne)
  show "distinct (ba_seq_id a ! i)" "s \<in> set (ba_seq_id a ! i) \<Longrightarrow> 0 \<le> s \<and> s < ba_n_seq_max a"
    using assms(1) m by (auto simp: alloc_ok_def)
  show "ba_seq_id a ! i = [hd (ba_seq_id a ! i)]" if "\<not> ba_has_cpl a"
  proof -
    have "\<not> length (ba_seq_id a ! i) > 1" using assms(1) m that by (auto simp: alloc_ok_def)
    then show ?thesis using ne by (cases "ba_seq_id a ! i") auto
  qed
qed

definition alloc_inv :: "batch_allocr \<Rightarrow> batch_allocr \<Rightarrow> bool" where
  "alloc_inv a0 a \<longleftrightarrow> alloc_ok a0 \<and> static_part a = static_part a0 \<and> counted a"

lemma alloc_ok_static:
  assumes "static_part a = static_part b"
  shows "alloc_ok a \<longleftrightarrow> alloc_ok b"
  by (simp add: alloc_ok_def static_part_eq [OF assms])

lemma alloc_inv_len: "alloc_inv a0 a \<Longrightarrow> length (ba_used a) = get_n_tokens a \<and> get_n_tokens a = get_n_tokens a0"
  using static_part_eq(1) [of a a0] by (simp add: alloc_inv_def counted_def)

lemma marks_inv: "alloc_inv a0 a \<Longrightarrow> marks xs a b \<Longrightarrow> takes key xs a b \<Longrightarrow> alloc_inv a0 b"
  using counted_takes [of a xs b key] by (simp add: alloc_inv_def marks_def)

text \<open>The ubatch built from given tokens only depends on the arrays of the batch.\<close>

definition built :: "batch_allocr \<Rightarrow> nat list \<Rightarrow> nat \<Rightarrow> bool \<Rightarrow> llama_ubatch" where
  "built a idxs n_seqs eq = snd (the (ubatch_add idxs n_seqs eq a))"

lemma ubatch_add_ok:
  assumes "static_part a = static_part a0" "n_seqs \<noteq> 0" "length idxs mod n_seqs = 0"
  shows "add_some idxs n_seqs eq a = Some (a\<lparr>ba_out_ids := ba_out_ids a @ filter (\<lambda>i. ba_output a ! i) idxs\<rparr>, Some (built a0 idxs n_seqs eq))"
  using assms(2,3) static_part_eq [OF assms(1)] by (simp add: add_some_def built_def ubatch_add_def Let_def)

lemma built_simps:
  assumes "n_seqs \<noteq> 0" "length idxs mod n_seqs = 0"
  shows "ub_batch_idxs (built a idxs n_seqs eq) = idxs" "ub_n_tokens (built a idxs n_seqs eq) = length idxs"
    "ub_n_seqs (built a idxs n_seqs eq) = n_seqs" "ub_seq_id (built a idxs n_seqs eq) = map ((!) (ba_seq_id a)) idxs"
    "ub_seq_id_unq (built a idxs n_seqs eq) = unique_ids (ba_n_seq_max a) (map ((!) (ba_seq_id a)) idxs)"
    "ub_n_seqs_unq (built a idxs n_seqs eq) = length (unique_ids (ba_n_seq_max a) (map ((!) (ba_seq_id a)) idxs))"
    "ub_b_equal_seqs (built a idxs n_seqs eq) = eq" "ub_n_seq_tokens (built a idxs n_seqs eq) = length idxs div n_seqs"
    "ub_pos (built a idxs n_seqs eq) = concat (map (\<lambda>j. map (\<lambda>i. ba_pos a ! (j * get_n_tokens a + i)) idxs) [0..<ba_n_pos a])"
    "ub_n_pos (built a idxs n_seqs eq) = ba_n_pos a" "ub_output (built a idxs n_seqs eq) = map ((!) (ba_output a)) idxs"
  using assms by (simp_all add: built_def ubatch_add_def Let_def)

lemma out_ids_upd [simp]:
  "todo_list (a\<lparr>ba_out_ids := x\<rparr>) = todo_list a" "counted (a\<lparr>ba_out_ids := x\<rparr>) = counted a"
  "marks xs a (b\<lparr>ba_out_ids := x\<rparr>) = marks xs a b" "takes key xs a (b\<lparr>ba_out_ids := x\<rparr>) = takes key xs a b"
  "alloc_inv a0 (a\<lparr>ba_out_ids := x\<rparr>) = alloc_inv a0 a"
  by (simp_all add: todo_list_def counted_def marks_def takes_def alloc_inv_def get_n_tokens_def)

subsection \<open>The simple split\<close>

lemma first_unused_todo:
  assumes "length (ba_used a) = get_n_tokens a"
  shows "first_unused a = length (ba_used a) \<longleftrightarrow> todo_list a = []"
    "todo_list a \<noteq> [] \<Longrightarrow> first_unused a < length (ba_used a) \<and> \<not> ba_used a ! first_unused a"
    "i < first_unused a \<Longrightarrow> ba_used a ! i"
proof -
  show before: "ba_used a ! i" if "i < first_unused a" for i
  proof -
    have "takeWhile id (ba_used a) ! i \<in> set (takeWhile id (ba_used a))" "takeWhile id (ba_used a) ! i = ba_used a ! i"
      using that nth_mem [of i "takeWhile id (ba_used a)"] by (simp_all add: first_unused_def takeWhile_nth del: nth_mem)
    then show ?thesis using set_takeWhileD by fastforce
  qed
  have le: "first_unused a \<le> length (ba_used a)" by (simp add: first_unused_def length_takeWhile_le)
  have at: "\<not> ba_used a ! first_unused a" if "first_unused a < length (ba_used a)"
    using that nth_length_takeWhile [of id "ba_used a"] by (simp add: first_unused_def)
  have empty: "todo_list a = [] \<longleftrightarrow> (\<forall>i < length (ba_used a). ba_used a ! i)"
    using assms by (auto simp: todo_list_def filter_empty_conv)
  show iff: "first_unused a = length (ba_used a) \<longleftrightarrow> todo_list a = []"
    using before at le unfolding empty by (metis le_neq_implies_less)
  show "first_unused a < length (ba_used a) \<and> \<not> ba_used a ! first_unused a" if "todo_list a \<noteq> []"
    using that iff at le by auto
qed

definition prefix_used :: "batch_allocr \<Rightarrow> bool" where
  "prefix_used a \<longleftrightarrow> (\<exists>k \<le> length (ba_used a). \<forall>i < length (ba_used a). ba_used a ! i \<longleftrightarrow> i < k)"

definition inside_cell :: "batch_allocr \<Rightarrow> nat list \<Rightarrow> bool" where
  "inside_cell a idxs \<longleftrightarrow> (\<forall>i \<in> set (tl idxs). \<not> split_on_grid a i)"

lemma split_on_grid_static: "static_part a = static_part b \<Longrightarrow> split_on_grid a = split_on_grid b"
  using static_part_eq [of a b] by (simp add: split_on_grid_def fun_eq_iff)

lemma simple_loop_ok:
  assumes "cur < length (ba_used a)" "length idxs < max 1 n_ubatch"
  shows "\<exists>m b. simple_loop n_ubatch cur idxs a = (b, idxs @ [cur..<cur + m]) \<and> 0 < m \<and> cur + m \<le> length (ba_used a) \<and>
    length idxs + m \<le> max 1 n_ubatch \<and> marks [cur..<cur + m] a b \<and> (\<forall>i. cur < i \<and> i < cur + m \<longrightarrow> \<not> split_on_grid a i)"
  using assms
proof (induction "length (ba_used a) - cur" arbitrary: cur idxs a rule: less_induct)
  case less
  let ?a = "take_token cur a" and ?stop = "cur + 1 \<ge> length (ba_used a) \<or> length idxs + 1 \<ge> n_ubatch \<or> split_on_grid a (cur + 1)"
  have t: "marks [cur] a ?a" using less.prems(1) by (rule marks_take)
  then have len: "length (ba_used ?a) = length (ba_used a)" and grid: "split_on_grid ?a = split_on_grid a"
    using split_on_grid_static [of ?a a] by (simp_all add: marks_def)
  have u: "simple_loop n_ubatch cur idxs a = (if ?stop then (?a, idxs @ [cur]) else simple_loop n_ubatch (cur + 1) (idxs @ [cur]) ?a)"
    by (subst simple_loop.simps) (simp only: Let_def len grid length_append_singleton Suc_eq_plus1)
  show ?case
  proof (cases ?stop)
    case True
    have "[cur..<cur + 1] = [cur]" by simp
    then show ?thesis using u True t less.prems by (intro exI [of _ 1] exI [of _ ?a]) auto
  next
    case False
    then have "length (ba_used ?a) - (cur + 1) < length (ba_used a) - cur" "cur + 1 < length (ba_used ?a)" "length (idxs @ [cur]) < max 1 n_ubatch"
      using len less.prems(1) by auto
    from less.hyps [OF this] obtain m b where m: "simple_loop n_ubatch (cur + 1) (idxs @ [cur]) ?a = (b, (idxs @ [cur]) @ [cur + 1..<cur + 1 + m])"
      "0 < m" "cur + 1 + m \<le> length (ba_used ?a)" "length (idxs @ [cur]) + m \<le> max 1 n_ubatch" "marks [cur + 1..<cur + 1 + m] ?a b"
      "\<forall>i. cur + 1 < i \<and> i < cur + 1 + m \<longrightarrow> \<not> split_on_grid ?a i" by blast
    have c: "[cur..<cur + Suc m] = cur # [cur + 1..<cur + 1 + m]" by (simp add: upt_conv_Cons)
    have "\<not> split_on_grid a i" if i: "cur < i" "i < cur + Suc m" for i
      using False m(6) grid i by (cases "i = cur + 1") auto
    then show ?thesis using u False m(1-4) len marks_trans [OF t m(5)] c
      by (intro exI [of _ "Suc m"] exI [of _ b]) auto
  qed
qed

lemma prefix_todo:
  assumes "prefix_used a" "length (ba_used a) = get_n_tokens a"
  shows "todo_list a = [first_unused a..<get_n_tokens a]" "first_unused a \<le> get_n_tokens a"
    "i < get_n_tokens a \<Longrightarrow> ba_used a ! i \<longleftrightarrow> i < first_unused a"
proof -
  from assms obtain k where k: "k \<le> get_n_tokens a" "\<forall>i < get_n_tokens a. ba_used a ! i \<longleftrightarrow> i < k" by (auto simp: prefix_used_def)
  have t: "todo_list a = filter (\<lambda>i. k \<le> i) [0..<get_n_tokens a]"
    unfolding todo_list_def using k(2) by (intro filter_cong) auto
  have "[0..<get_n_tokens a] = [0..<k] @ [k..<get_n_tokens a]" using k(1) upt_add_eq_append [of 0 k "get_n_tokens a - k"] by simp
  then have "todo_list a = [k..<get_n_tokens a]" unfolding t by (simp add: filter_empty_conv filter_id_conv)
  moreover have "first_unused a = k"
  proof (cases "k = get_n_tokens a")
    case True
    with calculation have "todo_list a = []" by simp
    then show ?thesis using first_unused_todo(1) [OF assms(2)] True assms(2) by simp
  next
    case False
    then have ne: "todo_list a \<noteq> []" using calculation k(1) by simp
    note F = first_unused_todo(2) [OF assms(2) ne]
    have "\<not> first_unused a < k" using F k(2) [rule_format, of "first_unused a"] assms(2) by simp
    moreover have "\<not> k < first_unused a" using first_unused_todo(3) [OF assms(2), of k] k F assms(2) by fastforce
    ultimately show ?thesis by simp
  qed
  ultimately show "todo_list a = [first_unused a..<get_n_tokens a]" "first_unused a \<le> get_n_tokens a"
    "i < get_n_tokens a \<Longrightarrow> ba_used a ! i \<longleftrightarrow> i < first_unused a" using k by simp_all
qed

definition simple_inv :: "batch_allocr \<Rightarrow> batch_allocr \<Rightarrow> bool" where
  "simple_inv a0 a \<longleftrightarrow> alloc_inv a0 a \<and> prefix_used a"

definition simple_good :: "batch_allocr \<Rightarrow> nat \<Rightarrow> llama_ubatch \<Rightarrow> bool" where
  "simple_good a0 n_ubatch ub \<longleftrightarrow> (\<exists>k m. 0 < m \<and> m \<le> max 1 n_ubatch \<and> k + m \<le> get_n_tokens a0 \<and>
     ub = built a0 [k..<k + m] m False \<and> inside_cell a0 [k..<k + m])"

lemma split_simple_step:
  assumes "simple_inv a0 a"
  shows "(split_simple n_ubatch a = Some (a, None) \<and> todo_list a = []) \<or>
    (\<exists>b ub. split_simple n_ubatch a = Some (b, Some ub) \<and> simple_inv a0 b \<and> simple_good a0 n_ubatch ub \<and>
      ub_batch_idxs ub \<noteq> [] \<and> takes (\<lambda>_. ()) (ub_batch_idxs ub) a b)"
proof -
  have inv: "alloc_inv a0 a" "prefix_used a" using assms by (simp_all add: simple_inv_def)
  have len: "length (ba_used a) = get_n_tokens a" "get_n_tokens a = get_n_tokens a0" using alloc_inv_len [OF inv(1)] by simp_all
  have st: "static_part a = static_part a0" using inv(1) by (simp add: alloc_inv_def)
  let ?k = "first_unused a" and ?n = "get_n_tokens a"
  note T = prefix_todo [OF inv(2) len(1)]
  show ?thesis
  proof (cases "?k \<ge> length (ba_used a)")
    case True
    then show ?thesis using T len by (simp add: split_simple_def Let_def)
  next
    case False
    then have "?k < length (ba_used a)" "length ([] :: nat list) < max 1 n_ubatch" by simp_all
    from simple_loop_ok [OF this] obtain m b where m: "simple_loop n_ubatch ?k [] a = (b, [?k..<?k + m])" "0 < m"
      "?k + m \<le> length (ba_used a)" "m \<le> max 1 n_ubatch" "marks [?k..<?k + m] a b"
      "\<forall>i. ?k < i \<and> i < ?k + m \<longrightarrow> \<not> split_on_grid a i" by auto
    have stb: "static_part b = static_part a0" using m(5) st by (simp add: marks_def)
    let ?ub = "built a0 [?k..<?k + m] m False"
    have "add_some [?k..<?k + m] m False b = Some (b\<lparr>ba_out_ids := ba_out_ids b @ filter (\<lambda>i. ba_output b ! i) [?k..<?k + m]\<rparr>, Some ?ub)"
      using m(2) by (intro ubatch_add_ok [OF stb]) simp_all
    then obtain x where s: "split_simple n_ubatch a = Some (b\<lparr>ba_out_ids := x\<rparr>, Some ?ub)"
      using False m(1) by (simp add: split_simple_def Let_def)
    have xs: "ub_batch_idxs ?ub = [?k..<?k + m]" using m(2) by (simp add: built_simps)
    have take: "takes (\<lambda>_. ()) [?k..<?k + m] a b"
    proof (rule takes_prefix [OF m(5) len(1)])
      fix k :: unit
      have "[?k..<?k + m] = take m (todo_list a)" using T m(3) len by (simp add: take_upt)
      then show "\<exists>m'. filter (\<lambda>i. () = k) [?k..<?k + m] = take m' (filter (\<lambda>i. () = k) (todo_list a))" by (intro exI [of _ m]) simp
    qed
    have "prefix_used b" unfolding prefix_used_def
    proof (intro exI [of _ "?k + m"] conjI allI impI)
      fix i assume i: "i < length (ba_used b)"
      then have "ba_used a ! i \<longleftrightarrow> i < ?k" using T(3) m(5) len(1) by (simp add: marks_def)
      then show "ba_used b ! i \<longleftrightarrow> i < ?k + m" using i m(5) by (auto simp: marks_def)
    qed (use m(3,5) in \<open>simp add: marks_def\<close>)
    moreover have "alloc_inv a0 b" by (rule marks_inv [OF inv(1) m(5) take])
    moreover have "inside_cell a0 [?k..<?k + m]"
      using m(2,6) split_on_grid_static [OF st] by (auto simp: inside_cell_def upt_conv_Cons)
    then have "simple_good a0 n_ubatch ?ub" using m(2-4) len unfolding simple_good_def by (intro exI [of _ ?k] exI [of _ m]) simp
    ultimately show ?thesis using s xs take m(2)
      by (intro disjI2 exI [of _ "b\<lparr>ba_out_ids := x\<rparr>"] exI [of _ ?ub]) (simp add: simple_inv_def prefix_used_def)
  qed
qed

interpretation simple: splitter "split_simple n_ubatch" "simple_inv a0" "\<lambda>_. ()" "simple_good a0 n_ubatch"
  for n_ubatch a0
  by unfold_locales (rule split_simple_step)


subsection \<open>The split by sequence set\<close>

lemma down_closed_take:
  assumes "sorted_wrt (<) zs" "sorted_wrt (<) ys" "set ys \<subseteq> set zs" "\<And>i j. j \<in> set ys \<Longrightarrow> i \<in> set zs \<Longrightarrow> i < j \<Longrightarrow> i \<in> set ys"
  shows "ys = take (length ys) (zs :: nat list)"
  using assms
proof (induction zs arbitrary: ys)
  case (Cons z zs)
  show ?case
  proof (cases ys)
    case (Cons y ys')
    have "y = z"
    proof (rule ccontr)
      assume "y \<noteq> z"
      then have "z < y" using Cons.prems(1,3) Cons by auto
      then have "z \<in> set ys'" using Cons.prems(4) [of y z] Cons by auto
      then show False using Cons.prems(2) \<open>z < y\<close> Cons by auto
    qed
    moreover have "ys' = take (length ys') zs"
    proof (rule Cons.IH)
      fix i j assume ij: "j \<in> set ys'" "i \<in> set zs" "i < j"
      then have "i \<in> set ys" using Cons.prems(4) [of j i] Cons by simp
      moreover have "z < i" using Cons.prems(1) ij(2) by simp
      ultimately show "i \<in> set ys'" using Cons \<open>y = z\<close> by simp
    qed (use Cons.prems(1-3) Cons \<open>y = z\<close> in auto)
    ultimately show ?thesis using Cons by simp
  qed simp
qed simp

lemma next_in_set_props:
  "next_in_set S cur a = None \<or> (\<exists>j. next_in_set S cur a = Some j \<and> cur < j \<and> j < get_n_tokens a \<and> \<not> ba_used a ! j \<and> ba_seq_set a ! j \<subseteq> S \<and>
     (\<forall>i. cur < i \<and> i < j \<and> \<not> ba_used a ! i \<longrightarrow> \<not> ba_seq_set a ! i \<subseteq> S))"
proof (cases "next_in_set S cur a")
  case (Some j)
  then obtain k where k: "k < get_n_tokens a - (cur + 1)" "j = cur + 1 + k" "\<not> ba_used a ! j" "S \<inter> ba_seq_set a ! j = ba_seq_set a ! j"
    "\<And>l. l < k \<Longrightarrow> \<not> (\<not> ba_used a ! (cur + 1 + l) \<and> S \<inter> ba_seq_set a ! (cur + 1 + l) = ba_seq_set a ! (cur + 1 + l))"
    by (auto simp: next_in_set_def find_Some_iff)
  have "\<not> ba_seq_set a ! i \<subseteq> S" if "cur < i" "i < j" "\<not> ba_used a ! i" for i
  proof -
    have "i = cur + 1 + (i - (cur + 1))" "i - (cur + 1) < k" using that k(2) by simp_all
    then show ?thesis using k(5) [of "i - (cur + 1)"] that(3) by (metis inf.absorb_iff2)
  qed
  then show ?thesis using Some k by (intro disjI2 exI [of _ j]) auto
qed simp

definition seq_run :: "batch_allocr \<Rightarrow> nat \<Rightarrow> nat list \<Rightarrow> bool" where
  "seq_run a cur xs \<longleftrightarrow> (\<exists>ys. xs = cur # ys) \<and> sorted_wrt (<) xs \<and> sorted_wrt (\<lambda>i j. ba_seq_set a ! j \<subseteq> ba_seq_set a ! i) xs \<and>
     (\<forall>j \<in> set xs. j < get_n_tokens a \<and> \<not> ba_used a ! j) \<and>
     (\<forall>j \<in> set xs. \<forall>i. cur \<le> i \<and> i < j \<and> \<not> ba_used a ! i \<and> ba_seq_set a ! i = ba_seq_set a ! j \<longrightarrow> i \<in> set xs)"

lemma seq_loop_ok:
  assumes "length (ba_used a) = get_n_tokens a" "cur < get_n_tokens a" "\<not> ba_used a ! cur" "length idxs < max 1 n_ubatch"
  shows "\<exists>xs b. seq_loop n_ubatch (ba_seq_set a ! cur) cur idxs a = (b, idxs @ xs) \<and> marks xs a b \<and> seq_run a cur xs \<and>
    length idxs + length xs \<le> max 1 n_ubatch"
  using assms
proof (induction "get_n_tokens a - cur" arbitrary: cur idxs a rule: less_induct)
  case less
  let ?a = "take_token cur a" and ?S = "ba_seq_set a ! cur"
  have t: "marks [cur] a ?a" using less.prems(1,2) by (intro marks_take) simp
  have A: "ba_seq_set ?a = ba_seq_set a" "get_n_tokens ?a = get_n_tokens a" by (simp_all add: take_token_def get_n_tokens_def)
  have used: "ba_used ?a ! i \<longleftrightarrow> ba_used a ! i \<or> i = cur" if "i < get_n_tokens a" for i
    using t that less.prems(1) by (simp add: marks_def)
  have single: "seq_run a cur [cur]" using less.prems(2,3) by (auto simp: seq_run_def)
  have u: "seq_loop n_ubatch ?S cur idxs a = (if length idxs + 1 \<ge> n_ubatch then (?a, idxs @ [cur])
    else case next_in_set ?S cur ?a of None \<Rightarrow> (?a, idxs @ [cur]) | Some c \<Rightarrow> seq_loop n_ubatch (ba_seq_set ?a ! c) c (idxs @ [cur]) ?a)"
    by (subst seq_loop.simps) (simp only: Let_def length_append_singleton Suc_eq_plus1)
  have stop: ?case if "seq_loop n_ubatch ?S cur idxs a = (?a, idxs @ [cur])"
    using that t single less.prems(4) by (intro exI [of _ "[cur]"] exI [of _ ?a]) simp
  show ?case
  proof (cases "length idxs + 1 \<ge> n_ubatch \<or> next_in_set ?S cur ?a = None")
    case True
    then show ?thesis using u by (intro stop) auto
  next
    case False
    with next_in_set_props [of ?S cur ?a] obtain c where c: "next_in_set ?S cur ?a = Some c" "cur < c" "c < get_n_tokens a" "\<not> ba_used ?a ! c"
      "ba_seq_set a ! c \<subseteq> ?S" "\<And>i. cur < i \<Longrightarrow> i < c \<Longrightarrow> \<not> ba_used ?a ! i \<Longrightarrow> \<not> ba_seq_set a ! i \<subseteq> ?S" by (auto simp: A)
    have "get_n_tokens ?a - c < get_n_tokens a - cur" "length (ba_used ?a) = get_n_tokens ?a" "c < get_n_tokens ?a" "length (idxs @ [cur]) < max 1 n_ubatch"
      using c(2,3) less.prems(1) False A by (auto simp: take_token_def)
    from less.hyps [OF this(1-3) c(4) this(4)] obtain xs b where
      xs: "seq_loop n_ubatch (ba_seq_set ?a ! c) c (idxs @ [cur]) ?a = (b, (idxs @ [cur]) @ xs)" "marks xs ?a b" "seq_run ?a c xs"
        "length (idxs @ [cur]) + length xs \<le> max 1 n_ubatch" by blast
    note X = xs(3) [unfolded seq_run_def A]
    have below: "\<forall>j \<in> set xs. c \<le> j \<and> ba_seq_set a ! j \<subseteq> ba_seq_set a ! c"
    proof -
      obtain ys where ys: "xs = c # ys" using X by blast
      have "\<forall>j \<in> set ys. c < j \<and> ba_seq_set a ! j \<subseteq> ba_seq_set a ! c" using X unfolding ys by simp
      then show ?thesis unfolding ys by (simp add: less_imp_le)
    qed
    have "seq_run a cur (cur # xs)" unfolding seq_run_def
    proof (intro conjI ballI allI impI)
      fix j assume j: "j \<in> set (cur # xs)"
      show "j < get_n_tokens a" using j X less.prems(2) by auto
      show "\<not> ba_used a ! j" using j X less.prems(3) used by auto
      fix i assume i: "cur \<le> i \<and> i < j \<and> \<not> ba_used a ! i \<and> ba_seq_set a ! i = ba_seq_set a ! j"
      show "i \<in> set (cur # xs)"
      proof (cases "i = cur")
        case False
        then have ci: "cur < i" "j \<in> set xs" using i j by auto
        then have "j < get_n_tokens a" using X by simp
        then have "\<not> ba_used ?a ! i" using used [of i] i ci by simp
        moreover have "ba_seq_set a ! i \<subseteq> ?S" using i ci(2) below c(5) by fastforce
        ultimately have "c \<le> i" using c(6) [OF ci(1)] by (meson not_le_imp_less)
        with X [THEN conjunct2, THEN conjunct2, THEN conjunct2, THEN conjunct2, rule_format, OF ci(2), of i] i \<open>\<not> ba_used ?a ! i\<close>
        show ?thesis by simp
      qed simp
    next
      show "\<exists>ys. cur # xs = cur # ys" by simp
      have "\<forall>j \<in> set xs. cur < j" using below c(2) by (meson less_le_trans)
      with X [THEN conjunct2, THEN conjunct1] show "sorted_wrt (<) (cur # xs)" by simp
      have "\<forall>j \<in> set xs. ba_seq_set a ! j \<subseteq> ?S" using below c(5) by (meson order.trans)
      with X [THEN conjunct2, THEN conjunct2, THEN conjunct1]
      show "sorted_wrt (\<lambda>i j. ba_seq_set a ! j \<subseteq> ba_seq_set a ! i) (cur # xs)" by simp
    qed
    moreover have "marks (cur # xs) a b" using marks_trans [OF t xs(2)] by simp
    ultimately show ?thesis using u False c(1) xs(1,4) by (intro exI [of _ "cur # xs"] exI [of _ b]) simp
  qed
qed

definition seq_good :: "batch_allocr \<Rightarrow> nat \<Rightarrow> llama_ubatch \<Rightarrow> bool" where
  "seq_good a0 n_ubatch ub \<longleftrightarrow> (\<exists>xs. xs \<noteq> [] \<and> length xs \<le> max 1 n_ubatch \<and> ub = built a0 xs 1 True \<and> sorted_wrt (<) xs \<and>
     sorted_wrt (\<lambda>i j. ba_seq_set a0 ! j \<subseteq> ba_seq_set a0 ! i) xs)"

lemma sorted_todo: "sorted_wrt (<) (todo_list a)"
  by (simp add: todo_list_def sorted_wrt_filter)

lemma mem_todo: "i \<in> set (todo_list a) \<longleftrightarrow> i < get_n_tokens a \<and> \<not> ba_used a ! i"
  by (auto simp: todo_list_def)

lemma split_seq_step:
  assumes inv: "alloc_inv a0 a"
  shows "(split_seq n_ubatch a = Some (a, None) \<and> todo_list a = []) \<or>
    (\<exists>b ub. split_seq n_ubatch a = Some (b, Some ub) \<and> alloc_inv a0 b \<and> seq_good a0 n_ubatch ub \<and>
      ub_batch_idxs ub \<noteq> [] \<and> takes ((!) (ba_seq_set a0)) (ub_batch_idxs ub) a b)"
proof -
  have len: "length (ba_used a) = get_n_tokens a" using alloc_inv_len [OF inv] by simp
  have st: "static_part a = static_part a0" using inv by (simp add: alloc_inv_def)
  note ss = static_part_eq(2) [OF st]
  let ?k = "first_unused a"
  show ?thesis
  proof (cases "todo_list a = []")
    case True
    then show ?thesis using first_unused_todo(1) [OF len] by (simp add: split_seq_def Let_def)
  next
    case False
    note F = first_unused_todo(2) [OF len False]
    have "length ([] :: nat list) < max 1 n_ubatch" by simp
    from seq_loop_ok [OF len _ _ this, of ?k] F len obtain xs b where
      xs: "seq_loop n_ubatch (ba_seq_set a ! ?k) ?k [] a = (b, xs)" "marks xs a b" "seq_run a ?k xs" "length xs \<le> max 1 n_ubatch" by auto
    note X = xs(3) [unfolded seq_run_def ss]
    have ne: "xs \<noteq> []" using X by auto
    have "static_part b = static_part a0" using xs(2) st by (simp add: marks_def)
    from ubatch_add_ok [OF this, of 1 xs True] xs(1) F obtain x where
      s: "split_seq n_ubatch a = Some (b\<lparr>ba_out_ids := x\<rparr>, Some (built a0 xs 1 True))" by (auto simp: split_seq_def Let_def)
    have idxs: "ub_batch_idxs (built a0 xs 1 True) = xs" by (simp add: built_simps)
    have take: "takes ((!) (ba_seq_set a0)) xs a b"
    proof (rule takes_prefix [OF xs(2) len])
      fix S
      let ?P = "\<lambda>i. ba_seq_set a0 ! i = S"
      have "filter ?P xs = take (length (filter ?P xs)) (filter ?P (todo_list a))"
      proof (rule down_closed_take)
        fix i j assume ij: "j \<in> set (filter ?P xs)" "i \<in> set (filter ?P (todo_list a))" "i < j"
        have "\<not> i < ?k" using first_unused_todo(3) [OF len, of i] ij(2) by (auto simp: mem_todo)
        then have "?k \<le> i" by simp
        then show "i \<in> set (filter ?P xs)" using ij X by (auto simp: mem_todo)
      qed (use X sorted_todo in \<open>auto simp: sorted_wrt_filter mem_todo\<close>)
      then show "\<exists>m. filter ?P xs = take m (filter ?P (todo_list a))" by blast
    qed
    moreover have "alloc_inv a0 b" by (rule marks_inv [OF inv xs(2) take])
    moreover have "seq_good a0 n_ubatch (built a0 xs 1 True)" unfolding seq_good_def using X ne xs(4) by blast
    ultimately show ?thesis using s idxs ne
      by (intro disjI2 exI [of _ "b\<lparr>ba_out_ids := x\<rparr>"] exI [of _ "built a0 xs 1 True"]) simp
  qed
qed

interpretation by_seq: splitter "split_seq n_ubatch" "alloc_inv a0" "(!) (ba_seq_set a0)" "seq_good a0 n_ubatch"
  for n_ubatch a0
  by unfold_locales (rule split_seq_step)

end
