(* ===== verification/Batch_Equal.thy ===== *)
theory Batch_Equal
  imports Batch_Split
begin

section \<open>Ubatches of equal sequences\<close>

text \<open>
  The equal split keeps, per sequence set, the used tokens a prefix of the tokens of the set: it takes the next
  \<open>u\<close> tokens of each of \<open>k\<close> pairwise disjoint sets. The invariant is \<open>equal_inv\<close>, the shape of what comes out
  \<open>equal_good\<close>; together they make \<open>split_equal\<close> an instance of \<open>splitter\<close>.
\<close>

subsection \<open>The tokens of a sequence set\<close>

lemma mem_set_map: "i \<in> set (set_map seqs S) \<longleftrightarrow> i < length seqs \<and> set (seqs ! i) = S"
  by (auto simp: set_map_def)

lemma distinct_set_map [simp]: "distinct (set_map seqs S)"
  by (simp add: set_map_def)

definition n_first :: "batch_allocr \<Rightarrow> int set \<Rightarrow> nat" where
  "n_first a S = length (takeWhile (\<lambda>i. ba_used a ! i) (ba_seq_set_map a S))"

definition class_prefix :: "batch_allocr \<Rightarrow> bool" where
  "class_prefix a \<longleftrightarrow> (\<forall>S. \<exists>k. \<forall>j < length (ba_seq_set_map a S). ba_used a ! (ba_seq_set_map a S ! j) \<longleftrightarrow> j < k)"

lemma class_prefixD:
  assumes "class_prefix a" "j < length (ba_seq_set_map a S)"
  shows "ba_used a ! (ba_seq_set_map a S ! j) \<longleftrightarrow> j < n_first a S"
proof -
  let ?m = "ba_seq_set_map a S" and ?U = "\<lambda>i. ba_used a ! i"
  from assms(1) obtain k where k: "\<And>j. j < length ?m \<Longrightarrow> ?U (?m ! j) \<longleftrightarrow> j < k" unfolding class_prefix_def by blast
  show ?thesis
  proof
    assume "j < n_first a S"
    then have "takeWhile ?U ?m ! j \<in> set (takeWhile ?U ?m)" "takeWhile ?U ?m ! j = ?m ! j"
      using nth_mem [of j "takeWhile ?U ?m"] by (simp_all add: n_first_def takeWhile_nth del: nth_mem)
    then show "?U (?m ! j)" using set_takeWhileD by fastforce
  next
    assume u: "?U (?m ! j)"
    show "j < n_first a S"
    proof (rule ccontr)
      assume j: "\<not> j < n_first a S"
      then have l: "n_first a S < length ?m" using assms(2) by simp
      then have "\<not> ?U (?m ! n_first a S)" using nth_length_takeWhile [of ?U ?m] by (simp add: n_first_def)
      then have "\<not> n_first a S < k" using k [OF l] by simp
      then show False using u j k [OF assms(2)] by simp
    qed
  qed
qed

lemma n_first_le: "n_first a S \<le> length (ba_seq_set_map a S)"
  by (simp add: n_first_def length_takeWhile_le)

lemma todo_class:
  assumes "alloc_inv a0 a" "class_prefix a"
  shows "filter (\<lambda>i. ba_seq_set a0 ! i = S) (todo_list a) = drop (n_first a S) (ba_seq_set_map a S)"
proof -
  let ?m = "ba_seq_set_map a S" and ?n = "get_n_tokens a"
  note st = static_part_eq [of a a0]
  have ok: "static_part a = static_part a0" "alloc_ok a0" using assms(1) by (simp_all add: alloc_inv_def)
  have m: "?m = filter (\<lambda>i. ba_seq_set a0 ! i = S) [0..<?n]"
    unfolding static_part_eq(3) [OF ok(1)] using ok(2) static_part_eq(1) [OF ok(1)]
    by (auto simp: alloc_ok_def set_map_def get_n_tokens_def intro!: filter_cong)
  have "filter (\<lambda>i. ba_seq_set a0 ! i = S) (todo_list a) = filter (\<lambda>i. \<not> ba_used a ! i) ?m"
    unfolding m todo_list_def filter_filter by (intro filter_cong) auto
  also have "\<dots> = filter (\<lambda>i. \<not> ba_used a ! i) (take (n_first a S) ?m) @ filter (\<lambda>i. \<not> ba_used a ! i) (drop (n_first a S) ?m)"
    by (metis append_take_drop_id filter_append)
  also have "filter (\<lambda>i. \<not> ba_used a ! i) (take (n_first a S) ?m) = []"
    using class_prefixD [OF assms(2), of _ S] n_first_le [of a S] by (auto simp: filter_empty_conv in_set_conv_nth)
  also have "filter (\<lambda>i. \<not> ba_used a ! i) (drop (n_first a S) ?m) = drop (n_first a S) ?m"
    using class_prefixD [OF assms(2), of _ S] by (auto simp: filter_id_conv in_set_conv_nth)
  finally show ?thesis by simp
qed

subsection \<open>Choosing the sets\<close>

definition picked :: "batch_allocr \<Rightarrow> bool \<Rightarrow> int set list \<Rightarrow> bool" where
  "picked a sequential sets \<longleftrightarrow> sorted_wrt (\<lambda>S T. S \<inter> T = {}) sets \<and>
     (\<forall>S \<in> set sets. \<exists>i < get_n_tokens a. \<not> ba_used a ! i \<and> S = ba_seq_set a ! i) \<and>
     (sequential \<longrightarrow> (\<exists>s. sets = map (\<lambda>k. {s + int k}) [0..<length sets]))"

lemma pick_sets_ok:
  assumes "alloc_ok a" "sequential \<longrightarrow> \<not> ba_has_cpl a" "set todo \<subseteq> {..<get_n_tokens a}" "picked a sequential sets" "length sets \<le> n_ubatch"
    "sequential \<and> sets \<noteq> [] \<longrightarrow> last sets = {last_id}"
  shows "picked a sequential (pick_sets a sequential filt n_ubatch todo sets last_id first_id) \<and>
    length (pick_sets a sequential filt n_ubatch todo sets last_id first_id) \<le> n_ubatch + 1 \<and>
    (pick_sets a sequential filt n_ubatch todo sets last_id first_id = [] \<longleftrightarrow> sets = [] \<and> (\<forall>i \<in> set todo. ba_used a ! i))"
  using assms
proof (induction todo arbitrary: sets last_id first_id)
  case (Cons i todo)
  let ?id0 = "ba_seq_id a ! i ! 0"
  let ?add = "(\<forall>S \<in> set sets. S \<inter> ba_seq_set a ! i = {}) \<and> (sequential \<longrightarrow> sets = [] \<or> ?id0 = last_id + 1) \<and>
    (case filt of None \<Rightarrow> True | Some f \<Rightarrow> sets = [] \<or> (\<forall>s \<in> set (ba_seq_id a ! i). f first_id s))"
  let ?sets = "sets @ [ba_seq_set a ! i]"
  have i: "i < get_n_tokens a" "set todo \<subseteq> {..<get_n_tokens a}" using Cons.prems(3) by auto
  show ?case
  proof (cases "ba_used a ! i \<or> \<not> ?add")
    case True
    then have "sets = [] \<longrightarrow> ba_used a ! i" by (cases filt) auto
    then show ?thesis using True Cons.IH [OF Cons.prems(1,2) i(2) Cons.prems(4-6), of first_id]
      by (cases "ba_used a ! i") (auto simp: Let_def)
  next
    case False
    have one: "ba_seq_set a ! i = {?id0}" if sequential
      using alloc_okD(1,6) [OF Cons.prems(1) i(1)] Cons.prems(2) that by (metis hd_conv_nth list.set(1) list.simps(15) not_Cons_self2)
    have p: "picked a sequential ?sets" unfolding picked_def
    proof (intro conjI impI)
      show "sorted_wrt (\<lambda>S T. S \<inter> T = {}) ?sets" using Cons.prems(4) False by (simp add: picked_def sorted_wrt_append)
      show "\<forall>S \<in> set ?sets. \<exists>i < get_n_tokens a. \<not> ba_used a ! i \<and> S = ba_seq_set a ! i"
        using Cons.prems(4) False i(1) by (auto simp: picked_def)
      assume sequential
      with Cons.prems(4) obtain s where s: "sets = map (\<lambda>k. {s + int k}) [0..<length sets]" by (auto simp: picked_def)
      have "\<exists>s. ?sets = map (\<lambda>k. {s + int k}) [0..<Suc (length sets)]"
      proof (cases "sets = []")
        case True
        then show ?thesis using one [OF \<open>sequential\<close>] by simp
      next
        case False
        have "last sets = sets ! (length sets - 1)" using False by (rule last_conv_nth)
        also have "\<dots> = {s + int (length sets - 1)}" using False by (subst s) simp
        finally have "s + int (length sets) = last_id + 1" using False Cons.prems(6) \<open>sequential\<close> by (cases "length sets") auto
        then have "ba_seq_set a ! i = {s + int (length sets)}"
          using one [OF \<open>sequential\<close>] \<open>sequential\<close> False \<open>\<not> (ba_used a ! i \<or> \<not> ?add)\<close> by simp
        then show ?thesis using s by (intro exI [of _ s]) simp
      qed
      then show "\<exists>s. ?sets = map (\<lambda>k. {s + int k}) [0..<length ?sets]" by simp
    qed
    show ?thesis
    proof (cases "length ?sets > n_ubatch")
      case True
      then show ?thesis using False p Cons.prems(5) by (simp add: Let_def)
    next
      case short: False
      have "sequential \<and> ?sets \<noteq> [] \<longrightarrow> last ?sets = {?id0}" using one by simp
      from Cons.IH [OF Cons.prems(1,2) i(2) p _ this, of "if sets = [] then ?id0 else first_id"] short
      show ?thesis using False by (simp add: Let_def)
    qed
  qed
qed simp

subsection \<open>Taking the tokens\<close>

lemma mset_concat_heads:
  "mset (concat (map (\<lambda>s. x s # f s) [0..<n])) = mset (map x [0..<n] @ concat (map f [0..<n]))"
  by (induction n) simp_all

lemma marks_mset: "marks xs a b \<Longrightarrow> mset ys = mset xs \<Longrightarrow> marks ys a b"
  by (metis marks_perm set_mset_mset size_mset)

definition took :: "nat \<Rightarrow> nat list list \<Rightarrow> nat list \<Rightarrow> nat \<Rightarrow> nat list" where
  "took u ms cur s = take u (drop (cur ! s) (ms ! s))"

lemma took_Suc:
  "cur ! s < length (ms ! s) \<Longrightarrow> s < length cur \<Longrightarrow> cur' ! s = cur ! s + 1 \<Longrightarrow> took (Suc u) ms cur s = ms ! s ! (cur ! s) # took u ms cur' s"
  by (simp add: took_def Cons_nth_drop_Suc [symmetric])

definition off_grid :: "batch_allocr \<Rightarrow> nat list list \<Rightarrow> nat list \<Rightarrow> nat \<Rightarrow> bool" where
  "off_grid a ms cur t \<longleftrightarrow> (\<forall>u. 0 < u \<and> u < t \<longrightarrow> (\<forall>s < length ms. \<not> split_on_grid a (ms ! s ! (cur ! s + u))))"

lemma if_or: "(if A \<or> B then x else y) = (if A then x else if B then x else y)"
  by simp

lemma expand_ok:
  assumes "ms \<noteq> []" "length cur = length ms" "length idxs = length ms" "\<forall>s < length ms. cur ! s \<le> length (ms ! s)"
    "\<forall>m \<in> set ms. \<forall>i \<in> set m. i < length (ba_used a)"
  shows "\<exists>t b. expand n_ubatch ms cur idxs a =
      (b, map (\<lambda>s. cur ! s + t) [0..<length ms], map (\<lambda>s. idxs ! s @ took t ms cur s) [0..<length ms]) \<and>
    (\<forall>s < length ms. cur ! s + t \<le> length (ms ! s)) \<and> marks (concat (map (took t ms cur) [0..<length ms])) a b \<and>
    ((\<forall>s < length ms. cur ! s < length (ms ! s)) \<longrightarrow> 0 < t) \<and>
    (length (idxs ! 0) + t) * length ms \<le> max n_ubatch ((length (idxs ! 0) + (if t = 0 then 0 else 1)) * length ms) \<and> off_grid a ms cur t"
  using assms
proof (induction "length (ms ! 0) - cur ! 0" arbitrary: cur idxs a rule: less_induct)
  case less
  let ?L = "length ms"
  let ?now = "map (\<lambda>s. ms ! s ! (cur ! s)) [0..<?L]"
  let ?idxs = "map (\<lambda>s. idxs ! s @ [?now ! s]) [0..<?L]" and ?a = "fold take_token ?now a" and ?cur = "map (\<lambda>s. cur ! s + 1) [0..<?L]"
  have took0: "took 0 ms c s = []" for c s by (simp add: took_def)
  show ?case
  proof (cases "\<forall>s < ?L. cur ! s < length (ms ! s)")
    case False
    then have "expand n_ubatch ms cur idxs a = (a, cur, idxs)" by (subst expand.simps) auto
    moreover have "concat (map (took 0 ms cur) [0..<?L]) = []" by (simp add: took0)
    then have "marks (concat (map (took 0 ms cur) [0..<?L])) a a" by (simp only: marks_nil)
    ultimately show ?thesis using False less.prems
      by (intro exI [of _ 0] exI [of _ a]) (auto simp: took0 off_grid_def map_nth [symmetric] intro: nth_equalityI)
  next
    case True
    define P where "P \<longleftrightarrow> (length (?idxs ! 0) + 1) * ?L > n_ubatch \<or>
      (ba_split_pos_grid ?a > 0 \<and> (\<exists>s < ?L. ?cur ! s < length (ms ! s) \<and> split_on_grid ?a (ms ! s ! (?cur ! s))))"
    have u: "expand n_ubatch ms cur idxs a = (if P then (?a, ?cur, ?idxs) else expand n_ubatch ms ?cur ?idxs ?a)"
      unfolding P_def if_or by (subst expand.simps) (simp only: Let_def eqTrueI [OF True] less.prems(1) simp_thms if_False)
    have mem: "\<forall>i \<in> set ?now. i < length (ba_used a)" 
    proof
      fix i assume "i \<in> set ?now"
      then obtain s where "s < ?L" "i = ms ! s ! (cur ! s)" by auto
      with less.prems(5) True show "i < length (ba_used a)" by (metis nth_mem)
    qed
    have m1: "marks ?now a ?a" by (rule marks_fold [OF mem])
    have one: "took 1 ms cur s = [ms ! s ! (cur ! s)]" if "s < ?L" for s
      using True that by (simp add: took_def Cons_nth_drop_Suc [symmetric])
    have L: "0 < ?L" using less.prems(1) by simp
    show ?thesis
    proof (cases P)
      case stop: True
      have "concat (map (took 1 ms cur) [0..<?L]) = concat (map (\<lambda>s. [ms ! s ! (cur ! s)]) [0..<?L])"
        using one by (intro arg_cong [where f = concat] map_cong) auto
      also have "\<dots> = ?now" by (simp add: concat_map_singleton)
      finally have "marks (concat (map (took 1 ms cur) [0..<?L])) a ?a" using m1 by simp
      then show ?thesis using u stop True one by (intro exI [of _ 1] exI [of _ ?a]) (simp add: off_grid_def Suc_le_eq)
    next
      case False
      have len: "length (ba_used ?a) = length (ba_used a)" using m1 by (simp add: marks_def)
      have "length (ms ! 0) - ?cur ! 0 < length (ms ! 0) - cur ! 0" using True L by auto
      from less.hyps [OF this less.prems(1), of ?idxs ?a] True less.prems(5) len obtain t b where
        t: "expand n_ubatch ms ?cur ?idxs ?a = (b, map (\<lambda>s. ?cur ! s + t) [0..<?L], map (\<lambda>s. ?idxs ! s @ took t ms ?cur s) [0..<?L])"
        "\<forall>s < ?L. ?cur ! s + t \<le> length (ms ! s)" "marks (concat (map (took t ms ?cur) [0..<?L])) ?a b"
        "(length (?idxs ! 0) + t) * ?L \<le> max n_ubatch ((length (?idxs ! 0) + (if t = 0 then 0 else 1)) * ?L)" "off_grid ?a ms ?cur t"
        by (auto simp: Suc_le_eq simp del: upt_Suc)
      have tk: "took (Suc t) ms cur s = ms ! s ! (cur ! s) # took t ms ?cur s" if "s < ?L" for s
        using True that less.prems(2) by (intro took_Suc) auto
      have "marks (?now @ concat (map (took t ms ?cur) [0..<?L])) a b" by (rule marks_trans [OF m1 t(3)])
      moreover have "concat (map (took (Suc t) ms cur) [0..<?L]) = concat (map (\<lambda>s. ms ! s ! (cur ! s) # took t ms ?cur s) [0..<?L])"
        using tk by (intro arg_cong [where f = concat] map_cong) auto
      ultimately have m: "marks (concat (map (took (Suc t) ms cur) [0..<?L])) a b" by (simp add: marks_mset mset_concat_heads)
      have id0: "length (?idxs ! 0) = length (idxs ! 0) + 1" using L by simp
      have "(length (idxs ! 0) + 1 + 1) * ?L \<le> n_ubatch" using False id0 unfolding P_def by (metis not_le_imp_less)
      then have bound: "(length (idxs ! 0) + Suc t) * ?L \<le> n_ubatch" using t(4) id0 by (auto split: if_splits)
      have grid: "off_grid a ms cur (Suc t)" unfolding off_grid_def
      proof (intro allI impI)
        fix v s assume v: "0 < v \<and> v < Suc t" "s < ?L"
        have g: "split_on_grid ?a = split_on_grid a" using m1 split_on_grid_static [of ?a a] by (simp add: marks_def)
        have "static_part ?a = static_part a" using m1 by (simp add: marks_def)
        note st = static_part_eq(7) [OF this]
        show "\<not> split_on_grid a (ms ! s ! (cur ! s + v))"
        proof (cases "v = 1")
          case True
          have "cur ! s + 1 < length (ms ! s)" using t(2) v True by (auto simp: Suc_le_eq)
          moreover have "split_on_grid a x \<Longrightarrow> ba_split_pos_grid a > 0" for x by (simp add: split_on_grid_def)
          ultimately show ?thesis using False v True unfolding P_def g st by auto
        next
          case False
          then have "\<not> split_on_grid a (ms ! s ! (?cur ! s + (v - 1)))"
            using t(5) [unfolded off_grid_def g, rule_format, of "v - 1" s] v False by (simp add: less_diff_conv2)
          moreover have "?cur ! s + (v - 1) = cur ! s + v" using v by simp
          ultimately show ?thesis by simp
        qed
      qed
      show ?thesis using u False t(1,2) tk m bound grid True
        by (intro exI [of _ "Suc t"] exI [of _ b]) (auto simp del: upt_Suc)
    qed
  qed
qed

subsection \<open>Keeping tails together\<close>

lemma cut_back_eq: "k \<le> length idxs \<Longrightarrow> cut_back k idxs a = (fold put_back (rev (drop (length idxs - k) idxs)) a, take (length idxs - k) idxs)"
proof (induction k arbitrary: idxs a)
  case (Suc k)
  then obtain ys y where y: "idxs = ys @ [y]" by (cases idxs rule: rev_cases) auto
  with Suc show ?case by (simp add: Suc_diff_le)
qed simp

text \<open>The state after the sets before \<open>k\<close> keep \<open>u\<close> tokens each.\<close>

definition kept :: "nat \<Rightarrow> nat \<Rightarrow> nat list list \<Rightarrow> nat list \<Rightarrow> nat \<Rightarrow> nat \<Rightarrow> bool" where
  "kept n_ubatch tail ms cur k u \<longleftrightarrow> 0 < k \<and> 0 < u \<and> k \<le> length ms \<and> k * u \<le> max n_ubatch k \<and> (\<forall>s < k. cur ! s + u \<le> length (ms ! s) \<and>
     (cur ! s + u = length (ms ! s) \<or> cur ! s + u + tail \<le> length (ms ! s)))"

lemma sets_split:
  "k \<le> n \<Longrightarrow> concat (map f [0..<n]) = concat (map f [0..<k]) @ concat (map f [k..<n])"
  using upt_add_eq_append [of 0 k "n - k"] by simp

lemma took_append: "took (u + v) ms cur s = took u ms cur s @ take v (drop (cur ! s + u) (ms ! s))"
  by (simp add: took_def take_add add.commute)

lemma marks_sub: "marks xs a b \<Longrightarrow> mset (ys @ zs) = mset xs \<Longrightarrow> distinct xs \<Longrightarrow> \<forall>i \<in> set xs. i < length (ba_used a) \<and> \<not> ba_used a ! i \<Longrightarrow>
    marks ys a (fold put_back zs b)"
proof -
  assume a: "marks xs a b" "mset (ys @ zs) = mset xs" "distinct xs" "\<forall>i \<in> set xs. i < length (ba_used a) \<and> \<not> ba_used a ! i"
  have "distinct (ys @ zs)" "set (ys @ zs) = set xs" using a(2,3) by (metis mset_eq_imp_distinct_iff, metis mset_eq_setD)
  then show ?thesis using a(4) by (intro marks_put_backs [OF marks_mset [OF a(1,2)]]) auto
qed

text \<open>Where the next tokens of the sets stand: the sets are disjoint, what is left of them is unused.\<close>

definition fresh :: "batch_allocr \<Rightarrow> nat list list \<Rightarrow> nat list \<Rightarrow> bool" where
  "fresh a ms cur \<longleftrightarrow> (\<forall>s < length ms. distinct (ms ! s) \<and> (\<forall>r < length ms. r \<noteq> s \<longrightarrow> set (ms ! s) \<inter> set (ms ! r) = {}) \<and>
     (\<forall>i \<in> set (drop (cur ! s) (ms ! s)). i < length (ba_used a) \<and> \<not> ba_used a ! i))"

lemma took_sub: "set (took u ms cur s) \<subseteq> set (drop (cur ! s) (ms ! s))"
  by (simp add: took_def set_take_subset)

lemma fresh_took:
  assumes "fresh a ms cur" "k \<le> length ms"
  shows "distinct (concat (map (\<lambda>s. took (v s) ms cur s) [0..<k]))"
    "\<forall>i \<in> set (concat (map (\<lambda>s. took (v s) ms cur s) [0..<k])). i < length (ba_used a) \<and> \<not> ba_used a ! i"
proof -
  have sub: "set (took u ms cur s) \<subseteq> set (ms ! s)" for u s using took_sub set_drop_subset by (metis subset_trans)
  show "distinct (concat (map (\<lambda>s. took (v s) ms cur s) [0..<k]))" using assms(2)
  proof (induction k)
    case (Suc k)
    have "distinct (took (v k) ms cur k)" using assms(1) Suc.prems by (simp add: fresh_def took_def)
    moreover have "set (took (v s) ms cur s) \<inter> set (took (v k) ms cur k) = {}" if "s < k" for s
    proof -
      have "set (ms ! k) \<inter> set (ms ! s) = {}" using assms(1) Suc.prems that by (simp add: fresh_def)
      then show ?thesis using sub [of "v s" s] sub [of "v k" k] by blast
    qed
    then have "set (concat (map (\<lambda>s. took (v s) ms cur s) [0..<k])) \<inter> set (took (v k) ms cur k) = {}" by fastforce
    ultimately show ?case using Suc by (simp del: set_concat)
  qed simp
  show "\<forall>i \<in> set (concat (map (\<lambda>s. took (v s) ms cur s) [0..<k])). i < length (ba_used a) \<and> \<not> ba_used a ! i"
  proof
    fix i assume "i \<in> set (concat (map (\<lambda>s. took (v s) ms cur s) [0..<k]))"
    then obtain s where s: "s < k" "i \<in> set (took (v s) ms cur s)" by auto
    then have "i \<in> set (drop (cur ! s) (ms ! s))" "s < length ms" using assms(2) took_sub by (blast, simp)
    then show "i < length (ba_used a) \<and> \<not> ba_used a ! i" using assms(1) unfolding fresh_def by blast
  qed
qed

lemma sets_first: "0 < n \<Longrightarrow> concat (map f [0..<n]) = f 0 @ concat (map f [1..<n])"
  by (simp add: upt_conv_Cons)

lemma keep_tail_ok:
  assumes fresh: "fresh a ms cur" and L: "ms \<noteq> []" and t: "0 < t" "t * length ms \<le> max n_ubatch (length ms)"
    "\<forall>s < length ms. cur ! s + t \<le> length (ms ! s)" and tail: "tail = 0 \<or> tail < n_ubatch"
    and m: "marks (concat (map (took t ms cur) [0..<length ms])) a b"
  shows "\<exists>k u c. keep_tail n_ubatch tail ms (map (\<lambda>s. cur ! s + t) [0..<length ms]) (map (took t ms cur) [0..<length ms]) b =
      Some (c, map (took u ms cur) [0..<k]) \<and> kept n_ubatch tail ms cur k u \<and> marks (concat (map (took u ms cur) [0..<k])) a c"
proof -
  let ?L = "length ms" and ?cur = "map (\<lambda>s. cur ! s + t) [0..<length ms]" and ?idxs = "map (took t ms cur) [0..<length ms]"
  have L0: "0 < ?L" using L by simp
  have tk: "k * t \<le> max n_ubatch k" if "k \<le> ?L" for k
  proof (cases "t * ?L \<le> n_ubatch")
    case True
    have "k * t \<le> t * ?L" using that by (simp add: mult.commute)
    from order.trans [OF this True] show ?thesis by simp
  next
    case False
    then have "t * ?L \<le> 1 * ?L" using t(2) by (simp only: le_max_iff_disj) simp
    then have "t \<le> 1" using L0 mult_le_cancel2 [of t ?L 1] by blast
    then have "t = 1" using t(1) by simp
    then show ?thesis by simp
  qed
  note D = fresh_took [OF fresh]
  let ?rem = "\<lambda>s. length (ms ! s) - ?cur ! s" and ?n = "n_kept tail ms ?cur"
  show ?thesis
  proof (cases "tail = 0")
    case True
    then have "keep_tail n_ubatch tail ms ?cur ?idxs b = Some (b, ?idxs)" by (simp add: keep_tail_def)
    moreover have "kept n_ubatch tail ms cur ?L t" using t L0 tk True by (simp add: kept_def)
    ultimately show ?thesis using m by (intro exI [of _ ?L] exI [of _ t] exI [of _ b]) simp
  next
    case False
    with tail have tl: "0 < tail" "tail < n_ubatch" by auto
    have nL: "?n \<le> ?L" using length_takeWhile_le [of _ "[0..<?L]"] by (simp add: n_kept_def)
    have n_ok: "?rem s = 0 \<or> tail \<le> ?rem s" if "s < ?n" for s
    proof -
      let ?Q = "\<lambda>s. ?rem s = 0 \<or> tail \<le> ?rem s"
      have "takeWhile ?Q [0..<?L] ! s \<in> set (takeWhile ?Q [0..<?L])" using that by (simp add: n_kept_def)
      moreover have "takeWhile ?Q [0..<?L] ! s = s" using that nL by (simp add: n_kept_def takeWhile_nth)
      ultimately show ?thesis using set_takeWhileD [of s ?Q] by simp
    qed
    show ?thesis
    proof (cases "?n = 0")
      case False
      have "keep_tail n_ubatch tail ms ?cur ?idxs b = Some (fold put_back (concat (map (took t ms cur) [?n..<?L])) b, map (took t ms cur) [0..<?n])"
        using False tl nL by (simp add: keep_tail_def Let_def take_map drop_map take_upt drop_upt)
      moreover have "kept n_ubatch tail ms cur ?n t"
        unfolding kept_def
      proof (intro conjI allI impI)
        fix s assume s: "s < ?n"
        then have sL: "s < ?L" "?cur ! s = cur ! s + t" using nL by simp_all
        then show "cur ! s + t \<le> length (ms ! s)" using t(3) by simp
        then show "cur ! s + t = length (ms ! s) \<or> cur ! s + t + tail \<le> length (ms ! s)" using n_ok [OF s] sL(2) by auto
      qed (use False t nL tk [OF nL] in simp_all)
      moreover have "marks (concat (map (took t ms cur) [0..<?n])) a (fold put_back (concat (map (took t ms cur) [?n..<?L])) b)"
        by (rule marks_sub [OF m _ D [OF order.refl]]) (simp add: sets_split [OF nL])
      ultimately show ?thesis by blast
    next
      case True
      have "\<not> (?rem 0 = 0 \<or> tail \<le> ?rem 0)"
        using True L0 by (auto simp: n_kept_def upt_conv_Cons split: if_splits)
      then have r: "0 < ?rem 0" "?rem 0 < tail" by auto
      obtain d l where dl: "resolve_first n_ubatch tail (ms ! 0) (?cur ! 0) (took t ms cur 0) b = (d, l)" by fastforce
      have kt: "keep_tail n_ubatch tail ms ?cur ?idxs b = Some (fold put_back (concat (map (took t ms cur) [1..<?L])) d, [l])"
      proof -
        have "?idxs = took t ms cur 0 # map (took t ms cur) [1..<?L]" using L0 by (simp add: upt_conv_Cons)
        then show ?thesis using True tl dl by (simp add: keep_tail_def Let_def)
      qed
      have c0: "?cur ! 0 = cur ! 0 + t" "length (took t ms cur 0) = t" using L0 t(3) by (auto simp: took_def)
      have "\<exists>u. l = took u ms cur 0 \<and> kept n_ubatch tail ms cur 1 u \<and> marks (took u ms cur 0) a (fold put_back (concat (map (took t ms cur) [1..<?L])) d)"
      proof (cases "t + ?rem 0 \<le> n_ubatch")
        case True
        let ?R = "drop (cur ! 0 + t) (ms ! 0)" and ?u = "t + ?rem 0"
        have d: "d = fold take_token ?R b" "l = took t ms cur 0 @ ?R" using True dl c0 L0 by (simp_all add: resolve_first_def)
        have l: "l = took ?u ms cur 0" using d(2) c0(1) by (simp add: took_append)
        have "\<forall>i \<in> set ?R. i < length (ba_used b)"
        proof
          fix i assume "i \<in> set ?R"
          then have "i \<in> set (drop (cur ! 0) (ms ! 0))" using set_drop_subset_set_drop [of "cur ! 0" "cur ! 0 + t" "ms ! 0"] by auto
          then show "i < length (ba_used b)" using fresh L0 m by (auto simp: fresh_def marks_def)
        qed
        from marks_trans [OF m marks_fold [OF this]] have "marks (concat ?idxs @ ?R) a d" by (simp add: d)
        then have m': "marks (concat (map (\<lambda>s. took (if s = 0 then ?u else t) ms cur s) [0..<?L])) a d"
        proof (rule marks_mset)
          have "concat (map (\<lambda>s. took (if s = 0 then ?u else t) ms cur s) [0..<?L]) = l @ concat (map (took t ms cur) [1..<?L])"
            unfolding sets_first [OF L0] l by (auto intro!: arg_cong [where f = concat])
          then show "mset (concat (map (\<lambda>s. took (if s = 0 then ?u else t) ms cur s) [0..<?L])) = mset (concat ?idxs @ ?R)"
            unfolding sets_first [OF L0, of "took t ms cur"] d(2) by simp
        qed
        have "marks l a (fold put_back (concat (map (took t ms cur) [1..<?L])) d)"
        proof (rule marks_sub [OF m' _ D [OF order.refl]])
          show "mset (l @ concat (map (took t ms cur) [1..<?L])) = mset (concat (map (\<lambda>s. took (if s = 0 then ?u else t) ms cur s) [0..<?L]))"
            unfolding sets_first [OF L0] l by (auto intro!: arg_cong [where f = "\<lambda>x. mset (concat x)"])
        qed
        moreover have "kept n_ubatch tail ms cur 1 ?u" using t(1,3) L0 True c0 r by (auto simp: kept_def Suc_le_eq)
        ultimately show ?thesis using l by auto
      next
        case False
        let ?k = "tail - ?rem 0" and ?u = "t - (tail - ?rem 0)"
        let ?D = "drop ?u (took t ms cur 0)"
        have k: "?k < t" using False tl r by simp
        have d: "d = fold put_back (rev ?D) b" "l = take ?u (took t ms cur 0)"
          using False dl c0 k L0 cut_back_eq [of ?k "took t ms cur 0" b] by (simp_all add: resolve_first_def)
        have l: "l = took ?u ms cur 0" using d(2) by (simp add: took_def)
        have "marks l a (fold put_back (rev ?D @ concat (map (took t ms cur) [1..<?L])) b)"
        proof (rule marks_sub [OF m _ D [OF order.refl]])
          have "mset (took t ms cur 0) = mset l + mset ?D" unfolding d(2) by (metis append_take_drop_id mset_append)
          then show "mset (l @ rev ?D @ concat (map (took t ms cur) [1..<?L])) = mset (concat ?idxs)"
            unfolding sets_first [OF L0, of "took t ms cur"] by simp
        qed
        then have "marks l a (fold put_back (concat (map (took t ms cur) [1..<?L])) d)" using d(1) by simp
        moreover have "?u \<le> max n_ubatch 1" using tk [of 1] L0 by (simp add: Suc_le_eq)
        then have "kept n_ubatch tail ms cur 1 ?u" using t(1,3) L0 c0 r k by (auto simp: kept_def Suc_le_eq)
        ultimately show ?thesis using l by auto
      qed
      then obtain u where "l = took u ms cur 0" "kept n_ubatch tail ms cur 1 u"
        "marks (took u ms cur 0) a (fold put_back (concat (map (took t ms cur) [1..<?L])) d)" by blast
      with kt show ?thesis by (intro exI [of _ 1] exI [of _ u]) simp
    qed
  qed
qed

subsection \<open>The split\<close>

lemma filter_took:
  assumes "\<And>s i. s < k \<Longrightarrow> i \<in> set (f s) \<Longrightarrow> key i = sets ! s" "distinct sets" "k \<le> length sets"
  shows "(\<exists>s < k. sets ! s = S \<and> filter (\<lambda>i. key i = S) (concat (map f [0..<k])) = f s) \<or>
    ((\<forall>s < k. sets ! s \<noteq> S) \<and> filter (\<lambda>i. key i = S) (concat (map f [0..<k])) = [])"
  using assms(1,3)
proof (induction k)
  case (Suc k)
  have f: "filter (\<lambda>i. key i = S) (f k) = (if sets ! k = S then f k else [])"
    using Suc.prems(1) [of k] by (auto simp: filter_id_conv filter_empty_conv)
  consider s where "s < k" "sets ! s = S" "filter (\<lambda>i. key i = S) (concat (map f [0..<k])) = f s"
    | "\<forall>s < k. sets ! s \<noteq> S" "filter (\<lambda>i. key i = S) (concat (map f [0..<k])) = []" using Suc by fastforce
  then show ?case
  proof cases
    case 1
    then have "sets ! k \<noteq> S" using assms(2) Suc.prems(2) by (auto simp: nth_eq_iff_index_eq)
    then show ?thesis using 1 f by (intro disjI1 exI [of _ s]) simp
  next
    case 2
    then show ?thesis using f by (cases "sets ! k = S") (auto simp: less_Suc_eq)
  qed
qed simp

definition equal_inv :: "batch_allocr \<Rightarrow> nat \<Rightarrow> bool \<Rightarrow> nat \<Rightarrow> batch_allocr \<Rightarrow> bool" where
  "equal_inv a0 n_ubatch sequential tail a \<longleftrightarrow> alloc_inv a0 a \<and> class_prefix a \<and> (sequential \<longrightarrow> \<not> ba_has_cpl a0) \<and> (tail = 0 \<or> tail < n_ubatch)"

definition equal_good :: "batch_allocr \<Rightarrow> nat \<Rightarrow> bool \<Rightarrow> nat \<Rightarrow> llama_ubatch \<Rightarrow> bool" where
  "equal_good a0 n_ubatch sequential tail ub \<longleftrightarrow> (\<exists>sets cur k u. let ms = map (set_map (ba_seq_id a0)) sets in
     kept n_ubatch tail ms cur k u \<and> k \<le> n_ubatch + 1 \<and> sorted_wrt (\<lambda>S T. S \<inter> T = {}) sets \<and>
     (\<forall>S \<in> set sets. \<exists>i < get_n_tokens a0. S = ba_seq_set a0 ! i) \<and>
     (sequential \<longrightarrow> (\<exists>s. sets = map (\<lambda>k. {s + int k}) [0..<length sets])) \<and> ub = built a0 (concat (map (took u ms cur) [0..<k])) k True)"

lemma disjoint_distinct: "sorted_wrt (\<lambda>S T. S \<inter> T = {}) sets \<Longrightarrow> {} \<notin> set sets \<Longrightarrow> distinct sets"
  by (induction sets) auto

lemma length_took_all:
  "(\<And>s. s < k \<Longrightarrow> cur ! s + u \<le> length (ms ! s)) \<Longrightarrow> length (concat (map (took u ms cur) [0..<k])) = k * u"
proof (induction k)
  case (Suc k)
  have "length (took u ms cur k) = u" using Suc.prems [of k] by (simp add: took_def)
  moreover have "length (concat (map (took u ms cur) [0..<k])) = k * u" by (rule Suc.IH) (use Suc.prems in simp)
  ultimately show ?case by (simp del: length_concat add: length_append)
qed simp

lemma split_equal_step:
  assumes "equal_inv a0 n_ubatch sequential tail a"
  shows "(split_equal n_ubatch sequential tail filt a = Some (a, None) \<and> todo_list a = []) \<or>
    (\<exists>b ub. split_equal n_ubatch sequential tail filt a = Some (b, Some ub) \<and> equal_inv a0 n_ubatch sequential tail b \<and>
      equal_good a0 n_ubatch sequential tail ub \<and> ub_batch_idxs ub \<noteq> [] \<and> takes ((!) (ba_seq_set a0)) (ub_batch_idxs ub) a b)"
proof -
  from assms have inv: "alloc_inv a0 a" and pre: "class_prefix a" and sq: "sequential \<longrightarrow> \<not> ba_has_cpl a0" and tail: "tail = 0 \<or> tail < n_ubatch"
    by (simp_all add: equal_inv_def)
  have len: "length (ba_used a) = get_n_tokens a" using alloc_inv_len [OF inv] by simp
  have st: "static_part a = static_part a0" and ok0: "alloc_ok a0" using inv by (simp_all add: alloc_inv_def)
  note S = static_part_eq [OF st]
  have ok: "alloc_ok a" using alloc_ok_static [OF st] ok0 by simp
  define sets where "sets = pick_sets a sequential filt n_ubatch [0..<get_n_tokens a] [] (-1) (-1)"
  have p0: "sequential \<longrightarrow> \<not> ba_has_cpl a" "set [0..<get_n_tokens a] \<subseteq> {..<get_n_tokens a}" "picked a sequential []"
    using sq S(5) by (auto simp: picked_def)
  from pick_sets_ok [OF ok p0, of n_ubatch "-1" filt "-1"]
  have P: "picked a sequential sets" "length sets \<le> n_ubatch + 1" "sets = [] \<longleftrightarrow> todo_list a = []"
    by (simp_all add: sets_def todo_list_def filter_empty_conv)
  have cpl: "\<not> (sequential \<and> ba_has_cpl a)" using sq S(5) by simp
  show ?thesis
  proof (cases "sets = []")
    case True
    then show ?thesis using P(3) cpl by (simp add: split_equal_def sets_def)
  next
    case False
    define ms where "ms = map (ba_seq_set_map a) sets"
    define cur where "cur = map (\<lambda>m. length (takeWhile (\<lambda>i. ba_used a ! i) m)) ms"
    let ?L = "length ms"
    have lens: "length cur = ?L" "length sets = ?L" "ms \<noteq> []" using False by (simp_all add: cur_def ms_def)
    have at: "ms ! s = ba_seq_set_map a (sets ! s)" "cur ! s = n_first a (sets ! s)" if "s < ?L" for s
      using that by (simp_all add: ms_def cur_def n_first_def)
    have map_eq: "ba_seq_set_map a = set_map (ba_seq_id a)" using ok by (simp add: alloc_ok_def)
    have mem: "i \<in> set (ms ! s) \<longleftrightarrow> i < get_n_tokens a \<and> ba_seq_set a ! i = sets ! s" if "s < ?L" for s i
      using ok by (auto simp: at [OF that] map_eq mem_set_map get_n_tokens_def alloc_ok_def)
    have P': "sorted_wrt (\<lambda>S T. S \<inter> T = {}) sets" "\<forall>S \<in> set sets. \<exists>i < get_n_tokens a. \<not> ba_used a ! i \<and> S = ba_seq_set a ! i"
      using P(1) by (simp_all add: picked_def)
    have dist: "distinct sets" 
    proof (rule disjoint_distinct [OF P'(1)])
      show "{} \<notin> set sets" using P'(2) alloc_okD(4) [OF ok] by blast
    qed
    have first: "cur ! s < length (ms ! s)" if s: "s < ?L" for s
    proof -
      obtain i where i: "i < get_n_tokens a" "\<not> ba_used a ! i" "sets ! s = ba_seq_set a ! i" using P'(2) s lens(2) by (metis nth_mem)
      then have "i \<in> set (ms ! s)" using mem [OF s] by simp
      then obtain j where "j < length (ms ! s)" "ms ! s ! j = i" by (auto simp: in_set_conv_nth)
      then show ?thesis using class_prefixD [OF pre, of j "sets ! s"] i(2) at [OF s] by simp
    qed
    have fresh: "fresh a ms cur" unfolding fresh_def
    proof (intro allI impI conjI ballI)
      fix s assume s: "s < ?L"
      show "distinct (ms ! s)" using at [OF s] map_eq by simp
      show "set (ms ! s) \<inter> set (ms ! r) = {}" if "r < ?L" "r \<noteq> s" for r
        using mem [OF s] mem [OF that(1)] dist that s lens(2) by (auto simp: nth_eq_iff_index_eq)
      fix i assume i: "i \<in> set (drop (cur ! s) (ms ! s))"
      then obtain j where j: "j < length (ms ! s) - cur ! s" "i = ms ! s ! (cur ! s + j)" by (auto simp: in_set_conv_nth)
      show "i < length (ba_used a)" using mem [OF s] in_set_dropD [OF i] len by simp
      show "\<not> ba_used a ! i" using class_prefixD [OF pre, of "cur ! s + j" "sets ! s"] j at [OF s] by simp
    qed
    have "\<forall>m \<in> set ms. \<forall>i \<in> set m. i < length (ba_used a)" using mem len by (metis in_set_conv_nth)
    from expand_ok [OF lens(3,1) _ _ this, of "map (\<lambda>_. []) ms" n_ubatch] first obtain t b where
      t: "expand n_ubatch ms cur (map (\<lambda>_. []) ms) a = (b, map (\<lambda>s. cur ! s + t) [0..<?L], map (\<lambda>s. map (\<lambda>_. []) ms ! s @ took t ms cur s) [0..<?L])"
        "\<forall>s < ?L. cur ! s + t \<le> length (ms ! s)" "marks (concat (map (took t ms cur) [0..<?L])) a b" "0 < t" "t * ?L \<le> max n_ubatch ?L"
      using lens by (auto simp: less_imp_le split: if_splits)
    have idxs: "map (\<lambda>s. map (\<lambda>_. []) ms ! s @ took t ms cur s) [0..<?L] = map (took t ms cur) [0..<?L]" by simp
    from keep_tail_ok [OF fresh lens(3) t(4,5,2) tail t(3)] obtain k u c where
      kt: "keep_tail n_ubatch tail ms (map (\<lambda>s. cur ! s + t) [0..<?L]) (map (took t ms cur) [0..<?L]) b = Some (c, map (took u ms cur) [0..<k])"
        "kept n_ubatch tail ms cur k u" "marks (concat (map (took u ms cur) [0..<k])) a c" by blast
    let ?xs = "concat (map (took u ms cur) [0..<k])"
    note K = kt(2) [unfolded kept_def]
    have lx: "length ?xs = k * u" using K by (intro length_took_all) simp
    have "static_part c = static_part a0" using kt(3) st by (simp add: marks_def)
    from ubatch_add_ok [OF this, of k ?xs True] K lx
    obtain x where add: "add_some ?xs k True c = Some (c\<lparr>ba_out_ids := x\<rparr>, Some (built a0 ?xs k True))" by auto
    have split: "split_equal n_ubatch sequential tail filt a = Some (c\<lparr>ba_out_ids := x\<rparr>, Some (built a0 ?xs k True))"
      using cpl False kt(1) add t(1) unfolding idxs
      by (simp add: split_equal_def sets_def [symmetric] ms_def [symmetric] cur_def [symmetric] Let_def)
    have bi: "ub_batch_idxs (built a0 ?xs k True) = ?xs" using K lx by (intro built_simps) auto
    have ne: "?xs \<noteq> []" using lx K by (metis length_0_conv mult_is_0 not_less0)
    have cls: "\<exists>m. filter (\<lambda>i. ba_seq_set a0 ! i = T) ?xs = take m (drop (n_first a T) (ba_seq_set_map a T))" for T
    proof -
      have "ba_seq_set a0 ! i = sets ! s" if "s < k" "i \<in> set (took u ms cur s)" for s i
        using mem [of s i] that K set_drop_subset took_sub by (metis S(2) less_le_trans subsetD)
      moreover have "k \<le> length sets" using K lens(2) by simp
      ultimately have "(\<exists>s < k. sets ! s = T \<and> filter (\<lambda>i. ba_seq_set a0 ! i = T) ?xs = took u ms cur s) \<or>
        (\<forall>s < k. sets ! s \<noteq> T) \<and> filter (\<lambda>i. ba_seq_set a0 ! i = T) ?xs = []"
        by (rule filter_took [where key = "(!) (ba_seq_set a0)", OF _ dist])
      then consider s where "s < k" "sets ! s = T" "filter (\<lambda>i. ba_seq_set a0 ! i = T) ?xs = took u ms cur s"
        | "filter (\<lambda>i. ba_seq_set a0 ! i = T) ?xs = []" by blast
      then show ?thesis
      proof cases
        case 1
        then show ?thesis using at [of s] K by (intro exI [of _ u]) (simp add: took_def)
      next
        case 2
        then show ?thesis by (intro exI [of _ 0]) simp
      qed
    qed
    have take: "takes ((!) (ba_seq_set a0)) ?xs a c"
      by (rule takes_prefix [OF kt(3) len]) (use cls todo_class [OF inv pre] in simp)
    have "class_prefix c" unfolding class_prefix_def
    proof
      fix T
      obtain m where m: "filter (\<lambda>i. ba_seq_set a0 ! i = T) ?xs = take m (drop (n_first a T) (ba_seq_set_map a T))" using cls by blast
      have eqm: "ba_seq_set_map c = ba_seq_set_map a" using kt(3) static_part_eq(3) [of c a] by (simp add: marks_def)
      show "\<exists>k. \<forall>j < length (ba_seq_set_map c T). ba_used c ! (ba_seq_set_map c T ! j) \<longleftrightarrow> j < k" unfolding eqm
      proof (intro exI [of _ "n_first a T + m"] allI impI)
        fix j assume j: "j < length (ba_seq_set_map a T)"
        let ?i = "ba_seq_set_map a T ! j"
        have i: "?i < get_n_tokens a" "ba_seq_set a0 ! ?i = T"
          using nth_mem [OF j] ok S(2) by (auto simp: map_eq mem_set_map get_n_tokens_def alloc_ok_def simp del: nth_mem)
        have d: "distinct (ba_seq_set_map a T)" by (simp add: map_eq)
        have "?i \<in> set ?xs \<longleftrightarrow> ?i \<in> set (take m (drop (n_first a T) (ba_seq_set_map a T)))"
          unfolding m [symmetric] by (simp add: i(2))
        also have "\<dots> \<longleftrightarrow> n_first a T \<le> j \<and> j < n_first a T + m"
          using j d by (auto simp: in_set_conv_nth nth_eq_iff_index_eq intro!: exI [of _ "j - n_first a T"])
        finally show "ba_used c ! ?i \<longleftrightarrow> j < n_first a T + m"
          using kt(3) i(1) len class_prefixD [OF pre j] by (auto simp: marks_def)
      qed
    qed
    moreover have "alloc_inv a0 c" by (rule marks_inv [OF inv kt(3) take])
    ultimately have "equal_inv a0 n_ubatch sequential tail (c\<lparr>ba_out_ids := x\<rparr>)" using sq tail by (simp add: equal_inv_def class_prefix_def)
    moreover have "equal_good a0 n_ubatch sequential tail (built a0 ?xs k True)"
    proof -
      have ms': "map (set_map (ba_seq_id a0)) sets = ms" using ms_def map_eq S(4) by simp
      have "k \<le> n_ubatch + 1" using K P(2) lens(2) by simp
      moreover have "\<forall>S \<in> set sets. \<exists>i < get_n_tokens a0. S = ba_seq_set a0 ! i" using P'(2) unfolding S(1,2) by blast
      moreover have "sequential \<longrightarrow> (\<exists>s. sets = map (\<lambda>k. {s + int k}) [0..<length sets])" using P(1) unfolding picked_def by (elim conjE)
      ultimately show ?thesis unfolding equal_good_def Let_def
        by (intro exI [of _ sets] exI [of _ cur] exI [of _ k] exI [of _ u] conjI) (simp_all only: ms' kt(2) P'(1))
    qed
    ultimately show ?thesis using split bi ne take
      by (intro disjI2 exI [of _ "c\<lparr>ba_out_ids := x\<rparr>"] exI [of _ "built a0 ?xs k True"]) simp
  qed
qed

interpretation equal: splitter "split_equal n_ubatch sequential tail filt" "equal_inv a0 n_ubatch sequential tail" "(!) (ba_seq_set a0)"
    "equal_good a0 n_ubatch sequential tail"
  for n_ubatch sequential tail filt a0
  by unfold_locales (rule split_equal_step)

end
