(* ===== verification/Batch_Cuts.thy ===== *)
theory Batch_Cuts
  imports Batch_Equal
begin

section \<open>A whole batch cut into ubatches\<close>

text \<open>
  From an accepted batch (\<open>init\<close>, then the position grid set by the caller) to the list of ubatches that repeated
  calls of a splitter return: the three instances of \<open>splitter\<close> put together with what \<open>init\<close> establishes.
\<close>

subsection \<open>What init establishes\<close>

definition entries_ok :: "batch_ext \<Rightarrow> bool" where
  "entries_ok be \<longleftrightarrow> (\<forall>t \<in> set (be_tokens be). te_seq_ids t \<noteq> [] \<and> distinct (te_seq_ids t))"

lemma init_alloc_ok:
  assumes "batch_init be output_all a = Inr a'" "entries_ok be"
  shows "alloc_ok (set_split_pos_grid g a')" "get_n_tokens (set_split_pos_grid g a') = length (be_tokens be)"
    "ba_used (set_split_pos_grid g a') = replicate (length (be_tokens be)) False" "ba_n_used (set_split_pos_grid g a') = 0"
    "ba_seq_set (set_split_pos_grid g a') = map (\<lambda>t. set (te_seq_ids t)) (be_tokens be)"
    "ba_seq_id (set_split_pos_grid g a') = map te_seq_ids (be_tokens be)"
    "ba_has_cpl (set_split_pos_grid g a') \<longleftrightarrow> (\<exists>t \<in> set (be_tokens be). length (te_seq_ids t) > 1)"
proof -
  let ?seqs = "map te_seq_ids (be_tokens be)"
  from assms(1) have e: "batch_error_of (ba_n_pos a) (ba_allow_mixed a) be = None" by (simp add: batch_init_def split: option.splits)
  note c = first_error_None [THEN iffD1, OF e [unfolded batch_error_of_def Let_def], unfolded set_append Un_iff]
  have m: "be_n_seq_max be \<le> LLAMA_MAX_SEQ"
    using c [rule_format, of "err_if (be_n_seq_max be < 0 \<or> be_n_seq_max be > LLAMA_MAX_SEQ) E_n_seq_max"] by (simp add: err_if_def split: if_splits)
  have ids: "\<forall>ss \<in> set ?seqs. \<forall>s \<in> set ss. \<not> (s < 0 \<or> s \<ge> be_n_seq_max be)"
    using c [rule_format, of "err_if (\<exists>ss \<in> set ?seqs. \<exists>s \<in> set ss. s < 0 \<or> s \<ge> be_n_seq_max be) E_seq_id"] by (simp add: err_if_def split: if_splits)
  have "tl ss \<noteq> [] \<longleftrightarrow> length ss > 1" for ss :: "int list" by (cases ss) auto
  moreover have "seq_couples ?seqs \<noteq> [] \<longleftrightarrow> (\<exists>ss \<in> set ?seqs. tl ss \<noteq> [])" by (auto simp: seq_couples_def)
  ultimately have cpl: "seq_couples ?seqs \<noteq> [] \<longleftrightarrow> (\<exists>t \<in> set (be_tokens be). length (te_seq_ids t) > 1)" by simp
  have a': "ba_seq_id a' = ?seqs" "ba_seq_set a' = map set ?seqs" "ba_seq_set_map a' = set_map ?seqs" "ba_n_seq_max a' = be_n_seq_max be"
    "ba_has_cpl a' = (seq_couples ?seqs \<noteq> [])" "ba_used a' = replicate (length (be_tokens be)) False" "ba_n_used a' = 0"
    using assms(1) e by (auto simp: batch_init_def Let_def split_reset_def get_n_tokens_def)
  show "alloc_ok (set_split_pos_grid g a')"
    using a' m ids assms(2) cpl by (auto simp: alloc_ok_def set_split_pos_grid_def entries_ok_def not_le not_less)
  show "get_n_tokens (set_split_pos_grid g a') = length (be_tokens be)" "ba_used (set_split_pos_grid g a') = replicate (length (be_tokens be)) False"
    "ba_n_used (set_split_pos_grid g a') = 0" "ba_seq_set (set_split_pos_grid g a') = map (\<lambda>t. set (te_seq_ids t)) (be_tokens be)"
    "ba_seq_id (set_split_pos_grid g a') = ?seqs" using a' by (simp_all add: set_split_pos_grid_def get_n_tokens_def)
  show "ba_has_cpl (set_split_pos_grid g a') \<longleftrightarrow> (\<exists>t \<in> set (be_tokens be). length (te_seq_ids t) > 1)"
    using a'(5) cpl by (simp add: set_split_pos_grid_def)
qed

text \<open>The state the splitters start from, under the invariants of the three instances.\<close>

lemma start_inv:
  assumes "batch_init be output_all a = Inr a'" "entries_ok be"
    and a0_def: "a0 = set_split_pos_grid g a'"
  shows "alloc_inv a0 a0" "prefix_used a0" "class_prefix a0" "todo_list a0 = [0..<length (be_tokens be)]"
proof -
  note I = init_alloc_ok [OF assms(1,2), of g, folded a0_def]
  have u: "\<not> ba_used a0 ! i" if "i < length (be_tokens be)" for i using that I(3) by simp
  show t: "todo_list a0 = [0..<length (be_tokens be)]" using I(2) u by (simp add: todo_list_def filter_id_conv)
  show "alloc_inv a0 a0" using I(1-4) t by (simp add: alloc_inv_def counted_def)
  show "prefix_used a0" using I(3) by (auto simp: prefix_used_def intro!: exI [of _ 0])
  show "class_prefix a0" unfolding class_prefix_def
  proof
    fix S
    have "\<forall>j < length (ba_seq_set_map a0 S). ba_seq_set_map a0 S ! j < length (be_tokens be)"
    proof (intro allI impI)
      fix j assume "j < length (ba_seq_set_map a0 S)"
      then have "ba_seq_set_map a0 S ! j \<in> set (ba_seq_set_map a0 S)" by (rule nth_mem)
      then show "ba_seq_set_map a0 S ! j < length (be_tokens be)"
        using I(1,2) by (simp add: alloc_ok_def mem_set_map get_n_tokens_def)
    qed
    then show "\<exists>k. \<forall>j < length (ba_seq_set_map a0 S). ba_used a0 ! (ba_seq_set_map a0 S ! j) \<longleftrightarrow> j < k"
      using u by (intro exI [of _ 0]) simp
  qed
qed

lemma all_used:
  assumes "alloc_inv a0 b" "todo_list b = []"
  shows "ba_n_used b = get_n_tokens a0"
proof -
  have "counted b" using assms(1) by (simp add: alloc_inv_def)
  then show ?thesis using assms(2) alloc_inv_len [OF assms(1)] by (simp add: counted_def)
qed

subsection \<open>The simple split\<close>

text \<open>C31. The simple split cuts an accepted batch into consecutive ubatches. Repeated calls of
  \<open>split_simple\<close> return, use every token, and the ubatches put together are the batch, in batch order; each
  has at least one and at most \<open>max 1 n_ubatch\<close> tokens, and no token but the first of a ubatch stands on the
  position grid.\<close>

theorem split_simple_cuts:
  assumes "batch_init be output_all a = Inr a'" "entries_ok be"
  shows "\<exists>b ubs. split_all (split_simple n_ubatch) (set_split_pos_grid g a') [] = Some (b, ubs) \<and>
    concat (map ub_batch_idxs ubs) = [0..<length (be_tokens be)] \<and> ba_n_used b = length (be_tokens be) \<and>
    (\<forall>ub \<in> set ubs. 0 < ub_n_tokens ub \<and> ub_n_tokens ub = length (ub_batch_idxs ub) \<and> ub_n_tokens ub \<le> max 1 n_ubatch \<and>
      inside_cell (set_split_pos_grid g a') (ub_batch_idxs ub))"
proof -
  let ?a = "set_split_pos_grid g a'"
  note I = start_inv [OF assms refl [of "set_split_pos_grid g a'"]]
  have "simple_inv ?a ?a" using I by (simp add: simple_inv_def)
  from simple.split_all_partition [OF this, of n_ubatch] obtain b ubs where
    s: "split_all (split_simple n_ubatch) ?a [] = Some (b, ubs)" "simple_inv ?a b" "todo_list b = []"
      "\<forall>ub \<in> set ubs. simple_good ?a n_ubatch ub" "\<forall>k. filter (\<lambda>i. () = k) (concat (map ub_batch_idxs ubs)) = filter (\<lambda>i. () = k) (todo_list ?a)"
    by blast
  have "ba_n_used b = get_n_tokens ?a" using s(2,3) by (intro all_used) (simp_all add: simple_inv_def)
  then have "ba_n_used b = length (be_tokens be)" using init_alloc_ok(2) [OF assms, of g] by simp
  moreover have "concat (map ub_batch_idxs ubs) = [0..<length (be_tokens be)]" using s(5) I(4) by simp
  moreover have "0 < ub_n_tokens ub \<and> ub_n_tokens ub = length (ub_batch_idxs ub) \<and> ub_n_tokens ub \<le> max 1 n_ubatch \<and>
      inside_cell ?a (ub_batch_idxs ub)" if "ub \<in> set ubs" for ub
  proof -
    have "simple_good ?a n_ubatch ub" using s(4) that by blast
    then obtain k m where "0 < m" "m \<le> max 1 n_ubatch" "ub = built ?a [k..<k + m] m False" "inside_cell ?a [k..<k + m]"
      unfolding simple_good_def by blast
    then show ?thesis by (simp add: built_simps)
  qed
  ultimately show ?thesis using s(1) by blast
qed

definition batch4 :: batch_ext where
  "batch4 = bext [tok [0] 2, tok [0] 3, tok [0] 4, tok [1] 7]"

lemma batch4_ok: "\<exists>a'. batch_init batch4 False alloc0 = Inr a'" "entries_ok batch4" "length (be_tokens batch4) = 4"
proof -
  have "isl (batch_init batch4 False alloc0) = False" by code_simp
  then show "\<exists>a'. batch_init batch4 False alloc0 = Inr a'" by (cases "batch_init batch4 False alloc0") auto
qed (simp_all add: entries_ok_def batch4_def bext_def tok_def)

theorem split_simple_cuts_witness:
  "\<exists>a' b ubs. batch_init batch4 False alloc0 = Inr a' \<and>
    split_all (split_simple 3) (set_split_pos_grid 4 a') [] = Some (b, ubs) \<and> concat (map ub_batch_idxs ubs) = [0..<4]"
proof -
  obtain a' where a': "batch_init batch4 False alloc0 = Inr a'" using batch4_ok(1) by blast
  from split_simple_cuts [OF a' batch4_ok(2), of 3 4] a' show ?thesis unfolding batch4_ok(3) by blast
qed

subsection \<open>The split by sequence set\<close>

text \<open>The split by sequence set. Repeated calls of \<open>split_seq\<close> return and use every token exactly once, and the
  tokens of each sequence set come out in batch order; a ubatch is one sequence of at most \<open>max 1 n_ubatch\<close>
  tokens in batch order, each with its sequence set inside that of the token before.\<close>

theorem split_seq_cuts:
  assumes "batch_init be output_all a = Inr a'" "entries_ok be"
  shows "\<exists>b ubs. split_all (split_seq n_ubatch) (set_split_pos_grid g a') [] = Some (b, ubs) \<and>
    mset (concat (map ub_batch_idxs ubs)) = mset [0..<length (be_tokens be)] \<and>
    (\<forall>S. filter (\<lambda>i. ba_seq_set a' ! i = S) (concat (map ub_batch_idxs ubs)) = filter (\<lambda>i. ba_seq_set a' ! i = S) [0..<length (be_tokens be)]) \<and>
    (\<forall>ub \<in> set ubs. 0 < ub_n_tokens ub \<and> ub_n_tokens ub \<le> max 1 n_ubatch \<and> ub_n_seqs ub = 1 \<and> sorted_wrt (<) (ub_batch_idxs ub) \<and>
      sorted_wrt (\<lambda>i j. ba_seq_set a' ! j \<subseteq> ba_seq_set a' ! i) (ub_batch_idxs ub))"
proof -
  let ?a = "set_split_pos_grid g a'"
  note I = start_inv [OF assms refl [of "set_split_pos_grid g a'"]]
  have ss: "ba_seq_set ?a = ba_seq_set a'" by (simp add: set_split_pos_grid_def)
  from by_seq.split_all_partition [OF I(1), of n_ubatch] obtain b ubs where
    s: "split_all (split_seq n_ubatch) ?a [] = Some (b, ubs)" "\<forall>ub \<in> set ubs. seq_good ?a n_ubatch ub"
      "mset (concat (map ub_batch_idxs ubs)) = mset (todo_list ?a)"
      "\<forall>k. filter (\<lambda>i. ba_seq_set ?a ! i = k) (concat (map ub_batch_idxs ubs)) = filter (\<lambda>i. ba_seq_set ?a ! i = k) (todo_list ?a)"
    by blast
  have "0 < ub_n_tokens ub \<and> ub_n_tokens ub \<le> max 1 n_ubatch \<and> ub_n_seqs ub = 1 \<and> sorted_wrt (<) (ub_batch_idxs ub) \<and>
      sorted_wrt (\<lambda>i j. ba_seq_set a' ! j \<subseteq> ba_seq_set a' ! i) (ub_batch_idxs ub)" if "ub \<in> set ubs" for ub
  proof -
    have "seq_good ?a n_ubatch ub" using s(2) that by blast
    then obtain xs where "xs \<noteq> []" "length xs \<le> max 1 n_ubatch" "ub = built ?a xs 1 True" "sorted_wrt (<) xs"
      "sorted_wrt (\<lambda>i j. ba_seq_set a' ! j \<subseteq> ba_seq_set a' ! i) xs" unfolding seq_good_def ss by blast
    then show ?thesis by (simp add: built_simps)
  qed
  then show ?thesis using s(1,3,4) unfolding I(4) ss by (intro exI [of _ b] exI [of _ ubs]) blast
qed

theorem split_seq_cuts_witness:
  "\<exists>a' b ubs. batch_init batch4 False alloc0 = Inr a' \<and>
    split_all (split_seq 2) (set_split_pos_grid 0 a') [] = Some (b, ubs) \<and> mset (concat (map ub_batch_idxs ubs)) = mset [0..<4]"
proof -
  obtain a' where a': "batch_init batch4 False alloc0 = Inr a'" using batch4_ok(1) by blast
  from split_seq_cuts [OF a' batch4_ok(2), of 2 0] a' show ?thesis unfolding batch4_ok(3) by blast
qed

subsection \<open>The equal split\<close>

text \<open>Row \<open>s * n_seq_tokens + ii\<close> of an equal ubatch is token \<open>ii\<close> of set \<open>s\<close>.\<close>

lemma nth_concat_equal:
  assumes "\<And>s. s < k \<Longrightarrow> length (f s) = u" "s < k" "ii < u"
  shows "concat (map f [0..<k]) ! (s * u + ii) = f s ! ii"
  using assms(1,2)
proof (induction k)
  case (Suc k)
  have len: "length (concat (map f [0..<k])) = k * u" using Suc.prems(1) by (induction k) (simp_all add: add.commute)
  show ?case
  proof (cases "s = k")
    case True
    then show ?thesis using len by (simp add: nth_append del: length_concat)
  next
    case False
    then have s: "s < k" using Suc.prems(2) by simp
    then have "Suc s * u \<le> k * u" by (intro mult_le_mono1) simp
    then have "s * u + ii < k * u" using assms(3) by simp
    then show ?thesis using Suc.IH s Suc.prems(1) len by (simp add: nth_append del: length_concat)
  qed
qed simp

lemma equal_good_props:
  assumes "equal_good a0 n_ubatch sequential tail ub" "alloc_ok a0"
  obtains sets where "length sets = ub_n_seqs ub" "0 < ub_n_seqs ub" "0 < ub_n_seq_tokens ub" "ub_n_tokens ub = ub_n_seqs ub * ub_n_seq_tokens ub"
    "ub_n_seqs ub \<le> n_ubatch + 1" "ub_n_tokens ub \<le> max n_ubatch (ub_n_seqs ub)" "sorted_wrt (\<lambda>S T. S \<inter> T = {}) sets"
    "\<forall>s < ub_n_seqs ub. \<forall>ii < ub_n_seq_tokens ub. ub_batch_idxs ub ! (s * ub_n_seq_tokens ub + ii) < get_n_tokens a0 \<and>
       ba_seq_set a0 ! (ub_batch_idxs ub ! (s * ub_n_seq_tokens ub + ii)) = sets ! s"
    "sequential \<longrightarrow> (\<exists>s. sets = map (\<lambda>k. {s + int k}) [0..<ub_n_seqs ub])"
    "ub = built a0 (ub_batch_idxs ub) (ub_n_seqs ub) True" "length (ub_batch_idxs ub) = ub_n_seqs ub * ub_n_seq_tokens ub"
proof -
  from assms(1) obtain sets cur k u where
    e: "kept n_ubatch tail (map (set_map (ba_seq_id a0)) sets) cur k u" "k \<le> n_ubatch + 1" "sorted_wrt (\<lambda>S T. S \<inter> T = {}) sets"
      "sequential \<longrightarrow> (\<exists>s. sets = map (\<lambda>k. {s + int k}) [0..<length sets])"
      "ub = built a0 (concat (map (took u (map (set_map (ba_seq_id a0)) sets) cur) [0..<k])) k True"
    unfolding equal_good_def Let_def by blast
  let ?ms = "map (set_map (ba_seq_id a0)) sets"
  let ?xs = "concat (map (took u ?ms cur) [0..<k])"
  note K = e(1) [unfolded kept_def]
  have fits: "cur ! s + u \<le> length (?ms ! s)" if "s < k" for s using K that by blast
  have lx: "length ?xs = k * u" by (rule length_took_all) (rule fits)
  have k0: "k \<noteq> 0" "k * u mod k = 0" using K by simp_all
  note B = built_simps [OF k0(1), of ?xs a0 True, unfolded lx, OF k0(2), folded e(5)]
  have ks: "k \<le> length sets" using K by simp
  have nst: "ub_n_seq_tokens ub = u" using B(8) k0(1) by simp
  have lt: "length (took u ?ms cur s) = u" if "s < k" for s
    using fits [OF that] by (simp add: took_def)
  have row: "?xs ! (s * u + ii) < get_n_tokens a0 \<and> ba_seq_set a0 ! (?xs ! (s * u + ii)) = sets ! s" if "s < k" "ii < u" for s ii
  proof -
    have "?xs ! (s * u + ii) = took u ?ms cur s ! ii" by (rule nth_concat_equal) (use lt that in auto)
    moreover have "took u ?ms cur s ! ii \<in> set (took u ?ms cur s)" using lt [OF that(1)] that(2) by (intro nth_mem) simp
    then have "took u ?ms cur s ! ii \<in> set (?ms ! s)" using took_sub set_drop_subset by (meson subsetD)
    then have "took u ?ms cur s ! ii \<in> set (set_map (ba_seq_id a0) (sets ! s))" using that(1) ks by simp
    ultimately show ?thesis using assms(2) by (simp add: mem_set_map alloc_ok_def get_n_tokens_def)
  qed
  show thesis
  proof (rule that [of "take k sets"])
    show "length (take k sets) = ub_n_seqs ub" using B(3) ks by simp
    show "0 < ub_n_seqs ub" "0 < ub_n_seq_tokens ub" "ub_n_tokens ub = ub_n_seqs ub * ub_n_seq_tokens ub" "ub_n_seqs ub \<le> n_ubatch + 1"
      "ub_n_tokens ub \<le> max n_ubatch (ub_n_seqs ub)" "length (ub_batch_idxs ub) = ub_n_seqs ub * ub_n_seq_tokens ub"
      using B(1-3) nst K e(2) lx by auto
    show "sorted_wrt (\<lambda>S T. S \<inter> T = {}) (take k sets)" using e(3) by (rule sorted_wrt_take)
    show "\<forall>s < ub_n_seqs ub. \<forall>ii < ub_n_seq_tokens ub. ub_batch_idxs ub ! (s * ub_n_seq_tokens ub + ii) < get_n_tokens a0 \<and>
       ba_seq_set a0 ! (ub_batch_idxs ub ! (s * ub_n_seq_tokens ub + ii)) = take k sets ! s"
      using row unfolding B(1,3) nst by simp
    show "sequential \<longrightarrow> (\<exists>s. take k sets = map (\<lambda>k. {s + int k}) [0..<ub_n_seqs ub])"
    proof
      assume sequential
      with e(4) obtain s where "sets = map (\<lambda>k. {s + int k}) [0..<length sets]" by blast
      then have "take k sets = map (\<lambda>k. {s + int k}) (take k [0..<length sets])" by (metis take_map)
      then show "\<exists>s. take k sets = map (\<lambda>k. {s + int k}) [0..<ub_n_seqs ub]" using ks B(3) by (auto simp: take_upt)
    qed
    show "ub = built a0 (ub_batch_idxs ub) (ub_n_seqs ub) True" unfolding B(1,3) by (rule e(5))
  qed
qed

text \<open>C24. The equal split. For an accepted batch without coupled sequences in the sequential mode, and a tail
  shorter than a ubatch, repeated calls of \<open>split_equal\<close> return and use every token exactly once, the tokens
  of each sequence set in batch order. Each ubatch holds the same number of tokens, at least one, of each of its
  \<open>n_seqs\<close> sequence sets, which are pairwise disjoint, stands set after set, and has at most \<open>n_ubatch\<close> tokens unless
  it has more sets than that: then it has one token of each of \<open>n_ubatch + 1\<close> sets at most.\<close>

theorem split_equal_cuts:
  assumes "batch_init be output_all a = Inr a'" "entries_ok be"
    and "sequential \<longrightarrow> (\<forall>t \<in> set (be_tokens be). length (te_seq_ids t) = 1)" "tail = 0 \<or> tail < n_ubatch"
  shows "\<exists>b ubs. split_all (split_equal n_ubatch sequential tail filt) (set_split_pos_grid g a') [] = Some (b, ubs) \<and>
    mset (concat (map ub_batch_idxs ubs)) = mset [0..<length (be_tokens be)] \<and>
    (\<forall>S. filter (\<lambda>i. ba_seq_set a' ! i = S) (concat (map ub_batch_idxs ubs)) = filter (\<lambda>i. ba_seq_set a' ! i = S) [0..<length (be_tokens be)]) \<and>
    (\<forall>ub \<in> set ubs. ub_n_tokens ub = ub_n_seqs ub * ub_n_seq_tokens ub \<and> 0 < ub_n_tokens ub \<and> ub_n_seqs ub \<le> n_ubatch + 1 \<and>
      ub_n_tokens ub \<le> max n_ubatch (ub_n_seqs ub) \<and> (\<exists>sets. length sets = ub_n_seqs ub \<and> sorted_wrt (\<lambda>S T. S \<inter> T = {}) sets \<and>
        (\<forall>s < ub_n_seqs ub. \<forall>ii < ub_n_seq_tokens ub. ba_seq_set a' ! (ub_batch_idxs ub ! (s * ub_n_seq_tokens ub + ii)) = sets ! s)))"
proof -
  let ?a = "set_split_pos_grid g a'"
  note I = start_inv [OF assms(1,2) refl [of "set_split_pos_grid g a'"]] and A = init_alloc_ok [OF assms(1,2), of g]
  have ss: "ba_seq_set ?a = ba_seq_set a'" by (simp add: set_split_pos_grid_def)
  have "equal_inv ?a n_ubatch sequential tail ?a" using I assms(3,4) A(7) by (auto simp: equal_inv_def)
  from equal.split_all_partition [OF this, of filt] obtain b ubs where
    s: "split_all (split_equal n_ubatch sequential tail filt) ?a [] = Some (b, ubs)" "\<forall>ub \<in> set ubs. equal_good ?a n_ubatch sequential tail ub"
      "mset (concat (map ub_batch_idxs ubs)) = mset (todo_list ?a)"
      "\<forall>k. filter (\<lambda>i. ba_seq_set ?a ! i = k) (concat (map ub_batch_idxs ubs)) = filter (\<lambda>i. ba_seq_set ?a ! i = k) (todo_list ?a)"
    by blast
  have "ub_n_tokens ub = ub_n_seqs ub * ub_n_seq_tokens ub \<and> 0 < ub_n_tokens ub \<and> ub_n_seqs ub \<le> n_ubatch + 1 \<and>
      ub_n_tokens ub \<le> max n_ubatch (ub_n_seqs ub) \<and> (\<exists>sets. length sets = ub_n_seqs ub \<and> sorted_wrt (\<lambda>S T. S \<inter> T = {}) sets \<and>
        (\<forall>s < ub_n_seqs ub. \<forall>ii < ub_n_seq_tokens ub. ba_seq_set a' ! (ub_batch_idxs ub ! (s * ub_n_seq_tokens ub + ii)) = sets ! s))"
    if "ub \<in> set ubs" for ub
  proof -
    have "equal_good ?a n_ubatch sequential tail ub" using s(2) that by blast
    then show ?thesis by (rule equal_good_props [OF _ A(1)]) (unfold ss, auto)
  qed
  then show ?thesis using s(1,3,4) unfolding I(4) ss by blast
qed

theorem split_equal_cuts_witness:
  "\<exists>a' b ubs. batch_init batch4 False alloc0 = Inr a' \<and>
    split_all (split_equal 4 True 2 None) (set_split_pos_grid 0 a') [] = Some (b, ubs) \<and> mset (concat (map ub_batch_idxs ubs)) = mset [0..<4] \<and>
    (\<forall>ub \<in> set ubs. ub_n_tokens ub \<le> max 4 (ub_n_seqs ub))"
proof -
  obtain a' where a': "batch_init batch4 False alloc0 = Inr a'" using batch4_ok(1) by blast
  have "True \<longrightarrow> (\<forall>t \<in> set (be_tokens batch4). length (te_seq_ids t) = 1)" by (simp add: batch4_def bext_def tok_def)
  from split_equal_cuts [OF a' batch4_ok(2) this, of 2 4 None 0] a' show ?thesis unfolding batch4_ok(3) by auto
qed

definition first_equal :: "nat \<Rightarrow> batch_ext \<Rightarrow> nat list option" where
  "first_equal n_ubatch be = (case batch_init be False alloc0 of Inl _ \<Rightarrow> None
     | Inr a \<Rightarrow> (case split_equal n_ubatch False 0 None a of Some (_, Some ub) \<Rightarrow> Some (ub_batch_idxs ub) | _ \<Rightarrow> None))"

text \<open>Two things the equal split does not guarantee. Its bound on the number of sequence sets is tested
  after a set is added, so with one sequence more than \<open>n_ubatch\<close> a ubatch is larger than \<open>n_ubatch\<close>. And outside the
  sequential mode the order within one sequence can be lost: of sequence 0 at positions 0, 1, 2, where position 1
  is shared with sequence 1, the first ubatch holds positions 0 and 2.\<close>

theorem split_equal_gaps:
  "first_equal 1 (bext [tok [0] 0, tok [1] 0]) = Some [0, 1] \<and>
   first_equal 4 (bext [tok [0] 0, tok [0, 1] 1, tok [0] 2]) = Some [0, 2]"
  by (intro conjI; code_simp)

end
