(* ===== verification/Kv_Init.thy ===== *)
theory Kv_Init
  imports Kv_Place Batch_Cuts
begin

section \<open>From a batch to its slots\<close>

text \<open>
  \<open>init_batch\<close> is where the batch allocator and the cache meet: it cuts the batch and runs the slot search on
  the ubatches. What the splitters return is what the search and the placement ask for (\<open>ubatch_ok\<close>), so the
  contracts of both components compose.
\<close>

subsection \<open>The operation\<close>

text \<open>The result is the context: the slots with their ubatches, or \<open>None\<close> for a context of status
  \<open>LLAMA_MEMORY_STATUS_FAILED_PREPARE\<close>. The outer \<open>None\<close> is a failing assertion.\<close>

definition kv_split_grid :: "kv_cfg \<Rightarrow> nat" where
  "kv_split_grid cf = (case cf_sj cf of None \<Rightarrow> 0 | Some P \<Rightarrow> sj_split_grid P)"

definition kv_init_batch ::
  "kv_cfg \<Rightarrow> nat \<Rightarrow> batch_allocr \<Rightarrow> kv_cache \<Rightarrow> (batch_allocr \<times> kv_cache \<times> (slot_info list \<times> llama_ubatch list) option) option" where
  "kv_init_batch cf n_ubatch a kv = do {
     let a = set_split_pos_grid (kv_split_grid cf) (split_reset a);
     (a, ubs) \<leftarrow> split_all (if cf_n_stream cf = 1 then split_simple n_ubatch else split_equal n_ubatch True 0 None) a [];
     if ba_n_used a < get_n_tokens a then Some (a, kv, None)
     else do {
       (kv, sis) \<leftarrow> kv_prepare cf ubs kv;
       Some (a, kv, if sis = [] then None else Some (sis, ubs)) } }"

subsection \<open>The ubatches of an accepted batch\<close>

text \<open>The batch fits the cache: every sequence has a stream, of its own when there are several, no entry is
  coupled in that case, and the positions are not negative.\<close>

definition batch_fits :: "kv_cfg \<Rightarrow> batch_ext \<Rightarrow> bool" where
  "batch_fits cf be \<longleftrightarrow> entries_ok be \<and> (\<forall>t \<in> set (be_tokens be). 0 \<le> entry_pos t 0 \<and> (\<forall>s \<in> set (te_seq_ids t). valid_seq cf s)) \<and>
     (cf_n_stream cf \<noteq> 1 \<longrightarrow> distinct (cf_seq_to_stream cf) \<and> (\<forall>t \<in> set (be_tokens be). length (te_seq_ids t) = 1))"

lemma init_pos:
  assumes "batch_init be output_all a = Inr a'"
  shows "ba_pos a' = flat_pos (ba_n_pos a) (be_tokens be)" "ba_n_pos a' = ba_n_pos a" "ba_n_seq_max a' = be_n_seq_max be"
    "split_reset a' = a'" "be_tokens be \<noteq> []"
proof -
  from assms have e: "batch_error_of (ba_n_pos a) (ba_allow_mixed a) be = None" by (simp add: batch_init_def split: option.splits)
  show "be_tokens be \<noteq> []"
  proof
    assume "be_tokens be = []"
    then have "batch_error_of (ba_n_pos a) (ba_allow_mixed a) be = Some E_no_tokens" by (simp add: batch_error_of_def Let_def err_if_def)
    with e show False by simp
  qed
qed (use assms in \<open>auto simp: batch_init_def Let_def split_reset_def get_n_tokens_def batch_clear_def split: option.splits\<close>)

lemma flat_pos_first:
  assumes "0 < n_pos" "i < length ts"
  shows "flat_pos n_pos ts ! i = entry_pos (ts ! i) 0"
proof -
  have "[0..<n_pos] = 0 # [1..<n_pos]" using assms(1) by (simp add: upt_conv_Cons)
  then show ?thesis using assms(2) by (simp add: flat_pos_def nth_append)
qed

lemma built_pos_first:
  assumes "k \<noteq> 0" "length idxs mod k = 0" "0 < ba_n_pos a" "i < length idxs"
  shows "ub_pos (built a idxs k eq) ! i = ba_pos a ! (idxs ! i)"
proof -
  have "[0..<ba_n_pos a] = 0 # [1..<ba_n_pos a]" using assms(3) by (simp add: upt_conv_Cons)
  then show ?thesis using assms by (simp add: built_simps nth_append)
qed

lemma unique_ids_sorted: "sorted (unique_ids m seqs)" "distinct (unique_ids m seqs)"
  "set (unique_ids m seqs) = {s. 0 \<le> s \<and> s < m \<and> (\<exists>ss \<in> set seqs. s \<in> set ss)}"
  by (auto simp: unique_ids_def sorted_wrt_filter intro: sorted_wrt_filter)

lemma unique_ids_range:
  assumes "set (unique_ids m seqs) = {s..<s + int k}"
  shows "unique_ids m seqs = map (\<lambda>j. s + int j) [0..<k]"
proof (rule sorted_distinct_set_unique)
  show "sorted (map (\<lambda>j. s + int j) [0..<k])" by (simp add: sorted_iff_nth_mono)
  show "distinct (map (\<lambda>j. s + int j) [0..<k])" by (simp add: distinct_map inj_on_def)
  have "\<exists>j < k. x = s + int j" if "s \<le> x" "x < s + int k" for x using that by (intro exI [of _ "nat (x - s)"]) auto
  then show "set (unique_ids m seqs) = set (map (\<lambda>j. s + int j) [0..<k])" unfolding assms by (auto simp: image_iff Bex_def)
qed (rule unique_ids_sorted)+

text \<open>What a row of a ubatch carries.\<close>

lemma built_row:
  assumes init: "batch_init be output_all a = Inr a'" and fit: "batch_fits cf be" and "0 < ba_n_pos a"
    and "k \<noteq> 0" "length idxs mod k = 0" and ub: "ub = built (set_split_pos_grid g a') idxs k eq"
    and "\<forall>i \<in> set idxs. i < length (be_tokens be)"
  shows "i < length idxs \<Longrightarrow> ub_seq_id ub ! i = te_seq_ids (be_tokens be ! (idxs ! i))" "i < length idxs \<Longrightarrow> 0 \<le> ub_pos ub ! i"
    "i < length idxs \<Longrightarrow> ub_seq_id ub ! i \<noteq> []" "i < length idxs \<Longrightarrow> distinct (ub_seq_id ub ! i)"
    "i < length idxs \<Longrightarrow> s \<in> set (ub_seq_id ub ! i) \<Longrightarrow> valid_seq cf s"
    "set (ub_seq_id_unq ub) = (\<Union>i < length idxs. set (ub_seq_id ub ! i))"
proof -
  let ?a = "set_split_pos_grid g a'"
  have ok: "entries_ok be" using fit by (simp add: batch_fits_def)
  note A = init_alloc_ok [OF init ok, of g] and P = init_pos [OF init]
  have t: "idxs ! i < length (be_tokens be)" "be_tokens be ! (idxs ! i) \<in> set (be_tokens be)" if "i < length idxs" for i
    using assms(7) that by simp_all
  have sid: "ub_seq_id ub ! i = te_seq_ids (be_tokens be ! (idxs ! i))" if "i < length idxs" for i
    using that t(1) [OF that] assms(4,5) A(6) by (simp add: ub built_simps)
  show "0 \<le> ub_pos ub ! i" if i: "i < length idxs"
  proof -
    have "ub_pos ub ! i = ba_pos ?a ! (idxs ! i)"
      unfolding ub using assms(3-5) P(2) i by (intro built_pos_first) (simp_all add: set_split_pos_grid_def)
    also have "\<dots> = entry_pos (be_tokens be ! (idxs ! i)) 0"
      using P(1) flat_pos_first [OF assms(3) t(1) [OF i]] by (simp add: set_split_pos_grid_def)
    finally show ?thesis using fit t(2) [OF i] by (simp add: batch_fits_def)
  qed
  show "ub_seq_id ub ! i \<noteq> []" "distinct (ub_seq_id ub ! i)" if "i < length idxs"
    using ok t(2) [OF that] unfolding sid [OF that] by (auto simp: entries_ok_def)
  show "valid_seq cf s" if "i < length idxs" "s \<in> set (ub_seq_id ub ! i)"
    using fit t(2) [OF that(1)] that(2) unfolding sid [OF that(1)] by (simp add: batch_fits_def)
  have range: "0 \<le> s \<and> s < ba_n_seq_max ?a" if "i < length idxs" "s \<in> set (ub_seq_id ub ! i)" for i s
    using alloc_okD(5) [OF A(1), of "idxs ! i" s] t(1) [OF that(1)] that(2) A(2,6) sid [OF that(1)] by simp
  have ids: "map ((!) (ba_seq_id ?a)) idxs = map (\<lambda>i. ub_seq_id ub ! i) [0..<length idxs]"
    using sid t(1) A(6) by (intro nth_equalityI) simp_all
  show "set (ub_seq_id_unq ub) = (\<Union>i < length idxs. set (ub_seq_id ub ! i))"
    using range unfolding ub built_simps(5) [OF assms(4,5)] unfolding ub [symmetric] ids unique_ids_sorted(3) by auto
qed (use assms in \<open>simp add: built_simps init_alloc_ok(6) [OF init] batch_fits_def\<close>)

lemma simple_ubatch_ok:
  assumes init: "batch_init be output_all a = Inr a'" and fit: "batch_fits cf be" and pos: "0 < ba_n_pos a"
    and cfg: "cfg_ok cf" "cf_n_stream cf = 1" and good: "simple_good (set_split_pos_grid g a') n_ubatch ub"
  shows "ubatch_ok cf ub"
proof -
  let ?a = "set_split_pos_grid g a'"
  have ok: "entries_ok be" using fit by (simp add: batch_fits_def)
  note A = init_alloc_ok [OF init ok, of g]
  from good A(2) obtain k m where m: "0 < m" "k + m \<le> length (be_tokens be)" "ub = built ?a [k..<k + m] m False"
    unfolding simple_good_def by auto
  have in_range: "\<forall>i \<in> set [k..<k + m]. i < length (be_tokens be)" using m(2) by simp
  have div: "m \<noteq> 0" "length [k..<k + m] mod m = 0" using m(1) by simp_all
  note R = built_row [OF init fit pos div m(3) in_range, unfolded length_upt diff_add_inverse]
  have strm: "stream cf s = 0" if "valid_seq cf s" for s using cfg(2) cfg_okD(1) [OF cfg(1) that] by simp
  have n: "ub_n_tokens ub = m" using m(1,3) by (simp add: built_simps)
  have "set (ub_seq_id ub ! 0) \<subseteq> set (ub_seq_id_unq ub)" using R(6) m(1) by auto
  then have "ub_seq_id_unq ub \<noteq> []" using R(3) [OF m(1)] by auto
  then have "ub_seq_id_unq ub ! 0 \<in> set (ub_seq_id_unq ub)" by simp
  then have v: "valid_seq cf (ub_seq_id_unq ub ! 0)" using R(5,6) by auto
  have "row_ok cf (ub_stream cf ub 0) ub i" if "i < m" for i
    using R(2-5) [OF that] strm v by (simp add: row_ok_def ub_stream_def)
  then show ?thesis using v m(1) n cfg(2) by (simp add: ubatch_ok_def find_pre_def ub_slots_def ub_rows_def)
qed

lemma equal_ubatch_ok:
  assumes init: "batch_init be output_all a = Inr a'" and fit: "batch_fits cf be" and pos: "0 < ba_n_pos a"
    and cfg: "cfg_ok cf" "cf_n_stream cf \<noteq> 1" and good: "equal_good (set_split_pos_grid g a') n_ubatch True 0 ub"
  shows "ubatch_ok cf ub"
proof -
  let ?a = "set_split_pos_grid g a'"
  have ok: "entries_ok be" using fit by (simp add: batch_fits_def)
  note A = init_alloc_ok [OF init ok, of g]
  from good A(1) obtain sets where
    E: "0 < ub_n_seqs ub" "0 < ub_n_seq_tokens ub" "ub_n_tokens ub = ub_n_seqs ub * ub_n_seq_tokens ub"
      "\<forall>s < ub_n_seqs ub. \<forall>ii < ub_n_seq_tokens ub. ub_batch_idxs ub ! (s * ub_n_seq_tokens ub + ii) < get_n_tokens ?a \<and>
       ba_seq_set ?a ! (ub_batch_idxs ub ! (s * ub_n_seq_tokens ub + ii)) = sets ! s"
      "\<exists>s. sets = map (\<lambda>k. {s + int k}) [0..<ub_n_seqs ub]"
      "ub = built ?a (ub_batch_idxs ub) (ub_n_seqs ub) True" "length (ub_batch_idxs ub) = ub_n_seqs ub * ub_n_seq_tokens ub"
    by (rule equal_good_props) blast
  let ?k = "ub_n_seqs ub" and ?u = "ub_n_seq_tokens ub" and ?xs = "ub_batch_idxs ub"
  from E(5) obtain s0 where s0: "sets = map (\<lambda>k. {s0 + int k}) [0..<?k]" by blast
  have split: "\<exists>s ii. s < ?k \<and> ii < ?u \<and> i = s * ?u + ii" if "i < ?k * ?u" for i
  proof (rule exI [of _ "i div ?u"], rule exI [of _ "i mod ?u"], intro conjI)
    show "i div ?u < ?k" using that by (rule less_mult_imp_div_less)
    show "i mod ?u < ?u" using E(2) by simp
    show "i = i div ?u * ?u + i mod ?u" by simp
  qed
  have in_range: "\<forall>i \<in> set ?xs. i < length (be_tokens be)"
  proof
    fix x assume "x \<in> set ?xs"
    then obtain i where "i < ?k * ?u" "x = ?xs ! i" using E(7) by (auto simp: in_set_conv_nth)
    with split [of i] E(4) A(2) show "x < length (be_tokens be)" by auto
  qed
  have div: "?k \<noteq> 0" "length ?xs mod ?k = 0" using E(1,7) by simp_all
  note R = built_row [OF init fit pos div E(6) in_range, unfolded E(7)]
  have idx: "s * ?u + ii < ?k * ?u" if "s < ?k" "ii < ?u" for s ii
  proof -
    have "Suc s * ?u \<le> ?k * ?u" using that(1) by (intro mult_le_mono1) simp
    then show ?thesis using that(2) by simp
  qed
  have sid: "ub_seq_id ub ! (s * ?u + ii) = [s0 + int s]" if "s < ?k" "ii < ?u" for s ii
  proof -
    let ?i = "?xs ! (s * ?u + ii)"
    have i: "?i < length (be_tokens be)" "ba_seq_set ?a ! ?i = {s0 + int s}" using E(4) that A(2) s0 by simp_all
    then have "set (te_seq_ids (be_tokens be ! ?i)) = {s0 + int s}" using A(5) by simp
    moreover have "length (te_seq_ids (be_tokens be ! ?i)) = 1" using fit cfg(2) i(1) by (simp add: batch_fits_def)
    ultimately have "te_seq_ids (be_tokens be ! ?i) = [s0 + int s]" by (cases "te_seq_ids (be_tokens be ! ?i)") auto
    then show ?thesis using R(1) [OF idx [OF that]] by simp
  qed
  have "set (ub_seq_id_unq ub) = {s0..<s0 + int ?k}"
  proof -
    have "set (ub_seq_id_unq ub) = (\<Union>s < ?k. {s0 + int s})"
    proof (intro equalityI subsetI)
      fix x assume "x \<in> set (ub_seq_id_unq ub)"
      then obtain i where "i < ?k * ?u" "x \<in> set (ub_seq_id ub ! i)" unfolding R(6) by blast
      with split [of i] sid show "x \<in> (\<Union>s < ?k. {s0 + int s})" by auto
    next
      fix x assume "x \<in> (\<Union>s < ?k. {s0 + int s})"
      then obtain s where s: "s < ?k" "x = s0 + int s" by auto
      then have "x \<in> set (ub_seq_id ub ! (s * ?u + 0))" using sid [OF s(1) E(2)] by simp
      then show "x \<in> set (ub_seq_id_unq ub)" using idx [OF s(1) E(2)] unfolding R(6) by blast
    qed
    also have "\<dots> = {s0..<s0 + int ?k}"
    proof (intro equalityI subsetI)
      fix x assume "x \<in> {s0..<s0 + int ?k}"
      then show "x \<in> (\<Union>s < ?k. {s0 + int s})" by (intro UN_I [of "nat (x - s0)"]) auto
    qed auto
    finally show ?thesis .
  qed
  moreover obtain m seqs where unq_eq: "ub_seq_id_unq ub = unique_ids m seqs" "ub_n_seqs_unq ub = length (ub_seq_id_unq ub)"
    using built_simps(5,6) [OF div, of ?a True, folded E(6)] by simp
  ultimately have unq: "ub_seq_id_unq ub = map (\<lambda>j. s0 + int j) [0..<?k]" "ub_n_seqs_unq ub = ?k"
    using unique_ids_range [of m seqs s0 ?k] by simp_all
  have st1: "1 < cf_n_stream cf" using cfg by (cases "cf_seq_to_stream cf") (auto simp: cfg_ok_def cfg_sane_def)
  have slots: "ub_slots cf ub = ?k" "ub_rows cf ub = ?u" using st1 unq(2) E(1,3) by (simp_all add: ub_slots_def ub_rows_def)
  have v: "valid_seq cf (s0 + int s)" if "s < ?k" for s using R(5) [of "s * ?u + 0" "s0 + int s"] sid [OF that E(2)] idx [OF that E(2)] by simp
  have inj: "s = r" if "s < ?k" "r < ?k" "stream cf (s0 + int s) = stream cf (s0 + int r)" for s r
  proof -
    have "distinct (cf_seq_to_stream cf)" using fit cfg(2) by (simp add: batch_fits_def)
    then have "nat (s0 + int s) = nat (s0 + int r)" using that v [OF that(1)] v [OF that(2)] unfolding stream_def valid_seq_def
      by (metis nth_eq_iff_index_eq)
    moreover have "0 \<le> s0 + int s" "0 \<le> s0 + int r" using v [OF that(1)] v [OF that(2)] by (simp_all add: valid_seq_def)
    ultimately have "s0 + int s = s0 + int r" by (simp only: eq_nat_nat_iff)
    then show ?thesis by simp
  qed
  have strm: "ub_stream cf ub s = stream cf (s0 + int s)" if "s < ?k" for s using unq(1) that by (simp add: ub_stream_def)
  show ?thesis unfolding ubatch_ok_def find_pre_def slots
  proof (intro conjI allI impI)
    show "0 < ?k" "0 < ?u" "ub_n_tokens ub = ?k * ?u" using E by simp_all
    show "distinct (map (ub_stream cf ub) [0..<?k])" using inj strm by (auto simp: distinct_map inj_on_def)
    fix s assume s: "s < ?k"
    show "valid_seq cf (ub_seq_id_unq ub ! s)" using v [OF s] unq(1) s by simp
    show "ub_seq_id ub ! (s * ?u) = [ub_seq_id_unq ub ! s]" using sid [OF s E(2)] unq(1) s by simp
    fix ii assume ii: "ii < ?u"
    show "row_ok cf (ub_stream cf ub s) ub (s * ?u + ii)"
      using R(2-5) [OF idx [OF s ii]] sid [OF s ii] strm [OF s] v [OF s] by (simp add: row_ok_def)
  qed
qed

subsection \<open>The contracts composed\<close>

text \<open>C6. From a batch to its slots. A batch that \<open>init\<close> accepted and that fits the configuration
  (\<open>batch_fits\<close>: every token names, once each, sequences of the cache and has no negative position; with
  several streams it names exactly one sequence, and no two sequences share a stream) is, for a cache without sliding-window attention and without SJ-KVaRN, cut into ubatches that use every token exactly
  once; \<open>init_batch\<close> returns, leaves every cell as it was, and its context holds one slot per ubatch exactly if
  all ubatches find a slot one after the other; otherwise it reports a failed preparation. (Only the search
  heads may differ, and with one stream not even these. With a window the cells are not always restored,
  \<open>kv_prepare_not_restored\<close>.)\<close>

theorem kv_init_batch_prepares:
  assumes "cfg_ok cf" "cf_swa_type cf = LLAMA_SWA_TYPE_NONE" "kv_inv cf n kv"
    and "batch_init be output_all a = Inr a'" "batch_fits cf be" "0 < ba_n_pos a"
  shows "\<exists>b ubs sis hs. mset (concat (map ub_batch_idxs ubs)) = mset [0..<length (be_tokens be)] \<and> dry_run cf ubs sis kv \<and>
    length hs = length (kv_heads kv) \<and> (cf_n_stream cf = 1 \<longrightarrow> hs = kv_heads kv) \<and>
    kv_init_batch cf n_ubatch a' kv = Some (b, kv\<lparr>kv_heads := hs\<rparr>, if length sis = length ubs then Some (sis, ubs) else None)"
proof -
  let ?a = "set_split_pos_grid 0 a'" and ?one = "cf_n_stream cf = 1"
  let ?split = "if ?one then split_simple n_ubatch else split_equal n_ubatch True 0 None"
  have ok: "entries_ok be" using assms(5) by (simp add: batch_fits_def)
  note I = start_inv [OF assms(4) ok refl [of "set_split_pos_grid 0 a'"]] and A = init_alloc_ok [OF assms(4) ok, of 0]
  have grid: "set_split_pos_grid (kv_split_grid cf) (split_reset a') = ?a"
    using cfg_okD(6) [OF assms(1)] init_pos(4) [OF assms(4)] by (simp add: kv_split_grid_def)
  have "\<exists>b ubs. split_all ?split ?a [] = Some (b, ubs) \<and> ba_n_used b = get_n_tokens ?a \<and> get_n_tokens b = get_n_tokens ?a \<and>
    mset (concat (map ub_batch_idxs ubs)) = mset [0..<length (be_tokens be)] \<and> (\<forall>ub \<in> set ubs. ubatch_ok cf ub)"
  proof (cases ?one)
    case True
    have "simple_inv ?a ?a" using I by (simp add: simple_inv_def)
    from simple.split_all_partition [OF this, of n_ubatch] obtain b ubs where
      s: "split_all (split_simple n_ubatch) ?a [] = Some (b, ubs)" "simple_inv ?a b" "todo_list b = []"
        "\<forall>ub \<in> set ubs. simple_good ?a n_ubatch ub" "mset (concat (map ub_batch_idxs ubs)) = mset (todo_list ?a)" by blast
    have inv: "alloc_inv ?a b" using s(2) by (simp add: simple_inv_def)
    have "\<forall>ub \<in> set ubs. ubatch_ok cf ub" using s(4) simple_ubatch_ok [OF assms(4-6,1) True] by blast
    then show ?thesis using s(1,3,5) True I(4) all_used [OF inv s(3)] alloc_inv_len [OF inv]
      by (intro exI [of _ b] exI [of _ ubs]) simp
  next
    case False
    have "equal_inv ?a n_ubatch True 0 ?a" using I A(7) assms(5) False by (auto simp: equal_inv_def batch_fits_def)
    from equal.split_all_partition [OF this, of None] obtain b ubs where
      s: "split_all (split_equal n_ubatch True 0 None) ?a [] = Some (b, ubs)" "equal_inv ?a n_ubatch True 0 b" "todo_list b = []"
        "\<forall>ub \<in> set ubs. equal_good ?a n_ubatch True 0 ub" "mset (concat (map ub_batch_idxs ubs)) = mset (todo_list ?a)" by blast
    have inv: "alloc_inv ?a b" using s(2) by (simp add: equal_inv_def)
    have "\<forall>ub \<in> set ubs. ubatch_ok cf ub" using s(4) equal_ubatch_ok [OF assms(4-6,1) False] by blast
    then show ?thesis using s(1,3,5) False I(4) all_used [OF inv s(3)] alloc_inv_len [OF inv]
      by (intro exI [of _ b] exI [of _ ubs]) simp
  qed
  then obtain b ubs where s: "split_all ?split ?a [] = Some (b, ubs)" "ba_n_used b = get_n_tokens b"
    "mset (concat (map ub_batch_idxs ubs)) = mset [0..<length (be_tokens be)]" "\<forall>ub \<in> set ubs. ubatch_ok cf ub" by auto
  have ne: "ubs \<noteq> []"
  proof
    assume "ubs = []"
    then have "size (mset [0..<length (be_tokens be)]) = 0" using s(3) by simp
    then show False using init_pos(5) [OF assms(4)] by (simp only: size_mset length_upt) simp
  qed
  from kv_prepare_restores [OF assms(1-3) s(4) ne] obtain sis hs where
    p: "dry_run cf ubs sis kv" "length hs = length (kv_heads kv)" "?one \<longrightarrow> hs = kv_heads kv"
      "kv_prepare cf ubs kv = Some (kv\<lparr>kv_heads := hs\<rparr>, if length sis = length ubs then sis else [])" by blast
  have "kv_init_batch cf n_ubatch a' kv = Some (b, kv\<lparr>kv_heads := hs\<rparr>, if length sis = length ubs then Some (sis, ubs) else None)"
    using s(1,2) p(4) ne by (auto simp: kv_init_batch_def grid Let_def)
  then show ?thesis using s(3) p(1-3) by blast
qed

theorem kv_init_batch_prepares_witness:
  "\<exists>a' b ubs sis kv'. batch_init (bext [tok [0] 8, tok [1] 0, tok [0] 9]) False alloc0 = Inr a' \<and>
    mset (concat (map ub_batch_idxs ubs)) = mset [0..<3] \<and> kv_cells kv' = kv_cells kv4 \<and>
    kv_init_batch cf2 4 a' kv4 = Some (b, kv', if length sis = length ubs then Some (sis, ubs) else None)"
proof -
  let ?be = "bext [tok [0] 8, tok [1] 0, tok [0] 9]"
  have "isl (batch_init ?be False alloc0) = False" by code_simp
  then obtain a' where a': "batch_init ?be False alloc0 = Inr a'" by (cases "batch_init ?be False alloc0") auto
  have "batch_fits cf2 ?be"
    by (simp add: batch_fits_def entries_ok_def bext_def tok_def entry_pos_def valid_seq_def cf2_def LLAMA_TOKEN_NULL_def)
  moreover have "cf_swa_type cf2 = LLAMA_SWA_TYPE_NONE" "0 < ba_n_pos alloc0" by (simp_all add: cf2_def alloc0_def)
  moreover have "length (be_tokens ?be) = 3" by (simp add: bext_def)
  ultimately show ?thesis using kv_init_batch_prepares [OF cf2_ok _ kv4_inv a', of 4] a' by fastforce
qed

end
