(* ===== verification/Gr_Utf8.thy ===== *)
theory Gr_Utf8
  imports Prelude
begin

unbundle bit_operations_syntax

section \<open>UTF-8 for the grammar engine and the parsers\<close>

text \<open>
  The byte-level decoders and the encoder that the grammar engine and the chat parsers rely on:
  both \<open>decode_utf8\<close> functions of \<open>src/llama-grammar.cpp\<close> (one sequence at a pointer, and the
  streaming one that carries a half-read sequence from one token to the next), the helpers of
  \<open>common/unicode.cpp\<close>, and \<open>unicode_len_utf8\<close> and \<open>unicode_cpt_from_utf8\<close> of
  \<open>src/unicode.cpp\<close>. A \<open>const char *\<close> into a NUL-terminated buffer is the list of the bytes from
  there on; its end reads as the terminating NUL. Code points are 32-bit words, so the shifts of
  the decoder wrap as they do in the code.
\<close>

type_synonym byte = "8 word"
type_synonym u32 = "32 word"

definition peek :: "byte list \<Rightarrow> byte" where
  "peek s = (case s of [] \<Rightarrow> 0 | b # _ \<Rightarrow> b)"

lemma peek_simps [simp]: "peek [] = 0" "peek (b # s) = b"
  by (simp_all add: peek_def)

definition highbits :: "byte \<Rightarrow> nat" where
  "highbits b = unat (drop_bit 4 b)"

lemma highbits_less: "highbits b < 16"
proof -
  have "unat b < 256" using unsigned_less [where ?'a = nat, of b] by simp
  then show ?thesis by (simp add: highbits_def drop_bit_eq_div unat_div_distrib less_mult_imp_div_less)
qed

subsection \<open>One sequence at a pointer\<close>

definition utf8_len_lookup :: "nat list" where
  "utf8_len_lookup = [1, 1, 1, 1, 1, 1, 1, 1, 1, 1, 1, 1, 2, 2, 3, 4]"

definition unicode_len_utf8 :: "byte \<Rightarrow> nat" where
  "unicode_len_utf8 src = utf8_len_lookup ! highbits src"

definition common_utf8_sequence_length :: "byte \<Rightarrow> nat" where
  "common_utf8_sequence_length first_byte = utf8_len_lookup ! highbits first_byte"

text \<open>The loop reads at most \<open>k\<close> more bytes and stops at a NUL; it does not look whether the
  bytes are continuation bytes.\<close>

fun take_six :: "nat \<Rightarrow> byte list \<Rightarrow> u32 \<Rightarrow> u32 \<times> byte list" where
  "take_six k [] v = (v, [])"
| "take_six k (b # bs) v =
     (if k = 0 \<or> b = 0 then (v, b # bs)
      else take_six (k - 1) bs (push_bit 6 v + ucast (b AND 0x3F)))"

definition decode_utf8_at :: "byte list \<Rightarrow> u32 \<times> byte list" where
  "decode_utf8_at src = (
     let first_byte = peek src;
         len = utf8_len_lookup ! highbits first_byte;
         value = ucast first_byte AND mask (8 - len)
     in take_six (len - 1) (tl src) value)"

subsection \<open>The streaming decoder\<close>

record partial_utf8 =
  u_value :: u32
  n_remain :: int

definition utf8_stream_lookup :: "int list" where
  "utf8_stream_lookup = [1, 1, 1, 1, 1, 1, 1, 1, 0, 0, 0, 0, 2, 2, 3, 4]"

text \<open>The first loop continues the sequence the previous token left open and insists on
  continuation bytes (\<open>None\<close>: the early return for an invalid sequence); the loop inside the second
  one does not.\<close>

fun finish_partial :: "byte list \<Rightarrow> u32 \<Rightarrow> int \<Rightarrow> (byte list \<times> u32 \<times> int) option" where
  "finish_partial [] v n = Some ([], v, n)"
| "finish_partial (b # bs) v n =
     (if b = 0 \<or> n \<le> 0 then Some (b # bs, v, n)
      else if drop_bit 6 b \<noteq> 2 then None
      else finish_partial bs (push_bit 6 v + ucast (b AND 0x3F)) (n - 1))"

fun read_tail :: "byte list \<Rightarrow> u32 \<Rightarrow> int \<Rightarrow> byte list \<times> u32 \<times> int" where
  "read_tail [] v n = ([], v, n)"
| "read_tail (b # bs) v n =
     (if b = 0 \<or> n \<le> 0 then (b # bs, v, n)
      else read_tail bs (push_bit 6 v + ucast (b AND 0x3F)) (n - 1))"

lemma read_tail_length: "read_tail s v n = (s', v', n') \<Longrightarrow> length s' \<le> length s"
  by (induction s v n rule: read_tail.induct) (auto split: if_splits)

function decode_seqs :: "byte list \<Rightarrow> u32 \<Rightarrow> int \<Rightarrow> u32 list \<Rightarrow> u32 list \<times> partial_utf8" where
  "decode_seqs s v n cps =
     (case s of
        [] \<Rightarrow> (cps @ [0], \<lparr>u_value = v, n_remain = n\<rparr>)
      | b # bs \<Rightarrow>
          if b = 0 then (cps @ [0], \<lparr>u_value = v, n_remain = n\<rparr>)
          else let n1 = utf8_stream_lookup ! highbits b - 1 in
            if n1 < 0 then ([0], \<lparr>u_value = 0, n_remain = n1\<rparr>)
            else (case read_tail bs (ucast b AND mask (nat (7 - n1))) n1 of
              (s2, v2, n2) \<Rightarrow> decode_seqs s2 v2 n2 (if n2 = 0 then cps @ [v2] else cps)))"
  by pat_completeness auto
termination
  by (relation "measure (\<lambda>(s, _). length s)") (auto dest: read_tail_length [OF sym])

declare decode_seqs.simps [simp del]

definition decode_utf8 :: "byte list \<Rightarrow> partial_utf8 \<Rightarrow> u32 list \<times> partial_utf8" where
  "decode_utf8 src partial_start =
     (case finish_partial src (u_value partial_start) (n_remain partial_start) of
        None \<Rightarrow> ([0], \<lparr>u_value = 0, n_remain = -1\<rparr>)
      | Some (s, v, n) \<Rightarrow>
          decode_seqs s v n (if n_remain partial_start > 0 \<and> n = 0 then [v] else []))"

lemma decode_seqs_Nil [simp]:
  "decode_seqs [] v n cps = (cps @ [0], \<lparr>u_value = v, n_remain = n\<rparr>)"
  by (subst decode_seqs.simps) simp

lemma decode_seqs_zero [simp]:
  "decode_seqs (0 # s) v n cps = (cps @ [0], \<lparr>u_value = v, n_remain = n\<rparr>)"
  by (subst decode_seqs.simps) simp

lemma decode_seqs_Cons:
  "b \<noteq> 0 \<Longrightarrow> decode_seqs (b # bs) v n cps =
     (let n1 = utf8_stream_lookup ! highbits b - 1 in
      if n1 < 0 then ([0], \<lparr>u_value = 0, n_remain = n1\<rparr>)
      else (case read_tail bs (ucast b AND mask (nat (7 - n1))) n1 of
        (s2, v2, n2) \<Rightarrow> decode_seqs s2 v2 n2 (if n2 = 0 then cps @ [v2] else cps)))"
  by (subst decode_seqs.simps) simp

lemma finish_partial_read_tail:
  "finish_partial s v n = Some r \<Longrightarrow> read_tail s v n = r"
  by (induction s v n rule: finish_partial.induct) (auto split: if_splits)

lemma read_tail_stop [simp]: "n \<le> 0 \<Longrightarrow> read_tail s v n = (s, v, n)"
  by (cases s) auto

lemma finish_partial_stop [simp]: "n \<le> 0 \<Longrightarrow> finish_partial s v n = Some (s, v, n)"
  by (cases s) auto

lemma read_tail_remain:
  "read_tail s v n = (s', v', n') \<Longrightarrow> 0 \<le> n \<Longrightarrow> 0 \<le> n'"
  by (induction s v n rule: read_tail.induct) (auto split: if_splits)

lemma read_tail_rest:
  "read_tail s v n = (s', v', n') \<Longrightarrow> 0 \<notin> set s \<Longrightarrow> 0 < n' \<Longrightarrow> s' = []"
  by (induction s v n rule: read_tail.induct) (auto split: if_splits)

lemma read_tail_set:
  "read_tail s v n = (s', v', n') \<Longrightarrow> set s' \<subseteq> set s"
  by (induction s v n rule: read_tail.induct) (auto split: if_splits)

lemma read_tail_append:
  assumes "read_tail s v n = (s', v', n')" and "0 \<notin> set s"
  shows "read_tail (s @ t) v n = (if s' = [] then read_tail t v' n' else (s' @ t, v', n'))"
  using assms by (induction s v n rule: read_tail.induct) (auto split: if_splits)

lemma finish_partial_append:
  assumes "finish_partial s v n = Some (s', v', n')" and "0 \<notin> set s"
  shows "finish_partial (s @ t) v n =
    (if s' = [] then finish_partial t v' n' else Some (s' @ t, v', n'))"
  using assms by (induction s v n rule: finish_partial.induct) (auto split: if_splits)

text \<open>What is read after \<open>s\<close> depends on \<open>s\<close> only through the state it leaves: the decoder can be
  stopped and restarted at any byte.\<close>

lemma decode_seqs_append:
  assumes "decode_seqs s v n cps = (cs1, p1)" and "0 \<notin> set s" and "n \<le> 0"
    and "n_remain p1 \<ge> 0 \<or> s = []"
  shows "decode_seqs (s @ t) v n cps =
    (case read_tail t (u_value p1) (n_remain p1) of
       (t', v', n') \<Rightarrow> decode_seqs t' v' n' (if n_remain p1 > 0 \<and> n' = 0 then butlast cs1 @ [v'] else butlast cs1))"
  using assms
proof (induction s v n cps rule: decode_seqs.induct)
  case (1 s v n cps)
  show ?case
  proof (cases s)
    case Nil
    with "1.prems" show ?thesis by (auto simp: not_less)
  next
    case (Cons b bs)
    with "1.prems"(2) have b: "b \<noteq> 0" "0 \<notin> set bs" by auto
    define n1 where "n1 = utf8_stream_lookup ! highbits b - 1"
    obtain s2 v2 n2 where rt: "read_tail bs (ucast b AND mask (nat (7 - n1))) n1 = (s2, v2, n2)"
      by (metis prod_cases3)
    have n1: "\<not> n1 < 0"
      using "1.prems"(1,4) Cons b by (auto simp: decode_seqs_Cons n1_def [symmetric] Let_def)
    have d: "decode_seqs s2 v2 n2 (if n2 = 0 then cps @ [v2] else cps) = (cs1, p1)"
      using "1.prems"(1) Cons b n1 rt by (simp add: decode_seqs_Cons n1_def [symmetric] Let_def)
    have n2: "0 \<le> n2" using read_tail_remain [OF rt] n1 by simp
    have s2: "0 \<notin> set s2" using read_tail_set [OF rt] b by auto
    show ?thesis
    proof (cases "n2 = 0")
      case True
      have "decode_seqs (s2 @ t) v2 n2 (cps @ [v2]) =
        (case read_tail t (u_value p1) (n_remain p1) of
          (t', v', n') \<Rightarrow> decode_seqs t' v' n' (if n_remain p1 > 0 \<and> n' = 0 then butlast cs1 @ [v'] else butlast cs1))"
        using "1.IH" [OF Cons b(1) n1_def n1 rt [symmetric], simplified] d s2 True "1.prems"(4) Cons
        by (cases "s2 = []") auto
      then show ?thesis
        using Cons b n1 rt True read_tail_append [OF rt b(2), of t]
        by (auto simp: decode_seqs_Cons n1_def [symmetric] Let_def split: if_splits)
    next
      case False
      with n2 have "0 < n2" by simp
      then have "s2 = []" using read_tail_rest [OF rt b(2)] by simp
      then show ?thesis
        using Cons b n1 rt False d \<open>0 < n2\<close> read_tail_append [OF rt b(2), of t]
        by (auto simp: decode_seqs_Cons n1_def [symmetric] Let_def split: prod.splits)
    qed
  qed
qed

lemma decode_seqs_grow:
  assumes "decode_seqs s v n ys = (cs, p)" and "0 \<le> n_remain p"
  shows "decode_seqs s v n (xs @ ys) = (xs @ cs, p)"
  using assms
proof (induction s v n ys arbitrary: rule: decode_seqs.induct)
  case (1 s v n ys)
  show ?case
  proof (cases "s = [] \<or> hd s = 0")
    case True
    then show ?thesis using "1.prems" by (cases s) auto
  next
    case False
    then obtain b bs where s: "s = b # bs" "b \<noteq> 0" by (cases s) auto
    define n1 where "n1 = utf8_stream_lookup ! highbits b - 1"
    obtain s2 v2 n2 where rt: "read_tail bs (ucast b AND mask (nat (7 - n1))) n1 = (s2, v2, n2)"
      by (metis prod_cases3)
    have n1: "\<not> n1 < 0"
      using "1.prems" s by (auto simp: decode_seqs_Cons n1_def [symmetric] Let_def)
    have d: "decode_seqs s2 v2 n2 (if n2 = 0 then ys @ [v2] else ys) = (cs, p)"
      using "1.prems"(1) s n1 rt by (simp add: decode_seqs_Cons n1_def [symmetric] Let_def)
    from "1.IH" [OF s n1_def n1 rt [symmetric], simplified] d "1.prems"(2) s n1 rt
    show ?thesis by (auto simp: decode_seqs_Cons n1_def [symmetric] Let_def split: if_splits)
  qed
qed

lemma finish_partial_le: "finish_partial s v n = Some (s', v', n') \<Longrightarrow> n' \<le> n"
  by (induction s v n rule: finish_partial.induct) (auto split: if_splits)

lemma finish_partial_rest:
  "finish_partial s v n = Some (s', v', n') \<Longrightarrow> 0 \<notin> set s \<Longrightarrow> s' \<noteq> [] \<Longrightarrow> n' \<le> 0"
  by (induction s v n rule: finish_partial.induct) (auto split: if_splits)

lemma finish_partial_set:
  "finish_partial s v n = Some (s', v', n') \<Longrightarrow> set s' \<subseteq> set s"
  by (induction s v n rule: finish_partial.induct) (auto split: if_splits)

lemma decode_utf8_not_invalid:
  assumes "decode_utf8 b p = (cs, q)" and "0 \<le> n_remain q"
  obtains s v n where "finish_partial b (u_value p) (n_remain p) = Some (s, v, n)"
    and "decode_seqs s v n (if n_remain p > 0 \<and> n = 0 then [v] else []) = (cs, q)"
  using assms by (auto simp: decode_utf8_def split: option.splits prod.splits)

text \<open>C36. The streaming decoder may be fed a string in pieces, token by token: if neither piece is
  found invalid, decoding \<open>a @ b\<close> yields the code points of \<open>a\<close> (without its terminating zero)
  followed by those decoding \<open>b\<close> from the state left by \<open>a\<close> yields, and the same final state,
  wherever the boundary falls inside a sequence.\<close>

theorem decode_utf8_stream:
  assumes "0 \<notin> set a"
    and "decode_utf8 a p = (cs1, p1)" and "0 \<le> n_remain p1"
    and "decode_utf8 b p1 = (cs2, p2)" and "0 \<le> n_remain p2"
  shows "decode_utf8 (a @ b) p = (butlast cs1 @ cs2, p2)"
proof -
  obtain s v n where fa: "finish_partial a (u_value p) (n_remain p) = Some (s, v, n)"
    and da: "decode_seqs s v n (if n_remain p > 0 \<and> n = 0 then [v] else []) = (cs1, p1)"
    using decode_utf8_not_invalid [OF assms(2,3)] .
  obtain t w m where fb: "finish_partial b (u_value p1) (n_remain p1) = Some (t, w, m)"
    and db: "decode_seqs t w m (if n_remain p1 > 0 \<and> m = 0 then [w] else []) = (cs2, p2)"
    using decode_utf8_not_invalid [OF assms(4,5)] .
  note fab = finish_partial_append [OF fa assms(1), of b]
  show ?thesis
  proof (cases "s = []")
    case True
    with da have p1: "p1 = \<lparr>u_value = v, n_remain = n\<rparr>"
      and cs1: "butlast cs1 = (if n_remain p > 0 \<and> n = 0 then [v] else [])" by (auto split: if_splits)
    have "n \<le> n_remain p" using finish_partial_le [OF fa] .
    with fab True fb p1 cs1 db assms(3) show ?thesis
      using decode_seqs_grow [OF db assms(5), of "butlast cs1"]
      by (cases "n = 0") (auto simp: decode_utf8_def split: if_splits)
  next
    case False
    have n: "n \<le> 0" using finish_partial_rest [OF fa assms(1) False] .
    have s: "0 \<notin> set s" using finish_partial_set [OF fa] assms(1) by auto
    show ?thesis
      using decode_seqs_append [OF da s n, of b] fab False assms(3) finish_partial_read_tail [OF fb]
        decode_seqs_grow [OF db assms(5), of "butlast cs1"]
      by (auto simp: decode_utf8_def split: if_splits)
  qed
qed

subsection \<open>The parser of \<open>common/unicode.cpp\<close>\<close>

datatype utf8_status = Success | Incomplete | Invalid

record utf8_parse_result =
  codepoint :: u32
  bytes_consumed :: nat
  status :: utf8_status

definition result_of :: "utf8_status \<Rightarrow> u32 \<Rightarrow> nat \<Rightarrow> utf8_parse_result" where
  "result_of s cp bytes = \<lparr>codepoint = cp, bytes_consumed = bytes, status = s\<rparr>"

definition is_cont :: "byte \<Rightarrow> bool" where
  "is_cont b \<longleftrightarrow> b AND 0xc0 = 0x80"

text \<open>The loop over the continuation bytes \<open>i, i + 1, \<dots>\<close>: a missing byte is reported before a
  bad one only if it comes first.\<close>

fun check_conts :: "byte list \<Rightarrow> nat \<Rightarrow> nat list \<Rightarrow> utf8_parse_result option" where
  "check_conts input offset [] = None"
| "check_conts input offset (i # is) =
     (if offset + i \<ge> length input then Some (result_of Incomplete 0 i)
      else if \<not> is_cont (input ! (offset + i)) then Some (result_of Invalid 0 i)
      else check_conts input offset is)"

definition common_parse_utf8_codepoint :: "byte list \<Rightarrow> nat \<Rightarrow> utf8_parse_result" where
  "common_parse_utf8_codepoint input offset =
     (let c = (\<lambda>i m. ucast (input ! (offset + i) AND m) :: u32) in
      if offset \<ge> length input then result_of Incomplete 0 0
      else if input ! offset AND 0x80 = 0 then result_of Success (ucast (input ! offset)) 1
      else if input ! offset AND 0x40 = 0 then result_of Invalid 0 1
      else if input ! offset AND 0x20 = 0 then
        (if offset + 1 \<ge> length input then result_of Incomplete 0 1
         else if \<not> is_cont (input ! (offset + 1)) then result_of Invalid 0 1
         else result_of Success (push_bit 6 (c 0 0x1f) OR c 1 0x3f) 2)
      else if input ! offset AND 0x10 = 0 then
        (case check_conts input offset [1..<3] of
           Some r \<Rightarrow> r
         | None \<Rightarrow> result_of Success
             (push_bit 12 (c 0 0x0f) OR push_bit 6 (c 1 0x3f) OR c 2 0x3f) 3)
      else if input ! offset AND 0x08 = 0 then
        (case check_conts input offset [1..<4] of
           Some r \<Rightarrow> r
         | None \<Rightarrow> result_of Success
             (push_bit 18 (c 0 0x07) OR push_bit 12 (c 1 0x3f) OR push_bit 6 (c 2 0x3f) OR c 3 0x3f) 4)
      else result_of Invalid 0 1)"

fun complete_scan :: "byte list \<Rightarrow> nat list \<Rightarrow> bool" where
  "complete_scan s [] = False"
| "complete_scan s (i # is) =
     (let c = s ! (length s - i) in
      if c AND 0xC0 \<noteq> 0x80 then
        (let expected = (if c \<ge> 0xF0 then 4 else if c \<ge> 0xE0 then 3 else if c \<ge> 0xC0 then 2 else 1)
         in i \<ge> expected)
      else complete_scan s is)"

definition common_utf8_is_complete :: "byte list \<Rightarrow> bool" where
  "common_utf8_is_complete s = (s = [] \<or> complete_scan s [1..<Suc (min 4 (length s))])"

text \<open>\<open>unicode_cpt_from_utf8\<close> of the vocabulary code: the code point and the new offset,
  \<open>None\<close> where it throws (or the assertion on the offset fails).\<close>

definition unicode_cpt_from_utf8 :: "byte list \<Rightarrow> nat \<Rightarrow> (u32 \<times> nat) option" where
  "unicode_cpt_from_utf8 utf8 offset =
     (let c = (\<lambda>i m. ucast (utf8 ! (offset + i) AND m) :: u32) in
      if offset \<ge> length utf8 then None
      else if utf8 ! offset AND 0x80 = 0 then Some (ucast (utf8 ! offset), offset + 1)
      else if utf8 ! offset AND 0x40 = 0 then None
      else if utf8 ! offset AND 0x20 = 0 then
        (if offset + 1 \<ge> length utf8 \<or> \<not> is_cont (utf8 ! (offset + 1)) then None
         else Some (push_bit 6 (c 0 0x1f) OR c 1 0x3f, offset + 2))
      else if utf8 ! offset AND 0x10 = 0 then
        (if offset + 2 \<ge> length utf8 \<or> \<not> is_cont (utf8 ! (offset + 1))
            \<or> \<not> is_cont (utf8 ! (offset + 2)) then None
         else Some (push_bit 12 (c 0 0x0f) OR push_bit 6 (c 1 0x3f) OR c 2 0x3f, offset + 3))
      else if utf8 ! offset AND 0x08 = 0 then
        (if offset + 3 \<ge> length utf8 \<or> \<not> is_cont (utf8 ! (offset + 1))
            \<or> \<not> is_cont (utf8 ! (offset + 2)) \<or> \<not> is_cont (utf8 ! (offset + 3)) then None
         else Some (push_bit 18 (c 0 0x07) OR push_bit 12 (c 1 0x3f) OR push_bit 6 (c 2 0x3f)
                      OR c 3 0x3f, offset + 4))
      else None)"

subsection \<open>The encoder\<close>

definition common_unicode_cpt_to_utf8 :: "u32 \<Rightarrow> byte list option" where
  "common_unicode_cpt_to_utf8 cpt =
     (if cpt \<le> 0x7f then Some [ucast cpt]
      else if 0x80 \<le> cpt \<and> cpt \<le> 0x7ff then
        Some [ucast (0xc0 OR (drop_bit 6 cpt AND 0x1f)), ucast (0x80 OR (cpt AND 0x3f))]
      else if 0x800 \<le> cpt \<and> cpt \<le> 0xffff then
        Some [ucast (0xe0 OR (drop_bit 12 cpt AND 0x0f)),
              ucast (0x80 OR (drop_bit 6 cpt AND 0x3f)), ucast (0x80 OR (cpt AND 0x3f))]
      else if 0x10000 \<le> cpt \<and> cpt \<le> 0x10ffff then
        Some [ucast (0xf0 OR (drop_bit 18 cpt AND 0x07)),
              ucast (0x80 OR (drop_bit 12 cpt AND 0x3f)),
              ucast (0x80 OR (drop_bit 6 cpt AND 0x3f)), ucast (0x80 OR (cpt AND 0x3f))]
      else None)"

definition common_unicode_cpts_to_utf8 :: "u32 list \<Rightarrow> byte list option" where
  "common_unicode_cpts_to_utf8 cps =
     for_each (\<lambda>cp result. do { bs \<leftarrow> common_unicode_cpt_to_utf8 cp; Some (result @ bs) }) cps []"

lemma mask_numerals:
  "(0x07 :: 'a::len word) = mask 3" "(0x0f :: 'a::len word) = mask 4"
  "(0x1f :: 'a::len word) = mask 5" "(0x3f :: 'a::len word) = mask 6"
  by (simp_all add: mask_eq_exp_minus_1)

lemma high_numerals:
  "(0x80 :: 'a::len word) = push_bit 7 (mask 1)" "(0xc0 :: 'a::len word) = push_bit 6 (mask 2)"
  "(0xe0 :: 'a::len word) = push_bit 5 (mask 3)" "(0xf0 :: 'a::len word) = push_bit 4 (mask 4)"
  "(0x0c :: 'a::len word) = push_bit 2 (mask 2)"
  by (simp_all add: push_bit_eq_mult mask_eq_exp_minus_1)

lemma bit_high:
  "bit (0x80 :: 'a::len word) n \<longleftrightarrow> n < LENGTH('a) \<and> n = 7"
  "bit (0xc0 :: 'a::len word) n \<longleftrightarrow> n < LENGTH('a) \<and> 6 \<le> n \<and> n < 8"
  "bit (0xe0 :: 'a::len word) n \<longleftrightarrow> n < LENGTH('a) \<and> 5 \<le> n \<and> n < 8"
  "bit (0xf0 :: 'a::len word) n \<longleftrightarrow> n < LENGTH('a) \<and> 4 \<le> n \<and> n < 8"
  by (simp_all only: high_numerals bit_push_bit_iff bit_mask_iff possible_bit_word) auto

lemma bit_high_int:
  "bit (0x80 :: int) n \<longleftrightarrow> n = 7" "bit (0xc0 :: int) n \<longleftrightarrow> 6 \<le> n \<and> n < 8"
  "bit (0xe0 :: int) n \<longleftrightarrow> 5 \<le> n \<and> n < 8" "bit (0xf0 :: int) n \<longleftrightarrow> 4 \<le> n \<and> n < 8"
proof -
  have "(0x80 :: int) = push_bit 7 (mask 1)" "(0xc0 :: int) = push_bit 6 (mask 2)"
    "(0xe0 :: int) = push_bit 5 (mask 3)" "(0xf0 :: int) = push_bit 4 (mask 4)"
    by (simp_all add: push_bit_eq_mult mask_eq_exp_minus_1)
  then show "bit (0x80 :: int) n \<longleftrightarrow> n = 7" "bit (0xc0 :: int) n \<longleftrightarrow> 6 \<le> n \<and> n < 8"
    "bit (0xe0 :: int) n \<longleftrightarrow> 5 \<le> n \<and> n < 8" "bit (0xf0 :: int) n \<longleftrightarrow> 4 \<le> n \<and> n < 8"
    by (simp_all only: bit_push_bit_iff bit_mask_iff possible_bit_int) auto
qed

lemma bit_14:
  "bit (14 :: 'a::len word) n \<longleftrightarrow> n < LENGTH('a) \<and> 1 \<le> n \<and> n < 4"
  "bit (15 :: 'a::len word) n \<longleftrightarrow> n < LENGTH('a) \<and> n < 4"
proof -
  have e: "(14 :: 'a word) = push_bit 1 (mask 3)" "(15 :: 'a word) = mask 4"
    by (simp_all add: push_bit_eq_mult mask_eq_exp_minus_1)
  show "bit (14 :: 'a::len word) n \<longleftrightarrow> n < LENGTH('a) \<and> 1 \<le> n \<and> n < 4"
    "bit (15 :: 'a::len word) n \<longleftrightarrow> n < LENGTH('a) \<and> n < 4"
    unfolding e by (simp_all only: bit_push_bit_iff bit_mask_iff possible_bit_word) auto
qed

lemma bit_14_int:
  "bit (14 :: int) n \<longleftrightarrow> 1 \<le> n \<and> n < 4" "bit (15 :: int) n \<longleftrightarrow> n < 4"
proof -
  have e: "(14 :: int) = push_bit 1 (mask 3)" "(15 :: int) = mask 4"
    by (simp_all add: push_bit_eq_mult mask_eq_exp_minus_1)
  show "bit (14 :: int) n \<longleftrightarrow> 1 \<le> n \<and> n < 4" "bit (15 :: int) n \<longleftrightarrow> n < 4"
    unfolding e by (simp_all only: bit_push_bit_iff bit_mask_iff possible_bit_int) auto
qed

lemmas utf8_bits = bit_high_int bit_high bit_simps

lemma single_bits:
  "(0x80 :: 'a::len word) = 2 ^ 7" "(0x40 :: 'a::len word) = 2 ^ 6" "(0x20 :: 'a::len word) = 2 ^ 5"
  "(0x10 :: 'a::len word) = 2 ^ 4" "(0x08 :: 'a::len word) = 2 ^ 3"
  by simp_all

lemma bit_bound:
  assumes "unat (w :: 'a::len word) < 2 ^ k" and "bit w n"
  shows "n < k"
proof -
  have "take_bit k (unat w) = unat w" using assms(1) by (simp add: take_bit_nat_eq_self_iff)
  moreover have "bit (unat w) n" using assms(2) by (simp add: bit_unsigned_iff)
  ultimately have "bit (take_bit k (unat w)) n" by simp
  then show ?thesis by (simp add: bit_take_bit_iff)
qed

lemma byte_bit_test: "(b :: byte) AND 2 ^ n = 0 \<longleftrightarrow> \<not> bit b n"
  by (rule and_exp_eq_0_iff_not_bit)

lemma cont_byte:
  "is_cont (ucast (0x80 OR ((x :: u32) AND 0x3f)))"
  "ucast ((ucast (0x80 OR (x AND 0x3f)) :: byte) AND 0x3f) = x AND 0x3f"
  "(ucast (0x80 OR (x AND 0x3f)) :: byte) \<noteq> 0"
proof -
  show "is_cont (ucast (0x80 OR ((x :: u32) AND 0x3f)))"
    unfolding is_cont_def mask_numerals
    by (rule bit_word_eqI) (auto simp: utf8_bits)
  show "ucast ((ucast (0x80 OR (x AND 0x3f)) :: byte) AND 0x3f) = x AND 0x3f"
    unfolding mask_numerals
    by (rule bit_word_eqI) (auto simp: utf8_bits)
  have "bit (ucast (0x80 OR (x AND 0x3f)) :: byte) 7"
    unfolding mask_numerals by (simp add: utf8_bits)
  then show "(ucast (0x80 OR (x AND 0x3f)) :: byte) \<noteq> 0" by auto
qed

text \<open>The lead byte of a sequence of \<open>k\<close> bytes: its marker bits, its payload and its place in the
  tables of lengths.\<close>

lemma lead2:
  fixes x :: u32
  defines "b \<equiv> ucast (0xc0 OR (x AND 0x1f)) :: byte"
  shows "b AND 0x80 \<noteq> 0" "b AND 0x40 \<noteq> 0" "b AND 0x20 = 0" "ucast (b AND 0x1f) = x AND 0x1f"
    "ucast b AND mask 6 = x AND 0x1f" "b \<noteq> 0" "highbits b \<in> {12, 13}"
proof -
  show t: "b AND 0x80 \<noteq> 0" "b AND 0x40 \<noteq> 0" "b AND 0x20 = 0"
    unfolding single_bits byte_bit_test b_def mask_numerals by (simp_all add: utf8_bits)
  then show "b \<noteq> 0" by auto
  show "ucast (b AND 0x1f) = x AND 0x1f" "ucast b AND mask 6 = x AND 0x1f"
    unfolding b_def mask_numerals
    by (rule bit_word_eqI, auto simp: utf8_bits)+
  have "drop_bit 4 b = 0xc OR (if bit x 4 then 1 else 0)"
    unfolding b_def mask_numerals
    by (rule bit_word_eqI) (auto simp: utf8_bits high_numerals)
  then show "highbits b \<in> {12, 13}" by (auto simp: highbits_def split: if_splits)
qed

lemma lead3:
  fixes x :: u32
  defines "b \<equiv> ucast (0xe0 OR (x AND 0x0f)) :: byte"
  shows "b AND 0x80 \<noteq> 0" "b AND 0x40 \<noteq> 0" "b AND 0x20 \<noteq> 0" "b AND 0x10 = 0"
    "ucast (b AND 0x0f) = x AND 0x0f" "ucast b AND mask 5 = x AND 0x0f" "b \<noteq> 0" "highbits b = 14"
proof -
  show t: "b AND 0x80 \<noteq> 0" "b AND 0x40 \<noteq> 0" "b AND 0x20 \<noteq> 0" "b AND 0x10 = 0"
    unfolding single_bits byte_bit_test b_def mask_numerals by (simp_all add: utf8_bits)
  then show "b \<noteq> 0" by auto
  show "ucast (b AND 0x0f) = x AND 0x0f" "ucast b AND mask 5 = x AND 0x0f"
    unfolding b_def mask_numerals by (rule bit_word_eqI, auto simp: utf8_bits)+
  have "drop_bit 4 b = 14"
    unfolding b_def mask_numerals
    by (rule bit_word_eqI) (auto simp: utf8_bits bit_14 bit_14_int)
  then show "highbits b = 14" by (simp add: highbits_def)
qed

lemma lead4:
  fixes x :: u32
  defines "b \<equiv> ucast (0xf0 OR (x AND 0x07)) :: byte"
  shows "b AND 0x80 \<noteq> 0" "b AND 0x40 \<noteq> 0" "b AND 0x20 \<noteq> 0" "b AND 0x10 \<noteq> 0" "b AND 0x08 = 0"
    "ucast (b AND 0x07) = x AND 0x07" "ucast b AND mask 4 = x AND 0x07" "b \<noteq> 0" "highbits b = 15"
proof -
  show t: "b AND 0x80 \<noteq> 0" "b AND 0x40 \<noteq> 0" "b AND 0x20 \<noteq> 0" "b AND 0x10 \<noteq> 0" "b AND 0x08 = 0"
    unfolding single_bits byte_bit_test b_def mask_numerals by (simp_all add: utf8_bits)
  then show "b \<noteq> 0" by auto
  show "ucast (b AND 0x07) = x AND 0x07" "ucast b AND mask 4 = x AND 0x07"
    unfolding b_def mask_numerals by (rule bit_word_eqI, auto simp: utf8_bits)+
  have "drop_bit 4 b = 15"
    unfolding b_def mask_numerals
    by (rule bit_word_eqI) (auto simp: utf8_bits bit_14 bit_14_int)
  then show "highbits b = 15" by (simp add: highbits_def)
qed

lemma lead1:
  fixes x :: u32
  assumes "x \<le> 0x7f"
  shows "ucast x AND (0x80 :: byte) = 0" "ucast (ucast x :: byte) = x"
    "ucast (ucast x :: byte) AND mask 7 = x" "highbits (ucast x) < 8"
    "x \<noteq> 0 \<Longrightarrow> (ucast x :: byte) \<noteq> 0"
proof -
  have x: "unat x < 2 ^ 7" using assms by (simp add: word_le_nat_alt)
  note bd = bit_bound [OF x]
  show "ucast x AND (0x80 :: byte) = 0"
    unfolding single_bits byte_bit_test by (auto simp: utf8_bits dest: bd)
  show u: "ucast (ucast x :: byte) = x" by (rule bit_word_eqI) (auto simp: utf8_bits dest: bd)
  show "ucast (ucast x :: byte) AND mask 7 = x"
    by (rule bit_word_eqI) (auto simp: utf8_bits dest: bd)
  show "x \<noteq> 0 \<Longrightarrow> (ucast x :: byte) \<noteq> 0" using u by auto
  have "unat (ucast x :: byte) < 128"
    using le_less_trans [OF take_bit_nat_less_eq_self x, of 8] by (simp add: unsigned_ucast_eq)
  then show "highbits (ucast x) < 8"
    by (simp add: highbits_def drop_bit_eq_div unat_div_distrib less_mult_imp_div_less)
qed

lemma drop_mask:
  assumes "unat (x :: u32) < 2 ^ (k + m)"
  shows "drop_bit k x AND mask m = drop_bit k x"
  by (rule bit_word_eqI) (auto simp: utf8_bits dest: bit_bound [OF assms])

lemma add_six: "push_bit 6 (drop_bit 6 x) + (x AND mask 6) = (x :: u32)"
  using bits_ident [of 6 x] by (simp add: take_bit_eq_mask)

lemma or_six:
  fixes x :: u32
  shows "push_bit 6 (drop_bit 6 x) OR (x AND mask 6) = x"
    and "push_bit 12 (drop_bit 12 x) OR push_bit 6 (drop_bit 6 x AND mask 6) OR (x AND mask 6) = x"
    and "push_bit 18 (drop_bit 18 x) OR push_bit 12 (drop_bit 12 x AND mask 6) OR
       push_bit 6 (drop_bit 6 x AND mask 6) OR (x AND mask 6) = x"
proof -
  have c: "n < 6 \<or> 6 \<le> n \<and> n < 12 \<or> 12 \<le> n \<and> n < 18 \<or> 18 \<le> n" for n :: nat by arith
  show "push_bit 6 (drop_bit 6 x) OR (x AND mask 6) = x"
    by (rule bit_word_eqI) (auto simp: utf8_bits)
  show "push_bit 12 (drop_bit 12 x) OR push_bit 6 (drop_bit 6 x AND mask 6) OR (x AND mask 6) = x"
  proof (rule bit_word_eqI)
    show "bit (push_bit 12 (drop_bit 12 x) OR push_bit 6 (drop_bit 6 x AND mask 6) OR (x AND mask 6)) n
      \<longleftrightarrow> bit x n" if "n < LENGTH(32)" for n
      using c [of n] that by (elim disjE conjE) (auto simp: utf8_bits)
  qed
  show "push_bit 18 (drop_bit 18 x) OR push_bit 12 (drop_bit 12 x AND mask 6) OR
      push_bit 6 (drop_bit 6 x AND mask 6) OR (x AND mask 6) = x"
  proof (rule bit_word_eqI)
    show "bit (push_bit 18 (drop_bit 18 x) OR push_bit 12 (drop_bit 12 x AND mask 6) OR
      push_bit 6 (drop_bit 6 x AND mask 6) OR (x AND mask 6)) n \<longleftrightarrow> bit x n" if "n < LENGTH(32)" for n
      using c [of n] that by (elim disjE conjE) (auto simp: utf8_bits)
  qed
qed

text \<open>The bytes of a code point, by length, with what the readers need of them.\<close>

lemma encode_cases:
  assumes "cpt \<le> 0x10ffff"
  obtains (one) "cpt \<le> 0x7f" "common_unicode_cpt_to_utf8 cpt = Some [ucast cpt]"
  | (two) "unat cpt < 2 ^ 11"
      "common_unicode_cpt_to_utf8 cpt =
         Some [ucast (0xc0 OR (drop_bit 6 cpt AND 0x1f)), ucast (0x80 OR (cpt AND 0x3f))]"
  | (three) "unat cpt < 2 ^ 16"
      "common_unicode_cpt_to_utf8 cpt =
         Some [ucast (0xe0 OR (drop_bit 12 cpt AND 0x0f)),
               ucast (0x80 OR (drop_bit 6 cpt AND 0x3f)), ucast (0x80 OR (cpt AND 0x3f))]"
  | (four) "unat cpt < 2 ^ 21"
      "common_unicode_cpt_to_utf8 cpt =
         Some [ucast (0xf0 OR (drop_bit 18 cpt AND 0x07)),
               ucast (0x80 OR (drop_bit 12 cpt AND 0x3f)),
               ucast (0x80 OR (drop_bit 6 cpt AND 0x3f)), ucast (0x80 OR (cpt AND 0x3f))]"
proof -
  have c: "cpt \<le> 0x7f \<longleftrightarrow> unat cpt \<le> 0x7f" "cpt \<le> 0x7ff \<longleftrightarrow> unat cpt \<le> 0x7ff"
    "cpt \<le> 0xffff \<longleftrightarrow> unat cpt \<le> 0xffff" "cpt \<le> 0x10ffff \<longleftrightarrow> unat cpt \<le> 0x10ffff"
    "0x80 \<le> cpt \<longleftrightarrow> 0x80 \<le> unat cpt" "0x800 \<le> cpt \<longleftrightarrow> 0x800 \<le> unat cpt"
    "0x10000 \<le> cpt \<longleftrightarrow> 0x10000 \<le> unat cpt"
    by (simp_all add: word_le_nat_alt)
  consider "unat cpt \<le> 0x7f" | "0x7f < unat cpt" "unat cpt \<le> 0x7ff"
    | "0x7ff < unat cpt" "unat cpt \<le> 0xffff" | "0xffff < unat cpt" "unat cpt \<le> 0x10ffff"
    using assms unfolding c by linarith
  then show ?thesis
  proof cases
    case 1 then show ?thesis by (intro one) (simp_all add: common_unicode_cpt_to_utf8_def c)
  next
    case 2 then show ?thesis by (intro two) (simp_all add: common_unicode_cpt_to_utf8_def c)
  next
    case 3 then show ?thesis by (intro three) (simp_all add: common_unicode_cpt_to_utf8_def c)
  next
    case 4 then show ?thesis by (intro four) (simp_all add: common_unicode_cpt_to_utf8_def c)
  qed
qed

lemma drop_six: "drop_bit 12 (x :: u32) = drop_bit 6 (drop_bit 6 x)"
  "drop_bit 18 x = drop_bit 6 (drop_bit 12 x)"
  by simp_all

lemma decode_seqs_lead:
  assumes "b \<noteq> 0" and "utf8_stream_lookup ! highbits b = n1 + 1" and "0 \<le> n1"
  shows "decode_seqs (b # bs) v n cps =
    (case read_tail bs (ucast b AND mask (nat (7 - n1))) n1 of
      (s2, v2, n2) \<Rightarrow> decode_seqs s2 v2 n2 (if n2 = 0 then cps @ [v2] else cps))"
  using assms by (simp add: decode_seqs_Cons)

lemma stream_lookup:
  "k < 8 \<Longrightarrow> utf8_stream_lookup ! k = 1" "k \<in> {12, 13} \<Longrightarrow> utf8_stream_lookup ! k = 2"
  "utf8_stream_lookup ! 14 = 3" "utf8_stream_lookup ! 15 = 4"
  by (auto simp: utf8_stream_lookup_def less_Suc_eq numeral_eq_Suc)

text \<open>Decoding an encoded code point consumes exactly its bytes.\<close>

lemma decode_seqs_encoded:
  assumes "cpt \<le> 0x10ffff" and "cpt \<noteq> 0" and "common_unicode_cpt_to_utf8 cpt = Some bs"
  shows "decode_seqs (bs @ t) v n cps = decode_seqs t cpt 0 (cps @ [cpt])" "0 \<notin> set bs" "bs \<noteq> []"
proof -
  have "decode_seqs (bs @ t) v n cps = decode_seqs t cpt 0 (cps @ [cpt]) \<and> 0 \<notin> set bs \<and> bs \<noteq> []"
    using assms(1)
  proof (cases rule: encode_cases)
    case one
    define b where "b = (ucast cpt :: byte)"
    have b: "b \<noteq> 0" "utf8_stream_lookup ! highbits b = 0 + 1" "ucast b AND mask 7 = cpt" "bs = [b]"
      using lead1 [OF one(1)] assms(2,3) one(2) by (simp_all add: b_def stream_lookup)
    then show ?thesis by (simp add: decode_seqs_lead [OF b(1,2)])
  next
    case two
    define b0 b1 where "b0 = (ucast (0xc0 OR (drop_bit 6 cpt AND 0x1f)) :: byte)"
      and "b1 = (ucast (0x80 OR (cpt AND 0x3f)) :: byte)"
    note defs = this
    have d: "drop_bit 6 cpt AND 0x1f = drop_bit 6 cpt"
      unfolding mask_numerals by (rule drop_mask) (use two in simp)
    have b0: "b0 \<noteq> 0" "utf8_stream_lookup ! highbits b0 = 1 + 1" "ucast b0 AND mask 6 = drop_bit 6 cpt"
      using lead2(5-7) [of "drop_bit 6 cpt", unfolded d] unfolding defs d
      by (simp_all add: stream_lookup(2))
    have b1: "b1 \<noteq> 0" "ucast (b1 AND 0x3f) = cpt AND mask 6"
      unfolding defs(2) cont_byte mask_numerals(4) [symmetric] by (rule cont_byte refl)+
    have bs: "bs = [b0, b1]" using two assms(3) by (simp add: defs)
    show ?thesis
      using b0 b1 by (simp add: decode_seqs_lead [OF b0(1,2)] bs add_six)
  next
    case three
    define b0 b1 b2 where "b0 = (ucast (0xe0 OR (drop_bit 12 cpt AND 0x0f)) :: byte)"
      and "b1 = (ucast (0x80 OR (drop_bit 6 cpt AND 0x3f)) :: byte)"
      and "b2 = (ucast (0x80 OR (cpt AND 0x3f)) :: byte)"
    note defs = this
    have d: "drop_bit 12 cpt AND 0x0f = drop_bit 12 cpt"
      unfolding mask_numerals by (rule drop_mask) (use three in simp)
    have b0: "b0 \<noteq> 0" "utf8_stream_lookup ! highbits b0 = 2 + 1" "ucast b0 AND mask 5 = drop_bit 12 cpt"
      using lead3(6-8) [of "drop_bit 12 cpt", unfolded d] unfolding defs d
      by (simp_all add: stream_lookup)
    have b1: "b1 \<noteq> 0" "ucast (b1 AND 0x3f) = drop_bit 6 cpt AND mask 6"
      "b2 \<noteq> 0" "ucast (b2 AND 0x3f) = cpt AND mask 6"
      unfolding defs(2,3) cont_byte mask_numerals(4) [symmetric] by (rule cont_byte refl)+
    have bs: "bs = [b0, b1, b2]" using three assms(3) by (simp add: defs)
    show ?thesis
      using b0 b1 add_six [of "drop_bit 6 cpt", folded drop_six]
      by (simp add: decode_seqs_lead [OF b0(1,2)] bs add_six)
  next
    case four
    define b0 b1 b2 b3 where "b0 = (ucast (0xf0 OR (drop_bit 18 cpt AND 0x07)) :: byte)"
      and "b1 = (ucast (0x80 OR (drop_bit 12 cpt AND 0x3f)) :: byte)"
      and "b2 = (ucast (0x80 OR (drop_bit 6 cpt AND 0x3f)) :: byte)"
      and "b3 = (ucast (0x80 OR (cpt AND 0x3f)) :: byte)"
    note defs = this
    have d: "drop_bit 18 cpt AND 0x07 = drop_bit 18 cpt"
      unfolding mask_numerals by (rule drop_mask) (use four in simp)
    have b0: "b0 \<noteq> 0" "utf8_stream_lookup ! highbits b0 = 3 + 1" "ucast b0 AND mask 4 = drop_bit 18 cpt"
      using lead4(7-9) [of "drop_bit 18 cpt", unfolded d] unfolding defs d
      by (simp_all add: stream_lookup)
    have b1: "b1 \<noteq> 0" "ucast (b1 AND 0x3f) = drop_bit 12 cpt AND mask 6"
      "b2 \<noteq> 0" "ucast (b2 AND 0x3f) = drop_bit 6 cpt AND mask 6"
      "b3 \<noteq> 0" "ucast (b3 AND 0x3f) = cpt AND mask 6"
      unfolding defs(2-4) cont_byte mask_numerals(4) [symmetric] by (rule cont_byte refl)+
    have bs: "bs = [b0, b1, b2, b3]" using four assms(3) by (simp add: defs)
    show ?thesis
      using b0 b1 add_six [of "drop_bit 6 cpt", folded drop_six]
        add_six [of "drop_bit 12 cpt", folded drop_six]
      by (simp add: decode_seqs_lead [OF b0(1,2)] bs add_six)
  qed
  then show "decode_seqs (bs @ t) v n cps = decode_seqs t cpt 0 (cps @ [cpt])" "0 \<notin> set bs" "bs \<noteq> []"
    by auto
qed

text \<open>The same case distinction with the bytes named, for the readers that test marker bits.\<close>

lemma encoded_bytes:
  assumes "common_unicode_cpt_to_utf8 cpt = Some bs"
  obtains (one) b0 where "bs = [b0]" "b0 AND 0x80 = 0" "ucast b0 = cpt" "highbits b0 < 8"
  | (two) b0 b1 where "bs = [b0, b1]"
      "b0 AND 0x80 \<noteq> 0" "b0 AND 0x40 \<noteq> 0" "b0 AND 0x20 = 0" "highbits b0 \<in> {12, 13}" "is_cont b1"
      "push_bit 6 (ucast (b0 AND 0x1f)) OR ucast (b1 AND 0x3f) = cpt"
  | (three) b0 b1 b2 where "bs = [b0, b1, b2]"
      "b0 AND 0x80 \<noteq> 0" "b0 AND 0x40 \<noteq> 0" "b0 AND 0x20 \<noteq> 0" "b0 AND 0x10 = 0"
      "highbits b0 = 14" "is_cont b1" "is_cont b2"
      "push_bit 12 (ucast (b0 AND 0x0f)) OR push_bit 6 (ucast (b1 AND 0x3f)) OR ucast (b2 AND 0x3f) = cpt"
  | (four) b0 b1 b2 b3 where "bs = [b0, b1, b2, b3]"
      "b0 AND 0x80 \<noteq> 0" "b0 AND 0x40 \<noteq> 0" "b0 AND 0x20 \<noteq> 0" "b0 AND 0x10 \<noteq> 0" "b0 AND 0x08 = 0"
      "highbits b0 = 15" "is_cont b1" "is_cont b2" "is_cont b3"
      "push_bit 18 (ucast (b0 AND 0x07)) OR push_bit 12 (ucast (b1 AND 0x3f)) OR
         push_bit 6 (ucast (b2 AND 0x3f)) OR ucast (b3 AND 0x3f) = cpt"
proof -
  have "cpt \<le> 0x10ffff" using assms by (auto simp: common_unicode_cpt_to_utf8_def split: if_splits
      intro: order_trans)
  then show ?thesis
  proof (cases rule: encode_cases)
    case one
    then show ?thesis using lead1 [OF one(1)] assms that(1) [of "ucast cpt"] by simp
  next
    case two
    have d: "drop_bit 6 cpt AND 0x1f = drop_bit 6 cpt"
      unfolding mask_numerals by (rule drop_mask) (use two in simp)
    show ?thesis
      by (rule that(2) [OF _ lead2(1-3,7) [of "drop_bit 6 cpt"] cont_byte(1) [of cpt]],
          use two assms in simp)
        (simp only: lead2(4) cont_byte(2), simp only: d mask_numerals(4) or_six)
  next
    case three
    have d: "drop_bit 12 cpt AND 0x0f = drop_bit 12 cpt"
      unfolding mask_numerals by (rule drop_mask) (use three in simp)
    show ?thesis
      by (rule that(3) [OF _ lead3(1-4,8) [of "drop_bit 12 cpt"] cont_byte(1) [of "drop_bit 6 cpt"]
            cont_byte(1) [of cpt]], use three assms in simp)
        (simp only: lead3(5) cont_byte(2), simp only: d mask_numerals(4) or_six)
  next
    case four
    have d: "drop_bit 18 cpt AND 0x07 = drop_bit 18 cpt"
      unfolding mask_numerals by (rule drop_mask) (use four in simp)
    show ?thesis
      by (rule that(4) [OF _ lead4(1-5,9) [of "drop_bit 18 cpt"] cont_byte(1) [of "drop_bit 12 cpt"]
            cont_byte(1) [of "drop_bit 6 cpt"] cont_byte(1) [of cpt]], use four assms in simp)
        (simp only: lead4(6) cont_byte(2), simp only: d mask_numerals(4) or_six)
  qed
qed

lemma highbits_div: "highbits b = unat b div 16"
  by (simp add: highbits_def drop_bit_eq_div unat_div_distrib)

lemma bit_3_int: "bit (3 :: int) n \<longleftrightarrow> n < 2"
proof -
  have "(3 :: int) = mask 2" by (simp add: mask_eq_exp_minus_1)
  then show ?thesis by (simp only: bit_mask_iff possible_bit_int) auto
qed

lemma lead_not_cont:
  assumes "highbits b < 8 \<or> 12 \<le> highbits b"
  shows "\<not> is_cont b"
proof
  assume "is_cont b"
  have "drop_bit 6 b = drop_bit 6 (b AND 0xc0)"
    by (rule bit_word_eqI) (auto simp: utf8_bits bit_3_int dest: bit_imp_le_length)
  also have "\<dots> = drop_bit 6 0x80" using \<open>is_cont b\<close> by (simp only: is_cont_def)
  also have "\<dots> = 2" by simp
  finally have "unat (drop_bit 6 b) = 2" by simp
  then have "unat b div 64 = 2" by (simp add: drop_bit_eq_div unat_div_distrib)
  then have "8 \<le> unat b div 16 \<and> unat b div 16 < 12" by linarith
  with assms show False by (simp add: highbits_div)
qed

definition expected_length :: "byte \<Rightarrow> nat" where
  "expected_length c = (if c \<ge> 0xF0 then 4 else if c \<ge> 0xE0 then 3 else if c \<ge> 0xC0 then 2 else 1)"

lemma expected_length_highbits:
  "highbits b < 8 \<Longrightarrow> expected_length b = 1" "highbits b \<in> {12, 13} \<Longrightarrow> expected_length b = 2"
  "highbits b = 14 \<Longrightarrow> expected_length b = 3" "highbits b = 15 \<Longrightarrow> expected_length b = 4"
  by (auto simp: expected_length_def highbits_div word_le_nat_alt)

lemma complete_scan_skip:
  assumes "\<forall>c \<in> set cs. is_cont c" and "\<not> is_cont b" and "i \<le> Suc (length cs)" and "0 < i"
    and "Suc (length cs) < n"
  shows "complete_scan (pre @ b # cs) [i..<n] = (expected_length b \<le> Suc (length cs))"
  using assms(3,4)
proof (induction i rule: inc_induct)
  case base
  have "[Suc (length cs)..<n] = Suc (length cs) # [Suc (Suc (length cs))..<n]"
    using assms(5) by (rule upt_conv_Cons)
  then show ?case using assms(2) by (simp add: Let_def is_cont_def expected_length_def)
next
  case (step i)
  have "[i..<n] = i # [Suc i..<n]" using step.hyps assms(5) by (simp add: upt_conv_Cons)
  moreover have "length (pre @ b # cs) - i = length pre + Suc (length cs - i)"
    using step.hyps by simp
  then have "(pre @ b # cs) ! (length (pre @ b # cs) - i) = cs ! (length cs - i)"
    by (simp only: nth_append_length_plus nth_Cons_Suc)
  moreover have "is_cont (cs ! (length cs - i))"
    using assms(1) step by simp
  ultimately show ?case using step.IH by (simp add: Let_def is_cont_def)
qed

lemma is_complete_lead:
  assumes "\<forall>c \<in> set cs. is_cont c" and "\<not> is_cont b" and "length cs < 4"
  shows "common_utf8_is_complete (pre @ b # cs) = (expected_length b \<le> Suc (length cs))"
  using complete_scan_skip [OF assms(1,2), of 1 "Suc (min 4 (length (pre @ b # cs)))" pre] assms(3)
  by (simp add: common_utf8_is_complete_def del: upt_Suc)

text \<open>What the encoder writes, the parsers read back: at any offset of any surrounding text
  both decoders return the code point and exactly the length of its encoding, the text is complete
  after it, and every proper prefix of the encoding is reported as incomplete (with its length) and
  makes the text incomplete.\<close>

theorem utf8_encode_parse:
  assumes "common_unicode_cpt_to_utf8 cpt = Some bs"
  shows "common_parse_utf8_codepoint (pre @ bs @ post) (length pre) = result_of Success cpt (length bs)
    \<and> unicode_cpt_from_utf8 (pre @ bs @ post) (length pre) = Some (cpt, length pre + length bs)
    \<and> common_utf8_is_complete (pre @ bs)
    \<and> (\<forall>k < length bs. common_parse_utf8_codepoint (pre @ take k bs) (length pre) = result_of Incomplete 0 k)
    \<and> (\<forall>k < length bs. 0 < k \<longrightarrow> \<not> common_utf8_is_complete (pre @ take k bs))"
proof -
  note P = common_parse_utf8_codepoint_def unicode_cpt_from_utf8_def nth_append upt_conv_Cons numeral_eq_Suc
  have parse: "common_parse_utf8_codepoint (pre @ bs @ post) (length pre) = result_of Success cpt (length bs)
    \<and> unicode_cpt_from_utf8 (pre @ bs @ post) (length pre) = Some (cpt, length pre + length bs)"
    using assms
  proof (cases rule: encoded_bytes)
    case one then show ?thesis by (simp add: P)
  next
    case two then show ?thesis by (simp add: P)
  next
    case three then show ?thesis by (simp add: P)
  next
    case four then show ?thesis by (simp add: P)
  qed
  have prefix: "common_parse_utf8_codepoint (pre @ take k bs) (length pre) = result_of Incomplete 0 k"
    if "k < length bs" for k
    using assms
  proof (cases rule: encoded_bytes)
    case one with that show ?thesis by (simp add: P)
  next
    case two with that show ?thesis by (auto simp: P less_Suc_eq)
  next
    case three with that show ?thesis by (auto simp: P less_Suc_eq)
  next
    case four with that show ?thesis by (auto simp: P less_Suc_eq)
  qed
  obtain b cs where bs: "bs = b # cs" "\<forall>c \<in> set cs. is_cont c" "\<not> is_cont b" "length cs < 4"
    "expected_length b = Suc (length cs)"
    using assms
    by (cases rule: encoded_bytes) (auto simp: lead_not_cont expected_length_highbits)
  have full: "common_utf8_is_complete (pre @ bs)"
    using is_complete_lead [OF bs(2-4), of pre] bs(1,5) by simp
  have cut: "\<not> common_utf8_is_complete (pre @ take k bs)" if "0 < k" "k < length bs" for k
  proof -
    from that bs(1) obtain j where j: "k = Suc j" "j < length cs" by (cases k) auto
    have "\<forall>c \<in> set (take j cs). is_cont c" using bs(2) by (auto dest: in_set_takeD)
    then show ?thesis
      using is_complete_lead [OF _ bs(3), of "take j cs" pre] bs(1,4,5) j by simp
  qed
  show ?thesis using parse prefix full cut by blast
qed

lemma cpts_encoded:
  assumes "for_each (\<lambda>cp result. do { bs \<leftarrow> common_unicode_cpt_to_utf8 cp; Some (result @ bs) }) cps acc = Some bs"
    and "0 \<notin> set cps"
  shows "\<exists>ts. bs = acc @ ts \<and>
    (\<forall>v n xs. cps \<noteq> [] \<longrightarrow> decode_seqs ts v n xs = (xs @ cps @ [0], \<lparr>u_value = last cps, n_remain = 0\<rparr>))
    \<and> (cps = [] \<longrightarrow> ts = [])"
  using assms
proof (induction cps arbitrary: acc)
  case (Cons c cps)
  then obtain b where b: "common_unicode_cpt_to_utf8 c = Some b"
    "for_each (\<lambda>cp result. do { bs \<leftarrow> common_unicode_cpt_to_utf8 cp; Some (result @ bs) }) cps (acc @ b) = Some bs"
    by (auto split: option.splits simp: bind_eq_Some_conv)
  from Cons.IH [OF b(2)] Cons.prems(2) obtain ts where ts: "bs = acc @ b @ ts"
    "cps \<noteq> [] \<Longrightarrow> decode_seqs ts v n xs = (xs @ cps @ [0], \<lparr>u_value = last cps, n_remain = 0\<rparr>)"
    "cps = [] \<Longrightarrow> ts = []" for v n xs
    by auto
  have c: "c \<le> 0x10ffff" using b(1) by (auto simp: common_unicode_cpt_to_utf8_def split: if_splits
      intro: order_trans)
  have "decode_seqs (b @ ts) v n xs =
      (xs @ (c # cps) @ [0], \<lparr>u_value = last (c # cps), n_remain = 0\<rparr>)" for v n xs
    using decode_seqs_encoded(1) [OF c _ b(1), of ts v n xs] ts(2) ts(3) Cons.prems(2)
    by (cases "cps = []") auto
  with ts(1) show ?case by (intro exI [of _ "b @ ts"]) simp
qed simp

text \<open>C37. Decoding an encoded text gives back its code points, terminated by a zero, and leaves no
  sequence open; a text with a code point beyond \<open>0x10FFFF\<close> is not encoded at all.\<close>

theorem utf8_text_roundtrip:
  assumes "common_unicode_cpts_to_utf8 cps = Some bs" and "0 \<notin> set cps" and "n_remain p = 0"
  shows "decode_utf8 bs p =
    (cps @ [0], if cps = [] then p else \<lparr>u_value = last cps, n_remain = 0\<rparr>)"
proof -
  from cpts_encoded [OF assms(1) [unfolded common_unicode_cpts_to_utf8_def] assms(2)] obtain ts where
    "bs = ts" "cps = [] \<Longrightarrow> ts = []"
    "cps \<noteq> [] \<Longrightarrow> decode_seqs ts (u_value p) 0 [] = (cps @ [0], \<lparr>u_value = last cps, n_remain = 0\<rparr>)"
    by auto
  then show ?thesis using assms(3) by (cases "cps = []") (simp_all add: decode_utf8_def)
qed

lemma utf8_text_roundtrip_witness:
  "\<exists>bs. decode_utf8 bs \<lparr>u_value = 0, n_remain = 0\<rparr> =
    ([0x41, 0xE9, 0x20AC, 0x1F600, 0], \<lparr>u_value = 0x1F600, n_remain = 0\<rparr>) \<and> length bs = 10"
proof -
  have e: "common_unicode_cpts_to_utf8 [0x41, 0xE9, 0x20AC, 0x1F600] =
    Some [0x41, 0xC3, 0xA9, 0xE2, 0x82, 0xAC, 0xF0, 0x9F, 0x98, 0x80]"
    by code_simp
  show ?thesis
    using utf8_text_roundtrip [OF e, of "\<lparr>u_value = 0, n_remain = 0\<rparr>"] by auto
qed

lemma utf8_encode_parse_witness:
  "common_parse_utf8_codepoint ([0x61] @ [0xE2, 0x82, 0xAC] @ [0x62]) (length [0x61 :: byte])
     = result_of Success 0x20AC (length [0xE2, 0x82, 0xAC :: byte])
   \<and> \<not> common_utf8_is_complete ([0x61] @ take 2 [0xE2, 0x82, 0xAC])"
proof -
  have e: "common_unicode_cpt_to_utf8 0x20AC = Some [0xE2, 0x82, 0xAC]" by code_simp
  note w = utf8_encode_parse [OF e, of "[0x61]" "[0x62]"]
  show ?thesis
    using w [THEN conjunct1] w [THEN conjunct2, THEN conjunct2, THEN conjunct2, THEN conjunct2,
        THEN spec, of 2] by simp
qed

lemma decode_utf8_stream_witness:
  "decode_utf8 ([0x61, 0xE2] @ [0x82, 0xAC]) \<lparr>u_value = 0, n_remain = 0\<rparr>
     = (butlast [0x61, 0] @ [0x20AC, 0], \<lparr>u_value = 0x20AC, n_remain = 0\<rparr>)"
proof -
  have 1: "decode_utf8 [0x61, 0xE2] \<lparr>u_value = 0, n_remain = 0\<rparr> =
    ([0x61, 0], \<lparr>u_value = 2, n_remain = 2\<rparr>)" by code_simp
  have 2: "decode_utf8 [0x82, 0xAC] \<lparr>u_value = 2, n_remain = 2\<rparr> =
    ([0x20AC, 0], \<lparr>u_value = 0x20AC, n_remain = 0\<rparr>)" by code_simp
  show ?thesis by (rule decode_utf8_stream [OF _ 1 _ 2]) simp_all
qed

text \<open>The streaming-aware parser of the chat code and the throwing parser of the vocabulary code
  agree on every input: the second one returns a code point exactly where the first one reports
  success, the same code point, and moves the offset by the bytes the first one consumed.\<close>

lemma utf8_parsers_agree:
  "unicode_cpt_from_utf8 s offset =
     (let r = common_parse_utf8_codepoint s offset in
      if status r = Success then Some (codepoint r, offset + bytes_consumed r) else None)"
  by (simp add: unicode_cpt_from_utf8_def common_parse_utf8_codepoint_def result_of_def Let_def
      upt_conv_Cons numeral_eq_Suc)

text \<open>The header of \<open>common/unicode.h\<close> promises a length of zero for an invalid first byte; the table
  has no zero entry.\<close>

lemma common_utf8_sequence_length_pos: "1 \<le> common_utf8_sequence_length b"
proof -
  have "\<forall>k < 16. 1 \<le> utf8_len_lookup ! k"
    by (simp add: utf8_len_lookup_def All_less_Suc numeral_eq_Suc)
  then show ?thesis using highbits_less [of b] by (simp add: common_utf8_sequence_length_def)
qed

lemma common_utf8_sequence_length_invalid: "common_utf8_sequence_length 0x80 = 1"
  by code_simp

end
