(* ===== verification/Gr_Engine.thy ===== *)
theory Gr_Engine
  imports Gr_Utf8
begin

section \<open>The grammar engine\<close>

text \<open>
  The pushdown engine of \<open>src/llama-grammar.cpp\<close> that constrains sampling: rules as arrays of
  elements, stacks of pointers into them, and the operations on stacks. A pointer is a pair (rule,
  index); a stack is a list whose head is the back of the C++ vector. An operation returns
  \<open>None\<close> where the code does not return, \<open>Some Abort\<close> where a \<open>GGML_ASSERT\<close> or \<open>GGML_ABORT\<close>
  fires.
\<close>

datatype 'a outcome = Done 'a | Abort

type_synonym 'a run = "'a outcome option"

definition bind_run :: "'a run \<Rightarrow> ('a \<Rightarrow> 'b run) \<Rightarrow> 'b run" where
  "bind_run m f = (case m of None \<Rightarrow> None | Some Abort \<Rightarrow> Some Abort | Some (Done x) \<Rightarrow> f x)"

lemma bind_run_simps [simp]:
  "bind_run None f = None" "bind_run (Some Abort) f = Some Abort" "bind_run (Some (Done x)) f = f x"
  by (simp_all add: bind_run_def)

lemma bind_run_Done:
  "bind_run m f = Some (Done y) \<longleftrightarrow> (\<exists>x. m = Some (Done x) \<and> f x = Some (Done y))"
  by (cases m rule: option.exhaust [case_product outcome.exhaust])
    (auto simp: bind_run_def split: option.splits outcome.splits)

fun for_run :: "('a \<Rightarrow> 's \<Rightarrow> 's run) \<Rightarrow> 'a list \<Rightarrow> 's \<Rightarrow> 's run" where
  "for_run f [] s = Some (Done s)"
| "for_run f (x # xs) s = bind_run (f x s) (for_run f xs)"

lemma for_run_cong [fundef_cong]:
  "xs = ys \<Longrightarrow> s = t \<Longrightarrow> (\<And>x s. x \<in> set ys \<Longrightarrow> f x s = g x s) \<Longrightarrow> for_run f xs s = for_run g ys t"
  by (induction ys arbitrary: s t xs) (auto simp: bind_run_def split: option.splits outcome.splits)

lemma for_run_total:
  assumes "P s" and "\<And>x s. x \<in> set xs \<Longrightarrow> P s \<Longrightarrow> \<exists>s'. f x s = Some (Done s') \<and> P s'"
  shows "\<exists>s'. for_run f xs s = Some (Done s') \<and> P s'"
  using assms
proof (induction xs arbitrary: s)
  case (Cons x xs)
  then obtain t where "f x s = Some (Done t)" "P t" by (meson list.set_intros(1))
  with Cons show ?case by simp
qed simp

subsection \<open>Elements, rules, positions\<close>

datatype gretype = GRE_END | GRE_ALT | GRE_RULE_REF | GRE_CHAR | GRE_CHAR_NOT
  | GRE_CHAR_RNG_UPPER | GRE_CHAR_ALT | GRE_CHAR_ANY | GRE_TOKEN | GRE_TOKEN_NOT

record grammar_element =
  el_type :: gretype
  el_value :: u32

type_synonym grammar_rule = "grammar_element list"
type_synonym grammar_rules = "grammar_rule list"
type_synonym gpos = "nat \<times> nat"
type_synonym gstack = "gpos list"
type_synonym token = u32

definition Elem :: "gretype \<Rightarrow> u32 \<Rightarrow> grammar_element" where
  "Elem t v = \<lparr>el_type = t, el_value = v\<rparr>"

lemma Elem_simps [simp]: "el_type (Elem t v) = t" "el_value (Elem t v) = v"
  by (simp_all add: Elem_def)

definition elem_at :: "grammar_rules \<Rightarrow> gpos \<Rightarrow> grammar_element" where
  "elem_at rules p = rules ! fst p ! snd p"

definition from_pos :: "grammar_rules \<Rightarrow> gpos \<Rightarrow> grammar_rule" where
  "from_pos rules p = drop (snd p) (rules ! fst p)"

definition shift_pos :: "gpos \<Rightarrow> nat \<Rightarrow> gpos" where
  "shift_pos p n = (fst p, snd p + n)"

definition is_end_type :: "gretype \<Rightarrow> bool" where
  "is_end_type t \<longleftrightarrow> t = GRE_END \<or> t = GRE_ALT"

definition is_end_of_sequence :: "grammar_element \<Rightarrow> bool" where
  "is_end_of_sequence e \<longleftrightarrow> is_end_type (el_type e)"

text \<open>The type \<open>pos[k].type\<close> at distance \<open>k\<close>; every rule ends with an END element, which is where a
  read past the end would stop.\<close>

definition type_at :: "grammar_rule \<Rightarrow> nat \<Rightarrow> gretype" where
  "type_at es k = (if k < length es then el_type (es ! k) else GRE_END)"

lemma type_at_Cons [simp]: "type_at (e # es) 0 = el_type e" "type_at (e # es) (Suc k) = type_at es k"
  "type_at [] k = GRE_END"
  by (simp_all add: type_at_def)

subsection \<open>Matching one character, a partial one, a token\<close>

text \<open>The \<open>do \<dots> while\<close> loop of \<open>llama_grammar_match_char\<close>, from an element on: whether the character
  was found and how many elements were passed.\<close>

function match_chars :: "grammar_rule \<Rightarrow> u32 \<Rightarrow> bool \<Rightarrow> bool \<times> nat" where
  "match_chars es chr found =
     (let (found', k) =
        (if type_at es 1 = GRE_CHAR_RNG_UPPER
           then (found \<or> el_value (es ! 0) \<le> chr \<and> chr \<le> el_value (es ! 1), 2)
         else if type_at es 0 = GRE_CHAR_ANY then (True, 1)
         else (found \<or> el_value (es ! 0) = chr, 1))
      in if type_at es k = GRE_CHAR_ALT
         then (let (f, n) = match_chars (drop k es) chr found' in (f, k + n))
         else (found', k))"
  by pat_completeness auto
termination
  by (relation "measure (\<lambda>(es, _). length es)") (auto simp: type_at_def split: if_splits)

declare match_chars.simps [simp del]

definition is_positive_char :: "gretype \<Rightarrow> bool" where
  "is_positive_char t \<longleftrightarrow> t = GRE_CHAR \<or> t = GRE_CHAR_ANY"

definition match_char :: "grammar_rule \<Rightarrow> u32 \<Rightarrow> (bool \<times> nat) outcome" where
  "match_char es chr =
     (if \<not> (is_positive_char (type_at es 0) \<or> type_at es 0 = GRE_CHAR_NOT) then Abort
      else let (found, n) = match_chars es chr False
        in Done (found = is_positive_char (type_at es 0), n))"

function match_partial_loop :: "grammar_rule \<Rightarrow> u32 \<Rightarrow> u32 \<Rightarrow> bool \<Rightarrow> bool" where
  "match_partial_loop es low high positive =
     (if type_at es 1 = GRE_CHAR_RNG_UPPER then
        (if el_value (es ! 0) \<le> high \<and> low \<le> el_value (es ! 1) then positive
         else if type_at es 2 = GRE_CHAR_ALT then match_partial_loop (drop 2 es) low high positive
         else \<not> positive)
      else if type_at es 0 = GRE_CHAR_ANY then True
      else if low \<le> el_value (es ! 0) \<and> el_value (es ! 0) \<le> high then positive
      else if type_at es 1 = GRE_CHAR_ALT then match_partial_loop (drop 1 es) low high positive
      else \<not> positive)"
  by pat_completeness auto
termination
  by (relation "measure (\<lambda>(es, _). length es)") (auto simp: type_at_def split: if_splits)

declare match_partial_loop.simps [simp del]

definition match_partial_char :: "grammar_rule \<Rightarrow> partial_utf8 \<Rightarrow> bool outcome" where
  "match_partial_char es partial =
     (let positive = is_positive_char (type_at es 0);
          v = u_value partial; n = n_remain partial
      in if \<not> (positive \<or> type_at es 0 = GRE_CHAR_NOT) then Abort
         else if n < 0 \<or> (n = 1 \<and> v < 2) then Done False
         else let low = push_bit (nat (n * 6)) v;
                  high = low OR mask (nat (n * 6));
                  low' = (if low = 0 then (if n = 2 then 2 ^ 11 else if n = 3 then 2 ^ 16 else low)
                          else low)
              in Done (match_partial_loop es low' high positive))"

definition match_token :: "grammar_element \<Rightarrow> token \<Rightarrow> bool outcome" where
  "match_token e tok =
     (if el_type e = GRE_TOKEN then Done (el_value e = tok)
      else if el_type e = GRE_TOKEN_NOT then Done (el_value e \<noteq> tok)
      else Abort)"

definition is_token_type :: "gretype \<Rightarrow> bool" where
  "is_token_type t \<longleftrightarrow> t = GRE_TOKEN \<or> t = GRE_TOKEN_NOT"

definition is_terminal_type :: "gretype \<Rightarrow> bool" where
  "is_terminal_type t \<longleftrightarrow>
     t \<in> {GRE_CHAR, GRE_CHAR_NOT, GRE_CHAR_ANY, GRE_TOKEN, GRE_TOKEN_NOT}"

subsection \<open>Advancing a stack to its terminals\<close>

definition scan_to_end :: "grammar_rule \<Rightarrow> nat \<Rightarrow> nat" where
  "scan_to_end es i = i + length (takeWhile (\<lambda>e. \<not> is_end_of_sequence e) (drop i es))"

text \<open>The first positions of the alternates of a rule, from index \<open>i\<close> on.\<close>

function alt_starts :: "grammar_rule \<Rightarrow> nat \<Rightarrow> nat list" where
  "alt_starts es i =
     i # (let j = scan_to_end es i in
          if type_at es j = GRE_ALT then alt_starts es (Suc j) else [])"
  by pat_completeness auto
termination
  by (relation "measure (\<lambda>(es, i). length es - i)")
    (auto simp: type_at_def scan_to_end_def split: if_splits)

declare alt_starts.simps [simp del]

definition push_unless_end :: "grammar_rules \<Rightarrow> gpos \<Rightarrow> gstack \<Rightarrow> gstack" where
  "push_unless_end rules p stack =
     (if is_end_of_sequence (elem_at rules p) then stack else p # stack)"

definition next_stacks :: "grammar_rules \<Rightarrow> gpos \<Rightarrow> gstack \<Rightarrow> gstack list" where
  "next_stacks rules p rest =
     (let rule_id = unat (el_value (elem_at rules p)) in
      map (\<lambda>sub. push_unless_end rules (rule_id, sub) (push_unless_end rules (shift_pos p 1) rest))
        (alt_starts (rules ! rule_id) 0))"

definition add_new :: "gstack \<Rightarrow> gstack list \<Rightarrow> gstack list" where
  "add_new s news = (if s \<in> set news then news else news @ [s])"

text \<open>The work list: \<open>todo\<close> is popped at its back (the head of the list here), each stack is
  expanded once. A left-recursive expansion grows the stack at every step and never returns, so the
  loop is a partial function.\<close>

partial_function (option) advance_loop ::
    "grammar_rules \<Rightarrow> gstack list \<Rightarrow> gstack list \<Rightarrow> gstack list \<Rightarrow> gstack list run" where
  "advance_loop rules todo seen news =
     (case todo of
        [] \<Rightarrow> Some (Done news)
      | s # todo' \<Rightarrow>
          if s \<in> set seen then advance_loop rules todo' seen news
          else (case s of
              [] \<Rightarrow> advance_loop rules todo' (s # seen) (add_new s news)
            | p # rest \<Rightarrow>
                (let t = el_type (elem_at rules p) in
                 if t = GRE_RULE_REF then
                   advance_loop rules (rev (next_stacks rules p rest) @ todo') (s # seen) news
                 else if is_terminal_type t then
                   advance_loop rules todo' (s # seen) (add_new s news)
                 else Some Abort)))"

definition advance_stack :: "grammar_rules \<Rightarrow> gstack \<Rightarrow> gstack list \<Rightarrow> gstack list run" where
  "advance_stack rules stack new_stacks = advance_loop rules [stack] [] new_stacks"

declare advance_loop.simps [code]

lemma advance_loop_simps:
  "advance_loop rules [] seen news = Some (Done news)"
  "s \<in> set seen \<Longrightarrow> advance_loop rules (s # todo) seen news = advance_loop rules todo seen news"
  "[] \<notin> set seen \<Longrightarrow> advance_loop rules ([] # todo) seen news =
     advance_loop rules todo ([] # seen) (add_new [] news)"
  "p # rest \<notin> set seen \<Longrightarrow> el_type (elem_at rules p) = GRE_RULE_REF \<Longrightarrow>
     advance_loop rules ((p # rest) # todo) seen news =
     advance_loop rules (rev (next_stacks rules p rest) @ todo) ((p # rest) # seen) news"
  "p # rest \<notin> set seen \<Longrightarrow> is_terminal_type (el_type (elem_at rules p)) \<Longrightarrow>
     advance_loop rules ((p # rest) # todo) seen news =
     advance_loop rules todo ((p # rest) # seen) (add_new (p # rest) news)"
  by (subst advance_loop.simps, auto simp: is_terminal_type_def Let_def)+

subsection \<open>Accepting a character\<close>

definition accept_chr :: "grammar_rules \<Rightarrow> gstack \<Rightarrow> u32 \<Rightarrow> gstack list \<Rightarrow> gstack list run" where
  "accept_chr rules stack chr new_stacks =
     (case stack of
        [] \<Rightarrow> Some (Done new_stacks)
      | p # rest \<Rightarrow>
          if is_token_type (el_type (elem_at rules p)) then Some (Done new_stacks)
          else (case match_char (from_pos rules p) chr of
              Abort \<Rightarrow> Some Abort
            | Done (found, n) \<Rightarrow>
                if found then advance_stack rules (push_unless_end rules (shift_pos p n) rest) new_stacks
                else Some (Done new_stacks)))"

definition accept_all :: "grammar_rules \<Rightarrow> gstack list \<Rightarrow> u32 \<Rightarrow> gstack list run" where
  "accept_all rules stacks chr = for_run (\<lambda>stack. accept_chr rules stack chr) stacks []"

text \<open>The characters of a string one after the other; \<open>llama_grammar_accept\<close> in a loop.\<close>

definition accept_chars :: "grammar_rules \<Rightarrow> u32 list \<Rightarrow> gstack list \<Rightarrow> gstack list run" where
  "accept_chars rules = for_run (\<lambda>chr stacks. accept_all rules stacks chr)"

subsection \<open>Left recursion\<close>

record lr_state =
  rules_visited :: "bool list"
  rules_in_progress :: "bool list"
  rules_may_be_empty :: "bool list"

text \<open>The first loop of \<open>llama_grammar_detect_left_recursion\<close>: is an alternate empty as written?\<close>

fun may_be_empty_scan :: "grammar_rule \<Rightarrow> bool \<Rightarrow> bool" where
  "may_be_empty_scan [] at_rule_start = False"
| "may_be_empty_scan (e # es) at_rule_start =
     (if is_end_of_sequence e then (if at_rule_start then True else may_be_empty_scan es True)
      else may_be_empty_scan es False)"

text \<open>The second loop, over the recursive call \<open>d\<close>.\<close>

fun left_refs_loop ::
    "(nat \<Rightarrow> lr_state \<Rightarrow> (bool \<times> lr_state) option) \<Rightarrow> grammar_rule \<Rightarrow> bool \<Rightarrow> lr_state
     \<Rightarrow> (bool \<times> lr_state) option" where
  "left_refs_loop d [] recurse st = Some (False, st)"
| "left_refs_loop d (e # es) recurse st =
     (if el_type e = GRE_RULE_REF \<and> recurse then
        (case d (unat (el_value e)) st of
           None \<Rightarrow> None
         | Some (found, st') \<Rightarrow>
             if found then Some (True, st')
             else left_refs_loop d es (rules_may_be_empty st' ! unat (el_value e)) st')
      else left_refs_loop d es (is_end_of_sequence e) st)"

lemma left_refs_loop_cong [fundef_cong]:
  "es = es' \<Longrightarrow> b = b' \<Longrightarrow> st = st' \<Longrightarrow>
   (\<And>e s. e \<in> set es' \<Longrightarrow> d (unat (el_value e)) s = d' (unat (el_value e)) s) \<Longrightarrow>
   left_refs_loop d es b st = left_refs_loop d' es' b' st'"
  by (induction es' arbitrary: es b b' st st') (auto split: option.splits)

text \<open>The recursion goes at most one level deeper than there are rules not yet in progress, so the
  depth \<open>fuel\<close> is bounded; \<open>None\<close> also stands for a rule index out of range.\<close>

fun detect_left_recursion ::
    "nat \<Rightarrow> grammar_rules \<Rightarrow> nat \<Rightarrow> lr_state \<Rightarrow> (bool \<times> lr_state) option" where
  "detect_left_recursion 0 rules i st = None"
| "detect_left_recursion (Suc fuel) rules i st =
     (if i \<ge> length rules then None
      else if rules_in_progress st ! i then Some (True, st)
      else
        let st1 = st\<lparr>rules_in_progress := (rules_in_progress st)[i := True],
                     rules_may_be_empty := (if may_be_empty_scan (rules ! i) True
                       then (rules_may_be_empty st)[i := True] else rules_may_be_empty st)\<rparr>
        in (case left_refs_loop (detect_left_recursion fuel rules) (rules ! i) True st1 of
              None \<Rightarrow> None
            | Some (found, st2) \<Rightarrow>
                if found then Some (True, st2)
                else Some (False, st2\<lparr>rules_in_progress := (rules_in_progress st2)[i := False],
                                      rules_visited := (rules_visited st2)[i := True]\<rparr>)))"

definition lr_start :: "nat \<Rightarrow> lr_state" where
  "lr_start n = \<lparr>rules_visited = replicate n False, rules_in_progress = replicate n False,
     rules_may_be_empty = replicate n False\<rparr>"

fun check_rules :: "grammar_rules \<Rightarrow> nat list \<Rightarrow> lr_state \<Rightarrow> bool option" where
  "check_rules rules [] st = Some False"
| "check_rules rules (i # is) st =
     (if rules_visited st ! i then check_rules rules is st
      else (case detect_left_recursion (Suc (length rules)) rules i st of
          None \<Rightarrow> None
        | Some (found, st') \<Rightarrow> if found then Some True else check_rules rules is st'))"

definition has_left_recursion :: "grammar_rules \<Rightarrow> bool option" where
  "has_left_recursion rules = check_rules rules [0..<length rules] (lr_start (length rules))"

subsection \<open>Building a grammar\<close>

definition copy_rule :: "grammar_rule \<Rightarrow> grammar_rule" where
  "copy_rule es = takeWhile (\<lambda>e. el_type e \<noteq> GRE_END) es @ [Elem GRE_END 0]"

definition refs_defined :: "grammar_rules \<Rightarrow> bool" where
  "refs_defined rules = list_all (\<lambda>rule. list_all (\<lambda>e. el_type e = GRE_RULE_REF \<longrightarrow>
     \<not> (unat (el_value e) \<ge> length rules \<or> rules ! unat (el_value e) = [])) rule) rules"

definition initial_stacks :: "grammar_rules \<Rightarrow> nat \<Rightarrow> gstack list run" where
  "initial_stacks rules start =
     for_run (\<lambda>j stacks. advance_stack rules (push_unless_end rules (start, j) []) stacks)
       (alt_starts (rules ! start) 0) []"

end
