(* ===== verification/Gr_Lang.thy ===== *)
theory Gr_Lang
  imports Gr_Engine
begin

section \<open>What a grammar means, and what the engine computes\<close>

text \<open>
  The specification of the engine: the elements of a rule read as sequences of symbols, the
  language they generate as an inductive predicate, and, for the work list of
  \<open>llama_grammar_advance_stack\<close>, the set of terminal stacks reachable by expanding rule
  references. The engine keeps the language: the stacks after a character generate exactly what
  the stacks before it generate after that character.
\<close>

subsection \<open>Well-formed rules\<close>

text \<open>The state says what may continue a character class: 0 nothing, 1 another member, 2 also an
  upper bound of the last member.\<close>

fun wf_from :: "nat \<Rightarrow> grammar_rule \<Rightarrow> bool" where
  "wf_from st [] = False"
| "wf_from st (e # es) =
     (case el_type e of
        GRE_END \<Rightarrow> es = []
      | GRE_ALT \<Rightarrow> wf_from 0 es
      | GRE_RULE_REF \<Rightarrow> wf_from 0 es
      | GRE_TOKEN \<Rightarrow> wf_from 0 es
      | GRE_TOKEN_NOT \<Rightarrow> wf_from 0 es
      | GRE_CHAR_ANY \<Rightarrow> wf_from 0 es
      | GRE_CHAR \<Rightarrow> wf_from 2 es
      | GRE_CHAR_NOT \<Rightarrow> wf_from 2 es
      | GRE_CHAR_ALT \<Rightarrow> 1 \<le> st \<and> wf_from 2 es
      | GRE_CHAR_RNG_UPPER \<Rightarrow> 2 \<le> st \<and> wf_from 1 es)"

definition wf_rules :: "grammar_rules \<Rightarrow> bool" where
  "wf_rules rules \<longleftrightarrow> (\<forall>rule \<in> set rules. wf_from 0 rule \<and>
     (\<forall>e \<in> set rule. el_type e = GRE_RULE_REF \<longrightarrow> unat (el_value e) < length rules))"

text \<open>A position a stack may hold (or reach the end of its alternate at).\<close>

definition ok_pos :: "grammar_rules \<Rightarrow> gpos \<Rightarrow> bool" where
  "ok_pos rules p \<longleftrightarrow> fst p < length rules \<and> wf_from 0 (from_pos rules p)"

definition valid_stack :: "grammar_rules \<Rightarrow> gstack \<Rightarrow> bool" where
  "valid_stack rules s \<longleftrightarrow> (\<forall>p \<in> set s. ok_pos rules p \<and> \<not> is_end_of_sequence (elem_at rules p))"

lemma valid_stack_simps [simp]:
  "valid_stack rules []"
  "valid_stack rules (p # s) \<longleftrightarrow>
     ok_pos rules p \<and> \<not> is_end_of_sequence (elem_at rules p) \<and> valid_stack rules s"
  by (auto simp: valid_stack_def)

lemma ok_pos_Cons:
  assumes "ok_pos rules p"
  shows "from_pos rules p = elem_at rules p # from_pos rules (shift_pos p 1)"
    and "snd p < length (rules ! fst p)"
proof -
  have l: "snd p < length (rules ! fst p)"
    using assms by (auto simp: ok_pos_def from_pos_def not_le intro: ccontr)
  then show "snd p < length (rules ! fst p)" .
  show "from_pos rules p = elem_at rules p # from_pos rules (shift_pos p 1)"
    using Cons_nth_drop_Suc [OF l] by (simp add: from_pos_def elem_at_def shift_pos_def)
qed

lemma push_unless_end_valid:
  "ok_pos rules p \<Longrightarrow> valid_stack rules s \<Longrightarrow> valid_stack rules (push_unless_end rules p s)"
  by (simp add: push_unless_end_def)

subsection \<open>Rules as sequences of symbols\<close>

datatype gsym = Ref nat | Cls bool "(u32 \<times> u32) list" | Tok bool u32

text \<open>The members of the character class that starts at an element, and how many elements it
  takes.\<close>

function class_ranges :: "grammar_rule \<Rightarrow> (u32 \<times> u32) list \<times> nat" where
  "class_ranges es =
     (let (r, k) =
        (if type_at es 1 = GRE_CHAR_RNG_UPPER then ((el_value (es ! 0), el_value (es ! 1)), 2)
         else if type_at es 0 = GRE_CHAR_ANY then ((0, - 1), 1)
         else ((el_value (es ! 0), el_value (es ! 0)), 1))
      in if type_at es k = GRE_CHAR_ALT
         then (let (rs, n) = class_ranges (drop k es) in (r # rs, k + n))
         else ([r], k))"
  by pat_completeness auto
termination
  by (relation "measure length") (auto simp: type_at_def split: if_splits)

declare class_ranges.simps [simp del]

definition in_ranges :: "(u32 \<times> u32) list \<Rightarrow> u32 \<Rightarrow> bool" where
  "in_ranges rs c \<longleftrightarrow> (\<exists>(lo, hi) \<in> set rs. lo \<le> c \<and> c \<le> hi)"

lemma class_ranges_pos: "0 < snd (class_ranges es)"
  by (subst class_ranges.simps) (auto split: prod.splits if_splits simp: Let_def)

function syms :: "grammar_rule \<Rightarrow> gsym list" where
  "syms [] = []"
| "syms (e # es) =
     (if is_end_of_sequence e then []
      else if el_type e = GRE_RULE_REF then Ref (unat (el_value e)) # syms es
      else if is_token_type (el_type e) then Tok (el_type e = GRE_TOKEN) (el_value e) # syms es
      else Cls (is_positive_char (el_type e)) (fst (class_ranges (e # es)))
             # syms (drop (snd (class_ranges (e # es))) (e # es)))"
  by pat_completeness auto
termination
  by (relation "measure length") (auto simp: class_ranges_pos)

definition alts :: "grammar_rules \<Rightarrow> nat \<Rightarrow> gsym list list" where
  "alts rules r = map (\<lambda>j. syms (drop j (rules ! r))) (alt_starts (rules ! r) 0)"

definition stack_syms :: "grammar_rules \<Rightarrow> gstack \<Rightarrow> gsym list" where
  "stack_syms rules s = concat (map (\<lambda>p. syms (from_pos rules p)) s)"

lemma stack_syms_simps [simp]:
  "stack_syms rules [] = []"
  "stack_syms rules (p # s) = syms (from_pos rules p) @ stack_syms rules s"
  by (simp_all add: stack_syms_def)

lemma match_chars_ranges:
  "match_chars es c found = (found \<or> in_ranges (fst (class_ranges es)) c, snd (class_ranges es))"
proof (induction es c found rule: match_chars.induct)
  case (1 es c found)
  show ?case
  proof (cases "type_at es 1 = GRE_CHAR_RNG_UPPER")
    case True
    note IH = "1.IH" [of _ "found \<or> el_value (es ! 0) \<le> c \<and> c \<le> el_value (es ! 1)" 2, OF refl]
    from True IH show ?thesis
      by (auto simp: match_chars.simps [of es] class_ranges.simps [of es] in_ranges_def Let_def split: prod.splits)
  next
    case False
    show ?thesis
    proof (cases "type_at es 0 = GRE_CHAR_ANY")
      case True
      from False True "1.IH" [of _ True 1, OF refl] show ?thesis
        by (auto simp: match_chars.simps [of es] class_ranges.simps [of es] in_ranges_def Let_def split: prod.splits)
    next
      case ne: False
      note IH = "1.IH" [of _ "found \<or> el_value (es ! 0) = c" 1, OF refl]
      from False ne IH show ?thesis
        by (auto simp: match_chars.simps [of es] class_ranges.simps [of es] in_ranges_def Let_def split: prod.splits)
    qed
  qed
qed

subsection \<open>The generated language\<close>

inductive gen :: "grammar_rules \<Rightarrow> gsym list \<Rightarrow> u32 list \<Rightarrow> bool" for rules where
  gen_Nil: "gen rules [] []"
| gen_Cls: "in_ranges rs c = pos \<Longrightarrow> gen rules ss w \<Longrightarrow> gen rules (Cls pos rs # ss) (c # w)"
| gen_Ref: "alt \<in> set (alts rules r) \<Longrightarrow> gen rules alt u \<Longrightarrow> gen rules ss v \<Longrightarrow>
    gen rules (Ref r # ss) (u @ v)"

inductive_simps gen_Nil_iff [simp]: "gen rules [] w"
inductive_simps gen_Cls_iff [simp]: "gen rules (Cls pos rs # ss) w"
inductive_simps gen_Tok_iff [simp]: "gen rules (Tok pos t # ss) w"
inductive_simps gen_Ref_iff: "gen rules (Ref r # ss) w"

lemma gen_append:
  "gen rules (xs @ ys) w \<longleftrightarrow> (\<exists>u v. w = u @ v \<and> gen rules xs u \<and> gen rules ys v)"
proof
  assume "gen rules (xs @ ys) w"
  then show "\<exists>u v. w = u @ v \<and> gen rules xs u \<and> gen rules ys v"
  proof (induction "xs @ ys" w arbitrary: xs)
    case gen_Nil
    then show ?case by simp
  next
    case (gen_Cls rs c pos ss w)
    show ?case
    proof (cases xs)
      case Nil
      then show ?thesis using gen_Cls gen.gen_Cls [OF gen_Cls.hyps(1,2)] by auto
    next
      case (Cons x xs')
      with gen_Cls obtain u v where "w = u @ v" "gen rules xs' u" "gen rules ys v" by auto
      with Cons gen_Cls show ?thesis by (intro exI [of _ "c # u"] exI [of _ v]) auto
    qed
  next
    case (gen_Ref alt r u ss v)
    show ?case
    proof (cases xs)
      case Nil
      then show ?thesis
        using gen_Ref gen.gen_Ref [OF gen_Ref.hyps(1,2,4)] by auto
    next
      case (Cons x xs')
      with gen_Ref obtain a b where "v = a @ b" "gen rules xs' a" "gen rules ys b" by auto
      with Cons gen_Ref gen.gen_Ref [of alt rules r u xs' a] show ?thesis
        by (intro exI [of _ "u @ a"] exI [of _ b]) auto
    qed
  qed
next
  assume "\<exists>u v. w = u @ v \<and> gen rules xs u \<and> gen rules ys v"
  then obtain u v where w: "w = u @ v" "gen rules xs u" "gen rules ys v" by blast
  from w(2) have "gen rules (xs @ ys) (u @ v)"
    by induction (use w(3) gen.intros in \<open>auto simp only: append_Cons append_assoc append_Nil\<close>)
  with w(1) show "gen rules (xs @ ys) w" by simp
qed

lemma gen_Ref_alts: "gen rules (Ref r # ss) w \<longleftrightarrow> (\<exists>alt \<in> set (alts rules r). gen rules (alt @ ss) w)"
  unfolding gen_Ref_iff gen_append by blast

subsection \<open>Positions reached by the engine\<close>

lemma wf_from_mono: "wf_from 0 es \<Longrightarrow> wf_from st es"
  by (cases es) (auto split: gretype.splits)

lemma wf_from_skip:
  assumes "wf_from st es"
  shows "takeWhile (\<lambda>e. \<not> is_end_of_sequence e) es \<noteq> es"
    and "type_at es (length (takeWhile (\<lambda>e. \<not> is_end_of_sequence e) es)) = GRE_ALT \<Longrightarrow>
      wf_from 0 (drop (Suc (length (takeWhile (\<lambda>e. \<not> is_end_of_sequence e) es))) es)"
  using assms
  by (induction st es rule: wf_from.induct)
    (auto simp: is_end_of_sequence_def is_end_type_def split: gretype.splits)

lemma alt_starts_wf:
  assumes "wf_from 0 (drop i es)" and "j \<in> set (alt_starts es i)"
  shows "wf_from 0 (drop j es)"
  using assms
proof (induction es i rule: alt_starts.induct)
  case (1 es i)
  show ?case
  proof (cases "j = i")
    case False
    define k where "k = scan_to_end es i"
    from False "1.prems"(2) have k: "type_at es k = GRE_ALT" "j \<in> set (alt_starts es (Suc k))"
      unfolding k_def by (subst (asm) alt_starts.simps, auto simp: Let_def split: if_splits)+
    have "type_at (drop i es) (length (takeWhile (\<lambda>e. \<not> is_end_of_sequence e) (drop i es))) = GRE_ALT"
      using k(1) by (auto simp: k_def scan_to_end_def type_at_def split: if_splits)
    from wf_from_skip(2) [OF "1.prems"(1) this] have "wf_from 0 (drop (Suc k) es)"
      by (simp add: k_def scan_to_end_def add.commute)
    then show ?thesis using "1.IH" k by (simp add: k_def)
  qed (use "1.prems" in simp)
qed

lemma ok_pos_next:
  assumes "ok_pos rules p" and "el_type (elem_at rules p) = GRE_RULE_REF \<or> is_token_type (el_type (elem_at rules p))"
  shows "ok_pos rules (shift_pos p 1)"
  using assms ok_pos_Cons(1) [OF assms(1)]
  by (auto simp: ok_pos_def is_token_type_def shift_pos_def split: gretype.splits)

lemma wf_rules_ref:
  assumes "wf_rules rules" and "ok_pos rules p" and "el_type (elem_at rules p) = GRE_RULE_REF"
  shows "unat (el_value (elem_at rules p)) < length rules"
proof -
  have "rules ! fst p \<in> set rules" using assms(2) by (simp add: ok_pos_def)
  moreover have "elem_at rules p \<in> set (rules ! fst p)"
    using ok_pos_Cons(2) [OF assms(2)] by (simp add: elem_at_def)
  ultimately show ?thesis using assms(1,3) by (auto simp: wf_rules_def)
qed

lemma ok_pos_alt:
  assumes "wf_rules rules" and "r < length rules" and "j \<in> set (alt_starts (rules ! r) 0)"
  shows "ok_pos rules (r, j)"
  using assms alt_starts_wf [of 0 "rules ! r" j]
  by (auto simp: ok_pos_def from_pos_def wf_rules_def)

text \<open>After a character class.\<close>

lemma wf_from_fresh:
  assumes "wf_from st es" and "st \<le> 1 \<or> type_at es 0 \<noteq> GRE_CHAR_RNG_UPPER"
  shows "wf_from 0 es \<or> type_at es 0 = GRE_CHAR_ALT \<and> wf_from 2 (tl es) \<and> es \<noteq> []"
  using assms by (cases es) (auto split: gretype.splits)

lemma wf_from_0_head: "wf_from 0 es \<Longrightarrow> type_at es 0 \<noteq> GRE_CHAR_ALT \<and> type_at es 0 \<noteq> GRE_CHAR_RNG_UPPER"
  by (cases es) auto

lemma class_ranges_wf:
  assumes "es \<noteq> []" and "wf_from 2 (tl es) \<or> type_at es 0 = GRE_CHAR_ANY \<and> wf_from 0 (tl es)"
  shows "wf_from 0 (drop (snd (class_ranges es)) es)"
  using assms
proof (induction es rule: class_ranges.induct)
  case (1 es)
  define r k where "r = fst (if type_at es 1 = GRE_CHAR_RNG_UPPER then ((el_value (es ! 0), el_value (es ! 1)), 2 :: nat)
         else if type_at es 0 = GRE_CHAR_ANY then ((0, - 1), 1)
         else ((el_value (es ! 0), el_value (es ! 0)), 1))"
    and "k = (if type_at es 1 = GRE_CHAR_RNG_UPPER then 2 else 1 :: nat)"
  have rk: "(r, k) = (if type_at es 1 = GRE_CHAR_RNG_UPPER then ((el_value (es ! 0), el_value (es ! 1)), 2)
         else if type_at es 0 = GRE_CHAR_ANY then ((0, - 1), 1)
         else ((el_value (es ! 0), el_value (es ! 0)), 1))"
    by (simp add: r_def k_def)
  from "1.prems" obtain e es' where es: "es = e # es'" by (cases es) auto
  have step: "wf_from 0 (drop k es) \<or>
      type_at (drop k es) 0 = GRE_CHAR_ALT \<and> wf_from 2 (tl (drop k es)) \<and> drop k es \<noteq> []"
  proof (cases "type_at es 1 = GRE_CHAR_RNG_UPPER")
    case True
    with es "1.prems" obtain e' es'' where es'': "es' = e' # es''" "wf_from 1 es''"
      by (cases es') auto
    then show ?thesis using wf_from_fresh [OF es''(2)] True es by (simp add: k_def)
  next
    case False
    then have "type_at es' 0 \<noteq> GRE_CHAR_RNG_UPPER" using es by simp
    then show ?thesis
      using False es "1.prems" wf_from_fresh [of 2 es'] by (auto simp: k_def)
  qed
  have at: "type_at (drop k es) 0 = type_at es k" by (auto simp: type_at_def)
  have sn: "snd (class_ranges es) =
      (if type_at es k = GRE_CHAR_ALT then k + snd (class_ranges (drop k es)) else k)"
    by (subst class_ranges.simps, subst rk [symmetric]) (simp add: Let_def split: prod.splits)
  show ?case
  proof (cases "type_at es k = GRE_CHAR_ALT")
    case True
    with step at wf_from_0_head [of "drop k es"]
    have t: "wf_from 2 (tl (drop k es))" "drop k es \<noteq> []" by auto
    then have "wf_from 0 (drop (snd (class_ranges (drop k es))) (drop k es))"
      using "1.IH" [OF rk [symmetric, THEN sym] refl True] by simp
    then show ?thesis
      using True by (simp add: sn add.commute)
  next
    case False
    then show ?thesis
      using step at by (simp add: sn)
  qed
qed

lemma ok_pos_class:
  assumes "ok_pos rules p" and "el_type (elem_at rules p) \<in> {GRE_CHAR, GRE_CHAR_NOT, GRE_CHAR_ANY}"
  shows "ok_pos rules (shift_pos p (snd (class_ranges (from_pos rules p))))"
proof -
  note c = ok_pos_Cons(1) [OF assms(1)]
  have "wf_from 0 (drop (snd (class_ranges (from_pos rules p))) (from_pos rules p))"
    by (rule class_ranges_wf) (use assms c in \<open>auto simp: ok_pos_def\<close>)
  then show ?thesis using assms(1) by (simp add: ok_pos_def from_pos_def shift_pos_def add.commute)
qed

subsection \<open>The symbols of a position\<close>

lemma syms_ref:
  assumes "ok_pos rules p" and "el_type (elem_at rules p) = GRE_RULE_REF"
  shows "syms (from_pos rules p) = Ref (unat (el_value (elem_at rules p))) # syms (from_pos rules (shift_pos p 1))"
  using assms(2) unfolding ok_pos_Cons(1) [OF assms(1)]
  by (simp add: is_end_of_sequence_def is_end_type_def)

lemma syms_token:
  assumes "ok_pos rules p" and "is_token_type (el_type (elem_at rules p))"
  shows "syms (from_pos rules p) =
    Tok (el_type (elem_at rules p) = GRE_TOKEN) (el_value (elem_at rules p)) # syms (from_pos rules (shift_pos p 1))"
  using assms(2) unfolding ok_pos_Cons(1) [OF assms(1)]
  by (auto simp: is_end_of_sequence_def is_end_type_def is_token_type_def)

lemma syms_class:
  assumes "ok_pos rules p" and "el_type (elem_at rules p) \<in> {GRE_CHAR, GRE_CHAR_NOT, GRE_CHAR_ANY}"
  shows "syms (from_pos rules p) =
    Cls (is_positive_char (el_type (elem_at rules p))) (fst (class_ranges (from_pos rules p)))
      # syms (from_pos rules (shift_pos p (snd (class_ranges (from_pos rules p)))))"
proof -
  note c = ok_pos_Cons(1) [OF assms(1)]
  have d: "from_pos rules (shift_pos p n) = drop n (from_pos rules p)" for n
    by (simp add: from_pos_def shift_pos_def add.commute)
  show ?thesis
    unfolding d using assms(2)
    by (subst (1) c, subst syms.simps, subst (1 2 3) c [symmetric])
      (auto simp: is_end_of_sequence_def is_end_type_def is_token_type_def c [symmetric])
qed

lemma syms_end:
  assumes "ok_pos rules p" and "is_end_of_sequence (elem_at rules p)"
  shows "syms (from_pos rules p) = []"
  using assms(2) unfolding ok_pos_Cons(1) [OF assms(1)] by simp

lemma stack_syms_push:
  "ok_pos rules p \<Longrightarrow> stack_syms rules (push_unless_end rules p s) = syms (from_pos rules p) @ stack_syms rules s"
  by (simp add: push_unless_end_def syms_end)

lemma next_stacks_syms:
  assumes "wf_rules rules" and "valid_stack rules (p # rest)" and "el_type (elem_at rules p) = GRE_RULE_REF"
  shows "\<forall>t \<in> set (next_stacks rules p rest). valid_stack rules t"
    and "stack_syms rules (p # rest) = Ref r # ss \<Longrightarrow>
      map (stack_syms rules) (next_stacks rules p rest) = map (\<lambda>alt. alt @ ss) (alts rules r)"
    and "next_stacks rules p rest \<noteq> []"
proof -
  let ?r = "unat (el_value (elem_at rules p))"
  have ok: "ok_pos rules p" "valid_stack rules rest" using assms(2) by auto
  have r: "?r < length rules" by (rule wf_rules_ref [OF assms(1) ok(1) assms(3)])
  have n: "ok_pos rules (shift_pos p 1)" by (rule ok_pos_next [OF ok(1)]) (simp add: assms(3))
  note a = ok_pos_alt [OF assms(1) r]
  show "\<forall>t \<in> set (next_stacks rules p rest). valid_stack rules t"
    by (auto simp: next_stacks_def Let_def intro!: push_unless_end_valid n [simplified] ok a)
  show "next_stacks rules p rest \<noteq> []"
    by (simp add: next_stacks_def alt_starts.simps [of _ 0] Let_def)
  show "map (stack_syms rules) (next_stacks rules p rest) = map (\<lambda>alt. alt @ ss) (alts rules r)"
    if "stack_syms rules (p # rest) = Ref r # ss"
    using that a n syms_ref [OF ok(1) assms(3)]
    by (auto simp: next_stacks_def alts_def Let_def stack_syms_push from_pos_def)
qed

subsection \<open>What \<open>advance_stack\<close> computes\<close>

definition expands :: "grammar_rules \<Rightarrow> gstack \<Rightarrow> gstack \<Rightarrow> bool" where
  "expands rules s t \<longleftrightarrow> (\<exists>p rest. s = p # rest \<and> el_type (elem_at rules p) = GRE_RULE_REF
     \<and> t \<in> set (next_stacks rules p rest))"

definition leaf :: "grammar_rules \<Rightarrow> gstack \<Rightarrow> bool" where
  "leaf rules s \<longleftrightarrow> s = [] \<or> is_terminal_type (el_type (elem_at rules (hd s)))"

definition leaves :: "grammar_rules \<Rightarrow> gstack \<Rightarrow> gstack set" where
  "leaves rules s = {t. leaf rules t \<and> (expands rules)\<^sup>*\<^sup>* s t}"

lemma valid_stack_cases:
  assumes "valid_stack rules s"
  obtains (Nil) "s = []"
  | (terminal) p rest where "s = p # rest" "is_terminal_type (el_type (elem_at rules p))"
      "ok_pos rules p" "valid_stack rules rest"
  | (ref) p rest where "s = p # rest" "el_type (elem_at rules p) = GRE_RULE_REF"
      "ok_pos rules p" "valid_stack rules rest"
proof (cases s)
  case (Cons p rest)
  with assms have p: "ok_pos rules p" "\<not> is_end_of_sequence (elem_at rules p)" "valid_stack rules rest"
    by auto
  have "wf_from 0 (elem_at rules p # from_pos rules (shift_pos p 1))"
    using p(1) ok_pos_Cons(1) [OF p(1)] by (simp add: ok_pos_def)
  with p(2) have "el_type (elem_at rules p) = GRE_RULE_REF \<or> is_terminal_type (el_type (elem_at rules p))"
    by (auto simp: is_end_of_sequence_def is_end_type_def is_terminal_type_def split: gretype.splits)
  with Cons p that show ?thesis by blast
qed (use that in blast)

lemma leaf_no_expand: "leaf rules s \<Longrightarrow> \<not> expands rules s t"
  by (auto simp: leaf_def expands_def is_terminal_type_def)

lemma expands_valid: "wf_rules rules \<Longrightarrow> valid_stack rules s \<Longrightarrow> expands rules s t \<Longrightarrow> valid_stack rules t"
  using next_stacks_syms(1) by (auto simp: expands_def)

lemma reach_valid:
  assumes "(expands rules)\<^sup>*\<^sup>* s t" and "wf_rules rules" and "valid_stack rules s"
  shows "valid_stack rules t"
  using assms by induction (auto intro: expands_valid)

text \<open>The loop keeps: every expanded stack has its expansions expanded or waiting, and the terminal
  ones among the new stacks.\<close>

definition worklist_inv :: "grammar_rules \<Rightarrow> gstack set \<Rightarrow> gstack set \<Rightarrow> gstack set \<Rightarrow> bool" where
  "worklist_inv rules seen todo news \<longleftrightarrow>
     (\<forall>t \<in> seen. (leaf rules t \<longrightarrow> t \<in> news) \<and> (\<forall>u. expands rules t u \<longrightarrow> u \<in> seen \<union> todo))"

lemma set_add_new [simp]: "set (add_new s news) = insert s (set news)"
  by (auto simp: add_new_def)

lemma distinct_add_new [simp]: "distinct news \<Longrightarrow> distinct (add_new s news)"
  by (simp add: add_new_def)

definition advance_post ::
    "grammar_rules \<Rightarrow> gstack list \<Rightarrow> gstack list \<Rightarrow> gstack list \<Rightarrow> gstack list outcome \<Rightarrow> bool" where
  "advance_post rules todo seen news out \<longleftrightarrow>
     (case out of
        Abort \<Rightarrow> \<not> (wf_rules rules \<and> (\<forall>s \<in> set todo. valid_stack rules s))
      | Done r \<Rightarrow> set news \<subseteq> set r
          \<and> set r \<subseteq> set news \<union> (\<Union>s \<in> set todo. leaves rules s)
          \<and> (distinct news \<longrightarrow> distinct r)
          \<and> (worklist_inv rules (set seen) (set todo) (set news) \<longrightarrow>
              (\<exists>S. set seen \<union> set todo \<subseteq> S \<and> worklist_inv rules S {} (set r))))"

text \<open>One step of the loop, in the terms of the invariant.\<close>

lemma advance_post_step:
  assumes post: "advance_post rules todo' seen' news' out"
    and news: "set news \<subseteq> set news'" "set news' \<subseteq> set news \<union> (\<Union>s \<in> set todo. leaves rules s)"
    and dist: "distinct news \<longrightarrow> distinct news'"
    and lv: "\<And>u. u \<in> set todo' \<Longrightarrow> \<exists>s \<in> set todo. leaves rules u \<subseteq> leaves rules s"
    and inv: "worklist_inv rules (set seen) (set todo) (set news) \<Longrightarrow>
      worklist_inv rules (set seen') (set todo') (set news')"
    and sub: "set seen \<union> set todo \<subseteq> set seen' \<union> set todo'"
    and val: "wf_rules rules \<Longrightarrow> \<forall>s \<in> set todo. valid_stack rules s \<Longrightarrow> \<forall>s \<in> set todo'. valid_stack rules s"
  shows "advance_post rules todo seen news out"
proof (cases out)
  case Abort
  with post val show ?thesis by (auto simp: advance_post_def)
next
  case (Done r)
  with post have p: "set news' \<subseteq> set r" "set r \<subseteq> set news' \<union> (\<Union>s \<in> set todo'. leaves rules s)"
    "distinct news' \<longrightarrow> distinct r"
    "worklist_inv rules (set seen') (set todo') (set news') \<longrightarrow>
      (\<exists>S. set seen' \<union> set todo' \<subseteq> S \<and> worklist_inv rules S {} (set r))"
    by (simp_all add: advance_post_def)
  have "(\<Union>s \<in> set todo'. leaves rules s) \<subseteq> (\<Union>s \<in> set todo. leaves rules s)" using lv by blast
  with p(2) news(2) have "set r \<subseteq> set news \<union> (\<Union>s \<in> set todo. leaves rules s)" by blast
  moreover have "set news \<subseteq> set r" using p(1) news(1) by blast
  moreover have "\<exists>S. set seen \<union> set todo \<subseteq> S \<and> worklist_inv rules S {} (set r)"
    if "worklist_inv rules (set seen) (set todo) (set news)"
    using p(4) inv [OF that] sub by blast
  ultimately show ?thesis
    using p(3) dist unfolding advance_post_def Done outcome.case by blast
qed

lemma advance_post_seen:
  assumes "s \<in> set seen" and "advance_post rules todo seen news out"
  shows "advance_post rules (s # todo) seen news out"
  by (rule advance_post_step [OF assms(2)]) (use assms(1) in \<open>auto simp: worklist_inv_def\<close>)

lemma advance_post_leaf:
  assumes "leaf rules s" and "advance_post rules todo (s # seen) (add_new s news) out"
  shows "advance_post rules (s # todo) seen news out"
proof (rule advance_post_step [OF assms(2)])
  have "s \<in> leaves rules s" using assms(1) by (simp add: leaves_def)
  then show "set (add_new s news) \<subseteq> set news \<union> (\<Union>s \<in> set (s # todo). leaves rules s)" by auto
  show "worklist_inv rules (set (s # seen)) (set todo) (set (add_new s news))"
    if "worklist_inv rules (set seen) (set (s # todo)) (set news)"
    using that leaf_no_expand [OF assms(1)] by (auto simp: worklist_inv_def)
qed auto

lemma advance_post_ref:
  assumes "el_type (elem_at rules p) = GRE_RULE_REF"
    and "advance_post rules (rev (next_stacks rules p rest) @ todo) ((p # rest) # seen) news out"
  shows "advance_post rules ((p # rest) # todo) seen news out"
proof (rule advance_post_step [OF assms(2)])
  have ex: "expands rules (p # rest) u \<longleftrightarrow> u \<in> set (next_stacks rules p rest)" for u
    using assms(1) by (simp add: expands_def)
  show "\<exists>s \<in> set ((p # rest) # todo). leaves rules u \<subseteq> leaves rules s"
    if "u \<in> set (rev (next_stacks rules p rest) @ todo)" for u
  proof (cases "u \<in> set todo")
    case False
    with that ex have "expands rules (p # rest) u" by simp
    then have "leaves rules u \<subseteq> leaves rules (p # rest)"
      by (auto simp: leaves_def intro: converse_rtranclp_into_rtranclp)
    then show ?thesis by simp
  qed auto
  have nl: "\<not> leaf rules (p # rest)" using assms(1) by (simp add: leaf_def is_terminal_type_def)
  show "worklist_inv rules (set ((p # rest) # seen)) (set (rev (next_stacks rules p rest) @ todo)) (set news)"
    if "worklist_inv rules (set seen) (set ((p # rest) # todo)) (set news)"
    using that nl unfolding worklist_inv_def ex by (auto simp: ex)
  show "\<forall>s \<in> set (rev (next_stacks rules p rest) @ todo). valid_stack rules s"
    if "wf_rules rules" "\<forall>s \<in> set ((p # rest) # todo). valid_stack rules s"
    using that next_stacks_syms(1) [OF that(1) _ assms(1)] by auto
qed auto

lemma advance_loop_post:
  assumes "advance_loop rules todo seen news = Some out"
  shows "advance_post rules todo seen news out"
proof (rule advance_loop.raw_induct [where P = "advance_post", OF _ assms])
  fix f rules todo seen news out
  assume IH: "\<And>rules todo seen news out. f rules todo seen news = Some out \<Longrightarrow> advance_post rules todo seen news out"
    and eq: "(case todo of
        [] \<Rightarrow> Some (Done news)
      | s # todo' \<Rightarrow>
          if s \<in> set seen then f rules todo' seen news
          else (case s of
              [] \<Rightarrow> f rules todo' (s # seen) (add_new s news)
            | p # rest \<Rightarrow>
                (let t = el_type (elem_at rules p) in
                 if t = GRE_RULE_REF then
                   f rules (rev (next_stacks rules p rest) @ todo') (s # seen) news
                 else if is_terminal_type t then
                   f rules todo' (s # seen) (add_new s news)
                 else Some Abort))) = Some out"
  show "advance_post rules todo seen news out"
  proof (cases todo)
    case Nil
    with eq show ?thesis by (auto simp: advance_post_def intro!: exI [of _ "set seen"])
  next
    case (Cons s todo')
    show ?thesis
    proof (cases "s \<in> set seen")
      case True
      with eq Cons IH show ?thesis by (auto intro: advance_post_seen)
    next
      case False
      show ?thesis
      proof (cases s)
        case Nil
        with eq Cons False IH show ?thesis by (auto simp: leaf_def intro!: advance_post_leaf)
      next
        case (Cons p rest)
        consider (ref) "el_type (elem_at rules p) = GRE_RULE_REF"
          | (terml) "is_terminal_type (el_type (elem_at rules p))" "el_type (elem_at rules p) \<noteq> GRE_RULE_REF"
          | (bad) "el_type (elem_at rules p) \<noteq> GRE_RULE_REF" "\<not> is_terminal_type (el_type (elem_at rules p))"
          by blast
        then show ?thesis
        proof cases
          case ref
          with eq \<open>todo = _\<close> Cons False IH show ?thesis by (auto simp: Let_def intro!: advance_post_ref)
        next
          case terml
          with eq \<open>todo = _\<close> Cons False IH show ?thesis
            by (auto simp: Let_def leaf_def intro!: advance_post_leaf)
        next
          case bad
          have "\<not> valid_stack rules (p # rest)"
            by (rule notI, erule valid_stack_cases) (use bad in auto)
          with bad eq \<open>todo = _\<close> Cons False show ?thesis
            by (auto simp: Let_def advance_post_def)
        qed
      qed
    qed
  qed
qed

lemma advance_stack_leaves:
  assumes "wf_rules rules" and "valid_stack rules s" and "advance_stack rules s news = Some out"
  shows "\<exists>r. out = Done r \<and> set r = set news \<union> leaves rules s \<and> (distinct news \<longrightarrow> distinct r)"
proof -
  have post: "advance_post rules [s] [] news out"
    using advance_loop_post assms(3) by (simp add: advance_stack_def)
  with assms(1,2) obtain r where r: "out = Done r" by (cases out) (auto simp: advance_post_def)
  from post r obtain S where S: "s \<in> S" "worklist_inv rules S {} (set r)"
    and sub: "set news \<subseteq> set r" "set r \<subseteq> set news \<union> leaves rules s" "distinct news \<longrightarrow> distinct r"
    by (auto simp: advance_post_def worklist_inv_def)
  have "t \<in> S" if "(expands rules)\<^sup>*\<^sup>* s t" for t
    using that S by induction (auto simp: worklist_inv_def)
  with S have "leaves rules s \<subseteq> set r" by (auto simp: leaves_def worklist_inv_def)
  with r sub show ?thesis by auto
qed

text \<open>It returns when no infinite chain of expansions starts at the stack.\<close>

definition terminating :: "grammar_rules \<Rightarrow> gstack \<Rightarrow> bool" where
  "terminating rules = Wellfounded.accp (\<lambda>t s. expands rules s t)"

lemma advance_loop_list:
  assumes "\<And>t todo seen news. t \<in> set ts \<Longrightarrow>
      \<exists>seen' news'. advance_loop rules (t # todo) seen news = advance_loop rules todo seen' news'"
  shows "\<exists>seen' news'. advance_loop rules (ts @ todo) seen news = advance_loop rules todo seen' news'"
  using assms
proof (induction ts arbitrary: seen news)
  case (Cons t ts)
  obtain seen1 news1 where
    1: "advance_loop rules (t # (ts @ todo)) seen news = advance_loop rules (ts @ todo) seen1 news1"
    using Cons.prems [of t] by (meson list.set_intros(1))
  obtain seen2 news2 where
    "advance_loop rules (ts @ todo) seen1 news1 = advance_loop rules todo seen2 news2"
    using Cons.IH [of seen1 news1] Cons.prems by (meson list.set_intros(2))
  with 1 show ?case by auto
qed auto

lemma advance_loop_consumes:
  assumes "wf_rules rules" and "terminating rules s" and "valid_stack rules s"
  shows "\<exists>seen' news'. advance_loop rules (s # todo) seen news = advance_loop rules todo seen' news'"
  using assms(2,3) unfolding terminating_def
proof (induction arbitrary: todo seen news rule: accp.induct)
  case (accI s)
  show ?case
  proof (cases "s \<in> set seen")
    case True
    then show ?thesis by (auto simp: advance_loop_simps)
  next
    case False
    from accI.prems show ?thesis
    proof (cases rule: valid_stack_cases)
      case Nil
      with False show ?thesis by (auto simp: advance_loop_simps)
    next
      case (terminal p rest)
      with False show ?thesis by (auto simp: advance_loop_simps)
    next
      case (ref p rest)
      have "\<exists>seen' news'. advance_loop rules (t # todo) seen news = advance_loop rules todo seen' news'"
        if "t \<in> set (rev (next_stacks rules p rest))" for t todo seen news
        using that ref accI expands_valid [OF assms(1) accI.prems, of t] by (auto simp: expands_def)
      from advance_loop_list [of "rev (next_stacks rules p rest)" rules todo "s # seen" news, OF this]
      show ?thesis using ref False by (auto simp: advance_loop_simps)
    qed
  qed
qed

lemma advance_stack_terminates:
  assumes "wf_rules rules" and "terminating rules s" and "valid_stack rules s"
  shows "\<exists>r. advance_stack rules s news = Some (Done r) \<and> set r = set news \<union> leaves rules s
    \<and> (distinct news \<longrightarrow> distinct r)"
proof -
  obtain seen' news' where "advance_stack rules s news = advance_loop rules [] seen' news'"
    using advance_loop_consumes [OF assms, of "[]" "[]" news] by (auto simp: advance_stack_def)
  then have "advance_stack rules s news = Some (Done news')" by (simp add: advance_loop_simps)
  with advance_stack_leaves [OF assms(1,3) this] show ?thesis by auto
qed

text \<open>A stack that can be advanced has at least one terminal stack: the engine never loses all its
  stacks by advancing, only by a character that does not match.\<close>

lemma leaves_nonempty:
  assumes "terminating rules s" and "wf_rules rules" and "valid_stack rules s"
  shows "leaves rules s \<noteq> {}"
  using assms(1,3) unfolding terminating_def
proof (induction rule: accp.induct)
  case (accI s)
  from accI.prems show ?case
  proof (cases rule: valid_stack_cases)
    case (ref p rest)
    from next_stacks_syms(3) [OF assms(2) _ ref(2), of rest] accI.prems ref(1)
    obtain t where t: "t \<in> set (next_stacks rules p rest)" by (cases "next_stacks rules p rest") auto
    then have e: "expands rules s t" using ref by (auto simp: expands_def)
    with accI expands_valid [OF assms(2)] have "leaves rules t \<noteq> {}" by blast
    with e show ?thesis by (auto simp: leaves_def intro: converse_rtranclp_into_rtranclp)
  next
    case Nil
    then have "s \<in> leaves rules s" by (simp add: leaves_def leaf_def)
    then show ?thesis by blast
  next
    case (terminal p rest)
    then have "s \<in> leaves rules s" by (simp add: leaves_def leaf_def)
    then show ?thesis by blast
  qed
qed

subsection \<open>The language of the stacks\<close>

lemma gen_expand:
  assumes "wf_rules rules" and "valid_stack rules (p # rest)" and "el_type (elem_at rules p) = GRE_RULE_REF"
  shows "gen rules (stack_syms rules (p # rest)) w \<longleftrightarrow>
    (\<exists>t. expands rules (p # rest) t \<and> gen rules (stack_syms rules t) w)"
proof -
  obtain r ss where rs: "stack_syms rules (p # rest) = Ref r # ss"
    using syms_ref [OF _ assms(3)] assms(2) by auto
  have "set (map (stack_syms rules) (next_stacks rules p rest)) = set (map (\<lambda>alt. alt @ ss) (alts rules r))"
    by (simp only: next_stacks_syms(2) [OF assms rs])
  then have im: "stack_syms rules ` set (next_stacks rules p rest) = (\<lambda>alt. alt @ ss) ` set (alts rules r)"
    by simp
  have "gen rules (stack_syms rules (p # rest)) w \<longleftrightarrow>
      (\<exists>x \<in> (\<lambda>alt. alt @ ss) ` set (alts rules r). gen rules x w)"
    unfolding rs gen_Ref_alts by blast
  also have "\<dots> \<longleftrightarrow> (\<exists>t \<in> set (next_stacks rules p rest). gen rules (stack_syms rules t) w)"
    unfolding im [symmetric] by blast
  finally show ?thesis using assms(3) by (auto simp: expands_def)
qed

lemma gen_leaves:
  assumes "terminating rules s" and "wf_rules rules" and "valid_stack rules s"
  shows "gen rules (stack_syms rules s) w \<longleftrightarrow> (\<exists>t \<in> leaves rules s. gen rules (stack_syms rules t) w)"
  using assms(1,3) unfolding terminating_def
proof (induction rule: accp.induct)
  case (accI s)
  show ?case
  proof (cases "leaf rules s")
    case True
    then have "leaves rules s = {s}"
      using leaf_no_expand [OF True] by (auto simp: leaves_def elim: converse_rtranclpE)
    then show ?thesis by simp
  next
    case False
    with accI.prems obtain p rest where s: "s = p # rest" "el_type (elem_at rules p) = GRE_RULE_REF"
      by (cases rule: valid_stack_cases) (auto simp: leaf_def)
    have lv: "leaves rules s = (\<Union>t \<in> {t. expands rules s t}. leaves rules t)"
      using False by (auto simp: leaves_def intro: converse_rtranclp_into_rtranclp
          elim: converse_rtranclpE)
    have "gen rules (stack_syms rules s) w \<longleftrightarrow>
        (\<exists>t. expands rules s t \<and> gen rules (stack_syms rules t) w)"
      using gen_expand [OF assms(2) _ s(2)] accI.prems s(1) by blast
    also have "\<dots> \<longleftrightarrow> (\<exists>t. expands rules s t \<and> (\<exists>u \<in> leaves rules t. gen rules (stack_syms rules u) w))"
      using accI expands_valid [OF assms(2) accI.prems] by blast
    finally show ?thesis unfolding lv by blast
  qed
qed

text \<open>A grammar on which every \<open>advance_stack\<close> returns.\<close>

definition advancing :: "grammar_rules \<Rightarrow> bool" where
  "advancing rules \<longleftrightarrow> wf_rules rules \<and> (\<forall>s. valid_stack rules s \<longrightarrow> terminating rules s)"

definition gen_stacks :: "grammar_rules \<Rightarrow> gstack set \<Rightarrow> u32 list \<Rightarrow> bool" where
  "gen_stacks rules S w \<longleftrightarrow> (\<exists>s \<in> S. gen rules (stack_syms rules s) w)"

text \<open>The stacks a grammar holds between two characters.\<close>

definition stacks_inv :: "grammar_rules \<Rightarrow> gstack set \<Rightarrow> bool" where
  "stacks_inv rules S \<longleftrightarrow> (\<forall>s \<in> S. valid_stack rules s \<and> leaf rules s)"

lemma stacks_inv_simps [simp]:
  "stacks_inv rules {}" "stacks_inv rules (A \<union> B) \<longleftrightarrow> stacks_inv rules A \<and> stacks_inv rules B"
  by (auto simp: stacks_inv_def)

lemma gen_stacks_simps [simp]:
  "\<not> gen_stacks rules {} w" "gen_stacks rules (A \<union> B) w \<longleftrightarrow> gen_stacks rules A w \<or> gen_stacks rules B w"
  by (auto simp: gen_stacks_def)

lemma advance_stack_ok:
  assumes "advancing rules" and "valid_stack rules s"
  shows "\<exists>r. advance_stack rules s news = Some (Done r) \<and> set r = set news \<union> leaves rules s
    \<and> (distinct news \<longrightarrow> distinct r)"
  using assms by (intro advance_stack_terminates) (auto simp: advancing_def)

lemma leaves_inv: "wf_rules rules \<Longrightarrow> valid_stack rules s \<Longrightarrow> stacks_inv rules (leaves rules s)"
  by (auto simp: stacks_inv_def leaves_def intro: reach_valid)

lemma gen_stacks_leaves:
  "advancing rules \<Longrightarrow> valid_stack rules s \<Longrightarrow>
   gen_stacks rules (leaves rules s) w \<longleftrightarrow> gen rules (stack_syms rules s) w"
  using gen_leaves [of rules s w] by (auto simp: advancing_def gen_stacks_def)

definition step_leaves :: "grammar_rules \<Rightarrow> gstack \<Rightarrow> u32 \<Rightarrow> gstack set" where
  "step_leaves rules s c =
     (case s of
        [] \<Rightarrow> {}
      | p # rest \<Rightarrow>
          (let (rs, n) = class_ranges (from_pos rules p); t = el_type (elem_at rules p) in
           if \<not> is_token_type t \<and> in_ranges rs c = is_positive_char t
           then leaves rules (push_unless_end rules (shift_pos p n) rest) else {}))"

lemma leaf_cases:
  assumes "valid_stack rules s" and "leaf rules s"
  obtains (Nil) "s = []"
  | (token) p rest where "s = p # rest" "is_token_type (el_type (elem_at rules p))"
      "ok_pos rules p" "valid_stack rules rest"
  | (cls) p rest where "s = p # rest" "el_type (elem_at rules p) \<in> {GRE_CHAR, GRE_CHAR_NOT, GRE_CHAR_ANY}"
      "ok_pos rules p" "valid_stack rules rest"
  using assms by (cases s) (auto simp: leaf_def is_terminal_type_def is_token_type_def)

lemma accept_chr_leaves:
  assumes "advancing rules" and "valid_stack rules s" and "leaf rules s"
  shows "\<exists>r. accept_chr rules s c news = Some (Done r) \<and> set r = set news \<union> step_leaves rules s c
    \<and> (distinct news \<longrightarrow> distinct r)"
    and "stacks_inv rules (step_leaves rules s c)"
    and "gen_stacks rules (step_leaves rules s c) w \<longleftrightarrow> gen rules (stack_syms rules s) (c # w)"
proof -
  have wf: "wf_rules rules" using assms(1) by (simp add: advancing_def)
  show "\<exists>r. accept_chr rules s c news = Some (Done r) \<and> set r = set news \<union> step_leaves rules s c
    \<and> (distinct news \<longrightarrow> distinct r)"
    using assms(2,3)
  proof (cases rule: leaf_cases)
    case (cls p rest)
    define n where "n = snd (class_ranges (from_pos rules p))"
    have v: "valid_stack rules (push_unless_end rules (shift_pos p n) rest)"
      using ok_pos_class [OF cls(3,2)] cls(4) by (auto simp: n_def intro: push_unless_end_valid)
    have t0: "type_at (from_pos rules p) 0 = el_type (elem_at rules p)"
      using ok_pos_Cons(1) [OF cls(3)] by simp
    have m: "match_char (from_pos rules p) c =
        Done (in_ranges (fst (class_ranges (from_pos rules p))) c = is_positive_char (el_type (elem_at rules p)), n)"
      using cls(2) by (auto simp: match_char_def t0 match_chars_ranges n_def is_positive_char_def)
    show ?thesis
      using cls(1,2) m advance_stack_ok [OF assms(1) v, of news]
      by (auto simp: accept_chr_def step_leaves_def is_token_type_def n_def split: prod.splits)
  qed (auto simp: accept_chr_def step_leaves_def)
  show "stacks_inv rules (step_leaves rules s c)"
    using assms(2,3)
  proof (cases rule: leaf_cases)
    case (cls p rest)
    with ok_pos_class [OF cls(3,2)] show ?thesis
      by (auto simp: step_leaves_def Let_def split: prod.splits
          intro!: leaves_inv wf push_unless_end_valid)
  qed (auto simp: step_leaves_def)
  show "gen_stacks rules (step_leaves rules s c) w \<longleftrightarrow> gen rules (stack_syms rules s) (c # w)"
    using assms(2,3)
  proof (cases rule: leaf_cases)
    case (token p rest)
    then show ?thesis using syms_token [OF token(3,2)] by (simp add: step_leaves_def)
  next
    case (cls p rest)
    obtain rs n where rs: "class_ranges (from_pos rules p) = (rs, n)" by fastforce
    have ok: "ok_pos rules (shift_pos p n)" using ok_pos_class [OF cls(3,2)] rs by simp
    have v: "valid_stack rules (push_unless_end rules (shift_pos p n) rest)"
      using ok cls(4) by (rule push_unless_end_valid)
    let ?t = "el_type (elem_at rules p)"
    have "\<not> is_token_type ?t" using cls(2) by (auto simp: is_token_type_def)
    then have sl: "step_leaves rules s c = (if in_ranges rs c = is_positive_char ?t
        then leaves rules (push_unless_end rules (shift_pos p n) rest) else {})"
      by (simp add: step_leaves_def cls(1) rs)
    have sy: "stack_syms rules s =
        Cls (is_positive_char ?t) rs # stack_syms rules (push_unless_end rules (shift_pos p n) rest)"
      using syms_class [OF cls(3,2)] by (simp add: cls(1) rs stack_syms_push [OF ok])
    show ?thesis
      unfolding sl sy using gen_stacks_leaves [OF assms(1) v] by simp
  qed (simp add: step_leaves_def)
qed

definition step_stacks :: "grammar_rules \<Rightarrow> gstack set \<Rightarrow> u32 \<Rightarrow> gstack set" where
  "step_stacks rules S c = (\<Union>s \<in> S. step_leaves rules s c)"

lemma accept_all_ok:
  assumes "advancing rules" and "stacks_inv rules (set stacks)"
  shows "\<exists>r. accept_all rules stacks c = Some (Done r) \<and> set r = step_stacks rules (set stacks) c \<and> distinct r"
proof -
  have "\<exists>r. for_run (\<lambda>stack. accept_chr rules stack c) xs news = Some (Done r)
      \<and> set r = set news \<union> step_stacks rules (set xs) c \<and> distinct r"
    if "stacks_inv rules (set xs)" "distinct news" for xs news
    using that
  proof (induction xs arbitrary: news)
    case (Cons x xs)
    then have x: "valid_stack rules x" "leaf rules x" "stacks_inv rules (set xs)"
      by (auto simp: stacks_inv_def)
    obtain r where r: "accept_chr rules x c news = Some (Done r)"
      "set r = set news \<union> step_leaves rules x c" "distinct r"
      using accept_chr_leaves(1) [OF assms(1) x(1,2), of c news] Cons.prems(2) by blast
    from Cons.IH [OF x(3) r(3)] r show ?case by (auto simp: step_stacks_def)
  qed (simp add: step_stacks_def)
  from this [OF assms(2), of "[]"] show ?thesis by (simp add: accept_all_def)
qed

lemma step_stacks_inv:
  assumes "advancing rules" and "stacks_inv rules S"
  shows "stacks_inv rules (step_stacks rules S c)"
proof -
  have "stacks_inv rules (step_leaves rules s c)" if "s \<in> S" for s
    using accept_chr_leaves(2) [OF assms(1), of s c] assms(2) that by (simp add: stacks_inv_def)
  then show ?thesis by (auto simp: stacks_inv_def step_stacks_def)
qed

lemma step_stacks_gen:
  assumes "advancing rules" and "stacks_inv rules S"
  shows "gen_stacks rules (step_stacks rules S c) w \<longleftrightarrow> gen_stacks rules S (c # w)"
proof -
  have "gen_stacks rules (step_leaves rules s c) w \<longleftrightarrow> gen rules (stack_syms rules s) (c # w)" if "s \<in> S" for s
    using accept_chr_leaves(3) [OF assms(1), of s c w] assms(2) that by (auto simp: stacks_inv_def)
  then show ?thesis by (auto simp: gen_stacks_def step_stacks_def)
qed

lemma accept_chars_ok:
  assumes "advancing rules" and "stacks_inv rules (set stacks)"
  shows "\<exists>r. accept_chars rules w stacks = Some (Done r) \<and> stacks_inv rules (set r)
    \<and> (\<forall>v. gen_stacks rules (set r) v \<longleftrightarrow> gen_stacks rules (set stacks) (w @ v))"
  using assms(2)
proof (induction w arbitrary: stacks)
  case (Cons c w)
  from accept_all_ok [OF assms(1) Cons.prems] obtain r where
    r: "accept_all rules stacks c = Some (Done r)" "set r = step_stacks rules (set stacks) c" by blast
  have "stacks_inv rules (set r)" using step_stacks_inv [OF assms(1) Cons.prems] r(2) by simp
  from Cons.IH [OF this] obtain q where
    "accept_chars rules w r = Some (Done q)" "stacks_inv rules (set q)"
    "\<forall>v. gen_stacks rules (set q) v \<longleftrightarrow> gen_stacks rules (set r) (w @ v)" by blast
  with r step_stacks_gen [OF assms(1) Cons.prems] show ?case by (simp add: accept_chars_def)
qed (simp add: accept_chars_def)

lemma empty_stack_gen:
  assumes "stacks_inv rules S"
  shows "gen_stacks rules S [] \<longleftrightarrow> [] \<in> S"
proof
  assume "gen_stacks rules S []"
  then obtain s where s: "s \<in> S" "gen rules (stack_syms rules s) []" by (auto simp: gen_stacks_def)
  with assms have v: "valid_stack rules s" "leaf rules s" by (auto simp: stacks_inv_def)
  from v s(2) have "s = []"
    by (cases rule: leaf_cases) (auto simp: syms_token syms_class)
  with s(1) show "[] \<in> S" by simp
next
  assume "[] \<in> S"
  then show "gen_stacks rules S []" unfolding gen_stacks_def by (intro bexI [of _ "[]"]) simp_all
qed

lemma initial_stacks_ok:
  assumes "advancing rules" and "start < length rules"
  shows "\<exists>r. initial_stacks rules start = Some (Done r) \<and> stacks_inv rules (set r)
    \<and> (\<forall>w. gen_stacks rules (set r) w \<longleftrightarrow> gen rules [Ref start] w)"
proof -
  have wf: "wf_rules rules" using assms(1) by (simp add: advancing_def)
  have "\<exists>r. for_run (\<lambda>j stacks. advance_stack rules (push_unless_end rules (start, j) []) stacks) js news
      = Some (Done r) \<and> stacks_inv rules (set r)
      \<and> (\<forall>w. gen_stacks rules (set r) w \<longleftrightarrow> gen_stacks rules (set news) w
          \<or> (\<exists>j \<in> set js. gen rules (syms (drop j (rules ! start))) w))"
    if "set js \<subseteq> set (alt_starts (rules ! start) 0)" "stacks_inv rules (set news)" for js news
    using that
  proof (induction js arbitrary: news)
    case (Cons j js)
    have ok: "ok_pos rules (start, j)" using Cons.prems by (intro ok_pos_alt wf assms(2)) auto
    have v: "valid_stack rules (push_unless_end rules (start, j) [])"
      using ok by (rule push_unless_end_valid) simp
    obtain r where r: "advance_stack rules (push_unless_end rules (start, j) []) news = Some (Done r)"
      "set r = set news \<union> leaves rules (push_unless_end rules (start, j) [])"
      using advance_stack_ok [OF assms(1) v, of news] by blast
    have inv: "stacks_inv rules (set r)" using r(2) Cons.prems(2) leaves_inv [OF wf v] by simp
    have sub: "set js \<subseteq> set (alt_starts (rules ! start) 0)" using Cons.prems(1) by simp
    have g: "gen_stacks rules (set r) w \<longleftrightarrow>
        gen_stacks rules (set news) w \<or> gen rules (syms (drop j (rules ! start))) w" for w
      using r(2) gen_stacks_leaves [OF assms(1) v, of w] stack_syms_push [OF ok, of "[]"]
      by (simp add: from_pos_def)
    from Cons.IH [OF sub inv] r(1) g show ?case by auto
  qed simp
  from this [OF order_refl, of "[]"] show ?thesis
    using gen_Ref_alts [of rules start "[]"] by (simp add: initial_stacks_def alts_def)
qed

lemma accept_language:
  assumes "advancing rules" and "start < length rules"
  shows "\<exists>s0 r. initial_stacks rules start = Some (Done s0) \<and> accept_chars rules w s0 = Some (Done r)
    \<and> ([] \<in> set r \<longleftrightarrow> gen rules [Ref start] w)
    \<and> (\<forall>v. gen_stacks rules (set r) v \<longleftrightarrow> gen rules [Ref start] (w @ v))"
proof -
  obtain s0 where s0: "initial_stacks rules start = Some (Done s0)" "stacks_inv rules (set s0)"
    "\<And>w. gen_stacks rules (set s0) w \<longleftrightarrow> gen rules [Ref start] w"
    using initial_stacks_ok [OF assms] by blast
  obtain r where r: "accept_chars rules w s0 = Some (Done r)" "stacks_inv rules (set r)"
    "\<And>v. gen_stacks rules (set r) v \<longleftrightarrow> gen_stacks rules (set s0) (w @ v)"
    using accept_chars_ok [OF assms(1) s0(2), of w] by blast
  have "[] \<in> set r \<longleftrightarrow> gen rules [Ref start] w"
    using empty_stack_gen [OF r(2)] r(3) [of "[]"] s0(3) [of w] by simp
  with s0 r show ?thesis by auto
qed

end
