(* ===== verification/Gr_Left.thy ===== *)
theory Gr_Left
  imports Gr_Lang
begin

section \<open>Left recursion and termination of the engine\<close>

text \<open>
  What \<open>llama_grammar_detect_left_recursion\<close> decides, and what it is for. It answers whether the
  relation "leads, at the left edge of an alternate, to" among the rules has a cycle, where the left
  edge passes over references to rules that have an empty alternate as written. What the engine needs
  is that no rule leads back to itself when the edge passes over every reference that produces the empty
  string: then every stack can be expanded. The two agree when every rule that produces the empty string
  has an empty alternate; a rule that is empty only through another rule may hide a left recursion from
  the check, and the engine may then run forever.
\<close>

subsection \<open>The left edge, as the code scans it and as the grammar has it\<close>

text \<open>The references the second loop visits when every recursive call answers no.\<close>

fun left_refs :: "(nat \<Rightarrow> bool) \<Rightarrow> grammar_rule \<Rightarrow> bool \<Rightarrow> nat list" where
  "left_refs d [] recurse = []"
| "left_refs d (e # es) recurse =
     (if el_type e = GRE_RULE_REF \<and> recurse
      then unat (el_value e) # left_refs d es (d (unat (el_value e)))
      else left_refs d es (is_end_of_sequence e))"

text \<open>The references at the left edge of a sequence of symbols.\<close>

fun edge :: "(nat \<Rightarrow> bool) \<Rightarrow> gsym list \<Rightarrow> nat list" where
  "edge d (Ref r # ss) = r # (if d r then edge d ss else [])"
| "edge d ss = []"

definition to_end :: "grammar_rule \<Rightarrow> nat" where
  "to_end es = length (takeWhile (\<lambda>e. \<not> is_end_of_sequence e) es)"

lemma to_end_simps [simp]:
  "to_end [] = 0"
  "is_end_of_sequence e \<Longrightarrow> to_end (e # es) = 0"
  "\<not> is_end_of_sequence e \<Longrightarrow> to_end (e # es) = Suc (to_end es)"
  by (simp_all add: to_end_def)

lemma left_refs_False: "left_refs d es False = left_refs d (drop (Suc (to_end es)) es) True"
proof (induction es)
  case (Cons e es)
  then show ?case by (cases "is_end_of_sequence e") auto
qed simp

lemma left_refs_True:
  "set (left_refs d es True) = set (edge d (syms es)) \<union> set (left_refs d es False)"
proof (induction es rule: syms.induct)
  case (2 e es)
  show ?case
  proof (cases "el_type e = GRE_RULE_REF")
    case True
    then have "\<not> is_end_of_sequence e" by (simp add: is_end_of_sequence_def is_end_type_def)
    with True 2 show ?thesis by (cases "d (unat (el_value e))") auto
  next
    case False
    then show ?thesis by simp
  qed
qed simp

lemma wf_from_last:
  "wf_from st es \<Longrightarrow> type_at es (to_end es) \<noteq> GRE_ALT \<Longrightarrow> drop (Suc (to_end es)) es = []"
  by (induction st es rule: wf_from.induct)
    (auto simp: to_end_def is_end_of_sequence_def is_end_type_def split: gretype.splits)

lemma scan_to_end_alt: "scan_to_end es i = i + to_end (drop i es)"
  by (simp add: scan_to_end_def to_end_def)

lemma left_refs_alts:
  assumes "wf_from 0 (drop i es)"
  shows "set (left_refs d (drop i es) True) =
    (\<Union>j \<in> set (alt_starts es i). set (edge d (syms (drop j es))))"
  using assms
proof (induction es i rule: alt_starts.induct)
  case (1 es i)
  define k where "k = scan_to_end es i"
  have lf: "left_refs d (drop i es) False = left_refs d (drop (Suc k) es) True"
    by (subst left_refs_False) (simp add: k_def scan_to_end_alt add.commute)
  have as: "alt_starts es i = i # (if type_at es k = GRE_ALT then alt_starts es (Suc k) else [])"
    by (subst alt_starts.simps) (simp add: k_def Let_def)
  show ?case
  proof (cases "type_at es k = GRE_ALT")
    case True
    have "Suc k \<in> set (alt_starts es i)"
      using True by (simp add: as alt_starts.simps [of es "Suc k"])
    then have "wf_from 0 (drop (Suc k) es)" by (rule alt_starts_wf [OF "1.prems"])
    with 1 True show ?thesis
      unfolding left_refs_True [of d "drop i es"] lf as by (simp add: k_def)
  next
    case False
    have "type_at (drop i es) (to_end (drop i es)) = type_at es k"
      by (auto simp: type_at_def k_def scan_to_end_alt)
    then have "drop (Suc k) es = []"
      using wf_from_last [OF "1.prems"] False by (simp add: k_def scan_to_end_alt add.commute)
    with False show ?thesis unfolding left_refs_True [of d "drop i es"] lf as by simp
  qed
qed

lemma may_be_empty_False:
  "may_be_empty_scan es False = may_be_empty_scan (drop (Suc (to_end es)) es) True"
proof (induction es)
  case (Cons e es)
  then show ?case by (cases "is_end_of_sequence e") auto
qed simp

lemma may_be_empty_True:
  "es \<noteq> [] \<Longrightarrow> may_be_empty_scan es True = (syms es = [] \<or> may_be_empty_scan es False)"
  by (cases es) auto

lemma may_be_empty_alts:
  assumes "wf_from 0 (drop i es)"
  shows "may_be_empty_scan (drop i es) True = (\<exists>j \<in> set (alt_starts es i). syms (drop j es) = [])"
  using assms
proof (induction es i rule: alt_starts.induct)
  case (1 es i)
  define k where "k = scan_to_end es i"
  have ne: "drop i es \<noteq> []" using "1.prems" by (cases "drop i es") auto
  have lf: "may_be_empty_scan (drop i es) False = may_be_empty_scan (drop (Suc k) es) True"
    by (subst may_be_empty_False) (simp add: k_def scan_to_end_alt add.commute)
  have as: "alt_starts es i = i # (if type_at es k = GRE_ALT then alt_starts es (Suc k) else [])"
    by (subst alt_starts.simps) (simp add: k_def Let_def)
  show ?case
  proof (cases "type_at es k = GRE_ALT")
    case True
    have "Suc k \<in> set (alt_starts es i)"
      using True by (simp add: as alt_starts.simps [of es "Suc k"])
    then have "wf_from 0 (drop (Suc k) es)" by (rule alt_starts_wf [OF "1.prems"])
    with 1 True show ?thesis
      unfolding may_be_empty_True [OF ne] lf as by (simp add: k_def)
  next
    case False
    have "type_at (drop i es) (to_end (drop i es)) = type_at es k"
      by (auto simp: type_at_def k_def scan_to_end_alt)
    then have "drop (Suc k) es = []"
      using wf_from_last [OF "1.prems"] False by (simp add: k_def scan_to_end_alt add.commute)
    with False show ?thesis unfolding may_be_empty_True [OF ne] lf as by simp
  qed
qed

text \<open>A rule with an empty alternate as written, and the relation the check is about.\<close>

definition empty_alt :: "grammar_rules \<Rightarrow> nat \<Rightarrow> bool" where
  "empty_alt rules r \<longleftrightarrow> may_be_empty_scan (rules ! r) True"

definition left_edge :: "grammar_rules \<Rightarrow> nat \<Rightarrow> nat \<Rightarrow> bool" where
  "left_edge rules r r' \<longleftrightarrow> r < length rules \<and> r' \<in> set (left_refs (empty_alt rules) (rules ! r) True)"

lemma wf_rules_nth: "wf_rules rules \<Longrightarrow> r < length rules \<Longrightarrow> wf_from 0 (rules ! r)"
  by (simp add: wf_rules_def)

lemma empty_alt_alts:
  assumes "wf_rules rules" and "r < length rules"
  shows "empty_alt rules r \<longleftrightarrow> [] \<in> set (alts rules r)"
proof -
  have "empty_alt rules r \<longleftrightarrow> (\<exists>j \<in> set (alt_starts (rules ! r) 0). syms (drop j (rules ! r)) = [])"
    using may_be_empty_alts [of 0 "rules ! r"] wf_rules_nth [OF assms] by (simp add: empty_alt_def)
  then show ?thesis unfolding alts_def set_map image_iff by metis
qed

lemma left_edge_alts:
  assumes "wf_rules rules" and "r < length rules"
  shows "left_edge rules r r' \<longleftrightarrow> (\<exists>alt \<in> set (alts rules r). r' \<in> set (edge (empty_alt rules) alt))"
  using left_refs_alts [of 0 "rules ! r" "empty_alt rules"] wf_rules_nth [OF assms] assms(2)
  by (simp add: left_edge_def alts_def)

lemma left_refs_set: "r \<in> set (left_refs d es b) \<Longrightarrow> \<exists>e \<in> set es. el_type e = GRE_RULE_REF \<and> r = unat (el_value e)"
  by (induction es arbitrary: b) (auto split: if_splits)

lemma left_edge_less: "wf_rules rules \<Longrightarrow> left_edge rules r r' \<Longrightarrow> r' < length rules"
  by (auto simp: left_edge_def wf_rules_def dest!: left_refs_set)

subsection \<open>What the check decides\<close>

definition grounded :: "grammar_rules \<Rightarrow> nat \<Rightarrow> bool" where
  "grounded rules = Wellfounded.accp (\<lambda>r' r. left_edge rules r r')"

definition lr_ok :: "grammar_rules \<Rightarrow> lr_state \<Rightarrow> bool" where
  "lr_ok rules st \<longleftrightarrow> length (rules_visited st) = length rules
     \<and> length (rules_in_progress st) = length rules \<and> length (rules_may_be_empty st) = length rules
     \<and> (\<forall>r < length rules. (rules_may_be_empty st ! r \<longrightarrow> empty_alt rules r)
          \<and> (rules_visited st ! r \<longrightarrow> grounded rules r))"

definition open_rules :: "lr_state \<Rightarrow> nat" where
  "open_rules st = length (filter Not (rules_in_progress st))"

definition detect_post :: "grammar_rules \<Rightarrow> nat \<Rightarrow> lr_state \<Rightarrow> bool \<times> lr_state \<Rightarrow> bool" where
  "detect_post rules i st res \<longleftrightarrow> (case res of (found, st') \<Rightarrow>
     if found then \<exists>r. (left_edge rules)\<^sup>+\<^sup>+ r r
     else lr_ok rules st' \<and> rules_in_progress st' = rules_in_progress st \<and> grounded rules i
       \<and> rules_may_be_empty st' ! i = empty_alt rules i
       \<and> (\<forall>r. rules_may_be_empty st ! r \<longrightarrow> rules_may_be_empty st' ! r))"

lemma open_rules_close:
  assumes "i < length (rules_in_progress st)" and "\<not> rules_in_progress st ! i"
  shows "length (filter Not ((rules_in_progress st)[i := True])) < open_rules st"
proof -
  have "filter Not (xs[i := True]) = filter Not (take i xs) @ filter Not (drop (Suc i) xs)"
    "filter Not xs = filter Not (take i xs) @ False # filter Not (drop (Suc i) xs)"
    if "i < length xs" "\<not> xs ! i" for xs :: "bool list"
    using that id_take_nth_drop [OF that(1)] by (simp_all add: upd_conv_take_nth_drop)
      (metis filter.simps(2) filter_append)
  from this [OF assms] show ?thesis by (simp add: open_rules_def)
qed

lemma left_refs_loop_post:
  assumes d: "\<And>r st. r \<in> R \<Longrightarrow> lr_ok rules st \<Longrightarrow> rules_in_progress st = ip \<Longrightarrow>
      \<exists>res. d r st = Some res \<and> detect_post rules r st res"
    and R: "set (left_refs (empty_alt rules) es b) \<subseteq> R"
    and st: "lr_ok rules st" "rules_in_progress st = ip"
  shows "\<exists>found st'. left_refs_loop d es b st = Some (found, st') \<and>
    (if found then \<exists>r. (left_edge rules)\<^sup>+\<^sup>+ r r
     else lr_ok rules st' \<and> rules_in_progress st' = ip
       \<and> (\<forall>r \<in> set (left_refs (empty_alt rules) es b). grounded rules r)
       \<and> (\<forall>r. rules_may_be_empty st ! r \<longrightarrow> rules_may_be_empty st' ! r))"
  using R st
proof (induction es arbitrary: b st)
  case (Cons e es)
  show ?case
  proof (cases "el_type e = GRE_RULE_REF \<and> b")
    case True
    let ?r = "unat (el_value e)"
    from True Cons.prems(1) have r: "?r \<in> R"
      and sub: "set (left_refs (empty_alt rules) es (empty_alt rules ?r)) \<subseteq> R" by auto
    obtain found st1 where 1: "d ?r st = Some (found, st1)" "detect_post rules ?r st (found, st1)"
      using d [OF r Cons.prems(2,3)] by auto
    show ?thesis
    proof (cases found)
      case True
      with 1 \<open>el_type e = _ \<and> b\<close> show ?thesis
        by (auto simp: detect_post_def intro: exI [of _ True])
    next
      case False
      with 1(2) Cons.prems(3) have st1: "lr_ok rules st1" "rules_in_progress st1 = ip" "grounded rules ?r"
        "rules_may_be_empty st1 ! ?r = empty_alt rules ?r"
        "\<forall>r. rules_may_be_empty st ! r \<longrightarrow> rules_may_be_empty st1 ! r"
        by (simp_all add: detect_post_def)
      obtain f2 st2 where 2: "left_refs_loop d es (empty_alt rules ?r) st1 = Some (f2, st2)"
        "if f2 then \<exists>r. (left_edge rules)\<^sup>+\<^sup>+ r r
         else lr_ok rules st2 \<and> rules_in_progress st2 = ip
           \<and> (\<forall>r \<in> set (left_refs (empty_alt rules) es (empty_alt rules ?r)). grounded rules r)
           \<and> (\<forall>r. rules_may_be_empty st1 ! r \<longrightarrow> rules_may_be_empty st2 ! r)"
        using Cons.IH [OF sub st1(1,2)] by blast
      have "left_refs_loop d (e # es) b st = Some (f2, st2)"
        using 1(1) False True st1(4) 2(1) by simp
      with 2(2) True st1(3,5) show ?thesis
        by (intro exI [of _ f2] exI [of _ st2]) (cases f2, simp_all)
    qed
  next
    case False
    then have eq: "left_refs_loop d (e # es) b st = left_refs_loop d es (is_end_of_sequence e) st"
      "left_refs (empty_alt rules) (e # es) b = left_refs (empty_alt rules) es (is_end_of_sequence e)"
      by auto
    show ?thesis
      unfolding eq by (rule Cons.IH) (use Cons.prems eq in simp_all)
  qed
qed auto

lemma detect_ok:
  assumes wf: "wf_rules rules"
  shows "i < length rules \<Longrightarrow> lr_ok rules st \<Longrightarrow> open_rules st < fuel \<Longrightarrow>
    (\<And>p. p < length rules \<Longrightarrow> rules_in_progress st ! p \<Longrightarrow> (left_edge rules)\<^sup>+\<^sup>+ p i) \<Longrightarrow>
    \<exists>res. detect_left_recursion fuel rules i st = Some res \<and> detect_post rules i st res"
proof (induction fuel arbitrary: i st)
  case (Suc fuel)
  show ?case
  proof (cases "rules_in_progress st ! i")
    case True
    with Suc.prems show ?thesis by (auto simp: detect_post_def)
  next
    case False
    define st1 where "st1 = st\<lparr>rules_in_progress := (rules_in_progress st)[i := True],
       rules_may_be_empty := (if may_be_empty_scan (rules ! i) True
         then (rules_may_be_empty st)[i := True] else rules_may_be_empty st)\<rparr>"
    have len: "i < length (rules_in_progress st)" "i < length (rules_may_be_empty st)"
      using Suc.prems(1,2) by (simp_all add: lr_ok_def)
    have ok1: "lr_ok rules st1"
      using Suc.prems(1,2) by (auto simp: lr_ok_def st1_def empty_alt_def nth_list_update)
    have flags1: "\<forall>r. rules_may_be_empty st ! r \<longrightarrow> rules_may_be_empty st1 ! r"
      "empty_alt rules i \<longrightarrow> rules_may_be_empty st1 ! i"
      using len by (auto simp: st1_def empty_alt_def nth_list_update_if)
    have child: "\<exists>res. detect_left_recursion fuel rules r s = Some res \<and> detect_post rules r s res"
      if "r \<in> {r. left_edge rules i r}" "lr_ok rules s" "rules_in_progress s = rules_in_progress st1" for r s
    proof (rule Suc.IH)
      show "r < length rules" using that(1) left_edge_less [OF wf] by simp
      show "lr_ok rules s" by fact
      show "open_rules s < fuel"
        using open_rules_close [OF len(1) False] that(3) Suc.prems(3) by (simp add: open_rules_def st1_def)
      show "(left_edge rules)\<^sup>+\<^sup>+ p r" if p: "p < length rules" "rules_in_progress s ! p" for p
      proof (cases "p = i")
        case True
        then show ?thesis using \<open>r \<in> _\<close> by auto
      next
        case False
        then have "(left_edge rules)\<^sup>+\<^sup>+ p i"
          using p Suc.prems(4) \<open>rules_in_progress s = _\<close> by (simp add: st1_def)
        with \<open>r \<in> _\<close> show ?thesis by auto
      qed
    qed
    have sub: "set (left_refs (empty_alt rules) (rules ! i) True) \<subseteq> {r. left_edge rules i r}"
      using Suc.prems(1) by (auto simp: left_edge_def)
    obtain found st2 where 2: "left_refs_loop (detect_left_recursion fuel rules) (rules ! i) True st1 = Some (found, st2)"
      "if found then \<exists>r. (left_edge rules)\<^sup>+\<^sup>+ r r
       else lr_ok rules st2 \<and> rules_in_progress st2 = rules_in_progress st1
         \<and> (\<forall>r \<in> set (left_refs (empty_alt rules) (rules ! i) True). grounded rules r)
         \<and> (\<forall>r. rules_may_be_empty st1 ! r \<longrightarrow> rules_may_be_empty st2 ! r)"
      using left_refs_loop_post [OF child sub ok1 refl] by blast
    show ?thesis
    proof (cases found)
      case True
      with 2 False Suc.prems(1) show ?thesis
        by (auto simp: st1_def [symmetric] Let_def detect_post_def)
    next
      case nf: False
      with 2(2) have st2: "lr_ok rules st2" "rules_in_progress st2 = rules_in_progress st1"
        "\<forall>r. left_edge rules i r \<longrightarrow> grounded rules r"
        "\<forall>r. rules_may_be_empty st1 ! r \<longrightarrow> rules_may_be_empty st2 ! r"
        by (auto simp: left_edge_def)
      have gr: "grounded rules i" using st2(3) by (auto simp: grounded_def intro: accp.accI)
      have ip: "(rules_in_progress st2)[i := False] = rules_in_progress st"
        using st2(2) False by (simp add: st1_def) (metis list_update_id)
      have fl: "rules_may_be_empty st2 ! i = empty_alt rules i"
        using flags1(2) st2(1,4) Suc.prems(1) by (auto simp: lr_ok_def)
      define st3 where "st3 = st2\<lparr>rules_in_progress := (rules_in_progress st2)[i := False],
        rules_visited := (rules_visited st2)[i := True]\<rparr>"
      have "lr_ok rules st3"
        using st2(1) gr Suc.prems(1) by (auto simp: lr_ok_def st3_def nth_list_update)
      then have "detect_post rules i st (False, st3)"
        using gr ip fl flags1(1) st2(4) by (simp add: detect_post_def st3_def)
      with 2(1) nf False Suc.prems(1) show ?thesis
        by (auto simp: st1_def [symmetric] st3_def [symmetric] Let_def)
    qed
  qed
qed simp

lemma check_rules_ok:
  assumes wf: "wf_rules rules"
  shows "set is \<subseteq> {..<length rules} \<Longrightarrow> lr_ok rules st \<Longrightarrow>
    rules_in_progress st = replicate (length rules) False \<Longrightarrow>
    \<exists>b. check_rules rules is st = Some b \<and>
      (if b then \<exists>r. (left_edge rules)\<^sup>+\<^sup>+ r r else \<forall>i \<in> set is. grounded rules i)"
proof (induction "is" arbitrary: st)
  case (Cons i "is")
  have sub: "set is \<subseteq> {..<length rules}" and i: "i < length rules" using Cons.prems(1) by auto
  show ?case
  proof (cases "rules_visited st ! i")
    case True
    then have "grounded rules i" using Cons.prems(2) i by (simp add: lr_ok_def)
    moreover obtain b where "check_rules rules is st = Some b"
      "if b then \<exists>r. (left_edge rules)\<^sup>+\<^sup>+ r r else \<forall>i \<in> set is. grounded rules i"
      using Cons.IH [OF sub Cons.prems(2,3)] by blast
    ultimately show ?thesis using True by (cases b) auto
  next
    case False
    have "open_rules st < Suc (length rules)" using Cons.prems(3) by (simp add: open_rules_def)
    then obtain found st' where d: "detect_left_recursion (Suc (length rules)) rules i st = Some (found, st')"
      "detect_post rules i st (found, st')"
      using detect_ok [OF wf i Cons.prems(2), of "Suc (length rules)"] Cons.prems(3) by auto
    show ?thesis
    proof (cases found)
      case True
      with d False show ?thesis by (auto simp: detect_post_def simp del: detect_left_recursion.simps)
    next
      case nf: False
      with d(2) Cons.prems(3) have st': "lr_ok rules st'"
        "rules_in_progress st' = replicate (length rules) False" "grounded rules i"
        by (simp_all add: detect_post_def)
      obtain b where "check_rules rules is st' = Some b"
        "if b then \<exists>r. (left_edge rules)\<^sup>+\<^sup>+ r r else \<forall>i \<in> set is. grounded rules i"
        using Cons.IH [OF sub st'(1,2)] by blast
      with d(1) nf False st'(3) show ?thesis
        by (cases b) (auto simp del: detect_left_recursion.simps)
    qed
  qed
qed auto

lemma grounded_acyclic:
  assumes "grounded rules r"
  shows "\<not> (left_edge rules)\<^sup>+\<^sup>+ r r"
  using assms unfolding grounded_def
proof (induction rule: accp.induct)
  case (accI r)
  show ?case
  proof
    assume c: "(left_edge rules)\<^sup>+\<^sup>+ r r"
    then obtain s where s: "left_edge rules r s" "(left_edge rules)\<^sup>*\<^sup>* s r"
      by (auto dest: tranclpD)
    have "(left_edge rules)\<^sup>+\<^sup>+ s s"
      by (rule rtranclp_into_tranclp1 [OF s(2,1)])
    with accI s(1) show False by blast
  qed
qed

lemma has_left_recursion_cases:
  assumes "wf_rules rules"
  obtains (recursive) r where "has_left_recursion rules = Some True" "(left_edge rules)\<^sup>+\<^sup>+ r r"
  | (grounded) "has_left_recursion rules = Some False" "\<forall>r < length rules. grounded rules r"
proof -
  have ok: "lr_ok rules (lr_start (length rules))" by (simp add: lr_ok_def lr_start_def)
  have sub: "set [0..<length rules] \<subseteq> {..<length rules}" by auto
  have "\<exists>b. has_left_recursion rules = Some b \<and>
      (if b then \<exists>r. (left_edge rules)\<^sup>+\<^sup>+ r r else \<forall>i \<in> set [0..<length rules]. grounded rules i)"
    unfolding has_left_recursion_def
    by (rule check_rules_ok [OF assms sub ok]) (simp add: lr_start_def)
  then obtain b where b: "has_left_recursion rules = Some b"
    "if b then \<exists>r. (left_edge rules)\<^sup>+\<^sup>+ r r else \<forall>i \<in> set [0..<length rules]. grounded rules i"
    by blast
  show ?thesis
  proof (cases b)
    case True
    with b show ?thesis using recursive by auto
  next
    case False
    then have "\<forall>r < length rules. grounded rules r" using b(2) by simp
    with False b(1) show ?thesis using that(2) by simp
  qed
qed

lemma has_left_recursion_decides:
  assumes "wf_rules rules"
  shows "has_left_recursion rules = Some (\<exists>r. (left_edge rules)\<^sup>+\<^sup>+ r r)"
  using assms
proof (cases rule: has_left_recursion_cases)
  case (recursive r)
  then show ?thesis by auto
next
  case grounded
  have "\<not> (left_edge rules)\<^sup>+\<^sup>+ r r" for r
  proof
    assume c: "(left_edge rules)\<^sup>+\<^sup>+ r r"
    then have "r < length rules" by (auto dest!: tranclpD simp: left_edge_def)
    with grounded(2) grounded_acyclic c show False by blast
  qed
  with grounded(1) show ?thesis by simp
qed

text \<open>C33. The left-recursion check always finishes, and it answers yes exactly if some rule leads back
  to itself along left edges, where an edge passes over a reference to a rule that has an empty
  alternate as written.\<close>

theorem has_left_recursion_exact:
  assumes "wf_rules rules"
  shows "has_left_recursion rules = Some (\<exists>r. (left_edge rules)\<^sup>+\<^sup>+ r r)"
  by (rule has_left_recursion_decides [OF assms])

subsection \<open>Termination\<close>

text \<open>Rewriting the leading reference of a sequence of symbols is what \<open>advance_stack\<close> does to the
  symbols of a stack.\<close>

inductive unfolds :: "grammar_rules \<Rightarrow> gsym list \<Rightarrow> gsym list \<Rightarrow> bool" for rules where
  "r < length rules \<Longrightarrow> alt \<in> set (alts rules r) \<Longrightarrow> unfolds rules (Ref r # ss) (alt @ ss)"

inductive_cases unfolds_ConsE: "unfolds rules (x # ss) t"
inductive_simps unfolds_Nil [simp]: "unfolds rules [] t"
inductive_simps unfolds_Tok [simp]: "unfolds rules (Tok b v # ss) t"
inductive_simps unfolds_Cls [simp]: "unfolds rules (Cls b rs # ss) t"
inductive_simps unfolds_Ref: "unfolds rules (Ref r # ss) t"

definition unfolding_ends :: "grammar_rules \<Rightarrow> gsym list \<Rightarrow> bool" where
  "unfolding_ends rules = Wellfounded.accp (\<lambda>t s. unfolds rules s t)"

lemma unfolding_endsI: "(\<And>t. unfolds rules s t \<Longrightarrow> unfolding_ends rules t) \<Longrightarrow> unfolding_ends rules s"
  unfolding unfolding_ends_def by (rule accp.accI)

lemma unfolding_ends_stuck: "\<not> r < length rules \<Longrightarrow> unfolding_ends rules (Ref r # ss)"
  "unfolding_ends rules (Tok b v # ss)" "unfolding_ends rules (Cls b rs # ss)" "unfolding_ends rules []"
  by (rule unfolding_endsI, simp add: unfolds_Ref)+

lemma unfolding_ends_append:
  assumes "unfolding_ends rules xs" and "gen rules xs [] \<Longrightarrow> unfolding_ends rules ss"
  shows "unfolding_ends rules (xs @ ss)"
  using assms unfolding unfolding_ends_def [of rules]
proof (induction xs rule: accp.induct)
  case (accI xs)
  show ?case
  proof (cases xs)
    case Nil
    with accI.prems show ?thesis by simp
  next
    case (Cons x xs')
    show ?thesis
    proof (rule accp.accI)
      fix t assume "unfolds rules (xs @ ss) t"
      with Cons obtain r alt where t: "x = Ref r" "alt \<in> set (alts rules r)" "t = (alt @ xs') @ ss"
        "r < length rules"
        by (auto elim: unfolds_ConsE)
      have "unfolds rules xs (alt @ xs')" unfolding Cons t(1) by (rule unfolds.intros) fact+
      moreover have "gen rules xs []" if "gen rules (alt @ xs') []"
        using that t(2) unfolding Cons t(1) gen_Ref_alts by blast
      ultimately show "Wellfounded.accp (\<lambda>t s. unfolds rules s t) t"
        unfolding t(3) using accI by blast
    qed
  qed
qed

text \<open>Left recursion of the grammar as such: the left edge passes over every reference that produces the
  empty string, not only over those to a rule with an empty alternate as written.\<close>

definition corner :: "grammar_rules \<Rightarrow> nat \<Rightarrow> nat \<Rightarrow> bool" where
  "corner rules r r' \<longleftrightarrow> r < length rules \<and> (\<exists>alt \<in> set (alts rules r). r' \<in> set (edge (\<lambda>q. gen rules [Ref q] []) alt))"

definition left_recursive :: "grammar_rules \<Rightarrow> bool" where
  "left_recursive rules \<longleftrightarrow> (\<exists>r. (corner rules)\<^sup>+\<^sup>+ r r)"

lemma edge_mono:
  "(\<And>q. Ref q \<in> set ss \<Longrightarrow> d q \<Longrightarrow> d' q) \<Longrightarrow> set (edge d ss) \<subseteq> set (edge d' ss)"
  by (induction d ss rule: edge.induct) auto

lemma tranclp_sub: "R\<^sup>+\<^sup>+ x y \<Longrightarrow> (\<And>x y. R x y \<Longrightarrow> S x y) \<Longrightarrow> S\<^sup>+\<^sup>+ x y"
  by (induction rule: tranclp_induct) (auto intro: tranclp.intros)

lemma syms_refs: "Ref q \<in> set (syms es) \<Longrightarrow> \<exists>e \<in> set es. el_type e = GRE_RULE_REF \<and> q = unat (el_value e)"
  by (induction es rule: syms.induct) (auto split: if_splits prod.splits dest!: in_set_dropD)

lemma alts_refs:
  assumes "wf_rules rules" and "r < length rules" and "alt \<in> set (alts rules r)" and "Ref q \<in> set alt"
  shows "q < length rules"
proof -
  from assms(3) obtain j where "alt = syms (drop j (rules ! r))" by (auto simp: alts_def)
  with assms(4) syms_refs obtain e where "e \<in> set (rules ! r)" "el_type e = GRE_RULE_REF" "q = unat (el_value e)"
    by (blast dest: in_set_dropD)
  with assms(1,2) show ?thesis by (auto simp: wf_rules_def)
qed

lemma left_edge_corner:
  assumes "wf_rules rules" and "left_edge rules r r'"
  shows "corner rules r r'"
proof -
  have r: "r < length rules" using assms(2) by (simp add: left_edge_def)
  then obtain alt where alt: "alt \<in> set (alts rules r)" "r' \<in> set (edge (empty_alt rules) alt)"
    using left_edge_alts [OF assms(1)] assms(2) by blast
  have "gen rules [Ref q] []" if "Ref q \<in> set alt" "empty_alt rules q" for q
    using empty_alt_alts [OF assms(1) alts_refs [OF assms(1) r alt(1) that(1)]] that(2)
    by (force simp: gen_Ref_alts)
  with r alt show ?thesis
    using edge_mono [of alt "empty_alt rules" "\<lambda>q. gen rules [Ref q] []"] unfolding corner_def by blast
qed

lemma not_left_recursive_check:
  assumes "wf_rules rules" and "\<not> left_recursive rules"
  shows "has_left_recursion rules = Some False"
proof (rule has_left_recursion_cases [OF assms(1)])
  fix r assume "(left_edge rules)\<^sup>+\<^sup>+ r r"
  then have "(corner rules)\<^sup>+\<^sup>+ r r" by (rule tranclp_sub) (rule left_edge_corner [OF assms(1)])
  with assms(2) show ?thesis by (auto simp: left_recursive_def)
qed

lemma corner_accp:
  assumes "\<not> left_recursive rules"
  shows "Wellfounded.accp (\<lambda>r' r. corner rules r r') r"
proof -
  let ?R = "{(r', r). corner rules r r'}"
  have "?R \<subseteq> (\<Union>r < length rules. \<Union>alt \<in> set (alts rules r). set (edge (\<lambda>q. gen rules [Ref q] []) alt) \<times> {r})"
    by (auto simp: corner_def)
  moreover have "finite \<dots>" by auto
  ultimately have "finite ?R" by (rule finite_subset)
  moreover have "acyclic ?R"
  proof -
    have "(corner rules)\<^sup>+\<^sup>+ y x" if "(x, y) \<in> ?R\<^sup>+" for x y
      using that by (induction rule: trancl_induct) (auto intro: tranclp_into_tranclp2)
    then show ?thesis using assms unfolding acyclic_def left_recursive_def by blast
  qed
  ultimately have "wf ?R" by (rule finite_acyclic_wf)
  then have "wfP (\<lambda>r' r. corner rules r r')" by (simp add: wfp_def)
  then show ?thesis by (rule accp_wfpD)
qed

text \<open>A sufficient condition that speaks of the rules as written: every rule that produces the empty
  string says so in an empty alternate.\<close>

definition explicit_empty :: "grammar_rules \<Rightarrow> bool" where
  "explicit_empty rules \<longleftrightarrow> (\<forall>r < length rules. gen rules [Ref r] [] \<longrightarrow> [] \<in> set (alts rules r))"

lemma explicit_empty_recursive:
  assumes "wf_rules rules" and "explicit_empty rules" and "has_left_recursion rules = Some False"
  shows "\<not> left_recursive rules"
proof
  assume "left_recursive rules"
  then obtain r where "(corner rules)\<^sup>+\<^sup>+ r r" by (auto simp: left_recursive_def)
  moreover have "left_edge rules p q" if "corner rules p q" for p q
  proof -
    from that obtain alt where alt: "p < length rules" "alt \<in> set (alts rules p)"
      "q \<in> set (edge (\<lambda>q. gen rules [Ref q] []) alt)" by (auto simp: corner_def)
    have "set (edge (\<lambda>q. gen rules [Ref q] []) alt) \<subseteq> set (edge (empty_alt rules) alt)"
      using alts_refs [OF assms(1) alt(1,2)] assms(2) empty_alt_alts [OF assms(1)]
      by (intro edge_mono) (auto simp: explicit_empty_def)
    with alt show ?thesis using left_edge_alts [OF assms(1) alt(1)] by blast
  qed
  ultimately have "(left_edge rules)\<^sup>+\<^sup>+ r r" by (rule tranclp_sub)
  with has_left_recursion_decides [OF assms(1)] assms(3) show False by auto
qed

lemma unfolding_ends_edge:
  assumes "\<And>r. r \<in> set (edge (\<lambda>q. gen rules [Ref q] []) ss) \<Longrightarrow> unfolding_ends rules [Ref r]"
  shows "unfolding_ends rules ss"
  using assms
proof (induction "\<lambda>q. gen rules [Ref q] []" ss rule: edge.induct)
  case (1 r ss)
  have r: "unfolding_ends rules [Ref r]" using 1 by simp
  have "unfolding_ends rules ss" if "gen rules [Ref r] []" using that 1 by simp
  from unfolding_ends_append [OF r this] show ?case by simp
qed (simp_all add: unfolding_ends_stuck)

lemma unfolding_ends_ref:
  assumes "\<not> left_recursive rules"
  shows "unfolding_ends rules [Ref r]"
  using corner_accp [OF assms, of r]
proof (induction rule: accp.induct)
  case (accI r)
  show ?case
  proof (rule unfolding_endsI)
    fix t assume "unfolds rules [Ref r] t"
    then have t: "r < length rules" "t \<in> set (alts rules r)" by (auto elim: unfolds_ConsE)
    show "unfolding_ends rules t"
      by (rule unfolding_ends_edge) (use t accI.IH in \<open>auto simp: corner_def\<close>)
  qed
qed

lemma unfolding_ends_terminating:
  assumes "wf_rules rules" and "unfolding_ends rules (stack_syms rules s)" and "valid_stack rules s"
  shows "terminating rules s"
  using assms(2,3) unfolding unfolding_ends_def
proof (induction "stack_syms rules s" arbitrary: s rule: accp.induct)
  case accI
  show ?case
    unfolding terminating_def
  proof (rule accp.accI)
    fix t assume e: "expands rules s t"
    then obtain p rest where s: "s = p # rest" "el_type (elem_at rules p) = GRE_RULE_REF"
      "t \<in> set (next_stacks rules p rest)" by (auto simp: expands_def)
    have ok: "ok_pos rules p" using accI.prems s(1) by simp
    let ?r = "unat (el_value (elem_at rules p))"
    have rs: "stack_syms rules (p # rest) =
        Ref ?r # (syms (from_pos rules (shift_pos p 1)) @ stack_syms rules rest)"
      using syms_ref [OF ok s(2)] by simp
    have "stack_syms rules t \<in> set (map (stack_syms rules) (next_stacks rules p rest))"
      using s(3) by simp
    then have "unfolds rules (stack_syms rules s) (stack_syms rules t)"
      unfolding next_stacks_syms(2) [OF assms(1) accI.prems [unfolded s(1)] s(2) rs] s(1) rs
      using wf_rules_ref [OF assms(1) ok s(2)] by (auto intro: unfolds.intros)
    then have "terminating rules t"
      by (rule accI.hyps(2)) (auto intro: expands_valid [OF assms(1) accI.prems e])
    then show "Wellfounded.accp (\<lambda>t s. expands rules s t) t" by (simp add: terminating_def)
  qed
qed

lemma engine_advancing:
  assumes "wf_rules rules" and "\<not> left_recursive rules"
  shows "advancing rules"
proof -
  have "unfolding_ends rules ss" for ss by (rule unfolding_ends_edge) (rule unfolding_ends_ref [OF assms(2)])
  then show ?thesis
    using unfolding_ends_terminating [OF assms(1)] assms(1) by (simp add: advancing_def)
qed

text \<open>C7. The engine accepts exactly the language of the grammar. For well-formed rules without left
  recursion - no rule reaches itself at the left edge of its alternates, the edge passing over every
  reference that produces the empty string - the left-recursion check passes, and building the initial
  stacks of a rule and feeding the engine any string of characters returns: no abort, no endless loop.
  The stacks that remain contain the empty stack - the text may end here - exactly if the string is
  generated by the start rule, and they generate precisely the strings that complete the input to a
  sentence. Rules that pass the check are not enough: \<open>left_recursion_gap\<close> below.\<close>

theorem engine_language:
  assumes "wf_rules rules" and "\<not> left_recursive rules" and "start < length rules"
  shows "has_left_recursion rules = Some False
    \<and> (\<exists>s0 r. initial_stacks rules start = Some (Done s0) \<and> accept_chars rules w s0 = Some (Done r)
    \<and> ([] \<in> set r \<longleftrightarrow> gen rules [Ref start] w)
    \<and> (\<forall>v. gen_stacks rules (set r) v \<longleftrightarrow> gen rules [Ref start] (w @ v)))"
  using not_left_recursive_check [OF assms(1,2)] accept_language [OF engine_advancing [OF assms(1,2)] assms(3), of w]
  by blast

text \<open>\<open>list ::= "a" list | ""\<close> and \<open>root ::= list [b-c]\<close>.\<close>

definition sample_rules :: grammar_rules where
  "sample_rules =
     [[Elem GRE_CHAR 97, Elem GRE_RULE_REF 0, Elem GRE_ALT 0, Elem GRE_END 0],
      [Elem GRE_RULE_REF 0, Elem GRE_CHAR 98, Elem GRE_CHAR_RNG_UPPER 99, Elem GRE_END 0]]"

lemma sample_facts:
  "wf_rules sample_rules" "has_left_recursion sample_rules = Some False"
  "alts sample_rules 0 = [[Cls True [(97, 97)], Ref 0], []]"
  "alts sample_rules (Suc 0) = [[Ref 0, Cls True [(98, 99)]]]"
  "length sample_rules = 2"
proof -
  show "wf_rules sample_rules" by (simp add: wf_rules_def sample_rules_def)
  show "has_left_recursion sample_rules = Some False"
    "alts sample_rules 0 = [[Cls True [(97, 97)], Ref 0], []]"
    "alts sample_rules (Suc 0) = [[Ref 0, Cls True [(98, 99)]]]"
    "length sample_rules = 2"
    by code_simp+
qed

lemma gen_Cls_eval:
  "\<not> gen rules (Cls pos rs # ss) []"
  "gen rules (Cls pos rs # ss) (c # w) \<longleftrightarrow> in_ranges rs c = pos \<and> gen rules ss w"
  by auto

lemma not_left_recursiveI:
  assumes "\<And>r r'. corner rules r r' \<Longrightarrow> f r < (f r' :: nat)"
  shows "\<not> left_recursive rules"
proof -
  have "f r < f r'" if "(corner rules)\<^sup>+\<^sup>+ r r'" for r r'
    using that by (induction rule: tranclp_induct) (use assms in \<open>force+\<close>)
  then show ?thesis unfolding left_recursive_def by blast
qed

lemma sample_not_recursive: "\<not> left_recursive sample_rules"
proof (rule not_left_recursiveI [where f = "\<lambda>r. 1 - r"])
  show "1 - r < 1 - r'" if "corner sample_rules r r'" for r r'
  proof -
    from that have "r = 0 \<or> r = Suc 0" by (auto simp: corner_def sample_facts(5))
    with that show ?thesis by (auto simp: corner_def sample_facts(3,4) split: if_splits)
  qed
qed

text \<open>\<open>root ::= ws "b"\<close> with \<open>ws ::= [a]*\<close>, as the parser writes it: \<open>ws\<close> is empty only through the rule
  of the repetition.\<close>

definition ws_rules :: grammar_rules where
  "ws_rules =
     [[Elem GRE_RULE_REF 1, Elem GRE_CHAR 98, Elem GRE_END 0],
      [Elem GRE_RULE_REF 2, Elem GRE_END 0],
      [Elem GRE_CHAR 97, Elem GRE_RULE_REF 2, Elem GRE_ALT 0, Elem GRE_END 0]]"

lemma ws_facts:
  "wf_rules ws_rules" "length ws_rules = 3"
  "alts ws_rules 0 = [[Ref 1, Cls True [(98, 98)]]]" "alts ws_rules (Suc 0) = [[Ref 2]]"
  "alts ws_rules 2 = [[Cls True [(97, 97)], Ref 2], []]"
proof -
  show "wf_rules ws_rules" by (simp add: wf_rules_def ws_rules_def)
  show "length ws_rules = 3" "alts ws_rules 0 = [[Ref 1, Cls True [(98, 98)]]]"
    "alts ws_rules (Suc 0) = [[Ref 2]]" "alts ws_rules 2 = [[Cls True [(97, 97)], Ref 2], []]"
    by code_simp+
qed

lemma engine_language_witness:
  "\<exists>s0 r. initial_stacks ws_rules 0 = Some (Done s0)
    \<and> accept_chars ws_rules [97, 97, 98] s0 = Some (Done r)
    \<and> [] \<in> set r \<and> gen ws_rules [Ref 0] [97, 97, 98]"
proof -
  have g: "gen ws_rules [Ref 0] [97, 97, 98]"
    by (simp add: gen_Ref_alts ws_facts(3-5) in_ranges_def gen_Cls_eval numeral_eq_Suc [of num.One] del: gen_Cls_iff)
  have "r < r'" if "corner ws_rules r r'" for r r'
  proof -
    from that have "r = 0 \<or> r = Suc 0 \<or> r = 2" by (auto simp: corner_def ws_facts(2))
    with that show ?thesis by (auto simp: corner_def ws_facts(3-5) split: if_splits)
  qed
  then have "\<not> left_recursive ws_rules" by (rule not_left_recursiveI [where f = "\<lambda>r. r"])
  from engine_language [OF ws_facts(1) this, of 0 "[97, 97, 98]"] g
  show ?thesis by (auto simp: ws_facts(2))
qed

lemma has_left_recursion_exact_witness:
  "has_left_recursion sample_rules = Some (\<exists>r. (left_edge sample_rules)\<^sup>+\<^sup>+ r r)"
  by (rule has_left_recursion_exact) (rule sample_facts)

subsection \<open>What the check misses\<close>

text \<open>\<open>a ::= b a "x"\<close>, \<open>b ::= c\<close>, \<open>c ::= ""\<close>: rule 1 produces the empty string only through
  rule 2.\<close>

definition gap_rules :: grammar_rules where
  "gap_rules =
     [[Elem GRE_RULE_REF 1, Elem GRE_RULE_REF 0, Elem GRE_CHAR 120, Elem GRE_END 0],
      [Elem GRE_RULE_REF 2, Elem GRE_END 0],
      [Elem GRE_END 0]]"

text \<open>The stacks the work list goes through, each three of them one element higher.\<close>

definition gap_stack :: "nat \<Rightarrow> gstack" where
  "gap_stack m =
     (if m mod 3 = 0 then [(0, 0)] else if m mod 3 = 1 then [(1, 0), (0, 1)] else [(0, 1)])
     @ replicate (m div 3) (0, 2)"

lemma gap_stack_inj:
  assumes "gap_stack m = gap_stack n"
  shows "m = n"
proof -
  have h: "hd (gap_stack k) = (if k mod 3 = 0 then (0, 0) else if k mod 3 = 1 then (1, 0) else (0, 1))"
    "length (gap_stack k) = k div 3 + (if k mod 3 = 1 then 2 else 1)" for k
    by (simp_all add: gap_stack_def)
  have "m mod 3 = n mod 3"
    using h(1) [of m] h(1) [of n] assms by (auto split: if_splits; arith)
  moreover from this have "m div 3 = n div 3" using h(2) [of m] h(2) [of n] assms by simp
  ultimately show ?thesis by (metis div_mult_mod_eq)
qed

lemma gap_next:
  "next_stacks gap_rules (0, 0) rest = [(1, 0) # (0, 1) # rest]"
  "next_stacks gap_rules (1, 0) rest = [rest]"
  "next_stacks gap_rules (0, 1) rest = [(0, 0) # (0, 2) # rest]"
proof -
  have a: "alt_starts (gap_rules ! 0) 0 = [0]" "alt_starts (gap_rules ! Suc 0) 0 = [0]"
    "alt_starts (gap_rules ! Suc (Suc 0)) 0 = [0]" by code_simp+
  have v: "unat (el_value (elem_at gap_rules (0, 0))) = Suc 0"
    "unat (el_value (elem_at gap_rules (0, Suc 0))) = 0"
    "unat (el_value (elem_at gap_rules (Suc 0, 0))) = Suc (Suc 0)" by code_simp+
  have e: "\<not> is_end_of_sequence (elem_at gap_rules (0, 0))"
    "\<not> is_end_of_sequence (elem_at gap_rules (0, Suc 0))"
    "\<not> is_end_of_sequence (elem_at gap_rules (0, Suc (Suc 0)))"
    "\<not> is_end_of_sequence (elem_at gap_rules (Suc 0, 0))"
    "is_end_of_sequence (elem_at gap_rules (Suc 0, Suc 0))"
    "is_end_of_sequence (elem_at gap_rules (Suc (Suc 0), 0))" by code_simp+
  show "next_stacks gap_rules (0, 0) rest = [(1, 0) # (0, 1) # rest]"
    "next_stacks gap_rules (1, 0) rest = [rest]"
    "next_stacks gap_rules (0, 1) rest = [(0, 0) # (0, 2) # rest]"
    by (simp_all add: next_stacks_def push_unless_end_def shift_pos_def a v e numeral_2_eq_2)
qed

lemma gap_step:
  assumes "hd (gap_stack m) = p"
  shows "el_type (elem_at gap_rules p) = GRE_RULE_REF
    \<and> next_stacks gap_rules p (tl (gap_stack m)) = [gap_stack (Suc m)] \<and> gap_stack m = p # tl (gap_stack m)"
proof -
  define k where "k = m div 3"
  have "m = 3 * k \<or> m = 3 * k + 1 \<or> m = 3 * k + 2" unfolding k_def by presburger
  then consider "m = 3 * k" | "m = 3 * k + 1" | "m = 3 * k + 2" by blast
  then show ?thesis
  proof cases
    case 1
    then have "gap_stack m = (0, 0) # replicate k (0, 2)"
      "gap_stack (Suc m) = (1, 0) # (0, 1) # replicate k (0, 2)"
      by (simp_all add: gap_stack_def)
    then show ?thesis using assms by (auto simp: gap_next [simplified], simp add: elem_at_def gap_rules_def)
  next
    case 2
    then have "Suc m mod 3 = 2" "Suc m div 3 = k" "m mod 3 = 1" "m div 3 = k" by presburger+
    then have "gap_stack m = (1, 0) # (0, 1) # replicate k (0, 2)"
      "gap_stack (Suc m) = (0, 1) # replicate k (0, 2)"
      by (simp_all add: gap_stack_def)
    then show ?thesis using assms by (auto simp: gap_next [simplified], simp add: elem_at_def gap_rules_def)
  next
    case 3
    then have "Suc m = 3 * Suc k" by simp
    then have "gap_stack (Suc m) = (0, 0) # (0, 2) # replicate k (0, 2)"
      by (simp add: gap_stack_def del: mult_Suc_right)
    moreover have "m mod 3 = 2" "m div 3 = k" using 3 by presburger+
    then have "gap_stack m = (0, 1) # replicate k (0, 2)" by (simp add: gap_stack_def)
    ultimately show ?thesis using assms by (auto simp: gap_next [simplified], simp add: elem_at_def gap_rules_def)
  qed
qed

lemma gap_loop:
  assumes "advance_loop rules todo seen news = Some out"
  shows "rules = gap_rules \<longrightarrow> \<not> (\<exists>m. todo = [gap_stack m] \<and> set seen = gap_stack ` {..<m})"
proof (rule advance_loop.raw_induct [where P = "\<lambda>rules todo seen news out.
    rules = gap_rules \<longrightarrow> \<not> (\<exists>m. todo = [gap_stack m] \<and> set seen = gap_stack ` {..<m})", OF _ assms])
  fix f rules todo seen news out
  assume IH: "\<And>rules todo seen news out. f rules todo seen news = Some out \<Longrightarrow>
      rules = gap_rules \<longrightarrow> \<not> (\<exists>m. todo = [gap_stack m] \<and> set seen = gap_stack ` {..<m})"
    and eq: "(case todo of
        [] \<Rightarrow> Some (Done news)
      | s # todo' \<Rightarrow>
          if s \<in> set seen then f rules todo' seen news
          else (case s of
              [] \<Rightarrow> f rules todo' (s # seen) (add_new s news)
            | p # rest \<Rightarrow>
                (let t = el_type (elem_at rules p) in
                 if t = GRE_RULE_REF then
                   f rules (rev (next_stacks rules p rest) @ todo') (s # seen) news
                 else if is_terminal_type t then
                   f rules todo' (s # seen) (add_new s news)
                 else Some Abort))) = Some out"
  show "rules = gap_rules \<longrightarrow> \<not> (\<exists>m. todo = [gap_stack m] \<and> set seen = gap_stack ` {..<m})"
  proof (intro impI notI, elim exE conjE)
    fix m assume a: "rules = gap_rules" "todo = [gap_stack m]" "set seen = gap_stack ` {..<m}"
    define p where "p = hd (gap_stack m)"
    note st = gap_step [OF p_def [symmetric]]
    have new: "gap_stack m \<notin> set seen" using a(3) by (auto dest: gap_stack_inj)
    have "f gap_rules [gap_stack (Suc m)] (gap_stack m # seen) news = Some out"
      using eq st new unfolding a(1,2) by (cases "gap_stack m") auto
    moreover have "set (gap_stack m # seen) = gap_stack ` {..<Suc m}"
      using a(3) by (auto simp: lessThan_Suc)
    ultimately show False using IH by blast
  qed
qed

text \<open>C40. The check does not see every left recursion: these rules are well-formed and pass it, but
  building the initial stacks of rule 0 never returns, because its left edge passes over a rule that
  is empty only through another rule.\<close>

theorem left_recursion_gap:
  "wf_rules gap_rules \<and> has_left_recursion gap_rules = Some False \<and> initial_stacks gap_rules 0 = None"
proof (intro conjI)
  show "wf_rules gap_rules" by (simp add: wf_rules_def gap_rules_def)
  show "has_left_recursion gap_rules = Some False" by code_simp
  have a: "alt_starts (gap_rules ! 0) 0 = [0]" by code_simp
  have p: "push_unless_end gap_rules (0, 0) [] = gap_stack 0" by code_simp
  have "advance_loop gap_rules [gap_stack 0] [] [] \<noteq> Some out" for out
    using gap_loop [of gap_rules "[gap_stack 0]" "[]" "[]" out] by auto
  then have "advance_loop gap_rules [gap_stack 0] [] [] = None"
    by (cases "advance_loop gap_rules [gap_stack 0] [] []") auto
  then show "initial_stacks gap_rules 0 = None"
    by (simp add: initial_stacks_def a advance_stack_def p)
qed

end
