(* ===== verification/Gr_Sample.thy ===== *)
theory Gr_Sample
  imports Gr_Left
begin

section \<open>Constraining the sampler\<close>

text \<open>
  The grammar as the sampler uses it: \<open>llama_grammar_apply_impl\<close> masks the tokens the grammar
  rejects, \<open>llama_grammar_accept_impl\<close> feeds it the token that was sampled, and a lazy grammar first
  waits for a trigger and then replays what it has buffered. The vocabulary (\<open>piece\<close>, \<open>eog\<close>) is a
  parameter, and so is the search for a trigger (\<open>search\<close>), which \<open>pattern_find\<close> gives from the two
  functions of the regular expressions of the standard library. A function that may throw a
  \<open>std::runtime_error\<close> returns the state it leaves together with a flag that says whether it
  returned.
\<close>

subsection \<open>Rejecting candidates\<close>

text \<open>A candidate points into the zero-terminated code points of its token.\<close>

record grammar_candidate =
  c_index :: nat
  c_points :: "u32 list"
  c_at :: nat
  c_partial :: partial_utf8
  c_id :: token

definition current :: "grammar_candidate \<Rightarrow> u32" where
  "current t = c_points t ! c_at t"

definition rejects_at_end :: "grammar_candidate \<Rightarrow> bool" where
  "rejects_at_end t \<longleftrightarrow> current t \<noteq> 0 \<or> n_remain (c_partial t) \<noteq> 0"

definition rejects_at_token :: "grammar_element \<Rightarrow> grammar_candidate \<Rightarrow> bool" where
  "rejects_at_token e t =
     (if current t = 0 then n_remain (c_partial t) \<noteq> 0 else match_token e (c_id t) \<noteq> Done True)"

definition char_matches :: "grammar_rule \<Rightarrow> u32 \<Rightarrow> bool" where
  "char_matches es c = (case match_char es c of Done (found, _) \<Rightarrow> found | Abort \<Rightarrow> False)"

definition rejects_at_char :: "grammar_rule \<Rightarrow> grammar_candidate \<Rightarrow> bool" where
  "rejects_at_char es t =
     (if current t = 0
      then n_remain (c_partial t) \<noteq> 0 \<and> match_partial_char es (c_partial t) \<noteq> Done True
      else \<not> char_matches es (current t))"

text \<open>The recursion of \<open>llama_grammar_reject_candidates_for_stack\<close> through
  \<open>llama_grammar_reject_candidates\<close> reads one code point per level; \<open>fuel\<close> bounds its depth.\<close>

definition reject_candidates_by ::
    "(gstack \<Rightarrow> grammar_candidate list \<Rightarrow> grammar_candidate list run) \<Rightarrow> gstack list
     \<Rightarrow> grammar_candidate list \<Rightarrow> grammar_candidate list run" where
  "reject_candidates_by f stacks candidates =
     (if stacks = [] then Some Abort
      else if candidates = [] then Some (Done [])
      else for_run f stacks candidates)"

fun reject_for_stack ::
    "nat \<Rightarrow> grammar_rules \<Rightarrow> gstack \<Rightarrow> grammar_candidate list \<Rightarrow> grammar_candidate list run" where
  "reject_for_stack 0 rules stack candidates = None"
| "reject_for_stack (Suc fuel) rules stack candidates =
     (case stack of
        [] \<Rightarrow> Some (Done (filter rejects_at_end candidates))
      | p # rest \<Rightarrow>
          if is_token_type (el_type (elem_at rules p))
          then Some (Done (filter (rejects_at_token (elem_at rules p)) candidates))
          else (case match_char (from_pos rules p) 0 of
              Abort \<Rightarrow> Some Abort
            | Done (_, n) \<Rightarrow>
                (let es = from_pos rules p;
                     rejects = filter (rejects_at_char es) candidates;
                     following = map (\<lambda>t. t\<lparr>c_at := c_at t + 1\<rparr>)
                       (filter (\<lambda>t. current t \<noteq> 0 \<and> char_matches es (current t)) candidates)
                 in bind_run (advance_stack rules (push_unless_end rules (shift_pos p n) rest) [])
                      (\<lambda>stacks. bind_run (reject_candidates_by (reject_for_stack fuel rules) stacks following)
                        (\<lambda>more. Some (Done (rejects @ map (\<lambda>t. t\<lparr>c_at := c_at t - 1\<rparr>) more)))))))"

definition reject_fuel :: "grammar_candidate list \<Rightarrow> nat" where
  "reject_fuel candidates = Suc (sum_list (map (\<lambda>t. length (c_points t)) candidates))"

definition reject_candidates ::
    "grammar_rules \<Rightarrow> gstack list \<Rightarrow> grammar_candidate list \<Rightarrow> grammar_candidate list run" where
  "reject_candidates rules stacks candidates =
     reject_candidates_by (reject_for_stack (reject_fuel candidates) rules) stacks candidates"

subsection \<open>The grammar object\<close>

record 'pat grammar =
  g_rules :: grammar_rules
  g_stacks :: "gstack list"
  g_partial :: partial_utf8
  g_lazy :: bool
  g_awaiting :: bool
  g_buffer :: "byte list"
  g_positions :: "(token \<times> nat \<times> nat) list"
  g_trigger_tokens :: "token list"
  g_trigger_patterns :: "'pat list"

definition start_utf8 :: partial_utf8 where
  "start_utf8 = \<lparr>u_value = 0, n_remain = 0\<rparr>"

text \<open>\<open>llama_grammar_init_impl\<close> on parsed rules: \<open>None\<close> inside \<open>Done\<close> is the null pointer it
  returns for an unsupported grammar.\<close>

definition grammar_init_from ::
    "grammar_rules \<Rightarrow> nat \<Rightarrow> bool \<Rightarrow> 'pat list \<Rightarrow> token list \<Rightarrow> 'pat grammar option run" where
  "grammar_init_from rules start lazy patterns tokens =
     (case has_left_recursion rules of
        None \<Rightarrow> Some Abort
      | Some True \<Rightarrow> Some (Done None)
      | Some False \<Rightarrow> bind_run (initial_stacks rules start)
          (\<lambda>stacks. Some (Done (Some
             \<lparr>g_rules = rules, g_stacks = stacks, g_partial = start_utf8, g_lazy = lazy,
              g_awaiting = lazy, g_buffer = [], g_positions = [], g_trigger_tokens = tokens,
              g_trigger_patterns = patterns\<rparr>))))"

definition grammar_init :: "grammar_rules \<Rightarrow> nat \<Rightarrow> 'pat grammar option run" where
  "grammar_init rules start =
     (let vec_rules = map copy_rule rules in
      if \<not> refs_defined vec_rules then Some (Done None)
      else grammar_init_from vec_rules start False [] [])"

subsection \<open>Masking the candidates of the sampler\<close>

definition pre_masked :: "(token \<Rightarrow> byte list) \<Rightarrow> (token \<Rightarrow> bool) \<Rightarrow> bool \<Rightarrow> token \<Rightarrow> bool" where
  "pre_masked piece eog allow_eog tok =
     (if eog tok then \<not> allow_eog else piece tok = [] \<or> piece tok ! 0 = 0)"

definition candidate_of :: "(token \<Rightarrow> byte list) \<Rightarrow> partial_utf8 \<Rightarrow> nat \<Rightarrow> token \<Rightarrow> grammar_candidate" where
  "candidate_of piece partial i tok =
     (case decode_utf8 (piece tok) partial of (cps, q) \<Rightarrow>
        \<lparr>c_index = i, c_points = cps, c_at = 0, c_partial = q, c_id = tok\<rparr>)"

definition candidates_of ::
    "(token \<Rightarrow> byte list) \<Rightarrow> (token \<Rightarrow> bool) \<Rightarrow> partial_utf8 \<Rightarrow> token list \<Rightarrow> grammar_candidate list" where
  "candidates_of piece eog partial toks =
     map (\<lambda>(i, tok). candidate_of piece partial i tok)
       (filter (\<lambda>(i, tok). \<not> eog tok \<and> \<not> (piece tok = [] \<or> piece tok ! 0 = 0)) (enumerate 0 toks))"

definition apply_impl ::
    "(token \<Rightarrow> byte list) \<Rightarrow> (token \<Rightarrow> bool) \<Rightarrow> 'l \<Rightarrow> 'pat grammar \<Rightarrow> (token \<times> 'l) list
     \<Rightarrow> (token \<times> 'l) list run" where
  "apply_impl piece eog neg_inf g cur_p =
     (if g_awaiting g then Some (Done cur_p)
      else
        (let allow_eog = ([] \<in> set (g_stacks g));
             candidates = candidates_of piece eog (g_partial g) (map fst cur_p)
         in bind_run (reject_candidates (g_rules g) (g_stacks g) candidates)
              (\<lambda>rejects. Some (Done (map
                 (\<lambda>(i, tok, logit).
                    (tok, if pre_masked piece eog allow_eog tok \<or> i \<in> set (map c_index rejects)
                          then neg_inf else logit))
                 (enumerate 0 cur_p))))))"

subsection \<open>Accepting a token\<close>

text \<open>All code points of a piece on one stack; the loop stops when no stack is left.\<close>

fun accept_points :: "grammar_rules \<Rightarrow> u32 list \<Rightarrow> gstack list \<Rightarrow> gstack list run" where
  "accept_points rules [] stacks = Some (Done stacks)"
| "accept_points rules (c # cs) stacks =
     bind_run (accept_all rules stacks c)
       (\<lambda>stacks'. if stacks' = [] then Some (Done []) else accept_points rules cs stacks')"

definition accept_token_stack ::
    "grammar_rules \<Rightarrow> token \<Rightarrow> u32 list \<Rightarrow> gstack \<Rightarrow> gstack list \<Rightarrow> gstack list run" where
  "accept_token_stack rules tok code_points stack stacks_new =
     (case stack of
        [] \<Rightarrow> Some (Done stacks_new)
      | p # rest \<Rightarrow>
          if is_token_type (el_type (elem_at rules p)) then
            (if match_token (elem_at rules p) tok = Done True
             then advance_stack rules (push_unless_end rules (shift_pos p 1) rest) stacks_new
             else Some (Done stacks_new))
          else bind_run (accept_points rules (butlast code_points) [stack])
            (\<lambda>survivors. Some (Done (fold add_new survivors stacks_new))))"

definition accept_token :: "'pat grammar \<Rightarrow> token \<Rightarrow> byte list \<Rightarrow> ('pat grammar \<times> bool) run" where
  "accept_token g tok piece =
     (case decode_utf8 piece (g_partial g) of (code_points, partial) \<Rightarrow>
        bind_run (for_run (accept_token_stack (g_rules g) tok code_points) (g_stacks g) [])
          (\<lambda>stacks_new. Some (Done (g\<lparr>g_stacks := stacks_new, g_partial := partial\<rparr>, stacks_new \<noteq> []))))"

definition accept_str :: "'pat grammar \<Rightarrow> byte list \<Rightarrow> ('pat grammar \<times> bool) run" where
  "accept_str g piece =
     (case decode_utf8 piece (g_partial g) of (code_points, partial) \<Rightarrow>
        bind_run (accept_chars (g_rules g) (butlast code_points) (g_stacks g))
          (\<lambda>stacks. Some (Done (g\<lparr>g_stacks := stacks, g_partial := partial\<rparr>, stacks \<noteq> []))))"

text \<open>Replaying the buffered tokens that end behind \<open>start\<close>; an exception leaves the loop.\<close>

fun replay :: "byte list \<Rightarrow> nat \<Rightarrow> (token \<times> nat \<times> nat) list \<Rightarrow> 'pat grammar \<Rightarrow> ('pat grammar \<times> bool) run" where
  "replay buf start [] g = Some (Done (g, True))"
| "replay buf start ((tok, tok_start, tok_end) # ps) g =
     (if tok_end \<le> start then replay buf start ps g
      else
        (let piece_start = (if tok_start < start then start else tok_start);
             piece_len = tok_end - piece_start;
             tok_piece = take piece_len (drop piece_start buf)
         in bind_run (accept_token g tok tok_piece)
              (\<lambda>(g', ok). if ok then replay buf start ps g' else Some (Done (g', False)))))"

text \<open>A trigger pattern and \<open>llama_grammar_trigger_pattern::find\<close>. A match is the list of the positions and
  lengths of the whole match and of the capturing groups, an unmatched group having length zero;
  \<open>regex_match\<close> and \<open>regex_search\<close> are those of the standard library.\<close>

record 'rx trigger_pattern =
  tp_pattern :: "byte list"
  tp_regex :: 'rx

type_synonym smatch = "(nat \<times> nat) list"

definition find_start_pos :: "smatch \<Rightarrow> nat" where
  "find_start_pos m =
     (case find (\<lambda>(pos, len). len > 0) (tl m) of
        Some (pos, len) \<Rightarrow> pos
      | None \<Rightarrow> fst (hd m))"

definition pattern_find ::
    "('rx \<Rightarrow> byte list \<Rightarrow> smatch option) \<Rightarrow> ('rx \<Rightarrow> byte list \<Rightarrow> smatch option)
     \<Rightarrow> 'rx trigger_pattern \<Rightarrow> byte list \<Rightarrow> nat option" where
  "pattern_find regex_match regex_search p input =
     (case (if tp_pattern p \<noteq> [] \<and> hd (tp_pattern p) = 94 \<and> last (tp_pattern p) = 36
            then regex_match (tp_regex p) input else None) of
        Some m \<Rightarrow> Some (find_start_pos m)
      | None \<Rightarrow> (case regex_search (tp_regex p) input of
            Some m \<Rightarrow> Some (find_start_pos m)
          | None \<Rightarrow> None))"

text \<open>The start is that of the first group that matched something, else that of the match.\<close>

lemma find_start_pos_group:
  "\<forall>g \<in> set gs. snd g = 0 \<Longrightarrow> 0 < len \<Longrightarrow> find_start_pos (g0 # gs @ (pos, len) # rest) = pos"
  "\<forall>g \<in> set gs. snd g = 0 \<Longrightarrow> find_start_pos ((pos, len) # gs) = pos"
  by (induction gs) (auto simp: find_start_pos_def split: option.split)

fun try_patterns ::
    "('pat \<Rightarrow> byte list \<Rightarrow> nat option) \<Rightarrow> 'pat list \<Rightarrow> 'pat grammar \<Rightarrow> ('pat grammar \<times> bool) run" where
  "try_patterns search [] g = Some (Done (g, True))"
| "try_patterns search (q # qs) g =
     (case search q (g_buffer g) of
        None \<Rightarrow> try_patterns search qs g
      | Some start \<Rightarrow>
          bind_run (replay (g_buffer g) start (g_positions g) (g\<lparr>g_awaiting := False\<rparr>))
            (\<lambda>(g', ok). if ok then Some (Done (g'\<lparr>g_buffer := [], g_positions := []\<rparr>, True))
                        else Some (Done (g', False))))"

definition accept_impl ::
    "(token \<Rightarrow> byte list) \<Rightarrow> (token \<Rightarrow> bool) \<Rightarrow> ('pat \<Rightarrow> byte list \<Rightarrow> nat option)
     \<Rightarrow> 'pat grammar \<Rightarrow> token \<Rightarrow> ('pat grammar \<times> bool) run" where
  "accept_impl piece eog search g tok =
     (if g_awaiting g then
        (if tok \<in> set (g_trigger_tokens g)
         then accept_token (g\<lparr>g_awaiting := False, g_buffer := []\<rparr>) tok (piece tok)
         else
           (let n = length (g_buffer g);
                g' = g\<lparr>g_positions := g_positions g @ [(tok, n, n + length (piece tok))],
                       g_buffer := g_buffer g @ piece tok\<rparr>
            in try_patterns search (g_trigger_patterns g') g'))
      else if eog tok then
        (if [] \<in> set (g_stacks g) then Some (Done (g, True)) else Some Abort)
      else accept_token g tok (piece tok))"

text \<open>With the trigger patterns of the code.\<close>

definition accept_impl_regex ::
    "('rx \<Rightarrow> byte list \<Rightarrow> smatch option) \<Rightarrow> ('rx \<Rightarrow> byte list \<Rightarrow> smatch option)
     \<Rightarrow> (token \<Rightarrow> byte list) \<Rightarrow> (token \<Rightarrow> bool) \<Rightarrow> 'rx trigger_pattern grammar \<Rightarrow> token
     \<Rightarrow> ('rx trigger_pattern grammar \<times> bool) run" where
  "accept_impl_regex regex_match regex_search piece eog =
     accept_impl piece eog (pattern_find regex_match regex_search)"

subsection \<open>What a token does to a set of stacks\<close>

definition run_set :: "grammar_rules \<Rightarrow> gstack set \<Rightarrow> u32 list \<Rightarrow> gstack set" where
  "run_set rules S w = fold (\<lambda>c S. step_stacks rules S c) w S"

lemma run_set_simps [simp]:
  "run_set rules S [] = S" "run_set rules S (c # w) = run_set rules (step_stacks rules S c) w"
  by (simp_all add: run_set_def)

lemma run_set_Union: "run_set rules (\<Union>i \<in> I. A i) w = (\<Union>i \<in> I. run_set rules (A i) w)"
proof (induction w arbitrary: A)
  case (Cons c w)
  have "step_stacks rules (\<Union>i \<in> I. A i) c = (\<Union>i \<in> I. step_stacks rules (A i) c)"
    by (auto simp: step_stacks_def)
  then show ?case using Cons.IH by simp
qed simp

lemma run_set_singles: "run_set rules S w = (\<Union>s \<in> S. run_set rules {s} w)"
  using run_set_Union [of rules "\<lambda>s. {s}" S w] by simp

lemma run_set_empty [simp]: "run_set rules {} w = {}"
  using run_set_singles [of rules "{}" w] by simp

lemma run_set_inv:
  "advancing rules \<Longrightarrow> stacks_inv rules S \<Longrightarrow> stacks_inv rules (run_set rules S w)"
  by (induction w arbitrary: S) (auto intro: step_stacks_inv)

lemma accept_points_run:
  assumes "advancing rules" and "stacks_inv rules (set stacks)"
  shows "\<exists>r. accept_points rules w stacks = Some (Done r) \<and> set r = run_set rules (set stacks) w"
  using assms(2)
proof (induction w arbitrary: stacks)
  case (Cons c w)
  from accept_all_ok [OF assms(1) Cons.prems] obtain r where
    r: "accept_all rules stacks c = Some (Done r)" "set r = step_stacks rules (set stacks) c" by blast
  have "stacks_inv rules (set r)" using step_stacks_inv [OF assms(1) Cons.prems] r(2) by simp
  from Cons.IH [OF this] r show ?case by auto
qed simp

text \<open>The element on top of a stack is a token element that the token matches.\<close>

definition token_top :: "grammar_rules \<Rightarrow> token \<Rightarrow> gstack \<Rightarrow> bool" where
  "token_top rules tok s \<longleftrightarrow> s \<noteq> [] \<and> match_token (elem_at rules (hd s)) tok = Done True"

lemma token_top_type: "token_top rules tok s \<Longrightarrow> is_token_type (el_type (elem_at rules (hd s)))"
  by (simp add: token_top_def match_token_def is_token_type_def split: if_splits)

lemma step_leaves_token: "is_token_type (el_type (elem_at rules (hd s))) \<Longrightarrow> step_leaves rules s c = {}"
  by (cases s) (simp_all add: step_leaves_def Let_def split: prod.split)

lemma run_set_ex: "(\<exists>s \<in> run_set rules S w. P s) \<longleftrightarrow> (\<exists>x \<in> S. \<exists>s \<in> run_set rules {x} w. P s)"
  by (subst run_set_singles) blast

definition chars_of :: "grammar_candidate \<Rightarrow> u32 list" where
  "chars_of t = takeWhile (\<lambda>c. c \<noteq> 0) (drop (c_at t) (c_points t))"

definition candidate_ok :: "grammar_candidate \<Rightarrow> bool" where
  "candidate_ok t \<longleftrightarrow> c_at t < length (c_points t) \<and> last (c_points t) = 0"

text \<open>A stack may carry on a token that ends inside a UTF-8 sequence: some character the sequence can
  become matches.\<close>

definition open_ok :: "grammar_rules \<Rightarrow> partial_utf8 \<Rightarrow> gstack \<Rightarrow> bool" where
  "open_ok rules q s \<longleftrightarrow> n_remain q = 0 \<or> s \<noteq> [] \<and> match_partial_char (from_pos rules (hd s)) q = Done True"

text \<open>The token can be read from the stacks: a stack survives its characters and may carry it on, or its
  characters lead to a token element that it matches before they are used up.\<close>

definition readable :: "grammar_rules \<Rightarrow> gstack set \<Rightarrow> token \<Rightarrow> u32 list \<Rightarrow> partial_utf8 \<Rightarrow> bool" where
  "readable rules S tok w q \<longleftrightarrow> (\<exists>s \<in> run_set rules S w. open_ok rules q s)
     \<or> (\<exists>u v. w = u @ v \<and> v \<noteq> [] \<and> (\<exists>s \<in> run_set rules S u. token_top rules tok s))"

definition allowed :: "grammar_rules \<Rightarrow> gstack set \<Rightarrow> grammar_candidate \<Rightarrow> bool" where
  "allowed rules S t \<longleftrightarrow> readable rules S (c_id t) (chars_of t) (c_partial t)"

lemma readable_singles: "readable rules S tok w q \<longleftrightarrow> (\<exists>s \<in> S. readable rules {s} tok w q)"
  unfolding readable_def run_set_ex [of rules S] by blast

lemma allowed_singles: "allowed rules S t \<longleftrightarrow> (\<exists>s \<in> S. allowed rules {s} t)"
  unfolding allowed_def by (rule readable_singles)

lemma readable_simps:
  "readable rules S tok [] q \<longleftrightarrow> (\<exists>s \<in> S. open_ok rules q s)"
  "readable rules S tok (c # w) q \<longleftrightarrow>
     (\<exists>s \<in> S. token_top rules tok s) \<or> readable rules (step_stacks rules S c) tok w q"
proof -
  show "readable rules S tok [] q \<longleftrightarrow> (\<exists>s \<in> S. open_ok rules q s)" by (simp add: readable_def)
  have "(\<exists>u v. c # w = u @ v \<and> v \<noteq> [] \<and> Q u) \<longleftrightarrow> Q [] \<or> (\<exists>u v. w = u @ v \<and> v \<noteq> [] \<and> Q (c # u))" for Q
    by (auto simp: Cons_eq_append_conv)
  from this [of "\<lambda>u. \<exists>s \<in> run_set rules S u. token_top rules tok s"]
  show "readable rules S tok (c # w) q \<longleftrightarrow>
     (\<exists>s \<in> S. token_top rules tok s) \<or> readable rules (step_stacks rules S c) tok w q"
    unfolding readable_def by simp blast
qed

lemma readable_empty [simp]: "\<not> readable rules {} tok w q"
  by (simp add: readable_def)

lemma chars_of_current:
  assumes "candidate_ok t"
  shows "current t = 0 \<Longrightarrow> chars_of t = []"
    and "current t \<noteq> 0 \<Longrightarrow> chars_of t = current t # chars_of (t\<lparr>c_at := c_at t + 1\<rparr>)"
    and "current t \<noteq> 0 \<Longrightarrow> candidate_ok (t\<lparr>c_at := c_at t + 1\<rparr>)"
proof -
  have d: "drop (c_at t) (c_points t) = current t # drop (Suc (c_at t)) (c_points t)"
    using Cons_nth_drop_Suc [of "c_at t" "c_points t"] assms by (simp add: candidate_ok_def current_def)
  show "current t = 0 \<Longrightarrow> chars_of t = []"
    "current t \<noteq> 0 \<Longrightarrow> chars_of t = current t # chars_of (t\<lparr>c_at := c_at t + 1\<rparr>)"
    by (simp_all add: chars_of_def d)
  show "candidate_ok (t\<lparr>c_at := c_at t + 1\<rparr>)" if "current t \<noteq> 0"
  proof -
    have "c_points t \<noteq> []" using assms by (auto simp: candidate_ok_def)
    then have "c_at t \<noteq> length (c_points t) - 1"
      using that assms last_conv_nth [of "c_points t"] by (auto simp: candidate_ok_def current_def)
    then show ?thesis using assms by (auto simp: candidate_ok_def)
  qed
qed

lemma allowed_current:
  assumes "candidate_ok t"
  shows "current t = 0 \<Longrightarrow> allowed rules S t \<longleftrightarrow> (\<exists>s \<in> S. open_ok rules (c_partial t) s)"
    and "current t \<noteq> 0 \<Longrightarrow> allowed rules S t \<longleftrightarrow> (\<exists>s \<in> S. token_top rules (c_id t) s)
      \<or> allowed rules (step_stacks rules S (current t)) (t\<lparr>c_at := c_at t + 1\<rparr>)"
  using chars_of_current [OF assms] by (simp_all add: allowed_def readable_simps)

definition rejected_set :: "grammar_rules \<Rightarrow> gstack set \<Rightarrow> grammar_candidate list \<Rightarrow> grammar_candidate set" where
  "rejected_set rules S candidates = {t \<in> set candidates. \<not> allowed rules S t}"

lemma for_run_rejects:
  assumes "\<And>s cs. s \<in> set stacks \<Longrightarrow> set cs \<subseteq> C \<Longrightarrow>
      \<exists>r. f s cs = Some (Done r) \<and> set r = rejected_set rules {s} cs"
    and "set candidates \<subseteq> C"
  shows "\<exists>r. for_run f stacks candidates = Some (Done r) \<and>
    set r = {t \<in> set candidates. \<forall>s \<in> set stacks. \<not> allowed rules {s} t}"
  using assms
proof (induction stacks arbitrary: candidates)
  case (Cons s stacks)
  obtain r where r: "f s candidates = Some (Done r)" "set r = rejected_set rules {s} candidates"
    using Cons.prems(1) [of s candidates] Cons.prems(2) by auto
  have sub: "set r \<subseteq> C" using r(2) Cons.prems(2) by (auto simp: rejected_set_def)
  obtain q where "for_run f stacks r = Some (Done q)"
    "set q = {t \<in> set r. \<forall>s \<in> set stacks. \<not> allowed rules {s} t}"
    using Cons.IH [OF Cons.prems(1) sub] by auto
  with r show ?case by (auto simp: rejected_set_def)
qed simp

lemma reject_candidates_by_set:
  assumes "\<And>s cs. s \<in> set stacks \<Longrightarrow> set cs \<subseteq> set candidates \<Longrightarrow>
      \<exists>r. f s cs = Some (Done r) \<and> set r = rejected_set rules {s} cs"
    and "stacks \<noteq> []"
  shows "\<exists>r. reject_candidates_by f stacks candidates = Some (Done r) \<and>
    set r = rejected_set rules (set stacks) candidates"
proof (cases "candidates = []")
  case True
  with assms(2) show ?thesis by (simp add: reject_candidates_by_def rejected_set_def)
next
  case False
  obtain r where "for_run f stacks candidates = Some (Done r)"
    "set r = {t \<in> set candidates. \<forall>s \<in> set stacks. \<not> allowed rules {s} t}"
    using for_run_rejects [OF assms(1) order_refl] by blast
  with False assms(2) show ?thesis
    using allowed_singles [of rules "set stacks"] by (auto simp: reject_candidates_by_def rejected_set_def)
qed

lemma char_leaf_match:
  assumes "valid_stack rules (p # rest)" and "leaf rules (p # rest)"
    and nt: "\<not> is_token_type (el_type (elem_at rules p))"
  shows "match_char (from_pos rules p) c =
      Done (char_matches (from_pos rules p) c, snd (class_ranges (from_pos rules p)))"
    and "step_leaves rules (p # rest) c = (if char_matches (from_pos rules p) c
      then leaves rules (push_unless_end rules (shift_pos p (snd (class_ranges (from_pos rules p)))) rest) else {})"
    and "valid_stack rules (push_unless_end rules (shift_pos p (snd (class_ranges (from_pos rules p)))) rest)"
proof -
  have ok: "ok_pos rules p" "valid_stack rules rest" using assms(1) by auto
  have t: "el_type (elem_at rules p) \<in> {GRE_CHAR, GRE_CHAR_NOT, GRE_CHAR_ANY}"
    using assms by (auto simp: leaf_def is_terminal_type_def is_token_type_def)
  have t0: "type_at (from_pos rules p) 0 = el_type (elem_at rules p)"
    using ok_pos_Cons(1) [OF ok(1)] by simp
  have m: "match_char (from_pos rules p) c =
      Done (in_ranges (fst (class_ranges (from_pos rules p))) c = is_positive_char (el_type (elem_at rules p)),
        snd (class_ranges (from_pos rules p)))"
    using t by (auto simp: match_char_def t0 match_chars_ranges is_positive_char_def)
  show "match_char (from_pos rules p) c =
      Done (char_matches (from_pos rules p) c, snd (class_ranges (from_pos rules p)))"
    using m by (simp add: char_matches_def)
  show "step_leaves rules (p # rest) c = (if char_matches (from_pos rules p) c
      then leaves rules (push_unless_end rules (shift_pos p (snd (class_ranges (from_pos rules p)))) rest) else {})"
    using nt by (simp add: step_leaves_def char_matches_def m split: prod.splits)
  show "valid_stack rules (push_unless_end rules (shift_pos p (snd (class_ranges (from_pos rules p)))) rest)"
    by (rule push_unless_end_valid [OF ok_pos_class [OF ok(1) t] ok(2)])
qed

lemma image_filter_inverse:
  assumes "\<And>t. g (f t) = t"
  shows "g ` {u \<in> f ` A. P u} = {t \<in> A. P (f t)}"
proof -
  have "{u \<in> f ` A. P u} = f ` {t \<in> A. P (f t)}" by auto
  then show ?thesis by (simp add: image_image assms)
qed

lemma rejected_by:
  assumes "\<And>t. t \<in> set cs \<Longrightarrow> P t \<longleftrightarrow> \<not> allowed rules {s} t"
  shows "set (filter P cs) = rejected_set rules {s} cs"
  using assms by (auto simp: rejected_set_def)

lemma rejected_end:
  assumes "\<forall>t \<in> set cs. candidate_ok t"
  shows "set (filter rejects_at_end cs) = rejected_set rules {[]} cs"
proof (rule rejected_by)
  fix t assume "t \<in> set cs"
  then have ok: "candidate_ok t" using assms by blast
  have "step_stacks rules {[]} c = {}" for c by (simp add: step_stacks_def step_leaves_def)
  then show "rejects_at_end t \<longleftrightarrow> \<not> allowed rules {[]} t"
    using allowed_current [OF ok, of rules "{[]}"]
    by (cases "current t = 0") (auto simp: rejects_at_end_def open_ok_def token_top_def allowed_def)
qed

lemma rejected_token:
  assumes "\<forall>t \<in> set cs. candidate_ok t" and "is_token_type (el_type (elem_at rules p))" and "ok_pos rules p"
  shows "set (filter (rejects_at_token (elem_at rules p)) cs) = rejected_set rules {p # rest} cs"
proof (rule rejected_by)
  fix t assume "t \<in> set cs"
  then have ok: "candidate_ok t" using assms(1) by blast
  have "step_stacks rules {p # rest} c = {}" for c
    using step_leaves_token [of rules "p # rest" c] assms(2) by (simp add: step_stacks_def)
  moreover have "match_partial_char (from_pos rules p) q \<noteq> Done True" for q
    using ok_pos_Cons(1) [OF assms(3)] assms(2)
    by (auto simp: match_partial_char_def is_positive_char_def is_token_type_def Let_def)
  ultimately show "rejects_at_token (elem_at rules p) t \<longleftrightarrow> \<not> allowed rules {p # rest} t"
    using allowed_current [OF ok, of rules "{p # rest}"]
    by (cases "current t = 0") (auto simp: rejects_at_token_def open_ok_def token_top_def allowed_def)
qed

lemma reject_for_stack_set:
  assumes adv: "advancing rules"
  shows "stacks_inv rules {s} \<Longrightarrow> \<forall>t \<in> set cs. candidate_ok t \<and> length (chars_of t) < fuel \<Longrightarrow> 0 < fuel \<Longrightarrow>
    \<exists>r. reject_for_stack fuel rules s cs = Some (Done r) \<and> set r = rejected_set rules {s} cs"
proof (induction fuel arbitrary: s cs)
  case (Suc fuel)
  show ?case
  proof (cases s)
    case Nil
    then show ?thesis using rejected_end [of cs rules] Suc.prems(2) by simp
  next
    case (Cons p rest)
    have v: "valid_stack rules (p # rest)" "leaf rules (p # rest)"
      using Suc.prems(1) Cons by (simp_all add: stacks_inv_def)
    show ?thesis
    proof (cases "is_token_type (el_type (elem_at rules p))")
      case True
      then show ?thesis using rejected_token [of cs rules p rest] Suc.prems(2) v(1) Cons by simp
    next
      case nt: False
    note cm = char_leaf_match [OF v nt]
    define es where "es = from_pos rules p"
    define after where "after = push_unless_end rules (shift_pos p (snd (class_ranges es))) rest"
    define following where "following = map (\<lambda>t. t\<lparr>c_at := c_at t + 1\<rparr>)
      (filter (\<lambda>t. current t \<noteq> 0 \<and> char_matches es (current t)) cs)"
    obtain ns where ns: "advance_stack rules after [] = Some (Done ns)" "set ns = leaves rules after"
      using advance_stack_ok [OF adv, of after "[]"] cm(3) by (auto simp: after_def es_def)
    have ns_inv: "stacks_inv rules (set ns)"
      using leaves_inv [of rules after] adv cm(3) ns(2) by (simp add: after_def es_def advancing_def)
    have ns_ne: "ns \<noteq> []"
      using leaves_nonempty [of rules after] adv cm(3) ns(2) by (auto simp: after_def es_def advancing_def)
    have fol: "\<forall>t \<in> set following. candidate_ok t \<and> length (chars_of t) < fuel"
      using Suc.prems(2) chars_of_current(2,3) by (fastforce simp: following_def)
    have sub: "\<exists>r. reject_for_stack fuel rules u cands = Some (Done r) \<and> set r = rejected_set rules {u} cands"
      if "u \<in> set ns" "set cands \<subseteq> set following" "following \<noteq> []" for u cands
    proof (rule Suc.IH)
      show "stacks_inv rules {u}" using ns_inv that(1) by (simp add: stacks_inv_def)
      show "\<forall>t \<in> set cands. candidate_ok t \<and> length (chars_of t) < fuel" using fol that(2) by auto
      show "0 < fuel" using fol that(3) by (cases following) auto
    qed
    have "\<exists>more. reject_candidates_by (reject_for_stack fuel rules) ns following = Some (Done more)
        \<and> set more = rejected_set rules (set ns) following"
    proof (cases "following = []")
      case True
      with ns_ne show ?thesis by (simp add: reject_candidates_by_def rejected_set_def)
    next
      case False
      show ?thesis by (rule reject_candidates_by_set [OF _ ns_ne]) (rule sub [OF _ _ False])
    qed
    then obtain more where more: "reject_candidates_by (reject_for_stack fuel rules) ns following = Some (Done more)"
      "set more = rejected_set rules (set ns) following" by blast
    let ?r = "filter (rejects_at_char es) cs @ map (\<lambda>t. t\<lparr>c_at := c_at t - 1\<rparr>) more"
    have res: "reject_for_stack (Suc fuel) rules s cs = Some (Done ?r)"
      using Cons nt cm(1) [of 0] ns(1) more(1) by (simp add: Let_def es_def after_def following_def)
    have restored: "set (map (\<lambda>t. t\<lparr>c_at := c_at t - 1\<rparr>) more) =
        {t \<in> {t \<in> set cs. current t \<noteq> 0 \<and> char_matches es (current t)}. \<not> allowed rules (set ns) (t\<lparr>c_at := c_at t + 1\<rparr>)}"
      unfolding set_map more(2) rejected_set_def following_def set_filter
      by (rule image_filter_inverse) simp
    have "t \<in> set ?r \<longleftrightarrow> \<not> allowed rules {s} t" if t: "t \<in> set cs" for t
    proof (cases "current t = 0")
      case True
      then have "allowed rules {s} t \<longleftrightarrow> open_ok rules (c_partial t) s"
        using allowed_current(1) [of t rules "{s}"] Suc.prems(2) t by simp
      then show ?thesis
        unfolding set_append restored using True t Cons by (auto simp: rejects_at_char_def open_ok_def es_def)
    next
      case False
      have no: "\<not> token_top rules (c_id t) s" using nt token_top_type [of rules "c_id t" s] Cons by auto
      have st: "step_stacks rules {s} (current t) = (if char_matches es (current t) then set ns else {})"
        using cm(2) [of "current t"] Cons by (simp add: step_stacks_def ns(2) es_def after_def)
      have "allowed rules {s} t \<longleftrightarrow> char_matches es (current t) \<and> allowed rules (set ns) (t\<lparr>c_at := c_at t + 1\<rparr>)"
        using allowed_current(2) [of t rules "{s}"] Suc.prems(2) t False no by (simp add: st allowed_def)
      then show ?thesis
        unfolding set_append restored using False t by (auto simp: rejects_at_char_def)
    qed
    moreover have "set ?r \<subseteq> set cs" unfolding set_append restored by auto
    ultimately have "set ?r = rejected_set rules {s} cs" by (auto simp: rejected_set_def)
    with res show ?thesis by blast
    qed
  qed
qed simp

lemma reject_candidates_set:
  assumes "advancing rules" and "stacks_inv rules (set stacks)" and "stacks \<noteq> []"
    and "\<forall>t \<in> set cs. candidate_ok t"
  shows "\<exists>r. reject_candidates rules stacks cs = Some (Done r) \<and> set r = rejected_set rules (set stacks) cs"
  unfolding reject_candidates_def
proof (rule reject_candidates_by_set [OF _ assms(3)])
  fix s ds assume s: "s \<in> set stacks" and ds: "set ds \<subseteq> set cs"
  have "length (chars_of t) < reject_fuel cs" if "t \<in> set ds" for t
  proof -
    have "length (chars_of t) \<le> length (c_points t)"
      unfolding chars_of_def by (rule le_trans [OF length_takeWhile_le]) simp
    moreover have "length (c_points t) \<le> sum_list (map (\<lambda>t. length (c_points t)) cs)"
      using that ds by (intro member_le_sum_list) auto
    ultimately show ?thesis by (simp add: reject_fuel_def)
  qed
  with s ds assms(2,4) show "\<exists>r. reject_for_stack (reject_fuel cs) rules s ds = Some (Done r) \<and>
      set r = rejected_set rules {s} ds"
    by (intro reject_for_stack_set [OF assms(1)]) (auto simp: stacks_inv_def reject_fuel_def)
qed

subsection \<open>The tokens the grammar leaves to the sampler\<close>

definition grammar_inv :: "'pat grammar \<Rightarrow> bool" where
  "grammar_inv g \<longleftrightarrow> advancing (g_rules g)
     \<and> stacks_inv (g_rules g) (set (g_stacks g)) \<and> g_stacks g \<noteq> []"

text \<open>Every grammar that the constructor returns for well-formed rules without left recursion.\<close>

lemma initial_stacks_nonempty:
  assumes "advancing rules" and "start < length rules" and "initial_stacks rules start = Some (Done r)"
  shows "r \<noteq> []"
proof -
  have wf: "wf_rules rules" using assms(1) by (simp add: advancing_def)
  have "s \<noteq> []"
    if "for_run (\<lambda>j stacks. advance_stack rules (push_unless_end rules (start, j) []) stacks) js news = Some (Done s)"
      "set js \<subseteq> set (alt_starts (rules ! start) 0)" "news \<noteq> [] \<or> js \<noteq> []" for js news s
    using that
  proof (induction js arbitrary: news)
    case (Cons j js)
    have v: "valid_stack rules (push_unless_end rules (start, j) [])"
      using Cons.prems(2) by (intro push_unless_end_valid ok_pos_alt wf assms(2)) auto
    obtain t where t: "advance_stack rules (push_unless_end rules (start, j) []) news = Some (Done t)"
      "set t = set news \<union> leaves rules (push_unless_end rules (start, j) [])"
      using advance_stack_ok [OF assms(1) v, of news] by blast
    have "t \<noteq> []" using t(2) leaves_nonempty [OF _ wf v] assms(1) v by (auto simp: advancing_def)
    with Cons.IH [of t] Cons.prems(1,2) t(1) show ?case by simp
  qed simp
  moreover have "alt_starts (rules ! start) 0 \<noteq> []" by (simp add: alt_starts.simps [of "rules ! start"])
  ultimately show ?thesis using assms(3) by (auto simp: initial_stacks_def)
qed

lemma grammar_init_inv:
  assumes "wf_rules rules" and "\<not> left_recursive rules" and "start < length rules"
  shows "\<exists>g. grammar_init_from rules start lazy patterns tokens = Some (Done (Some g)) \<and> grammar_inv g
    \<and> g_rules g = rules \<and> g_awaiting g = lazy"
proof -
  note adv = engine_advancing [OF assms(1,2)]
  obtain r where r: "initial_stacks rules start = Some (Done r)" "stacks_inv rules (set r)"
    using initial_stacks_ok [OF adv assms(3)] by blast
  with initial_stacks_nonempty [OF adv assms(3) r(1)] adv not_left_recursive_check [OF assms(1,2)]
  show ?thesis by (simp add: grammar_init_from_def grammar_inv_def)
qed

definition token_ok ::
    "(token \<Rightarrow> byte list) \<Rightarrow> (token \<Rightarrow> bool) \<Rightarrow> 'pat grammar \<Rightarrow> token \<Rightarrow> bool" where
  "token_ok piece eog g tok =
     (if eog tok then [] \<in> set (g_stacks g)
      else piece tok \<noteq> [] \<and> piece tok ! 0 \<noteq> 0 \<and>
        (case decode_utf8 (piece tok) (g_partial g) of (cps, q) \<Rightarrow>
           readable (g_rules g) (set (g_stacks g)) tok (takeWhile (\<lambda>c. c \<noteq> 0) cps) q))"

text \<open>What it should mean that a token can be next: some stack has a token element on top that it matches, or
  survives all its characters and may carry on the sequence left open at its end.\<close>

definition takes :: "grammar_rules \<Rightarrow> gstack set \<Rightarrow> token \<Rightarrow> u32 list \<Rightarrow> partial_utf8 \<Rightarrow> bool" where
  "takes rules S tok w q \<longleftrightarrow> (\<exists>s \<in> S. token_top rules tok s) \<or> (\<exists>s \<in> run_set rules S w. open_ok rules q s)"

text \<open>The characters of the token meet a token element of its id at the wrong time: after the first of them and
  before the last, or at once although the token completes no character.\<close>

definition token_clash :: "grammar_rules \<Rightarrow> gstack set \<Rightarrow> token \<Rightarrow> u32 list \<Rightarrow> bool" where
  "token_clash rules S tok w \<longleftrightarrow>
     (if w = [] then \<exists>s \<in> S. token_top rules tok s
      else \<exists>u v. w = u @ v \<and> u \<noteq> [] \<and> v \<noteq> [] \<and> (\<exists>s \<in> run_set rules S u. token_top rules tok s))"

lemma readable_takes:
  assumes "\<not> token_clash rules S tok w"
  shows "readable rules S tok w q \<longleftrightarrow> takes rules S tok w q"
proof (cases "w = []")
  case True
  then show ?thesis using assms by (auto simp: readable_simps takes_def token_clash_def)
next
  case False
  have "(\<exists>u v. w = u @ v \<and> v \<noteq> [] \<and> (\<exists>s \<in> run_set rules S u. token_top rules tok s)) \<longleftrightarrow> (\<exists>s \<in> S. token_top rules tok s)"
  proof
    assume "\<exists>s \<in> S. token_top rules tok s"
    then show "\<exists>u v. w = u @ v \<and> v \<noteq> [] \<and> (\<exists>s \<in> run_set rules S u. token_top rules tok s)"
      using False by (intro exI [of _ "[]"] exI [of _ w]) simp
  next
    assume "\<exists>u v. w = u @ v \<and> v \<noteq> [] \<and> (\<exists>s \<in> run_set rules S u. token_top rules tok s)"
    then obtain u v where "w = u @ v" "v \<noteq> []" "\<exists>s \<in> run_set rules S u. token_top rules tok s" by blast
    then show "\<exists>s \<in> S. token_top rules tok s" using assms False by (cases "u = []") (auto simp: token_clash_def)
  qed
  then show ?thesis by (auto simp: readable_def takes_def)
qed

lemma decode_seqs_last: "fst (decode_seqs s v n cps) \<noteq> [] \<and> last (fst (decode_seqs s v n cps)) = 0"
proof (induction s v n cps rule: decode_seqs.induct)
  case (1 s v n cps)
  show ?case
  proof (cases "s = [] \<or> hd s = 0")
    case True
    then show ?thesis by (cases s) auto
  next
    case False
    then obtain b bs where s: "s = b # bs" "b \<noteq> 0" by (cases s) auto
    show ?thesis
      using "1.IH" [OF s refl] s
      by (auto simp: decode_seqs_Cons Let_def split: prod.splits)
  qed
qed

lemma decode_utf8_last:
  assumes "decode_utf8 s p = (cps, q)"
  shows "cps \<noteq> []" "last cps = 0"
  using assms decode_seqs_last
  by (auto simp: decode_utf8_def split: option.splits prod.splits) (metis fst_conv)+

lemma candidate_of_ok: "candidate_ok (candidate_of piece q i tok)"
  by (auto simp: candidate_of_def candidate_ok_def decode_utf8_last split: prod.splits)

lemma candidate_of_index:
  "c_index (candidate_of piece q i tok) = i"
  "allowed rules S (candidate_of piece p i tok) \<longleftrightarrow>
    (case decode_utf8 (piece tok) p of (cps, q) \<Rightarrow> readable rules S tok (takeWhile (\<lambda>c. c \<noteq> 0) cps) q)"
  by (simp_all add: candidate_of_def allowed_def chars_of_def split: prod.split)

lemma candidates_of_set:
  "t \<in> set (candidates_of piece eog q toks) \<longleftrightarrow>
    (\<exists>i < length toks. t = candidate_of piece q i (toks ! i) \<and> \<not> eog (toks ! i)
       \<and> piece (toks ! i) \<noteq> [] \<and> piece (toks ! i) ! 0 \<noteq> 0)"
  by (force simp: candidates_of_def enumerate_eq_zip in_set_zip)

lemma rejected_index:
  assumes "set r = rejected_set rules S (candidates_of piece eog q toks)" and "i < length toks"
  shows "i \<in> set (map c_index r) \<longleftrightarrow> \<not> eog (toks ! i) \<and> piece (toks ! i) \<noteq> [] \<and> piece (toks ! i) ! 0 \<noteq> 0
    \<and> \<not> allowed rules S (candidate_of piece q 0 (toks ! i))"
proof -
  have al: "allowed rules S (candidate_of piece q i (toks ! i)) \<longleftrightarrow> allowed rules S (candidate_of piece q 0 (toks ! i))"
    unfolding candidate_of_index(2) ..
  show ?thesis
  proof
    assume "i \<in> set (map c_index r)"
    then obtain t where t: "t \<in> rejected_set rules S (candidates_of piece eog q toks)" "c_index t = i"
      using assms(1) by auto
    then obtain j where j: "t = candidate_of piece q j (toks ! j)" "\<not> eog (toks ! j)" "piece (toks ! j) \<noteq> []"
      "piece (toks ! j) ! 0 \<noteq> 0" "\<not> allowed rules S t"
      unfolding rejected_set_def candidates_of_set by blast
    then have "j = i" using t(2) candidate_of_index(1) by simp
    with j al show "\<not> eog (toks ! i) \<and> piece (toks ! i) \<noteq> [] \<and> piece (toks ! i) ! 0 \<noteq> 0
      \<and> \<not> allowed rules S (candidate_of piece q 0 (toks ! i))" by blast
  next
    assume a: "\<not> eog (toks ! i) \<and> piece (toks ! i) \<noteq> [] \<and> piece (toks ! i) ! 0 \<noteq> 0
      \<and> \<not> allowed rules S (candidate_of piece q 0 (toks ! i))"
    then have "candidate_of piece q i (toks ! i) \<in> set r"
      unfolding assms(1) rejected_set_def mem_Collect_eq candidates_of_set using al assms(2) by blast
    then have "c_index (candidate_of piece q i (toks ! i)) \<in> set (map c_index r)" by simp
    then show "i \<in> set (map c_index r)" by (simp only: candidate_of_index(1))
  qed
qed

lemma apply_impl_masks:
  assumes "grammar_inv g" and "\<not> g_awaiting g"
  shows "apply_impl piece eog neg_inf g cur_p =
    Some (Done (map (\<lambda>(tok, logit). (tok, if token_ok piece eog g tok then logit else neg_inf)) cur_p))"
proof -
  let ?cs = "candidates_of piece eog (g_partial g) (map fst cur_p)"
  have ok: "\<forall>t \<in> set ?cs. candidate_ok t" by (auto simp: candidates_of_set candidate_of_ok)
  obtain r where r: "reject_candidates (g_rules g) (g_stacks g) ?cs = Some (Done r)"
    "set r = rejected_set (g_rules g) (set (g_stacks g)) ?cs"
    using reject_candidates_set [of "g_rules g" "g_stacks g" ?cs] assms(1) ok
    by (auto simp: grammar_inv_def)
  have "(pre_masked piece eog ([] \<in> set (g_stacks g)) (fst (cur_p ! i)) \<or> i \<in> set (map c_index r))
      \<longleftrightarrow> \<not> token_ok piece eog g (fst (cur_p ! i))" if "i < length cur_p" for i
    using rejected_index [OF r(2), of i] that by (auto simp: pre_masked_def token_ok_def candidate_of_index(2))
  note kept = this
  have "map (\<lambda>(i, tok, logit). (tok, if pre_masked piece eog ([] \<in> set (g_stacks g)) tok
        \<or> i \<in> set (map c_index r) then neg_inf else logit)) (enumerate 0 cur_p) =
      map (\<lambda>(tok, logit). (tok, if token_ok piece eog g tok then logit else neg_inf)) cur_p"
    (is "?l = ?r")
  proof (rule nth_equalityI)
    fix i assume "i < length ?l"
    then have i: "i < length cur_p" by simp
    obtain tok logit where ci: "cur_p ! i = (tok, logit)" by fastforce
    from kept [OF i] show "?l ! i = ?r ! i"
      using i unfolding ci by (auto simp: nth_enumerate_eq ci)
  qed simp
  with r(1) assms(2) show ?thesis by (simp add: apply_impl_def Let_def)
qed

lemma zero_free_points:
  assumes "decode_utf8 s p = (cps, q)" and "0 \<notin> set (butlast cps)"
  shows "takeWhile (\<lambda>c. c \<noteq> 0) cps = butlast cps"
proof -
  have c: "cps = butlast cps @ [0]"
    using decode_utf8_last [OF assms(1)] append_butlast_last_id [of cps] by simp
  have "takeWhile (\<lambda>c. c \<noteq> 0) (butlast cps @ [0]) = butlast cps"
    by (subst takeWhile_append2) (use assms(2) in auto)
  then show ?thesis by (subst c)
qed


lemma run_set_gen:
  assumes "advancing rules" and "stacks_inv rules S"
  shows "gen_stacks rules (run_set rules S w) v \<longleftrightarrow> gen_stacks rules S (w @ v)"
  using assms(2)
proof (induction w arbitrary: S)
  case (Cons c w)
  then show ?case
    using step_stacks_inv [OF assms(1) Cons.prems] step_stacks_gen [OF assms(1) Cons.prems] by simp
qed simp

text \<open>The stacks one stack leads to when a token is accepted.\<close>

definition token_step :: "grammar_rules \<Rightarrow> token \<Rightarrow> gstack \<Rightarrow> gstack set" where
  "token_step rules tok s =
     (if token_top rules tok s then leaves rules (push_unless_end rules (shift_pos (hd s) 1) (tl s)) else {})"

definition accept_step :: "grammar_rules \<Rightarrow> token \<Rightarrow> u32 list \<Rightarrow> gstack \<Rightarrow> gstack set" where
  "accept_step rules tok w s =
     (if s = [] then {}
      else if is_token_type (el_type (elem_at rules (hd s))) then token_step rules tok s
      else run_set rules {s} w)"

lemma token_next_valid:
  assumes "valid_stack rules s" and "token_top rules tok s"
  shows "valid_stack rules (push_unless_end rules (shift_pos (hd s) 1) (tl s))"
    and "stack_syms rules (push_unless_end rules (shift_pos (hd s) 1) (tl s)) = tl (stack_syms rules s)"
proof -
  from assms(2) obtain p rest where s: "s = p # rest" by (cases s) (auto simp: token_top_def)
  have t: "is_token_type (el_type (elem_at rules p))" using token_top_type [OF assms(2)] s by simp
  have p: "ok_pos rules p" "valid_stack rules rest" using assms(1) s by simp_all
  have n: "ok_pos rules (shift_pos p 1)" using ok_pos_next [OF p(1)] t by blast
  show "valid_stack rules (push_unless_end rules (shift_pos (hd s) 1) (tl s))"
    unfolding s list.sel by (rule push_unless_end_valid [OF n p(2)])
  show "stack_syms rules (push_unless_end rules (shift_pos (hd s) 1) (tl s)) = tl (stack_syms rules s)"
    unfolding s list.sel stack_syms_push [OF n] stack_syms_simps syms_token [OF p(1) t] by simp
qed

lemma accept_step_inv:
  assumes "advancing rules" and "stacks_inv rules {s}"
  shows "stacks_inv rules (accept_step rules tok w s)"
  using assms run_set_inv [OF assms] token_next_valid(1) [of rules s tok]
  by (auto simp: accept_step_def token_step_def stacks_inv_def [of _ "{s}"] advancing_def intro!: leaves_inv)

lemma accept_step_gen:
  assumes "advancing rules" and "stacks_inv rules {s}" and "w @ v \<noteq> []"
  shows "gen_stacks rules (accept_step rules tok w s) v \<longleftrightarrow> gen rules (stack_syms rules s) (w @ v)
    \<or> token_top rules tok s \<and> gen rules (tl (stack_syms rules s)) v"
proof (cases s)
  case Nil
  with assms(3) show ?thesis by (simp add: accept_step_def token_top_def)
next
  case (Cons p rest)
  have v: "valid_stack rules s" using assms(2) by (simp add: stacks_inv_def)
  then have p: "ok_pos rules p" using Cons by simp
  show ?thesis
  proof (cases "is_token_type (el_type (elem_at rules p))")
    case True
    have "\<not> gen rules (stack_syms rules s) x" for x using syms_token [OF p True] Cons by simp
    moreover have "gen_stacks rules (leaves rules (push_unless_end rules (shift_pos (hd s) 1) (tl s))) v
        \<longleftrightarrow> gen rules (tl (stack_syms rules s)) v" if "token_top rules tok s"
      using gen_stacks_leaves [OF assms(1) token_next_valid(1) [OF v that]] token_next_valid(2) [OF v that] by simp
    ultimately show ?thesis using True Cons by (simp add: accept_step_def token_step_def)
  next
    case False
    then have "\<not> token_top rules tok s" using token_top_type [of rules tok s] Cons by auto
    moreover have "gen_stacks rules {s} x \<longleftrightarrow> gen rules (stack_syms rules s) x" for x by (simp add: gen_stacks_def)
    ultimately show ?thesis using False Cons run_set_gen [OF assms(1,2), of w v] by (simp add: accept_step_def)
  qed
qed

lemma accept_step_takes:
  assumes "advancing rules" and "stacks_inv rules S" and "takes rules S tok w q" and "w = [] \<longrightarrow> n_remain q \<noteq> 0"
  shows "\<exists>s \<in> S. accept_step rules tok w s \<noteq> {}"
proof (cases "\<exists>s \<in> S. token_top rules tok s")
  case True
  then obtain s where s: "s \<in> S" "token_top rules tok s" by blast
  then have v: "valid_stack rules s" using assms(2) by (simp add: stacks_inv_def)
  have "token_step rules tok s \<noteq> {}"
    using s(2) assms(1) leaves_nonempty token_next_valid(1) [OF v s(2)] by (simp add: token_step_def advancing_def)
  then have "accept_step rules tok w s \<noteq> {}"
    using s(2) token_top_type [OF s(2)] by (auto simp: accept_step_def token_top_def)
  with s(1) show ?thesis by blast
next
  case False
  with assms(3) obtain x u where x: "x \<in> S" "u \<in> run_set rules {x} w" "open_ok rules q u"
    unfolding takes_def run_set_ex [of rules S] by blast
  have "x \<noteq> [] \<and> \<not> is_token_type (el_type (elem_at rules (hd x)))"
  proof (cases w)
    case Nil
    then have m: "x \<noteq> []" "match_partial_char (from_pos rules (hd x)) q = Done True"
      using x(2,3) assms(4) by (auto simp: open_ok_def)
    moreover have "ok_pos rules (hd x)" using x(1) assms(2) m(1) by (cases x) (auto simp: stacks_inv_def)
    ultimately show ?thesis
      using ok_pos_Cons(1) by (fastforce simp: match_partial_char_def is_positive_char_def is_token_type_def Let_def)
  next
    case (Cons c w')
    then have "step_leaves rules x c \<noteq> {}" using x(2) by (auto simp: step_stacks_def)
    then show ?thesis using step_leaves_token [of rules x c] by (auto simp: step_leaves_def)
  qed
  then have "accept_step rules tok w x = run_set rules {x} w" by (simp add: accept_step_def)
  with x(1,2) show ?thesis by blast
qed

lemma accept_token_stacks_run:
  assumes "advancing rules"
  shows "stacks_inv rules (set stacks) \<Longrightarrow>
    \<exists>S. for_run (accept_token_stack rules tok cps) stacks news = Some (Done S)
      \<and> set S = set news \<union> (\<Union>s \<in> set stacks. accept_step rules tok (butlast cps) s)"
proof (induction stacks arbitrary: news)
  case (Cons s stacks)
  then have s: "stacks_inv rules {s}" "stacks_inv rules (set stacks)" by (simp_all add: stacks_inv_def)
  have "\<exists>N. accept_token_stack rules tok cps s news = Some (Done N)
      \<and> set N = set news \<union> accept_step rules tok (butlast cps) s"
  proof (cases s)
    case (Cons p rest)
    have v: "valid_stack rules s" using s(1) by (simp add: stacks_inv_def)
    show ?thesis
    proof (cases "is_token_type (el_type (elem_at rules p))")
      case True
      have "valid_stack rules (push_unless_end rules (shift_pos p 1) rest)" if "token_top rules tok s"
        using token_next_valid(1) [OF v that] Cons by simp
      then show ?thesis
        using True Cons advance_stack_ok [OF assms, of "push_unless_end rules (shift_pos p 1) rest" news]
        by (auto simp: accept_token_stack_def accept_step_def token_step_def token_top_def)
    next
      case False
      obtain r where "accept_points rules (butlast cps) [s] = Some (Done r)"
        "set r = run_set rules {s} (butlast cps)"
        using accept_points_run [OF assms, of "[s]" "butlast cps"] s(1) by auto
      moreover have "set (fold add_new xs ys) = set ys \<union> set xs" for xs ys
        by (induction xs arbitrary: ys) auto
      ultimately show ?thesis using False Cons by (auto simp: accept_token_stack_def accept_step_def)
    qed
  qed (simp add: accept_token_stack_def accept_step_def)
  then obtain N where N: "accept_token_stack rules tok cps s news = Some (Done N)"
    "set N = set news \<union> accept_step rules tok (butlast cps) s" by blast
  obtain S where "for_run (accept_token_stack rules tok cps) stacks N = Some (Done S)"
    "set S = set N \<union> (\<Union>s \<in> set stacks. accept_step rules tok (butlast cps) s)"
    using Cons.IH [OF s(2), of N] by blast
  with N show ?case by (intro exI [of _ S]) auto
qed simp

lemma accept_token_run:
  assumes "advancing (g_rules g)" and "stacks_inv (g_rules g) (set (g_stacks g))"
    and "decode_utf8 piece (g_partial g) = (cps, q)"
  shows "\<exists>S. accept_token g tok piece = Some (Done (g\<lparr>g_stacks := S, g_partial := q\<rparr>, S \<noteq> []))
    \<and> set S = (\<Union>s \<in> set (g_stacks g). accept_step (g_rules g) tok (butlast cps) s)"
proof -
  obtain S where S: "for_run (accept_token_stack (g_rules g) tok cps) (g_stacks g) [] = Some (Done S)"
    "set S = (\<Union>s \<in> set (g_stacks g). accept_step (g_rules g) tok (butlast cps) s)"
    using accept_token_stacks_run [OF assms(1,2), of tok cps "[]"] by auto
  then show ?thesis by (intro exI [of _ S]) (simp add: accept_token_def assms(3))
qed

text \<open>A piece that leaves no sequence open has completed at least one code point.\<close>

lemma read_tail_decreases: "read_tail s v n = (s', v', n') \<Longrightarrow> n' \<le> n"
  by (induction s v n rule: read_tail.induct) (auto split: if_splits)

lemma decode_seqs_points:
  assumes "decode_seqs s v n cps = (r, q)" and "n_remain q = 0" and "cps \<noteq> [] \<or> s \<noteq> [] \<and> hd s \<noteq> 0"
  shows "butlast r \<noteq> []"
  using assms
proof (induction s v n cps rule: decode_seqs.induct)
  case (1 s v n cps)
  show ?case
  proof (cases "s = [] \<or> hd s = 0")
    case True
    then show ?thesis using "1.prems" by (cases s) auto
  next
    case False
    then obtain b bs where s: "s = b # bs" "b \<noteq> 0" by (cases s) auto
    define n1 where "n1 = utf8_stream_lookup ! highbits b - 1"
    obtain s2 v2 n2 where rt: "read_tail bs (ucast b AND mask (nat (7 - n1))) n1 = (s2, v2, n2)"
      by (metis prod_cases3)
    have n1: "\<not> n1 < 0"
      using "1.prems"(1,2) s by (auto simp: decode_seqs_Cons n1_def [symmetric] Let_def)
    have d: "decode_seqs s2 v2 n2 (if n2 = 0 then cps @ [v2] else cps) = (r, q)"
      using "1.prems"(1) s n1 rt by (simp add: decode_seqs_Cons n1_def [symmetric] Let_def)
    show ?thesis
    proof (rule "1.IH" [OF s(1,2) n1_def n1 rt [symmetric] refl d "1.prems"(2)])
      show "(if n2 = 0 then cps @ [v2] else cps) \<noteq> [] \<or> s2 \<noteq> [] \<and> hd s2 \<noteq> 0"
      proof (cases "n2 = 0 \<or> s2 \<noteq> [] \<and> hd s2 \<noteq> 0")
        case False
        then have "r = cps @ [0] \<and> n_remain q = n2" using d by (cases s2) auto
        with False "1.prems"(2) show ?thesis by simp
      qed auto
    qed
  qed
qed

lemma decode_utf8_points:
  assumes "decode_utf8 s p = (r, q)" and "n_remain q = 0" and "s \<noteq> []" and "hd s \<noteq> 0"
  shows "butlast r \<noteq> []"
proof -
  obtain t v n where f: "finish_partial s (u_value p) (n_remain p) = Some (t, v, n)"
    and d: "decode_seqs t v n (if n_remain p > 0 \<and> n = 0 then [v] else []) = (r, q)"
    using decode_utf8_not_invalid [OF assms(1)] assms(2) by auto
  show ?thesis
  proof (cases "n_remain p > 0 \<and> n = 0 \<or> t \<noteq> [] \<and> hd t \<noteq> 0")
    case True
    with d assms(2) show ?thesis by (intro decode_seqs_points [OF d]) auto
  next
    case False
    then have "n_remain q = n" using d by (cases t) auto
    with False assms(2) have "n_remain p \<le> 0" by simp
    then have "t = s" using f by simp
    with False assms(3,4) show ?thesis by simp
  qed
qed

text \<open>A grammar without token elements clashes with no token.\<close>

definition char_rules :: "grammar_rules \<Rightarrow> bool" where
  "char_rules rules \<longleftrightarrow> (\<forall>rule \<in> set rules. \<forall>e \<in> set rule. \<not> is_token_type (el_type e))"

lemma char_rules_clash:
  assumes "advancing rules" and "char_rules rules" and "stacks_inv rules S"
  shows "\<not> token_clash rules S tok w"
proof -
  have no: "\<not> token_top rules tok s" if inv: "stacks_inv rules T" and s: "s \<in> T" for T s
  proof
    assume t: "token_top rules tok s"
    then obtain p rest where p: "s = p # rest" by (cases s) (auto simp: token_top_def)
    then have ok: "ok_pos rules p" using inv s by (auto simp: stacks_inv_def)
    then have "rules ! fst p \<in> set rules" by (simp add: ok_pos_def)
    moreover have "elem_at rules p \<in> set (rules ! fst p)" using ok_pos_Cons(2) [OF ok] by (simp add: elem_at_def)
    ultimately show False using assms(2) token_top_type [OF t] p by (auto simp: char_rules_def)
  qed
  show ?thesis
    using no [OF assms(3)] no [OF run_set_inv [OF assms(1,3)]] by (auto simp: token_clash_def)
qed

text \<open>C8. Whatever the sampler picks among the tokens left unmasked, accepting it succeeds: it neither
  throws nor aborts nor runs forever. An end-of-generation token leaves the grammar as it is; any
  other token keeps the invariant, so the next round is covered again, stores the sequence left open
  at its end, and leaves stacks that generate what the former ones generate after the token's
  characters, or after a token element on top that it matches. The token's piece must not encode a zero
  character, and its characters must not clash with a token element of its id: the tokens excluded here
  are those of the theorem \<open>unmasked_token_throws\<close>.\<close>

theorem unmasked_token_accepted:
  assumes "grammar_inv g" and "\<not> g_awaiting g"
    and "apply_impl piece eog neg_inf g cur_p = Some (Done out)"
    and "i < length cur_p" and "snd (out ! i) \<noteq> neg_inf" and "fst (cur_p ! i) = tok"
    and "decode_utf8 (piece tok) (g_partial g) = (cps, q)" and "0 \<notin> set (butlast cps)"
    and "\<not> token_clash (g_rules g) (set (g_stacks g)) tok (butlast cps)"
  shows "\<exists>g'. accept_impl piece eog search g tok = Some (Done (g', True))
    \<and> (if eog tok then g' = g
       else grammar_inv g' \<and> \<not> g_awaiting g' \<and> g_rules g' = g_rules g \<and> g_partial g' = q
         \<and> (\<forall>v. butlast cps @ v \<noteq> [] \<longrightarrow> gen_stacks (g_rules g') (set (g_stacks g')) v \<longleftrightarrow>
               gen_stacks (g_rules g) (set (g_stacks g)) (butlast cps @ v)
               \<or> (\<exists>s \<in> set (g_stacks g). token_top (g_rules g) tok s \<and> gen (g_rules g) (tl (stack_syms (g_rules g) s)) v)))"
proof -
  obtain logit where ci: "cur_p ! i = (tok, logit)" using assms(6) by (cases "cur_p ! i") auto
  have "out ! i = (tok, if token_ok piece eog g tok then logit else neg_inf)"
    using apply_impl_masks [OF assms(1,2), of piece eog neg_inf cur_p] assms(3,4) ci by simp
  then have ok: "token_ok piece eog g tok" using assms(5) by (auto split: if_splits)
  show ?thesis
  proof (cases "eog tok")
    case True
    with ok assms(2) show ?thesis by (simp add: token_ok_def accept_impl_def)
  next
    case False
    let ?R = "g_rules g" and ?S = "set (g_stacks g)" and ?w = "butlast cps"
    have inv: "advancing ?R" "stacks_inv ?R ?S" using assms(1) by (simp_all add: grammar_inv_def)
    have inv1: "stacks_inv ?R {s}" if "s \<in> ?S" for s using inv(2) that by (simp add: stacks_inv_def)
    obtain S where S: "accept_token g tok (piece tok) = Some (Done (g\<lparr>g_stacks := S, g_partial := q\<rparr>, S \<noteq> []))"
      "set S = (\<Union>s \<in> ?S. accept_step ?R tok ?w s)"
      using accept_token_run [OF inv assms(7)] by blast
    have p: "piece tok \<noteq> []" "hd (piece tok) \<noteq> 0" using ok False by (auto simp: token_ok_def hd_conv_nth)
    have "takes ?R ?S tok ?w q"
      using ok False zero_free_points [OF assms(7,8)] assms(7) by (simp add: token_ok_def readable_takes [OF assms(9)])
    moreover have "?w = [] \<longrightarrow> n_remain q \<noteq> 0" using decode_utf8_points [OF assms(7) _ p] by blast
    ultimately have "set S \<noteq> {}" unfolding S(2) using accept_step_takes [OF inv] by blast
    then have ne: "S \<noteq> []" by auto
    have inv': "stacks_inv ?R (set S)"
      unfolding S(2) stacks_inv_def using accept_step_inv [OF inv(1) inv1] by (auto simp: stacks_inv_def)
    have "gen_stacks ?R (set S) v \<longleftrightarrow> gen_stacks ?R ?S (?w @ v)
        \<or> (\<exists>s \<in> ?S. token_top ?R tok s \<and> gen ?R (tl (stack_syms ?R s)) v)" if v: "?w @ v \<noteq> []" for v
    proof -
      have "gen_stacks ?R (set S) v \<longleftrightarrow> (\<exists>s \<in> ?S. gen_stacks ?R (accept_step ?R tok ?w s) v)"
        unfolding S(2) gen_stacks_def by blast
      also have "\<dots> \<longleftrightarrow> (\<exists>s \<in> ?S. gen ?R (stack_syms ?R s) (?w @ v)
          \<or> token_top ?R tok s \<and> gen ?R (tl (stack_syms ?R s)) v)"
        using accept_step_gen [OF inv(1) inv1 v] by blast
      finally show ?thesis by (auto simp: gen_stacks_def)
    qed
    then show ?thesis
      using False S(1) ne inv inv' assms(2)
      by (intro exI [of _ "g\<lparr>g_stacks := S, g_partial := q\<rparr>"]) (simp add: accept_impl_def grammar_inv_def)
  qed
qed

subsection \<open>A sample session\<close>

definition sample_piece :: "token \<Rightarrow> byte list" where
  "sample_piece tok =
     (if tok = 0 then [97] else if tok = 1 then [97, 97, 98] else if tok = 2 then [100]
      else if tok = 3 then [99, 97] else [])"

definition sample_eog :: "token \<Rightarrow> bool" where
  "sample_eog tok \<longleftrightarrow> tok = 9"

definition sample_grammar :: "nat grammar" where
  "sample_grammar = \<lparr>g_rules = sample_rules, g_stacks = [[(1, 1)], [(0, 0), (1, 1)]], g_partial = start_utf8,
     g_lazy = False, g_awaiting = False, g_buffer = [], g_positions = [], g_trigger_tokens = [],
     g_trigger_patterns = []\<rparr>"

lemma sample_grammar_init:
  "grammar_init_from sample_rules 1 False [] [] = Some (Done (Some sample_grammar))"
  by code_simp

lemma sample_advancing: "advancing sample_rules"
  by (rule engine_advancing [OF sample_facts(1) sample_not_recursive])

lemma sample_inv: "grammar_inv sample_grammar"
  using grammar_init_inv [OF sample_facts(1) sample_not_recursive, of 1 False "[] :: nat list" "[]"] sample_facts(5) sample_grammar_init
  by simp

lemma sample_apply:
  "apply_impl sample_piece sample_eog None sample_grammar [(0, Some 10), (1, Some 11), (2, Some 12), (3, Some 13), (9, Some (14 :: nat))]
    = Some (Done [(0, Some 10), (1, Some 11), (2, None), (3, None), (9, None)])"
  by code_simp


lemma unmasked_token_accepted_witness:
  "\<exists>g'. accept_impl sample_piece sample_eog (\<lambda>_ _. None) sample_grammar 1 = Some (Done (g', True)) \<and> grammar_inv g'"
proof -
  have d: "decode_utf8 (sample_piece 1) (g_partial sample_grammar) = ([97, 97, 98, 0], \<lparr>u_value = 98, n_remain = 0\<rparr>)"
    by code_simp
  have nc: "\<not> token_clash (g_rules sample_grammar) (set (g_stacks sample_grammar)) 1 (butlast [97, 97, 98, 0])"
    using char_rules_clash [of "g_rules sample_grammar"] sample_inv
    by (simp add: grammar_inv_def sample_grammar_def char_rules_def sample_rules_def is_token_type_def)
  show ?thesis
    using unmasked_token_accepted [where i = 1 and search = "\<lambda>_ _. None", OF sample_inv _ sample_apply _ _ _ d _ nc]
    by (auto simp: sample_grammar_def sample_eog_def)
qed

subsection \<open>Where an unmasked token makes the engine throw\<close>

text \<open>C39. Tokens that pass the mask and then make the engine throw. Take a token that is no end of
  generation, completes a character, matches no token element on top of a stack and whose characters no
  stack survives: accepting it throws. The mask lets it pass exactly if its piece encodes a zero character and
  some stack survives the characters before the first one - masking takes it for the end of the token -
  or if its characters before the first zero lead to a token element of its id before they are used up:
  masking compares ids also in the middle of a token, accepting only at its start.\<close>

theorem unmasked_token_throws:
  assumes "grammar_inv g" and "\<not> g_awaiting g" and "\<not> eog tok" and "piece tok \<noteq> []" and "piece tok ! 0 \<noteq> 0"
    and "decode_utf8 (piece tok) (g_partial g) = (cps, q)" and "w = butlast cps" and "w \<noteq> []"
    and "\<forall>s \<in> set (g_stacks g). \<not> token_top (g_rules g) tok s" and "run_set (g_rules g) (set (g_stacks g)) w = {}"
  shows "(\<exists>g'. accept_impl piece eog search g tok = Some (Done (g', False)))
    \<and> apply_impl piece eog neg_inf g [(tok, logit)] = Some (Done [(tok,
        if 0 \<in> set w \<and> (\<exists>s \<in> run_set (g_rules g) (set (g_stacks g)) (takeWhile (\<lambda>c. c \<noteq> 0) w). open_ok (g_rules g) q s)
          \<or> token_clash (g_rules g) (set (g_stacks g)) tok (takeWhile (\<lambda>c. c \<noteq> 0) w)
        then logit else neg_inf)])"
proof
  let ?R = "g_rules g" and ?S = "set (g_stacks g)" and ?u = "takeWhile (\<lambda>c. c \<noteq> 0) w"
  have inv: "advancing ?R" "stacks_inv ?R ?S" using assms(1) by (simp_all add: grammar_inv_def)
  have "accept_step ?R tok w s = {}" if "s \<in> ?S" for s
    using assms(9,10) that run_set_singles [of ?R ?S w] by (auto simp: accept_step_def token_step_def)
  then show "\<exists>g'. accept_impl piece eog search g tok = Some (Done (g', False))"
    using accept_token_run [OF inv assms(6), of tok] assms(2,3,7) by (auto simp: accept_impl_def)
  have cps: "cps = w @ [0]"
    using decode_utf8_last [OF assms(6)] append_butlast_last_id [of cps] assms(7) by simp
  have u: "takeWhile (\<lambda>c. c \<noteq> 0) cps = ?u" unfolding cps by (induction w) auto
  have "0 \<in> set w" if "run_set ?R ?S ?u \<noteq> {}"
  proof (rule ccontr)
    assume "0 \<notin> set w"
    then have "\<forall>c \<in> set w. c \<noteq> 0" by blast
    then have "?u = w" unfolding takeWhile_eq_all_conv .
    with that assms(10) show False by simp
  qed
  moreover have "(\<exists>u v. ?u = u @ v \<and> v \<noteq> [] \<and> (\<exists>s \<in> run_set ?R ?S u. token_top ?R tok s)) \<longleftrightarrow> token_clash ?R ?S tok ?u"
    using assms(9) unfolding token_clash_def by (cases "?u = []") (auto, metis run_set_simps(1))
  ultimately have "readable ?R ?S tok ?u q \<longleftrightarrow> 0 \<in> set w \<and> (\<exists>s \<in> run_set ?R ?S ?u. open_ok ?R q s) \<or> token_clash ?R ?S tok ?u"
    unfolding readable_def by blast
  then have "token_ok piece eog g tok \<longleftrightarrow>
      0 \<in> set w \<and> (\<exists>s \<in> run_set ?R ?S ?u. open_ok ?R q s) \<or> token_clash ?R ?S tok ?u"
    using assms(3-6) u by (simp add: token_ok_def)
  then show "apply_impl piece eog neg_inf g [(tok, logit)] = Some (Done [(tok,
        if 0 \<in> set w \<and> (\<exists>s \<in> run_set ?R ?S ?u. open_ok ?R q s) \<or> token_clash ?R ?S tok ?u
        then logit else neg_inf)])"
    unfolding apply_impl_masks [OF assms(1,2)] by simp
qed

text \<open>\<open>root ::= "a" <[5]>\<close>, with a token 5 whose piece is \<open>ab\<close>, and \<open>root ::= "a"\<close>, with a token whose piece
  is the overlong encoding of zero.\<close>

definition mid_rules :: grammar_rules where
  "mid_rules = [[Elem GRE_CHAR 97, Elem GRE_TOKEN 5, Elem GRE_END 0]]"

definition zero_rules :: grammar_rules where
  "zero_rules = [[Elem GRE_CHAR 97, Elem GRE_END 0]]"

definition bad_piece :: "token \<Rightarrow> byte list" where
  "bad_piece tok = (if tok = 5 then [97, 98] else [0xC0, 0x80])"

definition fresh_grammar :: "grammar_rules \<Rightarrow> gstack list \<Rightarrow> nat grammar" where
  "fresh_grammar rules stacks = \<lparr>g_rules = rules, g_stacks = stacks, g_partial = start_utf8,
     g_lazy = False, g_awaiting = False, g_buffer = [], g_positions = [], g_trigger_tokens = [],
     g_trigger_patterns = []\<rparr>"

definition throws :: "('pat grammar \<times> bool) run \<Rightarrow> bool" where
  "throws m = (case m of Some (Done (_, ok)) \<Rightarrow> \<not> ok | _ \<Rightarrow> False)"

lemma mid_clash:
  "apply_impl bad_piece (\<lambda>_. False) None (fresh_grammar mid_rules [[(0, 0)]]) [(5, Some (1 :: nat))] = Some (Done [(5, Some 1)])"
  "throws (accept_impl bad_piece (\<lambda>_. False) (\<lambda>_ _. None) (fresh_grammar mid_rules [[(0, 0)]]) 5)"
  by code_simp+

lemma not_left_recursive_chars:
  assumes "\<And>r alt. r < length rules \<Longrightarrow> alt \<in> set (alts rules r) \<Longrightarrow> alt = [] \<or> (\<forall>q. hd alt \<noteq> Ref q)"
  shows "\<not> left_recursive rules"
proof (rule not_left_recursiveI [where f = "\<lambda>_. 0"])
  fix r r' assume "corner rules r r'"
  then obtain alt where "r < length rules" "alt \<in> set (alts rules r)" "r' \<in> set (edge (\<lambda>q. gen rules [Ref q] []) alt)"
    by (auto simp: corner_def)
  moreover from this have "alt = [] \<or> (\<forall>q. hd alt \<noteq> Ref q)" by (intro assms)
  then have "edge d alt = []" for d by (cases alt; cases "hd alt") auto
  ultimately show "(0 :: nat) < 0" by simp
qed

lemma grammar_init_zero:
  "grammar_init_from zero_rules 0 False [] [] = Some (Done (Some (fresh_grammar zero_rules [[(0, 0)]])))"
  by code_simp

lemma unmasked_token_throws_witness:
  "(\<exists>g'. accept_impl bad_piece (\<lambda>_. False) (\<lambda>_ _. None) (fresh_grammar zero_rules [[(0, 0)]]) 6 = Some (Done (g', False)))
   \<and> apply_impl bad_piece (\<lambda>_. False) None (fresh_grammar zero_rules [[(0, 0)]]) [(6, Some (1 :: nat))] = Some (Done [(6, Some 1)])"
proof -
  let ?g = "fresh_grammar zero_rules [[(0, 0)]]"
  have wf: "wf_rules zero_rules" by (simp add: wf_rules_def zero_rules_def)
  have "alts zero_rules 0 = [[Cls True [(97, 97)]]]" by code_simp
  then have "\<not> left_recursive zero_rules" by (intro not_left_recursive_chars) (simp add: zero_rules_def)
  from grammar_init_inv [OF wf this, of 0 False "[] :: nat list" "[]"]
  have inv: "grammar_inv ?g"
    unfolding grammar_init_zero by (simp add: zero_rules_def)
  have d: "decode_utf8 (bad_piece 6) (g_partial ?g) = ([0, 0], \<lparr>u_value = 0, n_remain = 0\<rparr>)" by code_simp
  have top: "\<not> token_top zero_rules 6 [(0, 0)]" by (simp add: token_top_def match_token_def elem_at_def zero_rules_def)
  have "in_ranges (fst (class_ranges (from_pos zero_rules (0, 0)))) 0 \<noteq> True" by code_simp
  then have run: "run_set zero_rules {[(0, 0)]} [0] = {}"
    by (simp add: step_stacks_def step_leaves_def elem_at_def zero_rules_def is_positive_char_def case_prod_beta Let_def)
  from unmasked_token_throws [where piece = bad_piece and eog = "\<lambda>_. False" and w = "[0]" and tok = 6
      and search = "\<lambda>_ _. None" and neg_inf = None and logit = "Some (1 :: nat)", OF inv _ _ _ _ d]
  show ?thesis using top run by (auto simp: fresh_grammar_def bad_piece_def open_ok_def)
qed

subsection \<open>Lazy grammars\<close>

text \<open>Feeding tokens with given pieces, and the pieces a replay uses.\<close>

fun feed :: "'pat grammar \<Rightarrow> (token \<times> byte list) list \<Rightarrow> ('pat grammar \<times> bool) run" where
  "feed g [] = Some (Done (g, True))"
| "feed g ((tok, piece) # ps) =
     bind_run (accept_token g tok piece) (\<lambda>(g', ok). if ok then feed g' ps else Some (Done (g', False)))"

fun replayed :: "byte list \<Rightarrow> nat \<Rightarrow> (token \<times> nat \<times> nat) list \<Rightarrow> (token \<times> byte list) list" where
  "replayed buf start [] = []"
| "replayed buf start ((tok, a, b) # ps) =
     (if b \<le> start then replayed buf start ps
      else (tok, take (b - max start a) (drop (max start a) buf)) # replayed buf start ps)"

lemma bind_run_cong: "(\<And>x. f x = g x) \<Longrightarrow> bind_run m f = bind_run m g"
  by (simp add: bind_run_def split: option.split outcome.split)

lemma replay_feed: "replay buf start ps g = feed g (replayed buf start ps)"
proof (induction ps arbitrary: g)
  case (Cons x ps)
  obtain tok a b where x: "x = (tok, a, b)" by (cases x) auto
  have m: "(if a < start then start else a) = max start a" by auto
  show ?case
    by (auto simp: x m Let_def Cons.IH intro!: bind_run_cong)
qed simp

text \<open>The recorded positions follow each other and cover the buffer from \<open>a\<close> on.\<close>

fun tiles :: "nat \<Rightarrow> (token \<times> nat \<times> nat) list \<Rightarrow> nat \<Rightarrow> bool" where
  "tiles a [] n \<longleftrightarrow> a = n"
| "tiles a ((tok, b, c) # ps) n \<longleftrightarrow> b = a \<and> b \<le> c \<and> tiles c ps n"

lemma tiles_le: "tiles a ps n \<Longrightarrow> a \<le> n"
  by (induction a ps n rule: tiles.induct) auto

lemma tiles_snoc: "tiles a ps n \<Longrightarrow> tiles a (ps @ [(tok, n, n + k)]) (n + k)"
  by (induction a ps n rule: tiles.induct) auto

lemma replayed_concat:
  assumes "tiles a ps (length buf)"
  shows "concat (map snd (replayed buf start ps)) = drop (max start a) buf"
  using assms
proof (induction a ps "length buf" rule: tiles.induct)
  case (2 a tok b c ps)
  then have IH: "concat (map snd (replayed buf start ps)) = drop (max start c) buf"
    and bc: "b = a" "a \<le> c" "c \<le> length buf" using tiles_le by auto
  show ?case
  proof (cases "c \<le> start")
    case True
    with IH bc show ?thesis by (simp add: max_absorb1)
  next
    case False
    let ?s = "max start a"
    have s: "?s \<le> c" using False bc by simp
    have "drop ?s buf = take (c - ?s) (drop ?s buf) @ drop (c - ?s) (drop ?s buf)"
      by (rule append_take_drop_id [symmetric])
    also have "drop (c - ?s) (drop ?s buf) = drop c buf" using s by simp
    finally show ?thesis using IH bc False by (simp add: max_absorb2)
  qed
qed simp

definition waiting :: "'pat grammar \<Rightarrow> bool" where
  "waiting g \<longleftrightarrow> g_awaiting g \<and> tiles 0 (g_positions g) (length (g_buffer g))"

definition buffered :: "'pat grammar \<Rightarrow> token \<Rightarrow> byte list \<Rightarrow> 'pat grammar" where
  "buffered g tok piece = g\<lparr>g_positions :=
       g_positions g @ [(tok, length (g_buffer g), length (g_buffer g) + length piece)],
     g_buffer := g_buffer g @ piece\<rparr>"

lemma waiting_buffered: "waiting g \<Longrightarrow> waiting (buffered g tok piece)"
  using tiles_snoc [of 0 "g_positions g" "length (g_buffer g)" tok "length piece"]
  by (simp add: waiting_def buffered_def)

lemma try_patterns_first:
  "(\<forall>q \<in> set qs. search q (g_buffer g) = None) \<Longrightarrow> try_patterns search qs g = Some (Done (g, True))"
  "search q (g_buffer g) = Some start \<Longrightarrow> (\<forall>q \<in> set qs. search q (g_buffer g) = None) \<Longrightarrow>
    try_patterns search (qs @ q # rest) g = try_patterns search [q] g"
  by (induction qs) auto

text \<open>C35. While a lazy grammar waits for its trigger, a token that is no trigger token and completes no
  trigger pattern only goes to the buffer: the stacks stay as they were. When a pattern is found,
  the first one in order decides where the constrained text starts, and the grammar is fed the
  buffered tokens from there on - the first of them possibly cut - whose pieces together are exactly
  the buffer from the start position to its end.\<close>

theorem lazy_grammar_replays:
  assumes "waiting g" and "tok \<notin> set (g_trigger_tokens g)" and "b = buffered g tok (piece tok)"
  shows "((\<forall>q \<in> set (g_trigger_patterns g). search q (g_buffer b) = None) \<longrightarrow>
      accept_impl piece eog search g tok = Some (Done (b, True)) \<and> waiting b \<and> g_stacks b = g_stacks g)
    \<and> (\<forall>qs q rest start. g_trigger_patterns g = qs @ q # rest \<longrightarrow>
      (\<forall>q' \<in> set qs. search q' (g_buffer b) = None) \<longrightarrow> search q (g_buffer b) = Some start \<longrightarrow>
      (\<exists>ps. concat (map snd ps) = drop start (g_buffer b) \<and>
        accept_impl piece eog search g tok = bind_run (feed (b\<lparr>g_awaiting := False\<rparr>) ps)
          (\<lambda>(g', ok). Some (Done (if ok then (g'\<lparr>g_buffer := [], g_positions := []\<rparr>, True) else (g', False))))))"
proof (intro conjI)
  have acc: "accept_impl piece eog search g tok = try_patterns search (g_trigger_patterns g) b"
    using assms by (simp add: accept_impl_def waiting_def buffered_def Let_def)
  have w: "waiting b" using waiting_buffered [OF assms(1)] assms(3) by simp
  show "(\<forall>q \<in> set (g_trigger_patterns g). search q (g_buffer b) = None) \<longrightarrow>
      accept_impl piece eog search g tok = Some (Done (b, True)) \<and> waiting b \<and> g_stacks b = g_stacks g"
  proof
    assume none: "\<forall>q \<in> set (g_trigger_patterns g). search q (g_buffer b) = None"
    have "g_stacks b = g_stacks g" by (simp add: assms(3) buffered_def)
    with acc w try_patterns_first(1) [of "g_trigger_patterns g" search b, OF none]
    show "accept_impl piece eog search g tok = Some (Done (b, True)) \<and> waiting b \<and> g_stacks b = g_stacks g"
      by simp
  qed
  show "\<forall>qs q rest start. g_trigger_patterns g = qs @ q # rest \<longrightarrow>
      (\<forall>q' \<in> set qs. search q' (g_buffer b) = None) \<longrightarrow> search q (g_buffer b) = Some start \<longrightarrow>
      (\<exists>ps. concat (map snd ps) = drop start (g_buffer b) \<and>
        accept_impl piece eog search g tok = bind_run (feed (b\<lparr>g_awaiting := False\<rparr>) ps)
          (\<lambda>(g', ok). Some (Done (if ok then (g'\<lparr>g_buffer := [], g_positions := []\<rparr>, True) else (g', False)))))"
  proof (intro allI impI)
    fix qs q rest start
    assume q: "g_trigger_patterns g = qs @ q # rest" "\<forall>q' \<in> set qs. search q' (g_buffer b) = None"
      "search q (g_buffer b) = Some start"
    let ?ps = "replayed (g_buffer b) start (g_positions b)"
    have "concat (map snd ?ps) = drop start (g_buffer b)"
      using replayed_concat [of 0 "g_positions b" "g_buffer b" start] w by (simp add: waiting_def)
    moreover have "try_patterns search (g_trigger_patterns g) b =
        bind_run (feed (b\<lparr>g_awaiting := False\<rparr>) ?ps)
          (\<lambda>(g', ok). Some (Done (if ok then (g'\<lparr>g_buffer := [], g_positions := []\<rparr>, True) else (g', False))))"
      unfolding q(1) try_patterns_first(2) [where search = search, OF q(3,2)]
      using q(3) by (simp add: replay_feed if_distrib [of "\<lambda>x. Some (Done x)"] cong: if_cong)
    ultimately show "\<exists>ps. concat (map snd ps) = drop start (g_buffer b) \<and>
        accept_impl piece eog search g tok = bind_run (feed (b\<lparr>g_awaiting := False\<rparr>) ps)
          (\<lambda>(g', ok). Some (Done (if ok then (g'\<lparr>g_buffer := [], g_positions := []\<rparr>, True) else (g', False))))"
      unfolding acc by blast
  qed
qed

definition lazy_sample :: "nat grammar" where
  "lazy_sample = sample_grammar\<lparr>g_lazy := True, g_awaiting := True, g_buffer := [120, 120, 97],
     g_positions := [(7, 0, 2), (8, 2, 3)], g_trigger_patterns := [1]\<rparr>"

text \<open>A pattern that is found at offset 2 once the buffer holds a byte 98.\<close>

definition lazy_search :: "nat \<Rightarrow> byte list \<Rightarrow> nat option" where
  "lazy_search q buf = (if 98 \<in> set buf then Some 2 else None)"

lemma lazy_grammar_replays_witness:
  "\<exists>ps. concat (map snd ps) = [97, 97, 97, 98] \<and>
     accept_impl sample_piece sample_eog lazy_search lazy_sample 1 =
       bind_run (feed (buffered lazy_sample 1 [97, 97, 98]\<lparr>g_awaiting := False\<rparr>) ps)
         (\<lambda>(g', ok). Some (Done (if ok then (g'\<lparr>g_buffer := [], g_positions := []\<rparr>, True) else (g', False))))"
proof -
  have w: "waiting lazy_sample" by (simp add: waiting_def lazy_sample_def)
  have t: "1 \<notin> set (g_trigger_tokens lazy_sample)" by (simp add: lazy_sample_def sample_grammar_def)
  have b: "buffered lazy_sample 1 [97, 97, 98] = buffered lazy_sample 1 (sample_piece 1)"
    by (simp add: sample_piece_def)
  have p: "g_trigger_patterns lazy_sample = [] @ 1 # []" by (simp add: lazy_sample_def)
  have s: "lazy_search 1 (g_buffer (buffered lazy_sample 1 [97, 97, 98])) = Some 2"
    "drop 2 (g_buffer (buffered lazy_sample 1 [97, 97, 98])) = [97, 97, 97, 98]"
    by (simp_all add: lazy_search_def buffered_def lazy_sample_def)
  from lazy_grammar_replays [where search = lazy_search and piece = sample_piece and eog = sample_eog, OF w t b, THEN conjunct2, rule_format, OF p _ s(1)] s(2)
  show ?thesis by simp
qed

end
