(* ===== verification/Gr_Parser.thy ===== *)
theory Gr_Parser
  imports Gr_Left
begin

section \<open>The grammar parser\<close>

text \<open>
  \<open>llama_grammar_parser\<close>: the recursive-descent parser from GBNF text to rules, with the rewriting of
  repetitions into fresh rules. A pointer into the source is the list of the bytes from there on.
  A thrown exception is an \<open>Inl\<close>, one constructor per message (\<open>Assert_failed\<close> is the \<open>GGML_ASSERT\<close>
  of \<open>handle_repetitions\<close>, which the theorems exclude); the loops that consume input carry
  a bound on their iterations (\<open>None\<close> when it runs out, which the theorems exclude), because the
  two parsing functions call each other under loops.
\<close>

datatype parse_error = Expecting_hex | Expecting_name | Expecting_integer | Unknown_escape
  | Unexpected_end | Expecting_less | Token_id_too_big | Expecting_bracket | Expecting_greater
  | No_vocab | Invalid_token | Expecting_item | Too_many_rules | Expecting_paren | Expecting_int
  | Expecting_brace | Expecting_comma | Too_many_repetitions | Expecting_definition
  | Expecting_newline | Undefined_rule | Undefined_identifier | Out_of_range
  | Assert_failed

subsection \<open>Characters, names, numbers\<close>

definition is_digit_char :: "byte \<Rightarrow> bool" where
  "is_digit_char c \<longleftrightarrow> 48 \<le> c \<and> c \<le> 57"

definition is_word_char :: "byte \<Rightarrow> bool" where
  "is_word_char c \<longleftrightarrow> 97 \<le> c \<and> c \<le> 122 \<or> 65 \<le> c \<and> c \<le> 90 \<or> c = 45 \<or> is_digit_char c"

definition hex_value :: "byte \<Rightarrow> u32 option" where
  "hex_value c =
     (if 97 \<le> c \<and> c \<le> 102 then Some (ucast c - 97 + 10)
      else if 65 \<le> c \<and> c \<le> 70 then Some (ucast c - 65 + 10)
      else if 48 \<le> c \<and> c \<le> 57 then Some (ucast c - 48)
      else None)"

fun hex_loop :: "nat \<Rightarrow> byte list \<Rightarrow> u32 \<Rightarrow> nat \<times> byte list \<times> u32" where
  "hex_loop 0 src v = (0, src, v)"
| "hex_loop (Suc k) [] v = (Suc k, [], v)"
| "hex_loop (Suc k) (c # cs) v =
     (case (if c = 0 then None else hex_value c) of
        None \<Rightarrow> (Suc k, c # cs, v)
      | Some d \<Rightarrow> hex_loop k cs (push_bit 4 v + d))"

definition parse_hex :: "byte list \<Rightarrow> nat \<Rightarrow> parse_error + (u32 \<times> byte list)" where
  "parse_hex src n =
     (case hex_loop n src 0 of (left, pos, v) \<Rightarrow> if left \<noteq> 0 then Inl Expecting_hex else Inr (v, pos))"

text \<open>White space and comments; the second flag says that the scan is inside a comment.\<close>

fun skip_space :: "bool \<Rightarrow> bool \<Rightarrow> byte list \<Rightarrow> byte list" where
  "skip_space newline_ok in_comment [] = []"
| "skip_space newline_ok in_comment (c # cs) =
     (if in_comment \<and> c \<noteq> 0 \<and> c \<noteq> 13 \<and> c \<noteq> 10 then skip_space newline_ok True cs
      else if c = 32 \<or> c = 9 then skip_space newline_ok False cs
      else if c = 35 then skip_space newline_ok True cs
      else if newline_ok \<and> (c = 13 \<or> c = 10) then skip_space newline_ok False cs
      else c # cs)"

definition parse_space :: "byte list \<Rightarrow> bool \<Rightarrow> byte list" where
  "parse_space src newline_ok = skip_space newline_ok False src"

definition parse_name :: "byte list \<Rightarrow> parse_error + (byte list \<times> byte list)" where
  "parse_name src =
     (if takeWhile is_word_char src = [] then Inl Expecting_name
      else Inr (takeWhile is_word_char src, dropWhile is_word_char src))"

definition parse_int :: "byte list \<Rightarrow> parse_error + (byte list \<times> byte list)" where
  "parse_int src =
     (if takeWhile is_digit_char src = [] then Inl Expecting_integer
      else Inr (takeWhile is_digit_char src, dropWhile is_digit_char src))"

text \<open>\<open>std::stoul\<close> and \<open>std::stoull\<close> on a string of digits, 64 bits wide.\<close>

definition digits_value :: "byte list \<Rightarrow> nat" where
  "digits_value ds = fold (\<lambda>d v. 10 * v + unat (d - 48)) ds 0"

definition stoull :: "byte list \<Rightarrow> parse_error + 64 word" where
  "stoull ds = (if digits_value ds \<ge> 2 ^ 64 then Inl Out_of_range else Inr (of_nat (digits_value ds)))"

text \<open>The same over binary integers, for evaluation.\<close>

lemma digits_value_int: "int (fold (\<lambda>d v. 10 * v + unat (d - 48)) ds n) = fold (\<lambda>d v. 10 * v + uint (d - 48)) ds (int n)"
  for ds :: "byte list"
  by (induction ds arbitrary: n) simp_all

lemma stoull_code [code]:
  "stoull ds = (let n = fold (\<lambda>d v. 10 * v + uint (d - 48)) ds 0
     in if n \<ge> 2 ^ 64 then Inl Out_of_range else Inr (word_of_int n))"
proof -
  have "fold (\<lambda>d v. 10 * v + uint (d - 48)) ds 0 = int (digits_value ds)"
    using digits_value_int [of ds 0] by (simp add: digits_value_def)
  moreover have "int n \<ge> 2 ^ 64 \<longleftrightarrow> n \<ge> 2 ^ 64" for n by simp
  moreover have "(word_of_int (int n) :: 64 word) = of_nat n" for n by simp
  ultimately show ?thesis by (simp only: stoull_def Let_def)
qed

definition parse_char :: "byte list \<Rightarrow> parse_error + (u32 \<times> byte list)" where
  "parse_char src =
     (if peek src = 92 then
        (let e = peek (tl src); rest = tl (tl src) in
         if e = 120 then parse_hex rest 2
         else if e = 117 then parse_hex rest 4
         else if e = 85 then parse_hex rest 8
         else if e = 116 then Inr (9, rest)
         else if e = 114 then Inr (13, rest)
         else if e = 110 then Inr (10, rest)
         else if e = 92 \<or> e = 34 \<or> e = 91 \<or> e = 93 \<or> e = 45 then Inr (ucast e, rest)
         else Inl Unknown_escape)
      else if peek src \<noteq> 0 then Inr (decode_utf8_at src)
      else Inl Unexpected_end)"

text \<open>The vocabulary enters as the function that tokenizes the text of a token (\<open>None\<close>: no vocabulary).\<close>

type_synonym tokenizer = "(byte list \<Rightarrow> token list) option"

definition parse_token :: "tokenizer \<Rightarrow> byte list \<Rightarrow> parse_error + (u32 \<times> byte list)" where
  "parse_token vocab src =
     (if peek src \<noteq> 60 then Inl Expecting_less
      else
        (let pos = tl src in
         if peek pos = 91 then
           (case parse_int (tl pos) of
              Inl e \<Rightarrow> Inl e
            | Inr (ds, int_end) \<Rightarrow>
                (case stoull ds of
                   Inl e \<Rightarrow> Inl e
                 | Inr tok_id \<Rightarrow>
                     if tok_id > 0xFFFFFFFF then Inl Token_id_too_big
                     else if peek int_end \<noteq> 93 then Inl Expecting_bracket
                     else if peek (tl int_end) \<noteq> 62 then Inl Expecting_greater
                     else Inr (ucast tok_id, tl (tl int_end))))
         else
           (case vocab of
              None \<Rightarrow> Inl No_vocab
            | Some tokenize \<Rightarrow>
                (let rest = dropWhile (\<lambda>c. c \<noteq> 0 \<and> c \<noteq> 62) pos in
                 if peek rest \<noteq> 62 then Inl Expecting_greater
                 else
                   (let toks = tokenize (take (length src - length (tl rest)) src) in
                    if length toks \<noteq> 1 then Inl Invalid_token else Inr (hd toks, tl rest))))))"

subsection \<open>Symbols and rules\<close>

text \<open>\<open>symbol_ids\<close> as the list of its entries (keys are unique, so its length is the size of the map).\<close>

record parser =
  p_symbols :: "(byte list \<times> u32) list"
  p_rules :: grammar_rules

definition get_symbol_id :: "parser \<Rightarrow> byte list \<Rightarrow> parser \<times> u32" where
  "get_symbol_id P name =
     (case map_of (p_symbols P) name of
        Some i \<Rightarrow> (P, i)
      | None \<Rightarrow> (let next_id = of_nat (length (p_symbols P))
                 in (P\<lparr>p_symbols := p_symbols P @ [(name, next_id)]\<rparr>, next_id)))"

text \<open>\<open>std::to_string\<close>.\<close>

function to_string :: "nat \<Rightarrow> byte list" where
  "to_string n = (if n < 10 then [of_nat (48 + n)] else to_string (n div 10) @ [of_nat (48 + n mod 10)])"
  by pat_completeness auto
termination by (relation "measure id") auto

declare to_string.simps [simp del]

definition generate_symbol_id :: "parser \<Rightarrow> byte list \<Rightarrow> parser \<times> u32" where
  "generate_symbol_id P base_name =
     (let next_id = of_nat (length (p_symbols P));
          key = base_name @ [95] @ to_string (unat next_id)
      in (P\<lparr>p_symbols := (if map_of (p_symbols P) key = None then p_symbols P @ [(key, next_id)]
            else map (\<lambda>(k, v). (k, if k = key then next_id else v)) (p_symbols P))\<rparr>, next_id))"

definition add_rule :: "parser \<Rightarrow> u32 \<Rightarrow> grammar_rule \<Rightarrow> parser" where
  "add_rule P rule_id rule =
     (let i = unat rule_id;
          rules = (if length (p_rules P) \<le> i then p_rules P @ replicate (i + 1 - length (p_rules P)) []
                   else p_rules P)
      in P\<lparr>p_rules := rules[i := rule]\<rparr>)"

subsection \<open>Repetitions\<close>

type_synonym u64 = "64 word"

text \<open>The rules that a repetition adds: one per optional occurrence, or a single recursive one.\<close>

fun rec_rules ::
    "nat \<Rightarrow> bool \<Rightarrow> bool \<Rightarrow> byte list \<Rightarrow> grammar_rule \<Rightarrow> u32 \<Rightarrow> parser \<Rightarrow> parser \<times> u32" where
  "rec_rules 0 no_max first rule_name prev_rule last_id P = (P, last_id)"
| "rec_rules (Suc n) no_max first rule_name prev_rule last_id P =
     (case generate_symbol_id P rule_name of
        (P1, rec_id) \<Rightarrow>
          (let rec_rule = prev_rule
                 @ (if \<not> first \<or> no_max then [Elem GRE_RULE_REF (if no_max then rec_id else last_id)] else [])
                 @ [Elem GRE_ALT 0, Elem GRE_END 0]
           in rec_rules n no_max False rule_name prev_rule rec_id (add_rule P1 rec_id rec_rule)))"

definition max_repetition_threshold :: u64 where
  "max_repetition_threshold = 2000"

definition total_rules :: "u64 \<Rightarrow> u64 \<Rightarrow> u64" where
  "total_rules min_times max_times =
     (if max_times \<noteq> - 1 \<and> max_times > 0 then max_times
      else if min_times > 0 then min_times else 1)"

definition n_optional :: "u64 \<Rightarrow> u64 \<Rightarrow> u64" where
  "n_optional min_times max_times = (if max_times = - 1 then 1 else max_times - min_times)"

definition handle_repetitions ::
    "byte list \<Rightarrow> parser \<Rightarrow> grammar_rule \<Rightarrow> nat \<Rightarrow> u64 \<Rightarrow> u64 \<Rightarrow> u64
     \<Rightarrow> parse_error + (parser \<times> grammar_rule \<times> u64)" where
  "handle_repetitions rule_name P rule last_sym_start n_prev_rules min_times max_times =
     (let no_max = (max_times = - 1);
          prev_rule = drop last_sym_start rule;
          total = total_rules min_times max_times
      in if last_sym_start = length rule then Inl Expecting_item
         else if n_prev_rules * total > max_repetition_threshold then Inl Too_many_rules
         else
           (let rule' = (if min_times = 0 then take last_sym_start rule
                         else rule @ concat (replicate (unat min_times - 1) prev_rule));
                n_opt = n_optional min_times max_times
            in case rec_rules (unat n_opt) no_max True rule_name prev_rule 0 P of
                 (P', last_rec_rule_id) \<Rightarrow>
                   if n_prev_rules * total < 1 then Inl Assert_failed
                   else Inr (P', (if n_opt > 0 then rule' @ [Elem GRE_RULE_REF last_rec_rule_id] else rule'),
                             n_prev_rules * total)))"

text \<open>The bounds in braces; the position after the closing brace.\<close>

definition parse_bounds :: "bool \<Rightarrow> byte list \<Rightarrow> parse_error + (u64 \<times> u64 \<times> byte list)" where
  "parse_bounds is_nested src =
     (let pos = parse_space src is_nested in
      if \<not> is_digit_char (peek pos) then Inl Expecting_int
      else case parse_int pos of
        Inl e \<Rightarrow> Inl e
      | Inr (ds, int_end) \<Rightarrow>
         (case stoull ds of
            Inl e \<Rightarrow> Inl e
          | Inr min_times \<Rightarrow>
             (let pos1 = parse_space int_end is_nested;
                  limited = (\<lambda>max_times pos2.
                    if min_times > max_repetition_threshold then Inl Too_many_repetitions
                    else Inr (min_times,
                      (if max_times \<noteq> - 1 \<and> max_times > max_repetition_threshold then - 1 else max_times), pos2))
              in if peek pos1 = 125 then limited min_times (parse_space (tl pos1) is_nested)
                 else if peek pos1 = 44 then
                   (let pos2 = parse_space (tl pos1) is_nested;
                        upper = (if is_digit_char (peek pos2) then
                            (case parse_int pos2 of
                               Inl e \<Rightarrow> Inl e
                             | Inr (ds2, end2) \<Rightarrow>
                                 (case stoull ds2 of
                                    Inl e \<Rightarrow> Inl e
                                  | Inr m \<Rightarrow> Inr (m, parse_space end2 is_nested)))
                          else Inr (- 1, pos2))
                    in case upper of
                         Inl e \<Rightarrow> Inl e
                       | Inr (max_times, pos3) \<Rightarrow>
                           if peek pos3 \<noteq> 125 then Inl Expecting_brace
                           else limited max_times (parse_space (tl pos3) is_nested))
                 else Inl Expecting_comma)))"

subsection \<open>Literals and character classes\<close>

text \<open>The loops read until the closing quote or bracket; \<open>None\<close>: the bound ran out.\<close>

fun literal_loop :: "nat \<Rightarrow> byte list \<Rightarrow> grammar_rule \<Rightarrow> (parse_error + (grammar_rule \<times> byte list)) option" where
  "literal_loop 0 pos rule = None"
| "literal_loop (Suc n) pos rule =
     (if peek pos = 34 then Some (Inr (rule, pos))
      else if peek pos = 0 then Some (Inl Unexpected_end)
      else case parse_char pos of
        Inl e \<Rightarrow> Some (Inl e)
      | Inr (c, pos') \<Rightarrow> literal_loop n pos' (rule @ [Elem GRE_CHAR c]))"

fun class_loop ::
    "nat \<Rightarrow> gretype \<Rightarrow> nat \<Rightarrow> byte list \<Rightarrow> grammar_rule \<Rightarrow> (parse_error + (grammar_rule \<times> byte list)) option" where
  "class_loop 0 start_type last_sym_start pos rule = None"
| "class_loop (Suc n) start_type last_sym_start pos rule =
     (if peek pos = 93 then Some (Inr (rule, pos))
      else if peek pos = 0 then Some (Inl Unexpected_end)
      else case parse_char pos of
        Inl e \<Rightarrow> Some (Inl e)
      | Inr (c, pos1) \<Rightarrow>
          (let rule1 = rule @ [Elem (if last_sym_start < length rule then GRE_CHAR_ALT else start_type) c]
           in if peek pos1 = 45 \<and> peek (tl pos1) \<noteq> 93 then
                (if peek (tl pos1) = 0 then Some (Inl Unexpected_end)
                 else case parse_char (tl pos1) of
                   Inl e \<Rightarrow> Some (Inl e)
                 | Inr (d, pos2) \<Rightarrow>
                     class_loop n start_type last_sym_start pos2 (rule1 @ [Elem GRE_CHAR_RNG_UPPER d]))
              else class_loop n start_type last_sym_start pos1 rule1))"

subsection \<open>Sequences and alternates\<close>

record seq_state =
  s_parser :: parser
  s_rule :: grammar_rule
  s_last :: nat
  s_prev :: u64
  s_pos :: "byte list"

text \<open>One round of the loop of \<open>parse_sequence\<close>, for every item but a group: \<open>Inr None\<close> is the
  \<open>break\<close> at a character that starts no item.\<close>

definition repeat_item ::
    "byte list \<Rightarrow> seq_state \<Rightarrow> byte list \<Rightarrow> u64 \<Rightarrow> u64 \<Rightarrow> (parse_error + seq_state option) option" where
  "repeat_item rule_name s pos min_times max_times =
     (case handle_repetitions rule_name (s_parser s) (s_rule s) (s_last s) (s_prev s) min_times max_times of
        Inl e \<Rightarrow> Some (Inl e)
      | Inr (P, rule, n) \<Rightarrow>
          Some (Inr (Some (s\<lparr>s_parser := P, s_rule := rule, s_prev := n, s_pos := pos\<rparr>))))"

definition sequence_item ::
    "tokenizer \<Rightarrow> byte list \<Rightarrow> bool \<Rightarrow> seq_state \<Rightarrow> (parse_error + seq_state option) option" where
  "sequence_item vocab rule_name is_nested s =
     (let pos = s_pos s; c = peek pos; rule = s_rule s;
          push = (\<lambda>P es pos'. Some (Inr (Some (s\<lparr>s_parser := P, s_rule := rule @ es,
                   s_last := length rule, s_prev := 1, s_pos := parse_space pos' is_nested\<rparr>))))
      in if c = 34 then
           (case literal_loop (length pos) (tl pos) rule of
              None \<Rightarrow> None
            | Some (Inl e) \<Rightarrow> Some (Inl e)
            | Some (Inr (rule', pos')) \<Rightarrow>
                push (s_parser s) (drop (length rule) rule') (tl pos'))
         else if c = 91 then
           (let negated = (peek (tl pos) = 94);
                pos1 = (if negated then tl (tl pos) else tl pos)
            in case class_loop (Suc (length pos)) (if negated then GRE_CHAR_NOT else GRE_CHAR) (length rule) pos1 rule of
                 None \<Rightarrow> None
               | Some (Inl e) \<Rightarrow> Some (Inl e)
               | Some (Inr (rule', pos')) \<Rightarrow>
                   push (s_parser s) (drop (length rule) rule') (tl pos'))
         else if c = 60 \<or> c = 33 then
           (let t = (if c = 33 then GRE_TOKEN_NOT else GRE_TOKEN);
                pos1 = (if c = 33 then tl pos else pos)
            in case parse_token vocab pos1 of
                 Inl e \<Rightarrow> Some (Inl e)
               | Inr (tok, token_end) \<Rightarrow> push (s_parser s) [Elem t tok] token_end)
         else if is_word_char c then
           (case parse_name pos of
              Inl e \<Rightarrow> Some (Inl e)
            | Inr (name, name_end) \<Rightarrow>
                (case get_symbol_id (s_parser s) name of
                   (P, ref_id) \<Rightarrow> push P [Elem GRE_RULE_REF ref_id] name_end))
         else if c = 46 then push (s_parser s) [Elem GRE_CHAR_ANY 0] (tl pos)
         else if c = 42 then repeat_item rule_name s (parse_space (tl pos) is_nested) 0 (- 1)
         else if c = 43 then repeat_item rule_name s (parse_space (tl pos) is_nested) 1 (- 1)
         else if c = 63 then repeat_item rule_name s (parse_space (tl pos) is_nested) 0 1
         else if c = 123 then
           (case parse_bounds is_nested (tl pos) of
              Inl e \<Rightarrow> Some (Inl e)
            | Inr (min_times, max_times, pos') \<Rightarrow> repeat_item rule_name s pos' min_times max_times)
         else Some (Inr None))"

text \<open>\<open>parse_alternates\<close> over the parser of one sequence: the two call each other, so the sequence
  parser is a parameter here and the recursion is tied below. The loop makes at most one round per
  byte of input.\<close>

fun alternates_loop ::
    "(seq_state \<Rightarrow> (parse_error + seq_state) option) \<Rightarrow> nat \<Rightarrow> seq_state \<Rightarrow> (parse_error + seq_state) option"
  where
  "alternates_loop seq 0 s = None"
| "alternates_loop seq (Suc n) s =
     (if peek (s_pos s) = 124 then
        (let rule = s_rule s @ [Elem GRE_ALT 0] in
         case seq (s\<lparr>s_rule := rule, s_last := length rule, s_prev := 1, s_pos := parse_space (tl (s_pos s)) True\<rparr>) of
           None \<Rightarrow> None
         | Some (Inl e) \<Rightarrow> Some (Inl e)
         | Some (Inr s') \<Rightarrow> alternates_loop seq n s')
      else Some (Inr s))"

definition alternates_by ::
    "(seq_state \<Rightarrow> (parse_error + seq_state) option) \<Rightarrow> byte list \<Rightarrow> u32 \<Rightarrow> parser
     \<Rightarrow> (parse_error + (parser \<times> byte list)) option" where
  "alternates_by seq src rule_id P =
     (case seq \<lparr>s_parser = P, s_rule = [], s_last = 0, s_prev = 1, s_pos = src\<rparr> of
        None \<Rightarrow> None
      | Some (Inl e) \<Rightarrow> Some (Inl e)
      | Some (Inr s) \<Rightarrow>
          (case alternates_loop seq (Suc (length src)) s of
             None \<Rightarrow> None
           | Some (Inl e) \<Rightarrow> Some (Inl e)
           | Some (Inr s') \<Rightarrow>
               Some (Inr (add_rule (s_parser s') rule_id (s_rule s' @ [Elem GRE_END 0]), s_pos s'))))"

text \<open>A group: its alternates become a rule of their own, and the element refers to it.\<close>

definition group_item ::
    "(seq_state \<Rightarrow> (parse_error + seq_state) option) \<Rightarrow> byte list \<Rightarrow> bool \<Rightarrow> seq_state
     \<Rightarrow> (parse_error + seq_state option) option" where
  "group_item seq rule_name is_nested s =
     (let pos = parse_space (tl (s_pos s)) True;
          n_rules_before = of_nat (length (p_symbols (s_parser s))) :: u32
      in case generate_symbol_id (s_parser s) rule_name of
        (P1, sub_rule_id) \<Rightarrow>
         (case alternates_by seq pos sub_rule_id P1 of
            None \<Rightarrow> None
          | Some (Inl e) \<Rightarrow> Some (Inl e)
          | Some (Inr (P2, pos2)) \<Rightarrow>
              if peek pos2 \<noteq> 41 then Some (Inl Expecting_paren)
              else Some (Inr (Some
                \<lparr>s_parser = P2,
                 s_rule = s_rule s @ [Elem GRE_RULE_REF sub_rule_id],
                 s_last = length (s_rule s),
                 s_prev = ucast (max 1 (of_nat (length (p_symbols P2)) - n_rules_before)),
                 s_pos = parse_space (tl pos2) is_nested\<rparr>))))"

text \<open>The loop of \<open>parse_sequence\<close>; the fuel bounds nesting depth and number of items together.\<close>

primrec parse_sequence ::
    "nat \<Rightarrow> tokenizer \<Rightarrow> byte list \<Rightarrow> bool \<Rightarrow> seq_state \<Rightarrow> (parse_error + seq_state) option" where
  "parse_sequence 0 vocab rule_name is_nested s = None"
| "parse_sequence (Suc n) vocab rule_name is_nested s =
     (if peek (s_pos s) = 0 then Some (Inr s)
      else case (if peek (s_pos s) = 40
                 then group_item (parse_sequence n vocab rule_name True) rule_name is_nested s
                 else sequence_item vocab rule_name is_nested s) of
          None \<Rightarrow> None
        | Some (Inl e) \<Rightarrow> Some (Inl e)
        | Some (Inr None) \<Rightarrow> Some (Inr s)
        | Some (Inr (Some s')) \<Rightarrow> parse_sequence n vocab rule_name is_nested s')"

definition parse_alternates ::
    "tokenizer \<Rightarrow> byte list \<Rightarrow> byte list \<Rightarrow> u32 \<Rightarrow> bool \<Rightarrow> parser \<Rightarrow> (parse_error + (parser \<times> byte list)) option" where
  "parse_alternates vocab src rule_name rule_id is_nested P =
     alternates_by (parse_sequence (Suc (length src)) vocab rule_name is_nested) src rule_id P"

subsection \<open>Rules and the whole text\<close>

definition parse_rule :: "tokenizer \<Rightarrow> parser \<Rightarrow> byte list \<Rightarrow> (parse_error + (parser \<times> byte list)) option" where
  "parse_rule vocab P src =
     (case parse_name src of
        Inl e \<Rightarrow> Some (Inl e)
      | Inr (name, name_end) \<Rightarrow>
         (let pos = parse_space name_end False;
              (P1, rule_id) = get_symbol_id P name
          in if \<not> (peek pos = 58 \<and> peek (tl pos) = 58 \<and> peek (tl (tl pos)) = 61)
             then Some (Inl Expecting_definition)
             else
               (let pos1 = parse_space (drop 3 pos) True
                in case parse_alternates vocab pos1 name rule_id False P1 of
                     None \<Rightarrow> None
                   | Some (Inl e) \<Rightarrow> Some (Inl e)
                   | Some (Inr (P2, pos2)) \<Rightarrow>
                       if peek pos2 = 13 then
                         Some (Inr (P2, parse_space (if peek (tl pos2) = 10 then drop 2 pos2 else tl pos2) True))
                       else if peek pos2 = 10 then Some (Inr (P2, parse_space (tl pos2) True))
                       else if peek pos2 \<noteq> 0 then Some (Inl Expecting_newline)
                       else Some (Inr (P2, parse_space pos2 True)))))"

fun parse_rules :: "nat \<Rightarrow> tokenizer \<Rightarrow> parser \<Rightarrow> byte list \<Rightarrow> (parse_error + parser) option" where
  "parse_rules 0 vocab P pos = None"
| "parse_rules (Suc n) vocab P pos =
     (if peek pos = 0 then Some (Inr P)
      else case parse_rule vocab P pos of
        None \<Rightarrow> None
      | Some (Inl e) \<Rightarrow> Some (Inl e)
      | Some (Inr (P', pos')) \<Rightarrow> parse_rules n vocab P' pos')"

definition ref_undefined :: "parser \<Rightarrow> grammar_element \<Rightarrow> bool" where
  "ref_undefined P e \<longleftrightarrow> el_type e = GRE_RULE_REF
     \<and> (unat (el_value e) \<ge> length (p_rules P) \<or> p_rules P ! unat (el_value e) = [])
     \<and> el_value e \<in> snd ` set (p_symbols P)"

definition validate :: "parser \<Rightarrow> parse_error + parser" where
  "validate P =
     (case filter (\<lambda>rule. rule = [] \<or> list_ex (ref_undefined P) rule) (p_rules P) of
        [] \<Rightarrow> Inr P
      | rule # _ \<Rightarrow> if rule = [] then Inl Undefined_rule else Inl Undefined_identifier)"

text \<open>\<open>llama_grammar_parser::parse\<close>: \<open>Inl\<close> where it prints the error, clears the rules and returns
  false.\<close>

definition parse :: "tokenizer \<Rightarrow> byte list \<Rightarrow> (parse_error + parser) option" where
  "parse vocab src =
     (case parse_rules (Suc (length src)) vocab \<lparr>p_symbols = [], p_rules = []\<rparr> (parse_space src True) of
        None \<Rightarrow> None
      | Some (Inl e) \<Rightarrow> Some (Inl e)
      | Some (Inr P) \<Rightarrow> Some (validate P))"

subsection \<open>Every step consumes input\<close>

lemma peek_cases: "peek src \<noteq> 0 \<Longrightarrow> src \<noteq> []"
  by (auto simp: peek_def)

lemma skip_space_length: "length (skip_space nl com src) \<le> length src"
  by (induction src arbitrary: com) (auto intro: le_SucI)

lemma parse_space_length: "length (parse_space src nl) \<le> length src"
  by (simp add: parse_space_def skip_space_length)

lemma hex_loop_length: "hex_loop k src v = (l, pos, w) \<Longrightarrow> length pos \<le> length src"
  by (induction k src v rule: hex_loop.induct) (auto split: option.splits if_splits)

lemma parse_hex_length: "parse_hex src n = Inr (v, pos) \<Longrightarrow> length pos \<le> length src"
  by (auto simp: parse_hex_def split: prod.splits if_splits dest: hex_loop_length)

lemma take_while_shorter: "takeWhile p xs \<noteq> [] \<Longrightarrow> length (dropWhile p xs) < length xs"
  by (cases xs) (auto simp: length_dropWhile_le le_imp_less_Suc split: if_splits)

lemma parse_name_length: "parse_name src = Inr (nm, pos) \<Longrightarrow> length pos < length src"
  by (auto simp: parse_name_def take_while_shorter split: if_splits)

lemma parse_int_length: "parse_int src = Inr (ds, pos) \<Longrightarrow> length pos < length src"
  by (auto simp: parse_int_def take_while_shorter split: if_splits)

lemma take_six_length: "length (snd (take_six k src v)) \<le> length src"
  by (induction k src v rule: take_six.induct) auto

lemma decode_utf8_at_length: "src \<noteq> [] \<Longrightarrow> length (snd (decode_utf8_at src)) < length src"
  using take_six_length [of _ "tl src"] by (cases src) (auto simp: decode_utf8_at_def Let_def le_imp_less_Suc)

lemma parse_char_length:
  assumes "parse_char src = Inr (c, pos)"
  shows "length pos < length src"
proof (cases "peek src = 92")
  case True
  then have src: "src \<noteq> []" by (auto simp: peek_def)
  have rest: "length (tl (tl src)) < length src" using src by (cases src) auto
  show ?thesis using assms True rest
    by (auto simp: parse_char_def Let_def split: if_splits dest!: parse_hex_length)
next
  case False
  then have "src \<noteq> []" "decode_utf8_at src = (c, pos)"
    using assms by (auto simp: parse_char_def split: if_splits)
  with decode_utf8_at_length [of src] show ?thesis by simp
qed

lemma parse_token_length:
  assumes "parse_token vocab src = Inr (tok, pos)"
  shows "length pos < length src"
proof -
  from assms have "peek src = 60" by (auto simp: parse_token_def split: if_splits)
  then obtain b bs where src: "src = b # bs" by (cases src) auto
  show ?thesis
  proof (cases "peek bs = 91")
    case True
    then obtain ds int_end where "parse_int (tl bs) = Inr (ds, int_end)" "pos = tl (tl int_end)"
      using assms src by (auto simp: parse_token_def Let_def split: if_splits sum.splits)
    with parse_int_length [OF this(1)] src show ?thesis by auto
  next
    case False
    then have "pos = tl (dropWhile (\<lambda>c. c \<noteq> 0 \<and> c \<noteq> 62) bs)"
      using assms src by (auto simp: parse_token_def Let_def split: if_splits option.splits)
    with src length_dropWhile_le [of "\<lambda>c. c \<noteq> 0 \<and> c \<noteq> 62" bs] show ?thesis by auto
  qed
qed

lemma literal_loop_length:
  "length pos < n \<Longrightarrow> \<exists>r. literal_loop n pos rule = Some r \<and>
     (\<forall>rule' pos'. r = Inr (rule', pos') \<longrightarrow> length pos' \<le> length pos \<and> pos' \<noteq> [])"
proof (induction n arbitrary: pos rule)
  case (Suc n)
  show ?case
  proof (cases "parse_char pos")
    case (Inr a)
    obtain c pos1 where a: "a = (c, pos1)" by force
    from parse_char_length [of pos c pos1] Inr a have l: "length pos1 < length pos" by simp
    with Suc.prems have "length pos1 < n" by simp
    from Suc.IH [OF this, of "rule @ [Elem GRE_CHAR c]"] l Inr a show ?thesis by fastforce
  qed auto
qed simp

lemma class_loop_length:
  "length pos < n \<Longrightarrow> \<exists>r. class_loop n t k pos rule = Some r \<and>
     (\<forall>rule' pos'. r = Inr (rule', pos') \<longrightarrow> length pos' \<le> length pos \<and> pos' \<noteq> [])"
proof (induction n arbitrary: pos rule)
  case (Suc n)
  have step: "\<exists>r. class_loop n t k q rule1 = Some r \<and>
      (\<forall>rule' pos'. r = Inr (rule', pos') \<longrightarrow> length pos' \<le> length pos \<and> pos' \<noteq> [])"
    if "length q < length pos" for q rule1
    using Suc.IH [of q rule1] that Suc.prems by fastforce
  show ?case
  proof (cases "parse_char pos")
    case (Inr a)
    obtain c pos1 where a: "a = (c, pos1)" by force
    from parse_char_length [of pos c pos1] Inr a have l: "length pos1 < length pos" by simp
    show ?thesis
    proof (cases "peek pos1 = 45 \<and> peek (tl pos1) \<noteq> 93 \<and> peek pos \<noteq> 93")
      case True
      show ?thesis
      proof (cases "parse_char (tl pos1)")
        case (Inr b)
        obtain d pos2 where b: "b = (d, pos2)" by force
        from parse_char_length [of "tl pos1" d pos2] Inr b l have "length pos2 < length pos" by simp
        from step [OF this] True Inr b a \<open>parse_char pos = Inr a\<close> show ?thesis
          by (auto simp: Let_def)
      qed (use True Inr a in \<open>auto simp: Let_def\<close>)
    next
      case False
      with step [OF l] Inr a show ?thesis by (auto simp: Let_def)
    qed
  qed auto
qed simp

lemma parse_space_le: "length xs < n \<Longrightarrow> length (parse_space xs nl) < n"
  using parse_space_length [of xs nl] by simp

lemma parse_space_tl_le: "length xs \<le> n \<Longrightarrow> length (parse_space (tl xs) nl) \<le> n"
  using parse_space_length [of "tl xs" nl] by simp

lemma parse_bounds_length:
  assumes "parse_bounds nl src = Inr (lo, hi, pos)"
  shows "length pos < length src"
proof -
  let ?p = "parse_space src nl"
  from assms obtain ds int_end where i: "parse_int ?p = Inr (ds, int_end)"
    by (auto simp: parse_bounds_def Let_def split: if_splits sum.splits)
  from parse_int_length [OF i] have 1: "length int_end < length src"
    using parse_space_length [of src nl] by simp
  let ?q = "parse_space int_end nl"
  have 2: "length ?q < length src" by (rule parse_space_le [OF 1])
  have 3: "length (parse_space (tl xs) nl) < length src" if "length xs < length src" for xs
    using that by (intro parse_space_le) simp
  have 4: "length (parse_space end2 nl) < length src" if "parse_int (parse_space (tl ?q) nl) = Inr (ds2, end2)"
    for ds2 end2
    using parse_int_length [OF that] 3 [OF 2] by (intro parse_space_le) simp
  from assms i show ?thesis
    by (auto simp: parse_bounds_def Let_def 3 4 2 dest!: sym [of "parse_space _ _"]
        split: if_splits sum.splits prod.splits)
qed

declare literal_loop.simps [simp del] class_loop.simps [simp del]

text \<open>A parser step that returns, and whose result has fewer bytes left than \<open>n\<close>.\<close>

definition step_ok :: "nat \<Rightarrow> (parse_error + seq_state option) option \<Rightarrow> bool" where
  "step_ok n r \<longleftrightarrow> (case r of Some (Inr (Some s)) \<Rightarrow> length (s_pos s) < n | None \<Rightarrow> False | _ \<Rightarrow> True)"

lemma step_ok_simps [simp]:
  "\<not> step_ok n None" "step_ok n (Some (Inl e))" "step_ok n (Some (Inr None))"
  "step_ok n (Some (Inr (Some s))) \<longleftrightarrow> length (s_pos s) < n"
  by (simp_all add: step_ok_def)

lemma repeat_item_ok: "length pos < n \<Longrightarrow> step_ok n (repeat_item rule_name s pos lo hi)"
  by (auto simp: repeat_item_def split: sum.splits)

lemma sequence_item_ok:
  assumes "s_pos s \<noteq> []"
  shows "step_ok (length (s_pos s)) (sequence_item vocab rule_name is_nested s)"
proof -
  obtain c cs where pos: "s_pos s = c # cs" using assms by (cases "s_pos s") auto
  have tls: "length (parse_space (tl xs) nl) < Suc (length cs)" if "length xs \<le> Suc (length cs)" "xs \<noteq> []" for xs nl
    using that parse_space_length [of "tl xs" nl] by (cases xs) auto
  have lit: "\<exists>r. literal_loop (Suc (length cs)) cs rule = Some r \<and>
      (\<forall>rule' pos'. r = Inr (rule', pos') \<longrightarrow> length pos' \<le> length cs \<and> pos' \<noteq> [])" for rule
    by (rule literal_loop_length) simp
  have cls: "\<exists>r. class_loop (Suc (Suc (length cs))) t k xs rule = Some r \<and>
      (\<forall>rule' pos'. r = Inr (rule', pos') \<longrightarrow> length pos' \<le> length xs \<and> pos' \<noteq> [])"
    if "length xs \<le> length cs" for xs t k rule
    using that by (intro class_loop_length) simp
  note [simp] = sequence_item_def Let_def pos
  consider "c = 34" | "c = 91" | "c = 60 \<or> c = 33" | "c \<notin> {34, 91, 60, 33}" "is_word_char c"
    | "c \<notin> {34, 91, 60, 33}" "\<not> is_word_char c" by blast
  then show ?thesis
  proof cases
    case 1
    from lit [of "s_rule s"] 1 show ?thesis by (auto simp: tls split: sum.splits)
  next
    case 2
    show ?thesis
    proof (cases "peek cs = 94")
      case True
      from cls [of "tl cs" GRE_CHAR_NOT "length (s_rule s)" "s_rule s"] obtain r where
        "class_loop (Suc (Suc (length cs))) GRE_CHAR_NOT (length (s_rule s)) (tl cs) (s_rule s) = Some r"
        "\<And>rule' pos'. r = Inr (rule', pos') \<Longrightarrow> length pos' \<le> length cs \<and> pos' \<noteq> []" by fastforce
      with 2 True show ?thesis by (cases r) (auto simp: tls)
    next
      case False
      from cls [of cs GRE_CHAR "length (s_rule s)" "s_rule s"] obtain r where
        "class_loop (Suc (Suc (length cs))) GRE_CHAR (length (s_rule s)) cs (s_rule s) = Some r"
        "\<And>rule' pos'. r = Inr (rule', pos') \<Longrightarrow> length pos' \<le> length cs \<and> pos' \<noteq> []" by fastforce
      with 2 False show ?thesis by (cases r) (auto simp: tls)
    qed
  next
    case 3
    have l: "length (parse_space e nl) < Suc (length cs)" if "parse_token vocab xs = Inr (tok, e)"
      "length xs \<le> Suc (length cs)" for xs tok e nl
      using parse_token_length [OF that(1)] that(2) by (intro parse_space_le) simp
    from 3 show ?thesis by (auto simp: l split: sum.splits)
  next
    case 4
    have l: "length (parse_space e nl) < Suc (length cs)" if "parse_name (c # cs) = Inr (nm, e)" for nm e nl
      using parse_name_length [OF that] by (intro parse_space_le) simp
    from 4 show ?thesis by (auto simp: l split: sum.splits prod.splits)
  next
    case 5
    have l: "length e < Suc (length cs)" if "parse_bounds nl cs = Inr (lo, hi, e)" for lo hi e nl
      using parse_bounds_length [OF that] by simp
    have sp: "length (parse_space cs is_nested) < Suc (length cs)"
      using parse_space_length [of cs is_nested] by simp
    have "step_ok (Suc (length cs)) (Some (Inr (Some (s\<lparr>s_parser := P, s_rule := r, s_last := k, s_prev := v,
        s_pos := parse_space cs is_nested\<rparr>))))" for P r k v
      using sp by simp
    with 5 sp show ?thesis
      by (auto intro!: repeat_item_ok l split: sum.splits)
  qed
qed

definition seq_ok :: "nat \<Rightarrow> (seq_state \<Rightarrow> (parse_error + seq_state) option) \<Rightarrow> bool" where
  "seq_ok n f \<longleftrightarrow> (\<forall>s. length (s_pos s) < n \<longrightarrow> (\<exists>r. f s = Some r \<and>
     (\<forall>s'. r = Inr s' \<longrightarrow> length (s_pos s') \<le> length (s_pos s))))"

lemma seq_okD:
  assumes "seq_ok n f" and "length (s_pos s) < n"
  obtains e where "f s = Some (Inl e)" | s' where "f s = Some (Inr s')" "length (s_pos s') \<le> length (s_pos s)"
proof -
  from assms obtain r where "f s = Some r" "\<forall>s'. r = Inr s' \<longrightarrow> length (s_pos s') \<le> length (s_pos s)"
    unfolding seq_ok_def by blast
  then show ?thesis by (cases r) (auto intro: that)
qed

lemma alternates_loop_ok:
  assumes "seq_ok n f" and "length (s_pos s) < n" and "length (s_pos s) < k"
  shows "\<exists>r. alternates_loop f k s = Some r \<and> (\<forall>s'. r = Inr s' \<longrightarrow> length (s_pos s') \<le> length (s_pos s))"
  using assms(2,3)
proof (induction k arbitrary: s)
  case (Suc k)
  show ?case
  proof (cases "peek (s_pos s) = 124")
    case True
    then have "s_pos s \<noteq> []" by (auto simp: peek_def)
    then have l: "length (parse_space (tl (s_pos s)) True) < length (s_pos s)"
      using parse_space_length [of "tl (s_pos s)" True] by (cases "s_pos s") auto
    let ?s = "s\<lparr>s_rule := s_rule s @ [Elem GRE_ALT 0], s_last := length (s_rule s @ [Elem GRE_ALT 0]),
      s_prev := 1, s_pos := parse_space (tl (s_pos s)) True\<rparr>"
    have "length (s_pos ?s) < n" using l Suc.prems by simp
    with assms(1) show ?thesis
    proof (cases rule: seq_okD)
      case (2 s')
      then have l': "length (s_pos s') < length (s_pos s)" using l by simp
      with Suc.IH [of s'] Suc.prems 2 True show ?thesis by (fastforce simp: Let_def)
    qed (simp add: True Let_def)
  qed simp
qed simp

lemma alternates_by_ok:
  assumes "seq_ok n f" and "length src < n"
  shows "\<exists>r. alternates_by f src i P = Some r \<and> (\<forall>P' pos. r = Inr (P', pos) \<longrightarrow> length pos \<le> length src)"
proof -
  let ?s = "\<lparr>s_parser = P, s_rule = [], s_last = 0, s_prev = 1, s_pos = src\<rparr>"
  have "length (s_pos ?s) < n" using assms by simp
  with assms(1) show ?thesis
  proof (cases rule: seq_okD)
    case (2 s')
    then have "length (s_pos s') \<le> length src" by simp
    with alternates_loop_ok [OF assms(1), of s' "Suc (length src)"] 2 assms(2) show ?thesis
      by (fastforce simp: alternates_by_def split: sum.splits)
  qed (simp add: alternates_by_def)
qed

lemma group_item_ok:
  assumes "seq_ok n f" and "length (s_pos s) \<le> n" and "s_pos s \<noteq> []"
  shows "step_ok (length (s_pos s)) (group_item f rule_name is_nested s)"
proof -
  let ?pos = "parse_space (tl (s_pos s)) True"
  have l: "length ?pos < length (s_pos s)"
    using parse_space_length [of "tl (s_pos s)" True] assms(3) by (cases "s_pos s") auto
  have sp: "length (parse_space (tl xs) nl) < length (s_pos s)" if "length xs \<le> length ?pos" for xs nl
    using that l by (intro parse_space_le) simp
  obtain P1 j where g: "generate_symbol_id (s_parser s) rule_name = (P1, j)" by force
  from alternates_by_ok [OF assms(1), of ?pos j P1] l assms(2) show ?thesis
    by (auto simp: group_item_def g Let_def sp split: sum.splits)
qed

lemma parse_sequence_ok: "seq_ok n (parse_sequence n vocab rule_name is_nested)"
proof (induction n arbitrary: is_nested)
  case (Suc n)
  have "\<exists>r. parse_sequence (Suc n) vocab rule_name is_nested s = Some r \<and>
      (\<forall>s'. r = Inr s' \<longrightarrow> length (s_pos s') \<le> length (s_pos s))" if "length (s_pos s) < Suc n" for s
  proof (cases "peek (s_pos s) = 0")
    case False
    then have ne: "s_pos s \<noteq> []" by (auto simp: peek_def)
    let ?r = "if peek (s_pos s) = 40 then group_item (parse_sequence n vocab rule_name True) rule_name is_nested s
      else sequence_item vocab rule_name is_nested s"
    have "step_ok (length (s_pos s)) ?r"
      using sequence_item_ok [OF ne] group_item_ok [OF Suc.IH _ ne] that by simp
    then consider e where "?r = Some (Inl e)" | "?r = Some (Inr None)"
      | s' where "?r = Some (Inr (Some s'))" "length (s_pos s') < length (s_pos s)"
      by (auto simp: step_ok_def split: option.splits sum.splits)
    then show ?thesis
    proof cases
      case (3 s')
      then have "length (s_pos s') < n" using that by simp
      with Suc.IH show ?thesis
        by (rule seq_okD) (use False 3 in auto)
    qed (use False in auto)
  qed simp
  then show ?case unfolding seq_ok_def by blast
qed (simp add: seq_ok_def)

lemma parse_alternates_ok:
  "\<exists>r. parse_alternates vocab src rule_name i nl P = Some r \<and>
     (\<forall>P' pos. r = Inr (P', pos) \<longrightarrow> length pos \<le> length src)"
  unfolding parse_alternates_def by (rule alternates_by_ok [OF parse_sequence_ok]) simp

lemma parse_rule_ok:
  "\<exists>r. parse_rule vocab P src = Some r \<and> (\<forall>P' pos. r = Inr (P', pos) \<longrightarrow> length pos < length src)"
proof (cases "parse_name src")
  case (Inr a)
  obtain nm e where a: "a = (nm, e)" by force
  from parse_name_length [of src nm e] Inr a have "length e < length src" by simp
  then have l: "length (parse_space e False) < length src" by (rule parse_space_le)
  obtain P1 i where g: "get_symbol_id P nm = (P1, i)" by force
  let ?q = "parse_space (drop 3 (parse_space e False)) True"
  have q: "length ?q < length src" using l by (intro parse_space_le) simp
  from parse_alternates_ok [of vocab ?q nm i False P1] obtain r where
    r: "parse_alternates vocab ?q nm i False P1 = Some r"
      "\<And>P' pos. r = Inr (P', pos) \<Longrightarrow> length pos < length src" using q by fastforce
  have sp: "length (parse_space xs True) < length src"
    if "xs \<in> {pos, tl pos, drop 2 pos}" "r = Inr (P', pos)" for xs P' pos
    using r(2) [OF that(2)] that(1) by (intro parse_space_le) auto
  have sp': "length (parse_space pos True) < length src" "length (parse_space (tl pos) True) < length src"
    "length (parse_space (drop 2 pos) True) < length src" if "r = Inr (P', pos)" for P' pos
    by (rule sp [OF _ that], simp)+
  show ?thesis
    using Inr a g r(1) sp' by (cases r) (auto simp: parse_rule_def Let_def)
qed (simp add: parse_rule_def)

lemma parse_rules_ok: "length pos < n \<Longrightarrow> \<exists>r. parse_rules n vocab P pos = Some r"
proof (induction n arbitrary: P pos)
  case (Suc n)
  from parse_rule_ok [of vocab P pos] obtain r where r: "parse_rule vocab P pos = Some r"
    "\<forall>P' pos'. r = Inr (P', pos') \<longrightarrow> length pos' < length pos" by blast
  show ?case
  proof (cases r)
    case (Inr a)
    obtain P' pos' where "a = (P', pos')" by force
    with Inr r Suc.prems Suc.IH [of pos' P'] show ?thesis by auto
  qed (use r in auto)
qed simp

lemma parse_total: "\<exists>r. parse vocab src = Some r"
proof -
  have "length (parse_space src True) < Suc (length src)"
    using parse_space_length [of src True] by simp
  from parse_rules_ok [OF this, of vocab "\<lparr>p_symbols = [], p_rules = []\<rparr>"] show ?thesis
    by (auto simp: parse_def split: sum.splits)
qed

text \<open>\<open>root ::= "a" [b-c]*\<close>\<close>

definition sample_text :: "byte list" where
  "sample_text = [114,111,111,116,32,58,58,61,32,34,97,34,32,91,98,45,99,93,42]"

lemma parse_sample:
  "parse None sample_text = Some (Inr
     \<lparr>p_symbols = [([114,111,111,116], 0), ([114,111,111,116,95,49], 1)],
      p_rules =
       [[Elem GRE_CHAR 97, Elem GRE_RULE_REF 1, Elem GRE_END 0],
        [Elem GRE_CHAR 98, Elem GRE_CHAR_RNG_UPPER 99, Elem GRE_RULE_REF 1, Elem GRE_ALT 0, Elem GRE_END 0]]\<rparr>)"
  by code_simp

end
