(* ===== verification/Gr_Parse_Wf.thy ===== *)
theory Gr_Parse_Wf
  imports Gr_Parser
begin

section \<open>What the grammar parser builds\<close>

text \<open>
  The invariant of the parser: symbol ids are consecutive, generated names are fresh, every rule is
  well formed and refers to symbols only. With the check at its end this makes every parsed grammar
  well formed, which is what the engine relies on.
\<close>

subsection \<open>Well-formed parts of a rule\<close>

text \<open>The state of \<open>wf_from\<close> after some elements, none of them an END.\<close>

fun after :: "nat \<Rightarrow> grammar_rule \<Rightarrow> nat option" where
  "after st [] = Some st"
| "after st (e # es) =
     (case el_type e of
        GRE_END \<Rightarrow> None
      | GRE_ALT \<Rightarrow> after 0 es
      | GRE_RULE_REF \<Rightarrow> after 0 es
      | GRE_TOKEN \<Rightarrow> after 0 es
      | GRE_TOKEN_NOT \<Rightarrow> after 0 es
      | GRE_CHAR_ANY \<Rightarrow> after 0 es
      | GRE_CHAR \<Rightarrow> after 2 es
      | GRE_CHAR_NOT \<Rightarrow> after 2 es
      | GRE_CHAR_ALT \<Rightarrow> if 1 \<le> st then after 2 es else None
      | GRE_CHAR_RNG_UPPER \<Rightarrow> if 2 \<le> st then after 1 es else None)"

definition wf_part :: "grammar_rule \<Rightarrow> bool" where
  "wf_part es \<longleftrightarrow> after 0 es \<noteq> None"

lemma after_append: "after st (es @ fs) = Option.bind (after st es) (\<lambda>st'. after st' fs)"
  by (induction es arbitrary: st) (auto split: gretype.splits)

lemma after_mono: "after 0 es \<noteq> None \<Longrightarrow> after st es \<noteq> None"
  by (cases es) (auto split: gretype.splits if_splits)

lemma wf_from_after: "after st es = Some st' \<Longrightarrow> wf_from st (es @ fs) \<longleftrightarrow> wf_from st' fs"
  by (induction es arbitrary: st) (auto split: gretype.splits if_splits)

lemma wf_part_simps [simp]:
  "wf_part []"
  "wf_part [Elem GRE_RULE_REF v]" "wf_part [Elem GRE_ALT v]" "wf_part [Elem GRE_CHAR v]"
  "wf_part [Elem GRE_CHAR_ANY v]" "wf_part [Elem GRE_TOKEN v]" "wf_part [Elem GRE_TOKEN_NOT v]"
  by (simp_all add: wf_part_def)

lemma wf_part_append: "wf_part es \<Longrightarrow> wf_part fs \<Longrightarrow> wf_part (es @ fs)"
  using after_mono [of fs] by (auto simp: wf_part_def after_append)

lemma wf_part_repeat: "wf_part es \<Longrightarrow> wf_part (concat (replicate n es))"
  by (induction n) (auto intro: wf_part_append)

lemma wf_part_rule: "wf_part es \<Longrightarrow> wf_from 0 (es @ [Elem GRE_END v])"
  by (auto simp: wf_part_def wf_from_after)

lemma wf_part_alt: "wf_part es \<Longrightarrow> wf_from 0 (es @ [Elem GRE_ALT v, Elem GRE_END w])"
  by (auto simp: wf_part_def wf_from_after)

subsection \<open>Symbols\<close>

definition plain_name :: "byte list \<Rightarrow> bool" where
  "plain_name nm \<longleftrightarrow> 95 \<notin> set nm"

definition name_ok :: "nat \<Rightarrow> byte list \<Rightarrow> bool" where
  "name_ok i nm \<longleftrightarrow> plain_name nm \<or> (\<exists>base. plain_name base \<and> nm = base @ [95] @ to_string i)"

definition ids_ok :: "parser \<Rightarrow> bool" where
  "ids_ok P \<longleftrightarrow> (\<forall>i < length (p_symbols P).
     snd (p_symbols P ! i) = of_nat i \<and> name_ok i (fst (p_symbols P ! i)))"

lemma to_string_inj: "to_string m = to_string n \<Longrightarrow> m = n"
proof (induction m arbitrary: n rule: to_string.induct)
  case (1 m)
  have ne: "to_string k \<noteq> []" for k by (subst to_string.simps) auto
  have d: "x = y" if "(of_nat (48 + x) :: byte) = of_nat (48 + y)" "x < 10" "y < 10" for x y
    using that by (simp add: word_unat_eq_iff unat_of_nat take_bit_eq_mod flip: of_nat_add)
  show ?case
  proof (cases "m < 10"; cases "n < 10")
    assume "m < 10" "n < 10"
    with "1.prems" show ?thesis
      by (simp add: to_string.simps [of m] to_string.simps [of n] d del: of_nat_add)
  next
    assume "m < 10" "\<not> n < 10"
    with "1.prems" ne show ?thesis
      by (auto simp: to_string.simps [of m] to_string.simps [of n] ne [symmetric] simp del: of_nat_add)
  next
    assume "\<not> m < 10" "n < 10"
    with "1.prems" ne show ?thesis
      by (auto simp: to_string.simps [of m] to_string.simps [of n] ne [symmetric] simp del: of_nat_add)
  next
    assume a: "\<not> m < 10" "\<not> n < 10"
    with "1.prems" have "to_string (m div 10) = to_string (n div 10)"
      "(of_nat (48 + m mod 10) :: byte) = of_nat (48 + n mod 10)"
      by (simp_all add: to_string.simps [of m] to_string.simps [of n] del: of_nat_add)
    with "1.IH" a(1) d [of "m mod 10" "n mod 10"] have "m div 10 = n div 10" "m mod 10 = n mod 10" by auto
    then show ?thesis by (metis div_mult_mod_eq)
  qed
qed

lemma generated_name_inj:
  assumes "base @ 95 # to_string i = base' @ 95 # to_string j" and "plain_name base" and "plain_name base'"
  shows "i = j"
proof -
  have "takeWhile (\<lambda>c. c \<noteq> 95) (b @ 95 # s) = b" if "plain_name b" for b and s :: "byte list"
    using that by (auto simp: plain_name_def takeWhile_append)
  with assms have "base = base'" by metis
  with assms(1) to_string_inj show ?thesis by simp
qed

lemma fresh_name:
  assumes "ids_ok P" and "plain_name base"
  shows "map_of (p_symbols P) (base @ [95] @ to_string (length (p_symbols P))) = None"
proof -
  let ?key = "base @ [95] @ to_string (length (p_symbols P))"
  have "fst (p_symbols P ! i) \<noteq> ?key" if "i < length (p_symbols P)" for i
  proof
    assume eq: "fst (p_symbols P ! i) = ?key"
    with assms(1) that have "name_ok i ?key" by (auto simp: ids_ok_def)
    with assms(2) show False
      using generated_name_inj [of base "length (p_symbols P)" _ i] that
      by (auto simp: name_ok_def plain_name_def)
  qed
  then show ?thesis by (auto simp: map_of_eq_None_iff in_set_conv_nth) (metis append_Cons append_Nil fst_conv)
qed

subsection \<open>The invariant of the parser\<close>

definition refs_ok :: "parser \<Rightarrow> grammar_rule \<Rightarrow> bool" where
  "refs_ok P es \<longleftrightarrow>
     (\<forall>e \<in> set es. el_type e = GRE_RULE_REF \<longrightarrow> unat (el_value e) < length (p_symbols P))"

definition rule_ok :: "parser \<Rightarrow> grammar_rule \<Rightarrow> bool" where
  "rule_ok P rule \<longleftrightarrow> wf_from 0 rule \<and> last rule = Elem GRE_END 0 \<and> refs_ok P rule"

definition rules_ok :: "parser \<Rightarrow> bool" where
  "rules_ok P \<longleftrightarrow> (\<forall>rule \<in> set (p_rules P). rule = [] \<or> rule_ok P rule)"

text \<open>Ids are 32 bits wide: nothing is claimed of a parser with more symbols than that.\<close>

abbreviation fits :: "parser \<Rightarrow> bool" where
  "fits P \<equiv> length (p_symbols P) < 2 ^ 32"

definition parser_ok :: "parser \<Rightarrow> bool" where
  "parser_ok P \<longleftrightarrow> (fits P \<longrightarrow> ids_ok P \<and> rules_ok P)"

definition grows :: "parser \<Rightarrow> parser \<Rightarrow> bool" where
  "grows P P' \<longleftrightarrow> length (p_symbols P) \<le> length (p_symbols P')"

lemma grows_trans [trans]: "grows P Q \<Longrightarrow> grows Q R \<Longrightarrow> grows P R"
  by (simp add: grows_def)

lemma grows_refl [simp]: "grows P P"
  by (simp add: grows_def)

lemma fits_grows: "grows P P' \<Longrightarrow> fits P' \<Longrightarrow> fits P"
  by (simp add: grows_def)

lemma refs_ok_simps [simp]:
  "refs_ok P []"
  "refs_ok P (es @ fs) \<longleftrightarrow> refs_ok P es \<and> refs_ok P fs"
  "refs_ok P (Elem t v # es) \<longleftrightarrow> (t = GRE_RULE_REF \<longrightarrow> unat v < length (p_symbols P)) \<and> refs_ok P es"
  by (auto simp: refs_ok_def)

lemma refs_ok_repeat: "refs_ok P es \<Longrightarrow> refs_ok P (concat (replicate n es))"
  by (induction n) auto

lemma refs_ok_grows: "refs_ok P es \<Longrightarrow> grows P P' \<Longrightarrow> refs_ok P' es"
  by (auto simp: refs_ok_def grows_def)

lemma rules_ok_grows: "rules_ok P \<Longrightarrow> grows P P' \<Longrightarrow> p_rules P' = p_rules P \<Longrightarrow> rules_ok P'"
  by (auto simp: rules_ok_def rule_ok_def intro: refs_ok_grows)

lemma unat_id: "n < 2 ^ 32 \<Longrightarrow> unat (of_nat n :: u32) = n"
  by (simp add: unat_of_nat take_bit_eq_mod)

lemma ids_ok_snoc:
  assumes "ids_ok P" and "name_ok (length (p_symbols P)) nm"
    and "p_symbols P' = p_symbols P @ [(nm, of_nat (length (p_symbols P)))]"
  shows "ids_ok P'"
  using assms by (auto simp: ids_ok_def nth_append less_Suc_eq)

lemma get_symbol_id_ok:
  assumes "parser_ok P" and "plain_name nm" and "get_symbol_id P nm = (P', i)"
  shows "parser_ok P'" "grows P P'" "fits P' \<Longrightarrow> unat i < length (p_symbols P')"
proof -
  show g: "grows P P'" using assms(3) by (auto simp: get_symbol_id_def grows_def Let_def split: option.splits)
  have "ids_ok P' \<and> rules_ok P' \<and> unat i < length (p_symbols P')" if f: "fits P'"
  proof -
    have ok: "ids_ok P" "rules_ok P" using assms(1) fits_grows [OF g f] by (auto simp: parser_ok_def)
    show ?thesis
    proof (cases "map_of (p_symbols P) nm")
      case None
      then have P': "P' = P\<lparr>p_symbols := p_symbols P @ [(nm, of_nat (length (p_symbols P)))]\<rparr>"
        "i = of_nat (length (p_symbols P))"
        using assms(3) by (auto simp: get_symbol_id_def Let_def)
      have "ids_ok P'" by (rule ids_ok_snoc [OF ok(1)]) (use P' assms(2) in \<open>auto simp: name_ok_def\<close>)
      moreover have "rules_ok P'" using rules_ok_grows [OF ok(2) g] P' by simp
      moreover have "unat i < length (p_symbols P')" using P' f by (simp add: unat_id)
      ultimately show ?thesis by simp
    next
      case (Some j)
      then have P': "P' = P" "i = j" using assms(3) by (auto simp: get_symbol_id_def)
      from map_of_SomeD [OF Some] obtain k where k: "k < length (p_symbols P)" "p_symbols P ! k = (nm, j)"
        by (auto simp: in_set_conv_nth)
      then have "j = of_nat k" using ok(1) by (auto simp: ids_ok_def)
      with k f P' ok show ?thesis by (simp add: unat_id)
    qed
  qed
  then show "parser_ok P'" "fits P' \<Longrightarrow> unat i < length (p_symbols P')" by (auto simp: parser_ok_def)
qed

lemma generate_symbol_id_fresh:
  assumes "ids_ok P" and "plain_name base" and "length (p_symbols P) < 2 ^ 32"
  shows "generate_symbol_id P base =
    (P\<lparr>p_symbols := p_symbols P @ [(base @ [95] @ to_string (length (p_symbols P)), of_nat (length (p_symbols P)))]\<rparr>,
     of_nat (length (p_symbols P)))"
  using fresh_name [OF assms(1,2)] by (simp add: generate_symbol_id_def Let_def unat_id [OF assms(3)])

lemma generate_symbol_id_ok:
  assumes "parser_ok P" and "plain_name base" and "generate_symbol_id P base = (P', i)"
  shows "parser_ok P'" "grows P P'" "fits P' \<Longrightarrow> unat i < length (p_symbols P')"
proof -
  show g: "grows P P'"
    using assms(3) by (auto simp: generate_symbol_id_def grows_def Let_def split: if_splits)
  have "ids_ok P' \<and> rules_ok P' \<and> unat i < length (p_symbols P')" if f: "fits P'"
  proof -
    have ok: "ids_ok P" "rules_ok P" using assms(1) fits_grows [OF g f] by (auto simp: parser_ok_def)
    have l: "fits P" using fits_grows [OF g f] .
    from generate_symbol_id_fresh [OF ok(1) assms(2) l] assms(3)
    have P': "P' = P\<lparr>p_symbols := p_symbols P @ [(base @ [95] @ to_string (length (p_symbols P)),
        of_nat (length (p_symbols P)))]\<rparr>" "i = of_nat (length (p_symbols P))" by auto
    have "ids_ok P'"
      by (rule ids_ok_snoc [OF ok(1)]) (use P' assms(2) in \<open>auto simp: name_ok_def\<close>)
    moreover have "rules_ok P'" using rules_ok_grows [OF ok(2) g] P' by simp
    moreover have "unat i < length (p_symbols P')" using P' l by (simp add: unat_id)
    ultimately show ?thesis by simp
  qed
  then show "parser_ok P'" "fits P' \<Longrightarrow> unat i < length (p_symbols P')" by (auto simp: parser_ok_def)
qed

lemma add_rule_symbols [simp]: "p_symbols (add_rule P i rule) = p_symbols P"
  by (simp add: add_rule_def Let_def)

lemma refs_ok_symbols: "p_symbols P' = p_symbols P \<Longrightarrow> refs_ok P' es = refs_ok P es"
  by (simp add: refs_ok_def)

lemma add_rule_ok:
  assumes "parser_ok P" and "fits P \<Longrightarrow> rule_ok P rule"
  shows "parser_ok (add_rule P i rule)"
proof -
  have sub: "set (p_rules (add_rule P i rule)) \<subseteq> insert rule (insert [] (set (p_rules P)))"
  proof -
    let ?rules = "if length (p_rules P) \<le> unat i
      then p_rules P @ replicate (unat i + 1 - length (p_rules P)) [] else p_rules P"
    have "p_rules (add_rule P i rule) = ?rules[unat i := rule]" by (simp add: add_rule_def Let_def)
    moreover have "set ?rules \<subseteq> insert [] (set (p_rules P))" by (auto simp: set_replicate_conv_if)
    ultimately show ?thesis using set_update_subset_insert [of ?rules "unat i" rule] by auto
  qed
  have refs: "rule_ok (add_rule P i rule) es = rule_ok P es" for es
    using refs_ok_symbols [of "add_rule P i rule" P] by (simp add: rule_ok_def)
  have "rules_ok (add_rule P i rule)" if "fits P"
    unfolding rules_ok_def
  proof
    fix r assume "r \<in> set (p_rules (add_rule P i rule))"
    with sub consider "r = rule" | "r = []" | "r \<in> set (p_rules P)" by blast
    then show "r = [] \<or> rule_ok (add_rule P i rule) r"
      by cases (use assms that refs in \<open>auto simp: parser_ok_def rules_ok_def\<close>)
  qed
  moreover have "ids_ok (add_rule P i rule) = ids_ok P" by (simp add: ids_ok_def)
  ultimately show ?thesis using assms(1) by (simp add: parser_ok_def)
qed

text \<open>What a repetition may be applied to: elements without ALT and END.\<close>

definition item :: "grammar_rule \<Rightarrow> bool" where
  "item es \<longleftrightarrow> wf_part es \<and> (\<forall>e \<in> set es. el_type e \<noteq> GRE_ALT)"

lemma rec_rules_ok:
  assumes "parser_ok P" and "plain_name base" and "wf_part prev" and "fits P \<Longrightarrow> refs_ok P prev"
    and "fits P \<Longrightarrow> \<not> first \<Longrightarrow> unat last_id < length (p_symbols P)"
    and "rec_rules n no_max first base prev last_id P = (P', i)"
  shows "parser_ok P' \<and> grows P P' \<and> (fits P' \<longrightarrow> 0 < n \<or> \<not> first \<longrightarrow> unat i < length (p_symbols P'))"
  using assms
proof (induction n arbitrary: first last_id P)
  case (Suc n)
  obtain P1 j where g: "generate_symbol_id P base = (P1, j)" by force
  note P1 = generate_symbol_id_ok [OF Suc.prems(1,2) g]
  define tail where "tail = (if \<not> first \<or> no_max then [Elem GRE_RULE_REF (if no_max then j else last_id)] else [])"
  let ?rule = "prev @ tail @ [Elem GRE_ALT 0, Elem GRE_END 0]"
  have rule: "rule_ok P1 ?rule" if "fits P1"
  proof -
    have f: "fits P" by (rule fits_grows [OF P1(2) that])
    have "wf_part (prev @ tail)" using Suc.prems(3) by (auto simp: tail_def intro: wf_part_append)
    moreover have "refs_ok P1 prev" using refs_ok_grows [OF Suc.prems(4) [OF f] P1(2)] .
    moreover have "refs_ok P1 tail"
      using P1(3) [OF that] Suc.prems(5) [OF f] P1(2) by (auto simp: tail_def grows_def)
    ultimately show ?thesis using wf_part_alt [of "prev @ tail" 0 0] by (simp add: rule_ok_def)
  qed
  let ?P2 = "add_rule P1 j ?rule"
  have eq: "rec_rules n no_max False base prev j ?P2 = (P', i)"
    using Suc.prems(6) by (simp add: g Let_def tail_def)
  have "parser_ok P' \<and> grows ?P2 P' \<and> (fits P' \<longrightarrow> 0 < n \<or> \<not> False \<longrightarrow> unat i < length (p_symbols P'))"
  proof (rule Suc.IH [OF add_rule_ok [OF P1(1) rule] Suc.prems(2,3) _ _ eq])
    show "refs_ok ?P2 prev" if "fits ?P2"
    proof -
      have "fits P" using that by (intro fits_grows [OF P1(2)]) simp
      from refs_ok_grows [OF Suc.prems(4) [OF this] P1(2)] show ?thesis by (simp add: refs_ok_symbols [of ?P2 P1])
    qed
    show "unat j < length (p_symbols ?P2)" if "fits ?P2" using P1(3) that by simp
  qed
  moreover from this have "grows P P'" using P1(2) by (simp add: grows_def)
  ultimately show ?case by simp
qed auto

subsection \<open>The assertion on the number of rules never fires\<close>

definition bounded :: "u64 \<Rightarrow> u64 \<Rightarrow> bool" where
  "bounded lo hi \<longleftrightarrow> lo \<le> max_repetition_threshold \<and> (hi = - 1 \<or> hi \<le> max_repetition_threshold)"

lemma total_rules_range:
  "bounded lo hi \<Longrightarrow> 1 \<le> unat (total_rules lo hi) \<and> unat (total_rules lo hi) \<le> 2000"
  by (auto simp: bounded_def total_rules_def max_repetition_threshold_def word_le_nat_alt word_less_nat_alt
      unat_gt_0 Suc_le_eq)

lemma n_rules_no_overflow:
  fixes n t :: u64
  assumes "1 \<le> n" and "n \<le> 2 ^ 32" and "1 \<le> unat t" and "unat t \<le> 2000"
  shows "1 \<le> n * t"
proof -
  have n: "1 \<le> unat n" "unat n \<le> 2 ^ 32" using assms(1,2) by (simp_all add: word_le_nat_alt)
  have "unat n * unat t \<le> 2 ^ 32 * 2000" using n assms(4) by (intro mult_le_mono)
  then have "unat (n * t) = unat n * unat t" by (simp add: unat_word_ariths)
  moreover have "1 \<le> unat n * unat t" using n(1) assms(3) by simp
  ultimately show ?thesis by (simp add: word_le_nat_alt)
qed

lemma parse_bounds_bounded:
  "parse_bounds nl src = Inr (lo, hi, pos) \<Longrightarrow> bounded lo hi"
  by (auto simp: parse_bounds_def Let_def bounded_def not_less split: if_splits sum.splits)

text \<open>No helper reports the assertion.\<close>

lemma no_assert_simps [simp]:
  "parse_hex src n \<noteq> Inl Assert_failed" "parse_name src \<noteq> Inl Assert_failed"
  "parse_int src \<noteq> Inl Assert_failed" "stoull ds \<noteq> Inl Assert_failed"
  by (auto simp: parse_hex_def parse_name_def parse_int_def stoull_def split: prod.splits)

lemma parse_char_no_assert [simp]: "parse_char src \<noteq> Inl Assert_failed"
  by (auto simp: parse_char_def Let_def)

lemma parse_token_no_assert [simp]: "parse_token vocab src \<noteq> Inl Assert_failed"
  by (auto simp: parse_token_def Let_def split: sum.splits option.splits prod.splits dest: sym)

lemma parse_bounds_no_assert [simp]: "parse_bounds nl src \<noteq> Inl Assert_failed"
  by (auto simp: parse_bounds_def Let_def split: sum.splits prod.splits dest: sym)

subsection \<open>The invariant of a sequence\<close>

definition seq_inv :: "seq_state \<Rightarrow> bool" where
  "seq_inv s \<longleftrightarrow> parser_ok (s_parser s) \<and> 1 \<le> s_prev s \<and> s_prev s \<le> 2 ^ 32
     \<and> s_last s \<le> length (s_rule s) \<and> wf_part (take (s_last s) (s_rule s))
     \<and> item (drop (s_last s) (s_rule s)) \<and> (fits (s_parser s) \<longrightarrow> refs_ok (s_parser s) (s_rule s))"

lemma seq_inv_wf_part: "seq_inv s \<Longrightarrow> wf_part (s_rule s)"
  using wf_part_append [of "take (s_last s) (s_rule s)" "drop (s_last s) (s_rule s)"]
  by (simp add: seq_inv_def item_def)

lemma seq_inv_push:
  assumes "seq_inv s" and "parser_ok (s_parser s')" and "grows (s_parser s) (s_parser s')"
    and "s_rule s' = s_rule s @ es" and "s_last s' = length (s_rule s)"
    and "1 \<le> s_prev s'" and "s_prev s' \<le> 2 ^ 32"
    and "item es" and "fits (s_parser s') \<Longrightarrow> refs_ok (s_parser s') es"
  shows "seq_inv s'"
proof -
  have "refs_ok (s_parser s') (s_rule s)" if "fits (s_parser s')"
    using assms(1) fits_grows [OF assms(3) that] refs_ok_grows [OF _ assms(3)] by (simp add: seq_inv_def)
  with assms seq_inv_wf_part [OF assms(1)] show ?thesis by (simp add: seq_inv_def)
qed

definition keeps :: "seq_state \<Rightarrow> (parse_error + seq_state option) option \<Rightarrow> bool" where
  "keeps s r \<longleftrightarrow> (case r of
       Some (Inl e) \<Rightarrow> e \<noteq> Assert_failed
     | Some (Inr (Some s')) \<Rightarrow> seq_inv s' \<and> grows (s_parser s) (s_parser s')
     | _ \<Rightarrow> True)"

lemma keeps_simps [simp]:
  "keeps s None" "keeps s (Some (Inl e)) \<longleftrightarrow> e \<noteq> Assert_failed" "keeps s (Some (Inr None))"
  "keeps s (Some (Inr (Some s'))) \<longleftrightarrow> seq_inv s' \<and> grows (s_parser s) (s_parser s')"
  by (simp_all add: keeps_def)

lemma handle_repetitions_ok:
  assumes "seq_inv s" and "plain_name base" and "bounded lo hi"
    and "handle_repetitions base (s_parser s) (s_rule s) (s_last s) (s_prev s) lo hi = Inr (P', rule', n')"
  shows "parser_ok P'" "grows (s_parser s) P'" "1 \<le> n'" "n' \<le> 2 ^ 32" "s_last s \<le> length rule'"
    "wf_part (take (s_last s) rule')" "item (drop (s_last s) rule')" "fits P' \<Longrightarrow> refs_ok P' rule'"
proof -
  let ?last = "s_last s" and ?rule = "s_rule s" and ?prev = "drop (s_last s) (s_rule s)"
  let ?total = "total_rules lo hi" and ?n = "unat (n_optional lo hi)"
  obtain P2 i where r2: "rec_rules ?n (hi = - 1) True base ?prev 0 (s_parser s) = (P2, i)" by force
  have "?last \<noteq> length ?rule" "\<not> s_prev s * ?total > max_repetition_threshold" "\<not> s_prev s * ?total < 1"
    using assms(4) unfolding handle_repetitions_def Let_def r2 by (simp_all split: if_split_asm)
  note g = this
  from assms(4) g have res: "P2 = P'" "n' = s_prev s * ?total"
    "rule' = (if n_optional lo hi > 0
       then (if lo = 0 then take ?last ?rule else ?rule @ concat (replicate (unat lo - 1) ?prev)) @ [Elem GRE_RULE_REF i]
       else (if lo = 0 then take ?last ?rule else ?rule @ concat (replicate (unat lo - 1) ?prev)))"
    unfolding handle_repetitions_def Let_def r2 by simp_all
  note r = r2 [unfolded res(1)] and n' = res(2)
  have guard: "s_prev s * ?total \<le> max_repetition_threshold" "1 \<le> s_prev s * ?total"
    using g(2,3) by (simp_all only: not_less)
  have rule': "rule' = (if lo = 0 then take ?last ?rule else ?rule @ concat (replicate (unat lo - 1) ?prev))
      @ (if n_optional lo hi > 0 then [Elem GRE_RULE_REF i] else [])"
    unfolding res(3) by simp
  have inv: "parser_ok (s_parser s)" "?last \<le> length ?rule" "wf_part (take ?last ?rule)" "item ?prev"
    "fits (s_parser s) \<Longrightarrow> refs_ok (s_parser s) ?rule"
    using assms(1) by (auto simp: seq_inv_def)
  have pr: "fits (s_parser s) \<Longrightarrow> refs_ok (s_parser s) ?prev"
    using inv(5) by (auto simp: refs_ok_def dest: in_set_dropD)
  have R: "parser_ok P'" "grows (s_parser s) P'" "fits P' \<Longrightarrow> 0 < ?n \<Longrightarrow> unat i < length (p_symbols P')"
    using rec_rules_ok [OF inv(1) assms(2) _ pr _ r] inv(4) by (auto simp: item_def)
  then show "parser_ok P'" "grows (s_parser s) P'" by blast+
  show "1 \<le> n'" using guard(2) n' by simp
  show "n' \<le> 2 ^ 32" using guard(1) n' by (simp add: max_repetition_threshold_def word_le_nat_alt)
  let ?new = "(if lo = 0 then [] else ?prev @ concat (replicate (unat lo - 1) ?prev))
      @ (if n_optional lo hi > 0 then [Elem GRE_RULE_REF i] else [])"
  have split: "rule' = take ?last ?rule @ ?new" unfolding rule' using append_take_drop_id [of ?last ?rule] by auto
  have len: "length (take ?last ?rule) = ?last" using inv(2) by simp
  show "?last \<le> length rule'" "wf_part (take ?last rule')" using inv(3) len by (simp_all add: split)
  have "wf_part ?new" using inv(4) by (auto simp: item_def intro!: wf_part_append wf_part_repeat)
  then have "item ?new" using inv(4) by (auto simp: item_def)
  then show "item (drop ?last rule')" using len by (simp add: split)
  show "refs_ok P' rule'" if f: "fits P'"
  proof -
    have "refs_ok P' ?rule" using inv(5) fits_grows [OF R(2) f] refs_ok_grows [OF _ R(2)] by blast
    then have "refs_ok P' (take ?last ?rule @ ?prev)" by simp
    then have "refs_ok P' (take ?last ?rule)" "refs_ok P' ?prev" by (simp_all only: refs_ok_simps)
    moreover have "0 < n_optional lo hi \<Longrightarrow> 0 < ?n" by (simp add: unat_gt_0)
    ultimately show ?thesis using R(3) [OF f] by (simp add: split refs_ok_repeat)
  qed
qed

lemma handle_repetitions_no_assert:
  assumes "seq_inv s" and "bounded lo hi"
  shows "handle_repetitions base P rule k (s_prev s) lo hi \<noteq> Inl Assert_failed"
proof -
  have "1 \<le> s_prev s * total_rules lo hi"
    using assms total_rules_range [OF assms(2)] by (intro n_rules_no_overflow) (auto simp: seq_inv_def)
  then show ?thesis by (auto simp: handle_repetitions_def Let_def not_less [symmetric] split: prod.splits)
qed

lemma repeat_item_keeps:
  assumes "seq_inv s" and "plain_name base" and "bounded lo hi"
  shows "keeps s (repeat_item base s pos lo hi)"
proof (cases "handle_repetitions base (s_parser s) (s_rule s) (s_last s) (s_prev s) lo hi")
  case (Inl e)
  then show ?thesis using handle_repetitions_no_assert [OF assms(1,3)] by (auto simp: repeat_item_def)
next
  case (Inr a)
  obtain P' rule' n' where a: "a = (P', rule', n')" by (cases a) auto
  from handle_repetitions_ok [OF assms Inr [unfolded a]] Inr a show ?thesis
    by (simp add: repeat_item_def seq_inv_def)
qed

subsection \<open>Items\<close>

definition no_refs :: "grammar_rule \<Rightarrow> bool" where
  "no_refs es \<longleftrightarrow> (\<forall>e \<in> set es. el_type e \<noteq> GRE_RULE_REF)"

lemma no_refs_ok: "no_refs es \<Longrightarrow> refs_ok P es"
  by (auto simp: no_refs_def refs_ok_def)

lemma literal_loop_items:
  "literal_loop n pos rule = Some r \<Longrightarrow> r \<noteq> Inl Assert_failed \<and>
     (\<forall>rule' pos'. r = Inr (rule', pos') \<longrightarrow> (\<exists>es. rule' = rule @ es \<and> item es \<and> no_refs es))"
proof (induction n arbitrary: pos rule)
  case (Suc n)
  show ?case
  proof (cases "peek pos = 34 \<or> peek pos = 0")
    case True
    with Suc.prems show ?thesis
      by (auto simp: literal_loop.simps item_def no_refs_def split: if_splits intro!: exI [of _ "[]"])
  next
    case False
    show ?thesis
    proof (cases "parse_char pos")
      case (Inl e)
      with False Suc.prems parse_char_no_assert [of pos] show ?thesis by (auto simp: literal_loop.simps)
    next
      case (Inr a)
      obtain c pos' where a: "a = (c, pos')" by force
      have "literal_loop n pos' (rule @ [Elem GRE_CHAR c]) = Some r"
        using Suc.prems False Inr a by (simp add: literal_loop.simps)
      note IH = Suc.IH [OF this]
      have "\<exists>es. rule' = rule @ es \<and> item es \<and> no_refs es" if "r = Inr (rule', p)" for rule' p
      proof -
        from IH that obtain es where "rule' = (rule @ [Elem GRE_CHAR c]) @ es" "item es" "no_refs es" by blast
        moreover from this have "item ([Elem GRE_CHAR c] @ es)"
          by (auto simp: item_def simp del: append_Cons append_Nil intro!: wf_part_append)
        ultimately show ?thesis by (intro exI [of _ "[Elem GRE_CHAR c] @ es"]) (auto simp: no_refs_def)
      qed
      with IH show ?thesis by blast
    qed
  qed
qed (simp add: literal_loop.simps)

text \<open>The members of a class read so far: none, or something that another member may follow.\<close>

definition class_part :: "grammar_rule \<Rightarrow> bool" where
  "class_part es \<longleftrightarrow> (es = [] \<or> (\<exists>st \<ge> 1. after 0 es = Some st))
     \<and> no_refs es \<and> (\<forall>e \<in> set es. el_type e \<noteq> GRE_ALT)"

lemma class_part_item: "class_part es \<Longrightarrow> item es"
  by (auto simp: class_part_def item_def wf_part_def)

lemma class_part_member:
  assumes "class_part es" and "t \<in> {GRE_CHAR, GRE_CHAR_NOT}"
  shows "class_part (es @ [Elem (if es = [] then t else GRE_CHAR_ALT) c])"
    and "class_part (es @ [Elem (if es = [] then t else GRE_CHAR_ALT) c, Elem GRE_CHAR_RNG_UPPER d])"
  using assms by (auto simp: class_part_def no_refs_def after_append)

lemma class_loop_items:
  "class_loop n t (length rule) pos (rule @ es) = Some r \<Longrightarrow> t \<in> {GRE_CHAR, GRE_CHAR_NOT} \<Longrightarrow> class_part es \<Longrightarrow>
     r \<noteq> Inl Assert_failed \<and> (\<forall>rule' pos'. r = Inr (rule', pos') \<longrightarrow> (\<exists>fs. rule' = rule @ fs \<and> class_part fs))"
proof (induction n arbitrary: pos es)
  case (Suc n)
  show ?case
  proof (cases "peek pos = 93 \<or> peek pos = 0")
    case True
    with Suc.prems show ?thesis by (auto simp: class_loop.simps split: if_splits)
  next
    case False
    show ?thesis
    proof (cases "parse_char pos")
      case (Inl e)
      with False Suc.prems parse_char_no_assert [of pos] show ?thesis by (auto simp: class_loop.simps)
    next
      case (Inr a)
      obtain c pos1 where a: "a = (c, pos1)" by force
      define es1 where "es1 = es @ [Elem (if es = [] then t else GRE_CHAR_ALT) c]"
      have es1: "class_part es1" "\<And>d. class_part (es1 @ [Elem GRE_CHAR_RNG_UPPER d])"
        using class_part_member [OF Suc.prems(3,2)] by (simp_all add: es1_def)
      have r1: "(rule @ es) @ [Elem (if length rule < length (rule @ es) then GRE_CHAR_ALT else t) c] = rule @ es1"
        by (simp add: es1_def)
      have step: "class_loop (Suc n) t (length rule) pos (rule @ es) =
          (if peek pos1 = 45 \<and> peek (tl pos1) \<noteq> 93 then
             (if peek (tl pos1) = 0 then Some (Inl Unexpected_end)
              else case parse_char (tl pos1) of
                Inl e \<Rightarrow> Some (Inl e)
              | Inr (d, pos2) \<Rightarrow> class_loop n t (length rule) pos2 ((rule @ es1) @ [Elem GRE_CHAR_RNG_UPPER d]))
           else class_loop n t (length rule) pos1 (rule @ es1))"
        using False Inr a by (simp only: class_loop.simps Let_def r1 de_Morgan_disj simp_thms if_False sum.case prod.case)
      show ?thesis
      proof (cases "peek pos1 = 45 \<and> peek (tl pos1) \<noteq> 93")
        case True
        with step Suc.prems(1) Suc.IH [OF _ Suc.prems(2) es1(2)] parse_char_no_assert [of "tl pos1"]
        show ?thesis by (auto split: if_splits sum.splits)
      next
        case False
        with step Suc.prems(1) Suc.IH [OF _ Suc.prems(2) es1(1), of pos1] show ?thesis by auto
      qed
    qed
  qed
qed (simp add: class_loop.simps)

lemma item_single [simp]:
  "item [Elem GRE_RULE_REF v]" "item [Elem GRE_CHAR_ANY v]" "item [Elem GRE_TOKEN v]" "item [Elem GRE_TOKEN_NOT v]"
  by (simp_all add: item_def)

lemma parse_name_plain: "parse_name src = Inr (nm, pos) \<Longrightarrow> plain_name nm"
proof -
  have "\<not> is_word_char 95" by (simp add: is_word_char_def is_digit_char_def)
  then have "plain_name (takeWhile is_word_char src)" by (auto simp: plain_name_def dest: set_takeWhileD)
  then show "parse_name src = Inr (nm, pos) \<Longrightarrow> plain_name nm" by (auto simp: parse_name_def split: if_splits)
qed

lemma push_keeps:
  assumes "seq_inv s" and "item es" and "no_refs es"
  shows "keeps s (Some (Inr (Some (s\<lparr>s_rule := s_rule s @ es, s_last := length (s_rule s), s_prev := 1, s_pos := pos\<rparr>))))"
proof -
  have "seq_inv (s\<lparr>s_rule := s_rule s @ es, s_last := length (s_rule s), s_prev := 1, s_pos := pos\<rparr>)"
    by (rule seq_inv_push [OF assms(1)]) (use assms in \<open>auto simp: seq_inv_def no_refs_ok\<close>)
  then show ?thesis by simp
qed

lemma sequence_item_keeps:
  assumes inv: "seq_inv s" and base: "plain_name base"
  shows "keeps s (sequence_item vocab base is_nested s)"
proof -
  note [simp] = sequence_item_def Let_def
  let ?c = "peek (s_pos s)"
  have rep: "keeps s (repeat_item base s pos lo hi)" if "bounded lo hi" for pos lo hi
    by (rule repeat_item_keeps [OF inv base that])
  consider "?c = 34" | "?c = 91" | "?c = 60 \<or> ?c = 33" | "?c \<notin> {34, 91, 60, 33}" "is_word_char ?c"
    | "?c = 46" | "?c \<notin> {34, 91, 60, 33, 46}" "\<not> is_word_char ?c" by blast
  then show ?thesis
  proof cases
    case 1
    show ?thesis
    proof (cases "literal_loop (length (s_pos s)) (tl (s_pos s)) (s_rule s)")
      case (Some r)
      from literal_loop_items [OF this] 1 Some show ?thesis
        by (cases r) (auto intro!: push_keeps [OF inv, simplified])
    qed (simp add: 1)
  next
    case 2
    have cls: "keeps s (case class_loop n t (length (s_rule s)) pos (s_rule s) of
        None \<Rightarrow> None
      | Some (Inl e) \<Rightarrow> Some (Inl e)
      | Some (Inr (rule', pos')) \<Rightarrow> Some (Inr (Some (s\<lparr>s_parser := s_parser s,
          s_rule := s_rule s @ drop (length (s_rule s)) rule', s_last := length (s_rule s), s_prev := 1,
          s_pos := parse_space (tl pos') is_nested\<rparr>))))" if "t \<in> {GRE_CHAR, GRE_CHAR_NOT}" for n t pos
    proof (cases "class_loop n t (length (s_rule s)) pos (s_rule s)")
      case (Some r)
      have "class_part []" by (simp add: class_part_def no_refs_def)
      from class_loop_items [of n t "s_rule s" pos "[]", unfolded append_Nil2, OF Some that this] Some
      show ?thesis by (cases r) (auto intro!: push_keeps [OF inv, simplified] class_part_item simp: class_part_def)
    qed simp
    from 2 cls [of GRE_CHAR] cls [of GRE_CHAR_NOT] show ?thesis by simp
  next
    case 3
    have "item [Elem t v] \<and> no_refs [Elem t v]" if "t \<in> {GRE_TOKEN, GRE_TOKEN_NOT}" for t v
      using that by (auto simp: no_refs_def)
    with 3 show ?thesis
      using parse_token_no_assert [of vocab "if ?c = 33 then tl (s_pos s) else s_pos s"]
      by (auto split: sum.splits intro!: push_keeps [OF inv, simplified])
  next
    case 4
    show ?thesis
    proof (cases "parse_name (s_pos s)")
      case (Inl e)
      with 4 show ?thesis using no_assert_simps(2) [of "s_pos s"] by auto
    next
      case (Inr a)
      obtain nm e where a: "a = (nm, e)" by force
      obtain P i where g: "get_symbol_id (s_parser s) nm = (P, i)" by force
      have "parser_ok (s_parser s)" using inv by (simp add: seq_inv_def)
      note P = get_symbol_id_ok [OF this parse_name_plain [OF Inr [unfolded a]] g]
      let ?s = "s\<lparr>s_parser := P, s_rule := s_rule s @ [Elem GRE_RULE_REF i], s_last := length (s_rule s),
        s_prev := 1, s_pos := parse_space e is_nested\<rparr>"
      have "seq_inv ?s" by (rule seq_inv_push [OF inv]) (use P in auto)
      with 4 Inr a g P(2) show ?thesis by simp
    qed
  next
    case 5
    have "\<not> is_word_char 46" by (simp add: is_word_char_def is_digit_char_def)
    with 5 show ?thesis using push_keeps [OF inv, of "[Elem GRE_CHAR_ANY 0]"] by (simp add: no_refs_def)
  next
    case 6
    have b: "bounded 0 (- 1)" "bounded 1 (- 1)" "bounded 0 1"
      by (simp_all add: bounded_def max_repetition_threshold_def word_le_nat_alt)
    from 6 rep b parse_bounds_bounded [of is_nested "tl (s_pos s)"] parse_bounds_no_assert [of is_nested "tl (s_pos s)"]
    show ?thesis by (auto split: sum.splits)
  qed
qed

subsection \<open>Sequences, alternates, rules\<close>

definition seq_keeps :: "(seq_state \<Rightarrow> (parse_error + seq_state) option) \<Rightarrow> bool" where
  "seq_keeps f \<longleftrightarrow> (\<forall>s r. seq_inv s \<longrightarrow> f s = Some r \<longrightarrow> r \<noteq> Inl Assert_failed \<and>
     (\<forall>s'. r = Inr s' \<longrightarrow> seq_inv s' \<and> grows (s_parser s) (s_parser s')))"

lemma seq_keepsD:
  assumes "seq_keeps f" and "seq_inv s" and "f s = Some r"
  shows "r \<noteq> Inl Assert_failed" "r = Inr s' \<Longrightarrow> seq_inv s'" "r = Inr s' \<Longrightarrow> grows (s_parser s) (s_parser s')"
  using assms by (auto simp: seq_keeps_def)

lemma alternates_loop_keeps:
  assumes "seq_keeps f"
  shows "seq_keeps (alternates_loop f k)"
proof (induction k)
  case (Suc k)
  have "r \<noteq> Inl Assert_failed \<and> (\<forall>s'. r = Inr s' \<longrightarrow> seq_inv s' \<and> grows (s_parser s) (s_parser s'))"
    if inv: "seq_inv s" and r: "alternates_loop f (Suc k) s = Some r" for s r
  proof (cases "peek (s_pos s) = 124")
    case True
    let ?rule = "s_rule s @ [Elem GRE_ALT 0]"
    let ?s = "s\<lparr>s_rule := ?rule, s_last := length ?rule, s_prev := 1, s_pos := parse_space (tl (s_pos s)) True\<rparr>"
    have "wf_part ?rule" using seq_inv_wf_part [OF inv] by (intro wf_part_append) simp_all
    then have inv': "seq_inv ?s" using inv by (simp add: seq_inv_def item_def)
    show ?thesis
    proof (cases "f ?s")
      case None
      with r True show ?thesis by (simp add: Let_def)
    next
      case (Some q)
      note q = seq_keepsD [OF assms inv' Some]
      show ?thesis
      proof (cases q)
        case (Inl e)
        with q(1) r True Some show ?thesis by (auto simp: Let_def)
      next
        case (Inr s2)
        with r True Some have r2: "alternates_loop f k s2 = Some r" by (simp add: Let_def)
        note R = seq_keepsD [OF Suc.IH q(2) [OF Inr] r2]
        from q(3) [OF Inr] R show ?thesis by (auto intro: grows_trans)
      qed
    qed
  next
    case False
    with r inv show ?thesis by auto
  qed
  then show ?case unfolding seq_keeps_def by blast
qed (simp add: seq_keeps_def)

lemma alternates_by_keeps:
  assumes "seq_keeps f" and "parser_ok P" and "alternates_by f src i P = Some r"
  shows "r \<noteq> Inl Assert_failed" "r = Inr (P', pos) \<Longrightarrow> parser_ok P' \<and> grows P P'"
proof -
  let ?s = "\<lparr>s_parser = P, s_rule = [], s_last = 0, s_prev = 1, s_pos = src\<rparr>"
  have inv: "seq_inv ?s" using assms(2) by (simp add: seq_inv_def item_def)
  have "r \<noteq> Inl Assert_failed \<and> (\<forall>P' pos. r = Inr (P', pos) \<longrightarrow> parser_ok P' \<and> grows P P')"
  proof (cases "f ?s")
    case (Some q)
    note q = seq_keepsD [OF assms(1) inv Some]
    show ?thesis
    proof (cases q)
      case (Inl e)
      with q(1) Some assms(3) show ?thesis by (auto simp: alternates_by_def)
    next
      case (Inr s1)
      show ?thesis
      proof (cases "alternates_loop f (Suc (length src)) s1")
        case L: (Some q')
        note q' = seq_keepsD [OF alternates_loop_keeps [OF assms(1)] q(2) [OF Inr] L]
        show ?thesis
        proof (cases q')
          case (Inl e)
          with q'(1) Some L \<open>q = Inr s1\<close> assms(3) show ?thesis by (auto simp: alternates_by_def)
        next
          case (Inr s2)
          note inv2 = q'(2) [OF Inr]
          have "parser_ok (add_rule (s_parser s2) i (s_rule s2 @ [Elem GRE_END 0]))"
            by (rule add_rule_ok)
              (use inv2 wf_part_rule [OF seq_inv_wf_part [OF inv2]] in \<open>auto simp: seq_inv_def rule_ok_def\<close>)
          moreover have "grows P (s_parser s2)"
            using q(3) [OF \<open>q = Inr s1\<close>] q'(3) [OF Inr] by (auto intro: grows_trans)
          ultimately show ?thesis
            using Some L \<open>q = Inr s1\<close> Inr assms(3) by (auto simp: alternates_by_def grows_def)
        qed
      qed (use Some Inr assms(3) in \<open>simp add: alternates_by_def\<close>)
    qed
  qed (use assms(3) in \<open>simp add: alternates_by_def\<close>)
  then show "r \<noteq> Inl Assert_failed" "r = Inr (P', pos) \<Longrightarrow> parser_ok P' \<and> grows P P'" by blast+
qed

lemma unat_ucast_64: "unat (ucast (x :: u32) :: u64) = unat x"
  using unsigned_less [where ?'a = nat, of x] by (simp add: unsigned_ucast_eq take_bit_nat_eq_self_iff)

lemma group_item_keeps:
  assumes "seq_keeps f" and inv: "seq_inv s" and "plain_name base"
  shows "keeps s (group_item f base is_nested s)"
proof -
  obtain P1 j where g: "generate_symbol_id (s_parser s) base = (P1, j)" by force
  have "parser_ok (s_parser s)" using inv by (simp add: seq_inv_def)
  note P1 = generate_symbol_id_ok [OF this assms(3) g]
  let ?pos = "parse_space (tl (s_pos s)) True"
  show ?thesis
  proof (cases "alternates_by f ?pos j P1")
    case (Some r)
    note A = alternates_by_keeps [OF assms(1) P1(1) Some]
    show ?thesis
    proof (cases r)
      case (Inl e)
      with A(1) Some g show ?thesis by (auto simp: group_item_def Let_def)
    next
      case (Inr a)
      obtain P2 pos2 where a: "a = (P2, pos2)" by force
      from A(2) Inr a have P2: "parser_ok P2" "grows P1 P2" by auto
      let ?n = "max 1 (of_nat (length (p_symbols P2)) - of_nat (length (p_symbols (s_parser s)))) :: u32"
      let ?s = "\<lparr>s_parser = P2, s_rule = s_rule s @ [Elem GRE_RULE_REF j], s_last = length (s_rule s),
        s_prev = ucast ?n, s_pos = parse_space (tl pos2) is_nested\<rparr>"
      have gr: "grows (s_parser s) P2" using P1(2) P2(2) by (rule grows_trans)
      have n: "1 \<le> (ucast ?n :: u64)" "(ucast ?n :: u64) \<le> 2 ^ 32"
      proof -
        have u: "unat (ucast ?n :: u64) = unat ?n" by (rule unat_ucast_64)
        have "1 \<le> ?n" by simp
        then have "1 \<le> unat ?n" by (metis unat_1 word_le_nat_alt)
        moreover have "unat ?n < 2 ^ 32" using unsigned_less [where ?'a = nat, of ?n] by simp
        ultimately show "1 \<le> (ucast ?n :: u64)" "(ucast ?n :: u64) \<le> 2 ^ 32"
          using u by (simp_all add: word_le_nat_alt)
      qed
      have "unat j < length (p_symbols P2)" if "fits P2"
        using P1(3) [OF fits_grows [OF P2(2) that]] P2(2) by (simp add: grows_def)
      then have "seq_inv ?s" by (intro seq_inv_push [OF inv]) (use P2 gr n in auto)
      with Some Inr a g gr show ?thesis by (simp add: group_item_def Let_def)
    qed
  qed (simp add: group_item_def Let_def g)
qed

lemma parse_sequence_keeps:
  assumes "plain_name base"
  shows "seq_keeps (parse_sequence n vocab base is_nested)"
proof (induction n arbitrary: is_nested)
  case (Suc n)
  have "r \<noteq> Inl Assert_failed \<and> (\<forall>s'. r = Inr s' \<longrightarrow> seq_inv s' \<and> grows (s_parser s) (s_parser s'))"
    if inv: "seq_inv s" and r: "parse_sequence (Suc n) vocab base is_nested s = Some r" for s r
  proof (cases "peek (s_pos s) = 0")
    case False
    let ?i = "if peek (s_pos s) = 40 then group_item (parse_sequence n vocab base True) base is_nested s
      else sequence_item vocab base is_nested s"
    have k: "keeps s ?i"
      using sequence_item_keeps [OF inv assms] group_item_keeps [OF Suc.IH inv assms] by simp
    from r False have r': "(case ?i of None \<Rightarrow> None | Some (Inl e) \<Rightarrow> Some (Inl e)
      | Some (Inr None) \<Rightarrow> Some (Inr s)
      | Some (Inr (Some s')) \<Rightarrow> parse_sequence n vocab base is_nested s') = Some r" by simp
    consider e where "?i = Some (Inl e)" | "?i = Some (Inr None)" | s' where "?i = Some (Inr (Some s'))"
      | "?i = None" by (metis not_None_eq sum.exhaust)
    then show ?thesis
    proof cases
      case (1 e)
      with k r' show ?thesis by auto
    next
      case 2
      with r' inv show ?thesis by auto
    next
      case (3 s')
      with k have s': "seq_inv s'" "grows (s_parser s) (s_parser s')" by auto
      from 3 r' have "parse_sequence n vocab base is_nested s' = Some r" by simp
      from seq_keepsD [OF Suc.IH s'(1) this] s'(2) show ?thesis by (auto intro: grows_trans)
    qed (use r' in simp)
  qed (use inv r in auto)
  then show ?case unfolding seq_keeps_def by blast
qed (simp add: seq_keeps_def)

lemma parse_rule_keeps:
  assumes "parser_ok P" and "parse_rule vocab P src = Some r"
  shows "r \<noteq> Inl Assert_failed \<and> (\<forall>P' pos. r = Inr (P', pos) \<longrightarrow> parser_ok P')"
proof (cases "parse_name src")
  case (Inl e)
  with assms(2) no_assert_simps(2) [of src] show ?thesis by (auto simp: parse_rule_def)
next
  case (Inr a)
  obtain nm e where a: "a = (nm, e)" by force
  note nm = parse_name_plain [OF Inr [unfolded a]]
  obtain P1 i where g: "get_symbol_id P nm = (P1, i)" by force
  note P1 = get_symbol_id_ok [OF assms(1) nm g]
  let ?q = "parse_space (drop 3 (parse_space e False)) True"
  note A = alternates_by_keeps [OF parse_sequence_keeps [OF nm] P1(1), of "Suc (length ?q)" vocab False ?q i,
      folded parse_alternates_def]
  show ?thesis
  proof (cases "parse_alternates vocab ?q nm i False P1")
    case None
    with assms(2) Inr a g show ?thesis by (auto simp: parse_rule_def Let_def split: if_splits)
  next
    case (Some q)
    show ?thesis
      using assms(2) Inr a g Some A [OF Some]
      by (cases q) (auto simp: parse_rule_def Let_def split: if_splits)
  qed
qed

lemma parse_rules_keeps:
  "parser_ok P \<Longrightarrow> parse_rules n vocab P pos = Some r \<Longrightarrow>
   r \<noteq> Inl Assert_failed \<and> (\<forall>P'. r = Inr P' \<longrightarrow> parser_ok P')"
proof (induction n arbitrary: P pos)
  case (Suc n)
  show ?case
  proof (cases "parse_rule vocab P pos")
    case (Some q)
    note q = parse_rule_keeps [OF Suc.prems(1) Some]
    show ?thesis
    proof (cases q)
      case (Inl e)
      with q Some Suc.prems show ?thesis by (auto split: if_splits)
    next
      case (Inr a)
      obtain P' pos' where "a = (P', pos')" by force
      with q Some Suc.prems Inr Suc.IH [of P' pos'] show ?thesis by (auto split: if_splits)
    qed
  qed (use Suc.prems in \<open>auto split: if_splits\<close>)
qed simp

subsection \<open>Parsed grammars are well formed\<close>

lemma validate_cases:
  "validate P = r \<Longrightarrow> r \<noteq> Inl Assert_failed \<and>
     (\<forall>P'. r = Inr P' \<longrightarrow> P' = P \<and> (\<forall>rule \<in> set (p_rules P). rule \<noteq> [] \<and> \<not> list_ex (ref_undefined P) rule))"
  by (auto simp: validate_def filter_empty_conv split: list.splits if_split_asm)

lemma parsed_parser_ok:
  assumes "parse vocab src = Some r"
  shows "r \<noteq> Inl Assert_failed"
    and "r = Inr P \<Longrightarrow> parser_ok P \<and> (\<forall>rule \<in> set (p_rules P). rule \<noteq> [] \<and> \<not> list_ex (ref_undefined P) rule)"
proof -
  let ?P0 = "\<lparr>p_symbols = [], p_rules = []\<rparr>"
  have P0: "parser_ok ?P0" by (simp add: parser_ok_def ids_ok_def rules_ok_def)
  let ?r = "parse_rules (Suc (length src)) vocab ?P0 (parse_space src True)"
  have "r \<noteq> Inl Assert_failed \<and> (r = Inr P \<longrightarrow> parser_ok P \<and>
      (\<forall>rule \<in> set (p_rules P). rule \<noteq> [] \<and> \<not> list_ex (ref_undefined P) rule))"
  proof (cases ?r)
    case (Some q)
    note q = parse_rules_keeps [OF P0 Some]
    show ?thesis
    proof (cases q)
      case (Inl e)
      with q Some assms show ?thesis by (auto simp: parse_def simp del: parse_rules.simps)
    next
      case (Inr Q)
      with Some assms have "validate Q = r" by (simp add: parse_def del: parse_rules.simps)
      from validate_cases [OF this] q Inr show ?thesis by auto
    qed
  qed (use assms in \<open>simp add: parse_def del: parse_rules.simps\<close>)
  then show "r \<noteq> Inl Assert_failed"
    and "r = Inr P \<Longrightarrow> parser_ok P \<and> (\<forall>rule \<in> set (p_rules P). rule \<noteq> [] \<and> \<not> list_ex (ref_undefined P) rule)"
    by blast+
qed

text \<open>C28. The parser of grammars returns on every byte string: every item of a sequence consumes input,
  every loop is bounded by what is left of it, and so is the nesting of groups. It never aborts: the
  assertion on the number of generated rules holds, because the product it looks at cannot wrap around to
  zero.\<close>

theorem parse_returns: "\<exists>r. parse vocab src = Some r \<and> r \<noteq> Inl Assert_failed"
  using parse_total [of vocab src] parsed_parser_ok(1) [of vocab src] by blast

lemma copy_rule_id: "wf_from st rule \<Longrightarrow> last rule = Elem GRE_END 0 \<Longrightarrow> copy_rule rule = rule"
proof (induction st rule rule: wf_from.induct)
  case (2 st e es)
  show ?case
  proof (cases "el_type e = GRE_END")
    case True
    with 2 show ?thesis by (simp add: copy_rule_def)
  next
    case False
    with 2 have "\<exists>st'. wf_from st' es" by (cases "el_type e") auto
    then have "es \<noteq> []" by (cases es) auto
    have "copy_rule es = es"
      using 2 False \<open>es \<noteq> []\<close> by (cases "el_type e") (auto split: if_splits)
    with False show ?thesis by (simp add: copy_rule_def)
  qed
qed simp

lemma parsed_rules:
  assumes "parse vocab src = Some (Inr P)" and "length (p_symbols P) < 2 ^ 32"
  shows "ids_ok P" "\<And>rule. rule \<in> set (p_rules P) \<Longrightarrow> rule_ok P rule \<and> \<not> list_ex (ref_undefined P) rule"
  using parsed_parser_ok(2) [OF assms(1) refl] assms(2) by (auto simp: parser_ok_def rules_ok_def)

lemma parsed_rules_wf:
  assumes "parse vocab src = Some (Inr P)" and "length (p_symbols P) < 2 ^ 32"
  shows "wf_rules (p_rules P) \<and> map copy_rule (p_rules P) = p_rules P"
proof
  note ok = parsed_rules [OF assms]
  have "unat (el_value e) < length (p_rules P)"
    if "rule \<in> set (p_rules P)" "e \<in> set rule" "el_type e = GRE_RULE_REF" for rule e
  proof -
    have v: "unat (el_value e) < length (p_symbols P)"
      using ok(2) [OF that(1)] that by (auto simp: rule_ok_def refs_ok_def)
    with ok(1) have "snd (p_symbols P ! unat (el_value e)) = el_value e" by (simp add: ids_ok_def)
    then have "el_value e \<in> snd ` set (p_symbols P)" using v by (metis nth_mem image_eqI)
    moreover have "\<not> ref_undefined P e" using ok(2) [OF that(1)] that(2) by (auto simp: list_ex_iff)
    ultimately show ?thesis using that(3) by (auto simp: ref_undefined_def not_le)
  qed
  with ok(2) show "wf_rules (p_rules P)" by (auto simp: wf_rules_def rule_ok_def)
  show "map copy_rule (p_rules P) = p_rules P"
    using ok(2) copy_rule_id by (intro map_idI) (auto simp: rule_ok_def)
qed

text \<open>C29. The rules of a successfully parsed grammar are well formed, as the engine needs them: every
  rule ends with its one END, character classes are built from a first member, further members and
  range ends in the right order, and every reference points to an existing rule; copying them up to
  END changes nothing. Symbol ids are 32 bits wide, hence the bound on their number.\<close>

theorem parse_wf_rules:
  assumes "parse vocab src = Some (Inr P)" and "length (p_symbols P) < 2 ^ 32"
  shows "wf_rules (p_rules P) \<and> map copy_rule (p_rules P) = p_rules P"
  using assms by (rule parsed_rules_wf)

lemma parse_wf_rules_witness:
  "wf_rules [[Elem GRE_CHAR 97, Elem GRE_RULE_REF 1, Elem GRE_END 0],
        [Elem GRE_CHAR 98, Elem GRE_CHAR_RNG_UPPER 99, Elem GRE_RULE_REF 1, Elem GRE_ALT 0, Elem GRE_END 0]]"
  using parse_wf_rules [OF parse_sample] by simp

end
