(* ===== verification/Gr_Repeat.thy ===== *)
theory Gr_Repeat
  imports Gr_Parse_Wf
begin

section \<open>What a repetition means\<close>

text \<open>
  \<open>handle_repetitions\<close> rewrites \<open>S{m,n}\<close> and its relatives into copies of \<open>S\<close> and a chain of
  generated rules. Read as a grammar, the result generates exactly the concatenations of \<open>m\<close> to
  \<open>n\<close> words of \<open>S\<close>.
\<close>

subsection \<open>Symbols of appended elements\<close>

abbreviation opens :: "grammar_rule \<Rightarrow> bool" where
  "opens es \<equiv> type_at es 0 \<notin> {GRE_CHAR_ALT, GRE_CHAR_RNG_UPPER}"

definition no_end :: "grammar_rule \<Rightarrow> bool" where
  "no_end es \<longleftrightarrow> (\<forall>e \<in> set es. \<not> is_end_of_sequence e)"

lemma type_at_append:
  assumes "k \<le> length es" and "opens tail" and "t \<in> {GRE_CHAR_ALT, GRE_CHAR_RNG_UPPER}"
  shows "type_at (es @ tail) k = t \<longleftrightarrow> type_at es k = t"
  using assms by (cases "k < length es") (auto simp: type_at_def nth_append split: if_splits)

text \<open>One member of a class and how many elements it takes.\<close>

definition member_range :: "grammar_rule \<Rightarrow> u32 \<times> u32" where
  "member_range es =
     (if type_at es 1 = GRE_CHAR_RNG_UPPER then (el_value (es ! 0), el_value (es ! 1))
      else if type_at es 0 = GRE_CHAR_ANY then (0, - 1)
      else (el_value (es ! 0), el_value (es ! 0)))"

definition member_width :: "grammar_rule \<Rightarrow> nat" where
  "member_width es = (if type_at es 1 = GRE_CHAR_RNG_UPPER then 2 else 1)"

lemma class_ranges_member:
  "class_ranges es =
     (if type_at es (member_width es) = GRE_CHAR_ALT
      then (member_range es # fst (class_ranges (drop (member_width es) es)),
            member_width es + snd (class_ranges (drop (member_width es) es)))
      else ([member_range es], member_width es))"
  by (subst class_ranges.simps) (simp add: member_width_def member_range_def split: prod.split)

lemma class_ranges_append:
  "es \<noteq> [] \<Longrightarrow> opens tail \<Longrightarrow>
   class_ranges (es @ tail) = class_ranges es \<and> snd (class_ranges es) \<le> length es"
proof (induction "length es" arbitrary: es rule: less_induct)
  case less
  let ?k = "member_width es"
  have len: "?k \<le> length es"
    using less.prems(1) by (cases es) (auto simp: member_width_def type_at_def Suc_le_eq split: if_splits)
  have t1: "type_at (es @ tail) 1 = GRE_CHAR_RNG_UPPER \<longleftrightarrow> type_at es 1 = GRE_CHAR_RNG_UPPER"
    using less.prems by (intro type_at_append) (auto simp: Suc_le_eq)
  then have k: "member_width (es @ tail) = ?k" by (simp add: member_width_def)
  have tk: "type_at (es @ tail) ?k = GRE_CHAR_ALT \<longleftrightarrow> type_at es ?k = GRE_CHAR_ALT"
    by (rule type_at_append [OF len less.prems(2)]) simp
  have v: "(es @ tail) ! 0 = es ! 0" "type_at (es @ tail) 0 = type_at es 0"
    "type_at es 1 = GRE_CHAR_RNG_UPPER \<Longrightarrow> (es @ tail) ! 1 = es ! 1"
    using less.prems(1) by (auto simp: nth_append type_at_def split: if_splits)
  have r: "member_range (es @ tail) = member_range es" using t1 v by (simp add: member_range_def)
  show ?case
  proof (cases "type_at es ?k = GRE_CHAR_ALT")
    case True
    then have ne: "drop ?k es \<noteq> []" by (auto simp: type_at_def split: if_splits)
    have "length (drop ?k es) < length es" using less.prems(1) by (auto simp: member_width_def)
    note IH = less.hyps [OF this ne less.prems(2)]
    then have "?k + snd (class_ranges (drop ?k es)) \<le> length es" using len by auto
    with IH True tk show ?thesis
      by (simp add: class_ranges_member [of "es @ tail"] class_ranges_member [of es] k r)
  next
    case False
    with tk len show ?thesis by (simp add: class_ranges_member [of "es @ tail"] class_ranges_member [of es] k r)
  qed
qed

lemma syms_append: "no_end es \<Longrightarrow> opens tail \<Longrightarrow> syms (es @ tail) = syms es @ syms tail"
proof (induction es rule: syms.induct)
  case (2 e es)
  have e: "\<not> is_end_of_sequence e" and es: "no_end es" using "2.prems"(1) by (auto simp: no_end_def)
  show ?case
  proof (cases "el_type e = GRE_RULE_REF \<or> is_token_type (el_type e)")
    case True
    then have "syms (es @ tail) = syms es @ syms tail"
      using "2.IH"(1) [OF e _ es "2.prems"(2)] "2.IH"(2) [OF e _ _ es "2.prems"(2)] by blast
    with True e show ?thesis by auto
  next
    case False
    from class_ranges_append [of "e # es" tail] "2.prems"(2) have
      c: "class_ranges ((e # es) @ tail) = class_ranges (e # es)" "snd (class_ranges (e # es)) \<le> length (e # es)"
      by auto
    have "no_end (drop (snd (class_ranges (e # es))) (e # es))"
      using "2.prems"(1) set_drop_subset [of _ "e # es"] by (fastforce simp: no_end_def)
    moreover have "drop (snd (class_ranges (e # es))) (e # es @ tail) = drop (snd (class_ranges (e # es))) (e # es) @ tail"
      using c(2) drop_append [of _ "e # es" tail] by simp
    ultimately show ?thesis using "2.IH"(3) [OF e] False "2.prems"(2) c e by simp
  qed
qed simp

lemma syms_stop [simp]: "is_end_of_sequence e \<Longrightarrow> syms (e # es) = []"
  by simp

lemma item_no_end: "item es \<Longrightarrow> no_end es"
proof -
  have "after st es \<noteq> None \<Longrightarrow> \<forall>e \<in> set es. el_type e \<noteq> GRE_END" for st
    by (induction es arbitrary: st) (auto split: gretype.splits if_splits)
  then show "item es \<Longrightarrow> no_end es"
    by (auto simp: item_def wf_part_def no_end_def is_end_of_sequence_def is_end_type_def)
qed

lemma wf_part_opens: "wf_part es \<Longrightarrow> opens es"
  by (cases es) (auto simp: wf_part_def)

lemma syms_repeat:
  assumes "item es" and "opens tail"
  shows "syms (concat (replicate n es) @ tail) = concat (replicate n (syms es)) @ syms tail"
    and "opens (concat (replicate n es) @ tail)"
proof -
  have "syms (concat (replicate n es) @ tail) = concat (replicate n (syms es)) @ syms tail \<and>
      opens (concat (replicate n es) @ tail)"
  proof (induction n)
    case (Suc n)
    have "opens (es @ concat (replicate n es) @ tail)"
      using assms Suc wf_part_opens [of es] by (cases es) (auto simp: item_def)
    with Suc assms show ?case by (simp add: syms_append item_no_end)
  qed (use assms in simp)
  then show "syms (concat (replicate n es) @ tail) = concat (replicate n (syms es)) @ syms tail"
    and "opens (concat (replicate n es) @ tail)" by auto
qed

subsection \<open>The chain of generated rules\<close>

lemma add_rule_nth:
  "unat i < length (p_rules (add_rule P i rule))" "p_rules (add_rule P i rule) ! unat i = rule"
  "k \<noteq> unat i \<Longrightarrow> k < length (p_rules P) \<Longrightarrow>
     k < length (p_rules (add_rule P i rule)) \<and> p_rules (add_rule P i rule) ! k = p_rules P ! k"
  by (auto simp: add_rule_def Let_def nth_append)

text \<open>The rule of the \<open>j\<close>-th round, when \<open>n\<close> symbols exist before the first round.\<close>

definition chain_rule :: "bool \<Rightarrow> nat \<Rightarrow> grammar_rule \<Rightarrow> nat \<Rightarrow> grammar_rule" where
  "chain_rule no_max n prev j =
     prev @ (if no_max then [Elem GRE_RULE_REF (of_nat (n + j))]
       else if j = 0 then [] else [Elem GRE_RULE_REF (of_nat (n + j - 1))]) @ [Elem GRE_ALT 0, Elem GRE_END 0]"

lemma rec_rules_chain:
  assumes "rec_rules m no_max (j = 0) base prev last_id P = (P', i)"
    and "ids_ok P" and "plain_name base" and "length (p_symbols P) + m < 2 ^ 32"
    and "length (p_symbols P) = n + j" and "0 < j \<Longrightarrow> last_id = of_nat (n + j - 1)"
    and "\<And>k. k < j \<Longrightarrow> n + k < length (p_rules P) \<and> p_rules P ! (n + k) = chain_rule no_max n prev k"
  shows "ids_ok P' \<and> length (p_symbols P') = n + j + m \<and> (0 < m + j \<longrightarrow> i = of_nat (n + j + m - 1))
    \<and> (\<forall>k < j + m. n + k < length (p_rules P') \<and> p_rules P' ! (n + k) = chain_rule no_max n prev k)"
  using assms
proof (induction m arbitrary: j last_id P)
  case (Suc m)
  let ?N = "length (p_symbols P)"
  let ?P1 = "P\<lparr>p_symbols := p_symbols P @ [(base @ [95] @ to_string ?N, of_nat ?N)]\<rparr>"
  let ?id = "of_nat ?N :: u32"
  have g: "generate_symbol_id P base = (?P1, ?id)"
    using Suc.prems by (intro generate_symbol_id_fresh) auto
  let ?P2 = "add_rule ?P1 ?id (chain_rule no_max n prev j)"
  have eq: "rec_rules m no_max (Suc j = 0) base prev ?id ?P2 = (P', i)"
    using Suc.prems(1,5,6) by (cases "j = 0") (auto simp: g Let_def chain_rule_def simp del: One_nat_def)
  have "unat ?id = ?N" using Suc.prems(4) by (intro unat_id) simp
  then have id: "unat ?id = n + j" using Suc.prems(5) by simp
  have "ids_ok ?P1"
    by (rule ids_ok_snoc [OF Suc.prems(2)]) (use Suc.prems(3) in \<open>auto simp: name_ok_def\<close>)
  then have ids: "ids_ok ?P2" by (simp add: ids_ok_def)
  have rules: "n + k < length (p_rules ?P2) \<and> p_rules ?P2 ! (n + k) = chain_rule no_max n prev k" if "k < Suc j" for k
  proof (cases "k = j")
    case True
    with add_rule_nth(1,2) [where i = ?id and P = ?P1] id show ?thesis by simp
  next
    case False
    with that Suc.prems(7) [of k] add_rule_nth(3) [where k = "n + k" and i = ?id and P = ?P1] id show ?thesis by simp
  qed
  have "ids_ok P' \<and> length (p_symbols P') = n + Suc j + m \<and> (0 < m + Suc j \<longrightarrow> i = of_nat (n + Suc j + m - 1))
    \<and> (\<forall>k < Suc j + m. n + k < length (p_rules P') \<and> p_rules P' ! (n + k) = chain_rule no_max n prev k)"
    by (rule Suc.IH [OF eq ids Suc.prems(3) _ _ _ rules]) (use Suc.prems(4,5) in auto)
  then show ?case by simp
qed auto

subsection \<open>The language of the chain\<close>

text \<open>\<open>k\<close> copies of a sequence of symbols.\<close>

abbreviation copies :: "nat \<Rightarrow> gsym list \<Rightarrow> gsym list" where
  "copies k ss \<equiv> concat (replicate k ss)"

lemma scan_to_end_no_end: "no_end es \<Longrightarrow> is_end_of_sequence e \<Longrightarrow> scan_to_end (es @ e # fs) 0 = length es"
  by (simp add: scan_to_end_def no_end_def takeWhile_append)

lemma alts_optional:
  assumes "rules ! r = es @ [Elem GRE_ALT 0, Elem GRE_END 0]" and "no_end es"
  shows "alts rules r = [syms es, []]"
proof -
  have e: "is_end_of_sequence (Elem GRE_ALT 0)" "is_end_of_sequence (Elem GRE_END 0)"
    by (simp_all add: is_end_of_sequence_def is_end_type_def)
  let ?rule = "es @ [Elem GRE_ALT 0, Elem GRE_END 0]"
  have "alt_starts ?rule 0 = [0, Suc (length es)]"
    using scan_to_end_no_end [OF assms(2) e(1)] e(2)
    by (simp add: alt_starts.simps [of _ 0] alt_starts.simps [of _ "Suc (length es)"] type_at_def nth_append Let_def
        scan_to_end_def)
  moreover have "syms ?rule = syms es" using syms_append [OF assms(2), of "[Elem GRE_ALT 0, Elem GRE_END 0]"] e by simp
  ultimately show ?thesis using e by (simp add: alts_def assms(1))
qed

lemma chain_alts:
  assumes "rules ! (n + j) = chain_rule no_max n prev j" and "item prev" and "n + j < 2 ^ 32"
  shows "alts rules (n + j) =
    [syms prev @ (if no_max then [Ref (n + j)] else if j = 0 then [] else [Ref (n + j - 1)]), []]"
proof -
  define tail where "tail = (if no_max then [Elem GRE_RULE_REF (of_nat (n + j))]
       else if j = 0 then [] else [Elem GRE_RULE_REF (of_nat (n + j - 1))])"
  have ne: "\<not> is_end_of_sequence (Elem GRE_RULE_REF v)" for v
    by (simp add: is_end_of_sequence_def is_end_type_def)
  have "no_end (prev @ tail)" "opens tail"
    using item_no_end [OF assms(2)] ne by (auto simp: no_end_def tail_def)
  moreover have "syms tail = (if no_max then [Ref (n + j)] else if j = 0 then [] else [Ref (n + j - 1)])"
    using assms(3) ne unat_id [of "n + j"] unat_id [of "n + (j - 1)"]
    by (cases j) (simp_all add: tail_def del: of_nat_add)
  moreover have "rules ! (n + j) = (prev @ tail) @ [Elem GRE_ALT 0, Elem GRE_END 0]"
    using assms(1) by (simp add: chain_rule_def tail_def)
  ultimately show ?thesis
    using alts_optional [of rules "n + j" "prev @ tail"] syms_append [OF item_no_end [OF assms(2)]] by simp
qed

lemma gen_bounded_chain:
  assumes "\<And>k. k \<le> j \<Longrightarrow> alts rules (n + k) = [ss @ (if k = 0 then [] else [Ref (n + k - 1)]), []]"
  shows "gen rules [Ref (n + j)] w \<longleftrightarrow> (\<exists>k \<le> Suc j. gen rules (copies k ss) w)"
  using assms
proof (induction j arbitrary: w)
  case 0
  then have "gen rules [Ref n] w \<longleftrightarrow> gen rules (copies 1 ss) w \<or> gen rules (copies 0 ss) w"
    using "0.prems" [of 0] by (simp add: gen_Ref_alts)
  then show ?case by (auto simp: le_Suc_eq)
next
  case (Suc j)
  have "gen rules [Ref (n + Suc j)] w \<longleftrightarrow> gen rules (ss @ [Ref (n + j)]) w \<or> w = []"
    using Suc.prems [of "Suc j"] by (simp add: gen_Ref_alts)
  also have "\<dots> \<longleftrightarrow> (\<exists>k \<le> Suc j. gen rules (copies (Suc k) ss) w) \<or> gen rules (copies 0 ss) w"
    using Suc.IH Suc.prems by (auto simp: gen_append)
  also have "\<dots> \<longleftrightarrow> (\<exists>k \<le> Suc (Suc j). gen rules (copies k ss) w)"
    by (metis Suc_le_mono le0 not0_implies_Suc)
  finally show ?case .
qed

lemma gen_unbounded_chain:
  assumes "alts rules r = [ss @ [Ref r], []]"
  shows "gen rules [Ref r] w \<longleftrightarrow> (\<exists>k. gen rules (copies k ss) w)"
proof
  have "\<exists>k. gen rules (us @ copies k ss) w" if "gen rules xs w" "xs = us @ [Ref r]" for xs us w
    using that
  proof (induction arbitrary: us)
    case (gen_Cls rs c pos xs w)
    then obtain us' where "us = Cls pos rs # us'" "xs = us' @ [Ref r]" by (cases us) auto
    with gen_Cls obtain k where "gen rules (us' @ copies k ss) w" by blast
    with \<open>us = Cls pos rs # us'\<close> gen_Cls.hyps(1) show ?case by (intro exI [of _ k]) auto
  next
    case (gen_Ref alt q u xs v)
    show ?case
    proof (cases us)
      case Nil
      with gen_Ref have q: "q = r" "v = []" by auto
      with gen_Ref.hyps(1) assms consider "alt = ss @ [Ref r]" | "alt = []" by auto
      then show ?thesis
      proof cases
        case 1
        with gen_Ref.IH(1) obtain k where "gen rules (ss @ copies k ss) u" by blast
        with q Nil show ?thesis by (intro exI [of _ "Suc k"]) simp
      next
        case 2
        with gen_Ref.hyps(2) q Nil show ?thesis by (intro exI [of _ 0]) simp
      qed
    next
      case (Cons x us')
      with gen_Ref have "x = Ref q" "xs = us' @ [Ref r]" by auto
      with gen_Ref obtain k where "gen rules (us' @ copies k ss) v" by blast
      with gen.gen_Ref [OF gen_Ref.hyps(1,2) this] Cons \<open>x = Ref q\<close> show ?thesis by (intro exI [of _ k]) simp
    qed
  qed simp
  then show "gen rules [Ref r] w \<Longrightarrow> \<exists>k. gen rules (copies k ss) w" by fastforce
next
  assume "\<exists>k. gen rules (copies k ss) w"
  then obtain k where "gen rules (copies k ss) w" ..
  then show "gen rules [Ref r] w"
  proof (induction k arbitrary: w)
    case 0
    then show ?case by (simp add: gen_Ref_alts assms)
  next
    case (Suc k)
    then obtain u v where "w = u @ v" "gen rules ss u" "gen rules (copies k ss) v" by (auto simp: gen_append)
    with Suc.IH have "gen rules (ss @ [Ref r]) w" by (auto simp: gen_append)
    then show ?case by (simp add: gen_Ref_alts assms)
  qed
qed

lemma gen_copies_add: "gen rules (copies m ss @ copies k ss) w = gen rules (copies (m + k) ss) w"
  by (simp add: replicate_add)

lemma handle_repetitions_cases:
  assumes "handle_repetitions base P rule k n lo hi = Inr (P', rule', n')"
  obtains i where "rec_rules (unat (n_optional lo hi)) (hi = - 1) True base (drop k rule) 0 P = (P', i)"
    and "rule' = take k rule @ concat (replicate (unat lo) (drop k rule))
      @ (if n_optional lo hi > 0 then [Elem GRE_RULE_REF i] else [])"
    and "k \<noteq> length rule" and "n * total_rules lo hi \<le> max_repetition_threshold"
proof -
  obtain P2 i where r: "rec_rules (unat (n_optional lo hi)) (hi = - 1) True base (drop k rule) 0 P = (P2, i)" by force
  have g: "k \<noteq> length rule" "\<not> n * total_rules lo hi > max_repetition_threshold" "\<not> n * total_rules lo hi < 1"
    using assms unfolding handle_repetitions_def Let_def r by (simp_all split: if_split_asm)
  from assms g have res: "P2 = P'"
    "rule' = (if n_optional lo hi > 0
       then (if lo = 0 then take k rule else rule @ concat (replicate (unat lo - 1) (drop k rule))) @ [Elem GRE_RULE_REF i]
       else (if lo = 0 then take k rule else rule @ concat (replicate (unat lo - 1) (drop k rule))))"
    unfolding handle_repetitions_def Let_def r by simp_all
  have "(if lo = 0 then take k rule else rule @ concat (replicate (unat lo - 1) (drop k rule)))
      = take k rule @ concat (replicate (unat lo) (drop k rule))"
  proof (cases "lo = 0")
    case False
    then have "unat lo = Suc (unat lo - 1)" by (simp add: unat_gt_0)
    then show ?thesis using False append_take_drop_id [of k rule] by (metis append_assoc concat.simps(2) replicate_Suc)
  qed simp
  with res r g(1,2) show ?thesis by (intro that) (auto simp: not_less)
qed

lemma n_optional_unat:
  "bounded lo hi \<Longrightarrow> hi = - 1 \<or> lo \<le> hi \<Longrightarrow>
   unat (n_optional lo hi) = (if hi = - 1 then 1 else unat hi - unat lo) \<and> unat (n_optional lo hi) \<le> 2000"
  by (auto simp: n_optional_def bounded_def max_repetition_threshold_def unat_sub word_le_nat_alt)

text \<open>C10. What a repetition means, for bounds as \<open>parse_bounds\<close> returns them and in order: \<open>lo\<close> is at most
  2000, and \<open>hi\<close> is absent (\<open>- 1\<close>; a bound above 2000 in the text has become absent) or at most 2000 and not
  below \<open>lo\<close>. The elements that replace the repeated item generate exactly the concatenations of at least
  \<open>lo\<close> and at most \<open>hi\<close> words of the item (any number from \<open>lo\<close> on if there is no upper bound), in every
  grammar that keeps the rules generated for the repetition. It is one item again, so a further repetition may
  follow. Bounds out of order are accepted by the parser but not covered: \<open>repetition_bounds_gap\<close> below.\<close>

theorem repetition_language:
  assumes "ids_ok P" and "plain_name base" and "item (drop k rule)"
    and "bounded lo hi" and "hi = - 1 \<or> lo \<le> hi" and "length (p_symbols P) + 2000 < 2 ^ 32"
    and "handle_repetitions base P rule k n lo hi = Inr (P', rule', n')"
    and "\<And>i. length (p_symbols P) \<le> i \<Longrightarrow> i < length (p_symbols P') \<Longrightarrow> rules ! i = p_rules P' ! i"
  shows "\<exists>new. rule' = take k rule @ new \<and> item new \<and> (\<forall>w. gen rules (syms new) w \<longleftrightarrow>
    (\<exists>m. unat lo \<le> m \<and> (hi \<noteq> - 1 \<longrightarrow> m \<le> unat hi) \<and> gen rules (copies m (syms (drop k rule))) w))"
proof -
  let ?prev = "drop k rule" and ?N = "length (p_symbols P)" and ?m = "unat (n_optional lo hi)"
  let ?s = "syms ?prev"
  obtain i where r: "rec_rules ?m (hi = - 1) True base ?prev 0 P = (P', i)"
    and rule': "rule' = take k rule @ concat (replicate (unat lo) ?prev)
      @ (if n_optional lo hi > 0 then [Elem GRE_RULE_REF i] else [])"
    using handle_repetitions_cases [OF assms(7)] by metis
  note m = n_optional_unat [OF assms(4,5)]
  have chain: "length (p_symbols P') = ?N + ?m" "0 < ?m \<Longrightarrow> i = of_nat (?N + ?m - 1)"
    "\<And>j. j < ?m \<Longrightarrow> p_rules P' ! (?N + j) = chain_rule (hi = - 1) ?N ?prev j"
    using rec_rules_chain [where j = 0 and n = ?N, simplified, OF r assms(1,2)] m assms(6) by auto
  have alts: "alts rules (?N + j) = [?s @ (if hi = - 1 then [Ref (?N + j)] else if j = 0 then [] else [Ref (?N + j - 1)]), []]"
    if "j < ?m" for j
    using chain(1) chain(3) [OF that] assms(8) [of "?N + j"] that m assms(6)
    by (intro chain_alts [where prev = ?prev]) (auto simp: assms(3))
  let ?ref = "if n_optional lo hi > 0 then [Elem GRE_RULE_REF i] else []"
  let ?new = "concat (replicate (unat lo) ?prev) @ ?ref"
  have item: "item ?new"
    using assms(3) by (auto simp: item_def intro!: wf_part_append wf_part_repeat)
  have pos: "n_optional lo hi > 0 \<longleftrightarrow> 0 < ?m" by (simp add: unat_gt_0 word_neq_0_conv)
  have ref: "gen rules (syms ?ref) v \<longleftrightarrow> (\<exists>j. (hi \<noteq> - 1 \<longrightarrow> j \<le> ?m) \<and> gen rules (copies j ?s) v)" for v
  proof (cases "0 < ?m")
    case False
    then show ?thesis using m pos by auto
  next
    case True
    have "?N + ?m - 1 = ?N + (?m - 1)" "?N + (?m - 1) < 2 ^ 32" using True conjunct2 [OF m] assms(6) by linarith+
    then have "unat i = ?N + (?m - 1)" using chain(2) [OF True] unat_id [of "?N + (?m - 1)"] by metis
    then have "syms ?ref = [Ref (?N + (?m - 1))]"
      using True pos by (simp add: is_end_of_sequence_def is_end_type_def)
    moreover have "gen rules [Ref (?N + (?m - 1))] v \<longleftrightarrow> (\<exists>j. (hi \<noteq> - 1 \<longrightarrow> j \<le> ?m) \<and> gen rules (copies j ?s) v)"
    proof (cases "hi = - 1")
      case h: True
      then have "?m = 1" using m by simp
      then show ?thesis using gen_unbounded_chain [of rules ?N ?s v] alts [of 0] h by simp
    next
      case h: False
      have "alts rules (?N + j) = [?s @ (if j = 0 then [] else [Ref (?N + j - 1)]), []]" if "j \<le> ?m - 1" for j
        using alts [of j] that True h by simp
      from gen_bounded_chain [OF this, of "?m - 1" v] True h show ?thesis by simp
    qed
    ultimately show ?thesis by simp
  qed
  have "gen rules (syms ?new) w \<longleftrightarrow> (\<exists>q. unat lo \<le> q \<and> (hi \<noteq> - 1 \<longrightarrow> q \<le> unat hi) \<and> gen rules (copies q ?s) w)" for w
  proof -
    have "syms ?new = copies (unat lo) ?s @ syms ?ref" by (rule syms_repeat(1) [OF assms(3)]) simp
    then have "gen rules (syms ?new) w \<longleftrightarrow>
        (\<exists>u v. w = u @ v \<and> gen rules (copies (unat lo) ?s) u \<and> gen rules (syms ?ref) v)"
      by (simp only: gen_append)
    also have "\<dots> \<longleftrightarrow> (\<exists>j. (hi \<noteq> - 1 \<longrightarrow> j \<le> ?m) \<and> gen rules (copies (unat lo) ?s @ copies j ?s) w)"
      unfolding ref gen_append by blast
    also have "\<dots> \<longleftrightarrow> (\<exists>j. (hi \<noteq> - 1 \<longrightarrow> j \<le> ?m) \<and> gen rules (copies (unat lo + j) ?s) w)"
      unfolding gen_copies_add ..
    also have "\<dots> \<longleftrightarrow> (\<exists>q. unat lo \<le> q \<and> (hi \<noteq> - 1 \<longrightarrow> q \<le> unat hi) \<and> gen rules (copies q ?s) w)"
    proof
      assume "\<exists>j. (hi \<noteq> - 1 \<longrightarrow> j \<le> ?m) \<and> gen rules (copies (unat lo + j) ?s) w"
      then obtain j where "hi \<noteq> - 1 \<longrightarrow> j \<le> ?m" "gen rules (copies (unat lo + j) ?s) w" by blast
      then show "\<exists>q. unat lo \<le> q \<and> (hi \<noteq> - 1 \<longrightarrow> q \<le> unat hi) \<and> gen rules (copies q ?s) w"
        using m assms(5) by (intro exI [of _ "unat lo + j"]) (auto simp: word_le_nat_alt)
    next
      assume "\<exists>q. unat lo \<le> q \<and> (hi \<noteq> - 1 \<longrightarrow> q \<le> unat hi) \<and> gen rules (copies q ?s) w"
      then obtain q where "unat lo \<le> q" "hi \<noteq> - 1 \<longrightarrow> q \<le> unat hi" "gen rules (copies q ?s) w" by blast
      then show "\<exists>j. (hi \<noteq> - 1 \<longrightarrow> j \<le> ?m) \<and> gen rules (copies (unat lo + j) ?s) w"
        using m by (intro exI [of _ "q - unat lo"]) auto
    qed
    finally show ?thesis .
  qed
  with rule' item show ?thesis by blast
qed

text \<open>\<open>"a"{1,3}\<close> in a rule \<open>r\<close>.\<close>

definition one_symbol :: parser where
  "one_symbol = \<lparr>p_symbols = [([114], 0)], p_rules = []\<rparr>"

definition one_repeated :: parser where
  "one_repeated = \<lparr>p_symbols = [([114], 0), ([114, 95, 49], 1), ([114, 95, 50], 2)],
     p_rules = [[], [Elem GRE_CHAR 97, Elem GRE_ALT 0, Elem GRE_END 0],
       [Elem GRE_CHAR 97, Elem GRE_RULE_REF 1, Elem GRE_ALT 0, Elem GRE_END 0]]\<rparr>"

lemma repetition_language_witness:
  "handle_repetitions [114] one_symbol [Elem GRE_CHAR 97] 0 1 1 3
     = Inr (one_repeated, [Elem GRE_CHAR 97, Elem GRE_RULE_REF 2], 3)
   \<and> gen (p_rules one_repeated) (syms [Elem GRE_CHAR 97, Elem GRE_RULE_REF 2]) [97, 97, 97]"
proof -
  have h: "handle_repetitions [114] one_symbol [Elem GRE_CHAR 97] 0 1 1 3
     = Inr (one_repeated, [Elem GRE_CHAR 97, Elem GRE_RULE_REF 2], 3)" by code_simp
  have ids: "ids_ok one_symbol" "plain_name [114]" "item (drop 0 [Elem GRE_CHAR 97])"
    by (simp_all add: ids_ok_def one_symbol_def name_ok_def plain_name_def item_def)
  have b: "bounded 1 3" "(3 :: u64) = - 1 \<or> (1 :: u64) \<le> 3" "length (p_symbols one_symbol) + 2000 < 2 ^ 32"
    by (simp_all add: bounded_def max_repetition_threshold_def word_le_nat_alt one_symbol_def)
  have sy: "syms [Elem GRE_CHAR 97] = [Cls True [(97, 97)]]" by code_simp
  have ex: "1 \<le> (3 :: nat) \<and> gen (p_rules one_repeated) (copies 3 (syms [Elem GRE_CHAR 97])) [97, 97, 97]"
    unfolding sy by (simp add: numeral_3_eq_3 in_ranges_def)
  from repetition_language [OF ids b h, of "p_rules one_repeated"] ex h show ?thesis
    by fastforce
qed

subsection \<open>Bounds that are not what they say\<close>

lemmas bounds_eval = parse_bounds_def parse_space_def parse_int_def stoull_def digits_value_def
  is_digit_char_def max_repetition_threshold_def word_le_nat_alt word_less_nat_alt Let_def

text \<open>The bounds in braces are not compared: for \<open>{3,2}\<close> the number of optional occurrences is
  \<open>2 - 3\<close> in 64 bits, the check on the number of generated rules counts two, and the loop starts on
  \<open>2 ^ 64 - 1\<close> rounds, each of which adds a rule. An upper bound above the threshold is dropped: \<open>{0,2001}\<close>
  is read as \<open>{0,}\<close>, which repeats without limit.\<close>

theorem repetition_bounds_gap:
  "parse_bounds False [51, 44, 50, 125] = Inr (3, 2, [])
   \<and> total_rules 3 2 = 2 \<and> n_optional 3 2 = 2 ^ 64 - 1
   \<and> (\<forall>base P e. handle_repetitions base P [e] 0 1 3 2 =
        (case rec_rules (2 ^ 64 - 1) False True base [e] 0 P of
           (P', i) \<Rightarrow> Inr (P', [e, e, e, Elem GRE_RULE_REF i], 2)))
   \<and> parse_bounds False [48, 44, 50, 48, 48, 49, 125] = Inr (0, - 1, [])"
proof (intro conjI allI)
  show n: "n_optional 3 2 = 2 ^ 64 - 1" by (simp add: n_optional_def)
  show t: "total_rules 3 2 = 2" by (simp add: total_rules_def word_less_nat_alt)
  have u: "unat (n_optional 3 2) = 2 ^ 64 - 1"
    by (simp add: n_optional_def unsigned_minus_1_eq_mask mask_eq_exp_minus_1)
  have "unat (3 :: u64) - 1 = Suc (Suc 0)" by code_simp
  then have r: "replicate (unat (3 :: u64) - 1) [e] = [[e], [e]]" for e :: grammar_element
    by (simp only: replicate.simps)
  show "handle_repetitions base P [e] 0 1 3 2 =
        (case rec_rules (2 ^ 64 - 1) False True base [e] 0 P of
           (P', i) \<Rightarrow> Inr (P', [e, e, e, Elem GRE_RULE_REF i], 2))" for base P e
    unfolding handle_repetitions_def Let_def t u r
    by (simp add: max_repetition_threshold_def n del: rec_rules.simps) (simp add: word_less_nat_alt word_le_nat_alt numeral_2_eq_2 split: prod.split)
next
  show "parse_bounds False [51, 44, 50, 125] = Inr (3, 2, [])"
    "parse_bounds False [48, 44, 50, 48, 48, 49, 125] = Inr (0, - 1, [])"
    by (simp_all add: bounds_eval)
qed

end
