(* ===== verification/Gr_Init.thy ===== *)
theory Gr_Init
  imports Gr_Sample Gr_Repeat
begin

section \<open>From the text of a grammar to the engine\<close>

text \<open>
  \<open>llama_grammar_init_impl\<close> on a text: parsing, the start symbol, and the construction of the engine
  from the parsed rules. The composition of the parser with the engine: text in, language out.
\<close>

text \<open>\<open>Done None\<close> is the null pointer, after each of the logged errors; \<open>Abort\<close> also stands for reading
  past the end of the vector of rules, which has no defined behaviour.\<close>

definition grammar_init_str ::
    "tokenizer \<Rightarrow> byte list \<Rightarrow> byte list \<Rightarrow> bool \<Rightarrow> 'pat list \<Rightarrow> token list \<Rightarrow> 'pat grammar option run" where
  "grammar_init_str vocab grammar_str grammar_root lazy patterns tokens =
     (case parse vocab grammar_str of
        None \<Rightarrow> None
      | Some (Inl e) \<Rightarrow> Some (Done None)
      | Some (Inr P) \<Rightarrow>
          if p_rules P = [] then Some (Done None)
          else (case map_of (p_symbols P) grammar_root of
             None \<Rightarrow> Some (Done None)
           | Some start_rule_index \<Rightarrow>
               (let vec_rules = map copy_rule (p_rules P) in
                if has_left_recursion vec_rules = Some False \<and> unat start_rule_index \<ge> length vec_rules
                then Some Abort
                else grammar_init_from vec_rules (unat start_rule_index) lazy patterns tokens)))"

text \<open>The engine of well-formed rules without left recursion, and the constructor on a text that parses to them.\<close>

lemma init_engine:
  assumes "wf_rules rules" and "\<not> left_recursive rules" and "start < length rules"
  shows "\<exists>g. grammar_init_from rules start lazy patterns tokens = Some (Done (Some g)) \<and> g_rules g = rules
    \<and> (\<forall>w. \<exists>r. accept_chars rules w (g_stacks g) = Some (Done r) \<and> ([] \<in> set r \<longleftrightarrow> gen rules [Ref start] w)
      \<and> (\<forall>v. gen_stacks rules (set r) v \<longleftrightarrow> gen rules [Ref start] (w @ v)))"
proof -
  note L = accept_language [OF engine_advancing [OF assms(1,2)] assms(3)]
  from L obtain s0 where s0: "initial_stacks rules start = Some (Done s0)" by blast
  let ?g = "\<lparr>g_rules = rules, g_stacks = s0, g_partial = start_utf8, g_lazy = lazy, g_awaiting = lazy,
    g_buffer = [], g_positions = [], g_trigger_tokens = tokens, g_trigger_patterns = patterns\<rparr>"
  have "grammar_init_from rules start lazy patterns tokens = Some (Done (Some ?g))"
    using not_left_recursive_check [OF assms(1,2)] s0 by (simp add: grammar_init_from_def)
  moreover have "\<exists>r. accept_chars rules w s0 = Some (Done r) \<and> ([] \<in> set r \<longleftrightarrow> gen rules [Ref start] w)
      \<and> (\<forall>v. gen_stacks rules (set r) v \<longleftrightarrow> gen rules [Ref start] (w @ v))" for w
    using L [of w] s0 by auto
  ultimately show ?thesis by (intro exI [of _ ?g]) simp
qed

lemma init_str_parsed:
  assumes "parse vocab src = Some (Inr P)" and "length (p_symbols P) < 2 ^ 32"
    and "map_of (p_symbols P) root = Some start" and "unat start < length (p_rules P)"
  shows "grammar_init_str vocab src root lazy patterns tokens =
    grammar_init_from (p_rules P) (unat start) lazy patterns tokens" "wf_rules (p_rules P)"
  using parsed_rules_wf [OF assms(1,2)] assms(1,3,4) by (auto simp: grammar_init_str_def Let_def)

text \<open>C4. From a text to its language, for every text that parses to rules with fewer than \<open>2\<^sup>3\<^sup>2\<close>
  symbols, and every name of a start symbol. If the start symbol is no symbol of the text, or there are no
  rules, or the left-recursion check refuses them, the constructor returns the null pointer. If the start
  symbol has no rule - its index is not below the number of rules - it reads past the end of the rules.
  Otherwise, unless the rules have a left recursion that the check does not see, it returns a grammar;
  fed with any string of characters its engine returns, the empty stack is among its stacks exactly if
  the start symbol generates the string, and the stacks generate exactly the strings that complete it.\<close>

theorem parsed_grammar_language:
  assumes "parse vocab src = Some (Inr P)" and "length (p_symbols P) < 2 ^ 32"
  shows "case map_of (p_symbols P) root of
      None \<Rightarrow> grammar_init_str vocab src root lazy patterns tokens = Some (Done None)
    | Some start \<Rightarrow>
        if p_rules P = [] \<or> has_left_recursion (p_rules P) = Some True
        then grammar_init_str vocab src root lazy patterns tokens = Some (Done None)
        else if length (p_rules P) \<le> unat start
        then grammar_init_str vocab src root lazy patterns tokens = Some Abort
        else left_recursive (p_rules P)
          \<or> (\<exists>g. grammar_init_str vocab src root lazy patterns tokens = Some (Done (Some g))
            \<and> g_rules g = p_rules P \<and> (\<forall>w. \<exists>r. accept_chars (g_rules g) w (g_stacks g) = Some (Done r)
              \<and> ([] \<in> set r \<longleftrightarrow> gen (p_rules P) [Ref (unat start)] w)
              \<and> (\<forall>v. gen_stacks (p_rules P) (set r) v \<longleftrightarrow> gen (p_rules P) [Ref (unat start)] (w @ v))))"
proof (cases "map_of (p_symbols P) root")
  case None
  then show ?thesis using assms(1) by (simp add: grammar_init_str_def)
next
  case (Some start)
  have wf: "map copy_rule (p_rules P) = p_rules P" "wf_rules (p_rules P)" using parsed_rules_wf [OF assms] by blast+
  obtain b where b: "has_left_recursion (p_rules P) = Some b" using has_left_recursion_decides [OF wf(2)] by blast
  show ?thesis
  proof (cases "p_rules P = [] \<or> b \<or> length (p_rules P) \<le> unat start")
    case True
    then show ?thesis
      using Some assms(1) b wf(1) by (cases b) (auto simp: grammar_init_str_def grammar_init_from_def Let_def)
  next
    case False
    then have st: "unat start < length (p_rules P)" by simp
    note I = init_str_parsed(1) [OF assms Some st, of lazy patterns tokens]
    show ?thesis
    proof (cases "left_recursive (p_rules P)")
      case nl: False
      from init_engine [OF wf(2) nl st, of lazy patterns tokens] obtain g where
        g: "grammar_init_str vocab src root lazy patterns tokens = Some (Done (Some g))" "g_rules g = p_rules P"
          "\<forall>w. \<exists>r. accept_chars (p_rules P) w (g_stacks g) = Some (Done r)
            \<and> ([] \<in> set r \<longleftrightarrow> gen (p_rules P) [Ref (unat start)] w)
            \<and> (\<forall>v. gen_stacks (p_rules P) (set r) v \<longleftrightarrow> gen (p_rules P) [Ref (unat start)] (w @ v))"
        unfolding I by blast
      have n: "\<not> (p_rules P = [] \<or> has_left_recursion (p_rules P) = Some True)" "\<not> length (p_rules P) \<le> unat start"
        using False b by auto
      show ?thesis
        unfolding Some option.case if_not_P [OF n(1)] if_not_P [OF n(2)]
        by (rule disjI2, rule exI [of _ g]) (simp add: g)
    qed (use Some False b in simp)
  qed
qed

definition sample_parsed :: parser where
  "sample_parsed =
     \<lparr>p_symbols = [([114,111,111,116], 0), ([114,111,111,116,95,49], 1)],
      p_rules =
       [[Elem GRE_CHAR 97, Elem GRE_RULE_REF 1, Elem GRE_END 0],
        [Elem GRE_CHAR 98, Elem GRE_CHAR_RNG_UPPER 99, Elem GRE_RULE_REF 1, Elem GRE_ALT 0, Elem GRE_END 0]]\<rparr>"

lemma sample_parsed_facts:
  "parse None sample_text = Some (Inr sample_parsed)"
  "length (p_symbols sample_parsed) = 2" "length (p_rules sample_parsed) = 2"
  "map_of (p_symbols sample_parsed) [114, 111, 111, 116] = Some 0"
  "has_left_recursion (p_rules sample_parsed) = Some False"
  "alts (p_rules sample_parsed) 0 = [[Cls True [(97, 97)], Ref 1]]"
  "alts (p_rules sample_parsed) (Suc 0) = [[Cls True [(98, 99)], Ref 1], []]"
  by (rule parse_sample [folded sample_parsed_def]) code_simp+

lemma parsed_grammar_language_witness:
  "\<exists>g. grammar_init_str None sample_text [114, 111, 111, 116] False ([] :: nat list) [] = Some (Done (Some g))
    \<and> (\<exists>r. accept_chars (g_rules g) [97, 98, 99] (g_stacks g) = Some (Done r) \<and> [] \<in> set r)"
proof -
  note f = sample_parsed_facts
  have nl: "\<not> left_recursive (p_rules sample_parsed)"
  proof (rule not_left_recursiveI [where f = "\<lambda>r. r"])
    show "r < r'" if "corner (p_rules sample_parsed) r r'" for r r'
    proof -
      from that have "r = 0 \<or> r = Suc 0" by (auto simp: corner_def f(3))
      with that show ?thesis by (auto simp: corner_def f(6,7) split: if_splits)
    qed
  qed
  have g: "gen (p_rules sample_parsed) [Ref 0] [97, 98, 99]"
    by (simp add: gen_Ref_alts f(6,7) in_ranges_def gen_Cls_eval del: gen_Cls_iff)
  have "length (p_symbols sample_parsed) < 2 ^ 32" "p_rules sample_parsed \<noteq> []" by (use f(2,3) in force)+
  with parsed_grammar_language [OF f(1), of "[114, 111, 111, 116]" False "[] :: nat list" "[]"] nl
  obtain h where "grammar_init_str None sample_text [114, 111, 111, 116] False ([] :: nat list) [] = Some (Done (Some h))"
    and h: "\<forall>w. \<exists>r. accept_chars (g_rules h) w (g_stacks h) = Some (Done r)
      \<and> ([] \<in> set r \<longleftrightarrow> gen (p_rules sample_parsed) [Ref (unat (0 :: u32))] w)
      \<and> (\<forall>v. gen_stacks (p_rules sample_parsed) (set r) v \<longleftrightarrow>
          gen (p_rules sample_parsed) [Ref (unat (0 :: u32))] (w @ v))" by (auto simp: f(3-5))
  with h [rule_format, of "[97, 98, 99]"] g show ?thesis by auto
qed

text \<open>The start symbol need not have a rule. A reference counts as a symbol as soon as it is read;
  when a repetition \<open>{0}\<close> drops the item again, neither the check for undefined rules nor the look-up of
  the start symbol notices: \<open>x ::= root{0}\<close> parses to one rule while \<open>root\<close> has index 1, and the loop over
  the alternates of the start rule reads past the end of the vector of rules.\<close>

theorem dropped_start_symbol:
  "parse None [120, 32, 58, 58, 61, 32, 114, 111, 111, 116, 123, 48, 125] = Some (Inr
     \<lparr>p_symbols = [([120], 0), ([114, 111, 111, 116], 1)], p_rules = [[Elem GRE_END 0]]\<rparr>)
   \<and> grammar_init_str None [120, 32, 58, 58, 61, 32, 114, 111, 111, 116, 123, 48, 125] [114, 111, 111, 116]
       False ([] :: nat list) [] = Some Abort"
  by (intro conjI) code_simp+

end
