(* ===== verification/Trie_Ac.thy ===== *)
theory Trie_Ac
  imports Gr_Utf8 "HOL-Library.Sublist"
begin

section \<open>Tries and the Aho-Corasick automaton\<close>

text \<open>
  \<open>common/trie.cpp\<close>: the trie of code points or tokens that matches delimiters, and the Aho-Corasick
  automaton built from it. The specification is in terms of words: every node stands for a prefix of an
  inserted word, the failure link of a node for its longest proper suffix that is a node, and reading
  a text ends in the longest suffix of the text that is a node.
\<close>

subsection \<open>The trie\<close>

text \<open>The children of a node in the order of \<open>std::map\<close>, ascending in the symbol.\<close>

record trie_node =
  tn_children :: "(u32 \<times> nat) list"
  tn_pattern :: int

record trie =
  tr_nodes :: "trie_node list"
  tr_n_patterns :: int

definition no_node :: trie_node where
  "no_node = \<lparr>tn_children = [], tn_pattern = - 1\<rparr>"

definition create_node :: "trie \<Rightarrow> trie \<times> nat" where
  "create_node t = (t\<lparr>tr_nodes := tr_nodes t @ [no_node]\<rparr>, length (tr_nodes t))"

definition empty_trie :: trie where
  "empty_trie = fst (create_node \<lparr>tr_nodes = [], tr_n_patterns = 0\<rparr>)"

definition child :: "trie \<Rightarrow> nat \<Rightarrow> u32 \<Rightarrow> nat option" where
  "child t u ch = map_of (tn_children (tr_nodes t ! u)) ch"

definition put_child :: "u32 \<Rightarrow> nat \<Rightarrow> (u32 \<times> nat) list \<Rightarrow> (u32 \<times> nat) list" where
  "put_child ch v cs = takeWhile (\<lambda>(k, _). k < ch) cs @ (ch, v) # dropWhile (\<lambda>(k, _). k < ch) cs"

definition set_child :: "nat \<Rightarrow> u32 \<Rightarrow> nat \<Rightarrow> trie \<Rightarrow> trie" where
  "set_child u ch v t = t\<lparr>tr_nodes := (tr_nodes t)[u := (tr_nodes t ! u)
     \<lparr>tn_children := put_child ch v (tn_children (tr_nodes t ! u))\<rparr>]\<rparr>"

fun insert_walk :: "trie \<Rightarrow> nat \<Rightarrow> u32 list \<Rightarrow> trie \<times> nat" where
  "insert_walk t current [] = (t, current)"
| "insert_walk t current (ch # chs) =
     (case child t current ch of
        None \<Rightarrow> (case create_node t of (t', v) \<Rightarrow> insert_walk (set_child current ch v t') v chs)
      | Some v \<Rightarrow> insert_walk t v chs)"

definition insert_symbols :: "trie \<Rightarrow> u32 list \<Rightarrow> trie \<times> int" where
  "insert_symbols t symbols =
     (case insert_walk t 0 symbols of
        (t', current) \<Rightarrow>
          if tn_pattern (tr_nodes t' ! current) < 0 then
            (t'\<lparr>tr_nodes := (tr_nodes t')[current := (tr_nodes t' ! current)\<lparr>tn_pattern := tr_n_patterns t'\<rparr>],
                tr_n_patterns := tr_n_patterns t' + 1\<rparr>, tr_n_patterns t')
          else (t', tn_pattern (tr_nodes t' ! current)))"

text \<open>A word as symbols: its code points up to the first undecodable place.\<close>

lemma parse_success_consumes:
  "status (common_parse_utf8_codepoint input pos) = Success \<Longrightarrow> 0 < bytes_consumed (common_parse_utf8_codepoint input pos)"
proof -
  have "check_conts input pos is = Some r \<Longrightarrow> status r \<noteq> Success" for "is" r
    by (induction "is") (auto simp: result_of_def split: if_splits)
  then show "status (common_parse_utf8_codepoint input pos) = Success \<Longrightarrow> ?thesis"
    by (auto simp: common_parse_utf8_codepoint_def Let_def result_of_def split: if_splits option.splits)
qed

function word_symbols :: "byte list \<Rightarrow> nat \<Rightarrow> u32 list" where
  "word_symbols word pos =
     (if pos < length word then
        (let result = common_parse_utf8_codepoint word pos in
         if status result \<noteq> Success then []
         else codepoint result # word_symbols word (pos + bytes_consumed result))
      else [])"
  by pat_completeness auto
termination
  by (relation "measure (\<lambda>(word, pos). length word - pos)") (auto dest: parse_success_consumes)

declare word_symbols.simps [simp del]

definition insert_word :: "trie \<Rightarrow> byte list \<Rightarrow> trie \<times> int" where
  "insert_word t word = insert_symbols t (word_symbols word 0)"

definition trie_of_words :: "byte list list \<Rightarrow> trie" where
  "trie_of_words words = fold (\<lambda>w t. fst (insert_word t w)) words empty_trie"

datatype match_result = NO_MATCH | PARTIAL_MATCH | COMPLETE_MATCH

function check_from :: "trie \<Rightarrow> byte list \<Rightarrow> nat \<Rightarrow> nat \<Rightarrow> match_result" where
  "check_from t sv current pos =
     (let stop = (if current \<noteq> 0 then PARTIAL_MATCH else NO_MATCH) in
      if pos < length sv then
        (let result = common_parse_utf8_codepoint sv pos in
         if status result \<noteq> Success then stop
         else (case child t current (codepoint result) of
             None \<Rightarrow> NO_MATCH
           | Some v \<Rightarrow>
               if tn_pattern (tr_nodes t ! v) \<ge> 0 then COMPLETE_MATCH
               else check_from t sv v (pos + bytes_consumed result)))
      else stop)"
  by pat_completeness auto
termination
  by (relation "measure (\<lambda>(t, sv, current, pos). length sv - pos)") (auto dest: parse_success_consumes)

declare check_from.simps [simp del]

definition check_at :: "trie \<Rightarrow> byte list \<Rightarrow> nat \<Rightarrow> match_result" where
  "check_at t sv start_pos = check_from t sv 0 start_pos"

subsection \<open>Nodes as words\<close>

text \<open>\<open>L ! v\<close> is the word that leads from the root to node \<open>v\<close>.\<close>

definition labelled :: "trie \<Rightarrow> u32 list list \<Rightarrow> bool" where
  "labelled t L \<longleftrightarrow> length L = length (tr_nodes t) \<and> L \<noteq> [] \<and> L ! 0 = [] \<and> distinct L
     \<and> (\<forall>u < length L. distinct (map fst (tn_children (tr_nodes t ! u)))
          \<and> (\<forall>ch v. child t u ch = Some v \<longleftrightarrow> v < length L \<and> L ! v = L ! u @ [ch]))
     \<and> (\<forall>l ch. l @ [ch] \<in> set L \<longrightarrow> l \<in> set L)"

text \<open>\<open>ps\<close> are the words inserted so far, each once, in the order of their indices.\<close>

definition trie_for :: "trie \<Rightarrow> u32 list list \<Rightarrow> u32 list list \<Rightarrow> bool" where
  "trie_for t L ps \<longleftrightarrow> labelled t L \<and> distinct ps \<and> tr_n_patterns t = int (length ps)
     \<and> set ps \<subseteq> set L \<and> (\<forall>l \<in> set L. l = [] \<or> (\<exists>p \<in> set ps. prefix l p))
     \<and> (\<forall>u < length L. if L ! u \<in> set ps
          then \<exists>i < length ps. tn_pattern (tr_nodes t ! u) = int i \<and> ps ! i = L ! u
          else tn_pattern (tr_nodes t ! u) = - 1)"

lemma empty_trie_for: "trie_for empty_trie [[]] []"
  by (auto simp: trie_for_def labelled_def empty_trie_def create_node_def child_def no_node_def)

lemma put_child_set: "set (put_child ch v cs) = insert (ch, v) (set cs)"
  by (metis put_child_def takeWhile_dropWhile_id set_append list.simps(15) Un_insert_right)

lemma put_child_keys:
  "distinct (map fst cs) \<Longrightarrow> map_of cs ch = None \<Longrightarrow> distinct (map fst (put_child ch v cs))"
proof -
  assume d: "distinct (map fst cs)" and n: "map_of cs ch = None"
  have "distinct (map fst (takeWhile (\<lambda>(k, _). k < ch) cs @ dropWhile (\<lambda>(k, _). k < ch) cs))"
    using d by simp
  moreover have "ch \<notin> fst ` set (takeWhile (\<lambda>(k, _). k < ch) cs) \<union> fst ` set (dropWhile (\<lambda>(k, _). k < ch) cs)"
    using n unfolding map_of_eq_None_iff by (metis image_Un set_append takeWhile_dropWhile_id)
  ultimately show ?thesis by (auto simp: put_child_def simp del: takeWhile_dropWhile_id)
qed

lemma put_child_map:
  assumes "distinct (map fst cs)" and "map_of cs ch = None"
  shows "map_of (put_child ch v cs) = (map_of cs)(ch \<mapsto> v)"
proof
  fix k
  have d: "distinct (map fst (put_child ch v cs))" by (rule put_child_keys [OF assms])
  show "map_of (put_child ch v cs) k = ((map_of cs)(ch \<mapsto> v)) k"
  proof (cases "map_of (put_child ch v cs) k")
    case None
    then have "k \<notin> fst ` insert (ch, v) (set cs)" by (simp only: map_of_eq_None_iff put_child_set not_False_eq_True)
    then have "k \<noteq> ch" "map_of cs k = None" by (simp_all add: map_of_eq_None_iff)
    with None show ?thesis by simp
  next
    case (Some x)
    from map_of_SomeD [OF this] have "(k, x) \<in> insert (ch, v) (set cs)" by (simp only: put_child_set)
    with Some assms show ?thesis by (cases "k = ch") (force simp: map_of_eq_None_iff)+
  qed
qed

definition walk_inv :: "trie \<Rightarrow> u32 list list \<Rightarrow> u32 list list \<Rightarrow> bool" where
  "walk_inv t L ps \<longleftrightarrow> labelled t L \<and> distinct ps \<and> tr_n_patterns t = int (length ps) \<and> set ps \<subseteq> set L
     \<and> (\<forall>u < length L. if L ! u \<in> set ps
          then \<exists>i < length ps. tn_pattern (tr_nodes t ! u) = int i \<and> ps ! i = L ! u
          else tn_pattern (tr_nodes t ! u) = - 1)"

lemma trie_for_walk_inv:
  "trie_for t L ps \<longleftrightarrow> walk_inv t L ps \<and> (\<forall>l \<in> set L. l = [] \<or> (\<exists>p \<in> set ps. prefix l p))"
  by (auto simp: trie_for_def walk_inv_def)

lemma labelledD:
  assumes "labelled t L"
  shows "length (tr_nodes t) = length L" "0 < length L" "L ! 0 = []" "distinct L"
    "\<And>u ch v. u < length L \<Longrightarrow> child t u ch = Some v \<longleftrightarrow> v < length L \<and> L ! v = L ! u @ [ch]"
    "\<And>u. u < length L \<Longrightarrow> distinct (map fst (tn_children (tr_nodes t ! u)))"
    "\<And>l ch. l @ [ch] \<in> set L \<Longrightarrow> l \<in> set L"
  using assms by (auto simp: labelled_def)

lemma child_None:
  assumes "labelled t L" and "u < length L"
  shows "child t u ch = None \<longleftrightarrow> L ! u @ [ch] \<notin> set L"
proof -
  have "child t u ch = None \<longleftrightarrow> \<not> (\<exists>v. child t u ch = Some v)" by simp
  also have "\<dots> \<longleftrightarrow> L ! u @ [ch] \<notin> set L"
    using labelledD(5) [OF assms] by (auto simp: in_set_conv_nth)
  finally show ?thesis .
qed

lemma new_child_inv:
  assumes "walk_inv t L ps" and "u < length L" and "child t u ch = None"
  shows "walk_inv (set_child u ch (length (tr_nodes t)) (fst (create_node t))) (L @ [L ! u @ [ch]]) ps"
proof -
  let ?n = "length L" and ?l = "L ! u @ [ch]"
  let ?t = "set_child u ch (length (tr_nodes t)) (fst (create_node t))"
  have lab: "labelled t L" using assms(1) by (simp add: walk_inv_def)
  note L = labelledD [OF lab]
  have new: "?l \<notin> set L" using child_None [OF lab assms(2)] assms(3) by simp
  have nodes: "tr_nodes ?t = (tr_nodes t @ [no_node])[u := (tr_nodes t ! u)
      \<lparr>tn_children := put_child ch ?n (tn_children (tr_nodes t ! u))\<rparr>]"
    using assms(2) L(1) by (simp add: set_child_def create_node_def nth_append)
  have at: "tr_nodes ?t ! x = (if x = u then (tr_nodes t ! u)\<lparr>tn_children := put_child ch ?n (tn_children (tr_nodes t ! u))\<rparr>
      else if x = ?n then no_node else tr_nodes t ! x)" if "x < Suc ?n" for x
    using that assms(2) L(1) unfolding nodes by (auto simp: nth_list_update nth_append)
  have keys: "distinct (map fst (tn_children (tr_nodes t ! u)))" "map_of (tn_children (tr_nodes t ! u)) ch = None"
    using L(6) [OF assms(2)] assms(3) by (simp_all add: child_def)
  have ch': "child ?t x c = (if x = u \<and> c = ch then Some ?n else if x = ?n then None else child t x c)"
    if "x < Suc ?n" for x c
    using that assms(2) put_child_map [OF keys, of ?n] by (auto simp: child_def at no_node_def)
  have len': "length (tr_nodes ?t) = Suc ?n" unfolding nodes using L(1) by simp
  have nth: "x < ?n \<Longrightarrow> (L @ [?l]) ! x = L ! x" "(L @ [?l]) ! ?n = ?l" for x
    by (auto simp: nth_append)
  have children: "child ?t x c = Some v \<longleftrightarrow> v < Suc ?n \<and> (L @ [?l]) ! v = (L @ [?l]) ! x @ [c]"
    if x: "x < Suc ?n" for x c v
  proof (cases "x = ?n")
    case True
    have "L ! v \<noteq> ?l @ [c]" if "v < ?n" for v
      using that L(7) [of ?l c] new by (metis nth_mem)
    with True show ?thesis using ch' [of x c] assms(2) by (auto simp: nth less_Suc_eq)
  next
    case False
    then have xn: "x < ?n" using x by simp
    have "?l = L ! x @ [c] \<longleftrightarrow> x = u \<and> c = ch"
      using xn assms(2) L(4) by (auto simp: nth_eq_iff_index_eq)
    moreover have "\<not> (\<exists>v < ?n. L ! v = L ! u @ [ch])" using new by (auto simp: in_set_conv_nth)
    ultimately show ?thesis
      using ch' [OF x, of c] L(5) [OF xn, of c v] xn by (auto simp: nth_append less_Suc_eq)
  qed
  have "labelled ?t (L @ [?l])"
    unfolding labelled_def
  proof (intro conjI allI impI)
    fix x assume x: "x < length (L @ [?l])"
    show "distinct (map fst (tn_children (tr_nodes ?t ! x)))"
      using x L(6) put_child_keys [OF keys] by (auto simp: at no_node_def)
    show "child ?t x c = Some v \<longleftrightarrow> v < length (L @ [?l]) \<and> (L @ [?l]) ! v = (L @ [?l]) ! x @ [c]" for c v
      using children [of x c v] x by simp
  next
    fix l c assume "l @ [c] \<in> set (L @ [?l])"
    then show "l \<in> set (L @ [?l])" using L(7) [of l c] assms(2) by auto
  qed (use L new len' in \<open>auto simp: nth_append\<close>)
  moreover have "tn_pattern (tr_nodes ?t ! x) = (if x = ?n then - 1 else tn_pattern (tr_nodes t ! x))"
    if "x < Suc ?n" for x
    using that assms(2) by (auto simp: at no_node_def)
  moreover have "tr_n_patterns ?t = tr_n_patterns t" by (simp add: set_child_def create_node_def)
  moreover have "?l \<notin> set ps" using new assms(1) by (auto simp: walk_inv_def)
  ultimately show ?thesis using assms(1) unfolding walk_inv_def
    by (auto simp: nth less_Suc_eq)
qed

lemma insert_walk_inv:
  assumes "walk_inv t L ps" and "u < length L" and "insert_walk t u w = (t', v)"
  shows "\<exists>L'. walk_inv t' L' ps \<and> v < length L' \<and> L' ! v = L ! u @ w \<and> set L \<subseteq> set L'
    \<and> set L' \<subseteq> set L \<union> {L ! u @ q |q. prefix q w}"
  using assms
proof (induction w arbitrary: t L u)
  case (Cons ch w)
  have lab: "labelled t L" using Cons.prems(1) by (simp add: walk_inv_def)
  show ?case
  proof (cases "child t u ch")
    case None
    let ?t = "set_child u ch (length (tr_nodes t)) (fst (create_node t))" and ?L = "L @ [L ! u @ [ch]]"
    have inv: "walk_inv ?t ?L ps" by (rule new_child_inv [OF Cons.prems(1,2) None])
    have len: "length L = length (tr_nodes t)" using labelledD(1) [OF lab] by simp
    have "insert_walk ?t (length L) w = (t', v)"
      using Cons.prems(3) None by (simp add: create_node_def len)
    from Cons.IH [OF inv _ this] obtain L' where L': "walk_inv t' L' ps" "v < length L'"
      "L' ! v = (L ! u @ [ch]) @ w" "set ?L \<subseteq> set L'"
      "set L' \<subseteq> set ?L \<union> {(L ! u @ [ch]) @ q |q. prefix q w}" by auto
    have "set L' \<subseteq> set L \<union> {L ! u @ q |q. prefix q (ch # w)}"
    proof
      fix l assume "l \<in> set L'"
      with L'(5) consider "l \<in> set L" | "l = L ! u @ [ch]" | q where "l = L ! u @ ch # q" "prefix q w" by auto
      then show "l \<in> set L \<union> {L ! u @ q |q. prefix q (ch # w)}"
        by cases (auto intro: exI [of _ "[ch]"])
    qed
    with L' show ?thesis by (intro exI [of _ L']) auto
  next
    case (Some x)
    then have x: "x < length L" "L ! x = L ! u @ [ch]" using labelledD(5) [OF lab Cons.prems(2)] by auto
    have "insert_walk t x w = (t', v)" using Cons.prems(3) Some by simp
    from Cons.IH [OF Cons.prems(1) x(1) this] x(2) obtain L' where L': "walk_inv t' L' ps" "v < length L'"
      "L' ! v = (L ! u @ [ch]) @ w" "set L \<subseteq> set L'"
      "set L' \<subseteq> set L \<union> {(L ! u @ [ch]) @ q |q. prefix q w}" by auto
    then have "set L' \<subseteq> set L \<union> {L ! u @ q |q. prefix q (ch # w)}" by fastforce
    with L' show ?thesis by (intro exI [of _ L']) auto
  qed
qed auto

lemma insert_symbols_for:
  assumes "trie_for t L ps" and "insert_symbols t w = (t', i)"
  shows "\<exists>L'. trie_for t' L' (if w \<in> set ps then ps else ps @ [w])
    \<and> (\<exists>k < length (if w \<in> set ps then ps else ps @ [w]). i = int k \<and> (if w \<in> set ps then ps else ps @ [w]) ! k = w)"
proof -
  obtain t1 v where w1: "insert_walk t 0 w = (t1, v)" by force
  have inv: "walk_inv t L ps" and pre: "\<forall>l \<in> set L. l = [] \<or> (\<exists>p \<in> set ps. prefix l p)"
    using assms(1) by (simp_all add: trie_for_walk_inv)
  have lab: "labelled t L" using inv by (simp add: walk_inv_def)
  from insert_walk_inv [OF inv _ w1] labelledD(2,3) [OF lab] obtain L' where
    L': "walk_inv t1 L' ps" "v < length L'" "L' ! v = w" "set L' \<subseteq> set L \<union> {q. prefix q w}" by auto
  have lab': "labelled t1 L'" using L'(1) by (simp add: walk_inv_def)
  have nps: "tr_n_patterns t1 = int (length ps)" and d: "distinct ps" and sub: "set ps \<subseteq> set L'"
    and pat: "\<And>u. u < length L' \<Longrightarrow> if L' ! u \<in> set ps
          then \<exists>i < length ps. tn_pattern (tr_nodes t1 ! u) = int i \<and> ps ! i = L' ! u
          else tn_pattern (tr_nodes t1 ! u) = - 1"
    using L'(1) by (auto simp: walk_inv_def)
  show ?thesis
  proof (cases "w \<in> set ps")
    case True
    with pat [OF L'(2)] L'(3) obtain k where k: "k < length ps" "tn_pattern (tr_nodes t1 ! v) = int k" "ps ! k = w"
      by auto
    then have "t' = t1" "i = int k" using assms(2) w1 by (auto simp: insert_symbols_def)
    moreover have "trie_for t1 L' ps" using L'(1,4) pre True by (auto simp: trie_for_walk_inv)
    ultimately show ?thesis using True k by auto
  next
    case False
    then have neg: "tn_pattern (tr_nodes t1 ! v) = - 1" using pat [OF L'(2)] L'(3) by auto
    let ?node = "(tr_nodes t1 ! v)\<lparr>tn_pattern := int (length ps)\<rparr>"
    have t': "t' = t1\<lparr>tr_nodes := (tr_nodes t1)[v := ?node], tr_n_patterns := int (length ps) + 1\<rparr>"
      "i = int (length ps)"
      using assms(2) w1 neg nps by (auto simp: insert_symbols_def)
    have vn: "v < length (tr_nodes t1)" using L'(2) labelledD(1) [OF lab'] by simp
    have at: "tr_nodes t' ! u = (if u = v then ?node else tr_nodes t1 ! u)" for u
      using vn by (simp add: t' nth_list_update)
    have ch: "tn_children (tr_nodes t' ! u) = tn_children (tr_nodes t1 ! u)" for u by (simp add: at)
    have ln: "length (tr_nodes t') = length (tr_nodes t1)" by (simp add: t'(1))
    have lab2: "labelled t' L'"
      using lab' unfolding labelled_def child_def ch ln .
    have pat2: "if L' ! u \<in> set (ps @ [w])
          then \<exists>i < length (ps @ [w]). tn_pattern (tr_nodes t' ! u) = int i \<and> (ps @ [w]) ! i = L' ! u
          else tn_pattern (tr_nodes t' ! u) = - 1" if u: "u < length L'" for u
    proof (cases "u = v")
      case True
      with L'(3) show ?thesis by (auto simp: at intro: exI [of _ "length ps"])
    next
      case uv: False
      then have "L' ! u \<noteq> w" using L'(2,3) u labelledD(4) [OF lab'] by (auto simp: nth_eq_iff_index_eq)
      moreover have "tr_nodes t' ! u = tr_nodes t1 ! u" using uv by (simp add: at)
      moreover have "\<exists>i < length (ps @ [w]). tn_pattern (tr_nodes t1 ! u) = int i \<and> (ps @ [w]) ! i = L' ! u"
        if "L' ! u \<in> set ps"
      proof -
        from pat [OF u] that obtain i where "i < length ps" "tn_pattern (tr_nodes t1 ! u) = int i" "ps ! i = L' ! u"
          by auto
        then show ?thesis by (intro exI [of _ i]) (simp add: nth_append)
      qed
      ultimately show ?thesis using pat [OF u] by simp
    qed
    have w: "w \<in> set L'" using L'(2,3) by auto
    have pre2: "l = [] \<or> (\<exists>p \<in> set (ps @ [w]). prefix l p)" if "l \<in> set L'" for l
      using that L'(4) pre by fastforce
    have "trie_for t' L' (ps @ [w])"
      unfolding trie_for_def
    proof (intro conjI ballI allI impI)
      show "distinct (ps @ [w])" using d False by simp
      show "tr_n_patterns t' = int (length (ps @ [w]))" by (simp add: t'(1))
      show "set (ps @ [w]) \<subseteq> set L'" using sub w by simp
    qed (rule lab2 pre2 pat2, assumption?)+
    with False t'(2) show ?thesis by (auto intro!: exI [of _ L'] exI [of _ "length ps"])
  qed
qed

text \<open>The words of a list, each at its first occurrence.\<close>

definition collect_words :: "u32 list list \<Rightarrow> u32 list list" where
  "collect_words ws = fold (\<lambda>w ps. if w \<in> set ps then ps else ps @ [w]) ws []"

lemma insert_all_for:
  assumes "trie_for t L ps"
  shows "\<exists>L'. trie_for (fold (\<lambda>w t. fst (insert_symbols t w)) ws t) L'
    (fold (\<lambda>w ps. if w \<in> set ps then ps else ps @ [w]) ws ps)"
  using assms
proof (induction ws arbitrary: t L ps)
  case (Cons w ws)
  obtain t' i where i: "insert_symbols t w = (t', i)" by force
  from insert_symbols_for [OF Cons.prems i] obtain L' where
    "trie_for t' L' (if w \<in> set ps then ps else ps @ [w])" by blast
  from Cons.IH [OF this] i show ?case by simp
qed auto

definition trie_of_symbols :: "u32 list list \<Rightarrow> trie" where
  "trie_of_symbols ws = fold (\<lambda>w t. fst (insert_symbols t w)) ws empty_trie"

lemma trie_of_symbols_for: "\<exists>L. trie_for (trie_of_symbols ws) L (collect_words ws)"
  using insert_all_for [OF empty_trie_for] by (simp add: trie_of_symbols_def collect_words_def)

lemma collect_words_set: "set (collect_words ws) = set ws"
proof -
  have "set (fold (\<lambda>w ps. if w \<in> set ps then ps else ps @ [w]) ws ps) = set ws \<union> set ps" for ps
    by (induction ws arbitrary: ps) auto
  then show ?thesis by (simp add: collect_words_def)
qed

lemma trie_of_words_symbols: "trie_of_words words = trie_of_symbols (map (\<lambda>w. word_symbols w 0) words)"
  by (simp add: trie_of_words_def trie_of_symbols_def insert_word_def fold_map comp_def)

subsection \<open>Matching at a position\<close>

lemma prefix_closed:
  assumes "labelled t L" and "prefix q l" and "l \<in> set L"
  shows "q \<in> set L"
proof -
  obtain r where "l = q @ r" using assms(2) by (auto simp: prefix_def)
  then show ?thesis using assms(3)
  proof (induction r arbitrary: l rule: rev_induct)
    case (snoc c r)
    then have "(q @ r) @ [c] \<in> set L" by simp
    from labelledD(7) [OF assms(1) this] snoc.IH show ?case by blast
  qed simp
qed

lemma trie_pattern:
  assumes "trie_for t L ps" and "u < length L"
  shows "tn_pattern (tr_nodes t ! u) \<ge> 0 \<longleftrightarrow> L ! u \<in> set ps"
    and "L ! u \<in> set ps \<Longrightarrow> \<exists>k < length ps. tn_pattern (tr_nodes t ! u) = int k \<and> ps ! k = L ! u"
    and "L ! u \<notin> set ps \<Longrightarrow> tn_pattern (tr_nodes t ! u) = - 1"
proof -
  have p: "if L ! u \<in> set ps
      then \<exists>i < length ps. tn_pattern (tr_nodes t ! u) = int i \<and> ps ! i = L ! u
      else tn_pattern (tr_nodes t ! u) = - 1" using assms by (simp add: trie_for_def)
  then show "L ! u \<in> set ps \<Longrightarrow> \<exists>k < length ps. tn_pattern (tr_nodes t ! u) = int k \<and> ps ! k = L ! u"
    and "L ! u \<notin> set ps \<Longrightarrow> tn_pattern (tr_nodes t ! u) = - 1"
    by (simp_all split: if_split_asm)
  with p show "tn_pattern (tr_nodes t ! u) \<ge> 0 \<longleftrightarrow> L ! u \<in> set ps" by (cases "L ! u \<in> set ps") auto
qed

definition match_spec :: "u32 list set \<Rightarrow> u32 list \<Rightarrow> u32 list \<Rightarrow> match_result" where
  "match_spec P l s =
     (if \<exists>q. q \<noteq> [] \<and> prefix q s \<and> l @ q \<in> P then COMPLETE_MATCH
      else if l @ s \<noteq> [] \<and> (\<exists>p \<in> P. prefix (l @ s) p) then PARTIAL_MATCH
      else NO_MATCH)"

lemma match_spec_Cons:
  assumes "l @ [c] \<notin> P"
  shows "match_spec P l (c # s) = match_spec P (l @ [c]) s"
proof -
  have "(\<exists>q. q \<noteq> [] \<and> prefix q (c # s) \<and> l @ q \<in> P) \<longleftrightarrow> (\<exists>q. q \<noteq> [] \<and> prefix q s \<and> (l @ [c]) @ q \<in> P)"
  proof
    assume "\<exists>q. q \<noteq> [] \<and> prefix q (c # s) \<and> l @ q \<in> P"
    then obtain q where q: "q \<noteq> []" "prefix q (c # s)" "l @ q \<in> P" by blast
    then obtain q' where "q = c # q'" "prefix q' s" by (cases q) auto
    with q assms show "\<exists>q. q \<noteq> [] \<and> prefix q s \<and> (l @ [c]) @ q \<in> P" by (intro exI [of _ q']) auto
  next
    assume "\<exists>q. q \<noteq> [] \<and> prefix q s \<and> (l @ [c]) @ q \<in> P"
    then obtain q where "prefix q s" "(l @ [c]) @ q \<in> P" by blast
    then show "\<exists>q. q \<noteq> [] \<and> prefix q (c # s) \<and> l @ q \<in> P" by (intro exI [of _ "c # q"]) auto
  qed
  moreover have "l @ c # s \<noteq> []" "(l @ [c]) @ s = l @ c # s" by simp_all
  ultimately show ?thesis unfolding match_spec_def by presburger
qed

lemma check_from_spec:
  assumes "trie_for t L ps" and "u < length L"
  shows "check_from t sv u pos = match_spec (set ps) (L ! u) (word_symbols sv pos)"
  using assms
proof (induction t sv u pos rule: check_from.induct)
  case (1 t sv u pos)
  let ?r = "common_parse_utf8_codepoint sv pos" and ?l = "L ! u"
  have lab: "labelled t L" and sub: "set ps \<subseteq> set L" and pre: "\<forall>l \<in> set L. l = [] \<or> (\<exists>p \<in> set ps. prefix l p)"
    using "1.prems"(1) by (auto simp: trie_for_def)
  have root: "?l = [] \<longleftrightarrow> u = 0"
    using labelledD(2-4) [OF lab] "1.prems"(2) by (metis nth_eq_iff_index_eq)
  show ?case
  proof (cases "pos < length sv \<and> status ?r = Success")
    case False
    then have "word_symbols sv pos = []" "check_from t sv u pos = (if u \<noteq> 0 then PARTIAL_MATCH else NO_MATCH)"
      by (auto simp: word_symbols.simps [of sv pos] check_from.simps [of t sv u pos] Let_def)
    moreover have "?l \<noteq> [] \<Longrightarrow> \<exists>p \<in> set ps. prefix ?l p" using pre "1.prems"(2) by auto
    ultimately show ?thesis using root by (auto simp: match_spec_def)
  next
    case True
    let ?c = "codepoint ?r" and ?s = "word_symbols sv (pos + bytes_consumed ?r)"
    have sy: "word_symbols sv pos = ?c # ?s" using True by (simp add: word_symbols.simps [of sv pos] Let_def)
    have step: "check_from t sv u pos = (case child t u ?c of None \<Rightarrow> NO_MATCH
        | Some v \<Rightarrow> if tn_pattern (tr_nodes t ! v) \<ge> 0 then COMPLETE_MATCH
            else check_from t sv v (pos + bytes_consumed ?r))"
      using True by (simp add: check_from.simps [of t sv u pos] Let_def)
    show ?thesis
    proof (cases "child t u ?c")
      case None
      then have n: "?l @ [?c] \<notin> set L" using child_None [OF lab "1.prems"(2)] by simp
      have "x \<notin> set L" if "prefix (?l @ [?c]) x" for x using prefix_closed [OF lab that] n by blast
      then have no: "\<not> prefix (?l @ [?c]) x" if "x \<in> set ps" for x using that sub by blast
      have "\<not> (\<exists>q. q \<noteq> [] \<and> prefix q (?c # ?s) \<and> ?l @ q \<in> set ps)"
      proof
        assume "\<exists>q. q \<noteq> [] \<and> prefix q (?c # ?s) \<and> ?l @ q \<in> set ps"
        then obtain q where "q \<noteq> []" "prefix q (?c # ?s)" "?l @ q \<in> set ps" by blast
        moreover from this have "prefix (?l @ [?c]) (?l @ q)" by (cases q) auto
        ultimately show False using no by blast
      qed
      moreover have "\<not> (\<exists>p \<in> set ps. prefix (?l @ ?c # ?s) p)"
        using no by (metis append.assoc append_Cons append_Nil append_prefixD)
      ultimately show ?thesis using None step sy by (simp add: match_spec_def)
    next
      case (Some v)
      then have v: "v < length L" "L ! v = ?l @ [?c]" using labelledD(5) [OF lab "1.prems"(2)] by auto
      show ?thesis
      proof (cases "?l @ [?c] \<in> set ps")
        case T: True
        then have "match_spec (set ps) ?l (?c # ?s) = COMPLETE_MATCH"
          by (auto simp: match_spec_def intro: exI [of _ "[?c]"])
        with T Some step sy trie_pattern(1) [OF "1.prems"(1) v(1)] v(2) show ?thesis by simp
      next
        case F: False
        then have "check_from t sv u pos = check_from t sv v (pos + bytes_consumed ?r)"
          using Some step trie_pattern(1) [OF "1.prems"(1) v(1)] v(2) by simp
        also have "\<dots> = match_spec (set ps) (L ! v) ?s"
          using "1.IH" [OF refl _ refl] True Some F trie_pattern(1) [OF "1.prems"(1) v(1)] v "1.prems"(1) by simp
        finally show ?thesis using match_spec_Cons [OF F] sy v(2) by simp
      qed
    qed
  qed
qed

text \<open>Matching delimiters. In the trie of any list of words, matching at a position of a text reports a
  complete match exactly if a nonempty word starts there, a partial match exactly if none does but the
  nonempty rest of the text is the beginning of a word, and no match otherwise; words and text are read as their code
  points up to the first undecodable place.\<close>

theorem check_at_exact:
  "check_at (trie_of_words words) sv pos =
     (if \<exists>w \<in> set words. word_symbols w 0 \<noteq> [] \<and> prefix (word_symbols w 0) (word_symbols sv pos) then COMPLETE_MATCH
      else if word_symbols sv pos \<noteq> [] \<and> (\<exists>w \<in> set words. prefix (word_symbols sv pos) (word_symbols w 0))
        then PARTIAL_MATCH
      else NO_MATCH)"
proof -
  let ?ws = "map (\<lambda>w. word_symbols w 0) words"
  obtain L where L: "trie_for (trie_of_symbols ?ws) L (collect_words ?ws)" using trie_of_symbols_for by blast
  then have "0 < length L" "L ! 0 = []" using labelledD(2,3) by (auto simp: trie_for_def)
  with check_from_spec [OF L, of 0 sv pos] have "check_at (trie_of_words words) sv pos =
      match_spec (set ?ws) [] (word_symbols sv pos)"
    by (simp add: check_at_def trie_of_words_symbols collect_words_set)
  then show ?thesis by (simp add: match_spec_def) blast
qed

end
