(* ===== verification/Ac_Automaton.thy ===== *)
theory Ac_Automaton
  imports Trie_Ac
begin

section \<open>The Aho-Corasick automaton\<close>

text \<open>
  \<open>common_aho_corasick\<close>: the failure links and matches computed from a trie in breadth-first order.
  Reading a text from the root ends in the node of the longest suffix of the text that is a node,
  and the match recorded there is the longest inserted word that ends the text.
\<close>

subsection \<open>The constructor and the step function\<close>

text \<open>The climb along failure links; \<open>None\<close> when the bound on its steps runs out.\<close>

fun climb :: "nat \<Rightarrow> trie \<Rightarrow> nat list \<Rightarrow> nat \<Rightarrow> u32 \<Rightarrow> nat option" where
  "climb 0 t fail s ch = None"
| "climb (Suc k) t fail s ch = (if s \<noteq> 0 \<and> child t s ch = None then climb k t fail (fail ! s) ch else Some s)"

definition goto_child :: "trie \<Rightarrow> nat list \<Rightarrow> nat \<Rightarrow> u32 \<Rightarrow> nat option" where
  "goto_child t fail s ch =
     (case climb (Suc (length (tr_nodes t))) t fail s ch of
        None \<Rightarrow> None
      | Some f \<Rightarrow> Some (case child t f ch of Some v \<Rightarrow> v | None \<Rightarrow> 0))"

definition visit_child :: "trie \<Rightarrow> nat \<Rightarrow> u32 \<times> nat \<Rightarrow> nat list \<times> nat list \<Rightarrow> (nat list \<times> nat list) option" where
  "visit_child t u e qf =
     (case e of (ch, v) \<Rightarrow> (case qf of (queue, fail) \<Rightarrow>
        if u \<noteq> 0 then
          (case climb (Suc (length (tr_nodes t))) t fail (fail ! u) ch of
             None \<Rightarrow> None
           | Some f \<Rightarrow> Some (queue @ [v], fail[v := (case child t f ch of
                 Some x \<Rightarrow> if x \<noteq> v then x else 0
               | None \<Rightarrow> 0)]))
        else Some (queue @ [v], fail)))"

text \<open>The queue, the failure links, the states in the order they leave the queue.\<close>

fun bfs :: "nat \<Rightarrow> trie \<Rightarrow> nat list \<Rightarrow> nat list \<Rightarrow> nat list \<Rightarrow> (nat list \<times> nat list) option" where
  "bfs 0 t queue fail order = None"
| "bfs (Suc k) t [] fail order = Some (fail, order)"
| "bfs (Suc k) t (u # queue) fail order =
     (case for_each (visit_child t u) (tn_children (tr_nodes t ! u)) (queue, fail) of
        None \<Rightarrow> None
      | Some (queue', fail') \<Rightarrow> bfs k t queue' fail' (order @ [u]))"

definition match_of :: "trie \<Rightarrow> nat list \<Rightarrow> nat \<Rightarrow> int list \<Rightarrow> int" where
  "match_of t fail u m =
     (if tn_pattern (tr_nodes t ! u) \<ge> 0 then tn_pattern (tr_nodes t ! u)
      else if u \<noteq> 0 then m ! (fail ! u) else - 1)"

record aho_corasick =
  ac_trie :: trie
  ac_fail :: "nat list"
  ac_order :: "nat list"
  ac_match :: "int list"
  ac_alphabet :: "u32 set"

definition make_ac :: "trie \<Rightarrow> aho_corasick option" where
  "make_ac t =
     (let n = length (tr_nodes t) in
      case bfs (Suc n) t [0] (replicate n 0) [] of
        None \<Rightarrow> None
      | Some (fail, order) \<Rightarrow>
          Some \<lparr>ac_trie = t, ac_fail = fail, ac_order = order,
                ac_match = fold (\<lambda>u m. m[u := match_of t fail u m]) order (replicate n (- 1)),
                ac_alphabet = (\<Union>node \<in> set (tr_nodes t). fst ` set (tn_children node))\<rparr>)"

definition ac_next :: "aho_corasick \<Rightarrow> nat \<Rightarrow> u32 \<Rightarrow> nat option" where
  "ac_next A state ch = goto_child (ac_trie A) (ac_fail A) state ch"

subsection \<open>Longest suffixes in a set of words\<close>

fun lsuf :: "'a list set \<Rightarrow> 'a list \<Rightarrow> 'a list" where
  "lsuf S [] = []"
| "lsuf S (x # xs) = (if x # xs \<in> S then x # xs else lsuf S xs)"

lemma lsuf_in: "[] \<in> S \<Longrightarrow> lsuf S w \<in> S"
  by (induction w) auto

lemma lsuf_suffix: "suffix (lsuf S w) w"
  by (induction w) (auto simp: suffix_Cons)

lemma lsuf_id: "w \<in> S \<Longrightarrow> lsuf S w = w"
  by (cases w) auto

lemma lsuf_max: "s \<in> S \<Longrightarrow> suffix s w \<Longrightarrow> suffix s (lsuf S w)"
  by (induction w) (auto simp: suffix_Cons)

lemma lsuf_eqI: "l \<in> S \<Longrightarrow> suffix l w \<Longrightarrow> (\<And>s. s \<in> S \<Longrightarrow> suffix s w \<Longrightarrow> suffix s l) \<Longrightarrow> [] \<in> S \<Longrightarrow> lsuf S w = l"
  by (meson lsuf_in lsuf_max lsuf_suffix suffix_order.antisym)

lemma lsuf_snoc:
  assumes "[] \<in> S" and "\<And>l c. l @ [c] \<in> S \<Longrightarrow> l \<in> S"
  shows "lsuf S (w @ [c]) = lsuf S (lsuf S w @ [c])"
proof (rule lsuf_eqI)
  show "lsuf S (lsuf S w @ [c]) \<in> S" by (rule lsuf_in [OF assms(1)])
  have "suffix (lsuf S w @ [c]) (w @ [c])" by (simp add: lsuf_suffix)
  with lsuf_suffix [of S "lsuf S w @ [c]"] show "suffix (lsuf S (lsuf S w @ [c])) (w @ [c])"
    by (rule suffix_order.trans)
  fix s assume s: "s \<in> S" "suffix s (w @ [c])"
  have "suffix s (lsuf S w @ [c])"
  proof (cases s rule: rev_cases)
    case (snoc s' d)
    with s assms(2) have "d = c" "s' \<in> S" "suffix s' w" by auto
    with snoc lsuf_max [of s' S w] show ?thesis by simp
  qed simp
  with s(1) show "suffix s (lsuf S (lsuf S w @ [c]))" by (rule lsuf_max)
qed (rule assms(1))

text \<open>The index of the longest word of a list that ends a text.\<close>

definition index_of :: "'a list list \<Rightarrow> 'a list \<Rightarrow> int" where
  "index_of ps w = int (length (takeWhile (\<lambda>p. p \<noteq> w) ps))"

fun longest :: "'a list list \<Rightarrow> 'a list \<Rightarrow> int" where
  "longest ps w = (if w \<in> set ps then index_of ps w else case w of [] \<Rightarrow> - 1 | _ # xs \<Rightarrow> longest ps xs)"

declare longest.simps [simp del]

lemma index_of_nth: "w \<in> set ps \<Longrightarrow> \<exists>k < length ps. index_of ps w = int k \<and> ps ! k = w"
proof (induction ps)
  case (Cons p ps)
  then show ?case by (cases "p = w") (auto simp: index_of_def)
qed simp

lemma index_of_distinct: "distinct ps \<Longrightarrow> k < length ps \<Longrightarrow> index_of ps (ps ! k) = int k"
  using index_of_nth [of "ps ! k" ps] by (auto simp: nth_eq_iff_index_eq)

lemma longest_spec:
  "(longest ps w = - 1 \<and> (\<forall>p \<in> set ps. \<not> suffix p w)) \<or>
   (\<exists>k < length ps. longest ps w = int k \<and> suffix (ps ! k) w \<and> (\<forall>p \<in> set ps. suffix p w \<longrightarrow> suffix p (ps ! k)))"
proof (induction w)
  case Nil
  show ?case
  proof (cases "[] \<in> set ps")
    case True
    with index_of_nth [OF this] show ?thesis by (fastforce simp: longest.simps [of _ "[]"])
  next
    case False
    then show ?thesis by (auto simp: longest.simps [of _ "[]"])
  qed
next
  case (Cons x w)
  show ?case
  proof (cases "x # w \<in> set ps")
    case True
    with index_of_nth [OF this] show ?thesis by (fastforce simp: longest.simps [of _ "x # w"])
  next
    case False
    then have eq: "longest ps (x # w) = longest ps w" by (simp add: longest.simps [of _ "x # w"])
    have s: "suffix p (x # w) \<longleftrightarrow> suffix p w" if "p \<in> set ps" for p
      using that False by (auto simp: suffix_Cons)
    have "(\<forall>p \<in> set ps. \<not> suffix p w) \<longrightarrow> (\<forall>p \<in> set ps. \<not> suffix p (x # w))" using s by blast
    moreover have "suffix (ps ! k) w \<Longrightarrow> suffix (ps ! k) (x # w)" for k by (simp add: suffix_ConsI)
    ultimately show ?thesis using Cons.IH s unfolding eq by blast
  qed
qed

lemma longest_lsuf:
  assumes "set ps \<subseteq> S"
  shows "longest ps (lsuf S w) = longest ps w"
proof (induction w)
  case (Cons x w)
  show ?case
  proof (cases "x # w \<in> S")
    case False
    then have "x # w \<notin> set ps" using assms by blast
    with False Cons show ?thesis by (simp add: longest.simps [of _ "x # w"])
  qed simp
qed simp

subsection \<open>Failure links\<close>

abbreviation depth :: "u32 list list \<Rightarrow> nat \<Rightarrow> nat" where
  "depth L u \<equiv> length (L ! u)"

definition fail_ok :: "u32 list list \<Rightarrow> nat list \<Rightarrow> nat \<Rightarrow> bool" where
  "fail_ok L fail v \<longleftrightarrow> fail ! v < length L \<and> L ! (fail ! v) = lsuf (set L) (tl (L ! v))"

lemma nil_node: "labelled t L \<Longrightarrow> [] \<in> set L"
  using labelledD(2,3) by (metis nth_mem)

lemma root_node: "labelled t L \<Longrightarrow> u < length L \<Longrightarrow> L ! u = [] \<longleftrightarrow> u = 0"
  using labelledD(2-4) by (metis nth_eq_iff_index_eq)

lemma depth_less:
  assumes "labelled t L" and "u < length L"
  shows "depth L u < length L"
proof -
  have "set (prefixes (L ! u)) \<subseteq> set L"
    using prefix_closed [OF assms(1)] assms(2) by (auto simp: in_set_prefixes)
  from card_mono [OF _ this] have "card (set (prefixes (L ! u))) \<le> card (set L)" by simp
  then show ?thesis
    using distinct_card [OF distinct_prefixes, of "L ! u"] distinct_card [OF labelledD(4) [OF assms(1)]]
    by (simp add: length_prefixes)
qed

lemma climb_goto:
  assumes "labelled t L" and "s < length L" and "depth L s < k"
    and "\<And>x. x < length L \<Longrightarrow> depth L x \<le> depth L s \<Longrightarrow> fail_ok L fail x"
  shows "\<exists>f g. climb k t fail s ch = Some f \<and> g = (case child t f ch of Some v \<Rightarrow> v | None \<Rightarrow> 0)
    \<and> g < length L \<and> L ! g = lsuf (set L) (L ! s @ [ch])"
  using assms(2-4)
proof (induction k arbitrary: s)
  case (Suc k)
  note L = labelledD [OF assms(1)]
  show ?case
  proof (cases "s \<noteq> 0 \<and> child t s ch = None")
    case True
    then obtain x xs where xs: "L ! s = x # xs" using root_node [OF assms(1) Suc.prems(1)] by (cases "L ! s") auto
    from True have no: "L ! s @ [ch] \<notin> set L" using child_None [OF assms(1) Suc.prems(1)] by simp
    have f: "fail ! s < length L" "L ! (fail ! s) = lsuf (set L) xs"
      using Suc.prems(3) [OF Suc.prems(1)] xs by (auto simp: fail_ok_def)
    have d: "depth L (fail ! s) < depth L s"
      using suffix_length_le [OF lsuf_suffix [of "set L" xs]] f(2) xs by simp
    have "\<exists>f g. climb k t fail (fail ! s) ch = Some f \<and> g = (case child t f ch of Some v \<Rightarrow> v | None \<Rightarrow> 0)
        \<and> g < length L \<and> L ! g = lsuf (set L) (L ! (fail ! s) @ [ch])"
      using d Suc.prems(2,3) by (intro Suc.IH) (auto simp: f(1))
    moreover have "lsuf (set L) (L ! s @ [ch]) = lsuf (set L) (L ! (fail ! s) @ [ch])"
      using no xs f(2) lsuf_snoc [where w = xs and c = ch, OF nil_node [OF assms(1)] L(7)] by simp
    ultimately show ?thesis using True by auto
  next
    case False
    show ?thesis
    proof (cases "child t s ch")
      case None
      with False have "s = 0" by simp
      moreover have "[ch] \<notin> set L"
        using child_None [OF assms(1) Suc.prems(1)] None L(3) \<open>s = 0\<close> by simp
      ultimately show ?thesis using None L(2,3) by simp
    next
      case (Some v)
      then have v: "v < length L" "L ! v = L ! s @ [ch]" using L(5) [OF Suc.prems(1)] by auto
      then have "lsuf (set L) (L ! s @ [ch]) = L ! v" using lsuf_id [of "L ! v" "set L"] nth_mem [OF v(1)] by simp
      with Some False v(1) show ?thesis by simp
    qed
  qed
qed simp

text \<open>The invariant of the breadth-first search; \<open>order @ queue\<close> are the nodes seen so far.\<close>

definition bfs_inv :: "trie \<Rightarrow> u32 list list \<Rightarrow> nat list \<Rightarrow> nat list \<Rightarrow> nat list \<Rightarrow> bool" where
  "bfs_inv t L queue fail order \<longleftrightarrow>
     distinct (order @ queue) \<and> set (order @ queue) \<subseteq> {..< length L} \<and> 0 \<in> set (order @ queue)
     \<and> sorted (map (depth L) (order @ queue)) \<and> length fail = length L
     \<and> (\<forall>v \<in> set (order @ queue). fail_ok L fail v)
     \<and> (\<forall>u \<in> set order. \<forall>ch v. child t u ch = Some v \<longrightarrow> v \<in> set (order @ queue))
     \<and> (\<forall>v \<in> set (order @ queue). v \<noteq> 0 \<longrightarrow> (\<exists>u \<in> set order. \<exists>ch. child t u ch = Some v))
     \<and> (\<forall>v \<in> set (order @ queue). queue \<noteq> [] \<longrightarrow> depth L v \<le> depth L (hd queue) + 1)
     \<and> (\<forall>v < length L. v \<notin> set (order @ queue) \<longrightarrow> fail ! v = 0)"

lemma bfs_invD:
  assumes "bfs_inv t L queue fail order"
  shows "distinct (order @ queue)" "set (order @ queue) \<subseteq> {..< length L}" "0 \<in> set (order @ queue)"
    "sorted (map (depth L) (order @ queue))" "length fail = length L"
    "v \<in> set (order @ queue) \<Longrightarrow> fail_ok L fail v"
    "u \<in> set order \<Longrightarrow> child t u ch = Some v \<Longrightarrow> v \<in> set (order @ queue)"
    "v \<in> set (order @ queue) \<Longrightarrow> v \<noteq> 0 \<Longrightarrow> \<exists>u \<in> set order. \<exists>ch. child t u ch = Some v"
    "v \<in> set (order @ queue) \<Longrightarrow> queue \<noteq> [] \<Longrightarrow> depth L v \<le> depth L (hd queue) + 1"
    "v < length L \<Longrightarrow> v \<notin> set (order @ queue) \<Longrightarrow> fail ! v = 0"
  using assms unfolding bfs_inv_def by (elim conjE, (assumption | blast))+

lemma node_parent:
  assumes "labelled t L" and "v < length L" and "v \<noteq> 0"
  shows "\<exists>u ch. u < length L \<and> child t u ch = Some v \<and> L ! v = L ! u @ [ch]"
proof -
  obtain l ch where l: "L ! v = l @ [ch]" using root_node [OF assms(1,2)] assms(3) by (cases "L ! v" rule: rev_cases) auto
  with labelledD(7) [OF assms(1), of l ch] assms(2) have "l \<in> set L" by (metis nth_mem)
  then obtain u where u: "u < length L" "L ! u = l" by (auto simp: in_set_conv_nth)
  with l assms(2) have "child t u ch = Some v" using labelledD(5) [OF assms(1) u(1)] by simp
  with u l show ?thesis by blast
qed

text \<open>Nodes no deeper than the head of the queue have all been seen.\<close>

lemma bfs_inv_seen:
  assumes "labelled t L" and "bfs_inv t L queue fail order"
    and "x < length L" and "queue \<noteq> [] \<Longrightarrow> depth L x \<le> depth L (hd queue)"
  shows "x \<in> set (order @ queue)"
  using assms(3,4)
proof (induction "depth L x" arbitrary: x rule: less_induct)
  case less
  show ?case
  proof (cases "x = 0")
    case True
    then show ?thesis using assms(2) by (simp add: bfs_inv_def)
  next
    case False
    from node_parent [OF assms(1) less.prems(1) False] obtain y ch where
      y: "y < length L" "child t y ch = Some x" "L ! x = L ! y @ [ch]" by blast
    have "y \<in> set (order @ queue)"
      using less.hyps [of y] y less.prems(2) by fastforce
    moreover have "y \<notin> set queue"
    proof
      assume q: "y \<in> set queue"
      then obtain h q' where hq: "queue = h # q'" by (cases queue) auto
      have "sorted (map (depth L) queue)" using assms(2) by (simp add: bfs_inv_def sorted_append)
      with hq q have "depth L h \<le> depth L y" by auto
      with less.prems(2) y(3) hq show False by simp
    qed
    ultimately show ?thesis using y(2) assms(2) by (auto simp: bfs_inv_def)
  qed
qed

text \<open>Visiting the children of a node.\<close>

lemma visit_children:
  assumes "labelled t L" and "u < length L" and "length fail = length L"
    and "set es \<subseteq> set (tn_children (tr_nodes t ! u))" and "distinct (map fst es)"
    and "\<And>x. x < length L \<Longrightarrow> depth L x \<le> depth L u \<Longrightarrow> fail_ok L fail x"
    and "\<And>v. v \<in> snd ` set es \<Longrightarrow> u = 0 \<Longrightarrow> fail ! v = 0"
  shows "\<exists>fail'. for_each (visit_child t u) es (queue, fail) = Some (queue @ map snd es, fail')
    \<and> length fail' = length L \<and> (\<forall>v. v \<notin> snd ` set es \<longrightarrow> fail' ! v = fail ! v)
    \<and> (\<forall>v \<in> snd ` set es. fail_ok L fail' v)"
  using assms(3-7)
proof (induction es arbitrary: queue fail)
  case (Cons e es)
  obtain ch v where e: "e = (ch, v)" by force
  note L = labelledD [OF assms(1)]
  have ch: "child t u ch = Some v" using Cons.prems(2) L(6) [OF assms(2)] by (simp add: e child_def)
  then have v: "v < length L" "L ! v = L ! u @ [ch]" using L(5) [OF assms(2)] by auto
  have dv: "depth L v = Suc (depth L u)" by (simp add: v(2))
  define fail1 where "fail1 = (if u \<noteq> 0 then fail[v := (case climb (Suc (length (tr_nodes t))) t fail (fail ! u) ch of
      Some f \<Rightarrow> (case child t f ch of Some x \<Rightarrow> if x \<noteq> v then x else 0 | None \<Rightarrow> 0) | None \<Rightarrow> 0)] else fail)"
  have "visit_child t u e (queue, fail) = Some (queue @ [v], fail1) \<and> fail_ok L fail1 v"
  proof (cases "u = 0")
    case True
    then have "fail ! v = 0" using Cons.prems(5) [of v] by (simp add: e)
    then have "fail_ok L fail v" using v L(2,3) True by (simp add: fail_ok_def)
    with True show ?thesis by (simp add: visit_child_def e fail1_def)
  next
    case False
    then obtain x xs where xs: "L ! u = x # xs" using root_node [OF assms(1,2)] by (cases "L ! u") auto
    have fu: "fail ! u < length L" "L ! (fail ! u) = lsuf (set L) xs"
      using Cons.prems(4) [OF assms(2)] xs by (auto simp: fail_ok_def)
    have d: "depth L (fail ! u) < depth L u"
      using suffix_length_le [OF lsuf_suffix [of "set L" xs]] fu(2) xs by simp
    have "depth L (fail ! u) < Suc (length (tr_nodes t))"
      using depth_less [OF assms(1) fu(1)] L(1) by simp
    then obtain f g where c: "climb (Suc (length (tr_nodes t))) t fail (fail ! u) ch = Some f"
      and g: "g = (case child t f ch of Some v \<Rightarrow> v | None \<Rightarrow> 0)" "g < length L"
        "L ! g = lsuf (set L) (L ! (fail ! u) @ [ch])"
      using climb_goto [OF assms(1) fu(1), of "Suc (length (tr_nodes t))" fail ch] d Cons.prems(4) by force
    have lg: "L ! g = lsuf (set L) (xs @ [ch])"
      using g(3) fu(2) lsuf_snoc [where w = xs and c = ch, OF nil_node [OF assms(1)] L(7)] by simp
    have "length (L ! g) \<le> Suc (length xs)" using suffix_length_le [OF lsuf_suffix [of "set L" "xs @ [ch]"]] lg by simp
    then have "g \<noteq> v" using v(2) xs by auto
    then have f1: "fail1 = fail[v := g]" "visit_child t u e (queue, fail) = Some (queue @ [v], fail[v := g])"
      using False c g(1) by (auto simp: fail1_def visit_child_def e split: option.splits)
    moreover have "fail_ok L (fail[v := g]) v"
      using v Cons.prems(1) g(2) lg xs by (simp add: fail_ok_def)
    ultimately show ?thesis by simp
  qed
  then have step: "visit_child t u e (queue, fail) = Some (queue @ [v], fail1)" and ok: "fail_ok L fail1 v" by auto
  have other: "fail1 ! x = fail ! x" if "x \<noteq> v" for x using that by (simp add: fail1_def)
  have vn: "v \<notin> snd ` set es"
  proof
    assume "v \<in> snd ` set es"
    then obtain c where c: "(c, v) \<in> set es" by auto
    then have "child t u c = Some v" using Cons.prems(2) L(6) [OF assms(2)] by (auto simp: child_def)
    then have "L ! v = L ! u @ [c]" using L(5) [OF assms(2)] by blast
    with v(2) have "c = ch" by simp
    with c Cons.prems(3) e show False by (auto simp: image_iff)
  qed
  have "\<exists>fail'. for_each (visit_child t u) es (queue @ [v], fail1) = Some ((queue @ [v]) @ map snd es, fail')
    \<and> length fail' = length L \<and> (\<forall>x. x \<notin> snd ` set es \<longrightarrow> fail' ! x = fail1 ! x)
    \<and> (\<forall>x \<in> snd ` set es. fail_ok L fail' x)"
  proof (rule Cons.IH)
    show "fail_ok L fail1 x" if "x < length L" "depth L x \<le> depth L u" for x
    proof -
      have "x \<noteq> v" using that(2) dv by auto
      with Cons.prems(4) [OF that] other [of x] show ?thesis by (simp add: fail_ok_def)
    qed
    show "fail1 ! x = 0" if "x \<in> snd ` set es" "u = 0" for x
      using Cons.prems(5) [of x] other [of x] that vn by auto
  qed (use Cons.prems in \<open>auto simp: fail1_def\<close>)
  then obtain fail' where f': "for_each (visit_child t u) es (queue @ [v], fail1) = Some ((queue @ [v]) @ map snd es, fail')"
    "length fail' = length L" "\<forall>x. x \<notin> snd ` set es \<longrightarrow> fail' ! x = fail1 ! x" "\<forall>x \<in> snd ` set es. fail_ok L fail' x"
    by blast
  have "fail_ok L fail' v" using ok f'(3) vn by (simp add: fail_ok_def)
  with f' step other show ?case by (auto simp: e)
qed simp

lemma bfs_step:
  assumes "labelled t L" and inv: "bfs_inv t L (u # q) fail order"
  shows "\<exists>q' fail'. for_each (visit_child t u) (tn_children (tr_nodes t ! u)) (q, fail) = Some (q', fail')
    \<and> bfs_inv t L q' fail' (order @ [u])"
proof -
  note L = labelledD [OF assms(1)] and I = bfs_invD [OF inv]
  let ?cs = "tn_children (tr_nodes t ! u)" and ?seen = "order @ u # q"
  have u: "u < length L" using I(2) by simp
  have du: "depth L v \<le> depth L u + 1" if "v \<in> set ?seen" for v using I(9) [OF that] by simp
  have cs: "v \<in> snd ` set ?cs \<longleftrightarrow> (\<exists>ch. child t u ch = Some v)" for v
    using L(6) [OF u] by (force simp: child_def)
  have child_depth: "v < length L \<and> depth L v = Suc (depth L u) \<and> v \<noteq> 0" if "v \<in> snd ` set ?cs" for v
  proof -
    from cs [THEN iffD1, OF that] obtain ch where "child t u ch = Some v" ..
    then have "v < length L" "L ! v = L ! u @ [ch]" using L(5) [OF u] by auto
    moreover from this have "v \<noteq> 0" using L(3) by (intro notI) simp
    ultimately show ?thesis by simp
  qed
  have fresh: "v \<notin> set ?seen" if v: "v \<in> snd ` set ?cs" for v
  proof
    assume "v \<in> set ?seen"
    with I(8) child_depth [OF v] obtain x ch where x: "x \<in> set order" "child t x ch = Some v" by blast
    obtain c where c: "child t u c = Some v" using v cs by blast
    have xl: "x < length L" using x(1) I(2) by auto
    have "L ! v = L ! x @ [ch]" "L ! v = L ! u @ [c]" using L(5) [OF xl] L(5) [OF u] x(2) c by auto
    then have "x = u" using xl u L(4) by (simp add: nth_eq_iff_index_eq)
    with x(1) I(1) show False by simp
  qed
  have seen: "fail_ok L fail x" if "x < length L" "depth L x \<le> depth L u" for x
    using bfs_inv_seen [OF assms(1) inv that(1)] that(2) I(6) by simp
  have zero: "fail ! v = 0" if "v \<in> snd ` set ?cs" "u = 0" for v
    using I(10) [of v] fresh [OF that(1)] child_depth [OF that(1)] by simp
  obtain fail' where f': "for_each (visit_child t u) ?cs (q, fail) = Some (q @ map snd ?cs, fail')"
    "length fail' = length L" "\<And>v. v \<notin> snd ` set ?cs \<Longrightarrow> fail' ! v = fail ! v"
    "\<And>v. v \<in> snd ` set ?cs \<Longrightarrow> fail_ok L fail' v"
    using visit_children [OF assms(1) u I(5) subset_refl L(6) [OF u] seen zero, of q] by blast
  let ?new = "(order @ [u]) @ q @ map snd ?cs"
  have new: "set ?new = set ?seen \<union> snd ` set ?cs" by auto
  have dist: "distinct (map snd ?cs)"
  proof -
    have "inj_on snd (set ?cs)"
    proof (rule inj_onI)
      fix a b assume ab: "a \<in> set ?cs" "b \<in> set ?cs" "snd a = snd b"
      have "child t u (fst e) = Some (snd e)" if "e \<in> set ?cs" for e
        using that L(6) [OF u] by (cases e rule: prod.exhaust) (simp add: child_def)
      with ab have "child t u (fst a) = Some (snd a)" "child t u (fst b) = Some (snd b)" by blast+
      then have "L ! snd a = L ! u @ [fst a]" "L ! snd b = L ! u @ [fst b]" using L(5) [OF u] by auto
      with ab(3) show "a = b" by (simp add: prod_eq_iff)
    qed
    moreover have "distinct ?cs" using L(6) [OF u] by (simp add: distinct_map)
    ultimately show ?thesis by (simp add: distinct_map)
  qed
  have "bfs_inv t L (q @ map snd ?cs) fail' (order @ [u])"
    unfolding bfs_inv_def
  proof (intro conjI ballI allI impI)
    show "distinct ?new" using I(1) dist fresh by auto
    show "set ?new \<subseteq> {..< length L}" using I(2) child_depth unfolding new by auto
    show "0 \<in> set ?new" using I(3) unfolding new by auto
    have "map (depth L) (map snd ?cs) = replicate (length ?cs) (Suc (depth L u))"
      using child_depth by (intro replicate_eqI) auto
    then have "sorted (map (depth L) (map snd ?cs))" by simp
    moreover have "sorted (map (depth L) ?seen)" using I(4) by simp
    moreover have "depth L x \<le> depth L v" if "x \<in> set ?seen" "v \<in> snd ` set ?cs" for x v
      using du [OF that(1)] child_depth [OF that(2)] by simp
    ultimately have "sorted (map (depth L) (?seen @ map snd ?cs))" unfolding map_append sorted_append by auto
    then show "sorted (map (depth L) ?new)" by simp
    show "length fail' = length L" by (rule f'(2))
    show "fail_ok L fail' v" if "v \<in> set ?new" for v
    proof (cases "v \<in> snd ` set ?cs")
      case False
      with that new I(6) [of v] f'(3) show ?thesis by (simp add: fail_ok_def)
    qed (rule f'(4))
    show "v \<in> set ?new" if "x \<in> set (order @ [u])" "child t x ch = Some v" for x ch v
      using that I(7) [of x ch v] cs [of v] unfolding new by auto
    show "\<exists>x \<in> set (order @ [u]). \<exists>ch. child t x ch = Some v" if "v \<in> set ?new" "v \<noteq> 0" for v
      using that I(8) [of v] cs [of v] unfolding new by auto
    show "depth L v \<le> depth L (hd (q @ map snd ?cs)) + 1" if v: "v \<in> set ?new" and ne: "q @ map snd ?cs \<noteq> []" for v
    proof -
      have "depth L u \<le> depth L (hd (q @ map snd ?cs))"
      proof (cases q)
        case Nil
        then have "hd (q @ map snd ?cs) \<in> snd ` set ?cs" using ne by (cases ?cs) auto
        from child_depth [OF this] show ?thesis by simp
      next
        case (Cons h q')
        with I(4) show ?thesis by (simp add: sorted_append)
      qed
      moreover have "depth L v \<le> depth L u + 1"
        using v [unfolded new] du [of v] child_depth [of v] by (elim UnE) simp_all
      ultimately show ?thesis by simp
    qed
    show "fail' ! v = 0" if "v < length L" "v \<notin> set ?new" for v
      using that I(10) [of v] f'(3) [of v] unfolding new by auto
  qed
  with f'(1) show ?thesis by blast
qed

lemma bfs_correct:
  assumes "labelled t L" and "bfs_inv t L queue fail order" and "length L < k + length order"
  shows "\<exists>fail' order'. bfs k t queue fail order = Some (fail', order') \<and> bfs_inv t L [] fail' order'"
  using assms(2,3)
proof (induction k arbitrary: queue fail order)
  case 0
  have "card (set order) \<le> length L"
    using bfs_invD(2) [OF "0.prems"(1)] card_mono [of "{..< length L}" "set order"] by auto
  then show ?case using "0.prems"(2) bfs_invD(1) [OF "0.prems"(1)] distinct_card [of order] by simp
next
  case (Suc k)
  show ?case
  proof (cases queue)
    case Nil
    with Suc.prems show ?thesis by simp
  next
    case (Cons u q)
    from bfs_step [OF assms(1), of u q fail order] Suc.prems(1) Cons obtain q' fail' where
      "for_each (visit_child t u) (tn_children (tr_nodes t ! u)) (q, fail) = Some (q', fail')"
      "bfs_inv t L q' fail' (order @ [u])" by blast
    with Suc.IH [OF this(2)] Suc.prems(2) Cons show ?thesis by simp
  qed
qed

lemma bfs_inv_start: "labelled t L \<Longrightarrow> bfs_inv t L [0] (replicate (length L) 0) []"
  using labelledD(2,3) [of t L] by (simp add: bfs_inv_def fail_ok_def)

subsection \<open>Matches\<close>

lemma match_fold:
  assumes "trie_for t L ps" and "bfs_inv t L [] fail order" and "os @ rest = order"
  shows "length (fold (\<lambda>u m. m[u := match_of t fail u m]) os (replicate (length L) (- 1))) = length L
    \<and> (\<forall>u \<in> set os. fold (\<lambda>u m. m[u := match_of t fail u m]) os (replicate (length L) (- 1)) ! u = longest ps (L ! u))"
  using assms(3)
proof (induction os arbitrary: rest rule: rev_induct)
  case (snoc u os)
  have lab: "labelled t L" and ps: "set ps \<subseteq> set L" using assms(1) by (simp_all add: trie_for_def)
  note I = bfs_invD [OF assms(2)]
  let ?m = "fold (\<lambda>u m. m[u := match_of t fail u m]) os (replicate (length L) (- 1))"
  have IH: "length ?m = length L" "\<And>x. x \<in> set os \<Longrightarrow> ?m ! x = longest ps (L ! x)"
    using snoc.IH [of "u # rest"] snoc.prems by auto
  have u: "u \<in> set order" "u < length L" using snoc.prems I(2) by auto
  have "match_of t fail u ?m = longest ps (L ! u)"
  proof (cases "L ! u \<in> set ps")
    case True
    from trie_pattern(2) [OF assms(1) u(2) True] obtain k where
      k: "k < length ps" "tn_pattern (tr_nodes t ! u) = int k" "ps ! k = L ! u" by blast
    have "index_of ps (L ! u) = int k" using index_of_distinct [OF _ k(1)] assms(1) k(3) by (simp add: trie_for_def)
    with True k(2) show ?thesis by (simp add: match_of_def longest.simps [of ps "L ! u"])
  next
    case False
    then have pat: "tn_pattern (tr_nodes t ! u) = - 1" by (rule trie_pattern(3) [OF assms(1) u(2)])
    show ?thesis
    proof (cases "u = 0")
      case True
      with False pat labelledD(3) [OF lab] show ?thesis by (simp add: match_of_def longest.simps [of ps "[]"])
    next
      case ne: False
      then obtain x xs where xs: "L ! u = x # xs" using root_node [OF lab u(2)] by (cases "L ! u") auto
      have f: "fail ! u < length L" "L ! (fail ! u) = lsuf (set L) xs"
        using I(6) [of u] u(1) xs by (auto simp: fail_ok_def)
      have d: "depth L (fail ! u) < depth L u"
        using suffix_length_le [OF lsuf_suffix [of "set L" xs]] f(2) xs by simp
      have "fail ! u \<in> set order" using bfs_inv_seen [OF lab assms(2) f(1)] by simp
      moreover have "depth L u \<le> depth L y" if "y \<in> set (u # rest)" for y
        using I(4) snoc.prems that by (auto simp: sorted_append)
      ultimately have "fail ! u \<in> set os" using d snoc.prems by fastforce
      from IH(2) [OF this] f(2) have "?m ! (fail ! u) = longest ps xs" using longest_lsuf [OF ps] by simp
      moreover have "longest ps (L ! u) = longest ps xs" using False xs by (simp add: longest.simps [of ps "x # xs"])
      ultimately show ?thesis using pat ne by (simp add: match_of_def)
    qed
  qed
  moreover have "u \<notin> set os" using I(1) snoc.prems by auto
  ultimately show ?case using IH u(2) by (auto simp: nth_list_update)
qed simp

definition ac_ok :: "aho_corasick \<Rightarrow> u32 list list \<Rightarrow> u32 list list \<Rightarrow> bool" where
  "ac_ok A L ps \<longleftrightarrow> trie_for (ac_trie A) L ps \<and> (\<forall>x < length L. fail_ok L (ac_fail A) x)
     \<and> (\<forall>x < length L. ac_match A ! x = longest ps (L ! x)) \<and> length (ac_match A) = length L"

lemma make_ac_ok:
  assumes "trie_for t L ps"
  shows "\<exists>A. make_ac t = Some A \<and> ac_trie A = t \<and> ac_ok A L ps"
proof -
  have lab: "labelled t L" using assms by (simp add: trie_for_def)
  have n: "length (tr_nodes t) = length L" using labelledD(1) [OF lab] .
  obtain fail order where b: "bfs (Suc (length L)) t [0] (replicate (length L) 0) [] = Some (fail, order)"
    and inv: "bfs_inv t L [] fail order"
    using bfs_correct [OF lab bfs_inv_start [OF lab], of "Suc (length L)"] by auto
  have all: "x \<in> set order" if "x < length L" for x using bfs_inv_seen [OF lab inv that] by simp
  let ?m = "fold (\<lambda>u m. m[u := match_of t fail u m]) order (replicate (length L) (- 1))"
  have m: "length ?m = length L" "\<And>x. x < length L \<Longrightarrow> ?m ! x = longest ps (L ! x)"
    using match_fold [OF assms inv, of order "[]"] all by auto
  have f: "fail_ok L fail x" if "x < length L" for x using bfs_invD(6) [OF inv, of x] all [OF that] by simp
  have "make_ac t = Some \<lparr>ac_trie = t, ac_fail = fail, ac_order = order, ac_match = ?m,
      ac_alphabet = (\<Union>node \<in> set (tr_nodes t). fst ` set (tn_children node))\<rparr>"
    using b by (simp add: make_ac_def Let_def n)
  with assms f m show ?thesis by (intro exI) (auto simp: ac_ok_def)
qed

lemma ac_next_ok:
  assumes "ac_ok A L ps" and "s < length L"
  shows "\<exists>g. ac_next A s ch = Some g \<and> g < length L \<and> L ! g = lsuf (set L) (L ! s @ [ch])"
proof -
  have lab: "labelled (ac_trie A) L" using assms(1) by (simp add: ac_ok_def trie_for_def)
  have "depth L s < Suc (length (tr_nodes (ac_trie A)))"
    using depth_less [OF lab assms(2)] labelledD(1) [OF lab] by simp
  from climb_goto [OF lab assms(2) this, of "ac_fail A" ch] assms(1)
  show ?thesis by (auto simp: ac_next_def goto_child_def ac_ok_def)
qed

text \<open>Reading a text.\<close>

fun ac_run :: "aho_corasick \<Rightarrow> nat \<Rightarrow> u32 list \<Rightarrow> nat option" where
  "ac_run A s [] = Some s"
| "ac_run A s (ch # w) = (case ac_next A s ch of None \<Rightarrow> None | Some s' \<Rightarrow> ac_run A s' w)"

lemma ac_run_ok:
  assumes "ac_ok A L ps" and "s < length L" and "L ! s = lsuf (set L) v"
  shows "\<exists>g. ac_run A s w = Some g \<and> g < length L \<and> L ! g = lsuf (set L) (v @ w)"
  using assms(2,3)
proof (induction w arbitrary: s v)
  case (Cons ch w)
  have lab: "labelled (ac_trie A) L" using assms(1) by (simp add: ac_ok_def trie_for_def)
  from ac_next_ok [OF assms(1) Cons.prems(1)] obtain g where
    g: "ac_next A s ch = Some g" "g < length L" "L ! g = lsuf (set L) (L ! s @ [ch])" by blast
  have "L ! g = lsuf (set L) (v @ [ch])"
    using g(3) Cons.prems(2) lsuf_snoc [where w = v and c = ch, OF nil_node [OF lab] labelledD(7) [OF lab]] by simp
  from Cons.IH [OF g(2) this] g(1) show ?case by simp
qed simp

text \<open>C19. The Aho-Corasick automaton. For every list of words its constructor returns, and after reading any
  text from the root the step function has returned at every symbol and the match of the state reached is
  the index, in the order of first insertion, of the longest inserted word that ends the text, or -1 if no
  inserted word ends it.\<close>

theorem ac_matches_longest:
  "\<exists>A. make_ac (trie_of_symbols ws) = Some A \<and> (\<forall>w. \<exists>s. ac_run A 0 w = Some s \<and>
     (if \<exists>p \<in> set ws. suffix p w
      then \<exists>k < length (collect_words ws). ac_match A ! s = int k \<and> suffix (collect_words ws ! k) w
        \<and> (\<forall>p \<in> set ws. suffix p w \<longrightarrow> suffix p (collect_words ws ! k))
      else ac_match A ! s = - 1))"
proof -
  obtain L where L: "trie_for (trie_of_symbols ws) L (collect_words ws)" using trie_of_symbols_for by blast
  from make_ac_ok [OF L] obtain A where A: "make_ac (trie_of_symbols ws) = Some A" "ac_ok A L (collect_words ws)" by blast
  have lab: "labelled (trie_of_symbols ws) L" and ps: "set (collect_words ws) \<subseteq> set L" using L by (simp_all add: trie_for_def)
  have "\<exists>s. ac_run A 0 w = Some s \<and> ac_match A ! s = longest (collect_words ws) w" for w
  proof -
    from ac_run_ok [OF A(2), of 0 "[]" w] labelledD(2,3) [OF lab] obtain s where
      "ac_run A 0 w = Some s" "s < length L" "L ! s = lsuf (set L) w" by auto
    with A(2) longest_lsuf [OF ps] show ?thesis by (auto simp: ac_ok_def)
  qed
  moreover have "if \<exists>p \<in> set ws. suffix p w
      then \<exists>k < length (collect_words ws). longest (collect_words ws) w = int k \<and> suffix (collect_words ws ! k) w
        \<and> (\<forall>p \<in> set ws. suffix p w \<longrightarrow> suffix p (collect_words ws ! k))
      else longest (collect_words ws) w = - 1" for w
    using longest_spec [of "collect_words ws" w] nth_mem [of _ "collect_words ws"]
    unfolding collect_words_set by (auto; blast)
  ultimately have "\<exists>s. ac_run A 0 w = Some s \<and>
     (if \<exists>p \<in> set ws. suffix p w
      then \<exists>k < length (collect_words ws). ac_match A ! s = int k \<and> suffix (collect_words ws ! k) w
        \<and> (\<forall>p \<in> set ws. suffix p w \<longrightarrow> suffix p (collect_words ws ! k))
      else ac_match A ! s = - 1)" for w by metis
  with A(1) show ?thesis by blast
qed

lemma ac_matches_longest_witness:
  "\<exists>A s. make_ac (trie_of_symbols [[1], [2, 1]]) = Some A \<and> ac_run A 0 [5, 2, 1] = Some s \<and> ac_match A ! s = 1"
proof -
  have ps: "collect_words [[1], [2, 1 :: u32]] = [[1], [2, 1]]" by code_simp
  from ac_matches_longest [of "[[1], [2, 1]]"] obtain A where A: "make_ac (trie_of_symbols [[1], [2, 1]]) = Some A"
    and run: "\<forall>w. \<exists>s. ac_run A 0 w = Some s \<and>
     (if \<exists>p \<in> set [[1], [2, 1]]. suffix p w
      then \<exists>k < length [[1], [2, 1 :: u32]]. ac_match A ! s = int k \<and> suffix ([[1], [2, 1]] ! k) w
        \<and> (\<forall>p \<in> set [[1], [2, 1]]. suffix p w \<longrightarrow> suffix p ([[1], [2, 1]] ! k))
      else ac_match A ! s = - 1)" unfolding ps by blast
  have suf: "suffix [2, 1] [5, 2, 1 :: u32]" by code_simp
  then have "\<exists>p \<in> set [[1], [2, 1]]. suffix p [5, 2, 1 :: u32]" by (intro bexI [of _ "[2, 1]"]) simp_all
  with run [rule_format, of "[5, 2, 1]"] suf obtain s k where s: "ac_run A 0 [5, 2, 1] = Some s" "k < 2" "ac_match A ! s = int k"
    "suffix [2, 1] ([[1], [2, 1 :: u32]] ! k)" by (auto simp del: ac_run.simps suffix_Cons simp: numeral_2_eq_2)
  then have "k = 1" by (cases k) (auto simp: suffix_def)
  with s A show ?thesis by auto
qed

end
