(* ===== verification/Reasoning_Budget.thy ===== *)
theory Reasoning_Budget
  imports Ac_Automaton Gr_Sample
begin

section \<open>The reasoning budget\<close>

text \<open>
  \<open>common/reasoning-budget.cpp\<close>: the sampler that bounds the tokens of a reasoning block. A start sequence
  opens a block, the budget counts its tokens down, and when it is spent the sampler forces a fixed
  sequence of tokens that closes the block. Start and end sequences are found by the automaton of
  \<open>Ac_Automaton\<close>. \<open>common_sampler_accept\<close> of \<open>common/sampling.cpp\<close> routes the tokens between the budget and a
  lazy grammar. The pieces of the vocabulary are a parameter, absent for a null vocabulary.
\<close>

subsection \<open>Matching token sequences\<close>

record token_matcher =
  tm_seqs :: "token list list"
  tm_ac :: aho_corasick
  tm_state :: nat

definition collect :: "token list list \<Rightarrow> token list list" where
  "collect seqs = fold (\<lambda>seq res. if seq \<noteq> [] \<and> seq \<notin> set res then res @ [seq] else res) seqs []"

definition build_trie :: "token list list \<Rightarrow> trie" where
  "build_trie seqs = fold (\<lambda>seq t. fst (insert_symbols t seq)) seqs empty_trie"

definition make_matcher :: "token list list \<Rightarrow> token_matcher option" where
  "make_matcher seqs =
     (case make_ac (build_trie (collect seqs)) of
        None \<Rightarrow> None
      | Some ac \<Rightarrow> Some \<lparr>tm_seqs = collect seqs, tm_ac = ac, tm_state = 0\<rparr>)"

definition tm_advance :: "token_matcher \<Rightarrow> token \<Rightarrow> (token_matcher \<times> int) option" where
  "tm_advance m tok =
     (case ac_next (tm_ac m) (tm_state m) tok of
        None \<Rightarrow> None
      | Some s \<Rightarrow> (let p = ac_match (tm_ac m) ! s in Some (m\<lparr>tm_state := if p \<ge> 0 then 0 else s\<rparr>, p)))"

definition tm_reset :: "token_matcher \<Rightarrow> token_matcher" where
  "tm_reset m = m\<lparr>tm_state := 0\<rparr>"

subsection \<open>The sampler\<close>

datatype rb_state = RB_IDLE | RB_COUNTING | RB_FORCING | RB_WAITING_UTF8 | RB_DONE

record rb_ctx =
  rb_vocab :: "(token \<Rightarrow> byte list) option"
  rb_start :: token_matcher
  rb_end :: token_matcher
  rb_forced :: "token list"
  rb_budget :: int
  rb_remaining :: int
  rb_state_of :: rb_state
  rb_force_pos :: nat
  rb_end_match :: int

definition rb_init ::
    "(token \<Rightarrow> byte list) option \<Rightarrow> token list list \<Rightarrow> token list list \<Rightarrow> token list \<Rightarrow> int \<Rightarrow> rb_state \<Rightarrow> rb_ctx option" where
  "rb_init vocab start_seqs end_seqs forced_tokens budget initial_state =
     (let st = (if initial_state = RB_COUNTING \<and> budget \<le> 0 then RB_FORCING else initial_state) in
      case (make_matcher start_seqs, make_matcher end_seqs) of
        (Some sm, Some em) \<Rightarrow>
          Some \<lparr>rb_vocab = vocab, rb_start = sm, rb_end = em, rb_forced = forced_tokens, rb_budget = budget,
                rb_remaining = budget, rb_state_of = st, rb_force_pos = 0, rb_end_match = - 1\<rparr>
      | _ \<Rightarrow> None)"

text \<open>\<open>ctx->vocab != nullptr\<close>: is the piece of the token complete?\<close>

definition piece_complete :: "(token \<Rightarrow> byte list) option \<Rightarrow> token \<Rightarrow> bool" where
  "piece_complete vocab tok = (case vocab of None \<Rightarrow> True | Some piece \<Rightarrow> common_utf8_is_complete (piece tok))"

definition rb_accept :: "rb_ctx \<Rightarrow> token \<Rightarrow> rb_ctx option" where
  "rb_accept ctx tok =
     (case rb_state_of ctx of
        RB_IDLE \<Rightarrow>
          (case tm_advance (rb_start ctx) tok of
             None \<Rightarrow> None
           | Some (sm, p) \<Rightarrow>
               let ctx = ctx\<lparr>rb_start := sm\<rparr> in
               if p \<ge> 0 then
                 (let ctx = ctx\<lparr>rb_state_of := RB_COUNTING, rb_remaining := rb_budget ctx\<rparr> in
                  Some (if rb_remaining ctx \<le> 0 then ctx\<lparr>rb_state_of := RB_FORCING, rb_force_pos := 0\<rparr> else ctx))
               else Some ctx)
      | RB_FORCING \<Rightarrow>
          (case tm_advance (rb_end ctx) tok of
             None \<Rightarrow> None
           | Some (em, p) \<Rightarrow>
               let ctx = ctx\<lparr>rb_end := em, rb_force_pos := rb_force_pos ctx + 1\<rparr> in
               Some (if rb_force_pos ctx \<ge> length (rb_forced ctx)
                     then ctx\<lparr>rb_state_of := RB_DONE, rb_end_match := p\<rparr> else ctx))
      | RB_DONE \<Rightarrow>
          (case tm_advance (rb_start ctx) tok of
             None \<Rightarrow> None
           | Some (sm, p) \<Rightarrow>
               let ctx = ctx\<lparr>rb_start := sm\<rparr> in
               if p \<ge> 0 then
                 (let ctx = ctx\<lparr>rb_state_of := RB_COUNTING, rb_remaining := rb_budget ctx,
                                rb_end := tm_reset (rb_end ctx), rb_end_match := - 1\<rparr> in
                  Some (if rb_remaining ctx \<le> 0 then ctx\<lparr>rb_state_of := RB_FORCING, rb_force_pos := 0\<rparr> else ctx))
               else Some ctx)
      | _ \<Rightarrow>
          (case tm_advance (rb_end ctx) tok of
             None \<Rightarrow> None
           | Some (em, p) \<Rightarrow>
               let ctx = ctx\<lparr>rb_end := em\<rparr>;
                   complete = piece_complete (rb_vocab ctx) tok;
                   forcing = ctx\<lparr>rb_state_of := RB_FORCING, rb_force_pos := 0, rb_end := tm_reset em\<rparr>
               in if p \<ge> 0 then Some (ctx\<lparr>rb_state_of := RB_DONE, rb_end_match := p\<rparr>)
                  else if rb_state_of ctx = RB_WAITING_UTF8 then Some (if complete then forcing else ctx)
                  else Some
                    (if rb_remaining ctx - 1 \<le> 0 then
                       (if complete then forcing\<lparr>rb_remaining := rb_remaining ctx - 1\<rparr>
                        else ctx\<lparr>rb_remaining := rb_remaining ctx - 1, rb_state_of := RB_WAITING_UTF8,
                                 rb_end := tm_reset em\<rparr>)
                     else ctx\<lparr>rb_remaining := rb_remaining ctx - 1\<rparr>)))"

text \<open>The mask on the candidates: pairs of a token and its logit.\<close>

definition rb_apply :: "rb_ctx \<Rightarrow> 'l \<Rightarrow> (token \<times> 'l) list \<Rightarrow> (token \<times> 'l) list" where
  "rb_apply ctx neg_inf cur_p =
     (if rb_state_of ctx \<noteq> RB_FORCING then cur_p
      else if rb_force_pos ctx \<ge> length (rb_forced ctx) then cur_p
      else map (\<lambda>(tok, logit). (tok, if tok \<noteq> rb_forced ctx ! rb_force_pos ctx then neg_inf else logit)) cur_p)"

definition rb_reset :: "rb_ctx \<Rightarrow> rb_ctx" where
  "rb_reset ctx = ctx\<lparr>rb_state_of := RB_IDLE, rb_remaining := rb_budget ctx, rb_start := tm_reset (rb_start ctx),
     rb_end := tm_reset (rb_end ctx), rb_force_pos := 0, rb_end_match := - 1\<rparr>"

definition rb_get_state :: "rb_ctx option \<Rightarrow> rb_state" where
  "rb_get_state smpl = (case smpl of None \<Rightarrow> RB_IDLE | Some ctx \<Rightarrow> rb_state_of ctx)"

definition rb_get_end_match :: "rb_ctx option \<Rightarrow> token list option" where
  "rb_get_end_match smpl =
     (case smpl of
        None \<Rightarrow> None
      | Some ctx \<Rightarrow> if rb_end_match ctx < 0 then None else Some (tm_seqs (rb_end ctx) ! nat (rb_end_match ctx)))"

definition rb_force :: "rb_ctx \<Rightarrow> rb_ctx \<times> bool" where
  "rb_force ctx =
     (if rb_state_of ctx \<noteq> RB_COUNTING then (ctx, False)
      else (ctx\<lparr>rb_state_of := RB_FORCING, rb_force_pos := 0, rb_end := tm_reset (rb_end ctx)\<rparr>, True))"

subsection \<open>What a matcher reports\<close>

text \<open>\<open>w\<close> is the text read since the matcher was last at its root.\<close>

definition tracks :: "token list list \<Rightarrow> token_matcher \<Rightarrow> token list \<Rightarrow> bool" where
  "tracks seqs m w \<longleftrightarrow> tm_seqs m = collect seqs \<and>
     (\<exists>L. ac_ok (tm_ac m) L (collect seqs) \<and> tm_state m < length L \<and> L ! tm_state m = lsuf (set L) w)"

lemma collect_props: "distinct (collect seqs) \<and> set (collect seqs) = set seqs - {[]}"
proof -
  have "distinct (fold (\<lambda>seq res. if seq \<noteq> [] \<and> seq \<notin> set res then res @ [seq] else res) seqs acc)
    \<and> set (fold (\<lambda>seq res. if seq \<noteq> [] \<and> seq \<notin> set res then res @ [seq] else res) seqs acc) = set acc \<union> (set seqs - {[]})"
    if "distinct acc" "[] \<notin> set acc" for acc
    using that by (induction seqs arbitrary: acc) auto
  from this [of "[]"] show ?thesis by (simp add: collect_def)
qed

lemma collect_words_distinct: "distinct ws \<Longrightarrow> collect_words ws = ws"
proof -
  have "distinct (ps @ ws) \<Longrightarrow> fold (\<lambda>w ps. if w \<in> set ps then ps else ps @ [w]) ws ps = ps @ ws" for ps
    by (induction ws arbitrary: ps) auto
  from this [of "[]"] show "distinct ws \<Longrightarrow> ?thesis" by (simp add: collect_words_def)
qed

lemma make_matcher_tracks: "\<exists>m. make_matcher seqs = Some m \<and> tracks seqs m [] \<and> tm_state m = 0"
proof -
  have "collect_words (collect seqs) = collect seqs" using collect_words_distinct collect_props by blast
  then obtain L where L: "trie_for (build_trie (collect seqs)) L (collect seqs)"
    using trie_of_symbols_for [of "collect seqs"] by (auto simp: build_trie_def trie_of_symbols_def)
  from make_ac_ok [OF L] obtain A where A: "make_ac (build_trie (collect seqs)) = Some A" "ac_ok A L (collect seqs)" by blast
  have "labelled (build_trie (collect seqs)) L" using L by (simp add: trie_for_def)
  note lab = labelledD(2,3) [OF this]
  show ?thesis using A lab by (auto simp: make_matcher_def tracks_def)
qed

lemma tracks_root: "tracks seqs m w \<Longrightarrow> tm_state m = 0 \<Longrightarrow> tracks seqs m []"
proof -
  assume "tracks seqs m w" "tm_state m = 0"
  then obtain L where L: "tm_seqs m = collect seqs" "ac_ok (tm_ac m) L (collect seqs)" by (auto simp: tracks_def)
  then have "labelled (ac_trie (tm_ac m)) L" by (simp add: ac_ok_def trie_for_def)
  note labelledD(2,3) [OF this]
  with L \<open>tm_state m = 0\<close> show ?thesis by (auto simp: tracks_def)
qed

lemma tracks_reset: "tracks seqs m w \<Longrightarrow> tracks seqs (tm_reset m) []"
proof -
  assume "tracks seqs m w"
  then obtain L where L: "tm_seqs m = collect seqs" "ac_ok (tm_ac m) L (collect seqs)" by (auto simp: tracks_def)
  then have "labelled (ac_trie (tm_ac m)) L" by (simp add: ac_ok_def trie_for_def)
  note labelledD(2,3) [OF this]
  with L show ?thesis by (auto simp: tracks_def tm_reset_def)
qed

text \<open>\<open>ended seqs w\<close>: one of the sequences (none of them empty) ends the text; \<open>longest_end\<close> is the longest.\<close>

definition ended :: "token list list \<Rightarrow> token list \<Rightarrow> bool" where
  "ended seqs w \<longleftrightarrow> (\<exists>e \<in> set seqs. e \<noteq> [] \<and> suffix e w)"

definition longest_end :: "token list list \<Rightarrow> token list \<Rightarrow> token list \<Rightarrow> bool" where
  "longest_end seqs w e \<longleftrightarrow> e \<in> set seqs \<and> e \<noteq> [] \<and> suffix e w \<and> (\<forall>e' \<in> set seqs. suffix e' w \<longrightarrow> suffix e' e)"

lemma tm_advance_spec:
  assumes "tracks seqs m w"
  shows "\<exists>m' p. tm_advance m tok = Some (m', p) \<and> tm_seqs m' = collect seqs \<and>
    (if ended seqs (w @ [tok])
     then 0 \<le> p \<and> p < int (length (collect seqs)) \<and> tracks seqs m' [] \<and> tm_state m' = 0
       \<and> longest_end seqs (w @ [tok]) (collect seqs ! nat p)
     else p = - 1 \<and> tracks seqs m' (w @ [tok]))"
proof -
  let ?C = "collect seqs" and ?w = "w @ [tok]"
  from assms obtain L where L: "tm_seqs m = ?C" "ac_ok (tm_ac m) L ?C" "tm_state m < length L"
    "L ! tm_state m = lsuf (set L) w" by (auto simp: tracks_def)
  have lab: "labelled (ac_trie (tm_ac m)) L" and ps: "set ?C \<subseteq> set L" using L(2) by (auto simp: ac_ok_def trie_for_def)
  from ac_next_ok [OF L(2,3)] obtain g where g: "ac_next (tm_ac m) (tm_state m) tok = Some g" "g < length L"
    "L ! g = lsuf (set L) (L ! tm_state m @ [tok])" by blast
  have Lg: "L ! g = lsuf (set L) ?w"
    using g(3) L(4) lsuf_snoc [where w = w and c = tok, OF nil_node [OF lab] labelledD(7) [OF lab]] by simp
  have p: "ac_match (tm_ac m) ! g = longest ?C ?w" using L(2) g(2) Lg longest_lsuf [OF ps] by (simp add: ac_ok_def)
  have adv: "tm_advance m tok = Some (m\<lparr>tm_state := if longest ?C ?w \<ge> 0 then 0 else g\<rparr>, longest ?C ?w)"
    by (simp add: tm_advance_def g(1) p Let_def)
  have E: "ended seqs ?w \<longleftrightarrow> (\<exists>e \<in> set ?C. suffix e ?w)" using collect_props [of seqs] by (auto simp: ended_def)
  show ?thesis
  proof (cases "ended seqs ?w")
    case True
    with E longest_spec [of ?C ?w] obtain k where k: "k < length ?C" "longest ?C ?w = int k" "suffix (?C ! k) ?w"
      "\<forall>p \<in> set ?C. suffix p ?w \<longrightarrow> suffix p (?C ! k)" by blast
    have "?C ! k \<in> set ?C" using k(1) by simp
    with k collect_props [of seqs] have "longest_end seqs ?w (?C ! k)" by (auto simp: longest_end_def)
    moreover have "tracks seqs (m\<lparr>tm_state := 0\<rparr>) []" using tracks_reset [OF assms] by (simp add: tm_reset_def)
    ultimately show ?thesis using adv True k L(1) by simp
  next
    case False
    with E longest_spec [of ?C ?w] nth_mem [of _ ?C] have "longest ?C ?w = - 1" by (auto; blast)
    with adv False L g(2) Lg show ?thesis by (auto simp: tracks_def)
  qed
qed

lemma tm_advance_tracks:
  assumes "tracks seqs m w"
  shows "\<exists>m' p w'. tm_advance m tok = Some (m', p) \<and> tracks seqs m' w' \<and> (0 \<le> p \<longrightarrow> tm_state m' = 0)
    \<and> - 1 \<le> p \<and> p < int (length (collect seqs))"
proof -
  from tm_advance_spec [OF assms, of tok] obtain m' p where adv: "tm_advance m tok = Some (m', p)"
    and c: "if ended seqs (w @ [tok])
     then 0 \<le> p \<and> p < int (length (collect seqs)) \<and> tracks seqs m' [] \<and> tm_state m' = 0
       \<and> longest_end seqs (w @ [tok]) (collect seqs ! nat p)
     else p = - 1 \<and> tracks seqs m' (w @ [tok])" by blast
  have "\<exists>w'. tracks seqs m' w'" using c by (cases "ended seqs (w @ [tok])") auto
  moreover have "(0 \<le> p \<longrightarrow> tm_state m' = 0) \<and> - 1 \<le> p \<and> p < int (length (collect seqs))"
    using c by (cases "ended seqs (w @ [tok])") auto
  ultimately show ?thesis using adv by blast
qed

subsection \<open>The states the sampler can reach\<close>

inductive rb_reach ::
    "(token \<Rightarrow> byte list) option \<Rightarrow> token list list \<Rightarrow> token list list \<Rightarrow> token list \<Rightarrow> int \<Rightarrow> rb_ctx \<Rightarrow> bool"
  for V S E F b where
  start: "rb_init V S E F b st = Some ctx \<Longrightarrow> rb_reach V S E F b ctx"
| accept: "rb_reach V S E F b ctx \<Longrightarrow> rb_accept ctx tok = Some ctx' \<Longrightarrow> rb_reach V S E F b ctx'"
| force: "rb_reach V S E F b ctx \<Longrightarrow> rb_reach V S E F b (fst (rb_force ctx))"
| reset: "rb_reach V S E F b ctx \<Longrightarrow> rb_reach V S E F b (rb_reset ctx)"

definition rb_inv ::
    "(token \<Rightarrow> byte list) option \<Rightarrow> token list list \<Rightarrow> token list list \<Rightarrow> token list \<Rightarrow> int \<Rightarrow> rb_ctx \<Rightarrow> bool" where
  "rb_inv V S E F b ctx \<longleftrightarrow> rb_vocab ctx = V \<and> rb_forced ctx = F \<and> rb_budget ctx = b
     \<and> (\<exists>w. tracks S (rb_start ctx) w) \<and> (\<exists>w. tracks E (rb_end ctx) w)
     \<and> (rb_state_of ctx = RB_IDLE \<longrightarrow> tm_state (rb_end ctx) = 0)
     \<and> (rb_state_of ctx \<in> {RB_COUNTING, RB_WAITING_UTF8, RB_FORCING} \<longrightarrow> tm_state (rb_start ctx) = 0)
     \<and> (rb_state_of ctx = RB_COUNTING \<longrightarrow> 0 < rb_remaining ctx \<and> rb_remaining ctx \<le> b)
     \<and> (rb_state_of ctx = RB_FORCING \<longrightarrow> rb_force_pos ctx \<le> length F - 1 \<and>
          (rb_force_pos ctx = 0 \<longrightarrow> tm_state (rb_end ctx) = 0))
     \<and> - 1 \<le> rb_end_match ctx \<and> rb_end_match ctx < int (length (collect E))"

lemma tracks_states: "tracks seqs (tm_reset m) w' \<Longrightarrow> tm_state (tm_reset m) = 0"
  by (simp add: tm_reset_def)

lemma tm_reset_simps [simp]: "tm_state (tm_reset m) = 0" "tm_seqs (tm_reset m) = tm_seqs m"
  by (simp_all add: tm_reset_def)

lemma rb_init_inv: "\<exists>ctx. rb_init V S E F b st = Some ctx \<and> rb_inv V S E F b ctx"
proof -
  obtain sm em where m: "make_matcher S = Some sm" "tracks S sm []" "tm_state sm = 0"
    "make_matcher E = Some em" "tracks E em []" "tm_state em = 0" using make_matcher_tracks by metis
  show ?thesis using m by (auto simp: rb_init_def rb_inv_def Let_def)
qed

lemma rb_accept_inv:
  assumes "rb_inv V S E F b ctx"
  shows "\<exists>c. rb_accept ctx tok = Some c \<and> rb_inv V S E F b c"
proof -
  from assms obtain v w where v: "tracks S (rb_start ctx) v" and w: "tracks E (rb_end ctx) w"
    by (auto simp: rb_inv_def)
  obtain sm p where s: "tm_advance (rb_start ctx) tok = Some (sm, p)" "\<exists>v. tracks S sm v" "0 \<le> p \<longrightarrow> tm_state sm = 0"
    using tm_advance_tracks [OF v, of tok] by blast
  obtain em q where e: "tm_advance (rb_end ctx) tok = Some (em, q)" "\<exists>v. tracks E em v" "- 1 \<le> q" "q < int (length (collect E))"
    using tm_advance_tracks [OF w, of tok] by blast
  have r: "\<exists>v. tracks E (tm_reset em) v" "\<exists>v. tracks E (tm_reset (rb_end ctx)) v"
    using e(2) w tracks_reset by blast+
  show ?thesis
    using assms s e r by (cases "rb_state_of ctx") (auto simp: rb_accept_def rb_inv_def Let_def)
qed

lemma rb_reach_inv: "rb_reach V S E F b ctx \<Longrightarrow> rb_inv V S E F b ctx"
proof (induction rule: rb_reach.induct)
  case (start st ctx)
  with rb_init_inv [of V S E F b st] show ?case by auto
next
  case (accept ctx tok ctx')
  with rb_accept_inv [OF accept.IH, of tok] show ?case by auto
next
  case (force ctx)
  then show ?case using tracks_reset [of E "rb_end ctx"] by (auto simp: rb_force_def rb_inv_def)
next
  case (reset ctx)
  then show ?case using tracks_reset [of E "rb_end ctx"] tracks_reset [of S "rb_start ctx"]
    by (auto simp: rb_reset_def rb_inv_def)
qed

fun rb_feed :: "rb_ctx \<Rightarrow> token list \<Rightarrow> rb_ctx option" where
  "rb_feed ctx [] = Some ctx"
| "rb_feed ctx (tok # toks) = (case rb_accept ctx tok of None \<Rightarrow> None | Some c \<Rightarrow> rb_feed c toks)"

lemma rb_feed_append:
  "rb_feed ctx (us @ ts) = (case rb_feed ctx us of None \<Rightarrow> None | Some c \<Rightarrow> rb_feed c ts)"
  by (induction us arbitrary: ctx) (auto split: option.split)

lemma rb_feed_reach: "rb_reach V S E F b ctx \<Longrightarrow> rb_feed ctx ts = Some c \<Longrightarrow> rb_reach V S E F b c"
  by (induction ts arbitrary: ctx) (auto split: option.splits intro: rb_reach.accept)

subsection \<open>One block\<close>

text \<open>How a block is opened, and the steps inside it.\<close>

lemma opened_block:
  assumes "rb_inv V S E F b ctx" and "rb_state_of ctx \<in> {RB_IDLE, RB_DONE}" and "rb_accept ctx tok = Some c"
    and "rb_state_of c \<notin> {RB_IDLE, RB_DONE}"
  shows "rb_remaining c = b \<and> tracks E (rb_end c) [] \<and> rb_end_match c = (if rb_state_of ctx = RB_DONE then - 1 else rb_end_match ctx)
    \<and> rb_state_of c = (if b \<le> 0 then RB_FORCING else RB_COUNTING) \<and> (b \<le> 0 \<longrightarrow> rb_force_pos c = 0)"
proof -
  from assms(1) obtain v w where v: "tracks S (rb_start ctx) v" and w: "tracks E (rb_end ctx) w" and b: "rb_budget ctx = b"
    and z: "rb_state_of ctx = RB_IDLE \<longrightarrow> tm_state (rb_end ctx) = 0"
    by (auto simp: rb_inv_def)
  obtain sm p where s: "tm_advance (rb_start ctx) tok = Some (sm, p)"
    using tm_advance_spec [OF v, of tok] by auto
  show ?thesis using assms(2-4) s b z tracks_root [OF w] tracks_reset [OF w]
    by (cases "rb_state_of ctx") (auto simp: rb_accept_def Let_def split: if_splits)
qed

lemma counting_step:
  assumes "rb_state_of ctx = RB_COUNTING" and "tracks E (rb_end ctx) w" and "rb_vocab ctx = V"
  shows "\<exists>c. rb_accept ctx tok = Some c \<and> rb_vocab c = V \<and> rb_forced c = rb_forced ctx \<and>
    (if ended E (w @ [tok])
     then rb_state_of c = RB_DONE \<and> (\<exists>e. rb_get_end_match (Some c) = Some e \<and> longest_end E (w @ [tok]) e)
     else rb_remaining c = rb_remaining ctx - 1 \<and>
       (if 1 < rb_remaining ctx then rb_state_of c = RB_COUNTING \<and> tracks E (rb_end c) (w @ [tok])
        else tracks E (rb_end c) [] \<and> tm_state (rb_end c) = 0 \<and>
          (if piece_complete V tok then rb_state_of c = RB_FORCING \<and> rb_force_pos c = 0
           else rb_state_of c = RB_WAITING_UTF8)))"
proof -
  obtain em p where e: "tm_advance (rb_end ctx) tok = Some (em, p)" "tm_seqs em = collect E"
    "if ended E (w @ [tok])
     then 0 \<le> p \<and> p < int (length (collect E)) \<and> tracks E em [] \<and> tm_state em = 0
       \<and> longest_end E (w @ [tok]) (collect E ! nat p)
     else p = - 1 \<and> tracks E em (w @ [tok])"
    using tm_advance_spec [OF assms(2), of tok] by auto
  show ?thesis
  proof (cases "ended E (w @ [tok])")
    case True
    with e assms(1,3) show ?thesis by (simp add: rb_accept_def rb_get_end_match_def Let_def)
  next
    case False
    with e have p: "p = - 1" and em: "tracks E em (w @ [tok])" by simp_all
    show ?thesis using False p em tracks_reset [OF em] e(1) assms(1,3) by (simp add: rb_accept_def Let_def)
  qed
qed

lemma waiting_step:
  assumes "rb_state_of ctx = RB_WAITING_UTF8" and "tracks E (rb_end ctx) w" and "rb_vocab ctx = V"
  shows "\<exists>c. rb_accept ctx tok = Some c \<and> rb_vocab c = V \<and> rb_forced c = rb_forced ctx \<and>
    (if ended E (w @ [tok])
     then rb_state_of c = RB_DONE \<and> (\<exists>e. rb_get_end_match (Some c) = Some e \<and> longest_end E (w @ [tok]) e)
     else if piece_complete V tok
     then rb_state_of c = RB_FORCING \<and> rb_force_pos c = 0 \<and> tracks E (rb_end c) []
     else rb_state_of c = RB_WAITING_UTF8 \<and> tracks E (rb_end c) (w @ [tok]))"
proof -
  obtain em p where e: "tm_advance (rb_end ctx) tok = Some (em, p)" "tm_seqs em = collect E"
    "if ended E (w @ [tok])
     then 0 \<le> p \<and> p < int (length (collect E)) \<and> tracks E em [] \<and> tm_state em = 0
       \<and> longest_end E (w @ [tok]) (collect E ! nat p)
     else p = - 1 \<and> tracks E em (w @ [tok])"
    using tm_advance_spec [OF assms(2), of tok] by auto
  show ?thesis
  proof (cases "ended E (w @ [tok])")
    case True
    with e assms(1,3) show ?thesis by (simp add: rb_accept_def rb_get_end_match_def Let_def)
  next
    case False
    with e have p: "p = - 1" and em: "tracks E em (w @ [tok])" by simp_all
    show ?thesis using False p em tracks_reset [OF em] e(1) assms(1,3) by (simp add: rb_accept_def Let_def)
  qed
qed

lemma forcing_step:
  assumes "rb_state_of ctx = RB_FORCING" and "tracks E (rb_end ctx) w"
  shows "\<exists>c. rb_accept ctx tok = Some c \<and> rb_vocab c = rb_vocab ctx \<and> rb_forced c = rb_forced ctx
    \<and> rb_force_pos c = rb_force_pos ctx + 1 \<and> tracks E (rb_end c) (if ended E (w @ [tok]) then [] else w @ [tok])
    \<and> (if length (rb_forced ctx) \<le> rb_force_pos ctx + 1
       then rb_state_of c = RB_DONE
         \<and> (if ended E (w @ [tok]) then \<exists>e. rb_get_end_match (Some c) = Some e \<and> longest_end E (w @ [tok]) e
            else rb_get_end_match (Some c) = None)
       else rb_state_of c = RB_FORCING)"
proof -
  obtain em p where e: "tm_advance (rb_end ctx) tok = Some (em, p)" "tm_seqs em = collect E"
    "if ended E (w @ [tok])
     then 0 \<le> p \<and> p < int (length (collect E)) \<and> tracks E em [] \<and> tm_state em = 0
       \<and> longest_end E (w @ [tok]) (collect E ! nat p)
     else p = - 1 \<and> tracks E em (w @ [tok])"
    using tm_advance_spec [OF assms(2), of tok] by auto
  show ?thesis
    using e assms(1) by (cases "ended E (w @ [tok])") (simp_all add: rb_accept_def rb_get_end_match_def Let_def)
qed

lemma ended_Nil [simp]: "\<not> ended seqs []"
  by (simp add: ended_def)

lemma counting_run:
  assumes "rb_state_of ctx = RB_COUNTING" and "tracks E (rb_end ctx) []" and "rb_vocab ctx = V"
    and "0 < rb_remaining ctx" and "int (length ts) \<le> rb_remaining ctx" and "\<forall>k < length ts. \<not> ended E (take k ts)"
  shows "\<exists>c. rb_feed ctx ts = Some c \<and> rb_vocab c = V \<and> rb_forced c = rb_forced ctx \<and>
    (if ended E ts then rb_state_of c = RB_DONE \<and> (\<exists>e. rb_get_end_match (Some c) = Some e \<and> longest_end E ts e)
     else if int (length ts) < rb_remaining ctx
     then rb_state_of c = RB_COUNTING \<and> rb_remaining c = rb_remaining ctx - int (length ts) \<and> tracks E (rb_end c) ts
     else tracks E (rb_end c) [] \<and> (if piece_complete V (last ts) then rb_state_of c = RB_FORCING \<and> rb_force_pos c = 0
                                     else rb_state_of c = RB_WAITING_UTF8))"
  using assms(5,6)
proof (induction ts rule: rev_induct)
  case Nil
  with assms show ?case by simp
next
  case (snoc t ts)
  have no: "\<not> ended E ts" using snoc.prems(2) [rule_format, of "length ts"] by simp
  have "\<forall>k < length ts. \<not> ended E (take k ts)" using snoc.prems(2) by (auto simp: take_append)
  with snoc.IH snoc.prems(1) no obtain c where c: "rb_feed ctx ts = Some c" "rb_vocab c = V" "rb_forced c = rb_forced ctx"
    "rb_state_of c = RB_COUNTING" "rb_remaining c = rb_remaining ctx - int (length ts)" "tracks E (rb_end c) ts"
    by auto
  from counting_step [OF c(4,6,2), of t] obtain c' where c': "rb_accept c t = Some c'" "rb_vocab c' = V"
    "rb_forced c' = rb_forced c"
    "if ended E (ts @ [t])
     then rb_state_of c' = RB_DONE \<and> (\<exists>e. rb_get_end_match (Some c') = Some e \<and> longest_end E (ts @ [t]) e)
     else rb_remaining c' = rb_remaining c - 1 \<and>
       (if 1 < rb_remaining c then rb_state_of c' = RB_COUNTING \<and> tracks E (rb_end c') (ts @ [t])
        else tracks E (rb_end c') [] \<and> tm_state (rb_end c') = 0 \<and>
          (if piece_complete V t then rb_state_of c' = RB_FORCING \<and> rb_force_pos c' = 0
           else rb_state_of c' = RB_WAITING_UTF8))" by blast
  have feed: "rb_feed ctx (ts @ [t]) = Some c'" using c(1) c'(1) by (simp add: rb_feed_append)
  show ?case
  proof (cases "ended E (ts @ [t])")
    case True
    with feed c' c(3) show ?thesis by simp
  next
    case False
    with feed c' c(3,5) show ?thesis by (cases "1 < rb_remaining c"; cases "piece_complete V t") simp_all
  qed
qed

text \<open>C21. One reasoning block. Whenever the sampler, in whatever way it got there, leaves the idle or the done
  state for counting, the block has the full budget \<open>b\<close> (also after an earlier block). Of the next tokens, as
  long as no end sequence has been completed: while fewer than \<open>b\<close> have been accepted the block is open and
  the rest of the budget is left; with the \<open>b\<close>-th the sampler turns to forcing, or to waiting if the piece of that
  token ends inside a character. The first end sequence within these tokens closes the block, and the
  end sequence reported is the longest one that ends there.\<close>

theorem reasoning_block:
  assumes "rb_reach V S E F b ctx" and "rb_state_of ctx \<in> {RB_IDLE, RB_DONE}" and "rb_accept ctx tok = Some c1"
    and "rb_state_of c1 = RB_COUNTING" and "int (length ts) \<le> b" and "\<forall>k < length ts. \<not> ended E (take k ts)"
  shows "\<exists>c. rb_feed c1 ts = Some c \<and>
    (if ended E ts then rb_state_of c = RB_DONE \<and> (\<exists>e. rb_get_end_match (Some c) = Some e \<and> longest_end E ts e)
     else if int (length ts) < b then rb_state_of c = RB_COUNTING \<and> rb_remaining c = b - int (length ts)
     else if piece_complete V (last ts) then rb_state_of c = RB_FORCING \<and> rb_force_pos c = 0
     else rb_state_of c = RB_WAITING_UTF8)"
proof -
  have c1: "rb_reach V S E F b c1" by (rule rb_reach.accept [OF assms(1,3)])
  have o: "rb_remaining c1 = b" "tracks E (rb_end c1) []"
    using opened_block [OF rb_reach_inv [OF assms(1)] assms(2,3)] assms(4) by auto
  have i: "rb_vocab c1 = V" "0 < rb_remaining c1" using rb_reach_inv [OF c1] assms(4) by (auto simp: rb_inv_def)
  from counting_run [OF assms(4) o(2) i _ assms(6)] assms(5) o(1) obtain c where c: "rb_feed c1 ts = Some c"
    "if ended E ts then rb_state_of c = RB_DONE \<and> (\<exists>e. rb_get_end_match (Some c) = Some e \<and> longest_end E ts e)
     else if int (length ts) < b
     then rb_state_of c = RB_COUNTING \<and> rb_remaining c = b - int (length ts) \<and> tracks E (rb_end c) ts
     else tracks E (rb_end c) [] \<and> (if piece_complete V (last ts) then rb_state_of c = RB_FORCING \<and> rb_force_pos c = 0
                                     else rb_state_of c = RB_WAITING_UTF8)" by auto
  show ?thesis using c by (intro exI [of _ c]) (simp split: if_splits)
qed

subsection \<open>The forced sequence\<close>

definition first_end :: "token list list \<Rightarrow> token list \<Rightarrow> bool" where
  "first_end E ts \<longleftrightarrow> (\<forall>k < length ts. \<not> ended E (take k ts))"

lemma forcing_run:
  assumes "rb_state_of ctx = RB_FORCING" and "rb_force_pos ctx = 0" and "tracks E (rb_end ctx) []"
    and "rb_forced ctx = F" and "n < length F"
  shows "\<exists>c w. rb_feed ctx (take n F) = Some c \<and> rb_state_of c = RB_FORCING \<and> rb_force_pos c = n \<and> rb_forced c = F
    \<and> tracks E (rb_end c) w \<and> (first_end E F \<longrightarrow> w = take n F)"
  using assms(5)
proof (induction n)
  case 0
  with assms show ?case by auto
next
  case (Suc n)
  then obtain c w where c: "rb_feed ctx (take n F) = Some c" "rb_state_of c = RB_FORCING" "rb_force_pos c = n"
    "rb_forced c = F" "tracks E (rb_end c) w" "first_end E F \<longrightarrow> w = take n F" by auto
  have n: "take (Suc n) F = take n F @ [F ! n]" using Suc.prems by (simp add: take_Suc_conv_app_nth)
  from forcing_step [OF c(2,5), of "F ! n"] obtain c' where c': "rb_accept c (F ! n) = Some c'" "rb_forced c' = F"
    "rb_force_pos c' = Suc n" "tracks E (rb_end c') (if ended E (w @ [F ! n]) then [] else w @ [F ! n])"
    "rb_state_of c' = RB_FORCING" using Suc.prems c(3,4) by auto
  have "first_end E F \<longrightarrow> \<not> ended E (w @ [F ! n]) \<and> w @ [F ! n] = take (Suc n) F"
    using c(6) n Suc.prems by (auto simp: first_end_def simp flip: n)
  then have "first_end E F \<longrightarrow> (if ended E (w @ [F ! n]) then [] else w @ [F ! n]) = take (Suc n) F" by (metis (no_types))
  moreover have "rb_feed ctx (take (Suc n) F) = Some c'" unfolding n using c(1) c'(1) by (simp add: rb_feed_append)
  ultimately show ?case using c' by blast
qed

text \<open>C26. Forcing. Whenever the sampler starts to force, then at each position of the forced sequence it leaves
  the logit of the token at this position alone and sets all others to minus infinity, and with the last
  token of the sequence it is done. If no end sequence is completed before that last token, the end
  sequence reported is the longest one that ends the forced sequence, or none if there is none.\<close>

theorem forced_sequence:
  assumes "rb_reach V S E F b ctx" and "rb_state_of ctx = RB_FORCING" and "rb_force_pos ctx = 0" and "F \<noteq> []"
  shows "(\<forall>n < length F. \<exists>c. rb_feed ctx (take n F) = Some c \<and> rb_state_of c = RB_FORCING \<and>
        (\<forall>cur_p. rb_apply c neg_inf cur_p = map (\<lambda>(tok, logit). (tok, if tok = F ! n then logit else neg_inf)) cur_p))
    \<and> (\<exists>c. rb_feed ctx F = Some c \<and> rb_state_of c = RB_DONE \<and>
        (first_end E F \<longrightarrow> (if ended E F then \<exists>e. rb_get_end_match (Some c) = Some e \<and> longest_end E F e
                            else rb_get_end_match (Some c) = None)))"
proof (intro conjI allI impI)
  have inv: "rb_forced ctx = F" "\<exists>w. tracks E (rb_end ctx) w" "tm_state (rb_end ctx) = 0"
    using rb_reach_inv [OF assms(1)] assms(2,3) by (auto simp: rb_inv_def)
  then have "tracks E (rb_end ctx) []" using tracks_root by blast
  note run = forcing_run [OF assms(2,3) this inv(1)]
  fix n assume n: "n < length F"
  from run [OF n] obtain c w where c: "rb_feed ctx (take n F) = Some c" "rb_state_of c = RB_FORCING"
    "rb_force_pos c = n" "rb_forced c = F" by blast
  have "rb_apply c neg_inf cur_p = map (\<lambda>(tok, logit). (tok, if tok = F ! n then logit else neg_inf)) cur_p" for cur_p
    using c(2-4) n by (auto simp: rb_apply_def)
  with c show "\<exists>c. rb_feed ctx (take n F) = Some c \<and> rb_state_of c = RB_FORCING \<and>
        (\<forall>cur_p. rb_apply c neg_inf cur_p = map (\<lambda>(tok, logit). (tok, if tok = F ! n then logit else neg_inf)) cur_p)"
    by blast
next
  have inv: "rb_forced ctx = F" "\<exists>w. tracks E (rb_end ctx) w" "tm_state (rb_end ctx) = 0"
    using rb_reach_inv [OF assms(1)] assms(2,3) by (auto simp: rb_inv_def)
  then have t: "tracks E (rb_end ctx) []" using tracks_root by blast
  obtain F' l where F: "F = F' @ [l]" using assms(4) by (cases F rule: rev_cases) auto
  from forcing_run [OF assms(2,3) t inv(1), of "length F'"] F obtain c w where c: "rb_feed ctx F' = Some c"
    "rb_state_of c = RB_FORCING" "rb_force_pos c = length F'" "rb_forced c = F" "tracks E (rb_end c) w"
    "first_end E F \<longrightarrow> w = F'" by auto
  from forcing_step [OF c(2,5), of l] c(3,4) F obtain c' where c': "rb_accept c l = Some c'" "rb_state_of c' = RB_DONE"
    "if ended E (w @ [l]) then \<exists>e. rb_get_end_match (Some c') = Some e \<and> longest_end E (w @ [l]) e
     else rb_get_end_match (Some c') = None" by auto
  have "rb_feed ctx F = Some c'" using c(1) c'(1) F by (simp add: rb_feed_append)
  with c' c(6) F show "\<exists>c. rb_feed ctx F = Some c \<and> rb_state_of c = RB_DONE \<and>
        (first_end E F \<longrightarrow> (if ended E F then \<exists>e. rb_get_end_match (Some c) = Some e \<and> longest_end E F e
                            else rb_get_end_match (Some c) = None))" by auto
qed

subsection \<open>A block ends\<close>

text \<open>The number of tokens until a block is over, if every piece is complete.\<close>

definition tokens_left :: "rb_ctx \<Rightarrow> nat" where
  "tokens_left ctx =
     (if rb_state_of ctx = RB_COUNTING then nat (rb_remaining ctx) + max 1 (length (rb_forced ctx))
      else max 1 (length (rb_forced ctx)) - rb_force_pos ctx)"

lemma tokens_left_step:
  assumes "rb_inv V S E F b ctx" and "rb_state_of ctx \<in> {RB_COUNTING, RB_FORCING}" and "piece_complete V tok"
  shows "\<exists>c. rb_accept ctx tok = Some c \<and> rb_inv V S E F b c \<and>
    (rb_state_of c = RB_DONE \<or> rb_state_of c \<in> {RB_COUNTING, RB_FORCING} \<and> tokens_left c < tokens_left ctx)"
proof -
  from rb_accept_inv [OF assms(1)] obtain c where c: "rb_accept ctx tok = Some c" "rb_inv V S E F b c" by blast
  obtain w where w: "tracks E (rb_end ctx) w" and i: "rb_vocab ctx = V" "rb_forced ctx = F"
    "rb_state_of ctx = RB_COUNTING \<longrightarrow> 0 < rb_remaining ctx" "rb_state_of ctx = RB_FORCING \<longrightarrow> rb_force_pos ctx \<le> length F - 1"
    using assms(1) by (auto simp: rb_inv_def)
  show ?thesis
  proof (cases "rb_state_of ctx = RB_COUNTING")
    case True
    from counting_step [OF True w i(1), of tok] c(1) have
      "rb_forced c = F" "ended E (w @ [tok]) \<longrightarrow> rb_state_of c = RB_DONE"
      "\<not> ended E (w @ [tok]) \<longrightarrow> rb_remaining c = rb_remaining ctx - 1 \<and>
        (if 1 < rb_remaining ctx then rb_state_of c = RB_COUNTING else rb_state_of c = RB_FORCING \<and> rb_force_pos c = 0)"
      using assms(3) i(2) by (auto split: if_splits)
    with True i c show ?thesis
      by (cases "ended E (w @ [tok])"; cases "1 < rb_remaining ctx") (simp_all add: tokens_left_def)
  next
    case False
    then have f: "rb_state_of ctx = RB_FORCING" using assms(2) by simp
    from forcing_step [OF f w, of tok] c(1) i(2) have "rb_forced c = F" "rb_force_pos c = rb_force_pos ctx + 1"
      "if length F \<le> rb_force_pos ctx + 1 then rb_state_of c = RB_DONE else rb_state_of c = RB_FORCING"
      by (auto split: if_splits)
    with f i c show ?thesis by (auto simp: tokens_left_def split: if_splits)
  qed
qed

lemma tokens_left_run:
  assumes "rb_inv V S E F b ctx" and "rb_state_of ctx \<in> {RB_COUNTING, RB_FORCING}" and "\<forall>tok \<in> set ts. piece_complete V tok"
    and "tokens_left ctx \<le> length ts"
  shows "\<exists>k \<le> tokens_left ctx. \<exists>c. rb_feed ctx (take k ts) = Some c \<and> rb_state_of c = RB_DONE"
  using assms
proof (induction ts arbitrary: ctx)
  case Nil
  then have "0 < tokens_left ctx" by (auto simp: tokens_left_def rb_inv_def)
  with Nil show ?case by simp
next
  case (Cons t ts)
  from tokens_left_step [OF Cons.prems(1,2), of t] Cons.prems(3) obtain c where
    c: "rb_accept ctx t = Some c" "rb_inv V S E F b c"
    "rb_state_of c = RB_DONE \<or> rb_state_of c \<in> {RB_COUNTING, RB_FORCING} \<and> tokens_left c < tokens_left ctx" by auto
  have pos: "0 < tokens_left ctx" using Cons.prems(1,2) by (auto simp: tokens_left_def rb_inv_def)
  show ?case
  proof (cases "rb_state_of c = RB_DONE")
    case True
    with c(1) pos show ?thesis by (intro exI [of _ 1]) simp
  next
    case False
    with c(3) have d: "rb_state_of c \<in> {RB_COUNTING, RB_FORCING}" "tokens_left c < tokens_left ctx" by auto
    with Cons.IH [OF c(2) d(1)] Cons.prems(3,4) obtain k c' where
      k: "k \<le> tokens_left c" "rb_feed c (take k ts) = Some c'" "rb_state_of c' = RB_DONE" by auto
    with c(1) d(2) show ?thesis by (intro exI [of _ "Suc k"]) simp
  qed
qed

text \<open>C27. Every block ends. If the pieces of the vocabulary end at character boundaries (or there is no
  vocabulary), then from the token that opens a block on, however it was opened and whichever tokens
  follow - even tokens that ignore the mask - the sampler is done after at most \<open>b\<close> tokens and the length of the forced
  sequence (one token if that is empty), where \<open>b\<close> is the budget, or 0 if it is negative.\<close>

theorem reasoning_block_ends:
  assumes "rb_reach V S E F b ctx" and "rb_state_of ctx \<in> {RB_IDLE, RB_DONE}" and "rb_accept ctx tok = Some c1"
    and "rb_state_of c1 \<notin> {RB_IDLE, RB_DONE}" and "\<forall>tok \<in> set ts. piece_complete V tok"
    and "nat b + max 1 (length F) \<le> length ts"
  shows "\<exists>k \<le> nat b + max 1 (length F). \<exists>c. rb_feed c1 (take k ts) = Some c \<and> rb_state_of c = RB_DONE"
proof -
  have inv: "rb_inv V S E F b c1" by (rule rb_reach_inv [OF rb_reach.accept [OF assms(1,3)]])
  have o: "rb_remaining c1 = b" "rb_state_of c1 = (if b \<le> 0 then RB_FORCING else RB_COUNTING)" "b \<le> 0 \<longrightarrow> rb_force_pos c1 = 0"
    using opened_block [OF rb_reach_inv [OF assms(1)] assms(2-4)] by auto
  have "tokens_left c1 = nat b + max 1 (length F)" using o inv by (auto simp: tokens_left_def rb_inv_def)
  moreover have "rb_state_of c1 \<in> {RB_COUNTING, RB_FORCING}" using o(2) by simp
  ultimately show ?thesis using tokens_left_run [OF inv _ assms(5)] assms(6) by simp
qed

subsection \<open>Waiting for a character\<close>

lemma waiting_run:
  assumes "rb_state_of ctx = RB_WAITING_UTF8" and "tracks E (rb_end ctx) w" and "rb_vocab ctx = V"
    and "\<forall>tok \<in> set ts. \<not> piece_complete V tok" and "\<forall>k \<le> length ts. \<not> ended E (w @ take k ts)"
  shows "\<exists>c. rb_feed ctx ts = Some c \<and> rb_state_of c = RB_WAITING_UTF8"
  using assms
proof (induction ts arbitrary: ctx w)
  case (Cons t ts)
  have "\<not> ended E (w @ [t])" using Cons.prems(5) [rule_format, of 1] by simp
  with waiting_step [OF Cons.prems(1-3), of t] Cons.prems(4) obtain c where
    c: "rb_accept ctx t = Some c" "rb_vocab c = V" "rb_state_of c = RB_WAITING_UTF8" "tracks E (rb_end c) (w @ [t])" by auto
  have "\<forall>k \<le> length ts. \<not> ended E ((w @ [t]) @ take k ts)"
  proof (intro allI impI)
    fix k assume "k \<le> length ts"
    with Cons.prems(5) [rule_format, of "Suc k"] show "\<not> ended E ((w @ [t]) @ take k ts)" by simp
  qed
  from Cons.IH [OF c(3,4,2) _ this] Cons.prems(4) c(1) show ?case by simp
qed simp

text \<open>Tokens 0 to 255 are single bytes, as in a vocabulary with byte fallback.\<close>

definition byte_piece :: "token \<Rightarrow> byte list" where
  "byte_piece tok = (if tok < 256 then [ucast tok] else [])"

definition dashes :: "nat \<Rightarrow> token list" where
  "dashes n = concat (replicate n [0xE2, 0x80, 0x94])"

definition byte_budget :: "rb_ctx option" where
  "byte_budget = rb_init (Some byte_piece) [[256]] [[257]] [257] 3 RB_IDLE"

text \<open>Whether a character is complete is judged on the piece of one token. With a vocabulary that spells a
  character of several bytes by one token each, the sampler does not see it completed: after a budget
  of three tokens that spell exactly one character it waits, and it goes on waiting for as long as the
  text consists of such characters, although the text is complete after every one of them. The budget is
  never enforced.\<close>

theorem byte_pieces_never_forced:
  "\<exists>ctx. byte_budget = Some ctx \<and> (\<forall>n. \<exists>c. rb_feed ctx (256 # dashes (Suc n)) = Some c \<and> rb_state_of c = RB_WAITING_UTF8
     \<and> common_utf8_is_complete (concat (map byte_piece (dashes (Suc n)))))"
proof -
  have "map_option (\<lambda>c. (rb_state_of c, tm_state (rb_end c))) (Option.bind byte_budget (\<lambda>ctx. rb_feed ctx [256, 0xE2, 0x80, 0x94]))
      = Some (RB_WAITING_UTF8, 0)" by code_simp
  then obtain ctx c where c: "byte_budget = Some ctx" "rb_feed ctx [256, 0xE2, 0x80, 0x94] = Some c" "rb_state_of c = RB_WAITING_UTF8"
    and root: "tm_state (rb_end c) = 0"
    by (auto simp: bind_eq_Some_conv simp del: rb_feed.simps)
  have "rb_reach (Some byte_piece) [[256]] [[257]] [257] 3 c"
    by (rule rb_feed_reach [OF rb_reach.start c(2)]) (use c(1) in \<open>simp add: byte_budget_def\<close>)
  from rb_reach_inv [OF this] root have w: "rb_vocab c = Some byte_piece" "tracks [[257]] (rb_end c) []"
    using tracks_root by (auto simp: rb_inv_def)
  have ne: "tok \<noteq> 257 \<and> \<not> piece_complete (Some byte_piece) tok" if "tok \<in> set (dashes n)" for tok n
  proof -
    have "tok = 0xE2 \<or> tok = 0x80 \<or> tok = 0x94" using that by (auto simp: dashes_def split: if_splits)
    moreover have "\<not> piece_complete (Some byte_piece) 0xE2" "\<not> piece_complete (Some byte_piece) 0x80"
      "\<not> piece_complete (Some byte_piece) 0x94" by code_simp+
    ultimately show ?thesis by auto
  qed
  have no: "\<not> ended [[257]] (take k (dashes n))" for k n
  proof (cases "take k (dashes n)" rule: rev_cases)
    case (snoc us u)
    then have "u \<in> set (dashes n)" by (metis in_set_takeD in_set_conv_decomp)
    with ne [of u n] snoc show ?thesis by (simp add: ended_def)
  qed (metis ended_Nil)
  have "\<exists>c'. rb_feed ctx (256 # dashes (Suc n)) = Some c' \<and> rb_state_of c' = RB_WAITING_UTF8
     \<and> common_utf8_is_complete (concat (map byte_piece (dashes (Suc n))))" for n
  proof -
    have "256 # dashes (Suc n) = [256, 0xE2, 0x80, 0x94] @ dashes n" by (simp add: dashes_def)
    with rb_feed_append [of ctx "[256, 0xE2, 0x80, 0x94]" "dashes n"] c(2)
    have "rb_feed ctx (256 # dashes (Suc n)) = rb_feed c (dashes n)" by (simp del: rb_feed.simps)
    moreover have "\<exists>c'. rb_feed c (dashes n) = Some c' \<and> rb_state_of c' = RB_WAITING_UTF8"
      using ne no by (intro waiting_run [OF c(3) w(2,1)]) auto
    moreover have "dashes (Suc n) = dashes n @ [0xE2, 0x80, 0x94]"
      by (induction n) (simp_all add: dashes_def)
    then have "concat (map byte_piece (dashes (Suc n))) = concat (map byte_piece (dashes n)) @ 0xE2 # [0x80, 0x94]"
      by (simp add: byte_piece_def)
    then have "common_utf8_is_complete (concat (map byte_piece (dashes (Suc n))))"
      using is_complete_lead [of "[0x80, 0x94]" "0xE2" "concat (map byte_piece (dashes n))"]
      by (simp add: is_cont_def expected_length_def)
    ultimately show ?thesis by simp
  qed
  with c(1) show ?thesis by blast
qed

subsection \<open>Sample runs\<close>

definition sample_budget :: "token list \<Rightarrow> rb_ctx option" where
  "sample_budget toks = Option.bind (rb_init None [[100]] [[101], [103, 104]] [102, 101] 2 RB_IDLE) (\<lambda>ctx. rb_feed ctx toks)"

lemma sample_budget_reach:
  "sample_budget toks = Some ctx \<Longrightarrow> rb_reach None [[100]] [[101], [103, 104]] [102, 101] 2 ctx"
  by (auto simp: sample_budget_def bind_eq_Some_conv intro: rb_feed_reach rb_reach.start)

lemma sample_budget_append: "sample_budget (us @ ts) = Option.bind (sample_budget us) (\<lambda>c. rb_feed c ts)"
  by (cases "rb_init None [[100]] [[101], [103, 104]] [102, 101] 2 RB_IDLE") (simp_all add: sample_budget_def rb_feed_append split: option.split)

text \<open>A second block, after one that ended by itself.\<close>

lemma second_block:
  "\<exists>ctx c1. sample_budget [100, 50, 101] = Some ctx \<and> rb_state_of ctx = RB_DONE \<and> rb_accept ctx 100 = Some c1
     \<and> rb_state_of c1 = RB_COUNTING"
proof -
  have "map_option rb_state_of (sample_budget [100, 50, 101]) = Some RB_DONE"
    "map_option rb_state_of (Option.bind (sample_budget [100, 50, 101]) (\<lambda>c. rb_accept c 100)) = Some RB_COUNTING"
    by code_simp+
  then show ?thesis by (auto simp: bind_eq_Some_conv)
qed

lemma reasoning_block_witness:
  "\<exists>c. sample_budget [100, 50, 101, 100, 60, 61] = Some c \<and> rb_state_of c = RB_FORCING \<and> rb_force_pos c = 0"
proof -
  from second_block obtain ctx c1 where c: "sample_budget [100, 50, 101] = Some ctx" "rb_state_of ctx = RB_DONE"
    "rb_accept ctx 100 = Some c1" "rb_state_of c1 = RB_COUNTING" by blast
  have no: "\<not> ended [[101], [103, 104]] ts" if "ts \<in> {[], [60], [60, 61]}" for ts
    using that by (auto simp: ended_def suffix_Cons)
  have "\<forall>k < length [60, 61]. \<not> ended [[101], [103, 104]] (take k [60, 61])"
    by (auto simp: less_Suc_eq no)
  from reasoning_block [OF sample_budget_reach [OF c(1)] _ c(3,4), of "[60, 61]", OF _ _ this] c(2) no obtain c' where
    "rb_feed c1 [60, 61] = Some c'" "rb_state_of c' = RB_FORCING" "rb_force_pos c' = 0" by (auto simp: piece_complete_def)
  with c(3) sample_budget_append [of "[100, 50, 101]" "[100, 60, 61]"] c(1) show ?thesis by simp
qed

lemma forced_sequence_witness:
  "\<exists>ctx c. sample_budget [100, 60, 61] = Some ctx \<and> rb_feed ctx [102] = Some c
     \<and> rb_apply c 0 [(101, 5), (7, 9)] = [(101, 5 :: nat), (7, 0)]
     \<and> (\<exists>c'. rb_feed ctx [102, 101] = Some c' \<and> rb_state_of c' = RB_DONE)"
proof -
  have "map_option (\<lambda>c. (rb_state_of c, rb_force_pos c)) (sample_budget [100, 60, 61]) = Some (RB_FORCING, 0)" by code_simp
  then obtain ctx where ctx: "sample_budget [100, 60, 61] = Some ctx" "rb_state_of ctx = RB_FORCING" "rb_force_pos ctx = 0"
    by auto
  note F = forced_sequence [OF sample_budget_reach [OF ctx(1)] ctx(2,3), of "0 :: nat"]
  from F [THEN conjunct1, rule_format, of 1] obtain c where "rb_feed ctx [102] = Some c"
    "rb_apply c 0 [(101, 5), (7, 9)] = [(101, 5 :: nat), (7, 0)]" by auto
  with F [THEN conjunct2] ctx(1) show ?thesis by (auto simp del: rb_feed.simps)
qed

lemma reasoning_block_ends_witness:
  "\<exists>k \<le> 4. \<exists>c. sample_budget ([100, 50, 101, 100] @ take k [1, 2, 3, 4]) = Some c \<and> rb_state_of c = RB_DONE"
proof -
  from second_block obtain ctx c1 where c: "sample_budget [100, 50, 101] = Some ctx" "rb_state_of ctx = RB_DONE"
    "rb_accept ctx 100 = Some c1" "rb_state_of c1 = RB_COUNTING" by blast
  from reasoning_block_ends [OF sample_budget_reach [OF c(1)] _ c(3), of "[1, 2, 3, 4]"] c(2,4) obtain k c' where
    k: "k \<le> 4" "rb_feed c1 (take k [1, 2, 3, 4]) = Some c'" "rb_state_of c' = RB_DONE" by (auto simp: piece_complete_def)
  have "sample_budget ([100, 50, 101, 100] @ take k [1, 2, 3, 4]) = Some c'"
    using sample_budget_append [of "[100, 50, 101]" "100 # take k [1, 2, 3, 4]"] c(1,3) k(2) by simp
  with k show ?thesis by blast
qed

text \<open>The end sequence that closes a forced sequence is missed when another one, completed inside the forced
  sequence, overlaps it: the matcher starts again after every match.\<close>

lemma forced_end_missed:
  "map_option (\<lambda>c. (rb_state_of c, rb_get_end_match (Some c)))
     (Option.bind (rb_init None [[100]] [[2, 3], [1, 2]] [1, 2, 3] 0 RB_IDLE) (\<lambda>ctx. rb_feed ctx [100, 1, 2, 3]))
   = Some (RB_DONE, None)"
  by code_simp

end
