(* ===== verification/Sampler_Route.thy ===== *)
theory Sampler_Route
  imports Reasoning_Budget
begin

section \<open>The common sampler: history and routing of accepted tokens\<close>

text \<open>
  \<open>common/sampling.cpp\<close>: the ring buffer that holds the last tokens, as a refinement of a bounded list, and
  \<open>common_sampler_accept\<close>, which passes an accepted token on to the reasoning budget, the grammar and the
  chain of samplers. The state of the chain is abstract, with its accept function as a parameter.
\<close>

subsection \<open>The ring buffer\<close>

record 'a ring_buffer =
  rg_capacity :: nat
  rg_sz :: nat
  rg_first :: nat
  rg_pos :: nat
  rg_data :: "'a list"

definition ring_make :: "'a \<Rightarrow> nat \<Rightarrow> 'a ring_buffer" where
  "ring_make z cap = \<lparr>rg_capacity = cap, rg_sz = 0, rg_first = 0, rg_pos = 0, rg_data = replicate cap z\<rparr>"

text \<open>\<open>None\<close> is the exception on an empty buffer or an index out of bounds.\<close>

definition ring_front :: "'a ring_buffer \<Rightarrow> 'a option" where
  "ring_front r = (if rg_sz r = 0 then None else Some (rg_data r ! rg_first r))"

definition ring_back :: "'a ring_buffer \<Rightarrow> 'a option" where
  "ring_back r = (if rg_sz r = 0 then None else Some (rg_data r ! rg_pos r))"

definition ring_push :: "'a ring_buffer \<Rightarrow> 'a \<Rightarrow> 'a ring_buffer" where
  "ring_push r value =
     (let r = (if rg_sz r = rg_capacity r then r\<lparr>rg_first := (rg_first r + 1) mod rg_capacity r\<rparr>
               else r\<lparr>rg_sz := rg_sz r + 1\<rparr>)
      in r\<lparr>rg_data := (rg_data r)[rg_pos r := value], rg_pos := (rg_pos r + 1) mod rg_capacity r\<rparr>)"

definition ring_pop :: "'a ring_buffer \<Rightarrow> ('a ring_buffer \<times> 'a) option" where
  "ring_pop r =
     (if rg_sz r = 0 then None
      else Some (r\<lparr>rg_first := (rg_first r + 1) mod rg_capacity r, rg_sz := rg_sz r - 1\<rparr>, rg_data r ! rg_first r))"

definition ring_rat :: "'a ring_buffer \<Rightarrow> nat \<Rightarrow> 'a option" where
  "ring_rat r i =
     (if i \<ge> rg_sz r then None
      else Some (rg_data r ! ((rg_first r + rg_sz r - i - 1) mod rg_capacity r)))"

definition ring_to_vector :: "'a ring_buffer \<Rightarrow> 'a list" where
  "ring_to_vector r = map (\<lambda>i. rg_data r ! ((rg_first r + i) mod rg_capacity r)) [0..<rg_sz r]"

definition ring_clear :: "'a ring_buffer \<Rightarrow> 'a ring_buffer" where
  "ring_clear r = r\<lparr>rg_sz := 0, rg_first := 0, rg_pos := 0\<rparr>"

definition ring_empty :: "'a ring_buffer \<Rightarrow> bool" where
  "ring_empty r = (rg_sz r = 0)"

text \<open>The abstract buffer is the list of its elements, oldest first, cut to the newest \<open>cap\<close>.\<close>

definition ring_inv :: "'a ring_buffer \<Rightarrow> bool" where
  "ring_inv r \<longleftrightarrow> 0 < rg_capacity r \<and> length (rg_data r) = rg_capacity r \<and> rg_sz r \<le> rg_capacity r
     \<and> rg_first r < rg_capacity r \<and> rg_pos r = (rg_first r + rg_sz r) mod rg_capacity r"

definition newest :: "nat \<Rightarrow> 'a list \<Rightarrow> 'a list" where
  "newest n xs = drop (length xs - n) xs"

lemma length_to_vector [simp]: "length (ring_to_vector r) = rg_sz r"
  by (simp add: ring_to_vector_def)

lemma nth_to_vector: "i < rg_sz r \<Longrightarrow> ring_to_vector r ! i = rg_data r ! ((rg_first r + i) mod rg_capacity r)"
  by (simp add: ring_to_vector_def)

lemma mod_add_neq: "i < s \<Longrightarrow> s < c \<Longrightarrow> (f + i) mod c \<noteq> (f + s) mod (c :: nat)"
proof
  assume a: "i < s" "s < c" "(f + i) mod c = (f + s) mod c"
  then have "c dvd (f + s) - (f + i)" by (metis add_le_cancel_left less_imp_le mod_eq_dvd_iff_nat)
  with a show False by (auto dest: dvd_imp_le)
qed

lemma ring_push_list:
  assumes "ring_inv r"
  shows "ring_inv (ring_push r x) \<and> ring_to_vector (ring_push r x) = newest (rg_capacity r) (ring_to_vector r @ [x])"
proof (cases "rg_sz r = rg_capacity r")
  case True
  let ?c = "rg_capacity r" and ?f = "rg_first r"
  have i: "0 < ?c" "length (rg_data r) = ?c" "?f < ?c" "rg_pos r = ?f" using assms True by (auto simp: ring_inv_def)
  let ?r = "ring_push r x"
  have r: "rg_capacity ?r = ?c" "rg_sz ?r = ?c" "rg_first ?r = (?f + 1) mod ?c" "rg_data ?r = (rg_data r)[?f := x]"
    "rg_pos ?r = (?f + 1) mod ?c" using True i by (simp_all add: ring_push_def Let_def)
  have "ring_to_vector ?r ! k = newest ?c (ring_to_vector r @ [x]) ! k" if k: "k < ?c" for k
  proof -
    have idx: "((?f + 1) mod ?c + k) mod ?c = (?f + Suc k) mod ?c" by (simp add: mod_add_left_eq)
    show ?thesis
    proof (cases "Suc k = ?c")
      case True
      then have "(?f + Suc k) mod ?c = ?f" "?c - Suc 0 = k" using i(3) by simp_all
      with True r i k idx \<open>rg_sz r = ?c\<close> show ?thesis by (simp add: nth_to_vector newest_def nth_append)
    next
      case False
      then have "Suc k < ?c" using k by simp
      then have "(?f + Suc k) mod ?c \<noteq> ?f" using mod_add_neq [of 0 "Suc k" ?c ?f] i(3) by simp
      moreover have "k < ?c - Suc 0" using \<open>Suc k < ?c\<close> by simp
      ultimately show ?thesis using \<open>Suc k < ?c\<close> r k idx \<open>rg_sz r = ?c\<close>
        by (simp add: nth_to_vector newest_def nth_append)
    qed
  qed
  then have "ring_to_vector ?r = newest ?c (ring_to_vector r @ [x])"
    using r(2) True by (intro nth_equalityI) (simp_all add: newest_def)
  with r i show ?thesis by (simp add: ring_inv_def)
next
  case False
  let ?c = "rg_capacity r" and ?f = "rg_first r" and ?s = "rg_sz r" and ?r = "ring_push r x"
  have i: "0 < ?c" "length (rg_data r) = ?c" "?f < ?c" "rg_pos r = (?f + ?s) mod ?c" "?s < ?c"
    using assms False by (auto simp: ring_inv_def)
  have r: "rg_capacity ?r = ?c" "rg_sz ?r = Suc ?s" "rg_first ?r = ?f" "rg_data ?r = (rg_data r)[(?f + ?s) mod ?c := x]"
    "rg_pos ?r = (?f + Suc ?s) mod ?c" using False i by (simp_all add: ring_push_def Let_def mod_Suc_eq)
  have "ring_to_vector ?r ! k = (ring_to_vector r @ [x]) ! k" if k: "k < Suc ?s" for k
  proof (cases "k = ?s")
    case True
    with r i show ?thesis by (simp add: nth_to_vector nth_append)
  next
    case ne: False
    with k have "(?f + ?s) mod ?c \<noteq> (?f + k) mod ?c" using mod_add_neq [of k ?s ?c ?f] i(5) by auto
    with ne k r show ?thesis by (simp add: nth_to_vector nth_append)
  qed
  then have "ring_to_vector ?r = ring_to_vector r @ [x]" using r(2) by (intro nth_equalityI) simp_all
  with r i show ?thesis by (auto simp: ring_inv_def newest_def)
qed

lemma ring_pop_list:
  assumes "ring_inv r"
  shows "case ring_to_vector r of [] \<Rightarrow> ring_pop r = None
    | x # xs \<Rightarrow> \<exists>r'. ring_pop r = Some (r', x) \<and> ring_inv r' \<and> rg_capacity r' = rg_capacity r \<and> ring_to_vector r' = xs"
proof (cases "rg_sz r")
  case 0
  then show ?thesis by (simp add: ring_to_vector_def ring_pop_def)
next
  case (Suc n)
  let ?c = "rg_capacity r" and ?f = "rg_first r"
  have i: "0 < ?c" "length (rg_data r) = ?c" "?f < ?c" "rg_pos r = (?f + Suc n) mod ?c" "Suc n \<le> ?c"
    using assms Suc by (auto simp: ring_inv_def)
  let ?r = "r\<lparr>rg_first := (?f + 1) mod ?c, rg_sz := n\<rparr>"
  have pop: "ring_pop r = Some (?r, rg_data r ! ?f)" using Suc by (simp add: ring_pop_def)
  have "ring_to_vector r = rg_data r ! ?f # ring_to_vector ?r"
    using Suc i(3) by (auto simp: ring_to_vector_def mod_add_left_eq map_upt_Suc simp del: upt_Suc intro!: nth_equalityI)
  moreover have "ring_inv ?r" using i by (simp add: ring_inv_def mod_add_left_eq)
  ultimately show ?thesis using pop by auto
qed

text \<open>C38. The ring buffer implements a list cut to its newest elements. On a buffer with its invariant: pushing
  appends and, when the buffer is full, drops the oldest; popping and the front are the head of the list, with the
  exception exactly on the empty list; \<open>rat i\<close> is the \<open>i\<close>-th element from the end; clearing empties. The one accessor
  that does not follow is \<open>back\<close>: it reads the slot of the next write, so that on a full buffer it returns
  the oldest element instead of the newest.\<close>

theorem ring_buffer_refines:
  assumes "ring_inv r" and "xs = ring_to_vector r"
  shows "ring_inv (ring_push r x) \<and> ring_to_vector (ring_push r x) = newest (rg_capacity r) (xs @ [x])
    \<and> (case xs of [] \<Rightarrow> ring_pop r = None
       | y # ys \<Rightarrow> \<exists>r'. ring_pop r = Some (r', y) \<and> ring_inv r' \<and> rg_capacity r' = rg_capacity r \<and> ring_to_vector r' = ys)
    \<and> ring_front r = (if xs = [] then None else Some (hd xs))
    \<and> ring_rat r i = (if i < length xs then Some (rev xs ! i) else None)
    \<and> ring_inv (ring_clear r) \<and> ring_to_vector (ring_clear r) = [] \<and> ring_empty r = (xs = [])
    \<and> (length xs = rg_capacity r \<longrightarrow> ring_back r = Some (hd xs))"
proof (intro conjI impI)
  have inv: "0 < rg_capacity r" "rg_first r < rg_capacity r" "rg_pos r = (rg_first r + rg_sz r) mod rg_capacity r"
    "length (rg_data r) = rg_capacity r" using assms(1) by (auto simp: ring_inv_def)
  have len: "length xs = rg_sz r" using assms(2) by simp
  then have empty: "xs = [] \<longleftrightarrow> rg_sz r = 0" by (metis length_0_conv)
  have hd: "hd xs = rg_data r ! rg_first r" if "xs \<noteq> []"
    using that inv(2) empty nth_to_vector [of 0 r] assms(2) by (simp add: hd_conv_nth)
  show "ring_inv (ring_push r x)" "ring_to_vector (ring_push r x) = newest (rg_capacity r) (xs @ [x])"
    using ring_push_list [OF assms(1)] assms(2) by simp_all
  show "case xs of [] \<Rightarrow> ring_pop r = None
       | y # ys \<Rightarrow> \<exists>r'. ring_pop r = Some (r', y) \<and> ring_inv r' \<and> rg_capacity r' = rg_capacity r \<and> ring_to_vector r' = ys"
    using ring_pop_list [OF assms(1)] assms(2) by simp
  show "ring_front r = (if xs = [] then None else Some (hd xs))" using hd empty by (simp add: ring_front_def)
  show "ring_rat r i = (if i < length xs then Some (rev xs ! i) else None)"
    using len assms(2) by (simp add: ring_rat_def rev_nth nth_to_vector)
  show "ring_inv (ring_clear r)" "ring_to_vector (ring_clear r) = []" using inv by (simp_all add: ring_inv_def ring_clear_def ring_to_vector_def)
  show "ring_empty r = (xs = [])" using empty by (simp add: ring_empty_def)
  assume full: "length xs = rg_capacity r"
  then have "rg_pos r = rg_first r" "xs \<noteq> []" using inv len by auto
  then show "ring_back r = Some (hd xs)" using hd empty by (simp add: ring_back_def)
qed

lemma ring_make_inv: "0 < cap \<Longrightarrow> ring_inv (ring_make z cap) \<and> ring_to_vector (ring_make z cap) = []"
  by (simp add: ring_inv_def ring_make_def ring_to_vector_def)

lemma ring_buffer_refines_witness:
  "ring_back (fold (\<lambda>x r. ring_push r x) [7, 8, 9] (ring_make 0 2)) = Some (8 :: nat)
   \<and> ring_rat (fold (\<lambda>x r. ring_push r x) [7, 8, 9] (ring_make 0 2)) 0 = Some (9 :: nat)"
proof -
  define r :: "nat ring_buffer" where "r = fold (\<lambda>x r. ring_push r x) [7, 8, 9] (ring_make 0 2)"
  have inv: "ring_inv r" using ring_make_inv [of 2 "0 :: nat"] by (auto simp: r_def intro!: ring_push_list [THEN conjunct1])
  have list: "[8, 9] = ring_to_vector r" and cap: "length [8 :: nat, 9] = rg_capacity r" unfolding r_def by code_simp+
  note ring = ring_buffer_refines [OF inv list, of 0 0]
  have "ring_back r = Some (hd [8, 9])" using ring cap by blast
  moreover have "ring_rat r 0 = (if 0 < length [8 :: nat, 9] then Some (rev [8, 9] ! 0) else None)" using ring by blast
  ultimately show ?thesis unfolding r_def by simp
qed

subsection \<open>Accepting a token\<close>

text \<open>\<open>cs_chain\<close> is the state of the sampler chain.\<close>

record ('pat, 'c) common_sampler =
  cs_lazy :: bool
  cs_grmr :: "'pat grammar option"
  cs_rbudget :: "rb_ctx option"
  cs_chain :: 'c
  cs_prev :: "token ring_buffer"

definition grammar_should_apply :: "('pat, 'c) common_sampler \<Rightarrow> bool" where
  "grammar_should_apply gs =
     (if cs_grmr gs = None then False
      else if cs_rbudget gs = None then True
      else if cs_lazy gs then
        (let state = rb_get_state (cs_rbudget gs) in state = RB_IDLE \<or> state = RB_DONE)
      else True)"

text \<open>The vocabulary and the regular expressions enter as for \<open>accept_impl\<close>; the flag is \<open>False\<close> when the grammar
  throws, which leaves the handler.\<close>

type_synonym 'pat grammar_env =
  "(token \<Rightarrow> byte list) \<times> (token \<Rightarrow> bool) \<times> ('pat \<Rightarrow> byte list \<Rightarrow> nat option)"

definition grammar_accept :: "'pat grammar_env \<Rightarrow> 'pat grammar \<Rightarrow> token \<Rightarrow> ('pat grammar \<times> bool) run" where
  "grammar_accept env g tok = (case env of (piece, eog, search) \<Rightarrow> accept_impl piece eog search g tok)"

fun grammar_accepts :: "'pat grammar_env \<Rightarrow> 'pat grammar \<Rightarrow> token list \<Rightarrow> ('pat grammar \<times> bool) run" where
  "grammar_accepts env g [] = Some (Done (g, True))"
| "grammar_accepts env g (tok # toks) = bind_run (grammar_accept env g tok)
     (\<lambda>(g, ok). if ok then grammar_accepts env g toks else Some (Done (g, False)))"

definition on_grammar ::
    "'pat grammar_env \<Rightarrow> token list \<Rightarrow> ('pat, 'c) common_sampler \<Rightarrow> (('pat, 'c) common_sampler \<times> bool) run" where
  "on_grammar env toks gs =
     (case cs_grmr gs of
        None \<Rightarrow> Some (Done (gs, True))
      | Some g \<Rightarrow> bind_run (grammar_accepts env g toks) (\<lambda>(g, ok). Some (Done (gs\<lparr>cs_grmr := Some g\<rparr>, ok))))"

lemma bind_run_assoc: "bind_run (bind_run m f) h = bind_run m (\<lambda>x. bind_run (f x) h)"
  by (simp add: bind_run_def split: option.split outcome.split)

text \<open>What the grammar is given when the budget has accepted a token that was withheld from it.\<close>

definition replayed_end :: "bool \<Rightarrow> rb_ctx \<Rightarrow> token list" where
  "replayed_end accept_grammar rb =
     (if \<not> accept_grammar \<and> rb_get_state (Some rb) = RB_DONE then
        (case rb_get_end_match (Some rb) of None \<Rightarrow> [] | Some end_seq \<Rightarrow> end_seq)
      else [])"

definition common_sampler_accept ::
    "'pat grammar_env \<Rightarrow> (token \<Rightarrow> 'c \<Rightarrow> 'c) \<Rightarrow> ('pat, 'c) common_sampler \<Rightarrow> token \<Rightarrow> bool
     \<Rightarrow> (('pat, 'c) common_sampler \<times> bool) run" where
  "common_sampler_accept env chain_accept gs tok is_generated =
     (let accept_grammar = (is_generated \<and> grammar_should_apply gs) in
      bind_run
        (case cs_rbudget gs of
           Some rb \<Rightarrow>
             if is_generated then
               (case rb_accept rb tok of
                  None \<Rightarrow> None
                | Some rb' \<Rightarrow> on_grammar env (replayed_end accept_grammar rb') (gs\<lparr>cs_rbudget := Some rb'\<rparr>))
             else Some (Done (gs, True))
         | None \<Rightarrow> Some (Done (gs, True)))
        (\<lambda>(gs, ok). if \<not> ok then Some (Done (gs, False)) else
           bind_run (on_grammar env (if accept_grammar then [tok] else []) gs)
             (\<lambda>(gs, ok). if \<not> ok then Some (Done (gs, False)) else
                Some (Done (gs\<lparr>cs_chain := chain_accept tok (cs_chain gs), cs_prev := ring_push (cs_prev gs) tok\<rparr>, True)))))"

subsection \<open>What a lazy grammar is given\<close>

text \<open>Generated tokens, up to the first at which the grammar throws.\<close>

fun sampler_feed ::
    "'pat grammar_env \<Rightarrow> (token \<Rightarrow> 'c \<Rightarrow> 'c) \<Rightarrow> ('pat, 'c) common_sampler \<Rightarrow> token list
     \<Rightarrow> (('pat, 'c) common_sampler \<times> bool) run" where
  "sampler_feed env ch gs [] = Some (Done (gs, True))"
| "sampler_feed env ch gs (tok # toks) = bind_run (common_sampler_accept env ch gs tok True)
     (\<lambda>(gs, ok). if ok then sampler_feed env ch gs toks else Some (Done (gs, False)))"

definition logged :: "(token \<Rightarrow> 'c \<Rightarrow> 'c) \<Rightarrow> token list \<Rightarrow> ('pat, 'c) common_sampler \<Rightarrow> ('pat, 'c) common_sampler" where
  "logged ch toks gs = gs\<lparr>cs_chain := fold ch toks (cs_chain gs), cs_prev := fold (\<lambda>tok r. ring_push r tok) toks (cs_prev gs)\<rparr>"

lemma logged_simps [simp]:
  "cs_lazy (logged ch toks gs) = cs_lazy gs" "cs_grmr (logged ch toks gs) = cs_grmr gs"
  "cs_rbudget (logged ch toks gs) = cs_rbudget gs"
  "logged ch [] gs = gs" "logged ch ts (logged ch us gs) = logged ch (us @ ts) gs"
  by (simp_all add: logged_def)

lemma sampler_feed_append:
  "sampler_feed env ch gs (us @ ts) = bind_run (sampler_feed env ch gs us)
     (\<lambda>(gs, ok). if ok then sampler_feed env ch gs ts else Some (Done (gs, False)))"
proof (induction us arbitrary: gs)
  case (Cons u us)
  show ?case by (auto simp: bind_run_assoc Cons.IH intro!: bind_run_cong)
qed simp

lemma withheld_accept:
  assumes "cs_lazy gs" and "cs_rbudget gs = Some rb" and "cs_grmr gs = Some g" and "rb_state_of rb \<notin> {RB_IDLE, RB_DONE}"
    and "rb_accept rb tok = Some rb'"
  shows "common_sampler_accept env ch gs tok True = bind_run (grammar_accepts env g (replayed_end False rb'))
    (\<lambda>(g', ok). Some (Done (if ok then (logged ch [tok] (gs\<lparr>cs_grmr := Some g', cs_rbudget := Some rb'\<rparr>), True)
                            else (gs\<lparr>cs_grmr := Some g', cs_rbudget := Some rb'\<rparr>, False))))"
proof -
  have "grammar_should_apply gs = False" using assms(1-4) by (simp add: grammar_should_apply_def rb_get_state_def)
  then show ?thesis using assms
    by (auto simp: common_sampler_accept_def on_grammar_def logged_def bind_run_assoc intro!: bind_run_cong)
qed

lemma withheld_run:
  assumes "cs_lazy gs" and "cs_rbudget gs = Some rb" and "cs_grmr gs = Some g"
    and "\<forall>k \<le> length us. \<exists>c. rb_feed rb (take k us) = Some c \<and> rb_state_of c \<notin> {RB_IDLE, RB_DONE}"
  shows "\<exists>rb'. rb_feed rb us = Some rb' \<and>
    sampler_feed env ch gs us = Some (Done (logged ch us (gs\<lparr>cs_rbudget := Some rb'\<rparr>), True))"
  using assms
proof (induction us arbitrary: gs rb)
  case Nil
  then show ?case by (intro exI [of _ rb]) simp
next
  case (Cons u us)
  have st: "rb_state_of rb \<notin> {RB_IDLE, RB_DONE}" using Cons.prems(4) [rule_format, of 0] by simp
  from Cons.prems(4) [rule_format, of 1] obtain rb1 where rb1: "rb_accept rb u = Some rb1" "rb_state_of rb1 \<notin> {RB_IDLE, RB_DONE}"
    by (auto split: option.splits)
  let ?gs = "logged ch [u] (gs\<lparr>cs_grmr := Some g, cs_rbudget := Some rb1\<rparr>)"
  have acc: "common_sampler_accept env ch gs u True = Some (Done (?gs, True))"
    using withheld_accept [OF Cons.prems(1-3) st rb1(1), of env ch] rb1(2) by (simp add: replayed_end_def rb_get_state_def)
  have "\<forall>k \<le> length us. \<exists>c. rb_feed rb1 (take k us) = Some c \<and> rb_state_of c \<notin> {RB_IDLE, RB_DONE}"
  proof (intro allI impI)
    fix k assume "k \<le> length us"
    with Cons.prems(4) [rule_format, of "Suc k"] rb1(1)
    show "\<exists>c. rb_feed rb1 (take k us) = Some c \<and> rb_state_of c \<notin> {RB_IDLE, RB_DONE}" by simp
  qed
  from Cons.IH [of ?gs rb1, OF _ _ _ this] Cons.prems(1) obtain rb' where rb': "rb_feed rb1 us = Some rb'"
    "sampler_feed env ch ?gs us = Some (Done (logged ch us (?gs\<lparr>cs_rbudget := Some rb'\<rparr>), True))" by auto
  have "logged ch us (?gs\<lparr>cs_rbudget := Some rb'\<rparr>) = logged ch (u # us) (gs\<lparr>cs_rbudget := Some rb'\<rparr>)"
    using Cons.prems(3) by (simp add: logged_def)
  with acc rb' rb1(1) show ?case by simp
qed

text \<open>A block has just begun: a start sequence opened it, or the sampler was created inside it, or a call of
  \<open>rb_force\<close> ended the counting. The end matcher has read nothing, and the budget is untouched or nothing of
  the forced sequence has been accepted.\<close>

definition begun ::
    "(token \<Rightarrow> byte list) option \<Rightarrow> token list list \<Rightarrow> token list list \<Rightarrow> token list \<Rightarrow> int \<Rightarrow> rb_ctx \<Rightarrow> bool" where
  "begun V S E F b rb \<longleftrightarrow> rb_reach V S E F b rb \<and> tracks E (rb_end rb) []
     \<and> (rb_state_of rb = RB_COUNTING \<and> rb_remaining rb = b \<or> rb_state_of rb = RB_FORCING \<and> rb_force_pos rb = 0)"

lemma begun_opened:
  assumes "rb_reach V S E F b rb0" and "rb_state_of rb0 \<in> {RB_IDLE, RB_DONE}" and "rb_accept rb0 tok = Some rb"
    and "rb_state_of rb \<notin> {RB_IDLE, RB_DONE}"
  shows "begun V S E F b rb"
  using opened_block [OF rb_reach_inv [OF assms(1)] assms(2-4)] rb_reach.accept [OF assms(1,3)]
  by (simp add: begun_def)

lemma begun_created:
  assumes "rb_init V S E F b st = Some rb" and "st \<in> {RB_COUNTING, RB_FORCING}"
  shows "begun V S E F b rb"
proof -
  obtain sm em where m: "make_matcher S = Some sm" "make_matcher E = Some em" "tracks E em []"
    using make_matcher_tracks by metis
  then show ?thesis using assms rb_reach.start [OF assms(1)] by (auto simp: begun_def rb_init_def Let_def)
qed

lemma begun_forced:
  assumes "rb_reach V S E F b rb" and "rb_state_of rb = RB_COUNTING"
  shows "begun V S E F b (fst (rb_force rb))"
proof -
  obtain w where "tracks E (rb_end rb) w" using rb_reach_inv [OF assms(1)] by (auto simp: rb_inv_def)
  from tracks_reset [OF this] rb_reach.force [OF assms(1)] assms(2) show ?thesis by (simp add: begun_def rb_force_def)
qed

text \<open>What is left to match of a text when the matcher starts again after each sequence completed.\<close>

definition unread :: "token list list \<Rightarrow> token list \<Rightarrow> token list" where
  "unread E = foldl (\<lambda>w tok. if ended E (w @ [tok]) then [] else w @ [tok]) []"

lemma unread_simps [simp]:
  "unread E [] = []" "unread E (us @ [t]) = (if ended E (unread E us @ [t]) then [] else unread E us @ [t])"
  by (simp_all add: unread_def)

text \<open>The text in which the end of a block is looked for, by the state before its last token: the whole block
  while its budget lasts, what follows the budget while the sampler waits for the end of a character, and
  of a forced sequence the part not matched before.\<close>

definition end_text :: "token list list \<Rightarrow> token list \<Rightarrow> int \<Rightarrow> rb_state \<Rightarrow> token list \<Rightarrow> token list" where
  "end_text E F b st ts =
     (case st of
        RB_COUNTING \<Rightarrow> ts
      | RB_WAITING_UTF8 \<Rightarrow> drop (nat b) ts
      | _ \<Rightarrow> let fs = drop (length ts - max 1 (length F)) ts in unread E (butlast fs) @ [last fs])"

definition given :: "token list list \<Rightarrow> token list \<Rightarrow> int \<Rightarrow> rb_state \<Rightarrow> token list \<Rightarrow> token list \<Rightarrow> bool" where
  "given E F b st ts e \<longleftrightarrow>
     (if ended E (end_text E F b st ts) then longest_end E (end_text E F b st ts) e else st = RB_FORCING \<and> e = [])"

definition still_open :: "rb_ctx \<Rightarrow> token list \<Rightarrow> bool" where
  "still_open rb us \<longleftrightarrow> (\<exists>c. rb_feed rb us = Some c \<and> rb_state_of c \<notin> {RB_IDLE, RB_DONE})"

text \<open>The state inside a block.\<close>

definition inside :: "token list list \<Rightarrow> int \<Rightarrow> rb_ctx \<Rightarrow> token list \<Rightarrow> bool" where
  "inside E b c us \<longleftrightarrow>
     rb_state_of c = RB_COUNTING \<and> rb_remaining c = b - int (length us) \<and> tracks E (rb_end c) us
     \<or> rb_state_of c = RB_WAITING_UTF8 \<and> nat b \<le> length us \<and> tracks E (rb_end c) (drop (nat b) us)
     \<or> rb_state_of c = RB_FORCING \<and> rb_force_pos c \<le> length us
         \<and> tracks E (rb_end c) (unread E (drop (length us - rb_force_pos c) us))"

lemma inside_step:
  assumes "rb_inv V S E F b c" and "inside E b c us"
  shows "\<exists>c'. rb_accept c t = Some c' \<and>
    (if rb_state_of c' = RB_DONE
     then given E F b (rb_state_of c) (us @ [t]) (case rb_get_end_match (Some c') of None \<Rightarrow> [] | Some e \<Rightarrow> e)
     else inside E b c' (us @ [t]))"
proof -
  have i: "rb_vocab c = V" "rb_forced c = F" "rb_state_of c = RB_COUNTING \<Longrightarrow> 0 < rb_remaining c"
    "rb_state_of c = RB_FORCING \<Longrightarrow> rb_force_pos c \<le> length F - 1" using assms(1) by (auto simp: rb_inv_def)
  from assms(2) consider
    (counting) "rb_state_of c = RB_COUNTING" "rb_remaining c = b - int (length us)" "tracks E (rb_end c) us"
  | (waiting) "rb_state_of c = RB_WAITING_UTF8" "nat b \<le> length us" "tracks E (rb_end c) (drop (nat b) us)"
  | (forcing) "rb_state_of c = RB_FORCING" "rb_force_pos c \<le> length us"
      "tracks E (rb_end c) (unread E (drop (length us - rb_force_pos c) us))" unfolding inside_def by blast
  then show ?thesis
  proof cases
    case counting
    from counting_step [OF counting(1,3) i(1), of t] obtain c' where c': "rb_accept c t = Some c'"
      "if ended E (us @ [t])
       then rb_state_of c' = RB_DONE \<and> (\<exists>e. rb_get_end_match (Some c') = Some e \<and> longest_end E (us @ [t]) e)
       else rb_remaining c' = rb_remaining c - 1 \<and>
         (if 1 < rb_remaining c then rb_state_of c' = RB_COUNTING \<and> tracks E (rb_end c') (us @ [t])
          else tracks E (rb_end c') [] \<and> tm_state (rb_end c') = 0 \<and>
            (if piece_complete V t then rb_state_of c' = RB_FORCING \<and> rb_force_pos c' = 0
             else rb_state_of c' = RB_WAITING_UTF8))" by blast
    show ?thesis
    proof (cases "ended E (us @ [t])")
      case True
      with c' counting(1) show ?thesis by (auto simp: given_def end_text_def)
    next
      case False
      have "\<not> 1 < rb_remaining c \<Longrightarrow> nat b = Suc (length us)" using counting(2) i(3) [OF counting(1)] by simp
      with False c' counting(2) show ?thesis
        by (cases "1 < rb_remaining c"; cases "piece_complete V t") (simp_all add: inside_def)
    qed
  next
    case waiting
    from waiting_step [OF waiting(1,3) i(1), of t] obtain c' where c': "rb_accept c t = Some c'"
      "if ended E (drop (nat b) us @ [t])
       then rb_state_of c' = RB_DONE \<and> (\<exists>e. rb_get_end_match (Some c') = Some e \<and> longest_end E (drop (nat b) us @ [t]) e)
       else if piece_complete V t
       then rb_state_of c' = RB_FORCING \<and> rb_force_pos c' = 0 \<and> tracks E (rb_end c') []
       else rb_state_of c' = RB_WAITING_UTF8 \<and> tracks E (rb_end c') (drop (nat b) us @ [t])" by blast
    then show ?thesis using waiting(1,2)
      by (cases "ended E (drop (nat b) us @ [t])"; cases "piece_complete V t") (auto simp: given_def end_text_def inside_def)
  next
    case forcing
    let ?fs = "drop (length us - rb_force_pos c) us"
    have fs: "drop (Suc (length us) - Suc (rb_force_pos c)) (us @ [t]) = ?fs @ [t]" using forcing(2) by simp
    from forcing_step [OF forcing(1,3), of t] i(2) obtain c' where c': "rb_accept c t = Some c'"
      "rb_force_pos c' = Suc (rb_force_pos c)" "tracks E (rb_end c') (unread E (?fs @ [t]))"
      "if length F \<le> Suc (rb_force_pos c)
       then rb_state_of c' = RB_DONE
         \<and> (if ended E (unread E ?fs @ [t]) then \<exists>e. rb_get_end_match (Some c') = Some e \<and> longest_end E (unread E ?fs @ [t]) e
            else rb_get_end_match (Some c') = None)
       else rb_state_of c' = RB_FORCING" by auto
    show ?thesis
    proof (cases "length F \<le> Suc (rb_force_pos c)")
      case True
      then have "max 1 (length F) = Suc (rb_force_pos c)" using i(4) [OF forcing(1)] by simp
      then have "end_text E F b RB_FORCING (us @ [t]) = unread E ?fs @ [t]" using fs by (simp add: end_text_def)
      with True c' forcing(1) show ?thesis by (auto simp: given_def)
    next
      case False
      with c' forcing(2) fs show ?thesis by (auto simp: inside_def simp del: unread_simps)
    qed
  qed
qed

lemma inside_run:
  assumes "begun V S E F b rb" and "\<forall>k \<le> length us. still_open rb (take k us)"
  shows "\<exists>c. rb_feed rb us = Some c \<and> inside E b c us"
  using assms(2)
proof (induction us rule: rev_induct)
  case Nil
  then show ?case using assms(1) by (auto simp: begun_def inside_def)
next
  case (snoc t us)
  have "\<forall>k \<le> length us. still_open rb (take k us)"
  proof (intro allI impI)
    fix k assume "k \<le> length us"
    with snoc.prems [rule_format, of k] show "still_open rb (take k us)" by simp
  qed
  with snoc.IH obtain c where c: "rb_feed rb us = Some c" "inside E b c us" by blast
  have "rb_inv V S E F b c" using assms(1) rb_reach_inv [OF rb_feed_reach [OF _ c(1)]] by (simp add: begun_def)
  from inside_step [OF this c(2), of t] obtain c' where c': "rb_accept c t = Some c'"
    "rb_state_of c' \<noteq> RB_DONE \<longrightarrow> inside E b c' (us @ [t])" by (auto split: if_splits)
  have "rb_feed rb (us @ [t]) = Some c'" using c(1) c'(1) by (simp add: rb_feed_append)
  with c'(2) snoc.prems [rule_format, of "Suc (length us)"] show ?case by (auto simp: still_open_def)
qed

text \<open>C22. A lazy grammar sees nothing of a reasoning block but its end. However a block has begun and however it
  ends, with the budget counting, spent, or none from the beginning, the tokens accepted while it is open - those
  awaited to complete a character and those forced on the sampler among them - leave the grammar as it was;
  they only go to the chain and the history. With the token that ends the block the grammar is given one
  sequence, and behaves on it as it does on generated tokens: the longest end sequence that ends the block there or,
  when the block was closed by force and the forced sequence ends with none, nothing.\<close>

theorem lazy_grammar_skips_reasoning:
  assumes "begun V S E F b rb" and "cs_lazy gs" and "cs_rbudget gs = Some rb" and "cs_grmr gs = Some g"
    and "\<forall>k < length ts. still_open rb (take k ts)"
  shows "\<exists>rb'. rb_feed rb ts = Some rb' \<and>
    (if rb_state_of rb' \<noteq> RB_DONE
     then sampler_feed env ch gs ts = Some (Done (logged ch ts (gs\<lparr>cs_rbudget := Some rb'\<rparr>), True))
     else \<exists>c e. rb_feed rb (butlast ts) = Some c \<and> given E F b (rb_state_of c) ts e \<and>
       sampler_feed env ch gs ts = bind_run (grammar_accepts env g e)
         (\<lambda>(g', ok). Some (Done (if ok then (logged ch ts (gs\<lparr>cs_grmr := Some g', cs_rbudget := Some rb'\<rparr>), True)
                       else (logged ch (butlast ts) (gs\<lparr>cs_grmr := Some g', cs_rbudget := Some rb'\<rparr>), False)))))"
proof (cases ts rule: rev_cases)
  case Nil
  then show ?thesis using assms(1,3) by (auto simp: begun_def)
next
  case (snoc us t)
  have us: "\<forall>k \<le> length us. still_open rb (take k us)"
  proof (intro allI impI)
    fix k assume "k \<le> length us"
    with assms(5) [rule_format, of k] snoc show "still_open rb (take k us)" by simp
  qed
  from inside_run [OF assms(1) us] obtain c where c: "rb_feed rb us = Some c" "inside E b c us" by blast
  have st: "rb_state_of c \<notin> {RB_IDLE, RB_DONE}" using c(2) by (auto simp: inside_def)
  have "rb_inv V S E F b c" using assms(1) rb_reach_inv [OF rb_feed_reach [OF _ c(1)]] by (simp add: begun_def)
  from inside_step [OF this c(2), of t] obtain rb' where rb': "rb_accept c t = Some rb'"
    "rb_state_of rb' = RB_DONE \<longrightarrow> given E F b (rb_state_of c) ts (case rb_get_end_match (Some rb') of None \<Rightarrow> [] | Some e \<Rightarrow> e)"
    unfolding snoc by (auto split: if_splits)
  have feed: "rb_feed rb ts = Some rb'" "rb_feed rb (butlast ts) = Some c" using c(1) rb'(1) snoc by (simp_all add: rb_feed_append)
  let ?e = "replayed_end False rb'" and ?gs = "logged ch us (gs\<lparr>cs_rbudget := Some c\<rparr>)"
  have e: "?e = (if rb_state_of rb' = RB_DONE then case rb_get_end_match (Some rb') of None \<Rightarrow> [] | Some e \<Rightarrow> e else [])"
    by (simp add: replayed_end_def rb_get_state_def)
  have "sampler_feed env ch gs us = Some (Done (?gs, True))"
    using withheld_run [OF assms(2-4), of us env ch] us c(1) by (auto simp: still_open_def)
  moreover have "common_sampler_accept env ch ?gs t True = bind_run (grammar_accepts env g ?e)
      (\<lambda>(g', ok). Some (Done (if ok then (logged ch [t] (?gs\<lparr>cs_grmr := Some g', cs_rbudget := Some rb'\<rparr>), True)
                            else (?gs\<lparr>cs_grmr := Some g', cs_rbudget := Some rb'\<rparr>, False))))"
    using withheld_accept [of ?gs c g t rb' env ch] assms(2,4) st rb'(1) by simp
  moreover have "?gs\<lparr>cs_grmr := Some g', cs_rbudget := Some rb'\<rparr> = logged ch us (gs\<lparr>cs_grmr := Some g', cs_rbudget := Some rb'\<rparr>)" for g'
    by (simp add: logged_def)
  ultimately have run: "sampler_feed env ch gs ts = bind_run (grammar_accepts env g ?e)
      (\<lambda>(g', ok). Some (Done (if ok then (logged ch ts (gs\<lparr>cs_grmr := Some g', cs_rbudget := Some rb'\<rparr>), True)
                            else (logged ch (butlast ts) (gs\<lparr>cs_grmr := Some g', cs_rbudget := Some rb'\<rparr>), False))))"
    unfolding snoc sampler_feed_append by (auto simp: bind_run_assoc intro!: bind_run_cong)
  show ?thesis
  proof (cases "rb_state_of rb' = RB_DONE")
    case True
    then have "given E F b (rb_state_of c) ts ?e" using rb'(2) e by simp
    with run feed True show ?thesis by (intro exI [of _ rb'] conjI) (auto simp: True)
  next
    case False
    with assms(4) have "gs\<lparr>cs_grmr := Some g, cs_rbudget := Some rb'\<rparr> = gs\<lparr>cs_rbudget := Some rb'\<rparr>" by simp
    with run feed e False show ?thesis by (intro exI [of _ rb']) simp
  qed
qed

definition sample_env :: "nat grammar_env" where
  "sample_env = (sample_piece, sample_eog, lazy_search)"

definition sample_common :: "rb_ctx \<Rightarrow> (nat, token list) common_sampler" where
  "sample_common rb = \<lparr>cs_lazy = True, cs_grmr = Some lazy_sample, cs_rbudget = Some rb, cs_chain = [],
     cs_prev = ring_make 0 32\<rparr>"

text \<open>A block closed by force, after the two tokens of its budget: the grammar is given the end sequence that ends
  the forced sequence.\<close>

lemma lazy_grammar_skips_reasoning_witness:
  "\<exists>rb rb'. sample_budget [100, 50, 101, 100] = Some rb \<and> rb_feed rb [60, 61, 102, 101] = Some rb' \<and> rb_state_of rb' = RB_DONE
     \<and> sampler_feed sample_env (\<lambda>tok toks. toks @ [tok]) (sample_common rb) [60, 61, 102, 101] =
       bind_run (grammar_accepts sample_env lazy_sample [101])
        (\<lambda>(g', ok). Some (Done (if ok then (logged (\<lambda>tok toks. toks @ [tok]) [60, 61, 102, 101]
              ((sample_common rb)\<lparr>cs_grmr := Some g', cs_rbudget := Some rb'\<rparr>), True)
            else (logged (\<lambda>tok toks. toks @ [tok]) (butlast [60, 61, 102, 101])
              ((sample_common rb)\<lparr>cs_grmr := Some g', cs_rbudget := Some rb'\<rparr>), False))))"
proof -
  let ?ts = "[60, 61, 102, 101] :: token list"
  from second_block obtain ctx rb where c: "sample_budget [100, 50, 101] = Some ctx" "rb_state_of ctx = RB_DONE"
    "rb_accept ctx 100 = Some rb" "rb_state_of rb = RB_COUNTING" by blast
  have rb: "sample_budget [100, 50, 101, 100] = Some rb"
    using sample_budget_append [of "[100, 50, 101]" "[100]"] c(1,3) by simp
  have begun: "begun None [[100]] [[101], [103, 104]] [102, 101] 2 rb"
    by (rule begun_opened [OF sample_budget_reach [OF c(1)] _ c(3)]) (use c(2,4) in simp_all)
  have states: "map (\<lambda>k. map_option rb_state_of (sample_budget ([100, 50, 101, 100] @ take k ?ts))) [0, 1, 2, 3, 4] =
      [Some RB_COUNTING, Some RB_COUNTING, Some RB_FORCING, Some RB_FORCING, Some RB_DONE]" by code_simp
  have feed: "sample_budget ([100, 50, 101, 100] @ us) = rb_feed rb us" for us
    using sample_budget_append [of "[100, 50, 101, 100]" us] rb by simp
  have "still_open rb (take k ?ts)" if "k < length ?ts" for k
  proof -
    have "k = 0 \<or> k = 1 \<or> k = 2 \<or> k = 3" using that by auto
    with states show ?thesis unfolding still_open_def feed by (auto simp del: rb_feed.simps)
  qed
  then have opened: "\<forall>k < length ?ts. still_open rb (take k ?ts)" by blast
  have "cs_lazy (sample_common rb)" "cs_rbudget (sample_common rb) = Some rb" "cs_grmr (sample_common rb) = Some lazy_sample"
    by (simp_all add: sample_common_def)
  from lazy_grammar_skips_reasoning [OF begun this opened, of sample_env "\<lambda>tok toks. toks @ [tok]"] obtain rb' where
    rb': "rb_feed rb ?ts = Some rb'" and run: "rb_state_of rb' = RB_DONE \<longrightarrow>
      (\<exists>c e. rb_feed rb (butlast ?ts) = Some c \<and> given [[101], [103, 104]] [102, 101] 2 (rb_state_of c) ?ts e \<and>
       sampler_feed sample_env (\<lambda>tok toks. toks @ [tok]) (sample_common rb) ?ts = bind_run (grammar_accepts sample_env lazy_sample e)
         (\<lambda>(g', ok). Some (Done (if ok then (logged (\<lambda>tok toks. toks @ [tok]) ?ts ((sample_common rb)\<lparr>cs_grmr := Some g', cs_rbudget := Some rb'\<rparr>), True)
            else (logged (\<lambda>tok toks. toks @ [tok]) (butlast ?ts) ((sample_common rb)\<lparr>cs_grmr := Some g', cs_rbudget := Some rb'\<rparr>), False)))))"
    by (auto simp del: rb_feed.simps split: if_splits)
  have finished: "rb_state_of rb' = RB_DONE" using states rb' unfolding feed by (simp del: rb_feed.simps)
  from run finished obtain c' e where e: "rb_feed rb (butlast ?ts) = Some c'" "given [[101], [103, 104]] [102, 101] 2 (rb_state_of c') ?ts e"
    "sampler_feed sample_env (\<lambda>tok toks. toks @ [tok]) (sample_common rb) ?ts = bind_run (grammar_accepts sample_env lazy_sample e)
         (\<lambda>(g', ok). Some (Done (if ok then (logged (\<lambda>tok toks. toks @ [tok]) ?ts ((sample_common rb)\<lparr>cs_grmr := Some g', cs_rbudget := Some rb'\<rparr>), True)
            else (logged (\<lambda>tok toks. toks @ [tok]) (butlast ?ts) ((sample_common rb)\<lparr>cs_grmr := Some g', cs_rbudget := Some rb'\<rparr>), False))))"
    by blast
  have "rb_state_of c' = RB_FORCING" using states e(1) unfolding feed by (simp del: rb_feed.simps)
  moreover have "end_text [[101], [103, 104]] [102, 101] 2 RB_FORCING ?ts = [102, 101]"
    by (simp add: end_text_def unread_def ended_def suffix_Cons)
  ultimately have "longest_end [[101], [103, 104]] [102, 101] e" using e(2) by (simp add: given_def ended_def suffix_Cons)
  then have "e = [101]" by (auto simp: longest_end_def suffix_Cons)
  with e(3) rb rb' finished show ?thesis by blast
qed

end
