(* ===== verification/Ac_Grammar.thy ===== *)
theory Ac_Grammar
  imports Ac_Automaton Gr_Init
begin

section \<open>Grammars for delimiters\<close>

text \<open>
  The GBNF text that \<open>common/peg-parser.cpp\<close> emits for a list of delimiters: one rule per state of their
  Aho-Corasick automaton, for the strings that contain no delimiter (\<open>gbnf_excluding_grammar\<close>) or end with the
  first one (\<open>gbnf_including_grammar\<close>); with the collection of rules by name and their printing of
  \<open>common/json-schema-to-grammar.cpp\<close>.
\<close>

subsection \<open>Character classes\<close>

definition hex_digit :: "u32 \<Rightarrow> byte" where
  "hex_digit d = [48, 49, 50, 51, 52, 53, 54, 55, 56, 57, 65, 66, 67, 68, 69, 70] ! unat (d AND 0xF)"

definition gbnf_escape_char_class :: "u32 \<Rightarrow> byte list" where
  "gbnf_escape_char_class c =
     (if c = 45 \<or> c = 93 \<or> c = 91 \<or> c = 92 then [92, ucast c]
      else if c = 10 then [92, 110]
      else if c = 9 then [92, 116]
      else if c = 13 then [92, 114]
      else if 0x20 \<le> c \<and> c \<le> 0x7E then [ucast c]
      else if c \<le> 0xFF then [92, 120, hex_digit (drop_bit 4 c), hex_digit c]
      else if c \<le> 0xFFFF then
        [92, 117, hex_digit (drop_bit 12 c), hex_digit (drop_bit 8 c), hex_digit (drop_bit 4 c), hex_digit c]
      else [92, 85] @ map (\<lambda>i. hex_digit (drop_bit ((7 - i) * 4) c)) [0..<8])"

definition gbnf_char_class :: "u32 list \<Rightarrow> bool \<Rightarrow> byte list" where
  "gbnf_char_class chars negate =
     (if negate then [91, 94] else [91]) @ concat (map gbnf_escape_char_class chars) @ [93]"

subsection \<open>Collecting and printing rules\<close>

text \<open>\<open>_rules\<close>, a \<open>std::map\<close> from names to right-hand sides, in the order of its keys.\<close>

type_synonym gbnf_rules = "(byte list \<times> byte list) list"

fun str_less :: "byte list \<Rightarrow> byte list \<Rightarrow> bool" where
  "str_less xs [] = False"
| "str_less [] (y # ys) = True"
| "str_less (x # xs) (y # ys) = (x < y \<or> x = y \<and> str_less xs ys)"

fun put_rule :: "byte list \<Rightarrow> byte list \<Rightarrow> gbnf_rules \<Rightarrow> gbnf_rules" where
  "put_rule name rule [] = [(name, rule)]"
| "put_rule name rule ((n, r) # rs) =
     (if n = name then (name, rule) # rs
      else if str_less name n then (name, rule) # (n, r) # rs
      else (n, r) # put_rule name rule rs)"

text \<open>\<open>regex_replace\<close> of every run of other characters than letters, digits and \<open>-\<close> by one \<open>-\<close>.\<close>

fun escape_name :: "bool \<Rightarrow> byte list \<Rightarrow> byte list" where
  "escape_name in_run [] = []"
| "escape_name in_run (c # cs) =
     (if is_word_char c then c # escape_name False cs
      else (if in_run then [] else [45]) @ escape_name True cs)"

text \<open>The search for a free numbered name, bounded by the number of rules.\<close>

fun free_name :: "nat \<Rightarrow> gbnf_rules \<Rightarrow> byte list \<Rightarrow> byte list \<Rightarrow> nat \<Rightarrow> byte list" where
  "free_name 0 rules name rule i = name @ to_string i"
| "free_name (Suc k) rules name rule i =
     (if map_of rules (name @ to_string i) \<notin> {None, Some rule} then free_name k rules name rule (i + 1)
      else name @ to_string i)"

definition add_gbnf_rule :: "byte list \<Rightarrow> byte list \<Rightarrow> gbnf_rules \<Rightarrow> gbnf_rules \<times> byte list" where
  "add_gbnf_rule name rule rules =
     (let esc_name = escape_name False name;
          key = (if map_of rules esc_name \<in> {None, Some rule} then esc_name
                 else free_name (length rules) rules esc_name rule 0)
      in (put_rule key rule rules, key))"

definition format_grammar :: "gbnf_rules \<Rightarrow> byte list" where
  "format_grammar rules = concat (map (\<lambda>(name, rule). name @ [32, 58, 58, 61, 32] @ rule @ [10]) rules)"

subsection \<open>One rule per state\<close>

definition is_terminal :: "aho_corasick \<Rightarrow> nat \<Rightarrow> bool" where
  "is_terminal ac s = (ac_match ac ! s \<ge> 0)"

definition state_name :: "byte list \<Rightarrow> nat \<Rightarrow> byte list" where
  "state_name base s =
     (if s = 0 then base
      else let num = to_string s; num = (if length num = 1 then 48 # num else num) in base @ [45] @ num)"

fun put_bucket :: "nat \<Rightarrow> u32 \<Rightarrow> (nat \<times> u32 list) list \<Rightarrow> (nat \<times> u32 list) list" where
  "put_bucket d c [] = [(d, [c])]"
| "put_bucket d c ((e, cs) # bs) =
     (if e = d then (e, cs @ [c]) # bs
      else if d < e then (d, [c]) # (e, cs) # bs
      else (e, cs) # put_bucket d c bs)"

type_synonym transitions = "u32 list \<times> (nat \<times> u32 list) list \<times> u32 list"

definition scan_char :: "aho_corasick \<Rightarrow> nat \<Rightarrow> u32 \<Rightarrow> transitions \<Rightarrow> transitions option" where
  "scan_char ac q c tr =
     (case tr of (completing, buckets, specific) \<Rightarrow>
        (case ac_next ac q c of
           None \<Rightarrow> None
         | Some d \<Rightarrow>
             if is_terminal ac d then Some (completing @ [c], buckets, specific @ [c])
             else if d \<noteq> 0 then Some (completing, put_bucket d c buckets, specific @ [c])
             else Some (completing, buckets, specific)))"

definition scan_state :: "aho_corasick \<Rightarrow> nat \<Rightarrow> transitions option" where
  "scan_state ac q = for_each (scan_char ac q) (sorted_list_of_set (ac_alphabet ac)) ([], [], [])"

type_synonym rule_builder = "transitions \<Rightarrow> (nat \<Rightarrow> byte list) \<Rightarrow> byte list"

definition state_rule ::
    "aho_corasick \<Rightarrow> byte list \<Rightarrow> rule_builder \<Rightarrow> nat \<Rightarrow> gbnf_rules \<Rightarrow> gbnf_rules option" where
  "state_rule ac base build_rule q rules =
     (if is_terminal ac q then Some rules
      else (case scan_state ac q of
          None \<Rightarrow> None
        | Some tr \<Rightarrow> Some (fst (add_gbnf_rule (state_name base q) (build_rule tr (state_name base)) rules))))"

definition gbnf_ac_grammar ::
    "byte list \<Rightarrow> byte list list \<Rightarrow> rule_builder \<Rightarrow> gbnf_rules \<Rightarrow> (gbnf_rules \<times> byte list) option" where
  "gbnf_ac_grammar base strings build_rule rules =
     (case make_ac (trie_of_words strings) of
        None \<Rightarrow> None
      | Some ac \<Rightarrow>
         (case for_each (state_rule ac base build_rule) [0..<length (tr_nodes (ac_trie ac))] rules of
            None \<Rightarrow> None
          | Some rules \<Rightarrow>
              Some (if is_terminal ac 0 then fst (add_gbnf_rule base [124] rules) else rules, state_name base 0)))"

definition excluding_rule :: rule_builder where
  "excluding_rule tr name =
     (case tr of (completing, buckets, specific) \<Rightarrow>
        [124] @ concat (map (\<lambda>(d, chars). [32] @ gbnf_char_class chars False @ [32] @ name d @ [32, 124]) buckets)
          @ [32] @ gbnf_char_class specific True @ [32] @ name 0)"

definition including_rule :: rule_builder where
  "including_rule tr name =
     (case tr of (completing, buckets, specific) \<Rightarrow>
        let alts = (if completing \<noteq> [] then [gbnf_char_class completing False] else [])
              @ map (\<lambda>(d, chars). gbnf_char_class chars False @ [32] @ name d) buckets
              @ [gbnf_char_class specific True @ [32] @ name 0]
        in hd alts @ concat (map (\<lambda>a. [32, 124, 32] @ a) (tl alts)))"

definition gbnf_excluding_grammar :: "byte list \<Rightarrow> byte list list \<Rightarrow> gbnf_rules \<Rightarrow> (gbnf_rules \<times> byte list) option" where
  "gbnf_excluding_grammar base strings rules = gbnf_ac_grammar base strings excluding_rule rules"

definition gbnf_including_grammar :: "byte list \<Rightarrow> byte list list \<Rightarrow> gbnf_rules \<Rightarrow> (gbnf_rules \<times> byte list) option" where
  "gbnf_including_grammar base strings rules = gbnf_ac_grammar base strings including_rule rules"

end
