(* ===== verification/Gbnf_Parse.thy ===== *)
theory Gbnf_Parse
  imports Ac_Grammar
begin

section \<open>Parsing emitted grammars\<close>

text \<open>
  What the grammar parser makes of rules whose alternates are sequences of character classes and rule names, as
  the code emits them: the elements of each rule, the ids of the names, and the language symbols.
\<close>

subsection \<open>Characters\<close>

lemma hex_value_digit: "hex_value (hex_digit d) = Some (of_nat (unat d mod 16)) \<and> hex_digit d \<noteq> 0"
proof -
  have "unat (d AND 0xF) = unat d mod 16"
  proof -
    have "d AND 0xF = take_bit 4 d" by (simp add: take_bit_eq_mask mask_eq_exp_minus_1)
    then have "unat (d AND 0xF) = take_bit 4 (unat d)" by (simp only: unsigned_take_bit_eq)
    then show ?thesis by (simp add: take_bit_eq_mod)
  qed
  moreover have "unat d mod 16 < 16" by simp
  then have "unat d mod 16 \<in> set [0..<16]" by simp
  ultimately show ?thesis by (auto simp: hex_digit_def hex_value_def upt_rec)
qed

lemma hex_digits_shift:
  "map (\<lambda>i. hex_digit (drop_bit ((Suc k - Suc i) * 4) c)) [0..<Suc k] =
   hex_digit (drop_bit (k * 4) c) # map (\<lambda>i. hex_digit (drop_bit ((k - Suc i) * 4) c)) [0..<k]"
  by (simp add: map_upt_Suc del: upt_Suc)

lemma hex_loop_digits:
  "hex_loop k (map (\<lambda>i. hex_digit (drop_bit ((k - Suc i) * 4) c)) [0..<k] @ rest) v =
   (0, rest, v * 16 ^ k + of_nat (unat c mod 16 ^ k))"
proof (induction k arbitrary: v)
  case (Suc k)
  let ?d = "drop_bit (k * 4) c"
  have "unat ?d = unat c div 2 ^ (k * 4)"
    unfolding unsigned_drop_bit_eq [of "k * 4" c] by (simp only: drop_bit_eq_div take_bit_word_eq_self unsigned_take_bit_eq [symmetric])
  also have "(2 :: nat) ^ (k * 4) = 16 ^ k" by (simp add: power_mult mult.commute [of k])
  finally have d: "unat ?d = unat c div 16 ^ k" .
  have m: "unat c mod 16 ^ Suc k = 16 ^ k * (unat c div 16 ^ k mod 16) + unat c mod 16 ^ k"
    unfolding power_Suc2 by (rule mod_mult2_eq)
  have "(push_bit 4 v + of_nat (unat ?d mod 16)) * 16 ^ k + of_nat (unat c mod 16 ^ k) =
    v * 16 ^ Suc k + (of_nat (unat c mod 16 ^ Suc k) :: u32)"
    unfolding d m by (simp add: push_bit_eq_mult algebra_simps)
  then show ?case
    unfolding hex_digits_shift using Suc.IH hex_value_digit [of ?d] by simp
qed simp

lemma parse_hex_digits:
  assumes "unat c < 16 ^ k"
  shows "parse_hex (map (\<lambda>i. hex_digit (drop_bit ((k - Suc i) * 4) c)) [0..<k] @ rest) k = Inr (c, rest)"
  using assms by (simp add: parse_hex_def hex_loop_digits)

lemma decode_ascii:
  assumes "b < 128"
  shows "decode_utf8_at (b # rest) = (ucast b, rest)"
proof -
  have b: "unat b < 128" using assms by (simp add: word_less_nat_alt)
  have "highbits b < 8" using highbits_div [of b] b by simp
  then have "highbits b \<in> set [0..<8]" by simp
  then have "utf8_len_lookup ! highbits b = 1" by (auto simp: utf8_len_lookup_def upt_rec)
  moreover have "ucast b AND mask 7 = (ucast b :: u32)"
  proof -
    have "unat (take_bit 7 (ucast b :: u32)) = take_bit 7 (unat (ucast b :: u32))" by (rule unsigned_take_bit_eq)
    also have "\<dots> = unat (ucast b :: u32)" using b by (simp only: unsigned_ucast_eq take_bit_eq_mod) simp
    finally have "take_bit 7 (ucast b :: u32) = ucast b" by (simp only: word_unat_eq_iff)
    then show ?thesis by (simp only: take_bit_eq_mask)
  qed
  ultimately show ?thesis by (cases rest) (simp_all add: decode_utf8_at_def Let_def)
qed

lemma parse_escape: "parse_char (gbnf_escape_char_class c @ rest) = Inr (c, rest)"
proof -
  have hex: "unat c < 16 ^ k \<Longrightarrow> parse_hex (map (\<lambda>i. hex_digit (drop_bit ((k - Suc i) * 4) c)) [0..<k] @ rest) k = Inr (c, rest)" for k
    by (rule parse_hex_digits)
  have small: "c = 45 \<or> c = 93 \<or> c = 91 \<or> c = 92 \<or> c = 10 \<or> c = 9 \<or> c = 13 \<Longrightarrow> ?thesis"
    by (auto simp: gbnf_escape_char_class_def parse_char_def)
  have printable: ?thesis if "c \<noteq> 45" "c \<noteq> 93" "c \<noteq> 91" "c \<noteq> 92" "c \<noteq> 10" "c \<noteq> 9" "c \<noteq> 13" "0x20 \<le> c" "c \<le> 0x7E"
  proof -
    let ?b = "ucast c :: byte"
    have u: "unat ?b = unat c" using that(9) by (simp add: unsigned_ucast_eq take_bit_eq_mod word_le_nat_alt)
    then have "ucast ?b = c" "?b < 128" "?b \<noteq> 0" "?b \<noteq> 92"
      using that(4,8,9) by (auto simp: word_unat_eq_iff word_less_nat_alt word_le_nat_alt unsigned_ucast_eq take_bit_eq_mod unat_mod)
    with that show ?thesis by (simp add: gbnf_escape_char_class_def parse_char_def decode_ascii)
  qed
  have hex8: "unat c < 16 ^ 8" using unsigned_less [of c] by simp
  have other: ?thesis if "c \<noteq> 45" "c \<noteq> 93" "c \<noteq> 91" "c \<noteq> 92" "c \<noteq> 10" "c \<noteq> 9" "c \<noteq> 13" "\<not> (0x20 \<le> c \<and> c \<le> 0x7E)"
    using that hex [of 2] hex [of 4] hex [of 8] hex8
    by (auto simp: gbnf_escape_char_class_def parse_char_def word_le_nat_alt upt_rec)
  show ?thesis using small printable other by blast
qed

lemma escape_head:
  "\<exists>b bs. gbnf_escape_char_class c = b # bs \<and> b \<noteq> 0 \<and> b \<noteq> 93 \<and> b \<noteq> 45 \<and> (b = 94 \<longrightarrow> c = 94)"
proof -
  have "unat (ucast c :: byte) = unat c" if "c \<le> 0x7E"
    using that by (simp add: unsigned_ucast_eq take_bit_eq_mod word_le_nat_alt)
  then have "(ucast c :: byte) = b \<longleftrightarrow> unat c = unat b" if "c \<le> 0x7E" for b
    using that by (simp add: word_unat_eq_iff)
  from this [of 0] this [of 93] this [of 45] this [of 94] show ?thesis
    by (auto simp: gbnf_escape_char_class_def word_unat_eq_iff [of c] word_le_nat_alt)
qed

text \<open>The elements of a class; the first one carries the type.\<close>

definition class_elems :: "bool \<Rightarrow> u32 list \<Rightarrow> grammar_rule" where
  "class_elems neg cs =
     (case cs of [] \<Rightarrow> [] | c # cs' \<Rightarrow> Elem (if neg then GRE_CHAR_NOT else GRE_CHAR) c # map (Elem GRE_CHAR_ALT) cs')"

lemma class_elems_snoc:
  "class_elems neg (cs @ [c]) =
   class_elems neg cs @ [Elem (if cs = [] then (if neg then GRE_CHAR_NOT else GRE_CHAR) else GRE_CHAR_ALT) c]"
  by (cases cs) (simp_all add: class_elems_def)

lemma length_class_elems [simp]: "length (class_elems neg cs) = length cs"
  by (cases cs) (simp_all add: class_elems_def)

lemma class_loop_chars:
  assumes "length cs < n"
  shows "class_loop n (if neg then GRE_CHAR_NOT else GRE_CHAR) (length rule)
      (concat (map gbnf_escape_char_class cs) @ 93 # rest) (rule @ class_elems neg us) =
    Some (Inr (rule @ class_elems neg (us @ cs), 93 # rest))"
  using assms
proof (induction cs arbitrary: n us)
  case Nil
  then show ?case by (cases n) (simp_all add: class_loop.simps)
next
  case (Cons c cs)
  then obtain m where n: "n = Suc m" "length cs < m" by (cases n) auto
  let ?rest = "concat (map gbnf_escape_char_class cs) @ 93 # rest"
  obtain b bs where b: "gbnf_escape_char_class c = b # bs" "b \<noteq> 0" "b \<noteq> 93" using escape_head by blast
  have next_char: "peek ?rest \<noteq> 45"
  proof (cases cs)
    case (Cons c' cs')
    with escape_head [of c'] show ?thesis by auto
  qed simp
  have parse: "parse_char (b # bs @ ?rest) = Inr (c, ?rest)" using parse_escape [of c ?rest] b(1) by simp
  have "rule @ class_elems neg us @ [Elem (if length rule < length (rule @ class_elems neg us) then GRE_CHAR_ALT
      else if neg then GRE_CHAR_NOT else GRE_CHAR) c] = rule @ class_elems neg (us @ [c])"
    by (simp add: class_elems_snoc)
  with Cons.IH [OF n(2), of "us @ [c]"] b(2,3) next_char parse show ?case
    unfolding n(1) by (simp add: class_loop.simps b(1) Let_def)
qed

subsection \<open>Sequences of classes and names\<close>

datatype piece = Chars bool "u32 list" | Nonterm "byte list"

definition piece_ok :: "piece \<Rightarrow> bool" where
  "piece_ok p =
     (case p of
        Chars neg cs \<Rightarrow> cs \<noteq> [] \<and> (neg \<or> hd cs \<noteq> 94)
      | Nonterm n \<Rightarrow> n \<noteq> [] \<and> list_all is_word_char n)"

definition piece_text :: "piece \<Rightarrow> byte list" where
  "piece_text p = (case p of Chars neg cs \<Rightarrow> gbnf_char_class cs neg | Nonterm n \<Rightarrow> n)"

inductive alt_text :: "byte list \<Rightarrow> piece list \<Rightarrow> bool" where
  empty: "alt_text [] []"
| space: "alt_text t ps \<Longrightarrow> alt_text (32 # t) ps"
| piece: "piece_ok p \<Longrightarrow> alt_text t ps \<Longrightarrow> \<not> is_word_char (peek t) \<Longrightarrow> alt_text (piece_text p @ t) (p # ps)"

definition piece_names :: "piece \<Rightarrow> byte list list" where
  "piece_names p = (case p of Chars neg cs \<Rightarrow> [] | Nonterm n \<Rightarrow> [n])"

definition alt_names :: "piece list \<Rightarrow> byte list list" where
  "alt_names ps = concat (map piece_names ps)"

definition intern :: "byte list list \<Rightarrow> parser \<Rightarrow> parser" where
  "intern ns P = fold (\<lambda>n P. fst (get_symbol_id P n)) ns P"

definition id_of :: "parser \<Rightarrow> byte list \<Rightarrow> u32" where
  "id_of P n = the (map_of (p_symbols P) n)"

definition enc_piece :: "parser \<Rightarrow> piece \<Rightarrow> grammar_rule" where
  "enc_piece P p =
     (case p of Chars neg cs \<Rightarrow> class_elems neg cs | Nonterm n \<Rightarrow> [Elem GRE_RULE_REF (id_of P n)])"

definition enc_alt :: "parser \<Rightarrow> piece list \<Rightarrow> grammar_rule" where
  "enc_alt P ps = concat (map (enc_piece P) ps)"

abbreviation symbols_map :: "parser \<Rightarrow> byte list \<Rightarrow> u32 option" where
  "symbols_map P \<equiv> map_of (p_symbols P)"

lemma get_symbol_id_map:
  "symbols_map P \<subseteq>\<^sub>m symbols_map (fst (get_symbol_id P n))"
  "symbols_map (fst (get_symbol_id P n)) n = Some (snd (get_symbol_id P n))"
  "dom (symbols_map (fst (get_symbol_id P n))) = insert n (dom (symbols_map P))"
  "p_rules (fst (get_symbol_id P n)) = p_rules P"
  by (auto simp: get_symbol_id_def Let_def map_le_def map_add_def split: option.splits)

lemma get_symbol_id_id: "snd (get_symbol_id P n) = id_of (fst (get_symbol_id P n)) n"
  using get_symbol_id_map(2) [of P n] by (simp add: id_of_def)

lemma intern_simps [simp]:
  "intern [] P = P" "intern (n # ns) P = intern ns (fst (get_symbol_id P n))"
  "intern (ms @ ns) P = intern ns (intern ms P)"
  by (simp_all add: intern_def)

lemma intern_map:
  "symbols_map P \<subseteq>\<^sub>m symbols_map (intern ns P)"
  "dom (symbols_map (intern ns P)) = set ns \<union> dom (symbols_map P)"
  "p_rules (intern ns P) = p_rules P"
proof (induction ns arbitrary: P)
  case (Cons n ns)
  { case 1 show ?case using Cons(1) get_symbol_id_map(1) map_le_trans by fastforce }
  { case 2 show ?case using Cons(2) get_symbol_id_map(3) by auto }
  { case 3 show ?case using Cons(3) get_symbol_id_map(4) by simp }
qed simp_all

lemma enc_piece_mono:
  "symbols_map P \<subseteq>\<^sub>m symbols_map Q \<Longrightarrow> set (piece_names p) \<subseteq> dom (symbols_map P) \<Longrightarrow> enc_piece Q p = enc_piece P p"
  by (auto simp: enc_piece_def piece_names_def id_of_def map_le_def dom_def split: piece.split)

lemma enc_alt_mono:
  "symbols_map P \<subseteq>\<^sub>m symbols_map Q \<Longrightarrow> set (alt_names ps) \<subseteq> dom (symbols_map P) \<Longrightarrow> enc_alt Q ps = enc_alt P ps"
  by (induction ps) (simp_all add: enc_alt_def alt_names_def enc_piece_mono)

lemma space_simps [simp]:
  "parse_space (32 # t) nl = parse_space t nl"
  "parse_space (124 # t) nl = 124 # t" "parse_space (10 # t) False = 10 # t"
  "parse_space (91 # t) nl = 91 # t"
  "is_word_char c \<Longrightarrow> parse_space (c # t) nl = c # t"
  by (auto simp: parse_space_def is_word_char_def is_digit_char_def)

lemma piece_space: "piece_ok p \<Longrightarrow> parse_space (piece_text p @ t) nl = piece_text p @ t"
proof (cases p)
  case (Nonterm n)
  then show "piece_ok p \<Longrightarrow> ?thesis" by (cases n) (auto simp: piece_ok_def piece_text_def)
qed (simp add: piece_text_def gbnf_char_class_def)

lemma word_char_other:
  "is_word_char c \<Longrightarrow> c \<notin> {0, 10, 34, 40, 33, 60, 91, 124}"
  by (auto simp: is_word_char_def is_digit_char_def)

lemma sequence_piece:
  assumes "piece_ok p" and "\<not> is_word_char (peek t)" and "s_pos s = piece_text p @ t"
  shows "\<exists>s'. sequence_item vocab rule_name False s = Some (Inr (Some s')) \<and> s_parser s' = intern (piece_names p) (s_parser s)
    \<and> s_rule s' = s_rule s @ enc_piece (s_parser s') p \<and> s_pos s' = parse_space t False"
proof (cases p)
  case (Chars neg cs)
  have cs: "cs \<noteq> []" "neg \<or> hd cs \<noteq> 94" using assms(1) by (simp_all add: piece_ok_def Chars)
  let ?body = "concat (map gbnf_escape_char_class cs) @ 93 # t"
  obtain c cs' where c: "cs = c # cs'" using cs(1) by (cases cs) auto
  obtain b bs where b: "gbnf_escape_char_class c = b # bs" "b = 94 \<longrightarrow> c = 94" using escape_head [of c] by blast
  have negated: "(peek ((if neg then [94] else []) @ ?body) = 94) = neg" using cs(2) b by (auto simp: c)
  have pos: "s_pos s = 91 # (if neg then [94] else []) @ ?body"
    using assms(3) by (simp add: Chars piece_text_def gbnf_char_class_def)
  have "length cs \<le> length (concat (map gbnf_escape_char_class cs))"
  proof (induction cs)
    case (Cons c cs)
    with escape_head [of c] show ?case by auto
  qed simp
  then have "length cs < Suc (length (s_pos s))" by (simp add: pos)
  from class_loop_chars [OF this, of neg "s_rule s" t "[]"]
  have loop: "class_loop (Suc (length (s_pos s))) (if neg then GRE_CHAR_NOT else GRE_CHAR) (length (s_rule s)) ?body (s_rule s)
      = Some (Inr (s_rule s @ class_elems neg cs, 93 # t))" by (simp add: class_elems_def)
  have body: "(if neg then tl (tl (s_pos s)) else tl (s_pos s)) = ?body" by (simp add: pos)
  show ?thesis
    using loop negated body by (cases neg) (simp_all add: sequence_item_def Let_def pos enc_piece_def piece_names_def Chars)
next
  case (Nonterm n)
  have n: "n \<noteq> []" "list_all is_word_char n" using assms(1) by (simp_all add: piece_ok_def Nonterm)
  obtain c cs where c: "n = c # cs" using n(1) by (cases n) auto
  have w: "is_word_char c" using n(2) c by simp
  have t: "takeWhile is_word_char (n @ t) = n" "dropWhile is_word_char (n @ t) = t"
    using n(2) assms(2) by (cases t; auto simp: list_all_iff)+
  have pos: "s_pos s = n @ t" using assms(3) by (simp add: Nonterm piece_text_def)
  have name: "parse_name (s_pos s) = Inr (n, t)" using t n(1) by (simp add: parse_name_def pos)
  obtain P i where g: "get_symbol_id (s_parser s) n = (P, i)" by force
  show ?thesis
    using name g get_symbol_id_id [of "s_parser s" n] word_char_other [OF w] w
    by (simp add: sequence_item_def Let_def pos c enc_piece_def piece_names_def Nonterm)
qed

subsection \<open>Alternates\<close>

lemma sequence_stops:
  assumes "s_pos s = x # r" and "x = 124 \<or> x = 10"
  shows "parse_sequence (Suc n) vocab rule_name False s = Some (Inr s)"
  using assms by (auto simp: sequence_item_def Let_def is_word_char_def is_digit_char_def)

lemma parse_sequence_alt:
  assumes "alt_text t ps" and "x = 124 \<or> x = 10" and "length ps < n"
    and "s_pos s = parse_space (t @ x # r) False"
  shows "\<exists>s'. parse_sequence n vocab rule_name False s = Some (Inr s') \<and> s_parser s' = intern (alt_names ps) (s_parser s)
    \<and> s_rule s' = s_rule s @ enc_alt (s_parser s') ps \<and> s_pos s' = x # r"
  using assms
proof (induction arbitrary: n s rule: alt_text.induct)
  case empty
  then have "s_pos s = x # r" by auto
  moreover obtain m where "n = Suc m" using empty.prems(2) by (cases n) auto
  ultimately show ?case using sequence_stops [of s x r] empty.prems(1) by (simp add: alt_names_def enc_alt_def)
next
  case (space t ps)
  then show ?case by simp
next
  case (piece p t ps)
  obtain m where n: "n = Suc m" "length ps < m" using piece.prems(2) by (cases n) auto
  have pos: "s_pos s = piece_text p @ t @ x # r"
    using piece.prems(3) piece_space [OF piece.hyps(1), of "t @ x # r" False] by simp
  have "\<not> is_word_char (peek (t @ x # r))"
    using piece.hyps(3) piece.prems(1) by (cases t) (auto simp: is_word_char_def is_digit_char_def)
  from sequence_piece [OF piece.hyps(1) this pos, of vocab rule_name] obtain s1 where
    s1: "sequence_item vocab rule_name False s = Some (Inr (Some s1))" "s_parser s1 = intern (piece_names p) (s_parser s)"
    "s_rule s1 = s_rule s @ enc_piece (s_parser s1) p" "s_pos s1 = parse_space (t @ x # r) False" by blast
  have ne: "peek (s_pos s) \<noteq> 0 \<and> peek (s_pos s) \<noteq> 40"
  proof (cases p)
    case (Nonterm nm)
    then obtain c cs where "nm = c # cs" "is_word_char c" using piece.hyps(1) by (cases nm) (auto simp: piece_ok_def)
    with Nonterm pos word_char_other [of c] show ?thesis by (simp add: piece_text_def)
  qed (simp add: pos piece_text_def gbnf_char_class_def)
  from piece.IH [OF piece.prems(1) n(2) s1(4)] obtain s2 where
    s2: "parse_sequence m vocab rule_name False s1 = Some (Inr s2)" "s_parser s2 = intern (alt_names ps) (s_parser s1)"
    "s_rule s2 = s_rule s1 @ enc_alt (s_parser s2) ps" "s_pos s2 = x # r" by blast
  have "symbols_map (s_parser s1) \<subseteq>\<^sub>m symbols_map (s_parser s2)" using intern_map(1) s2(2) by simp
  moreover have "set (piece_names p) \<subseteq> dom (symbols_map (s_parser s1))" using intern_map(2) s1(2) by simp
  ultimately have "enc_piece (s_parser s2) p = enc_piece (s_parser s1) p" by (rule enc_piece_mono)
  then show ?case using s1 s2 ne n(1) by (simp add: alt_names_def enc_alt_def)
qed

text \<open>A right-hand side; the last of several alternates is not empty.\<close>

inductive rhs_text :: "byte list \<Rightarrow> piece list list \<Rightarrow> bool" where
  single: "alt_text t ps \<Longrightarrow> ps \<noteq> [] \<Longrightarrow> rhs_text t [ps]"
| alt: "alt_text t ps \<Longrightarrow> rhs_text ts pss \<Longrightarrow> rhs_text (t @ 124 # ts) (ps # pss)"

fun enc_alts :: "parser \<Rightarrow> piece list list \<Rightarrow> grammar_rule" where
  "enc_alts P [] = []"
| "enc_alts P [ps] = enc_alt P ps"
| "enc_alts P (ps # pss) = enc_alt P ps @ Elem GRE_ALT 0 # enc_alts P pss"

definition rhs_names :: "piece list list \<Rightarrow> byte list list" where
  "rhs_names pss = concat (map alt_names pss)"

lemma rhs_nonempty: "rhs_text t pss \<Longrightarrow> pss \<noteq> []"
  by (induction rule: rhs_text.induct) auto

lemma enc_alts_Cons: "pss \<noteq> [] \<Longrightarrow> enc_alts P (ps # pss) = enc_alt P ps @ Elem GRE_ALT 0 # enc_alts P pss"
  by (cases pss) auto

lemma enc_alts_mono:
  "symbols_map P \<subseteq>\<^sub>m symbols_map Q \<Longrightarrow> set (rhs_names pss) \<subseteq> dom (symbols_map P) \<Longrightarrow> enc_alts Q pss = enc_alts P pss"
proof (induction pss)
  case (Cons ps pss)
  then show ?case by (cases pss) (auto simp: rhs_names_def enc_alts_Cons enc_alt_mono)
qed simp

lemma alt_space: "alt_text t ps \<Longrightarrow> ps \<noteq> [] \<or> x = 124 \<Longrightarrow> parse_space (t @ x # r) True = parse_space (t @ x # r) False"
proof (induction rule: alt_text.induct)
  case (piece p t ps)
  then show ?case using piece_space [of p "t @ x # r"] by simp
qed auto

lemma alt_text_length: "alt_text t ps \<Longrightarrow> length ps \<le> length t"
proof (induction rule: alt_text.induct)
  case (piece p t ps)
  have "piece_text p \<noteq> []" using piece.hyps(1) by (auto simp: piece_ok_def piece_text_def gbnf_char_class_def split: piece.splits)
  then have "1 \<le> length (piece_text p)" by (simp add: Suc_le_eq)
  with piece.IH show ?case by simp
qed auto

lemma space_length: "length (parse_space src nl) \<le> length src"
  by (rule parse_space_length)

definition parses_alts ::
    "(seq_state \<Rightarrow> (parse_error + seq_state) option) \<Rightarrow> nat \<Rightarrow> seq_state \<Rightarrow> piece list list \<Rightarrow> byte list \<Rightarrow> bool" where
  "parses_alts seq n s pss rest \<longleftrightarrow>
     (\<exists>s1 s'. seq s = Some (Inr s1) \<and> alternates_loop seq n s1 = Some (Inr s') \<and> s_parser s' = intern (rhs_names pss) (s_parser s)
       \<and> s_rule s' = s_rule s @ enc_alts (s_parser s') pss \<and> s_pos s' = rest)"

lemma parse_alternates_rhs:
  assumes "rhs_text t pss" and "length t < m" and "length pss \<le> n" and "s_pos s = parse_space (t @ 10 # r) True"
  shows "parses_alts (parse_sequence m vocab rule_name False) n s pss (10 # r)"
  using assms
proof (induction arbitrary: n s rule: rhs_text.induct)
  case (single t ps)
  have "length ps < m" using alt_text_length [OF single.hyps(1)] single.prems(1) by simp
  moreover have "s_pos s = parse_space (t @ 10 # r) False" using alt_space [OF single.hyps(1)] single.hyps(2) single.prems(3) by simp
  ultimately obtain s' where s': "parse_sequence m vocab rule_name False s = Some (Inr s')" "s_parser s' = intern (alt_names ps) (s_parser s)"
    "s_rule s' = s_rule s @ enc_alt (s_parser s') ps" "s_pos s' = 10 # r"
    using parse_sequence_alt [OF single.hyps(1), of 10 m s r vocab rule_name] by auto
  moreover obtain k where "n = Suc k" using single.prems(2) by (cases n) auto
  ultimately show ?case by (auto simp: parses_alts_def rhs_names_def)
next
  case (alt t ps ts pss)
  let ?seq = "parse_sequence m vocab rule_name False"
  have "length ps < m" using alt_text_length [OF alt.hyps(1)] alt.prems(1) by simp
  moreover have "s_pos s = parse_space (t @ 124 # (ts @ 10 # r)) False"
    using alt_space [OF alt.hyps(1), of 124 "ts @ 10 # r"] alt.prems(3) by simp
  ultimately obtain s1 where s1: "?seq s = Some (Inr s1)" "s_parser s1 = intern (alt_names ps) (s_parser s)"
    "s_rule s1 = s_rule s @ enc_alt (s_parser s1) ps" "s_pos s1 = 124 # ts @ 10 # r"
    using parse_sequence_alt [OF alt.hyps(1), of 124 m s "ts @ 10 # r" vocab rule_name] by auto
  obtain k where n: "n = Suc k" "length pss \<le> k" using alt.prems(2) by (cases n) auto
  let ?rule = "s_rule s1 @ [Elem GRE_ALT 0]"
  let ?s = "s1\<lparr>s_rule := ?rule, s_last := length ?rule, s_prev := 1, s_pos := parse_space (ts @ 10 # r) True\<rparr>"
  have "length ts < m" using alt.prems(1) by simp
  from alt.IH [OF this n(2), of ?s] obtain s2 s' where s2: "?seq ?s = Some (Inr s2)"
    "alternates_loop ?seq k s2 = Some (Inr s')" "s_parser s' = intern (rhs_names pss) (s_parser s1)"
    "s_rule s' = ?rule @ enc_alts (s_parser s') pss" "s_pos s' = 10 # r" by (auto simp: parses_alts_def)
  have "enc_alt (s_parser s') ps = enc_alt (s_parser s1) ps"
    by (rule enc_alt_mono) (use intern_map(1) intern_map(2) [of "alt_names ps"] s1(2) s2(3) in \<open>auto simp: intern_map(1)\<close>)
  then have "s_rule s' = s_rule s @ enc_alts (s_parser s') (ps # pss)"
    using s2(4) s1(3) rhs_nonempty [OF alt.hyps(2)] by (simp add: enc_alts_Cons)
  with s1 s2 n(1) show ?case by (auto simp: parses_alts_def rhs_names_def)
qed

subsection \<open>Rules and grammars\<close>

definition word_name :: "byte list \<Rightarrow> bool" where
  "word_name n \<longleftrightarrow> n \<noteq> [] \<and> list_all is_word_char n"

definition rule_line :: "byte list \<times> byte list \<Rightarrow> byte list \<times> piece list list \<Rightarrow> bool" where
  "rule_line r f \<longleftrightarrow> fst r = fst f \<and> word_name (fst r) \<and> rhs_text (snd r) (snd f) \<and> (peek (snd r) = 124 \<or> peek (snd r) = 91)"

lemma rhs_text_length: "rhs_text t pss \<Longrightarrow> length pss \<le> Suc (length t)"
  by (induction rule: rhs_text.induct) auto

lemma parse_rule_line:
  assumes "rule_line (name, t) (name, pss)" and "P' = intern (rhs_names pss) (fst (get_symbol_id P name))"
  shows "parse_rule vocab P (name @ [32, 58, 58, 61, 32] @ t @ 10 # r) =
    Some (Inr (add_rule P' (id_of P' name) (enc_alts P' pss @ [Elem GRE_END 0]), parse_space r True))"
proof -
  have n: "name \<noteq> []" "list_all is_word_char name" and rhs: "rhs_text t pss" and pk: "peek t = 124 \<or> peek t = 91"
    using assms(1) by (auto simp: rule_line_def word_name_def)
  have "takeWhile is_word_char (name @ 32 # x) = name" "dropWhile is_word_char (name @ 32 # x) = 32 # x" for x
    using n(2) by (auto simp: list_all_iff takeWhile_append dropWhile_append is_word_char_def is_digit_char_def)
  then have name: "parse_name (name @ 32 # x) = Inr (name, 32 # x)" for x using n(1) by (simp add: parse_name_def)
  have colon: "parse_space (58 # x) nl = 58 # x" for x nl by (simp add: parse_space_def)
  let ?t = "t @ 10 # r"
  have t: "parse_space ?t True = ?t" using pk by (cases t) auto
  obtain P1 i where g: "get_symbol_id P name = (P1, i)" by force
  let ?s = "\<lparr>s_parser = P1, s_rule = [], s_last = 0, s_prev = 1, s_pos = ?t\<rparr>"
  have "parses_alts (parse_sequence (Suc (length ?t)) vocab name False) (Suc (length ?t)) ?s pss (10 # r)"
    by (rule parse_alternates_rhs [OF rhs]) (use rhs_text_length [OF rhs] t in auto)
  moreover have "i = id_of P' name"
  proof -
    have "symbols_map P1 name = Some i" using get_symbol_id_map(2) [of P name] g by simp
    moreover have "symbols_map P1 \<subseteq>\<^sub>m symbols_map P'" using intern_map(1) assms(2) g by simp
    ultimately have "symbols_map P' name = Some i" by (metis domI map_le_def)
    then show ?thesis by (simp add: id_of_def)
  qed
  ultimately have "parse_alternates vocab ?t name i False P1 =
      Some (Inr (add_rule P' (id_of P' name) (enc_alts P' pss @ [Elem GRE_END 0]), 10 # r))"
    using assms(2) g by (auto simp: parse_alternates_def alternates_by_def parses_alts_def simp del: parse_sequence.simps)
  then show ?thesis
    using name [of "58 # 58 # 61 # 32 # ?t"] g t by (simp add: parse_rule_def Let_def colon)
qed

text \<open>The table of symbols: each name once, its id its index.\<close>

definition table_inv :: "byte list set \<Rightarrow> parser \<Rightarrow> bool" where
  "table_inv N P \<longleftrightarrow> distinct (map fst (p_symbols P)) \<and> fst ` set (p_symbols P) \<subseteq> N
     \<and> (\<forall>i < length (p_symbols P). snd (p_symbols P ! i) = of_nat i) \<and> length (p_rules P) \<le> length (p_symbols P)"

lemma get_symbol_id_table: "table_inv N P \<Longrightarrow> n \<in> N \<Longrightarrow> table_inv N (fst (get_symbol_id P n))"
  by (auto simp: table_inv_def get_symbol_id_def Let_def nth_append less_Suc_eq map_of_eq_None_iff split: option.split)

lemma intern_table: "table_inv N P \<Longrightarrow> set ns \<subseteq> N \<Longrightarrow> table_inv N (intern ns P)"
  by (induction ns arbitrary: P) (auto intro: get_symbol_id_table)

lemma table_ids:
  assumes "table_inv N P" and "finite N" and "card N < 2 ^ 32" and "n \<in> dom (symbols_map P)"
  shows "unat (id_of P n) < length (p_symbols P)" "p_symbols P ! unat (id_of P n) = (n, id_of P n)"
proof -
  from assms(4) obtain i where i: "symbols_map P n = Some i" by auto
  from map_of_SomeD [OF this] obtain k where k: "k < length (p_symbols P)" "p_symbols P ! k = (n, i)"
    by (auto simp: in_set_conv_nth)
  have "length (p_symbols P) = card (fst ` set (p_symbols P))"
    using assms(1) distinct_card [of "map fst (p_symbols P)"] by (simp add: table_inv_def)
  also have "\<dots> \<le> card N" using assms(1,2) by (intro card_mono) (auto simp: table_inv_def)
  finally have "length (p_symbols P) < 2 ^ 32" using assms(3) by simp
  moreover have "i = of_nat k" using assms(1) k by (auto simp: table_inv_def)
  ultimately have "unat i = k" using k(1) by (simp add: unat_id)
  with i k show "unat (id_of P n) < length (p_symbols P)" "p_symbols P ! unat (id_of P n) = (n, id_of P n)"
    by (simp_all add: id_of_def)
qed

lemma table_ids_inj:
  assumes "table_inv N P" and "finite N" and "card N < 2 ^ 32" and "n \<in> dom (symbols_map P)" and "m \<in> dom (symbols_map P)"
    and "unat (id_of P n) = unat (id_of P m)"
  shows "n = m"
  using table_ids(2) [OF assms(1-3,4)] table_ids(2) [OF assms(1-3,5)] unfolding assms(6) by (metis prod.inject)

text \<open>The rules read so far.\<close>

definition rules_done :: "parser \<Rightarrow> (byte list \<times> piece list list) list \<Rightarrow> bool" where
  "rules_done P fs \<longleftrightarrow> (\<forall>(n, pss) \<in> set fs. n \<in> dom (symbols_map P) \<and> set (rhs_names pss) \<subseteq> dom (symbols_map P)
     \<and> unat (id_of P n) < length (p_rules P) \<and> p_rules P ! unat (id_of P n) = enc_alts P pss @ [Elem GRE_END 0])"

lemma id_of_mono: "symbols_map P \<subseteq>\<^sub>m symbols_map Q \<Longrightarrow> n \<in> dom (symbols_map P) \<Longrightarrow> id_of Q n = id_of P n"
  by (auto simp: id_of_def map_le_def dom_def)

lemma dom_mono: "symbols_map P \<subseteq>\<^sub>m symbols_map Q \<Longrightarrow> dom (symbols_map P) \<subseteq> dom (symbols_map Q)"
  by (rule map_le_implies_dom_le)

lemma add_rule_done:
  assumes "table_inv N P" and "finite N" and "card N < 2 ^ 32" and "rules_done P fs" and "n \<notin> fst ` set fs"
    and "n \<in> N" and "set (rhs_names pss) \<subseteq> N" and "P' = intern (rhs_names pss) (fst (get_symbol_id P n))"
    and "Q = add_rule P' (id_of P' n) (enc_alts P' pss @ [Elem GRE_END 0])"
  shows "table_inv N Q \<and> rules_done Q ((n, pss) # fs)"
proof -
  have le: "symbols_map P \<subseteq>\<^sub>m symbols_map P'" "symbols_map (fst (get_symbol_id P n)) \<subseteq>\<^sub>m symbols_map P'"
    using get_symbol_id_map(1) [of P n] intern_map(1) map_le_trans unfolding assms(8) by blast+
  have rules: "p_rules P' = p_rules P" by (simp add: assms(8) intern_map(3) get_symbol_id_map(4))
  have T: "table_inv N P'" unfolding assms(8) by (intro intern_table get_symbol_id_table assms)
  have dn: "n \<in> dom (symbols_map P')" using get_symbol_id_map(3) [of P n] dom_mono [OF le(2)] by auto
  have names: "set (rhs_names pss) \<subseteq> dom (symbols_map P')" unfolding assms(8) intern_map(2) by simp
  have same: "p_symbols Q = p_symbols P'" by (simp add: assms(9))
  have idQ: "id_of Q m = id_of P' m" for m by (simp add: id_of_def same)
  have encQ: "enc_alts Q qs = enc_alts P' qs" if "set (rhs_names qs) \<subseteq> dom (symbols_map P')" for qs
    by (rule enc_alts_mono) (use that same in auto)
  note ids = table_ids [OF T assms(2,3)]
  have "length (p_rules Q) = max (length (p_rules P')) (Suc (unat (id_of P' n)))"
    by (simp add: assms(9) add_rule_def Let_def)
  then have "length (p_rules Q) \<le> length (p_symbols Q)"
    using T ids(1) [OF dn] by (simp add: table_inv_def same)
  then have TQ: "table_inv N Q" using T by (simp add: table_inv_def same)
  have "n' \<in> dom (symbols_map Q) \<and> set (rhs_names qs) \<subseteq> dom (symbols_map Q)
     \<and> unat (id_of Q n') < length (p_rules Q) \<and> p_rules Q ! unat (id_of Q n') = enc_alts Q qs @ [Elem GRE_END 0]"
    if f: "(n', qs) \<in> set ((n, pss) # fs)" for n' qs
  proof (cases "(n', qs) = (n, pss)")
    case True
    with dn names encQ [OF names] add_rule_nth(1,2) [where P = P' and i = "id_of P' n" and rule = "enc_alts P' pss @ [Elem GRE_END 0]"]
    show ?thesis by (simp add: assms(9) id_of_def)
  next
    case False
    with f have in_fs: "(n', qs) \<in> set fs" by auto
    with assms(4) have d: "n' \<in> dom (symbols_map P)" "set (rhs_names qs) \<subseteq> dom (symbols_map P)"
      "unat (id_of P n') < length (p_rules P)" "p_rules P ! unat (id_of P n') = enc_alts P qs @ [Elem GRE_END 0]"
      by (auto simp: rules_done_def)
    have d': "n' \<in> dom (symbols_map P')" "set (rhs_names qs) \<subseteq> dom (symbols_map P')" using d(1,2) dom_mono [OF le(1)] by auto
    have i: "id_of Q n' = id_of P n'" using id_of_mono [OF le(1) d(1)] idQ by simp
    have "n' \<noteq> n" using in_fs assms(5) by force
    then have "unat (id_of P n') \<noteq> unat (id_of P' n)"
      using table_ids_inj [OF T assms(2,3) d'(1) dn] i idQ by auto
    from add_rule_nth(3) [OF this, where P = P'] d(3,4) rules
    have "unat (id_of P n') < length (p_rules Q) \<and> p_rules Q ! unat (id_of P n') = enc_alts P qs @ [Elem GRE_END 0]"
      by (simp add: assms(9))
    moreover have "enc_alts Q qs = enc_alts P qs" using encQ [OF d'(2)] enc_alts_mono [OF le(1) d(2)] by simp
    ultimately show ?thesis using d' i same by simp
  qed
  with TQ show ?thesis unfolding rules_done_def by blast
qed

lemma format_grammar_simps [simp]:
  "format_grammar [] = []"
  "format_grammar ((n, t) # rs) = n @ [32, 58, 58, 61, 32] @ t @ 10 # format_grammar rs"
  by (simp_all add: format_grammar_def)

lemma format_grammar_space: "list_all2 rule_line rs fs \<Longrightarrow> parse_space (format_grammar rs) nl = format_grammar rs"
proof (cases rs)
  case (Cons r rs')
  assume "list_all2 rule_line rs fs"
  with Cons obtain c cs where "fst r = c # cs" "is_word_char c"
    by (cases "fst r") (auto simp: list_all2_Cons1 rule_line_def word_name_def)
  with Cons show ?thesis by (cases r) simp
qed (simp add: parse_space_def)

lemma parse_rules_lines:
  assumes "list_all2 rule_line rs fs" and "distinct (map fst fs)" and "finite N" and "card N < 2 ^ 32"
    and "\<forall>(n, pss) \<in> set fs. n \<in> N \<and> set (rhs_names pss) \<subseteq> N" and "length rs < k"
    and "table_inv N P" and "rules_done P gs" and "fst ` set fs \<inter> fst ` set gs = {}"
  shows "\<exists>Q. parse_rules k vocab P (format_grammar rs) = Some (Inr Q) \<and> table_inv N Q \<and> rules_done Q (rev fs @ gs)"
  using assms(1,2,5-9)
proof (induction rs arbitrary: fs k P gs)
  case Nil
  then show ?case by (cases k) auto
next
  case (Cons r rs)
  from Cons.prems(1) obtain f fs' where fs: "fs = f # fs'" "rule_line r f" "list_all2 rule_line rs fs'"
    by (auto simp: list_all2_Cons1)
  obtain n t where r: "r = (n, t)" by force
  obtain pss where f: "f = (n, pss)" using fs(2) r by (cases f) (auto simp: rule_line_def)
  obtain m where k: "k = Suc m" "length rs < m" using Cons.prems(4) by (cases k) auto
  let ?P = "intern (rhs_names pss) (fst (get_symbol_id P n))"
  let ?Q = "add_rule ?P (id_of ?P n) (enc_alts ?P pss @ [Elem GRE_END 0])"
  have line: "parse_rule vocab P (format_grammar (r # rs)) = Some (Inr (?Q, format_grammar rs))"
    using parse_rule_line [OF fs(2) [unfolded r f] refl, of vocab P "format_grammar rs"] format_grammar_space [OF fs(3)]
    by (simp add: r)
  have "peek (format_grammar (r # rs)) \<noteq> 0"
  proof -
    obtain c cs where "n = c # cs" "is_word_char c" using fs(2) r by (cases n) (auto simp: rule_line_def word_name_def)
    with word_char_other [of c] show ?thesis by (simp add: r)
  qed
  with line have step: "parse_rules k vocab P (format_grammar (r # rs)) = parse_rules m vocab ?Q (format_grammar rs)"
    by (simp add: k(1) del: format_grammar_simps)
  have q: "table_inv N ?Q \<and> rules_done ?Q ((n, pss) # gs)"
    by (rule add_rule_done [OF Cons.prems(5) assms(3,4) Cons.prems(6) _ _ _ refl refl]) (use Cons.prems(3,7) fs(1) f in auto)
  have "\<exists>Q. parse_rules m vocab ?Q (format_grammar rs) = Some (Inr Q) \<and> table_inv N Q \<and> rules_done Q (rev fs' @ (n, pss) # gs)"
    by (rule Cons.IH [OF fs(3)]) (use Cons.prems(2,3,7) fs(1) f k(2) q in auto)
  with step show ?case by (simp add: fs(1) f)
qed

lemma rules_done_set: "set fs = set gs \<Longrightarrow> rules_done P fs = rules_done P gs"
  by (simp add: rules_done_def)

text \<open>A grammar in which every name that is used has a rule parses, and each name has its rule.\<close>

lemma parse_formatted:
  assumes "list_all2 rule_line rs fs" and "distinct (map fst fs)" and "length fs < 2 ^ 32"
    and "\<forall>(n, pss) \<in> set fs. set (rhs_names pss) \<subseteq> fst ` set fs"
  shows "\<exists>P. parse vocab (format_grammar rs) = Some (Inr P) \<and> length (p_symbols P) < 2 ^ 32 \<and> rules_done P fs
    \<and> (\<forall>i < length (p_rules P). \<exists>n \<in> fst ` set fs. unat (id_of P n) = i)"
proof -
  let ?N = "fst ` set fs" and ?P0 = "\<lparr>p_symbols = [], p_rules = []\<rparr>"
  have card: "card ?N < 2 ^ 32" using card_length [of "map fst fs"] assms(3) by simp
  have "length rs \<le> length (format_grammar rs)"
    by (induction rs) (auto simp: format_grammar_def)
  then have len: "length rs < Suc (length (format_grammar rs))" by simp
  have closed: "\<forall>(n, pss) \<in> set fs. n \<in> ?N \<and> set (rhs_names pss) \<subseteq> ?N" using assms(4) by force
  have "table_inv ?N ?P0" "rules_done ?P0 []" by (simp_all add: table_inv_def rules_done_def)
  from parse_rules_lines [OF assms(1,2) _ card closed len this, of vocab] obtain Q where
    Q: "parse_rules (Suc (length (format_grammar rs))) vocab ?P0 (format_grammar rs) = Some (Inr Q)"
    "table_inv ?N Q" "rules_done Q (rev fs @ [])" by auto
  have rd: "rules_done Q fs" using Q(3) rules_done_set [of "rev fs" fs] by simp
  have "length (p_symbols Q) = card (fst ` set (p_symbols Q))"
    using Q(2) distinct_card [of "map fst (p_symbols Q)"] by (simp add: table_inv_def)
  also have "\<dots> \<le> card ?N" using Q(2) by (intro card_mono) (auto simp: table_inv_def)
  finally have bound: "length (p_symbols Q) < 2 ^ 32" using card by simp
  have key: "\<exists>n. n \<in> ?N \<and> n \<in> dom (symbols_map Q) \<and> id_of Q n = snd (p_symbols Q ! i) \<and> unat (id_of Q n) = i
      \<and> i < length (p_rules Q) \<and> p_rules Q ! i \<noteq> []" if i: "i < length (p_symbols Q)" for i
  proof -
    obtain n v where nv: "p_symbols Q ! i = (n, v)" by force
    then have "(n, v) \<in> set (p_symbols Q)" using i by (metis nth_mem)
    then have m: "symbols_map Q n = Some v" using Q(2) by (simp add: table_inv_def)
    then have d: "n \<in> dom (symbols_map Q)" "id_of Q n = v" by (auto simp: id_of_def)
    have "v = of_nat i" using Q(2) i nv by (auto simp: table_inv_def)
    moreover have "i < 2 ^ 32" using bound i by simp
    ultimately have u: "unat v = i" by (simp add: unat_id)
    have "n \<in> ?N" using \<open>(n, v) \<in> set (p_symbols Q)\<close> Q(2) by (force simp: table_inv_def)
    then obtain pss where pss: "(n, pss) \<in> set fs" by force
    with rd have "unat (id_of Q n) < length (p_rules Q) \<and> p_rules Q ! unat (id_of Q n) = enc_alts Q pss @ [Elem GRE_END 0]"
      by (auto simp: rules_done_def)
    with d u nv \<open>n \<in> ?N\<close> show ?thesis by (intro exI [of _ n]) simp
  qed
  have "\<not> (rule = [] \<or> list_ex (ref_undefined Q) rule)" if rule: "rule \<in> set (p_rules Q)" for rule
  proof -
    from rule obtain i where "i < length (p_rules Q)" "p_rules Q ! i = rule" by (auto simp: in_set_conv_nth)
    moreover from this have "i < length (p_symbols Q)" using Q(2) by (simp add: table_inv_def)
    ultimately have "rule \<noteq> []" using key by blast
    moreover have "\<not> ref_undefined Q e" for e
    proof
      assume e: "ref_undefined Q e"
      then obtain x where "x \<in> set (p_symbols Q)" "snd x = el_value e" by (auto simp: ref_undefined_def)
      then obtain j where "j < length (p_symbols Q)" "snd (p_symbols Q ! j) = el_value e" by (metis in_set_conv_nth)
      with key [of j] e show False by (auto simp: ref_undefined_def)
    qed
    ultimately show ?thesis by (auto simp: list_ex_iff)
  qed
  then have "filter (\<lambda>rule. rule = [] \<or> list_ex (ref_undefined Q) rule) (p_rules Q) = []" by (simp add: filter_empty_conv)
  then have "validate Q = Inr Q" by (simp add: validate_def)
  then have "parse vocab (format_grammar rs) = Some (Inr Q)"
    using Q(1) format_grammar_space [OF assms(1)] by (simp add: parse_def del: parse_rules.simps)
  moreover have "\<forall>i < length (p_rules Q). \<exists>n \<in> ?N. unat (id_of Q n) = i"
  proof (intro allI impI)
    fix i assume "i < length (p_rules Q)"
    then have "i < length (p_symbols Q)" using Q(2) by (simp add: table_inv_def)
    with key show "\<exists>n \<in> ?N. unat (id_of Q n) = i" by blast
  qed
  ultimately show ?thesis using rd bound by blast
qed

subsection \<open>The symbols of a rule\<close>

definition gsym_of :: "parser \<Rightarrow> piece \<Rightarrow> gsym" where
  "gsym_of P p =
     (case p of Chars neg cs \<Rightarrow> Cls (\<not> neg) (map (\<lambda>c. (c, c)) cs) | Nonterm n \<Rightarrow> Ref (unat (id_of P n)))"

lemma class_ranges_chars:
  "t \<noteq> GRE_CHAR_ANY \<Longrightarrow> class_ranges (Elem t c # map (Elem GRE_CHAR_ALT) cs) = ((c, c) # map (\<lambda>c. (c, c)) cs, Suc (length cs))"
proof (induction cs arbitrary: t c)
  case Nil
  then show ?case by (simp add: class_ranges_member [of "[_]"] member_width_def member_range_def type_at_def)
next
  case (Cons d cs)
  have "class_ranges (Elem GRE_CHAR_ALT d # map (Elem GRE_CHAR_ALT) cs) = ((d, d) # map (\<lambda>c. (c, c)) cs, Suc (length cs))"
    by (rule Cons.IH) simp
  with Cons.prems show ?case
    by (simp add: class_ranges_member [of "Elem t c # _"] member_width_def member_range_def type_at_def)
qed

lemma no_end_append [simp]: "no_end (es @ fs) \<longleftrightarrow> no_end es \<and> no_end fs"
  by (auto simp: no_end_def)

lemma enc_piece_syms:
  assumes "piece_ok p"
  shows "no_end (enc_piece P p) \<and> opens (enc_piece P p) \<and> enc_piece P p \<noteq> [] \<and> syms (enc_piece P p) = [gsym_of P p]"
proof (cases p)
  case (Chars neg cs)
  then obtain c cs' where cs: "cs = c # cs'" using assms by (cases cs) (auto simp: piece_ok_def)
  have t: "(if neg then GRE_CHAR_NOT else GRE_CHAR) \<noteq> GRE_CHAR_ANY" by simp
  show ?thesis
    using class_ranges_chars [OF t, of c cs'] t
    by (auto simp: Chars cs enc_piece_def class_elems_def gsym_of_def no_end_def is_end_of_sequence_def is_end_type_def
        is_token_type_def is_positive_char_def)
next
  case (Nonterm n)
  then show ?thesis
    by (simp add: enc_piece_def gsym_of_def no_end_def is_end_of_sequence_def is_end_type_def)
qed

lemma enc_alt_syms:
  "list_all piece_ok ps \<Longrightarrow> no_end (enc_alt P ps) \<and> opens (enc_alt P ps) \<and> syms (enc_alt P ps) = map (gsym_of P) ps"
proof (induction ps)
  case Nil
  then show ?case by (simp add: enc_alt_def no_end_def type_at_def)
next
  case (Cons p ps)
  then have IH: "no_end (enc_alt P ps)" "opens (enc_alt P ps)" "syms (enc_alt P ps) = map (gsym_of P) ps" by auto
  have p: "no_end (enc_piece P p)" "opens (enc_piece P p)" "enc_piece P p \<noteq> []" "syms (enc_piece P p) = [gsym_of P p]"
    using enc_piece_syms [of p P] Cons.prems by auto
  have eq: "enc_alt P (p # ps) = enc_piece P p @ enc_alt P ps" by (simp add: enc_alt_def)
  have "opens (enc_piece P p @ enc_alt P ps)" using p(2,3) by (cases "enc_piece P p") auto
  with p IH show ?case unfolding eq using syms_append [OF p(1) IH(2)] by simp
qed

lemma enc_alts_starts:
  assumes "pss \<noteq> []" and "\<forall>ps \<in> set pss. list_all piece_ok ps" and "R = pre @ enc_alts P pss @ [Elem GRE_END 0]"
  shows "map (\<lambda>j. syms (drop j R)) (alt_starts R (length pre)) = map (map (gsym_of P)) pss"
  using assms
proof (induction pss arbitrary: pre)
  case (Cons ps pss)
  have ends: "is_end_of_sequence (Elem GRE_ALT 0)" "is_end_of_sequence (Elem GRE_END 0)"
    by (simp_all add: is_end_of_sequence_def is_end_type_def)
  have ps: "no_end (enc_alt P ps)" "syms (enc_alt P ps) = map (gsym_of P) ps" using enc_alt_syms [of ps P] Cons.prems(2) by auto
  have split: "scan_to_end R (length pre) = length (pre @ enc_alt P ps)" "syms (drop (length pre) R) = map (gsym_of P) ps"
    if "drop (length pre) R = enc_alt P ps @ e # es" "is_end_of_sequence e" for e es
  proof -
    have "opens (e # es)" using that(2) by (auto simp: is_end_of_sequence_def is_end_type_def)
    then show "syms (drop (length pre) R) = map (gsym_of P) ps" using syms_append [OF ps(1)] ps(2) that by simp
    show "scan_to_end R (length pre) = length (pre @ enc_alt P ps)"
      using ps(1) that by (simp add: scan_to_end_def no_end_def takeWhile_append)
  qed
  show ?case
  proof (cases "pss = []")
    case True
    then have R: "R = pre @ enc_alt P ps @ [Elem GRE_END 0]" using Cons.prems(3) by simp
    then have "drop (length pre) R = enc_alt P ps @ Elem GRE_END 0 # []" by simp
    note s = split [OF this ends(2)]
    then show ?thesis using True R
      by (subst alt_starts.simps) (simp add: Let_def s type_at_def nth_append)
  next
    case False
    let ?pre = "pre @ enc_alt P ps @ [Elem GRE_ALT 0]"
    have R: "R = ?pre @ enc_alts P pss @ [Elem GRE_END 0]" using Cons.prems(3) False by (simp add: enc_alts_Cons)
    then have "drop (length pre) R = enc_alt P ps @ Elem GRE_ALT 0 # (enc_alts P pss @ [Elem GRE_END 0])" by simp
    note s = split [OF this ends(1)]
    have IH: "map (\<lambda>j. syms (drop j R)) (alt_starts R (length ?pre)) = map (map (gsym_of P)) pss"
      by (rule Cons.IH [OF False _ R]) (use Cons.prems(2) in simp)
    have t: "type_at R (length (pre @ enc_alt P ps)) = GRE_ALT" unfolding R by (simp add: type_at_def nth_append)
    have "alt_starts R (length pre) = length pre # alt_starts R (length ?pre)"
      by (subst alt_starts.simps) (simp only: Let_def s t, simp)
    then show ?thesis using IH s(2) by simp
  qed
qed simp

lemma enc_alts_alts:
  assumes "rules ! r = enc_alts P pss @ [Elem GRE_END 0]" and "pss \<noteq> []" and "\<forall>ps \<in> set pss. list_all piece_ok ps"
  shows "alts rules r = map (map (gsym_of P)) pss"
  using enc_alts_starts [OF assms(2,3), of "rules ! r" "[]" P] assms(1) by (simp add: alts_def)

lemma alt_text_ok: "alt_text t ps \<Longrightarrow> list_all piece_ok ps"
  by (induction rule: alt_text.induct) auto

lemma rhs_text_ok: "rhs_text t pss \<Longrightarrow> \<forall>ps \<in> set pss. list_all piece_ok ps"
  by (induction rule: rhs_text.induct) (auto dest: alt_text_ok)

text \<open>The alternates of a name of a formatted grammar.\<close>

lemma formatted_alts:
  assumes "list_all2 rule_line rs fs" and "rules_done P fs" and "(n, pss) \<in> set fs"
  shows "alts (p_rules P) (unat (id_of P n)) = map (map (gsym_of P)) pss" "unat (id_of P n) < length (p_rules P)"
    "symbols_map P n = Some (id_of P n)"
proof -
  have d: "n \<in> dom (symbols_map P)" "unat (id_of P n) < length (p_rules P)"
    "p_rules P ! unat (id_of P n) = enc_alts P pss @ [Elem GRE_END 0]"
    using assms(2,3) by (auto simp: rules_done_def)
  obtain i where "i < length fs" "fs ! i = (n, pss)" using assms(3) by (auto simp: in_set_conv_nth)
  with assms(1) have "rhs_text (snd (rs ! i)) pss" by (auto simp: list_all2_conv_all_nth rule_line_def)
  then show "alts (p_rules P) (unat (id_of P n)) = map (map (gsym_of P)) pss"
    using enc_alts_alts [OF d(3)] rhs_nonempty rhs_text_ok by blast
  show "unat (id_of P n) < length (p_rules P)" by (rule d(2))
  show "symbols_map P n = Some (id_of P n)" using d(1) by (auto simp: id_of_def)
qed

end
