(* ===== verification/Ac_Language.thy ===== *)
theory Ac_Language
  imports Gbnf_Parse
begin

section \<open>The languages of the delimiter grammars\<close>

text \<open>
  The emitted text read back: it parses, the engine accepts it, and its language is that of the automaton, the
  strings without a delimiter or up to the first one.
\<close>

subsection \<open>Names of states\<close>

lemma to_string_digits: "list_all is_digit_char (to_string n) \<and> to_string n \<noteq> []"
proof (induction n rule: to_string.induct)
  case (1 n)
  have d: "is_digit_char (of_nat (48 + k))" if "k < 10" for k
    using that by (simp add: is_digit_char_def word_le_nat_alt unat_of_nat take_bit_eq_mod flip: of_nat_add)
  then show ?case
    using 1 by (cases "n < 10") (simp_all add: to_string.simps [of n] del: of_nat_add)
qed

lemma digits_value_to_string: "digits_value (ds @ to_string n) = digits_value ds * 10 ^ length (to_string n) + n"
proof (induction n arbitrary: ds rule: to_string.induct)
  case (1 n)
  have d: "unat ((of_nat (48 + k) :: byte) - 48) = k" if "k < 10" for k
  proof -
    have "(of_nat (48 + k) :: byte) - 48 = of_nat k" by simp
    then show ?thesis using that by (simp add: unat_of_nat take_bit_eq_mod del: of_nat_add)
  qed
  have snoc: "digits_value (xs @ [b]) = 10 * digits_value xs + unat (b - 48)" for xs b by (simp add: digits_value_def)
  show ?case
  proof (cases "n < 10")
    case True
    then show ?thesis by (simp add: to_string.simps [of n] snoc d del: of_nat_add)
  next
    case False
    then have "digits_value (ds @ to_string n) = 10 * digits_value (ds @ to_string (n div 10)) + n mod 10"
      using snoc [of "ds @ to_string (n div 10)"] d [of "n mod 10"] by (simp add: to_string.simps [of n] del: of_nat_add)
    with 1 [OF False, of ds] False show ?thesis by (simp add: to_string.simps [of n] algebra_simps del: of_nat_add)
  qed
qed

lemma state_name_word: "word_name base \<Longrightarrow> word_name (state_name base q)"
  using to_string_digits [of q]
  by (auto simp: word_name_def state_name_def Let_def list_all_iff is_word_char_def is_digit_char_def)

lemma state_name_inj: "state_name base p = state_name base q \<Longrightarrow> p = q"
proof -
  have v: "digits_value (48 # to_string n) = n" "digits_value (to_string n) = n" for n
    using digits_value_to_string [of "[48]" n] digits_value_to_string [of "[]" n] by (simp_all add: digits_value_def)
  define num where "num n = (if length (to_string n) = 1 then 48 # to_string n else to_string n)" for n
  have "digits_value (num n) = n" for n using v [of n] by (simp add: num_def)
  then have inj: "num p = num q \<Longrightarrow> p = q" by metis
  have name: "state_name base n = (if n = 0 then base else base @ 45 # num n)" for n
    by (simp add: state_name_def num_def Let_def)
  assume "state_name base p = state_name base q"
  then show "p = q" using inj by (cases "p = 0"; cases "q = 0") (simp_all add: name)
qed

subsection \<open>The transitions of a state\<close>

definition bucket_rel :: "(nat \<times> u32 list) list \<Rightarrow> (nat \<times> u32) set" where
  "bucket_rel bs = {(d, c). \<exists>cs. (d, cs) \<in> set bs \<and> c \<in> set cs}"

lemma put_bucket_rel: "bucket_rel (put_bucket d c bs) = insert (d, c) (bucket_rel bs)"
  by (induction d c bs rule: put_bucket.induct) (auto simp: bucket_rel_def)

lemma put_bucket_nonempty:
  "\<forall>(d, cs) \<in> set bs. cs \<noteq> [] \<Longrightarrow> \<forall>(d, cs) \<in> set (put_bucket e c bs). cs \<noteq> []"
  by (induction e c bs rule: put_bucket.induct) auto

definition ac_goto :: "aho_corasick \<Rightarrow> nat \<Rightarrow> u32 \<Rightarrow> nat" where
  "ac_goto A q c = the (ac_next A q c)"

lemma ac_goto_ok:
  assumes "ac_ok A L ps" and "q < length L"
  shows "ac_next A q c = Some (ac_goto A q c)" "ac_goto A q c < length L"
    "L ! q = lsuf (set L) v \<Longrightarrow> L ! ac_goto A q c = lsuf (set L) (v @ [c])"
proof -
  from ac_next_ok [OF assms] obtain g where g: "ac_next A q c = Some g" "g < length L" "L ! g = lsuf (set L) (L ! q @ [c])" by blast
  have lab: "labelled (ac_trie A) L" using assms(1) by (simp add: ac_ok_def trie_for_def)
  show "ac_next A q c = Some (ac_goto A q c)" "ac_goto A q c < length L" using g by (simp_all add: ac_goto_def)
  show "L ! q = lsuf (set L) v \<Longrightarrow> L ! ac_goto A q c = lsuf (set L) (v @ [c])"
    using g lsuf_snoc [where w = v and c = c, OF nil_node [OF lab] labelledD(7) [OF lab]] by (simp add: ac_goto_def)
qed

lemma terminal_iff:
  assumes "ac_ok A L ps" and "q < length L" and "L ! q = lsuf (set L) v"
  shows "is_terminal A q \<longleftrightarrow> (\<exists>p \<in> set ps. suffix p v)"
proof -
  have "set ps \<subseteq> set L" using assms(1) by (simp add: ac_ok_def trie_for_def)
  then have "ac_match A ! q = longest ps v" using assms longest_lsuf [of ps "set L" v] by (simp add: ac_ok_def)
  then show ?thesis using longest_spec [of ps v] nth_mem [of _ ps] by (auto simp: is_terminal_def)
qed

definition trans_ok :: "aho_corasick \<Rightarrow> nat \<Rightarrow> u32 set \<Rightarrow> transitions \<Rightarrow> bool" where
  "trans_ok A q C tr \<longleftrightarrow> (case tr of (completing, buckets, specific) \<Rightarrow>
     set completing = {c \<in> C. is_terminal A (ac_goto A q c)}
     \<and> bucket_rel buckets = {(d, c). c \<in> C \<and> ac_goto A q c = d \<and> d \<noteq> 0 \<and> \<not> is_terminal A d}
     \<and> (\<forall>(d, cs) \<in> set buckets. cs \<noteq> [])
     \<and> set specific = {c \<in> C. ac_goto A q c \<noteq> 0 \<or> is_terminal A (ac_goto A q c)})"

lemma scan_chars_ok:
  assumes "ac_ok A L ps" and "q < length L"
  shows "\<exists>tr. for_each (scan_char A q) cs ([], [], []) = Some tr \<and> trans_ok A q (set cs) tr"
proof (induction cs rule: rev_induct)
  case Nil
  then show ?case by (simp add: trans_ok_def bucket_rel_def)
next
  case (snoc c cs)
  then obtain co bs sp where tr: "for_each (scan_char A q) cs ([], [], []) = Some (co, bs, sp)" "trans_ok A q (set cs) (co, bs, sp)"
    by (metis prod_cases3)
  note g = ac_goto_ok(1) [OF assms, of c]
  let ?d = "ac_goto A q c"
  have step: "for_each (scan_char A q) (cs @ [c]) ([], [], []) = scan_char A q c (co, bs, sp)"
    using tr(1) by (simp add: for_each_append split: option.split)
  consider (completing) "is_terminal A ?d" | (bucket) "\<not> is_terminal A ?d" "?d \<noteq> 0" | (root) "\<not> is_terminal A ?d" "?d = 0" by blast
  then show ?case
  proof cases
    case completing
    then show ?thesis using tr(2) unfolding step by (auto simp: scan_char_def g trans_ok_def)
  next
    case bucket
    have "trans_ok A q (set (cs @ [c])) (co, put_bucket ?d c bs, sp @ [c])"
      using tr(2) bucket put_bucket_nonempty [of bs ?d c] unfolding trans_ok_def
      by (auto simp: put_bucket_rel)
    then show ?thesis using bucket unfolding step by (simp add: scan_char_def g)
  next
    case root
    then show ?thesis using tr(2) unfolding step by (auto simp: scan_char_def g trans_ok_def)
  qed
qed

text \<open>The alphabet.\<close>

lemma alphabet_ok:
  assumes "ac_ok A L ps" and "ac_alphabet A = (\<Union>node \<in> set (tr_nodes (ac_trie A)). fst ` set (tn_children node))"
  shows "finite (ac_alphabet A)" "c \<in> ac_alphabet A \<Longrightarrow> \<exists>p \<in> set ps. c \<in> set p"
    "q < length L \<Longrightarrow> c \<notin> ac_alphabet A \<Longrightarrow> ac_goto A q c = 0"
proof -
  have T: "trie_for (ac_trie A) L ps" using assms(1) by (simp add: ac_ok_def)
  then have lab: "labelled (ac_trie A) L" by (simp add: trie_for_def)
  note L = labelledD [OF lab]
  show "finite (ac_alphabet A)" by (simp add: assms(2))
  have edge: "\<exists>v. child (ac_trie A) u c = Some v" if "u < length L" "c \<in> fst ` set (tn_children (tr_nodes (ac_trie A) ! u))" for u c
  proof -
    from that(2) obtain v where "(c, v) \<in> set (tn_children (tr_nodes (ac_trie A) ! u))" by auto
    then have "child (ac_trie A) u c = Some v" using L(6) [OF that(1)] by (simp add: child_def)
    then show ?thesis ..
  qed
  show "\<exists>p \<in> set ps. c \<in> set p" if "c \<in> ac_alphabet A"
  proof -
    obtain u where u: "u < length L" "c \<in> fst ` set (tn_children (tr_nodes (ac_trie A) ! u))"
    proof -
      from \<open>c \<in> ac_alphabet A\<close> obtain node where node: "node \<in> set (tr_nodes (ac_trie A))" "c \<in> fst ` set (tn_children node)"
        unfolding assms(2) by blast
      then obtain u where "u < length L" "tr_nodes (ac_trie A) ! u = node" using L(1) by (metis in_set_conv_nth)
      with node(2) show ?thesis using that by blast
    qed
    with edge obtain v where "child (ac_trie A) u c = Some v" by blast
    then have v: "v < length L" "L ! v = L ! u @ [c]" using L(5) [OF u(1)] by auto
    then have "L ! v \<in> set L" "L ! v \<noteq> []" by (metis nth_mem, simp)
    then obtain p where "p \<in> set ps" "prefix (L ! v) p" using T unfolding trie_for_def by blast
    with v(2) show ?thesis by (auto intro!: bexI [of _ p] dest: set_mono_prefix)
  qed
  show "ac_goto A q c = 0" if q: "q < length L" and c: "c \<notin> ac_alphabet A"
  proof (rule ccontr)
    assume ne: "ac_goto A q c \<noteq> 0"
    let ?g = "ac_goto A q c"
    have g: "?g < length L" by (rule ac_goto_ok(2) [OF assms(1) q])
    have "L ! q = lsuf (set L) (L ! q)" using lsuf_id [of "L ! q" "set L"] q by simp
    then have lg: "L ! ?g = lsuf (set L) (L ! q @ [c])" by (rule ac_goto_ok(3) [OF assms(1) q])
    have "L ! ?g \<noteq> []" using root_node [OF lab g] ne by simp
    moreover have "suffix (L ! ?g) (L ! q @ [c])" unfolding lg by (rule lsuf_suffix)
    ultimately obtain l where l: "L ! ?g = l @ [c]" by (cases "L ! ?g" rule: rev_cases) auto
    from node_parent [OF lab g ne] obtain u ch where u: "u < length L" "child (ac_trie A) u ch = Some ?g" "L ! ?g = L ! u @ [ch]" by blast
    then have "ch = c" using l by simp
    with u(2) have "(c, ?g) \<in> set (tn_children (tr_nodes (ac_trie A) ! u))" by (simp add: child_def map_of_SomeD)
    moreover have "tr_nodes (ac_trie A) ! u \<in> set (tr_nodes (ac_trie A))" using u(1) L(1) by simp
    ultimately have "c \<in> ac_alphabet A" unfolding assms(2) by force
    with c show False by simp
  qed
qed

subsection \<open>The emitted rules\<close>

lemma escape_word: "list_all is_word_char n \<Longrightarrow> escape_name r n = n"
  by (induction n arbitrary: r) auto

lemma put_rule_set:
  "name \<notin> fst ` set rs \<Longrightarrow> set (put_rule name rule rs) = insert (name, rule) (set rs)
     \<and> distinct (map fst (put_rule name rule rs)) = distinct (map fst rs)"
  by (induction name rule rs rule: put_rule.induct) auto

lemma add_fresh_rule:
  assumes "word_name name" and "name \<notin> fst ` set rules"
  shows "add_gbnf_rule name rule rules = (put_rule name rule rules, name)"
proof -
  have "map_of rules name = None" using assms(2) by (simp add: map_of_eq_None_iff)
  then show ?thesis using assms(1) by (simp add: add_gbnf_rule_def Let_def escape_word word_name_def)
qed

definition state_text :: "aho_corasick \<Rightarrow> byte list \<Rightarrow> rule_builder \<Rightarrow> nat \<Rightarrow> byte list" where
  "state_text A base build q = build (the (scan_state A q)) (state_name base)"

lemma emitted_rules:
  assumes "ac_ok A L ps" and "word_name base" and "set qs \<subseteq> {..<length L}" and "distinct qs"
  shows "\<exists>rules. for_each (state_rule A base build) qs [] = Some rules \<and> distinct (map fst rules)
    \<and> set rules = (\<lambda>q. (state_name base q, state_text A base build q)) ` {q \<in> set qs. \<not> is_terminal A q}"
  using assms(3,4)
proof (induction qs rule: rev_induct)
  case (snoc q qs)
  then obtain rules where rules: "for_each (state_rule A base build) qs [] = Some rules" "distinct (map fst rules)"
    "set rules = (\<lambda>q. (state_name base q, state_text A base build q)) ` {q \<in> set qs. \<not> is_terminal A q}" by auto
  show ?case
  proof (cases "is_terminal A q")
    case True
    then have "for_each (state_rule A base build) (qs @ [q]) [] = Some rules"
      using rules(1) by (simp add: for_each_append) (simp add: state_rule_def)
    moreover have "{p \<in> set (qs @ [q]). \<not> is_terminal A p} = {p \<in> set qs. \<not> is_terminal A p}" using True by auto
    ultimately show ?thesis using rules(2,3) by simp
  next
    case False
    from scan_chars_ok [OF assms(1)] snoc.prems(1) obtain tr where tr: "scan_state A q = Some tr"
      by (fastforce simp: scan_state_def)
    have fresh: "state_name base q \<notin> fst ` set rules"
      using snoc.prems(2) by (auto simp: rules(3) dest: state_name_inj)
    have add: "add_gbnf_rule (state_name base q) t rules = (put_rule (state_name base q) t rules, state_name base q)" for t
      by (rule add_fresh_rule [OF state_name_word [OF assms(2)] fresh])
    have "for_each (state_rule A base build) (qs @ [q]) [] = Some (put_rule (state_name base q) (state_text A base build q) rules)"
      using rules(1) False tr add by (simp add: for_each_append) (simp add: state_rule_def state_text_def)
    with put_rule_set [OF fresh, of "state_text A base build q"] rules False show ?thesis by auto
  qed
qed simp

subsection \<open>The alternates of the emitted rules\<close>

definition excluding_form :: "byte list \<Rightarrow> transitions \<Rightarrow> piece list list" where
  "excluding_form base tr = (case tr of (completing, buckets, specific) \<Rightarrow>
     [] # map (\<lambda>(d, cs). [Chars False cs, Nonterm (state_name base d)]) buckets
       @ [[Chars True specific, Nonterm base]])"

definition including_form :: "byte list \<Rightarrow> transitions \<Rightarrow> piece list list" where
  "including_form base tr = (case tr of (completing, buckets, specific) \<Rightarrow>
     (if completing \<noteq> [] then [[Chars False completing]] else [])
       @ map (\<lambda>(d, cs). [Chars False cs, Nonterm (state_name base d)]) buckets
       @ [[Chars True specific, Nonterm base]])"

lemma not_word_space [simp]: "\<not> is_word_char 32" "\<not> is_word_char 0"
  by (simp_all add: is_word_char_def is_digit_char_def)

lemma alt_text_trailing: "alt_text t ps \<Longrightarrow> alt_text (t @ [32]) ps"
proof (induction rule: alt_text.induct)
  case (piece p t ps)
  then have "\<not> is_word_char (peek (t @ [32]))" by (cases t) auto
  from alt_text.piece [OF piece.hyps(1) piece.IH this] show ?case by simp
qed (auto intro: alt_text.intros)

lemma alt_text_class: "piece_ok (Chars neg cs) \<Longrightarrow> alt_text (gbnf_char_class cs neg) [Chars neg cs]"
  using alt_text.piece [of "Chars neg cs" "[]" "[]"] alt_text.empty by (simp add: piece_text_def)

lemma alt_text_class_name:
  assumes "piece_ok (Chars neg cs)" and "word_name n"
  shows "alt_text (gbnf_char_class cs neg @ [32] @ n) [Chars neg cs, Nonterm n]"
proof -
  have "alt_text n [Nonterm n]"
    using alt_text.piece [of "Nonterm n" "[]" "[]"] alt_text.empty assms(2) by (simp add: piece_text_def piece_ok_def word_name_def)
  then have "alt_text (32 # n) [Nonterm n]" by (rule alt_text.space)
  from alt_text.piece [OF assms(1) this] show ?thesis by (simp add: piece_text_def)
qed

lemma rhs_text_space: "rhs_text t pss \<Longrightarrow> rhs_text (32 # t) pss"
proof (induction rule: rhs_text.induct)
  case (alt t ps ts pss)
  from rhs_text.alt [OF alt_text.space [OF alt.hyps(1)] alt.hyps(2)] show ?case by simp
qed (auto intro: rhs_text.intros alt_text.intros)

lemma joined_rhs:
  assumes "list_all2 alt_text ts pss" and "pss \<noteq> []" and "last pss \<noteq> []"
  shows "rhs_text (hd ts @ concat (map (\<lambda>a. [32, 124, 32] @ a) (tl ts))) pss"
  using assms
proof (induction ts pss rule: list_all2_induct)
  case (Cons t ts ps pss)
  show ?case
  proof (cases ts)
    case Nil
    with Cons show ?thesis by (auto intro: rhs_text.single)
  next
    case ts: (Cons t' ts')
    with Cons have "rhs_text (hd ts @ concat (map (\<lambda>a. [32, 124, 32] @ a) (tl ts))) pss" by (cases pss) auto
    from rhs_text.alt [OF alt_text_trailing [OF Cons.hyps(1)] rhs_text_space [OF this]] ts show ?thesis by simp
  qed
qed simp

text \<open>What the transitions of a state offer when no delimiter contains the character 94 (a caret).\<close>

lemma state_pieces:
  assumes "ac_ok A L ps" and "q < length L" and "scan_state A q = Some (co, bs, sp)" and "finite (ac_alphabet A)"
    and "94 \<notin> ac_alphabet A" and "c \<in> ac_alphabet A" and "ac_goto A q c \<noteq> 0 \<or> is_terminal A (ac_goto A q c)" and "word_name base"
  shows "co = [] \<or> piece_ok (Chars False co)" "(d, cs) \<in> set bs \<Longrightarrow> piece_ok (Chars False cs)" "piece_ok (Chars True sp)"
    "trans_ok A q (ac_alphabet A) (co, bs, sp)"
proof -
  from scan_chars_ok [OF assms(1,2), of "sorted_list_of_set (ac_alphabet A)"] assms(3,4)
  show T: "trans_ok A q (ac_alphabet A) (co, bs, sp)" by (auto simp: scan_state_def)
  have "set co \<subseteq> ac_alphabet A" using T by (auto simp: trans_ok_def)
  then have "co \<noteq> [] \<Longrightarrow> hd co \<noteq> 94" using assms(5) by (cases co) auto
  then show "co = [] \<or> piece_ok (Chars False co)" by (auto simp: piece_ok_def)
  show "piece_ok (Chars False cs)" if b: "(d, cs) \<in> set bs"
  proof -
    have ne: "cs \<noteq> []" using T b by (auto simp: trans_ok_def)
    then have "(d, hd cs) \<in> bucket_rel bs" using b by (auto simp: bucket_rel_def)
    then have "hd cs \<in> ac_alphabet A" using T by (auto simp: trans_ok_def)
    with ne assms(5) show ?thesis by (auto simp: piece_ok_def)
  qed
  have "c \<in> set sp" using T assms(6,7) by (auto simp: trans_ok_def)
  then show "piece_ok (Chars True sp)" by (auto simp: piece_ok_def)
qed

lemma excluding_text:
  assumes "\<And>d cs. (d, cs) \<in> set bs \<Longrightarrow> piece_ok (Chars False cs)" and "piece_ok (Chars True sp)" and "word_name base"
  shows "rhs_text (excluding_rule (co, bs, sp) (state_name base)) (excluding_form base (co, bs, sp))
    \<and> peek (excluding_rule (co, bs, sp) (state_name base)) = 124"
proof -
  let ?text = "\<lambda>bs. concat (map (\<lambda>(d, chars). [32] @ gbnf_char_class chars False @ [32] @ state_name base d @ [32, 124]) bs)
      @ [32] @ gbnf_char_class sp True @ [32] @ state_name base 0"
  let ?form = "\<lambda>bs. map (\<lambda>(d, cs). [Chars False cs, Nonterm (state_name base d)]) bs @ [[Chars True sp, Nonterm base]]"
  have "rhs_text (?text bs) (?form bs)"
    using assms(1)
  proof (induction bs)
    case Nil
    have "alt_text (gbnf_char_class sp True @ [32] @ base) [Chars True sp, Nonterm base]"
      by (rule alt_text_class_name [OF assms(2,3)])
    from rhs_text.single [OF alt_text.space [OF this]] show ?case by (simp add: state_name_def)
  next
    case (Cons b bs)
    obtain d cs where b: "b = (d, cs)" by force
    have "piece_ok (Chars False cs)" using Cons.prems b by auto
    note alt = alt_text_trailing [OF alt_text.space [OF alt_text_class_name [OF this state_name_word [OF assms(3), of d]]]]
    have "rhs_text (?text bs) (?form bs)" using Cons.IH Cons.prems by auto
    from rhs_text.alt [OF alt this] show ?case by (simp add: b)
  qed
  from rhs_text.alt [OF alt_text.empty this] show ?thesis by (simp add: excluding_rule_def excluding_form_def)
qed

lemma including_text:
  assumes "co = [] \<or> piece_ok (Chars False co)" and "\<And>d cs. (d, cs) \<in> set bs \<Longrightarrow> piece_ok (Chars False cs)"
    and "piece_ok (Chars True sp)" and "word_name base"
  shows "rhs_text (including_rule (co, bs, sp) (state_name base)) (including_form base (co, bs, sp))
    \<and> peek (including_rule (co, bs, sp) (state_name base)) = 91"
proof -
  let ?ts = "(if co \<noteq> [] then [gbnf_char_class co False] else [])
      @ map (\<lambda>(d, chars). gbnf_char_class chars False @ [32] @ state_name base d) bs
      @ [gbnf_char_class sp True @ [32] @ state_name base 0]"
  have "list_all2 alt_text (map (\<lambda>(d, chars). gbnf_char_class chars False @ [32] @ state_name base d) bs)
      (map (\<lambda>(d, cs). [Chars False cs, Nonterm (state_name base d)]) bs)"
    using assms(2) state_name_word [OF assms(4)]
    by (auto simp: list_all2_conv_all_nth split: prod.split intro!: alt_text_class_name [simplified])
      (metis nth_mem)
  moreover have "alt_text (gbnf_char_class sp True @ [32] @ state_name base 0) [Chars True sp, Nonterm base]"
    using alt_text_class_name [OF assms(3,4)] by (simp add: state_name_def)
  ultimately have "list_all2 alt_text ?ts (including_form base (co, bs, sp))"
    using assms(1) alt_text_class by (auto simp: including_form_def intro!: list_all2_appendI)
  from joined_rhs [OF this] have "rhs_text (including_rule (co, bs, sp) (state_name base)) (including_form base (co, bs, sp))"
    by (simp add: including_rule_def including_form_def Let_def)
  moreover have "peek (hd ?ts) = 91" by (cases bs) (auto simp: gbnf_char_class_def split: prod.split)
  then have "peek (including_rule (co, bs, sp) (state_name base)) = 91"
    by (cases "hd ?ts") (simp_all add: including_rule_def Let_def)
  ultimately show ?thesis ..
qed

subsection \<open>A grammar with one rule per state\<close>

text \<open>Delimiters the emitted grammar is meant for: some, none of them empty, none with a caret.\<close>

definition good_delims :: "byte list list \<Rightarrow> bool" where
  "good_delims strings \<longleftrightarrow> strings \<noteq> [] \<and> (\<forall>s \<in> set strings. word_symbols s 0 \<noteq> [] \<and> 94 \<notin> set (word_symbols s 0))
     \<and> length (tr_nodes (trie_of_words strings)) < 2 ^ 32"

text \<open>The automaton of such delimiters: some character leaves the root from every state.\<close>

definition delim_automaton :: "byte list list \<Rightarrow> aho_corasick \<Rightarrow> u32 list list \<Rightarrow> bool" where
  "delim_automaton strings A L \<longleftrightarrow>
     make_ac (trie_of_words strings) = Some A \<and> ac_trie A = trie_of_words strings
     \<and> ac_ok A L (collect_words (map (\<lambda>w. word_symbols w 0) strings))
     \<and> length (tr_nodes (trie_of_words strings)) = length L \<and> 0 < length L \<and> L ! 0 = [] \<and> \<not> is_terminal A 0
     \<and> finite (ac_alphabet A) \<and> 94 \<notin> ac_alphabet A
     \<and> (\<forall>q < length L. \<forall>c. c \<notin> ac_alphabet A \<longrightarrow> ac_goto A q c = 0)
     \<and> (\<exists>c \<in> ac_alphabet A. \<forall>q < length L. ac_goto A q c \<noteq> 0)"

lemma delimiter_automaton:
  assumes "good_delims strings"
  shows "\<exists>A L. delim_automaton strings A L"
proof -
  let ?ps = "collect_words (map (\<lambda>w. word_symbols w 0) strings)"
  obtain L where T: "trie_for (trie_of_words strings) L ?ps"
    using trie_of_symbols_for [of "map (\<lambda>w. word_symbols w 0) strings"] by (auto simp: trie_of_words_symbols)
  from make_ac_ok [OF T] obtain A where A: "make_ac (trie_of_words strings) = Some A" "ac_trie A = trie_of_words strings" "ac_ok A L ?ps"
    by blast
  have alph: "ac_alphabet A = (\<Union>node \<in> set (tr_nodes (ac_trie A)). fst ` set (tn_children node))"
    using A(1) by (simp add: make_ac_def Let_def del: bfs.simps split: option.split_asm prod.split_asm) (drule sym, simp)
  have lab: "labelled (trie_of_words strings) L" and sub: "set ?ps \<subseteq> set L" using T by (simp_all add: trie_for_def)
  note L = labelledD [OF lab]
  have ps: "p \<noteq> []" "94 \<notin> set p" if "p \<in> set ?ps" for p
    using that assms(1) by (auto simp: collect_words_set good_delims_def)
  note al = alphabet_ok [OF A(3) alph]
  have caret: "94 \<notin> ac_alphabet A" using al(2) ps(2) by blast
  have root: "\<not> is_terminal A 0" using terminal_iff [OF A(3) L(2), of "[]"] L(2,3) ps(1) by auto
  obtain p where p: "p \<in> set ?ps" using assms(1) by (cases strings) (auto simp: collect_words_set good_delims_def)
  obtain c cs where pc: "p = c # cs" using ps(1) [OF p] by (cases p) auto
  have c_node: "[c] \<in> set L" using prefix_closed [OF lab, of "[c]" p] sub p pc by auto
  have go: "ac_goto A q c \<noteq> 0" if q: "q < length L" for q
  proof -
    have "L ! q = lsuf (set L) (L ! q)" using lsuf_id [of "L ! q" "set L"] q by simp
    then have "L ! ac_goto A q c = lsuf (set L) (L ! q @ [c])" by (rule ac_goto_ok(3) [OF A(3) q])
    moreover have "suffix [c] (lsuf (set L) (L ! q @ [c]))" by (rule lsuf_max [OF c_node]) simp
    ultimately show ?thesis using L(3) by (intro notI) simp
  qed
  have c: "c \<in> ac_alphabet A" using al(3) [OF L(2), of c] go [OF L(2)] by blast
  have "\<exists>c \<in> ac_alphabet A. \<forall>q < length L. ac_goto A q c \<noteq> 0" using c go by blast
  with A L(1,2,3) root al(1) caret al(3) show ?thesis
    unfolding delim_automaton_def by (intro exI [of _ A] exI [of _ L] conjI) blast+
qed

lemma delim_automatonD:
  assumes "delim_automaton strings A L"
  shows "make_ac (trie_of_words strings) = Some A" "ac_trie A = trie_of_words strings"
    "ac_ok A L (collect_words (map (\<lambda>w. word_symbols w 0) strings))"
    "length (tr_nodes (trie_of_words strings)) = length L" "0 < length L" "L ! 0 = []" "\<not> is_terminal A 0"
    "finite (ac_alphabet A)" "94 \<notin> ac_alphabet A"
    "q < length L \<Longrightarrow> c \<notin> ac_alphabet A \<Longrightarrow> ac_goto A q c = 0"
    "\<exists>c \<in> ac_alphabet A. \<forall>q < length L. ac_goto A q c \<noteq> 0"
  using assms by (simp_all add: delim_automaton_def)

lemma bucket_target:
  assumes "trans_ok A q C (co, bs, sp)" and "(d, cs) \<in> set bs"
  shows "cs \<noteq> [] \<and> \<not> is_terminal A d \<and> (\<exists>c \<in> C. ac_goto A q c = d)"
proof -
  have "cs \<noteq> []" using assms by (auto simp: trans_ok_def)
  then have "(d, hd cs) \<in> bucket_rel bs" using assms(2) by (auto simp: bucket_rel_def)
  then show ?thesis using assms(1) \<open>cs \<noteq> []\<close> by (auto simp: trans_ok_def)
qed

text \<open>Rules whose alternates are empty or start with a character class have no left recursion.\<close>

definition class_first :: "grammar_rules \<Rightarrow> bool" where
  "class_first rules \<longleftrightarrow> (\<forall>r < length rules. \<forall>alt \<in> set (alts rules r). alt = [] \<or> (\<exists>b rs ss. alt = Cls b rs # ss))"

lemma class_first_advancing:
  assumes "wf_rules rules" and "class_first rules"
  shows "has_left_recursion rules = Some False" "explicit_empty rules"
proof -
  have no_edge: "\<not> left_edge rules r r'" for r r'
  proof
    assume e: "left_edge rules r r'"
    then have r: "r < length rules" by (simp add: left_edge_def)
    with e left_edge_alts [OF assms(1) r] obtain alt where "alt \<in> set (alts rules r)" "r' \<in> set (edge (empty_alt rules) alt)" by blast
    moreover from this(1) assms(2) r have "alt = [] \<or> (\<exists>b rs ss. alt = Cls b rs # ss)" unfolding class_first_def by blast
    ultimately show False by auto
  qed
  from assms(1) show "has_left_recursion rules = Some False"
  proof (cases rule: has_left_recursion_cases)
    case (recursive r)
    then show ?thesis using no_edge by (meson tranclpD)
  qed
  show "explicit_empty rules"
    unfolding explicit_empty_def
  proof (intro allI impI)
    fix r assume r: "r < length rules" and "gen rules [Ref r] []"
    then obtain alt where "alt \<in> set (alts rules r)" "gen rules (alt @ []) []" unfolding gen_Ref_alts by blast
    moreover from this(1) assms(2) r have "alt = [] \<or> (\<exists>b rs ss. alt = Cls b rs # ss)" unfolding class_first_def by blast
    ultimately show "[] \<in> set (alts rules r)" by (auto simp: gen_Cls_eval simp del: gen_Cls_iff)
  qed
qed

text \<open>The parsed rules: one per state that is not terminal.\<close>

definition state_rules :: "(byte list \<Rightarrow> transitions \<Rightarrow> piece list list) \<Rightarrow> aho_corasick \<Rightarrow> u32 list list \<Rightarrow> byte list \<Rightarrow> parser \<Rightarrow> bool" where
  "state_rules form A L base P \<longleftrightarrow>
     (\<forall>q < length L. \<not> is_terminal A q \<longrightarrow>
        symbols_map P (state_name base q) = Some (id_of P (state_name base q))
        \<and> unat (id_of P (state_name base q)) < length (p_rules P)
        \<and> (\<exists>tr. trans_ok A q (ac_alphabet A) tr \<and>
              alts (p_rules P) (unat (id_of P (state_name base q))) = map (map (gsym_of P)) (form base tr)))"

text \<open>What both builders of rules promise: the text of a rule reads as its form, whose alternates start with a
  character class and refer to the root and to the targets of the buckets.\<close>

locale state_grammar =
  fixes build :: rule_builder and form :: "byte list \<Rightarrow> transitions \<Rightarrow> piece list list"
  assumes reads: "co = [] \<or> piece_ok (Chars False co) \<Longrightarrow> (\<And>d cs. (d, cs) \<in> set bs \<Longrightarrow> piece_ok (Chars False cs)) \<Longrightarrow>
      piece_ok (Chars True sp) \<Longrightarrow> word_name base \<Longrightarrow>
      rhs_text (build (co, bs, sp) (state_name base)) (form base (co, bs, sp))
        \<and> (peek (build (co, bs, sp) (state_name base)) = 124 \<or> peek (build (co, bs, sp) (state_name base)) = 91)"
    and closed: "set (rhs_names (form base (co, bs, sp))) \<subseteq> insert base (state_name base ` fst ` set bs)"
    and starts: "alt \<in> set (form base tr) \<Longrightarrow> alt = [] \<or> (\<exists>neg cs ps. alt = Chars neg cs # ps)"
begin

lemma state_transitions:
  assumes "delim_automaton strings A L" and "word_name base"
  obtains tr where "\<And>q. q < length L \<Longrightarrow> scan_state A q = Some (tr q)"
    and "\<And>q. q < length L \<Longrightarrow> trans_ok A q (ac_alphabet A) (tr q)"
    and "\<And>q. q < length L \<Longrightarrow> rule_line (state_name base q, build (tr q) (state_name base)) (state_name base q, form base (tr q))"
proof -
  note D = delim_automatonD [OF assms(1)]
  obtain c where c: "c \<in> ac_alphabet A" "\<And>q. q < length L \<Longrightarrow> ac_goto A q c \<noteq> 0" using D(11) by blast
  have "\<exists>tr. q < length L \<longrightarrow> scan_state A q = Some tr" for q
    using scan_chars_ok [OF D(3), of q "sorted_list_of_set (ac_alphabet A)"] by (auto simp: scan_state_def)
  then obtain tr where tr: "\<And>q. q < length L \<Longrightarrow> scan_state A q = Some (tr q)" by metis
  have "trans_ok A q (ac_alphabet A) (tr q)"
    "rule_line (state_name base q, build (tr q) (state_name base)) (state_name base q, form base (tr q))" if q: "q < length L" for q
  proof -
    obtain co bs sp where t: "tr q = (co, bs, sp)" by (metis prod_cases3)
    note S = state_pieces [OF D(3) q tr [OF q, unfolded t] D(8,9) c(1) _ assms(2)]
    show "trans_ok A q (ac_alphabet A) (tr q)" unfolding t using S(4) c(2) [OF q] by blast
    have "rhs_text (build (tr q) (state_name base)) (form base (tr q))
        \<and> (peek (build (tr q) (state_name base)) = 124 \<or> peek (build (tr q) (state_name base)) = 91)"
      unfolding t using S(1-3) c(2) [OF q] by (intro reads assms(2)) blast+
    with state_name_word [OF assms(2)]
    show "rule_line (state_name base q, build (tr q) (state_name base)) (state_name base q, form base (tr q))"
      by (simp add: rule_line_def)
  qed
  with tr that show ?thesis by blast
qed

lemma form_names:
  assumes "trans_ok A q C tr" and "m \<in> set (rhs_names (form base tr))"
  shows "m = state_name base 0 \<or> (\<exists>c \<in> C. \<not> is_terminal A (ac_goto A q c) \<and> m = state_name base (ac_goto A q c))"
proof -
  obtain co bs sp where t: "tr = (co, bs, sp)" by (metis prod_cases3)
  have f0: "state_name base 0 = base" by (simp add: state_name_def)
  from assms(2) have "m \<in> set (rhs_names (form base (co, bs, sp)))" unfolding t .
  then have "m \<in> insert base (state_name base ` fst ` set bs)" by (rule subsetD [OF closed])
  then consider "m = base" | d cs where "(d, cs) \<in> set bs" "m = state_name base d" by auto
  then show ?thesis
  proof cases
    case 2
    with bucket_target [OF assms(1) [unfolded t] 2(1)] show ?thesis by blast
  qed (simp add: f0)
qed

lemma parsed_states:
  assumes "good_delims strings" and "delim_automaton strings A L" and "word_name base"
  shows "\<exists>rules P. gbnf_ac_grammar base strings build [] = Some (rules, base)
    \<and> parse vocab (format_grammar rules) = Some (Inr P) \<and> length (p_symbols P) < 2 ^ 32
    \<and> has_left_recursion (p_rules P) = Some False \<and> explicit_empty (p_rules P) \<and> state_rules form A L base P"
proof -
  let ?f = "state_name base"
  note D = delim_automatonD [OF assms(2)]
  obtain tr where tr: "\<And>q. q < length L \<Longrightarrow> scan_state A q = Some (tr q)"
    and trans: "\<And>q. q < length L \<Longrightarrow> trans_ok A q (ac_alphabet A) (tr q)"
    and line: "\<And>q. q < length L \<Longrightarrow> rule_line (?f q, build (tr q) ?f) (?f q, form base (tr q))"
    using state_transitions [OF assms(2,3)] by blast
  have range: "set [0..<length L] \<subseteq> {..<length L}" by auto
  from emitted_rules [OF D(3) assms(3) range distinct_upt, of build] obtain rules where
    rules: "for_each (state_rule A base build) [0..<length L] [] = Some rules" "distinct (map fst rules)"
    "set rules = (\<lambda>q. (?f q, state_text A base build q)) ` {q \<in> set [0..<length L]. \<not> is_terminal A q}" by blast
  let ?Q = "{q. q < length L \<and> \<not> is_terminal A q}"
  have rules3: "set rules = (\<lambda>q. (?f q, build (tr q) ?f)) ` ?Q"
    unfolding rules(3) using tr by (intro image_cong) (auto simp: state_text_def)
  have out: "gbnf_ac_grammar base strings build [] = Some (rules, base)"
    using D(1,2,4,7) rules(1) by (simp add: gbnf_ac_grammar_def state_name_def)
  have inj: "inj ?f" by (rule injI) (rule state_name_inj)
  define fs where "fs = map (\<lambda>r. (fst r, form base (tr (the_inv ?f (fst r))))) rules"
  have set_fs: "set fs = (\<lambda>q. (?f q, form base (tr q))) ` ?Q"
    unfolding fs_def set_map rules3 image_image by (simp add: the_inv_f_f [OF inj])
  have keys: "map fst fs = map fst rules" by (simp add: fs_def)
  have "\<forall>r \<in> set rules. rule_line r (fst r, form base (tr (the_inv ?f (fst r))))"
    unfolding rules3 using line by (simp add: the_inv_f_f [OF inj])
  then have lines: "list_all2 rule_line rules fs" unfolding fs_def list_all2_map2 by (simp add: list_all2_same)
  have len: "length fs < 2 ^ 32"
  proof -
    have "length fs = card (fst ` set rules)" using distinct_card [OF rules(2)] by (simp add: fs_def)
    also have "\<dots> \<le> card (?f ` {..<length L})" unfolding rules3 by (intro card_mono) (auto simp: image_image)
    also have "\<dots> \<le> length L" using card_image_le [of "{..<length L}" ?f] by simp
    also have "\<dots> < 2 ^ 32" using assms(1) D(4) by (simp add: good_delims_def)
    finally show ?thesis .
  qed
  have closed_fs: "\<forall>(n, pss) \<in> set fs. set (rhs_names pss) \<subseteq> fst ` set fs"
  proof (clarify)
    fix n pss m assume "(n, pss) \<in> set fs" and m: "m \<in> set (rhs_names pss)"
    then obtain q where q: "q \<in> ?Q" "pss = form base (tr q)" unfolding set_fs by auto
    from form_names [OF trans, of q m] q m have "m = ?f 0 \<or> (\<exists>c. \<not> is_terminal A (ac_goto A q c) \<and> m = ?f (ac_goto A q c))"
      by auto
    with D(5,7) ac_goto_ok(2) [OF D(3), of q] q(1) show "m \<in> fst ` set fs" unfolding set_fs image_image by auto
  qed
  from parse_formatted [OF lines _ len closed_fs, of vocab] rules(2) keys obtain P where
    P: "parse vocab (format_grammar rules) = Some (Inr P)" "length (p_symbols P) < 2 ^ 32" "rules_done P fs"
    "\<forall>i < length (p_rules P). \<exists>n \<in> fst ` set fs. unat (id_of P n) = i" by auto
  have state: "symbols_map P (?f q) = Some (id_of P (?f q)) \<and> unat (id_of P (?f q)) < length (p_rules P)
      \<and> alts (p_rules P) (unat (id_of P (?f q))) = map (map (gsym_of P)) (form base (tr q))" if "q \<in> ?Q" for q
    using formatted_alts [OF lines P(3), of "?f q" "form base (tr q)"] that unfolding set_fs by auto
  have "class_first (p_rules P)"
    unfolding class_first_def
  proof (intro allI impI ballI)
    fix r alt assume r: "r < length (p_rules P)" and alt: "alt \<in> set (alts (p_rules P) r)"
    from P(4) r obtain q where q: "q \<in> ?Q" "unat (id_of P (?f q)) = r" unfolding set_fs image_image by auto
    with state alt obtain ps where "ps \<in> set (form base (tr q))" "alt = map (gsym_of P) ps" by auto
    with starts [of ps base "tr q"] show "alt = [] \<or> (\<exists>b rs ss. alt = Cls b rs # ss)" by (auto simp: gsym_of_def)
  qed
  from class_first_advancing [OF _ this] parsed_rules_wf [OF P(1,2)]
  have "has_left_recursion (p_rules P) = Some False" "explicit_empty (p_rules P)" by blast+
  moreover have "state_rules form A L base P" unfolding state_rules_def using state trans by blast
  ultimately show ?thesis using out P(1,2) by blast
qed

end

end
