(* ===== verification/Ac_Generates.thy ===== *)
theory Ac_Generates
  imports Ac_Language
begin

section \<open>The languages of the delimiter grammars\<close>

text \<open>
  The rules that parse from the emitted text follow the automaton, so the engine that reads them accepts the
  strings without a delimiter, or up to the end of the first one.
\<close>

subsection \<open>One step of the automaton\<close>

text \<open>What a rule with one alternate per transition accepts from state \<open>q\<close>: the empty string if \<open>e\<close>, a string
  that ends as the automaton enters a terminal state if \<open>t\<close>.\<close>

fun ac_accepts :: "aho_corasick \<Rightarrow> bool \<Rightarrow> bool \<Rightarrow> nat \<Rightarrow> u32 list \<Rightarrow> bool" where
  "ac_accepts A e t q [] = e"
| "ac_accepts A e t q (c # w) =
     (if is_terminal A (ac_goto A q c) then t \<and> w = [] else ac_accepts A e t (ac_goto A q c) w)"

lemma in_single_ranges: "in_ranges (map (\<lambda>c. (c, c)) cs) c \<longleftrightarrow> c \<in> set cs"
  by (auto simp: in_ranges_def)

lemma gen_piece:
  "gen rules (map (gsym_of P) [Chars neg cs]) w \<longleftrightarrow> (\<exists>c. w = [c] \<and> (c \<in> set cs) = (\<not> neg))"
  "gen rules (map (gsym_of P) [Chars neg cs, Nonterm n]) w \<longleftrightarrow>
     (\<exists>c v. w = c # v \<and> (c \<in> set cs) = (\<not> neg) \<and> gen rules [gsym_of P (Nonterm n)] v)"
  by (cases w; auto simp: gsym_of_def in_single_ranges gen_Cls_eval simp del: gen_Cls_iff)+

text \<open>The transitions of a state on one character.\<close>

definition follows :: "grammar_rules \<Rightarrow> parser \<Rightarrow> byte list \<Rightarrow> nat \<Rightarrow> u32 list \<Rightarrow> bool" where
  "follows rules P base d v \<longleftrightarrow> gen rules [gsym_of P (Nonterm (state_name base d))] v"

lemma transition_alts:
  assumes "trans_ok A q C (co, bs, sp)" and "\<forall>c. c \<notin> C \<longrightarrow> ac_goto A q c = 0" and "\<not> is_terminal A 0"
  shows "c \<in> set co \<longleftrightarrow> is_terminal A (ac_goto A q c)"
    "(\<exists>d cs. (d, cs) \<in> set bs \<and> c \<in> set cs \<and> Q d) \<longleftrightarrow>
      ac_goto A q c \<noteq> 0 \<and> \<not> is_terminal A (ac_goto A q c) \<and> Q (ac_goto A q c)"
    "c \<in> set sp \<longleftrightarrow> ac_goto A q c \<noteq> 0"
proof -
  have "is_terminal A (ac_goto A q c) \<Longrightarrow> 0 < ac_goto A q c" using assms(3) by (cases "ac_goto A q c = 0") auto
  then show "c \<in> set co \<longleftrightarrow> is_terminal A (ac_goto A q c)" "c \<in> set sp \<longleftrightarrow> ac_goto A q c \<noteq> 0"
    using assms(1) assms(2) [rule_format, of c] by (auto simp: trans_ok_def)
  have "(\<exists>d cs. (d, cs) \<in> set bs \<and> c \<in> set cs \<and> Q d) \<longleftrightarrow> (\<exists>d. (d, c) \<in> bucket_rel bs \<and> Q d)"
    by (auto simp: bucket_rel_def)
  also have "\<dots> \<longleftrightarrow> ac_goto A q c \<noteq> 0 \<and> \<not> is_terminal A (ac_goto A q c) \<and> Q (ac_goto A q c)"
    using assms(1,2) by (auto simp: trans_ok_def)
  finally show "(\<exists>d cs. (d, cs) \<in> set bs \<and> c \<in> set cs \<and> Q d) \<longleftrightarrow>
      ac_goto A q c \<noteq> 0 \<and> \<not> is_terminal A (ac_goto A q c) \<and> Q (ac_goto A q c)" .
qed

lemma bucket_alts:
  "(\<exists>alt \<in> set (map (\<lambda>(d, cs). [Chars False cs, Nonterm (state_name base d)]) bs). gen rules (map (gsym_of P) alt) w) \<longleftrightarrow>
   (\<exists>c v. w = c # v \<and> (\<exists>d cs. (d, cs) \<in> set bs \<and> c \<in> set cs \<and> follows rules P base d v))"
proof -
  have "(\<exists>alt \<in> set (map (\<lambda>(d, cs). [Chars False cs, Nonterm (state_name base d)]) bs). gen rules (map (gsym_of P) alt) w)
    \<longleftrightarrow> (\<exists>(d, cs) \<in> set bs. gen rules (map (gsym_of P) [Chars False cs, Nonterm (state_name base d)]) w)"
    by (simp add: case_prod_unfold)
  also have "\<dots> \<longleftrightarrow> (\<exists>c v. w = c # v \<and> (\<exists>d cs. (d, cs) \<in> set bs \<and> c \<in> set cs \<and> follows rules P base d v))"
    unfolding gen_piece follows_def by auto
  finally show ?thesis .
qed

lemma default_alt:
  "gen rules (map (gsym_of P) [Chars True sp, Nonterm base]) w \<longleftrightarrow> (\<exists>c v. w = c # v \<and> c \<notin> set sp \<and> follows rules P base 0 v)"
  unfolding gen_piece follows_def by (simp add: state_name_def)

lemma excluding_step:
  assumes "trans_ok A q C tr" and "\<forall>c. c \<notin> C \<longrightarrow> ac_goto A q c = 0" and "\<not> is_terminal A 0"
  shows "(\<exists>alt \<in> set (excluding_form base tr). gen rules (map (gsym_of P) alt) w) \<longleftrightarrow>
    (case w of [] \<Rightarrow> True
     | c # v \<Rightarrow> if is_terminal A (ac_goto A q c) then False \<and> v = [] else follows rules P base (ac_goto A q c) v)"
proof -
  obtain co bs sp where t: "tr = (co, bs, sp)" by (metis prod_cases3)
  note T = transition_alts [OF assms(1) [unfolded t] assms(2,3)]
  have "gen rules (map (gsym_of P) []) w \<longleftrightarrow> w = []" by simp
  then have "(\<exists>alt \<in> set (excluding_form base tr). gen rules (map (gsym_of P) alt) w) \<longleftrightarrow> w = []
      \<or> (\<exists>c v. w = c # v \<and> ac_goto A q c \<noteq> 0 \<and> \<not> is_terminal A (ac_goto A q c) \<and> follows rules P base (ac_goto A q c) v)
      \<or> (\<exists>c v. w = c # v \<and> ac_goto A q c = 0 \<and> follows rules P base 0 v)"
    unfolding t excluding_form_def prod.case list.set(2) set_append bex_simps(5) bex_Un bucket_alts list.set(1) bex_simps(2)
      default_alt T by (simp only: not_not simp_thms bex_simps)
  then show ?thesis using assms(3) by (cases w) (auto split: if_split_asm)
qed

lemma including_step:
  assumes "trans_ok A q C tr" and "\<forall>c. c \<notin> C \<longrightarrow> ac_goto A q c = 0" and "\<not> is_terminal A 0"
  shows "(\<exists>alt \<in> set (including_form base tr). gen rules (map (gsym_of P) alt) w) \<longleftrightarrow>
    (case w of [] \<Rightarrow> False
     | c # v \<Rightarrow> if is_terminal A (ac_goto A q c) then True \<and> v = [] else follows rules P base (ac_goto A q c) v)"
proof -
  obtain co bs sp where t: "tr = (co, bs, sp)" by (metis prod_cases3)
  note T = transition_alts [OF assms(1) [unfolded t] assms(2,3)]
  have "(\<exists>alt \<in> set (if co \<noteq> [] then [[Chars False co]] else []). gen rules (map (gsym_of P) alt) w) \<longleftrightarrow>
      (\<exists>c. w = [c] \<and> c \<in> set co)"
    using gen_piece(1) [of rules P False co w] by auto
  then have "(\<exists>alt \<in> set (including_form base tr). gen rules (map (gsym_of P) alt) w) \<longleftrightarrow>
      (\<exists>c. w = [c] \<and> is_terminal A (ac_goto A q c))
      \<or> (\<exists>c v. w = c # v \<and> ac_goto A q c \<noteq> 0 \<and> \<not> is_terminal A (ac_goto A q c) \<and> follows rules P base (ac_goto A q c) v)
      \<or> (\<exists>c v. w = c # v \<and> ac_goto A q c = 0 \<and> follows rules P base 0 v)"
    unfolding t including_form_def prod.case list.set(2) set_append bex_simps(5) bex_Un bucket_alts list.set(1) bex_simps(2)
      default_alt T by (simp only: not_not simp_thms bex_simps)
  then show ?thesis using assms(3) by (cases w) (auto split: if_split_asm)
qed

subsection \<open>The language of the rules\<close>

text \<open>Builders whose rules step as the automaton does.\<close>

locale step_grammar = state_grammar +
  fixes e t :: bool
  assumes steps: "trans_ok A q C tr \<Longrightarrow> \<forall>c. c \<notin> C \<longrightarrow> ac_goto A q c = 0 \<Longrightarrow> \<not> is_terminal A 0 \<Longrightarrow>
    (\<exists>alt \<in> set (form base tr). gen rules (map (gsym_of P) alt) w) \<longleftrightarrow>
    (case w of [] \<Rightarrow> e
     | c # v \<Rightarrow> if is_terminal A (ac_goto A q c) then t \<and> v = [] else follows rules P base (ac_goto A q c) v)"
begin

lemma state_language:
  assumes "delim_automaton strings A L" and "state_rules form A L base P" and "q < length L" and "\<not> is_terminal A q"
  shows "follows (p_rules P) P base q w \<longleftrightarrow> ac_accepts A e t q w"
proof -
  note D = delim_automatonD [OF assms(1)]
  have step: "follows (p_rules P) P base q w \<longleftrightarrow>
    (case w of [] \<Rightarrow> e
     | c # v \<Rightarrow> if is_terminal A (ac_goto A q c) then t \<and> v = [] else follows (p_rules P) P base (ac_goto A q c) v)"
    if q: "q < length L" "\<not> is_terminal A q" for q w
  proof -
    from assms(2) q obtain tr where tr: "trans_ok A q (ac_alphabet A) tr"
      "alts (p_rules P) (unat (id_of P (state_name base q))) = map (map (gsym_of P)) (form base tr)"
      unfolding state_rules_def by blast
    have "follows (p_rules P) P base q w \<longleftrightarrow> (\<exists>alt \<in> set (form base tr). gen (p_rules P) (map (gsym_of P) alt) w)"
      by (simp add: follows_def gsym_of_def [of P "Nonterm _"] gen_Ref_alts tr(2))
    with steps [OF tr(1) _ D(7)] D(10) [OF q(1)] show ?thesis by simp
  qed
  show ?thesis
    using assms(3,4)
  proof (induction w arbitrary: q)
    case Nil
    then show ?case using step [of q "[]"] by simp
  next
    case (Cons c w)
    then show ?case using step [OF Cons.prems, of "c # w"] ac_goto_ok(2) [OF D(3) Cons.prems(1), of c] by simp
  qed
qed

lemma printed_language:
  assumes "good_delims strings" and "delim_automaton strings A L" and "word_name base"
  shows "\<exists>rules g. gbnf_ac_grammar base strings build [] = Some (rules, base)
    \<and> grammar_init_str vocab (format_grammar rules) base lazy patterns tokens = Some (Done (Some g))
    \<and> (\<forall>w. \<exists>r. accept_chars (g_rules g) w (g_stacks g) = Some (Done r) \<and> ([] \<in> set r \<longleftrightarrow> ac_accepts A e t 0 w))"
proof -
  note D = delim_automatonD [OF assms(2)]
  from parsed_states [OF assms, of vocab] obtain rules P where rules: "gbnf_ac_grammar base strings build [] = Some (rules, base)"
    and P: "parse vocab (format_grammar rules) = Some (Inr P)" "length (p_symbols P) < 2 ^ 32"
      "has_left_recursion (p_rules P) = Some False" "explicit_empty (p_rules P)" "state_rules form A L base P" by blast
  let ?start = "id_of P base"
  have root: "map_of (p_symbols P) base = Some ?start" "unat ?start < length (p_rules P)"
    using P(5) D(5,7) unfolding state_rules_def by (auto simp: state_name_def dest: spec [of _ 0])
  have lang: "gen (p_rules P) [Ref (unat ?start)] w \<longleftrightarrow> ac_accepts A e t 0 w" for w
    using state_language [OF assms(2) P(5) D(5,7), of w] by (simp add: follows_def gsym_of_def state_name_def)
  note I = init_str_parsed [OF P(1,2) root]
  from init_engine [OF I(2) explicit_empty_recursive [OF I(2) P(4,3)] root(2), of lazy patterns tokens] obtain g where
    g: "grammar_init_from (p_rules P) (unat ?start) lazy patterns tokens = Some (Done (Some g))" "g_rules g = p_rules P"
    "\<forall>w. \<exists>r. accept_chars (p_rules P) w (g_stacks g) = Some (Done r) \<and> ([] \<in> set r \<longleftrightarrow> gen (p_rules P) [Ref (unat ?start)] w)" by blast
  then show ?thesis using rules by (intro exI [of _ rules] exI [of _ g]) (simp add: I(1) lang)
qed

end

lemma form_starts:
  "alt \<in> set (excluding_form base tr) \<Longrightarrow> alt = [] \<or> (\<exists>neg cs ps. alt = Chars neg cs # ps)"
  "alt \<in> set (including_form base tr) \<Longrightarrow> alt = [] \<or> (\<exists>neg cs ps. alt = Chars neg cs # ps)"
  by (auto simp: excluding_form_def including_form_def split: prod.splits if_splits)

lemma form_closed:
  "set (rhs_names (excluding_form base (co, bs, sp))) \<subseteq> insert base (state_name base ` fst ` set bs)"
  "set (rhs_names (including_form base (co, bs, sp))) \<subseteq> insert base (state_name base ` fst ` set bs)"
  by (force simp: excluding_form_def including_form_def rhs_names_def alt_names_def piece_names_def)+

interpretation excl: step_grammar excluding_rule excluding_form True False
proof unfold_locales
  show "rhs_text (excluding_rule (co, bs, sp) (state_name base)) (excluding_form base (co, bs, sp))
      \<and> (peek (excluding_rule (co, bs, sp) (state_name base)) = 124 \<or> peek (excluding_rule (co, bs, sp) (state_name base)) = 91)"
    if "\<And>d cs. (d, cs) \<in> set bs \<Longrightarrow> piece_ok (Chars False cs)" "piece_ok (Chars True sp)" "word_name base" for co bs sp base
    using excluding_text [of bs sp base co] that by blast
qed (rule form_closed form_starts excluding_step; assumption)+

interpretation incl: step_grammar including_rule including_form False True
proof unfold_locales
  show "rhs_text (including_rule (co, bs, sp) (state_name base)) (including_form base (co, bs, sp))
      \<and> (peek (including_rule (co, bs, sp) (state_name base)) = 124 \<or> peek (including_rule (co, bs, sp) (state_name base)) = 91)"
    if "co = [] \<or> piece_ok (Chars False co)" "\<And>d cs. (d, cs) \<in> set bs \<Longrightarrow> piece_ok (Chars False cs)"
      "piece_ok (Chars True sp)" "word_name base" for co bs sp base
    using including_text [of co bs sp base] that by blast
qed (rule form_closed form_starts including_step; assumption)+

subsection \<open>The languages as sets of strings\<close>

abbreviation delims :: "byte list list \<Rightarrow> u32 list set" where
  "delims strings \<equiv> (\<lambda>s. word_symbols s 0) ` set strings"

lemma nonempty_prefixes:
  "(\<forall>u. u \<noteq> [] \<and> prefix u (c # w) \<longrightarrow> Q u) \<longleftrightarrow> Q [c] \<and> (\<forall>u. u \<noteq> [] \<and> prefix u w \<longrightarrow> Q (c # u))"
  "(\<forall>u. u \<noteq> [] \<and> strict_prefix u (c # w) \<longrightarrow> Q u) \<longleftrightarrow>
     (w \<noteq> [] \<longrightarrow> Q [c]) \<and> (\<forall>u. u \<noteq> [] \<and> strict_prefix u w \<longrightarrow> Q (c # u))"
proof -
  have "u \<noteq> [] \<and> prefix u (c # w) \<longleftrightarrow> u = [c] \<or> (\<exists>v. u = c # v \<and> v \<noteq> [] \<and> prefix v w)" for u
    by (cases u; cases "tl u") auto
  then show "(\<forall>u. u \<noteq> [] \<and> prefix u (c # w) \<longrightarrow> Q u) \<longleftrightarrow> Q [c] \<and> (\<forall>u. u \<noteq> [] \<and> prefix u w \<longrightarrow> Q (c # u))" by metis
  have "u \<noteq> [] \<and> strict_prefix u (c # w) \<longleftrightarrow> w \<noteq> [] \<and> u = [c] \<or> (\<exists>v. u = c # v \<and> v \<noteq> [] \<and> strict_prefix v w)" for u
    by (cases u; cases "tl u"; cases w) auto
  then show "(\<forall>u. u \<noteq> [] \<and> strict_prefix u (c # w) \<longrightarrow> Q u) \<longleftrightarrow>
     (w \<noteq> [] \<longrightarrow> Q [c]) \<and> (\<forall>u. u \<noteq> [] \<and> strict_prefix u w \<longrightarrow> Q (c # u))" by metis
qed

lemma accepts_run:
  assumes "ac_ok A L ps" and "q < length L" and "L ! q = lsuf (set L) v"
  shows "ac_accepts A True False q w \<longleftrightarrow> (\<forall>u. u \<noteq> [] \<and> prefix u w \<longrightarrow> (\<forall>p \<in> set ps. \<not> suffix p (v @ u)))"
    "ac_accepts A False True q w \<longleftrightarrow> w \<noteq> [] \<and> (\<exists>p \<in> set ps. suffix p (v @ w))
       \<and> (\<forall>u. u \<noteq> [] \<and> strict_prefix u w \<longrightarrow> (\<forall>p \<in> set ps. \<not> suffix p (v @ u)))"
  using assms(2,3)
proof (induction w arbitrary: q v)
  case (Cons c w)
  let ?hit = "\<lambda>x. \<exists>p \<in> set ps. suffix p x"
  have d: "ac_goto A q c < length L" "L ! ac_goto A q c = lsuf (set L) (v @ [c])"
    "is_terminal A (ac_goto A q c) \<longleftrightarrow> ?hit (v @ [c])" if "q < length L" "L ! q = lsuf (set L) v" for q v
    using ac_goto_ok(2,3) [OF assms(1) that(1)] that(2) terminal_iff [OF assms(1)] by blast+
  { case 1
    show ?case
      using Cons.IH(1) [OF d(1,2) [OF 1]] d(3) [OF 1] unfolding nonempty_prefixes(1) [where Q = "\<lambda>u. \<forall>p \<in> set ps. \<not> suffix p (v @ u)"]
      by simp }
  { case 2
    show ?case
      using Cons.IH(2) [OF d(1,2) [OF 2]] d(3) [OF 2] unfolding nonempty_prefixes(2) [where Q = "\<lambda>u. \<forall>p \<in> set ps. \<not> suffix p (v @ u)"]
      by (auto simp del: suffix_snoc) }
qed simp_all

lemma sublist_ends: "sublist p w \<longleftrightarrow> (\<exists>u. prefix u w \<and> suffix p u)"
  by (auto simp: sublist_def prefix_def suffix_def) (metis append.assoc)+

lemma first_end:
  assumes "[] \<notin> X"
  shows "w \<noteq> [] \<and> (\<exists>p \<in> X. suffix p w) \<and> (\<forall>u. u \<noteq> [] \<and> strict_prefix u w \<longrightarrow> (\<forall>p \<in> X. \<not> suffix p u)) \<longleftrightarrow>
    (\<exists>p \<in> X. suffix p w) \<and> (\<forall>u p. strict_prefix u w \<and> p \<in> X \<longrightarrow> \<not> suffix p u)"
proof -
  have "\<not> suffix p []" if "p \<in> X" for p using that assms by auto
  then show ?thesis by metis
qed

text \<open>C3. The grammar that excludes delimiters, for the delimiters it fits: at least one, none of them empty,
  none with a caret - the character class does not escape it - and fewer than \<open>2\<^sup>3\<^sup>2\<close> nodes in their trie; and a
  rule name of word characters, in a builder without other rules. The emitted text parses, the constructor
  returns an engine for it, and the engine, fed with any string of characters, accepts it exactly if no delimiter
  occurs in it. What happens with a caret or an empty delimiter is \<open>delimiter_grammar_gaps\<close> below.\<close>

theorem excluding_grammar_language:
  assumes "good_delims strings" and "word_name base"
  shows "\<exists>rules g. gbnf_excluding_grammar base strings [] = Some (rules, base)
    \<and> grammar_init_str vocab (format_grammar rules) base lazy patterns tokens = Some (Done (Some g))
    \<and> (\<forall>w. \<exists>r. accept_chars (g_rules g) w (g_stacks g) = Some (Done r)
        \<and> ([] \<in> set r \<longleftrightarrow> (\<forall>p \<in> delims strings. \<not> sublist p w)))"
proof -
  from delimiter_automaton [OF assms(1)] obtain A L where A: "delim_automaton strings A L" by blast
  note D = delim_automatonD [OF A]
  have hit: "L ! 0 = lsuf (set L) []" using lsuf_id [of "[]" "set L"] D(5,6) nth_mem [of 0 L] by simp
  have ps: "set (collect_words (map (\<lambda>w. word_symbols w 0) strings)) = delims strings" by (simp add: collect_words_set)
  have "ac_accepts A True False 0 w \<longleftrightarrow> (\<forall>p \<in> delims strings. \<not> sublist p w)" for w
  proof -
    have "p \<noteq> []" if "p \<in> delims strings" for p using that assms(1) by (auto simp: good_delims_def)
    then have "sublist p w \<longleftrightarrow> (\<exists>u. u \<noteq> [] \<and> prefix u w \<and> suffix p u)" if "p \<in> delims strings" for p
      unfolding sublist_ends using that by (metis suffix_Nil)
    then show ?thesis unfolding accepts_run(1) [OF D(3,5) hit] ps by auto
  qed
  with excl.printed_language [OF assms(1) A assms(2), of vocab lazy patterns tokens] show ?thesis
    unfolding gbnf_excluding_grammar_def by simp
qed

lemma sample_delims:
  "good_delims [[97, 98], [98, 99]]" "word_name [97, 99]" "delims [[97, 98], [98, 99]] = {[97, 98], [98, 99]}"
proof -
  have w: "word_symbols [97, 98] 0 = [97, 98]" "word_symbols [98, 99] 0 = [98, 99]" by code_simp+
  have "length (tr_nodes (trie_of_words [[97, 98], [98, 99]])) = 5" by code_simp
  with w show "good_delims [[97, 98], [98, 99]]" by (simp add: good_delims_def)
  show "delims [[97, 98], [98, 99]] = {[97, 98], [98, 99]}" by (simp add: w)
  show "word_name [97, 99]" by (simp add: word_name_def is_word_char_def)
qed

lemma sample_sublists:
  "\<not> sublist [97, 98] [97, 97, 99 :: u32]" "\<not> sublist [98, 99] [97, 97, 99 :: u32]" "sublist [98, 99] [97, 98, 99 :: u32]"
  by (simp_all add: sublist_code)

lemma excluding_grammar_language_witness:
  "\<exists>rules g. gbnf_excluding_grammar [97, 99] [[97, 98], [98, 99]] [] = Some (rules, [97, 99])
    \<and> grammar_init_str None (format_grammar rules) [97, 99] False ([] :: nat list) [] = Some (Done (Some g))
    \<and> (\<exists>r. accept_chars (g_rules g) [97, 97, 99] (g_stacks g) = Some (Done r) \<and> [] \<in> set r)
    \<and> (\<exists>r. accept_chars (g_rules g) [97, 98, 99] (g_stacks g) = Some (Done r) \<and> [] \<notin> set r)"
proof -
  from excluding_grammar_language [OF sample_delims(1,2), of None False "[] :: nat list" "[]"] obtain rules g where
    g: "gbnf_excluding_grammar [97, 99] [[97, 98], [98, 99]] [] = Some (rules, [97, 99])"
      "grammar_init_str None (format_grammar rules) [97, 99] False ([] :: nat list) [] = Some (Done (Some g))"
    and l: "\<forall>w. \<exists>r. accept_chars (g_rules g) w (g_stacks g) = Some (Done r)
        \<and> ([] \<in> set r \<longleftrightarrow> (\<forall>p \<in> {[97, 98], [98, 99]}. \<not> sublist p w))" unfolding sample_delims(3) by blast
  from l [rule_format, of "[97, 97, 99]"] l [rule_format, of "[97, 98, 99]"] g sample_sublists show ?thesis by auto
qed

text \<open>C5. The grammar that includes a delimiter. Under the same conditions - delimiters neither empty nor with a
  caret, at least one, fewer than \<open>2\<^sup>3\<^sup>2\<close> trie nodes, a rule name of word characters, no other rules - the engine
  of the emitted text accepts a string exactly if it ends with a delimiter and no delimiter ends earlier in it: the
  text up to the first delimiter.\<close>

theorem including_grammar_language:
  assumes "good_delims strings" and "word_name base"
  shows "\<exists>rules g. gbnf_including_grammar base strings [] = Some (rules, base)
    \<and> grammar_init_str vocab (format_grammar rules) base lazy patterns tokens = Some (Done (Some g))
    \<and> (\<forall>w. \<exists>r. accept_chars (g_rules g) w (g_stacks g) = Some (Done r)
        \<and> ([] \<in> set r \<longleftrightarrow> (\<exists>p \<in> delims strings. suffix p w) \<and> (\<forall>u p. strict_prefix u w \<and> p \<in> delims strings \<longrightarrow> \<not> suffix p u)))"
proof -
  from delimiter_automaton [OF assms(1)] obtain A L where A: "delim_automaton strings A L" by blast
  note D = delim_automatonD [OF A]
  have hit: "L ! 0 = lsuf (set L) []" using lsuf_id [of "[]" "set L"] D(5,6) nth_mem [of 0 L] by simp
  have ps: "set (collect_words (map (\<lambda>w. word_symbols w 0) strings)) = delims strings" by (simp add: collect_words_set)
  have "[] \<notin> delims strings" using assms(1) by (auto simp: good_delims_def)
  note first = first_end [OF this]
  have "ac_accepts A False True 0 w \<longleftrightarrow>
      (\<exists>p \<in> delims strings. suffix p w) \<and> (\<forall>u p. strict_prefix u w \<and> p \<in> delims strings \<longrightarrow> \<not> suffix p u)" for w
    unfolding accepts_run(2) [OF D(3,5) hit] ps append_Nil by (rule first)
  with incl.printed_language [OF assms(1) A assms(2), of vocab lazy patterns tokens] show ?thesis
    unfolding gbnf_including_grammar_def by simp
qed

lemma including_grammar_language_witness:
  "\<exists>rules g. gbnf_including_grammar [97, 99] [[97, 98], [98, 99]] [] = Some (rules, [97, 99])
    \<and> grammar_init_str None (format_grammar rules) [97, 99] False ([] :: nat list) [] = Some (Done (Some g))
    \<and> (\<exists>r. accept_chars (g_rules g) [97, 97, 98] (g_stacks g) = Some (Done r) \<and> [] \<in> set r)
    \<and> (\<exists>r. accept_chars (g_rules g) [97, 98, 99] (g_stacks g) = Some (Done r) \<and> [] \<notin> set r)"
proof -
  from including_grammar_language [OF sample_delims(1,2), of None False "[] :: nat list" "[]"] obtain rules g where
    g: "gbnf_including_grammar [97, 99] [[97, 98], [98, 99]] [] = Some (rules, [97, 99])"
      "grammar_init_str None (format_grammar rules) [97, 99] False ([] :: nat list) [] = Some (Done (Some g))"
    and l: "\<forall>w. \<exists>r. accept_chars (g_rules g) w (g_stacks g) = Some (Done r) \<and> ([] \<in> set r \<longleftrightarrow>
        (\<exists>p \<in> {[97, 98], [98, 99]}. suffix p w)
        \<and> (\<forall>u p. strict_prefix u w \<and> p \<in> {[97, 98], [98, 99]} \<longrightarrow> \<not> suffix p u))" unfolding sample_delims(3) by blast
  have "u = [] \<or> u = [97] \<or> u = [97, 97]" if "strict_prefix u [97, 97, 98 :: u32]" for u
    using that by (auto simp: strict_prefix_def prefix_Cons)
  moreover have "\<not> suffix p u" if "p \<in> {[97, 98], [98, 99]}" "u \<in> {[], [97], [97, 97]}" for p u :: "u32 list"
    using that by (auto simp: suffix_def append_eq_Cons_conv Cons_eq_append_conv)
  ultimately have "\<forall>u p. strict_prefix u [97, 97, 98] \<and> p \<in> {[97, 98], [98, 99]} \<longrightarrow> \<not> suffix p (u :: u32 list)" by blast
  moreover have "suffix [97, 98] [97, 97, 98 :: u32]" by code_simp
  moreover have "strict_prefix [97, 98] [97, 98, 99 :: u32]" "suffix [97, 98] [97, 98 :: u32]" by code_simp+
  ultimately show ?thesis
    using l [rule_format, of "[97, 97, 98]"] l [rule_format, of "[97, 98, 99]"] g by blast
qed

subsection \<open>Delimiters the grammars do not fit\<close>

text \<open>Outside the conditions of the two theorems the text does not say what it should. A caret is not escaped in
  a character class: for the delimiter caret the first alternate becomes a negated class without members and its
  engine accepts the empty string; for a delimiter that starts with a caret the excluding grammar is refused. An empty
  delimiter gives a rule that ends in a bar, which joins it to the next line: the grammar with a second rule is refused.\<close>

theorem delimiter_grammar_gaps:
  "(\<exists>rules g. gbnf_including_grammar [97, 99] [[94]] [] = Some (rules, [97, 99])
     \<and> grammar_init_str None (format_grammar rules) [97, 99] False ([] :: nat list) [] = Some (Done (Some g)) \<and> [] \<in> set (g_stacks g))
   \<and> (\<exists>rules. gbnf_excluding_grammar [97, 99] [[94, 97]] [] = Some (rules, [97, 99])
     \<and> grammar_init_str None (format_grammar rules) [97, 99] False ([] :: nat list) [] = Some (Done None))
   \<and> (\<exists>rules. gbnf_excluding_grammar [97, 99] [[]] [([114], [97, 99])] = Some (rules, [97, 99])
     \<and> grammar_init_str None (format_grammar rules) [114] False ([] :: nat list) [] = Some (Done None))"
proof (intro conjI)
  have g: "gbnf_including_grammar [97, 99] [[94]] [] = Some
      ([([97, 99], [91, 94, 93, 32, 124, 32, 91, 94, 94, 93, 32, 97, 99])], [97, 99])"
    "gbnf_excluding_grammar [97, 99] [[94, 97]] [] = Some
      ([([97, 99], [124, 32, 91, 94, 93, 32, 97, 99, 45, 48, 49, 32, 124, 32, 91, 94, 94, 93, 32, 97, 99]),
        ([97, 99, 45, 48, 49],
          [124, 32, 91, 94, 93, 32, 97, 99, 45, 48, 49, 32, 124, 32, 91, 94, 94, 97, 93, 32, 97, 99])], [97, 99])"
    "gbnf_excluding_grammar [97, 99] [[]] [([114], [97, 99])] = Some ([([97, 99], [124]), ([114], [97, 99])], [97, 99])"
    by code_simp+
  have "case grammar_init_str None (format_grammar [([97, 99], [91, 94, 93, 32, 124, 32, 91, 94, 94, 93, 32, 97, 99])])
      [97, 99] False ([] :: nat list) [] of Some (Done (Some g)) \<Rightarrow> [] \<in> set (g_stacks g) | _ \<Rightarrow> False" by code_simp
  then show "\<exists>rules g. gbnf_including_grammar [97, 99] [[94]] [] = Some (rules, [97, 99])
     \<and> grammar_init_str None (format_grammar rules) [97, 99] False ([] :: nat list) [] = Some (Done (Some g)) \<and> [] \<in> set (g_stacks g)"
    by (auto simp: g(1) split: option.splits outcome.splits)
  have "case grammar_init_str None (format_grammar
      [([97, 99], [124, 32, 91, 94, 93, 32, 97, 99, 45, 48, 49, 32, 124, 32, 91, 94, 94, 93, 32, 97, 99]),
        ([97, 99, 45, 48, 49],
          [124, 32, 91, 94, 93, 32, 97, 99, 45, 48, 49, 32, 124, 32, 91, 94, 94, 97, 93, 32, 97, 99])])
      [97, 99] False ([] :: nat list) [] of Some (Done None) \<Rightarrow> True | _ \<Rightarrow> False" by code_simp
  then show "\<exists>rules. gbnf_excluding_grammar [97, 99] [[94, 97]] [] = Some (rules, [97, 99])
     \<and> grammar_init_str None (format_grammar rules) [97, 99] False ([] :: nat list) [] = Some (Done None)"
    by (auto simp: g(2) split: option.splits outcome.splits)
  have "case grammar_init_str None (format_grammar [([97, 99], [124]), ([114], [97, 99])])
      [114] False ([] :: nat list) [] of Some (Done None) \<Rightarrow> True | _ \<Rightarrow> False" by code_simp
  then show "\<exists>rules. gbnf_excluding_grammar [97, 99] [[]] [([114], [97, 99])] = Some (rules, [97, 99])
     \<and> grammar_init_str None (format_grammar rules) [114] False ([] :: nat list) [] = Some (Done None)"
    by (auto simp: g(3) split: option.splits outcome.splits)
qed

end
