(* ===== verification/Peg_Parser.thy ===== *)
theory Peg_Parser
  imports Trie_Ac
begin

section \<open>The parser of model output\<close>

text \<open>
  \<open>common/peg-parser.cpp\<close>: the interpreter of parsing expressions that takes the output of a model apart, on a
  complete text or, leniently, on a prefix of one. An arena holds the parsers, which refer to each other by index or
  through named rules; a run returns the end of what it consumed, the bytes that do not decode, and indices into an
  arena of syntax nodes that grows as rules and tags succeed. The flag for debug output and the depth it
  indents by are left out, as is the part of a schema parser that only the grammar generator reads.
\<close>

subsection \<open>Data\<close>

datatype peg_type = PEG_FAIL | PEG_SUCCESS | PEG_NEED_MORE_INPUT

record invalid_utf8 =
  iv_pos :: nat
  iv_len :: nat

record peg_node =
  nd_id :: nat
  nd_rule :: "byte list"
  nd_tag :: "byte list"
  nd_start :: nat
  nd_end :: nat
  nd_text :: "byte list"
  nd_children :: "nat list"
  nd_partial :: bool
  nd_invalid :: "invalid_utf8 list"

record peg_result =
  pr_type :: peg_type
  pr_start :: nat
  pr_end :: nat
  pr_nodes :: "nat list"
  pr_invalid :: "invalid_utf8 list"

definition peg_result_at :: "peg_type \<Rightarrow> nat \<Rightarrow> nat \<Rightarrow> peg_result" where
  "peg_result_at t start stop = \<lparr>pr_type = t, pr_start = start, pr_end = stop, pr_nodes = [], pr_invalid = []\<rparr>"

lemma peg_result_at_fields [simp]:
  "pr_type (peg_result_at t start stop) = t" "pr_start (peg_result_at t start stop) = start"
  "pr_end (peg_result_at t start stop) = stop" "pr_nodes (peg_result_at t start stop) = []"
  "pr_invalid (peg_result_at t start stop) = []"
  by (simp_all add: peg_result_at_def)

datatype peg_parser =
    Epsilon_P
  | Start_P
  | End_P
  | Literal_P "byte list"
  | Sequence_P "nat list"
  | Choice_P "nat list"
  | Repetition_P nat int int
  | And_P nat
  | Not_P nat
  | Any_P
  | Space_P
  | Chars_P "byte list" "(u32 \<times> u32) list" bool int int
  | String_P byte
  | Until_P "byte list list"
  | Schema_P nat "byte list" bool
  | Rule_P "byte list" nat bool
  | Ref_P "byte list"
  | Atomic_P nat
  | Tag_P nat "byte list"
  | Gbnf_P nat "byte list"
  | Ac_P nat "byte list list"

record peg_arena =
  ar_parsers :: "peg_parser list"
  ar_rules :: "(byte list \<times> nat) list"
  ar_root :: "nat option"

definition get_rule :: "peg_arena \<Rightarrow> byte list \<Rightarrow> nat option" where
  "get_rule A name = map_of (ar_rules A) name"

text \<open>The exceptions: an index outside of the arena, a rule without a definition, an arena without a root. \<open>None\<close>
  is a run that does not return within the depth of recursion allowed.\<close>

datatype peg_error = Out_of_range | Rule_not_found | No_root

type_synonym peg_nodes = "peg_node list"
type_synonym peg_run = "(peg_error + peg_result \<times> peg_nodes) option"

definition peg_bind :: "peg_run \<Rightarrow> (peg_result \<Rightarrow> peg_nodes \<Rightarrow> peg_run) \<Rightarrow> peg_run" where
  "peg_bind m f = (case m of None \<Rightarrow> None | Some (Inl e) \<Rightarrow> Some (Inl e) | Some (Inr (r, ast)) \<Rightarrow> f r ast)"

definition peg_return :: "peg_result \<Rightarrow> peg_nodes \<Rightarrow> peg_run" where
  "peg_return r ast = Some (Inr (r, ast))"

subsection \<open>Parsers of characters\<close>

fun literal_from :: "byte list \<Rightarrow> bool \<Rightarrow> nat \<Rightarrow> byte list \<Rightarrow> nat \<Rightarrow> peg_result" where
  "literal_from input lenient start [] pos = peg_result_at PEG_SUCCESS start pos"
| "literal_from input lenient start (c # cs) pos =
     (if pos \<ge> length input then
        (if \<not> lenient then peg_result_at PEG_FAIL start start else peg_result_at PEG_NEED_MORE_INPUT start pos)
      else if input ! pos \<noteq> c then peg_result_at PEG_FAIL start start
      else literal_from input lenient start cs (pos + 1))"

definition any_at :: "byte list \<Rightarrow> bool \<Rightarrow> nat \<Rightarrow> peg_result" where
  "any_at input lenient start =
     (let result = common_parse_utf8_codepoint input start in
      case status result of
        Incomplete \<Rightarrow> peg_result_at (if \<not> lenient then PEG_FAIL else PEG_NEED_MORE_INPUT) start start
      | Invalid \<Rightarrow> peg_result_at PEG_FAIL start start
      | Success \<Rightarrow> peg_result_at PEG_SUCCESS start (start + bytes_consumed result))"

text \<open>\<open>std::isspace\<close> in the C locale.\<close>

definition isspace :: "byte \<Rightarrow> bool" where
  "isspace c \<longleftrightarrow> c = 32 \<or> 9 \<le> c \<and> c \<le> 13"

definition space_at :: "byte list \<Rightarrow> nat \<Rightarrow> peg_result" where
  "space_at input start = peg_result_at PEG_SUCCESS start (start + length (takeWhile isspace (drop start input)))"

definition class_matches :: "(u32 \<times> u32) list \<Rightarrow> bool \<Rightarrow> u32 \<Rightarrow> bool" where
  "class_matches ranges negated c =
     (let matches = (\<exists>(lo, hi) \<in> set ranges. lo \<le> c \<and> c \<le> hi) in if negated then \<not> matches else matches)"

definition chars_result :: "byte list \<Rightarrow> bool \<Rightarrow> int \<Rightarrow> nat \<Rightarrow> nat \<Rightarrow> int \<Rightarrow> peg_result" where
  "chars_result input lenient min_count start pos match_count =
     (if match_count < min_count then
        (if pos \<ge> length input \<and> lenient then peg_result_at PEG_NEED_MORE_INPUT start pos
         else peg_result_at PEG_FAIL start pos)
      else peg_result_at PEG_SUCCESS start pos)"

function chars_from ::
    "byte list \<Rightarrow> bool \<Rightarrow> (u32 \<times> u32) list \<Rightarrow> bool \<Rightarrow> int \<Rightarrow> int \<Rightarrow> nat \<Rightarrow> nat \<Rightarrow> int \<Rightarrow> peg_result" where
  "chars_from input lenient ranges negated min_count max_count start pos match_count =
     (if max_count = - 1 \<or> match_count < max_count then
        (let result = common_parse_utf8_codepoint input pos in
         case status result of
           Incomplete \<Rightarrow>
             if match_count \<ge> min_count then peg_result_at PEG_SUCCESS start pos
             else if \<not> lenient then peg_result_at PEG_FAIL start start
             else peg_result_at PEG_NEED_MORE_INPUT start pos
         | Invalid \<Rightarrow>
             if match_count \<ge> min_count then peg_result_at PEG_SUCCESS start pos
             else peg_result_at PEG_FAIL start start
         | Success \<Rightarrow>
             if class_matches ranges negated (codepoint result) then
               chars_from input lenient ranges negated min_count max_count start (pos + bytes_consumed result) (match_count + 1)
             else chars_result input lenient min_count start pos match_count)
      else chars_result input lenient min_count start pos match_count)"
  by pat_completeness auto

lemma parse_success_pos: "status (common_parse_utf8_codepoint input pos) = Success \<Longrightarrow> pos < length input"
  by (auto simp: common_parse_utf8_codepoint_def result_of_def split: if_splits)

lemma success_advances:
  "status (common_parse_utf8_codepoint input pos) = Success \<Longrightarrow>
   length input - (pos + bytes_consumed (common_parse_utf8_codepoint input pos)) < length input - pos"
  using parse_success_consumes [of input pos] parse_success_pos [of input pos] by simp

termination chars_from
  by (relation "measure (\<lambda>(input, _, _, _, _, _, _, pos, _). length input - pos)") (auto simp: success_advances)

declare chars_from.simps [simp del]

subsection \<open>The content of a string\<close>

definition is_hex_digit :: "byte \<Rightarrow> bool" where
  "is_hex_digit c \<longleftrightarrow> 48 \<le> c \<and> c \<le> 57 \<or> 97 \<le> c \<and> c \<le> 102 \<or> 65 \<le> c \<and> c \<le> 70"

text \<open>The result and the position; the loop over the digits that are left.\<close>

fun unicode_digits :: "nat \<Rightarrow> byte list \<Rightarrow> bool \<Rightarrow> nat \<Rightarrow> nat \<Rightarrow> peg_result \<times> nat" where
  "unicode_digits 0 input lenient start pos = (peg_result_at PEG_SUCCESS start pos, pos)"
| "unicode_digits (Suc k) input lenient start pos =
     (if pos \<ge> length input then
        (if \<not> lenient then (peg_result_at PEG_FAIL start start, pos)
         else (peg_result_at PEG_NEED_MORE_INPUT start pos, pos))
      else if \<not> is_hex_digit (input ! pos) then (peg_result_at PEG_FAIL start start, pos)
      else unicode_digits k input lenient start (pos + 1))"

definition handle_unicode_escape :: "byte list \<Rightarrow> bool \<Rightarrow> nat \<Rightarrow> nat \<Rightarrow> peg_result \<times> nat" where
  "handle_unicode_escape input lenient start pos = unicode_digits 4 input lenient start (pos + 1)"

definition handle_escape_sequence :: "byte list \<Rightarrow> bool \<Rightarrow> nat \<Rightarrow> nat \<Rightarrow> byte \<Rightarrow> peg_result \<times> nat" where
  "handle_escape_sequence input lenient start save delimiter =
     (let pos = save + 1 in
      if pos \<ge> length input then
        (if \<not> lenient then (peg_result_at PEG_FAIL start start, pos)
         else (peg_result_at PEG_NEED_MORE_INPUT start save, save))
      else if input ! pos \<in> {delimiter, 92, 47, 98, 102, 110, 114, 116} then
        (peg_result_at PEG_SUCCESS start (pos + 1), pos + 1)
      else if input ! pos = 117 then
        (case handle_unicode_escape input lenient start pos of
           (result, pos) \<Rightarrow>
             if pr_type result = PEG_NEED_MORE_INPUT then (peg_result_at PEG_NEED_MORE_INPUT start save, save)
             else (result, pos))
      else (peg_result_at PEG_FAIL start start, pos))"

lemma unicode_digits_pos: "pos \<le> snd (unicode_digits k input lenient start pos)"
proof (induction k arbitrary: pos)
  case (Suc k)
  from Suc [of "pos + 1"] show ?case by simp
qed simp

lemma escape_advances:
  "handle_escape_sequence input lenient start save delimiter = (result, pos) \<Longrightarrow> pr_type result = PEG_SUCCESS \<Longrightarrow> save < pos"
  using unicode_digits_pos [of "save + 2" 4 input lenient start]
  by (auto simp: handle_escape_sequence_def handle_unicode_escape_def Let_def peg_result_at_def split: if_splits prod.splits)

function string_from :: "byte list \<Rightarrow> bool \<Rightarrow> byte \<Rightarrow> nat \<Rightarrow> nat \<Rightarrow> peg_result" where
  "string_from input lenient delimiter start pos =
     (if pos < length input then
        (let c = input ! pos in
         if c = delimiter then peg_result_at PEG_SUCCESS start pos
         else if c = 92 then
           (let (result, pos) = handle_escape_sequence input lenient start pos delimiter in
            if pr_type result \<noteq> PEG_SUCCESS then result else string_from input lenient delimiter start pos)
         else
           (let utf8_result = common_parse_utf8_codepoint input pos in
            case status utf8_result of
              Incomplete \<Rightarrow>
                if \<not> lenient then peg_result_at PEG_FAIL start start else peg_result_at PEG_NEED_MORE_INPUT start pos
            | Invalid \<Rightarrow> peg_result_at PEG_FAIL start start
            | Success \<Rightarrow> string_from input lenient delimiter start (pos + bytes_consumed utf8_result)))
      else if \<not> lenient then peg_result_at PEG_FAIL start pos
      else peg_result_at PEG_NEED_MORE_INPUT start pos)"
  by pat_completeness auto

termination string_from
  by (relation "measure (\<lambda>(input, _, _, _, pos). length input - pos)")
    (auto dest: escape_advances [OF sym] simp: success_advances intro!: diff_less_mono2)

declare string_from.simps [simp del]

subsection \<open>Text up to a delimiter\<close>

lemma parse_consumes: "pos < length input \<Longrightarrow> 0 < bytes_consumed (common_parse_utf8_codepoint input pos)"
proof -
  have "check_conts input pos is = Some r \<Longrightarrow> \<forall>i \<in> set is. 0 < i \<Longrightarrow> 0 < bytes_consumed r" for "is" r
    by (induction "is") (auto simp: result_of_def split: if_splits)
  then show "pos < length input \<Longrightarrow> ?thesis"
    by (auto simp: common_parse_utf8_codepoint_def Let_def result_of_def split: option.splits)
qed

definition until_result :: "peg_type \<Rightarrow> nat \<Rightarrow> nat \<Rightarrow> invalid_utf8 list \<Rightarrow> peg_result" where
  "until_result t start stop invalid = (peg_result_at t start stop)\<lparr>pr_invalid := invalid\<rparr>"

function until_from ::
    "trie \<Rightarrow> byte list \<Rightarrow> bool \<Rightarrow> nat \<Rightarrow> nat \<Rightarrow> nat \<Rightarrow> invalid_utf8 list \<Rightarrow> peg_result" where
  "until_from matcher input lenient start pos last_valid_pos invalid =
     (if pos < length input then
        (let utf8_result = common_parse_utf8_codepoint input pos;
             next_pos = pos + bytes_consumed utf8_result in
         if status utf8_result = Incomplete \<and> lenient then
           until_result PEG_NEED_MORE_INPUT start last_valid_pos invalid
         else if status utf8_result \<noteq> Success then
           until_from matcher input lenient start next_pos next_pos
             (invalid @ [\<lparr>iv_pos = pos, iv_len = bytes_consumed utf8_result\<rparr>])
         else if check_at matcher input pos \<noteq> NO_MATCH then until_result PEG_SUCCESS start pos invalid
         else until_from matcher input lenient start next_pos next_pos invalid)
      else if last_valid_pos = length input \<and> lenient then
        until_result PEG_NEED_MORE_INPUT start last_valid_pos invalid
      else until_result PEG_SUCCESS start last_valid_pos invalid)"
  by pat_completeness auto

termination until_from
  by (relation "measure (\<lambda>(_, input, _, _, pos, _, _). length input - pos)")
    (use parse_consumes in \<open>auto intro!: diff_less_mono2\<close>)

declare until_from.simps [simp del]

definition until_at :: "byte list list \<Rightarrow> byte list \<Rightarrow> bool \<Rightarrow> nat \<Rightarrow> peg_result" where
  "until_at delimiters input lenient start = until_from (trie_of_words delimiters) input lenient start start start []"

subsection \<open>Combinators\<close>

text \<open>\<open>parse\<close> runs a parser of the arena at a position.\<close>

type_synonym peg_call = "nat \<Rightarrow> nat \<Rightarrow> peg_nodes \<Rightarrow> peg_run"

fun sequence_from ::
    "peg_call \<Rightarrow> nat \<Rightarrow> nat list \<Rightarrow> nat \<Rightarrow> nat list \<Rightarrow> invalid_utf8 list \<Rightarrow> peg_nodes \<Rightarrow> peg_run" where
  "sequence_from parse start [] pos nodes invalid ast =
     peg_return \<lparr>pr_type = PEG_SUCCESS, pr_start = start, pr_end = pos, pr_nodes = nodes, pr_invalid = invalid\<rparr> ast"
| "sequence_from parse start (c # cs) pos nodes invalid ast =
     peg_bind (parse c pos ast) (\<lambda>result ast.
       if pr_type result = PEG_FAIL then peg_return (peg_result_at PEG_FAIL start (pr_end result)) ast
       else
         let nodes = nodes @ pr_nodes result; invalid = invalid @ pr_invalid result in
         if pr_type result = PEG_NEED_MORE_INPUT then
           peg_return \<lparr>pr_type = PEG_NEED_MORE_INPUT, pr_start = start, pr_end = pr_end result,
             pr_nodes = nodes, pr_invalid = invalid\<rparr> ast
         else sequence_from parse start cs (pr_end result) nodes invalid ast)"

fun choice_from :: "peg_call \<Rightarrow> nat \<Rightarrow> nat list \<Rightarrow> peg_nodes \<Rightarrow> peg_run" where
  "choice_from parse start [] ast = peg_return (peg_result_at PEG_FAIL start start) ast"
| "choice_from parse start (c # cs) ast =
     peg_bind (parse c start ast) (\<lambda>result ast.
       if pr_type result \<noteq> PEG_FAIL then peg_return result ast else choice_from parse start cs ast)"

definition repetition_result ::
    "byte list \<Rightarrow> bool \<Rightarrow> int \<Rightarrow> nat \<Rightarrow> nat \<Rightarrow> int \<Rightarrow> nat list \<Rightarrow> invalid_utf8 list \<Rightarrow> peg_result" where
  "repetition_result input lenient min_count start pos match_count nodes invalid =
     (let result = (\<lambda>t. \<lparr>pr_type = t, pr_start = start, pr_end = pos, pr_nodes = nodes, pr_invalid = invalid\<rparr>) in
      if min_count > 0 \<and> match_count < min_count then
        (if pos \<ge> length input \<and> lenient then result PEG_NEED_MORE_INPUT else peg_result_at PEG_FAIL start pos)
      else result PEG_SUCCESS)"

fun repetition_from ::
    "nat \<Rightarrow> peg_call \<Rightarrow> byte list \<Rightarrow> bool \<Rightarrow> nat \<Rightarrow> int \<Rightarrow> int \<Rightarrow> nat \<Rightarrow> nat \<Rightarrow> int \<Rightarrow> nat list \<Rightarrow> invalid_utf8 list
      \<Rightarrow> peg_nodes \<Rightarrow> peg_run" where
  "repetition_from 0 parse input lenient sub min_count max_count start pos match_count nodes invalid ast = None"
| "repetition_from (Suc k) parse input lenient sub min_count max_count start pos match_count nodes invalid ast =
     (let stop = repetition_result input lenient min_count start pos match_count nodes invalid in
      if (max_count = - 1 \<or> match_count < max_count) \<and> pos < length input then
        peg_bind (parse sub pos ast) (\<lambda>result ast.
          case pr_type result of
            PEG_SUCCESS \<Rightarrow>
              if pr_end result = pos then peg_return stop ast
              else repetition_from k parse input lenient sub min_count max_count start (pr_end result) (match_count + 1)
                (nodes @ pr_nodes result) (invalid @ pr_invalid result) ast
          | PEG_NEED_MORE_INPUT \<Rightarrow>
              peg_return \<lparr>pr_type = PEG_NEED_MORE_INPUT, pr_start = start, pr_end = pr_end result,
                pr_nodes = nodes @ pr_nodes result, pr_invalid = invalid @ pr_invalid result\<rparr> ast
          | PEG_FAIL \<Rightarrow> peg_return stop ast)
      else peg_return stop ast)"

text \<open>A node for a rule or a tag, and the result that refers to it.\<close>

definition add_node :: "byte list \<Rightarrow> byte list \<Rightarrow> byte list \<Rightarrow> peg_result \<Rightarrow> peg_nodes \<Rightarrow> peg_run" where
  "add_node input rule tag result ast =
     (let text = (if pr_start result < length input
                  then take (pr_end result - pr_start result) (drop (pr_start result) input) else []) in
      peg_return (result\<lparr>pr_nodes := [length ast]\<rparr>)
        (ast @ [\<lparr>nd_id = length ast, nd_rule = rule, nd_tag = tag, nd_start = pr_start result, nd_end = pr_end result,
           nd_text = text, nd_children = pr_nodes result, nd_partial = (pr_type result = PEG_NEED_MORE_INPUT),
           nd_invalid = pr_invalid result\<rparr>]))"

definition exec_parser ::
    "peg_call \<Rightarrow> peg_arena \<Rightarrow> byte list \<Rightarrow> bool \<Rightarrow> peg_parser \<Rightarrow> nat \<Rightarrow> peg_nodes \<Rightarrow> peg_run" where
  "exec_parser parse A input lenient p start ast =
     (case p of
        Epsilon_P \<Rightarrow> peg_return (peg_result_at PEG_SUCCESS start start) ast
      | Start_P \<Rightarrow> peg_return (peg_result_at (if start = 0 then PEG_SUCCESS else PEG_FAIL) start start) ast
      | End_P \<Rightarrow> peg_return (peg_result_at (if start \<ge> length input then PEG_SUCCESS else PEG_FAIL) start start) ast
      | Literal_P literal \<Rightarrow> peg_return (literal_from input lenient start literal start) ast
      | Sequence_P children \<Rightarrow> sequence_from parse start children start [] [] ast
      | Choice_P children \<Rightarrow> choice_from parse start children ast
      | Repetition_P sub min_count max_count \<Rightarrow>
          repetition_from (Suc (length input)) parse input lenient sub min_count max_count start start 0 [] [] ast
      | And_P sub \<Rightarrow> peg_bind (parse sub start ast) (\<lambda>result ast.
          peg_return (peg_result_at (pr_type result) start start) ast)
      | Not_P sub \<Rightarrow> peg_bind (parse sub start ast) (\<lambda>result ast.
          peg_return (peg_result_at
            (case pr_type result of
               PEG_SUCCESS \<Rightarrow> PEG_FAIL
             | PEG_NEED_MORE_INPUT \<Rightarrow> PEG_NEED_MORE_INPUT
             | PEG_FAIL \<Rightarrow> PEG_SUCCESS) start start) ast)
      | Any_P \<Rightarrow> peg_return (any_at input lenient start) ast
      | Space_P \<Rightarrow> peg_return (space_at input start) ast
      | Chars_P pattern ranges negated min_count max_count \<Rightarrow>
          peg_return (chars_from input lenient ranges negated min_count max_count start start 0) ast
      | String_P delimiter \<Rightarrow> peg_return (string_from input lenient delimiter start start) ast
      | Until_P delimiters \<Rightarrow> peg_return (until_at delimiters input lenient start) ast
      | Schema_P sub name raw \<Rightarrow> parse sub start ast
      | Rule_P name sub trigger \<Rightarrow> peg_bind (parse sub start ast) (\<lambda>result ast.
          if pr_type result \<noteq> PEG_FAIL then add_node input name [] result ast else peg_return result ast)
      | Ref_P name \<Rightarrow> (case get_rule A name of None \<Rightarrow> Some (Inl Rule_not_found) | Some rule \<Rightarrow> parse rule start ast)
      | Atomic_P sub \<Rightarrow> peg_bind (parse sub start ast) (\<lambda>result ast.
          peg_return (if pr_type result = PEG_NEED_MORE_INPUT then result\<lparr>pr_nodes := []\<rparr> else result) ast)
      | Tag_P sub tag \<Rightarrow> peg_bind (parse sub start ast) (\<lambda>result ast.
          if pr_type result \<noteq> PEG_FAIL then add_node input [] tag result ast else peg_return result ast)
      | Gbnf_P sub grammar \<Rightarrow> parse sub start ast
      | Ac_P sub delimiters \<Rightarrow> parse sub start ast)"

fun peg_parse :: "nat \<Rightarrow> peg_arena \<Rightarrow> byte list \<Rightarrow> bool \<Rightarrow> nat \<Rightarrow> nat \<Rightarrow> peg_nodes \<Rightarrow> peg_run" where
  "peg_parse 0 A input lenient i start ast = None"
| "peg_parse (Suc n) A input lenient i start ast =
     (if i \<ge> length (ar_parsers A) then Some (Inl Out_of_range)
      else exec_parser (peg_parse n A input lenient) A input lenient (ar_parsers A ! i) start ast)"

definition peg_parse_root :: "nat \<Rightarrow> peg_arena \<Rightarrow> byte list \<Rightarrow> bool \<Rightarrow> nat \<Rightarrow> peg_run" where
  "peg_parse_root n A input lenient start =
     (case ar_root A of None \<Rightarrow> Some (Inl No_root) | Some root \<Rightarrow> peg_parse n A input lenient root start [])"

text \<open>The text of a node with every run of undecodable bytes replaced by U+FFFD.\<close>

fun sanitize_from :: "byte list \<Rightarrow> nat \<Rightarrow> nat \<Rightarrow> nat \<Rightarrow> invalid_utf8 list \<Rightarrow> byte list" where
  "sanitize_from text start stop seg_start [] = take (stop - seg_start) (drop (seg_start - start) text)"
| "sanitize_from text start stop seg_start (r # rs) =
     take (iv_pos r - seg_start) (drop (seg_start - start) text) @ [0xEF, 0xBF, 0xBD]
       @ sanitize_from text start stop (iv_pos r + iv_len r) rs"

definition sanitized_text :: "peg_node \<Rightarrow> byte list" where
  "sanitized_text nd =
     (if nd_invalid nd = [] then nd_text nd
      else sanitize_from (nd_text nd) (nd_start nd) (nd_end nd) (nd_start nd) (nd_invalid nd))"

end
