(* ===== verification/Peg_Spans.thy ===== *)
theory Peg_Spans
  imports Peg_Parser
begin

section \<open>What a run of the output parser returns\<close>

text \<open>
  The invariant of every run: the result spans a part of the input from the position of the call, its nodes and the
  runs of undecodable bytes lie in this part in ascending order, and so it goes on inside each node. More
  input is asked for only by a lenient parser.
\<close>

subsection \<open>Spans\<close>

lemma consumed_bound:
  assumes "pos < length input"
  shows "pos + bytes_consumed (common_parse_utf8_codepoint input pos) \<le> length input"
proof -
  have conts: "check_conts input pos [i..<j] = Some r \<Longrightarrow> i \<le> length input - pos \<Longrightarrow> pos + bytes_consumed r \<le> length input" for i j r
  proof (induction "j - i" arbitrary: i)
    case (Suc k)
    then have "[i..<j] = i # [Suc i..<j]" by (simp add: upt_rec)
    with Suc.prems Suc.hyps(1) [of "Suc i"] Suc.hyps(2) assms show ?case by (auto simp: result_of_def split: if_splits)
  qed simp
  have all: "check_conts input pos [1..<j] = None \<Longrightarrow> pos + j \<le> length input" if "1 < j" for j
  proof -
    have "check_conts input pos is = None \<Longrightarrow> \<forall>i \<in> set is. pos + i < length input" for "is"
      by (induction "is") (auto split: if_splits)
    from this [of "[1..<j]"] that show "check_conts input pos [1..<j] = None \<Longrightarrow> ?thesis" by (force dest: bspec [of _ _ "j - 1"])
  qed
  show ?thesis
    using assms conts [of 1 3] conts [of 1 4] all [of 3] all [of 4]
    by (auto simp: common_parse_utf8_codepoint_def Let_def result_of_def split: option.splits)
qed

definition run_ok :: "byte list \<Rightarrow> invalid_utf8 \<Rightarrow> bool" where
  "run_ok input r \<longleftrightarrow> iv_pos r < length input \<and> status (common_parse_utf8_codepoint input (iv_pos r)) \<noteq> Success
     \<and> iv_len r = bytes_consumed (common_parse_utf8_codepoint input (iv_pos r))"

fun runs_in :: "nat \<Rightarrow> nat \<Rightarrow> invalid_utf8 list \<Rightarrow> bool" where
  "runs_in a b [] = (a \<le> b)"
| "runs_in a b (r # rs) = (a \<le> iv_pos r \<and> runs_in (iv_pos r + iv_len r) b rs)"

fun nodes_in :: "peg_nodes \<Rightarrow> nat \<Rightarrow> nat \<Rightarrow> nat list \<Rightarrow> bool" where
  "nodes_in ast a b [] = (a \<le> b)"
| "nodes_in ast a b (i # is) =
     (i < length ast \<and> a \<le> nd_start (ast ! i) \<and> nd_start (ast ! i) \<le> nd_end (ast ! i) \<and> nodes_in ast (nd_end (ast ! i)) b is)"

definition node_ok :: "byte list \<Rightarrow> peg_nodes \<Rightarrow> nat \<Rightarrow> bool" where
  "node_ok input ast i \<longleftrightarrow> (let nd = ast ! i in
     nd_id nd = i \<and> nd_end nd \<le> length input
     \<and> nd_text nd = take (nd_end nd - nd_start nd) (drop (nd_start nd) input)
     \<and> nodes_in (take i ast) (nd_start nd) (nd_end nd) (nd_children nd)
     \<and> runs_in (nd_start nd) (nd_end nd) (nd_invalid nd) \<and> (\<forall>r \<in> set (nd_invalid nd). run_ok input r))"

definition ast_ok :: "byte list \<Rightarrow> peg_nodes \<Rightarrow> bool" where
  "ast_ok input ast \<longleftrightarrow> (\<forall>i < length ast. node_ok input ast i)"

definition result_ok :: "byte list \<Rightarrow> bool \<Rightarrow> nat \<Rightarrow> peg_nodes \<Rightarrow> peg_result \<Rightarrow> bool" where
  "result_ok input lenient start ast r \<longleftrightarrow>
     pr_start r = start \<and> start \<le> pr_end r \<and> pr_end r \<le> length input
     \<and> (pr_type r = PEG_NEED_MORE_INPUT \<longrightarrow> lenient)
     \<and> (pr_type r = PEG_FAIL \<longrightarrow> pr_nodes r = [] \<and> pr_invalid r = [])
     \<and> runs_in start (pr_end r) (pr_invalid r) \<and> (\<forall>r \<in> set (pr_invalid r). run_ok input r)
     \<and> nodes_in ast start (pr_end r) (pr_nodes r)"

lemma runs_in_le: "runs_in a b rs \<Longrightarrow> a \<le> b"
  by (induction rs arbitrary: a) fastforce+

lemma runs_in_append: "runs_in a b rs \<Longrightarrow> runs_in b c ss \<Longrightarrow> runs_in a c (rs @ ss)"
  by (induction rs arbitrary: a) (auto dest: runs_in_le elim: runs_in.elims(2))

lemma nodes_in_le: "nodes_in ast a b is \<Longrightarrow> a \<le> b"
  by (induction "is" arbitrary: a) fastforce+

lemma nodes_in_append: "nodes_in ast a b is \<Longrightarrow> nodes_in ast b c js \<Longrightarrow> nodes_in ast a c (is @ js)"
  by (induction "is" arbitrary: a) (auto dest: nodes_in_le elim: nodes_in.elims(2))

lemma nodes_in_mono: "nodes_in ast a b is \<Longrightarrow> nodes_in (ast @ new) a b is"
  by (induction "is" arbitrary: a) (auto simp: nth_append)

lemma ast_ok_snoc:
  assumes "ast_ok input ast" and "node_ok input (ast @ [nd]) (length ast)"
  shows "ast_ok input (ast @ [nd])"
  unfolding ast_ok_def
proof (intro allI impI)
  fix i assume i: "i < length (ast @ [nd])"
  show "node_ok input (ast @ [nd]) i"
  proof (cases "i < length ast")
    case True
    then have "node_ok input ast i" using assms(1) by (simp add: ast_ok_def)
    with True show ?thesis by (simp add: node_ok_def nth_append)
  next
    case False
    with i have "i = length ast" by simp
    with assms(2) show ?thesis by simp
  qed
qed

subsection \<open>Parsers of characters\<close>

lemma result_ok_at:
  "start \<le> stop \<Longrightarrow> stop \<le> length input \<Longrightarrow> (t = PEG_NEED_MORE_INPUT \<longrightarrow> lenient) \<Longrightarrow>
   result_ok input lenient start ast (peg_result_at t start stop)"
  by (simp add: result_ok_def peg_result_at_def)

lemma literal_ok: "start \<le> pos \<Longrightarrow> pos \<le> length input \<Longrightarrow> result_ok input lenient start ast (literal_from input lenient start cs pos)"
  by (induction cs arbitrary: pos) (auto intro!: result_ok_at)

lemma success_bound: "status (common_parse_utf8_codepoint input pos) = Success \<Longrightarrow>
    pos + bytes_consumed (common_parse_utf8_codepoint input pos) \<le> length input"
  using consumed_bound parse_success_pos by blast

lemma any_ok: "start \<le> length input \<Longrightarrow> result_ok input lenient start ast (any_at input lenient start)"
  using success_bound [of input start] by (auto simp: any_at_def Let_def intro!: result_ok_at split: utf8_status.split)

lemma space_ok: "start \<le> length input \<Longrightarrow> result_ok input lenient start ast (space_at input start)"
  using length_takeWhile_le [of isspace "drop start input"] unfolding space_at_def by (intro result_ok_at) auto

lemma chars_ok:
  "start \<le> pos \<Longrightarrow> pos \<le> length input \<Longrightarrow>
   result_ok input lenient start ast (chars_from input lenient ranges negated min_count max_count start pos match_count)"
proof (induction input lenient ranges negated min_count max_count start pos match_count rule: chars_from.induct)
  case (1 input lenient ranges negated min_count max_count start pos match_count)
  have stop: "result_ok input lenient start ast (chars_result input lenient min_count start pos match_count)"
    using 1(2,3) by (auto simp: chars_result_def intro!: result_ok_at)
  have step: "result_ok input lenient start ast
      (chars_from input lenient ranges negated min_count max_count start
        (pos + bytes_consumed (common_parse_utf8_codepoint input pos)) (match_count + 1))"
    if "max_count = - 1 \<or> match_count < max_count" "status (common_parse_utf8_codepoint input pos) = Success"
      "class_matches ranges negated (codepoint (common_parse_utf8_codepoint input pos))"
    using that 1(2) success_bound [OF that(2)] by (intro 1(1)) auto
  show ?case
    using stop step 1(2,3)
    by (subst chars_from.simps) (auto simp: Let_def intro!: result_ok_at split: utf8_status.split)
qed

lemma unicode_digits_ok:
  "start \<le> pos \<Longrightarrow> pos \<le> length input \<Longrightarrow>
   result_ok input lenient start ast (fst (unicode_digits k input lenient start pos))
   \<and> pos \<le> snd (unicode_digits k input lenient start pos) \<and> snd (unicode_digits k input lenient start pos) \<le> length input"
proof (induction k arbitrary: pos)
  case 0
  then show ?case by (simp add: result_ok_at)
next
  case (Suc k)
  show ?case
  proof (cases "pos < length input \<and> is_hex_digit (input ! pos)")
    case True
    then have "unicode_digits (Suc k) input lenient start pos = unicode_digits k input lenient start (Suc pos)" by simp
    then show ?thesis using Suc.IH [of "Suc pos"] Suc.prems(1) True by simp
  next
    case False
    then show ?thesis using Suc.prems by (auto simp: result_ok_at)
  qed
qed

lemma escape_ok:
  assumes "start \<le> pos" and "pos < length input" and "handle_escape_sequence input lenient start pos delimiter = (r, pos')"
  shows "result_ok input lenient start ast r \<and> (pr_type r = PEG_SUCCESS \<longrightarrow> start \<le> pos' \<and> pos' \<le> length input)"
proof -
  obtain u v where u: "unicode_digits 4 input lenient start (Suc (Suc pos)) = (u, v)" by force
  have "Suc (Suc pos) \<le> length input \<Longrightarrow> result_ok input lenient start ast u \<and> Suc (Suc pos) \<le> v \<and> v \<le> length input"
    using unicode_digits_ok [of start "Suc (Suc pos)" input lenient ast 4] assms(1) u by simp
  then show ?thesis
    using assms unfolding handle_escape_sequence_def handle_unicode_escape_def Let_def
    by (cases "Suc pos < length input") (simp_all add: u result_ok_at peg_result_at_def split: if_split_asm, auto simp: result_ok_def)
qed

lemma string_ok:
  "start \<le> pos \<Longrightarrow> pos \<le> length input \<Longrightarrow> result_ok input lenient start ast (string_from input lenient delimiter start pos)"
proof (induction input lenient delimiter start pos rule: string_from.induct)
  case (1 input lenient delimiter start pos)
  show ?case
  proof (cases "pos < length input \<and> input ! pos \<noteq> delimiter")
    case False
    then show ?thesis using 1(3,4) by (subst string_from.simps) (auto intro!: result_ok_at)
  next
    case t: True
    show ?thesis
    proof (cases "input ! pos = 92")
      case True
      obtain r pos' where e: "handle_escape_sequence input lenient start pos delimiter = (r, pos')" by force
      note ok = escape_ok [OF 1(3) _ e, of ast]
      have "pr_type r = PEG_SUCCESS \<Longrightarrow> result_ok input lenient start ast (string_from input lenient delimiter start pos')"
        using 1(1) [OF _ refl _ True e [symmetric] refl] ok t by blast
      with t True e ok show ?thesis by (subst string_from.simps) (simp add: Let_def)
    next
      case False
      have "status (common_parse_utf8_codepoint input pos) = Success \<Longrightarrow> result_ok input lenient start ast
          (string_from input lenient delimiter start (pos + bytes_consumed (common_parse_utf8_codepoint input pos)))"
        using 1(2) [OF _ refl _ False refl] t 1(3) success_bound [of input pos] by force
      with t False 1(3,4) show ?thesis
        by (subst string_from.simps) (auto simp: Let_def intro!: result_ok_at split: utf8_status.split)
    qed
  qed
qed

lemma until_result_ok:
  "start \<le> stop \<Longrightarrow> stop \<le> length input \<Longrightarrow> (t = PEG_NEED_MORE_INPUT \<longrightarrow> lenient) \<Longrightarrow> t \<noteq> PEG_FAIL \<Longrightarrow>
   runs_in start stop invalid \<Longrightarrow> \<forall>r \<in> set invalid. run_ok input r \<Longrightarrow>
   result_ok input lenient start ast (until_result t start stop invalid)"
  by (simp add: result_ok_def until_result_def peg_result_at_def)

lemma until_ok:
  "start \<le> pos \<Longrightarrow> pos \<le> length input \<Longrightarrow> last_pos = pos \<Longrightarrow> runs_in start pos invalid \<Longrightarrow> \<forall>r \<in> set invalid. run_ok input r \<Longrightarrow>
   result_ok input lenient start ast (until_from matcher input lenient start pos last_pos invalid)"
proof (induction matcher input lenient start pos last_pos invalid rule: until_from.induct)
  case (1 matcher input lenient start pos last_pos invalid)
  let ?u = "common_parse_utf8_codepoint input pos" and ?stop = "\<lambda>t. until_result t start pos invalid"
  have stop: "(t = PEG_NEED_MORE_INPUT \<longrightarrow> lenient) \<Longrightarrow> t \<noteq> PEG_FAIL \<Longrightarrow> result_ok input lenient start ast (?stop t)" for t
    using 1(3,4,6,7) by (simp add: until_result_ok)
  show ?case
  proof (cases "pos < length input")
    case False
    then show ?thesis using stop [of PEG_SUCCESS] stop [of PEG_NEED_MORE_INPUT] 1(4,5) by (subst until_from.simps) auto
  next
    case True
    note bound = consumed_bound [OF True]
    have bad: "result_ok input lenient start ast (until_from matcher input lenient start (pos + bytes_consumed ?u) (pos + bytes_consumed ?u)
        (invalid @ [\<lparr>iv_pos = pos, iv_len = bytes_consumed ?u\<rparr>]))"
      if "\<not> (status ?u = Incomplete \<and> lenient)" "status ?u \<noteq> Success"
    proof (rule 1(1) [OF True refl refl that])
      show "runs_in start (pos + bytes_consumed ?u) (invalid @ [\<lparr>iv_pos = pos, iv_len = bytes_consumed ?u\<rparr>])"
        by (rule runs_in_append [OF 1(6)]) simp
      show "\<forall>r \<in> set (invalid @ [\<lparr>iv_pos = pos, iv_len = bytes_consumed ?u\<rparr>]). run_ok input r"
        using 1(7) that(2) True by (simp add: run_ok_def)
    qed (use 1(3) bound in simp_all)
    have good: "result_ok input lenient start ast (until_from matcher input lenient start (pos + bytes_consumed ?u)
        (pos + bytes_consumed ?u) invalid)" if "status ?u = Success" "check_at matcher input pos = NO_MATCH"
    proof (rule 1(2) [OF True refl refl])
      show "runs_in start (pos + bytes_consumed ?u) invalid"
        using runs_in_append [OF 1(6), of "pos + bytes_consumed ?u" "[]"] by simp
    qed (use that 1(3,7) bound in simp_all)
    show ?thesis
      using True stop bad good 1(5) by (subst until_from.simps) (auto simp: Let_def)
  qed
qed

subsection \<open>Combinators\<close>

text \<open>A postcondition of a run, for the runs that return a result.\<close>

definition peg_post :: "(peg_result \<Rightarrow> peg_nodes \<Rightarrow> bool) \<Rightarrow> peg_run \<Rightarrow> bool" where
  "peg_post Q m \<longleftrightarrow> (\<forall>r ast. m = Some (Inr (r, ast)) \<longrightarrow> Q r ast)"

lemma peg_post_return [simp]: "peg_post Q (peg_return r ast) \<longleftrightarrow> Q r ast"
  by (simp add: peg_post_def peg_return_def)

lemma peg_post_error [simp]: "peg_post Q None" "peg_post Q (Some (Inl e))"
  by (simp_all add: peg_post_def)

lemma peg_post_bind:
  "peg_post Q m \<Longrightarrow> (\<And>r ast. Q r ast \<Longrightarrow> peg_post R (f r ast)) \<Longrightarrow> peg_post R (peg_bind m f)"
  by (auto simp: peg_post_def peg_bind_def split: option.splits sum.splits prod.splits)

definition peg_good :: "byte list \<Rightarrow> bool \<Rightarrow> nat \<Rightarrow> peg_nodes \<Rightarrow> peg_result \<Rightarrow> peg_nodes \<Rightarrow> bool" where
  "peg_good input lenient start ast r ast' \<longleftrightarrow> result_ok input lenient start ast' r \<and> ast_ok input ast' \<and> prefix ast ast'"

text \<open>What a sequence or a repetition has collected on the way from \<open>start\<close> to \<open>pos\<close>.\<close>

definition acc_ok ::
    "byte list \<Rightarrow> nat \<Rightarrow> peg_nodes \<Rightarrow> nat \<Rightarrow> nat list \<Rightarrow> invalid_utf8 list \<Rightarrow> peg_nodes \<Rightarrow> bool" where
  "acc_ok input start ast0 pos nodes invalid ast \<longleftrightarrow>
     start \<le> pos \<and> pos \<le> length input \<and> ast_ok input ast \<and> prefix ast0 ast
     \<and> runs_in start pos invalid \<and> (\<forall>r \<in> set invalid. run_ok input r) \<and> nodes_in ast start pos nodes"

lemma acc_init: "start \<le> length input \<Longrightarrow> ast_ok input ast \<Longrightarrow> acc_ok input start ast start [] [] ast"
  by (simp add: acc_ok_def)

lemma acc_step:
  assumes "acc_ok input start ast0 pos nodes invalid ast" and "peg_good input lenient pos ast r ast'"
  shows "acc_ok input start ast0 (pr_end r) (nodes @ pr_nodes r) (invalid @ pr_invalid r) ast'"
proof -
  from assms(2) obtain new where new: "ast' = ast @ new" by (auto simp: peg_good_def prefix_def)
  have "nodes_in ast' start pos nodes" using assms(1) nodes_in_mono unfolding new acc_ok_def by blast
  moreover have "prefix ast0 ast'" using assms by (auto simp: acc_ok_def peg_good_def intro: prefix_order.trans)
  ultimately show ?thesis using assms
    by (auto simp: acc_ok_def peg_good_def result_ok_def intro: runs_in_append nodes_in_append)
qed

lemma acc_return:
  assumes "acc_ok input start ast0 pos nodes invalid ast" and "t = PEG_NEED_MORE_INPUT \<longrightarrow> lenient" and "t \<noteq> PEG_FAIL"
  shows "peg_good input lenient start ast0 \<lparr>pr_type = t, pr_start = start, pr_end = pos, pr_nodes = nodes, pr_invalid = invalid\<rparr> ast"
  using assms by (simp add: acc_ok_def peg_good_def result_ok_def)

lemma acc_at:
  assumes "acc_ok input start ast0 pos nodes invalid ast" and "start \<le> stop" and "stop \<le> length input"
    and "t = PEG_NEED_MORE_INPUT \<longrightarrow> lenient"
  shows "peg_good input lenient start ast0 (peg_result_at t start stop) ast"
  using assms by (simp add: acc_ok_def peg_good_def result_ok_at)

lemma add_node_spans:
  assumes "peg_good input lenient start ast0 r ast" and "pr_type r \<noteq> PEG_FAIL"
  shows "peg_post (peg_good input lenient start ast0) (add_node input rule tag r ast)"
proof -
  let ?nd = "\<lparr>nd_id = length ast, nd_rule = rule, nd_tag = tag, nd_start = pr_start r, nd_end = pr_end r,
    nd_text = (if pr_start r < length input then take (pr_end r - pr_start r) (drop (pr_start r) input) else []),
    nd_children = pr_nodes r, nd_partial = (pr_type r = PEG_NEED_MORE_INPUT), nd_invalid = pr_invalid r\<rparr>"
  have r: "result_ok input lenient start ast r" "ast_ok input ast" "prefix ast0 ast" using assms(1) by (simp_all add: peg_good_def)
  then have "node_ok input (ast @ [?nd]) (length ast)" by (simp add: node_ok_def result_ok_def)
  with r(2) have "ast_ok input (ast @ [?nd])" by (rule ast_ok_snoc)
  moreover have "result_ok input lenient start (ast @ [?nd]) (r\<lparr>pr_nodes := [length ast]\<rparr>)"
    using r(1) assms(2) by (simp add: result_ok_def)
  ultimately show ?thesis using r(3) by (simp add: add_node_def Let_def peg_good_def prefix_order.trans [OF _ prefixI])
qed

text \<open>The contract of a call, and what the combinators make of it.\<close>

locale peg_caller =
  fixes parse :: peg_call and input :: "byte list" and lenient :: bool
  assumes call: "pos \<le> length input \<Longrightarrow> ast_ok input ast \<Longrightarrow> peg_post (peg_good input lenient pos ast) (parse c pos ast)"
begin

lemma acc_call:
  "acc_ok input start ast0 pos nodes invalid ast \<Longrightarrow>
   (\<And>r ast'. acc_ok input start ast0 (pr_end r) (nodes @ pr_nodes r) (invalid @ pr_invalid r) ast' \<Longrightarrow>
      pos \<le> pr_end r \<Longrightarrow> (pr_type r = PEG_NEED_MORE_INPUT \<longrightarrow> lenient) \<Longrightarrow> acc_ok input start ast0 pos nodes invalid ast' \<Longrightarrow>
      peg_post Q (f r ast')) \<Longrightarrow>
   peg_post Q (peg_bind (parse c pos ast) f)"
proof (rule peg_post_bind [OF call])
  assume acc: "acc_ok input start ast0 pos nodes invalid ast"
  then show "pos \<le> length input" "ast_ok input ast" by (simp_all add: acc_ok_def)
  assume f: "\<And>r ast'. acc_ok input start ast0 (pr_end r) (nodes @ pr_nodes r) (invalid @ pr_invalid r) ast' \<Longrightarrow>
      pos \<le> pr_end r \<Longrightarrow> (pr_type r = PEG_NEED_MORE_INPUT \<longrightarrow> lenient) \<Longrightarrow> acc_ok input start ast0 pos nodes invalid ast' \<Longrightarrow>
      peg_post Q (f r ast')"
  fix r ast' assume good: "peg_good input lenient pos ast r ast'"
  then obtain new where new: "ast' = ast @ new" by (auto simp: peg_good_def prefix_def)
  have "acc_ok input start ast0 pos nodes invalid ast'"
    using acc good nodes_in_mono [of ast start pos nodes new] unfolding new by (auto simp: acc_ok_def peg_good_def)
  with f [OF acc_step [OF acc good]] good show "peg_post Q (f r ast')" by (simp add: peg_good_def result_ok_def)
qed

lemma sequence_spans:
  "acc_ok input start ast0 pos nodes invalid ast \<Longrightarrow>
   peg_post (peg_good input lenient start ast0) (sequence_from parse start cs pos nodes invalid ast)"
proof (induction cs arbitrary: pos nodes invalid ast)
  case Nil
  then show ?case by (simp add: acc_return)
next
  case (Cons c cs)
  show ?case
    unfolding sequence_from.simps
  proof (rule acc_call [OF Cons.prems])
    fix r ast' assume r: "acc_ok input start ast0 (pr_end r) (nodes @ pr_nodes r) (invalid @ pr_invalid r) ast'"
      "pr_type r = PEG_NEED_MORE_INPUT \<longrightarrow> lenient"
    have "start \<le> pr_end r" "pr_end r \<le> length input" using r(1) by (simp_all add: acc_ok_def)
    with r Cons.IH [OF r(1)] acc_at [OF r(1)] acc_return [OF r(1)]
    show "peg_post (peg_good input lenient start ast0)
        (if pr_type r = PEG_FAIL then peg_return (peg_result_at PEG_FAIL start (pr_end r)) ast'
         else let nodes = nodes @ pr_nodes r; invalid = invalid @ pr_invalid r in
           if pr_type r = PEG_NEED_MORE_INPUT then
             peg_return \<lparr>pr_type = PEG_NEED_MORE_INPUT, pr_start = start, pr_end = pr_end r,
               pr_nodes = nodes, pr_invalid = invalid\<rparr> ast'
           else sequence_from parse start cs (pr_end r) nodes invalid ast')"
      by (simp add: Let_def)
  qed
qed

lemma choice_spans:
  "start \<le> length input \<Longrightarrow> ast_ok input ast \<Longrightarrow> prefix ast0 ast \<Longrightarrow>
   peg_post (peg_good input lenient start ast0) (choice_from parse start cs ast)"
proof (induction cs arbitrary: ast)
  case Nil
  then show ?case by (simp add: peg_good_def result_ok_at)
next
  case (Cons c cs)
  show ?case
    unfolding choice_from.simps
  proof (rule peg_post_bind [OF call [OF Cons.prems(1,2)]])
    fix r ast' assume r: "peg_good input lenient start ast r ast'"
    then have "peg_good input lenient start ast0 r ast'" "ast_ok input ast'" "prefix ast0 ast'"
      using Cons.prems(3) by (auto simp: peg_good_def intro: prefix_order.trans)
    with Cons.IH [OF Cons.prems(1)] show "peg_post (peg_good input lenient start ast0)
        (if pr_type r \<noteq> PEG_FAIL then peg_return r ast' else choice_from parse start cs ast')" by simp
  qed
qed

lemma repetition_stop:
  "acc_ok input start ast0 pos nodes invalid ast \<Longrightarrow>
   peg_good input lenient start ast0 (repetition_result input lenient min_count start pos match_count nodes invalid) ast"
proof -
  assume acc: "acc_ok input start ast0 pos nodes invalid ast"
  then have "start \<le> pos" "pos \<le> length input" by (simp_all add: acc_ok_def)
  with acc_at [OF acc] acc_return [OF acc] show ?thesis by (simp add: repetition_result_def)
qed

lemma repetition_spans:
  "acc_ok input start ast0 pos nodes invalid ast \<Longrightarrow>
   peg_post (peg_good input lenient start ast0)
     (repetition_from k parse input lenient c min_count max_count start pos match_count nodes invalid ast)"
proof (induction k arbitrary: pos match_count nodes invalid ast)
  case (Suc k)
  show ?case
  proof (cases "(max_count = - 1 \<or> match_count < max_count) \<and> pos < length input")
    case True
    have "peg_post (peg_good input lenient start ast0)
        (peg_bind (parse c pos ast) (\<lambda>r ast. case pr_type r of
            PEG_SUCCESS \<Rightarrow>
              if pr_end r = pos then peg_return (repetition_result input lenient min_count start pos match_count nodes invalid) ast
              else repetition_from k parse input lenient c min_count max_count start (pr_end r) (match_count + 1)
                (nodes @ pr_nodes r) (invalid @ pr_invalid r) ast
          | PEG_NEED_MORE_INPUT \<Rightarrow>
              peg_return \<lparr>pr_type = PEG_NEED_MORE_INPUT, pr_start = start, pr_end = pr_end r,
                pr_nodes = nodes @ pr_nodes r, pr_invalid = invalid @ pr_invalid r\<rparr> ast
          | PEG_FAIL \<Rightarrow> peg_return (repetition_result input lenient min_count start pos match_count nodes invalid) ast))"
    proof (rule acc_call [OF Suc.prems])
      fix r ast' assume r: "acc_ok input start ast0 (pr_end r) (nodes @ pr_nodes r) (invalid @ pr_invalid r) ast'"
        "pr_type r = PEG_NEED_MORE_INPUT \<longrightarrow> lenient" "acc_ok input start ast0 pos nodes invalid ast'"
      show "peg_post (peg_good input lenient start ast0) (case pr_type r of
            PEG_SUCCESS \<Rightarrow>
              if pr_end r = pos then peg_return (repetition_result input lenient min_count start pos match_count nodes invalid) ast'
              else repetition_from k parse input lenient c min_count max_count start (pr_end r) (match_count + 1)
                (nodes @ pr_nodes r) (invalid @ pr_invalid r) ast'
          | PEG_NEED_MORE_INPUT \<Rightarrow>
              peg_return \<lparr>pr_type = PEG_NEED_MORE_INPUT, pr_start = start, pr_end = pr_end r,
                pr_nodes = nodes @ pr_nodes r, pr_invalid = invalid @ pr_invalid r\<rparr> ast'
          | PEG_FAIL \<Rightarrow> peg_return (repetition_result input lenient min_count start pos match_count nodes invalid) ast')"
        using Suc.IH [OF r(1)] acc_return [OF r(1)] r(2) repetition_stop [OF r(3)] by (cases "pr_type r") simp_all
    qed
    with True show ?thesis by (simp add: Let_def)
  next
    case False
    then show ?thesis using repetition_stop [OF Suc.prems] by (auto simp: Let_def)
  qed
qed simp

lemma exec_spans:
  assumes "start \<le> length input" and "ast_ok input ast"
  shows "peg_post (peg_good input lenient start ast) (exec_parser parse A input lenient p start ast)"
proof -
  note acc = acc_init [OF assms]
  have leaf: "result_ok input lenient start ast r \<Longrightarrow> peg_good input lenient start ast r ast" for r
    using assms(2) by (simp add: peg_good_def)
  have at: "(t = PEG_NEED_MORE_INPUT \<longrightarrow> lenient) \<Longrightarrow> peg_good input lenient start ast (peg_result_at t start start) ast" for t
    using leaf result_ok_at assms(1) by simp
  have same: "peg_post (peg_good input lenient start ast) (peg_bind (parse c start ast) f)"
    if "\<And>r ast'. peg_good input lenient start ast r ast' \<Longrightarrow> peg_post (peg_good input lenient start ast) (f r ast')" for c f
    by (rule peg_post_bind [OF call [OF assms] that])
  have looked: "peg_good input lenient start ast (peg_result_at t start start) ast'"
    if "peg_good input lenient start ast r ast'" "t = PEG_NEED_MORE_INPUT \<longrightarrow> pr_type r = PEG_NEED_MORE_INPUT" for r ast' t
    using that assms(1) by (auto simp: peg_good_def result_ok_def peg_result_at_def)
  show ?thesis
  proof (cases p)
    case (Not_P c)
    then show ?thesis by (auto simp: exec_parser_def intro!: same looked split: peg_type.split)
  next
    case (Until_P ds)
    then show ?thesis using until_ok [of start start input start "[]"] assms(1) by (simp add: exec_parser_def until_at_def leaf)
  next
    case (Atomic_P c)
    then show ?thesis by (auto simp: exec_parser_def peg_good_def result_ok_def intro!: same)
  qed (use assms(1) in \<open>auto simp: exec_parser_def at leaf literal_ok any_ok space_ok chars_ok string_ok call assms
      sequence_spans [OF acc] repetition_spans [OF acc] choice_spans add_node_spans simp del: repetition_from.simps intro!: same looked split: option.split\<close>)
qed

end

lemma peg_parse_caller: "peg_caller (peg_parse n A input lenient) input lenient"
proof (induction n)
  case 0
  show ?case by unfold_locales simp
next
  case (Suc n)
  show ?case by unfold_locales (simp add: peg_caller.exec_spans [OF Suc.IH])
qed

interpretation peg_run: peg_caller "peg_parse n A input lenient" input lenient for n A input lenient
  by (rule peg_parse_caller)

text \<open>C12. The result of a run. From a start inside the input a run that returns spans a part of the input from the
  start on; it asks for more input only leniently; the nodes it refers to exist, lie in this part and follow one another
  without overlap, as do the recorded runs of undecodable bytes, each of which is one; a failure
  refers to nothing. Every node of the arena has its index as id, the text between its bounds, and the same
  for its children, which have smaller indices, and for its undecodable bytes.\<close>

theorem peg_run_spans:
  assumes "start \<le> length input" and "peg_parse_root n A input lenient start = Some (Inr (r, ast))"
  shows "result_ok input lenient start ast r \<and> ast_ok input ast"
proof -
  from assms(2) obtain root where "peg_parse n A input lenient root start [] = Some (Inr (r, ast))"
    by (auto simp: peg_parse_root_def split: option.splits)
  with peg_run.call [where n = n and A = A and lenient = lenient and c = root and ast = "[]", OF assms(1)] show ?thesis by (simp add: ast_ok_def peg_post_def peg_good_def)
qed

definition nested_arena :: peg_arena where
  "nested_arena = \<lparr>ar_parsers = [Rule_P [101] 1 False, Choice_P [2, 5], Sequence_P [3, 6, 4], Literal_P [40], Literal_P [41],
      Tag_P 7 [120], Ref_P [101], Until_P [[41]]], ar_rules = [([101], 0)], ar_root = Some 0\<rparr>"

lemma nested_run:
  "case peg_parse_root 30 nested_arena [40, 40, 120, 0xFF, 41, 41] False 0 of
     Some (Inr (r, ast)) \<Rightarrow> pr_type r = PEG_SUCCESS \<and> pr_end r = 6 \<and> length ast = 4 | _ \<Rightarrow> False"
  by code_simp

lemma peg_run_spans_witness:
  "\<exists>r ast. peg_parse_root 30 nested_arena [40, 40, 120, 0xFF, 41, 41] False 0 = Some (Inr (r, ast)) \<and> pr_end r = 6
     \<and> length ast = 4 \<and> result_ok [40, 40, 120, 0xFF, 41, 41] False 0 ast r \<and> ast_ok [40, 40, 120, 0xFF, 41, 41] ast"
proof -
  from nested_run obtain r ast where r: "peg_parse_root 30 nested_arena [40, 40, 120, 0xFF, 41, 41] False 0 = Some (Inr (r, ast))"
    "pr_end r = 6" "length ast = 4" by (auto split: option.splits sum.splits prod.splits)
  from peg_run_spans [OF _ r(1)] r show ?thesis by auto
qed

end
