(* ===== verification/Peg_Returns.thy ===== *)
theory Peg_Returns
  imports Peg_Spans
begin

section \<open>When the output parser returns\<close>

text \<open>
  The interpreter recurses from parser to parser without a check against left recursion. It returns on every input
  if the parsers can be ranked so that a parser calls another one at its own position only if that has a smaller
  rank; a parser may be called after one that can succeed on nothing.
\<close>

subsection \<open>Success without input\<close>

text \<open>\<open>N\<close> holds the parsers that may succeed without consuming input.\<close>

fun may_be_empty :: "peg_arena \<Rightarrow> nat list \<Rightarrow> peg_parser \<Rightarrow> bool" where
  "may_be_empty A N (Literal_P literal) = (literal = [])"
| "may_be_empty A N (Sequence_P children) = (set children \<subseteq> set N)"
| "may_be_empty A N (Choice_P children) = (\<exists>c \<in> set children. c \<in> set N)"
| "may_be_empty A N (Repetition_P c min_count max_count) = (min_count \<le> 0)"
| "may_be_empty A N Any_P = False"
| "may_be_empty A N (Chars_P pattern ranges negated min_count max_count) = (min_count \<le> 0)"
| "may_be_empty A N (Schema_P c name raw) = (c \<in> set N)"
| "may_be_empty A N (Rule_P name c trigger) = (c \<in> set N)"
| "may_be_empty A N (Ref_P name) = (case get_rule A name of None \<Rightarrow> False | Some c \<Rightarrow> c \<in> set N)"
| "may_be_empty A N (Atomic_P c) = (c \<in> set N)"
| "may_be_empty A N (Tag_P c tag) = (c \<in> set N)"
| "may_be_empty A N (Gbnf_P c grammar) = (c \<in> set N)"
| "may_be_empty A N (Ac_P c delimiters) = (c \<in> set N)"
| "may_be_empty A N p = True"

text \<open>The parsers called at the position of the call.\<close>

fun first_of :: "nat list \<Rightarrow> nat list \<Rightarrow> nat list" where
  "first_of N [] = []"
| "first_of N (c # cs) = c # (if c \<in> set N then first_of N cs else [])"

fun called_first :: "peg_arena \<Rightarrow> nat list \<Rightarrow> peg_parser \<Rightarrow> nat list" where
  "called_first A N (Sequence_P children) = first_of N children"
| "called_first A N (Choice_P children) = children"
| "called_first A N (Repetition_P c min_count max_count) = [c]"
| "called_first A N (And_P c) = [c]"
| "called_first A N (Not_P c) = [c]"
| "called_first A N (Schema_P c name raw) = [c]"
| "called_first A N (Rule_P name c trigger) = [c]"
| "called_first A N (Ref_P name) = (case get_rule A name of None \<Rightarrow> [] | Some c \<Rightarrow> [c])"
| "called_first A N (Atomic_P c) = [c]"
| "called_first A N (Tag_P c tag) = [c]"
| "called_first A N (Gbnf_P c grammar) = [c]"
| "called_first A N (Ac_P c delimiters) = [c]"
| "called_first A N p = []"

definition peg_guarded :: "peg_arena \<Rightarrow> nat list \<Rightarrow> nat list \<Rightarrow> bool" where
  "peg_guarded A N ranks \<longleftrightarrow> (let n = length (ar_parsers A) in
     length ranks = n \<and> list_all (\<lambda>i. may_be_empty A N (ar_parsers A ! i) \<longrightarrow> i \<in> set N) [0..<n]
     \<and> list_all (\<lambda>i. list_all (\<lambda>c. c < n \<longrightarrow> ranks ! c < ranks ! i) (called_first A N (ar_parsers A ! i))) [0..<n])"

lemma peg_guardedD:
  assumes "peg_guarded A N ranks" and "i < length (ar_parsers A)"
  shows "may_be_empty A N (ar_parsers A ! i) \<Longrightarrow> i \<in> set N"
    "c \<in> set (called_first A N (ar_parsers A ! i)) \<Longrightarrow> c < length (ar_parsers A) \<Longrightarrow> ranks ! c < ranks ! i"
  using assms by (auto simp: peg_guarded_def Let_def list_all_iff)

text \<open>The leaves.\<close>

lemma literal_end:
  "pr_type (literal_from input lenient start cs pos) = PEG_SUCCESS \<Longrightarrow> pr_end (literal_from input lenient start cs pos) = pos + length cs"
  by (induction cs arbitrary: pos) (auto split: if_splits)

lemma chars_empty:
  "start \<le> pos \<Longrightarrow> (0 < match_count \<Longrightarrow> start < pos) \<Longrightarrow>
   pr_type (chars_from input lenient ranges negated min_count max_count start pos match_count) = PEG_SUCCESS \<Longrightarrow>
   pr_end (chars_from input lenient ranges negated min_count max_count start pos match_count) = start \<Longrightarrow> min_count \<le> 0"
proof (induction input lenient ranges negated min_count max_count start pos match_count rule: chars_from.induct)
  case (1 input lenient ranges negated min_count max_count start pos match_count)
  let ?u = "common_parse_utf8_codepoint input pos"
  show ?case
  proof (cases "(max_count = - 1 \<or> match_count < max_count) \<and> status ?u = Success \<and> class_matches ranges negated (codepoint ?u)")
    case True
    then have "chars_from input lenient ranges negated min_count max_count start pos match_count =
        chars_from input lenient ranges negated min_count max_count start (pos + bytes_consumed ?u) (match_count + 1)"
      by (subst chars_from.simps) (simp add: Let_def)
    with True 1(1) [OF _ refl] 1(2,4,5) parse_success_consumes [of input pos] show ?thesis by simp
  next
    case False
    have "pr_end (chars_from input lenient ranges negated min_count max_count start pos match_count) = pos
        \<and> min_count \<le> match_count"
      using False 1(4) by (subst chars_from.simps, subst (asm) chars_from.simps)
        (auto simp: Let_def chars_result_def split: utf8_status.splits if_splits)
    with 1(3,5) show ?thesis by force
  qed
qed

lemma any_empty: "pr_type (any_at input lenient start) = PEG_SUCCESS \<Longrightarrow> start < pr_end (any_at input lenient start)"
  using parse_success_consumes [of input start]
  by (auto simp: any_at_def Let_def split: utf8_status.splits if_splits)

subsection \<open>Combinators\<close>

text \<open>Runs that return.\<close>

lemma bind_returns: "m \<noteq> None \<Longrightarrow> (\<And>r ast. m = Some (Inr (r, ast)) \<Longrightarrow> f r ast \<noteq> None) \<Longrightarrow> peg_bind m f \<noteq> None"
  by (auto simp: peg_bind_def split: option.split sum.split)

lemma bind_returns_some: "\<exists>x. m = Some x \<Longrightarrow> (\<And>r ast. \<exists>y. f r ast = Some y) \<Longrightarrow> \<exists>y. peg_bind m f = Some y"
  using bind_returns [of m f] by auto

lemma return_returns [simp]:
  "peg_return r ast \<noteq> None" "\<exists>x. peg_return r ast = Some x" "\<exists>x. add_node input rule tag r ast = Some x"
  by (simp_all add: peg_return_def add_node_def Let_def)

text \<open>\<open>calls\<close> holds of the calls that return, of which there are enough.\<close>

definition calls_return :: "peg_call \<Rightarrow> byte list \<Rightarrow> (nat \<Rightarrow> nat \<Rightarrow> bool) \<Rightarrow> bool" where
  "calls_return parse input calls \<longleftrightarrow> (\<forall>c pos ast. calls c pos \<longrightarrow> pos \<le> length input \<longrightarrow> ast_ok input ast \<longrightarrow> parse c pos ast \<noteq> None)"

lemma calls_returnD: "calls_return parse input calls \<Longrightarrow> calls c pos \<Longrightarrow> pos \<le> length input \<Longrightarrow> ast_ok input ast \<Longrightarrow> parse c pos ast \<noteq> None"
  by (simp add: calls_return_def)

text \<open>A call that succeeds on nothing is a call of a parser in \<open>N\<close>.\<close>

locale empty_caller = peg_caller +
  fixes N :: "nat list"
  assumes empty: "pos \<le> length input \<Longrightarrow> ast_ok input ast \<Longrightarrow> parse c pos ast = Some (Inr (r, ast')) \<Longrightarrow>
    pr_type r = PEG_SUCCESS \<Longrightarrow> pr_end r = pos \<Longrightarrow> c \<in> set N"
begin

lemma call_good: "pos \<le> length input \<Longrightarrow> ast_ok input ast \<Longrightarrow> parse c pos ast = Some (Inr (r, ast')) \<Longrightarrow>
    ast_ok input ast' \<and> pos \<le> pr_end r \<and> pr_end r \<le> length input"
  using call [of pos ast c] by (auto simp: peg_post_def peg_good_def result_ok_def)

lemma sequence_empty:
  "sequence_from parse start cs pos nodes invalid ast = Some (Inr (r, ast')) \<Longrightarrow> pos \<le> length input \<Longrightarrow> ast_ok input ast \<Longrightarrow>
   pr_type r = PEG_SUCCESS \<Longrightarrow> pos \<le> pr_end r \<and> (pr_end r = pos \<longrightarrow> set cs \<subseteq> set N)"
proof (induction cs arbitrary: pos nodes invalid ast)
  case Nil
  then show ?case by (auto simp: peg_return_def)
next
  case (Cons c cs)
  then obtain r1 ast1 where r1: "parse c pos ast = Some (Inr (r1, ast1))"
    by (auto simp: peg_bind_def split: option.splits sum.splits prod.splits)
  with Cons.prems(1,4) have s: "pr_type r1 = PEG_SUCCESS" "sequence_from parse start cs (pr_end r1)
      (nodes @ pr_nodes r1) (invalid @ pr_invalid r1) ast1 = Some (Inr (r, ast'))"
    by (cases "pr_type r1"; auto simp: peg_bind_def peg_return_def Let_def)+
  note g = call_good [OF Cons.prems(2,3) r1]
  with Cons.IH [OF s(2)] Cons.prems(4) have "pr_end r1 \<le> pr_end r \<and> (pr_end r = pr_end r1 \<longrightarrow> set cs \<subseteq> set N)" by blast
  with g empty [OF Cons.prems(2,3) r1 s(1)] show ?case by auto
qed

lemma choice_empty:
  "choice_from parse start cs ast = Some (Inr (r, ast')) \<Longrightarrow> start \<le> length input \<Longrightarrow> ast_ok input ast \<Longrightarrow>
   pr_type r = PEG_SUCCESS \<Longrightarrow> pr_end r = start \<Longrightarrow> \<exists>c \<in> set cs. c \<in> set N"
proof (induction cs arbitrary: ast)
  case Nil
  then have "r = peg_result_at PEG_FAIL start start" by (simp add: peg_return_def)
  with Nil show ?case by simp
next
  case (Cons c cs)
  then obtain r1 ast1 where r1: "parse c start ast = Some (Inr (r1, ast1))"
    by (auto simp: peg_bind_def split: option.splits sum.splits prod.splits)
  show ?case
  proof (cases "pr_type r1 = PEG_FAIL")
    case True
    then show ?thesis using Cons.IH [of ast1] Cons.prems r1 call_good [OF Cons.prems(2,3) r1] by (auto simp: peg_bind_def)
  next
    case False
    then have "r1 = r" using Cons.prems(1) r1 by (auto simp: peg_bind_def peg_return_def)
    then show ?thesis using empty [OF Cons.prems(2,3) r1] Cons.prems(4,5) by auto
  qed
qed

lemma repetition_result_empty:
  "pr_type (repetition_result input lenient min_count start pos match_count nodes invalid) = PEG_SUCCESS \<Longrightarrow>
   pr_end (repetition_result input lenient min_count start pos match_count nodes invalid) = start \<Longrightarrow>
   (0 < match_count \<Longrightarrow> start < pos) \<Longrightarrow> min_count \<le> 0"
  by (force simp: repetition_result_def Let_def split: if_splits)

lemma repetition_empty:
  "repetition_from k parse input lenient c min_count max_count start pos match_count nodes invalid ast = Some (Inr (r, ast')) \<Longrightarrow>
   start \<le> pos \<Longrightarrow> pos \<le> length input \<Longrightarrow> ast_ok input ast \<Longrightarrow> (0 < match_count \<Longrightarrow> start < pos) \<Longrightarrow>
   pr_type r = PEG_SUCCESS \<Longrightarrow> pr_end r = start \<Longrightarrow> min_count \<le> 0"
proof (induction k arbitrary: pos match_count nodes invalid ast)
  case (Suc k)
  let ?stop = "repetition_result input lenient min_count start pos match_count nodes invalid"
  have stop: "r = ?stop \<Longrightarrow> min_count \<le> 0" using repetition_result_empty [OF _ _ Suc.prems(5)] Suc.prems(6,7) by blast
  show ?case
  proof (cases "(max_count = - 1 \<or> match_count < max_count) \<and> pos < length input")
    case False
    then show ?thesis using Suc.prems(1) stop by (auto simp: peg_return_def Let_def)
  next
    case True
    with Suc.prems(1) obtain r1 ast1 where r1: "parse c pos ast = Some (Inr (r1, ast1))"
      by (auto simp: peg_bind_def Let_def split: option.splits sum.splits prod.splits)
    note g = call_good [OF Suc.prems(3,4) r1]
    show ?thesis
    proof (cases "pr_type r1 = PEG_SUCCESS \<and> pr_end r1 \<noteq> pos")
      case more: True
      then have "repetition_from k parse input lenient c min_count max_count start (pr_end r1) (match_count + 1)
          (nodes @ pr_nodes r1) (invalid @ pr_invalid r1) ast1 = Some (Inr (r, ast'))"
        using Suc.prems(1) True r1 by (simp add: peg_bind_def Let_def)
      from Suc.IH [OF this] g more Suc.prems(2,6,7) show ?thesis by auto
    next
      case False
      then show ?thesis using Suc.prems(1,6) True r1 stop
        by (cases "pr_type r1") (auto simp: peg_bind_def peg_return_def Let_def)
    qed
  qed
qed simp

lemma exec_empty:
  assumes "start \<le> length input" and "ast_ok input ast" and "exec_parser parse A input lenient p start ast = Some (Inr (r, ast'))"
    and "pr_type r = PEG_SUCCESS" and "pr_end r = start"
  shows "may_be_empty A N p"
proof -
  note e = empty [OF assms(1,2)]
  show ?thesis
  proof (cases p)
    case (Literal_P l)
    then show ?thesis using assms literal_end [of input lenient start l start] by (simp add: exec_parser_def peg_return_def)
  next
    case (Sequence_P cs)
    then show ?thesis using assms sequence_empty by (fastforce simp: exec_parser_def)
  next
    case (Choice_P cs)
    then show ?thesis using assms choice_empty by (auto simp: exec_parser_def)
  next
    case (Repetition_P c lo hi)
    then show ?thesis using assms repetition_empty [of "Suc (length input)" c lo hi start start 0]
      by (auto simp: exec_parser_def simp del: repetition_from.simps)
  next
    case Any_P
    then have "r = any_at input lenient start" using assms(3) by (simp add: exec_parser_def peg_return_def)
    then show ?thesis using any_empty [of input lenient start] assms(4,5) by simp
  next
    case (Chars_P pat rs neg lo hi)
    then have "r = chars_from input lenient rs neg lo hi start start 0" using assms(3) by (simp add: exec_parser_def peg_return_def)
    then have "lo \<le> 0" using assms(4,5) by (intro chars_empty [of start start 0]) simp_all
    with Chars_P show ?thesis by simp
  next
    case (Rule_P name c trigger)
    then show ?thesis using assms e
      by (auto simp: exec_parser_def peg_return_def peg_bind_def add_node_def Let_def split: option.splits sum.splits prod.splits if_splits)
  next
    case (Tag_P c tag)
    then show ?thesis using assms e
      by (auto simp: exec_parser_def peg_return_def peg_bind_def add_node_def Let_def split: option.splits sum.splits prod.splits if_splits)
  next
    case (Atomic_P c)
    then show ?thesis using assms e
      by (auto simp: exec_parser_def peg_return_def peg_bind_def split: option.splits sum.splits prod.splits if_splits)
  qed (use assms e in \<open>auto simp: exec_parser_def split: option.splits\<close>)
qed

lemma sequence_returns:
  assumes "calls_return parse input calls" and "\<And>c p. start < p \<Longrightarrow> calls c p"
  shows "start \<le> pos \<Longrightarrow> pos \<le> length input \<Longrightarrow> ast_ok input ast \<Longrightarrow> (pos = start \<Longrightarrow> \<forall>c \<in> set (first_of N cs). calls c start) \<Longrightarrow>
    sequence_from parse begin cs pos nodes invalid ast \<noteq> None"
proof (induction cs arbitrary: pos nodes invalid ast)
  case (Cons c cs)
  have "calls c pos" using Cons.prems(1,4) assms(2) by (cases "pos = start") auto
  note now = calls_returnD [OF assms(1) this Cons.prems(2,3)]
  show ?case
    unfolding sequence_from.simps
  proof (rule bind_returns [OF now])
    fix r ast' assume r: "parse c pos ast = Some (Inr (r, ast'))"
    note g = call_good [OF Cons.prems(2,3) r]
    have "sequence_from parse begin cs (pr_end r) (nodes @ pr_nodes r) (invalid @ pr_invalid r) ast' \<noteq> None"
      if "pr_type r = PEG_SUCCESS"
    proof (rule Cons.IH)
      assume e: "pr_end r = start"
      then have "pr_end r = pos" "pos = start" using g Cons.prems(1) by auto
      moreover have "c \<in> set N" by (rule empty [OF Cons.prems(2,3) r that]) (use calculation in simp)
      ultimately show "\<forall>c \<in> set (first_of N cs). calls c start" using Cons.prems(4) by auto
    qed (use g Cons.prems(1) in auto)
    then show "(if pr_type r = PEG_FAIL then peg_return (peg_result_at PEG_FAIL begin (pr_end r)) ast'
         else let nodes = nodes @ pr_nodes r; invalid = invalid @ pr_invalid r in
           if pr_type r = PEG_NEED_MORE_INPUT then
             peg_return \<lparr>pr_type = PEG_NEED_MORE_INPUT, pr_start = begin, pr_end = pr_end r,
               pr_nodes = nodes, pr_invalid = invalid\<rparr> ast'
           else sequence_from parse begin cs (pr_end r) nodes invalid ast') \<noteq> None"
      by (cases "pr_type r") (simp_all add: Let_def)
  qed
qed simp

lemma choice_returns:
  assumes "calls_return parse input calls" and "start \<le> length input"
  shows "ast_ok input ast \<Longrightarrow> \<forall>c \<in> set cs. calls c start \<Longrightarrow> choice_from parse start cs ast \<noteq> None"
proof (induction cs arbitrary: ast)
  case (Cons c cs)
  have "parse c start ast \<noteq> None" using calls_returnD [OF assms(1) _ assms(2) Cons.prems(1)] Cons.prems(2) by simp
  then show ?case
    unfolding choice_from.simps
  proof (rule bind_returns)
    fix r ast' assume "parse c start ast = Some (Inr (r, ast'))"
    from call_good [OF assms(2) Cons.prems(1) this] Cons.IH [of ast'] Cons.prems(2)
    show "(if pr_type r \<noteq> PEG_FAIL then peg_return r ast' else choice_from parse start cs ast') \<noteq> None" by simp
  qed
qed simp

lemma repetition_returns:
  assumes "calls_return parse input calls" and "calls c start" and "\<And>p. start < p \<Longrightarrow> calls c p"
  shows "start \<le> pos \<Longrightarrow> pos \<le> length input \<Longrightarrow> ast_ok input ast \<Longrightarrow> length input - pos < k \<Longrightarrow>
    repetition_from k parse input lenient c min_count max_count begin pos match_count nodes invalid ast \<noteq> None"
proof (induction k arbitrary: pos match_count nodes invalid ast)
  case (Suc k)
  let ?stop = "repetition_result input lenient min_count begin pos match_count nodes invalid"
  show ?case
  proof (cases "(max_count = - 1 \<or> match_count < max_count) \<and> pos < length input")
    case True
    have "calls c pos" using Suc.prems(1) assms(2,3) by (cases "pos = start") auto
    note now = calls_returnD [OF assms(1) this Suc.prems(2,3)]
    have "peg_bind (parse c pos ast) (\<lambda>r ast. case pr_type r of
            PEG_SUCCESS \<Rightarrow>
              if pr_end r = pos then peg_return ?stop ast
              else repetition_from k parse input lenient c min_count max_count begin (pr_end r) (match_count + 1)
                (nodes @ pr_nodes r) (invalid @ pr_invalid r) ast
          | PEG_NEED_MORE_INPUT \<Rightarrow>
              peg_return \<lparr>pr_type = PEG_NEED_MORE_INPUT, pr_start = begin, pr_end = pr_end r,
                pr_nodes = nodes @ pr_nodes r, pr_invalid = invalid @ pr_invalid r\<rparr> ast
          | PEG_FAIL \<Rightarrow> peg_return ?stop ast) \<noteq> None"
    proof (rule bind_returns [OF now])
      fix r ast' assume r: "parse c pos ast = Some (Inr (r, ast'))"
      note g = call_good [OF Suc.prems(2,3) r]
      have "pr_end r \<noteq> pos \<Longrightarrow> length input - pr_end r < k" using g Suc.prems(4) True by linarith
      with g Suc.prems(1) Suc.IH [of "pr_end r" ast']
      show "(case pr_type r of
            PEG_SUCCESS \<Rightarrow>
              if pr_end r = pos then peg_return ?stop ast'
              else repetition_from k parse input lenient c min_count max_count begin (pr_end r) (match_count + 1)
                (nodes @ pr_nodes r) (invalid @ pr_invalid r) ast'
          | PEG_NEED_MORE_INPUT \<Rightarrow>
              peg_return \<lparr>pr_type = PEG_NEED_MORE_INPUT, pr_start = begin, pr_end = pr_end r,
                pr_nodes = nodes @ pr_nodes r, pr_invalid = invalid @ pr_invalid r\<rparr> ast'
          | PEG_FAIL \<Rightarrow> peg_return ?stop ast') \<noteq> None"
        by (cases "pr_type r") simp_all
    qed
    with True show ?thesis by (simp add: Let_def)
  next
    case False
    then show ?thesis by (auto simp: Let_def)
  qed
qed simp

lemma exec_returns:
  assumes "calls_return parse input calls" and "start \<le> length input" and "ast_ok input ast"
    and "\<And>c p. start < p \<Longrightarrow> calls c p" and "\<And>c. c \<in> set (called_first A N p) \<Longrightarrow> calls c start"
  shows "exec_parser parse A input lenient p start ast \<noteq> None"
proof -
  note one = calls_returnD [OF assms(1) _ assms(2,3)]
  show ?thesis
  proof (cases p)
    case (Sequence_P cs)
    then show ?thesis using sequence_returns [OF assms(1,4) order_refl assms(2,3)] assms(5) by (simp add: exec_parser_def)
  next
    case (Choice_P cs)
    then show ?thesis using choice_returns [OF assms(1,2,3)] assms(5) by (simp add: exec_parser_def)
  next
    case (Repetition_P c lo hi)
    then show ?thesis using repetition_returns [OF assms(1) _ assms(4) order_refl assms(2,3)] assms(5)
      by (simp add: exec_parser_def del: repetition_from.simps)
  qed (use one assms(5) in \<open>auto simp: exec_parser_def intro!: bind_returns_some split: option.split\<close>)
qed

end

subsection \<open>Guarded arenas\<close>

lemma peg_parse_empty:
  assumes "peg_guarded A N ranks"
  shows "empty_caller (peg_parse n A input lenient) input lenient N"
proof (induction n)
  case 0
  show ?case unfolding empty_caller_def empty_caller_axioms_def by (intro conjI peg_parse_caller) simp
next
  case (Suc n)
  show ?case
    unfolding empty_caller_def empty_caller_axioms_def
  proof (intro conjI allI impI peg_parse_caller)
    fix pos ast c r ast'
    assume "pos \<le> length input" "ast_ok input ast" "peg_parse (Suc n) A input lenient c pos ast = Some (Inr (r, ast'))"
      "pr_type r = PEG_SUCCESS" "pr_end r = pos"
    with empty_caller.exec_empty [OF Suc.IH] peg_guardedD(1) [OF assms] show "c \<in> set N" by (auto split: if_splits)
  qed
qed

text \<open>Without any knowledge of the arena each of its parsers may succeed on nothing.\<close>

interpretation any_arena: empty_caller "peg_parse n A input lenient" input lenient "[0..<length (ar_parsers A)]" for n A input lenient
  unfolding empty_caller_def empty_caller_axioms_def
  by (intro conjI peg_parse_caller) (cases n; auto split: if_splits)

lemma measure_step:
  assumes "(d :: nat) \<le> R" and "x < y"
  shows "x * Suc R + d < y * Suc R"
proof -
  have "x * Suc R + d < Suc x * Suc R" using assms(1) by simp
  also have "\<dots> \<le> y * Suc R" using assms(2) by (intro mult_le_mono1) simp
  finally show ?thesis .
qed

lemma guarded_returns:
  assumes "peg_guarded A N ranks" and "\<forall>k \<in> set ranks. k \<le> R"
  shows "start \<le> length input \<Longrightarrow> ast_ok input ast \<Longrightarrow>
    (length input - start) * Suc (Suc R) + (if i < length ranks then Suc (ranks ! i) else 0) < n \<Longrightarrow> peg_parse n A input lenient i start ast \<noteq> None"
proof (induction n arbitrary: i start ast)
  case (Suc n)
  have len: "length ranks = length (ar_parsers A)" using assms(1) by (simp add: peg_guarded_def Let_def)
  show ?case
  proof (cases "i < length (ar_parsers A)")
    case True
    let ?m = "\<lambda>c p. (length input - p) * Suc (Suc R) + (if c < length ranks then Suc (ranks ! c) else 0)"
    have m: "?m i start \<le> n" using Suc.prems(3) by simp
    have rank: "(if c < length ranks then Suc (ranks ! c) else 0) \<le> Suc R" for c using assms(2) nth_mem [of c ranks] by auto
    have "exec_parser (peg_parse n A input lenient) A input lenient (ar_parsers A ! i) start ast \<noteq> None"
    proof (rule empty_caller.exec_returns [OF peg_parse_empty [OF assms(1)]])
      show "calls_return (peg_parse n A input lenient) input (\<lambda>c p. ?m c p < n \<or> length input < p)"
        using Suc.IH by (auto simp: calls_return_def)
      show "?m c p < n \<or> length input < p" if "start < p" for c p
      proof (cases "p \<le> length input")
        case True
        with that Suc.prems(1) have "length input - p < length input - start" by linarith
        from measure_step [OF rank [of c] this] m show ?thesis by (auto intro: less_le_trans)
      qed simp
      show "?m c start < n \<or> length input < start" if "c \<in> set (called_first A N (ar_parsers A ! i))" for c
        using peg_guardedD(2) [OF assms(1) True that] m len True by auto
    qed (rule Suc.prems)+
    with True show ?thesis by simp
  qed simp
qed simp

subsection \<open>More depth does not change a result\<close>

definition call_le :: "peg_call \<Rightarrow> peg_call \<Rightarrow> bool" where
  "call_le f g \<longleftrightarrow> (\<forall>c pos ast x. f c pos ast = Some x \<longrightarrow> g c pos ast = Some x)"

lemma bind_le: "peg_bind m f = Some x \<Longrightarrow> (\<And>y. m = Some y \<Longrightarrow> m' = Some y) \<Longrightarrow>
    (\<And>r ast y. f r ast = Some y \<Longrightarrow> f' r ast = Some y) \<Longrightarrow> peg_bind m' f' = Some x"
  by (auto simp: peg_bind_def split: option.splits sum.splits)

lemma sequence_le: "call_le f g \<Longrightarrow> sequence_from f start cs pos nodes invalid ast = Some x \<Longrightarrow>
    sequence_from g start cs pos nodes invalid ast = Some x"
proof (induction cs arbitrary: pos nodes invalid ast x)
  case (Cons c cs)
  then show ?case
    unfolding sequence_from.simps
    by (elim bind_le) (auto simp: call_le_def Let_def split: if_splits)
qed simp

lemma choice_le: "call_le f g \<Longrightarrow> choice_from f start cs ast = Some x \<Longrightarrow> choice_from g start cs ast = Some x"
proof (induction cs arbitrary: ast x)
  case (Cons c cs)
  then show ?case
    unfolding choice_from.simps
    by (elim bind_le) (auto simp: call_le_def split: if_splits)
qed simp

lemma repetition_le: "call_le f g \<Longrightarrow>
    repetition_from k f input lenient c lo hi start pos match_count nodes invalid ast = Some x \<Longrightarrow>
    repetition_from k g input lenient c lo hi start pos match_count nodes invalid ast = Some x"
proof (induction k arbitrary: pos match_count nodes invalid ast x)
  case (Suc k)
  show ?case
  proof (cases "(hi = - 1 \<or> match_count < hi) \<and> pos < length input")
    case True
    let ?stop = "repetition_result input lenient lo start pos match_count nodes invalid"
    let ?body = "\<lambda>h r ast. case pr_type r of
        PEG_SUCCESS \<Rightarrow>
          if pr_end r = pos then peg_return ?stop ast
          else repetition_from k h input lenient c lo hi start (pr_end r) (match_count + 1)
            (nodes @ pr_nodes r) (invalid @ pr_invalid r) ast
      | PEG_NEED_MORE_INPUT \<Rightarrow>
          peg_return \<lparr>pr_type = PEG_NEED_MORE_INPUT, pr_start = start, pr_end = pr_end r,
            pr_nodes = nodes @ pr_nodes r, pr_invalid = invalid @ pr_invalid r\<rparr> ast
      | PEG_FAIL \<Rightarrow> peg_return ?stop ast"
    from Suc.prems(2) True have "peg_bind (f c pos ast) (?body f) = Some x" by (simp add: Let_def)
    then have "peg_bind (g c pos ast) (?body g) = Some x"
    proof (rule bind_le)
      show "f c pos ast = Some y \<Longrightarrow> g c pos ast = Some y" for y using Suc.prems(1) by (simp add: call_le_def)
      show "?body f r a = Some y \<Longrightarrow> ?body g r a = Some y" for r a y
        using Suc.IH [OF Suc.prems(1)] by (cases "pr_type r") (auto split: if_splits)
    qed
    with True show ?thesis by (simp add: Let_def)
  next
    case False
    with Suc.prems(2) show ?thesis by (auto simp: Let_def)
  qed
qed simp

lemma exec_le:
  assumes "call_le f g" and "exec_parser f A input lenient p start ast = Some x"
  shows "exec_parser g A input lenient p start ast = Some x"
proof (cases p)
  case (Sequence_P cs)
  then show ?thesis using assms sequence_le by (simp add: exec_parser_def)
next
  case (Choice_P cs)
  then show ?thesis using assms choice_le by (simp add: exec_parser_def)
next
  case (Repetition_P c lo hi)
  then show ?thesis using assms repetition_le by (simp add: exec_parser_def del: repetition_from.simps)
qed (use assms in \<open>auto simp: exec_parser_def call_le_def elim!: bind_le split: option.splits if_splits\<close>)

lemma peg_parse_mono: "n \<le> m \<Longrightarrow> peg_parse n A input lenient i start ast = Some x \<Longrightarrow> peg_parse m A input lenient i start ast = Some x"
proof -
  have step: "call_le (peg_parse n A input lenient) (peg_parse (Suc n) A input lenient)" for n
  proof (induction n)
    case (Suc n)
    then show ?case using exec_le by (auto simp: call_le_def split: if_splits)
  qed (simp add: call_le_def)
  have "call_le (peg_parse n A input lenient) (peg_parse (n + k) A input lenient)" for k
  proof (induction k)
    case (Suc k)
    then show ?case using step [of "n + k"] by (auto simp: call_le_def)
  qed (simp add: call_le_def)
  from this [of "m - n"] show "n \<le> m \<Longrightarrow> peg_parse n A input lenient i start ast = Some x \<Longrightarrow> ?thesis" by (simp add: call_le_def)
qed

text \<open>C13. When a run returns. If the parsers of an arena can be ranked so that each calls at its own position only
  parsers of smaller rank, given a list of those that may succeed on nothing, then a run from any start
  inside any input returns a result or an exception, the same for every depth of recursion from a bound on that is linear
  in the length of the input.\<close>

theorem guarded_run_returns:
  assumes "peg_guarded A N ranks" and "\<forall>k \<in> set ranks. k \<le> R" and "start \<le> length input"
  shows "\<exists>x. \<forall>n > (length input - start) * (R + 2) + R + 1. peg_parse_root n A input lenient start = Some x"
proof (cases "ar_root A")
  case None
  then show ?thesis by (simp add: peg_parse_root_def)
next
  case (Some root)
  let ?m = "(length input - start) * (R + 2) + R + 1"
  have "(if root < length ranks then Suc (ranks ! root) else 0) \<le> Suc R" using assms(2) nth_mem [of root ranks] by auto
  then have "(length input - start) * Suc (Suc R) + (if root < length ranks then Suc (ranks ! root) else 0) < Suc ?m" by simp
  from guarded_returns [OF assms(1,2,3) _ this, of "[]"] obtain x where
    "peg_parse (Suc ?m) A input lenient root start [] = Some x" by (auto simp: ast_ok_def simp del: peg_parse.simps)
  then have "peg_parse n A input lenient root start [] = Some x" if "?m < n" for n
    using peg_parse_mono [of "Suc ?m" n] that by (simp del: peg_parse.simps)
  with Some show ?thesis by (auto simp: peg_parse_root_def)
qed

lemma guarded_run_returns_witness:
  "\<exists>x. \<forall>n > 41. peg_parse_root n nested_arena [40, 40, 120, 0xFF, 41, 41] False 0 = Some x"
proof -
  have "peg_guarded nested_arena [5, 1, 0, 6, 7] [3, 2, 1, 0, 0, 1, 4, 0]" by code_simp
  from guarded_run_returns [OF this, of 4 0 "[40, 40, 120, 0xFF, 41, 41]" False] show ?thesis by simp
qed

text \<open>Without a rank a run need not return: a rule that starts with itself.\<close>

lemma left_recursive_rule:
  "peg_parse n \<lparr>ar_parsers = [Rule_P [97] 1 False, Sequence_P [2, 3], Ref_P [97], Literal_P [120]],
     ar_rules = [([97], 0)], ar_root = Some 0\<rparr> input lenient 0 start ast = None"
proof (induction n rule: less_induct)
  case (less n)
  show ?case
  proof (cases "n < 3")
    case True
    then have "n = 0 \<or> n = Suc 0 \<or> n = Suc (Suc 0)" by linarith
    then show ?thesis by (auto simp: exec_parser_def peg_bind_def)
  next
    case False
    then have "n = Suc (Suc (Suc (n - 3)))" "n - 3 < n" by simp_all
    then obtain m where "n = Suc (Suc (Suc m))" "m < n" by blast
    then show ?thesis using less.IH [of m] by (simp add: exec_parser_def peg_bind_def get_rule_def)
  qed
qed

end
