(* ===== verification/Peg_Until.thy ===== *)
theory Peg_Until
  imports Peg_Returns
begin

section \<open>Text up to a delimiter\<close>

text \<open>
  The parser that consumes up to the first delimiter, against a scan over the decoded positions, and the text of the
  nodes around it: the bytes that do not decode are replaced one run at a time, all others are kept.
\<close>

subsection \<open>Where it stops\<close>

text \<open>The positions a decoder visits: one code point or one run of undecodable bytes at a time.\<close>

inductive visited :: "byte list \<Rightarrow> nat \<Rightarrow> nat \<Rightarrow> bool" for input start where
  visited_start: "visited input start start"
| visited_step: "visited input start pos \<Longrightarrow> pos < length input \<Longrightarrow>
    visited input start (pos + bytes_consumed (common_parse_utf8_codepoint input pos))"

definition delimiter_at :: "byte list list \<Rightarrow> byte list \<Rightarrow> nat \<Rightarrow> bool" where
  "delimiter_at delimiters input pos \<longleftrightarrow>
     (\<exists>d \<in> set delimiters. word_symbols d 0 \<noteq> [] \<and> prefix (word_symbols d 0) (word_symbols input pos))"

definition delimiter_begun :: "byte list list \<Rightarrow> byte list \<Rightarrow> nat \<Rightarrow> bool" where
  "delimiter_begun delimiters input pos \<longleftrightarrow>
     word_symbols input pos \<noteq> [] \<and> (\<exists>d \<in> set delimiters. prefix (word_symbols input pos) (word_symbols d 0))"

lemma check_at_no_match:
  "check_at (trie_of_words delimiters) input pos = NO_MATCH \<longleftrightarrow>
     \<not> delimiter_at delimiters input pos \<and> \<not> delimiter_begun delimiters input pos"
  by (auto simp: check_at_exact delimiter_at_def delimiter_begun_def)

lemma undecodable_symbols: "status (common_parse_utf8_codepoint input pos) \<noteq> Success \<Longrightarrow> word_symbols input pos = []"
  by (subst word_symbols.simps) simp

lemma undecodable_no_delimiter:
  "status (common_parse_utf8_codepoint input pos) \<noteq> Success \<Longrightarrow>
   \<not> delimiter_at delimiters input pos \<and> \<not> delimiter_begun delimiters input pos"
  by (auto simp: delimiter_at_def delimiter_begun_def undecodable_symbols)

lemma end_no_delimiter: "length input \<le> pos \<Longrightarrow> \<not> delimiter_at delimiters input pos \<and> \<not> delimiter_begun delimiters input pos"
  by (auto simp: delimiter_at_def delimiter_begun_def word_symbols.simps [of input pos])

text \<open>The visited positions in order: below the next one there are only those already passed.\<close>

lemma visited_linear:
  assumes "visited input start p" and "visited input start q" and "q < p"
  shows "q + bytes_consumed (common_parse_utf8_codepoint input q) \<le> p"
  using assms
proof (induction p arbitrary: q rule: visited.induct)
  case visited_start
  have "start \<le> q" using visited_start(1) by (induction rule: visited.induct) auto
  with visited_start(2) show ?case by simp
next
  case (visited_step p)
  note below = visited_step.IH
  let ?p = "p + bytes_consumed (common_parse_utf8_codepoint input p)"
  consider "q < p" | "q = p" | "p < q" by linarith
  then show ?case
  proof cases
    case 1
    then show ?thesis using visited_step.IH [OF visited_step.prems(1)] by simp
  next
    case 3
    have "visited input start q \<Longrightarrow> p < q \<Longrightarrow> ?p \<le> q" for q
    proof (induction rule: visited.induct)
      case visited_start
      have "start \<le> p" using visited_step(1) by (induction rule: visited.induct) auto
      with visited_start show ?case by simp
    next
      case (visited_step r)
      consider "p < r" | "p = r" | "r < p" by linarith
      then show ?case
      proof cases
        case 3
        then show ?thesis using below [of r] visited_step by force
      qed (use visited_step in auto)
    qed
    with 3 visited_step.prems show ?thesis by force
  qed simp
qed

lemma visited_next:
  assumes "visited input start pos" and "visited input start p" and "p < pos + bytes_consumed (common_parse_utf8_codepoint input pos)"
  shows "p \<le> pos"
proof (rule ccontr)
  assume "\<not> p \<le> pos"
  then have "pos + bytes_consumed (common_parse_utf8_codepoint input pos) \<le> p" using visited_linear [OF assms(2,1)] by simp
  with assms(3) show False by simp
qed

text \<open>The four ways a step of the loop can go, and its end.\<close>

lemma until_from_steps:
  fixes pos input defines "u \<equiv> common_parse_utf8_codepoint input pos"
  shows "pos = length input \<Longrightarrow> until_from t input lenient start pos pos invalid =
      until_result (if lenient then PEG_NEED_MORE_INPUT else PEG_SUCCESS) start pos invalid"
    and "pos < length input \<Longrightarrow> status u = Incomplete \<Longrightarrow> lenient \<Longrightarrow>
      until_from t input lenient start pos pos invalid = until_result PEG_NEED_MORE_INPUT start pos invalid"
    and "pos < length input \<Longrightarrow> status u \<noteq> Success \<Longrightarrow> \<not> (status u = Incomplete \<and> lenient) \<Longrightarrow>
      until_from t input lenient start pos pos invalid =
      until_from t input lenient start (pos + bytes_consumed u) (pos + bytes_consumed u)
        (invalid @ [\<lparr>iv_pos = pos, iv_len = bytes_consumed u\<rparr>])"
    and "pos < length input \<Longrightarrow> status u = Success \<Longrightarrow> check_at t input pos \<noteq> NO_MATCH \<Longrightarrow>
      until_from t input lenient start pos pos invalid = until_result PEG_SUCCESS start pos invalid"
    and "pos < length input \<Longrightarrow> status u = Success \<Longrightarrow> check_at t input pos = NO_MATCH \<Longrightarrow>
      until_from t input lenient start pos pos invalid =
      until_from t input lenient start (pos + bytes_consumed u) (pos + bytes_consumed u) invalid"
  unfolding u_def using until_from.simps [of t input lenient start pos pos invalid] by (cases lenient; simp add: Let_def)+

lemma until_cases:
  assumes "pos \<le> length input"
  obtains (finished) "pos = length input"
  | (incomplete) "pos < length input" "status (common_parse_utf8_codepoint input pos) = Incomplete" "lenient"
  | (undecodable) "pos < length input" "status (common_parse_utf8_codepoint input pos) \<noteq> Success"
      "\<not> (status (common_parse_utf8_codepoint input pos) = Incomplete \<and> lenient)"
  | (hit) "pos < length input" "status (common_parse_utf8_codepoint input pos) = Success" "check_at t input pos \<noteq> NO_MATCH"
  | (miss) "pos < length input" "status (common_parse_utf8_codepoint input pos) = Success" "check_at t input pos = NO_MATCH"
  using assms by fastforce

lemma until_result_fields [simp]:
  "pr_type (until_result t start stop bad) = t" "pr_end (until_result t start stop bad) = stop"
  "pr_invalid (until_result t start stop bad) = bad"
  by (simp_all add: until_result_def)

abbreviation undelimited :: "byte list list \<Rightarrow> byte list \<Rightarrow> nat \<Rightarrow> nat \<Rightarrow> bool" where
  "undelimited delimiters input start stop \<equiv> (\<forall>p < stop. visited input start p \<longrightarrow>
     \<not> delimiter_at delimiters input p \<and> \<not> delimiter_begun delimiters input p)"

lemma undelimited_next:
  assumes "undelimited delimiters input start pos" and "visited input start pos"
    and "\<not> delimiter_at delimiters input pos \<and> \<not> delimiter_begun delimiters input pos"
  shows "undelimited delimiters input start (pos + bytes_consumed (common_parse_utf8_codepoint input pos))"
proof (intro allI impI)
  fix p assume p: "p < pos + bytes_consumed (common_parse_utf8_codepoint input pos)" "visited input start p"
  from visited_next [OF assms(2) p(2,1)] assms p(2)
  show "\<not> delimiter_at delimiters input p \<and> \<not> delimiter_begun delimiters input p" by (cases "p = pos") auto
qed

lemma until_stops:
  assumes "r = until_from (trie_of_words delimiters) input lenient start pos pos invalid"
    and "visited input start pos" and "pos \<le> length input" and "undelimited delimiters input start pos"
  shows "visited input start (pr_end r) \<and> undelimited delimiters input start (pr_end r)
    \<and> (case pr_type r of
         PEG_FAIL \<Rightarrow> False
       | PEG_SUCCESS \<Rightarrow> delimiter_at delimiters input (pr_end r) \<or> delimiter_begun delimiters input (pr_end r)
           \<or> pr_end r = length input \<and> \<not> lenient
       | PEG_NEED_MORE_INPUT \<Rightarrow> lenient \<and>
           (pr_end r = length input \<or> status (common_parse_utf8_codepoint input (pr_end r)) = Incomplete))"
  using assms
proof (induction "length input - pos" arbitrary: pos invalid rule: less_induct)
  case less
  let ?u = "common_parse_utf8_codepoint input pos" and ?q = "pos + bytes_consumed (common_parse_utf8_codepoint input pos)"
  have next_ok: "length input - ?q < length input - pos" "visited input start ?q" "?q \<le> length input" if "pos < length input"
    using parse_consumes [OF that] that visited_step [OF less.prems(2) that] consumed_bound [OF that] by auto
  note steps = until_from_steps [where pos = pos and input = input and t = "trie_of_words delimiters" and lenient = lenient
      and start = start and invalid = invalid]
  from less.prems(3) show ?case
  proof (cases rule: until_cases [where lenient = lenient and t = "trie_of_words delimiters", consumes 1,
      case_names finished incomplete undecodable hit miss])
    case finished
    then show ?thesis using less.prems(1,2,4) steps(1) by simp
  next
    case incomplete
    then show ?thesis using less.prems(1,2,4) steps(2) by simp
  next
    case undecodable
    have "undelimited delimiters input start ?q"
      using undelimited_next [OF less.prems(4,2) undecodable_no_delimiter] undecodable(2) by blast
    with less.hyps [OF next_ok(1) _ next_ok(2,3)] undecodable less.prems(1) steps(3) show ?thesis by blast
  next
    case hit
    then have "r = until_result PEG_SUCCESS start pos invalid" using less.prems(1) steps(4) by simp
    with hit(3) less.prems(2,4) show ?thesis unfolding check_at_no_match by auto
  next
    case miss
    have "undelimited delimiters input start ?q"
      using undelimited_next [OF less.prems(4,2)] miss(3) unfolding check_at_no_match by blast
    with less.hyps [OF next_ok(1) _ next_ok(2,3)] miss less.prems(1) steps(5) show ?thesis by blast
  qed
qed

subsection \<open>What it records\<close>

text \<open>The runs of undecodable bytes of a part of the input, and its code points with U+FFFD for each run.\<close>

function runs_of :: "byte list \<Rightarrow> nat \<Rightarrow> nat \<Rightarrow> invalid_utf8 list" where
  "runs_of input pos stop =
     (if pos < stop \<and> pos < length input then
        (let u = common_parse_utf8_codepoint input pos; rest = runs_of input (pos + bytes_consumed u) stop in
         if status u = Success then rest else \<lparr>iv_pos = pos, iv_len = bytes_consumed u\<rparr> # rest)
      else [])"
  by pat_completeness auto
termination
  by (relation "measure (\<lambda>(input, pos, _). length input - pos)") (use parse_consumes in \<open>auto intro!: diff_less_mono2\<close>)

declare runs_of.simps [simp del]

function lossy_symbols :: "byte list \<Rightarrow> nat \<Rightarrow> nat \<Rightarrow> u32 list" where
  "lossy_symbols input pos stop =
     (if pos < stop \<and> pos < length input then
        (let u = common_parse_utf8_codepoint input pos in
         (if status u = Success then codepoint u else 0xFFFD) # lossy_symbols input (pos + bytes_consumed u) stop)
      else [])"
  by pat_completeness auto
termination
  by (relation "measure (\<lambda>(input, pos, _). length input - pos)") (use parse_consumes in \<open>auto intro!: diff_less_mono2\<close>)

declare lossy_symbols.simps [simp del]

text \<open>The code points of a text that is UTF-8 throughout.\<close>

function utf8_symbols :: "byte list \<Rightarrow> u32 list option" where
  "utf8_symbols bs =
     (if bs = [] then Some []
      else
        (let u = common_parse_utf8_codepoint bs 0 in
         if status u \<noteq> Success then None
         else map_option ((#) (codepoint u)) (utf8_symbols (drop (bytes_consumed u) bs))))"
  by pat_completeness auto
termination
  by (relation "measure length") (auto dest: parse_success_consumes)

declare utf8_symbols.simps [simp del]

lemma check_conts_shift: "pos \<le> length input \<Longrightarrow> check_conts (drop pos input) 0 is = check_conts input pos is"
  by (induction "is") (auto simp: less_diff_conv2 not_le add.commute)

lemma parse_shift:
  assumes "pos < length input"
  shows "common_parse_utf8_codepoint (drop pos input) 0 = common_parse_utf8_codepoint input pos"
proof -
  have "drop pos input ! i = input ! (pos + i)" for i using assms by simp
  moreover have "length (drop pos input) \<le> i \<longleftrightarrow> length input \<le> pos + i" for i using assms by auto
  moreover have "0 \<ge> length (drop pos input) \<longleftrightarrow> pos \<ge> length input" by simp
  ultimately show ?thesis
    unfolding common_parse_utf8_codepoint_def Let_def
    by (simp only: check_conts_shift [OF less_imp_le [OF assms]] add_0 add_0_right)
qed

lemma check_conts_take:
  "check_conts bs 0 is = None \<Longrightarrow> \<forall>i \<in> set is. i < k \<Longrightarrow> k \<le> length bs \<Longrightarrow> check_conts (take k bs @ rest) 0 is = None"
  by (induction "is") (auto simp: nth_append split: if_splits)

lemma parse_success_forms:
  assumes "status (common_parse_utf8_codepoint bs 0) = Success"
  obtains (one) "bs ! 0 AND 0x80 = 0" "bytes_consumed (common_parse_utf8_codepoint bs 0) = 1"
  | (two) "bs ! 0 AND 0x80 \<noteq> 0" "bs ! 0 AND 0x40 \<noteq> 0" "bs ! 0 AND 0x20 = 0" "is_cont (bs ! 1)"
      "bytes_consumed (common_parse_utf8_codepoint bs 0) = 2"
  | (three) "bs ! 0 AND 0x80 \<noteq> 0" "bs ! 0 AND 0x40 \<noteq> 0" "bs ! 0 AND 0x20 \<noteq> 0" "bs ! 0 AND 0x10 = 0"
      "check_conts bs 0 [1..<3] = None" "bytes_consumed (common_parse_utf8_codepoint bs 0) = 3"
  | (four) "bs ! 0 AND 0x80 \<noteq> 0" "bs ! 0 AND 0x40 \<noteq> 0" "bs ! 0 AND 0x20 \<noteq> 0" "bs ! 0 AND 0x10 \<noteq> 0" "bs ! 0 AND 0x08 = 0"
      "check_conts bs 0 [1..<4] = None" "bytes_consumed (common_parse_utf8_codepoint bs 0) = 4"
proof -
  have conts: "check_conts bs 0 is = Some r \<Longrightarrow> status r \<noteq> Success" for "is" r
    by (induction "is") (auto simp: result_of_def split: if_splits)
  let ?p = "common_parse_utf8_codepoint bs 0"
  have "bs \<noteq> []" using parse_success_pos [OF assms] by simp
  show ?thesis
  proof (cases "bs ! 0 AND 0x80 = 0")
    case True
    with \<open>bs \<noteq> []\<close> show ?thesis by (intro one) (simp_all add: common_parse_utf8_codepoint_def result_of_def)
  next
    case b7: False
    have b6: "bs ! 0 AND 0x40 \<noteq> 0"
      using assms b7 \<open>bs \<noteq> []\<close> by (intro notI) (simp add: common_parse_utf8_codepoint_def result_of_def)
    show ?thesis
    proof (cases "bs ! 0 AND 0x20 = 0")
      case True
      with assms b7 b6 \<open>bs \<noteq> []\<close> show ?thesis
        by (intro two) (simp_all add: common_parse_utf8_codepoint_def result_of_def split: if_splits)
    next
      case b5: False
      show ?thesis
      proof (cases "bs ! 0 AND 0x10 = 0")
        case True
        then have p: "?p = (case check_conts bs 0 [1..<3] of Some r \<Rightarrow> r | None \<Rightarrow> result_of Success
            (push_bit 12 (ucast (bs ! 0 AND 0x0f)) OR push_bit 6 (ucast (bs ! 1 AND 0x3f)) OR ucast (bs ! 2 AND 0x3f)) 3)"
          using b7 b6 b5 \<open>bs \<noteq> []\<close> by (simp add: common_parse_utf8_codepoint_def Let_def)
        have "check_conts bs 0 [1..<3] = None"
        proof (cases "check_conts bs 0 [1..<3]")
          case (Some r)
          with p conts [of "[1..<3]" r] assms show ?thesis by simp
        qed
        with p b7 b6 b5 True show ?thesis by (intro three) (simp_all add: result_of_def)
      next
        case b4: False
        have b3: "bs ! 0 AND 0x08 = 0"
          using assms b7 b6 b5 b4 \<open>bs \<noteq> []\<close> by (rule_tac ccontr) (simp add: common_parse_utf8_codepoint_def result_of_def)
        then have p: "?p = (case check_conts bs 0 [1..<4] of Some r \<Rightarrow> r | None \<Rightarrow> result_of Success
            (push_bit 18 (ucast (bs ! 0 AND 0x07)) OR push_bit 12 (ucast (bs ! 1 AND 0x3f))
              OR push_bit 6 (ucast (bs ! 2 AND 0x3f)) OR ucast (bs ! 3 AND 0x3f)) 4)"
          using b7 b6 b5 b4 \<open>bs \<noteq> []\<close> by (simp add: common_parse_utf8_codepoint_def Let_def)
        have "check_conts bs 0 [1..<4] = None"
        proof (cases "check_conts bs 0 [1..<4]")
          case (Some r)
          with p conts [of "[1..<4]" r] assms show ?thesis by simp
        qed
        with p b7 b6 b5 b4 b3 show ?thesis by (intro four) (simp_all add: result_of_def)
      qed
    qed
  qed
qed

lemma parse_take:
  assumes "status (common_parse_utf8_codepoint bs 0) = Success"
  shows "common_parse_utf8_codepoint (take (bytes_consumed (common_parse_utf8_codepoint bs 0)) bs @ rest) 0 =
    common_parse_utf8_codepoint bs 0"
proof -
  let ?k = "bytes_consumed (common_parse_utf8_codepoint bs 0)"
  define cs where "cs = take ?k bs @ rest"
  have k: "?k \<le> length bs" "0 < ?k" using success_bound [OF assms] parse_success_consumes [OF assms] by simp_all
  have nth: "cs ! i = bs ! i" if "i < ?k" for i using that k by (simp add: cs_def nth_append)
  have len: "?k \<le> length cs" "bs \<noteq> []" "cs \<noteq> []" using k by (auto simp: cs_def)
  have conts: "check_conts bs 0 [1..<?k] = None \<Longrightarrow> check_conts cs 0 [1..<?k] = None"
    unfolding cs_def by (rule check_conts_take) (use k in auto)
  from assms have "common_parse_utf8_codepoint cs 0 = common_parse_utf8_codepoint bs 0"
  proof (cases rule: parse_success_forms)
    case one
    then show ?thesis using len nth [of 0] by (simp add: common_parse_utf8_codepoint_def)
  next
    case two
    then show ?thesis using len k(1) nth [of 0] nth [of 1] by (simp add: common_parse_utf8_codepoint_def)
  next
    case three
    then show ?thesis using len nth [of 0] nth [of 1] nth [of 2] conts by (simp add: common_parse_utf8_codepoint_def)
  next
    case four
    then show ?thesis using len nth [of 0] nth [of 1] nth [of 2] nth [of 3] conts by (simp add: common_parse_utf8_codepoint_def)
  qed
  then show ?thesis by (simp add: cs_def)
qed

definition chunk :: "byte list \<Rightarrow> nat \<Rightarrow> nat \<Rightarrow> byte list" where
  "chunk input a b = take (b - a) (drop a input)"

lemma chunk_append: "a \<le> b \<Longrightarrow> b \<le> c \<Longrightarrow> chunk input a b @ chunk input b c = chunk input a c"
  using take_add [of "b - a" "c - b" "drop a input"] by (simp add: chunk_def)

lemma chunk_of_chunk: "start \<le> a \<Longrightarrow> b \<le> stop \<Longrightarrow> take (b - a) (drop (a - start) (chunk input start stop)) = chunk input a b"
  by (simp add: chunk_def drop_take min_def)

lemma utf8_symbols_success:
  assumes "pos < length input" and "status (common_parse_utf8_codepoint input pos) = Success"
  shows "utf8_symbols (chunk input pos (pos + bytes_consumed (common_parse_utf8_codepoint input pos)) @ rest) =
    map_option ((#) (codepoint (common_parse_utf8_codepoint input pos))) (utf8_symbols rest)"
proof -
  let ?u = "common_parse_utf8_codepoint input pos"
  let ?c = "chunk input pos (pos + bytes_consumed ?u)"
  have shift: "common_parse_utf8_codepoint (drop pos input) 0 = ?u" by (rule parse_shift [OF assms(1)])
  have len: "length ?c = bytes_consumed ?u" using success_bound [OF assms(2)] by (simp add: chunk_def)
  then have ne: "?c \<noteq> []" using parse_success_consumes [OF assms(2)] by (cases ?c) auto
  have "common_parse_utf8_codepoint (?c @ rest) 0 = ?u"
    using parse_take [of "drop pos input" rest] assms(2) shift by (simp add: chunk_def)
  then show ?thesis using ne assms(2) len by (subst utf8_symbols.simps) (simp add: Let_def)
qed

lemma utf8_symbols_replacement: "utf8_symbols ([0xEF, 0xBF, 0xBD] @ rest) = map_option ((#) 0xFFFD) (utf8_symbols rest)"
proof -
  have "common_parse_utf8_codepoint [0xEF, 0xBF, 0xBD] 0 = result_of Success 0xFFFD 3" by code_simp
  with parse_take [of "[0xEF, 0xBF, 0xBD]" rest]
  have "common_parse_utf8_codepoint ([0xEF, 0xBF, 0xBD] @ rest) 0 = result_of Success 0xFFFD 3" by (simp add: result_of_def)
  then show ?thesis by (subst utf8_symbols.simps) (simp add: result_of_def Let_def)
qed

lemma visited_front:
  "visited input pos stop \<Longrightarrow> pos < stop \<Longrightarrow> pos < length input
     \<and> pos + bytes_consumed (common_parse_utf8_codepoint input pos) \<le> stop
     \<and> visited input (pos + bytes_consumed (common_parse_utf8_codepoint input pos)) stop"
proof (induction rule: visited.induct)
  case (visited_step p)
  have "pos \<le> p" using visited_step(1) by (induction rule: visited.induct) auto
  with visited_step show ?case by (cases "pos = p") (auto intro: visited.intros)
qed simp

lemma runs_start: "visited input pos stop \<Longrightarrow> r # rs = runs_of input pos stop \<Longrightarrow> pos \<le> iv_pos r \<and> iv_pos r \<le> stop"
proof (induction input pos stop rule: runs_of.induct)
  case (1 input pos stop)
  let ?u = "common_parse_utf8_codepoint input pos"
  have go: "pos < stop \<and> pos < length input" using 1(3) by (subst (asm) runs_of.simps) (auto split: if_splits)
  note f = visited_front [OF 1(2)]
  show ?case
  proof (cases "status ?u = Success")
    case True
    then have "r # rs = runs_of input (pos + bytes_consumed ?u) stop" using 1(3) go by (subst (asm) runs_of.simps) (simp add: Let_def)
    with 1(1) [OF go refl] f go show ?thesis by auto
  next
    case False
    then have "iv_pos r = pos" using 1(3) go by (subst (asm) runs_of.simps) (simp add: Let_def)
    with go show ?thesis by simp
  qed
qed

lemma sanitize_split:
  assumes "start \<le> pos" and "pos \<le> q" and "q \<le> stop" and "\<And>r rs'. rs = r # rs' \<Longrightarrow> q \<le> iv_pos r \<and> iv_pos r \<le> stop"
  shows "sanitize_from (chunk input start stop) start stop pos rs = chunk input pos q @ sanitize_from (chunk input start stop) start stop q rs"
  using assms by (cases rs) (simp_all add: chunk_of_chunk chunk_append)

lemma sanitize_runs:
  assumes "stop \<le> length input"
  shows "visited input pos stop \<Longrightarrow> start \<le> pos \<Longrightarrow> pos \<le> stop \<Longrightarrow>
    utf8_symbols (sanitize_from (chunk input start stop) start stop pos (runs_of input pos stop)) = Some (lossy_symbols input pos stop)"
proof (induction "stop - pos" arbitrary: pos rule: less_induct)
  case less
  let ?u = "common_parse_utf8_codepoint input pos" and ?q = "pos + bytes_consumed (common_parse_utf8_codepoint input pos)"
  show ?case
  proof (cases "pos < stop")
    case False
    then have "runs_of input pos stop = []" "lossy_symbols input pos stop = []"
      by (simp_all add: runs_of.simps [of input pos] lossy_symbols.simps [of input pos])
    with False less.prems(3) show ?thesis by (simp add: utf8_symbols.simps [of "[]"])
  next
    case True
    note f = visited_front [OF less.prems(1) True]
    then have "stop - ?q < stop - pos" using parse_consumes [of pos input] True by (intro diff_less_mono2) simp_all
    with f have IH: "utf8_symbols (sanitize_from (chunk input start stop) start stop ?q (runs_of input ?q stop)) = Some (lossy_symbols input ?q stop)"
      using less.hyps [of ?q] less.prems(2) by simp
    have lossy: "lossy_symbols input pos stop = (if status ?u = Success then codepoint ?u else 0xFFFD) # lossy_symbols input ?q stop"
      using True f by (subst lossy_symbols.simps) (simp add: Let_def)
    show ?thesis
    proof (cases "status ?u = Success")
      case s: True
      then have "runs_of input pos stop = runs_of input ?q stop" using True f by (subst runs_of.simps) (simp add: Let_def)
      moreover have "sanitize_from (chunk input start stop) start stop pos (runs_of input ?q stop) =
          chunk input pos ?q @ sanitize_from (chunk input start stop) start stop ?q (runs_of input ?q stop)"
        using runs_start [of input ?q stop] f less.prems(2) by (intro sanitize_split) auto
      ultimately show ?thesis using utf8_symbols_success [OF _ s] f IH lossy s by simp
    next
      case s: False
      then have "runs_of input pos stop = \<lparr>iv_pos = pos, iv_len = bytes_consumed ?u\<rparr> # runs_of input ?q stop"
        using True f by (subst runs_of.simps) (simp add: Let_def)
      then show ?thesis using utf8_symbols_replacement IH lossy s by simp
    qed
  qed
qed

lemma runs_of_snoc:
  assumes "visited input start pos" and "pos < length input"
  shows "runs_of input start (pos + bytes_consumed (common_parse_utf8_codepoint input pos)) =
    runs_of input start pos @ (if status (common_parse_utf8_codepoint input pos) = Success then []
      else [\<lparr>iv_pos = pos, iv_len = bytes_consumed (common_parse_utf8_codepoint input pos)\<rparr>])"
  using assms
proof (induction "pos - start" arbitrary: start rule: less_induct)
  case less
  let ?c = "\<lambda>p. bytes_consumed (common_parse_utf8_codepoint input p)"
  have pos: "0 < ?c pos" by (rule parse_consumes [OF less.prems(2)])
  have le: "start \<le> pos" using less.prems(1) by (induction rule: visited.induct) auto
  show ?case
  proof (cases "start = pos")
    case True
    then show ?thesis using pos less.prems(2)
      by (simp add: runs_of.simps [of input pos] runs_of.simps [of input "pos + ?c pos"] Let_def)
  next
    case False
    then have lt: "start < pos" using le by simp
    note f = visited_front [OF less.prems(1) lt]
    then have "pos - (start + ?c start) < pos - start" using parse_consumes [of start input] lt by (intro diff_less_mono2) simp_all
    with f have IH: "runs_of input (start + ?c start) (pos + ?c pos) = runs_of input (start + ?c start) pos
        @ (if status (common_parse_utf8_codepoint input pos) = Success then [] else [\<lparr>iv_pos = pos, iv_len = ?c pos\<rparr>])"
      using less.hyps [of "start + ?c start"] less.prems(2) by blast
    show ?thesis using IH lt f by (simp add: runs_of.simps [of input start] Let_def)
  qed
qed

lemma until_runs:
  "r = until_from t input lenient start pos pos invalid \<Longrightarrow> visited input start pos \<Longrightarrow> pos \<le> length input \<Longrightarrow>
   invalid = runs_of input start pos \<Longrightarrow> pr_invalid r = runs_of input start (pr_end r)"
proof (induction "length input - pos" arbitrary: pos invalid rule: less_induct)
  case less
  let ?q = "pos + bytes_consumed (common_parse_utf8_codepoint input pos)"
  have next_ok: "length input - ?q < length input - pos" "visited input start ?q" "?q \<le> length input" if "pos < length input"
    using parse_consumes [OF that] that visited_step [OF less.prems(2) that] consumed_bound [OF that] by auto
  note steps = until_from_steps [where pos = pos and input = input and t = t and lenient = lenient and start = start and invalid = invalid]
  note snoc = runs_of_snoc [OF less.prems(2)]
  from less.prems(3) show ?case
  proof (cases rule: until_cases [where lenient = lenient and t = t, consumes 1, case_names finished incomplete undecodable hit miss])
    case finished
    then show ?thesis using less.prems(1,4) steps(1) by simp
  next
    case incomplete
    then show ?thesis using less.prems(1,4) steps(2) by simp
  next
    case undecodable
    with less.hyps [OF next_ok(1) _ next_ok(2,3)] less.prems(1,4) steps(3) snoc show ?thesis by simp
  next
    case hit
    then show ?thesis using less.prems(1,4) steps(4) by simp
  next
    case miss
    with less.hyps [OF next_ok(1) _ next_ok(2,3)] less.prems(1,4) steps(5) snoc show ?thesis by simp
  qed
qed

subsection \<open>Properties\<close>

lemma word_symbols_all: "utf8_symbols (drop pos input) = Some ss \<Longrightarrow> word_symbols input pos = ss"
proof (induction "length input - pos" arbitrary: pos ss rule: less_induct)
  case less
  let ?u = "common_parse_utf8_codepoint input pos"
  show ?case
  proof (cases "pos < length input")
    case False
    with less.prems show ?thesis by (simp add: word_symbols.simps [of input pos] utf8_symbols.simps [of "[]"])
  next
    case True
    have shift: "common_parse_utf8_codepoint (drop pos input) 0 = ?u" by (rule parse_shift [OF True])
    have "drop pos input \<noteq> []" using True by simp
    with less.prems shift obtain ss' where ss: "status ?u = Success" "ss = codepoint ?u # ss'"
      "utf8_symbols (drop (pos + bytes_consumed ?u) input) = Some ss'"
      by (subst (asm) utf8_symbols.simps) (auto simp: Let_def add.commute split: if_splits)
    have "length input - (pos + bytes_consumed ?u) < length input - pos"
      using parse_success_consumes [OF ss(1)] True by (intro diff_less_mono2) simp_all
    from less.hyps [OF this ss(3)] True ss(1,2) show ?thesis by (simp add: word_symbols.simps [of input pos] Let_def)
  qed
qed

text \<open>The rest of the input, all of it decodable, is the beginning of a delimiter.\<close>

definition cut_by_end :: "byte list list \<Rightarrow> byte list \<Rightarrow> nat \<Rightarrow> bool" where
  "cut_by_end delimiters input pos \<longleftrightarrow>
     (\<exists>ss. utf8_symbols (drop pos input) = Some ss \<and> ss \<noteq> [] \<and> (\<exists>d \<in> set delimiters. prefix ss (word_symbols d 0)))"

text \<open>The text up to a sequence that does not decode is the beginning of a delimiter.\<close>

definition cut_by_undecodable :: "byte list list \<Rightarrow> byte list \<Rightarrow> nat \<Rightarrow> bool" where
  "cut_by_undecodable delimiters input pos \<longleftrightarrow>
     utf8_symbols (drop pos input) = None \<and> delimiter_begun delimiters input pos"

lemma begun_cut: "delimiter_begun delimiters input pos \<longleftrightarrow> cut_by_end delimiters input pos \<or> cut_by_undecodable delimiters input pos"
  using word_symbols_all [of pos input] by (cases "utf8_symbols (drop pos input)")
    (auto simp: cut_by_end_def cut_by_undecodable_def delimiter_begun_def)

lemma until_at_stops:
  assumes "start \<le> length input" and "r = until_at delimiters input lenient start"
  shows "visited input start (pr_end r) \<and> undelimited delimiters input start (pr_end r)
    \<and> (case pr_type r of
         PEG_FAIL \<Rightarrow> False
       | PEG_SUCCESS \<Rightarrow> delimiter_at delimiters input (pr_end r) \<or> delimiter_begun delimiters input (pr_end r)
           \<or> pr_end r = length input \<and> \<not> lenient
       | PEG_NEED_MORE_INPUT \<Rightarrow> lenient \<and>
           (pr_end r = length input \<or> status (common_parse_utf8_codepoint input (pr_end r)) = Incomplete))"
proof (rule until_stops)
  have "start \<le> p" if "visited input start p" for p using that by (induction rule: visited.induct) auto
  then show "undelimited delimiters input start start" by fastforce
qed (use assms in \<open>simp_all add: until_at_def visited_start\<close>)

text \<open>C20. Text up to a delimiter. From a position inside the input the scan visits one code point or one run of
  undecodable bytes at a time, and never fails. No delimiter starts at a position passed. The scan succeeds in one of
  four places: where a delimiter starts; where all of the rest of the input begins one, as the comment in the
  loop says (and also when the input is complete, where the grammar \<open>(!delim .)*\<close> of the header would go on);
  at the end of a complete input; and, which no comment provides for, where what follows begins a delimiter up to
  a sequence that does not decode (\<open>until_stops_early\<close> below). So on input that decodes from where the scan stops
  it is the first three. It asks for more only leniently, at the end of the input or before an incomplete sequence.\<close>

theorem until_finds_delimiter:
  assumes "start \<le> length input" and "r = until_at delimiters input lenient start"
  shows "visited input start (pr_end r)
    \<and> (\<forall>p < pr_end r. visited input start p \<longrightarrow> \<not> delimiter_at delimiters input p
         \<and> \<not> cut_by_end delimiters input p \<and> \<not> cut_by_undecodable delimiters input p)
    \<and> (case pr_type r of
         PEG_FAIL \<Rightarrow> False
       | PEG_SUCCESS \<Rightarrow> delimiter_at delimiters input (pr_end r) \<or> cut_by_end delimiters input (pr_end r)
           \<or> pr_end r = length input \<and> \<not> lenient \<or> cut_by_undecodable delimiters input (pr_end r)
       | PEG_NEED_MORE_INPUT \<Rightarrow> lenient \<and>
           (pr_end r = length input \<or> status (common_parse_utf8_codepoint input (pr_end r)) = Incomplete))"
  using until_at_stops [OF assms] unfolding begun_cut by (cases "pr_type r") auto

lemma until_finds_delimiter_witness:
  "pr_type (until_at [[60, 47, 116]] [97, 0xFF, 98, 60, 47, 116] False 0) = PEG_SUCCESS
   \<and> pr_end (until_at [[60, 47, 116]] [97, 0xFF, 98, 60, 47, 116] False 0) = 3
   \<and> delimiter_at [[60, 47, 116]] [97, 0xFF, 98, 60, 47, 116] 3"
proof -
  have r: "until_at [[60, 47, 116]] [97, 0xFF, 98, 60, 47, 116] False 0 =
      until_result PEG_SUCCESS 0 3 [\<lparr>iv_pos = 1, iv_len = 1\<rparr>]" by code_simp
  have "word_symbols [60, 47, 116] 0 = [60, 47, 116]" "utf8_symbols (drop 3 [97, 0xFF, 98, 60, 47, 116]) = Some [60, 47, 116]"
    by code_simp+
  then have "cut_by_end [[60, 47, 116]] [97, 0xFF, 98, 60, 47, 116] 3 \<or> cut_by_undecodable [[60, 47, 116]] [97, 0xFF, 98, 60, 47, 116] 3
      \<longrightarrow> delimiter_at [[60, 47, 116]] [97, 0xFF, 98, 60, 47, 116] 3"
    using word_symbols_all [of 3 "[97, 0xFF, 98, 60, 47, 116]"] by (simp add: delimiter_at_def cut_by_undecodable_def)
  with until_finds_delimiter [OF _ r [symmetric]] show ?thesis unfolding r by auto
qed

text \<open>An undecodable byte after the first characters of a delimiter counts as the end of the input: for the delimiter
  \<open></t>\<close> the scan stops before the \<open><\<close> of \<open>a<\<close>, although the next byte can never continue the delimiter, and a
  parser of the text up to and including it fails on the complete input.\<close>

lemma until_stops_early:
  "until_at [[60, 47, 116, 62]] [97, 60, 0xFF, 98, 60, 47, 116, 62] False 0 = until_result PEG_SUCCESS 0 1 []"
  "peg_parse_root 9 \<lparr>ar_parsers = [Sequence_P [1, 2], Until_P [[60, 47, 116, 62]], Literal_P [60, 47, 116, 62]],
      ar_rules = [], ar_root = Some 0\<rparr> [97, 60, 0xFF, 98, 60, 47, 116, 62] False 0 = Some (Inr (peg_result_at PEG_FAIL 0 1, []))"
  by code_simp+

text \<open>C32. Undecodable bytes in tagged text. The node that a tag makes of the text up to a delimiter has a sanitised
  text that is UTF-8 from its start to its end, and decodes to the code points of the text consumed with one
  U+FFFD in place of each run of bytes that does not decode.\<close>

theorem tagged_text_sanitized:
  assumes "tag_id < length (ar_parsers A)" and "ar_parsers A ! tag_id = Tag_P until_id tag"
    and "until_id < length (ar_parsers A)" and "ar_parsers A ! until_id = Until_P delimiters" and "start \<le> length input"
  shows "\<exists>r nd. peg_parse (Suc (Suc n)) A input lenient tag_id start ast = Some (Inr (r, ast @ [nd])) \<and> pr_nodes r = [length ast]
    \<and> nd_start nd = start \<and> nd_end nd = pr_end (until_at delimiters input lenient start)
    \<and> utf8_symbols (sanitized_text nd) = Some (lossy_symbols input start (nd_end nd))"
proof -
  let ?r = "until_at delimiters input lenient start"
  have v: "visited input start (pr_end ?r)" and t: "pr_type ?r \<noteq> PEG_FAIL"
    using until_at_stops [OF assms(5) refl, of delimiters lenient] by auto
  have ok: "result_ok input lenient start [] ?r"
    using until_ok [of start start input start "[]"] assms(5) by (simp add: until_at_def)
  then have e: "start \<le> pr_end ?r" "pr_end ?r \<le> length input" "pr_start ?r = start" by (simp_all add: result_ok_def)
  have runs: "pr_invalid ?r = runs_of input start (pr_end ?r)"
    using until_runs [of ?r "trie_of_words delimiters" input lenient start start "[]"] assms(5)
    by (simp add: until_at_def visited_start runs_of.simps [of input start start])
  let ?nd = "\<lparr>nd_id = length ast, nd_rule = [], nd_tag = tag, nd_start = start, nd_end = pr_end ?r,
    nd_text = (if start < length input then take (pr_end ?r - start) (drop start input) else []),
    nd_children = pr_nodes ?r, nd_partial = (pr_type ?r = PEG_NEED_MORE_INPUT), nd_invalid = pr_invalid ?r\<rparr>"
  have run: "peg_parse (Suc (Suc n)) A input lenient tag_id start ast = Some (Inr (?r\<lparr>pr_nodes := [length ast]\<rparr>, ast @ [?nd]))"
    using assms(1-4) t e(3) by (simp add: exec_parser_def peg_bind_def peg_return_def add_node_def Let_def)
  have slice: "nd_text ?nd = chunk input start (pr_end ?r)" by (simp add: chunk_def)
  have "sanitized_text ?nd = sanitize_from (chunk input start (pr_end ?r)) start (pr_end ?r) start (pr_invalid ?r)"
    unfolding sanitized_text_def slice by (simp add: chunk_def)
  then have "utf8_symbols (sanitized_text ?nd) = Some (lossy_symbols input start (pr_end ?r))"
    using sanitize_runs [OF e(2) v order_refl e(1)] unfolding runs by simp
  with run show ?thesis by (intro exI [of _ "?r\<lparr>pr_nodes := [length ast]\<rparr>"] exI [of _ ?nd]) simp
qed

lemma tagged_text_sanitized_witness:
  "\<exists>r nd. peg_parse 2 \<lparr>ar_parsers = [Tag_P 1 [116], Until_P [[60]]], ar_rules = [], ar_root = Some 0\<rparr>
       [97, 0xFF, 98, 60] False 0 0 [] = Some (Inr (r, [nd]))
     \<and> nd_end nd = 3 \<and> utf8_symbols (sanitized_text nd) = Some [97, 0xFFFD, 98]"
proof -
  let ?A = "\<lparr>ar_parsers = [Tag_P 1 [116], Until_P [[60]]], ar_rules = [], ar_root = Some 0\<rparr>"
  have e: "pr_end (until_at [[60]] [97, 0xFF, 98, 60] False 0) = 3" by code_simp
  have l: "lossy_symbols [97, 0xFF, 98, 60] 0 3 = [97, 0xFFFD, 98]" by code_simp
  have "0 < length (ar_parsers ?A)" "ar_parsers ?A ! 0 = Tag_P 1 [116]" "1 < length (ar_parsers ?A)"
    "ar_parsers ?A ! 1 = Until_P [[60]]" "0 \<le> length [97, 0xFF, 98, 60 :: byte]" by simp_all
  from tagged_text_sanitized [OF this, of 0 False "[]"] obtain r nd where
    run: "peg_parse (Suc (Suc 0)) ?A [97, 0xFF, 98, 60] False 0 0 [] = Some (Inr (r, [] @ [nd]))"
    and nd: "nd_end nd = pr_end (until_at [[60]] [97, 0xFF, 98, 60] False 0)"
      "utf8_symbols (sanitized_text nd) = Some (lossy_symbols [97, 0xFF, 98, 60] 0 (nd_end nd))" by blast
  have stop: "nd_end nd = 3" using nd(1) unfolding e .
  show ?thesis
  proof (intro exI conjI)
    show "peg_parse 2 ?A [97, 0xFF, 98, 60] False 0 0 [] = Some (Inr (r, [nd]))"
      using run unfolding numeral_2_eq_2 append_Nil .
    show "utf8_symbols (sanitized_text nd) = Some [97, 0xFFFD, 98]" using nd(2) unfolding stop l .
  qed (rule stop)
qed

end
