(* ===== verification/Spec2Isabelle.thy ===== *)
theory Spec2Isabelle
  imports Sj_Pool Kv_Init Gr_Init Sampler_Route Ac_Generates Peg_Until
begin

text \<open>
  A verification library for the host-side control logic of llamAmpere, a fork of llama.cpp.

  \<^bold>\<open>The program.\<close> A decode call hands a batch of tokens to the context. The batch allocator
  (\<open>src/llama-batch.cpp\<close>) checks it and cuts it into ubatches; the KV cache
  (\<open>src/llama-kv-cache.cpp\<close>, over the cell metadata of \<open>src/llama-kv-cells.h\<close>) finds cells for each
  ubatch, in a dry run first, and records positions and sequences in them. Clients edit the cache by
  sequence: remove, copy, keep, shift, divide. In the SJ-KVaRN mode of this fork most cells are
  compressed into sealed records while a staging ring holds the newest ones exactly; several streams
  share a paged pool of records. On the output side the grammar code (\<open>src/llama-grammar.cpp\<close>) parses a
  GBNF text into rules, builds a pushdown engine, masks the candidate tokens the grammar cannot take
  and advances on the accepted one, with the UTF-8 decoders it shares with \<open>common/unicode.cpp\<close>.
  Around it, \<open>src/common\<close> finds delimiters with tries and Aho-Corasick automata (\<open>trie.cpp\<close>), bounds the tokens of
  a reasoning block (\<open>reasoning-budget.cpp\<close>), routes each accepted token to budget, grammar and history
  (\<open>sampling.cpp\<close>), prints grammars for text up to a delimiter and takes the output of a model apart with parsing
  expressions (\<open>peg-parser.cpp\<close>).
  These are the parts modelled, each from the source, in this order:

  \<^item> \<open>Prelude\<close>: assertions in the option monad, loops over a state that may stop, list update.
  \<^item> \<open>Kv_Cells\<close>: \<open>class llama_kv_cells\<close> as a record of its vectors and of the indices it derives from
    them (used cells, positions per sequence, counters). Every mutator is a definition; \<open>kv_cells_inv\<close>
    ties indices to vectors and every mutator keeps it; the constant-time queries equal scans; a
    history of updates refines a map from cells to contents, and runs without a failing assertion exactly if each
    update meets its stated condition; \<open>cp\<close> and \<open>set\<close> restore.
  \<^item> \<open>Sj_Kvarn\<close>: the bookkeeping of one SJ-KVaRN stream (sink, sealed groups, staging ring, publication
    epochs, truncation floor) as a step relation, in each of its three seal modes; reachable states read back every
    present cell as it was stored or, when sealed, as the lossy quantisation of what was stored (a parameter),
    no assertion fails, and a removal does nothing or exactly its work. The mode with a split grid has
    intervals in which a grid is stale; the statements name them. \<open>Sj_Pool\<close>: the paged record pool with its free
    list, tables and reference counts, through histories that truncate at any cell and refuse a seal when the
    pool is exhausted: the counts are exact, records in use are never free, a seal disturbs no other stream.
  \<^item> \<open>Kv_Cache\<close>, \<open>Kv_Ops\<close>: the sequence operations of \<open>llama_kv_cache\<close> in both walks of \<open>seq_rm\<close>, the
    position queries and the search heads. The scans over cells share the locale \<open>cell_edit\<close>
    (a loop body that edits one cell), interpreted for each operation; histories of operations refine a view by
    sequence. \<open>Kv_Slot\<close>, \<open>Kv_Place\<close>: \<open>find_slot\<close>, \<open>apply_ubatch\<close>, \<open>prepare\<close>: the search returns and is
    complete, with the SJ-KVaRN placement of this fork too; placing keeps the invariant and the continuity of
    sequences, up to the sink a sliding window keeps; the dry run of a cache without SJ-KVaRN restores the cells.
  \<^item> \<open>Batch\<close>, \<open>Batch_Ext\<close>: ubatches and the batch builder. \<open>Batch_Alloc\<close>, \<open>Batch_Check\<close>: the allocator and its
    acceptance test, equal to a declarative specification; an entry with an empty list of sequences, whose first
    element the code reads, is an error of its own. \<open>Batch_Split\<close>, \<open>Batch_Equal\<close>, \<open>Batch_Cuts\<close>:
    the three splitters, all interpretations of the locale \<open>splitter\<close> (a call takes some of the remaining
    tokens, in order within a group, and reports the end), and what repeated calls return.
  \<^item> \<open>Kv_Init\<close>: \<open>init_batch\<close>, the composition of allocator and cache.
  \<^item> \<open>Gr_Utf8\<close>: the two decoders of the grammar code and the codecs of \<open>common/unicode.cpp\<close>: round trips, and
    decoding in pieces. \<open>Gr_Engine\<close>: element matching, stack expansion, acceptance, left-recursion check.
    \<open>Gr_Lang\<close>: the language of a grammar as an inductive predicate, and that the engine keeps it.
    \<open>Gr_Left\<close>: what the left-recursion check decides, what it misses (rules that are empty only through other
    rules), and that the engine accepts exactly the language of rules without left recursion. \<open>Gr_Sample\<close>:
    masking, accepting, lazy triggers, for rules with characters and with token elements; where the mask and the
    acceptance part (a zero character, a token element in the middle of a piece) is stated exactly.
    \<open>Gr_Parser\<close>, \<open>Gr_Parse_Wf\<close>, \<open>Gr_Repeat\<close>: the parser, that it returns on every text, that its rules are
    well formed, and that repetitions mean what the documentation says. \<open>Gr_Init\<close>: from text to engine.
  \<^item> \<open>Trie_Ac\<close>, \<open>Ac_Automaton\<close>: \<open>common/trie.cpp\<close>. Every node stands for a prefix of an inserted word, failure links
    lead to longest proper suffixes; reading a text ends in its longest suffix that is a node and reports the
    longest inserted word that ends it.
  \<^item> \<open>Reasoning_Budget\<close>: the state machine of \<open>common/reasoning-budget.cpp\<close> over two token matchers. Reachable states
    (by initialisation, accept, reset, force) carry an invariant that says which text each matcher has read; from it
    the course of a block, however it begins: counting, waiting, the end found, forcing, termination. \<open>Sampler_Route\<close>: the ring buffer of
    \<open>common/sampling.cpp\<close> as a bounded list, and \<open>common_sampler_accept\<close> over budget and lazy grammar.
  \<^item> \<open>Ac_Grammar\<close>: the grammars \<open>common/peg-parser.cpp\<close> prints for delimiters, with the rule table of
    \<open>common/json-schema-to-grammar.cpp\<close>. \<open>Gbnf_Parse\<close>: printed rules read back by \<open>Gr_Parser\<close> to the rules they were
    printed from. \<open>Ac_Language\<close>, \<open>Ac_Generates\<close>: the locales \<open>state_grammar\<close> (what a printer of the rule of one state
    promises) and \<open>step_grammar\<close> (its alternates step as the automaton does), interpreted for both printers;
    so the engine built from the printed text accepts the strings without a delimiter, or up to the first one;
    for an empty delimiter or one with a caret the printed grammar is another, which is shown as well.
  \<^item> \<open>Peg_Parser\<close>: the interpreter \<open>parser_executor\<close> of \<open>common/peg-parser.cpp\<close>, one function per kind of parser, and
    the arena of syntax nodes. \<open>Peg_Spans\<close>: postconditions of runs; the locale \<open>peg_caller\<close> is the contract of a call
    (results and nodes span their part of the input), kept by every combinator and interpreted for the interpreter
    at each depth. \<open>Peg_Returns\<close>: the locale \<open>empty_caller\<close> adds which parsers may succeed on nothing; arenas that can be
    ranked against left recursion return. \<open>Peg_Until\<close>: the parser of text up to a delimiter against a scan over
    decoded positions, and the sanitised text of its node.

  \<^bold>\<open>Conventions.\<close> A record has the fields of the class, without logging and timing. Indices and sizes
  whose width does not matter to a claim are \<open>nat\<close> or \<open>int\<close>; code points, ids, repetition bounds and the
  UTF-8 accumulators are words of their width, so shifts, sums and differences wrap as in the code. A failing
  \<open>GGML_ASSERT\<close> is \<open>None\<close> in the cache and batch theories and \<open>Abort\<close> in the grammar theories, where
  \<open>None\<close> means that the code does not return; a thrown exception or a refused call is a value
  (\<open>Inl\<close>, \<open>False\<close>, a status). A C string is the list of its bytes, its end reads as NUL.

  \<^bold>\<open>Loops and fuel.\<close> Loops over containers are structural. \<open>advance_loop\<close> is a partial function, since it
  can fail to return; that it returns is a theorem for the rules that pass the check. The recursion of the left-recursion check has
  fuel \<open>length rules + 1\<close>: each level marks one more rule as in progress. Candidate rejection has one
  unit of fuel per remaining code point. The grammar parser has one unit per remaining byte and one more: each item
  and each nested group consumes at least one. The slot search and the splitters state their iteration bounds with the loops;
  that none runs out is proved where they return. The climb along failure links and the breadth-first search of
  the automaton are bounded by the number of nodes plus one; \<open>make_ac_ok\<close> and \<open>ac_next_ok\<close> show that both always return. The interpreter of parsing
  expressions has one unit of fuel per level of recursion; from a bound linear in the input on a guarded arena gives the same
  result for every fuel. A repetition has one unit per byte of input and one more, which never runs out.

  \<^bold>\<open>Parameters.\<close> Regular expressions of lazy triggers, the pieces and end-of-generation flags of the vocabulary
  (for the reasoning budget an optional vocabulary), its tokenizer and the sampler chain are arguments of the definitions that use them, with no hypothesis on them except where a
  theorem states one. Tensor data is outside the model: of the KV cache and of the batch embeddings only the bookkeeping is described.

  \<^bold>\<open>Not modelled.\<close> Graph building, backends and numeric kernels (floating point, device code); the decode loop
  and model loading, which interleave device and file work; the transforms and random
  draws of the samplers, tokenizers, chat templates, the building and printing of parser arenas,
  the conversion of JSON schemas and the command line; the recurrent, hybrid, sliding-window and sparse-attention memories; the
  saving of cache state to a byte stream; printing of grammars. The manifest lists each with its reason.
\<close>

end
